(* ===== verification/Prelude.thy ===== *)
theory Prelude
  imports Main "HOL-Library.Monad_Syntax" "HOL-Library.Word"
begin

text \<open>
  Shared vocabulary of the development: the panic monad (an operation that may panic returns an
  \<open>option\<close>, \<open>None\<close> being the panic), the reasoning principle \<open>no_panic\<close> for it, the result
  of a Rust comparison, fixed-capacity vectors, chunking of lists and the machine counters
  (\<open>u64\<close>, \<open>u32\<close>, \<open>u16\<close>) with checked and saturating arithmetic.
\<close>

section \<open>Collections of facts\<close>

named_theorems panic_intros \<open>introduction rules for \<open>no_panic\<close>\<close>
named_theorems node_simps \<open>unfolding of the tree accessors\<close>
named_theorems av_defs \<open>definitions of the fixed-capacity vector operations\<close>

section \<open>Panics\<close>

text \<open>\<open>None\<close> is a panic (a failed \<open>unwrap\<close>, an index out of bounds, a full fixed-capacity
  vector, a failed \<open>assert!\<close>); \<open>Some r\<close> is the normal return of \<open>r\<close>.\<close>

type_synonym 'a panics = "'a option"

text \<open>\<open>no_panic m P\<close>: the computation \<open>m\<close> returns and its result satisfies \<open>P\<close>.\<close>

definition no_panic :: "'a panics \<Rightarrow> ('a \<Rightarrow> bool) \<Rightarrow> bool" where
  "no_panic m P \<longleftrightarrow> (\<exists>r. m = Some r \<and> P r)"

lemma no_panic_Some [panic_intros]: "P r \<Longrightarrow> no_panic (Some r) P"
  by (simp add: no_panic_def)

lemma no_panic_bind [panic_intros]:
  assumes "no_panic m Q" and "\<And>x. Q x \<Longrightarrow> no_panic (f x) P"
  shows "no_panic (m \<bind> f) P"
  using assms by (auto simp: no_panic_def)

lemma no_panic_mono: "no_panic m Q \<Longrightarrow> (\<And>x. Q x \<Longrightarrow> P x) \<Longrightarrow> no_panic m P"
  by (auto simp: no_panic_def)

lemma no_panic_ex: "no_panic m P \<longleftrightarrow> (\<exists>r. m = Some r \<and> P r)"
  by (simp add: no_panic_def)

lemma no_panicE: "no_panic m P \<Longrightarrow> (\<And>r. m = Some r \<Longrightarrow> P r \<Longrightarrow> thesis) \<Longrightarrow> thesis"
  by (auto simp: no_panic_def)

lemma no_panic_Some_iff [simp]: "no_panic (Some r) P \<longleftrightarrow> P r"
  by (simp add: no_panic_def)

lemma no_panic_None [simp]: "\<not> no_panic None P"
  by (simp add: no_panic_def)

lemma no_panic_the: "no_panic m P \<Longrightarrow> m = Some r \<Longrightarrow> P r"
  by (auto simp: no_panic_def)

section \<open>Draining an iterator\<close>

text \<open>\<open>collect\<close> on an iterator given by its \<open>next\<close>. A panic, and never coming to the end, are \<open>None\<close>.\<close>

partial_function (option) drain :: "('i \<Rightarrow> ('x option \<times> 'i) panics) \<Rightarrow> 'i \<Rightarrow> 'x list panics" where
  "drain nxt it = do {
     (r, it') \<leftarrow> nxt it;
     case r of
       Some x \<Rightarrow> do { xs \<leftarrow> drain nxt it'; Some (x # xs) }
     | None \<Rightarrow> Some []
   }"

text \<open>An iterator that steps through the states \<open>R n\<close> and yields \<open>xs ! n\<close> at state \<open>n\<close> drains to the rest of \<open>xs\<close>.\<close>

lemma drain_list:
  assumes "\<And>n it. R n it \<Longrightarrow> n < length xs \<Longrightarrow> \<exists>it'. nxt it = Some (Some (xs ! n), it') \<and> R (Suc n) it'"
    and "\<And>it. R (length xs) it \<Longrightarrow> \<exists>it'. nxt it = Some (None, it')"
    and "R n it" and "n \<le> length xs"
  shows "drain nxt it = Some (drop n xs)"
  using assms(3,4)
proof (induction "length xs - n" arbitrary: n it)
  case 0
  then show ?case using assms(2) [of it] by (subst drain.simps) auto
next
  case (Suc m)
  then have n: "n < length xs" by simp
  with Suc.prems assms(1) obtain it' where it': "nxt it = Some (Some (xs ! n), it')" "R (Suc n) it'" by blast
  with Suc.hyps(1) [of "Suc n" it'] Suc.hyps(2) n have "drain nxt it' = Some (drop (Suc n) xs)" by simp
  with it' n show ?case by (subst drain.simps) (simp flip: Cons_nth_drop_Suc)
qed

section \<open>Comparison results\<close>

text \<open>\<open>std::cmp::Ordering\<close>.\<close>

datatype ordering = Less | Equal | Greater

definition cmp_of :: "'k::linorder \<Rightarrow> 'k \<Rightarrow> ordering" where
  "cmp_of x y = (if x < y then Less else if x = y then Equal else Greater)"

lemma cmp_of_eq_simps [simp]:
  "cmp_of x y = Less \<longleftrightarrow> x < y"
  "cmp_of x y = Equal \<longleftrightarrow> x = y"
  "cmp_of x y = Greater \<longleftrightarrow> y < x"
  by (auto simp: cmp_of_def)

section \<open>Fixed-capacity vectors\<close>

text \<open>
  \<open>heapless::Vec<T, N, u8>\<close> is a vector that never holds more than its capacity. Its code is a
  third-party crate, so whether \<open>n\<close> elements fit into a vector of capacity \<open>c\<close> is a parameter
  \<open>fits c n\<close> of every operation; what the program relies on, that \<open>n \<le> c\<close> elements fit, is the
  assumption \<open>vec_holds\<close> of the locales below. The contents are lists, first element first.
\<close>

type_synonym vec_capacity = "nat \<Rightarrow> nat \<Rightarrow> bool"

definition av_push :: "vec_capacity \<Rightarrow> nat \<Rightarrow> 'a list \<Rightarrow> 'a \<Rightarrow> 'a list panics" where [av_defs]:
  "av_push fits c xs x = (if fits c (Suc (length xs)) then Some (xs @ [x]) else None)"

definition av_insert0 :: "vec_capacity \<Rightarrow> nat \<Rightarrow> 'a list \<Rightarrow> 'a \<Rightarrow> 'a list panics" where [av_defs]:
  "av_insert0 fits c xs x = (if fits c (Suc (length xs)) then Some (x # xs) else None)"

definition av_extend :: "vec_capacity \<Rightarrow> nat \<Rightarrow> 'a list \<Rightarrow> 'a list \<Rightarrow> 'a list panics" where [av_defs]:
  "av_extend fits c xs ys = (if fits c (length xs + length ys) then Some (xs @ ys) else None)"

definition av_collect :: "vec_capacity \<Rightarrow> nat \<Rightarrow> 'a list \<Rightarrow> 'a list panics" where [av_defs]:
  "av_collect fits c xs = (if fits c (length xs) then Some xs else None)"

section \<open>Lists\<close>

lemma butlast_last_append: "xs \<noteq> [] \<Longrightarrow> butlast xs @ [last xs] = xs"
  by simp

lemma size_member_list: "x \<in> set xs \<Longrightarrow> f x \<le> size_list f xs"
  by (induction xs) auto

lemma length_concat_ge:
  assumes "\<forall>x \<in> set xs. c \<le> length (f x)"
  shows "length xs * c \<le> length (concat (map f xs))"
  using assms by (induction xs) auto

lemma concat_map_butlast_last:
  "xs \<noteq> [] \<Longrightarrow> concat (map f xs) = concat (map f (butlast xs)) @ f (last xs)"
  by (induction xs) auto

lemma concat_map_concat: "concat (map f (concat xss)) = concat (map (\<lambda>xs. concat (map f xs)) xss)"
  by (induction xss) auto

lemma map_butlast_snoc: "xs \<noteq> [] \<Longrightarrow> butlast (map f xs) @ [f y] = map f (butlast xs @ [y])"
  by (simp add: map_butlast)

lemma foldl_take_nth:
  "i < length xs \<Longrightarrow> foldl f a (take (Suc i) xs) = f (foldl f a (take i xs)) (xs ! i)"
  by (simp add: take_Suc_conv_app_nth)

text \<open>\<open>chunks n xs\<close> cuts \<open>xs\<close> into pieces of \<open>n\<close> elements, the last one possibly shorter.\<close>

function chunks :: "nat \<Rightarrow> 'a list \<Rightarrow> 'a list list" where
  "chunks n xs = (if n = 0 \<or> xs = [] then [] else take n xs # chunks n (drop n xs))"
  by pat_completeness auto
termination
  by (relation "measure (\<lambda>(n, xs). length xs)") auto

declare chunks.simps [simp del]

lemma chunks_Nil [simp]: "chunks n [] = []"
  by (simp add: chunks.simps)

lemma chunks_step: "0 < n \<Longrightarrow> xs \<noteq> [] \<Longrightarrow> chunks n xs = take n xs # chunks n (drop n xs)"
  by (subst chunks.simps) simp

lemma concat_chunks: "0 < n \<Longrightarrow> concat (chunks n xs) = xs"
proof (induction n xs rule: chunks.induct)
  case (1 n xs)
  then show ?case by (cases "xs = []") (simp_all add: chunks_step)
qed

lemma chunks_bounds: "ys \<in> set (chunks n xs) \<Longrightarrow> ys \<noteq> [] \<and> length ys \<le> n"
proof (induction n xs rule: chunks.induct)
  case (1 n xs)
  then show ?case
    by (cases "n = 0 \<or> xs = []") (auto simp: chunks.simps [of n xs])
qed

lemma length_chunks_half: "2 \<le> n \<Longrightarrow> 2 * length (chunks n xs) \<le> length xs + 1"
proof (induction n xs rule: chunks.induct)
  case (1 n xs)
  show ?case
  proof (cases "length xs \<le> n")
    case True
    with 1 show ?thesis by (cases xs) (auto simp: chunks_step)
  next
    case False
    with 1 have "2 * length (chunks n (drop n xs)) \<le> length (drop n xs) + 1" by force
    with False 1 show ?thesis by (cases "xs = []") (auto simp: chunks_step)
  qed
qed

lemma length_chunks_less: "2 \<le> n \<Longrightarrow> 1 < length xs \<Longrightarrow> length (chunks n xs) < length xs"
  using length_chunks_half [of n xs] by linarith

lemma length_chunks_le: "0 < n \<Longrightarrow> length xs \<le> n * k \<Longrightarrow> length (chunks n xs) \<le> k"
proof (induction k arbitrary: xs)
  case (Suc k)
  then show ?case using Suc.IH [of "drop n xs"] by (cases "xs = []") (simp_all add: chunks_step)
qed simp

section \<open>Machine counters\<close>

type_synonym u64 = "64 word"
type_synonym u32 = "32 word"
type_synonym u16 = "16 word"

text \<open>\<open>u64::checked_add(1)\<close>, \<open>u64::saturating_add(1)\<close> and \<open>u32::saturating_add(1)\<close>.\<close>

definition checked_succ :: "'w::len word \<Rightarrow> 'w word option" where
  "checked_succ x = (if x = - 1 then None else Some (x + 1))"

definition saturating_succ :: "'w::len word \<Rightarrow> 'w word" where
  "saturating_succ x = (if x = - 1 then x else x + 1)"

text \<open>\<open>saturating_mul\<close> and \<open>saturating_add\<close>; the checked \<open>+\<close> of a build with overflow checks.\<close>

definition saturating_mul :: "'w::len word \<Rightarrow> 'w word \<Rightarrow> 'w word" where
  "saturating_mul x y = (if unat x * unat y < 2 ^ LENGTH('w) then x * y else - 1)"

definition saturating_add :: "'w::len word \<Rightarrow> 'w word \<Rightarrow> 'w word" where
  "saturating_add x y = (if unat x + unat y < 2 ^ LENGTH('w) then x + y else - 1)"

definition add_or_panic :: "'w::len word \<Rightarrow> 'w word \<Rightarrow> 'w word panics" where
  "add_or_panic x y = (if unat x + unat y < 2 ^ LENGTH('w) then Some (x + y) else None)"

lemma unat_saturating_add_le: "unat (saturating_add x y) \<le> unat x + unat y"
proof (cases "unat x + unat y < 2 ^ LENGTH('a)")
  case True
  then show ?thesis by (simp add: saturating_add_def unat_word_ariths)
next
  case False
  have "unat (- 1 :: 'a word) < 2 ^ LENGTH('a)" by (rule unsigned_less)
  then have "unat (- 1 :: 'a word) \<le> unat x + unat y" using False by linarith
  with False show ?thesis by (simp only: saturating_add_def if_False)
qed

lemma unat_saturating_add: "unat x + unat (y :: 'w::len word) < 2 ^ LENGTH('w) \<Longrightarrow> unat (saturating_add x y) = unat x + unat y"
  by (simp add: saturating_add_def unat_word_ariths)

lemma add_or_panic_Some: "unat x + unat (y :: 'w::len word) < 2 ^ LENGTH('w) \<Longrightarrow>
    \<exists>z. add_or_panic x y = Some z \<and> unat z = unat x + unat y"
  by (simp add: add_or_panic_def unat_word_ariths)

lemma unat_succ: "(x :: 'w::len word) \<noteq> - 1 \<Longrightarrow> unat (x + 1) = Suc (unat x)"
  by (metis add.commute add_eq_0_iff2 unatSuc)

lemma checked_succ_Some: "checked_succ x = Some y \<Longrightarrow> unat y = Suc (unat x)"
  by (auto simp: checked_succ_def unat_succ split: if_splits)

lemma saturating_succ_mono: "unat x \<le> unat (saturating_succ x)"
  by (simp add: saturating_succ_def unat_succ)

end
