(* ===== verification/ST_Node.thy ===== *)
theory ST_Node
  imports Prelude
begin

text \<open>
  The data model of \<open>crates/sum_tree\<close>: the \<open>Item\<close>/\<open>Summary\<close>/\<open>Dimension\<close> traits as records of
  operations, \<open>Node\<close> as a datatype with the source's constructors, its accessors, the abstraction
  \<open>tree_items\<close> to the list of items, and the structural invariant of the tree.
  \<open>SumTree<T>(Arc<Node<T>>)\<close> is copied before it is written (\<open>Arc::make_mut\<close>), so a tree is a value.
\<close>

section \<open>Traits as records of operations\<close>

text \<open>
  \<open>T: Item\<close> with its \<open>Summary\<close>: \<open>Item::summary\<close>, \<open>Summary::zero\<close> and \<open>Summary::add_summary\<close>, each
  already applied to the context \<open>cx\<close>, which is \<open>Copy\<close> and the same in every call of an operation.
  \<open>vec_fits\<close> is the capacity behaviour of \<open>heapless::Vec\<close> (see \<open>Prelude\<close>).
\<close>

record ('a, 's) item_ops =
  item_summary :: "'a \<Rightarrow> 's"
  summary_zero :: "'s"
  add_summary :: "'s \<Rightarrow> 's \<Rightarrow> 's"
  vec_fits :: vec_capacity

text \<open>\<open>D: Dimension<S>\<close>: \<open>zero\<close> and \<open>add_summary\<close>.\<close>

record ('s, 'd) dim_ops =
  dim_zero :: "'d"
  dim_add :: "'d \<Rightarrow> 's \<Rightarrow> 'd"

text \<open>The provided methods \<open>with_added_summary\<close> and \<open>from_summary\<close> of \<open>Dimension\<close>.\<close>

definition with_added_summary :: "('s, 'd) dim_ops \<Rightarrow> 'd \<Rightarrow> 's \<Rightarrow> 'd" where
  "with_added_summary dim d s = dim_add dim d s"

definition from_summary_dim :: "('s, 'd) dim_ops \<Rightarrow> 's \<Rightarrow> 'd" where
  "from_summary_dim dim s = dim_add dim (dim_zero dim) s"

text \<open>The blanket implementation \<open>impl Dimension<T> for T\<close>: a summary is a dimension of itself.\<close>

definition self_dim :: "('a, 's) item_ops \<Rightarrow> ('s, 's) dim_ops" where
  "self_dim ops = \<lparr>dim_zero = summary_zero ops, dim_add = add_summary ops\<rparr>"

text \<open>The unit dimension and the tuple \<open>Dimensions<D1, D2, D3>\<close>.\<close>

definition unit_dim :: "('s, unit) dim_ops" where
  "unit_dim = \<lparr>dim_zero = (), dim_add = (\<lambda>_ _. ())\<rparr>"

definition dimensions :: "('s, 'd1) dim_ops \<Rightarrow> ('s, 'd2) dim_ops \<Rightarrow> ('s, 'd3) dim_ops \<Rightarrow>
    ('s, 'd1 \<times> 'd2 \<times> 'd3) dim_ops" where
  "dimensions D1 D2 D3 =
     \<lparr>dim_zero = (dim_zero D1, dim_zero D2, dim_zero D3),
      dim_add = (\<lambda>(x, y, z) s. (dim_add D1 x s, dim_add D2 y s, dim_add D3 z s))\<rparr>"

text \<open>A \<open>SeekTarget\<close> is its comparison with a cursor location; on \<open>Dimensions\<close> it compares the
  first component.\<close>

type_synonym 'd seek_target = "'d \<Rightarrow> ordering"

definition seek_first :: "'d1 seek_target \<Rightarrow> ('d1 \<times> 'd2 \<times> 'd3) seek_target" where
  "seek_first tgt loc = tgt (fst loc)"

datatype bias = Left | Right

fun invert :: "bias \<Rightarrow> bias" where
  "invert Left = Right"
| "invert Right = Left"

section \<open>Nodes\<close>

definition TREE_BASE :: nat where
  "TREE_BASE = 6"

abbreviation CAP :: nat where
  "CAP \<equiv> 2 * TREE_BASE"

datatype ('a, 's) node =
    Internal nat 's "'s list" "('a, 's) node list"
  | Leaf 's "'a list" "'s list"

text \<open>\<open>Internal height summary child_summaries child_trees\<close> and
  \<open>Leaf summary items item_summaries\<close>. The height is a \<open>u8\<close>: additions below are taken modulo 256.\<close>

type_synonym ('a, 's) sum_tree = "('a, 's) node"

fun is_leaf :: "('a, 's) node \<Rightarrow> bool" where
  "is_leaf (Leaf _ _ _) = True"
| "is_leaf (Internal _ _ _ _) = False"

fun node_height :: "('a, 's) node \<Rightarrow> nat" where
  "node_height (Internal h _ _ _) = h"
| "node_height (Leaf _ _ _) = 0"

fun node_summary :: "('a, 's) node \<Rightarrow> 's" where
  "node_summary (Internal _ s _ _) = s"
| "node_summary (Leaf s _ _) = s"

fun child_summaries :: "('a, 's) node \<Rightarrow> 's list" where
  "child_summaries (Internal _ _ cs _) = cs"
| "child_summaries (Leaf _ _ ss) = ss"

fun child_trees :: "('a, 's) node \<Rightarrow> ('a, 's) node list panics" where
  "child_trees (Internal _ _ _ ts) = Some ts"
| "child_trees (Leaf _ _ _) = None"

fun node_items :: "('a, 's) node \<Rightarrow> 'a list panics" where
  "node_items (Leaf _ its _) = Some its"
| "node_items (Internal _ _ _ _) = None"

fun is_underflowing :: "('a, 's) node \<Rightarrow> bool" where
  "is_underflowing (Internal _ _ _ ts) = (length ts < TREE_BASE)"
| "is_underflowing (Leaf _ its _) = (length its < TREE_BASE)"

definition sum_of :: "('a, 's) item_ops \<Rightarrow> 's list \<Rightarrow> 's" where
  "sum_of ops ss = foldl (add_summary ops) (summary_zero ops) ss"

section \<open>Constructors and simple queries of SumTree\<close>

definition new :: "('a, 's) item_ops \<Rightarrow> ('a, 's) sum_tree" where
  "new ops = Leaf (summary_zero ops) [] []"

definition from_summary :: "'s \<Rightarrow> ('a, 's) sum_tree" where
  "from_summary s = Leaf s [] []"

fun is_empty :: "('a, 's) sum_tree \<Rightarrow> bool" where
  "is_empty (Internal _ _ _ _) = False"
| "is_empty (Leaf _ its _) = (its = [])"

definition extent :: "('s, 'd) dim_ops \<Rightarrow> ('a, 's) sum_tree \<Rightarrow> 'd" where
  "extent dim t = dim_add dim (dim_zero dim) (node_summary t)"

lemma size_child: "t \<in> set ts \<Longrightarrow> size t < size (Internal h s cs ts)"
  using size_member_list [of t ts size] by simp

lemma size_hd_child: "ts \<noteq> [] \<Longrightarrow> size (hd ts) < size (Internal h s cs ts)"
  by (rule size_child) simp

lemma size_last_child: "ts \<noteq> [] \<Longrightarrow> size (last ts) < size (Internal h s cs ts)"
  by (rule size_child) simp

function leftmost_leaf :: "('a, 's) sum_tree \<Rightarrow> ('a, 's) sum_tree panics" where
  "leftmost_leaf (Leaf s its ss) = Some (Leaf s its ss)"
| "leftmost_leaf (Internal h s cs ts) = (if ts = [] then None else leftmost_leaf (hd ts))"
  by pat_completeness auto
termination
  by (relation "measure size") (use size_hd_child in auto)

function rightmost_leaf :: "('a, 's) sum_tree \<Rightarrow> ('a, 's) sum_tree panics" where
  "rightmost_leaf (Leaf s its ss) = Some (Leaf s its ss)"
| "rightmost_leaf (Internal h s cs ts) = (if ts = [] then None else rightmost_leaf (last ts))"
  by pat_completeness auto
termination
  by (relation "measure size") (use size_last_child in auto)

text \<open>\<open>slice::first\<close> and \<open>slice::last\<close>.\<close>

definition vec_first :: "'x list \<Rightarrow> 'x option" where
  "vec_first xs = (if xs = [] then None else Some (hd xs))"

definition vec_last :: "'x list \<Rightarrow> 'x option" where
  "vec_last xs = (if xs = [] then None else Some (last xs))"

definition tree_first :: "('a, 's) sum_tree \<Rightarrow> 'a option panics" where
  "tree_first t = do { l \<leftarrow> leftmost_leaf t; its \<leftarrow> node_items l; Some (vec_first its) }"

definition tree_last :: "('a, 's) sum_tree \<Rightarrow> 'a option panics" where
  "tree_last t = do { l \<leftarrow> rightmost_leaf t; its \<leftarrow> node_items l; Some (vec_last its) }"

definition last_summary :: "('a, 's) sum_tree \<Rightarrow> 's option panics" where
  "last_summary t = do { l \<leftarrow> rightmost_leaf t; Some (vec_last (child_summaries l)) }"

section \<open>Abstraction and invariant\<close>

text \<open>The items of the tree in order.\<close>

fun tree_items :: "('a, 's) node \<Rightarrow> 'a list" where
  "tree_items (Leaf _ its _) = its"
| "tree_items (Internal _ _ _ ts) = concat (map tree_items ts)"

abbreviation forest_items :: "('a, 's) node list \<Rightarrow> 'a list" where
  "forest_items ts \<equiv> concat (map tree_items ts)"

text \<open>
  \<open>wf_node ops b k t\<close>: all leaves are on one level, heights are right and fit a \<open>u8\<close>, no node is empty
  or over capacity, cached summaries are the sums of the children, and every node of height at least
  \<open>b\<close> has enough children: \<open>k\<close> for the top node, \<open>TREE_BASE\<close> for the ones below. \<open>b = 0\<close> is the full
  B+ tree discipline; \<open>from_iter\<close> leaves underfull nodes on the right spine, and for its result \<open>b\<close>
  is one more than its height.
\<close>

fun wf_node :: "('a, 's) item_ops \<Rightarrow> nat \<Rightarrow> nat \<Rightarrow> ('a, 's) node \<Rightarrow> bool" where
  "wf_node ops b k (Leaf s its ss) \<longleftrightarrow>
     its \<noteq> [] \<and> length its \<le> CAP \<and> ss = map (item_summary ops) its \<and> s = sum_of ops ss \<and>
     (b = 0 \<longrightarrow> k \<le> length its)"
| "wf_node ops b k (Internal h s cs ts) \<longleftrightarrow>
     ts \<noteq> [] \<and> length ts \<le> CAP \<and> cs = map node_summary ts \<and> s = sum_of ops cs \<and> h < 256 \<and>
     (b \<le> h \<longrightarrow> k \<le> length ts) \<and>
     list_all (\<lambda>c. wf_node ops b TREE_BASE c \<and> Suc (node_height c) = h) ts"

definition root_min :: "('a, 's) node \<Rightarrow> nat" where
  "root_min t = (if is_leaf t then 1 else 2)"

text \<open>The invariant of a whole tree: empty, or a root that is a leaf with an item or an internal node
  with (above height \<open>b\<close>) two children.\<close>

definition wf_tree :: "('a, 's) item_ops \<Rightarrow> nat \<Rightarrow> ('a, 's) sum_tree \<Rightarrow> bool" where
  "wf_tree ops b t \<longleftrightarrow> t = new ops \<or> wf_node ops b (root_min t) t"

text \<open>Number of items below which a tree with parameter \<open>b\<close> never reaches height \<open>h\<close>.\<close>

definition max_items :: "nat \<Rightarrow> nat \<Rightarrow> nat" where
  "max_items h b = 2 * TREE_BASE ^ (h - b)"

section \<open>The contract of the Summary trait\<close>

text \<open>
  What the tree relies on: adding to \<open>zero\<close> gives the summand and addition is associative. \<open>zero\<close>
  need not be neutral on the right (it is not for \<open>MapKey\<close>, whose \<open>add_summary\<close> overwrites).
\<close>

locale summary_laws =
  fixes ops :: "('a, 's) item_ops"
  assumes add_zero_left: "add_summary ops (summary_zero ops) s = s"
    and add_assoc: "add_summary ops (add_summary ops x y) z = add_summary ops x (add_summary ops y z)"
    and vec_holds: "n \<le> c \<Longrightarrow> vec_fits ops c n"
begin

lemma foldl_add: "foldl (add_summary ops) (add_summary ops x y) zs = add_summary ops x (foldl (add_summary ops) y zs)"
  by (induction zs arbitrary: y) (simp_all add: add_assoc)

lemma sum_of_Cons: "sum_of ops (x # xs) = foldl (add_summary ops) x xs"
  by (simp add: sum_of_def add_zero_left)

lemma sum_of_single [simp]: "sum_of ops [x] = x"
  by (simp add: sum_of_Cons)

lemma sum_of_append: "ys \<noteq> [] \<Longrightarrow> sum_of ops (xs @ ys) = add_summary ops (sum_of ops xs) (sum_of ops ys)"
  by (cases ys) (simp_all add: sum_of_def add_zero_left foldl_add)

lemma av_simps:
  "Suc (length xs) \<le> c \<Longrightarrow> av_push (vec_fits ops) c xs x = Some (xs @ [x])"
  "Suc (length xs) \<le> c \<Longrightarrow> av_insert0 (vec_fits ops) c xs x = Some (x # xs)"
  "length xs + length ys \<le> c \<Longrightarrow> av_extend (vec_fits ops) c xs ys = Some (xs @ ys)"
  "length xs \<le> c \<Longrightarrow> av_collect (vec_fits ops) c xs = Some xs"
  by (simp_all add: av_defs vec_holds)

end

text \<open>
  A dimension measures summaries: adding a sum is adding its summands one after the other.
\<close>

locale dimension_laws = summary_laws ops for ops :: "('a, 's) item_ops" +
  fixes dim :: "('s, 'd) dim_ops"
  assumes dim_action: "dim_add dim d (add_summary ops x y) = dim_add dim (dim_add dim d x) y"
begin

lemma dim_add_foldl: "foldl (dim_add dim) (dim_add dim d x) zs = dim_add dim d (foldl (add_summary ops) x zs)"
  by (induction zs arbitrary: x) (simp_all flip: dim_action)

lemma dim_add_sum: "xs \<noteq> [] \<Longrightarrow> dim_add dim d (sum_of ops xs) = foldl (dim_add dim) d xs"
  by (cases xs) (simp_all add: sum_of_Cons dim_add_foldl)

end

text \<open>The blanket implementation makes every summary a dimension of itself.\<close>

sublocale summary_laws \<subseteq> self: dimension_laws ops "self_dim ops"
  by unfold_locales (simp add: self_dim_def add_assoc)

section \<open>Elementary facts about well-formed nodes\<close>

lemma TREE_BASE_pos [simp]: "0 < TREE_BASE" "Suc 0 \<le> TREE_BASE" "2 \<le> TREE_BASE"
  by (simp_all add: TREE_BASE_def)

lemma CAP_ge [simp]: "2 \<le> CAP" "Suc 0 < CAP"
  by (simp_all add: TREE_BASE_def)

lemma wf_node_nonempty: "wf_node ops b k t \<Longrightarrow> tree_items t \<noteq> []"
proof (induction t arbitrary: k)
  case (Internal h s cs ts)
  then obtain c where c: "c \<in> set ts" by (cases ts) auto
  with Internal have "tree_items c \<noteq> []" by (auto simp: list_all_iff)
  with c show ?case by auto
qed simp

lemma wf_node_mono: "wf_node ops b k t \<Longrightarrow> k' \<le> k \<Longrightarrow> wf_node ops b k' t"
  by (cases t) auto

lemma wf_node_not_empty: "wf_node ops b k t \<Longrightarrow> \<not> is_empty t"
  by (cases t) auto

lemma wf_node_height: "wf_node ops b k t \<Longrightarrow> node_height t < 256"
  by (cases t) auto

lemma wf_node_leaf_height: "wf_node ops b k t \<Longrightarrow> is_leaf t \<longleftrightarrow> node_height t = 0"
  by (cases t) (auto simp: list_all_iff neq_Nil_conv)

lemma wf_tree_cases:
  assumes "wf_tree ops b t"
  obtains (empty) "t = new ops" | (node) "wf_node ops b (root_min t) t"
  using assms by (auto simp: wf_tree_def)

lemma new_simps [simp]:
  "is_empty (new ops)" "tree_items (new ops) = []" "is_leaf (new ops)" "node_height (new ops) = 0"
  by (simp_all add: new_def)

lemma wf_tree_new [simp]: "wf_tree ops b (new ops)"
  by (simp add: wf_tree_def)

lemma wf_tree_nodeI: "wf_node ops b k t \<Longrightarrow> root_min t \<le> k \<Longrightarrow> wf_tree ops b t"
  by (auto simp: wf_tree_def intro: wf_node_mono)

lemma wf_tree_empty_iff: "wf_tree ops b t \<Longrightarrow> is_empty t \<longleftrightarrow> tree_items t = []"
  by (auto simp: wf_tree_def dest: wf_node_nonempty wf_node_not_empty)

lemma wf_tree_node: "wf_tree ops b t \<Longrightarrow> tree_items t \<noteq> [] \<Longrightarrow> wf_node ops b (root_min t) t"
  by (auto simp: wf_tree_def)

lemma root_min_le [simp]: "root_min t \<le> TREE_BASE" "1 \<le> root_min t"
  by (auto simp: root_min_def TREE_BASE_def)

text \<open>A tall tree has many items.\<close>

lemma wf_node_items_bound:
  "wf_node ops b k t \<Longrightarrow> b \<le> node_height t \<Longrightarrow> k * TREE_BASE ^ (node_height t - b) \<le> length (tree_items t)"
proof (induction t arbitrary: k)
  case (Internal h s cs ts)
  have child: "TREE_BASE ^ (h - b) \<le> length (tree_items c)" if c: "c \<in> set ts" for c
  proof (cases "b \<le> node_height c")
    case True
    from c Internal have "wf_node ops b TREE_BASE c" "Suc (node_height c) = h" by (auto simp: list_all_iff)
    with Internal.IH [OF c this(1) True] True show ?thesis by (auto simp: Suc_diff_le)
  next
    case False
    with c Internal have "h = b" "wf_node ops b TREE_BASE c" by (auto simp: list_all_iff)
    then show ?thesis using wf_node_nonempty [of ops b TREE_BASE c] by (simp add: Suc_le_eq)
  qed
  have "k * TREE_BASE ^ (h - b) \<le> length ts * TREE_BASE ^ (h - b)" using Internal by simp
  also have "\<dots> \<le> length (forest_items ts)" by (rule length_concat_ge) (use child in blast)
  finally show ?case by simp
qed simp

lemma height_less:
  assumes "wf_node ops b (root_min t) t" and "length (tree_items t) < max_items H b" and "b < H"
  shows "node_height t < H"
proof (rule ccontr)
  assume "\<not> node_height t < H"
  with assms have le: "H \<le> node_height t" "b \<le> node_height t" by auto
  with \<open>b < H\<close> assms have "root_min t = 2" by (auto simp: root_min_def wf_node_leaf_height [OF assms(1)])
  with wf_node_items_bound [OF assms(1) le(2)] have "2 * TREE_BASE ^ (node_height t - b) \<le> length (tree_items t)" by simp
  moreover have "TREE_BASE ^ (H - b) \<le> TREE_BASE ^ (node_height t - b)"
    using le by (intro power_increasing) auto
  ultimately show False using assms(2) by (simp add: max_items_def)
qed

end
