(* ===== verification/ST_Append.thy ===== *)
theory ST_Append
  imports ST_Node
begin

text \<open>
  Concatenation of sum trees, the operation everything else is built from: \<open>append\<close> with
  \<open>push_tree_recursive\<close>, \<open>append_large\<close>, \<open>merge_into_right\<close> and \<open>from_child_trees\<close>, then \<open>push\<close>,
  \<open>from_item\<close> and the in-place updates of the first and last item. The lemmas, proved once under the
  laws of the \<open>Summary\<close> trait (locale \<open>summary_laws\<close>), show that none of them panics on well-formed
  trees, that the invariant is kept and that the items are concatenated.
\<close>

section \<open>Operations\<close>

text \<open>\<open>u8\<close> arithmetic on heights.\<close>

definition u8_add :: "nat \<Rightarrow> nat \<Rightarrow> nat" where
  "u8_add x y = (x + y) mod 256"

definition u8_sub :: "nat \<Rightarrow> nat \<Rightarrow> nat" where
  "u8_sub x y = (x + 256 - y) mod 256"

text \<open>The two ways the source writes the middle of a node that has to be split.\<close>

definition split_point :: "nat \<Rightarrow> nat" where
  "split_point child_count = (child_count + child_count mod 2) div 2"

definition div_ceil :: "nat \<Rightarrow> nat \<Rightarrow> nat" where
  "div_ceil n m = (n + m - 1) div m"

definition from_child_trees :: "('a, 's) item_ops \<Rightarrow> ('a, 's) sum_tree \<Rightarrow> ('a, 's) sum_tree \<Rightarrow>
    ('a, 's) sum_tree panics" where
  "from_child_trees ops left right = do {
     let height = u8_add (node_height left) 1;
     cs \<leftarrow> av_push (vec_fits ops) CAP [] (node_summary left);
     cs \<leftarrow> av_push (vec_fits ops) CAP cs (node_summary right);
     ts \<leftarrow> av_push (vec_fits ops) CAP [] left;
     ts \<leftarrow> av_push (vec_fits ops) CAP ts right;
     Some (Internal height (sum_of ops cs) cs ts)
   }"

text \<open>
  The tail of \<open>push_tree_recursive\<close> for an internal node: \<open>s1\<close> is the summary with the other tree
  added, the appended children go at the end, and a node over capacity is split in the middle.
\<close>

definition push_split_internal :: "('a, 's) item_ops \<Rightarrow> nat \<Rightarrow> 's \<Rightarrow> 's list \<Rightarrow> ('a, 's) node list \<Rightarrow>
    's list \<Rightarrow> ('a, 's) node list \<Rightarrow> (('a, 's) node \<times> ('a, 's) node option) panics" where
  "push_split_internal ops h s1 cs ts summaries_to_append trees_to_append =
     (let child_count = length ts + length trees_to_append in
      if CAP < child_count then do {
        let midpoint = split_point child_count;
        let all_summaries = cs @ summaries_to_append;
        left_summaries \<leftarrow> av_collect (vec_fits ops) CAP (take midpoint all_summaries);
        right_summaries \<leftarrow> av_collect (vec_fits ops) CAP (drop midpoint all_summaries);
        let all_trees = ts @ trees_to_append;
        left_trees \<leftarrow> av_collect (vec_fits ops) CAP (take midpoint all_trees);
        right_trees \<leftarrow> av_collect (vec_fits ops) CAP (drop midpoint all_trees);
        Some (Internal h (sum_of ops left_summaries) left_summaries left_trees,
              Some (Internal h (sum_of ops right_summaries) right_summaries right_trees))
      } else do {
        cs' \<leftarrow> av_extend (vec_fits ops) CAP cs summaries_to_append;
        ts' \<leftarrow> av_extend (vec_fits ops) CAP ts trees_to_append;
        Some (Internal h s1 cs' ts', None)
      })"

definition push_leaf :: "('a, 's) item_ops \<Rightarrow> 's \<Rightarrow> 'a list \<Rightarrow> 's list \<Rightarrow> ('a, 's) node \<Rightarrow>
    (('a, 's) node \<times> ('a, 's) node option) panics" where
  "push_leaf ops s its ss other = do {
     other_items \<leftarrow> node_items other;
     let child_count = length its + length other_items;
     if CAP < child_count then do {
       let midpoint = split_point child_count;
       let all_items = its @ other_items;
       left_items \<leftarrow> av_collect (vec_fits ops) CAP (take midpoint all_items);
       right_items \<leftarrow> av_collect (vec_fits ops) CAP (drop midpoint all_items);
       let all_summaries = ss @ child_summaries other;
       left_summaries \<leftarrow> av_collect (vec_fits ops) CAP (take midpoint all_summaries);
       right_summaries \<leftarrow> av_collect (vec_fits ops) CAP (drop midpoint all_summaries);
       Some (Leaf (sum_of ops left_summaries) left_items left_summaries,
             Some (Leaf (sum_of ops right_summaries) right_items right_summaries))
     } else do {
       its' \<leftarrow> av_extend (vec_fits ops) CAP its other_items;
       ss' \<leftarrow> av_extend (vec_fits ops) CAP ss (child_summaries other);
       Some (Leaf (add_summary ops s (node_summary other)) its' ss', None)
     }
   }"

text \<open>
  \<open>push_tree_recursive self other\<close> returns the updated \<open>self\<close> and the tree it had to split off.
\<close>

function push_tree_recursive :: "('a, 's) item_ops \<Rightarrow> ('a, 's) sum_tree \<Rightarrow> ('a, 's) sum_tree \<Rightarrow>
    (('a, 's) sum_tree \<times> ('a, 's) sum_tree option) panics" where
  "push_tree_recursive ops (Internal h s cs ts) other =
     (let s1 = add_summary ops s (node_summary other);
          height_delta = u8_sub h (node_height other) in
      if height_delta = 0 then do {
        summaries_to_append \<leftarrow> av_extend (vec_fits ops) CAP [] (child_summaries other);
        other_trees \<leftarrow> child_trees other;
        trees_to_append \<leftarrow> av_extend (vec_fits ops) CAP [] other_trees;
        push_split_internal ops h s1 cs ts summaries_to_append trees_to_append
      } else if height_delta = 1 \<and> \<not> is_underflowing other then do {
        summaries_to_append \<leftarrow> av_push (vec_fits ops) CAP [] (node_summary other);
        trees_to_append \<leftarrow> av_push (vec_fits ops) CAP [] other;
        push_split_internal ops h s1 cs ts summaries_to_append trees_to_append
      } else if ts = [] then None
      else do {
        (last_child, tree_to_append) \<leftarrow> push_tree_recursive ops (last ts) other;
        if cs = [] then None else do {
          let cs' = butlast cs @ [node_summary last_child];
          let ts' = butlast ts @ [last_child];
          case tree_to_append of
            None \<Rightarrow> push_split_internal ops h s1 cs' ts' [] []
          | Some split_tree \<Rightarrow> do {
              summaries_to_append \<leftarrow> av_push (vec_fits ops) CAP [] (node_summary split_tree);
              trees_to_append \<leftarrow> av_push (vec_fits ops) CAP [] split_tree;
              push_split_internal ops h s1 cs' ts' summaries_to_append trees_to_append
            }
        }
      })"
| "push_tree_recursive ops (Leaf s its ss) other = push_leaf ops s its ss other"
  by pat_completeness auto
termination
  by (relation "measure (\<lambda>(ops, t, other). size t)") (use size_last_child in auto)

text \<open>
  \<open>merge_into_right small large\<close> returns the updated \<open>large\<close> and the node it had to split off on the
  left. Nodes of different kinds are the \<open>unreachable!()\<close> arm.
\<close>

fun merge_into_right :: "('a, 's) item_ops \<Rightarrow> ('a, 's) sum_tree \<Rightarrow> ('a, 's) sum_tree \<Rightarrow>
    (('a, 's) sum_tree \<times> ('a, 's) sum_tree option) panics" where
  "merge_into_right ops (Internal _ small_summary small_cs small_ts) (Internal h s cs ts) =
     (let total_child_count = length ts + length small_ts in
      if total_child_count \<le> CAP then do {
        all_trees \<leftarrow> av_extend (vec_fits ops) CAP small_ts ts;
        all_summaries \<leftarrow> av_extend (vec_fits ops) CAP small_cs cs;
        Some (Internal h (add_summary ops small_summary s) all_summaries all_trees, None)
      } else do {
        let midpoint = div_ceil total_child_count 2;
        let all_trees = small_ts @ ts;
        left_trees \<leftarrow> av_collect (vec_fits ops) CAP (take midpoint all_trees);
        right_trees \<leftarrow> av_collect (vec_fits ops) CAP (drop midpoint all_trees);
        let all_summaries = small_cs @ cs;
        left_summaries \<leftarrow> av_collect (vec_fits ops) CAP (take midpoint all_summaries);
        right_summaries \<leftarrow> av_collect (vec_fits ops) CAP (drop midpoint all_summaries);
        Some (Internal h (sum_of ops right_summaries) right_summaries right_trees,
              Some (Internal h (sum_of ops left_summaries) left_summaries left_trees))
      })"
| "merge_into_right ops (Leaf small_summary small_items small_ss) (Leaf s its ss) =
     (let total_child_count = length small_items + length its in
      if total_child_count \<le> CAP then do {
        all_items \<leftarrow> av_extend (vec_fits ops) CAP small_items its;
        all_summaries \<leftarrow> av_extend (vec_fits ops) CAP small_ss ss;
        Some (Leaf (add_summary ops small_summary s) all_items all_summaries, None)
      } else do {
        let midpoint = div_ceil total_child_count 2;
        let all_items = small_items @ its;
        left_items \<leftarrow> av_collect (vec_fits ops) CAP (take midpoint all_items);
        right_items \<leftarrow> av_collect (vec_fits ops) CAP (drop midpoint all_items);
        let all_summaries = small_ss @ ss;
        left_summaries \<leftarrow> av_collect (vec_fits ops) CAP (take midpoint all_summaries);
        right_summaries \<leftarrow> av_collect (vec_fits ops) CAP (drop midpoint all_summaries);
        Some (Leaf (sum_of ops right_summaries) right_items right_summaries,
              Some (Leaf (sum_of ops left_summaries) left_items left_summaries))
      })"
| "merge_into_right ops _ _ = None"

text \<open>The part of \<open>append_large\<close> after the recursive call: a tree split off the first child is inserted
  at the front, or moved with the first \<open>TREE_BASE\<close> children into a new node when there is no room.\<close>

definition insert_front :: "('a, 's) item_ops \<Rightarrow> nat \<Rightarrow> 's \<Rightarrow> 's list \<Rightarrow> ('a, 's) node list \<Rightarrow>
    ('a, 's) sum_tree \<Rightarrow> (('a, 's) sum_tree \<times> ('a, 's) sum_tree option) panics" where
  "insert_front ops h full_summary cs ts tree =
     (if length ts < CAP then do {
        cs' \<leftarrow> av_insert0 (vec_fits ops) CAP cs (node_summary tree);
        ts' \<leftarrow> av_insert0 (vec_fits ops) CAP ts tree;
        Some (Internal h full_summary cs' ts', None)
      } else do {
        new_cs \<leftarrow> av_collect (vec_fits ops) CAP [node_summary tree];
        if length cs < TREE_BASE then None else do {
          new_cs \<leftarrow> av_extend (vec_fits ops) CAP new_cs (take TREE_BASE cs);
          new_ts \<leftarrow> av_collect (vec_fits ops) CAP [tree];
          if length ts < TREE_BASE then None else do {
            new_ts \<leftarrow> av_extend (vec_fits ops) CAP new_ts (take TREE_BASE ts);
            Some (Internal h (sum_of ops (drop TREE_BASE cs)) (drop TREE_BASE cs) (drop TREE_BASE ts),
                  Some (Internal h (sum_of ops new_cs) new_cs new_ts))
          }
        }
      })"

text \<open>\<open>append_large small large\<close> returns the updated \<open>large\<close> and the tree split off on its left.\<close>

function append_large :: "('a, 's) item_ops \<Rightarrow> ('a, 's) sum_tree \<Rightarrow> ('a, 's) sum_tree \<Rightarrow>
    (('a, 's) sum_tree \<times> ('a, 's) sum_tree option) panics" where
  "append_large ops small (Leaf s its ss) =
     (if node_height small = node_height (Leaf s its ss) then
        (if \<not> is_underflowing small then Some (Leaf s its ss, Some small)
         else merge_into_right ops small (Leaf s its ss))
      else None)"
| "append_large ops small (Internal h s cs ts) =
     (if node_height small = h then
        (if \<not> is_underflowing small then Some (Internal h s cs ts, Some small)
         else merge_into_right ops small (Internal h s cs ts))
      else do {
        let full_summary = add_summary ops (node_summary small) s;
        if ts = [] then None else do {
          (first_child, res) \<leftarrow> append_large ops small (hd ts);
          if cs = [] then None else do {
            let cs' = node_summary first_child # tl cs;
            let ts' = first_child # tl ts;
            case res of
              None \<Rightarrow> Some (Internal h full_summary cs' ts', None)
            | Some tree \<Rightarrow> insert_front ops h full_summary cs' ts' tree
          }
        }
      })"
  by pat_completeness auto
termination
  by (relation "measure (\<lambda>(ops, small, large). size large)") (use size_hd_child in auto)

definition append :: "('a, 's) item_ops \<Rightarrow> ('a, 's) sum_tree \<Rightarrow> ('a, 's) sum_tree \<Rightarrow>
    ('a, 's) sum_tree panics" where
  "append ops self other =
     (if is_empty self then Some other
      else do {
        other_nonempty \<leftarrow> (if \<not> is_leaf other then Some True
                          else do { its \<leftarrow> node_items other; Some (its \<noteq> []) });
        if other_nonempty then
          (if node_height self < node_height other then do {
             (large, res) \<leftarrow> append_large ops self other;
             case res of
               Some tree \<Rightarrow> from_child_trees ops tree large
             | None \<Rightarrow> Some large
           } else do {
             (self', res) \<leftarrow> push_tree_recursive ops self other;
             case res of
               Some split_tree \<Rightarrow> from_child_trees ops self' split_tree
             | None \<Rightarrow> Some self'
           })
        else Some self
      })"

definition push :: "('a, 's) item_ops \<Rightarrow> ('a, 's) sum_tree \<Rightarrow> 'a \<Rightarrow> ('a, 's) sum_tree panics" where
  "push ops t item = do {
     let s = item_summary ops item;
     its \<leftarrow> av_collect (vec_fits ops) CAP [item];
     ss \<leftarrow> av_collect (vec_fits ops) CAP [s];
     append ops t (Leaf s its ss)
   }"

definition from_item :: "('a, 's) item_ops \<Rightarrow> 'a \<Rightarrow> ('a, 's) sum_tree panics" where
  "from_item ops item = push ops (new ops) item"

text \<open>\<open>update_last_recursive\<close> and \<open>update_first_recursive\<close> return the updated tree and the new summary;
  \<open>f\<close> is the caller's closure as a function from the old item to the new one.\<close>

function update_last_recursive :: "('a, 's) item_ops \<Rightarrow> ('a \<Rightarrow> 'a) \<Rightarrow> ('a, 's) sum_tree \<Rightarrow>
    (('a, 's) sum_tree \<times> 's option) panics" where
  "update_last_recursive ops f (Internal h s cs ts) =
     (if cs = [] \<or> ts = [] then None else do {
        (last_child, res) \<leftarrow> update_last_recursive ops f (last ts);
        last_sum \<leftarrow> res;
        let cs' = butlast cs @ [last_sum];
        let s' = sum_of ops cs';
        Some (Internal h s' cs' (butlast ts @ [last_child]), Some s')
      })"
| "update_last_recursive ops f (Leaf s its ss) =
     (if its = [] \<or> ss = [] then Some (Leaf s its ss, None) else
        let item = f (last its);
            ss' = butlast ss @ [item_summary ops item];
            s' = sum_of ops ss' in
        Some (Leaf s' (butlast its @ [item]) ss', Some s'))"
  by pat_completeness auto
termination
  by (relation "measure (\<lambda>(ops, f, t). size t)") (use size_last_child in auto)

definition update_last :: "('a, 's) item_ops \<Rightarrow> ('a \<Rightarrow> 'a) \<Rightarrow> ('a, 's) sum_tree \<Rightarrow>
    ('a, 's) sum_tree panics" where
  "update_last ops f t = map_option fst (update_last_recursive ops f t)"

function update_first_recursive :: "('a, 's) item_ops \<Rightarrow> ('a \<Rightarrow> 'a) \<Rightarrow> ('a, 's) sum_tree \<Rightarrow>
    (('a, 's) sum_tree \<times> 's option) panics" where
  "update_first_recursive ops f (Internal h s cs ts) =
     (if cs = [] \<or> ts = [] then None else do {
        (first_child, res) \<leftarrow> update_first_recursive ops f (hd ts);
        first_sum \<leftarrow> res;
        let cs' = first_sum # tl cs;
        let s' = sum_of ops cs';
        Some (Internal h s' cs' (first_child # tl ts), Some s')
      })"
| "update_first_recursive ops f (Leaf s its ss) =
     (if its = [] \<or> ss = [] then Some (Leaf s its ss, None) else
        let item = f (hd its);
            ss' = item_summary ops item # tl ss;
            s' = sum_of ops ss' in
        Some (Leaf s' (item # tl its) ss', Some s'))"
  by pat_completeness auto
termination
  by (relation "measure (\<lambda>(ops, f, t). size t)") (use size_hd_child in auto)

definition update_first :: "('a, 's) item_ops \<Rightarrow> ('a \<Rightarrow> 'a) \<Rightarrow> ('a, 's) sum_tree \<Rightarrow>
    ('a, 's) sum_tree panics" where
  "update_first ops f t = map_option fst (update_first_recursive ops f t)"

section \<open>Correctness\<close>

text \<open>What a step that may split a node promises: the node of height \<open>h\<close> holding the items \<open>xs\<close>, or
  two well-filled nodes of that height holding them between them.\<close>

definition halves_ok :: "('a, 's) item_ops \<Rightarrow> nat \<Rightarrow> nat \<Rightarrow> 'a list \<Rightarrow> ('a, 's) node \<Rightarrow> ('a, 's) node \<Rightarrow> bool" where
  "halves_ok ops b h xs l r \<longleftrightarrow>
     wf_node ops b TREE_BASE l \<and> wf_node ops b TREE_BASE r \<and> node_height l = h \<and> node_height r = h \<and>
     xs = tree_items l @ tree_items r"

definition whole_ok :: "('a, 's) item_ops \<Rightarrow> nat \<Rightarrow> nat \<Rightarrow> nat \<Rightarrow> 'a list \<Rightarrow> ('a, 's) node \<Rightarrow> bool" where
  "whole_ok ops b k h xs t \<longleftrightarrow> wf_node ops b k t \<and> node_height t = h \<and> xs = tree_items t"

definition push_ok :: "('a, 's) item_ops \<Rightarrow> nat \<Rightarrow> nat \<Rightarrow> nat \<Rightarrow> 'a list \<Rightarrow> ('a, 's) node \<times> ('a, 's) node option \<Rightarrow> bool" where
  "push_ok ops b k h xs = (\<lambda>(t, res). case res of
       None \<Rightarrow> whole_ok ops b k h xs t | Some r \<Rightarrow> halves_ok ops b h xs t r)"

definition merge_ok :: "('a, 's) item_ops \<Rightarrow> nat \<Rightarrow> nat \<Rightarrow> nat \<Rightarrow> 'a list \<Rightarrow> ('a, 's) node \<times> ('a, 's) node option \<Rightarrow> bool" where
  "merge_ok ops b k h xs = (\<lambda>(t, res). case res of
       None \<Rightarrow> whole_ok ops b k h xs t | Some l \<Rightarrow> halves_ok ops b h xs l t)"

lemmas split_post_defs = push_ok_def merge_ok_def whole_ok_def halves_ok_def

text \<open>Children that can stand below a node of height \<open>h\<close>.\<close>

definition kids_ok :: "('a, 's) item_ops \<Rightarrow> nat \<Rightarrow> nat \<Rightarrow> ('a, 's) node list \<Rightarrow> bool" where
  "kids_ok ops b h ts \<longleftrightarrow> list_all (\<lambda>c. wf_node ops b TREE_BASE c \<and> Suc (node_height c) = h) ts"

lemma kids_ok_simps [simp]:
  "kids_ok ops b h []"
  "kids_ok ops b h (t # ts) \<longleftrightarrow> wf_node ops b TREE_BASE t \<and> Suc (node_height t) = h \<and> kids_ok ops b h ts"
  "kids_ok ops b h (ts @ us) \<longleftrightarrow> kids_ok ops b h ts \<and> kids_ok ops b h us"
  by (auto simp: kids_ok_def)

lemma kids_ok_sub: "kids_ok ops b h ts \<Longrightarrow> set us \<subseteq> set ts \<Longrightarrow> kids_ok ops b h us"
  by (auto simp: kids_ok_def list_all_iff)

lemma kids_ok_last: "kids_ok ops b h ts \<Longrightarrow> ts \<noteq> [] \<Longrightarrow>
    wf_node ops b TREE_BASE (last ts) \<and> Suc (node_height (last ts)) = h \<and> kids_ok ops b h (butlast ts)"
  by (auto simp: kids_ok_def list_all_iff dest: in_set_butlastD)

lemma wf_internal: "wf_node ops b k (Internal h s cs ts) \<longleftrightarrow>
    ts \<noteq> [] \<and> length ts \<le> CAP \<and> cs = map node_summary ts \<and> s = sum_of ops cs \<and> h < 256 \<and>
    (b \<le> h \<longrightarrow> k \<le> length ts) \<and> kids_ok ops b h ts"
  by (simp add: kids_ok_def)

lemma u8_add_small: "x + y < 256 \<Longrightarrow> u8_add x y = x + y"
  by (simp add: u8_add_def)

lemma u8_sub_small: "y \<le> x \<Longrightarrow> x < 256 \<Longrightarrow> u8_sub x y = x - y"
proof -
  assume "y \<le> x" "x < 256"
  then have "(x + 256 - y) mod 256 = ((x - y) + 256) mod 256" by (simp only: diff_add_assoc2)
  also have "\<dots> = (x - y) mod 256" by (rule mod_add_self2)
  also have "\<dots> = x - y" by (rule mod_less) (use \<open>x < 256\<close> in linarith)
  finally show "u8_sub x y = x - y" by (simp only: u8_sub_def)
qed

lemma take_drop_base: "TREE_BASE \<le> m \<Longrightarrow> TREE_BASE \<le> length xs - m \<Longrightarrow> take m xs \<noteq> [] \<and> drop m xs \<noteq> []"
  by (auto simp: TREE_BASE_def)

lemma midpoint_bounds:
  assumes "CAP < n" and "n \<le> 2 * CAP"
  shows "split_point n \<le> CAP" and "n - split_point n \<le> CAP"
    and "TREE_BASE \<le> split_point n" and "TREE_BASE \<le> n - split_point n"
  using assms unfolding TREE_BASE_def split_point_def by presburger+

lemma div_ceil_split_point: "div_ceil n 2 = split_point n"
  unfolding div_ceil_def split_point_def by presburger

context summary_laws
begin

lemma wf_halves_internal:
  assumes "kids_ok ops b h ts" and "CAP < length ts" and "length ts \<le> 2 * CAP" and "h < 256"
    and "m = split_point (length ts)"
  shows "halves_ok ops b h (forest_items ts)
     (Internal h (sum_of ops (map node_summary (take m ts))) (map node_summary (take m ts)) (take m ts))
     (Internal h (sum_of ops (map node_summary (drop m ts))) (map node_summary (drop m ts)) (drop m ts))"
proof -
  note b = midpoint_bounds [OF assms(2,3), folded assms(5)]
  have "kids_ok ops b h (take m ts)" "kids_ok ops b h (drop m ts)"
    by (auto intro: kids_ok_sub [OF assms(1)] dest: in_set_takeD in_set_dropD)
  moreover have "take m ts \<noteq> []" "drop m ts \<noteq> []" using take_drop_base [OF b(3,4)] by auto
  ultimately show ?thesis using b assms(4)
    by (simp add: halves_ok_def wf_internal flip: concat_append map_append del: wf_node.simps)
qed

lemma wf_halves_leaf:
  assumes "CAP < length its" and "length its \<le> 2 * CAP"
    and "m = split_point (length its)" and "ss = map (item_summary ops) its"
  shows "halves_ok ops b 0 its (Leaf (sum_of ops (take m ss)) (take m its) (take m ss))
     (Leaf (sum_of ops (drop m ss)) (drop m its) (drop m ss))"
proof -
  note b = midpoint_bounds [OF assms(1,2), folded assms(3)]
  have "take m its \<noteq> []" "drop m its \<noteq> []" using take_drop_base [OF b(3,4)] by auto
  then show ?thesis using b by (auto simp: halves_ok_def assms(4) take_map drop_map)
qed

lemma push_split_internal_ok:
  assumes "kids_ok ops b h (ts @ us)" and "ts \<noteq> []" and "length ts \<le> CAP" and "length us \<le> CAP"
    and "h < 256" and "b \<le> h \<longrightarrow> k \<le> length ts" and "s1 = sum_of ops (map node_summary (ts @ us))"
  shows "no_panic (push_split_internal ops h s1 (map node_summary ts) ts (map node_summary us) us)
     (push_ok ops b k h (forest_items (ts @ us)))"
proof (cases "CAP < length ts + length us")
  case True
  let ?n = "length (ts @ us)"
  let ?m = "split_point ?n"
  have n: "CAP < ?n" "?n \<le> 2 * CAP" using True assms(3,4) by auto
  have eq: "push_split_internal ops h s1 (map node_summary ts) ts (map node_summary us) us =
      Some (Internal h (sum_of ops (map node_summary (take ?m (ts @ us)))) (map node_summary (take ?m (ts @ us))) (take ?m (ts @ us)),
        Some (Internal h (sum_of ops (map node_summary (drop ?m (ts @ us)))) (map node_summary (drop ?m (ts @ us))) (drop ?m (ts @ us))))"
    using True midpoint_bounds [OF n]
    by (simp add: push_split_internal_def Let_def av_simps flip: map_append take_map drop_map del: take_append drop_append)
  show ?thesis unfolding eq using wf_halves_internal [OF assms(1) n assms(5) refl]
    by (simp add: push_ok_def)
next
  case False
  then show ?thesis using assms
    by (auto simp: push_split_internal_def Let_def av_simps push_ok_def whole_ok_def wf_internal simp del: wf_node.simps)
qed

lemma push_leaf_ok:
  assumes "wf_node ops b k (Leaf s its ss)" and "wf_node ops b k' (Leaf s' its' ss')"
  shows "no_panic (push_leaf ops s its ss (Leaf s' its' ss')) (push_ok ops b k 0 (its @ its'))"
proof (cases "CAP < length its + length its'")
  case True
  let ?n = "length (its @ its')"
  let ?m = "split_point ?n"
  let ?ss = "map (item_summary ops) (its @ its')"
  have n: "CAP < ?n" "?n \<le> 2 * CAP" using True assms by auto
  have eq: "push_leaf ops s its ss (Leaf s' its' ss') =
      Some (Leaf (sum_of ops (take ?m ?ss)) (take ?m (its @ its')) (take ?m ?ss),
        Some (Leaf (sum_of ops (drop ?m ?ss)) (drop ?m (its @ its')) (drop ?m ?ss)))"
    using True assms midpoint_bounds [OF n]
    by (simp add: push_leaf_def Let_def av_simps del: take_append drop_append)
  show ?thesis unfolding eq using wf_halves_leaf [OF n refl refl] by (simp add: push_ok_def)
next
  case False
  then have "push_leaf ops s its ss (Leaf s' its' ss') = Some (Leaf (add_summary ops s s') (its @ its') (ss @ ss'), None)"
    using assms by (simp add: push_leaf_def Let_def av_simps)
  moreover have "wf_node ops b k (Leaf (add_summary ops s s') (its @ its') (ss @ ss'))"
    using False assms by (auto simp: sum_of_append)
  ultimately show ?thesis by (simp add: push_ok_def whole_ok_def)
qed

lemma wf_summary_children:
  "wf_node ops b k t \<Longrightarrow> node_summary t = sum_of ops (child_summaries t) \<and> child_summaries t \<noteq> []"
  by (cases t) auto

lemma wf_node_summary: "wf_node ops b k t \<Longrightarrow> node_summary t = sum_of ops (map (item_summary ops) (tree_items t))"
proof (induction t arbitrary: k)
  case (Internal h s cs ts)
  have "sum_of ops (map node_summary us) = sum_of ops (map (item_summary ops) (forest_items us))"
    if "set us \<subseteq> set ts" for us using that
  proof (induction us rule: rev_induct)
    case (snoc u us)
    have "wf_node ops b TREE_BASE u" using snoc.prems Internal.prems by (auto simp: list_all_iff)
    then have "node_summary u = sum_of ops (map (item_summary ops) (tree_items u))" "tree_items u \<noteq> []"
      using Internal.IH snoc.prems by (auto dest: wf_node_nonempty)
    with snoc show ?case by (simp add: sum_of_append)
  qed simp
  then show ?case using Internal.prems by simp
qed simp

lemma kids_sum: "kids_ok ops b h ts \<Longrightarrow> sum_of ops (map node_summary ts) = sum_of ops (map (item_summary ops) (forest_items ts))"
proof (induction ts rule: rev_induct)
  case (snoc u us)
  then have "node_summary u = sum_of ops (map (item_summary ops) (tree_items u))" "tree_items u \<noteq> []"
    by (auto dest: wf_node_summary wf_node_nonempty)
  with snoc show ?case by (simp add: sum_of_append)
qed simp

lemma add_node_summary:
  assumes "wf_node ops b k t" and "wf_node ops b k' u"
  shows "add_summary ops (node_summary t) (node_summary u) = sum_of ops (map (item_summary ops) (tree_items t @ tree_items u))"
  using assms by (simp add: wf_node_summary [OF assms(1)] wf_node_summary [OF assms(2)] sum_of_append wf_node_nonempty)

text \<open>The children of the node after the last child was replaced by the result of the recursive call.\<close>

lemma push_into_last:
  assumes "wf_node ops b k (Internal h s cs ts)" and "wf_node ops b k' u"
    and "push_ok ops b TREE_BASE (node_height (last ts)) (tree_items (last ts) @ tree_items u) (l, res)"
    and "us = (case res of None \<Rightarrow> [] | Some r \<Rightarrow> [r])" and "ts' = butlast ts @ [l]"
  shows "no_panic (push_split_internal ops h (add_summary ops s (node_summary u)) (map node_summary ts') ts' (map node_summary us) us)
     (push_ok ops b k h (forest_items ts @ tree_items u))"
proof -
  from assms(1) have ts: "ts \<noteq> []" "kids_ok ops b h ts" by (auto simp: wf_internal simp del: wf_node.simps)
  have items: "forest_items (ts' @ us) = forest_items ts @ tree_items u"
    using assms(3-5) concat_map_butlast_last [OF ts(1), of tree_items]
    by (auto simp: split_post_defs split: option.splits)
  have kids: "kids_ok ops b h (ts' @ us)"
    using kids_ok_last [OF ts(2,1)] assms(3-5) by (auto simp: split_post_defs split: option.splits)
  have "add_summary ops s (node_summary u) = sum_of ops (map node_summary (ts' @ us))"
    using add_node_summary [OF assms(1,2)] unfolding kids_sum [OF kids] items by simp
  then have "no_panic (push_split_internal ops h (add_summary ops s (node_summary u)) (map node_summary ts') ts' (map node_summary us) us)
     (push_ok ops b k h (forest_items (ts' @ us)))"
    using assms(1,4,5) ts(1) kids
    by (intro push_split_internal_ok) (auto simp: Suc_le_eq TREE_BASE_def split: option.splits)
  then show ?thesis by (simp only: items)
qed

lemma push_tree_recursive_ok:
  "wf_node ops b k t \<Longrightarrow> wf_node ops b k' u \<Longrightarrow> node_height u \<le> node_height t \<Longrightarrow>
   no_panic (push_tree_recursive ops t u) (push_ok ops b k (node_height t) (tree_items t @ tree_items u))"
proof (induction t arbitrary: k)
  case (Leaf s its ss)
  then have "is_leaf u" using wf_node_leaf_height [of ops b k' u] by simp
  with Leaf show ?case by (cases u) (simp_all add: push_leaf_ok del: wf_node.simps)
next
  case (Internal h s cs ts)
  note wf = Internal.prems(1)
  have h: "u8_sub h (node_height u) = h - node_height u"
    using Internal.prems by (intro u8_sub_small) auto
  have sums: "add_summary ops s (node_summary u) = sum_of ops (map (item_summary ops) (forest_items ts @ tree_items u))"
    using add_node_summary [OF wf Internal.prems(2)] by simp
  have ts: "ts \<noteq> []" "kids_ok ops b h ts" "cs = map node_summary ts" "length ts \<le> CAP" "h < 256" "b \<le> h \<longrightarrow> k \<le> length ts"
    using wf by (auto simp: wf_internal simp del: wf_node.simps)
  have "h - node_height u = 0 \<or> h - node_height u = 1 \<and> \<not> is_underflowing u \<or>
      0 < h - node_height u \<and> \<not> (h - node_height u = 1 \<and> \<not> is_underflowing u)" by auto
  then show ?case
  proof (elim disjE)
    assume d: "h - node_height u = 0"
    then have "node_height u = h" using Internal.prems(3) by simp
    then obtain s' ts' where u: "u = Internal h s' (map node_summary ts') ts'" "kids_ok ops b h ts'" "length ts' \<le> CAP"
      using Internal.prems(2) wf_node_leaf_height [OF wf] by (cases u) (auto simp: wf_internal simp del: wf_node.simps)
    have "no_panic (push_split_internal ops h (add_summary ops s (node_summary u)) cs ts (map node_summary ts') ts')
        (push_ok ops b k h (forest_items (ts @ ts')))"
      unfolding ts(3) using ts u kids_sum [of b h "ts @ ts'"] sums by (intro push_split_internal_ok) auto
    then show ?thesis using u h by (simp add: Let_def av_simps)
  next
    assume d: "h - node_height u = 1 \<and> \<not> is_underflowing u"
    then have "wf_node ops b TREE_BASE u" using Internal.prems(2) by (cases u) auto
    then have kids: "kids_ok ops b h (ts @ [u])" using ts d by auto
    have "no_panic (push_split_internal ops h (add_summary ops s (node_summary u)) cs ts (map node_summary [u]) [u])
        (push_ok ops b k h (forest_items (ts @ [u])))"
      unfolding ts(3) using ts kids kids_sum [OF kids]
      by (intro push_split_internal_ok) (auto simp: sums TREE_BASE_def)
    then show ?thesis using d by (simp add: h Let_def av_simps Suc_le_eq)
  next
    assume d: "0 < h - node_height u \<and> \<not> (h - node_height u = 1 \<and> \<not> is_underflowing u)"
    have last: "last ts \<in> set ts" "wf_node ops b TREE_BASE (last ts)" "Suc (node_height (last ts)) = h"
      using ts kids_ok_last [OF ts(2,1)] by auto
    from d have "node_height u \<le> node_height (last ts)" using last(3) by linarith
    from Internal.IH [OF last(1,2) Internal.prems(2) this]
    obtain l res where rec: "push_tree_recursive ops (last ts) u = Some (l, res)"
      and ok: "push_ok ops b TREE_BASE (node_height (last ts)) (tree_items (last ts) @ tree_items u) (l, res)"
      by (auto simp: no_panic_def)
    from push_into_last [OF wf Internal.prems(2) ok refl refl]
    show ?thesis using d ts rec by (cases res) (auto simp: h av_simps Let_def map_butlast Suc_le_eq)
  qed
qed

lemma merge_internal_ok:
  assumes "wf_node ops b k' (Internal h s' cs' ts')" and "wf_node ops b TREE_BASE (Internal h s cs ts)"
  shows "no_panic (merge_into_right ops (Internal h s' cs' ts') (Internal h s cs ts))
     (merge_ok ops b TREE_BASE h (forest_items ts' @ forest_items ts))"
proof -
  have kids: "kids_ok ops b h (ts' @ ts)" "length ts \<le> CAP" "length ts' \<le> CAP" "h < 256"
    using assms by (auto simp: wf_internal simp del: wf_node.simps)
  have cs: "cs' = map node_summary ts'" "cs = map node_summary ts" using assms by auto
  show ?thesis
  proof (cases "length (ts' @ ts) \<le> CAP")
    case True
    have "add_summary ops s' s = sum_of ops (map node_summary (ts' @ ts))"
      using add_node_summary [OF assms] kids_sum [OF kids(1)] by simp
    with True kids assms have "wf_node ops b TREE_BASE (Internal h (add_summary ops s' s) (cs' @ cs) (ts' @ ts))"
      by (auto simp: wf_internal simp del: wf_node.simps)
    with True show ?thesis by (simp add: add.commute av_simps cs merge_ok_def whole_ok_def del: wf_node.simps)
  next
    case False
    let ?m = "split_point (length (ts' @ ts))"
    have n: "CAP < length (ts' @ ts)" "length (ts' @ ts) \<le> 2 * CAP" using False kids by auto
    have "merge_into_right ops (Internal h s' cs' ts') (Internal h s cs ts) =
      Some (Internal h (sum_of ops (map node_summary (drop ?m (ts' @ ts)))) (map node_summary (drop ?m (ts' @ ts))) (drop ?m (ts' @ ts)),
        Some (Internal h (sum_of ops (map node_summary (take ?m (ts' @ ts)))) (map node_summary (take ?m (ts' @ ts))) (take ?m (ts' @ ts))))"
      using False midpoint_bounds [OF n]
      by (simp add: cs Let_def av_simps div_ceil_split_point add.commute
          flip: map_append take_map drop_map del: take_append drop_append)
    then show ?thesis using wf_halves_internal [OF kids(1) n kids(4) refl] by (simp add: merge_ok_def)
  qed
qed

lemma merge_leaf_ok:
  assumes "wf_node ops b k' (Leaf s' its' ss')" and "wf_node ops b TREE_BASE (Leaf s its ss)"
  shows "no_panic (merge_into_right ops (Leaf s' its' ss') (Leaf s its ss)) (merge_ok ops b TREE_BASE 0 (its' @ its))"
proof (cases "length (its' @ its) \<le> CAP")
  case True
  with assms have "wf_node ops b TREE_BASE (Leaf (add_summary ops s' s) (its' @ its) (ss' @ ss))"
    by (auto simp: sum_of_append)
  with True assms show ?thesis by (simp add: av_simps merge_ok_def whole_ok_def)
next
  case False
  let ?m = "split_point (length (its' @ its))"
  let ?ss = "map (item_summary ops) (its' @ its)"
  have n: "CAP < length (its' @ its)" "length (its' @ its) \<le> 2 * CAP" using False assms by auto
  have "merge_into_right ops (Leaf s' its' ss') (Leaf s its ss) =
      Some (Leaf (sum_of ops (drop ?m ?ss)) (drop ?m (its' @ its)) (drop ?m ?ss),
        Some (Leaf (sum_of ops (take ?m ?ss)) (take ?m (its' @ its)) (take ?m ?ss)))"
    using False assms midpoint_bounds [OF n]
    by (simp add: Let_def av_simps div_ceil_split_point del: take_append drop_append)
  then show ?thesis using wf_halves_leaf [OF n refl refl] by (simp add: merge_ok_def)
qed

lemma merge_into_right_ok:
  assumes "wf_node ops b k' u" and "wf_node ops b TREE_BASE t" and "node_height u = node_height t"
  shows "no_panic (merge_into_right ops u t) (merge_ok ops b TREE_BASE (node_height t) (tree_items u @ tree_items t))"
proof (cases t)
  case (Leaf s its ss)
  with assms have "is_leaf u" by (simp add: wf_node_leaf_height [OF assms(1)])
  with Leaf assms merge_leaf_ok show ?thesis by (cases u) (simp_all del: wf_node.simps merge_into_right.simps)
next
  case (Internal h s cs ts)
  with assms wf_node_leaf_height [OF assms(2)] have "\<not> is_leaf u" by (simp add: wf_node_leaf_height [OF assms(1)])
  with Internal assms merge_internal_ok show ?thesis by (cases u) (simp_all del: wf_node.simps merge_into_right.simps)
qed

lemma insert_front_ok:
  assumes "kids_ok ops b h (t # ts)" and "length ts \<le> CAP" and "ts \<noteq> []" and "h < 256"
    and "b \<le> h \<longrightarrow> k \<le> length ts" and "s = sum_of ops (map node_summary (t # ts))"
  shows "no_panic (insert_front ops h s (map node_summary ts) ts t) (merge_ok ops b k h (forest_items (t # ts)))"
proof (cases "length ts < CAP")
  case True
  with assms show ?thesis
    by (auto simp: insert_front_def av_simps merge_ok_def whole_ok_def wf_internal simp del: wf_node.simps)
next
  case False
  then have len: "length ts = CAP" using assms(2) by simp
  let ?l = "t # take TREE_BASE ts" and ?r = "drop TREE_BASE ts"
  have "kids_ok ops b h ?l" "kids_ok ops b h ?r"
    by (auto intro!: kids_ok_sub [OF assms(1)] dest: in_set_takeD in_set_dropD simp del: kids_ok_simps(2))
  then have "halves_ok ops b h (forest_items (t # ts))
      (Internal h (sum_of ops (map node_summary ?l)) (map node_summary ?l) ?l)
      (Internal h (sum_of ops (map node_summary ?r)) (map node_summary ?r) ?r)"
    using len assms(4) by (auto simp: halves_ok_def wf_internal TREE_BASE_def simp flip: concat_append map_append simp del: wf_node.simps)
  then show ?thesis using len
    by (simp add: insert_front_def av_simps take_map drop_map merge_ok_def Suc_le_eq TREE_BASE_def)
qed

lemma append_large_ok:
  "wf_node ops b k t \<Longrightarrow> wf_node ops b k' u \<Longrightarrow> node_height u \<le> node_height t \<Longrightarrow>
   (node_height u = node_height t \<longrightarrow> k = TREE_BASE) \<Longrightarrow>
   no_panic (append_large ops u t) (merge_ok ops b k (node_height t) (tree_items u @ tree_items t))"
proof (induction t arbitrary: k)
  case (Leaf s its ss)
  have full: "wf_node ops b TREE_BASE u" if "\<not> is_underflowing u"
    using Leaf.prems(2) that by (cases u) auto
  show ?case using Leaf.prems merge_into_right_ok [OF Leaf.prems(2), of "Leaf s its ss"] full
    by (auto simp: merge_ok_def halves_ok_def)
next
  case (Internal h s cs ts)
  note wf = Internal.prems(1)
  have ts: "ts \<noteq> []" "kids_ok ops b h ts" "cs = map node_summary ts" "length ts \<le> CAP" "h < 256" "b \<le> h \<longrightarrow> k \<le> length ts"
    using wf by (auto simp: wf_internal simp del: wf_node.simps)
  show ?case
  proof (cases "node_height u = h")
    case True
    then have k: "k = TREE_BASE" using Internal.prems(4) by simp
    have "wf_node ops b TREE_BASE u" if "\<not> is_underflowing u" using Internal.prems(2) that by (cases u) auto
    then show ?thesis using True wf k merge_into_right_ok [OF Internal.prems(2), of "Internal h s cs ts"]
      by (auto simp: merge_ok_def halves_ok_def simp del: wf_node.simps)
  next
    case False
    obtain c cs' where c: "ts = c # cs'" using ts(1) by (cases ts) auto
    then have "node_height u \<le> node_height c" using False Internal.prems(3) ts(2) by auto
    moreover have "wf_node ops b TREE_BASE c" using c ts(2) by simp
    ultimately obtain f res where rec: "append_large ops u c = Some (f, res)"
      and ok: "merge_ok ops b TREE_BASE (node_height c) (tree_items u @ tree_items c) (f, res)"
      using Internal.IH [of c TREE_BASE] c Internal.prems(2) by (auto simp: no_panic_def)
    let ?us = "case res of None \<Rightarrow> [] | Some l \<Rightarrow> [l]"
    have kids: "kids_ok ops b h (?us @ f # cs')" using ts(2) c ok by (auto simp: split_post_defs split: option.splits)
    have items: "forest_items (?us @ f # cs') = tree_items u @ forest_items ts"
      using ok c by (auto simp: split_post_defs split: option.splits)
    have sums: "add_summary ops (node_summary u) s = sum_of ops (map node_summary (?us @ f # cs'))"
      using add_node_summary [OF Internal.prems(2) wf] unfolding kids_sum [OF kids] items by simp
    show ?thesis
    proof (cases res)
      case None
      then show ?thesis using False rec c ts kids items sums
        by (auto simp: Let_def merge_ok_def whole_ok_def wf_internal simp del: wf_node.simps)
    next
      case (Some l)
      have "no_panic (insert_front ops h (add_summary ops (node_summary u) s) (map node_summary (f # cs')) (f # cs') l)
          (merge_ok ops b k h (forest_items (l # f # cs')))"
        using Some ts kids sums c by (intro insert_front_ok) auto
      moreover have "forest_items (l # f # cs') = tree_items u @ forest_items ts" using items Some by simp
      ultimately show ?thesis using False rec c ts(3) Some by (simp add: Let_def del: concat.simps)
    qed
  qed
qed

lemma from_child_trees_ok:
  assumes "halves_ok ops b h xs l r" and "length xs < max_items 256 b" and "b < 256"
  shows "no_panic (from_child_trees ops l r) (whole_ok ops b 2 (Suc h) xs)"
proof -
  let ?t = "Internal (Suc h) (sum_of ops [node_summary l, node_summary r]) [node_summary l, node_summary r] [l, r]"
  have wfs: "wf_node ops b TREE_BASE l" "wf_node ops b TREE_BASE r" "node_height l = h" "node_height r = h"
    and xs: "xs = tree_items l @ tree_items r" using assms by (auto simp: halves_ok_def)
  have "Suc h < 256"
  proof (cases "b \<le> h")
    case True
    then have "2 * TREE_BASE ^ (Suc h - b) \<le> length xs"
      using wf_node_items_bound [OF wfs(1)] wf_node_items_bound [OF wfs(2)] wfs(3,4) xs by (simp add: Suc_diff_le)
    then have "TREE_BASE ^ (Suc h - b) < TREE_BASE ^ (256 - b)" using assms(2) by (simp add: max_items_def)
    then have "Suc h - b < 256 - b" by (rule power_less_imp_less_exp [rotated]) (simp add: TREE_BASE_def)
    then show ?thesis using True by simp
  next
    case False
    with assms(3) show ?thesis by simp
  qed
  then show ?thesis using wfs xs
    by (simp add: from_child_trees_def u8_add_small av_simps Suc_le_eq TREE_BASE_def whole_ok_def)
qed

lemma whole_ok_tree:
  assumes "whole_ok ops b (root_min t) (node_height t) xs r" and "wf_node ops b (root_min t) t"
  shows "wf_tree ops b r \<and> tree_items r = xs"
proof -
  from assms have "is_leaf r = is_leaf t" by (auto simp: whole_ok_def wf_node_leaf_height)
  with assms(1) show ?thesis by (auto simp: whole_ok_def wf_tree_def root_min_def)
qed

lemma whole_ok_tree2: "whole_ok ops b 2 h xs r \<Longrightarrow> wf_tree ops b r \<and> tree_items r = xs"
  by (auto simp: whole_ok_def root_min_def intro: wf_tree_nodeI)

lemma append_ok:
  assumes "wf_tree ops b t" and "wf_tree ops b u"
    and "length (tree_items t @ tree_items u) < max_items 256 b" and "b < 256"
  shows "no_panic (append ops t u) (\<lambda>r. wf_tree ops b r \<and> tree_items r = tree_items t @ tree_items u)"
proof -
  consider (left) "t = new ops" | (right) "t \<noteq> new ops" "u = new ops"
    | (both) "wf_node ops b (root_min t) t" "wf_node ops b (root_min u) u"
    using assms(1,2) by (auto simp: wf_tree_def)
  then show ?thesis
  proof cases
    case left
    then show ?thesis using assms by (simp add: append_def)
  next
    case right
    then show ?thesis using assms(1) wf_node_not_empty [of ops b "root_min t" t]
      by (auto simp: append_def new_def wf_tree_def)
  next
    case both
    have ne: "\<not> is_empty t" "(if \<not> is_leaf u then Some True else do { its \<leftarrow> node_items u; Some (its \<noteq> []) }) = Some True"
      using wf_node_not_empty [OF both(1)] wf_node_not_empty [OF both(2)] by (cases u; simp)+
    show ?thesis
    proof (cases "node_height t < node_height u")
      case True
      from append_large_ok [OF both(2,1)] True obtain large res where rec: "append_large ops t u = Some (large, res)"
        and ok: "merge_ok ops b (root_min u) (node_height u) (tree_items t @ tree_items u) (large, res)"
        by (auto simp: no_panic_def)
      show ?thesis
      proof (cases res)
        case None
        with ok whole_ok_tree [OF _ both(2)] show ?thesis using True rec ne by (auto simp: append_def merge_ok_def)
      next
        case (Some l)
        with ok have "halves_ok ops b (node_height u) (tree_items t @ tree_items u) l large" by (simp add: merge_ok_def)
        from from_child_trees_ok [OF this assms(3,4)] show ?thesis using Some True rec ne
          by (auto simp: append_def no_panic_def dest: whole_ok_tree2)
      qed
    next
      case False
      from push_tree_recursive_ok [OF both] False obtain self' res where rec: "push_tree_recursive ops t u = Some (self', res)"
        and ok: "push_ok ops b (root_min t) (node_height t) (tree_items t @ tree_items u) (self', res)"
        by (auto simp: no_panic_def)
      show ?thesis
      proof (cases res)
        case None
        with ok whole_ok_tree [OF _ both(1)] show ?thesis using False rec ne by (auto simp: append_def push_ok_def)
      next
        case (Some r)
        with ok have "halves_ok ops b (node_height t) (tree_items t @ tree_items u) self' r" by (simp add: push_ok_def)
        from from_child_trees_ok [OF this assms(3,4)] show ?thesis using Some False rec ne
          by (auto simp: append_def no_panic_def dest: whole_ok_tree2)
      qed
    qed
  qed
qed

lemma wf_tree_leaf:
  "its \<noteq> [] \<Longrightarrow> length its \<le> CAP \<Longrightarrow>
   wf_tree ops b (Leaf (sum_of ops (map (item_summary ops) its)) its (map (item_summary ops) its))"
  by (auto simp: wf_tree_def root_min_def Suc_le_eq)

lemma push_ok_items:
  assumes "wf_tree ops b t" and "Suc (length (tree_items t)) < max_items 256 b" and "b < 256"
  shows "no_panic (push ops t x) (\<lambda>r. wf_tree ops b r \<and> tree_items r = tree_items t @ [x])"
  using append_ok [OF assms(1) wf_tree_leaf [of "[x]"]] assms(2,3)
  by (simp add: push_def av_simps TREE_BASE_def Let_def)

lemma update_last_recursive_ok:
  "wf_node ops b k t \<Longrightarrow> \<exists>t'. update_last_recursive ops f t = Some (t', Some (node_summary t')) \<and>
     whole_ok ops b k (node_height t) (butlast (tree_items t) @ [f (last (tree_items t))]) t'"
proof (induction t arbitrary: k)
  case (Internal h s cs ts)
  have ts: "ts \<noteq> []" "kids_ok ops b h ts" "cs = map node_summary ts" using Internal.prems by (auto simp: wf_internal simp del: wf_node.simps)
  have last: "last ts \<in> set ts" "wf_node ops b TREE_BASE (last ts)" using ts kids_ok_last [OF ts(2,1)] by auto
  from Internal.IH [OF this] obtain l where l: "update_last_recursive ops f (last ts) = Some (l, Some (node_summary l))"
    "whole_ok ops b TREE_BASE (node_height (last ts)) (butlast (tree_items (last ts)) @ [f (last (tree_items (last ts)))]) l"
    by auto
  have items: "forest_items (butlast ts @ [l]) = butlast (forest_items ts) @ [f (last (forest_items ts))]"
    using l(2) wf_node_nonempty [OF last(2)] concat_map_butlast_last [OF ts(1), of tree_items]
    by (simp add: whole_ok_def butlast_append)
  show ?case using l ts items Internal.prems kids_ok_last [OF ts(2,1)]
    by (auto simp: whole_ok_def wf_internal map_butlast Let_def simp del: wf_node.simps)
qed (auto simp: whole_ok_def map_butlast Let_def)

lemma update_first_recursive_ok:
  "wf_node ops b k t \<Longrightarrow> \<exists>t'. update_first_recursive ops f t = Some (t', Some (node_summary t')) \<and>
     whole_ok ops b k (node_height t) (f (hd (tree_items t)) # tl (tree_items t)) t'"
proof (induction t arbitrary: k)
  case (Internal h s cs ts)
  obtain c ts' where ts: "ts = c # ts'" "kids_ok ops b h ts" "cs = map node_summary ts"
    using Internal.prems by (cases ts) (auto simp: wf_internal simp del: wf_node.simps)
  then have c: "c \<in> set ts" "wf_node ops b TREE_BASE c" by auto
  from Internal.IH [OF this] obtain l where l: "update_first_recursive ops f c = Some (l, Some (node_summary l))"
    "whole_ok ops b TREE_BASE (node_height c) (f (hd (tree_items c)) # tl (tree_items c)) l"
    by auto
  have items: "forest_items (l # ts') = f (hd (forest_items ts)) # tl (forest_items ts)"
    using l(2) wf_node_nonempty [OF c(2)] ts(1) by (simp add: whole_ok_def flip: append_Cons)
  show ?case using l ts items Internal.prems
    by (auto simp: whole_ok_def wf_internal Let_def simp del: wf_node.simps)
next
  case (Leaf s its ss)
  then show ?case by (cases its) (auto simp: whole_ok_def Let_def)
qed

lemma wf_tree_emptyE:
  assumes "wf_tree ops b t"
  obtains (empty) "t = new ops" | (node) "wf_node ops b (root_min t) t" "tree_items t \<noteq> []"
  using assms wf_node_nonempty by (auto simp: wf_tree_def)

lemma update_last_ok:
  assumes "wf_tree ops b t"
  shows "no_panic (update_last ops f t) (\<lambda>r. wf_tree ops b r \<and>
      tree_items r = (if tree_items t = [] then [] else butlast (tree_items t) @ [f (last (tree_items t))]))"
  using assms
proof (cases rule: wf_tree_emptyE)
  case empty
  then show ?thesis by (simp add: update_last_def new_def wf_tree_def)
next
  case node
  with update_last_recursive_ok [OF node(1), of f] whole_ok_tree [OF _ node(1)] show ?thesis
    by (auto simp: update_last_def)
qed

lemma update_first_ok:
  assumes "wf_tree ops b t"
  shows "no_panic (update_first ops f t) (\<lambda>r. wf_tree ops b r \<and>
      tree_items r = (if tree_items t = [] then [] else f (hd (tree_items t)) # tl (tree_items t)))"
  using assms
proof (cases rule: wf_tree_emptyE)
  case empty
  then show ?thesis by (simp add: update_first_def new_def wf_tree_def)
next
  case node
  with update_first_recursive_ok [OF node(1), of f] whole_ok_tree [OF _ node(1)] show ?thesis
    by (auto simp: update_first_def)
qed

end

end
