(* ===== verification/ST_Build.thy ===== *)
theory ST_Build
  imports ST_Append
begin

text \<open>
  Bulk construction: \<open>from_iter\<close> (leaves of \<open>2 * TREE_BASE\<close> items, then level after level),
  \<open>from_par_iter\<close> (the same with rayon's parallel iterators), \<open>tree_extend\<close> and \<open>par_extend\<close>. Shown: the
  result holds the items of the iterator in order, satisfies the invariant, its height is the
  logarithm of the number of items, and the parallel construction returns the sequential tree.
\<close>

section \<open>Operations\<close>

text \<open>The first loop of \<open>from_iter\<close>: leaves of at most \<open>2 * TREE_BASE\<close> items.\<close>

definition make_leaf :: "('a, 's) item_ops \<Rightarrow> 'a list \<Rightarrow> ('a, 's) sum_tree panics" where
  "make_leaf ops items = do {
     its \<leftarrow> av_collect (vec_fits ops) CAP items;
     ss \<leftarrow> av_collect (vec_fits ops) CAP (map (item_summary ops) its);
     case ss of
       [] \<Rightarrow> None
     | s # rest \<Rightarrow> Some (Leaf (foldl (add_summary ops) s rest) its ss)
   }"

function from_iter_leaves :: "('a, 's) item_ops \<Rightarrow> 'a list \<Rightarrow> ('a, 's) sum_tree list panics" where
  "from_iter_leaves ops iter =
     (if iter = [] then Some []
      else do {
        leaf \<leftarrow> make_leaf ops (take CAP iter);
        nodes \<leftarrow> from_iter_leaves ops (drop CAP iter);
        Some (leaf # nodes)
      })"
  by pat_completeness auto
termination
  by (relation "measure (\<lambda>(ops, iter). length iter)") auto

declare from_iter_leaves.simps [simp del]

text \<open>One pass of the second loop: children are pushed into the current parent node until it is full.\<close>

fun from_iter_level :: "('a, 's) item_ops \<Rightarrow> nat \<Rightarrow> ('a, 's) sum_tree option \<Rightarrow> ('a, 's) sum_tree list \<Rightarrow>
    ('a, 's) sum_tree list panics" where
  "from_iter_level ops height current_parent_node [] =
     Some (case current_parent_node of None \<Rightarrow> [] | Some p \<Rightarrow> [p])"
| "from_iter_level ops height current_parent_node (child_node # nodes) =
     (case (case current_parent_node of
              None \<Rightarrow> Internal height (summary_zero ops) [] []
            | Some p \<Rightarrow> p) of
        Leaf _ _ _ \<Rightarrow> None
      | Internal h s cs ts \<Rightarrow> do {
          let s' = add_summary ops s (node_summary child_node);
          cs' \<leftarrow> av_push (vec_fits ops) CAP cs (node_summary child_node);
          ts' \<leftarrow> av_push (vec_fits ops) CAP ts child_node;
          if length ts' = CAP then do {
            parent_nodes \<leftarrow> from_iter_level ops height None nodes;
            Some (Internal h s' cs' ts' # parent_nodes)
          } else from_iter_level ops height (Some (Internal h s' cs' ts')) nodes
        })"

lemma from_iter_level_length:
  "from_iter_level ops h cur nodes = Some ps \<Longrightarrow>
   2 * length ps \<le> length nodes + (case cur of None \<Rightarrow> 1 | Some _ \<Rightarrow> 2)"
proof (induction ops h cur nodes arbitrary: ps rule: from_iter_level.induct)
  case (2 ops height cur child nodes)
  show ?case
  proof (cases cur)
    case None
    with 2 show ?thesis by (auto simp: Let_def av_defs TREE_BASE_def split: if_splits bind_splits)
  next
    case (Some p)
    with 2 show ?thesis by (cases p) (fastforce simp: Let_def av_defs split: if_splits bind_splits)+
  qed
qed (simp split: option.splits)

function from_iter_levels :: "('a, 's) item_ops \<Rightarrow> nat \<Rightarrow> ('a, 's) sum_tree list \<Rightarrow>
    ('a, 's) sum_tree list panics" where
  "from_iter_levels ops height nodes =
     (if 1 < length nodes then do {
        let height = u8_add height 1;
        parent_nodes \<leftarrow> from_iter_level ops height None nodes;
        from_iter_levels ops height parent_nodes
      } else Some nodes)"
  by pat_completeness auto
termination
  by (relation "measure (\<lambda>(ops, height, nodes). length nodes)") (auto dest: from_iter_level_length)

declare from_iter_levels.simps [simp del]

definition from_iter :: "('a, 's) item_ops \<Rightarrow> 'a list \<Rightarrow> ('a, 's) sum_tree panics" where
  "from_iter ops iter = do {
     nodes \<leftarrow> from_iter_leaves ops iter;
     nodes \<leftarrow> from_iter_levels ops 0 nodes;
     Some (if nodes = [] then new ops else last nodes)
   }"

definition tree_extend :: "('a, 's) item_ops \<Rightarrow> ('a, 's) sum_tree \<Rightarrow> 'a list \<Rightarrow> ('a, 's) sum_tree panics" where
  "tree_extend ops t iter = do { u \<leftarrow> from_iter ops iter; append ops t u }"

text \<open>
  \<open>from_par_iter\<close>. \<open>par_items n f xs\<close> and \<open>par_nodes n f xs\<close> stand for rayon's
  \<open>xs.into_par_iter().chunks(n).map(f).collect()\<close>, at the two element types it is used with.
\<close>

type_synonym ('x, 'y) par_chunks_map = "nat \<Rightarrow> ('x list \<Rightarrow> 'y) \<Rightarrow> 'x list \<Rightarrow> 'y list"

definition make_parent :: "('a, 's) item_ops \<Rightarrow> nat \<Rightarrow> ('a, 's) sum_tree list \<Rightarrow> ('a, 's) sum_tree panics" where
  "make_parent ops height child_nodes = do {
     ts \<leftarrow> av_collect (vec_fits ops) CAP child_nodes;
     cs \<leftarrow> av_collect (vec_fits ops) CAP (map node_summary ts);
     case cs of
       [] \<Rightarrow> None
     | s # rest \<Rightarrow> Some (Internal height (foldl (add_summary ops) s rest) cs ts)
   }"

partial_function (option) from_par_levels :: "(('a, 's) sum_tree, ('a, 's) sum_tree panics) par_chunks_map \<Rightarrow>
    ('a, 's) item_ops \<Rightarrow> nat \<Rightarrow> ('a, 's) sum_tree list \<Rightarrow> ('a, 's) sum_tree list panics" where
  "from_par_levels par_nodes ops height nodes =
     (if 1 < length nodes then do {
        let height = u8_add height 1;
        nodes \<leftarrow> those (par_nodes CAP (make_parent ops height) nodes);
        from_par_levels par_nodes ops height nodes
      } else Some nodes)"

definition from_par_iter :: "('a, ('a, 's) sum_tree panics) par_chunks_map \<Rightarrow>
    (('a, 's) sum_tree, ('a, 's) sum_tree panics) par_chunks_map \<Rightarrow>
    ('a, 's) item_ops \<Rightarrow> 'a list \<Rightarrow> ('a, 's) sum_tree panics" where
  "from_par_iter par_items par_nodes ops iter = do {
     nodes \<leftarrow> those (par_items CAP (make_leaf ops) iter);
     nodes \<leftarrow> from_par_levels par_nodes ops 0 nodes;
     Some (if nodes = [] then new ops else last nodes)
   }"

definition par_extend :: "('a, ('a, 's) sum_tree panics) par_chunks_map \<Rightarrow>
    (('a, 's) sum_tree, ('a, 's) sum_tree panics) par_chunks_map \<Rightarrow>
    ('a, 's) item_ops \<Rightarrow> ('a, 's) sum_tree \<Rightarrow> 'a list \<Rightarrow> ('a, 's) sum_tree panics" where
  "par_extend par_items par_nodes ops t iter = do {
     u \<leftarrow> from_par_iter par_items par_nodes ops iter; append ops t u }"

section \<open>Correctness\<close>

text \<open>The nodes both constructions build.\<close>

definition leaf_of :: "('a, 's) item_ops \<Rightarrow> 'a list \<Rightarrow> ('a, 's) node" where
  "leaf_of ops its = Leaf (sum_of ops (map (item_summary ops) its)) its (map (item_summary ops) its)"

definition parent_of :: "('a, 's) item_ops \<Rightarrow> nat \<Rightarrow> ('a, 's) node list \<Rightarrow> ('a, 's) node" where
  "parent_of ops h ts = Internal h (sum_of ops (map node_summary ts)) (map node_summary ts) ts"

lemma those_map_Some: "(\<forall>x \<in> set xs. f x = Some (g x)) \<Longrightarrow> those (map f xs) = Some (map g xs)"
  by (induction xs) auto

lemma wf_node_rebase:
  "wf_node ops b k t \<Longrightarrow> node_height t < b \<Longrightarrow> node_height t < b' \<Longrightarrow> wf_node ops b' k' t"
proof (induction t arbitrary: k k')
  case (Internal h s cs ts)
  have "wf_node ops b' TREE_BASE c \<and> Suc (node_height c) = h" if "c \<in> set ts" for c
    using Internal.prems that Internal.IH [OF that, of TREE_BASE TREE_BASE] by (auto simp: list_all_iff)
  with Internal.prems show ?case by (auto simp: list_all_iff)
qed auto

context summary_laws
begin

lemma make_leaf_ok: "its \<noteq> [] \<Longrightarrow> length its \<le> CAP \<Longrightarrow> make_leaf ops its = Some (leaf_of ops its)"
  by (cases its) (simp_all add: make_leaf_def leaf_of_def av_simps sum_of_Cons)

lemma make_parent_ok: "ts \<noteq> [] \<Longrightarrow> length ts \<le> CAP \<Longrightarrow> make_parent ops h ts = Some (parent_of ops h ts)"
  by (cases ts) (simp_all add: make_parent_def parent_of_def av_simps sum_of_Cons)

lemma from_iter_leaves_eq: "from_iter_leaves ops xs = Some (map (leaf_of ops) (chunks CAP xs))"
proof (induction xs rule: measure_induct_rule [of length])
  case (less xs)
  show ?case
  proof (cases "xs = []")
    case True
    then show ?thesis by (simp add: from_iter_leaves.simps)
  next
    case False
    then show ?thesis
      using less [of "drop CAP xs"] make_leaf_ok [of "take CAP xs"]
      by (subst from_iter_leaves.simps) (simp add: chunks_step)
  qed
qed

lemma parent_of_snoc: "Internal h (add_summary ops (sum_of ops (map node_summary ds)) (node_summary c))
      (map node_summary ds @ [node_summary c]) (ds @ [c]) = parent_of ops h (ds @ [c])"
  by (simp add: parent_of_def sum_of_append)

lemma from_iter_level_eq:
  "length ds < CAP \<Longrightarrow> from_iter_level ops h (if ds = [] then None else Some (parent_of ops h ds)) nodes =
     Some (map (parent_of ops h) (chunks CAP (ds @ nodes)))"
proof (induction nodes arbitrary: ds)
  case Nil
  then show ?case by (simp add: chunks_step)
next
  case (Cons c nodes)
  let ?cur = "if ds = [] then None else Some (parent_of ops h ds)"
  have cur: "(case ?cur of None \<Rightarrow> Internal h (summary_zero ops) [] [] | Some p \<Rightarrow> p) =
      Internal h (sum_of ops (map node_summary ds)) (map node_summary ds) ds"
    by (simp add: parent_of_def sum_of_def)
  show ?case
  proof (cases "Suc (length ds) = CAP")
    case True
    then have "chunks CAP (ds @ c # nodes) = (ds @ [c]) # chunks CAP nodes"
      by (subst chunks_step) (simp_all add: TREE_BASE_def)
    with True Cons.IH [of "[]"] Cons.prems show ?thesis
      by (simp add: cur av_simps parent_of_snoc Let_def del: split_paired_Ex)
  next
    case False
    with Cons.IH [of "ds @ [c]"] Cons.prems show ?thesis
      by (simp add: cur av_simps parent_of_snoc Let_def)
  qed
qed

lemma from_iter_level_None: "from_iter_level ops h None nodes = Some (map (parent_of ops h) (chunks CAP nodes))"
  using from_iter_level_eq [of "[]" h nodes] by (simp add: TREE_BASE_def)

lemma from_par_levels_eq:
  assumes "\<And>f xs. par_nodes CAP f xs = map f (chunks CAP xs)"
  shows "from_par_levels par_nodes ops h nodes = from_iter_levels ops h nodes"
proof (induction nodes arbitrary: h rule: measure_induct_rule [of length])
  case (less nodes)
  have "those (map (make_parent ops (u8_add h 1)) (chunks CAP nodes)) = Some (map (parent_of ops (u8_add h 1)) (chunks CAP nodes))"
    by (rule those_map_Some) (use chunks_bounds make_parent_ok in blast)
  then show ?case using less [of "map (parent_of ops (u8_add h 1)) (chunks CAP nodes)" "u8_add h 1"]
    by (subst from_par_levels.simps, subst from_iter_levels.simps)
      (auto simp: assms from_iter_level_None Let_def length_chunks_less)
qed

lemma from_par_iter_eq:
  assumes "\<And>f xs. par_items CAP f xs = map f (chunks CAP xs)" and "\<And>f xs. par_nodes CAP f xs = map f (chunks CAP xs)"
  shows "from_par_iter par_items par_nodes ops xs = from_iter ops xs"
proof -
  have "those (map (make_leaf ops) (chunks CAP xs)) = Some (map (leaf_of ops) (chunks CAP xs))"
    by (rule those_map_Some) (use chunks_bounds make_leaf_ok in blast)
  then show ?thesis
    by (simp add: from_par_iter_def from_iter_def assms(1) from_iter_leaves_eq from_par_levels_eq [of par_nodes] assms(2))
qed

lemma parent_of_ok:
  assumes "\<forall>t \<in> set ts. wf_node ops 256 TREE_BASE t \<and> Suc (node_height t) = h" and "ts \<noteq> []" and "length ts \<le> CAP" and "h < 256"
  shows "wf_node ops 256 TREE_BASE (parent_of ops h ts)"
  using assms by (simp add: parent_of_def list_all_iff)

lemma from_iter_levels_ok:
  assumes "\<forall>t \<in> set nodes. wf_node ops 256 TREE_BASE t \<and> node_height t = h"
    and "length nodes \<le> CAP ^ m" and "h + m < 256"
  shows "no_panic (from_iter_levels ops h nodes) (\<lambda>r. length r \<le> 1 \<and> forest_items r = forest_items nodes \<and>
      (\<forall>t \<in> set r. wf_node ops 256 TREE_BASE t \<and> node_height t \<le> h + m))"
  using assms
proof (induction m arbitrary: h nodes)
  case 0
  then show ?case by (subst from_iter_levels.simps) simp
next
  case (Suc m)
  show ?case
  proof (cases "1 < length nodes")
    case False
    with Suc.prems show ?thesis by (subst from_iter_levels.simps) auto
  next
    case True
    let ?ps = "map (parent_of ops (Suc h)) (chunks CAP nodes)"
    have len: "length ?ps \<le> CAP ^ m" using Suc.prems(2) length_chunks_le [of CAP nodes "CAP ^ m"] by simp
    have sub: "set c \<subseteq> set nodes" if "c \<in> set (chunks CAP nodes)" for c
      using that concat_chunks [of CAP nodes] by (metis TREE_BASE_pos(1) UN_upper mult_2 set_concat trans_less_add1)
    have wf: "\<forall>t \<in> set ?ps. wf_node ops 256 TREE_BASE t \<and> node_height t = Suc h"
    proof
      fix t assume "t \<in> set ?ps"
      then obtain c where c: "c \<in> set (chunks CAP nodes)" "t = parent_of ops (Suc h) c" by auto
      with sub Suc.prems(1,3) chunks_bounds [OF c(1)] show "wf_node ops 256 TREE_BASE t \<and> node_height t = Suc h"
        using parent_of_ok [of c "Suc h"] by (auto simp: parent_of_def)
    qed
    have "forest_items ?ps = concat (map forest_items (chunks CAP nodes))"
      by (simp add: comp_def parent_of_def)
    also have "\<dots> = forest_items (concat (chunks CAP nodes))" by (simp add: concat_map_concat)
    also have "\<dots> = forest_items nodes" by (simp add: concat_chunks)
    finally have items: "forest_items ?ps = forest_items nodes" .
    from Suc.IH [OF wf len] Suc.prems(3) items True show ?thesis
      by (subst from_iter_levels.simps) (simp add: Let_def from_iter_level_None u8_add_small)
  qed
qed

lemma from_iter_ok:
  assumes "length xs \<le> CAP ^ Suc m" and "m < 256"
  shows "no_panic (from_iter ops xs) (\<lambda>r. wf_tree ops (Suc (node_height r)) r \<and> tree_items r = xs \<and> node_height r \<le> m)"
proof -
  let ?leaves = "map (leaf_of ops) (chunks CAP xs)"
  have "length ?leaves \<le> CAP ^ m" using assms(1) length_chunks_le [of CAP xs "CAP ^ m"] by simp
  moreover have "\<forall>t \<in> set ?leaves. wf_node ops 256 TREE_BASE t \<and> node_height t = 0"
    using chunks_bounds [of _ CAP xs] by (auto simp: leaf_of_def)
  ultimately obtain r where r: "from_iter_levels ops 0 ?leaves = Some r" "length r \<le> 1"
    "forest_items r = forest_items ?leaves" "\<forall>t \<in> set r. wf_node ops 256 TREE_BASE t \<and> node_height t \<le> m"
    using from_iter_levels_ok [of ?leaves 0 m] assms(2) by (auto simp: no_panic_def)
  have "forest_items ?leaves = concat (chunks CAP xs)" by (simp add: comp_def leaf_of_def)
  then have items: "forest_items r = xs" using r(3) by (simp add: concat_chunks)
  show ?thesis
  proof (cases r)
    case Nil
    with r(1) items show ?thesis by (simp add: from_iter_def from_iter_leaves_eq)
  next
    case (Cons t ts)
    with r have t: "r = [t]" "wf_node ops 256 TREE_BASE t" "node_height t \<le> m" by auto
    have "wf_node ops (Suc (node_height t)) (root_min t) t"
      using wf_node_rebase [OF t(2)] assms(2) t(3) by auto
    with r(1) items t show ?thesis by (simp add: from_iter_def from_iter_leaves_eq wf_tree_def)
  qed
qed

lemma wf_tree_rebase: "wf_tree ops b t \<Longrightarrow> b \<le> b' \<Longrightarrow> wf_tree ops b' t"
proof -
  have "wf_node ops b k t \<Longrightarrow> b \<le> b' \<Longrightarrow> wf_node ops b' k t" for k and t :: "('a, 's) node"
  proof (induction t arbitrary: k)
    case (Internal h s cs ts)
    have "wf_node ops b' TREE_BASE c \<and> Suc (node_height c) = h" if "c \<in> set ts" for c
      using Internal.prems that Internal.IH [OF that, of TREE_BASE] by (auto simp: list_all_iff)
    with Internal.prems show ?case by (auto simp: list_all_iff)
  qed auto
  then show "wf_tree ops b t \<Longrightarrow> b \<le> b' \<Longrightarrow> wf_tree ops b' t" by (auto simp: wf_tree_def)
qed

lemma extend_ok:
  assumes "wf_tree ops b t" and "length xs \<le> CAP ^ b" and "0 < b" and "b < 256"
    and "length (tree_items t) + length xs < max_items 256 b"
  shows "no_panic (tree_extend ops t xs) (\<lambda>r. wf_tree ops b r \<and> tree_items r = tree_items t @ xs)"
proof -
  obtain m where m: "b = Suc m" using assms(3) by (cases b) auto
  obtain u where u: "from_iter ops xs = Some u" "wf_tree ops (Suc (node_height u)) u" "tree_items u = xs" "node_height u \<le> m"
    using from_iter_ok [of xs m] assms m by (auto simp: no_panic_def)
  have "wf_tree ops b u" by (rule wf_tree_rebase [OF u(2)]) (use m u(4) in simp)
  from append_ok [OF assms(1) this] u assms show ?thesis by (simp add: tree_extend_def)
qed

end

end
