(* ===== verification/ST_Find.thy ===== *)
theory ST_Find
  imports ST_Append
begin

text \<open>
  Point queries: \<open>find\<close>, \<open>find_exact\<close>, \<open>find_with_prev\<close> and \<open>get\<close>, with the loops that walk down the
  tree. Shown: for a target that is monotone along the items they return what a linear scan over the
  items returns, and \<open>find_with_prev\<close> never panics.
\<close>

section \<open>Operations\<close>

definition target_in_child :: "'d seek_target \<Rightarrow> bias \<Rightarrow> 'd \<Rightarrow> bool" where
  "target_in_child tgt bias child_end \<longleftrightarrow>
     (let comparison = tgt child_end in comparison = Less \<or> (comparison = Equal \<and> bias = Left))"

definition entry_found :: "bool \<Rightarrow> 'd seek_target \<Rightarrow> bias \<Rightarrow> 'd \<Rightarrow> bool" where
  "entry_found exact tgt bias child_end \<longleftrightarrow>
     (if exact then tgt child_end = Equal else target_in_child tgt bias child_end)"

text \<open>The position is an in-out parameter, so it is the first component of the result.\<close>

fun find_leaf :: "('s, 'd) dim_ops \<Rightarrow> bool \<Rightarrow> 'd seek_target \<Rightarrow> bias \<Rightarrow> 'd \<Rightarrow> 'a list \<Rightarrow> 's list \<Rightarrow>
    'd \<times> ('a \<times> 'd) option" where
  "find_leaf dim exact tgt bias position (item # items) (item_sum # item_sums) =
     (let child_end = dim_add dim position item_sum in
      if entry_found exact tgt bias child_end then (position, Some (item, child_end))
      else find_leaf dim exact tgt bias child_end items item_sums)"
| "find_leaf dim exact tgt bias position _ _ = (position, None)"

fun find_iterate :: "('s, 'd) dim_ops \<Rightarrow> bool \<Rightarrow> 'd seek_target \<Rightarrow> bias \<Rightarrow> 'd \<Rightarrow> ('a, 's) sum_tree \<Rightarrow>
    'd \<times> ('a \<times> 'd) option"
  and find_children :: "('s, 'd) dim_ops \<Rightarrow> bool \<Rightarrow> 'd seek_target \<Rightarrow> bias \<Rightarrow> 'd \<Rightarrow> ('a, 's) sum_tree list \<Rightarrow> 's list \<Rightarrow>
    'd \<times> ('a \<times> 'd) option" where
  "find_iterate dim exact tgt bias position (Internal h s cs ts) = find_children dim exact tgt bias position ts cs"
| "find_iterate dim exact tgt bias position (Leaf s its ss) = find_leaf dim exact tgt bias position its ss"
| "find_children dim exact tgt bias position (child_tree # ts) (child_summary # cs) =
     (let child_end = with_added_summary dim position child_summary in
      if target_in_child tgt bias child_end then find_iterate dim exact tgt bias position child_tree
      else find_children dim exact tgt bias child_end ts cs)"
| "find_children dim exact tgt bias position _ _ = (position, None)"

text \<open>\<open>find\<close> (\<open>exact = False\<close>) and \<open>find_exact\<close> (\<open>exact = True\<close>) differ only in the constant they pass.\<close>

definition find_with :: "('s, 'd) dim_ops \<Rightarrow> bool \<Rightarrow> 'd seek_target \<Rightarrow> bias \<Rightarrow> ('a, 's) sum_tree \<Rightarrow>
    'd \<times> 'd \<times> 'a option" where
  "find_with dim exact tgt bias t =
     (let tree_end = with_added_summary dim (dim_zero dim) (node_summary t);
          comparison = tgt tree_end in
      if comparison = Greater \<or> (comparison = Equal \<and> bias = Right) then (tree_end, tree_end, None)
      else case find_iterate dim exact tgt bias (dim_zero dim) t of
             (pos, Some (item, end_pos)) \<Rightarrow> (pos, end_pos, Some item)
           | (pos, None) \<Rightarrow> (pos, pos, None))"

definition find_exact :: "('s, 'd) dim_ops \<Rightarrow> 'd seek_target \<Rightarrow> bias \<Rightarrow> ('a, 's) sum_tree \<Rightarrow> 'd \<times> 'd \<times> 'a option" where
  "find_exact dim tgt bias t = find_with dim True tgt bias t"

definition tree_find :: "('s, 'd) dim_ops \<Rightarrow> 'd seek_target \<Rightarrow> bias \<Rightarrow> ('a, 's) sum_tree \<Rightarrow> 'd \<times> 'd \<times> 'a option" where
  "tree_find dim tgt bias t = find_with dim False tgt bias t"

fun find_prev_leaf :: "('s, 'd) dim_ops \<Rightarrow> bool \<Rightarrow> 'd seek_target \<Rightarrow> bias \<Rightarrow> 'd \<Rightarrow> 'a option \<Rightarrow> 'a list \<Rightarrow> 's list \<Rightarrow>
    'd \<times> ('a option \<times> 'a \<times> 'd) option" where
  "find_prev_leaf dim exact tgt bias position prev (item # items) (item_sum # item_sums) =
     (let child_end = dim_add dim position item_sum in
      if entry_found exact tgt bias child_end then (position, Some (prev, item, child_end))
      else find_prev_leaf dim exact tgt bias child_end (Some item) items item_sums)"
| "find_prev_leaf dim exact tgt bias position prev _ _ = (position, None)"

fun find_with_prev_iterate :: "('s, 'd) dim_ops \<Rightarrow> bool \<Rightarrow> 'd seek_target \<Rightarrow> bias \<Rightarrow> 'd \<Rightarrow> 'a option \<Rightarrow> ('a, 's) sum_tree \<Rightarrow>
    ('d \<times> ('a option \<times> 'a \<times> 'd) option) panics"
  and find_prev_children :: "('s, 'd) dim_ops \<Rightarrow> bool \<Rightarrow> 'd seek_target \<Rightarrow> bias \<Rightarrow> 'd \<Rightarrow> 'a option \<Rightarrow> ('a, 's) sum_tree list \<Rightarrow> 's list \<Rightarrow>
    ('d \<times> ('a option \<times> 'a \<times> 'd) option) panics" where
  "find_with_prev_iterate dim exact tgt bias position prev (Internal h s cs ts) =
     find_prev_children dim exact tgt bias position prev ts cs"
| "find_with_prev_iterate dim exact tgt bias position prev (Leaf s its ss) =
     Some (find_prev_leaf dim exact tgt bias position prev its ss)"
| "find_prev_children dim exact tgt bias position prev (child_tree # ts) (child_summary # cs) =
     (let child_end = with_added_summary dim position child_summary in
      if target_in_child tgt bias child_end
      then find_with_prev_iterate dim exact tgt bias position prev child_tree
      else do {
        prev' \<leftarrow> tree_last child_tree;
        find_prev_children dim exact tgt bias child_end prev' ts cs
      })"
| "find_prev_children dim exact tgt bias position prev _ _ = Some (position, None)"

definition find_with_prev :: "('s, 'd) dim_ops \<Rightarrow> 'd seek_target \<Rightarrow> bias \<Rightarrow> ('a, 's) sum_tree \<Rightarrow>
    ('d \<times> 'd \<times> ('a option \<times> 'a) option) panics" where
  "find_with_prev dim tgt bias t =
     (let tree_end = with_added_summary dim (dim_zero dim) (node_summary t);
          comparison = tgt tree_end in
      if comparison = Greater \<or> (comparison = Equal \<and> bias = Right) then Some (tree_end, tree_end, None)
      else do {
        (pos, res) \<leftarrow> find_with_prev_iterate dim False tgt bias (dim_zero dim) None t;
        Some (case res of
            Some (prev, item, end_pos) \<Rightarrow> (pos, end_pos, Some (prev, item))
          | None \<Rightarrow> (pos, pos, None))
      })"

section \<open>Reference: a linear scan over the items\<close>

text \<open>The position after the items \<open>xs\<close>.\<close>

definition pos_after :: "('a, 's) item_ops \<Rightarrow> ('s, 'd) dim_ops \<Rightarrow> 'd \<Rightarrow> 'a list \<Rightarrow> 'd" where
  "pos_after ops dim d xs = foldl (dim_add dim) d (map (item_summary ops) xs)"

fun scan :: "('a, 's) item_ops \<Rightarrow> ('s, 'd) dim_ops \<Rightarrow> ('d \<Rightarrow> bool) \<Rightarrow> 'd \<Rightarrow> 'a list \<Rightarrow> 'd \<times> ('a \<times> 'd) option" where
  "scan ops dim P d [] = (d, None)"
| "scan ops dim P d (x # xs) =
     (let e = dim_add dim d (item_summary ops x) in
      if P e then (d, Some (x, e)) else scan ops dim P e xs)"

fun scan_prev :: "('a, 's) item_ops \<Rightarrow> ('s, 'd) dim_ops \<Rightarrow> ('d \<Rightarrow> bool) \<Rightarrow> 'd \<Rightarrow> 'a option \<Rightarrow> 'a list \<Rightarrow>
    'd \<times> ('a option \<times> 'a \<times> 'd) option" where
  "scan_prev ops dim P d prev [] = (d, None)"
| "scan_prev ops dim P d prev (x # xs) =
     (let e = dim_add dim d (item_summary ops x) in
      if P e then (d, Some (prev, x, e)) else scan_prev ops dim P e (Some x) xs)"

text \<open>Along the items, the target never falls behind again once it has been passed.\<close>

definition mono_along :: "('a, 's) item_ops \<Rightarrow> ('s, 'd) dim_ops \<Rightarrow> ('d \<Rightarrow> bool) \<Rightarrow> 'd \<Rightarrow> 'a list \<Rightarrow> bool" where
  "mono_along ops dim P d xs \<longleftrightarrow>
     (\<forall>j \<in> {1..length xs}. \<forall>i \<in> {1..j}. P (pos_after ops dim d (take i xs)) \<longrightarrow> P (pos_after ops dim d (take j xs)))"

definition target_mono :: "('a, 's) item_ops \<Rightarrow> ('s, 'd) dim_ops \<Rightarrow> 'd seek_target \<Rightarrow> 'd \<Rightarrow> 'a list \<Rightarrow> bool" where
  "target_mono ops dim tgt d xs \<longleftrightarrow>
     mono_along ops dim (\<lambda>e. tgt e = Less) d xs \<and> mono_along ops dim (\<lambda>e. tgt e \<noteq> Greater) d xs"

lemma pos_after_simps [simp]:
  "pos_after ops dim d [] = d"
  "pos_after ops dim d (x # xs) = pos_after ops dim (dim_add dim d (item_summary ops x)) xs"
  "pos_after ops dim d (xs @ ys) = pos_after ops dim (pos_after ops dim d xs) ys"
  by (simp_all add: pos_after_def)

lemma mono_along_append:
  assumes "mono_along ops dim P d (xs @ ys)"
  shows "mono_along ops dim P d xs" and "mono_along ops dim P (pos_after ops dim d xs) ys"
proof -
  show "mono_along ops dim P d xs"
    unfolding mono_along_def
  proof (intro ballI impI)
    fix i j assume "j \<in> {1..length xs}" "i \<in> {1..j}" and "P (pos_after ops dim d (take i xs))"
    then show "P (pos_after ops dim d (take j xs))"
      using assms [unfolded mono_along_def, rule_format, of j i] by simp
  qed
  show "mono_along ops dim P (pos_after ops dim d xs) ys"
    unfolding mono_along_def
  proof (intro ballI impI)
    fix i j assume ij: "j \<in> {1..length ys}" "i \<in> {1..j}" and P: "P (pos_after ops dim (pos_after ops dim d xs) (take i ys))"
    from P have "P (pos_after ops dim d (take (length xs + i) (xs @ ys)))" by simp
    then have "P (pos_after ops dim d (take (length xs + j) (xs @ ys)))"
      using assms [unfolded mono_along_def, rule_format, of "length xs + j" "length xs + i"] ij by simp
    then show "P (pos_after ops dim (pos_after ops dim d xs) (take j ys))" by simp
  qed
qed

lemma mono_along_Cons:
  "mono_along ops dim P d (x # xs) \<Longrightarrow> mono_along ops dim P (dim_add dim d (item_summary ops x)) xs"
  using mono_along_append(2) [of ops dim P d "[x]" xs] by simp

lemma mono_along_first:
  assumes "mono_along ops dim P d (x # xs)" and "P (dim_add dim d (item_summary ops x))"
  shows "P (pos_after ops dim d (x # xs))"
  using assms(1) [unfolded mono_along_def, rule_format, of "length (x # xs)" 1] assms(2) by simp

lemma scan_none:
  "mono_along ops dim P d xs \<Longrightarrow> \<not> P (pos_after ops dim d xs) \<Longrightarrow> scan ops dim P d xs = (pos_after ops dim d xs, None)"
proof (induction xs arbitrary: d)
  case (Cons x xs)
  then show ?case using mono_along_first [OF Cons.prems(1)] mono_along_Cons [OF Cons.prems(1)] by (auto simp: Let_def)
qed simp

lemma scan_append:
  "scan ops dim P d (xs @ ys) = (case scan ops dim P d xs of (p, Some r) \<Rightarrow> (p, Some r) | (p, None) \<Rightarrow> scan ops dim P p ys)"
  by (induction xs arbitrary: d) (auto simp: Let_def)

lemma scan_found: "xs \<noteq> [] \<Longrightarrow> P (pos_after ops dim d xs) \<Longrightarrow> \<exists>p x e. scan ops dim P d xs = (p, Some (x, e))"
proof (induction xs arbitrary: d)
  case (Cons x xs)
  then show ?case by (cases "xs = []") (auto simp: Let_def)
qed simp

lemma scan_prev_none:
  "mono_along ops dim P d xs \<Longrightarrow> \<not> P (pos_after ops dim d xs) \<Longrightarrow>
   scan_prev ops dim P d prev xs = (pos_after ops dim d xs, None)"
proof (induction xs arbitrary: d prev)
  case (Cons x xs)
  then show ?case using mono_along_first [OF Cons.prems(1)] mono_along_Cons [OF Cons.prems(1)] by (auto simp: Let_def)
qed simp

lemma scan_prev_append:
  "scan_prev ops dim P d prev (xs @ ys) =
     (case scan_prev ops dim P d prev xs of
        (p, Some r) \<Rightarrow> (p, Some r)
      | (p, None) \<Rightarrow> scan_prev ops dim P p (if xs = [] then prev else Some (last xs)) ys)"
  by (induction xs arbitrary: d prev) (auto simp: Let_def)

lemma scan_prev_found:
  "xs \<noteq> [] \<Longrightarrow> P (pos_after ops dim d xs) \<Longrightarrow> \<exists>p q x e. scan_prev ops dim P d prev xs = (p, Some (q, x, e))"
proof (induction xs arbitrary: d prev)
  case (Cons x xs)
  then show ?case by (cases "xs = []") (auto simp: Let_def)
qed simp

section \<open>Correctness\<close>

lemma leaf_edges:
  assumes "wf_node ops b k t"
  shows "\<exists>s its ss. leftmost_leaf t = Some (Leaf s its ss) \<and> its \<noteq> [] \<and> hd its = hd (tree_items t)"
    and "\<exists>s its ss. rightmost_leaf t = Some (Leaf s its ss) \<and> its \<noteq> [] \<and> last its = last (tree_items t)"
proof -
  show "\<exists>s its ss. leftmost_leaf t = Some (Leaf s its ss) \<and> its \<noteq> [] \<and> hd its = hd (tree_items t)"
    using assms
  proof (induction t arbitrary: k)
    case (Internal h s cs ts)
    then obtain c ts' where c: "ts = c # ts'" "wf_node ops b TREE_BASE c" by (cases ts) auto
    from Internal.IH [OF _ c(2)] wf_node_nonempty [OF c(2)] c(1) show ?case by auto
  qed simp
  show "\<exists>s its ss. rightmost_leaf t = Some (Leaf s its ss) \<and> its \<noteq> [] \<and> last its = last (tree_items t)"
    using assms
  proof (induction t arbitrary: k)
    case (Internal h s cs ts)
    then obtain c ts' where c: "ts = ts' @ [c]" "wf_node ops b TREE_BASE c" by (cases ts rule: rev_cases) auto
    from Internal.IH [OF _ c(2)] wf_node_nonempty [OF c(2)] c(1) show ?case by auto
  qed simp
qed

lemma first_last_ok:
  assumes "wf_tree ops b t"
  shows "tree_first t = Some (vec_first (tree_items t))" and "tree_last t = Some (vec_last (tree_items t))"
  using assms leaf_edges [of ops b "root_min t" t] wf_node_nonempty [of ops b "root_min t" t]
  by (auto simp: wf_tree_def tree_first_def tree_last_def vec_first_def vec_last_def new_def)

lemma node_last_ok: "wf_node ops b k t \<Longrightarrow> tree_last t = Some (Some (last (tree_items t)))"
  using leaf_edges(2) [of ops b k t] by (auto simp: tree_last_def vec_last_def)

context dimension_laws
begin

lemma child_end: "wf_node ops b k t \<Longrightarrow> with_added_summary dim d (node_summary t) = pos_after ops dim d (tree_items t)"
  using dim_add_sum [of "map (item_summary ops) (tree_items t)" d]
  by (simp add: with_added_summary_def wf_node_summary wf_node_nonempty pos_after_def)

lemma find_leaf_scan:
  "find_leaf dim exact tgt bias d its (map (item_summary ops) its) = scan ops dim (entry_found exact tgt bias) d its"
  by (induction its arbitrary: d) (simp_all add: Let_def)

lemma find_iterate_scan:
  assumes "wf_node ops b k t" and "mono_along ops dim (target_in_child tgt bias) d (tree_items t)"
  shows "find_iterate dim False tgt bias d t = scan ops dim (target_in_child tgt bias) d (tree_items t)"
  using assms
proof (induction t arbitrary: k d)
  case (Leaf s its ss)
  then show ?case by (simp add: find_leaf_scan entry_found_def [abs_def])
next
  case (Internal h s cs ts)
  let ?P = "target_in_child tgt bias"
  have "find_children dim False tgt bias d us (map node_summary us) = scan ops dim ?P d (forest_items us)"
    if "set us \<subseteq> set ts" "mono_along ops dim ?P d (forest_items us)" for us d using that
  proof (induction us arbitrary: d)
    case (Cons u us)
    have u: "u \<in> set ts" "wf_node ops b TREE_BASE u" using Cons.prems(1) Internal.prems(1) by (auto simp: list_all_iff)
    have mono: "mono_along ops dim ?P d (tree_items u)" "mono_along ops dim ?P (pos_after ops dim d (tree_items u)) (forest_items us)"
      using mono_along_append [of ops dim ?P d "tree_items u" "forest_items us"] Cons.prems(2) by simp_all
    show ?case
    proof (cases "?P (pos_after ops dim d (tree_items u))")
      case True
      then obtain p x e where "scan ops dim ?P d (tree_items u) = (p, Some (x, e))"
        using scan_found [of "tree_items u" ?P] wf_node_nonempty [OF u(2)] by blast
      with True Internal.IH [OF u mono(1)] show ?thesis by (simp add: Let_def child_end [OF u(2)] scan_append)
    next
      case False
      with Cons.IH [OF _ mono(2)] Cons.prems(1) scan_none [OF mono(1)] show ?thesis
        by (simp add: Let_def child_end [OF u(2)] scan_append)
    qed
  qed simp
  with Internal.prems show ?case by simp
qed

text \<open>A monotone target gives a monotone descent for either bias.\<close>

lemma target_in_child_bias:
  "target_in_child tgt Left = (\<lambda>e. tgt e \<noteq> Greater)" "target_in_child tgt Right = (\<lambda>e. tgt e = Less)"
proof -
  show "target_in_child tgt Left = (\<lambda>e. tgt e \<noteq> Greater)"
  proof
    show "target_in_child tgt Left e = (tgt e \<noteq> Greater)" for e by (cases "tgt e") (simp_all add: target_in_child_def)
  qed
  show "target_in_child tgt Right = (\<lambda>e. tgt e = Less)"
    by (rule ext) (simp add: target_in_child_def)
qed

lemma target_mono_descent: "target_mono ops dim tgt d xs \<Longrightarrow> mono_along ops dim (target_in_child tgt bias) d xs"
  by (cases bias) (simp_all only: target_in_child_bias target_mono_def)

lemma tree_end_pos: "wf_tree ops b t \<Longrightarrow> tree_items t \<noteq> [] \<Longrightarrow>
    with_added_summary dim (dim_zero dim) (node_summary t) = pos_after ops dim (dim_zero dim) (tree_items t)"
  using child_end [OF wf_tree_node] by simp

text \<open>What the scan means for the caller of \<open>find\<close>: start, end and item.\<close>

lemma tree_find_scan:
  assumes "wf_tree ops b t" and "tree_items t \<noteq> []" and "target_mono ops dim tgt (dim_zero dim) (tree_items t)"
  shows "tree_find dim tgt bias t =
    (case scan ops dim (target_in_child tgt bias) (dim_zero dim) (tree_items t) of
       (pos, Some (item, end_pos)) \<Rightarrow> (pos, end_pos, Some item) | (pos, None) \<Rightarrow> (pos, pos, None))"
proof -
  note mono = target_mono_descent [OF assms(3), of bias]
  note wf = wf_tree_node [OF assms(1,2)]
  let ?e = "pos_after ops dim (dim_zero dim) (tree_items t)"
  have in_child: "target_in_child tgt bias ?e \<longleftrightarrow> \<not> (tgt ?e = Greater \<or> tgt ?e = Equal \<and> bias = Right)"
    by (cases "tgt ?e"; cases bias) (simp_all add: target_in_child_def)
  show ?thesis
  proof (cases "target_in_child tgt bias ?e")
    case True
    then show ?thesis using in_child
      by (auto simp: tree_find_def find_with_def Let_def child_end [OF wf] find_iterate_scan [OF wf mono] split: prod.splits option.splits)
  next
    case False
    then show ?thesis using in_child scan_none [OF mono False]
      by (auto simp: tree_find_def find_with_def Let_def child_end [OF wf])
  qed
qed

lemma scan_past:
  "mono_along ops dim (\<lambda>e. tgt e = Less) d (x # xs) \<Longrightarrow> tgt (dim_add dim d (item_summary ops x)) = Less \<Longrightarrow>
   snd (scan ops dim (\<lambda>e. tgt e = Equal) (dim_add dim d (item_summary ops x)) xs) = None"
proof (induction xs arbitrary: d x)
  case (Cons y ys)
  let ?d = "dim_add dim d (item_summary ops x)"
  have "tgt (dim_add dim ?d (item_summary ops y)) = Less"
    using Cons.prems(1) [unfolded mono_along_def, rule_format, of 2 1] Cons.prems(2) by simp
  with Cons.IH [OF mono_along_Cons [OF Cons.prems(1)]] show ?case by simp
qed simp

lemma scan_exact:
  assumes "target_mono ops dim tgt d xs"
  shows "snd (scan ops dim (\<lambda>e. tgt e = Equal) d xs) =
     (case snd (scan ops dim (target_in_child tgt Left) d xs) of
        Some (x, e) \<Rightarrow> if tgt e = Equal then Some (x, e) else None | None \<Rightarrow> None)"
  using assms
proof (induction xs arbitrary: d)
  case (Cons x xs)
  let ?e = "dim_add dim d (item_summary ops x)"
  have mono: "target_mono ops dim tgt ?e xs"
    using Cons.prems by (auto simp: target_mono_def dest: mono_along_Cons)
  show ?case
  proof (cases "tgt ?e")
    case Less
    have "snd (scan ops dim (\<lambda>e. tgt e = Equal) ?e xs) = None"
      using scan_past [of tgt d x xs] Less Cons.prems by (simp add: target_mono_def)
    with Less show ?thesis by (simp add: target_in_child_def)
  next
    case Equal
    then show ?thesis by (simp add: target_in_child_def)
  next
    case Greater
    with Cons.IH [OF mono] show ?thesis by (simp add: target_in_child_def)
  qed
qed simp

lemma target_mono_append:
  "target_mono ops dim tgt d (xs @ ys) \<Longrightarrow> target_mono ops dim tgt d xs \<and> target_mono ops dim tgt (pos_after ops dim d xs) ys"
  using mono_along_append by (fastforce simp: target_mono_def)

lemma find_iterate_exact:
  assumes "wf_node ops b k t" and "target_mono ops dim tgt d (tree_items t)"
  shows "snd (find_iterate dim True tgt Left d t) = snd (scan ops dim (\<lambda>e. tgt e = Equal) d (tree_items t))"
  using assms
proof (induction t arbitrary: k d)
  case (Leaf s its ss)
  then show ?case by (simp add: find_leaf_scan entry_found_def [abs_def])
next
  case (Internal h s cs ts)
  let ?P = "target_in_child tgt Left" and ?Q = "\<lambda>e. tgt e = Equal"
  have "snd (find_children dim True tgt Left d us (map node_summary us)) = snd (scan ops dim ?Q d (forest_items us))"
    if "set us \<subseteq> set ts" "target_mono ops dim tgt d (forest_items us)" for us d using that
  proof (induction us arbitrary: d)
    case (Cons u us)
    have u: "u \<in> set ts" "wf_node ops b TREE_BASE u" using Cons.prems(1) Internal.prems(1) by (auto simp: list_all_iff)
    let ?e = "pos_after ops dim d (tree_items u)"
    have mono: "target_mono ops dim tgt d (tree_items u)" "target_mono ops dim tgt ?e (forest_items us)"
      using target_mono_append Cons.prems(2) by auto
    have all: "snd (scan ops dim ?Q d (forest_items (u # us))) =
       (case snd (scan ops dim ?P d (forest_items (u # us))) of Some (x, e) \<Rightarrow> if tgt e = Equal then Some (x, e) else None | None \<Rightarrow> None)"
      by (rule scan_exact) (rule Cons.prems(2))
    show ?case
    proof (cases "?P ?e")
      case True
      then obtain p x e where "scan ops dim ?P d (tree_items u) = (p, Some (x, e))"
        using scan_found [of "tree_items u" ?P] wf_node_nonempty [OF u(2)] by blast
      with True Internal.IH [OF u mono(1)] all scan_exact [OF mono(1)] show ?thesis
        by (simp add: Let_def child_end [OF u(2)] scan_append)
    next
      case False
      then have none: "scan ops dim ?P d (tree_items u) = (?e, None)"
        by (rule scan_none [OF target_mono_descent [OF mono(1)]])
      with False Cons.IH [OF _ mono(2)] Cons.prems(1) all scan_exact [OF mono(2)] show ?thesis
        by (simp add: Let_def child_end [OF u(2)] scan_append)
    qed
  qed simp
  with Internal.prems show ?case by simp
qed

lemma find_exact_item:
  assumes "wf_tree ops b t" and "tree_items t \<noteq> []" and "target_mono ops dim tgt (dim_zero dim) (tree_items t)"
  shows "snd (snd (find_exact dim tgt Left t)) =
    map_option fst (snd (scan ops dim (\<lambda>e. tgt e = Equal) (dim_zero dim) (tree_items t)))"
proof -
  note wf = wf_tree_node [OF assms(1,2)]
  let ?e = "pos_after ops dim (dim_zero dim) (tree_items t)"
  show ?thesis
  proof (cases "tgt ?e = Greater")
    case True
    then have "snd (scan ops dim (\<lambda>e. tgt e = Equal) (dim_zero dim) (tree_items t)) = None"
      using scan_exact [OF assms(3)] scan_none [OF target_mono_descent [OF assms(3), of Left]] by (simp add: target_in_child_def)
    with True show ?thesis by (simp add: find_exact_def find_with_def Let_def child_end [OF wf])
  next
    case False
    obtain pos res where "find_iterate dim True tgt Left (dim_zero dim) t = (pos, res)" by fastforce
    with False show ?thesis using find_iterate_exact [OF wf assms(3)]
      by (cases res) (auto simp: find_exact_def find_with_def Let_def child_end [OF wf] simp flip: find_iterate_exact [OF wf assms(3)])
  qed
qed

lemma find_prev_leaf_scan:
  "find_prev_leaf dim exact tgt bias d prev its (map (item_summary ops) its) = scan_prev ops dim (entry_found exact tgt bias) d prev its"
  by (induction its arbitrary: d prev) (simp_all add: Let_def)

lemma find_with_prev_iterate_scan:
  assumes "wf_node ops b k t" and "mono_along ops dim (target_in_child tgt bias) d (tree_items t)"
  shows "find_with_prev_iterate dim False tgt bias d prev t = Some (scan_prev ops dim (target_in_child tgt bias) d prev (tree_items t))"
  using assms
proof (induction t arbitrary: k d prev)
  case (Leaf s its ss)
  then show ?case by (simp add: find_prev_leaf_scan entry_found_def [abs_def])
next
  case (Internal h s cs ts)
  let ?P = "target_in_child tgt bias"
  have "find_prev_children dim False tgt bias d prev us (map node_summary us) = Some (scan_prev ops dim ?P d prev (forest_items us))"
    if "set us \<subseteq> set ts" "mono_along ops dim ?P d (forest_items us)" for us d prev using that
  proof (induction us arbitrary: d prev)
    case (Cons u us)
    have u: "u \<in> set ts" "wf_node ops b TREE_BASE u" using Cons.prems(1) Internal.prems(1) by (auto simp: list_all_iff)
    have mono: "mono_along ops dim ?P d (tree_items u)" "mono_along ops dim ?P (pos_after ops dim d (tree_items u)) (forest_items us)"
      using mono_along_append [of ops dim ?P d "tree_items u" "forest_items us"] Cons.prems(2) by simp_all
    show ?case
    proof (cases "?P (pos_after ops dim d (tree_items u))")
      case True
      then obtain p q x e where "scan_prev ops dim ?P d prev (tree_items u) = (p, Some (q, x, e))"
        using scan_prev_found [of "tree_items u" ?P] wf_node_nonempty [OF u(2)] by blast
      with True Internal.IH [OF u mono(1)] show ?thesis by (simp add: Let_def child_end [OF u(2)] scan_prev_append)
    next
      case False
      with Cons.IH [OF _ mono(2)] Cons.prems(1) scan_prev_none [OF mono(1)] show ?thesis
        by (simp add: Let_def child_end [OF u(2)] scan_prev_append node_last_ok [OF u(2)] wf_node_nonempty [OF u(2)])
    qed
  qed simp
  with Internal.prems show ?case by simp
qed

lemma find_with_prev_scan:
  assumes "wf_tree ops b t" and "tree_items t \<noteq> []" and "target_mono ops dim tgt (dim_zero dim) (tree_items t)"
  shows "find_with_prev dim tgt bias t =
    Some (case scan_prev ops dim (target_in_child tgt bias) (dim_zero dim) None (tree_items t) of
       (pos, Some (prev, item, end_pos)) \<Rightarrow> (pos, end_pos, Some (prev, item)) | (pos, None) \<Rightarrow> (pos, pos, None))"
proof -
  note mono = target_mono_descent [OF assms(3), of bias]
  note wf = wf_tree_node [OF assms(1,2)]
  let ?e = "pos_after ops dim (dim_zero dim) (tree_items t)"
  have in_child: "target_in_child tgt bias ?e \<longleftrightarrow> \<not> (tgt ?e = Greater \<or> tgt ?e = Equal \<and> bias = Right)"
    by (cases "tgt ?e"; cases bias) (simp_all add: target_in_child_def)
  show ?thesis
  proof (cases "target_in_child tgt bias ?e")
    case True
    then show ?thesis using in_child
      by (auto simp: find_with_prev_def Let_def child_end [OF wf] find_with_prev_iterate_scan [OF wf mono] split: prod.splits option.splits)
  next
    case False
    then show ?thesis using in_child scan_prev_none [OF mono False]
      by (auto simp: find_with_prev_def Let_def child_end [OF wf])
  qed
qed

end

end
