(* ===== verification/ST_Cursor.thy ===== *)
theory ST_Cursor
  imports ST_Build ST_Find
begin

text \<open>
  The model of \<open>crates/sum_tree/src/cursor.rs\<close>: \<open>Cursor\<close> with its fixed-size stack of
  \<open>StackEntry\<close>, \<open>seek\<close>, \<open>slice\<close>, \<open>summary\<close> and the searches in both directions, the aggregates a seek
  collects into, \<open>FilterCursor\<close> and \<open>Iter\<close>. A stack is a list with its top first. The loops are
  recursive functions; their termination is a measure on the work left in the subtrees to the right
  (or left) of the stack.
\<close>

section \<open>State\<close>

record ('a, 's, 'd) stack_entry =
  se_tree :: "('a, 's) sum_tree"
  se_index :: nat
  se_position :: 'd

record ('a, 's, 'd) cursor =
  cur_tree :: "('a, 's) sum_tree"
  cur_stack :: "('a, 's, 'd) stack_entry list"
  cur_position :: 'd
  did_seek :: bool
  at_end :: bool

definition STACK_CAP :: nat where
  "STACK_CAP = 16"

text \<open>A push panics (\<open>unwrap_oob\<close>) when the stack is full.\<close>

definition can_push :: "('a, 's) item_ops \<Rightarrow> 'e list \<Rightarrow> bool" where
  "can_push ops st \<longleftrightarrow> vec_fits ops STACK_CAP (Suc (length st))"

definition stack_push :: "('a, 's) item_ops \<Rightarrow> 'e list \<Rightarrow> 'e \<Rightarrow> 'e list panics" where
  "stack_push ops st e = (if can_push ops st then Some (e # st) else None)"

definition cursor_new :: "('s, 'd) dim_ops \<Rightarrow> ('a, 's) sum_tree \<Rightarrow> ('a, 's, 'd) cursor" where
  "cursor_new dim t = \<lparr>cur_tree = t, cur_stack = [], cur_position = dim_zero dim, did_seek = False, at_end = is_empty t\<rparr>"

definition reset :: "('s, 'd) dim_ops \<Rightarrow> ('a, 's, 'd) cursor \<Rightarrow> ('a, 's, 'd) cursor" where
  "reset dim c = c\<lparr>did_seek := False, at_end := is_empty (cur_tree c), cur_stack := [], cur_position := dim_zero dim\<rparr>"

section \<open>The item under the cursor and its neighbours\<close>

definition start :: "('a, 's, 'd) cursor \<Rightarrow> 'd" where
  "start c = cur_position c"

definition item :: "('a, 's, 'd) cursor \<Rightarrow> 'a option panics" where
  "item c =
     (if \<not> did_seek c then None
      else case cur_stack c of
        [] \<Rightarrow> Some None
      | entry # _ \<Rightarrow>
          (case se_tree entry of
             Leaf _ its _ \<Rightarrow>
               (if se_index entry = length its then Some None
                else if se_index entry < length its then Some (Some (its ! se_index entry))
                else None)
           | Internal _ _ _ _ \<Rightarrow> None))"

definition cursor_item_summary :: "('a, 's, 'd) cursor \<Rightarrow> 's option panics" where
  "cursor_item_summary c =
     (if \<not> did_seek c then None
      else case cur_stack c of
        [] \<Rightarrow> Some None
      | entry # _ \<Rightarrow>
          (case se_tree entry of
             Leaf _ _ ss \<Rightarrow>
               (if se_index entry = length ss then Some None
                else if se_index entry < length ss then Some (Some (ss ! se_index entry))
                else None)
           | Internal _ _ _ _ \<Rightarrow> None))"

definition cursor_end :: "('s, 'd) dim_ops \<Rightarrow> ('a, 's, 'd) cursor \<Rightarrow> 'd panics" where
  "cursor_end dim c = do {
     res \<leftarrow> cursor_item_summary c;
     Some (case res of Some s \<Rightarrow> dim_add dim (start c) s | None \<Rightarrow> start c)
   }"

text \<open>\<open>next_leaf\<close> and \<open>prev_leaf\<close> walk the stack below its top. An internal node without children
  panics in either build profile (\<open>len() - 1\<close> underflows, or the index is out of range).\<close>

fun next_leaf :: "('a, 's, 'd) stack_entry list \<Rightarrow> ('a, 's) sum_tree option panics" where
  "next_leaf [] = Some None"
| "next_leaf (entry # es) = do {
     ts \<leftarrow> child_trees (se_tree entry);
     if ts = [] then None
     else if se_index entry < length ts - 1 then map_option Some (leftmost_leaf (ts ! Suc (se_index entry)))
     else next_leaf es
   }"

fun prev_leaf :: "('a, 's, 'd) stack_entry list \<Rightarrow> ('a, 's) sum_tree option panics" where
  "prev_leaf [] = Some None"
| "prev_leaf (entry # es) =
     (if se_index entry \<noteq> 0 then do {
        ts \<leftarrow> child_trees (se_tree entry);
        if se_index entry - 1 < length ts then map_option Some (rightmost_leaf (ts ! (se_index entry - 1)))
        else None
      } else prev_leaf es)"

definition next_item :: "('a, 's, 'd) cursor \<Rightarrow> 'a option panics" where
  "next_item c =
     (if \<not> did_seek c then None
      else case cur_stack c of
        entry # es \<Rightarrow> do {
          its \<leftarrow> node_items (se_tree entry);
          if its = [] then None
          else if se_index entry = length its - 1 then do {
            leaf \<leftarrow> next_leaf es;
            case leaf of
              Some l \<Rightarrow> do { xs \<leftarrow> node_items l; x \<leftarrow> vec_first xs; Some (Some x) }
            | None \<Rightarrow> Some None
          } else if Suc (se_index entry) < length its then Some (Some (its ! Suc (se_index entry)))
          else None
        }
      | [] \<Rightarrow> if at_end c then Some None else tree_first (cur_tree c))"

definition prev_item :: "('a, 's, 'd) cursor \<Rightarrow> 'a option panics" where
  "prev_item c =
     (if \<not> did_seek c then None
      else case cur_stack c of
        entry # es \<Rightarrow>
          (if se_index entry = 0 then do {
             leaf \<leftarrow> prev_leaf es;
             case leaf of
               Some l \<Rightarrow> do { xs \<leftarrow> node_items l; x \<leftarrow> vec_last xs; Some (Some x) }
             | None \<Rightarrow> Some None
           } else
             (case se_tree entry of
                Leaf _ its _ \<Rightarrow>
                  if se_index entry - 1 < length its then Some (Some (its ! (se_index entry - 1))) else None
              | Internal _ _ _ _ \<Rightarrow> None))
      | [] \<Rightarrow> if at_end c then tree_last (cur_tree c) else Some None)"

section \<open>Work left on a stack\<close>

fun node_work :: "('a, 's) node \<Rightarrow> nat" where
  "node_work (Leaf _ _ ss) = Suc (length ss)"
| "node_work (Internal _ _ cs ts) = Suc (length cs + sum_list (map (\<lambda>t. Suc (node_work t)) ts))"

fun kids_of :: "('a, 's) node \<Rightarrow> ('a, 's) node list" where
  "kids_of (Internal _ _ _ ts) = ts"
| "kids_of (Leaf _ _ _) = []"

definition forest_work :: "('a, 's) node list \<Rightarrow> nat" where
  "forest_work ts = sum_list (map (\<lambda>t. Suc (node_work t)) ts)"

definition work_right :: "('a, 's, 'd) stack_entry \<Rightarrow> nat" where
  "work_right e = Suc (forest_work (drop (Suc (se_index e)) (kids_of (se_tree e))))"

definition work_top_right :: "bool \<Rightarrow> ('a, 's, 'd) stack_entry \<Rightarrow> nat" where
  "work_top_right ascending e =
     (if ascending then work_right e else Suc (forest_work (drop (se_index e) (kids_of (se_tree e)))))"

definition stack_work_right :: "bool \<Rightarrow> ('a, 's, 'd) stack_entry list \<Rightarrow> nat" where
  "stack_work_right ascending st =
     (case st of [] \<Rightarrow> 0 | e # es \<Rightarrow> work_top_right ascending e + sum_list (map work_right es))"

lemma forest_work_simps [simp]:
  "forest_work [] = 0" "forest_work (t # ts) = Suc (node_work t + forest_work ts)"
  "forest_work (ts @ us) = forest_work ts + forest_work us"
  by (simp_all add: forest_work_def)

lemma node_work_ge: "Suc (length (child_summaries t) + forest_work (kids_of t)) \<le> node_work t"
  by (cases t) (simp_all add: forest_work_def)

lemma forest_work_drop_mono: "i \<le> j \<Longrightarrow> forest_work (drop j ts) \<le> forest_work (drop i ts)"
  by (metis forest_work_simps(3) append_take_drop_id drop_drop le_add2 le_add_diff_inverse2)

lemma forest_work_drop: "i < length ts \<Longrightarrow> forest_work (drop i ts) = Suc (node_work (ts ! i) + forest_work (drop (Suc i) ts))"
  by (simp flip: Cons_nth_drop_Suc)

text \<open>Descending from the entry into its child \<open>j\<close>, and popping an entry, both leave less to do.\<close>

lemma work_descend:
  assumes "i \<le> j" and "j < length (kids_of t)" and "u = kids_of t ! j"
  shows "stack_work_right False (\<lparr>se_tree = u, se_index = 0, se_position = p\<rparr> # \<lparr>se_tree = t, se_index = j, se_position = q\<rparr> # es)
    < Suc (forest_work (drop i (kids_of t))) + sum_list (map work_right es)"
proof -
  have "forest_work (drop j (kids_of t)) \<le> forest_work (drop i (kids_of t))"
    using assms(1) by (rule forest_work_drop_mono)
  moreover have "forest_work (drop j (kids_of t)) = Suc (node_work u + forest_work (drop (Suc j) (kids_of t)))"
    using forest_work_drop [OF assms(2)] assms(3) by simp
  ultimately show ?thesis using node_work_ge [of u]
    by (simp add: stack_work_right_def work_top_right_def work_right_def)
qed

lemma work_pop: "stack_work_right True es \<le> sum_list (map work_right es)"
  by (cases es) (simp_all add: stack_work_right_def work_top_right_def)

lemma work_top: "stack_work_right asc (e # es) =
    Suc (forest_work (drop (if asc then Suc (se_index e) else se_index e) (kids_of (se_tree e)))) + sum_list (map work_right es)"
  by (simp add: stack_work_right_def work_top_right_def work_right_def)

section \<open>Searching forward\<close>

text \<open>Skips the summaries the filter rejects; returns index, entry position and cursor position.\<close>

fun skip_forward :: "('s, 'd) dim_ops \<Rightarrow> ('s \<Rightarrow> bool) \<Rightarrow> nat \<Rightarrow> 'd \<Rightarrow> 'd \<Rightarrow> 's list \<Rightarrow> nat \<times> 'd \<times> 'd" where
  "skip_forward dim f i p pos [] = (i, p, pos)"
| "skip_forward dim f i p pos (s # ss) =
     (if f s then (i, p, pos) else skip_forward dim f (Suc i) (dim_add dim p s) (dim_add dim pos s) ss)"

lemma skip_forward_index: "skip_forward dim f i p pos ss = (j, q, pos') \<Longrightarrow> i \<le> j"
  by (induction dim f i p pos ss rule: skip_forward.induct) (auto split: if_splits)

text \<open>The loop of \<open>search_forward\<close>. The Boolean of the result tells the early \<open>return\<close> (an item was
  found) from the end of the loop (the stack is empty).\<close>

function forward_loop :: "('a, 's) item_ops \<Rightarrow> ('s, 'd) dim_ops \<Rightarrow> ('s \<Rightarrow> bool) \<Rightarrow> ('a, 's, 'd) stack_entry list \<Rightarrow> 'd \<Rightarrow> bool \<Rightarrow>
    (('a, 's, 'd) stack_entry list \<times> 'd \<times> bool) panics" where
  "forward_loop ops dim f [] pos descend = Some ([], pos, False)"
| "forward_loop ops dim f (e # es) pos descend =
     (case se_tree e of
        Internal h s cs ts \<Rightarrow>
          (let i0 = if descend then se_index e else Suc (se_index e);
               p0 = if descend then se_position e else pos in
           case skip_forward dim f i0 p0 pos (drop i0 cs) of (i, p, pos') \<Rightarrow>
             (let rest = \<lparr>se_tree = se_tree e, se_index = i, se_position = p\<rparr> # es in
              if i < length ts then
                (if can_push ops rest
                 then forward_loop ops dim f (\<lparr>se_tree = ts ! i, se_index = 0, se_position = pos'\<rparr> # rest) pos' True
                 else None)
              else forward_loop ops dim f es pos' False))
      | Leaf s its ss \<Rightarrow>
          (if \<not> descend \<and> length ss \<le> se_index e then None
           else
             (let i0 = if descend then se_index e else Suc (se_index e);
                  p0 = if descend then se_position e else dim_add dim (se_position e) (ss ! se_index e);
                  pos0 = if descend then pos else dim_add dim pos (ss ! se_index e) in
              case skip_forward dim f i0 p0 pos0 (drop i0 ss) of (i, p, pos') \<Rightarrow>
                if i < length ss then Some (\<lparr>se_tree = se_tree e, se_index = i, se_position = p\<rparr> # es, pos', True)
                else forward_loop ops dim f es pos' False)))"
  by pat_completeness auto
termination
proof (relation "measure (\<lambda>(ops, dim, f, st, pos, descend). stack_work_right (\<not> descend) st)", goal_cases)
  case (2 ops dim f e es pos descend h s cs ts i0 p0 i y p pos' rest)
  then have "i0 \<le> i" using skip_forward_index by metis
  then show ?case using 2 work_descend [of i0 i "se_tree e" "ts ! i"] by (auto simp: work_top split: if_splits)
next
  case (3 ops dim f e es pos descend h s cs ts i0 p0 i y p pos' rest)
  then show ?case using work_pop [of es] by (auto simp: work_top)
next
  case (4 ops dim f e es pos descend s its ss i0 p0 pos0 i y p pos')
  then show ?case using work_pop [of es] by (auto simp: work_top)
qed auto

declare forward_loop.simps(2) [simp del]

definition search_forward :: "('a, 's) item_ops \<Rightarrow> ('s, 'd) dim_ops \<Rightarrow> ('s \<Rightarrow> bool) \<Rightarrow> ('a, 's, 'd) cursor \<Rightarrow>
    ('a, 's, 'd) cursor panics" where
  "search_forward ops dim f c = do {
     (st, descend, c1) \<leftarrow>
       (if cur_stack c = [] then
          (if \<not> at_end c then do {
             st \<leftarrow> stack_push ops [] \<lparr>se_tree = cur_tree c, se_index = 0, se_position = dim_zero dim\<rparr>;
             Some (st, True, c\<lparr>did_seek := True\<rparr>)
           } else Some ([], False, c\<lparr>did_seek := True\<rparr>))
        else Some (cur_stack c, False, c));
     (st', pos', returned) \<leftarrow> forward_loop ops dim f st (cur_position c1) descend;
     Some (if returned then c1\<lparr>cur_stack := st', cur_position := pos'\<rparr>
           else c1\<lparr>cur_stack := st', cur_position := pos', at_end := (st' = [])\<rparr>)
   }"

definition next_cursor :: "('a, 's) item_ops \<Rightarrow> ('s, 'd) dim_ops \<Rightarrow> ('a, 's, 'd) cursor \<Rightarrow> ('a, 's, 'd) cursor panics" where
  "next_cursor ops dim c = search_forward ops dim (\<lambda>_. True) c"

section \<open>Searching backward\<close>

text \<open>Work left to the left of the first \<open>n\<close> children of a node, and of a stack.\<close>

definition work_left :: "nat \<Rightarrow> ('a, 's) node \<Rightarrow> nat" where
  "work_left n t = Suc (n + forest_work (take n (kids_of t)))"

definition stack_work_left :: "bool \<Rightarrow> ('a, 's, 'd) stack_entry list \<Rightarrow> nat" where
  "stack_work_left descending st =
     (case st of
        [] \<Rightarrow> 0
      | e # es \<Rightarrow> work_left (if descending then Suc (se_index e) else se_index e) (se_tree e) +
          sum_list (map (\<lambda>x. work_left (se_index x) (se_tree x)) es))"

lemma forest_work_take_mono: "i \<le> j \<Longrightarrow> forest_work (take i ts) \<le> forest_work (take j ts)"
  by (metis forest_work_simps(3) le_add1 append_take_drop_id min.absorb1 take_take)

lemma work_left_Suc: "work_left n t < work_left (Suc n) t"
  using forest_work_take_mono [of n "Suc n" "kids_of t"] by (simp add: work_left_def)

lemma work_left_child:
  assumes "i < length (kids_of t)"
  shows "work_left (length (child_summaries (kids_of t ! i))) (kids_of t ! i) + work_left i t < work_left (Suc i) t"
proof -
  let ?u = "kids_of t ! i"
  have "forest_work (take (length (child_summaries ?u)) (kids_of ?u)) \<le> forest_work (kids_of ?u)"
    by (metis forest_work_simps(3) append_take_drop_id le_add1)
  with node_work_ge [of ?u] assms show ?thesis by (simp add: work_left_def take_Suc_conv_app_nth)
qed

lemma stack_work_left_Cons:
  "stack_work_left d (e # es) = work_left (if d then Suc (se_index e) else se_index e) (se_tree e) + stack_work_left False es"
  by (cases es) (simp_all add: stack_work_left_def)

text \<open>The position at which the children of the top entry start: the one stored in the entry below.\<close>

definition parent_position :: "('s, 'd) dim_ops \<Rightarrow> ('a, 's, 'd) stack_entry list \<Rightarrow> 'd" where
  "parent_position dim es = (case es of [] \<Rightarrow> dim_zero dim | e # _ \<Rightarrow> se_position e)"

function backward_loop :: "('a, 's) item_ops \<Rightarrow> ('s, 'd) dim_ops \<Rightarrow> ('s \<Rightarrow> bool) \<Rightarrow> ('a, 's, 'd) stack_entry list \<Rightarrow> 'd \<Rightarrow> bool \<Rightarrow>
    (('a, 's, 'd) stack_entry list \<times> 'd) panics" where
  "backward_loop ops dim f [] pos descending = Some ([], pos)"
| "backward_loop ops dim f (e # es) pos descending =
     (let pos0 = parent_position dim es; cs = child_summaries (se_tree e) in
      if \<not> descending \<and> se_index e = 0 then backward_loop ops dim f es pos0 False
      else
        (let i = (if descending then se_index e else se_index e - 1) in
         if length cs \<le> i then None
         else
           (let pos1 = foldl (dim_add dim) pos0 (take i cs);
                e' = \<lparr>se_tree = se_tree e, se_index = i, se_position = pos1\<rparr> in
            if \<not> f (cs ! i) then backward_loop ops dim f (e' # es) pos1 False
            else case se_tree e of
              Leaf _ _ _ \<Rightarrow> Some (e' # es, pos1)
            | Internal _ _ _ ts \<Rightarrow>
                (if length ts \<le> i \<or> child_summaries (ts ! i) = [] \<or> \<not> can_push ops (e' # es) then None
                 else backward_loop ops dim f
                   (\<lparr>se_tree = ts ! i, se_index = length (child_summaries (ts ! i)) - 1, se_position = dim_zero dim\<rparr> # e' # es)
                   pos1 True))))"
  by pat_completeness auto
termination
proof (relation "measure (\<lambda>(ops, dim, f, st, pos, descending). stack_work_left descending st)", goal_cases)
  case (2 ops dim f e es pos descending)
  then show ?case by (simp add: stack_work_left_Cons work_left_def)
next
  case (3 ops dim f e es pos descending)
  then show ?case
    using work_left_Suc [of "se_index e" "se_tree e"] work_left_Suc [of "se_index e - 1" "se_tree e"]
    by (auto simp: stack_work_left_Cons)
next
  case (4 ops dim f e es pos descending pos0 cs i pos1 e' h s ks ts)
  then show ?case using work_left_child [of i "se_tree e"] by (auto simp: stack_work_left_Cons)
qed auto

declare backward_loop.simps(2) [simp del]

definition search_backward :: "('a, 's) item_ops \<Rightarrow> ('s, 'd) dim_ops \<Rightarrow> ('s \<Rightarrow> bool) \<Rightarrow> ('a, 's, 'd) cursor \<Rightarrow>
    ('a, 's, 'd) cursor panics" where
  "search_backward ops dim f c0 = do {
     let c = (if did_seek c0 then c0 else c0\<lparr>did_seek := True, at_end := True\<rparr>);
     c1 \<leftarrow>
       (if at_end c then
          (let c' = c\<lparr>cur_position := dim_zero dim, at_end := is_empty (cur_tree c)\<rparr> in
           if \<not> is_empty (cur_tree c) then do {
             st \<leftarrow> stack_push ops (cur_stack c)
                 \<lparr>se_tree = cur_tree c, se_index = length (child_summaries (cur_tree c)),
                  se_position = from_summary_dim dim (node_summary (cur_tree c))\<rparr>;
             Some (c'\<lparr>cur_stack := st\<rparr>)
           } else Some c')
        else Some c);
     (st', pos') \<leftarrow> backward_loop ops dim f (cur_stack c1) (cur_position c1) False;
     Some (c1\<lparr>cur_stack := st', cur_position := pos'\<rparr>)
   }"

definition prev_cursor :: "('a, 's) item_ops \<Rightarrow> ('s, 'd) dim_ops \<Rightarrow> ('a, 's, 'd) cursor \<Rightarrow> ('a, 's, 'd) cursor panics" where
  "prev_cursor ops dim c = search_backward ops dim (\<lambda>_. True) c"

section \<open>Iterators\<close>

record ('a, 's) iter =
  it_tree :: "('a, 's) sum_tree"
  it_stack :: "('a, 's, unit) stack_entry list"

definition iter_new :: "('a, 's) sum_tree \<Rightarrow> ('a, 's) iter" where
  "iter_new t = \<lparr>it_tree = t, it_stack = []\<rparr>"

text \<open>The loop of \<open>Iter::next\<close>: the new stack and the item returned.\<close>

function iter_loop :: "('a, 's) item_ops \<Rightarrow> ('a, 's, unit) stack_entry list \<Rightarrow> bool \<Rightarrow>
    (('a, 's, unit) stack_entry list \<times> 'a option) panics" where
  "iter_loop ops [] descend = Some ([], None)"
| "iter_loop ops (e # es) descend =
     (let i = (if descend then se_index e else Suc (se_index e));
          rest = \<lparr>se_tree = se_tree e, se_index = i, se_position = se_position e\<rparr> # es in
      case se_tree e of
        Internal _ _ _ ts \<Rightarrow>
          (if i < length ts then
             (if can_push ops rest
              then iter_loop ops (\<lparr>se_tree = ts ! i, se_index = 0, se_position = ()\<rparr> # rest) True
              else None)
           else iter_loop ops es False)
      | Leaf _ its _ \<Rightarrow>
          (if i < length its then Some (rest, Some (its ! i)) else iter_loop ops es False))"
  by pat_completeness auto
termination
proof (relation "measure (\<lambda>(ops, st, descend). stack_work_right (\<not> descend) st)", goal_cases)
  case (2 ops e es descend i rest h s cs ts)
  then show ?case using work_descend [of i i "se_tree e" "ts ! i"] by (auto simp: stack_work_right_def work_top_right_def work_right_def)
next
  case (3 ops e es descend)
  then show ?case using work_pop [of es] by (auto simp: work_top)
next
  case (4 ops e es descend)
  then show ?case using work_pop [of es] by (auto simp: work_top)
qed auto

declare iter_loop.simps(2) [simp del]

definition iter_next :: "('a, 's) item_ops \<Rightarrow> ('a, 's) iter \<Rightarrow> ('a option \<times> ('a, 's) iter) panics" where
  "iter_next ops it = do {
     (st, descend) \<leftarrow>
       (if it_stack it = [] then do {
          st \<leftarrow> stack_push ops [] \<lparr>se_tree = it_tree it, se_index = 0, se_position = ()\<rparr>;
          Some (st, True)
        } else Some (it_stack it, False));
     (st', r) \<leftarrow> iter_loop ops st descend;
     Some (r, it\<lparr>it_stack := st'\<rparr>)
   }"

definition iter_last :: "('a, 's) iter \<Rightarrow> 'a option panics" where
  "iter_last it = do { l \<leftarrow> rightmost_leaf (it_tree it); tree_last l }"

text \<open>The lower bound of \<open>size_hint\<close>; the subtraction of \<open>usize\<close> values panics below zero.\<close>

definition iter_size_hint :: "('a, 's) iter \<Rightarrow> nat panics" where
  "iter_size_hint it =
     (case it_stack it of
        entry # _ \<Rightarrow> (if se_index entry \<le> length (child_summaries (se_tree entry))
                    then Some (length (child_summaries (se_tree entry)) - se_index entry) else None)
      | [] \<Rightarrow> Some (length (child_summaries (it_tree it))))"

text \<open>\<open>Iterator::eq\<close> on two \<open>Iter\<close>s, which is \<open>PartialEq for SumTree\<close>.\<close>

partial_function (option) iter_eq :: "('a, 's) item_ops \<Rightarrow> ('a, 's) iter \<Rightarrow> ('a, 's) iter \<Rightarrow> bool panics" where
  "iter_eq ops it1 it2 = do {
     (x, it1') \<leftarrow> iter_next ops it1;
     (y, it2') \<leftarrow> iter_next ops it2;
     (case (x, y) of
        (None, None) \<Rightarrow> Some True
      | (Some a, Some b) \<Rightarrow> if a = b then iter_eq ops it1' it2' else Some False
      | _ \<Rightarrow> Some False)
   }"

definition tree_eq :: "('a, 's) item_ops \<Rightarrow> ('a, 's) sum_tree \<Rightarrow> ('a, 's) sum_tree \<Rightarrow> bool panics" where
  "tree_eq ops t u = iter_eq ops (iter_new t) (iter_new u)"

text \<open>\<open>Iterator for Cursor\<close> (a \<open>FilterCursor\<close> with the filter that accepts everything) and
  \<open>Iterator for FilterCursor\<close>. The filter is a pure function of the summary.\<close>

definition filter_cursor_next :: "('a, 's) item_ops \<Rightarrow> ('s, 'd) dim_ops \<Rightarrow> ('s \<Rightarrow> bool) \<Rightarrow> ('a, 's, 'd) cursor \<Rightarrow>
    ('a option \<times> ('a, 's, 'd) cursor) panics" where
  "filter_cursor_next ops dim f c = do {
     c1 \<leftarrow> (if did_seek c then Some c else search_forward ops dim f c);
     r \<leftarrow> item c1;
     case r of
       Some x \<Rightarrow> do { c2 \<leftarrow> search_forward ops dim f c1; Some (Some x, c2) }
     | None \<Rightarrow> Some (None, c1)
   }"

definition cursor_iter_next :: "('a, 's) item_ops \<Rightarrow> ('s, 'd) dim_ops \<Rightarrow> ('a, 's, 'd) cursor \<Rightarrow>
    ('a option \<times> ('a, 's, 'd) cursor) panics" where
  "cursor_iter_next ops dim c = do {
     c1 \<leftarrow> (if did_seek c then Some c else next_cursor ops dim c);
     r \<leftarrow> item c1;
     case r of
       Some x \<Rightarrow> do { c2 \<leftarrow> next_cursor ops dim c1; Some (Some x, c2) }
     | None \<Rightarrow> Some (None, c1)
   }"

text \<open>\<open>SumTree::items\<close>: the loop over \<open>cursor.item()\<close> and \<open>cursor.next()\<close>. Not returning is \<open>None\<close>.\<close>

partial_function (option) items_loop :: "('a, 's) item_ops \<Rightarrow> ('a, 's, unit) cursor \<Rightarrow> 'a list \<Rightarrow> 'a list panics" where
  "items_loop ops c acc = do {
     r \<leftarrow> item c;
     case r of
       Some x \<Rightarrow> do { c' \<leftarrow> next_cursor ops unit_dim c; items_loop ops c' (acc @ [x]) }
     | None \<Rightarrow> Some acc
   }"

definition items :: "('a, 's) item_ops \<Rightarrow> ('a, 's) sum_tree \<Rightarrow> 'a list panics" where
  "items ops t = do { c \<leftarrow> next_cursor ops unit_dim (cursor_new unit_dim t); items_loop ops c [] }"

end
