(* ===== verification/ST_Navigate.thy ===== *)
theory ST_Navigate
  imports ST_Cursor
begin

text \<open>
  Correctness of the cursor's movements. A cursor stands at an index of the item list (or before the
  first item); its stack is the path from the root to that item. Shown: \<open>search_forward\<close> and
  \<open>search_backward\<close> move to the next, or previous, item whose summary the filter accepts, \<open>next\<close> and
  \<open>prev\<close> by one; the position is the sum of everything before; no panic occurs in a tree of height
  below 16; \<open>Iter\<close> and \<open>items\<close> enumerate the items.
\<close>

section \<open>Reference: indices of matching items\<close>

definition next_match :: "('a \<Rightarrow> bool) \<Rightarrow> nat \<Rightarrow> 'a list \<Rightarrow> nat" where
  "next_match p n xs = n + length (takeWhile (\<lambda>x. \<not> p x) (drop n xs))"

definition prev_match :: "('a \<Rightarrow> bool) \<Rightarrow> nat \<Rightarrow> 'a list \<Rightarrow> nat option" where
  "prev_match p n xs =
     (case dropWhile (\<lambda>x. \<not> p x) (rev (take n xs)) of [] \<Rightarrow> None | _ # ys \<Rightarrow> Some (length ys))"

lemma next_match_here: "n < length xs \<Longrightarrow> p (xs ! n) \<Longrightarrow> next_match p n xs = n"
  by (simp add: next_match_def flip: Cons_nth_drop_Suc)

lemma next_match_end [simp]: "next_match p (length xs) xs = length xs"
  by (simp add: next_match_def)

lemma next_match_le: "n \<le> length xs \<Longrightarrow> next_match p n xs \<le> length xs"
  using length_takeWhile_le [of "\<lambda>x. \<not> p x" "drop n xs"] by (simp add: next_match_def)

lemma next_match_skip:
  assumes "drop n xs = ys @ zs" and "\<forall>y \<in> set ys. \<not> p y"
  shows "next_match p n xs = next_match p (n + length ys) xs"
proof -
  have "drop (n + length ys) xs = zs" using assms(1) by (metis add.commute append_eq_conv_conj drop_drop)
  moreover have "takeWhile (\<lambda>x. \<not> p x) (ys @ zs) = ys @ takeWhile (\<lambda>x. \<not> p x) zs"
    using assms(2) by (simp add: takeWhile_append2)
  ultimately show ?thesis using assms(1) by (simp add: next_match_def)
qed

lemma next_match_True [simp]: "next_match (\<lambda>_. True) n xs = n"
  by (cases "drop n xs") (simp_all add: next_match_def)

lemma prev_match_0 [simp]: "prev_match p 0 xs = None"
  by (simp add: prev_match_def)

lemma prev_match_Suc: "n < length xs \<Longrightarrow> prev_match p (Suc n) xs = (if p (xs ! n) then Some n else prev_match p n xs)"
  by (simp add: prev_match_def take_Suc_conv_app_nth)

lemma prev_match_True: "n \<le> length xs \<Longrightarrow> prev_match (\<lambda>_. True) n xs = (if n = 0 then None else Some (n - 1))"
  by (cases n) (simp_all add: prev_match_Suc)

lemma prev_match_skip:
  "n + length ys \<le> length xs \<Longrightarrow> take (length ys) (drop n xs) = ys \<Longrightarrow> \<forall>y \<in> set ys. \<not> p y \<Longrightarrow>
   prev_match p (n + length ys) xs = prev_match p n xs"
proof (induction ys rule: rev_induct)
  case (snoc y ys)
  from snoc.prems(1,2) have "take (length ys) (drop n xs) = ys" "xs ! (n + length ys) = y"
    by (simp_all add: take_Suc_conv_app_nth)
  with snoc show ?case by (simp add: prev_match_Suc)
qed simp

section \<open>Paths\<close>

text \<open>The items in front of the children an entry has passed, and in front of a whole stack.\<close>

fun left_items :: "('a, 's) node \<Rightarrow> nat \<Rightarrow> 'a list" where
  "left_items (Internal _ _ _ ts) i = forest_items (take i ts)"
| "left_items (Leaf _ its _) i = take i its"

definition left_of :: "('a, 's, 'd) stack_entry \<Rightarrow> 'a list" where
  "left_of e = left_items (se_tree e) (se_index e)"

fun before :: "('a, 's, 'd) stack_entry list \<Rightarrow> 'a list" where
  "before [] = []"
| "before (e # es) = before es @ left_of e"

text \<open>\<open>linked ops dim t es u\<close>: the entries lead from the root \<open>t\<close> down to its descendant \<open>u\<close>, and each
  stores the position at which the child it points to starts.\<close>

fun linked :: "('a, 's) item_ops \<Rightarrow> ('s, 'd) dim_ops \<Rightarrow> ('a, 's) sum_tree \<Rightarrow> ('a, 's, 'd) stack_entry list \<Rightarrow>
    ('a, 's) sum_tree \<Rightarrow> bool" where
  "linked ops dim t [] u \<longleftrightarrow> u = t"
| "linked ops dim t (e # es) u \<longleftrightarrow>
     se_index e < length (kids_of (se_tree e)) \<and> u = kids_of (se_tree e) ! se_index e \<and>
     se_position e = pos_after ops dim (dim_zero dim) (before (e # es)) \<and> linked ops dim t es (se_tree e)"

text \<open>A stack that stands on the item with index \<open>n\<close>.\<close>

definition at_index :: "('a, 's) item_ops \<Rightarrow> ('s, 'd) dim_ops \<Rightarrow> ('a, 's) sum_tree \<Rightarrow> nat \<Rightarrow> ('a, 's, 'd) stack_entry list \<Rightarrow> bool" where
  "at_index ops dim t n st \<longleftrightarrow>
     (case st of [] \<Rightarrow> False
      | e # es \<Rightarrow> is_leaf (se_tree e) \<and> linked ops dim t es (se_tree e) \<and> se_index e < length (tree_items (se_tree e)) \<and>
          n = length (before st))"

text \<open>The position in front of the item with index \<open>n\<close>.\<close>

definition pos_at :: "('a, 's) item_ops \<Rightarrow> ('s, 'd) dim_ops \<Rightarrow> ('a, 's) sum_tree \<Rightarrow> nat \<Rightarrow> 'd" where
  "pos_at ops dim t n = pos_after ops dim (dim_zero dim) (take n (tree_items t))"

text \<open>A cursor that stands at index \<open>n\<close>: on the item with that index, or at the end of the tree.\<close>

definition cursor_at :: "('a, 's) item_ops \<Rightarrow> ('s, 'd) dim_ops \<Rightarrow> ('a, 's) sum_tree \<Rightarrow> nat \<Rightarrow> ('a, 's, 'd) cursor \<Rightarrow> bool" where
  "cursor_at ops dim t n c \<longleftrightarrow>
     cur_tree c = t \<and> did_seek c \<and> n \<le> length (tree_items t) \<and> cur_position c = pos_at ops dim t n \<and>
     (if n < length (tree_items t) then at_index ops dim t n (cur_stack c) \<and> \<not> at_end c
      else cur_stack c = [] \<and> at_end c)"

text \<open>A cursor in front of the first item: never moved, or moved back past the first item.\<close>

definition before_first :: "('s, 'd) dim_ops \<Rightarrow> ('a, 's) sum_tree \<Rightarrow> ('a, 's, 'd) cursor \<Rightarrow> bool" where
  "before_first dim t c \<longleftrightarrow> c = (cursor_new dim t)\<lparr>did_seek := did_seek c\<rparr>"

text \<open>A filter is consistent when it accepts every sum that contains a summary it accepts.\<close>

definition filter_ok :: "('a, 's) item_ops \<Rightarrow> ('s \<Rightarrow> bool) \<Rightarrow> bool" where
  "filter_ok ops f \<longleftrightarrow> (\<forall>xs. \<forall>x \<in> set xs. f (item_summary ops x) \<longrightarrow> f (sum_of ops (map (item_summary ops) xs)))"

lemma tree_items_kids: "\<not> is_leaf u \<Longrightarrow> tree_items u = forest_items (kids_of u)"
  by (cases u) auto

lemma forest_nth:
  "i < length ts \<Longrightarrow> forest_items ts = forest_items (take i ts) @ tree_items (ts ! i) @ forest_items (drop (Suc i) ts)"
  by (metis Cons_nth_drop_Suc append_take_drop_id concat.simps(2) concat_append list.simps(9) map_append)

lemma left_of_internal: "\<not> is_leaf (se_tree e) \<Longrightarrow> left_of e = forest_items (take (se_index e) (kids_of (se_tree e)))"
  by (cases "se_tree e") (simp_all add: left_of_def)

lemma left_of_leaf: "is_leaf (se_tree e) \<Longrightarrow> left_of e = take (se_index e) (tree_items (se_tree e))"
  by (cases "se_tree e") (simp_all add: left_of_def)

lemma linked_items: "linked ops dim t es u \<Longrightarrow> \<exists>zs. tree_items t = before es @ tree_items u @ zs"
proof (induction es arbitrary: u)
  case (Cons e es)
  then obtain zs where zs: "tree_items t = before es @ tree_items (se_tree e) @ zs" by auto
  from Cons.prems have "\<not> is_leaf (se_tree e)" by (cases "se_tree e") auto
  with Cons.prems zs forest_nth [of "se_index e" "kids_of (se_tree e)"] show ?case
    by (auto simp: tree_items_kids left_of_internal)
qed simp

lemma linked_wf:
  "linked ops dim t es u \<Longrightarrow> wf_node ops b (root_min t) t \<Longrightarrow>
   (\<exists>k. wf_node ops b k u) \<and> node_height u + length es = node_height t"
proof (induction es arbitrary: u)
  case (Cons e es)
  then obtain k where k: "wf_node ops b k (se_tree e)" "node_height (se_tree e) + length es = node_height t" by auto
  from Cons.prems(1) have "u \<in> set (kids_of (se_tree e))" by auto
  with k show ?case by (cases "se_tree e") (auto simp: list_all_iff)
qed auto

lemma pos_at_prefix: "tree_items t = xs @ zs \<Longrightarrow> pos_at ops dim t (length xs) = pos_after ops dim (dim_zero dim) xs"
  by (simp add: pos_at_def)

lemma skip_forward_eq:
  "skip_forward dim f i p pos ss =
     (let n = length (takeWhile (\<lambda>s. \<not> f s) ss) in
      (i + n, foldl (dim_add dim) p (take n ss), foldl (dim_add dim) pos (take n ss)))"
  by (induction dim f i p pos ss rule: skip_forward.induct) (simp_all add: Let_def)

section \<open>Searching forward\<close>

text \<open>The state of the loop of \<open>search_forward\<close>: everything in front of index \<open>n\<close> is done. With \<open>descend\<close>
  the top entry was just pushed; without it the child the top entry points to is finished.\<close>

definition fwd_state :: "('a, 's) item_ops \<Rightarrow> ('s, 'd) dim_ops \<Rightarrow> ('a, 's) sum_tree \<Rightarrow> ('a, 's, 'd) stack_entry list \<Rightarrow> 'd \<Rightarrow> bool \<Rightarrow> 'a list \<Rightarrow> bool" where
  "fwd_state ops dim t st pos descend xs \<longleftrightarrow>
     pos = pos_after ops dim (dim_zero dim) xs \<and>
     (case st of
        [] \<Rightarrow> xs = tree_items t
      | e # es \<Rightarrow>
          if descend then linked ops dim t es (se_tree e) \<and> se_index e = 0 \<and> se_position e = pos \<and> xs = before es
          else (\<exists>u. linked ops dim t (e # es) u \<and> xs = before (e # es) @ tree_items u))"

text \<open>Where the loop ends: at the next item the filter accepts, or at the end of the tree.\<close>

definition fwd_done :: "('a, 's) item_ops \<Rightarrow> ('s, 'd) dim_ops \<Rightarrow> ('s \<Rightarrow> bool) \<Rightarrow> ('a, 's) sum_tree \<Rightarrow> nat \<Rightarrow>
    ('a, 's, 'd) stack_entry list \<times> 'd \<times> bool \<Rightarrow> bool" where
  "fwd_done ops dim f t n r \<longleftrightarrow>
     (case r of (st, pos, returned) \<Rightarrow>
        let m = next_match (f \<circ> item_summary ops) n (tree_items t) in
        pos = pos_at ops dim t m \<and>
        (if m < length (tree_items t) then returned \<and> at_index ops dim t m st else \<not> returned \<and> st = []))"

lemma fwd_done_cong:
  "next_match (f \<circ> item_summary ops) n (tree_items t) = next_match (f \<circ> item_summary ops) m (tree_items t) \<Longrightarrow>
   fwd_done ops dim f t n = fwd_done ops dim f t m"
  by (simp add: fwd_done_def [abs_def])

lemma fwd_state_pop:
  assumes "linked ops dim t es u" and "xs = before es @ tree_items u" and "pos = pos_after ops dim (dim_zero dim) xs"
  shows "fwd_state ops dim t es pos False xs"
  using assms by (cases es) (auto simp: fwd_state_def simp del: before.simps(2))

context dimension_laws
begin

lemma kids_pos:
  "kids_ok ops b h ts \<Longrightarrow> foldl (dim_add dim) d (map node_summary ts) = pos_after ops dim d (forest_items ts)"
proof (induction ts arbitrary: d)
  case (Cons t ts)
  then show ?case using child_end [of b TREE_BASE t d] by (simp add: with_added_summary_def)
qed simp

lemma filter_skips_kids:
  assumes "filter_ok ops f" and "kids_ok ops b h ts" and "\<forall>c \<in> set ts. \<not> f (node_summary c)"
  shows "\<forall>x \<in> set (forest_items ts). \<not> f (item_summary ops x)"
proof
  fix x assume "x \<in> set (forest_items ts)"
  then obtain c where c: "c \<in> set ts" "x \<in> set (tree_items c)" by auto
  with assms(2) have "node_summary c = sum_of ops (map (item_summary ops) (tree_items c))"
    by (auto simp: kids_ok_def list_all_iff dest: wf_node_summary)
  with c assms(1,3) show "\<not> f (item_summary ops x)" by (metis filter_ok_def)
qed

lemma can_push_linked:
  assumes "linked ops dim t es u" and "wf_node ops b (root_min t) t" and "node_height t < STACK_CAP" and "\<not> is_leaf u"
  shows "can_push ops (e # es)"
proof -
  obtain k where "wf_node ops b k u" "node_height u + length es = node_height t"
    using linked_wf [OF assms(1,2)] by blast
  moreover from this(1) assms(4) have "node_height u \<noteq> 0" by (simp add: wf_node_leaf_height)
  ultimately show ?thesis using assms(3) by (simp add: can_push_def vec_holds)
qed

text \<open>Skipping the rejected children of a node, from child \<open>i0\<close> on.\<close>

lemma skip_kids:
  assumes "kids_ok ops b h ts" and "filter_ok ops f" and "i0 \<le> length ts"
    and "tree_items t = ys @ forest_items ts @ zs"
    and "pos = pos_after ops dim (dim_zero dim) (ys @ forest_items (take i0 ts))"
  obtains i where "skip_forward dim f i0 pos pos (drop i0 (map node_summary ts)) =
      (i, pos_after ops dim (dim_zero dim) (ys @ forest_items (take i ts)), pos_after ops dim (dim_zero dim) (ys @ forest_items (take i ts)))"
    and "i \<le> length ts"
    and "next_match (f \<circ> item_summary ops) (length (ys @ forest_items (take i0 ts))) (tree_items t) =
         next_match (f \<circ> item_summary ops) (length (ys @ forest_items (take i ts))) (tree_items t)"
proof -
  define k where "k = length (takeWhile (\<lambda>c. \<not> f (node_summary c)) (drop i0 ts))"
  have k: "length (takeWhile (\<lambda>s. \<not> f s) (drop i0 (map node_summary ts))) = k"
    by (simp add: k_def drop_map takeWhile_map comp_def)
  have le: "i0 + k \<le> length ts"
    using assms(3) length_takeWhile_le [of "\<lambda>c. \<not> f (node_summary c)" "drop i0 ts"] by (simp add: k_def)
  have split: "take (i0 + k) ts = take i0 ts @ take k (drop i0 ts)" by (rule take_add)
  have "take k (drop i0 ts) = takeWhile (\<lambda>c. \<not> f (node_summary c)) (drop i0 ts)"
    by (simp add: k_def takeWhile_eq_take [symmetric])
  then have rej: "\<forall>c \<in> set (take k (drop i0 ts)). \<not> f (node_summary c)"
    by (auto dest: set_takeWhileD)
  have kids: "kids_ok ops b h (take k (drop i0 ts))"
    by (rule kids_ok_sub [OF assms(1)]) (auto dest: in_set_takeD in_set_dropD)
  have pos: "foldl (dim_add dim) pos (take k (drop i0 (map node_summary ts))) =
      pos_after ops dim (dim_zero dim) (ys @ forest_items (take (i0 + k) ts))"
    using kids_pos [OF kids, of pos] assms(5) by (simp add: split take_map drop_map)
  have "forest_items ts = forest_items (take (i0 + k) ts) @ forest_items (drop (i0 + k) ts)"
    by (metis append_take_drop_id concat_append map_append)
  then have "drop (length (ys @ forest_items (take i0 ts))) (tree_items t) =
      forest_items (take k (drop i0 ts)) @ forest_items (drop (i0 + k) ts) @ zs"
    using assms(4) by (simp add: split)
  from next_match_skip [OF this, of "f \<circ> item_summary ops"] filter_skips_kids [OF assms(2) kids rej]
  have nm: "next_match (f \<circ> item_summary ops) (length (ys @ forest_items (take i0 ts))) (tree_items t) =
      next_match (f \<circ> item_summary ops) (length (ys @ forest_items (take (i0 + k) ts))) (tree_items t)"
    by (simp add: split add.assoc)
  show ?thesis
    by (rule that [of "i0 + k"]) (use pos le nm in \<open>simp_all add: skip_forward_eq k Let_def\<close>)
qed

lemma skip_items:
  assumes "i0 \<le> length its" and "tree_items t = ys @ its @ zs"
    and "pos = pos_after ops dim (dim_zero dim) (ys @ take i0 its)"
  obtains i q where "skip_forward dim f i0 p0 pos (drop i0 (map (item_summary ops) its)) =
      (i, q, pos_after ops dim (dim_zero dim) (ys @ take i its))"
    and "i \<le> length its" and "i < length its \<Longrightarrow> f (item_summary ops (its ! i))"
    and "next_match (f \<circ> item_summary ops) (length (ys @ take i0 its)) (tree_items t) =
         next_match (f \<circ> item_summary ops) (length (ys @ take i its)) (tree_items t)"
proof -
  let ?rej = "\<lambda>x. \<not> f (item_summary ops x)"
  define k where "k = length (takeWhile ?rej (drop i0 its))"
  have k: "length (takeWhile (\<lambda>s. \<not> f s) (drop i0 (map (item_summary ops) its))) = k"
    by (simp add: k_def drop_map takeWhile_map comp_def)
  have le: "i0 + k \<le> length its"
    using assms(1) length_takeWhile_le [of ?rej "drop i0 its"] by (simp add: k_def)
  have split: "take (i0 + k) its = take i0 its @ take k (drop i0 its)" by (rule take_add)
  have "take k (drop i0 its) = takeWhile ?rej (drop i0 its)"
    by (simp add: k_def takeWhile_eq_take [symmetric])
  then have rej: "\<forall>x \<in> set (take k (drop i0 its)). ?rej x"
    by (auto dest: set_takeWhileD)
  have hit: "f (item_summary ops (its ! (i0 + k)))" if "i0 + k < length its"
    using nth_length_takeWhile [of ?rej "drop i0 its"] that by (simp add: k_def)
  have pos: "foldl (dim_add dim) pos (take k (drop i0 (map (item_summary ops) its))) =
      pos_after ops dim (dim_zero dim) (ys @ take (i0 + k) its)"
    using assms(3) by (simp add: split take_map drop_map pos_after_def)
  have "its = take i0 its @ take k (drop i0 its) @ drop (i0 + k) its"
    by (metis append.assoc append_take_drop_id split)
  then have "drop (length (ys @ take i0 its)) (tree_items t) = take k (drop i0 its) @ drop (i0 + k) its @ zs"
    using assms(1,2) by (metis append.assoc append_eq_conv_conj)
  from next_match_skip [OF this, of "f \<circ> item_summary ops"] rej le
  have nm: "next_match (f \<circ> item_summary ops) (length (ys @ take i0 its)) (tree_items t) =
      next_match (f \<circ> item_summary ops) (length (ys @ take (i0 + k) its)) (tree_items t)"
    by (simp add: add.assoc min.absorb1 min.absorb2)
  show ?thesis
    by (rule that [of "i0 + k"]) (use pos le hit nm in \<open>simp_all add: skip_forward_eq k Let_def\<close>)
qed

text \<open>One visit of a leaf, whose items from \<open>i0\<close> on are still to be searched.\<close>

lemma leaf_found:
  assumes "linked ops dim t es (Leaf s its ss)" and "i < length its" and "f (item_summary ops (its ! i))"
    and "next_match (f \<circ> item_summary ops) n (tree_items t) =
         next_match (f \<circ> item_summary ops) (length (before es @ take i its)) (tree_items t)"
  shows "fwd_done ops dim f t n
    (\<lparr>se_tree = Leaf s its ss, se_index = i, se_position = q\<rparr> # es, pos_after ops dim (dim_zero dim) (before es @ take i its), True)"
proof -
  obtain zs where zs: "tree_items t = before es @ its @ zs" using linked_items [OF assms(1)] by auto
  let ?m = "length (before es @ take i its)"
  have m: "?m < length (tree_items t)" "tree_items t ! ?m = its ! i"
    using zs assms(2) by (simp_all add: nth_append)
  then have "next_match (f \<circ> item_summary ops) n (tree_items t) = ?m"
    using assms(3,4) next_match_here [of ?m "tree_items t" "f \<circ> item_summary ops"] by simp
  moreover have "tree_items t = (before es @ take i its) @ (drop i its @ zs)"
    using zs append_take_drop_id [of i its] by (metis append.assoc)
  note pos_at_prefix [OF this, of ops dim]
  ultimately show ?thesis using m assms(1,2)
    by (simp add: fwd_done_def Let_def at_index_def left_of_def)
qed

lemma forward_loop_ok:
  assumes "wf_node ops b (root_min t) t" and "node_height t < STACK_CAP" and "filter_ok ops f"
    and "fwd_state ops dim t st pos descend xs"
  shows "no_panic (forward_loop ops dim f st pos descend) (fwd_done ops dim f t (length xs))"
  using assms(4)
proof (induction "stack_work_right (\<not> descend) st" arbitrary: st pos descend xs rule: less_induct)
  case less
  show ?case
  proof (cases st)
    case Nil
    with less.prems show ?thesis
      by (simp add: fwd_state_def fwd_done_def pos_at_def)
  next
    case (Cons e es)
    let ?i0 = "if descend then se_index e else Suc (se_index e)"
    have st: "linked ops dim t es (se_tree e)" and pos: "pos = pos_after ops dim (dim_zero dim) xs"
      using less.prems Cons by (auto simp: fwd_state_def split: if_splits)
    obtain k where k: "wf_node ops b k (se_tree e)" using linked_wf [OF st assms(1)] by blast
    obtain zs where zs: "tree_items t = before es @ tree_items (se_tree e) @ zs" using linked_items [OF st] by blast
    have pop: "no_panic (forward_loop ops dim f es pos' False) (fwd_done ops dim f t (length xs'))"
      if "xs' = before es @ tree_items (se_tree e)" "pos' = pos_after ops dim (dim_zero dim) xs'" for xs' pos'
      using less.hyps [of False es pos' xs'] fwd_state_pop [OF st that] work_pop [of es] Cons by (simp add: work_top)
    show ?thesis
    proof (cases "se_tree e")
      case (Leaf s its ss)
      with less.prems Cons have d: "descend" "se_index e = 0" "se_position e = pos" "xs = before es"
        by (auto simp: fwd_state_def split: if_splits)
      obtain i q where i: "skip_forward dim f 0 pos pos ss = (i, q, pos_after ops dim (dim_zero dim) (before es @ take i its))"
        "i \<le> length its" "i < length its \<Longrightarrow> f (item_summary ops (its ! i))"
        "next_match (f \<circ> item_summary ops) (length xs) (tree_items t) =
         next_match (f \<circ> item_summary ops) (length (before es @ take i its)) (tree_items t)"
        using skip_items [of 0 its t "before es" zs pos f pos] zs k Leaf pos d by (auto simp del: length_append)
      show ?thesis
      proof (cases "i < length its")
        case True
        with i(3) leaf_found [OF st [unfolded Leaf], of i f "length xs" q] i k Leaf d Cons show ?thesis
          by (simp add: forward_loop.simps(2) [of ops dim f e es pos True] del: length_append)
      next
        case False
        with i k Leaf d Cons pop [of "before es @ its"] fwd_done_cong [OF i(4), of dim] show ?thesis
          by (simp add: forward_loop.simps(2) [of ops dim f e es pos True])
      qed
    next
      case (Internal h s cs ts)
      with k have ts: "kids_ok ops b h ts" "cs = map node_summary ts" by (simp_all add: kids_ok_def)
      have i0: "?i0 \<le> length ts" "xs = before es @ forest_items (take ?i0 ts)" "(if descend then se_position e else pos) = pos"
        using less.prems Cons Internal
        by (auto simp: fwd_state_def left_of_def take_Suc_conv_app_nth split: if_splits)
      obtain i where i: "skip_forward dim f ?i0 pos pos (drop ?i0 cs) =
          (i, pos_after ops dim (dim_zero dim) (before es @ forest_items (take i ts)), pos_after ops dim (dim_zero dim) (before es @ forest_items (take i ts)))"
        "i \<le> length ts"
        "next_match (f \<circ> item_summary ops) (length xs) (tree_items t) =
         next_match (f \<circ> item_summary ops) (length (before es @ forest_items (take i ts))) (tree_items t)"
        using skip_kids [OF ts(1) assms(3) i0(1), of t "before es" zs pos] zs Internal pos i0(2) ts(2) by auto
      let ?p = "pos_after ops dim (dim_zero dim) (before es @ forest_items (take i ts))"
      let ?e = "\<lparr>se_tree = se_tree e, se_index = i, se_position = ?p\<rparr>"
      let ?u = "\<lparr>se_tree = ts ! i, se_index = 0, se_position = ?p\<rparr>"
      show ?thesis
      proof (cases "i < length ts")
        case True
        have "linked ops dim t (?e # es) (ts ! i)" using st True Internal by (simp add: left_of_def)
        then have "fwd_state ops dim t (?u # ?e # es) ?p True (before es @ forest_items (take i ts))"
          using Internal by (simp add: fwd_state_def left_of_def)
        moreover have "?i0 \<le> i" using skip_forward_index [OF i(1)] .
        then have "stack_work_right False (?u # ?e # es) < stack_work_right (\<not> descend) (e # es)"
          using work_descend [of ?i0 i "se_tree e" "ts ! i"] True Internal by (auto simp: work_top)
        ultimately have "no_panic (forward_loop ops dim f (?u # ?e # es) ?p True) (fwd_done ops dim f t (length (before es @ forest_items (take i ts))))"
          using less.hyps [of True "?u # ?e # es" ?p "before es @ forest_items (take i ts)"] Cons by simp
        moreover have "can_push ops (?e # es)"
          by (rule can_push_linked [OF st assms(1,2)]) (simp add: Internal)
        ultimately show ?thesis using i(1) i0(3) True Internal
          by (simp add: Cons fwd_done_cong [OF i(3)] forward_loop.simps(2) [of ops dim f e es pos descend] Let_def)
      next
        case False
        with i(1,2) i0(3) Internal pop [of "before es @ forest_items ts"] show ?thesis
          by (simp add: Cons fwd_done_cong [OF i(3)] forward_loop.simps(2) [of ops dim f e es pos descend] Let_def)
      qed
    qed
  qed
qed

lemma forward_from_leaf:
  assumes "wf_node ops b (root_min t) t" and "node_height t < STACK_CAP" and "filter_ok ops f"
    and "at_index ops dim t n st"
  shows "no_panic (forward_loop ops dim f st (pos_at ops dim t n) False) (fwd_done ops dim f t (Suc n))"
proof -
  obtain e es where st: "st = e # es" "is_leaf (se_tree e)" "linked ops dim t es (se_tree e)"
      "se_index e < length (tree_items (se_tree e))" "n = length (before st)"
    using assms(4) by (auto simp: at_index_def split: list.splits)
  then obtain s its ss where e: "se_tree e = Leaf s its ss" by (cases "se_tree e") auto
  obtain k where k: "wf_node ops b k (se_tree e)" using linked_wf [OF st(3) assms(1)] by blast
  obtain zs where zs: "tree_items t = before es @ its @ zs" using linked_items [OF st(3)] e by auto
  let ?j = "se_index e"
  have j: "?j < length its" "before st = before es @ take ?j its" using st e by (simp_all add: left_of_def)
  have "tree_items t = before st @ (drop ?j its @ zs)" using zs j(2) append_take_drop_id [of ?j its] by (metis append.assoc)
  from pos_at_prefix [OF this, of ops dim] j have pos:
    "dim_add dim (pos_at ops dim t n) (item_summary ops (its ! ?j)) = pos_after ops dim (dim_zero dim) (before es @ take (Suc ?j) its)"
    by (simp add: st(5) take_Suc_conv_app_nth)
  have n: "Suc n = length (before es @ take (Suc ?j) its)" using st(5) j by simp
  let ?p0 = "dim_add dim (se_position e) (item_summary ops (its ! ?j))"
  obtain i q where i: "skip_forward dim f (Suc ?j) ?p0 (pos_after ops dim (dim_zero dim) (before es @ take (Suc ?j) its)) (drop (Suc ?j) ss) =
      (i, q, pos_after ops dim (dim_zero dim) (before es @ take i its))" "i \<le> length its"
      "i < length its \<Longrightarrow> f (item_summary ops (its ! i))"
      "next_match (f \<circ> item_summary ops) (Suc n) (tree_items t) =
       next_match (f \<circ> item_summary ops) (length (before es @ take i its)) (tree_items t)"
    using skip_items [of "Suc ?j" its t "before es" zs _ f ?p0] zs k e j(1) unfolding n by (auto simp del: length_append pos_after_simps)
  have sum: "ss ! ?j = item_summary ops (its ! ?j)" "length ss = length its" using k e j by auto
  show ?thesis
  proof (cases "i < length its")
    case True
    with i(1) leaf_found [OF st(3) [unfolded e] True i(3) [OF True] i(4)] e sum pos j(1) show ?thesis
      by (simp add: st(1) forward_loop.simps(2) [of ops dim f e es] Let_def)
  next
    case False
    have "fwd_state ops dim t es (pos_after ops dim (dim_zero dim) (before es @ its)) False (before es @ its)"
      by (rule fwd_state_pop [OF st(3)]) (simp_all add: e)
    from forward_loop_ok [OF assms(1-3) this] i(1,2) False e sum pos j(1) show ?thesis
      by (simp add: st(1) fwd_done_cong [OF i(4)] forward_loop.simps(2) [of ops dim f e es] Let_def)
  qed
qed

lemma forward_from_root:
  assumes "wf_node ops b (root_min t) t" and "node_height t < STACK_CAP" and "filter_ok ops f"
  shows "no_panic (forward_loop ops dim f [\<lparr>se_tree = t, se_index = 0, se_position = dim_zero dim\<rparr>] (dim_zero dim) True)
    (fwd_done ops dim f t 0)"
  using forward_loop_ok [OF assms, of "[\<lparr>se_tree = t, se_index = 0, se_position = dim_zero dim\<rparr>]" "dim_zero dim" True "[]"]
  by (simp add: fwd_state_def)

lemma can_push_root: "can_push ops []"
  by (simp add: can_push_def STACK_CAP_def vec_holds)

lemma search_forward_first:
  assumes "wf_tree ops b t" and "node_height t < STACK_CAP" and "filter_ok ops f" and "before_first dim t c"
  shows "no_panic (search_forward ops dim f c) (cursor_at ops dim t (next_match (f \<circ> item_summary ops) 0 (tree_items t)))"
proof -
  from assms(4) obtain d where c: "c = (cursor_new dim t)\<lparr>did_seek := d\<rparr>" by (metis before_first_def)
  show ?thesis
  proof (cases "is_empty t")
    case True
    then have "tree_items t = []" using wf_tree_empty_iff [OF assms(1)] by simp
    then show ?thesis using True
      by (simp add: c search_forward_def cursor_new_def cursor_at_def next_match_def pos_at_def)
  next
    case False
    then have ne: "tree_items t \<noteq> []" using wf_tree_empty_iff [OF assms(1)] by simp
    note forward_from_root [OF wf_tree_node [OF assms(1) ne] assms(2,3)]
    then show ?thesis
      using False next_match_le [of 0 "tree_items t" "f \<circ> item_summary ops"]
      by (auto simp: c cursor_new_def search_forward_def stack_push_def can_push_root no_panic_def fwd_done_def cursor_at_def Let_def
          split: if_splits)
  qed
qed

lemma search_forward_ok:
  assumes "wf_tree ops b t" and "node_height t < STACK_CAP" and "filter_ok ops f" and "cursor_at ops dim t n c"
  shows "no_panic (search_forward ops dim f c)
    (cursor_at ops dim t (if n < length (tree_items t) then next_match (f \<circ> item_summary ops) (Suc n) (tree_items t) else n))"
proof (cases "n < length (tree_items t)")
  case True
  with assms(4) have c: "at_index ops dim t n (cur_stack c)" "cur_position c = pos_at ops dim t n" "\<not> at_end c" "did_seek c" "cur_tree c = t"
    by (auto simp: cursor_at_def)
  from True have "tree_items t \<noteq> []" by auto
  note forward_from_leaf [OF wf_tree_node [OF assms(1) this] assms(2,3) c(1)]
  moreover from c(1) have "cur_stack c \<noteq> []" by (auto simp: at_index_def)
  ultimately show ?thesis using True c next_match_le [of "Suc n" "tree_items t" "f \<circ> item_summary ops"]
    by (auto simp: search_forward_def no_panic_def fwd_done_def cursor_at_def Let_def split: if_splits)
next
  case False
  with assms(4) show ?thesis by (auto simp: cursor_at_def search_forward_def)
qed

lemma next_cursor_ok:
  assumes "wf_tree ops b t" and "node_height t < STACK_CAP" and "cursor_at ops dim t n c"
  shows "no_panic (next_cursor ops dim c) (cursor_at ops dim t (min (Suc n) (length (tree_items t))))"
proof -
  have "filter_ok ops (\<lambda>_. True)" by (simp add: filter_ok_def)
  from search_forward_ok [OF assms(1,2) this assms(3)] assms(3) show ?thesis
    by (auto simp: next_cursor_def comp_def cursor_at_def min_def split: if_splits)
qed

lemma next_cursor_first:
  assumes "wf_tree ops b t" and "node_height t < STACK_CAP" and "before_first dim t c"
  shows "no_panic (next_cursor ops dim c) (cursor_at ops dim t 0)"
proof -
  have "filter_ok ops (\<lambda>_. True)" by (simp add: filter_ok_def)
  from search_forward_first [OF assms(1,2) this assms(3)] show ?thesis
    by (simp add: next_cursor_def comp_def)
qed

end

section \<open>Searching backward\<close>

fun child_items :: "('a, 's) node \<Rightarrow> nat \<Rightarrow> 'a list" where
  "child_items (Internal _ _ _ ts) i = tree_items (ts ! i)"
| "child_items (Leaf _ its _) i = [its ! i]"

text \<open>The state of the loop of \<open>search_backward\<close>: everything from index \<open>n\<close> on is done.\<close>

definition bwd_state :: "('a, 's) item_ops \<Rightarrow> ('s, 'd) dim_ops \<Rightarrow> ('a, 's) sum_tree \<Rightarrow> ('a, 's, 'd) stack_entry list \<Rightarrow> 'd \<Rightarrow> bool \<Rightarrow> nat \<Rightarrow> bool" where
  "bwd_state ops dim t st pos descending n \<longleftrightarrow>
     (case st of
        [] \<Rightarrow> n = 0 \<and> pos = dim_zero dim
      | e # es \<Rightarrow> linked ops dim t es (se_tree e) \<and>
          (let j = (if descending then Suc (se_index e) else se_index e) in
           j \<le> length (child_summaries (se_tree e)) \<and> n = length (before es @ left_items (se_tree e) j)))"

definition bwd_done :: "('a, 's) item_ops \<Rightarrow> ('s, 'd) dim_ops \<Rightarrow> ('s \<Rightarrow> bool) \<Rightarrow> ('a, 's) sum_tree \<Rightarrow> nat \<Rightarrow>
    ('a, 's, 'd) stack_entry list \<times> 'd \<Rightarrow> bool" where
  "bwd_done ops dim f t n r \<longleftrightarrow>
     (case prev_match (f \<circ> item_summary ops) n (tree_items t) of
        Some m \<Rightarrow> at_index ops dim t m (fst r) \<and> snd r = pos_at ops dim t m
      | None \<Rightarrow> fst r = [] \<and> snd r = dim_zero dim)"

lemma bwd_done_cong:
  "prev_match (f \<circ> item_summary ops) n (tree_items t) = prev_match (f \<circ> item_summary ops) m (tree_items t) \<Longrightarrow>
   bwd_done ops dim f t n = bwd_done ops dim f t m"
  by (simp add: bwd_done_def [abs_def])

lemma parent_position_linked:
  "linked ops dim t es u \<Longrightarrow> parent_position dim es = pos_after ops dim (dim_zero dim) (before es)"
  by (cases es) (simp_all add: parent_position_def)

lemma bwd_state_pop:
  assumes "linked ops dim t es u" and "wf_node ops b (root_min t) t" and "pos = pos_after ops dim (dim_zero dim) (before es)"
  shows "bwd_state ops dim t es pos False (length (before es))"
proof (cases es)
  case (Cons x xs)
  with assms(1) obtain k where "wf_node ops b k (se_tree x)" using linked_wf [of ops dim t xs "se_tree x" b] assms(2) by auto
  with Cons assms(1) show ?thesis
    by (cases "se_tree x") (auto simp: bwd_state_def left_of_def)
qed (use assms in \<open>simp add: bwd_state_def\<close>)

lemma left_items_Suc:
  "wf_node ops b k u \<Longrightarrow> i < length (child_summaries u) \<Longrightarrow> left_items u (Suc i) = left_items u i @ child_items u i"
  by (cases u) (auto simp: take_Suc_conv_app_nth)

lemma left_items_all: "wf_node ops b k u \<Longrightarrow> left_items u (length (child_summaries u)) = tree_items u"
  by (cases u) auto

lemma left_items_prefix: "\<exists>zs. tree_items u = left_items u i @ zs"
proof (cases u)
  case (Internal h s cs ts)
  have "forest_items ts = forest_items (take i ts) @ forest_items (drop i ts)"
    by (metis append_take_drop_id concat_append map_append)
  with Internal show ?thesis by auto
next
  case (Leaf s its ss)
  then show ?thesis by (auto intro!: exI [of _ "drop i its"])
qed

context dimension_laws
begin

lemma left_items_pos:
  assumes "wf_node ops b k u"
  shows "foldl (dim_add dim) d (take i (child_summaries u)) = pos_after ops dim d (left_items u i)"
proof (cases u)
  case (Internal h s cs ts)
  with assms have "kids_ok ops b h (take i ts)" "cs = map node_summary ts"
    by (auto simp: kids_ok_def list_all_iff dest: in_set_takeD)
  with kids_pos [OF this(1)] Internal show ?thesis by (simp add: take_map)
qed (use assms in \<open>simp add: pos_after_def take_map\<close>)

lemma child_rejected:
  assumes "wf_node ops b k u" and "filter_ok ops f" and "i < length (child_summaries u)" and "\<not> f (child_summaries u ! i)"
  shows "\<forall>x \<in> set (child_items u i). \<not> f (item_summary ops x)"
proof (cases u)
  case (Internal h s cs ts)
  with assms have "kids_ok ops b h [ts ! i]" "\<forall>c \<in> set [ts ! i]. \<not> f (node_summary c)"
    by (auto simp: list_all_iff)
  from filter_skips_kids [OF assms(2) this] Internal show ?thesis by simp
qed (use assms in simp)

text \<open>The effect of one child on the search: rejected, or a hit in a leaf.\<close>

lemma backward_skip:
  assumes "linked ops dim t es u" and "wf_node ops b k u" and "filter_ok ops f"
    and "i < length (child_summaries u)" and "\<not> f (child_summaries u ! i)"
  shows "prev_match (f \<circ> item_summary ops) (length (before es @ left_items u (Suc i))) (tree_items t) =
    prev_match (f \<circ> item_summary ops) (length (before es @ left_items u i)) (tree_items t)"
proof -
  obtain zs where zs: "tree_items t = before es @ tree_items u @ zs" using linked_items [OF assms(1)] by blast
  obtain ws where ws: "tree_items u = left_items u (Suc i) @ ws" using left_items_prefix by blast
  have t: "tree_items t = (before es @ left_items u i) @ child_items u i @ ws @ zs"
    using zs ws left_items_Suc [OF assms(2,4)] by simp
  have "prev_match (f \<circ> item_summary ops) (length (before es @ left_items u i) + length (child_items u i)) (tree_items t) =
      prev_match (f \<circ> item_summary ops) (length (before es @ left_items u i)) (tree_items t)"
    by (rule prev_match_skip) (use child_rejected [OF assms(2-5)] in \<open>simp_all add: t\<close>)
  then show ?thesis using left_items_Suc [OF assms(2,4)] by (simp add: add.assoc)
qed

lemma backward_hit:
  assumes "linked ops dim t es (Leaf s its ss)" and "i < length its" and "f (item_summary ops (its ! i))"
  shows "bwd_done ops dim f t (length (before es @ take (Suc i) its))
    (\<lparr>se_tree = Leaf s its ss, se_index = i, se_position = q\<rparr> # es, pos_after ops dim (dim_zero dim) (before es @ take i its))"
proof -
  obtain zs where zs: "tree_items t = before es @ its @ zs" using linked_items [OF assms(1)] by auto
  have t: "tree_items t = (before es @ take i its) @ (drop i its @ zs)"
    using zs append_take_drop_id [of i its] by (metis append.assoc)
  let ?m = "length (before es) + i"
  have "?m < length (tree_items t)" "tree_items t ! ?m = its ! i" using zs assms(2) by (simp_all add: nth_append)
  then have "prev_match (f \<circ> item_summary ops) (Suc ?m) (tree_items t) = Some ?m"
    using assms(3) by (simp add: prev_match_Suc)
  moreover have "length (before es @ take (Suc i) its) = Suc ?m" using assms(2) by simp
  ultimately show ?thesis using assms(1,2) pos_at_prefix [OF t, of ops dim]
    by (simp add: bwd_done_def at_index_def left_of_def)
qed

lemma backward_loop_ok:
  assumes "wf_node ops b (root_min t) t" and "node_height t < STACK_CAP" and "filter_ok ops f"
    and "bwd_state ops dim t st pos descending n"
  shows "no_panic (backward_loop ops dim f st pos descending) (bwd_done ops dim f t n)"
  using assms(4)
proof (induction "stack_work_left descending st" arbitrary: descending st pos n rule: less_induct)
  case less
  show ?case
  proof (cases st)
    case Nil
    with less.prems show ?thesis by (simp add: bwd_state_def bwd_done_def)
  next
    case (Cons e es)
    let ?u = "se_tree e" and ?i = "if descending then se_index e else se_index e - 1"
    have st: "linked ops dim t es ?u" using less.prems Cons by (simp add: bwd_state_def)
    obtain k where k: "wf_node ops b k ?u" using linked_wf [OF st assms(1)] by blast
    note pos0 = parent_position_linked [OF st]
    show ?thesis
    proof (cases "\<not> descending \<and> se_index e = 0")
      case True
      then have "n = length (before es)" using less.prems Cons by (cases ?u) (simp_all add: bwd_state_def)
      with bwd_state_pop [OF st assms(1) pos0] have "no_panic (backward_loop ops dim f es (parent_position dim es) False) (bwd_done ops dim f t n)"
        using less.hyps [of False es] Cons True by (simp add: stack_work_left_Cons work_left_def)
      with True Cons show ?thesis by (simp add: backward_loop.simps(2) Let_def)
    next
      case False
      then have i: "?i < length (child_summaries ?u)" "n = length (before es @ left_items ?u (Suc ?i))"
        using less.prems Cons by (auto simp: bwd_state_def Let_def split: if_splits)
      let ?p = "pos_after ops dim (dim_zero dim) (before es @ left_items ?u ?i)"
      let ?e = "\<lparr>se_tree = ?u, se_index = ?i, se_position = ?p\<rparr>"
      have p: "foldl (dim_add dim) (parent_position dim es) (take ?i (child_summaries ?u)) = ?p"
        using left_items_pos [OF k] pos0 by simp
      have step: "backward_loop ops dim f st pos descending =
        (if \<not> f (child_summaries ?u ! ?i) then backward_loop ops dim f (?e # es) ?p False
         else case ?u of
           Leaf _ _ _ \<Rightarrow> Some (?e # es, ?p)
         | Internal _ _ _ ts \<Rightarrow>
             (if length ts \<le> ?i \<or> child_summaries (ts ! ?i) = [] \<or> \<not> can_push ops (?e # es) then None
              else backward_loop ops dim f
                (\<lparr>se_tree = ts ! ?i, se_index = length (child_summaries (ts ! ?i)) - 1, se_position = dim_zero dim\<rparr> # ?e # es) ?p True))"
        unfolding Cons backward_loop.simps(2) [of ops dim f e es pos descending] Let_def p using False i(1) by auto
      have less_left: "stack_work_left False (?e # es) < stack_work_left descending st"
        using work_left_Suc [of ?i ?u] False by (auto simp: Cons stack_work_left_Cons)
      show ?thesis
      proof (cases "f (child_summaries ?u ! ?i)")
        case rejected: False
        have "bwd_state ops dim t (?e # es) ?p False (length (before es @ left_items ?u ?i))"
          using st i(1) by (simp add: bwd_state_def)
        from less.hyps [OF less_left this] show ?thesis
          using rejected by (simp only: step if_True not_False_eq_True i(2) bwd_done_cong [OF backward_skip [OF st k assms(3) i(1) rejected]])
      next
        case hit: True
        show ?thesis
        proof (cases ?u)
          case (Leaf s its ss)
          with k i(1) hit have "?i < length its" "f (item_summary ops (its ! ?i))" by auto
          with backward_hit [OF st [unfolded Leaf], of ?i f ?p] hit show ?thesis by (simp add: step i(2) Leaf del: length_append)
        next
          case (Internal h s cs ts)
          let ?c = "ts ! ?i" and ?len = "length (child_summaries (ts ! ?i))"
          let ?v = "\<lparr>se_tree = ?c, se_index = ?len - 1, se_position = dim_zero dim\<rparr>"
          have len: "?i < length ts" using k Internal i(1) by simp
          with k Internal have c: "wf_node ops b TREE_BASE ?c" by (auto simp: list_all_iff)
          then have ne: "child_summaries ?c \<noteq> []" by (cases ?c) auto
          have link: "linked ops dim t (?e # es) ?c" using st len Internal by (simp add: left_of_def)
          have push: "can_push ops (?e # es)" by (rule can_push_linked [OF st assms(1,2)]) (simp add: Internal)
          have "bwd_state ops dim t (?v # ?e # es) ?p True n"
            using link ne len Internal left_items_all [OF c] by (simp add: bwd_state_def i(2) left_of_def take_Suc_conv_app_nth)
          moreover have "stack_work_left True (?v # ?e # es) < stack_work_left descending st"
            using work_left_child [of ?i ?u] len Internal ne False by (auto simp: Cons stack_work_left_Cons)
          ultimately have "no_panic (backward_loop ops dim f (?v # ?e # es) ?p True) (bwd_done ops dim f t n)"
            using less.hyps by blast
          then show ?thesis using hit len ne push by (simp add: step Internal)
        qed
      qed
    qed
  qed
qed

text \<open>Where a backward search leads: to the previous match, or in front of the first item.\<close>

lemma search_backward_ok:
  assumes "wf_tree ops b t" and "node_height t < STACK_CAP" and "filter_ok ops f"
    and "cursor_at ops dim t n c \<or> c = cursor_new dim t \<and> n = length (tree_items t)"
  shows "no_panic (search_backward ops dim f c) (\<lambda>c'.
    case prev_match (f \<circ> item_summary ops) n (tree_items t) of
      Some m \<Rightarrow> cursor_at ops dim t m c'
    | None \<Rightarrow> before_first dim t c' \<and> did_seek c')"
proof (cases "is_empty t")
  case True
  then have "tree_items t = []" using wf_tree_empty_iff [OF assms(1)] by simp
  with assms(4) True have "n = 0" "cur_stack c = []" "cur_tree c = t" "did_seek c \<longrightarrow> at_end c"
    by (auto simp: cursor_at_def cursor_new_def)
  with True show ?thesis by (cases c) (auto simp: search_backward_def before_first_def cursor_new_def)
next
  case False
  then have wf: "wf_node ops b (root_min t) t" using wf_tree_empty_iff [OF assms(1)] wf_tree_node [OF assms(1)] by simp
  have hit: "m < length (tree_items t)" if "prev_match (f \<circ> item_summary ops) n (tree_items t) = Some m"
    and "n \<le> length (tree_items t)" for m using that
    by (induction n) (auto simp: prev_match_Suc split: if_splits)
  show ?thesis
  proof (cases "cursor_at ops dim t n c \<and> n < length (tree_items t)")
    case True
    then obtain e es where st: "cur_stack c = e # es" "is_leaf (se_tree e)" "linked ops dim t es (se_tree e)"
      "se_index e < length (tree_items (se_tree e))" "n = length (before (e # es))" "did_seek c" "\<not> at_end c" "cur_tree c = t"
      by (auto simp: cursor_at_def at_index_def split: list.splits)
    then obtain k where "wf_node ops b k (se_tree e)" using linked_wf [OF st(3) wf] by blast
    with st have "bwd_state ops dim t (cur_stack c) (cur_position c) False n"
      by (cases "se_tree e") (auto simp: bwd_state_def left_of_def)
    from backward_loop_ok [OF wf assms(2,3) this] st True hit False show ?thesis
      by (cases c) (auto simp: search_backward_def no_panic_def bwd_done_def cursor_at_def before_first_def cursor_new_def split: option.splits)
  next
    case past: False
    with assms(4) have c: "n = length (tree_items t)" "cur_stack c = []" "cur_tree c = t" "did_seek c \<longrightarrow> at_end c"
      by (auto simp: cursor_at_def cursor_new_def)
    let ?e = "\<lparr>se_tree = t, se_index = length (child_summaries t), se_position = from_summary_dim dim (node_summary t)\<rparr>"
    have "bwd_state ops dim t [?e] (dim_zero dim) False n"
      using left_items_all [OF wf] by (simp add: bwd_state_def c)
    from backward_loop_ok [OF wf assms(2,3) this] c hit False show ?thesis
      by (cases c) (auto simp: search_backward_def stack_push_def can_push_root no_panic_def bwd_done_def cursor_at_def before_first_def cursor_new_def Let_def split: option.splits)
  qed
qed

lemma search_backward_before:
  assumes "before_first dim t c" and "did_seek c"
  shows "search_backward ops dim f c = Some c"
proof -
  have "cur_stack c = []" "cur_position c = dim_zero dim" "at_end c = is_empty t" "cur_tree c = t"
    using assms by (cases c, simp add: before_first_def cursor_new_def)+
  with assms show ?thesis by (cases c) (simp add: search_backward_def Let_def)
qed

lemma prev_cursor_ok:
  assumes "wf_tree ops b t" and "node_height t < STACK_CAP" and "cursor_at ops dim t n c"
  shows "no_panic (prev_cursor ops dim c) (\<lambda>c'. if n = 0 then before_first dim t c' \<and> did_seek c' else cursor_at ops dim t (n - 1) c')"
proof -
  have "filter_ok ops (\<lambda>_. True)" by (simp add: filter_ok_def)
  from search_backward_ok [OF assms(1,2) this, of n c] assms(3) show ?thesis
    by (cases "n = 0") (auto simp: prev_cursor_def comp_def prev_match_True cursor_at_def)
qed

section \<open>Reading the cursor\<close>

lemma at_index_item:
  assumes "wf_node ops b (root_min t) t" and "at_index ops dim t n st"
  obtains s its e es where "st = e # es" and "se_tree e = Leaf s its (map (item_summary ops) its)"
    and "se_index e < length its" and "n = length (before es) + se_index e" and "linked ops dim t es (se_tree e)"
    and "tree_items t ! n = its ! se_index e" and "n < length (tree_items t)"
proof -
  obtain e es where st: "st = e # es" "is_leaf (se_tree e)" "linked ops dim t es (se_tree e)"
      "se_index e < length (tree_items (se_tree e))" "n = length (before (e # es))"
    using assms(2) by (auto simp: at_index_def split: list.splits)
  obtain k where k: "wf_node ops b k (se_tree e)" using linked_wf [OF st(3) assms(1)] by blast
  with st obtain s its where e: "se_tree e = Leaf s its (map (item_summary ops) its)" by (cases "se_tree e") auto
  obtain zs where zs: "tree_items t = before es @ its @ zs" using linked_items [OF st(3)] e by auto
  show ?thesis by (rule that [OF st(1) e]) (use st e zs in \<open>simp_all add: left_of_def nth_append\<close>)
qed

lemma read_ok:
  assumes "wf_tree ops b t" and "cursor_at ops dim t n c"
  shows item_ok: "item c = Some (if n < length (tree_items t) then Some (tree_items t ! n) else None)"
    and item_summary_ok: "cursor_item_summary c =
      Some (if n < length (tree_items t) then Some (item_summary ops (tree_items t ! n)) else None)"
    and cursor_end_ok: "cursor_end dim c = Some (pos_at ops dim t (min (Suc n) (length (tree_items t))))"
proof -
  have both: "item c = Some (if n < length (tree_items t) then Some (tree_items t ! n) else None) \<and>
    cursor_item_summary c = Some (if n < length (tree_items t) then Some (item_summary ops (tree_items t ! n)) else None)"
  proof (cases "n < length (tree_items t)")
    case True
    then have "tree_items t \<noteq> []" by auto
    note wf = wf_tree_node [OF assms(1) this]
    from True assms(2) have at: "at_index ops dim t n (cur_stack c)" "did_seek c" by (auto simp: cursor_at_def)
    from wf at(1) obtain s its e es where st: "cur_stack c = e # es" "se_tree e = Leaf s its (map (item_summary ops) its)"
      "se_index e < length its" "tree_items t ! n = its ! se_index e"
      by (rule at_index_item)
    with True at(2) show ?thesis by (simp add: item_def cursor_item_summary_def)
  next
    case False
    with assms(2) show ?thesis by (auto simp: cursor_at_def item_def cursor_item_summary_def)
  qed
  then show "item c = Some (if n < length (tree_items t) then Some (tree_items t ! n) else None)"
    and "cursor_item_summary c = Some (if n < length (tree_items t) then Some (item_summary ops (tree_items t ! n)) else None)"
    by auto
  with assms(2) show "cursor_end dim c = Some (pos_at ops dim t (min (Suc n) (length (tree_items t))))"
    by (auto simp: cursor_end_def start_def cursor_at_def pos_at_def min_def take_Suc_conv_app_nth)
qed

end

lemma next_leaf_ok:
  assumes "wf_node ops b (root_min t) t"
  shows "linked ops dim t es u \<Longrightarrow> tree_items t = before es @ tree_items u @ zs \<Longrightarrow>
    (if zs = [] then next_leaf es = Some None
     else \<exists>s its ss. next_leaf es = Some (Some (Leaf s its ss)) \<and> its \<noteq> [] \<and> hd its = hd zs)"
proof (induction es arbitrary: u zs)
  case (Cons e es)
  then obtain h s cs ts where e: "se_tree e = Internal h s cs ts" by (cases "se_tree e") auto
  let ?i = "se_index e"
  have i: "?i < length ts" "u = ts ! ?i" and link: "linked ops dim t es (se_tree e)" using Cons.prems(1) e by auto
  obtain ws where ws: "tree_items t = before es @ tree_items (se_tree e) @ ws" using linked_items [OF link] by blast
  have zs: "zs = forest_items (drop (Suc ?i) ts) @ ws"
    using ws Cons.prems(2) e i forest_nth [OF i(1)] by (simp add: left_of_def)
  show ?case
  proof (cases "?i < length ts - 1")
    case True
    then have j: "Suc ?i < length ts" by simp
    obtain k where "wf_node ops b k (se_tree e)" using linked_wf [OF link assms] by blast
    with e j have c: "wf_node ops b TREE_BASE (ts ! Suc ?i)" by (auto simp: list_all_iff)
    have "zs = tree_items (ts ! Suc ?i) @ forest_items (drop (Suc (Suc ?i)) ts) @ ws"
      using zs Cons_nth_drop_Suc [OF j] by (metis append.assoc concat.simps(2) list.simps(9))
    with leaf_edges(1) [OF c] wf_node_nonempty [OF c] e True i show ?thesis by auto
  next
    case False
    with i zs have "zs = ws" by simp
    with Cons.IH [OF link ws] e i False show ?thesis by auto
  qed
qed simp

lemma prev_leaf_ok:
  assumes "wf_node ops b (root_min t) t"
  shows "linked ops dim t es u \<Longrightarrow>
    (if before es = [] then prev_leaf es = Some None
     else \<exists>s its ss. prev_leaf es = Some (Some (Leaf s its ss)) \<and> its \<noteq> [] \<and> last its = last (before es))"
proof (induction es arbitrary: u)
  case (Cons e es)
  then obtain h s cs ts where e: "se_tree e = Internal h s cs ts" by (cases "se_tree e") auto
  let ?i = "se_index e"
  have i: "?i < length ts" and link: "linked ops dim t es (se_tree e)" using Cons.prems(1) e by auto
  show ?case
  proof (cases ?i)
    case 0
    then have "prev_leaf (e # es) = prev_leaf es" "before (e # es) = before es" using e by (simp_all add: left_of_def)
    with Cons.IH [OF link] show ?thesis by (simp only:)
  next
    case (Suc j)
    obtain k where "wf_node ops b k (se_tree e)" using linked_wf [OF link assms] by blast
    with e i Suc have c: "wf_node ops b TREE_BASE (ts ! j)" by (auto simp: list_all_iff)
    have "left_of e = forest_items (take j ts) @ tree_items (ts ! j)" using e i Suc by (simp add: left_of_def take_Suc_conv_app_nth)
    with leaf_edges(2) [OF c] wf_node_nonempty [OF c] e i Suc show ?thesis by auto
  qed
qed simp

context dimension_laws
begin

lemma neighbours_ok:
  assumes "wf_tree ops b t" and "cursor_at ops dim t n c"
  shows "next_item c = Some (if Suc n < length (tree_items t) then Some (tree_items t ! Suc n) else None) \<and>
    prev_item c = Some (if n = 0 then None else Some (tree_items t ! (n - 1)))"
proof (cases "n < length (tree_items t)")
  case True
  then have "tree_items t \<noteq> []" by auto
  note wf = wf_tree_node [OF assms(1) this]
  from True assms(2) have at: "at_index ops dim t n (cur_stack c)" "did_seek c" by (auto simp: cursor_at_def)
  from wf at(1) obtain s its e es where st: "cur_stack c = e # es" "se_tree e = Leaf s its (map (item_summary ops) its)"
    "se_index e < length its" "n = length (before es) + se_index e" "linked ops dim t es (se_tree e)"
    by (rule at_index_item)
  obtain zs where zs: "tree_items t = before es @ its @ zs" using linked_items [OF st(5)] st(2) by auto
  have "next_item c = Some (if Suc n < length (tree_items t) then Some (tree_items t ! Suc n) else None)"
  proof (cases "Suc (se_index e) = length its")
    case True
    then have "zs \<noteq> [] \<Longrightarrow> tree_items t ! Suc n = hd zs" using zs st(4) by (simp add: nth_append hd_conv_nth flip: True)
    with next_leaf_ok [OF wf st(5), of zs] st at(2) zs True show ?thesis
      by (auto simp: next_item_def vec_first_def nth_append hd_conv_nth split: if_splits)
  next
    case False
    with st at(2) zs show ?thesis by (auto simp: next_item_def nth_append)
  qed
  moreover have "prev_item c = Some (if n = 0 then None else Some (tree_items t ! (n - 1)))"
  proof (cases "se_index e = 0")
    case True
    then have "before es \<noteq> [] \<Longrightarrow> tree_items t ! (n - 1) = last (before es)" using zs st(4) by (simp add: nth_append last_conv_nth)
    with prev_leaf_ok [OF wf st(5)] st at(2) zs True show ?thesis
      by (auto simp: prev_item_def vec_last_def split: if_splits)
  next
    case False
    with st at(2) zs show ?thesis by (auto simp: prev_item_def nth_append)
  qed
  ultimately show ?thesis by simp
next
  case False
  with assms first_last_ok [OF assms(1)] show ?thesis
    by (auto simp: cursor_at_def next_item_def prev_item_def vec_last_def last_conv_nth)
qed

end

section \<open>Iteration\<close>

text \<open>The unit dimension is lawful over every summary.\<close>

sublocale summary_laws \<subseteq> unit_laws: dimension_laws ops unit_dim
  by unfold_locales (simp add: unit_dim_def)

lemma skip_forward_True [simp]: "skip_forward dim (\<lambda>_. True) i p pos ss = (i, p, pos)"
  by (cases ss) simp_all

fun arrays_match :: "('a, 's) node \<Rightarrow> bool" where
  "arrays_match (Leaf _ its ss) \<longleftrightarrow> length its = length ss"
| "arrays_match (Internal _ _ cs ts) \<longleftrightarrow> length cs = length ts \<and> list_all arrays_match ts"

lemma wf_arrays_match: "wf_node ops b k t \<Longrightarrow> arrays_match t"
  by (induction t arbitrary: k) (auto simp: list_all_iff)

definition top_item :: "('a, 's, 'd) stack_entry list \<Rightarrow> 'a option" where
  "top_item st = (case st of
     e # _ \<Rightarrow> (case se_tree e of Leaf _ its _ \<Rightarrow> Some (its ! se_index e) | Internal _ _ _ _ \<Rightarrow> None)
   | [] \<Rightarrow> None)"

text \<open>\<open>Iter::next\<close> is \<open>Cursor::next\<close> without positions.\<close>

lemma iter_loop_forward:
  "\<forall>e \<in> set st. arrays_match (se_tree e) \<Longrightarrow>
   (case st of e # es \<Rightarrow> is_leaf (se_tree e) \<longrightarrow> descend \<or> se_index e < length (child_summaries (se_tree e)) | [] \<Rightarrow> True) \<Longrightarrow>
   (case st of e # es \<Rightarrow> list_all (\<lambda>x. \<not> is_leaf (se_tree x)) es | [] \<Rightarrow> True) \<Longrightarrow>
   iter_loop ops st descend = map_option (\<lambda>(st', pos, returned). (st', if returned then top_item st' else None))
     (forward_loop ops unit_dim (\<lambda>_. True) st () descend)"
proof (induction ops st descend rule: iter_loop.induct)
  case (2 ops e es descend)
  let ?i = "if descend then se_index e else Suc (se_index e)"
  have pop: "case es of x # xs \<Rightarrow> is_leaf (se_tree x) \<longrightarrow> False \<or> se_index x < length (child_summaries (se_tree x)) | [] \<Rightarrow> True"
      "case es of x # xs \<Rightarrow> list_all (\<lambda>y. \<not> is_leaf (se_tree y)) xs | [] \<Rightarrow> True"
      "\<forall>x \<in> set es. arrays_match (se_tree x)"
    using 2 by (auto split: list.splits)
  show ?case
  proof (cases "se_tree e")
    case (Leaf s its ss)
    with 2 have len: "length its = length ss" "descend \<or> se_index e < length ss" by auto
    show ?thesis
    proof (cases "?i < length its")
      case True
      with Leaf len show ?thesis
        by (auto simp: iter_loop.simps(2) [of ops e es] forward_loop.simps(2) [of ops _ _ e es] Let_def top_item_def)
    next
      case False
      with 2(3) [OF refl refl Leaf False pop(3,1,2)] Leaf len show ?thesis
        by (auto simp: iter_loop.simps(2) [of ops e es] forward_loop.simps(2) [of ops _ _ e es] Let_def)
    qed
  next
    case (Internal h s cs ts)
    show ?thesis
    proof (cases "?i < length ts")
      case True
      with Internal 2(4) have "arrays_match (ts ! ?i)" by (auto simp: list_all_iff)
      with 2(1) [OF refl refl Internal True] 2(4,6) True Internal show ?thesis
        by (auto simp: iter_loop.simps(2) [of ops e es] forward_loop.simps(2) [of ops _ _ e es] Let_def)
    next
      case False
      with 2(2) [OF refl refl Internal False pop(3,1,2)] Internal show ?thesis
        by (auto simp: iter_loop.simps(2) [of ops e es] forward_loop.simps(2) [of ops _ _ e es] Let_def)
    qed
  qed
qed simp

text \<open>An iterator that has returned the first \<open>n\<close> items.\<close>

definition iter_at :: "('a, 's) item_ops \<Rightarrow> ('a, 's) sum_tree \<Rightarrow> nat \<Rightarrow> ('a, 's) iter \<Rightarrow> bool" where
  "iter_at ops t n it \<longleftrightarrow> it_tree it = t \<and>
     (if n = 0 then it_stack it = [] else at_index ops unit_dim t (n - 1) (it_stack it))"

lemma linked_inner: "linked ops dim t es u \<Longrightarrow> list_all (\<lambda>e. \<not> is_leaf (se_tree e)) es"
proof (induction es arbitrary: u)
  case (Cons e es)
  then show ?case by (cases "se_tree e") auto
qed simp

lemma linked_arrays:
  "linked ops dim t es u \<Longrightarrow> wf_node ops b (root_min t) t \<Longrightarrow> \<forall>e \<in> set es. arrays_match (se_tree e)"
proof (induction es arbitrary: u)
  case (Cons e es)
  then have "linked ops dim t es (se_tree e)" by simp
  with linked_wf [OF this Cons.prems(2)] Cons show ?case by (auto dest: wf_arrays_match)
qed simp

context summary_laws
begin

lemma filter_ok_True [simp]: "filter_ok ops (\<lambda>_. True)"
  by (simp add: filter_ok_def)

lemma iter_loop_done:
  assumes "wf_node ops b (root_min t) t" and "n \<le> length (tree_items t)"
    and "iter_loop ops st d = map_option (\<lambda>(st', pos, returned). (st', if returned then top_item st' else None))
        (forward_loop ops unit_dim (\<lambda>_. True) st () d)"
    and "no_panic (forward_loop ops unit_dim (\<lambda>_. True) st () d) (fwd_done ops unit_dim (\<lambda>_. True) t n)"
  shows "no_panic (iter_loop ops st d) (\<lambda>(st', r).
    if n < length (tree_items t) then r = Some (tree_items t ! n) \<and> at_index ops unit_dim t n st' else r = None \<and> st' = [])"
proof -
  obtain st' pos returned where fwd: "forward_loop ops unit_dim (\<lambda>_. True) st () d = Some (st', pos, returned)"
    "fwd_done ops unit_dim (\<lambda>_. True) t n (st', pos, returned)" using assms(4) by (auto simp: no_panic_def)
  show ?thesis
  proof (cases "n < length (tree_items t)")
    case True
    with fwd(2) have "at_index ops unit_dim t n st'" "returned" by (auto simp: fwd_done_def comp_def)
    moreover from assms(1) this(1) obtain s its e es where "st' = e # es" "se_tree e = Leaf s its (map (item_summary ops) its)"
      "tree_items t ! n = its ! se_index e" by (rule unit_laws.at_index_item)
    ultimately show ?thesis using True fwd(1) assms(3) by (simp add: top_item_def)
  next
    case False
    with fwd assms show ?thesis by (simp add: fwd_done_def comp_def)
  qed
qed

lemma iter_next_ok:
  assumes "wf_tree ops b t" and "node_height t < STACK_CAP" and "n \<le> length (tree_items t)" and "iter_at ops t n it"
  shows "no_panic (iter_next ops it) (\<lambda>(r, it').
    if n < length (tree_items t) then r = Some (tree_items t ! n) \<and> iter_at ops t (Suc n) it'
    else r = None \<and> it' = iter_new t)"
proof (cases "tree_items t = []")
  case True
  with assms(1) have "t = new ops" using wf_node_nonempty by (auto simp: wf_tree_def)
  with True assms(3,4) unit_laws.can_push_root show ?thesis
    by (cases it) (simp add: iter_next_def iter_at_def stack_push_def new_def iter_loop.simps(2) iter_new_def)
next
  case False
  note wf = wf_tree_node [OF assms(1) this]
  show ?thesis
  proof (cases n)
    case 0
    let ?st = "[\<lparr>se_tree = t, se_index = 0, se_position = ()\<rparr>]"
    have "iter_loop ops ?st True = map_option (\<lambda>(st', pos, returned). (st', if returned then top_item st' else None))
        (forward_loop ops unit_dim (\<lambda>_. True) ?st () True)"
      by (rule iter_loop_forward) (use wf_arrays_match [OF wf] in auto)
    from iter_loop_done [OF wf assms(3) this] unit_laws.forward_from_root [OF wf assms(2) filter_ok_True] 0
    have "no_panic (iter_loop ops ?st True) (\<lambda>(st', r).
      if n < length (tree_items t) then r = Some (tree_items t ! n) \<and> at_index ops unit_dim t n st' else r = None \<and> st' = [])"
      by (simp add: unit_dim_def)
    with 0 assms(4) False unit_laws.can_push_root show ?thesis
      by (auto simp: iter_next_def iter_at_def stack_push_def no_panic_def)
  next
    case (Suc m)
    with assms(4) have at: "at_index ops unit_dim t m (it_stack it)" "it_tree it = t" by (auto simp: iter_at_def)
    from wf at(1) obtain s its e es where st: "it_stack it = e # es" "se_tree e = Leaf s its (map (item_summary ops) its)"
      "se_index e < length its" "linked ops unit_dim t es (se_tree e)" by (rule unit_laws.at_index_item)
    have "iter_loop ops (it_stack it) False = map_option (\<lambda>(st', pos, returned). (st', if returned then top_item st' else None))
        (forward_loop ops unit_dim (\<lambda>_. True) (it_stack it) () False)"
      by (rule iter_loop_forward) (use st linked_arrays [OF st(4) wf] linked_inner [OF st(4)] wf_arrays_match linked_wf [OF st(4) wf] in auto)
    from iter_loop_done [OF wf assms(3) this] unit_laws.forward_from_leaf [OF wf assms(2) filter_ok_True at(1)] Suc
    have "no_panic (iter_loop ops (it_stack it) False) (\<lambda>(st', r).
      if n < length (tree_items t) then r = Some (tree_items t ! n) \<and> at_index ops unit_dim t n st' else r = None \<and> st' = [])"
      by simp
    with Suc at(2) st(1) show ?thesis
      by (cases it) (auto simp: iter_next_def iter_at_def iter_new_def no_panic_def split: if_splits)
  qed
qed

lemma iter_eq_ok:
  assumes "wf_tree ops b t" and "node_height t < STACK_CAP" and "wf_tree ops b' u" and "node_height u < STACK_CAP"
    and "iter_at ops t n it1" and "iter_at ops u n it2" and "n \<le> length (tree_items t)" and "n \<le> length (tree_items u)"
    and "take n (tree_items t) = take n (tree_items u)"
  shows "iter_eq ops it1 it2 = Some (tree_items t = tree_items u)"
  using assms(5-)
proof (induction "length (tree_items t) - n" arbitrary: n it1 it2 rule: less_induct)
  case less
  obtain x it1' where x: "iter_next ops it1 = Some (x, it1')"
    "if n < length (tree_items t) then x = Some (tree_items t ! n) \<and> iter_at ops t (Suc n) it1' else x = None"
    using iter_next_ok [OF assms(1,2) less.prems(3,1)] by (auto simp: no_panic_def split: if_splits)
  obtain y it2' where y: "iter_next ops it2 = Some (y, it2')"
    "if n < length (tree_items u) then y = Some (tree_items u ! n) \<and> iter_at ops u (Suc n) it2' else y = None"
    using iter_next_ok [OF assms(3,4) less.prems(4,2)] by (auto simp: no_panic_def split: if_splits)
  show ?case
  proof (cases "n < length (tree_items t) \<and> n < length (tree_items u)")
    case True
    then have "tree_items t = tree_items u \<Longrightarrow> tree_items t ! n = tree_items u ! n" by simp
    moreover have "iter_eq ops it1' it2' = Some (tree_items t = tree_items u)" if "tree_items t ! n = tree_items u ! n"
      using less.hyps [of "Suc n" it1' it2'] True x(2) y(2) that less.prems(5) by (auto simp: take_Suc_conv_app_nth)
    ultimately show ?thesis using True x y by (subst iter_eq.simps) auto
  next
    case False
    then have "tree_items t = tree_items u \<longleftrightarrow> length (tree_items t) = n \<and> length (tree_items u) = n"
      using less.prems(3-5) by (metis le_neq_implies_less take_all_iff)
    moreover have "(x = None) = (length (tree_items t) = n)" "(y = None) = (length (tree_items u) = n)" "x = None \<or> y = None"
      using x(2) y(2) False less.prems(3,4) by (simp_all split: if_splits)
    ultimately show ?thesis using x(1) y(1) by (subst iter_eq.simps) (auto split: option.splits)
  qed
qed

lemma tree_eq_ok:
  assumes "wf_tree ops b t" and "node_height t < STACK_CAP" and "wf_tree ops b' u" and "node_height u < STACK_CAP"
  shows "tree_eq ops t u = Some (tree_items t = tree_items u)"
  unfolding tree_eq_def by (rule iter_eq_ok [OF assms, of 0]) (simp_all add: iter_at_def iter_new_def)

lemma items_loop_ok:
  assumes "wf_tree ops b t" and "node_height t < STACK_CAP" and "cursor_at ops unit_dim t n c"
  shows "items_loop ops c (take n (tree_items t)) = Some (tree_items t)"
  using assms(3)
proof (induction "length (tree_items t) - n" arbitrary: n c rule: less_induct)
  case less
  note it = unit_laws.item_ok [OF assms(1) less.prems]
  show ?case
  proof (cases "n < length (tree_items t)")
    case True
    obtain c' where "next_cursor ops unit_dim c = Some c'" "cursor_at ops unit_dim t (Suc n) c'"
      using unit_laws.next_cursor_ok [OF assms(1,2) less.prems] True by (auto simp: no_panic_def)
    with True it less.hyps [of "Suc n" c'] show ?thesis by (subst items_loop.simps) (simp add: take_Suc_conv_app_nth)
  next
    case False
    with it less.prems show ?thesis by (subst items_loop.simps) (simp add: cursor_at_def)
  qed
qed

lemma items_ok:
  assumes "wf_tree ops b t" and "node_height t < STACK_CAP"
  shows "items ops t = Some (tree_items t)"
proof -
  have "before_first unit_dim t (cursor_new unit_dim t)" by (simp add: before_first_def cursor_new_def)
  from unit_laws.next_cursor_first [OF assms this] show ?thesis using items_loop_ok [OF assms, of 0]
    by (auto simp: no_panic_def items_def)
qed

lemma iter_drain:
  assumes "wf_tree ops b t" and "node_height t < STACK_CAP"
  shows "drain (iter_next ops) (iter_new t) = Some (tree_items t)"
proof -
  have "drain (iter_next ops) (iter_new t) = Some (drop 0 (tree_items t))"
  proof (rule drain_list [where R = "iter_at ops t"])
    fix n it assume "iter_at ops t n it" "n < length (tree_items t)"
    then show "\<exists>it'. iter_next ops it = Some (Some (tree_items t ! n), it') \<and> iter_at ops t (Suc n) it'"
      using iter_next_ok [OF assms, of n it] by (auto simp: no_panic_def)
  next
    fix it assume "iter_at ops t (length (tree_items t)) it"
    then show "\<exists>it'. iter_next ops it = Some (None, it')"
      using iter_next_ok [OF assms, of "length (tree_items t)" it] by (auto simp: no_panic_def)
  qed (simp_all add: iter_at_def iter_new_def)
  then show ?thesis by simp
qed

end

context dimension_laws
begin

text \<open>Iterating over a cursor yields what is left of the items from where it stands.\<close>

lemma cursor_drain:
  assumes "wf_tree ops b t" and "node_height t < STACK_CAP" and "cursor_at ops dim t n c"
  shows "drain (cursor_iter_next ops dim) c = Some (drop n (tree_items t))"
proof (rule drain_list [where R = "cursor_at ops dim t"])
  fix n c assume c: "cursor_at ops dim t n c" and n: "n < length (tree_items t)"
  then have "did_seek c" by (simp add: cursor_at_def)
  with next_cursor_ok [OF assms(1,2) c] item_ok [OF assms(1) c] n
  show "\<exists>c'. cursor_iter_next ops dim c = Some (Some (tree_items t ! n), c') \<and> cursor_at ops dim t (Suc n) c'"
    by (auto simp: cursor_iter_next_def no_panic_def)
next
  fix c assume c: "cursor_at ops dim t (length (tree_items t)) c"
  then have "did_seek c" by (simp add: cursor_at_def)
  with item_ok [OF assms(1) c] show "\<exists>c'. cursor_iter_next ops dim c = Some (None, c')" by (simp add: cursor_iter_next_def)
qed (use assms(3) in \<open>simp_all add: cursor_at_def\<close>)

text \<open>A filter cursor yields exactly the items whose summary the filter accepts.\<close>

lemma filter_from: "n \<le> length xs \<Longrightarrow> filter p (drop n xs) =
    (if next_match p n xs < length xs then xs ! next_match p n xs # filter p (drop (Suc (next_match p n xs)) xs) else [])"
proof -
  let ?w = "takeWhile (\<lambda>x. \<not> p x) (drop n xs)" and ?m = "next_match p n xs"
  assume n: "n \<le> length xs"
  have m: "drop ?m xs = dropWhile (\<lambda>x. \<not> p x) (drop n xs)"
    by (simp add: next_match_def dropWhile_eq_drop add.commute)
  have "filter p ?w = []" by (auto simp: filter_empty_conv dest: set_takeWhileD)
  then have eq: "filter p (drop n xs) = filter p (drop ?m xs)"
    using takeWhile_dropWhile_id [of "\<lambda>x. \<not> p x" "drop n xs"] m by (metis append_Nil filter_append)
  show ?thesis
  proof (cases "?m < length xs")
    case True
    then have "drop ?m xs = xs ! ?m # drop (Suc ?m) xs" by (simp add: Cons_nth_drop_Suc)
    moreover from this m have "p (xs ! ?m)" by (metis hd_dropWhile list.distinct(1) list.sel(1))
    ultimately show ?thesis using eq True by simp
  qed (use eq in simp)
qed

lemma filter_drain_from:
  assumes "wf_tree ops b t" and "node_height t < STACK_CAP" and "filter_ok ops f" and "n \<le> length (tree_items t)"
    and "cursor_at ops dim t (next_match (f \<circ> item_summary ops) n (tree_items t)) c"
  shows "drain (filter_cursor_next ops dim f) c = Some (filter (f \<circ> item_summary ops) (drop n (tree_items t)))"
  using assms(4,5)
proof (induction "length (tree_items t) - n" arbitrary: n c rule: less_induct)
  case less
  let ?p = "f \<circ> item_summary ops" and ?xs = "tree_items t"
  let ?m = "next_match ?p n ?xs"
  have c: "did_seek c" "item c = Some (if ?m < length ?xs then Some (?xs ! ?m) else None)"
    using less.prems item_ok [OF assms(1) less.prems(2)] by (auto simp: cursor_at_def)
  show ?case
  proof (cases "?m < length ?xs")
    case True
    obtain c' where c': "search_forward ops dim f c = Some c'" "cursor_at ops dim t (next_match ?p (Suc ?m) ?xs) c'"
      using search_forward_ok [OF assms(1-3) less.prems(2)] True by (auto simp: no_panic_def)
    have "n \<le> ?m" by (simp add: next_match_def)
    with less.hyps [of "Suc ?m" c'] True c'(2) have "drain (filter_cursor_next ops dim f) c' = Some (filter ?p (drop (Suc ?m) ?xs))" by simp
    with c c'(1) True filter_from [OF less.prems(1), of ?p] show ?thesis
      by (subst drain.simps) (simp add: filter_cursor_next_def)
  next
    case False
    with c filter_from [OF less.prems(1), of ?p] show ?thesis by (subst drain.simps) (simp add: filter_cursor_next_def)
  qed
qed

lemma filter_cursor_drain:
  assumes "wf_tree ops b t" and "node_height t < STACK_CAP" and "filter_ok ops f"
  shows "drain (filter_cursor_next ops dim f) (cursor_new dim t) = Some (filter (f \<circ> item_summary ops) (tree_items t))"
proof -
  have "before_first dim t (cursor_new dim t)" by (simp add: before_first_def cursor_new_def)
  from search_forward_first [OF assms this] obtain c where
    c: "search_forward ops dim f (cursor_new dim t) = Some c" "cursor_at ops dim t (next_match (f \<circ> item_summary ops) 0 (tree_items t)) c"
    by (auto simp: no_panic_def)
  then have "filter_cursor_next ops dim f (cursor_new dim t) = filter_cursor_next ops dim f c"
    by (simp add: filter_cursor_next_def cursor_new_def cursor_at_def)
  then have "drain (filter_cursor_next ops dim f) (cursor_new dim t) = drain (filter_cursor_next ops dim f) c"
    by (subst (1 2) drain.simps) simp
  with filter_drain_from [OF assms, of 0 c] c(2) show ?thesis by simp
qed

end

end
