(* ===== verification/ST_Seek.thy ===== *)
theory ST_Seek
  imports ST_Navigate
begin

text \<open>
  Seeking: \<open>seek_internal\<close> with the three \<open>SeekAggregate\<close>s it collects into (nothing, a slice of the
  tree, a summary), and \<open>seek\<close>, \<open>seek_forward\<close>, \<open>slice\<close>, \<open>suffix\<close> and \<open>summary\<close> on top of it. The
  contract of an aggregate is the locale \<open>seek_aggregate\<close>; the behaviour of the seek is proved once in
  it and instantiated for the three aggregates.
\<close>

section \<open>Aggregates\<close>

record ('a, 's, 'g) agg_ops =
  agg_begin_leaf :: "'g \<Rightarrow> 'g"
  agg_end_leaf :: "'g \<Rightarrow> 'g panics"
  agg_push_item :: "'g \<Rightarrow> 'a \<Rightarrow> 's \<Rightarrow> 'g panics"
  agg_push_tree :: "'g \<Rightarrow> ('a, 's) sum_tree \<Rightarrow> 's \<Rightarrow> 'g panics"

definition unit_agg :: "('a, 's, unit) agg_ops" where
  "unit_agg = \<lparr>agg_begin_leaf = (\<lambda>g. g), agg_end_leaf = Some, agg_push_item = (\<lambda>g _ _. Some g), agg_push_tree = (\<lambda>g _ _. Some g)\<rparr>"

record ('a, 's) slice_seek_aggregate =
  sl_tree :: "('a, 's) sum_tree"
  sl_leaf_items :: "'a list"
  sl_leaf_item_summaries :: "'s list"
  sl_leaf_summary :: "'s"

definition slice_end_leaf :: "('a, 's) item_ops \<Rightarrow> ('a, 's) slice_seek_aggregate \<Rightarrow> ('a, 's) slice_seek_aggregate panics" where
  "slice_end_leaf ops g = do {
     t \<leftarrow> append ops (sl_tree g) (Leaf (sl_leaf_summary g) (sl_leaf_items g) (sl_leaf_item_summaries g));
     Some \<lparr>sl_tree = t, sl_leaf_items = [], sl_leaf_item_summaries = [], sl_leaf_summary = summary_zero ops\<rparr>
   }"

definition slice_push_item :: "('a, 's) item_ops \<Rightarrow> ('a, 's) slice_seek_aggregate \<Rightarrow> 'a \<Rightarrow> 's \<Rightarrow> ('a, 's) slice_seek_aggregate panics" where
  "slice_push_item ops g x s = do {
     its \<leftarrow> av_push (vec_fits ops) CAP (sl_leaf_items g) x;
     ss \<leftarrow> av_push (vec_fits ops) CAP (sl_leaf_item_summaries g) s;
     Some (g\<lparr>sl_leaf_items := its, sl_leaf_item_summaries := ss, sl_leaf_summary := add_summary ops (sl_leaf_summary g) s\<rparr>)
   }"

definition slice_push_tree :: "('a, 's) item_ops \<Rightarrow> ('a, 's) slice_seek_aggregate \<Rightarrow> ('a, 's) sum_tree \<Rightarrow> 's \<Rightarrow> ('a, 's) slice_seek_aggregate panics" where
  "slice_push_tree ops g t s = do { r \<leftarrow> append ops (sl_tree g) t; Some (g\<lparr>sl_tree := r\<rparr>) }"

definition slice_agg :: "('a, 's) item_ops \<Rightarrow> ('a, 's, ('a, 's) slice_seek_aggregate) agg_ops" where
  "slice_agg ops = \<lparr>agg_begin_leaf = (\<lambda>g. g), agg_end_leaf = slice_end_leaf ops, agg_push_item = slice_push_item ops,
     agg_push_tree = slice_push_tree ops\<rparr>"

definition summary_agg :: "('s, 'o) dim_ops \<Rightarrow> ('a, 's, 'o) agg_ops" where
  "summary_agg out = \<lparr>agg_begin_leaf = (\<lambda>g. g), agg_end_leaf = Some, agg_push_item = (\<lambda>g _ s. Some (dim_add out g s)),
     agg_push_tree = (\<lambda>g _ s. Some (dim_add out g s))\<rparr>"

section \<open>The seek loop\<close>

definition passes :: "'d seek_target \<Rightarrow> bias \<Rightarrow> 'd \<Rightarrow> bool" where
  "passes tgt bias child_end \<longleftrightarrow>
     (let comparison = tgt child_end in comparison = Greater \<or> (comparison = Equal \<and> bias = Right))"

text \<open>The children of an internal node from the entry's index on: the new index and position of the
  entry, the cursor position, the aggregate and the child to descend into.\<close>

fun seek_children :: "('s, 'd) dim_ops \<Rightarrow> ('a, 's, 'g) agg_ops \<Rightarrow> 'd seek_target \<Rightarrow> bias \<Rightarrow> nat \<Rightarrow> 'd \<Rightarrow> 'd \<Rightarrow> 'g \<Rightarrow>
    ('a, 's) sum_tree list \<Rightarrow> 's list \<Rightarrow> (nat \<times> 'd \<times> 'd \<times> 'g \<times> ('a, 's) sum_tree option) panics" where
  "seek_children dim ag tgt bias i p pos g (t # ts) (s # ss) =
     (let child_end = dim_add dim pos s in
      if passes tgt bias child_end then do {
        g' \<leftarrow> agg_push_tree ag g t s;
        seek_children dim ag tgt bias (Suc i) child_end child_end g' ts ss
      } else Some (i, p, pos, g, Some t))"
| "seek_children dim ag tgt bias i p pos g _ _ = Some (i, p, pos, g, None)"

text \<open>The items of a leaf; the Boolean tells that the loop stopped at an item.\<close>

fun seek_items :: "('s, 'd) dim_ops \<Rightarrow> ('a, 's, 'g) agg_ops \<Rightarrow> 'd seek_target \<Rightarrow> bias \<Rightarrow> nat \<Rightarrow> 'd \<Rightarrow> 'g \<Rightarrow>
    'a list \<Rightarrow> 's list \<Rightarrow> (nat \<times> 'd \<times> 'g \<times> bool) panics" where
  "seek_items dim ag tgt bias i pos g (x # xs) (s # ss) =
     (let child_end = dim_add dim pos s in
      if passes tgt bias child_end then do {
        g' \<leftarrow> agg_push_item ag g x s;
        seek_items dim ag tgt bias (Suc i) child_end g' xs ss
      } else Some (i, pos, g, True))"
| "seek_items dim ag tgt bias i pos g _ _ = Some (i, pos, g, False)"

lemma seek_children_child:
  "seek_children dim ag tgt bias i p pos g ts ss = Some (j, q, pos', g', Some c) \<Longrightarrow>
   i \<le> j \<and> j - i < length ts \<and> c = ts ! (j - i)"
proof (induction dim ag tgt bias i p pos g ts ss rule: seek_children.induct)
  case (1 dim ag tgt bias i p pos g t ts s ss)
  show ?case
  proof (cases "passes tgt bias (dim_add dim pos s)")
    case True
    with 1 obtain g1 where "agg_push_tree ag g t s = Some g1" by (auto simp: Let_def bind_eq_Some_conv)
    with 1 True have "Suc i \<le> j \<and> j - Suc i < length ts \<and> c = ts ! (j - Suc i)" by (auto simp: Let_def)
    then show ?thesis by (auto simp: Suc_diff_Suc nth_Cons' less_Suc_eq_le)
  next
    case False
    with 1 show ?thesis by (auto simp: Let_def)
  qed
qed auto

function seek_loop :: "('a, 's) item_ops \<Rightarrow> ('s, 'd) dim_ops \<Rightarrow> ('a, 's, 'g) agg_ops \<Rightarrow> 'd seek_target \<Rightarrow> bias \<Rightarrow>
    ('a, 's, 'd) stack_entry list \<Rightarrow> 'd \<Rightarrow> 'g \<Rightarrow> bool \<Rightarrow> (('a, 's, 'd) stack_entry list \<times> 'd \<times> 'g) panics" where
  "seek_loop ops dim ag tgt bias [] pos g ascending = Some ([], pos, g)"
| "seek_loop ops dim ag tgt bias (e # es) pos g ascending =
     (case se_tree e of
        Internal h s cs ts \<Rightarrow>
          (let i0 = if ascending then Suc (se_index e) else se_index e;
               p0 = if ascending then pos else se_position e in
           if length ts < i0 \<or> length cs < i0 then None
           else case seek_children dim ag tgt bias i0 p0 pos g (drop i0 ts) (drop i0 cs) of
             None \<Rightarrow> None
           | Some (i, p, pos', g', Some child_tree) \<Rightarrow>
               (let rest = \<lparr>se_tree = se_tree e, se_index = i, se_position = p\<rparr> # es in
                if can_push ops rest
                then seek_loop ops dim ag tgt bias (\<lparr>se_tree = child_tree, se_index = 0, se_position = pos'\<rparr> # rest) pos' g' False
                else None)
           | Some (i, p, pos', g', None) \<Rightarrow> seek_loop ops dim ag tgt bias es pos' g' True)
      | Leaf s its ss \<Rightarrow>
          (if length its < se_index e \<or> length ss < se_index e then None
           else case seek_items dim ag tgt bias (se_index e) pos (agg_begin_leaf ag g) (drop (se_index e) its) (drop (se_index e) ss) of
             None \<Rightarrow> None
           | Some (i, pos', g', stopped) \<Rightarrow>
               (case agg_end_leaf ag g' of
                  None \<Rightarrow> None
                | Some g'' \<Rightarrow>
                    if stopped then Some (\<lparr>se_tree = se_tree e, se_index = i, se_position = se_position e\<rparr> # es, pos', g'')
                    else seek_loop ops dim ag tgt bias es pos' g'' True)))"
  by pat_completeness auto
termination
proof (relation "measure (\<lambda>(ops, dim, ag, tgt, bias, st, pos, g, ascending). stack_work_right ascending st)", goal_cases)
  case (2 ops dim ag tgt bias e es)
  then show ?case using work_pop [of es] by (auto simp: work_top)
next
  case (3 ops dim ag tgt bias e es pos g ascending h s cs ts i0 p0 r i y p ya pos' yb g' yc child)
  then have "i0 \<le> i \<and> i - i0 < length (drop i0 ts) \<and> child = drop i0 ts ! (i - i0)"
    using seek_children_child [of dim ag tgt bias i0 p0 pos g "drop i0 ts" "drop i0 cs" i p pos' g' child] by simp
  then have "i0 \<le> i" "i < length ts" "child = ts ! i" by auto
  then show ?case using 3 work_descend [of i0 i "se_tree e" child pos' p es] by (auto simp: work_top split: if_splits)
next
  case (4 ops dim ag tgt bias e es)
  then show ?case using work_pop [of es] by (auto simp: work_top)
qed auto

declare seek_loop.simps(2) [simp del]

definition seek_internal :: "('a, 's) item_ops \<Rightarrow> ('s, 'd) dim_ops \<Rightarrow> ('a, 's, 'g) agg_ops \<Rightarrow> 'd seek_target \<Rightarrow> bias \<Rightarrow>
    ('a, 's, 'd) cursor \<Rightarrow> 'g \<Rightarrow> (bool \<times> ('a, 's, 'd) cursor \<times> 'g) panics" where
  "seek_internal ops dim ag tgt bias c g =
     (if tgt (cur_position c) = Less then None
      else do {
        c1 \<leftarrow> (if did_seek c then Some c
               else do {
                 st \<leftarrow> stack_push ops (cur_stack c) \<lparr>se_tree = cur_tree c, se_index = 0, se_position = dim_zero dim\<rparr>;
                 Some (c\<lparr>did_seek := True, cur_stack := st\<rparr>)
               });
        (st, pos, g') \<leftarrow> seek_loop ops dim ag tgt bias (cur_stack c1) (cur_position c1) g False;
        let c2 = c1\<lparr>cur_stack := st, cur_position := pos, at_end := (st = [])\<rparr>;
        end_pos \<leftarrow> (if bias = Left then do {
                   r \<leftarrow> cursor_item_summary c2;
                   Some (case r of Some s \<Rightarrow> dim_add dim pos s | None \<Rightarrow> pos)
                 } else Some pos);
        Some (tgt end_pos = Equal, c2, g')
      })"

definition seek :: "('a, 's) item_ops \<Rightarrow> ('s, 'd) dim_ops \<Rightarrow> 'd seek_target \<Rightarrow> bias \<Rightarrow> ('a, 's, 'd) cursor \<Rightarrow>
    (bool \<times> ('a, 's, 'd) cursor) panics" where
  "seek ops dim tgt bias c = do {
     (found, c', _) \<leftarrow> seek_internal ops dim unit_agg tgt bias (reset dim c) ();
     Some (found, c')
   }"

definition seek_forward :: "('a, 's) item_ops \<Rightarrow> ('s, 'd) dim_ops \<Rightarrow> 'd seek_target \<Rightarrow> bias \<Rightarrow> ('a, 's, 'd) cursor \<Rightarrow>
    (bool \<times> ('a, 's, 'd) cursor) panics" where
  "seek_forward ops dim tgt bias c = do {
     (found, c', _) \<leftarrow> seek_internal ops dim unit_agg tgt bias c ();
     Some (found, c')
   }"

definition slice :: "('a, 's) item_ops \<Rightarrow> ('s, 'd) dim_ops \<Rightarrow> 'd seek_target \<Rightarrow> bias \<Rightarrow> ('a, 's, 'd) cursor \<Rightarrow>
    (('a, 's) sum_tree \<times> ('a, 's, 'd) cursor) panics" where
  "slice ops dim tgt bias c = do {
     (_, c', g) \<leftarrow> seek_internal ops dim (slice_agg ops) tgt bias c
        \<lparr>sl_tree = new ops, sl_leaf_items = [], sl_leaf_item_summaries = [], sl_leaf_summary = summary_zero ops\<rparr>;
     Some (sl_tree g, c')
   }"

text \<open>The target \<open>End\<close> is behind every position.\<close>

definition end_target :: "'d seek_target" where
  "end_target d = Greater"

definition suffix :: "('a, 's) item_ops \<Rightarrow> ('s, 'd) dim_ops \<Rightarrow> ('a, 's, 'd) cursor \<Rightarrow> (('a, 's) sum_tree \<times> ('a, 's, 'd) cursor) panics" where
  "suffix ops dim c = slice ops dim end_target Right c"

definition cursor_summary :: "('a, 's) item_ops \<Rightarrow> ('s, 'd) dim_ops \<Rightarrow> ('s, 'o) dim_ops \<Rightarrow> 'd seek_target \<Rightarrow> bias \<Rightarrow> ('a, 's, 'd) cursor \<Rightarrow>
    ('o \<times> ('a, 's, 'd) cursor) panics" where
  "cursor_summary ops dim out tgt bias c = do {
     (_, c', g) \<leftarrow> seek_internal ops dim (summary_agg out) tgt bias c (dim_zero out);
     Some (g, c')
   }"

section \<open>Reference: where a seek stops\<close>

text \<open>The first index from \<open>n\<close> on whose item ends behind the target.\<close>

definition seek_stop :: "('a, 's) item_ops \<Rightarrow> ('s, 'd) dim_ops \<Rightarrow> 'd seek_target \<Rightarrow> bias \<Rightarrow> ('a, 's) sum_tree \<Rightarrow> nat \<Rightarrow> nat" where
  "seek_stop ops dim tgt bias t n =
     n + length (takeWhile (\<lambda>k. passes tgt bias (pos_at ops dim t (Suc k))) [n..<length (tree_items t)])"

lemma passes_in_child: "passes tgt bias d \<longleftrightarrow> \<not> target_in_child tgt bias d"
  by (cases "tgt d"; cases bias) (simp_all add: passes_def target_in_child_def)

lemma seek_stop_le: "n \<le> length (tree_items t) \<Longrightarrow> seek_stop ops dim tgt bias t n \<le> length (tree_items t)"
  using length_takeWhile_le [of "\<lambda>k. passes tgt bias (pos_at ops dim t (Suc k))" "[n..<length (tree_items t)]"]
  by (simp add: seek_stop_def)

lemma seek_stop_ge: "n \<le> seek_stop ops dim tgt bias t n"
  by (simp add: seek_stop_def)

lemma seek_stop_end [simp]: "seek_stop ops dim tgt bias t (length (tree_items t)) = length (tree_items t)"
  by (simp add: seek_stop_def)

lemma seek_stop_here:
  "n < length (tree_items t) \<Longrightarrow> \<not> passes tgt bias (pos_at ops dim t (Suc n)) \<Longrightarrow> seek_stop ops dim tgt bias t n = n"
  by (simp add: seek_stop_def upt_rec)

lemma seek_stop_skip:
  assumes "n \<le> m" and "m \<le> length (tree_items t)" and "\<forall>k \<in> {n..<m}. passes tgt bias (pos_at ops dim t (Suc k))"
  shows "seek_stop ops dim tgt bias t n = seek_stop ops dim tgt bias t m"
proof -
  have "[n..<length (tree_items t)] = [n..<m] @ [m..<length (tree_items t)]"
    using assms(1,2) upt_add_eq_append [of n m "length (tree_items t) - m"] by simp
  moreover have "takeWhile (\<lambda>k. passes tgt bias (pos_at ops dim t (Suc k))) ([n..<m] @ ys) =
      [n..<m] @ takeWhile (\<lambda>k. passes tgt bias (pos_at ops dim t (Suc k))) ys" for ys
    by (rule takeWhile_append2) (use assms(3) in simp)
  ultimately show ?thesis using assms(1) by (simp add: seek_stop_def)
qed

lemma seek_stop_pass:
  assumes "mono_along ops dim (target_in_child tgt bias) (dim_zero dim) (tree_items t)"
    and "n \<le> m" and "m \<le> length (tree_items t)" and "passes tgt bias (pos_at ops dim t m)"
  shows "seek_stop ops dim tgt bias t n = seek_stop ops dim tgt bias t m"
proof (rule seek_stop_skip [OF assms(2,3)], rule ballI, rule ccontr)
  fix k assume k: "k \<in> {n..<m}" "\<not> passes tgt bias (pos_at ops dim t (Suc k))"
  then have "target_in_child tgt bias (pos_at ops dim t m)"
    using assms(1) [unfolded mono_along_def, rule_format, of m "Suc k"] assms(3) by (simp add: passes_in_child pos_at_def)
  with assms(4) show False by (simp add: passes_in_child)
qed

text \<open>The state of the seek loop: the items \<open>xs\<close> are passed. When ascending, the child the top entry
  points to is finished; otherwise the top entry is a node just entered, or the leaf the cursor stood in.\<close>

definition seek_state :: "('a, 's) item_ops \<Rightarrow> ('s, 'd) dim_ops \<Rightarrow> ('a, 's) sum_tree \<Rightarrow> ('a, 's, 'd) stack_entry list \<Rightarrow> 'd \<Rightarrow> bool \<Rightarrow> 'a list \<Rightarrow> bool" where
  "seek_state ops dim t st pos ascending xs \<longleftrightarrow>
     pos = pos_after ops dim (dim_zero dim) xs \<and>
     (case st of
        [] \<Rightarrow> xs = tree_items t
      | e # es \<Rightarrow>
          if ascending then (\<exists>u. linked ops dim t (e # es) u \<and> xs = before (e # es) @ tree_items u)
          else linked ops dim t es (se_tree e) \<and> xs = before (e # es) \<and>
            (if is_leaf (se_tree e) then se_index e \<le> length (tree_items (se_tree e))
             else se_index e = 0 \<and> se_position e = pos))"

lemma linked_leaf_root: "is_leaf t \<Longrightarrow> linked ops dim t es u \<Longrightarrow> es = [] \<and> u = t"
proof (induction es arbitrary: u)
  case (Cons e es)
  then have "se_tree e = t" by simp
  with Cons.prems show ?case by (cases t) auto
qed simp

text \<open>What a leaf on the stack looks like, also the one of an empty tree.\<close>

lemma linked_leaf:
  assumes "wf_tree ops b t" and "linked ops dim t es (Leaf s its ss)"
  shows "ss = map (item_summary ops) its \<and> length its \<le> CAP"
proof (cases "t = new ops")
  case True
  then show ?thesis using linked_leaf_root [OF _ assms(2)] by (simp add: new_def)
next
  case False
  with assms(1) have "wf_node ops b (root_min t) t" by (simp add: wf_tree_def)
  from linked_wf [OF assms(2) this] show ?thesis by auto
qed

lemma seek_state_pop:
  assumes "linked ops dim t es u" and "xs = before es @ tree_items u" and "pos = pos_after ops dim (dim_zero dim) xs"
  shows "seek_state ops dim t es pos True xs"
  using assms by (cases es) (auto simp: seek_state_def simp del: before.simps(2))

section \<open>The contract of an aggregate\<close>

text \<open>\<open>limit b\<close> is the number of items a tree with density threshold \<open>b\<close> can take without outgrowing
  its \<open>u8\<close> height.\<close>

definition limit :: "nat \<Rightarrow> nat" where
  "limit b = (if b < 256 then max_items 256 b else 0)"

text \<open>What a seek from index \<open>n\<close> reaches, when \<open>rep\<close> relates the aggregate to the items it has collected: of
  the loop, and of \<open>seek_internal\<close>.\<close>

definition reached :: "('a, 's) item_ops \<Rightarrow> ('s, 'd) dim_ops \<Rightarrow> ('g \<Rightarrow> 'a list \<Rightarrow> bool) \<Rightarrow> ('a, 's) sum_tree \<Rightarrow> 'd seek_target \<Rightarrow> bias \<Rightarrow>
    nat \<Rightarrow> 'a list \<Rightarrow> ('a, 's, 'd) stack_entry list \<times> 'd \<times> 'g \<Rightarrow> bool" where
  "reached ops dim rep t tgt bias n acc r \<longleftrightarrow>
     (case r of (st, pos, g) \<Rightarrow>
        let m = seek_stop ops dim tgt bias t n in
        pos = pos_at ops dim t m \<and> rep g (acc @ take (m - n) (drop n (tree_items t))) \<and>
        (if m < length (tree_items t) then at_index ops dim t m st else st = []))"

definition sought :: "('a, 's) item_ops \<Rightarrow> ('s, 'd) dim_ops \<Rightarrow> ('g \<Rightarrow> 'a list \<Rightarrow> bool) \<Rightarrow> ('a, 's) sum_tree \<Rightarrow> 'd seek_target \<Rightarrow> bias \<Rightarrow>
    nat \<Rightarrow> 'a list \<Rightarrow> bool \<times> ('a, 's, 'd) cursor \<times> 'g \<Rightarrow> bool" where
  "sought ops dim rep t tgt bias n acc r \<longleftrightarrow>
     (case r of (found, c, g) \<Rightarrow>
        let m = seek_stop ops dim tgt bias t n in
        cursor_at ops dim t m c \<and> rep g (acc @ take (m - n) (drop n (tree_items t))) \<and>
        found = (tgt (pos_at ops dim t (if bias = Left then min (Suc m) (length (tree_items t)) else m)) = Equal))"

text \<open>
  \<open>rep b g xs\<close>: between leaves the aggregate \<open>g\<close> has collected \<open>xs\<close>. \<open>pend b g xs ys\<close>: inside a leaf it has
  collected \<open>xs\<close> before the leaf and \<open>ys\<close> of it.
\<close>

locale seek_aggregate = dimension_laws ops dim for ops :: "('a, 's) item_ops" and dim :: "('s, 'd) dim_ops" +
  fixes ag :: "('a, 's, 'g) agg_ops"
    and rep :: "nat \<Rightarrow> 'g \<Rightarrow> 'a list \<Rightarrow> bool"
    and pend :: "nat \<Rightarrow> 'g \<Rightarrow> 'a list \<Rightarrow> 'a list \<Rightarrow> bool"
  assumes begin_leaf: "rep b g xs \<Longrightarrow> pend b (agg_begin_leaf ag g) xs []"
    and push_item: "pend b g xs ys \<Longrightarrow> length ys < CAP \<Longrightarrow>
      no_panic (agg_push_item ag g x (item_summary ops x)) (\<lambda>g'. pend b g' xs (ys @ [x]))"
    and end_leaf: "pend b g xs ys \<Longrightarrow> length ys \<le> CAP \<Longrightarrow> length (xs @ ys) < limit b \<Longrightarrow>
      no_panic (agg_end_leaf ag g) (\<lambda>g'. rep b g' (xs @ ys))"
    and push_tree: "rep b g xs \<Longrightarrow> wf_node ops b TREE_BASE t \<Longrightarrow> length (xs @ tree_items t) < limit b \<Longrightarrow>
      no_panic (agg_push_tree ag g t (node_summary t)) (\<lambda>g'. rep b g' (xs @ tree_items t))"
begin

text \<open>Moving the start of the seek over a passed segment.\<close>

lemma reached_shift:
  assumes "seek_stop ops dim tgt bias t (length xs) = seek_stop ops dim tgt bias t (length (xs @ ys))"
    and "tree_items t = xs @ ys @ zs"
  shows "reached ops dim (rep b) t tgt bias (length (xs @ ys)) (acc @ ys) = reached ops dim (rep b) t tgt bias (length xs) acc"
proof -
  define m where "m = seek_stop ops dim tgt bias t (length xs)"
  have stop: "seek_stop ops dim tgt bias t (length xs) = m" "seek_stop ops dim tgt bias t (length (xs @ ys)) = m"
    using assms(1) by (simp_all add: m_def)
  have "length (xs @ ys) \<le> m" using seek_stop_ge [of "length (xs @ ys)" ops dim tgt bias t] stop(2) by simp
  then have "take (m - length xs) (ys @ zs) = ys @ take (m - length (xs @ ys)) zs" by simp
  then show ?thesis unfolding reached_def [abs_def] stop Let_def by (simp add: assms(2))
qed

lemma seek_children_ok:
  assumes "mono_along ops dim (target_in_child tgt bias) (dim_zero dim) (tree_items t)"
  shows "kids_ok ops b h us \<Longrightarrow> tree_items t = xs @ forest_items us @ zs \<Longrightarrow> pos = pos_after ops dim (dim_zero dim) xs \<Longrightarrow>
    rep b g acc \<Longrightarrow> length acc + length (forest_items us) < limit b \<Longrightarrow>
    \<exists>k g'. k \<le> length us \<and>
      seek_children dim ag tgt bias i pos pos g us (map node_summary us) =
        Some (i + k, pos_after ops dim (dim_zero dim) (xs @ forest_items (take k us)),
              pos_after ops dim (dim_zero dim) (xs @ forest_items (take k us)), g', if k < length us then Some (us ! k) else None) \<and>
      rep b g' (acc @ forest_items (take k us)) \<and>
      seek_stop ops dim tgt bias t (length xs) = seek_stop ops dim tgt bias t (length (xs @ forest_items (take k us)))"
proof (induction us arbitrary: xs pos g acc i)
  case (Cons u us)
  have u: "wf_node ops b TREE_BASE u" using Cons.prems(1) by simp
  let ?xs = "xs @ tree_items u"
  have ce: "dim_add dim pos (node_summary u) = pos_after ops dim (dim_zero dim) ?xs"
    using child_end [OF u, of pos] Cons.prems(3) by (simp add: with_added_summary_def)
  note ce' = ce [unfolded Cons.prems(3)]
  have at: "pos_at ops dim t (length ?xs) = pos_after ops dim (dim_zero dim) ?xs"
    by (rule pos_at_prefix) (use Cons.prems(2) in simp)
  show ?case
  proof (cases "passes tgt bias (pos_after ops dim (dim_zero dim) ?xs)")
    case True
    obtain g1 where g1: "agg_push_tree ag g u (node_summary u) = Some g1" "rep b g1 (acc @ tree_items u)"
      using push_tree [OF Cons.prems(4) u] Cons.prems(5) by (auto simp: no_panic_def)
    have stop: "seek_stop ops dim tgt bias t (length xs) = seek_stop ops dim tgt bias t (length ?xs)"
      by (rule seek_stop_pass [OF assms]) (use True at Cons.prems(2) in simp_all)
    from Cons.IH [of ?xs _ g1 "acc @ tree_items u" "Suc i"] Cons.prems g1(2)
    obtain k g' where k: "k \<le> length us"
      "seek_children dim ag tgt bias (Suc i) (pos_after ops dim (dim_zero dim) ?xs) (pos_after ops dim (dim_zero dim) ?xs) g1 us (map node_summary us) =
        Some (Suc i + k, pos_after ops dim (dim_zero dim) (?xs @ forest_items (take k us)),
              pos_after ops dim (dim_zero dim) (?xs @ forest_items (take k us)), g', if k < length us then Some (us ! k) else None)"
      "rep b g' ((acc @ tree_items u) @ forest_items (take k us))"
      "seek_stop ops dim tgt bias t (length ?xs) = seek_stop ops dim tgt bias t (length (?xs @ forest_items (take k us)))"
      by auto
    show ?thesis
      by (rule exI [of _ "Suc k"], rule exI [of _ g']) (use k g1(1) True stop in \<open>simp add: ce add.assoc Let_def\<close>)
  next
    case False
    then show ?thesis using Cons.prems(3,4)
      by (intro exI [of _ 0] exI [of _ g]) (simp add: ce' Let_def)
  qed
qed simp

lemma seek_items_ok:
  assumes "mono_along ops dim (target_in_child tgt bias) (dim_zero dim) (tree_items t)"
  shows "tree_items t = xs @ us @ zs \<Longrightarrow> pos = pos_after ops dim (dim_zero dim) xs \<Longrightarrow>
    pend b g acc ws \<Longrightarrow> length ws + length us \<le> CAP \<Longrightarrow>
    \<exists>k g'. k \<le> length us \<and>
      seek_items dim ag tgt bias i pos g us (map (item_summary ops) us) =
        Some (i + k, pos_after ops dim (dim_zero dim) (xs @ take k us), g', k < length us) \<and>
      pend b g' acc (ws @ take k us) \<and>
      seek_stop ops dim tgt bias t (length xs) = seek_stop ops dim tgt bias t (length (xs @ take k us)) \<and>
      (k < length us \<longrightarrow> \<not> passes tgt bias (pos_at ops dim t (Suc (length xs + k))))"
proof (induction us arbitrary: xs pos g ws i)
  case (Cons u us)
  let ?xs = "xs @ [u]"
  have ce: "dim_add dim pos (item_summary ops u) = pos_after ops dim (dim_zero dim) ?xs" using Cons.prems(2) by simp
  have at: "pos_at ops dim t (length ?xs) = pos_after ops dim (dim_zero dim) ?xs"
    by (rule pos_at_prefix) (use Cons.prems(1) in simp)
  show ?case
  proof (cases "passes tgt bias (pos_after ops dim (dim_zero dim) ?xs)")
    case True
    obtain g1 where g1: "agg_push_item ag g u (item_summary ops u) = Some g1" "pend b g1 acc (ws @ [u])"
      using push_item [OF Cons.prems(3)] Cons.prems(4) by (auto simp: no_panic_def)
    have stop: "seek_stop ops dim tgt bias t (length xs) = seek_stop ops dim tgt bias t (length ?xs)"
      by (rule seek_stop_pass [OF assms]) (use True at Cons.prems(1) in simp_all)
    from Cons.IH [of ?xs _ g1 "ws @ [u]" "Suc i"] Cons.prems g1(2)
    obtain k g' where k: "k \<le> length us"
      "seek_items dim ag tgt bias (Suc i) (pos_after ops dim (dim_zero dim) ?xs) g1 us (map (item_summary ops) us) =
        Some (Suc i + k, pos_after ops dim (dim_zero dim) (?xs @ take k us), g', k < length us)"
      "pend b g' acc ((ws @ [u]) @ take k us)"
      "seek_stop ops dim tgt bias t (length ?xs) = seek_stop ops dim tgt bias t (length (?xs @ take k us))"
      "k < length us \<longrightarrow> \<not> passes tgt bias (pos_at ops dim t (Suc (length ?xs + k)))"
      by auto
    show ?thesis
      by (rule exI [of _ "Suc k"], rule exI [of _ g']) (use k g1(1) True stop in \<open>simp add: ce Let_def\<close>)
  next
    case False
    then show ?thesis using Cons.prems(2,3) at
      by (intro exI [of _ 0] exI [of _ g]) (simp add: ce Let_def)
  qed
qed simp

text \<open>One visit of a leaf.\<close>

lemma seek_leaf:
  assumes "mono_along ops dim (target_in_child tgt bias) (dim_zero dim) (tree_items t)"
    and "linked ops dim t es (Leaf s its ss)" and "ss = map (item_summary ops) its \<and> length its \<le> CAP" and "j \<le> length its"
    and "xs = before es @ take j its" and "rep b g acc" and "length acc + length (drop j its) < limit b"
  obtains i g1 g2 where "i \<le> length its"
    and "seek_items dim ag tgt bias j (pos_after ops dim (dim_zero dim) xs) (agg_begin_leaf ag g) (drop j its) (drop j ss) =
      Some (i, pos_after ops dim (dim_zero dim) (before es @ take i its), g1, i < length its)"
    and "agg_end_leaf ag g1 = Some g2" and "rep b g2 (acc @ take (i - j) (drop j its))"
    and "seek_stop ops dim tgt bias t (length xs) = seek_stop ops dim tgt bias t (length (before es @ take i its))"
    and "before es @ take i its = xs @ take (i - j) (drop j its)"
    and "i < length its \<longrightarrow> \<not> passes tgt bias (pos_at ops dim t (Suc (length (before es @ take i its))))"
proof -
  obtain zs where zs: "tree_items t = before es @ its @ zs" using linked_items [OF assms(2)] by auto
  have t: "tree_items t = xs @ drop j its @ zs" using zs assms(5) append_take_drop_id [of j its] by (metis append.assoc)
  have ss: "drop j ss = map (item_summary ops) (drop j its)" "length its \<le> CAP" using assms(3) by (simp_all add: drop_map)
  have "length ([] :: 'a list) + length (drop j its) \<le> CAP" using ss(2) by simp
  from seek_items_ok [OF assms(1) t refl begin_leaf [OF assms(6)] this, of j]
  obtain k g1 where k: "k \<le> length (drop j its)"
    "seek_items dim ag tgt bias j (pos_after ops dim (dim_zero dim) xs) (agg_begin_leaf ag g) (drop j its) (drop j ss) =
      Some (j + k, pos_after ops dim (dim_zero dim) (xs @ take k (drop j its)), g1, k < length (drop j its))"
    "pend b g1 acc (take k (drop j its))"
    "seek_stop ops dim tgt bias t (length xs) = seek_stop ops dim tgt bias t (length (xs @ take k (drop j its)))"
    "k < length (drop j its) \<Longrightarrow> \<not> passes tgt bias (pos_at ops dim t (Suc (length xs + k)))"
    unfolding ss(1) append_Nil by blast
  obtain g2 where g2: "agg_end_leaf ag g1 = Some g2" "rep b g2 (acc @ take k (drop j its))"
  proof -
    have "length (take k (drop j its)) \<le> CAP" using ss(2) by simp
    moreover have "length (acc @ take k (drop j its)) < limit b" using assms(7) by simp
    ultimately show ?thesis using end_leaf [OF k(3)] that by (auto simp: no_panic_def)
  qed
  have eq: "before es @ take (j + k) its = xs @ take k (drop j its)" using assms(5) by (simp add: take_add)
  show ?thesis
    by (rule that [of "j + k" g1 g2]) (use k g2 eq assms(4) in \<open>auto simp: less_diff_conv add.commute\<close>)
qed

lemma seek_loop_ok:
  assumes "wf_tree ops b t" and "node_height t < STACK_CAP"
    and "mono_along ops dim (target_in_child tgt bias) (dim_zero dim) (tree_items t)"
    and "seek_state ops dim t st pos ascending xs" and "rep b g acc"
    and "length acc + length (tree_items t) < limit b + length xs"
  shows "no_panic (seek_loop ops dim ag tgt bias st pos g ascending) (reached ops dim (rep b) t tgt bias (length xs) acc)"
  using assms(4-)
proof (induction "stack_work_right ascending st" arbitrary: ascending st pos xs g acc rule: less_induct)
  case less
  show ?case
  proof (cases st)
    case Nil
    with less.prems show ?thesis by (simp add: seek_state_def reached_def pos_at_def)
  next
    case (Cons e es)
    have st: "linked ops dim t es (se_tree e)" and pos: "pos = pos_after ops dim (dim_zero dim) xs"
      using less.prems(1) Cons by (auto simp: seek_state_def split: if_splits)
    obtain zs where zs: "tree_items t = before es @ tree_items (se_tree e) @ zs" using linked_items [OF st] by blast
    have pop: "no_panic (seek_loop ops dim ag tgt bias es pos' g' True) (reached ops dim (rep b) t tgt bias (length xs') acc')"
      if "xs' = before es @ tree_items (se_tree e)" "pos' = pos_after ops dim (dim_zero dim) xs'" "rep b g' acc'"
        "length acc' + length (tree_items t) < limit b + length xs'" for xs' pos' g' acc'
      using less.hyps [of True es pos' xs' g' acc'] seek_state_pop [OF st that(1,2)] that(3,4) work_pop [of es] Cons by (simp add: work_top)
    show ?thesis
    proof (cases "se_tree e")
      case (Leaf s its ss)
      note leaf = linked_leaf [OF assms(1) st [unfolded Leaf]]
      have d: "\<not> ascending" "se_index e \<le> length its" "xs = before es @ take (se_index e) its"
        using less.prems(1) Cons Leaf by (auto simp: seek_state_def left_of_def split: if_splits)
      have "length acc + length (drop (se_index e) its) < limit b"
        using less.prems(3) zs Leaf d by simp
      from assms(3) st [unfolded Leaf] leaf d(2,3) less.prems(2) this
      obtain i g1 g2 where i: "i \<le> length its"
        "seek_items dim ag tgt bias (se_index e) (pos_after ops dim (dim_zero dim) xs) (agg_begin_leaf ag g) (drop (se_index e) its) (drop (se_index e) ss) =
          Some (i, pos_after ops dim (dim_zero dim) (before es @ take i its), g1, i < length its)"
        "agg_end_leaf ag g1 = Some g2" "rep b g2 (acc @ take (i - se_index e) (drop (se_index e) its))"
        "seek_stop ops dim tgt bias t (length xs) = seek_stop ops dim tgt bias t (length (before es @ take i its))"
        "before es @ take i its = xs @ take (i - se_index e) (drop (se_index e) its)"
        "i < length its \<longrightarrow> \<not> passes tgt bias (pos_at ops dim t (Suc (length (before es @ take i its))))"
        by (rule seek_leaf)
      let ?ys = "take (i - se_index e) (drop (se_index e) its)"
      have t: "tree_items t = xs @ ?ys @ (drop i its @ zs)"
        using zs Leaf i(6) append_take_drop_id [of i its] by (metis append.assoc tree_items.simps(1))
      have shift: "reached ops dim (rep b) t tgt bias (length xs) acc = reached ops dim (rep b) t tgt bias (length (before es @ take i its)) (acc @ ?ys)"
        using reached_shift [OF i(5) [unfolded i(6)] t] unfolding i(6) by simp
      show ?thesis
      proof (cases "i < length its")
        case True
        let ?m = "length (before es @ take i its)"
        have m: "?m < length (tree_items t)" using zs Leaf True by simp
        have "seek_stop ops dim tgt bias t ?m = ?m" by (rule seek_stop_here [OF m]) (use i(7) True in simp)
        moreover have "pos_at ops dim t ?m = pos_after ops dim (dim_zero dim) (before es @ take i its)"
          by (rule pos_at_prefix [of _ _ "drop i its @ zs"]) (use t i(6) in simp)
        ultimately have "reached ops dim (rep b) t tgt bias ?m (acc @ ?ys)
          (\<lparr>se_tree = se_tree e, se_index = i, se_position = se_position e\<rparr> # es, pos_after ops dim (dim_zero dim) (before es @ take i its), g2)"
          using m i(4) st True Leaf unfolding reached_def by (simp add: Let_def at_index_def left_of_def)
        with i(1,2,3) True d leaf Leaf show ?thesis
          unfolding Cons shift pos by (simp add: seek_loop.simps(2) [of ops dim ag tgt bias e es])
      next
        case False
        with i(1) have all: "i = length its" by simp
        have "no_panic (seek_loop ops dim ag tgt bias es (pos_after ops dim (dim_zero dim) (before es @ take i its)) g2 True)
            (reached ops dim (rep b) t tgt bias (length (before es @ take i its)) (acc @ ?ys))"
          by (rule pop) (use all Leaf i(4) less.prems(3) i(6) in \<open>simp_all add: algebra_simps\<close>)
        with i(2,3) d leaf Leaf False show ?thesis
          unfolding Cons shift pos by (simp add: seek_loop.simps(2) [of ops dim ag tgt bias e es])
      qed
    next
      case (Internal h s cs ts)
      then have "t \<noteq> new ops" using linked_leaf_root [OF _ st] by (auto simp: new_def)
      with assms(1) have wf: "wf_node ops b (root_min t) t" by (simp add: wf_tree_def)
      obtain k where "wf_node ops b k (se_tree e)" using linked_wf [OF st wf] by blast
      with Internal have ts: "kids_ok ops b h ts" "cs = map node_summary ts" by (simp_all add: kids_ok_def)
      define i0 where "i0 = (if ascending then Suc (se_index e) else se_index e)"
      have i0: "i0 \<le> length ts" "xs = before es @ forest_items (take i0 ts)" "(if ascending then pos else se_position e) = pos"
        using less.prems(1) Cons Internal
        by (auto simp: i0_def seek_state_def left_of_def take_Suc_conv_app_nth split: if_splits)
      have kids: "kids_ok ops b h (drop i0 ts)" by (rule kids_ok_sub [OF ts(1)]) (auto dest: in_set_dropD)
      have t: "tree_items t = xs @ forest_items (drop i0 ts) @ zs"
        using zs Internal i0(2) append_take_drop_id [of i0 ts] by (metis append.assoc concat_append map_append tree_items.simps(2))
      have "length acc + length (forest_items (drop i0 ts)) < limit b" using less.prems(3) t by simp
      from seek_children_ok [OF assms(3) kids t pos less.prems(2) this, of i0]
      obtain j g' where j: "j \<le> length (drop i0 ts)"
        "seek_children dim ag tgt bias i0 pos pos g (drop i0 ts) (map node_summary (drop i0 ts)) =
          Some (i0 + j, pos_after ops dim (dim_zero dim) (xs @ forest_items (take j (drop i0 ts))),
            pos_after ops dim (dim_zero dim) (xs @ forest_items (take j (drop i0 ts))), g', if j < length (drop i0 ts) then Some (drop i0 ts ! j) else None)"
        "rep b g' (acc @ forest_items (take j (drop i0 ts)))"
        "seek_stop ops dim tgt bias t (length xs) = seek_stop ops dim tgt bias t (length (xs @ forest_items (take j (drop i0 ts))))"
        by blast
      let ?ys = "forest_items (take j (drop i0 ts))" and ?i = "i0 + j"
      let ?p = "pos_after ops dim (dim_zero dim) (xs @ ?ys)"
      let ?e = "\<lparr>se_tree = se_tree e, se_index = ?i, se_position = ?p\<rparr>"
      have xs': "xs @ ?ys = before es @ forest_items (take ?i ts)" using i0(2) by (simp add: take_add)
      have "forest_items (drop i0 ts) = ?ys @ forest_items (drop j (drop i0 ts))"
        by (metis append_take_drop_id concat_append map_append)
      then have "tree_items t = xs @ ?ys @ (forest_items (drop j (drop i0 ts)) @ zs)" using t by simp
      note shift = reached_shift [OF j(4) this, of b acc, symmetric]
      have bound: "length (acc @ ?ys) + length (tree_items t) < limit b + length (xs @ ?ys)" using less.prems(3) by simp
      have drops: "drop i0 cs = map node_summary (drop i0 ts)" "\<not> (length ts < i0 \<or> length cs < i0)"
        using ts(2) i0(1) by (simp_all add: drop_map)
      show ?thesis
      proof (cases "?i < length ts")
        case True
        let ?u = "\<lparr>se_tree = ts ! ?i, se_index = 0, se_position = ?p\<rparr>"
        have "linked ops dim t (?e # es) (ts ! ?i)" using st True Internal xs' by (simp add: left_of_def)
        then have "seek_state ops dim t (?u # ?e # es) ?p False (xs @ ?ys)"
          using Internal xs' by (cases "ts ! ?i") (simp_all add: seek_state_def left_of_def)
        moreover have "stack_work_right False (?u # ?e # es) < stack_work_right ascending st"
          using work_descend [of i0 ?i "se_tree e" "ts ! ?i"] True Internal by (auto simp: Cons work_top i0_def)
        ultimately have "no_panic (seek_loop ops dim ag tgt bias (?u # ?e # es) ?p g' False) (reached ops dim (rep b) t tgt bias (length (xs @ ?ys)) (acc @ ?ys))"
          using less.hyps [of False "?u # ?e # es" ?p "xs @ ?ys" g' "acc @ ?ys"] j(3) bound by blast
        moreover have "can_push ops (?e # es)"
          by (rule can_push_linked [OF st wf assms(2)]) (simp add: Internal)
        moreover have "j < length (drop i0 ts)" "drop i0 ts ! j = ts ! ?i" using True i0(1) by auto
        ultimately show ?thesis using j(2) drops
          unfolding Cons shift seek_loop.simps(2) [of ops dim ag tgt bias e es] Internal node.case Let_def
            i0_def [symmetric] i0(3) by simp
      next
        case False
        with j(1) have all: "take ?i ts = ts" "\<not> j < length (drop i0 ts)" by auto
        have "no_panic (seek_loop ops dim ag tgt bias es ?p g' True) (reached ops dim (rep b) t tgt bias (length (xs @ ?ys)) (acc @ ?ys))"
          by (rule pop [OF _ refl j(3) bound]) (use xs' all Internal in simp)
        then show ?thesis using j(2) drops all(2)
          unfolding Cons shift seek_loop.simps(2) [of ops dim ag tgt bias e es] Internal node.case Let_def
            i0_def [symmetric] i0(3) by simp
      qed
    qed
  qed
qed

text \<open>The states from which a seek starts: a fresh cursor (index 0) or a cursor at an index.\<close>

lemma seek_start:
  assumes "wf_tree ops b t" and "cursor_at ops dim t n c \<or> c = cursor_new dim t \<and> n = 0"
  obtains c1 where "(if did_seek c then Some c
      else do {
        st \<leftarrow> stack_push ops (cur_stack c) \<lparr>se_tree = cur_tree c, se_index = 0, se_position = dim_zero dim\<rparr>;
        Some (c\<lparr>did_seek := True, cur_stack := st\<rparr>)
      }) = Some c1" and "cur_tree c1 = t" and "did_seek c1" and "n \<le> length (tree_items t)"
    and "seek_state ops dim t (cur_stack c1) (cur_position c1) False (take n (tree_items t))"
  using assms(2)
proof
  assume at: "cursor_at ops dim t n c"
  have "seek_state ops dim t (cur_stack c) (cur_position c) False (take n (tree_items t))"
  proof (cases "n < length (tree_items t)")
    case True
    with at have st: "at_index ops dim t n (cur_stack c)" "cur_position c = pos_at ops dim t n" by (auto simp: cursor_at_def)
    then obtain e es where e: "cur_stack c = e # es" "is_leaf (se_tree e)" "linked ops dim t es (se_tree e)"
      "se_index e < length (tree_items (se_tree e))" "n = length (before (e # es))"
      by (auto simp: at_index_def split: list.splits)
    obtain zs where "tree_items t = before es @ tree_items (se_tree e) @ zs" using linked_items [OF e(3)] by blast
    with e have "take n (tree_items t) = before (e # es)" by (simp add: left_of_leaf)
    with e st(2) show ?thesis by (simp add: seek_state_def pos_at_def)
  next
    case False
    with at show ?thesis by (simp add: cursor_at_def seek_state_def pos_at_def)
  qed
  with at show ?thesis by (intro that [of c]) (auto simp: cursor_at_def)
next
  assume "c = cursor_new dim t \<and> n = 0"
  then have c: "c = cursor_new dim t" "n = 0" by auto
  have "seek_state ops dim t [\<lparr>se_tree = t, se_index = 0, se_position = dim_zero dim\<rparr>] (dim_zero dim) False []"
    by (cases t) (simp_all add: seek_state_def left_of_def)
  with c show ?thesis
    by (intro that [of "c\<lparr>did_seek := True, cur_stack := [\<lparr>se_tree = t, se_index = 0, se_position = dim_zero dim\<rparr>]\<rparr>"])
       (simp_all add: cursor_new_def stack_push_def can_push_root)
qed

lemma seek_internal_ok:
  assumes "wf_tree ops b t" and "node_height t < STACK_CAP"
    and "target_mono ops dim tgt (dim_zero dim) (tree_items t)"
    and "cursor_at ops dim t n c \<or> c = cursor_new dim t \<and> n = 0" and "tgt (cur_position c) \<noteq> Less"
    and "rep b g acc" and "length acc + length (tree_items t) < limit b + n"
  shows "no_panic (seek_internal ops dim ag tgt bias c g) (sought ops dim (rep b) t tgt bias n acc)"
proof -
  from assms(1,4) obtain c1 where c1: "(if did_seek c then Some c
      else do {
        st \<leftarrow> stack_push ops (cur_stack c) \<lparr>se_tree = cur_tree c, se_index = 0, se_position = dim_zero dim\<rparr>;
        Some (c\<lparr>did_seek := True, cur_stack := st\<rparr>)
      }) = Some c1" "cur_tree c1 = t" "did_seek c1" "n \<le> length (tree_items t)"
    "seek_state ops dim t (cur_stack c1) (cur_position c1) False (take n (tree_items t))"
    by (rule seek_start)
  have n: "length (take n (tree_items t)) = n" using c1(4) by simp
  obtain st pos g' where r: "seek_loop ops dim ag tgt bias (cur_stack c1) (cur_position c1) g False = Some (st, pos, g')"
    "reached ops dim (rep b) t tgt bias n acc (st, pos, g')"
    using seek_loop_ok [OF assms(1,2) target_mono_descent [OF assms(3), of bias] c1(5) assms(6)] assms(7)
    unfolding n by (auto simp: no_panic_def)
  let ?m = "seek_stop ops dim tgt bias t n"
  define c2 where "c2 = c1\<lparr>cur_stack := st, cur_position := pos, at_end := (st = [])\<rparr>"
  have at: "cursor_at ops dim t ?m c2"
    using r(2) c1 seek_stop_le [OF c1(4), of ops dim tgt bias]
    by (auto simp: c2_def reached_def cursor_at_def Let_def at_index_def)
  have pos: "cur_position c2 = pos" "pos = pos_at ops dim t ?m" using r(2) by (simp_all add: c2_def reached_def Let_def)
  have "do { r \<leftarrow> cursor_item_summary c2; Some (case r of Some s \<Rightarrow> dim_add dim pos s | None \<Rightarrow> pos) } =
      Some (pos_at ops dim t (min (Suc ?m) (length (tree_items t))))"
    using cursor_end_ok [OF assms(1) at] by (simp only: cursor_end_def start_def pos(1))
  then have fin: "(if bias = Left then do {
           r \<leftarrow> cursor_item_summary c2;
           Some (case r of Some s \<Rightarrow> dim_add dim pos s | None \<Rightarrow> pos)
         } else Some pos) = Some (pos_at ops dim t (if bias = Left then min (Suc ?m) (length (tree_items t)) else ?m))"
    by (simp only: pos(2) split: if_split) simp
  have "seek_internal ops dim ag tgt bias c g =
      Some (tgt (pos_at ops dim t (if bias = Left then min (Suc ?m) (length (tree_items t)) else ?m)) = Equal, c2, g')"
    unfolding seek_internal_def c1(1)
    by (simp only: assms(5) if_False bind.bind_lunit r(1) prod.case Let_def c2_def [symmetric] fin)
  moreover have "rep b g' (acc @ take (?m - n) (drop n (tree_items t)))" using r(2) by (simp add: reached_def Let_def)
  ultimately show ?thesis using at by (simp add: sought_def Let_def)
qed

end

section \<open>The three aggregates\<close>

sublocale dimension_laws \<subseteq> nothing: seek_aggregate ops dim unit_agg "\<lambda>_ _ _. True" "\<lambda>_ _ _ _. True"
  by unfold_locales (simp_all add: unit_agg_def)

definition slice_rep :: "('a, 's) item_ops \<Rightarrow> nat \<Rightarrow> ('a, 's) slice_seek_aggregate \<Rightarrow> 'a list \<Rightarrow> 'a list \<Rightarrow> bool" where
  "slice_rep ops b g xs ys \<longleftrightarrow> wf_tree ops b (sl_tree g) \<and> tree_items (sl_tree g) = xs \<and>
     sl_leaf_items g = ys \<and> sl_leaf_item_summaries g = map (item_summary ops) ys \<and>
     sl_leaf_summary g = sum_of ops (map (item_summary ops) ys)"

context summary_laws
begin

lemma slice_push_item_ok:
  assumes "slice_rep ops b g xs ys" and "length ys < CAP"
  shows "no_panic (slice_push_item ops g x (item_summary ops x)) (\<lambda>g'. slice_rep ops b g' xs (ys @ [x]))"
  using assms by (simp add: slice_push_item_def slice_rep_def av_simps sum_of_append Suc_le_eq)

lemma slice_end_leaf_ok:
  assumes "slice_rep ops b g xs ys" and "length ys \<le> CAP" and "length (xs @ ys) < limit b"
  shows "no_panic (slice_end_leaf ops g) (\<lambda>g'. slice_rep ops b g' (xs @ ys) [])"
proof -
  let ?l = "Leaf (sl_leaf_summary g) (sl_leaf_items g) (sl_leaf_item_summaries g)"
  have "wf_tree ops b ?l"
    using assms(1,2) wf_tree_leaf [of ys b] by (cases "ys = []") (simp_all add: slice_rep_def wf_tree_def new_def sum_of_def)
  moreover have "tree_items ?l = ys" "wf_tree ops b (sl_tree g)" "tree_items (sl_tree g) = xs" using assms(1) by (simp_all add: slice_rep_def)
  moreover have "length (xs @ ys) < max_items 256 b" "b < 256" using assms(3) by (simp_all add: limit_def split: if_splits)
  ultimately show ?thesis using append_ok [of b "sl_tree g" ?l]
    by (auto simp: slice_end_leaf_def no_panic_def slice_rep_def sum_of_def)
qed

lemma slice_push_tree_ok:
  assumes "slice_rep ops b g xs []" and "wf_node ops b TREE_BASE t" and "length (xs @ tree_items t) < limit b"
  shows "no_panic (slice_push_tree ops g t s) (\<lambda>g'. slice_rep ops b g' (xs @ tree_items t) [])"
proof -
  have "wf_tree ops b t" by (rule wf_tree_nodeI [OF assms(2)]) simp
  moreover have "length (xs @ tree_items t) < max_items 256 b" "b < 256" using assms(3) by (simp_all add: limit_def split: if_splits)
  ultimately show ?thesis using append_ok [of b "sl_tree g" t] assms(1)
    by (auto simp: slice_push_tree_def no_panic_def slice_rep_def)
qed

end

sublocale dimension_laws \<subseteq> slicing: seek_aggregate ops dim "slice_agg ops" "\<lambda>b g xs. slice_rep ops b g xs []" "slice_rep ops"
  by unfold_locales (simp_all add: slice_agg_def slice_push_item_ok slice_end_leaf_ok slice_push_tree_ok)

text \<open>A second dimension, measured over what the first one seeks along.\<close>

locale dimension_pair = dimension_laws ops dim + out: dimension_laws ops out
  for ops :: "('a, 's) item_ops" and dim :: "('s, 'd) dim_ops" and out :: "('s, 'o) dim_ops"

sublocale dimension_pair \<subseteq> measuring: seek_aggregate ops dim "summary_agg out"
    "\<lambda>_ g xs. g = pos_after ops out (dim_zero out) xs" "\<lambda>_ g xs ys. g = pos_after ops out (dim_zero out) (xs @ ys)"
  by unfold_locales (simp_all add: summary_agg_def out.child_end [unfolded with_added_summary_def])

section \<open>Behaviour of the seeking operations\<close>

lemma end_target_mono: "target_mono ops dim end_target d xs"
  by (simp add: target_mono_def mono_along_def end_target_def)

lemma seek_stop_end_target: "n \<le> length (tree_items t) \<Longrightarrow> seek_stop ops dim end_target Right t n = length (tree_items t)"
  by (simp add: seek_stop_def passes_def end_target_def takeWhile_eq_all_conv [THEN iffD2])

text \<open>A seek on an ordered target stops exactly at the boundary: what it passes ends at or before the
  target, the item it stops at ends behind it.\<close>

lemma seek_stop_boundary:
  assumes "n \<le> length (tree_items t)"
  shows "\<forall>k \<in> {n..<seek_stop ops dim tgt bias t n}. passes tgt bias (pos_at ops dim t (Suc k))"
    and "seek_stop ops dim tgt bias t n < length (tree_items t) \<Longrightarrow>
      \<not> passes tgt bias (pos_at ops dim t (Suc (seek_stop ops dim tgt bias t n)))"
proof -
  let ?P = "\<lambda>k. passes tgt bias (pos_at ops dim t (Suc k))"
  define j where "j = length (takeWhile ?P [n..<length (tree_items t)])"
  have le: "j \<le> length (tree_items t) - n" using length_takeWhile_le [of ?P "[n..<length (tree_items t)]"] by (simp add: j_def)
  have "takeWhile ?P [n..<length (tree_items t)] = [n..<n + j]"
    using takeWhile_eq_take [of ?P "[n..<length (tree_items t)]"] le assms by (simp add: j_def [symmetric] take_upt)
  then have "\<forall>k \<in> set [n..<n + j]. ?P k" by (metis set_takeWhileD)
  then show "\<forall>k \<in> {n..<seek_stop ops dim tgt bias t n}. ?P k" by (simp add: seek_stop_def j_def [symmetric])
  show "\<not> ?P (seek_stop ops dim tgt bias t n)" if "seek_stop ops dim tgt bias t n < length (tree_items t)"
    using that nth_length_takeWhile [of ?P "[n..<length (tree_items t)]"] by (simp add: seek_stop_def j_def [symmetric])
qed

context dimension_laws
begin

lemma reset_new: "cur_tree c = t \<Longrightarrow> reset dim c = cursor_new dim t"
  by (cases c) (simp add: reset_def cursor_new_def)

text \<open>\<open>seek\<close> from any state of the cursor, and \<open>seek_forward\<close> from index \<open>n\<close>. The bound of the aggregate
  does not matter to the trivial one, so the trees may be as large as the stack allows.\<close>

lemma seek_forward_ok:
  assumes "wf_tree ops b t" and "node_height t < STACK_CAP" and "length (tree_items t) < limit b"
    and "target_mono ops dim tgt (dim_zero dim) (tree_items t)"
    and "cursor_at ops dim t n c \<or> c = cursor_new dim t \<and> n = 0" and "tgt (cur_position c) \<noteq> Less"
  shows "no_panic (seek_forward ops dim tgt bias c) (\<lambda>(found, c').
    let m = seek_stop ops dim tgt bias t n in
    cursor_at ops dim t m c' \<and>
    found = (tgt (pos_at ops dim t (if bias = Left then min (Suc m) (length (tree_items t)) else m)) = Equal))"
  using nothing.seek_internal_ok [OF assms(1,2,4-6), of "[]" bias "()"] assms(3)
  by (auto simp: seek_forward_def no_panic_def sought_def Let_def)

lemma seek_ok:
  assumes "wf_tree ops b t" and "node_height t < STACK_CAP" and "length (tree_items t) < limit b"
    and "target_mono ops dim tgt (dim_zero dim) (tree_items t)"
    and "cur_tree c = t" and "tgt (dim_zero dim) \<noteq> Less"
  shows "no_panic (seek ops dim tgt bias c) (\<lambda>(found, c').
    let m = seek_stop ops dim tgt bias t 0 in
    cursor_at ops dim t m c' \<and>
    found = (tgt (pos_at ops dim t (if bias = Left then min (Suc m) (length (tree_items t)) else m)) = Equal))"
proof -
  have "seek ops dim tgt bias c = seek_forward ops dim tgt bias (cursor_new dim t)"
    by (simp add: seek_def seek_forward_def reset_new [OF assms(5)])
  with seek_forward_ok [OF assms(1-4), of 0 "cursor_new dim t"] assms(6) show ?thesis by (simp add: cursor_new_def)
qed

lemma slice_ok:
  assumes "wf_tree ops b t" and "node_height t < STACK_CAP" and "length (tree_items t) < limit b"
    and "target_mono ops dim tgt (dim_zero dim) (tree_items t)"
    and "cursor_at ops dim t n c \<or> c = cursor_new dim t \<and> n = 0" and "tgt (cur_position c) \<noteq> Less"
  shows "no_panic (slice ops dim tgt bias c) (\<lambda>(r, c').
    let m = seek_stop ops dim tgt bias t n in
    wf_tree ops b r \<and> tree_items r = take (m - n) (drop n (tree_items t)) \<and> cursor_at ops dim t m c')"
proof -
  let ?g = "\<lparr>sl_tree = new ops, sl_leaf_items = [], sl_leaf_item_summaries = [], sl_leaf_summary = summary_zero ops\<rparr>"
  have "slice_rep ops b ?g [] []" by (simp add: slice_rep_def sum_of_def)
  from slicing.seek_internal_ok [OF assms(1,2,4-6) this, of bias] assms(3) show ?thesis
    by (auto simp: slice_def no_panic_def sought_def slice_rep_def Let_def)
qed

lemma suffix_ok:
  assumes "wf_tree ops b t" and "node_height t < STACK_CAP" and "length (tree_items t) < limit b"
    and "cursor_at ops dim t n c \<or> c = cursor_new dim t \<and> n = 0"
  shows "no_panic (suffix ops dim c) (\<lambda>(r, c').
    wf_tree ops b r \<and> tree_items r = drop n (tree_items t) \<and> cursor_at ops dim t (length (tree_items t)) c')"
proof -
  have n: "n \<le> length (tree_items t)" using assms(4) by (auto simp: cursor_at_def)
  have "end_target (cur_position c) \<noteq> Less" by (simp add: end_target_def)
  from slice_ok [OF assms(1-3) end_target_mono assms(4) this, of Right] show ?thesis
    by (simp add: suffix_def seek_stop_end_target [OF n] Let_def)
qed

end

context dimension_pair
begin

lemma cursor_summary_ok:
  assumes "wf_tree ops b t" and "node_height t < STACK_CAP" and "length (tree_items t) < limit b"
    and "target_mono ops dim tgt (dim_zero dim) (tree_items t)"
    and "cursor_at ops dim t n c \<or> c = cursor_new dim t \<and> n = 0" and "tgt (cur_position c) \<noteq> Less"
  shows "no_panic (cursor_summary ops dim out tgt bias c) (\<lambda>(r, c').
    let m = seek_stop ops dim tgt bias t n in
    r = pos_after ops out (dim_zero out) (take (m - n) (drop n (tree_items t))) \<and> cursor_at ops dim t m c')"
  using measuring.seek_internal_ok [OF assms(1,2,4-6), of "dim_zero out" "[]" bias] assms(3)
  by (auto simp: cursor_summary_def no_panic_def sought_def Let_def)

end

end
