(* ===== verification/ST_Keyed.thy ===== *)
theory ST_Keyed
  imports ST_Seek
begin

text \<open>
  Keyed trees (\<open>impl<T: KeyedItem> SumTree<T>\<close>): \<open>insert_or_replace\<close>, \<open>remove\<close>, \<open>edit\<close> and \<open>get\<close>. The
  contract of \<open>KeyedItem::Key\<close> as a dimension is the locale \<open>keyed_laws\<close>. Shown: on a tree sorted by key
  the operations behave as a batch of edits on the sorted list of items, the result is sorted again,
  and a lookup returns what the last edit of its key left there.
\<close>

section \<open>Operations\<close>

definition insert_or_replace :: "('a, 's) item_ops \<Rightarrow> ('s, 'k::linorder) dim_ops \<Rightarrow> ('a \<Rightarrow> 'k) \<Rightarrow> ('a, 's) sum_tree \<Rightarrow> 'a \<Rightarrow>
    (('a, 's) sum_tree \<times> 'a option) panics" where
  "insert_or_replace ops kdim key t x = do {
     (new_tree, c) \<leftarrow> slice ops kdim (cmp_of (key x)) Left (cursor_new kdim t);
     cursor_item \<leftarrow> item c;
     (replaced, c') \<leftarrow> (case cursor_item of
         Some y \<Rightarrow> if key y = key x then do { c' \<leftarrow> next_cursor ops kdim c; Some (Some y, c') } else Some (None, c)
       | None \<Rightarrow> Some (None, c));
     t1 \<leftarrow> push ops new_tree x;
     (rest, _) \<leftarrow> suffix ops kdim c';
     t2 \<leftarrow> append ops t1 rest;
     Some (t2, replaced)
   }"

definition tree_remove :: "('a, 's) item_ops \<Rightarrow> ('s, 'k::linorder) dim_ops \<Rightarrow> ('a \<Rightarrow> 'k) \<Rightarrow> ('a, 's) sum_tree \<Rightarrow> 'k \<Rightarrow>
    (('a, 's) sum_tree \<times> 'a option) panics" where
  "tree_remove ops kdim key t k = do {
     (new_tree, c) \<leftarrow> slice ops kdim (cmp_of k) Left (cursor_new kdim t);
     cursor_item \<leftarrow> item c;
     (removed, c') \<leftarrow> (case cursor_item of
         Some y \<Rightarrow> if key y = k then do { c' \<leftarrow> next_cursor ops kdim c; Some (Some y, c') } else Some (None, c)
       | None \<Rightarrow> Some (None, c));
     (rest, _) \<leftarrow> suffix ops kdim c';
     t2 \<leftarrow> append ops new_tree rest;
     Some (t2, removed)
   }"

datatype ('a, 'k) edit = Insert 'a | Remove 'k

fun edit_key :: "('a \<Rightarrow> 'k) \<Rightarrow> ('a, 'k) edit \<Rightarrow> 'k" where
  "edit_key key (Insert x) = key x"
| "edit_key key (Remove k) = k"

text \<open>The loop of \<open>edit\<close>: cursor, new tree, buffered items and removed items.\<close>

fun edit_loop :: "('a, 's) item_ops \<Rightarrow> ('s, 'k::linorder) dim_ops \<Rightarrow> ('a \<Rightarrow> 'k) \<Rightarrow> ('a, 'k) edit list \<Rightarrow> ('a, 's, 'k) cursor \<Rightarrow>
    ('a, 's) sum_tree \<Rightarrow> 'a list \<Rightarrow> 'a list \<Rightarrow> (('a, 's, 'k) cursor \<times> ('a, 's) sum_tree \<times> 'a list \<times> 'a list) panics" where
  "edit_loop ops kdim key [] c new_tree buffered removed = Some (c, new_tree, buffered, removed)"
| "edit_loop ops kdim key (edit # edits) c new_tree buffered removed = do {
     let new_key = edit_key key edit;
     old_item \<leftarrow> item c;
     (c1, new_tree1, buffered1, old_item1) \<leftarrow>
       (if (case old_item of Some y \<Rightarrow> key y < new_key | None \<Rightarrow> False) then do {
          t1 \<leftarrow> tree_extend ops new_tree buffered;
          (sl, c1) \<leftarrow> slice ops kdim (cmp_of new_key) Left c;
          t2 \<leftarrow> append ops t1 sl;
          it \<leftarrow> item c1;
          Some (c1, t2, [], it)
        } else Some (c, new_tree, buffered, old_item));
     (c2, removed1) \<leftarrow>
       (case old_item1 of
          Some y \<Rightarrow> if key y = new_key then do { c2 \<leftarrow> next_cursor ops kdim c1; Some (c2, removed @ [y]) } else Some (c1, removed)
        | None \<Rightarrow> Some (c1, removed));
     edit_loop ops kdim key edits c2 new_tree1
       (case edit of Insert x \<Rightarrow> buffered1 @ [x] | Remove _ \<Rightarrow> buffered1) removed1
   }"

text \<open>\<open>sort_unstable_by_key\<close> is modelled by the stable \<open>sort_key\<close>: on distinct keys, which the results below
  assume, there is only one sorted order.\<close>

definition tree_edit :: "('a, 's) item_ops \<Rightarrow> ('s, 'k::linorder) dim_ops \<Rightarrow> ('a \<Rightarrow> 'k) \<Rightarrow> ('a, 's) sum_tree \<Rightarrow> ('a, 'k) edit list \<Rightarrow>
    (('a, 's) sum_tree \<times> 'a list) panics" where
  "tree_edit ops kdim key t edits =
     (if edits = [] then Some (t, [])
      else do {
        let sorted_edits = sort_key (edit_key key) edits;
        (_, c0) \<leftarrow> seek ops kdim (cmp_of (dim_zero kdim)) Left (cursor_new kdim t);
        (c, new_tree, buffered, removed) \<leftarrow> edit_loop ops kdim key sorted_edits c0 (new ops) [] [];
        t1 \<leftarrow> tree_extend ops new_tree buffered;
        (rest, _) \<leftarrow> suffix ops kdim c;
        t2 \<leftarrow> append ops t1 rest;
        Some (t2, removed)
      })"

definition tree_get :: "('s, 'k::linorder) dim_ops \<Rightarrow> ('a, 's) sum_tree \<Rightarrow> 'k \<Rightarrow> 'a option" where
  "tree_get kdim t k = (case find_exact kdim (cmp_of k) Left t of (_, _, r) \<Rightarrow> r)"

section \<open>Reference: edits on a sorted list\<close>

definition drop_key :: "('a \<Rightarrow> 'k) \<Rightarrow> 'k \<Rightarrow> 'a list \<Rightarrow> 'a list" where
  "drop_key key k xs = (case xs of [] \<Rightarrow> [] | x # ys \<Rightarrow> if key x = k then ys else xs)"

definition head_key :: "('a \<Rightarrow> 'k) \<Rightarrow> 'k \<Rightarrow> 'a list \<Rightarrow> 'a list" where
  "head_key key k xs = (case xs of [] \<Rightarrow> [] | x # ys \<Rightarrow> if key x = k then [x] else [])"

fun inserted :: "('a, 'k) edit \<Rightarrow> 'a list" where
  "inserted (Insert x) = [x]"
| "inserted (Remove _) = []"

fun apply_edits :: "('a \<Rightarrow> 'k::linorder) \<Rightarrow> 'a list \<Rightarrow> ('a, 'k) edit list \<Rightarrow> 'a list" where
  "apply_edits key xs [] = xs"
| "apply_edits key xs (d # ds) =
     (let k = edit_key key d in
      takeWhile (\<lambda>x. key x < k) xs @ inserted d @ apply_edits key (drop_key key k (dropWhile (\<lambda>x. key x < k) xs)) ds)"

fun edits_removed :: "('a \<Rightarrow> 'k::linorder) \<Rightarrow> 'a list \<Rightarrow> ('a, 'k) edit list \<Rightarrow> 'a list" where
  "edits_removed key xs [] = []"
| "edits_removed key xs (d # ds) =
     (let k = edit_key key d; ys = dropWhile (\<lambda>x. key x < k) xs in
      head_key key k ys @ edits_removed key (drop_key key k ys) ds)"

definition sorted_by :: "('a \<Rightarrow> 'k::linorder) \<Rightarrow> 'a list \<Rightarrow> bool" where
  "sorted_by key xs \<longleftrightarrow> sorted_wrt (\<lambda>x y. key x < key y) xs"

definition lookup :: "('a \<Rightarrow> 'k) \<Rightarrow> 'a list \<Rightarrow> 'k \<Rightarrow> 'a option" where
  "lookup key xs k = find (\<lambda>x. key x = k) xs"

lemma sorted_by_simps [simp]:
  "sorted_by key []"
  "sorted_by key (x # xs) \<longleftrightarrow> (\<forall>y \<in> set xs. key x < key y) \<and> sorted_by key xs"
  "sorted_by key (xs @ ys) \<longleftrightarrow> sorted_by key xs \<and> sorted_by key ys \<and> (\<forall>x \<in> set xs. \<forall>y \<in> set ys. key x < key y)"
  by (simp_all add: sorted_by_def sorted_wrt_append)

lemma lookup_Nil [simp]: "lookup key [] k = None"
  by (simp add: lookup_def)

lemma lookup_Cons: "lookup key (x # xs) k = (if key x = k then Some x else lookup key xs k)"
  by (simp add: lookup_def)

lemma lookup_append: "lookup key (xs @ ys) k = (case lookup key xs k of Some x \<Rightarrow> Some x | None \<Rightarrow> lookup key ys k)"
  by (induction xs) (simp_all add: lookup_Cons)

lemma lookup_None: "\<forall>x \<in> set xs. key x \<noteq> k \<Longrightarrow> lookup key xs k = None"
  by (induction xs) (auto simp: lookup_Cons)

lemma lookup_Some_iff: "sorted_by key xs \<Longrightarrow> lookup key xs k = Some x \<longleftrightarrow> x \<in> set xs \<and> key x = k"
  by (induction xs) (auto simp: lookup_Cons)

lemma takeWhile_sorted: "sorted_by key xs \<Longrightarrow> takeWhile (\<lambda>x. key x < k) xs = filter (\<lambda>x. key x < k) xs"
proof (induction xs)
  case (Cons x xs)
  show ?case
  proof (cases "key x < k")
    case False
    then have "\<forall>y \<in> set xs. \<not> key y < k" using Cons.prems by fastforce
    with False show ?thesis by (simp add: filter_empty_conv)
  qed (use Cons in simp)
qed simp

lemma dropWhile_sorted: "sorted_by key xs \<Longrightarrow> dropWhile (\<lambda>x. key x < k) xs = filter (\<lambda>x. k \<le> key x) xs"
proof (induction xs)
  case (Cons x xs)
  show ?case
  proof (cases "key x < k")
    case False
    then have "\<forall>y \<in> set xs. k \<le> key y" using Cons.prems by fastforce
    with False show ?thesis by simp
  qed (use Cons in simp)
qed simp

lemma drop_key_sorted: "sorted_by key xs \<Longrightarrow> drop_key key k (filter (\<lambda>x. k \<le> key x) xs) = filter (\<lambda>x. k < key x) xs"
proof (induction xs)
  case (Cons x xs)
  show ?case
  proof (cases "k \<le> key x")
    case True
    then have "filter (\<lambda>y. k < key y) xs = xs" "filter (\<lambda>y. k \<le> key y) xs = xs" using Cons.prems by (fastforce simp: filter_id_conv)+
    with True show ?thesis by (auto simp: drop_key_def)
  next
    case False
    with Cons show ?thesis by auto
  qed
qed (simp add: drop_key_def)

lemma length_drop_key: "length (drop_key key k xs) \<le> length xs"
  by (cases xs) (simp_all add: drop_key_def)

lemma no_key_head:
  "\<not> (\<exists>y. vec_first xs = Some y \<and> key y = k) \<Longrightarrow> drop_key key k xs = xs \<and> head_key key k xs = []"
  by (cases xs) (simp_all add: drop_key_def head_key_def vec_first_def)

lemma sorted_by_filter: "sorted_by key xs \<Longrightarrow> sorted_by key (filter P xs)"
  by (simp add: sorted_by_def sorted_wrt_filter)

text \<open>In a sorted list, only the first item whose key is not below \<open>k\<close> can have key \<open>k\<close>.\<close>

lemma lookup_split:
  assumes "sorted_by key xs"
  shows "lookup key xs k =
    (case vec_first (dropWhile (\<lambda>x. key x < k) xs) of Some y \<Rightarrow> if key y = k then Some y else None | None \<Rightarrow> None)"
  using assms
proof (induction xs)
  case (Cons x xs)
  show ?case
  proof (cases "key x < k")
    case False
    then have "\<forall>y \<in> set xs. key y \<noteq> k" using Cons.prems by fastforce
    with False show ?thesis using lookup_None [of xs key k] by (simp add: lookup_Cons vec_first_def)
  qed (use Cons in \<open>auto simp: lookup_Cons\<close>)
qed (simp add: vec_first_def)

text \<open>One edit splits the list at its key.\<close>

lemma apply_edits_Cons:
  "sorted_by key xs \<Longrightarrow> apply_edits key xs (d # ds) =
     filter (\<lambda>x. key x < edit_key key d) xs @ inserted d @ apply_edits key (filter (\<lambda>x. edit_key key d < key x) xs) ds"
  by (simp add: Let_def takeWhile_sorted dropWhile_sorted drop_key_sorted)

lemma set_apply_edits: "set (apply_edits key xs ds) \<subseteq> set xs \<union> set (concat (map inserted ds))"
proof (induction ds arbitrary: xs)
  case (Cons d ds)
  let ?k = "edit_key key d"
  have kept: "set (takeWhile (\<lambda>x. key x < ?k) xs) \<subseteq> set xs" by (auto dest: set_takeWhileD)
  have "set (drop_key key k ys) \<subseteq> set ys" for k and ys :: "'a list" by (auto simp: drop_key_def split: list.splits if_splits)
  then have rest: "set (drop_key key ?k (dropWhile (\<lambda>x. key x < ?k) xs)) \<subseteq> set xs" by (meson set_dropWhileD subset_iff)
  from Cons.IH [of "drop_key key ?k (dropWhile (\<lambda>x. key x < ?k) xs)"] kept rest
  show ?case unfolding apply_edits.simps Let_def by simp blast
qed simp

lemma inserted_key: "x \<in> set (inserted d) \<Longrightarrow> key x = edit_key key d"
  by (cases d) auto

text \<open>A sorted batch of edits keeps the list sorted.\<close>

lemma apply_edits_sorted:
  "sorted_by key xs \<Longrightarrow> sorted_by (edit_key key) ds \<Longrightarrow> sorted_by key (apply_edits key xs ds)"
proof (induction ds arbitrary: xs)
  case (Cons d ds)
  let ?k = "edit_key key d" and ?R = "filter (\<lambda>x. edit_key key d < key x) xs"
  have above: "?k < key y" if "y \<in> set (apply_edits key ?R ds)" for y
  proof -
    from that set_apply_edits [of key ?R ds] consider "y \<in> set ?R" | d' where "d' \<in> set ds" "y \<in> set (inserted d')" by auto
    then show ?thesis
    proof cases
      case 2
      with Cons.prems(2) inserted_key [of y d' key] show ?thesis by simp
    qed simp
  qed
  have "sorted_by key (apply_edits key ?R ds)" using Cons by (simp add: sorted_by_filter)
  moreover have "sorted_by key (inserted d)" by (cases d) simp_all
  moreover have "sorted_by key (filter (\<lambda>x. key x < ?k) xs)" by (rule sorted_by_filter [OF Cons.prems(1)])
  moreover have "key x < key y" if "x \<in> set (filter (\<lambda>x. key x < ?k) xs)" "y \<in> set (inserted d @ apply_edits key ?R ds)" for x y
    using that above [of y] inserted_key [of y d key] by auto
  moreover have "key x < key y" if "x \<in> set (inserted d)" "y \<in> set (apply_edits key ?R ds)" for x y
    using that above [of y] inserted_key [of x d key] by auto
  ultimately show ?case unfolding apply_edits_Cons [OF Cons.prems(1)] sorted_by_simps(3) by blast
qed simp

text \<open>A lookup after a batch of edits with distinct keys: what the edit of that key says, else the old item.\<close>

lemma lookup_inserted: "lookup key (inserted d) k = (case d of Insert x \<Rightarrow> if key x = k then Some x else None | Remove _ \<Rightarrow> None)"
  by (cases d) (simp_all add: lookup_Cons)

lemma lookup_filter:
  "lookup key (filter (\<lambda>x. key x < c) xs) k = (if k < c then lookup key xs k else None)"
  "lookup key (filter (\<lambda>x. c < key x) xs) k = (if c < k then lookup key xs k else None)"
  by (induction xs) (auto simp: lookup_Cons)

lemma lookup_apply_edits:
  "sorted_by key xs \<Longrightarrow> sorted_by (edit_key key) ds \<Longrightarrow>
   lookup key (apply_edits key xs ds) k =
     (case find (\<lambda>d. edit_key key d = k) ds of
        Some (Insert x) \<Rightarrow> Some x | Some (Remove _) \<Rightarrow> None | None \<Rightarrow> lookup key xs k)"
proof (induction ds arbitrary: xs)
  case (Cons d ds)
  let ?k = "edit_key key d" and ?L = "filter (\<lambda>x. key x < edit_key key d) xs" and ?R = "filter (\<lambda>x. edit_key key d < key x) xs"
  have IH: "lookup key (apply_edits key ?R ds) k = (case find (\<lambda>d. edit_key key d = k) ds of
        Some (Insert x) \<Rightarrow> Some x | Some (Remove _) \<Rightarrow> None | None \<Rightarrow> lookup key ?R k)"
    using Cons by (simp add: sorted_by_filter)
  have later: "find (\<lambda>d. edit_key key d = k) ds = None" if "k \<le> ?k"
    using Cons.prems(2) that by (auto simp: find_None_iff)
  show ?case
  proof (cases k ?k rule: linorder_cases)
    case less
    with IH later [OF less_imp_le [OF less]] show ?thesis unfolding apply_edits_Cons [OF Cons.prems(1)]
      by (cases d) (auto simp: lookup_append lookup_Cons lookup_filter split: option.splits)
  next
    case equal
    with IH later show ?thesis unfolding apply_edits_Cons [OF Cons.prems(1)]
      by (cases d) (auto simp: lookup_append lookup_Cons lookup_filter split: option.splits)
  next
    case greater
    with IH show ?thesis unfolding apply_edits_Cons [OF Cons.prems(1)]
      by (cases d) (auto simp: lookup_append lookup_Cons lookup_filter split: option.splits)
  qed
qed simp

section \<open>The contract of a key\<close>

text \<open>A tree small enough that no operation on it can overflow a cursor stack or a height.\<close>

definition tree_ok :: "('a, 's) item_ops \<Rightarrow> nat \<Rightarrow> ('a, 's) sum_tree \<Rightarrow> bool" where
  "tree_ok ops b t \<longleftrightarrow> wf_tree ops b t \<and> b < STACK_CAP \<and> length (tree_items t) < max_items STACK_CAP b"

lemma max_items_mono: "h \<le> h' \<Longrightarrow> max_items h b \<le> max_items h' b"
  by (simp add: max_items_def power_increasing)

lemma max_items_pos: "2 \<le> max_items h b"
  by (simp add: max_items_def Suc_le_eq)

lemma tree_okD:
  assumes "tree_ok ops b t"
  shows "wf_tree ops b t" and "node_height t < STACK_CAP" and "length (tree_items t) < limit b"
proof -
  show wf: "wf_tree ops b t" using assms by (simp add: tree_ok_def)
  show "node_height t < STACK_CAP"
    using wf assms height_less [of ops b t STACK_CAP] by (auto simp: tree_ok_def wf_tree_def STACK_CAP_def)
  show "length (tree_items t) < limit b"
    using assms max_items_mono [of STACK_CAP 256 b] by (simp add: tree_ok_def limit_def STACK_CAP_def)
qed

lemma tree_ok_limit: "b < STACK_CAP \<Longrightarrow> n < max_items STACK_CAP b \<Longrightarrow> n < max_items 256 b \<and> b < 256"
  using max_items_mono [of STACK_CAP 256 b] by (simp add: STACK_CAP_def)

definition ordered_target :: "'k::linorder seek_target \<Rightarrow> bool" where
  "ordered_target tgt \<longleftrightarrow> (\<forall>k1 k2. k1 \<le> k2 \<longrightarrow> (tgt k1 = Less \<longrightarrow> tgt k2 = Less) \<and> (tgt k1 \<noteq> Greater \<longrightarrow> tgt k2 \<noteq> Greater))"

lemma ordered_cmp_of: "ordered_target (cmp_of k)"
  by (auto simp: ordered_target_def cmp_of_def split: if_splits)

text \<open>
  What \<open>T::Key: Dimension<T::Summary> + Ord\<close> promises: \<open>zero\<close> is the least key, and adding the summary of an
  item that is not out of order moves to the key of that item.
\<close>

locale keyed_laws = dimension_laws ops kdim for ops :: "('a, 's) item_ops" and kdim :: "('s, 'k::linorder) dim_ops" +
  fixes key :: "'a \<Rightarrow> 'k"
  assumes zero_least: "dim_zero kdim \<le> k"
    and key_advance: "k \<le> key x \<Longrightarrow> dim_add kdim k (item_summary ops x) = key x"
begin

lemma pos_sorted: "sorted_by key xs \<Longrightarrow> pos_after ops kdim (dim_zero kdim) xs = (if xs = [] then dim_zero kdim else key (last xs))"
proof (induction xs rule: rev_induct)
  case (snoc x xs)
  then have "pos_after ops kdim (dim_zero kdim) xs \<le> key x"
    by (auto simp: zero_least less_imp_le)
  then show ?case by (simp add: key_advance)
qed simp

lemma pos_take_sorted:
  assumes "sorted_by key xs" and "n < length xs"
  shows "pos_after ops kdim (dim_zero kdim) (take (Suc n) xs) = key (xs ! n)"
proof -
  have "sorted_by key (take (Suc n) xs)" using assms(1) unfolding sorted_by_def by (rule sorted_wrt_take)
  moreover have "last (take (Suc n) xs) = xs ! n" "take (Suc n) xs \<noteq> []" using assms(2) by (auto simp: take_Suc_conv_app_nth)
  ultimately show ?thesis by (simp only: pos_sorted if_False)
qed

lemma pos_at_sorted: "sorted_by key (tree_items t) \<Longrightarrow> k < length (tree_items t) \<Longrightarrow> pos_at ops kdim t (Suc k) = key (tree_items t ! k)"
  unfolding pos_at_def by (rule pos_take_sorted)

lemma target_mono_sorted:
  assumes "ordered_target tgt" and "sorted_by key xs"
  shows "target_mono ops kdim tgt (dim_zero kdim) xs"
proof -
  have "pos_after ops kdim (dim_zero kdim) (take i xs) \<le> pos_after ops kdim (dim_zero kdim) (take j xs)"
    if range: "i \<in> {1..j}" "j \<in> {1..length xs}" for i j
  proof -
    obtain i' j' where ij: "i = Suc i'" "j = Suc j'" "i' \<le> j'" "j' < length xs" using range by (cases i; cases j) auto
    with assms(2) show ?thesis
      by (cases "i' = j'") (auto simp: pos_take_sorted sorted_by_def sorted_wrt_iff_nth_less less_imp_le)
  qed
  with assms(1) show ?thesis unfolding target_mono_def mono_along_def ordered_target_def by blast
qed

lemma seek_stop_sorted:
  assumes "sorted_by key (tree_items t)"
  shows "seek_stop ops kdim tgt bias t n = n + length (takeWhile (\<lambda>x. passes tgt bias (key x)) (drop n (tree_items t)))"
proof -
  let ?xs = "tree_items t"
  have "drop n ?xs = map (\<lambda>k. ?xs ! k) [n..<length ?xs]" by (rule nth_equalityI) simp_all
  then have "takeWhile (\<lambda>x. passes tgt bias (key x)) (drop n ?xs) =
      map ((!) ?xs) (takeWhile (\<lambda>k. passes tgt bias (key (?xs ! k))) [n..<length ?xs])"
    by (simp add: takeWhile_map comp_def)
  moreover have "takeWhile (\<lambda>k. passes tgt bias (key (?xs ! k))) [n..<length ?xs] =
      takeWhile (\<lambda>k. passes tgt bias (pos_at ops kdim t (Suc k))) [n..<length ?xs]"
    by (rule takeWhile_cong) (simp_all add: pos_at_sorted [OF assms])
  ultimately show ?thesis by (simp add: seek_stop_def)
qed

lemma item_head: "wf_tree ops b t \<Longrightarrow> cursor_at ops kdim t n c \<Longrightarrow> item c = Some (vec_first (drop n (tree_items t)))"
  using item_ok [of b t n c] by (auto simp: vec_first_def hd_drop_conv_nth)

text \<open>A slice up to a key, as a prefix of what is left of the items.\<close>

lemma slice_key:
  assumes "tree_ok ops b t" and "sorted_by key (tree_items t)" and "ordered_target tgt"
    and "cursor_at ops kdim t n c \<or> c = cursor_new kdim t \<and> n = 0" and "tgt (cur_position c) \<noteq> Less"
  obtains r m c' where "slice ops kdim tgt bias c = Some (r, c')" and "wf_tree ops b r" and "cursor_at ops kdim t m c'"
    and "tree_items r = takeWhile (\<lambda>x. passes tgt bias (key x)) (drop n (tree_items t))"
    and "drop m (tree_items t) = dropWhile (\<lambda>x. passes tgt bias (key x)) (drop n (tree_items t))"
    and "item c' = Some (vec_first (dropWhile (\<lambda>x. passes tgt bias (key x)) (drop n (tree_items t))))"
proof -
  let ?P = "\<lambda>x. passes tgt bias (key x)" and ?xs = "drop n (tree_items t)"
  let ?m = "n + length (takeWhile ?P ?xs)"
  note wf = tree_okD [OF assms(1)]
  obtain r c' where r: "slice ops kdim tgt bias c = Some (r, c')" "wf_tree ops b r"
    "tree_items r = take (?m - n) ?xs" "cursor_at ops kdim t ?m c'"
    using slice_ok [OF wf target_mono_sorted [OF assms(3,2)] assms(4,5), of bias]
    by (auto simp: no_panic_def Let_def seek_stop_sorted [OF assms(2)])
  have m: "drop ?m (tree_items t) = dropWhile ?P ?xs"
    by (metis add.commute drop_drop dropWhile_eq_drop)
  show ?thesis
    by (rule that [OF r(1,2,4) _ m]) (use r(3) item_head [OF wf(1) r(4)] m in \<open>simp_all add: takeWhile_eq_take [symmetric]\<close>)
qed

text \<open>Stepping over the item under the cursor when its key matches.\<close>

lemma step_over:
  assumes "tree_ok ops b t" and "cursor_at ops kdim t n c" and "vec_first (drop n (tree_items t)) = Some y"
  obtains c' where "next_cursor ops kdim c = Some c'" and "cursor_at ops kdim t (Suc n) c'"
    and "drop (Suc n) (tree_items t) = tl (drop n (tree_items t))"
proof -
  have "n < length (tree_items t)" using assms(3) by (auto simp: vec_first_def split: if_splits)
  then show ?thesis using next_cursor_ok [OF tree_okD(1,2) [OF assms(1)] assms(2)] that
    by (auto simp: no_panic_def drop_Suc tl_drop)
qed

lemma passes_cmp_Left: "passes (cmp_of k) Left d \<longleftrightarrow> d < k"
  by (auto simp: passes_def cmp_of_def)

lemma cmp_zero: "cmp_of k (dim_zero kdim) \<noteq> Less"
  using zero_least [of k] by simp

text \<open>The search part \<open>insert_or_replace\<close> and \<open>remove\<close> share.\<close>

lemma split_at_key:
  assumes "tree_ok ops b t" and "sorted_by key (tree_items t)"
  obtains r c found c' n where "slice ops kdim (cmp_of k) Left (cursor_new kdim t) = Some (r, c)"
    and "item c = Some (vec_first (dropWhile (\<lambda>x. key x < k) (tree_items t)))"
    and "(case vec_first (dropWhile (\<lambda>x. key x < k) (tree_items t)) of
         Some y \<Rightarrow> if key y = k then do { c' \<leftarrow> next_cursor ops kdim c; Some (Some y, c') } else Some (None, c)
       | None \<Rightarrow> Some (None, c)) = Some (found, c')"
    and "wf_tree ops b r" and "tree_items r = takeWhile (\<lambda>x. key x < k) (tree_items t)"
    and "cursor_at ops kdim t n c'" and "drop n (tree_items t) = drop_key key k (dropWhile (\<lambda>x. key x < k) (tree_items t))"
    and "found = lookup key (tree_items t) k"
proof -
  let ?xs = "tree_items t"
  let ?D = "dropWhile (\<lambda>x. key x < k) ?xs"
  have "cmp_of k (cur_position (cursor_new kdim t)) \<noteq> Less" using cmp_zero by (simp add: cursor_new_def)
  note cut = slice_key [OF assms ordered_cmp_of disjI2 [OF conjI [OF refl refl]] this, of Left, unfolded passes_cmp_Left drop_0]
  obtain r m c where r: "slice ops kdim (cmp_of k) Left (cursor_new kdim t) = Some (r, c)" "wf_tree ops b r"
    "cursor_at ops kdim t m c" "tree_items r = takeWhile (\<lambda>x. key x < k) ?xs" "drop m ?xs = ?D"
    "item c = Some (vec_first ?D)"
    by (rule cut)
  note look = lookup_split [OF assms(2), of k]
  show ?thesis
  proof (cases "\<exists>y. vec_first ?D = Some y \<and> key y = k")
    case True
    then obtain y where y: "vec_first ?D = Some y" "key y = k" by blast
    then obtain ys where ys: "?D = y # ys" by (cases ?D) (auto simp: vec_first_def)
    from assms(1) r(3) y(1) [folded r(5)] obtain c' where c': "next_cursor ops kdim c = Some c'" "cursor_at ops kdim t (Suc m) c'"
      "drop (Suc m) ?xs = tl (drop m ?xs)" by (rule step_over)
    with y ys r look show ?thesis by (intro that [of r c]) (simp_all add: drop_key_def)
  next
    case False
    note no_key_head [OF False]
    moreover from False have "(case vec_first ?D of
         Some y \<Rightarrow> if key y = k then do { c' \<leftarrow> next_cursor ops kdim c; Some (Some y, c') } else Some (None, c)
       | None \<Rightarrow> Some (None, c)) = Some (None, c)" by (cases "vec_first ?D") auto
    moreover from False have "lookup key ?xs k = None" unfolding look by (cases "vec_first ?D") auto
    ultimately show ?thesis using r by (intro that [of r c]) simp_all
  qed
qed

lemma insert_or_replace_ok:
  assumes "tree_ok ops b t" and "sorted_by key (tree_items t)" and "Suc (length (tree_items t)) < max_items STACK_CAP b"
  shows "no_panic (insert_or_replace ops kdim key t x) (\<lambda>(r, replaced).
    tree_ok ops b r \<and> tree_items r = apply_edits key (tree_items t) [Insert x] \<and> replaced = lookup key (tree_items t) (key x))"
proof -
  let ?xs = "tree_items t" and ?k = "key x"
  let ?D = "dropWhile (\<lambda>x. key x < ?k) ?xs" and ?T = "takeWhile (\<lambda>x. key x < ?k) ?xs"
  have b: "b < STACK_CAP" "b < 256" using assms(1) by (auto simp: tree_ok_def STACK_CAP_def)
  from split_at_key [OF assms(1,2), of ?k]
  obtain r c found c' n where s: "slice ops kdim (cmp_of ?k) Left (cursor_new kdim t) = Some (r, c)"
    "item c = Some (vec_first ?D)"
    "(case vec_first ?D of
         Some y \<Rightarrow> if key y = ?k then do { c' \<leftarrow> next_cursor ops kdim c; Some (Some y, c') } else Some (None, c)
       | None \<Rightarrow> Some (None, c)) = Some (found, c')"
    "wf_tree ops b r" "tree_items r = ?T" "cursor_at ops kdim t n c'" "drop n ?xs = drop_key key ?k ?D" "found = lookup key ?xs ?k" .
  have le: "length ?T + length (drop_key key ?k ?D) \<le> length ?xs"
    using arg_cong [OF takeWhile_dropWhile_id [of "\<lambda>x. key x < ?k" ?xs], of length]
    by (auto simp: drop_key_def simp del: takeWhile_dropWhile_id split: list.splits if_splits)
  then have sizes: "Suc (length ?T) < max_items 256 b" "length ((?T @ [x]) @ drop_key key ?k ?D) < max_items 256 b"
      "length ((?T @ [x]) @ drop_key key ?k ?D) < max_items STACK_CAP b"
    using tree_ok_limit [OF b(1)] assms(3) by auto
  obtain t1 where t1: "push ops r x = Some t1" "wf_tree ops b t1" "tree_items t1 = ?T @ [x]"
    using push_ok_items [OF s(4) _ b(2)] s(5) sizes(1) by (auto simp: no_panic_def)
  obtain rest c'' where rest: "suffix ops kdim c' = Some (rest, c'')" "wf_tree ops b rest" "tree_items rest = drop_key key ?k ?D"
    using suffix_ok [OF tree_okD [OF assms(1)], of n c'] s(6,7) by (auto simp: no_panic_def)
  obtain t2 where t2: "append ops t1 rest = Some t2" "wf_tree ops b t2" "tree_items t2 = (?T @ [x]) @ drop_key key ?k ?D"
    using append_ok [OF t1(2) rest(2) _ b(2)] t1(3) rest(3) sizes(2) by (auto simp: no_panic_def)
  show ?thesis using s(1-3,8) t1(1) rest(1) t2 b(1) sizes(3)
    by (simp add: insert_or_replace_def tree_ok_def Let_def)
qed

lemma tree_remove_ok:
  assumes "tree_ok ops b t" and "sorted_by key (tree_items t)"
  shows "no_panic (tree_remove ops kdim key t k) (\<lambda>(r, removed).
    tree_ok ops b r \<and> tree_items r = apply_edits key (tree_items t) [Remove k] \<and> removed = lookup key (tree_items t) k)"
proof -
  let ?xs = "tree_items t"
  let ?D = "dropWhile (\<lambda>x. key x < k) ?xs" and ?T = "takeWhile (\<lambda>x. key x < k) ?xs"
  have b: "b < STACK_CAP" "b < 256" using assms(1) by (auto simp: tree_ok_def STACK_CAP_def)
  from split_at_key [OF assms, of k]
  obtain r c found c' n where s: "slice ops kdim (cmp_of k) Left (cursor_new kdim t) = Some (r, c)"
    "item c = Some (vec_first ?D)"
    "(case vec_first ?D of
         Some y \<Rightarrow> if key y = k then do { c' \<leftarrow> next_cursor ops kdim c; Some (Some y, c') } else Some (None, c)
       | None \<Rightarrow> Some (None, c)) = Some (found, c')"
    "wf_tree ops b r" "tree_items r = ?T" "cursor_at ops kdim t n c'" "drop n ?xs = drop_key key k ?D" "found = lookup key ?xs k" .
  have "length ?T + length (drop_key key k ?D) \<le> length ?xs"
    using arg_cong [OF takeWhile_dropWhile_id [of "\<lambda>x. key x < k" ?xs], of length]
    by (auto simp: drop_key_def simp del: takeWhile_dropWhile_id split: list.splits if_splits)
  then have sizes: "length (?T @ drop_key key k ?D) < max_items 256 b" "length (?T @ drop_key key k ?D) < max_items STACK_CAP b"
    using tree_ok_limit [OF b(1)] assms(1) by (auto simp: tree_ok_def)
  obtain rest c'' where rest: "suffix ops kdim c' = Some (rest, c'')" "wf_tree ops b rest" "tree_items rest = drop_key key k ?D"
    using suffix_ok [OF tree_okD [OF assms(1)], of n c'] s(6,7) by (auto simp: no_panic_def)
  obtain t2 where t2: "append ops r rest = Some t2" "wf_tree ops b t2" "tree_items t2 = ?T @ drop_key key k ?D"
    using append_ok [OF s(4) rest(2) _ b(2)] s(5) rest(3) sizes(1) by (auto simp: no_panic_def)
  show ?thesis using s(1-3,8) rest(1) t2 b(1) sizes(2)
    by (simp add: tree_remove_def tree_ok_def Let_def)
qed

lemma tree_get_ok:
  assumes "wf_tree ops b t" and "sorted_by key (tree_items t)"
  shows "tree_get kdim t k = lookup key (tree_items t) k"
proof (cases "tree_items t = []")
  case True
  with assms(1) have "t = new ops" using wf_node_nonempty by (auto simp: wf_tree_def)
  then show ?thesis by (simp add: tree_get_def find_exact_def find_with_def new_def Let_def)
next
  case False
  have "map_option fst (snd (scan ops kdim (\<lambda>e. cmp_of k e = Equal) p xs)) = lookup key xs k"
    if "sorted_by key xs" "\<forall>x \<in> set xs. p \<le> key x" for p xs using that
  proof (induction xs arbitrary: p)
    case (Cons x xs)
    then have "dim_add kdim p (item_summary ops x) = key x" by (simp add: key_advance)
    with Cons show ?case by (auto simp: Let_def lookup_Cons less_imp_le)
  qed simp
  from this [OF assms(2), of "dim_zero kdim"] zero_least
    find_exact_item [OF assms(1) False target_mono_sorted [OF ordered_cmp_of assms(2)], of k]
  show ?thesis by (auto simp: tree_get_def split: prod.splits)
qed

lemma pos_at_le: "sorted_by key (tree_items t) \<Longrightarrow> n < length (tree_items t) \<Longrightarrow> pos_at ops kdim t n \<le> key (tree_items t ! n)"
proof (cases n)
  case (Suc m)
  assume "sorted_by key (tree_items t)" "n < length (tree_items t)"
  with Suc show ?thesis by (auto simp: pos_at_sorted sorted_by_def sorted_wrt_iff_nth_less less_imp_le)
qed (simp add: pos_at_def zero_least)

text \<open>First part of an iteration of \<open>edit\<close>: everything below the key of the edit moves to the new tree.\<close>

lemma edit_advance:
  assumes "tree_ok ops b t" and "sorted_by key (tree_items t)" and "0 < b" and "cursor_at ops kdim t n c" and "wf_tree ops b nt"
    and "length buf \<le> CAP ^ b" and "length (tree_items nt) + length buf + length (drop n (tree_items t)) < max_items STACK_CAP b"
  obtains c1 nt1 buf1 m where
    "(if (case vec_first (drop n (tree_items t)) of Some y \<Rightarrow> key y < k | None \<Rightarrow> False) then do {
          t1 \<leftarrow> tree_extend ops nt buf;
          (sl, c1) \<leftarrow> slice ops kdim (cmp_of k) Left c;
          t2 \<leftarrow> append ops t1 sl;
          it \<leftarrow> item c1;
          Some (c1, t2, [], it)
        } else Some (c, nt, buf, vec_first (drop n (tree_items t)))) = Some (c1, nt1, buf1, vec_first (drop m (tree_items t)))"
    and "cursor_at ops kdim t m c1" and "wf_tree ops b nt1" and "length buf1 \<le> length buf"
    and "tree_items nt1 @ buf1 = tree_items nt @ buf @ takeWhile (\<lambda>x. key x < k) (drop n (tree_items t))"
    and "drop m (tree_items t) = dropWhile (\<lambda>x. key x < k) (drop n (tree_items t))"
proof (cases "case vec_first (drop n (tree_items t)) of Some y \<Rightarrow> key y < k | None \<Rightarrow> False")
  case True
  let ?xs = "drop n (tree_items t)"
  have b: "b < STACK_CAP" "b < 256" using assms(1) by (auto simp: tree_ok_def STACK_CAP_def)
  from True have n: "n < length (tree_items t)" "key (tree_items t ! n) < k"
    by (auto simp: vec_first_def hd_drop_conv_nth split: if_splits)
  have "cur_position c = pos_at ops kdim t n" using assms(4) by (simp add: cursor_at_def)
  then have pos: "cmp_of k (cur_position c) \<noteq> Less" using pos_at_le [OF assms(2) n(1)] n(2) by simp
  note cut = slice_key [OF assms(1,2) ordered_cmp_of disjI1 [OF assms(4)] pos, of Left, unfolded passes_cmp_Left]
  obtain r m c1 where r: "slice ops kdim (cmp_of k) Left c = Some (r, c1)" "wf_tree ops b r"
    "cursor_at ops kdim t m c1" "tree_items r = takeWhile (\<lambda>x. key x < k) ?xs" "drop m (tree_items t) = dropWhile (\<lambda>x. key x < k) ?xs"
    "item c1 = Some (vec_first (dropWhile (\<lambda>x. key x < k) ?xs))"
    by (rule cut)
  have lt: "length (tree_items nt) + length buf < max_items 256 b"
    using assms(7) tree_ok_limit [OF b(1), of "length (tree_items nt) + length buf"] by simp
  obtain t1 where t1: "tree_extend ops nt buf = Some t1" "wf_tree ops b t1" "tree_items t1 = tree_items nt @ buf"
    using extend_ok [OF assms(5,6,3) b(2) lt] by (auto simp: no_panic_def)
  have "length (takeWhile (\<lambda>x. key x < k) ?xs) \<le> length ?xs" by (rule length_takeWhile_le)
  then have "length (tree_items t1 @ tree_items r) < max_items 256 b"
    using assms(7) t1(3) r(4) tree_ok_limit [OF b(1), of "length (tree_items t1 @ tree_items r)"] by simp
  from append_ok [OF t1(2) r(2) this b(2)] obtain t2 where t2: "append ops t1 r = Some t2" "wf_tree ops b t2"
    "tree_items t2 = tree_items t1 @ tree_items r" by (auto simp: no_panic_def)
  show ?thesis by (rule that [OF _ r(3) t2(2), of "[]"]) (use True r t1 t2 in simp_all)
next
  case False
  let ?xs = "drop n (tree_items t)"
  from False have "takeWhile (\<lambda>x. key x < k) ?xs = [] \<and> dropWhile (\<lambda>x. key x < k) ?xs = ?xs"
    by (cases ?xs) (simp_all add: vec_first_def)
  then show ?thesis by (intro that [OF _ assms(4,5) order_refl]) (use False in simp_all)
qed

lemma edit_loop_ok:
  assumes "tree_ok ops b t" and "sorted_by key (tree_items t)" and "0 < b"
  shows "cursor_at ops kdim t n c \<Longrightarrow> wf_tree ops b nt \<Longrightarrow> length buf + length ds \<le> CAP ^ b \<Longrightarrow>
    length (tree_items nt) + length buf + length ds + length (drop n (tree_items t)) < max_items STACK_CAP b \<Longrightarrow>
    \<exists>c' nt' buf' m. edit_loop ops kdim key ds c nt buf removed =
        Some (c', nt', buf', removed @ edits_removed key (drop n (tree_items t)) ds) \<and>
      cursor_at ops kdim t m c' \<and> wf_tree ops b nt' \<and> length buf' \<le> CAP ^ b \<and>
      length (tree_items nt') + length buf' + length (drop m (tree_items t)) < max_items STACK_CAP b \<and>
      tree_items nt' @ buf' @ drop m (tree_items t) = tree_items nt @ buf @ apply_edits key (drop n (tree_items t)) ds"
proof (induction ds arbitrary: n c nt buf removed)
  case (Cons d ds)
  let ?xs = "drop n (tree_items t)" and ?k = "edit_key key d"
  have pre: "length buf \<le> CAP ^ b" "length (tree_items nt) + length buf + length ?xs < max_items STACK_CAP b"
    using Cons.prems(3,4) by simp_all
  obtain c1 nt1 buf1 m where adv:
    "(if (case vec_first ?xs of Some y \<Rightarrow> key y < ?k | None \<Rightarrow> False) then do {
          t1 \<leftarrow> tree_extend ops nt buf;
          (sl, c1) \<leftarrow> slice ops kdim (cmp_of ?k) Left c;
          t2 \<leftarrow> append ops t1 sl;
          it \<leftarrow> item c1;
          Some (c1, t2, [], it)
        } else Some (c, nt, buf, vec_first ?xs)) = Some (c1, nt1, buf1, vec_first (drop m (tree_items t)))"
    "cursor_at ops kdim t m c1" "wf_tree ops b nt1" "length buf1 \<le> length buf"
    "tree_items nt1 @ buf1 = tree_items nt @ buf @ takeWhile (\<lambda>x. key x < ?k) ?xs"
    "drop m (tree_items t) = dropWhile (\<lambda>x. key x < ?k) ?xs"
    by (rule edit_advance [OF assms Cons.prems(1,2) pre])
  let ?ys = "drop m (tree_items t)"
  obtain c2 m2 where c2: "(case vec_first ?ys of
        Some y \<Rightarrow> if key y = ?k then do { c2 \<leftarrow> next_cursor ops kdim c1; Some (c2, removed @ [y]) } else Some (c1, removed)
      | None \<Rightarrow> Some (c1, removed)) = Some (c2, removed @ head_key key ?k ?ys)"
    "cursor_at ops kdim t m2 c2" "drop m2 (tree_items t) = drop_key key ?k ?ys"
  proof (cases "\<exists>y. vec_first ?ys = Some y \<and> key y = ?k")
    case True
    then obtain y where y: "vec_first ?ys = Some y" "key y = ?k" by blast
    then obtain zs where "?ys = y # zs" by (cases ?ys) (auto simp: vec_first_def)
    moreover obtain c' where "next_cursor ops kdim c1 = Some c'" "cursor_at ops kdim t (Suc m) c'" "drop (Suc m) (tree_items t) = tl ?ys"
      by (rule step_over [OF assms(1) adv(2) y(1)])
    ultimately show ?thesis using y by (intro that [of c' "Suc m"]) (simp_all add: head_key_def drop_key_def)
  next
    case False
    note no_key_head [OF False]
    moreover from False have "(case vec_first ?ys of
        Some y \<Rightarrow> if key y = ?k then do { c2 \<leftarrow> next_cursor ops kdim c1; Some (c2, removed @ [y]) } else Some (c1, removed)
      | None \<Rightarrow> Some (c1, removed)) = Some (c1, removed)" by (cases "vec_first ?ys") auto
    ultimately show ?thesis using adv(2) by (intro that [of c1 m]) simp_all
  qed
  let ?buf = "case d of Insert x \<Rightarrow> buf1 @ [x] | Remove _ \<Rightarrow> buf1"
  have buf: "?buf = buf1 @ inserted d" by (cases d) simp_all
  have len: "length (inserted d) \<le> 1" by (cases d) simp_all
  have lens: "length (tree_items nt1) + length buf1 + length ?ys = length (tree_items nt) + length buf + length ?xs"
    using arg_cong [OF adv(5), of length] arg_cong [OF adv(6), of length]
      arg_cong [OF takeWhile_dropWhile_id [of "\<lambda>x. key x < ?k" ?xs], of length] by (simp del: takeWhile_dropWhile_id)
  have "length (drop_key key ?k ?ys) \<le> length ?ys" by (rule length_drop_key)
  then have "length (tree_items nt1) + length (buf1 @ inserted d) + length ds + length (drop m2 (tree_items t)) < max_items STACK_CAP b"
    using Cons.prems(4) lens len c2(3) by simp
  moreover have "length (buf1 @ inserted d) + length ds \<le> CAP ^ b" using Cons.prems(3) adv(4) len by simp
  ultimately obtain c' nt' buf' m' where r: "edit_loop ops kdim key ds c2 nt1 (buf1 @ inserted d) (removed @ head_key key ?k ?ys) =
        Some (c', nt', buf', (removed @ head_key key ?k ?ys) @ edits_removed key (drop m2 (tree_items t)) ds)"
      "cursor_at ops kdim t m' c'" "wf_tree ops b nt'" "length buf' \<le> CAP ^ b"
      "length (tree_items nt') + length buf' + length (drop m' (tree_items t)) < max_items STACK_CAP b"
      "tree_items nt' @ buf' @ drop m' (tree_items t) = tree_items nt1 @ (buf1 @ inserted d) @ apply_edits key (drop m2 (tree_items t)) ds"
    using Cons.IH [OF c2(2) adv(3)] by blast
  have "edit_loop ops kdim key (d # ds) c nt buf removed =
      Some (c', nt', buf', removed @ edits_removed key ?xs (d # ds))"
    using r(1) c2(3) adv(6) by (simp add: Let_def item_head [OF tree_okD(1) [OF assms(1)] Cons.prems(1)] adv(1) c2(1) [unfolded adv(6)] buf)
  moreover have "tree_items nt' @ buf' @ drop m' (tree_items t) = tree_items nt @ buf @ apply_edits key ?xs (d # ds)"
    using r(6) adv(5,6) c2(3) by (simp add: Let_def)
  ultimately show ?case using r(2-5) by blast
next
  case Nil
  then show ?case by auto
qed

lemma tree_edit_ok:
  assumes "tree_ok ops b t" and "sorted_by key (tree_items t)" and "0 < b" and "length edits \<le> CAP ^ b"
    and "length (tree_items t) + length edits < max_items STACK_CAP b"
  shows "no_panic (tree_edit ops kdim key t edits) (\<lambda>(r, removed).
    tree_ok ops b r \<and> tree_items r = apply_edits key (tree_items t) (sort_key (edit_key key) edits) \<and>
    removed = edits_removed key (tree_items t) (sort_key (edit_key key) edits))"
proof (cases "edits = []")
  case True
  with assms(1) show ?thesis by (simp add: tree_edit_def)
next
  case False
  let ?ds = "sort_key (edit_key key) edits"
  have b: "b < STACK_CAP" "b < 256" using assms(1) by (auto simp: tree_ok_def STACK_CAP_def)
  have stop: "seek_stop ops kdim (cmp_of (dim_zero kdim)) Left t 0 = 0"
    using zero_least by (cases "tree_items t") (simp_all add: seek_stop_sorted [OF assms(2)] passes_cmp_Left not_less)
  obtain found c0 where c0: "seek ops kdim (cmp_of (dim_zero kdim)) Left (cursor_new kdim t) = Some (found, c0)"
    "cursor_at ops kdim t 0 c0"
    using seek_ok [OF tree_okD [OF assms(1)] target_mono_sorted [OF ordered_cmp_of assms(2)] _ cmp_zero, of "cursor_new kdim t" "dim_zero kdim" Left]
    by (auto simp: no_panic_def cursor_new_def Let_def stop)
  obtain c nt buf m where l: "edit_loop ops kdim key ?ds c0 (new ops) [] [] = Some (c, nt, buf, edits_removed key (tree_items t) ?ds)"
    "cursor_at ops kdim t m c" "wf_tree ops b nt" "length buf \<le> CAP ^ b"
    "length (tree_items nt) + length buf + length (drop m (tree_items t)) < max_items STACK_CAP b"
    "tree_items nt @ buf @ drop m (tree_items t) = apply_edits key (tree_items t) ?ds"
    using edit_loop_ok [OF assms(1-3) c0(2) wf_tree_new, of "[]" ?ds "[]"] assms(4,5) by auto
  have "length (tree_items nt) + length buf < max_items 256 b"
    using l(5) tree_ok_limit [OF b(1), of "length (tree_items nt) + length buf"] by simp
  from extend_ok [OF l(3,4) assms(3) b(2) this] obtain t1 where t1: "tree_extend ops nt buf = Some t1" "wf_tree ops b t1"
    "tree_items t1 = tree_items nt @ buf" by (auto simp: no_panic_def)
  obtain rest c'' where rest: "suffix ops kdim c = Some (rest, c'')" "wf_tree ops b rest" "tree_items rest = drop m (tree_items t)"
    using suffix_ok [OF tree_okD [OF assms(1)], of m c] l(2) by (auto simp: no_panic_def)
  have "length (tree_items t1 @ tree_items rest) < max_items 256 b"
    using l(5) t1(3) rest(3) tree_ok_limit [OF b(1), of "length (tree_items t1 @ tree_items rest)"] by simp
  from append_ok [OF t1(2) rest(2) this b(2)] obtain t2 where t2: "append ops t1 rest = Some t2" "wf_tree ops b t2"
    "tree_items t2 = tree_items t1 @ tree_items rest" by (auto simp: no_panic_def)
  have "tree_items t2 = apply_edits key (tree_items t) ?ds" using t2(3) t1(3) rest(3) l(6) by simp
  moreover have "tree_ok ops b t2" using t2(2,3) t1(3) rest(3) l(5) b(1) by (simp add: tree_ok_def)
  ultimately show ?thesis using False c0(1) l(1) t1(1) rest(1) t2(1) by (simp add: tree_edit_def)
qed

text \<open>\<open>find\<close> on a sorted tree returns the first item the target does not pass.\<close>

lemma tree_find_sorted:
  assumes "wf_tree ops b t" and "sorted_by key (tree_items t)" and "ordered_target tgt"
  shows "snd (snd (tree_find kdim tgt bias t)) = vec_first (dropWhile (\<lambda>x. passes tgt bias (key x)) (tree_items t))"
proof (cases "tree_items t = []")
  case True
  with assms(1) have "t = new ops" using wf_node_nonempty by (auto simp: wf_tree_def)
  then show ?thesis by (simp add: tree_find_def find_with_def new_def Let_def vec_first_def)
next
  case False
  have "map_option fst (snd (scan ops kdim (target_in_child tgt bias) p xs)) = vec_first (dropWhile (\<lambda>x. passes tgt bias (key x)) xs)"
    if "sorted_by key xs" "\<forall>x \<in> set xs. p \<le> key x" for p xs using that
  proof (induction xs arbitrary: p)
    case (Cons x xs)
    then have "dim_add kdim p (item_summary ops x) = key x" by (simp add: key_advance)
    with Cons.prems Cons.IH [of "key x"] show ?case
      by (cases "target_in_child tgt bias (key x)")
         (simp_all add: Let_def passes_in_child less_imp_le vec_first_def [of "x # xs"])
  qed (simp add: vec_first_def)
  from this [OF assms(2), of "dim_zero kdim"] zero_least
  show ?thesis unfolding tree_find_scan [OF assms(1) False target_mono_sorted [OF assms(3,2)]]
    by (auto split: prod.splits option.splits)
qed

text \<open>At the first item whose key is not below \<open>k\<close>, the end position tells whether that item has key \<open>k\<close>.\<close>

lemma end_matches:
  assumes "wf_tree ops b t" and "sorted_by key (tree_items t)" and "k \<noteq> dim_zero kdim" and "cursor_at ops kdim t m c"
    and "drop m (tree_items t) = dropWhile (\<lambda>x. key x < k) (tree_items t)"
  obtains e where "cursor_end kdim c = Some e"
    and "cmp_of k e = Equal \<longleftrightarrow> (\<exists>y. vec_first (drop m (tree_items t)) = Some y \<and> key y = k)"
proof -
  let ?xs = "tree_items t"
  have e: "cursor_end kdim c = Some (pos_at ops kdim t (min (Suc m) (length ?xs)))" by (rule cursor_end_ok [OF assms(1,4)])
  show ?thesis
  proof (cases "m < length ?xs")
    case True
    then have "pos_at ops kdim t (min (Suc m) (length ?xs)) = key (?xs ! m)" by (simp add: pos_at_sorted [OF assms(2)] min_def)
    with True e show ?thesis by (intro that [OF e]) (auto simp: vec_first_def hd_drop_conv_nth)
  next
    case False
    then have "dropWhile (\<lambda>x. key x < k) ?xs = []" by (simp flip: assms(5))
    then have all: "\<forall>x \<in> set ?xs. key x < k" by simp
    have "pos_at ops kdim t (length ?xs) = (if ?xs = [] then dim_zero kdim else key (last ?xs))"
      using pos_sorted [OF assms(2)] by (simp add: pos_at_def)
    with all assms(3) have "pos_at ops kdim t (length ?xs) \<noteq> k" by (auto simp: dest: last_in_set)
    with False show ?thesis by (intro that [OF e]) (auto simp: vec_first_def min_def)
  qed
qed

end

end
