(* ===== verification/Map_Contract.thy ===== *)
theory Map_Contract
  imports Prelude
begin

text \<open>
  The interface of the keyed collections of the program, in two layers: a map that grows by insertion
  (\<open>VecMap\<close> offers no more), and one that also removes keys (\<open>BTreeMap\<close>, \<open>TreeMap\<close>). \<open>room m\<close> says
  that one more key cannot overflow the representation. The clients below each law are proved once, for every
  collection.
\<close>

locale growing_map =
  fixes minv :: "'m \<Rightarrow> bool"
    and mabs :: "'m \<Rightarrow> 'k \<rightharpoonup> 'v"
    and mget :: "'m \<Rightarrow> 'k \<Rightarrow> 'v option"
    and minsert :: "'m \<Rightarrow> 'k \<Rightarrow> 'v \<Rightarrow> 'm panics"
    and room :: "'m \<Rightarrow> bool"
  assumes get_abs: "minv m \<Longrightarrow> mget m k = mabs m k"
    and insert_abs: "minv m \<Longrightarrow> room m \<Longrightarrow> no_panic (minsert m k v) (\<lambda>m'. minv m' \<and> mabs m' = (mabs m)(k \<mapsto> v))"
begin

lemma get_after_insert:
  assumes "minv m" and "room m"
  shows "no_panic (minsert m k v) (\<lambda>m'. mget m' k' = (if k' = k then Some v else mget m k'))"
  by (rule no_panic_mono [OF insert_abs [OF assms]]) (simp add: get_abs assms(1))

lemma contains_dom: "minv m \<Longrightarrow> mget m k \<noteq> None \<longleftrightarrow> k \<in> dom (mabs m)"
  by (simp add: get_abs dom_def)

lemma insert_dom:
  assumes "minv m" and "room m"
  shows "no_panic (minsert m k v) (\<lambda>m'. minv m' \<and> dom (mabs m') = insert k (dom (mabs m)))"
  by (rule no_panic_mono [OF insert_abs [OF assms]]) simp

end

locale map_contract = growing_map +
  fixes mremove :: "'m \<Rightarrow> 'k \<Rightarrow> ('m \<times> 'v option) panics"
  assumes remove_abs: "minv m \<Longrightarrow> no_panic (mremove m k) (\<lambda>(m', old). minv m' \<and> mabs m' = (mabs m)(k := None) \<and> old = mabs m k)"
begin

lemma remove_dom:
  assumes "minv m"
  shows "no_panic (do { (m', old) \<leftarrow> mremove m k; Some (m', old \<noteq> None) })
    (\<lambda>(m', removed). minv m' \<and> dom (mabs m') = dom (mabs m) - {k} \<and> removed = (k \<in> dom (mabs m)))"
  using remove_abs [OF assms, of k] by (auto simp: no_panic_def)

text \<open>Removing a key that was just inserted restores the map, if the key was not there before.\<close>

lemma remove_after_insert:
  assumes "minv m" and "room m" and "mget m k = None"
  shows "no_panic (do { m1 \<leftarrow> minsert m k v; mremove m1 k }) (\<lambda>(m2, old). minv m2 \<and> mabs m2 = mabs m \<and> old = Some v)"
proof (rule no_panic_bind [OF insert_abs [OF assms(1,2)]])
  fix m1 assume m1: "minv m1 \<and> mabs m1 = (mabs m)(k \<mapsto> v)"
  have "mabs m k = None" using assms(1,3) by (simp add: get_abs)
  then show "no_panic (mremove m1 k) (\<lambda>(m2, old). minv m2 \<and> mabs m2 = mabs m \<and> old = Some v)"
    using m1 by (intro no_panic_mono [OF remove_abs]) (auto simp: fun_upd_idem)
qed

end

end
