(* ===== verification/ST_Tree_Map.thy ===== *)
theory ST_Tree_Map
  imports ST_Keyed Map_Contract "HOL-Library.Option_ord"
begin

text \<open>
  The model of \<open>crates/sum_tree/src/tree_map.rs\<close>: \<open>TreeMap\<close> and \<open>TreeSet\<close>, ordered maps and sets on a
  \<open>SumTree\<close> of \<open>MapEntry\<close>, with \<open>MapKey\<close> as the summary and \<open>MapKeyRef\<close> as the dimension that is sought. Shown:
  every operation refines the corresponding operation on a finite map; the contract of the map is the locale
  \<open>map_contract\<close>, and \<open>TreeSet\<close> is verified against that contract alone.
\<close>

section \<open>Entries, keys and seek targets\<close>

record ('k, 'v) map_entry =
  me_key :: 'k
  me_value :: 'v

text \<open>\<open>MapKey<K>(Option<K>)\<close> and \<open>MapKeyRef\<close> are options; \<open>None\<close> is below every key.\<close>

definition entry :: "'k \<times> 'v \<Rightarrow> ('k, 'v) map_entry" where
  "entry p = \<lparr>me_key = fst p, me_value = snd p\<rparr>"

definition entry_pair :: "('k, 'v) map_entry \<Rightarrow> 'k \<times> 'v" where
  "entry_pair e = (me_key e, me_value e)"

definition map_entry_key :: "('k, 'v) map_entry \<Rightarrow> 'k option" where
  "map_entry_key e = Some (me_key e)"

definition map_ops :: "vec_capacity \<Rightarrow> (('k, 'v) map_entry, 'k option) item_ops" where
  "map_ops fits = \<lparr>item_summary = map_entry_key, summary_zero = None, add_summary = (\<lambda>_ s. s), vec_fits = fits\<rparr>"

definition map_key_ref :: "('k option, 'k option) dim_ops" where
  "map_key_ref = \<lparr>dim_zero = None, dim_add = (\<lambda>_ s. s)\<rparr>"

definition map_seek_target_adaptor :: "('k \<Rightarrow> ordering) \<Rightarrow> 'k option seek_target" where
  "map_seek_target_adaptor cmp_cursor cursor_location =
     (case cursor_location of Some key \<Rightarrow> cmp_cursor key | None \<Rightarrow> Greater)"

type_synonym ('k, 'v) tree_map = "(('k, 'v) map_entry, 'k option) sum_tree"

section \<open>TreeMap\<close>

definition tm_default :: "vec_capacity \<Rightarrow> ('k, 'v) tree_map" where
  "tm_default fits = new (map_ops fits)"

definition tm_from_ordered_entries :: "vec_capacity \<Rightarrow> ('k \<times> 'v) list \<Rightarrow> ('k, 'v) tree_map panics" where
  "tm_from_ordered_entries fits entries = from_iter (map_ops fits) (map entry entries)"

definition tm_is_empty :: "('k, 'v) tree_map \<Rightarrow> bool" where
  "tm_is_empty t = is_empty t"

definition tm_get :: "('k::linorder, 'v) tree_map \<Rightarrow> 'k \<Rightarrow> 'v option" where
  "tm_get t k =
     (case tree_find map_key_ref (cmp_of (Some k)) Left t of
        (_, _, Some e) \<Rightarrow> if Some k = map_entry_key e then Some (me_value e) else None
      | (_, _, None) \<Rightarrow> None)"

definition tm_contains_key :: "('k::linorder, 'v) tree_map \<Rightarrow> 'k \<Rightarrow> bool" where
  "tm_contains_key t k = (tm_get t k \<noteq> None)"

definition tm_insert_or_replace :: "vec_capacity \<Rightarrow> ('k::linorder, 'v) tree_map \<Rightarrow> 'k \<Rightarrow> 'v \<Rightarrow> (('k, 'v) tree_map \<times> 'v option) panics" where
  "tm_insert_or_replace fits t k v = do {
     (t', replaced) \<leftarrow> (let ops = map_ops fits in insert_or_replace ops (self_dim ops) map_entry_key t (entry (k, v)));
     Some (t', map_option me_value replaced)
   }"

definition tm_insert :: "vec_capacity \<Rightarrow> ('k::linorder, 'v) tree_map \<Rightarrow> 'k \<Rightarrow> 'v \<Rightarrow> ('k, 'v) tree_map panics" where
  "tm_insert fits t k v = do {
     (t', _) \<leftarrow> (let ops = map_ops fits in insert_or_replace ops (self_dim ops) map_entry_key t (entry (k, v)));
     Some t'
   }"

definition tm_extend :: "vec_capacity \<Rightarrow> ('k::linorder, 'v) tree_map \<Rightarrow> ('k \<times> 'v) list \<Rightarrow> ('k, 'v) tree_map panics" where
  "tm_extend fits t entries = do {
     let edits = map (\<lambda>p. Insert (entry p)) entries;
     (t', _) \<leftarrow> (let ops = map_ops fits in tree_edit ops (self_dim ops) map_entry_key t edits);
     Some t'
   }"

definition tm_clear :: "vec_capacity \<Rightarrow> ('k, 'v) tree_map \<Rightarrow> ('k, 'v) tree_map" where
  "tm_clear fits t = new (map_ops fits)"

definition tm_remove :: "vec_capacity \<Rightarrow> ('k::linorder, 'v) tree_map \<Rightarrow> 'k \<Rightarrow> (('k, 'v) tree_map \<times> 'v option) panics" where
  "tm_remove fits t k = do {
     (new_tree, c) \<leftarrow> slice (map_ops fits) map_key_ref (cmp_of (Some k)) Left (cursor_new map_key_ref t);
     end_pos \<leftarrow> cursor_end map_key_ref c;
     (removed, c') \<leftarrow>
       (if cmp_of (Some k) end_pos = Equal then do {
          it \<leftarrow> item c;
          e \<leftarrow> it;
          c' \<leftarrow> next_cursor (map_ops fits) map_key_ref c;
          Some (Some (me_value e), c')
        } else Some (None, c));
     (rest, _) \<leftarrow> suffix (map_ops fits) map_key_ref c';
     t' \<leftarrow> append (map_ops fits) new_tree rest;
     Some (t', removed)
   }"

definition tm_remove_range :: "vec_capacity \<Rightarrow> ('k::linorder, 'v) tree_map \<Rightarrow> ('k \<Rightarrow> ordering) \<Rightarrow> ('k \<Rightarrow> ordering) \<Rightarrow> ('k, 'v) tree_map panics" where
  "tm_remove_range fits t start_cmp end_cmp = do {
     (new_tree, c) \<leftarrow> slice (map_ops fits) map_key_ref (map_seek_target_adaptor start_cmp) Left (cursor_new map_key_ref t);
     (_, c') \<leftarrow> seek (map_ops fits) map_key_ref (map_seek_target_adaptor end_cmp) Left c;
     (rest, _) \<leftarrow> suffix (map_ops fits) map_key_ref c';
     append (map_ops fits) new_tree rest
   }"

definition tm_closest :: "vec_capacity \<Rightarrow> ('k::linorder, 'v) tree_map \<Rightarrow> 'k \<Rightarrow> ('k \<times> 'v) option panics" where
  "tm_closest fits t k = do {
     (_, c) \<leftarrow> seek (map_ops fits) map_key_ref (cmp_of (Some k)) Right (cursor_new map_key_ref t);
     c' \<leftarrow> prev_cursor (map_ops fits) map_key_ref c;
     r \<leftarrow> item c';
     Some (map_option entry_pair r)
   }"

text \<open>The iterators are represented by what draining them yields.\<close>

definition tm_iter_from :: "vec_capacity \<Rightarrow> ('k::linorder, 'v) tree_map \<Rightarrow> 'k \<Rightarrow> ('k \<times> 'v) list panics" where
  "tm_iter_from fits t from = do {
     (_, c) \<leftarrow> seek (map_ops fits) map_key_ref (cmp_of (Some from)) Left (cursor_new map_key_ref t);
     es \<leftarrow> drain (cursor_iter_next (map_ops fits) map_key_ref) c;
     Some (map entry_pair es)
   }"

definition tm_update :: "vec_capacity \<Rightarrow> ('k::linorder, 'v) tree_map \<Rightarrow> 'k \<Rightarrow> ('v \<Rightarrow> 'r \<times> 'v) \<Rightarrow> (('k, 'v) tree_map \<times> 'r option) panics" where
  "tm_update fits t k f = do {
     (new_tree, c) \<leftarrow> slice (map_ops fits) map_key_ref (cmp_of (Some k)) Left (cursor_new map_key_ref t);
     end_pos \<leftarrow> cursor_end map_key_ref c;
     (result, new_tree', c') \<leftarrow>
       (if cmp_of (Some k) end_pos = Equal then do {
          it \<leftarrow> item c;
          e \<leftarrow> it;
          let (res, v') = f (me_value e);
          nt \<leftarrow> push (map_ops fits) new_tree (e\<lparr>me_value := v'\<rparr>);
          c' \<leftarrow> next_cursor (map_ops fits) map_key_ref c;
          Some (Some res, nt, c')
        } else Some (None, new_tree, c));
     (rest, _) \<leftarrow> suffix (map_ops fits) map_key_ref c';
     t' \<leftarrow> append (map_ops fits) new_tree' rest;
     Some (t', result)
   }"

partial_function (option) tm_retain_loop :: "vec_capacity \<Rightarrow> ('k::linorder \<Rightarrow> 'v \<Rightarrow> bool) \<Rightarrow> (('k, 'v) map_entry, 'k option, 'k option) cursor \<Rightarrow>
    ('k, 'v) tree_map \<Rightarrow> ('k, 'v) tree_map panics" where
  "tm_retain_loop fits predicate c new_map = do {
     r \<leftarrow> item c;
     case r of
       Some e \<Rightarrow> do {
         new_map' \<leftarrow> (if predicate (me_key e) (me_value e) then push (map_ops fits) new_map e else Some new_map);
         c' \<leftarrow> next_cursor (map_ops fits) map_key_ref c;
         tm_retain_loop fits predicate c' new_map'
       }
     | None \<Rightarrow> Some new_map
   }"

definition tm_retain :: "vec_capacity \<Rightarrow> ('k::linorder, 'v) tree_map \<Rightarrow> ('k \<Rightarrow> 'v \<Rightarrow> bool) \<Rightarrow> ('k, 'v) tree_map panics" where
  "tm_retain fits t predicate = do {
     c \<leftarrow> next_cursor (map_ops fits) map_key_ref (cursor_new map_key_ref t);
     tm_retain_loop fits predicate c (new (map_ops fits))
   }"

definition tm_iter :: "vec_capacity \<Rightarrow> ('k, 'v) tree_map \<Rightarrow> ('k \<times> 'v) list panics" where
  "tm_iter fits t = do { es \<leftarrow> drain (iter_next (map_ops fits)) (iter_new t); Some (map entry_pair es) }"

definition tm_values :: "vec_capacity \<Rightarrow> ('k, 'v) tree_map \<Rightarrow> 'v list panics" where
  "tm_values fits t = do { es \<leftarrow> drain (iter_next (map_ops fits)) (iter_new t); Some (map me_value es) }"

definition tm_first :: "('k, 'v) tree_map \<Rightarrow> ('k \<times> 'v) option panics" where
  "tm_first t = do { r \<leftarrow> tree_first t; Some (map_option entry_pair r) }"

definition tm_last :: "('k, 'v) tree_map \<Rightarrow> ('k \<times> 'v) option panics" where
  "tm_last t = do { r \<leftarrow> tree_last t; Some (map_option entry_pair r) }"

definition tm_insert_tree :: "vec_capacity \<Rightarrow> ('k::linorder, 'v) tree_map \<Rightarrow> ('k, 'v) tree_map \<Rightarrow> ('k, 'v) tree_map panics" where
  "tm_insert_tree fits t other = do {
     entries \<leftarrow> tm_iter fits other;
     let edits = map (\<lambda>p. Insert (entry p)) entries;
     (t', _) \<leftarrow> (let ops = map_ops fits in tree_edit ops (self_dim ops) map_entry_key t edits);
     Some t'
   }"

section \<open>TreeSet\<close>

type_synonym 'k tree_set = "('k, unit) tree_map"

definition ts_from_ordered_entries :: "vec_capacity \<Rightarrow> 'k list \<Rightarrow> 'k tree_set panics" where
  "ts_from_ordered_entries fits entries = tm_from_ordered_entries fits (map (\<lambda>k. (k, ())) entries)"

definition ts_is_empty :: "'k tree_set \<Rightarrow> bool" where
  "ts_is_empty s = tm_is_empty s"

definition ts_insert :: "vec_capacity \<Rightarrow> 'k::linorder tree_set \<Rightarrow> 'k \<Rightarrow> 'k tree_set panics" where
  "ts_insert fits s k = tm_insert fits s k ()"

definition ts_remove :: "vec_capacity \<Rightarrow> 'k::linorder tree_set \<Rightarrow> 'k \<Rightarrow> ('k tree_set \<times> bool) panics" where
  "ts_remove fits s k = do { (s', removed) \<leftarrow> tm_remove fits s k; Some (s', removed \<noteq> None) }"

definition ts_extend :: "vec_capacity \<Rightarrow> 'k::linorder tree_set \<Rightarrow> 'k list \<Rightarrow> 'k tree_set panics" where
  "ts_extend fits s ks = tm_extend fits s (map (\<lambda>k. (k, ())) ks)"

definition ts_contains :: "'k::linorder tree_set \<Rightarrow> 'k \<Rightarrow> bool" where
  "ts_contains s k = (tm_get s k \<noteq> None)"

definition ts_iter :: "vec_capacity \<Rightarrow> 'k tree_set \<Rightarrow> 'k list panics" where
  "ts_iter fits s = do { ps \<leftarrow> tm_iter fits s; Some (map fst ps) }"

definition ts_iter_from :: "vec_capacity \<Rightarrow> 'k::linorder tree_set \<Rightarrow> 'k \<Rightarrow> 'k list panics" where
  "ts_iter_from fits s k = do { ps \<leftarrow> tm_iter_from fits s k; Some (map fst ps) }"

section \<open>The laws of the key\<close>

text \<open>What is assumed of \<open>heapless::Vec\<close>: a vector of capacity \<open>c\<close> takes up to \<open>c\<close> elements.\<close>

locale heapless_vec =
  fixes fits :: vec_capacity
  assumes fits_holds: "n \<le> c \<Longrightarrow> fits c n"

lemma map_ops_simps [simp]:
  "item_summary (map_ops fits) = map_entry_key" "summary_zero (map_ops fits) = None"
  "add_summary (map_ops fits) = (\<lambda>_ s. s)" "vec_fits (map_ops fits) = fits"
  "dim_zero map_key_ref = None" "dim_add map_key_ref = (\<lambda>_ s. s)"
  by (simp_all add: map_ops_def map_key_ref_def)

text \<open>\<open>T::Key\<close> is \<open>MapKey\<close>, a dimension of itself; it measures what \<open>MapKeyRef\<close> measures.\<close>

lemma self_dim_map [simp]: "self_dim (map_ops fits) = map_key_ref"
  by (simp add: self_dim_def map_key_ref_def)

sublocale heapless_vec \<subseteq> mk: keyed_laws "map_ops fits :: (('k::linorder, 'v) map_entry, 'k option) item_ops" map_key_ref map_entry_key
  by unfold_locales (simp_all add: fits_holds)

section \<open>Invariant and abstraction\<close>

definition tm_abs :: "('k, 'v) tree_map \<Rightarrow> 'k \<rightharpoonup> 'v" where
  "tm_abs t = map_of (map entry_pair (tree_items t))"

definition tm_inv :: "vec_capacity \<Rightarrow> nat \<Rightarrow> ('k::linorder, 'v) tree_map \<Rightarrow> bool" where
  "tm_inv fits b t \<longleftrightarrow> tree_ok (map_ops fits) b t \<and> sorted_by map_entry_key (tree_items t)"

definition tm_size :: "('k, 'v) tree_map \<Rightarrow> nat" where
  "tm_size t = length (tree_items t)"

lemma entry_simps [simp]:
  "map_entry_key (entry p) = Some (fst p)" "entry_pair (entry p) = p" "me_value (entry p) = snd p" "me_key (entry p) = fst p"
  "entry (entry_pair e) = e" "map_entry_key e = Some k \<longleftrightarrow> me_key e = k"
  "Some k = map_entry_key e \<longleftrightarrow> me_key e = k" "map_entry_key e < Some k \<longleftrightarrow> me_key e < k" "map_entry_key e \<le> Some k \<longleftrightarrow> me_key e \<le> k"
  for k :: "'k::linorder"
  by (auto simp: entry_def map_entry_key_def entry_pair_def)

lemma lookup_map_of: "map_option me_value (lookup map_entry_key xs (Some k)) = map_of (map entry_pair xs) k"
  by (induction xs) (simp_all add: lookup_Cons entry_pair_def map_entry_key_def)

lemma vec_first_Some: "vec_first xs = Some y \<Longrightarrow> \<exists>ys. xs = y # ys"
  by (cases xs) (simp_all add: vec_first_def)

lemma tm_abs_lookup: "tm_abs t k = map_option me_value (lookup map_entry_key (tree_items t) (Some k))"
  by (simp add: tm_abs_def lookup_map_of)

text \<open>The abstraction of an edited list.\<close>

lemma map_of_apply_edits:
  assumes "sorted_by map_entry_key xs" and "sorted_by (edit_key map_entry_key) ds"
  shows "map_of (map entry_pair (apply_edits map_entry_key xs ds)) k =
    (case find (\<lambda>d. edit_key map_entry_key d = Some k) ds of
       Some (Insert e) \<Rightarrow> Some (me_value e) | Some (Remove _) \<Rightarrow> None | None \<Rightarrow> map_of (map entry_pair xs) k)"
  unfolding lookup_map_of [symmetric] lookup_apply_edits [OF assms]
  by (simp split: option.splits edit.splits)

context heapless_vec
begin

lemma inv_wf: "tm_inv fits b t \<Longrightarrow> wf_tree (map_ops fits) b t \<and> node_height t < STACK_CAP \<and> length (tree_items t) < limit b"
  by (auto simp: tm_inv_def dest: tree_okD)

lemma tm_default_ok: "b < STACK_CAP \<Longrightarrow> tm_inv fits b (tm_default fits) \<and> tm_abs (tm_default fits) = Map.empty"
  using max_items_pos [of STACK_CAP b] by (simp add: tm_inv_def tm_default_def tm_abs_def tree_ok_def)

lemma tm_get_ok:
  assumes "tm_inv fits b t"
  shows "tm_get t k = tm_abs t k"
proof -
  have t: "wf_tree (map_ops fits) b t" "sorted_by map_entry_key (tree_items t)" using assms inv_wf by (auto simp: tm_inv_def)
  let ?D = "dropWhile (\<lambda>x. map_entry_key x < Some k) (tree_items t)"
  have "snd (snd (tree_find map_key_ref (cmp_of (Some k)) Left t)) = vec_first ?D"
    using mk.tree_find_sorted [OF t ordered_cmp_of, of "Some k" Left] by (simp add: mk.passes_cmp_Left)
  then show ?thesis unfolding tm_abs_lookup lookup_split [OF t(2)]
    by (auto simp: tm_get_def split: prod.splits option.splits)
qed

lemma tm_insert_or_replace_ok:
  assumes "tm_inv fits b t" and "Suc (tm_size t) < max_items STACK_CAP b"
  shows "no_panic (tm_insert_or_replace fits t k v) (\<lambda>(r, replaced).
    tm_inv fits b r \<and> tm_abs r = (tm_abs t)(k \<mapsto> v) \<and> replaced = tm_abs t k)"
proof -
  have t: "tree_ok (map_ops fits) b t" "sorted_by map_entry_key (tree_items t)" using assms(1) by (auto simp: tm_inv_def)
  let ?r = "apply_edits map_entry_key (tree_items t) [Insert (entry (k, v))]"
  obtain r where r: "insert_or_replace (map_ops fits) map_key_ref map_entry_key t (entry (k, v)) = Some (r, lookup map_entry_key (tree_items t) (Some k))"
    "tree_ok (map_ops fits) b r" "tree_items r = ?r"
    using mk.insert_or_replace_ok [OF t, of "entry (k, v)"] assms(2) by (auto simp: no_panic_def tm_size_def)
  have s: "sorted_by (edit_key map_entry_key) [Insert (entry (k, v))]" by simp
  have "tm_abs r = (tm_abs t)(k \<mapsto> v)"
    by (rule ext) (simp add: tm_abs_def r(3) map_of_apply_edits [OF t(2) s] del: apply_edits.simps)
  moreover have "tm_inv fits b r" using r(2,3) apply_edits_sorted [OF t(2) s] by (simp add: tm_inv_def)
  ultimately show ?thesis using r(1) by (simp add: tm_insert_or_replace_def tm_abs_lookup)
qed

lemma tm_insert_ok:
  assumes "tm_inv fits b t" and "Suc (tm_size t) < max_items STACK_CAP b"
  shows "no_panic (tm_insert fits t k v) (\<lambda>r. tm_inv fits b r \<and> tm_abs r = (tm_abs t)(k \<mapsto> v))"
proof -
  have "tm_insert fits t k v = map_option fst (tm_insert_or_replace fits t k v)"
    by (cases "insert_or_replace (map_ops fits) map_key_ref map_entry_key t (entry (k, v))")
       (auto simp: tm_insert_def tm_insert_or_replace_def)
  with tm_insert_or_replace_ok [OF assms, of k v] show ?thesis by (auto simp: no_panic_def)
qed

text \<open>\<open>TreeMap::remove\<close> finds the entry by the end position of the cursor; it does what \<open>SumTree::remove\<close> does.\<close>

lemma tm_remove_eq:
  assumes "tm_inv fits b t"
  shows "tm_remove fits t k =
    map_option (\<lambda>(r, removed). (r, map_option me_value removed)) (tree_remove (map_ops fits) map_key_ref map_entry_key t (Some k))"
proof -
  let ?D = "dropWhile (\<lambda>x. map_entry_key x < Some k) (tree_items t)"
  have t: "tree_ok (map_ops fits) b t" "sorted_by map_entry_key (tree_items t)" "wf_tree (map_ops fits) b t"
    using assms inv_wf by (auto simp: tm_inv_def)
  have pos: "cmp_of (Some k) (cur_position (cursor_new map_key_ref t)) \<noteq> Less" by (simp add: cursor_new_def)
  note cut = mk.slice_key [OF t(1,2) ordered_cmp_of disjI2 [OF conjI [OF refl refl]] pos, of Left, unfolded mk.passes_cmp_Left drop_0]
  obtain r m c where r: "slice (map_ops fits) map_key_ref (cmp_of (Some k)) Left (cursor_new map_key_ref t) = Some (r, c)"
    "cursor_at (map_ops fits) map_key_ref t m c" "drop m (tree_items t) = ?D" "item c = Some (vec_first ?D)"
    by (rule cut)
  have k: "Some k \<noteq> dim_zero map_key_ref" by simp
  obtain e where e: "cursor_end map_key_ref c = Some e"
    "cmp_of (Some k) e = Equal \<longleftrightarrow> (\<exists>y. vec_first (drop m (tree_items t)) = Some y \<and> map_entry_key y = Some k)"
    by (rule mk.end_matches [OF t(3,2) k r(2,3)])
  show ?thesis
  proof (cases "\<exists>y. vec_first ?D = Some y \<and> map_entry_key y = Some k")
    case True
    then obtain y where y: "vec_first ?D = Some y" "map_entry_key y = Some k" by blast
    then have "cmp_of (Some k) e = Equal" using e(2) r(3) by simp
    with y show ?thesis unfolding tm_remove_def tree_remove_def r(1) using r(4) e(1)
      by (cases "next_cursor (map_ops fits) map_key_ref c") (auto simp: map_option_case split: option.splits prod.splits bind_splits)
  next
    case False
    then have "cmp_of (Some k) e \<noteq> Equal" using e(2) r(3) by simp
    with False show ?thesis unfolding tm_remove_def tree_remove_def r(1) using r(4) e(1)
      by (auto simp: map_option_case split: option.splits prod.splits bind_splits)
  qed
qed

lemma tm_remove_ok:
  assumes "tm_inv fits b t"
  shows "no_panic (tm_remove fits t k) (\<lambda>(r, removed). tm_inv fits b r \<and> tm_abs r = (tm_abs t)(k := None) \<and> removed = tm_abs t k)"
proof -
  have t: "tree_ok (map_ops fits) b t" "sorted_by map_entry_key (tree_items t)" using assms by (auto simp: tm_inv_def)
  let ?r = "apply_edits map_entry_key (tree_items t) [Remove (Some k)]"
  obtain r where r: "tree_remove (map_ops fits) map_key_ref map_entry_key t (Some k) = Some (r, lookup map_entry_key (tree_items t) (Some k))"
    "tree_ok (map_ops fits) b r" "tree_items r = ?r"
    using mk.tree_remove_ok [OF t, of "Some k"] by (auto simp: no_panic_def)
  have s: "sorted_by (edit_key map_entry_key) [Remove (Some k)]" by simp
  have "tm_abs r = (tm_abs t)(k := None)"
    by (rule ext) (simp add: tm_abs_def r(3) map_of_apply_edits [OF t(2) s] del: apply_edits.simps)
  moreover have "tm_inv fits b r" using r(2,3) apply_edits_sorted [OF t(2) s] by (simp add: tm_inv_def)
  ultimately show ?thesis using r(1) by (simp add: tm_remove_eq [OF assms] tm_abs_lookup)
qed

text \<open>Reading operations.\<close>

lemma tm_iter_ok: "tm_inv fits b t \<Longrightarrow> tm_iter fits t = Some (map entry_pair (tree_items t))"
  using mk.iter_drain [of b t] inv_wf [of b t] by (simp add: tm_iter_def)

lemma tm_values_ok: "tm_inv fits b t \<Longrightarrow> tm_values fits t = Some (map me_value (tree_items t))"
  using mk.iter_drain [of b t] inv_wf [of b t] by (simp add: tm_values_def)

lemma tm_first_last_ok:
  assumes "tm_inv fits b t"
  shows "tm_first t = Some (vec_first (map entry_pair (tree_items t)))" and "tm_last t = Some (vec_last (map entry_pair (tree_items t)))"
  using first_last_ok [of "map_ops fits" b t] inv_wf [OF assms]
  by (simp_all add: tm_first_def tm_last_def vec_first_def vec_last_def hd_map last_map)

lemma tm_iter_from_ok:
  assumes "tm_inv fits b t"
  shows "tm_iter_from fits t k = Some (filter (\<lambda>p. k \<le> fst p) (map entry_pair (tree_items t)))"
proof -
  have t: "tree_ok (map_ops fits) b t" "sorted_by map_entry_key (tree_items t)" using assms by (auto simp: tm_inv_def)
  let ?P = "\<lambda>x. me_key x < k"
  have stop: "seek_stop (map_ops fits) map_key_ref (cmp_of (Some k)) Left t 0 = length (takeWhile ?P (tree_items t))"
    using mk.seek_stop_sorted [OF t(2), of "cmp_of (Some k)" Left 0] by (simp add: mk.passes_cmp_Left)
  obtain f c where c: "seek (map_ops fits) map_key_ref (cmp_of (Some k)) Left (cursor_new map_key_ref t) = Some (f, c)"
    "cursor_at (map_ops fits) map_key_ref t (length (takeWhile ?P (tree_items t))) c"
    using mk.seek_ok [OF tree_okD [OF t(1)] mk.target_mono_sorted [OF ordered_cmp_of t(2)], of "cursor_new map_key_ref t" "Some k" Left] stop
    by (auto simp: no_panic_def cursor_new_def Let_def)
  have "drop (length (takeWhile ?P (tree_items t))) (tree_items t) = dropWhile (\<lambda>x. map_entry_key x < Some k) (tree_items t)"
    by (simp add: dropWhile_eq_drop)
  also have "\<dots> = filter (\<lambda>x. Some k \<le> map_entry_key x) (tree_items t)" by (rule dropWhile_sorted [OF t(2)])
  also have "map entry_pair \<dots> = filter (\<lambda>p. k \<le> fst p) (map entry_pair (tree_items t))"
    by (simp add: filter_map comp_def entry_pair_def map_entry_key_def)
  finally show ?thesis using mk.cursor_drain [OF tree_okD(1,2) [OF t(1)] c(2)] c(1) by (simp add: tm_iter_from_def)
qed

text \<open>\<open>closest\<close>: the entry with the greatest key that is not above the given one.\<close>

lemma takeWhile_le_sorted: "sorted_by map_entry_key xs \<Longrightarrow> takeWhile (\<lambda>x. me_key x \<le> k) xs = filter (\<lambda>x. me_key x \<le> k) xs"
proof (induction xs)
  case (Cons x xs)
  show ?case
  proof (cases "me_key x \<le> k")
    case False
    then have "\<forall>y \<in> set xs. \<not> me_key y \<le> k" using Cons.prems by (fastforce simp: map_entry_key_def)
    with False show ?thesis by (simp add: filter_empty_conv)
  qed (use Cons in simp)
qed simp

lemma tm_closest_ok:
  assumes "tm_inv fits b t"
  shows "tm_closest fits t k = Some (vec_last (filter (\<lambda>p. fst p \<le> k) (map entry_pair (tree_items t))))"
proof -
  have t: "tree_ok (map_ops fits) b t" "sorted_by map_entry_key (tree_items t)" using assms by (auto simp: tm_inv_def)
  let ?xs = "tree_items t"
  define ys where "ys = takeWhile (\<lambda>x. me_key x \<le> k) ?xs"
  have pass: "passes (cmp_of (Some k)) Right (map_entry_key x) \<longleftrightarrow> me_key x \<le> k" for x :: "('a, 'b) map_entry"
    by (auto simp: passes_def cmp_of_def map_entry_key_def)
  have stop: "seek_stop (map_ops fits) map_key_ref (cmp_of (Some k)) Right t 0 = length ys"
    using mk.seek_stop_sorted [OF t(2), of "cmp_of (Some k)" Right 0] by (simp add: pass ys_def)
  obtain f c where c: "seek (map_ops fits) map_key_ref (cmp_of (Some k)) Right (cursor_new map_key_ref t) = Some (f, c)"
    "cursor_at (map_ops fits) map_key_ref t (length ys) c"
    using mk.seek_ok [OF tree_okD [OF t(1)] mk.target_mono_sorted [OF ordered_cmp_of t(2)], of "cursor_new map_key_ref t" "Some k" Right] stop
    by (auto simp: no_panic_def cursor_new_def Let_def)
  obtain c' where c': "prev_cursor (map_ops fits) map_key_ref c = Some c'"
    "if length ys = 0 then before_first map_key_ref t c' \<and> did_seek c' else cursor_at (map_ops fits) map_key_ref t (length ys - 1) c'"
    using mk.prev_cursor_ok [OF tree_okD(1,2) [OF t(1)] c(2)] by (auto simp: no_panic_def)
  have "item c' = Some (vec_last ys)"
  proof (cases "ys = []")
    case True
    with c'(2) have "cur_stack c' = []" "did_seek c'" by (cases c', simp add: before_first_def cursor_new_def)+
    with True show ?thesis by (simp add: item_def vec_last_def)
  next
    case False
    then have at: "cursor_at (map_ops fits) map_key_ref t (length ys - 1) c'" using c'(2) by simp
    have "?xs = ys @ dropWhile (\<lambda>x. me_key x \<le> k) ?xs" by (simp add: ys_def)
    then obtain zs where "?xs = ys @ zs" by blast
    moreover have "length ys - 1 < length ys + length zs" using False by (cases ys) simp_all
    ultimately show ?thesis using False mk.item_ok [OF tree_okD(1) [OF t(1)] at]
      by (simp add: vec_last_def nth_append last_conv_nth)
  qed
  moreover have "map entry_pair ys = filter (\<lambda>p. fst p \<le> k) (map entry_pair ?xs)"
    by (simp add: ys_def takeWhile_le_sorted [OF t(2)] filter_map comp_def entry_pair_def)
  moreover have "map_option entry_pair (vec_last ys) = vec_last (map entry_pair ys)"
    by (simp add: vec_last_def last_map)
  ultimately show ?thesis using c(1) c'(1) by (simp add: tm_closest_def)
qed

text \<open>\<open>retain\<close> rebuilds the map from the entries the predicate keeps.\<close>

lemma tm_retain_loop_ok:
  assumes "tm_inv fits b t" and "cursor_at (map_ops fits) map_key_ref t n c" and "wf_tree (map_ops fits) b m"
    and "tree_items m = filter (\<lambda>e. P (me_key e) (me_value e)) (take n (tree_items t))"
  shows "no_panic (tm_retain_loop fits P c m) (\<lambda>r. wf_tree (map_ops fits) b r \<and>
    tree_items r = filter (\<lambda>e. P (me_key e) (me_value e)) (tree_items t))"
  using assms(2-4)
proof (induction "length (tree_items t) - n" arbitrary: n c m rule: less_induct)
  case less
  let ?xs = "tree_items t" and ?p = "\<lambda>e. P (me_key e) (me_value e)"
  have t: "tree_ok (map_ops fits) b t" using assms(1) by (simp add: tm_inv_def)
  note it = mk.item_ok [OF tree_okD(1) [OF t] less.prems(1)]
  show ?case
  proof (cases "n < length ?xs")
    case True
    let ?e = "?xs ! n"
    obtain c' where c': "next_cursor (map_ops fits) map_key_ref c = Some c'" "cursor_at (map_ops fits) map_key_ref t (Suc n) c'"
      using mk.next_cursor_ok [OF tree_okD(1,2) [OF t] less.prems(1)] True by (auto simp: no_panic_def)
    have "length (filter ?p (take n ?xs)) \<le> n" using length_filter_le [of ?p "take n ?xs"] by simp
    then have "Suc (length (tree_items m)) < max_items 256 b" "b < 256"
      using True less.prems(3) t tree_ok_limit [of b "length ?xs"] by (auto simp: tree_ok_def)
    with mk.push_ok_items [OF less.prems(2)] obtain m' where m': "(if ?p ?e then push (map_ops fits) m ?e else Some m) = Some m'"
      "wf_tree (map_ops fits) b m'" "tree_items m' = filter ?p (take (Suc n) ?xs)"
      using less.prems(2,3) True by (cases "?p ?e") (auto simp: no_panic_def take_Suc_conv_app_nth)
    from less.hyps [of "Suc n" c' m'] True c' m'(2,3)
    have "no_panic (tm_retain_loop fits P c' m') (\<lambda>r. wf_tree (map_ops fits) b r \<and> tree_items r = filter ?p ?xs)" by simp
    with it True m'(1) c'(1) show ?thesis by (subst tm_retain_loop.simps) simp
  next
    case False
    with it less.prems show ?thesis by (subst tm_retain_loop.simps) (simp add: cursor_at_def)
  qed
qed

lemma map_of_filter_sorted:
  assumes "sorted_by map_entry_key xs"
  shows "map_of (map entry_pair (filter P xs)) k =
    (case lookup map_entry_key xs (Some k) of Some e \<Rightarrow> if P e then Some (me_value e) else None | None \<Rightarrow> None)"
  using assms
proof (induction xs)
  case (Cons x xs)
  have "lookup map_entry_key (filter P xs) (Some k) = None" "lookup map_entry_key xs (Some k) = None" if "me_key x = k"
    using Cons.prems that by (fastforce intro!: lookup_None simp: map_entry_key_def)+
  with Cons show ?case by (auto simp: lookup_Cons lookup_map_of [symmetric] entry_pair_def)
qed simp

lemma tm_abs_filter:
  assumes "tm_inv fits b t" and "wf_tree (map_ops fits) b r" and "tree_items r = filter P (tree_items t)"
  shows "tm_inv fits b r \<and> tm_abs r = (\<lambda>k. case lookup map_entry_key (tree_items t) (Some k) of
      Some e \<Rightarrow> if P e then Some (me_value e) else None | None \<Rightarrow> None)"
proof -
  have "length (filter P (tree_items t)) < max_items STACK_CAP b"
    by (rule le_less_trans [OF length_filter_le]) (use assms(1) in \<open>simp add: tm_inv_def tree_ok_def\<close>)
  with assms show ?thesis
    by (auto simp: tm_inv_def tree_ok_def sorted_by_filter tm_abs_def map_of_filter_sorted)
qed

lemma tm_retain_ok:
  assumes "tm_inv fits b t"
  shows "no_panic (tm_retain fits t P) (\<lambda>r. tm_inv fits b r \<and>
    tm_abs r = (\<lambda>k. case tm_abs t k of Some v \<Rightarrow> if P k v then Some v else None | None \<Rightarrow> None))"
proof -
  have t: "tree_ok (map_ops fits) b t" "sorted_by map_entry_key (tree_items t)" using assms by (auto simp: tm_inv_def)
  have "before_first map_key_ref t (cursor_new map_key_ref t)" by (simp add: before_first_def cursor_new_def)
  then obtain c where c: "next_cursor (map_ops fits) map_key_ref (cursor_new map_key_ref t) = Some c" "cursor_at (map_ops fits) map_key_ref t 0 c"
    using mk.next_cursor_first [OF tree_okD(1,2) [OF t(1)]] by (auto simp: no_panic_def)
  from tm_retain_loop_ok [OF assms c(2), of "new (map_ops fits)" P]
  obtain r where r: "tm_retain_loop fits P c (new (map_ops fits)) = Some r" "wf_tree (map_ops fits) b r"
    "tree_items r = filter (\<lambda>e. P (me_key e) (me_value e)) (tree_items t)" by (auto simp: no_panic_def)
  have "me_key e = k" if "lookup map_entry_key (tree_items t) (Some k) = Some e" for k e
    using that lookup_Some_iff [OF t(2)] by auto
  then show ?thesis using c(1) r(1) tm_abs_filter [OF assms r(2,3)]
    by (auto simp: tm_retain_def tm_abs_lookup split: option.splits)
qed

text \<open>\<open>remove_range\<close> with ordered bounds, the first not behind the second.\<close>

lemma adaptor_ordered: "ordered_target cmp \<Longrightarrow> ordered_target (map_seek_target_adaptor cmp)"
  by (auto simp: ordered_target_def map_seek_target_adaptor_def split: option.splits)

lemma passes_adaptor: "passes (map_seek_target_adaptor cmp) Left (map_entry_key e) \<longleftrightarrow> cmp (me_key e) = Greater"
  by (auto simp: passes_def map_seek_target_adaptor_def map_entry_key_def)

lemma takeWhile_cmp_sorted:
  "sorted_by map_entry_key xs \<Longrightarrow> ordered_target cmp \<Longrightarrow>
   takeWhile (\<lambda>e. cmp (me_key e) = Greater) xs = filter (\<lambda>e. cmp (me_key e) = Greater) xs \<and>
   dropWhile (\<lambda>e. cmp (me_key e) = Greater) xs = filter (\<lambda>e. cmp (me_key e) \<noteq> Greater) xs"
proof (induction xs)
  case (Cons x xs)
  show ?case
  proof (cases "cmp (me_key x) = Greater")
    case False
    have "me_key x \<le> me_key y" if "y \<in> set xs" for y
      using Cons.prems(1) that by (auto simp: map_entry_key_def less_imp_le)
    with False have "\<forall>y \<in> set xs. cmp (me_key y) \<noteq> Greater"
      using Cons.prems(2) unfolding ordered_target_def by blast
    with False show ?thesis by (simp add: filter_empty_conv filter_id_conv)
  qed (use Cons in simp)
qed simp

lemma tm_remove_range_ok:
  assumes "tm_inv fits b t" and "ordered_target lo" and "ordered_target hi" and "\<And>k. lo k = Greater \<Longrightarrow> hi k = Greater"
  shows "no_panic (tm_remove_range fits t lo hi) (\<lambda>r. tm_inv fits b r \<and>
    tm_abs r = (tm_abs t) |` {k. lo k = Greater \<or> hi k \<noteq> Greater})"
proof -
  have t: "tree_ok (map_ops fits) b t" "sorted_by map_entry_key (tree_items t)" using assms by (auto simp: tm_inv_def)
  have b: "b < STACK_CAP" "b < 256" using t(1) by (auto simp: tree_ok_def STACK_CAP_def)
  let ?xs = "tree_items t"
  let ?lo = "map_seek_target_adaptor lo" and ?hi = "map_seek_target_adaptor hi"
  have pos: "?lo (cur_position (cursor_new map_key_ref t)) \<noteq> Less" by (simp add: cursor_new_def map_seek_target_adaptor_def)
  note cut = mk.slice_key [OF t adaptor_ordered [OF assms(2)] disjI2 [OF conjI [OF refl refl]] pos, of Left, unfolded passes_adaptor drop_0]
  obtain r m c where r: "slice (map_ops fits) map_key_ref ?lo Left (cursor_new map_key_ref t) = Some (r, c)"
    "wf_tree (map_ops fits) b r" "cursor_at (map_ops fits) map_key_ref t m c"
    "tree_items r = takeWhile (\<lambda>e. lo (me_key e) = Greater) ?xs"
    by (rule cut)
  let ?n = "length (takeWhile (\<lambda>e. hi (me_key e) = Greater) ?xs)"
  have ct: "cur_tree c = t" using r(3) by (simp add: cursor_at_def)
  have zero: "?hi (dim_zero map_key_ref) \<noteq> Less" by (simp add: map_seek_target_adaptor_def)
  obtain f c' where c': "seek (map_ops fits) map_key_ref ?hi Left c = Some (f, c')" "cursor_at (map_ops fits) map_key_ref t ?n c'"
    using mk.seek_ok [OF tree_okD [OF t(1)] mk.target_mono_sorted [OF adaptor_ordered [OF assms(3)] t(2)] ct zero, of Left]
      mk.seek_stop_sorted [OF t(2), of ?hi Left 0]
    by (auto simp: no_panic_def passes_adaptor Let_def)
  obtain rest c'' where rest: "suffix (map_ops fits) map_key_ref c' = Some (rest, c'')" "wf_tree (map_ops fits) b rest"
    "tree_items rest = drop ?n ?xs"
    using mk.suffix_ok [OF tree_okD [OF t(1)], of ?n c'] c'(2) by (auto simp: no_panic_def)
  have drop: "drop ?n ?xs = dropWhile (\<lambda>e. hi (me_key e) = Greater) ?xs" by (simp add: dropWhile_eq_drop)
  note lo = takeWhile_cmp_sorted [OF t(2) assms(2)] and hi = takeWhile_cmp_sorted [OF t(2) assms(3)]
  have items: "tree_items r @ tree_items rest = filter (\<lambda>e. lo (me_key e) = Greater \<or> hi (me_key e) \<noteq> Greater) ?xs"
  proof -
    have "tree_items r = filter (\<lambda>e. lo (me_key e) = Greater \<or> hi (me_key e) \<noteq> Greater) (takeWhile (\<lambda>e. hi (me_key e) = Greater) ?xs)"
      using r(4) lo hi assms(4) by (auto intro: filter_cong)
    moreover have "tree_items rest = filter (\<lambda>e. lo (me_key e) = Greater \<or> hi (me_key e) \<noteq> Greater) (dropWhile (\<lambda>e. hi (me_key e) = Greater) ?xs)"
      using rest(3) drop hi by (auto intro: filter_cong)
    ultimately show ?thesis by (simp flip: filter_append)
  qed
  have "length (tree_items r @ tree_items rest) \<le> length ?xs" unfolding items by (rule length_filter_le)
  then have "length (tree_items r @ tree_items rest) < max_items 256 b"
    using t(1) tree_ok_limit [OF b(1), of "length (tree_items r @ tree_items rest)"] by (auto simp: tree_ok_def)
  from mk.append_ok [OF r(2) rest(2) this b(2)] obtain t2 where t2: "append (map_ops fits) r rest = Some t2" "wf_tree (map_ops fits) b t2"
    "tree_items t2 = filter (\<lambda>e. lo (me_key e) = Greater \<or> hi (me_key e) \<noteq> Greater) ?xs"
    using items by (auto simp: no_panic_def)
  have "me_key e = k" if "lookup map_entry_key ?xs (Some k) = Some e" for k e
    using that lookup_Some_iff [OF t(2)] by auto
  then have "tm_abs t2 = (tm_abs t) |` {k. lo k = Greater \<or> hi k \<noteq> Greater}"
    using tm_abs_filter [OF assms(1) t2(2,3)]
    by (auto simp: fun_eq_iff tm_abs_lookup restrict_map_def split: option.splits)
  then show ?thesis using r(1) c'(1) rest(1) t2(1) tm_abs_filter [OF assms(1) t2(2,3)] by (simp add: tm_remove_range_def)
qed

end

text \<open>A batch of insertions with distinct keys.\<close>

lemma sort_key_strict:
  assumes "distinct (map f xs)"
  shows "sorted_by f (sort_key f xs)"
proof -
  have "distinct (map f (sort_key f xs))" using assms by (simp add: distinct_map)
  moreover have "sorted (map f (sort_key f xs))" by simp
  ultimately have "sorted_wrt (<) (map f (sort_key f xs))" by (simp add: strict_sorted_iff)
  then show ?thesis by (simp add: sorted_by_def sorted_wrt_map)
qed

lemma distinct_map_Some: "distinct ys \<Longrightarrow> distinct (map Some ys)"
  by (simp add: distinct_map)

lemma map_of_inserts:
  assumes "sorted_by map_entry_key xs" and "distinct (map fst ps)"
  shows "map_of (map entry_pair (apply_edits map_entry_key xs (sort_key (edit_key map_entry_key) (map (\<lambda>p. Insert (entry p)) ps)))) =
    map_of (map entry_pair xs) ++ map_of ps"
proof
  fix k
  let ?es = "map (\<lambda>p. Insert (entry p)) ps :: (('a, 'b) map_entry, 'a option) edit list"
  have keys: "map (edit_key map_entry_key) ?es = map Some (map fst ps)" by simp
  have dist: "distinct (map (edit_key map_entry_key) ?es)" unfolding keys by (rule distinct_map_Some [OF assms(2)])
  note s = sort_key_strict [OF dist]
  have "find (\<lambda>d. edit_key map_entry_key d = Some k) (sort_key (edit_key map_entry_key) ?es) =
      map_option (\<lambda>v. Insert (entry (k, v))) (map_of ps k)"
  proof (cases "map_of ps k")
    case None
    then have "k \<notin> fst ` set ps" by (simp add: map_of_eq_None_iff)
    then show ?thesis using None by (auto simp: find_None_iff image_iff)
  next
    case (Some v)
    then have "Insert (entry (k, v)) \<in> set (sort_key (edit_key map_entry_key) ?es)" using map_of_SomeD by force
    with Some show ?thesis using lookup_Some_iff [OF s, of "Some k" "Insert (entry (k, v))"] by (simp add: lookup_def)
  qed
  then show "map_of (map entry_pair (apply_edits map_entry_key xs (sort_key (edit_key map_entry_key) ?es))) k =
      (map_of (map entry_pair xs) ++ map_of ps) k"
    by (simp add: map_of_apply_edits [OF assms(1) s] map_add_def split: option.splits)
qed

context heapless_vec
begin

lemma insert_batch_ok:
  assumes "tm_inv fits b t" and "0 < b" and "length ps \<le> CAP ^ b" and "tm_size t + length ps < max_items STACK_CAP b"
    and "distinct (map fst ps)"
  obtains r removed where "tree_edit (map_ops fits) map_key_ref map_entry_key t (map (\<lambda>p. Insert (entry p)) ps) = Some (r, removed)"
    and "tm_inv fits b r" and "tm_abs r = tm_abs t ++ map_of ps"
proof -
  let ?es = "map (\<lambda>p. Insert (entry p)) ps :: (('a, 'b) map_entry, 'a option) edit list"
  have t: "tree_ok (map_ops fits) b t" "sorted_by map_entry_key (tree_items t)" using assms by (auto simp: tm_inv_def)
  obtain r removed where r: "tree_edit (map_ops fits) map_key_ref map_entry_key t ?es = Some (r, removed)" "tree_ok (map_ops fits) b r"
    "tree_items r = apply_edits map_entry_key (tree_items t) (sort_key (edit_key map_entry_key) ?es)"
    using mk.tree_edit_ok [OF t assms(2), of ?es] assms(3,4) by (auto simp: no_panic_def tm_size_def)
  have keys: "map (edit_key map_entry_key) ?es = map Some (map fst ps)" by simp
  have "distinct (map (edit_key map_entry_key) ?es)" unfolding keys by (rule distinct_map_Some [OF assms(5)])
  from apply_edits_sorted [OF t(2) sort_key_strict [OF this]] r(2,3) have "tm_inv fits b r" by (simp add: tm_inv_def)
  moreover have "tm_abs r = tm_abs t ++ map_of ps"
    unfolding tm_abs_def r(3) by (rule map_of_inserts [OF t(2) assms(5)])
  ultimately show ?thesis using r(1) that by blast
qed

lemma tm_extend_ok:
  assumes "tm_inv fits b t" and "0 < b" and "length ps \<le> CAP ^ b" and "tm_size t + length ps < max_items STACK_CAP b"
    and "distinct (map fst ps)"
  shows "no_panic (tm_extend fits t ps) (\<lambda>r. tm_inv fits b r \<and> tm_abs r = tm_abs t ++ map_of ps)"
  by (rule insert_batch_ok [OF assms]) (simp add: tm_extend_def)

lemma sorted_distinct_keys: "sorted_by map_entry_key xs \<Longrightarrow> distinct (map fst (map entry_pair xs))"
  by (induction xs) (auto simp: entry_pair_def map_entry_key_def)

lemma tm_insert_tree_ok:
  assumes "tm_inv fits b t" and "tm_inv fits b' u" and "0 < b" and "tm_size u \<le> CAP ^ b" and "tm_size t + tm_size u < max_items STACK_CAP b"
  shows "no_panic (tm_insert_tree fits t u) (\<lambda>r. tm_inv fits b r \<and> tm_abs r = tm_abs t ++ tm_abs u)"
proof -
  let ?ps = "map entry_pair (tree_items u)"
  have "distinct (map fst ?ps)" using assms(2) unfolding tm_inv_def by (blast intro: sorted_distinct_keys)
  from insert_batch_ok [OF assms(1,3) _ _ this] assms(4,5) obtain r removed where
    r: "tree_edit (map_ops fits) map_key_ref map_entry_key t (map (\<lambda>p. Insert (entry p)) ?ps) = Some (r, removed)"
    "tm_inv fits b r" "tm_abs r = tm_abs t ++ map_of ?ps" by (auto simp: tm_size_def)
  then show ?thesis using tm_iter_ok [OF assms(2)] by (simp add: tm_insert_tree_def tm_abs_def [of u])
qed

lemma tm_from_ordered_entries_ok:
  assumes "sorted_wrt (<) (map fst ps)" and "length ps \<le> CAP ^ Suc h" and "Suc h < STACK_CAP" and "length ps < max_items STACK_CAP (Suc h)"
  shows "no_panic (tm_from_ordered_entries fits ps) (\<lambda>r. tm_inv fits (Suc h) r \<and> tm_abs r = map_of ps)"
proof -
  have h: "h < 256" using assms(3) by (simp add: STACK_CAP_def)
  obtain r where r: "from_iter (map_ops fits) (map entry ps) = Some r" "wf_tree (map_ops fits) (Suc (node_height r)) r"
    "tree_items r = map entry ps" "node_height r \<le> h"
    using mk.from_iter_ok [of "map entry ps" h] assms(2) h by (auto simp: no_panic_def)
  have "wf_tree (map_ops fits) (Suc h) r" by (rule mk.wf_tree_rebase [OF r(2)]) (use r(4) in simp)
  moreover have "sorted_by map_entry_key (map entry ps)"
    using assms(1) by (simp add: sorted_by_def sorted_wrt_map)
  ultimately show ?thesis using r assms(3,4) by (simp add: tm_from_ordered_entries_def tm_inv_def tree_ok_def tm_abs_def comp_def)
qed

text \<open>\<open>update\<close> replaces the value of a present key by what the closure makes of it.\<close>

lemma tm_update_eq:
  assumes "tm_inv fits b t" and "Suc (tm_size t) < max_items STACK_CAP b"
  shows "no_panic (tm_update fits t k f) (\<lambda>(r, result). tm_inv fits b r \<and>
    (case tm_abs t k of
       Some v \<Rightarrow> result = Some (fst (f v)) \<and> tm_abs r = (tm_abs t)(k \<mapsto> snd (f v))
     | None \<Rightarrow> result = None \<and> tm_abs r = tm_abs t))"
proof -
  let ?xs = "tree_items t"
  let ?D = "dropWhile (\<lambda>x. map_entry_key x < Some k) ?xs" and ?T = "takeWhile (\<lambda>x. map_entry_key x < Some k) ?xs"
  have t: "tree_ok (map_ops fits) b t" "sorted_by map_entry_key ?xs" "wf_tree (map_ops fits) b t"
    using assms inv_wf by (auto simp: tm_inv_def)
  have b: "b < STACK_CAP" "b < 256" using t(1) by (auto simp: tree_ok_def STACK_CAP_def)
  have pos: "cmp_of (Some k) (cur_position (cursor_new map_key_ref t)) \<noteq> Less" by (simp add: cursor_new_def)
  note cut = mk.slice_key [OF t(1,2) ordered_cmp_of disjI2 [OF conjI [OF refl refl]] pos, of Left, unfolded mk.passes_cmp_Left drop_0]
  obtain r m c where r: "slice (map_ops fits) map_key_ref (cmp_of (Some k)) Left (cursor_new map_key_ref t) = Some (r, c)"
    "wf_tree (map_ops fits) b r" "cursor_at (map_ops fits) map_key_ref t m c" "tree_items r = ?T" "drop m ?xs = ?D" "item c = Some (vec_first ?D)"
    by (rule cut)
  have k: "Some k \<noteq> dim_zero map_key_ref" by simp
  obtain e where e: "cursor_end map_key_ref c = Some e"
    "cmp_of (Some k) e = Equal \<longleftrightarrow> (\<exists>y. vec_first (drop m ?xs) = Some y \<and> map_entry_key y = Some k)"
    by (rule mk.end_matches [OF t(3,2) k r(3,5)])
  have split: "?xs = ?T @ ?D" by simp
  have size: "length ?xs < max_items 256 b" "Suc (length ?xs) < max_items 256 b"
    using tree_ok_limit [OF b(1), of "Suc (length ?xs)"] assms(2) by (simp_all add: tm_size_def)
  show ?thesis
  proof (cases "\<exists>y. vec_first ?D = Some y \<and> map_entry_key y = Some k")
    case True
    then obtain y where y: "vec_first ?D = Some y" "map_entry_key y = Some k" by blast
    from vec_first_Some [OF y(1)] obtain ys where ys: "?D = y # ys" by (elim exE)
    have abs: "tm_abs t k = Some (me_value y)" using y by (simp add: tm_abs_lookup lookup_split [OF t(2)])
    obtain v' res where f: "f (me_value y) = (res, v')" by fastforce
    let ?y = "y\<lparr>me_value := v'\<rparr>"
    have "length ?T \<le> length ?xs" by (rule length_takeWhile_le)
    then obtain nt where nt: "push (map_ops fits) r ?y = Some nt" "wf_tree (map_ops fits) b nt" "tree_items nt = ?T @ [?y]"
      using mk.push_ok_items [OF r(2) _ b(2), of ?y] r(4) size(2) by (auto simp: no_panic_def)
    from t(1) r(3) y(1) [folded r(5)] obtain c' where c': "next_cursor (map_ops fits) map_key_ref c = Some c'"
      "cursor_at (map_ops fits) map_key_ref t (Suc m) c'" "drop (Suc m) ?xs = tl (drop m ?xs)" by (rule mk.step_over)
    obtain rest c'' where rest: "suffix (map_ops fits) map_key_ref c' = Some (rest, c'')" "wf_tree (map_ops fits) b rest" "tree_items rest = ys"
      using mk.suffix_ok [OF tree_okD [OF t(1)], of "Suc m" c'] c'(2,3) r(5) ys by (auto simp: no_panic_def)
    have len: "length (?T @ [?y] @ ys) = length ?xs" using arg_cong [OF split, of length] ys by (simp del: takeWhile_dropWhile_id)
    then obtain t2 where t2: "append (map_ops fits) nt rest = Some t2" "wf_tree (map_ops fits) b t2" "tree_items t2 = ?T @ [?y] @ ys"
      using mk.append_ok [OF nt(2) rest(2) _ b(2)] nt(3) rest(3) size(1) by (auto simp: no_panic_def)
    have key: "map_entry_key ?y = map_entry_key y" by (simp add: map_entry_key_def)
    have sorted: "sorted_by map_entry_key (?T @ [y] @ ys)" using t(2) split ys by (metis append_Cons append_Nil)
    then have "sorted_by map_entry_key (?T @ [?y] @ ys)" using key by simp
    then have inv: "tm_inv fits b t2" using t2(2,3) t(1) len by (simp add: tm_inv_def tree_ok_def)
    have "tm_abs t2 = (tm_abs t)(k \<mapsto> v')"
    proof
      fix k'
      have "?xs = ?T @ [y] @ ys" unfolding append_Cons append_Nil ys [symmetric] by (rule split)
      then have "lookup map_entry_key ?xs (Some k') = lookup map_entry_key (?T @ [y] @ ys) (Some k')" by (rule arg_cong)
      moreover have "lookup map_entry_key ?T (Some k) = None" by (rule lookup_None) (auto dest: set_takeWhileD)
      ultimately show "tm_abs t2 k' = ((tm_abs t)(k \<mapsto> v')) k'" using y(2) key
        by (auto simp: tm_abs_lookup t2(3) lookup_append lookup_Cons split: option.splits)
    qed
    moreover have "cmp_of (Some k) e = Equal" using e(2) r(5) y by simp
    ultimately show ?thesis using r(1,6) e(1) y(1) f nt(1) c'(1) rest(1) t2(1) inv abs by (simp add: tm_update_def)
  next
    case False
    have none: "tm_abs t k = None" using False by (cases "vec_first ?D") (auto simp: tm_abs_lookup lookup_split [OF t(2)])
    have "cmp_of (Some k) e \<noteq> Equal" using e(2) r(5) False by simp
    obtain rest c'' where rest: "suffix (map_ops fits) map_key_ref c = Some (rest, c'')" "wf_tree (map_ops fits) b rest" "tree_items rest = ?D"
      using mk.suffix_ok [OF tree_okD [OF t(1)], of m c] r(3,5) by (auto simp: no_panic_def)
    obtain t2 where t2: "append (map_ops fits) r rest = Some t2" "wf_tree (map_ops fits) b t2" "tree_items t2 = ?xs"
      using mk.append_ok [OF r(2) rest(2) _ b(2)] r(4) rest(3) size(1) by (auto simp: no_panic_def)
    then have "tm_inv fits b t2" "tm_abs t2 = tm_abs t" using t by (simp_all add: tm_inv_def tree_ok_def tm_abs_def)
    with \<open>cmp_of (Some k) e \<noteq> Equal\<close> show ?thesis using r(1) e(1) rest(1) t2(1) none by (simp add: tm_update_def)
  qed
qed

end

section \<open>The map contract, and sets on top of it\<close>

text \<open>\<open>TreeSet\<close> uses \<open>TreeMap\<close> only through the operations of the contract.\<close>

sublocale heapless_vec \<subseteq> tm: map_contract "tm_inv fits b" tm_abs tm_get "tm_insert fits"
    "\<lambda>t. Suc (tm_size t) < max_items STACK_CAP b" "tm_remove fits" for b
  using tm_get_ok tm_insert_ok tm_remove_ok by unfold_locales

text \<open>The documented behaviour of \<open>heapless::Vec\<close>: exactly its capacity.\<close>

definition exact_capacity :: vec_capacity where
  "exact_capacity c n \<longleftrightarrow> n \<le> c"

interpretation exact: heapless_vec exact_capacity
  by unfold_locales (simp add: exact_capacity_def)

interpretation exact_pair: dimension_pair "map_ops exact_capacity :: (('k::linorder, 'v) map_entry, 'k option) item_ops" map_key_ref unit_dim
  by unfold_locales

text \<open>\<open>TreeSet\<close> as a set of keys.\<close>

definition ts_abs :: "'k tree_set \<Rightarrow> 'k set" where
  "ts_abs s = dom (tm_abs s)"

context heapless_vec
begin

lemma ts_contains_ok: "tm_inv fits b s \<Longrightarrow> ts_contains s k \<longleftrightarrow> k \<in> ts_abs s"
  unfolding ts_contains_def ts_abs_def by (rule tm.contains_dom)

lemma ts_insert_ok:
  "tm_inv fits b s \<Longrightarrow> Suc (tm_size s) < max_items STACK_CAP b \<Longrightarrow>
   no_panic (ts_insert fits s k) (\<lambda>s'. tm_inv fits b s' \<and> ts_abs s' = insert k (ts_abs s))"
  unfolding ts_insert_def ts_abs_def by (rule tm.insert_dom)

lemma ts_remove_ok:
  "tm_inv fits b s \<Longrightarrow>
   no_panic (ts_remove fits s k) (\<lambda>(s', removed). tm_inv fits b s' \<and> ts_abs s' = ts_abs s - {k} \<and> removed = (k \<in> ts_abs s))"
  unfolding ts_remove_def ts_abs_def by (rule tm.remove_dom)

lemma ts_iter_ok:
  assumes "tm_inv fits b s"
  shows "no_panic (ts_iter fits s) (\<lambda>ks. set ks = ts_abs s \<and> sorted_wrt (<) ks)"
proof -
  have s: "sorted_by map_entry_key (tree_items s)" using assms by (simp add: tm_inv_def)
  have "sorted_wrt (<) (map fst (map entry_pair (tree_items s)))"
    using s by (simp add: sorted_by_def sorted_wrt_map entry_pair_def map_entry_key_def)
  moreover have "set (map fst (map entry_pair (tree_items s))) = ts_abs s"
    by (simp add: ts_abs_def tm_abs_def dom_map_of_conv_image_fst image_image)
  ultimately show ?thesis by (simp add: ts_iter_def tm_iter_ok [OF assms])
qed

end

end
