(* ===== verification/ST_Properties.thy ===== *)
theory ST_Properties
  imports ST_Tree_Map
begin

text \<open>
  The properties of \<open>crates/sum_tree\<close>, each a theorem with its hypotheses written out over the model's own
  definitions, and a witness that applies it to a concrete tree. The sample trees are maps from numbers to
  numbers: one leaf, and a root over two leaves.
\<close>

section \<open>Sample trees\<close>

definition num_ops :: "((nat, nat) map_entry, nat option) item_ops" where
  "num_ops = map_ops exact_capacity"

definition num_leaf :: "nat list \<Rightarrow> (nat, nat) tree_map" where
  "num_leaf ks = Leaf (Some (last ks)) (map (\<lambda>k. entry (k, 10 * k)) ks) (map Some ks)"

definition num_tree :: "(nat, nat) tree_map" where
  "num_tree = Internal 1 (Some 12) [Some 6, Some 12] [num_leaf [1, 2, 3, 4, 5, 6], num_leaf [7, 8, 9, 10, 11, 12]]"

lemma num_laws: "summary_laws num_ops" "dimension_laws num_ops map_key_ref" "dimension_pair num_ops map_key_ref map_key_ref"
    "keyed_laws num_ops map_key_ref map_entry_key" "heapless_vec exact_capacity"
proof -
  show "summary_laws num_ops" unfolding num_ops_def by (rule exact.mk.summary_laws_axioms)
  show dim: "dimension_laws num_ops map_key_ref" unfolding num_ops_def by (rule exact.mk.dimension_laws_axioms)
  show "dimension_pair num_ops map_key_ref map_key_ref" by (rule dimension_pair.intro [OF dim dim])
  show "keyed_laws num_ops map_key_ref map_entry_key" unfolding num_ops_def by (rule exact.mk.keyed_laws_axioms)
  show "heapless_vec exact_capacity" by (rule exact.heapless_vec_axioms)
qed

lemma num_leaf_wf: "ks \<noteq> [] \<Longrightarrow> length ks \<le> CAP \<Longrightarrow> wf_tree num_ops b (num_leaf ks)"
proof -
  assume ks: "ks \<noteq> []" "length ks \<le> CAP"
  let ?its = "map (\<lambda>k. entry (k, 10 * k)) ks"
  have m: "map (item_summary num_ops) ?its = map Some ks" by (simp add: num_ops_def)
  have sum: "sum_of num_ops (map Some ks) = Some (last ks)"
    using ks(1) by (induction ks rule: rev_induct) (simp_all add: sum_of_def num_ops_def)
  have "wf_tree num_ops b (Leaf (sum_of num_ops (map (item_summary num_ops) ?its)) ?its (map (item_summary num_ops) ?its))"
    by (rule summary_laws.wf_tree_leaf [OF num_laws(1)]) (use ks in simp_all)
  then show ?thesis unfolding m sum num_leaf_def .
qed

lemma num_tree_wf: "wf_tree num_ops b num_tree" "node_height num_tree = 1" "length (tree_items num_tree) = 12"
    "sorted_by map_entry_key (tree_items num_tree)" "tree_items num_tree \<noteq> []"
  by (simp_all add: wf_tree_def num_tree_def num_leaf_def root_min_def sum_of_def num_ops_def TREE_BASE_def list_all_iff)

lemma num_tree_inv: "b < STACK_CAP \<Longrightarrow> 12 < max_items STACK_CAP b \<Longrightarrow> tm_inv exact_capacity b num_tree"
  using num_tree_wf by (simp add: tm_inv_def tree_ok_def num_ops_def)

lemma num_bounds: "13 < max_items 256 0" "12 < max_items STACK_CAP 0" "13 < max_items STACK_CAP 0" "13 < max_items STACK_CAP 1"
    "12 < limit 0" "14 < max_items STACK_CAP 2"
  by (simp_all add: max_items_def TREE_BASE_def STACK_CAP_def limit_def)

section \<open>Building and concatenating\<close>

text \<open>C1: appending a tree to a tree, whatever their heights, never panics, keeps the B+ tree invariant (heights,
  fill factors, cached summaries) and concatenates the items, as long as the height stays a \<open>u8\<close>.\<close>

theorem append_concatenates:
  assumes "summary_laws ops" and "wf_tree ops b t" and "wf_tree ops b u"
    and "length (tree_items t @ tree_items u) < max_items 256 b" and "b < 256"
  shows "no_panic (append ops t u) (\<lambda>r. wf_tree ops b r \<and> tree_items r = tree_items t @ tree_items u)"
  by (rule summary_laws.append_ok [OF assms])

theorem append_concatenates_witness:
  "no_panic (append num_ops num_tree (num_leaf [20])) (\<lambda>r. wf_tree num_ops 0 r \<and> tree_items r = tree_items num_tree @ tree_items (num_leaf [20]))"
  by (rule append_concatenates [OF num_laws(1) num_tree_wf(1) num_leaf_wf])
     (use num_bounds(1) in \<open>simp_all add: num_tree_wf(3) num_leaf_def TREE_BASE_def\<close>)

text \<open>C35: \<open>from_iter\<close> builds, without a panic, a well-formed tree of the given items whose height is logarithmic:
  at most \<open>m\<close> for up to \<open>12 ^ (m + 1)\<close> items.\<close>

theorem from_iter_builds:
  assumes "summary_laws ops" and "length xs \<le> CAP ^ Suc m" and "m < 256"
  shows "no_panic (from_iter ops xs) (\<lambda>r. wf_tree ops (Suc (node_height r)) r \<and> tree_items r = xs \<and> node_height r \<le> m)"
  by (rule summary_laws.from_iter_ok [OF assms])

theorem from_iter_builds_witness:
  "no_panic (from_iter num_ops (map (\<lambda>k. entry (k, k)) [0..<20])) (\<lambda>r. wf_tree num_ops (Suc (node_height r)) r \<and>
     tree_items r = map (\<lambda>k. entry (k, k)) [0..<20] \<and> node_height r \<le> 1)"
  by (rule from_iter_builds [OF num_laws(1)]) (simp_all add: TREE_BASE_def)

text \<open>The parallel construction \<open>from_par_iter\<close> gives the same tree as the sequential \<open>from_iter\<close>, when rayon's
  chunked map keeps the order of the chunks.\<close>

theorem from_par_iter_same:
  assumes "summary_laws ops"
    and "\<And>f xs. par_items CAP f xs = map f (chunks CAP xs)" and "\<And>f xs. par_nodes CAP f xs = map f (chunks CAP xs)"
  shows "from_par_iter par_items par_nodes ops xs = from_iter ops xs"
  using assms(2,3) by (intro summary_laws.from_par_iter_eq [OF assms(1)])

theorem from_par_iter_same_witness:
  "from_par_iter (\<lambda>n f xs. map f (chunks n xs)) (\<lambda>n f xs. map f (chunks n xs)) num_ops (map (\<lambda>k. entry (k, k)) [0..<20]) =
   from_iter num_ops (map (\<lambda>k. entry (k, k)) [0..<20])"
  by (rule from_par_iter_same [OF num_laws(1)]) simp_all

text \<open>\<open>extend\<close> appends the items of the iterator.\<close>

theorem extend_appends:
  assumes "summary_laws ops" and "wf_tree ops b t" and "length xs \<le> CAP ^ b" and "0 < b" and "b < 256"
    and "length (tree_items t) + length xs < max_items 256 b"
  shows "no_panic (tree_extend ops t xs) (\<lambda>r. wf_tree ops b r \<and> tree_items r = tree_items t @ xs)"
  by (rule summary_laws.extend_ok [OF assms])

theorem extend_appends_witness:
  "no_panic (tree_extend num_ops num_tree [entry (20, 0)]) (\<lambda>r. wf_tree num_ops 1 r \<and> tree_items r = tree_items num_tree @ [entry (20, 0)])"
  by (rule extend_appends [OF num_laws(1) num_tree_wf(1)])
     (simp_all add: num_tree_wf(3) max_items_def TREE_BASE_def)

section \<open>Point queries\<close>

text \<open>C36: for a target that never falls behind again once passed, \<open>find\<close> returns what a linear scan over the items
  returns: start position, end position and item.\<close>

theorem find_scans:
  assumes "dimension_laws ops dim" and "wf_tree ops b t" and "tree_items t \<noteq> []"
    and "target_mono ops dim tgt (dim_zero dim) (tree_items t)"
  shows "tree_find dim tgt bias t =
    (case scan ops dim (target_in_child tgt bias) (dim_zero dim) (tree_items t) of
       (pos, Some (x, end_pos)) \<Rightarrow> (pos, end_pos, Some x) | (pos, None) \<Rightarrow> (pos, pos, None))"
  by (rule dimension_laws.tree_find_scan [OF assms])

theorem find_scans_witness:
  "tree_find map_key_ref (cmp_of (Some 8)) Left num_tree = (Some 7, Some 8, Some (entry (8, 80)))"
proof -
  have "tree_find map_key_ref (cmp_of (Some 8)) Left num_tree =
    (case scan num_ops map_key_ref (target_in_child (cmp_of (Some 8)) Left) (dim_zero map_key_ref) (tree_items num_tree) of
       (pos, Some (x, end_pos)) \<Rightarrow> (pos, end_pos, Some x) | (pos, None) \<Rightarrow> (pos, pos, None))"
    by (rule find_scans [OF num_laws(2) num_tree_wf(1,5)])
       (rule keyed_laws.target_mono_sorted [OF num_laws(4) ordered_cmp_of num_tree_wf(4)])
  then show ?thesis
    by (simp add: num_tree_def num_leaf_def num_ops_def target_in_child_def cmp_of_def map_entry_key_def Let_def)
qed

text \<open>\<open>find_exact\<close> with left bias finds the first item that ends exactly at the target, if there is one.\<close>

theorem find_exact_finds:
  assumes "dimension_laws ops dim" and "wf_tree ops b t" and "tree_items t \<noteq> []"
    and "target_mono ops dim tgt (dim_zero dim) (tree_items t)"
  shows "snd (snd (find_exact dim tgt Left t)) =
    map_option fst (snd (scan ops dim (\<lambda>e. tgt e = Equal) (dim_zero dim) (tree_items t)))"
  by (rule dimension_laws.find_exact_item [OF assms])

theorem find_exact_finds_witness:
  "snd (snd (find_exact map_key_ref (cmp_of (Some 8)) Left num_tree)) = Some (entry (8, 80))"
proof -
  have "snd (snd (find_exact map_key_ref (cmp_of (Some 8)) Left num_tree)) =
    map_option fst (snd (scan num_ops map_key_ref (\<lambda>e. cmp_of (Some 8) e = Equal) (dim_zero map_key_ref) (tree_items num_tree)))"
    by (rule find_exact_finds [OF num_laws(2) num_tree_wf(1,5)])
       (rule keyed_laws.target_mono_sorted [OF num_laws(4) ordered_cmp_of num_tree_wf(4)])
  then show ?thesis
    by (simp add: num_tree_def num_leaf_def num_ops_def map_entry_key_def Let_def)
qed

text \<open>\<open>find_with_prev\<close> never panics on a well-formed tree and also returns the item in front of the found one.\<close>

theorem find_with_prev_scans:
  assumes "dimension_laws ops dim" and "wf_tree ops b t" and "tree_items t \<noteq> []"
    and "target_mono ops dim tgt (dim_zero dim) (tree_items t)"
  shows "find_with_prev dim tgt bias t =
    Some (case scan_prev ops dim (target_in_child tgt bias) (dim_zero dim) None (tree_items t) of
       (pos, Some (prev, x, end_pos)) \<Rightarrow> (pos, end_pos, Some (prev, x)) | (pos, None) \<Rightarrow> (pos, pos, None))"
  by (rule dimension_laws.find_with_prev_scan [OF assms])

theorem find_with_prev_scans_witness:
  "find_with_prev map_key_ref (cmp_of (Some 7)) Left num_tree = Some (Some 6, Some 7, Some (Some (entry (6, 60)), entry (7, 70)))"
proof -
  have "find_with_prev map_key_ref (cmp_of (Some 7)) Left num_tree =
    Some (case scan_prev num_ops map_key_ref (target_in_child (cmp_of (Some 7)) Left) (dim_zero map_key_ref) None (tree_items num_tree) of
       (pos, Some (prev, x, end_pos)) \<Rightarrow> (pos, end_pos, Some (prev, x)) | (pos, None) \<Rightarrow> (pos, pos, None))"
    by (rule find_with_prev_scans [OF num_laws(2) num_tree_wf(1,5)])
       (rule keyed_laws.target_mono_sorted [OF num_laws(4) ordered_cmp_of num_tree_wf(4)])
  then show ?thesis
    by (simp add: num_tree_def num_leaf_def num_ops_def target_in_child_def cmp_of_def map_entry_key_def Let_def)
qed

section \<open>Cursors\<close>

definition num_cursor :: "((nat, nat) map_entry, nat option, nat option) cursor" where
  "num_cursor = the (next_cursor num_ops map_key_ref (cursor_new map_key_ref num_tree))"

lemma num_height: "node_height num_tree < STACK_CAP"
  by (simp add: num_tree_wf(2) STACK_CAP_def)

lemma num_cursor_at: "cursor_at num_ops map_key_ref num_tree 0 num_cursor"
proof -
  have "before_first map_key_ref num_tree (cursor_new map_key_ref num_tree)" by (simp add: before_first_def cursor_new_def)
  then have "no_panic (next_cursor num_ops map_key_ref (cursor_new map_key_ref num_tree)) (cursor_at num_ops map_key_ref num_tree 0)"
    by (rule dimension_laws.next_cursor_first [OF num_laws(2) num_tree_wf(1) num_height])
  then show ?thesis by (auto simp: num_cursor_def no_panic_def)
qed

text \<open>A cursor that stands at index \<open>n\<close> of the tree reads, without a panic, the item, its summary and the items on both
  sides, and \<open>start\<close> and \<open>end\<close> are the sums of the summaries before and through the item.\<close>

theorem cursor_reads:
  assumes "dimension_laws ops dim" and "wf_tree ops b t" and "cursor_at ops dim t n c" and "n < length (tree_items t)"
  shows "item c = Some (Some (tree_items t ! n)) \<and> cursor_item_summary c = Some (Some (item_summary ops (tree_items t ! n))) \<and>
    start c = foldl (dim_add dim) (dim_zero dim) (map (item_summary ops) (take n (tree_items t))) \<and>
    cursor_end dim c = Some (foldl (dim_add dim) (dim_zero dim) (map (item_summary ops) (take (Suc n) (tree_items t)))) \<and>
    next_item c = Some (if Suc n < length (tree_items t) then Some (tree_items t ! Suc n) else None) \<and>
    prev_item c = Some (if n = 0 then None else Some (tree_items t ! (n - 1)))"
  using dimension_laws.read_ok [OF assms(1-3)] dimension_laws.neighbours_ok [OF assms(1-3)] assms(3,4)
  by (simp add: start_def cursor_at_def pos_at_def pos_after_def min_def)

theorem cursor_reads_witness: "item num_cursor = Some (Some (entry (1, 10)))"
proof -
  have "0 < length (tree_items num_tree)" by (simp add: num_tree_wf(3))
  from cursor_reads [OF num_laws(2) num_tree_wf(1) num_cursor_at this]
  have "item num_cursor = Some (Some (tree_items num_tree ! 0))" by blast
  then show ?thesis by (simp add: num_tree_def num_leaf_def)
qed

text \<open>\<open>next\<close> moves one item on and \<open>prev\<close> moves back: after both the cursor stands where it stood; stepping on from the
  last item reaches the end, from which \<open>prev\<close> returns to it.\<close>

theorem next_then_prev:
  assumes "dimension_laws ops dim" and "wf_tree ops b t" and "node_height t < STACK_CAP"
    and "cursor_at ops dim t n c" and "n < length (tree_items t)"
  shows "no_panic (next_cursor ops dim c) (\<lambda>c1. cursor_at ops dim t (Suc n) c1 \<and>
    no_panic (prev_cursor ops dim c1) (cursor_at ops dim t n))"
proof (rule no_panic_mono [OF dimension_laws.next_cursor_ok [OF assms(1-4)]])
  fix c1 assume "cursor_at ops dim t (min (Suc n) (length (tree_items t))) c1"
  then have "cursor_at ops dim t (Suc n) c1" using assms(5) by (simp add: min_def)
  with dimension_laws.prev_cursor_ok [OF assms(1-3) this]
  show "cursor_at ops dim t (Suc n) c1 \<and> no_panic (prev_cursor ops dim c1) (cursor_at ops dim t n)" by simp
qed

theorem next_then_prev_witness:
  "no_panic (next_cursor num_ops map_key_ref num_cursor) (\<lambda>c1. cursor_at num_ops map_key_ref num_tree (Suc 0) c1 \<and>
    no_panic (prev_cursor num_ops map_key_ref c1) (cursor_at num_ops map_key_ref num_tree 0))"
  by (rule next_then_prev [OF num_laws(2) num_tree_wf(1) num_height num_cursor_at]) (simp add: num_tree_wf(3))

text \<open>A second sample: numbers summarised by their sum.\<close>

definition sum_ops :: "(nat, nat) item_ops" where
  "sum_ops = \<lparr>item_summary = (\<lambda>x. x), summary_zero = 0, add_summary = (+), vec_fits = exact_capacity\<rparr>"

definition sum_tree4 :: "(nat, nat) sum_tree" where
  "sum_tree4 = Leaf 18 [1, 7, 2, 8] [1, 7, 2, 8]"

lemma sum_laws: "summary_laws sum_ops" "dimension_laws sum_ops (self_dim sum_ops)" "dimension_pair sum_ops (self_dim sum_ops) (self_dim sum_ops)"
proof -
  show laws: "summary_laws sum_ops" by unfold_locales (simp_all add: sum_ops_def exact_capacity_def)
  show dim: "dimension_laws sum_ops (self_dim sum_ops)" by (intro dimension_laws.intro laws) (simp add: dimension_laws_axioms_def self_dim_def sum_ops_def)
  show "dimension_pair sum_ops (self_dim sum_ops) (self_dim sum_ops)" by (rule dimension_pair.intro [OF dim dim])
qed

lemma sum_tree4_wf: "wf_tree sum_ops b sum_tree4" "node_height sum_tree4 < STACK_CAP" "tree_items sum_tree4 = [1, 7, 2, 8]"
  by (simp_all add: wf_tree_def sum_tree4_def root_min_def sum_of_def sum_ops_def TREE_BASE_def STACK_CAP_def)

lemma sum_filter_ok: "filter_ok sum_ops (\<lambda>s. 5 \<le> s)"
proof -
  have "x \<le> foldl (+) a xs" if "x \<in> set xs \<or> x \<le> a" for x a :: nat and xs
    using that by (induction xs arbitrary: a) (auto intro: trans_le_add1)
  then have "x \<le> sum_of sum_ops (map (item_summary sum_ops) xs)" if "x \<in> set xs" for x xs
    using that by (simp add: sum_of_def sum_ops_def)
  then show ?thesis by (auto simp: filter_ok_def sum_ops_def intro: order_trans)
qed

text \<open>A filter cursor whose filter accepts every sum that contains an accepted summary ends, and yields exactly the items
  whose summary is accepted, in order, however many subtrees it skips.\<close>

theorem filter_cursor_yields_matches:
  assumes "dimension_laws ops dim" and "wf_tree ops b t" and "node_height t < STACK_CAP" and "filter_ok ops f"
  shows "drain (filter_cursor_next ops dim f) (cursor_new dim t) = Some (filter (\<lambda>x. f (item_summary ops x)) (tree_items t))"
  using dimension_laws.filter_cursor_drain [OF assms] by (simp add: comp_def)

theorem filter_cursor_yields_matches_witness:
  "drain (filter_cursor_next sum_ops (self_dim sum_ops) (\<lambda>s. 5 \<le> s)) (cursor_new (self_dim sum_ops) sum_tree4) = Some [7, 8]"
  using filter_cursor_yields_matches [OF sum_laws(2) sum_tree4_wf(1,2) sum_filter_ok]
  by (simp add: sum_tree4_wf(3)) (simp add: sum_ops_def)

section \<open>Seeking\<close>

text \<open>\<open>m\<close> is the boundary of a target: the first index whose item does not end before the target; an item that ends exactly
  at the target counts as before it under right bias.\<close>

definition ends_before :: "('a, 's) item_ops \<Rightarrow> ('s, 'd) dim_ops \<Rightarrow> 'd seek_target \<Rightarrow> bias \<Rightarrow> 'a list \<Rightarrow> nat \<Rightarrow> bool" where
  "ends_before ops dim tgt bias xs k \<longleftrightarrow>
     (let item_end = foldl (dim_add dim) (dim_zero dim) (map (item_summary ops) (take (Suc k) xs)) in
      tgt item_end = Greater \<or> tgt item_end = Equal \<and> bias = Right)"

definition boundary :: "('a, 's) item_ops \<Rightarrow> ('s, 'd) dim_ops \<Rightarrow> 'd seek_target \<Rightarrow> bias \<Rightarrow> 'a list \<Rightarrow> nat \<Rightarrow> bool" where
  "boundary ops dim tgt bias xs m \<longleftrightarrow> m \<le> length xs \<and> (\<forall>k < m. ends_before ops dim tgt bias xs k) \<and>
     (m < length xs \<longrightarrow> \<not> ends_before ops dim tgt bias xs m)"

lemma boundary_stop: "boundary ops dim tgt bias (tree_items t) (seek_stop ops dim tgt bias t 0)"
proof -
  have "passes tgt bias (pos_at ops dim t (Suc k)) = ends_before ops dim tgt bias (tree_items t) k" for k
    by (simp add: ends_before_def passes_def pos_at_def pos_after_def Let_def)
  then show ?thesis
    using seek_stop_boundary [of 0 t ops dim tgt bias] seek_stop_le [of 0 t ops dim tgt bias] by (auto simp: boundary_def)
qed

lemma num_limit: "length (tree_items num_tree) < limit 0" "length (tree_items num_tree) < limit 1"
  by (simp_all add: num_tree_wf(3) limit_def max_items_def TREE_BASE_def)

lemma num_target: "target_mono num_ops map_key_ref (cmp_of (Some k)) (dim_zero map_key_ref) (tree_items num_tree)"
    "cmp_of (Some k) (dim_zero map_key_ref) \<noteq> Less"
proof -
  show "target_mono num_ops map_key_ref (cmp_of (Some k)) (dim_zero map_key_ref) (tree_items num_tree)"
    by (rule keyed_laws.target_mono_sorted [OF num_laws(4) ordered_cmp_of num_tree_wf(4)])
  show "cmp_of (Some k) (dim_zero map_key_ref) \<noteq> Less" by (simp add: map_key_ref_def)
qed

text \<open>C4: \<open>seek\<close>, from any state of the cursor, never panics for a target that is not before the start, and leaves the cursor at
  the boundary of the target: every item before it ends behind the target, the item there does not. The result says
  whether the target is exactly the end of that item (bias left) or its start (bias right).\<close>

theorem seek_reaches_boundary:
  assumes "dimension_laws ops dim" and "wf_tree ops b t" and "node_height t < STACK_CAP" and "length (tree_items t) < limit b"
    and "target_mono ops dim tgt (dim_zero dim) (tree_items t)" and "cur_tree c = t" and "tgt (dim_zero dim) \<noteq> Less"
  shows "no_panic (seek ops dim tgt bias c) (\<lambda>(found, c'). \<exists>m. boundary ops dim tgt bias (tree_items t) m \<and> cursor_at ops dim t m c' \<and>
    found = (tgt (pos_at ops dim t (if bias = Left then min (Suc m) (length (tree_items t)) else m)) = Equal))"
proof (rule no_panic_mono [OF dimension_laws.seek_ok [OF assms, of bias]])
  fix x :: "bool \<times> ('a, 'b, 'c) cursor"
  let ?m = "seek_stop ops dim tgt bias t 0"
  assume "case x of (found, c') \<Rightarrow> let m = ?m in cursor_at ops dim t m c' \<and>
    found = (tgt (pos_at ops dim t (if bias = Left then min (Suc m) (length (tree_items t)) else m)) = Equal)"
  then show "case x of (found, c') \<Rightarrow> \<exists>m. boundary ops dim tgt bias (tree_items t) m \<and> cursor_at ops dim t m c' \<and>
    found = (tgt (pos_at ops dim t (if bias = Left then min (Suc m) (length (tree_items t)) else m)) = Equal)"
    unfolding case_prod_unfold Let_def by (intro exI [of _ ?m] conjI boundary_stop) simp_all
qed

theorem seek_reaches_boundary_witness:
  "no_panic (seek num_ops map_key_ref (cmp_of (Some 8)) Left num_cursor) (\<lambda>(found, c').
     \<exists>m. boundary num_ops map_key_ref (cmp_of (Some 8)) Left (tree_items num_tree) m \<and> cursor_at num_ops map_key_ref num_tree m c' \<and>
       found = (cmp_of (Some 8) (pos_at num_ops map_key_ref num_tree (if Left = Left then min (Suc m) (length (tree_items num_tree)) else m)) = Equal))"
  by (rule seek_reaches_boundary [OF num_laws(2) num_tree_wf(1) num_height num_limit(1) num_target(1) _ num_target(2)])
     (use num_cursor_at in \<open>simp add: cursor_at_def\<close>)

text \<open>C3: cutting a tree with \<open>slice\<close> and \<open>suffix\<close> and appending the pieces gives back the items: the slice holds exactly the
  items before the boundary of the target, the suffix the rest, and both are well formed.\<close>

theorem slice_suffix_roundtrip:
  assumes "dimension_laws ops dim" and "wf_tree ops b t" and "node_height t < STACK_CAP" and "length (tree_items t) < limit b"
    and "target_mono ops dim tgt (dim_zero dim) (tree_items t)" and "tgt (dim_zero dim) \<noteq> Less"
  shows "no_panic (slice ops dim tgt bias (cursor_new dim t)) (\<lambda>(left, c1). no_panic (suffix ops dim c1) (\<lambda>(right, c2).
    wf_tree ops b left \<and> wf_tree ops b right \<and>
    (\<exists>m. boundary ops dim tgt bias (tree_items t) m \<and> tree_items left = take m (tree_items t) \<and> tree_items right = drop m (tree_items t)) \<and>
    no_panic (append ops left right) (\<lambda>u. wf_tree ops b u \<and> tree_items u = tree_items t)))"
proof -
  have b: "length (tree_items t) < max_items 256 b" "b < 256" using assms(4) by (simp_all add: limit_def split: if_splits)
  have laws: "summary_laws ops" using assms(1) by (rule dimension_laws.axioms(1))
  let ?m = "seek_stop ops dim tgt bias t 0"
  obtain l c1 where l: "slice ops dim tgt bias (cursor_new dim t) = Some (l, c1)" "wf_tree ops b l" "tree_items l = take ?m (tree_items t)"
      "cursor_at ops dim t ?m c1"
    using dimension_laws.slice_ok [OF assms(1-5), of 0 "cursor_new dim t" bias] assms(6)
    by (auto simp: no_panic_def Let_def cursor_new_def)
  obtain r c2 where r: "suffix ops dim c1 = Some (r, c2)" "wf_tree ops b r" "tree_items r = drop ?m (tree_items t)"
    using dimension_laws.suffix_ok [OF assms(1-4), of ?m c1] l(4) by (auto simp: no_panic_def)
  have "no_panic (append ops l r) (\<lambda>u. wf_tree ops b u \<and> tree_items u = tree_items t)"
    using summary_laws.append_ok [OF laws l(2) r(2) _ b(2)] l(3) r(3) b(1) by simp
  then show ?thesis using l r boundary_stop by fastforce
qed

theorem slice_suffix_roundtrip_witness:
  "no_panic (slice num_ops map_key_ref (cmp_of (Some 8)) Left (cursor_new map_key_ref num_tree)) (\<lambda>(left, c1). no_panic (suffix num_ops map_key_ref c1) (\<lambda>(right, c2).
    wf_tree num_ops 1 left \<and> wf_tree num_ops 1 right \<and>
    (\<exists>m. boundary num_ops map_key_ref (cmp_of (Some 8)) Left (tree_items num_tree) m \<and> tree_items left = take m (tree_items num_tree) \<and> tree_items right = drop m (tree_items num_tree)) \<and>
    no_panic (append num_ops left right) (\<lambda>u. wf_tree num_ops 1 u \<and> tree_items u = tree_items num_tree)))"
  by (rule slice_suffix_roundtrip [OF num_laws(2) num_tree_wf(1) num_height num_limit(2) num_target])

text \<open>\<open>summary\<close> measures, in the output dimension, exactly the items before the boundary of the target, and leaves the cursor
  there, without visiting the items of the subtrees it passes over.\<close>

theorem cursor_summary_measures:
  assumes "dimension_pair ops dim out" and "wf_tree ops b t" and "node_height t < STACK_CAP" and "length (tree_items t) < limit b"
    and "target_mono ops dim tgt (dim_zero dim) (tree_items t)" and "tgt (dim_zero dim) \<noteq> Less"
  shows "no_panic (cursor_summary ops dim out tgt bias (cursor_new dim t)) (\<lambda>(r, c'). \<exists>m. boundary ops dim tgt bias (tree_items t) m \<and>
    cursor_at ops dim t m c' \<and> r = foldl (dim_add out) (dim_zero out) (map (item_summary ops) (take m (tree_items t))))"
proof -
  have "tgt (cur_position (cursor_new dim t)) \<noteq> Less" using assms(6) by (simp add: cursor_new_def)
  from dimension_pair.cursor_summary_ok [OF assms(1-5) _ this, of 0 bias] show ?thesis
    by (rule no_panic_mono) (auto simp: Let_def pos_after_def intro: boundary_stop)
qed

theorem cursor_summary_measures_witness:
  "no_panic (cursor_summary sum_ops (self_dim sum_ops) (self_dim sum_ops) (cmp_of 9) Right (cursor_new (self_dim sum_ops) sum_tree4)) (\<lambda>(r, c').
    \<exists>m. boundary sum_ops (self_dim sum_ops) (cmp_of 9) Right (tree_items sum_tree4) m \<and> cursor_at sum_ops (self_dim sum_ops) sum_tree4 m c' \<and>
      r = foldl (dim_add (self_dim sum_ops)) (dim_zero (self_dim sum_ops)) (map (item_summary sum_ops) (take m (tree_items sum_tree4))))"
proof (rule cursor_summary_measures [OF sum_laws(3) sum_tree4_wf(1,2)])
  show "length (tree_items sum_tree4) < limit 0" by (simp add: sum_tree4_wf(3) limit_def max_items_def TREE_BASE_def)
  show "target_mono sum_ops (self_dim sum_ops) (cmp_of 9) (dim_zero (self_dim sum_ops)) (tree_items sum_tree4)"
    by (auto simp: target_mono_def mono_along_def sum_tree4_wf(3) cmp_of_def pos_after_def self_dim_def sum_ops_def take_Cons split: nat.splits)
  show "cmp_of 9 (dim_zero (self_dim sum_ops)) \<noteq> Less" by (simp add: self_dim_def sum_ops_def)
qed

section \<open>Whole trees\<close>

text \<open>\<open>items\<close> and the iterator list the items of the tree in order, whatever its shape, and \<open>==\<close> on trees, which walks two
  iterators, decides equality of the item sequences; all three return.\<close>

theorem iteration_lists_items:
  assumes "summary_laws ops" and "wf_tree ops b t" and "node_height t < STACK_CAP" and "wf_tree ops b' u" and "node_height u < STACK_CAP"
  shows "items ops t = Some (tree_items t) \<and> drain (iter_next ops) (iter_new t) = Some (tree_items t) \<and>
    tree_eq ops t u = Some (tree_items t = tree_items u)"
  using summary_laws.items_ok [OF assms(1-3)] summary_laws.iter_drain [OF assms(1-3)] summary_laws.tree_eq_ok [OF assms] by simp

theorem iteration_lists_items_witness: "tree_eq num_ops num_tree (num_leaf [1, 2]) = Some False"
proof -
  have "wf_tree num_ops 0 (num_leaf [1, 2])" "node_height (num_leaf [1, 2]) < STACK_CAP"
    by (rule num_leaf_wf) (simp_all add: TREE_BASE_def num_leaf_def STACK_CAP_def)
  from iteration_lists_items [OF num_laws(1) num_tree_wf(1) num_height this]
  show ?thesis by (simp add: num_tree_def num_leaf_def)
qed

text \<open>\<open>update_first\<close> and \<open>update_last\<close> replace exactly the first or last item and restore all summaries on the way up.\<close>

theorem update_ends:
  assumes "summary_laws ops" and "wf_tree ops b t" and "tree_items t \<noteq> []"
  shows "no_panic (update_last ops f t) (\<lambda>r. wf_tree ops b r \<and> tree_items r = butlast (tree_items t) @ [f (last (tree_items t))]) \<and>
    no_panic (update_first ops f t) (\<lambda>r. wf_tree ops b r \<and> tree_items r = f (hd (tree_items t)) # tl (tree_items t))"
  using summary_laws.update_last_ok [OF assms(1,2), of f] summary_laws.update_first_ok [OF assms(1,2), of f] assms(3) by simp

theorem update_ends_witness:
  "no_panic (update_last sum_ops Suc sum_tree4) (\<lambda>r. wf_tree sum_ops 0 r \<and> tree_items r = [1, 7, 2, 9])"
  using update_ends [OF sum_laws(1) sum_tree4_wf(1), of Suc 0] by (simp add: sum_tree4_wf(3))

end
