(* ===== verification/ST_Map_Properties.thy ===== *)
theory ST_Map_Properties
  imports ST_Properties
begin

text \<open>
  The properties of the keyed operations of \<open>SumTree\<close> and of \<open>TreeMap\<close> and \<open>TreeSet\<close>: each operation refines the
  corresponding operation of a finite map.
\<close>

section \<open>Edits\<close>

lemma find_distinct:
  assumes "distinct (map f xs)" and "set ys = set xs" and "distinct (map f ys)"
  shows "find (\<lambda>d. f d = k) ys = find (\<lambda>d. f d = k) xs"
proof -
  have unique: "find (\<lambda>d. f d = k) zs = Some d \<longleftrightarrow> d \<in> set zs \<and> f d = k" if "distinct (map f zs)" for zs d
    using that by (induction zs) (auto simp: image_iff)
  show ?thesis
  proof (cases "find (\<lambda>d. f d = k) xs")
    case None
    then have "find (\<lambda>d. f d = k) ys = None" using assms(2) by (simp add: find_None_iff)
    then show ?thesis using None by simp
  next
    case (Some d)
    then show ?thesis using unique [OF assms(1), of d] unique [OF assms(3), of d] assms(2) by simp
  qed
qed

text \<open>C2: \<open>edit\<close> with distinct keys, in any order, gives a sorted well-formed tree in which \<open>get\<close> finds each inserted item, misses
  each removed key and is unchanged on all other keys; it never panics while the height stays in range.\<close>

theorem edit_updates_lookup:
  assumes "keyed_laws ops kdim key" and "tree_ok ops b t" and "sorted_by key (tree_items t)" and "0 < b" and "length edits \<le> CAP ^ b"
    and "length (tree_items t) + length edits < max_items STACK_CAP b" and "distinct (map (edit_key key) edits)"
  shows "no_panic (tree_edit ops kdim key t edits) (\<lambda>(r, removed). tree_ok ops b r \<and> sorted_by key (tree_items r) \<and>
    (\<forall>k. tree_get kdim r k = (case find (\<lambda>d. edit_key key d = k) edits of
       Some (Insert x) \<Rightarrow> Some x | Some (Remove _) \<Rightarrow> None | None \<Rightarrow> tree_get kdim t k)))"
proof -
  let ?ds = "sort_key (edit_key key) edits"
  have sorted: "sorted_by (edit_key key) ?ds" by (rule sort_key_strict [OF assms(7)])
  have dist: "distinct (map (edit_key key) ?ds)" using assms(7) by (simp add: distinct_map)
  have find: "find (\<lambda>d. edit_key key d = k) ?ds = find (\<lambda>d. edit_key key d = k) edits" for k
    by (rule find_distinct [OF assms(7) _ dist]) simp
  obtain r removed where r: "tree_edit ops kdim key t edits = Some (r, removed)" "tree_ok ops b r" "tree_items r = apply_edits key (tree_items t) ?ds"
    using keyed_laws.tree_edit_ok [OF assms(1-6)] by (auto simp: no_panic_def)
  have s: "sorted_by key (tree_items r)" unfolding r(3) by (rule apply_edits_sorted [OF assms(3) sorted])
  have wf: "wf_tree ops b t" "wf_tree ops b r" using assms(2) r(2) by (simp_all add: tree_ok_def)
  have "tree_get kdim r k = (case find (\<lambda>d. edit_key key d = k) edits of
      Some (Insert x) \<Rightarrow> Some x | Some (Remove _) \<Rightarrow> None | None \<Rightarrow> tree_get kdim t k)" for k
    unfolding keyed_laws.tree_get_ok [OF assms(1) wf(2) s] keyed_laws.tree_get_ok [OF assms(1) wf(1) assms(3)] r(3)
      lookup_apply_edits [OF assms(3) sorted] find ..
  then show ?thesis using r s by simp
qed

lemma num_tree_ok: "tree_ok num_ops 1 num_tree"
  using num_tree_wf(1,3) num_bounds(4) by (simp add: tree_ok_def STACK_CAP_def max_items_def TREE_BASE_def)

theorem edit_updates_lookup_witness:
  "no_panic (tree_edit num_ops map_key_ref map_entry_key num_tree [Remove (Some 3), Insert (entry (20, 1))]) (\<lambda>(r, removed).
    tree_ok num_ops 1 r \<and> sorted_by map_entry_key (tree_items r) \<and>
    (\<forall>k. tree_get map_key_ref r k = (case find (\<lambda>d. edit_key map_entry_key d = k) [Remove (Some 3), Insert (entry (20, 1))] of
       Some (Insert x) \<Rightarrow> Some x | Some (Remove _) \<Rightarrow> None | None \<Rightarrow> tree_get map_key_ref num_tree k)))"
  by (rule edit_updates_lookup [OF num_laws(4) num_tree_ok num_tree_wf(4)])
     (simp_all add: num_tree_wf(3) max_items_def TREE_BASE_def STACK_CAP_def)

section \<open>Maps\<close>

lemma num_inv: "tm_inv exact_capacity 1 num_tree"
  by (rule num_tree_inv) (simp_all add: STACK_CAP_def max_items_def TREE_BASE_def)

lemma num_room: "Suc (tm_size num_tree) < max_items STACK_CAP 1"
  by (simp add: tm_size_def num_tree_wf(3) STACK_CAP_def max_items_def TREE_BASE_def)

text \<open>C5: \<open>insert_or_replace\<close> refines map update: the invariant is kept, the abstract map is updated at the key, the old value is
  returned, and \<open>get\<close> reads the abstract map.\<close>

theorem tree_map_insert_refines:
  assumes "heapless_vec fits" and "tm_inv fits b t" and "Suc (tm_size t) < max_items STACK_CAP b"
  shows "no_panic (tm_insert_or_replace fits t k v) (\<lambda>(r, replaced). tm_inv fits b r \<and> tm_abs r = (tm_abs t)(k \<mapsto> v) \<and>
    replaced = tm_get t k \<and> (\<forall>j. tm_get r j = (if j = k then Some v else tm_get t j)))"
  by (rule no_panic_mono [OF heapless_vec.tm_insert_or_replace_ok [OF assms]])
     (auto simp: heapless_vec.tm_get_ok [OF assms(1,2)] heapless_vec.tm_get_ok [OF assms(1)])

theorem tree_map_insert_refines_witness:
  "no_panic (tm_insert_or_replace exact_capacity num_tree 3 0) (\<lambda>(r, replaced). tm_inv exact_capacity 1 r \<and>
    tm_abs r = (tm_abs num_tree)(3 \<mapsto> 0) \<and> replaced = tm_get num_tree 3 \<and>
    (\<forall>j. tm_get r j = (if j = 3 then Some 0 else tm_get num_tree j)))"
  by (rule tree_map_insert_refines [OF num_laws(5) num_inv num_room])

text \<open>\<open>remove\<close> refines deletion from a map and returns the removed value; a missing key changes nothing.\<close>

theorem tree_map_remove_refines:
  assumes "heapless_vec fits" and "tm_inv fits b t"
  shows "no_panic (tm_remove fits t k) (\<lambda>(r, removed). tm_inv fits b r \<and> tm_abs r = (tm_abs t)(k := None) \<and> removed = tm_abs t k)"
  by (rule heapless_vec.tm_remove_ok [OF assms])

theorem tree_map_remove_refines_witness:
  "no_panic (tm_remove exact_capacity num_tree 3) (\<lambda>(r, removed). tm_inv exact_capacity 1 r \<and>
    tm_abs r = (tm_abs num_tree)(3 := None) \<and> removed = tm_abs num_tree 3)"
  by (rule tree_map_remove_refines [OF num_laws(5) num_inv])

text \<open>C37: \<open>remove_range\<close>, for two ordered targets the first of which is not behind the second, removes exactly the keys from the
  first target up to, and not including, the second.\<close>

theorem tree_map_remove_range:
  assumes "heapless_vec fits" and "tm_inv fits b t" and "ordered_target lo" and "ordered_target hi" and "\<And>k. lo k = Greater \<Longrightarrow> hi k = Greater"
  shows "no_panic (tm_remove_range fits t lo hi) (\<lambda>r. tm_inv fits b r \<and> tm_abs r = (tm_abs t) |` {k. lo k = Greater \<or> hi k \<noteq> Greater})"
  by (rule heapless_vec.tm_remove_range_ok [OF assms])

theorem tree_map_remove_range_witness:
  "no_panic (tm_remove_range exact_capacity num_tree (cmp_of 3) (cmp_of 9)) (\<lambda>r. tm_inv exact_capacity 1 r \<and>
    tm_abs r = (tm_abs num_tree) |` {k. cmp_of 3 k = Greater \<or> cmp_of 9 k \<noteq> Greater})"
  by (rule tree_map_remove_range [OF num_laws(5) num_inv ordered_cmp_of ordered_cmp_of]) simp

text \<open>\<open>closest\<close> returns the entry with the greatest key that is at most the given one, \<open>iter_from\<close> the entries from a key on, and
  \<open>iter\<close> all entries, in key order.\<close>

theorem tree_map_ordered_queries:
  assumes "heapless_vec fits" and "tm_inv fits b t"
  shows "\<exists>es. tm_iter fits t = Some es \<and> sorted_wrt (<) (map fst es) \<and> map_of es = tm_abs t \<and>
    tm_iter_from fits t k = Some (filter (\<lambda>e. k \<le> fst e) es) \<and> tm_closest fits t k = Some (vec_last (filter (\<lambda>e. fst e \<le> k) es))"
proof -
  have "sorted_wrt (<) (map fst (map entry_pair (tree_items t)))"
    using assms(2) by (simp add: tm_inv_def sorted_by_def sorted_wrt_map entry_pair_def map_entry_key_def)
  then show ?thesis
    using heapless_vec.tm_iter_ok [OF assms] heapless_vec.tm_iter_from_ok [OF assms] heapless_vec.tm_closest_ok [OF assms]
    by (intro exI [of _ "map entry_pair (tree_items t)"]) (simp add: tm_abs_def)
qed

theorem tree_map_ordered_queries_witness:
  "\<exists>es. tm_iter exact_capacity num_tree = Some es \<and> sorted_wrt (<) (map fst es) \<and> map_of es = tm_abs num_tree \<and>
    tm_iter_from exact_capacity num_tree 5 = Some (filter (\<lambda>e. 5 \<le> fst e) es) \<and>
    tm_closest exact_capacity num_tree 5 = Some (vec_last (filter (\<lambda>e. fst e \<le> 5) es))"
  by (rule tree_map_ordered_queries [OF num_laws(5) num_inv])

text \<open>\<open>extend\<close> with distinct keys overrides the map with the new entries, and so does \<open>insert_tree\<close> with another map.\<close>

theorem tree_map_extend:
  assumes "heapless_vec fits" and "tm_inv fits b t" and "0 < b" and "length ps \<le> CAP ^ b" and "tm_size t + length ps < max_items STACK_CAP b"
    and "distinct (map fst ps)" and "tm_inv fits b' u" and "tm_size u \<le> CAP ^ b" and "tm_size t + tm_size u < max_items STACK_CAP b"
  shows "no_panic (tm_extend fits t ps) (\<lambda>r. tm_inv fits b r \<and> tm_abs r = tm_abs t ++ map_of ps) \<and>
    no_panic (tm_insert_tree fits t u) (\<lambda>r. tm_inv fits b r \<and> tm_abs r = tm_abs t ++ tm_abs u)"
  using heapless_vec.tm_extend_ok [OF assms(1-6)] heapless_vec.tm_insert_tree_ok [OF assms(1,2,7,3,8,9)] by simp

theorem tree_map_extend_witness:
  "no_panic (tm_extend exact_capacity num_tree [(20, 1), (3, 5)]) (\<lambda>r. tm_inv exact_capacity 1 r \<and> tm_abs r = tm_abs num_tree ++ map_of [(20, 1), (3, 5)]) \<and>
   no_panic (tm_insert_tree exact_capacity num_tree num_tree) (\<lambda>r. tm_inv exact_capacity 1 r \<and> tm_abs r = tm_abs num_tree ++ tm_abs num_tree)"
  by (rule tree_map_extend [OF num_laws(5) num_inv _ _ _ _ num_inv])
     (simp_all add: tm_size_def num_tree_wf(3) max_items_def TREE_BASE_def STACK_CAP_def)

text \<open>With a repeated key \<open>extend\<close> keeps both entries: the result is no longer a map.\<close>

context heapless_vec
begin

lemma extend_duplicates:
  "no_panic (tm_extend fits (tm_default fits) [(k, v), (k, w)]) (\<lambda>r. map entry_pair (tree_items r) = [(k, v), (k, w)] \<and>
    \<not> sorted_by map_entry_key (tree_items r))"
proof -
  let ?es = "[Insert (entry (k, v)), Insert (entry (k, w))] :: (('a, 'b) map_entry, 'a option) edit list"
  have "tm_inv fits 1 (tm_default fits :: ('a, 'b) tree_map)" by (rule conjunct1 [OF tm_default_ok]) (simp add: STACK_CAP_def)
  then have ok: "tree_ok (map_ops fits) 1 (tm_default fits :: ('a, 'b) tree_map)" by (simp add: tm_inv_def)
  have items: "tree_items (tm_default fits :: ('a, 'b) tree_map) = []" by (simp add: tm_default_def new_def)
  have edits: "sort_key (edit_key map_entry_key) ?es = ?es" by (simp add: sort_key_def)
  obtain r removed where r: "tree_edit (map_ops fits) map_key_ref map_entry_key (tm_default fits) ?es = Some (r, removed)"
      "tree_items r = apply_edits map_entry_key [] ?es"
    using mk.tree_edit_ok [OF ok, of ?es] by (auto simp: no_panic_def items edits max_items_def TREE_BASE_def STACK_CAP_def)
  then have "map entry_pair (tree_items r) = [(k, v), (k, w)]" "\<not> sorted_by map_entry_key (tree_items r)"
    by (simp_all add: drop_key_def)
  then show ?thesis using r(1) by (simp add: tm_extend_def)
qed

end

text \<open>Extending an empty map with the same key twice does not override: the result holds both entries, in the order given, and
  is no longer a map.\<close>

theorem extend_duplicate_keys:
  "no_panic (tm_extend exact_capacity (tm_default exact_capacity) [(k, v), (k, w)])
     (\<lambda>r. map entry_pair (tree_items r) = [(k, v), (k, w)] \<and> \<not> sorted_by map_entry_key (tree_items r))"
  by (rule exact.extend_duplicates)

text \<open>\<open>update\<close> applies the function to the value of an existing key and returns its result, and changes nothing for a missing
  key; \<open>retain\<close> keeps exactly the entries that satisfy the predicate.\<close>

theorem tree_map_update_retain:
  assumes "heapless_vec fits" and "tm_inv fits b t" and "Suc (tm_size t) < max_items STACK_CAP b"
  shows "no_panic (tm_update fits t k f) (\<lambda>(r, result). tm_inv fits b r \<and>
    (case tm_abs t k of
       Some v \<Rightarrow> result = Some (fst (f v)) \<and> tm_abs r = (tm_abs t)(k \<mapsto> snd (f v))
     | None \<Rightarrow> result = None \<and> tm_abs r = tm_abs t)) \<and>
   no_panic (tm_retain fits t P) (\<lambda>r. tm_inv fits b r \<and>
    tm_abs r = (\<lambda>k. case tm_abs t k of Some v \<Rightarrow> if P k v then Some v else None | None \<Rightarrow> None))"
  using heapless_vec.tm_update_eq [OF assms] heapless_vec.tm_retain_ok [OF assms(1,2)] by simp

theorem tree_map_update_retain_witness:
  "no_panic (tm_update exact_capacity num_tree 3 (\<lambda>v. (v, Suc v))) (\<lambda>(r, result). tm_inv exact_capacity 1 r \<and>
    (case tm_abs num_tree 3 of
       Some v \<Rightarrow> result = Some (fst (v, Suc v)) \<and> tm_abs r = (tm_abs num_tree)(3 \<mapsto> snd (v, Suc v))
     | None \<Rightarrow> result = None \<and> tm_abs r = tm_abs num_tree)) \<and>
   no_panic (tm_retain exact_capacity num_tree (\<lambda>k v. even k)) (\<lambda>r. tm_inv exact_capacity 1 r \<and>
    tm_abs r = (\<lambda>k. case tm_abs num_tree k of Some v \<Rightarrow> if even k then Some v else None | None \<Rightarrow> None))"
  by (rule tree_map_update_retain [OF num_laws(5) num_inv num_room])

section \<open>Sets\<close>

text \<open>\<open>TreeSet\<close> refines a set of keys: \<open>insert\<close>, \<open>remove\<close> (which says whether the key was there), \<open>contains\<close> and the ordered
  iteration.\<close>

theorem tree_set_refines:
  assumes "heapless_vec fits" and "tm_inv fits b s" and "Suc (tm_size s) < max_items STACK_CAP b"
  shows "no_panic (ts_insert fits s k) (\<lambda>s'. tm_inv fits b s' \<and> ts_abs s' = insert k (ts_abs s)) \<and>
    no_panic (ts_remove fits s k) (\<lambda>(s', removed). tm_inv fits b s' \<and> ts_abs s' = ts_abs s - {k} \<and> removed = (k \<in> ts_abs s)) \<and>
    (ts_contains s k \<longleftrightarrow> k \<in> ts_abs s) \<and> no_panic (ts_iter fits s) (\<lambda>ks. set ks = ts_abs s \<and> sorted_wrt (<) ks)"
  using heapless_vec.ts_insert_ok [OF assms] heapless_vec.ts_remove_ok [OF assms(1,2)] heapless_vec.ts_contains_ok [OF assms(1,2)]
    heapless_vec.ts_iter_ok [OF assms(1,2)] by simp

theorem tree_set_refines_witness:
  "let s = (tm_default exact_capacity :: nat tree_set) in
   no_panic (ts_insert exact_capacity s 4) (\<lambda>s'. tm_inv exact_capacity 1 s' \<and> ts_abs s' = insert 4 (ts_abs s)) \<and>
    no_panic (ts_remove exact_capacity s 4) (\<lambda>(s', removed). tm_inv exact_capacity 1 s' \<and> ts_abs s' = ts_abs s - {4} \<and> removed = (4 \<in> ts_abs s)) \<and>
    (ts_contains s 4 \<longleftrightarrow> 4 \<in> ts_abs s) \<and> no_panic (ts_iter exact_capacity s) (\<lambda>ks. set ks = ts_abs s \<and> sorted_wrt (<) ks)"
  unfolding Let_def
proof (rule tree_set_refines [OF num_laws(5)])
  show "tm_inv exact_capacity 1 (tm_default exact_capacity :: nat tree_set)"
    by (rule conjunct1 [OF heapless_vec.tm_default_ok [OF num_laws(5)]]) (simp add: STACK_CAP_def)
  show "Suc (tm_size (tm_default exact_capacity :: nat tree_set)) < max_items STACK_CAP 1"
    by (simp add: tm_size_def tm_default_def new_def max_items_def TREE_BASE_def STACK_CAP_def)
qed

end
