(* ===== verification/Json.thy ===== *)
theory Json
  imports Text
begin

text \<open>
  \<open>serde_json::Value\<close> is a third-party type: the models below take its values as a type variable \<open>'v\<close> and
  \<open>view :: 'v \<Rightarrow> 'v json_view\<close>, the variant a value is, as an argument. Numbers are opaque: the program never looks
  into them.
\<close>

datatype 'v json_view = JNull | JBool bool | JNumber | JString str | JArray "'v list" | JObject "(str \<times> 'v) list"

text \<open>A concrete instance, for evaluation.\<close>

datatype json = Null | Bool bool | Number int | Str str | Array "json list" | Object "(str \<times> json) list"

fun json_view_of :: "json \<Rightarrow> json json_view" where
  "json_view_of Null = JNull"
| "json_view_of (Bool b) = JBool b"
| "json_view_of (Number n) = JNumber"
| "json_view_of (Str s) = JString s"
| "json_view_of (Array vs) = JArray vs"
| "json_view_of (Object kvs) = JObject kvs"

end
