(* ===== verification/Form_Field.thy ===== *)
theory Form_Field
  imports Json
begin

text \<open>
  The parts of \<open>crates/form\<close> below the store: field paths and ids (\<open>path.rs\<close>), redaction
  (\<open>redaction.rs\<close>), errors (\<open>error.rs\<close>), tickets (\<open>validation.rs\<close>), the state of one field (\<open>field.rs\<close>)
  and typed lenses (\<open>lens.rs\<close>). An \<open>Arc<FormAuthority>\<close> is used only for its identity, a number here.
\<close>

section \<open>Paths and ids\<close>

datatype field_path = FieldPath (path_str: str)

datatype field_id = FieldId (id_str: str)

datatype field_path_error = EmptyPath

instantiation field_path :: linorder
begin

definition less_eq_field_path :: "field_path \<Rightarrow> field_path \<Rightarrow> bool" where
  "p \<le> q \<longleftrightarrow> path_str p \<le> path_str q"

definition less_field_path :: "field_path \<Rightarrow> field_path \<Rightarrow> bool" where
  "p < q \<longleftrightarrow> path_str p < path_str q"

instance
  by standard (auto simp: less_eq_field_path_def less_field_path_def field_path.expand)

end

definition field_path_new :: "str \<Rightarrow> field_path_error + field_path" where
  "field_path_new p = (if trim p = [] then Inl EmptyPath else Inr (FieldPath p))"

definition field_id_new :: "str \<Rightarrow> field_path_error + field_id" where
  "field_id_new i = (if trim i = [] then Inl EmptyPath else Inr (FieldId i))"

definition field_id_from :: "field_path \<Rightarrow> field_id" where
  "field_id_from p = FieldId (path_str p)"

lemma field_path_new_Inr: "field_path_new p = Inr q \<longleftrightarrow> q = FieldPath p \<and> (\<exists>c \<in> set p. \<not> is_whitespace c)"
  by (auto simp: field_path_new_def trim_eq_Nil)

lemma field_id_from_new: "field_path_new p = Inr q \<Longrightarrow> field_id_new (path_str q) = Inr (field_id_from q)"
  by (auto simp: field_path_new_def field_id_new_def field_id_from_def split: if_splits)

section \<open>Redaction\<close>

datatype 'v redacted_value = Redacted | Summary str | Json 'v

datatype redaction_policy = RedactAll | Summarize | Expose

definition redaction_default :: redaction_policy where
  "redaction_default = RedactAll"

fun form_value_summary :: "'v json_view \<Rightarrow> str" where
  "form_value_summary JNull = lit ''null''"
| "form_value_summary (JBool _) = lit ''bool''"
| "form_value_summary JNumber = lit ''number''"
| "form_value_summary (JString s) = lit ''string:'' @ decimal (length s) @ lit '' chars''"
| "form_value_summary (JArray vs) = lit ''array:'' @ decimal (length vs) @ lit '' items''"
| "form_value_summary (JObject kvs) = lit ''object:'' @ decimal (length kvs) @ lit '' keys''"

fun redaction_apply :: "('v \<Rightarrow> 'v json_view) \<Rightarrow> redaction_policy \<Rightarrow> 'v \<Rightarrow> 'v redacted_value" where
  "redaction_apply view RedactAll v = Redacted"
| "redaction_apply view Summarize v = Summary (form_value_summary (view v))"
| "redaction_apply view Expose v = Json v"

section \<open>Errors\<close>

datatype submit_block_reason = Invalid | Validating | AlreadySubmitting

datatype form_error =
    DuplicateField field_path
  | UnknownField field_path
  | CannotSubmit submit_block_reason
  | CannotValidateWhileSubmitting
  | LifecycleGenerationExhausted
  | LensError str

section \<open>Validation tickets and the state of one field\<close>

type_synonym authority = nat

record validation_ticket =
  vt_authority :: authority
  vt_path :: field_path
  vt_value_revision :: u64
  vt_generation :: u64

definition vt_belongs_to :: "validation_ticket \<Rightarrow> authority \<Rightarrow> bool" where
  "vt_belongs_to t a \<longleftrightarrow> vt_authority t = a"

datatype validation_completion = ValidationApplied | ValidationStale | ValidationCancelled

record field_meta =
  dirty :: bool
  touched :: bool
  visited :: bool
  validating :: bool
  field_errors :: "str list"

definition field_meta_default :: field_meta where
  "field_meta_default = \<lparr>dirty = False, touched = False, visited = False, validating = False, field_errors = []\<rparr>"

record 'v field_state =
  fs_id :: field_id
  fs_path :: field_path
  initial_value :: 'v
  fs_value :: 'v
  fs_meta :: field_meta
  value_revision :: u64
  active_generation :: "u64 option"

definition field_new :: "field_path \<Rightarrow> 'v \<Rightarrow> 'v field_state" where
  "field_new path v =
     \<lparr>fs_id = field_id_from path, fs_path = path, initial_value = v, fs_value = v, fs_meta = field_meta_default,
      value_revision = 0, active_generation = None\<rparr>"

definition cancel_validation :: "'v field_state \<Rightarrow> 'v field_state" where
  "cancel_validation f = f\<lparr>active_generation := None, fs_meta := (fs_meta f)\<lparr>validating := False\<rparr>\<rparr>"

definition field_set_value :: "'v field_state \<Rightarrow> 'v \<Rightarrow> bool \<times> 'v field_state" where
  "field_set_value f v =
     (if fs_value f = v then (False, f)
      else let f1 = f\<lparr>fs_value := v, value_revision := saturating_succ (value_revision f)\<rparr>;
               f2 = f1\<lparr>fs_meta := (fs_meta f1)\<lparr>dirty := (fs_value f1 \<noteq> initial_value f1), field_errors := []\<rparr>\<rparr>
           in (True, cancel_validation f2))"

definition field_touch :: "'v field_state \<Rightarrow> 'v field_state" where
  "field_touch f = f\<lparr>fs_meta := (fs_meta f)\<lparr>touched := True\<rparr>\<rparr>"

definition field_visit :: "'v field_state \<Rightarrow> 'v field_state" where
  "field_visit f = f\<lparr>fs_meta := (fs_meta f)\<lparr>visited := True\<rparr>\<rparr>"

definition field_set_errors :: "'v field_state \<Rightarrow> str list \<Rightarrow> 'v field_state" where
  "field_set_errors f errors =
     (let f1 = cancel_validation f in f1\<lparr>fs_meta := (fs_meta f1)\<lparr>field_errors := errors\<rparr>\<rparr>)"

definition field_begin_validation :: "'v field_state \<Rightarrow> authority \<Rightarrow> u64 \<Rightarrow> validation_ticket \<times> 'v field_state" where
  "field_begin_validation f a generation =
     (let f1 = f\<lparr>active_generation := Some generation, fs_meta := (fs_meta f)\<lparr>validating := True\<rparr>\<rparr> in
      (\<lparr>vt_authority = a, vt_path = fs_path f1, vt_value_revision = value_revision f1, vt_generation = generation\<rparr>, f1))"

definition field_complete_validation :: "'v field_state \<Rightarrow> validation_ticket \<Rightarrow> str list \<Rightarrow>
    validation_completion \<times> 'v field_state" where
  "field_complete_validation f ticket errors =
     (case active_generation f of
        None \<Rightarrow> (ValidationCancelled, f)
      | Some generation \<Rightarrow>
          if generation \<noteq> vt_generation ticket then (ValidationStale, f)
          else if vt_value_revision ticket \<noteq> value_revision f then (ValidationCancelled, f)
          else (ValidationApplied,
            f\<lparr>active_generation := None, fs_meta := (fs_meta f)\<lparr>validating := False, field_errors := errors\<rparr>\<rparr>))"

definition field_reset :: "'v field_state \<Rightarrow> 'v field_state" where
  "field_reset f = f\<lparr>fs_value := initial_value f, value_revision := saturating_succ (value_revision f),
     fs_meta := field_meta_default, active_generation := None\<rparr>"

lemmas field_op_defs = cancel_validation_def field_set_value_def field_touch_def field_visit_def field_set_errors_def
  field_begin_validation_def field_complete_validation_def field_reset_def field_meta_default_def Let_def

subsection \<open>The invariant of a field\<close>

text \<open>
  A field knows its path and id, is dirty exactly when its value differs from the initial one, and shows validation as
  running exactly when a generation is active.
\<close>

definition field_inv :: "field_path \<Rightarrow> 'v field_state \<Rightarrow> bool" where
  "field_inv p f \<longleftrightarrow> fs_path f = p \<and> fs_id f = field_id_from p \<and>
     (dirty (fs_meta f) \<longleftrightarrow> fs_value f \<noteq> initial_value f) \<and>
     (validating (fs_meta f) \<longleftrightarrow> active_generation f \<noteq> None)"

lemma field_inv_ops:
  "field_inv p (field_new p v)"
  "field_inv p f \<Longrightarrow> field_inv p (snd (field_set_value f v))"
  "field_inv p f \<Longrightarrow> field_inv p (field_touch f)"
  "field_inv p f \<Longrightarrow> field_inv p (field_visit f)"
  "field_inv p f \<Longrightarrow> field_inv p (field_set_errors f errs)"
  "field_inv p f \<Longrightarrow> field_inv p (snd (field_begin_validation f a g))"
  "field_inv p f \<Longrightarrow> field_inv p (snd (field_complete_validation f t errs))"
  "field_inv p f \<Longrightarrow> field_inv p (field_reset f)"
  by (auto simp: field_inv_def field_new_def field_op_defs split: option.split)

text \<open>
  How one operation may change a field while validation generations up to \<open>n\<close> have been given out: it keeps the
  active generation and the value, or cancels the generation, or starts a generation above \<open>n\<close>.
\<close>

definition evolves :: "u64 \<Rightarrow> 'v field_state \<Rightarrow> 'v field_state \<Rightarrow> bool" where
  "evolves n f f' \<longleftrightarrow> (active_generation f' = active_generation f \<and> fs_value f' = fs_value f \<and> value_revision f' = value_revision f) \<or>
     active_generation f' = None \<or> (\<exists>g > n. active_generation f' = Some g)"

lemma evolves_refl [simp]: "evolves n f f"
  by (simp add: evolves_def)

lemma evolves_ops:
  "evolves n f (snd (field_set_value f v))"
  "evolves n f (field_touch f)"
  "evolves n f (field_visit f)"
  "evolves n f (field_set_errors f errs)"
  "n < g \<Longrightarrow> evolves n f (snd (field_begin_validation f a g))"
  "evolves n f (snd (field_complete_validation f t errs))"
  "evolves n f (field_reset f)"
  by (auto simp: evolves_def field_op_defs split: option.split)

section \<open>Lenses\<close>

text \<open>A lens is its path and the two closures of the application.\<close>

record ('t, 'v) field_lens =
  lens_path :: field_path
  lens_get :: "'t \<Rightarrow> 'v"
  lens_set :: "'t \<Rightarrow> 'v \<Rightarrow> (form_error + unit) \<times> 't"

end
