(* ===== verification/BTree_Map.thy ===== *)
theory BTree_Map
  imports Map_Contract
begin

text \<open>
  \<open>std::collections::BTreeMap\<close> as the list of its entries in increasing key order: lookup is \<open>map_of\<close>, iteration is
  the list itself, and every operation below keeps the order.
\<close>

type_synonym ('k, 'v) btree_map = "('k \<times> 'v) list"

definition bt_insert :: "'k::linorder \<Rightarrow> 'v \<Rightarrow> ('k, 'v) btree_map \<Rightarrow> ('k, 'v) btree_map" where
  "bt_insert k v m = takeWhile (\<lambda>e. fst e < k) m @ (k, v) # dropWhile (\<lambda>e. fst e \<le> k) m"

text \<open>A write through \<open>get_mut\<close>, and \<open>values_mut\<close>.\<close>

definition bt_modify :: "'k \<Rightarrow> ('v \<Rightarrow> 'v) \<Rightarrow> ('k, 'v) btree_map \<Rightarrow> ('k, 'v) btree_map" where
  "bt_modify k f m = map (\<lambda>(k', v). (k', if k' = k then f v else v)) m"

definition bt_map_values :: "('v \<Rightarrow> 'v) \<Rightarrow> ('k, 'v) btree_map \<Rightarrow> ('k, 'v) btree_map" where
  "bt_map_values f m = map (\<lambda>(k, v). (k, f v)) m"

definition bt_remove :: "'k \<Rightarrow> ('k, 'v) btree_map \<Rightarrow> ('k, 'v) btree_map" where
  "bt_remove k m = filter (\<lambda>e. fst e \<noteq> k) m"

abbreviation bt_values :: "('k, 'v) btree_map \<Rightarrow> 'v list" where
  "bt_values m \<equiv> map snd m"

definition bt_ok :: "('k::linorder, 'v) btree_map \<Rightarrow> bool" where
  "bt_ok m \<longleftrightarrow> sorted_wrt (<) (map fst m)"

named_theorems bt_simps \<open>lookup and order after an operation\<close>

lemma bt_ok_Nil [simp]: "bt_ok []"
  by (simp add: bt_ok_def)

lemma bt_ok_Cons: "bt_ok (e # m) \<longleftrightarrow> bt_ok m \<and> (\<forall>e' \<in> set m. fst e < fst e')"
  by (auto simp: bt_ok_def)

lemma bt_ok_distinct: "bt_ok m \<Longrightarrow> distinct (map fst m)"
  by (simp add: bt_ok_def strict_sorted_iff)

lemma map_of_mem: "bt_ok m \<Longrightarrow> (k, v) \<in> set m \<longleftrightarrow> map_of m k = Some v"
  by (simp add: bt_ok_distinct)

lemma bt_insert_Cons:
  assumes "bt_ok (e # m)"
  shows "bt_insert k v (e # m) = (if fst e < k then e # bt_insert k v m else if fst e = k then (k, v) # m else (k, v) # e # m)"
  using assms by (cases m) (auto simp: bt_insert_def bt_ok_Cons)

lemma set_bt_insert: "bt_ok m \<Longrightarrow> set (bt_insert k v m) = insert (k, v) {e \<in> set m. fst e \<noteq> k}"
proof (induction m)
  case (Cons e m)
  then have "set (bt_insert k v m) = insert (k, v) {e \<in> set m. fst e \<noteq> k}" and "bt_ok (e # m)" by (simp_all add: bt_ok_Cons)
  then show ?case by (auto simp: bt_insert_Cons bt_ok_Cons)
qed (simp add: bt_insert_def)

lemma bt_ok_insert [bt_simps]: "bt_ok m \<Longrightarrow> bt_ok (bt_insert k v m)"
proof (induction m)
  case (Cons e m)
  then have m: "bt_ok m" and IH: "bt_ok (bt_insert k v m)" by (simp_all add: bt_ok_Cons)
  show ?case
    using Cons.prems IH by (auto simp: bt_insert_Cons bt_ok_Cons set_bt_insert [OF m])
qed (simp add: bt_insert_def bt_ok_def)

lemma map_of_insert [bt_simps]: "bt_ok m \<Longrightarrow> map_of (bt_insert k v m) = (map_of m)(k \<mapsto> v)"
proof (induction m)
  case (Cons e m)
  from Cons.prems have "map_of (bt_insert k v m) = (map_of m)(k \<mapsto> v)" by (intro Cons.IH) (simp add: bt_ok_Cons)
  then show ?case
    by (intro ext) (use Cons.prems in \<open>auto simp: bt_insert_Cons map_of_Cons_code split: if_splits\<close>)
qed (simp add: bt_insert_def)

lemma map_fst_modify [simp]: "map fst (bt_modify k f m) = map fst m"
  by (simp add: bt_modify_def case_prod_unfold comp_def)

lemma bt_ok_modify [bt_simps]: "bt_ok (bt_modify k f m) \<longleftrightarrow> bt_ok m"
  by (simp add: bt_ok_def)

lemma map_of_modify [bt_simps]: "map_of (bt_modify k f m) j = (if j = k then map_option f (map_of m k) else map_of m j)"
  by (induction m) (auto simp: bt_modify_def)

lemma bt_modify_absent [simp]: "map_of m k = None \<Longrightarrow> bt_modify k f m = m"
  unfolding bt_modify_def by (induction m) (auto split: if_splits)

lemma map_fst_map_values [simp]: "map fst (bt_map_values f m) = map fst m"
  by (simp add: bt_map_values_def case_prod_unfold comp_def)

lemma bt_ok_map_values [bt_simps]: "bt_ok (bt_map_values f m) \<longleftrightarrow> bt_ok m"
  by (simp add: bt_ok_def)

lemma map_of_map_values [bt_simps]: "map_of (bt_map_values f m) j = map_option f (map_of m j)"
  by (induction m) (auto simp: bt_map_values_def)

lemma bt_ok_remove [bt_simps]: "bt_ok m \<Longrightarrow> bt_ok (bt_remove k m)"
  unfolding bt_remove_def by (induction m) (auto simp: bt_ok_Cons)

lemma map_of_remove [bt_simps]: "map_of (bt_remove k m) = (map_of m)(k := None)"
  unfolding bt_remove_def by (induction m) (auto split: if_splits)

lemma bt_remove_head: "bt_ok (e # m) \<Longrightarrow> bt_remove (fst e) (e # m) = m"
  by (auto simp: bt_remove_def bt_ok_Cons intro!: filter_True)

text \<open>All entries, through lookup.\<close>

lemma bt_all:
  assumes "bt_ok m"
  shows "(\<forall>v \<in> set (bt_values m). P v) \<longleftrightarrow> (\<forall>k v. map_of m k = Some v \<longrightarrow> P v)"
proof -
  have "(\<forall>v \<in> set (bt_values m). P v) \<longleftrightarrow> (\<forall>k v. (k, v) \<in> set m \<longrightarrow> P v)" by force
  then show ?thesis by (simp only: map_of_mem [OF assms])
qed

lemma bt_ex:
  assumes "bt_ok m"
  shows "(\<exists>v \<in> set (bt_values m). P v) \<longleftrightarrow> (\<exists>k v. map_of m k = Some v \<and> P v)"
  using bt_all [OF assms, of "\<lambda>v. \<not> P v"] by blast

text \<open>Two maps with the same lookup are the same list.\<close>

lemma bt_ext:
  assumes ok: "bt_ok m" "bt_ok m'" and eq: "map_of m = map_of m'"
  shows "m = m'"
proof -
  have set_eq: "set m = set m'"
  proof (rule set_eqI)
    fix e
    show "e \<in> set m \<longleftrightarrow> e \<in> set m'" using eq map_of_mem [OF ok(1)] map_of_mem [OF ok(2)] by (cases e) simp
  qed
  have inj: "inj_on fst (set m \<union> set m')"
    using bt_ok_distinct [OF ok(1)] by (simp add: set_eq [symmetric] distinct_map)
  show ?thesis
    by (rule map_sorted_distinct_set_unique [OF inj _ _ _ _ set_eq])
       (use ok in \<open>simp_all add: bt_ok_def strict_sorted_iff\<close>)
qed

interpretation bt: map_contract bt_ok map_of map_of "\<lambda>m k v. Some (bt_insert k v m)" "\<lambda>_. True"
    "\<lambda>m k. Some (bt_remove k m, map_of m k)"
  by unfold_locales (simp_all add: bt_simps)

end
