(* ===== verification/Form_Store.thy ===== *)
theory Form_Store
  imports Form_Field BTree_Map
begin

text \<open>
  \<open>FormStore\<close> (\<open>form.rs\<close>), its snapshots (\<open>snapshot.rs\<close>) and the debounced validation queue
  (\<open>validation.rs\<close>). An operation takes the store and returns its result, an error on the left, with the new store;
  the step relation collects the operations of the public interface, with arbitrary arguments.
\<close>

section \<open>The store\<close>

record submit_ticket =
  st_authority :: authority
  st_form_revision :: u64
  st_generation :: u64

datatype submit_completion = SubmitApplied | SubmitStale | SubmitCancelled

datatype submission_phase = Idle | Submitting submit_ticket | Submitted | SubmitFailed

record 'v form_store =
  authority :: authority
  form_fields :: "(field_path, 'v field_state) btree_map"
  submission :: submission_phase
  form_errors :: "str list"
  submit_count :: u32
  form_revision :: u64
  next_validation_generation :: u64
  next_submit_generation :: u64

definition form_default :: "authority \<Rightarrow> 'v form_store" where
  "form_default a = \<lparr>authority = a, form_fields = [], submission = Idle, form_errors = [], submit_count = 0, form_revision = 0,
     next_validation_generation = 0, next_submit_generation = 0\<rparr>"

type_synonym ('v, 'r) form_result = "(form_error + 'r) \<times> 'v form_store"

text \<open>\<open>PartialEq for SubmitTicket\<close>: pointer equality of the authorities, equality of the numbers.\<close>

definition submit_ticket_eq :: "submit_ticket \<Rightarrow> submit_ticket \<Rightarrow> bool" where
  "submit_ticket_eq t u \<longleftrightarrow> st_authority t = st_authority u \<and> st_form_revision t = st_form_revision u \<and>
     st_generation t = st_generation u"

definition st_belongs_to :: "submit_ticket \<Rightarrow> authority \<Rightarrow> bool" where
  "st_belongs_to t a \<longleftrightarrow> st_authority t = a"

definition is_submitting :: "'v form_store \<Rightarrow> bool" where
  "is_submitting s \<longleftrightarrow> (case submission s of Submitting _ \<Rightarrow> True | _ \<Rightarrow> False)"

definition is_validating :: "'v form_store \<Rightarrow> bool" where
  "is_validating s \<longleftrightarrow> list_ex (\<lambda>f. validating (fs_meta f)) (bt_values (form_fields s))"

definition is_invalid :: "'v form_store \<Rightarrow> bool" where
  "is_invalid s \<longleftrightarrow> list_ex (\<lambda>f. field_errors (fs_meta f) \<noteq> []) (bt_values (form_fields s))"

definition clear_terminal_submission :: "'v form_store \<Rightarrow> 'v form_store" where
  "clear_terminal_submission s =
     (case submission s of
        Submitted \<Rightarrow> s\<lparr>submission := Idle, form_errors := []\<rparr>
      | SubmitFailed \<Rightarrow> s\<lparr>submission := Idle, form_errors := []\<rparr>
      | _ \<Rightarrow> s)"

definition advance_form_revision :: "'v form_store \<Rightarrow> 'v form_store" where
  "advance_form_revision s = s\<lparr>form_revision := saturating_succ (form_revision s), submission := Idle, form_errors := []\<rparr>"

definition submit_completion_of :: "'v form_store \<Rightarrow> submit_ticket \<Rightarrow> submit_completion" where
  "submit_completion_of s ticket =
     (if \<not> st_belongs_to ticket (authority s) then SubmitCancelled
      else case submission s of
             Submitting active \<Rightarrow> (if submit_ticket_eq active ticket then SubmitApplied else SubmitStale)
           | _ \<Rightarrow> SubmitCancelled)"

definition field_or_err :: "'v form_store \<Rightarrow> field_path \<Rightarrow> form_error + 'v field_state" where
  "field_or_err s path = (case map_of (form_fields s) path of Some f \<Rightarrow> Inr f | None \<Rightarrow> Inl (UnknownField path))"

text \<open>A write through \<open>field_or_err_mut\<close>: \<open>step\<close> computes the result and the new field.\<close>

definition with_field :: "'v form_store \<Rightarrow> field_path \<Rightarrow> ('v field_state \<Rightarrow> 'r \<times> 'v field_state) \<Rightarrow> ('v, 'r) form_result" where
  "with_field s path step =
     (case field_or_err s path of
        Inl e \<Rightarrow> (Inl e, s)
      | Inr f \<Rightarrow> (case step f of (r, f') \<Rightarrow> (Inr r, s\<lparr>form_fields := bt_modify path (\<lambda>_. f') (form_fields s)\<rparr>)))"

definition next_generation :: "u64 \<Rightarrow> form_error + u64" where
  "next_generation current = (case checked_succ current of Some n \<Rightarrow> Inr n | None \<Rightarrow> Inl LifecycleGenerationExhausted)"

section \<open>Operations\<close>

definition register_field :: "'v form_store \<Rightarrow> field_path \<Rightarrow> 'v \<Rightarrow> ('v, unit) form_result" where
  "register_field s path v =
     (if map_of (form_fields s) path \<noteq> None then (Inl (DuplicateField path), s)
      else (Inr (), advance_form_revision (s\<lparr>form_fields := bt_insert path (field_new path v) (form_fields s)\<rparr>)))"

datatype form_status = StatusIdle | StatusValidating | StatusSubmitting | StatusSubmitted | StatusSubmitFailed

definition form_status_of :: "'v form_store \<Rightarrow> form_status" where
  "form_status_of s =
     (case submission s of
        Submitting _ \<Rightarrow> StatusSubmitting
      | Submitted \<Rightarrow> StatusSubmitted
      | SubmitFailed \<Rightarrow> StatusSubmitFailed
      | Idle \<Rightarrow> if is_validating s then StatusValidating else StatusIdle)"

definition can_submit :: "'v form_store \<Rightarrow> bool" where
  "can_submit s \<longleftrightarrow> \<not> is_submitting s \<and> \<not> is_validating s \<and> \<not> is_invalid s"

definition form_field :: "'v form_store \<Rightarrow> field_path \<Rightarrow> 'v field_state option" where
  "form_field s path = map_of (form_fields s) path"

definition form_value :: "'v form_store \<Rightarrow> field_path \<Rightarrow> form_error + 'v" where
  "form_value s path = (case field_or_err s path of Inl e \<Rightarrow> Inl e | Inr f \<Rightarrow> Inr (fs_value f))"

definition set_value :: "'v form_store \<Rightarrow> field_path \<Rightarrow> 'v \<Rightarrow> ('v, unit) form_result" where
  "set_value s path v =
     (case with_field s path (\<lambda>f. field_set_value f v) of
        (Inl e, s') \<Rightarrow> (Inl e, s')
      | (Inr changed, s') \<Rightarrow> (Inr (), if changed then advance_form_revision s' else s'))"

definition touch :: "'v form_store \<Rightarrow> field_path \<Rightarrow> ('v, unit) form_result" where
  "touch s path = with_field s path (\<lambda>f. ((), field_touch f))"

definition visit :: "'v form_store \<Rightarrow> field_path \<Rightarrow> ('v, unit) form_result" where
  "visit s path = with_field s path (\<lambda>f. ((), field_visit f))"

record field_validation_outcome =
  outcome_errors :: "str list"

definition outcome_is_valid :: "field_validation_outcome \<Rightarrow> bool" where
  "outcome_is_valid r \<longleftrightarrow> outcome_errors r = []"

definition validate_field :: "'v form_store \<Rightarrow> field_path \<Rightarrow> ('v \<Rightarrow> str list) \<Rightarrow> ('v, field_validation_outcome) form_result" where
  "validate_field s path validator =
     (if is_submitting s then (Inl CannotValidateWhileSubmitting, s)
      else case field_or_err s path of
        Inl e \<Rightarrow> (Inl e, s)
      | Inr _ \<Rightarrow>
          with_field (clear_terminal_submission s) path
            (\<lambda>f. let errors = validator (fs_value f) in (\<lparr>outcome_errors = errors\<rparr>, field_set_errors f errors)))"

definition begin_async_validation :: "'v form_store \<Rightarrow> field_path \<Rightarrow> ('v, validation_ticket) form_result" where
  "begin_async_validation s path =
     (if is_submitting s then (Inl CannotValidateWhileSubmitting, s)
      else case field_or_err s path of
        Inl e \<Rightarrow> (Inl e, s)
      | Inr _ \<Rightarrow>
          (case next_generation (next_validation_generation s) of
             Inl e \<Rightarrow> (Inl e, s)
           | Inr generation \<Rightarrow>
               with_field (clear_terminal_submission (s\<lparr>next_validation_generation := generation\<rparr>)) path
                 (\<lambda>f. field_begin_validation f (authority s) generation)))"

definition complete_async_validation :: "'v form_store \<Rightarrow> validation_ticket \<Rightarrow> str list \<Rightarrow>
    validation_completion \<times> 'v form_store" where
  "complete_async_validation s ticket errors =
     (if \<not> vt_belongs_to ticket (authority s) then (ValidationCancelled, s)
      else case map_of (form_fields s) (vt_path ticket) of
        None \<Rightarrow> (ValidationCancelled, s)
      | Some f \<Rightarrow>
          (case field_complete_validation f ticket errors of
             (completion, f') \<Rightarrow> (completion, s\<lparr>form_fields := bt_modify (vt_path ticket) (\<lambda>_. f') (form_fields s)\<rparr>)))"

definition begin_submit :: "'v form_store \<Rightarrow> ('v, submit_ticket) form_result" where
  "begin_submit s =
     (if is_submitting s then (Inl (CannotSubmit AlreadySubmitting), s)
      else if is_validating s then (Inl (CannotSubmit Validating), s)
      else if is_invalid s then (Inl (CannotSubmit Invalid), s)
      else case next_generation (next_submit_generation s) of
        Inl e \<Rightarrow> (Inl e, s)
      | Inr generation \<Rightarrow>
          let ticket = \<lparr>st_authority = authority s, st_form_revision = form_revision s, st_generation = generation\<rparr> in
          (Inr ticket, s\<lparr>next_submit_generation := generation, submission := Submitting ticket,
             submit_count := saturating_succ (submit_count s), form_errors := []\<rparr>))"

definition finish_submit_success :: "'v form_store \<Rightarrow> submit_ticket \<Rightarrow> submit_completion \<times> 'v form_store" where
  "finish_submit_success s ticket =
     (let completion = submit_completion_of s ticket in
      if completion \<noteq> SubmitApplied then (completion, s)
      else (SubmitApplied, s\<lparr>submission := Submitted, form_errors := []\<rparr>))"

definition finish_submit_error :: "'v form_store \<Rightarrow> submit_ticket \<Rightarrow> str \<Rightarrow> submit_completion \<times> 'v form_store" where
  "finish_submit_error s ticket error =
     (let completion = submit_completion_of s ticket in
      if completion \<noteq> SubmitApplied then (completion, s)
      else (SubmitApplied, s\<lparr>submission := SubmitFailed, form_errors := [error]\<rparr>))"

definition form_reset :: "'v form_store \<Rightarrow> 'v form_store" where
  "form_reset s = advance_form_revision (s\<lparr>form_fields := bt_map_values field_reset (form_fields s)\<rparr>)"

lemmas form_op_defs = register_field_def set_value_def touch_def visit_def validate_field_def begin_async_validation_def
  complete_async_validation_def begin_submit_def finish_submit_success_def finish_submit_error_def form_reset_def
  with_field_def field_or_err_def next_generation_def Let_def

section \<open>Snapshots\<close>

record 'v field_snapshot =
  fsnap_id :: field_id
  fsnap_path :: field_path
  fsnap_value :: "'v redacted_value"
  fsnap_meta :: field_meta

record 'v form_snapshot =
  snap_status :: form_status
  snap_fields :: "'v field_snapshot list"
  snap_errors :: "str list"
  snap_submit_count :: u32

definition field_snapshot_of :: "('v \<Rightarrow> 'v json_view) \<Rightarrow> redaction_policy \<Rightarrow> 'v field_state \<Rightarrow> 'v field_snapshot" where
  "field_snapshot_of view redaction f =
     \<lparr>fsnap_id = fs_id f, fsnap_path = fs_path f, fsnap_value = redaction_apply view redaction (fs_value f),
      fsnap_meta = \<lparr>dirty = dirty (fs_meta f), touched = touched (fs_meta f), visited = visited (fs_meta f),
        validating = validating (fs_meta f), field_errors = field_errors (fs_meta f)\<rparr>\<rparr>"

definition form_snapshot_of :: "('v \<Rightarrow> 'v json_view) \<Rightarrow> redaction_policy \<Rightarrow> 'v form_store \<Rightarrow> 'v form_snapshot" where
  "form_snapshot_of view redaction s =
     \<lparr>snap_status = form_status_of s, snap_fields = map (field_snapshot_of view redaction) (bt_values (form_fields s)),
      snap_errors = form_errors s, snap_submit_count = submit_count s\<rparr>"

definition snap_field :: "'v form_snapshot \<Rightarrow> field_path \<Rightarrow> 'v field_snapshot option" where
  "snap_field n path = find (\<lambda>f. fsnap_path f = path) (snap_fields n)"

definition validating_field_count :: "'v form_snapshot \<Rightarrow> nat" where
  "validating_field_count n = length (filter (\<lambda>f. validating (fsnap_meta f)) (snap_fields n))"

definition invalid_field_count :: "'v form_snapshot \<Rightarrow> nat" where
  "invalid_field_count n = length (filter (\<lambda>f. field_errors (fsnap_meta f) \<noteq> []) (snap_fields n))"

definition is_busy :: "'v form_snapshot \<Rightarrow> bool" where
  "is_busy n \<longleftrightarrow> snap_status n = StatusValidating \<or> snap_status n = StatusSubmitting"

definition snap_can_submit :: "'v form_snapshot \<Rightarrow> bool" where
  "snap_can_submit n \<longleftrightarrow> \<not> is_busy n \<and> invalid_field_count n = 0"

section \<open>The debounced validation queue\<close>

text \<open>\<open>debounce\<close> is a \<open>Duration\<close>, in nanoseconds; the queue only stores it.\<close>

record validation_queue =
  debounce :: nat
  pending :: "(field_path, validation_ticket) btree_map"

definition queue_new :: "nat \<Rightarrow> validation_queue" where
  "queue_new d = \<lparr>debounce = d, pending = []\<rparr>"

definition queue_request :: "validation_queue \<Rightarrow> 'v form_store \<Rightarrow> field_path \<Rightarrow>
    (form_error + validation_ticket) \<times> validation_queue \<times> 'v form_store" where
  "queue_request q s path =
     (case begin_async_validation s path of
        (Inl e, s') \<Rightarrow> (Inl e, q, s')
      | (Inr ticket, s') \<Rightarrow> (Inr ticket, q\<lparr>pending := bt_insert path ticket (pending q)\<rparr>, s'))"

definition pending_len :: "validation_queue \<Rightarrow> nat" where
  "pending_len q = length (pending q)"

definition take_pending :: "validation_queue \<Rightarrow> validation_ticket option \<times> validation_queue" where
  "take_pending q =
     (case pending q of
        [] \<Rightarrow> (None, q)
      | (path, _) # _ \<Rightarrow> (map_of (pending q) path, q\<lparr>pending := bt_remove path (pending q)\<rparr>))"

section \<open>Steps\<close>

inductive form_step :: "'v form_store \<Rightarrow> 'v form_store \<Rightarrow> bool" where
  "register_field s path v = (r, s') \<Longrightarrow> form_step s s'"
| "set_value s path v = (r, s') \<Longrightarrow> form_step s s'"
| "touch s path = (r, s') \<Longrightarrow> form_step s s'"
| "visit s path = (r, s') \<Longrightarrow> form_step s s'"
| "validate_field s path validator = (r', s') \<Longrightarrow> form_step s s'"
| "begin_async_validation s path = (t, s') \<Longrightarrow> form_step s s'"
| "complete_async_validation s ticket errors = (c, s') \<Longrightarrow> form_step s s'"
| "begin_submit s = (b, s') \<Longrightarrow> form_step s s'"
| "finish_submit_success s u = (d, s') \<Longrightarrow> form_step s s'"
| "finish_submit_error s u error = (d, s') \<Longrightarrow> form_step s s'"
| "form_step s (form_reset s)"

abbreviation form_steps :: "'v form_store \<Rightarrow> 'v form_store \<Rightarrow> bool" where
  "form_steps \<equiv> form_step\<^sup>*\<^sup>*"

end
