(* ===== verification/Form_Laws.thy ===== *)
theory Form_Laws
  imports Form_Store
begin

text \<open>
  The laws of the form store: the invariant of the reachable stores, the way fields and submissions evolve along steps,
  errors without effect, and the validation queue.
\<close>

section \<open>The invariant\<close>

text \<open>
  The fields: in path order, each with its own invariant, active validation generations at most \<open>n\<close> and never shared.
\<close>

definition fields_inv :: "u64 \<Rightarrow> (field_path, 'v field_state) btree_map \<Rightarrow> bool" where
  "fields_inv n m \<longleftrightarrow> bt_ok m \<and>
     (\<forall>p f. map_of m p = Some f \<longrightarrow> field_inv p f \<and> (\<forall>g. active_generation f = Some g \<longrightarrow> g \<le> n)) \<and>
     (\<forall>p q f f' g. map_of m p = Some f \<longrightarrow> map_of m q = Some f' \<longrightarrow> active_generation f = Some g \<longrightarrow>
        active_generation f' = Some g \<longrightarrow> p = q)"

definition settled :: "'v field_state \<Rightarrow> bool" where
  "settled f \<longleftrightarrow> \<not> validating (fs_meta f) \<and> field_errors (fs_meta f) = []"

text \<open>
  The submission: an active ticket carries the store's identity and its current revision, outside \<open>Idle\<close> no field is
  validating or invalid, and form errors belong to a failed submission.
\<close>

definition phase_inv :: "'v form_store \<Rightarrow> bool" where
  "phase_inv s \<longleftrightarrow>
     (\<forall>t. submission s = Submitting t \<longrightarrow>
        st_authority t = authority s \<and> st_form_revision t = form_revision s \<and> st_generation t \<le> next_submit_generation s) \<and>
     (submission s \<noteq> Idle \<longrightarrow> (\<forall>p f. map_of (form_fields s) p = Some f \<longrightarrow> settled f)) \<and>
     (form_errors s \<noteq> [] \<longleftrightarrow> submission s = SubmitFailed)"

definition form_inv :: "'v form_store \<Rightarrow> bool" where
  "form_inv s \<longleftrightarrow> fields_inv (next_validation_generation s) (form_fields s) \<and> phase_inv s"

lemma fields_inv_field: "fields_inv n m \<Longrightarrow> map_of m p = Some f \<Longrightarrow> field_inv p f"
  by (simp add: fields_inv_def)

lemma fields_inv_bound: "fields_inv n m \<Longrightarrow> map_of m p = Some f \<Longrightarrow> active_generation f = Some g \<Longrightarrow> g \<le> n"
  by (simp add: fields_inv_def)

lemma fields_inv_ok: "fields_inv n m \<Longrightarrow> bt_ok m"
  by (simp add: fields_inv_def)

lemma fields_inv_mono: "fields_inv n m \<Longrightarrow> n \<le> n' \<Longrightarrow> fields_inv n' m"
  unfolding fields_inv_def by (meson order_trans)

lemma fields_inv_modify:
  assumes "fields_inv n m" and "map_of m p = Some f" and "field_inv p f'" and "evolves n f f'" and "n \<le> n'"
    and "\<And>g. active_generation f' = Some g \<Longrightarrow> g \<le> n'"
  shows "fields_inv n' (bt_modify p (\<lambda>_. f') m)"
proof -
  have fresh: "g \<noteq> g'" if "map_of m q = Some h" "active_generation h = Some g" "active_generation f' = Some g'" "q \<noteq> p" for q h g g'
  proof -
    have "g \<le> n" using assms(1) that by (simp add: fields_inv_def)
    moreover have "active_generation f = Some g' \<or> n < g'" using assms(4) that by (auto simp: evolves_def)
    moreover have "g \<noteq> g'" if "active_generation f = Some g'"
      using assms(1,2) \<open>map_of m q = Some h\<close> \<open>active_generation h = Some g\<close> \<open>q \<noteq> p\<close> that unfolding fields_inv_def by metis
    ultimately show ?thesis by auto
  qed
  have old: "field_inv q h \<and> (\<forall>g. active_generation h = Some g \<longrightarrow> g \<le> n')" if "map_of m q = Some h" for q h
    using assms(1,5) that unfolding fields_inv_def by (meson order_trans)
  have lookup: "map_of (bt_modify p (\<lambda>_. f') m) q = (if q = p then Some f' else map_of m q)" for q
    using assms(2) by (simp add: bt_simps)
  show ?thesis
    unfolding fields_inv_def lookup
  proof (intro conjI allI impI)
    show "bt_ok (bt_modify p (\<lambda>_. f') m)" using assms(1) by (simp add: fields_inv_def bt_simps)
  next
    fix q h assume h: "(if q = p then Some f' else map_of m q) = Some h"
    show "field_inv q h" using h assms(3) old by (auto split: if_splits)
    show "g \<le> n'" if "active_generation h = Some g" for g using h that assms(6) old by (auto split: if_splits)
  next
    fix q r h h' g
    assume h: "(if q = p then Some f' else map_of m q) = Some h" "(if r = p then Some f' else map_of m r) = Some h'"
      and g: "active_generation h = Some g" "active_generation h' = Some g"
    show "q = r"
    proof (cases "q = p \<or> r = p")
      case True
      then show ?thesis using h g fresh by (auto split: if_splits)
    next
      case False
      then show ?thesis using h g assms(1) unfolding fields_inv_def by simp
    qed
  qed
qed

lemma fields_inv_insert:
  assumes "fields_inv n m" and "map_of m p = None"
  shows "fields_inv n (bt_insert p (field_new p v) m)"
proof -
  have ok: "bt_ok m" using assms(1) by (rule fields_inv_ok)
  have none: "active_generation (field_new p v) = None" by (simp add: field_new_def)
  show ?thesis
    unfolding fields_inv_def map_of_insert [OF ok] fun_upd_apply
  proof (intro conjI allI impI)
    show "bt_ok (bt_insert p (field_new p v) m)" using ok by (rule bt_ok_insert)
  next
    fix q h assume h: "(if q = p then Some (field_new p v) else map_of m q) = Some h"
    show "field_inv q h" using h assms(1) field_inv_ops(1) by (auto simp: fields_inv_def split: if_splits)
    show "g \<le> n" if "active_generation h = Some g" for g
      using h that none assms(1) by (auto simp: fields_inv_def split: if_splits)
  next
    fix q r h h' g
    assume "(if q = p then Some (field_new p v) else map_of m q) = Some h" "(if r = p then Some (field_new p v) else map_of m r) = Some h'"
      "active_generation h = Some g" "active_generation h' = Some g"
    then show "q = r" using none assms(1) by (cases "q = p"; cases "r = p"; simp add: fields_inv_def)
  qed
qed

lemma fields_inv_reset:
  assumes "fields_inv n m"
  shows "fields_inv n (bt_map_values field_reset m)"
proof -
  have "active_generation (field_reset f) = None" for f :: "'a field_state" by (simp add: field_reset_def)
  moreover have "field_inv p (field_reset f)" if "map_of m p = Some f" for p f
    using assms that by (intro field_inv_ops(8)) (simp add: fields_inv_def)
  moreover have "bt_ok (bt_map_values field_reset m)" using assms by (simp add: fields_inv_def bt_simps)
  ultimately show ?thesis by (auto simp: fields_inv_def bt_simps)
qed

lemma any_field:
  assumes "form_inv s"
  shows "is_validating s \<longleftrightarrow> (\<exists>p f. map_of (form_fields s) p = Some f \<and> validating (fs_meta f))"
    and "is_invalid s \<longleftrightarrow> (\<exists>p f. map_of (form_fields s) p = Some f \<and> field_errors (fs_meta f) \<noteq> [])"
proof -
  have ok: "bt_ok (form_fields s)" using assms unfolding form_inv_def by (blast dest: fields_inv_ok)
  show "is_validating s \<longleftrightarrow> (\<exists>p f. map_of (form_fields s) p = Some f \<and> validating (fs_meta f))"
    unfolding is_validating_def list_ex_iff by (rule bt_ex [OF ok])
  show "is_invalid s \<longleftrightarrow> (\<exists>p f. map_of (form_fields s) p = Some f \<and> field_errors (fs_meta f) \<noteq> [])"
    unfolding is_invalid_def list_ex_iff by (rule bt_ex [OF ok])
qed

lemma settled_iff: "form_inv s \<Longrightarrow> (\<forall>p f. map_of (form_fields s) p = Some f \<longrightarrow> settled f) \<longleftrightarrow> \<not> is_validating s \<and> \<not> is_invalid s"
  by (auto simp: any_field settled_def)

lemma bt_modify_same: "bt_ok m \<Longrightarrow> map_of m p = Some f \<Longrightarrow> bt_modify p (\<lambda>_. f) m = m"
  by (rule bt_ext) (auto simp: bt_simps fun_eq_iff)

section \<open>The effect of a step\<close>

lemma with_field_cases:
  assumes "with_field s p step = (r, s')"
  obtains (absent) "map_of (form_fields s) p = None" "r = Inl (UnknownField p)" "s' = s"
  | (present) f where "map_of (form_fields s) p = Some f" "r = Inr (fst (step f))"
      "s' = s\<lparr>form_fields := bt_modify p (\<lambda>_. snd (step f)) (form_fields s)\<rparr>"
  using assms by (cases "map_of (form_fields s) p") (auto simp: with_field_def field_or_err_def split: prod.splits)

lemma clear_fields [simp]:
  "form_fields (clear_terminal_submission s) = form_fields s"
  "authority (clear_terminal_submission s) = authority s"
  "form_revision (clear_terminal_submission s) = form_revision s"
  "next_validation_generation (clear_terminal_submission s) = next_validation_generation s"
  "next_submit_generation (clear_terminal_submission s) = next_submit_generation s"
  by (simp_all add: clear_terminal_submission_def split: submission_phase.split)

lemma clear_idle: "phase_inv s \<Longrightarrow> \<not> is_submitting s \<Longrightarrow> submission (clear_terminal_submission s) = Idle \<and> form_errors (clear_terminal_submission s) = []"
  by (auto simp: clear_terminal_submission_def is_submitting_def phase_inv_def split: submission_phase.splits)

lemma advance_fields [simp]:
  "form_fields (advance_form_revision s) = form_fields s"
  "authority (advance_form_revision s) = authority s"
  "submission (advance_form_revision s) = Idle"
  "form_errors (advance_form_revision s) = []"
  "next_validation_generation (advance_form_revision s) = next_validation_generation s"
  "next_submit_generation (advance_form_revision s) = next_submit_generation s"
  by (simp_all add: advance_form_revision_def)

lemma submit_ticket_eq_iff: "submit_ticket_eq t u \<longleftrightarrow> t = u"
  by (cases t, cases u) (auto simp: submit_ticket_eq_def)

lemma submit_applied: "submit_completion_of s t = SubmitApplied \<longleftrightarrow> st_authority t = authority s \<and> submission s = Submitting t"
  by (auto simp: submit_completion_of_def st_belongs_to_def submit_ticket_eq_iff split: submission_phase.splits)

lemma completion_applied:
  "field_complete_validation f t errs = (c, f') \<Longrightarrow>
     (c = ValidationApplied \<and> active_generation f = Some (vt_generation t) \<and> vt_value_revision t = value_revision f \<and>
        f' = f\<lparr>active_generation := None, fs_meta := (fs_meta f)\<lparr>validating := False, field_errors := errs\<rparr>\<rparr>) \<or>
     (c \<noteq> ValidationApplied \<and> f' = f)"
  by (auto simp: field_complete_validation_def split: option.splits if_splits)

text \<open>What an operation can do to a store that satisfies the invariant.\<close>

inductive effect :: "'v form_store \<Rightarrow> 'v form_store \<Rightarrow> bool" where
  same: "effect s s"
| register: "map_of (form_fields s) p = None \<Longrightarrow>
    effect s (advance_form_revision (s\<lparr>form_fields := bt_insert p (field_new p v) (form_fields s)\<rparr>))"
| overwrite: "map_of (form_fields s) p = Some f \<Longrightarrow> f' = snd (field_set_value f v) \<Longrightarrow>
    effect s (advance_form_revision (s\<lparr>form_fields := bt_modify p (\<lambda>_. f') (form_fields s)\<rparr>))"
| mark: "map_of (form_fields s) p = Some f \<Longrightarrow> f' = field_touch f \<or> f' = field_visit f \<Longrightarrow>
    effect s (s\<lparr>form_fields := bt_modify p (\<lambda>_. f') (form_fields s)\<rparr>)"
| validate: "map_of (form_fields s) p = Some f \<Longrightarrow> \<not> is_submitting s \<Longrightarrow> f' = field_set_errors f errs \<Longrightarrow>
    effect s ((clear_terminal_submission s)\<lparr>form_fields := bt_modify p (\<lambda>_. f') (form_fields s)\<rparr>)"
| start_validation: "map_of (form_fields s) p = Some f \<Longrightarrow> \<not> is_submitting s \<Longrightarrow> checked_succ (next_validation_generation s) = Some g \<Longrightarrow>
    f' = snd (field_begin_validation f (authority s) g) \<Longrightarrow>
    effect s ((clear_terminal_submission (s\<lparr>next_validation_generation := g\<rparr>))\<lparr>form_fields := bt_modify p (\<lambda>_. f') (form_fields s)\<rparr>)"
| end_validation: "map_of (form_fields s) p = Some f \<Longrightarrow> active_generation f = Some g \<Longrightarrow>
    f' = f\<lparr>active_generation := None, fs_meta := (fs_meta f)\<lparr>validating := False, field_errors := errs\<rparr>\<rparr> \<Longrightarrow>
    effect s (s\<lparr>form_fields := bt_modify p (\<lambda>_. f') (form_fields s)\<rparr>)"
| submit: "can_submit s \<Longrightarrow> checked_succ (next_submit_generation s) = Some g \<Longrightarrow>
    t = \<lparr>st_authority = authority s, st_form_revision = form_revision s, st_generation = g\<rparr> \<Longrightarrow>
    effect s (s\<lparr>next_submit_generation := g, submission := Submitting t, submit_count := saturating_succ (submit_count s), form_errors := []\<rparr>)"
| succeed: "submission s = Submitting t \<Longrightarrow> effect s (s\<lparr>submission := Submitted, form_errors := []\<rparr>)"
| fail: "submission s = Submitting t \<Longrightarrow> effect s (s\<lparr>submission := SubmitFailed, form_errors := [e]\<rparr>)"
| reset: "effect s (form_reset s)"

lemma modify_same_store: "form_inv s \<Longrightarrow> map_of (form_fields s) p = Some f \<Longrightarrow> s\<lparr>form_fields := bt_modify p (\<lambda>_. f) (form_fields s)\<rparr> = s"
  by (auto simp: form_inv_def bt_modify_same dest: fields_inv_ok)

lemma set_value_effect: "form_inv s \<Longrightarrow> set_value s p v = (r, s') \<Longrightarrow> effect s s'"
proof -
  assume inv: "form_inv s" and "set_value s p v = (r, s')"
  then obtain r0 s0 where w: "with_field s p (\<lambda>f. field_set_value f v) = (r0, s0)"
    and s': "s' = (case r0 of Inl _ \<Rightarrow> s0 | Inr changed \<Rightarrow> if changed then advance_form_revision s0 else s0)"
    by (auto simp: set_value_def split: prod.splits sum.splits)
  from w show "effect s s'"
  proof (cases rule: with_field_cases)
    case absent
    then show ?thesis using s' by (simp add: effect.same)
  next
    case (present f)
    show ?thesis
    proof (cases "fs_value f = v")
      case True
      then have "field_set_value f v = (False, f)" by (simp add: field_set_value_def)
      then show ?thesis using present s' modify_same_store [OF inv present(1)] by (simp add: effect.same)
    next
      case False
      then have "fst (field_set_value f v)" by (simp add: field_set_value_def Let_def)
      then show ?thesis using present s' by (simp add: effect.overwrite [OF present(1) refl])
    qed
  qed
qed

lemma validate_effect: "validate_field s p validator = (r, s') \<Longrightarrow> effect s s'"
  by (cases "map_of (form_fields s) p")
     (auto simp: validate_field_def with_field_def field_or_err_def Let_def intro: effect.same effect.validate split: if_splits)

lemma begin_async_effect: "begin_async_validation s p = (r, s') \<Longrightarrow> effect s s'"
  by (cases "map_of (form_fields s) p"; cases "checked_succ (next_validation_generation s)")
     (auto simp: begin_async_validation_def with_field_def field_or_err_def next_generation_def intro: effect.same effect.start_validation
       split: if_splits prod.splits)

lemma complete_async_effect: "form_inv s \<Longrightarrow> complete_async_validation s t errs = (c, s') \<Longrightarrow> effect s s'"
proof -
  assume inv: "form_inv s" and c: "complete_async_validation s t errs = (c, s')"
  show "effect s s'"
  proof (cases "vt_belongs_to t (authority s) \<and> map_of (form_fields s) (vt_path t) \<noteq> None")
    case False
    then have "s' = s" using c by (auto simp: complete_async_validation_def split: if_splits)
    then show ?thesis by (simp add: effect.same)
  next
    case True
    then obtain f where f: "map_of (form_fields s) (vt_path t) = Some f" by blast
    obtain c0 f' where r: "field_complete_validation f t errs = (c0, f')" by (cases "field_complete_validation f t errs")
    have s': "s' = s\<lparr>form_fields := bt_modify (vt_path t) (\<lambda>_. f') (form_fields s)\<rparr>"
      using c True f r by (simp add: complete_async_validation_def)
    show ?thesis
      using completion_applied [OF r] s' modify_same_store [OF inv f] effect.same [of s] effect.end_validation [OF f _ refl]
      by auto
  qed
qed

lemma begin_submit_effect: "begin_submit s = (r, s') \<Longrightarrow> effect s s'"
  by (cases "checked_succ (next_submit_generation s)")
     (auto simp: begin_submit_def next_generation_def can_submit_def Let_def intro: effect.same effect.submit split: if_splits)

lemma finish_effect:
  "finish_submit_success s t = (c, s') \<Longrightarrow> effect s s'"
  "finish_submit_error s t e = (c, s') \<Longrightarrow> effect s s'"
  by (auto simp: finish_submit_success_def finish_submit_error_def Let_def submit_applied intro: effect.intros split: if_splits)

lemma form_step_effect: "form_inv s \<Longrightarrow> form_step s s' \<Longrightarrow> effect s s'"
  by (erule form_step.cases)
     (auto simp: register_field_def touch_def visit_def elim!: with_field_cases split: if_splits
       intro: effect.intros set_value_effect validate_effect begin_async_effect complete_async_effect begin_submit_effect finish_effect)

section \<open>Reachable stores satisfy the invariant\<close>

lemma checked_succ_less: "checked_succ x = Some y \<Longrightarrow> x < y"
  by (drule checked_succ_Some) (simp add: word_less_nat_alt)

lemma settled_modify:
  assumes "\<forall>q h. map_of m q = Some h \<longrightarrow> settled h" and "settled f'"
  shows "\<forall>q h. map_of (bt_modify p (\<lambda>_. f') m) q = Some h \<longrightarrow> settled h"
  using assms by (auto simp: bt_simps split: if_splits)

lemma settled_mark: "settled (field_touch f) = settled f" "settled (field_visit f) = settled f"
  by (simp_all add: settled_def field_op_defs)

lemma begin_active: "active_generation (snd (field_begin_validation f a g)) = Some g"
  by (simp add: field_begin_validation_def Let_def)

lemma fields_inv_edit:
  assumes "fields_inv n m" and "map_of m p = Some f" and "field_inv p f'"
    and "active_generation f' = None \<or> active_generation f' = active_generation f \<and> fs_value f' = fs_value f \<and> value_revision f' = value_revision f"
  shows "fields_inv n (bt_modify p (\<lambda>_. f') m)"
  using assms(4) fields_inv_bound [OF assms(1,2)]
  by (intro fields_inv_modify [OF assms(1,2,3)]) (auto simp: evolves_def)

lemma effect_inv:
  assumes "effect s s'" and "form_inv s"
  shows "form_inv s'"
proof -
  let ?n = "next_validation_generation s" and ?m = "form_fields s"
  have m: "fields_inv ?n ?m" and ph: "phase_inv s" using assms(2) by (simp_all add: form_inv_def)
  from assms(1) show ?thesis
  proof cases
    case same
    then show ?thesis using assms(2) by simp
  next
    case (register p v)
    then show ?thesis using fields_inv_insert [OF m register(2)] by (simp add: form_inv_def phase_inv_def)
  next
    case (overwrite p f f' v)
    have "field_inv p f'" using field_inv_ops(2) [OF fields_inv_field [OF m overwrite(2)]] overwrite(3) by simp
    moreover have "active_generation f' = None \<or> f' = f" using overwrite(3) by (auto simp: field_op_defs)
    ultimately have "fields_inv ?n (bt_modify p (\<lambda>_. f') ?m)" by (intro fields_inv_edit [OF m overwrite(2)]) auto
    then show ?thesis using overwrite(1) by (simp add: form_inv_def phase_inv_def)
  next
    case (mark p f f')
    have "field_inv p f'" using field_inv_ops(3,4) [OF fields_inv_field [OF m mark(2)]] mark(3) by auto
    then have "fields_inv ?n (bt_modify p (\<lambda>_. f') ?m)"
      using mark(3) by (intro fields_inv_edit [OF m mark(2)]) (auto simp: field_op_defs)
    moreover have "settled f \<Longrightarrow> settled f'" using mark(3) by (auto simp: settled_mark)
    then have "submission s \<noteq> Idle \<Longrightarrow> \<forall>q h. map_of (bt_modify p (\<lambda>_. f') ?m) q = Some h \<longrightarrow> settled h"
      using ph mark(2) by (intro settled_modify) (simp_all add: phase_inv_def)
    ultimately show ?thesis using mark(1) ph by (simp add: form_inv_def phase_inv_def)
  next
    case (validate p f f' errs)
    have "field_inv p f'" using field_inv_ops(5) [OF fields_inv_field [OF m validate(2)]] validate(4) by simp
    then have "fields_inv ?n (bt_modify p (\<lambda>_. f') ?m)"
      using validate(4) by (intro fields_inv_edit [OF m validate(2)]) (auto simp: field_op_defs)
    then show ?thesis using validate(1) clear_idle [OF ph validate(3)] by (simp add: form_inv_def phase_inv_def)
  next
    case (start_validation p f g f')
    have g: "?n < g" using start_validation(4) by (rule checked_succ_less)
    have "field_inv p f'" using field_inv_ops(6) [OF fields_inv_field [OF m start_validation(2)]] start_validation(5) by simp
    moreover have "evolves ?n f f'" using start_validation(5) evolves_ops(5) [OF g] by simp
    ultimately have "fields_inv g (bt_modify p (\<lambda>_. f') ?m)"
      using g start_validation(5) by (intro fields_inv_modify [OF m start_validation(2)]) (simp_all add: begin_active)
    moreover have "phase_inv (s\<lparr>next_validation_generation := g\<rparr>)" using ph by (simp add: phase_inv_def)
    note clear_idle [OF this]
    ultimately show ?thesis using start_validation(1,3) by (simp add: form_inv_def phase_inv_def is_submitting_def)
  next
    case (end_validation p f g f' errs)
    have inv: "field_inv p f" using fields_inv_field [OF m end_validation(2)] .
    then have "\<not> settled f" using end_validation(3) by (simp add: settled_def field_inv_def)
    then have "submission s = Idle" using ph end_validation(2) by (auto simp: phase_inv_def)
    moreover have "fields_inv ?n (bt_modify p (\<lambda>_. f') ?m)"
      using end_validation(4) inv by (intro fields_inv_edit [OF m end_validation(2)]) (auto simp: field_inv_def)
    ultimately show ?thesis using end_validation(1) ph by (simp add: form_inv_def phase_inv_def)
  next
    case (submit g t)
    have "\<forall>p f. map_of ?m p = Some f \<longrightarrow> settled f"
      using submit(2) settled_iff [OF assms(2)] by (simp add: can_submit_def)
    then show ?thesis using submit m by (simp add: form_inv_def phase_inv_def)
  next
    case (succeed t)
    then show ?thesis using m ph by (simp add: form_inv_def phase_inv_def)
  next
    case (fail t e)
    then show ?thesis using m ph by (simp add: form_inv_def phase_inv_def)
  next
    case reset
    then show ?thesis using fields_inv_reset [OF m] by (simp add: form_inv_def phase_inv_def form_reset_def)
  qed
qed

lemma form_step_inv: "form_step s s' \<Longrightarrow> form_inv s \<Longrightarrow> form_inv s'"
  by (rule effect_inv [OF form_step_effect])

lemma form_default_inv: "form_inv (form_default a)"
  by (simp add: form_inv_def form_default_def fields_inv_def phase_inv_def)

lemma form_steps_inv: "form_steps s s' \<Longrightarrow> form_inv s \<Longrightarrow> form_inv s'"
  by (induction rule: rtranclp_induct) (auto dest: form_step_inv)

section \<open>Tickets along steps\<close>

lemma map_of_modify_some:
  "map_of m p = Some f \<Longrightarrow> map_of (bt_modify p (\<lambda>_. f') m) q = (if q = p then Some f' else map_of m q)"
  by (simp add: bt_simps)

lemma clear_submitting: "submission (clear_terminal_submission s) = Submitting t \<longleftrightarrow> submission s = Submitting t"
  by (auto simp: clear_terminal_submission_def split: submission_phase.split)

lemma effect_generations:
  "effect s s' \<Longrightarrow> next_validation_generation s \<le> next_validation_generation s' \<and> next_submit_generation s \<le> next_submit_generation s'
     \<and> authority s' = authority s"
  by (erule effect.cases) (auto simp: form_reset_def dest: checked_succ_less)

lemma effect_evolves:
  assumes "effect s s'" and "form_inv s" and "map_of (form_fields s) q = Some h"
  shows "\<exists>h'. map_of (form_fields s') q = Some h' \<and> evolves (next_validation_generation s) h h'"
  using assms(1)
proof cases
  case (register p v)
  have "bt_ok (form_fields s)" using assms(2) unfolding form_inv_def by (blast dest: fields_inv_ok)
  then show ?thesis using register assms(3) by (auto simp: map_of_insert)
next
  case (start_validation p f g f')
  have "evolves (next_validation_generation s) f f'"
    using start_validation(5) evolves_ops(5) [OF checked_succ_less [OF start_validation(4)]] by simp
  then show ?thesis using start_validation(1,2) assms(3) by (auto simp: map_of_modify_some)
next
  case (overwrite p f f' v)
  then show ?thesis using assms(3) evolves_ops(1) by (auto simp: map_of_modify_some)
next
  case (mark p f f')
  then show ?thesis using assms(3) evolves_ops(2,3) by (auto simp: map_of_modify_some)
next
  case (validate p f f' errs)
  then show ?thesis using assms(3) evolves_ops(4) by (auto simp: map_of_modify_some)
next
  case (end_validation p f g f' errs)
  then show ?thesis using assms(3) by (auto simp: map_of_modify_some evolves_def)
next
  case reset
  then show ?thesis using assms(3) evolves_ops(7) by (simp add: form_reset_def map_of_map_values)
qed (use assms(3) in simp_all)

lemma steps_keep:
  assumes "form_steps s s'" and "form_inv s" and "P s" and "\<And>u u'. form_inv u \<Longrightarrow> effect u u' \<Longrightarrow> P u \<Longrightarrow> P u'"
  shows "P s' \<and> form_inv s'"
  using assms(1)
proof (induction rule: rtranclp_induct)
  case base
  then show ?case using assms(2,3) by simp
next
  case (step u u')
  then show ?case using assms(4) form_step_effect form_step_inv by blast
qed

text \<open>While the generation of a ticket is active, its field has the value and the revision it had.\<close>

definition guarded :: "field_path \<Rightarrow> u64 \<Rightarrow> 'v \<Rightarrow> 'v form_store \<Rightarrow> bool" where
  "guarded p g v s \<longleftrightarrow> g \<le> next_validation_generation s \<and>
     (\<exists>f. map_of (form_fields s) p = Some f \<and> (active_generation f = Some g \<longrightarrow> fs_value f = v))"

lemma guarded_effect:
  assumes "form_inv u" and "effect u u'" and "guarded p g v u"
  shows "guarded p g v u'"
proof -
  obtain f where f: "map_of (form_fields u) p = Some f" "active_generation f = Some g \<longrightarrow> fs_value f = v"
    and g: "g \<le> next_validation_generation u" using assms(3) by (auto simp: guarded_def)
  obtain f' where f': "map_of (form_fields u') p = Some f'" "evolves (next_validation_generation u) f f'"
    using effect_evolves [OF assms(2,1) f(1)] by blast
  have "active_generation f' = Some g \<longrightarrow> fs_value f' = v"
    using f'(2) f(2) g by (auto simp: evolves_def)
  then show ?thesis using f'(1) g effect_generations [OF assms(2)] by (auto simp: guarded_def)
qed

text \<open>While a submission is active, no field value changes.\<close>

definition field_values :: "'v form_store \<Rightarrow> field_path \<Rightarrow> 'v option" where
  "field_values s p = map_option fs_value (map_of (form_fields s) p)"

lemma field_values_modify:
  assumes "map_of (form_fields s) p = Some f" and "fs_value f' = fs_value f"
  shows "map_option fs_value (map_of (bt_modify p (\<lambda>_. f') (form_fields s)) q) = map_option fs_value (map_of (form_fields s) q)"
  using assms by (simp add: map_of_modify_some)

lemma effect_submission:
  assumes "effect s s'" and "submission s' = Submitting t"
  shows "submission s = Submitting t \<and> field_values s' = field_values s \<or> next_submit_generation s < st_generation t"
  using assms
proof cases
  case (mark p f f')
  have "fs_value f' = fs_value f" using mark(3) by (auto simp: field_op_defs)
  then show ?thesis using mark assms(2) field_values_modify [OF mark(2)] by (simp add: field_values_def fun_eq_iff)
next
  case (end_validation p f g f' errs)
  have "fs_value f' = fs_value f" using end_validation(4) by simp
  then show ?thesis using end_validation(1) assms(2) field_values_modify [OF end_validation(2)] by (simp add: field_values_def fun_eq_iff)
next
  case (submit g u)
  then show ?thesis using assms(2) checked_succ_less [OF submit(3)] by auto
qed (use assms(2) in \<open>auto simp: clear_submitting is_submitting_def form_reset_def\<close>)

definition submit_guarded :: "submit_ticket \<Rightarrow> (field_path \<Rightarrow> 'v option) \<Rightarrow> 'v form_store \<Rightarrow> bool" where
  "submit_guarded t vs s \<longleftrightarrow> st_generation t \<le> next_submit_generation s \<and>
     (submission s = Submitting t \<longrightarrow> field_values s = vs)"

lemma submit_guarded_effect: "effect u u' \<Longrightarrow> submit_guarded t vs u \<Longrightarrow> submit_guarded t vs u'"
  using effect_submission [of u u' t] effect_generations [of u u'] unfolding submit_guarded_def by fastforce

definition submit_closed :: "submit_ticket \<Rightarrow> 'v form_store \<Rightarrow> bool" where
  "submit_closed t s \<longleftrightarrow> st_generation t \<le> next_submit_generation s \<and> submission s \<noteq> Submitting t"

lemma submit_closed_effect: "effect u u' \<Longrightarrow> submit_closed t u \<Longrightarrow> submit_closed t u'"
  using effect_submission [of u u' t] effect_generations [of u u'] unfolding submit_closed_def by fastforce

lemma guarded_steps: "form_steps s s' \<Longrightarrow> form_inv s \<Longrightarrow> guarded p g v s \<Longrightarrow> guarded p g v s'"
  by (rule conjunct1 [OF steps_keep [where P = "guarded p g v"]]) (auto intro: guarded_effect)

lemma submit_guarded_steps: "form_steps s s' \<Longrightarrow> form_inv s \<Longrightarrow> submit_guarded t vs s \<Longrightarrow> submit_guarded t vs s'"
  by (rule conjunct1 [OF steps_keep [where P = "submit_guarded t vs"]]) (auto intro: submit_guarded_effect)

lemma submit_closed_steps: "form_steps s s' \<Longrightarrow> form_inv s \<Longrightarrow> submit_closed t s \<Longrightarrow> submit_closed t s'"
  by (rule conjunct1 [OF steps_keep [where P = "submit_closed t"]]) (auto intro: submit_closed_effect)

section \<open>The validation queue\<close>

definition queue_inv :: "validation_queue \<Rightarrow> bool" where
  "queue_inv q \<longleftrightarrow> bt_ok (pending q)"

lemma take_pending_ok:
  assumes "queue_inv q" and "take_pending q = (r, q')"
  shows "queue_inv q' \<and>
    (case r of None \<Rightarrow> pending q = [] \<and> q' = q | Some t \<Rightarrow> \<exists>p. pending q = (p, t) # pending q')"
proof (cases "pending q")
  case Nil
  then show ?thesis using assms by (simp add: take_pending_def)
next
  case (Cons e m)
  then obtain p t where e: "pending q = (p, t) # m" by (cases e) simp
  then have ok: "bt_ok ((p, t) # m)" using assms(1) by (simp add: queue_inv_def)
  have "bt_remove p ((p, t) # m) = m" using bt_remove_head [OF ok] by simp
  then show ?thesis using assms(2) e ok by (auto simp: take_pending_def queue_inv_def bt_ok_Cons)
qed

lemma queue_drain: "queue_inv q \<Longrightarrow> drain (\<lambda>q. Some (take_pending q)) q = Some (map snd (pending q))"
proof (induction "pending q" arbitrary: q)
  case Nil
  then show ?case by (subst drain.simps) (simp add: take_pending_def flip: Nil.hyps)
next
  case (Cons e m)
  obtain r q' where r: "take_pending q = (r, q')" by (cases "take_pending q")
  then obtain t p where t: "r = Some t" "pending q = (p, t) # pending q'" and inv: "queue_inv q'"
    using take_pending_ok [OF Cons.prems r] Cons.hyps(2) by (cases r) auto
  then have "drain (\<lambda>q. Some (take_pending q)) q' = Some (map snd (pending q'))"
    using Cons.hyps by (intro Cons.hyps(1)) auto
  then show ?case using r t by (subst drain.simps) simp
qed

lemma queue_request_inv: "queue_inv q \<Longrightarrow> queue_request q s p = (r, q', s') \<Longrightarrow> queue_inv q'"
  by (auto simp: queue_request_def queue_inv_def bt_simps split: prod.splits sum.splits)

end
