(* ===== verification/Form_Properties.thy ===== *)
theory Form_Properties
  imports Form_Laws
begin

text \<open>The properties of \<open>crates/form\<close>, with a sample store for the witnesses: one field, \<open>email\<close>, with a number as its value.\<close>

section \<open>Sample store\<close>

definition email :: field_path where
  "email = FieldPath (lit ''email'')"

definition sample_store :: "nat form_store" where
  "sample_store = snd (register_field (form_default 7) email 1)"

definition sample_ticket :: "u64 \<Rightarrow> validation_ticket" where
  "sample_ticket g = \<lparr>vt_authority = 7, vt_path = email, vt_value_revision = 0, vt_generation = g\<rparr>"

definition sample_submit :: submit_ticket where
  "sample_submit = \<lparr>st_authority = 7, st_form_revision = 1, st_generation = 1\<rparr>"

lemmas sample_defs = sample_store_def sample_ticket_def sample_submit_def form_default_def register_field_def bt_insert_def
  advance_form_revision_def saturating_succ_def checked_succ_def field_new_def field_meta_default_def

lemma sample_inv: "form_inv sample_store"
  unfolding sample_store_def
  by (rule form_step_inv [OF form_step.intros(1) form_default_inv]) (rule prod.collapse [symmetric])

lemma sample_begin:
  "begin_async_validation sample_store email = (Inr (sample_ticket 1), snd (begin_async_validation sample_store email))"
  "begin_submit sample_store = (Inr sample_submit, snd (begin_submit sample_store))"
  "next_submit_generation sample_store \<noteq> - 1"
  by (simp_all add: sample_defs begin_async_validation_def begin_submit_def is_submitting_def is_validating_def is_invalid_def
      next_generation_def with_field_def field_or_err_def field_begin_validation_def clear_terminal_submission_def Let_def
      bt_modify_def)

section \<open>Properties\<close>

text \<open>C8: every store reached by the public operations from a new store satisfies the invariant: fields in path order,
  dirty exactly when changed, validating exactly while a generation is active, no generation shared, an active submission
  at the current revision with no field validating or invalid, form errors only after a failed submission.\<close>

theorem form_invariant:
  assumes "form_steps (form_default a) s"
  shows "form_inv s"
  by (rule form_steps_inv [OF assms form_default_inv])

theorem form_invariant_witness: "form_inv (snd (begin_submit sample_store))"
proof (rule form_invariant)
  have "form_step (form_default 7) sample_store"
    unfolding sample_store_def by (rule form_step.intros(1)) (rule prod.collapse [symmetric])
  moreover have "form_step sample_store (snd (begin_submit sample_store))"
    by (rule form_step.intros(8)) (rule prod.collapse [symmetric])
  ultimately show "form_steps (form_default 7) (snd (begin_submit sample_store))"
    by (blast intro: rtranclp_trans)
qed

text \<open>C6: an asynchronous validation result is applied only to the value it was started for: whatever operations ran in
  between, when the ticket is accepted the field still has the value it had when the ticket was issued, and the field
  then shows exactly the reported errors and no running validation.\<close>

theorem validation_matches_value:
  assumes "form_inv s" and "begin_async_validation s p = (Inr t, s1)" and "form_steps s1 s2"
    and "complete_async_validation s2 t errs = (ValidationApplied, s3)"
  shows "field_values s2 p = field_values s p \<and> (\<exists>f. form_field s3 p = Some f \<and> field_errors (fs_meta f) = errs \<and> \<not> validating (fs_meta f))"
proof -
  obtain f g where f: "map_of (form_fields s) p = Some f" and g: "checked_succ (next_validation_generation s) = Some g"
    and t: "t = \<lparr>vt_authority = authority s, vt_path = fs_path f, vt_value_revision = value_revision f, vt_generation = g\<rparr>"
    and s1: "map_of (form_fields s1) p = Some (snd (field_begin_validation f (authority s) g))" "next_validation_generation s1 = g"
    using assms(2)
    by (auto simp: begin_async_validation_def with_field_def field_or_err_def next_generation_def field_begin_validation_def Let_def map_of_modify_some
        split: if_splits option.splits)
  have path: "fs_path f = p" using assms(1) f by (auto simp: form_inv_def fields_inv_def field_inv_def)
  have "guarded p g (fs_value f) s1" using s1 by (auto simp: guarded_def field_begin_validation_def Let_def)
  then have "guarded p g (fs_value f) s2"
    by (rule guarded_steps [OF assms(3) effect_inv [OF begin_async_effect [OF assms(2)] assms(1)]])
  then obtain h where h: "map_of (form_fields s2) p = Some h" "active_generation h = Some g \<longrightarrow> fs_value h = fs_value f"
    by (auto simp: guarded_def)
  obtain c h' where c: "field_complete_validation h t errs = (c, h')" by (cases "field_complete_validation h t errs")
  then have "c = ValidationApplied" and s3: "s3 = s2\<lparr>form_fields := bt_modify p (\<lambda>_. h') (form_fields s2)\<rparr>"
    using assms(4) h(1) path t by (auto simp: complete_async_validation_def split: if_splits)
  then have "active_generation h = Some g \<and> h' = h\<lparr>active_generation := None, fs_meta := (fs_meta h)\<lparr>validating := False, field_errors := errs\<rparr>\<rparr>"
    using completion_applied [OF c] t by simp
  then show ?thesis using h f s3 by (simp add: field_values_def form_field_def map_of_modify_some)
qed

theorem validation_matches_value_witness:
  "let s1 = snd (begin_async_validation sample_store email); s2 = snd (touch s1 email) in
   field_values s2 email = field_values sample_store email \<and>
   (\<exists>f. form_field (snd (complete_async_validation s2 (sample_ticket 1) [lit ''bad''])) email = Some f \<and>
      field_errors (fs_meta f) = [lit ''bad''] \<and> \<not> validating (fs_meta f))"
  unfolding Let_def
proof (rule validation_matches_value [OF sample_inv sample_begin(1)])
  let ?s1 = "snd (begin_async_validation sample_store email)"
  show "form_steps ?s1 (snd (touch ?s1 email))"
    by (rule r_into_rtranclp) (rule form_step.intros(3), rule prod.collapse [symmetric])
  show "complete_async_validation (snd (touch ?s1 email)) (sample_ticket 1) [lit ''bad''] =
    (ValidationApplied, snd (complete_async_validation (snd (touch ?s1 email)) (sample_ticket 1) [lit ''bad'']))"
    by (simp add: sample_defs begin_async_validation_def complete_async_validation_def vt_belongs_to_def touch_def field_touch_def
        field_complete_validation_def is_submitting_def next_generation_def with_field_def field_or_err_def field_begin_validation_def
        clear_terminal_submission_def Let_def bt_modify_def)
qed

text \<open>C7: a submission result is applied at most once, and only to the values that were submitted: when a completion with
  the ticket is accepted no field value has changed since \<open>begin_submit\<close>, and the ticket is never accepted again.\<close>

theorem submission_applied_once:
  assumes "form_inv s" and "begin_submit s = (Inr t, s1)" and "form_steps s1 s2"
    and "finish_submit_success s2 t = (SubmitApplied, s3) \<or> finish_submit_error s2 t e = (SubmitApplied, s3)" and "form_steps s3 s4"
  shows "field_values s2 = field_values s \<and> fst (finish_submit_success s4 t) \<noteq> SubmitApplied \<and>
    fst (finish_submit_error s4 t e') \<noteq> SubmitApplied"
proof -
  have t: "next_submit_generation s1 = st_generation t" "submission s1 = Submitting t" "field_values s1 = field_values s"
    using assms(2) by (auto simp: begin_submit_def next_generation_def field_values_def Let_def split: if_splits option.splits)
  have inv1: "form_inv s1" by (rule effect_inv [OF begin_submit_effect [OF assms(2)] assms(1)])
  have "submit_guarded t (field_values s) s1" using t by (simp add: submit_guarded_def)
  then have s2: "submit_guarded t (field_values s) s2" by (rule submit_guarded_steps [OF assms(3) inv1])
  have inv2: "form_inv s2" by (rule form_steps_inv [OF assms(3) inv1])
  have fin: "submission s2 = Submitting t" "submission s3 \<noteq> Submitting t" "next_submit_generation s3 = next_submit_generation s2"
    using assms(4) by (auto simp: finish_submit_success_def finish_submit_error_def Let_def submit_applied split: if_splits)
  have inv3: "form_inv s3" using assms(4) effect_inv [OF finish_effect(1) inv2] effect_inv [OF finish_effect(2) inv2] by auto
  have "submit_closed t s3" using fin s2 by (simp add: submit_closed_def submit_guarded_def)
  then have "submit_closed t s4" by (rule submit_closed_steps [OF assms(5) inv3])
  then show ?thesis
    using fin s2 submit_applied [of s4 t] by (auto simp: submit_guarded_def submit_closed_def finish_submit_success_def finish_submit_error_def Let_def)
qed

theorem submission_applied_once_witness:
  "let s1 = snd (begin_submit sample_store); s3 = snd (finish_submit_success s1 sample_submit) in
   field_values s1 = field_values sample_store \<and> fst (finish_submit_success s3 sample_submit) \<noteq> SubmitApplied \<and>
   fst (finish_submit_error s3 sample_submit []) \<noteq> SubmitApplied"
  unfolding Let_def
proof (rule submission_applied_once [OF sample_inv sample_begin(2)])
  let ?s1 = "snd (begin_submit sample_store)"
  show "finish_submit_success ?s1 sample_submit = (SubmitApplied, snd (finish_submit_success ?s1 sample_submit)) \<or>
    finish_submit_error ?s1 sample_submit [] = (SubmitApplied, snd (finish_submit_success ?s1 sample_submit))"
    by (simp add: sample_defs begin_submit_def finish_submit_success_def submit_completion_of_def st_belongs_to_def submit_ticket_eq_def
        is_submitting_def is_validating_def is_invalid_def next_generation_def Let_def)
qed (rule rtranclp.rtrancl_refl)+

text \<open>C38: a fresh validation ticket is accepted, and a ticket that was superseded by a newer validation of the same field is
  reported as stale and changes nothing.\<close>

theorem latest_validation_wins:
  assumes "form_inv s" and "begin_async_validation s p = (Inr t, s1)" and "begin_async_validation s1 p = (Inr t', s2)"
  shows "fst (complete_async_validation s1 t errs) = ValidationApplied \<and> complete_async_validation s2 t errs = (ValidationStale, s2) \<and>
    fst (complete_async_validation s2 t' errs) = ValidationApplied"
proof -
  have fresh: "\<exists>h. map_of (form_fields s') p = Some h \<and> active_generation h = Some (vt_generation u) \<and> value_revision h = vt_value_revision u \<and>
      vt_authority u = authority s' \<and> vt_path u = p \<and> vt_generation u = next_validation_generation s' \<and>
      next_validation_generation s0 < next_validation_generation s' \<and> authority s' = authority s0"
    if "form_inv s0" "begin_async_validation s0 p = (Inr u, s')" for s0 s' u
    using that by (auto simp: begin_async_validation_def with_field_def field_or_err_def next_generation_def field_begin_validation_def Let_def
        form_inv_def fields_inv_def field_inv_def map_of_modify_some split: if_splits option.splits dest: checked_succ_less)
  have inv1: "form_inv s1" by (rule effect_inv [OF begin_async_effect [OF assms(2)] assms(1)])
  have inv2: "form_inv s2" by (rule effect_inv [OF begin_async_effect [OF assms(3)] inv1])
  obtain h where h: "map_of (form_fields s1) p = Some h" "active_generation h = Some (vt_generation t)" "value_revision h = vt_value_revision t"
      "vt_authority t = authority s1" "vt_path t = p" "vt_generation t = next_validation_generation s1"
    using fresh [OF assms(1,2)] by blast
  obtain h' where h': "map_of (form_fields s2) p = Some h'" "active_generation h' = Some (vt_generation t')" "value_revision h' = vt_value_revision t'"
      "vt_authority t' = authority s2" "vt_path t' = p" "vt_generation t' = next_validation_generation s2"
      "next_validation_generation s1 < next_validation_generation s2" "authority s2 = authority s1"
    using fresh [OF inv1 assms(3)] by blast
  have "s2\<lparr>form_fields := bt_modify p (\<lambda>_. h') (form_fields s2)\<rparr> = s2" by (rule modify_same_store [OF inv2 h'(1)])
  then show ?thesis
    using h h' by (auto simp: complete_async_validation_def vt_belongs_to_def field_complete_validation_def)
qed

theorem latest_validation_wins_witness:
  "let s1 = snd (begin_async_validation sample_store email); s2 = snd (begin_async_validation s1 email) in
   fst (complete_async_validation s1 (sample_ticket 1) []) = ValidationApplied \<and>
   complete_async_validation s2 (sample_ticket 1) [] = (ValidationStale, s2) \<and>
   fst (complete_async_validation s2 (sample_ticket 2) []) = ValidationApplied"
  unfolding Let_def
proof (rule latest_validation_wins [OF sample_inv sample_begin(1)])
  let ?s1 = "snd (begin_async_validation sample_store email)"
  show "begin_async_validation ?s1 email = (Inr (sample_ticket 2), snd (begin_async_validation ?s1 email))"
    by (simp add: sample_defs begin_async_validation_def is_submitting_def next_generation_def with_field_def field_or_err_def
        field_begin_validation_def clear_terminal_submission_def Let_def bt_modify_def)
qed

text \<open>in every reachable store the snapshot predicts the store, under every redaction policy: \<open>can_submit\<close> of the
  snapshot holds exactly when \<open>begin_submit\<close> would succeed (as long as submission generations are left).\<close>

theorem snapshot_predicts_submit:
  assumes "form_steps (form_default a) s" and "next_submit_generation s \<noteq> - 1"
  shows "snap_can_submit (form_snapshot_of view policy s) \<longleftrightarrow> (\<exists>t s'. begin_submit s = (Inr t, s'))"
proof -
  have inv: "form_inv s" by (rule form_steps_inv [OF assms(1) form_default_inv])
  have count: "invalid_field_count (form_snapshot_of view policy s) = 0 \<longleftrightarrow> \<not> is_invalid s"
    by (auto simp: invalid_field_count_def form_snapshot_of_def field_snapshot_of_def filter_empty_conv is_invalid_def list_ex_iff)
  have busy: "is_busy (form_snapshot_of view policy s) \<longleftrightarrow> is_submitting s \<or> is_validating s"
    using settled_iff [OF inv] inv
    by (auto simp: is_busy_def form_snapshot_of_def form_status_of_def is_submitting_def form_inv_def phase_inv_def split: submission_phase.splits)
  have "(\<exists>t s'. begin_submit s = (Inr t, s')) \<longleftrightarrow> \<not> is_submitting s \<and> \<not> is_validating s \<and> \<not> is_invalid s"
    using assms(2) by (auto simp: begin_submit_def next_generation_def checked_succ_def Let_def)
  then show ?thesis by (simp add: snap_can_submit_def count busy)
qed

theorem snapshot_predicts_submit_witness:
  "snap_can_submit (form_snapshot_of (\<lambda>_. JNumber) RedactAll sample_store) \<longleftrightarrow> (\<exists>t s'. begin_submit sample_store = (Inr t, s'))"
proof (rule snapshot_predicts_submit [OF _ sample_begin(3)])
  show "form_steps (form_default 7) sample_store"
    unfolding sample_store_def by (rule r_into_rtranclp, rule form_step.intros(1)) (rule prod.collapse [symmetric])
qed

text \<open>C40: an operation that returns an error leaves the store as it was: a duplicate or unknown field, a blocked validation
  or submission, exhausted generations.\<close>

theorem errors_change_nothing:
  "(register_field s p v = (Inl e, s') \<longrightarrow> s' = s \<and> e = DuplicateField p) \<and>
   (set_value s p v = (Inl e, s') \<longrightarrow> s' = s \<and> e = UnknownField p) \<and>
   (touch s p = (Inl e, s') \<longrightarrow> s' = s \<and> e = UnknownField p) \<and>
   (visit s p = (Inl e, s') \<longrightarrow> s' = s \<and> e = UnknownField p) \<and>
   (validate_field s p validator = (Inl e, s') \<longrightarrow> s' = s \<and> e \<in> {CannotValidateWhileSubmitting, UnknownField p}) \<and>
   (begin_async_validation s p = (Inl e, s') \<longrightarrow>
      s' = s \<and> e \<in> {CannotValidateWhileSubmitting, UnknownField p, LifecycleGenerationExhausted}) \<and>
   (begin_submit s = (Inl e, s') \<longrightarrow>
      s' = s \<and> e \<in> {CannotSubmit AlreadySubmitting, CannotSubmit Validating, CannotSubmit Invalid, LifecycleGenerationExhausted})"
  by (auto simp: form_op_defs split: if_splits option.splits prod.splits)

theorem errors_change_nothing_witness:
  "let s1 = snd (begin_submit sample_store) in
   begin_async_validation s1 email = (Inl CannotValidateWhileSubmitting, s1)"
proof -
  let ?s1 = "snd (begin_submit sample_store)"
  have "fst (begin_async_validation ?s1 email) = Inl CannotValidateWhileSubmitting"
    by (simp add: sample_defs begin_submit_def begin_async_validation_def is_submitting_def is_validating_def is_invalid_def
        next_generation_def Let_def)
  then have "begin_async_validation ?s1 email = (Inl CannotValidateWhileSubmitting, snd (begin_async_validation ?s1 email))"
    by (metis prod.collapse)
  then have "begin_async_validation ?s1 email = (Inl CannotValidateWhileSubmitting, ?s1)"
    using errors_change_nothing [of ?s1 email 0 CannotValidateWhileSubmitting "snd (begin_async_validation ?s1 email)" "\<lambda>_. []"] by simp
  then show ?thesis unfolding Let_def .
qed

text \<open>The snapshot taken under \<open>RedactAll\<close> carries no field value: rewriting all current and initial values, with
  everything else kept, gives the same snapshot.\<close>

theorem redacted_snapshot_hides_values:
  "form_snapshot_of view RedactAll (s\<lparr>form_fields := bt_map_values (\<lambda>f. f\<lparr>fs_value := new f, initial_value := init f\<rparr>) (form_fields s)\<rparr>) =
   form_snapshot_of view RedactAll s"
  by (auto simp: form_snapshot_of_def field_snapshot_of_def form_status_of_def is_validating_def list_ex_iff bt_map_values_def
      image_iff split: submission_phase.splits) force

text \<open>Draining the debounced queue ends and yields the pending tickets in increasing path order, the latest request of each
  path.\<close>

theorem queue_drains_in_order:
  assumes "queue_inv q" and "queue_request q s p = (Inr t, q', s')"
  shows "drain (\<lambda>q. Some (take_pending q)) q' = Some (map snd (pending q')) \<and> sorted_wrt (<) (map fst (pending q')) \<and>
    map_of (pending q') = (map_of (pending q))(p \<mapsto> t)"
proof -
  have q': "queue_inv q'" by (rule queue_request_inv [OF assms])
  moreover have "pending q' = bt_insert p t (pending q)"
    using assms(2) by (auto simp: queue_request_def split: prod.splits sum.splits)
  ultimately show ?thesis using assms(1) queue_drain [OF q'] by (simp add: queue_inv_def bt_simps bt_ok_def)
qed

theorem queue_drains_in_order_witness:
  "let q' = fst (snd (queue_request (queue_new 50) sample_store email)) in
   drain (\<lambda>q. Some (take_pending q)) q' = Some (map snd (pending q')) \<and> sorted_wrt (<) (map fst (pending q')) \<and>
   map_of (pending q') = (map_of (pending (queue_new 50)))(email \<mapsto> sample_ticket 1)"
  unfolding Let_def
proof (rule queue_drains_in_order)
  show "queue_inv (queue_new 50)" by (simp add: queue_inv_def queue_new_def)
  show "queue_request (queue_new 50) sample_store email = (Inr (sample_ticket 1),
      fst (snd (queue_request (queue_new 50) sample_store email)), snd (snd (queue_request (queue_new 50) sample_store email)))"
    unfolding queue_request_def by (subst (1 2 3) sample_begin(1)) simp
qed

end
