(* ===== verification/Resource_Client.thy ===== *)
theory Resource_Client
  imports Json BTree_Map
begin

text \<open>
  \<open>crates/resource\<close>: query keys (\<open>key.rs\<close>), redaction (\<open>redaction.rs\<close>), errors, tickets, the retry policy
  (\<open>policy.rs\<close>), paginated resources (\<open>pagination.rs\<close>) and the client that owns queries and mutations
  (\<open>client.rs\<close>). Counters are words and wrap as in a release build.
\<close>

section \<open>Keys\<close>

text \<open>The derived order of \<open>QueryKeySegment\<close>: first the variant, then its content. A key is compared segment by segment.\<close>

datatype query_key_segment = KText str | KInteger int | KBool bool

datatype query_key = QueryKey (segments: "query_key_segment list")

datatype query_key_error = EmptyKey

fun segment_rank :: "query_key_segment \<Rightarrow> nat" where
  "segment_rank (KText _) = 0"
| "segment_rank (KInteger _) = 1"
| "segment_rank (KBool _) = 2"

fun same_variant_le :: "query_key_segment \<Rightarrow> query_key_segment \<Rightarrow> bool" where
  "same_variant_le (KText x) (KText y) \<longleftrightarrow> x \<le> y"
| "same_variant_le (KInteger x) (KInteger y) \<longleftrightarrow> x \<le> y"
| "same_variant_le (KBool x) (KBool y) \<longleftrightarrow> x \<le> y"
| "same_variant_le _ _ \<longleftrightarrow> False"

instantiation query_key_segment :: linorder
begin

definition less_eq_query_key_segment :: "query_key_segment \<Rightarrow> query_key_segment \<Rightarrow> bool" where
  "a \<le> b \<longleftrightarrow> segment_rank a < segment_rank b \<or> same_variant_le a b"

definition less_query_key_segment :: "query_key_segment \<Rightarrow> query_key_segment \<Rightarrow> bool" where
  "a < b \<longleftrightarrow> a \<le> b \<and> \<not> b \<le> (a :: query_key_segment)"

instance
proof
  fix a b c :: query_key_segment
  show "a < b \<longleftrightarrow> a \<le> b \<and> \<not> b \<le> a" by (simp add: less_query_key_segment_def)
  show "a \<le> a" by (cases a) (simp_all add: less_eq_query_key_segment_def)
  show "a \<le> b \<Longrightarrow> b \<le> c \<Longrightarrow> a \<le> c" by (cases a; cases b; cases c) (auto simp: less_eq_query_key_segment_def)
  show "a \<le> b \<Longrightarrow> b \<le> a \<Longrightarrow> a = b" by (cases a; cases b) (auto simp: less_eq_query_key_segment_def)
  show "a \<le> b \<or> b \<le> a" by (cases a; cases b) (auto simp: less_eq_query_key_segment_def)
qed

end

instantiation query_key :: linorder
begin

definition less_eq_query_key :: "query_key \<Rightarrow> query_key \<Rightarrow> bool" where
  "k \<le> k' \<longleftrightarrow> segments k \<le> segments k'"

definition less_query_key :: "query_key \<Rightarrow> query_key \<Rightarrow> bool" where
  "k < k' \<longleftrightarrow> segments k < segments k'"

instance
  by standard (auto simp: less_eq_query_key_def less_query_key_def query_key.expand)

end

definition query_key_new :: "query_key_segment list \<Rightarrow> query_key_error + query_key" where
  "query_key_new ss = (if ss = [] then Inl EmptyKey else Inr (QueryKey ss))"

section \<open>Redaction\<close>

datatype 'v redacted_resource_value = RedactedResource | SummaryResource str | JsonResource 'v

datatype resource_redaction_policy = RedactAllResources | SummarizeResources | ExposeResources

definition resource_redaction_default :: resource_redaction_policy where
  "resource_redaction_default = RedactAllResources"

fun resource_value_summary :: "'v json_view \<Rightarrow> str" where
  "resource_value_summary JNull = lit ''null''"
| "resource_value_summary (JBool _) = lit ''bool''"
| "resource_value_summary JNumber = lit ''number''"
| "resource_value_summary (JString s) = lit ''string:'' @ decimal (length s) @ lit '' chars''"
| "resource_value_summary (JArray vs) = lit ''array:'' @ decimal (length vs) @ lit '' items''"
| "resource_value_summary (JObject kvs) = lit ''object:'' @ decimal (length kvs) @ lit '' keys''"

fun resource_apply :: "('v \<Rightarrow> 'v json_view) \<Rightarrow> resource_redaction_policy \<Rightarrow> 'v \<Rightarrow> 'v redacted_resource_value" where
  "resource_apply view RedactAllResources v = RedactedResource"
| "resource_apply view SummarizeResources v = SummaryResource (resource_value_summary (view v))"
| "resource_apply view ExposeResources v = JsonResource v"

fun is_redacted :: "'v redacted_resource_value \<Rightarrow> bool" where
  "is_redacted RedactedResource = True"
| "is_redacted _ = False"

fun as_json :: "'v redacted_resource_value \<Rightarrow> 'v option" where
  "as_json (JsonResource v) = Some v"
| "as_json _ = None"

section \<open>Errors and tickets\<close>

datatype resource_error =
    UnknownQuery query_key
  | UnknownObserver
  | EmptyMutationId
  | UnknownMutation str

record fetch_ticket =
  ft_key :: query_key
  ft_generation :: u64

record mutation_ticket =
  mt_id :: str
  mt_generation :: u64

record observer_handle =
  oh_key :: query_key
  oh_id :: u64

record invalidation_outcome =
  refetch_requested :: bool

section \<open>Retry policy\<close>

text \<open>\<open>Duration\<close> in nanoseconds: at most \<open>u64::MAX\<close> seconds and 999999999 nanoseconds; \<open>saturating_mul\<close> stops there.\<close>

type_synonym duration = nat

definition DURATION_MAX :: duration where
  "DURATION_MAX = (2 ^ 64 - 1) * 1000000000 + 999999999"

definition duration_saturating_mul :: "duration \<Rightarrow> u32 \<Rightarrow> duration" where
  "duration_saturating_mul d n = min (d * unat n) DURATION_MAX"

record retry_policy =
  max_attempts :: u32
  base_delay :: duration

definition should_retry :: "retry_policy \<Rightarrow> u32 \<Rightarrow> bool" where
  "should_retry p attempts_completed \<longleftrightarrow> attempts_completed < max_attempts p"

definition next_delay :: "retry_policy \<Rightarrow> u32 \<Rightarrow> duration option" where
  "next_delay p attempts_completed =
     (if should_retry p attempts_completed then Some (duration_saturating_mul (base_delay p) (max attempts_completed 1)) else None)"

section \<open>Pagination\<close>

record 'v resource_page =
  page_cursor :: "str option"
  page_items :: "'v list"

record 'v page_snapshot =
  psnap_cursor :: "str option"
  psnap_items :: "'v redacted_resource_value list"

record 'v paginated_resource =
  pr_key :: query_key
  pr_pages :: "'v resource_page list"

record 'v paginated_view =
  pv_key :: query_key
  pv_pages :: "'v page_snapshot list"

definition paginated_new :: "query_key \<Rightarrow> 'v paginated_resource" where
  "paginated_new k = \<lparr>pr_key = k, pr_pages = []\<rparr>"

definition push_page :: "'v paginated_resource \<Rightarrow> 'v resource_page \<Rightarrow> 'v paginated_resource" where
  "push_page r page = r\<lparr>pr_pages := pr_pages r @ [page]\<rparr>"

definition paginated_snapshot :: "('v \<Rightarrow> 'v json_view) \<Rightarrow> resource_redaction_policy \<Rightarrow> 'v paginated_resource \<Rightarrow> 'v paginated_view" where
  "paginated_snapshot view redaction r =
     \<lparr>pv_key = pr_key r,
      pv_pages = map (\<lambda>page. \<lparr>psnap_cursor = page_cursor page, psnap_items = map (resource_apply view redaction) (page_items page)\<rparr>) (pr_pages r)\<rparr>"

section \<open>The client\<close>

datatype resource_status = QIdle | QLoading | QSuccess | QStale | QRefetching | QError

datatype mutation_status = MIdle | MPending | MSuccess | MError

record 'v query_entry =
  q_status :: resource_status
  q_data :: "'v option"
  q_error :: "str option"
  observers :: "u64 set"
  next_observer_id :: u64
  fetch_generation :: u64
  fetch_attempts :: u32

definition query_entry_new :: "'v query_entry" where
  "query_entry_new = \<lparr>q_status = QIdle, q_data = None, q_error = None, observers = {}, next_observer_id = 0, fetch_generation = 0,
     fetch_attempts = 0\<rparr>"

record 'v mutation_entry =
  m_status :: mutation_status
  m_data :: "'v option"
  m_error :: "str option"
  m_generation :: u64

definition mutation_entry_new :: "'v mutation_entry" where
  "mutation_entry_new = \<lparr>m_status = MIdle, m_data = None, m_error = None, m_generation = 0\<rparr>"

record 'v resource_client =
  queries :: "(query_key, 'v query_entry) btree_map"
  mutations :: "(str, 'v mutation_entry) btree_map"

definition client_default :: "'v resource_client" where
  "client_default = \<lparr>queries = [], mutations = []\<rparr>"

definition ensure_query :: "'v resource_client \<Rightarrow> query_key \<Rightarrow> 'v resource_client" where
  "ensure_query c key =
     (case map_of (queries c) key of
        Some _ \<Rightarrow> c
      | None \<Rightarrow> c\<lparr>queries := bt_insert key query_entry_new (queries c)\<rparr>)"

definition query_of :: "'v resource_client \<Rightarrow> query_key \<Rightarrow> resource_error + 'v query_entry" where
  "query_of c key = (case map_of (queries c) key of Some e \<Rightarrow> Inr e | None \<Rightarrow> Inl (UnknownQuery key))"

text \<open>A write through \<open>query_mut\<close>.\<close>

definition put_query :: "'v resource_client \<Rightarrow> query_key \<Rightarrow> 'v query_entry \<Rightarrow> 'v resource_client" where
  "put_query c key e = c\<lparr>queries := bt_modify key (\<lambda>_. e) (queries c)\<rparr>"

definition put_mutation :: "'v resource_client \<Rightarrow> str \<Rightarrow> 'v mutation_entry \<Rightarrow> 'v resource_client" where
  "put_mutation c i e = c\<lparr>mutations := bt_modify i (\<lambda>_. e) (mutations c)\<rparr>"

definition subscribe :: "'v resource_client \<Rightarrow> query_key \<Rightarrow> (resource_error + observer_handle) \<times> 'v resource_client" where
  "subscribe c key =
     (let c1 = ensure_query c key in
      case query_of c1 key of
        Inl e \<Rightarrow> (Inl e, c1)
      | Inr entry \<Rightarrow>
          let i = next_observer_id entry + 1 in
          (Inr \<lparr>oh_key = key, oh_id = i\<rparr>, put_query c1 key (entry\<lparr>next_observer_id := i, observers := insert i (observers entry)\<rparr>)))"

definition unsubscribe :: "'v resource_client \<Rightarrow> observer_handle \<Rightarrow> (resource_error + unit) \<times> 'v resource_client" where
  "unsubscribe c handle =
     (case query_of c (oh_key handle) of
        Inl e \<Rightarrow> (Inl e, c)
      | Inr entry \<Rightarrow>
          if oh_id handle \<notin> observers entry then (Inl UnknownObserver, c)
          else (Inr (), put_query c (oh_key handle) (entry\<lparr>observers := observers entry - {oh_id handle}\<rparr>)))"

definition begin_fetch :: "'v resource_client \<Rightarrow> query_key \<Rightarrow> (resource_error + fetch_ticket) \<times> 'v resource_client" where
  "begin_fetch c key =
     (let c1 = ensure_query c key in
      case query_of c1 key of
        Inl e \<Rightarrow> (Inl e, c1)
      | Inr entry \<Rightarrow>
          let entry1 = entry\<lparr>fetch_generation := fetch_generation entry + 1, fetch_attempts := fetch_attempts entry + 1,
                q_status := (if q_data entry \<noteq> None then QRefetching else QLoading), q_error := None\<rparr> in
          (Inr \<lparr>ft_key = key, ft_generation = fetch_generation entry1\<rparr>, put_query c1 key entry1))"

definition entry_fetch_success :: "'v query_entry \<Rightarrow> u64 \<Rightarrow> 'v \<Rightarrow> bool \<times> 'v query_entry" where
  "entry_fetch_success e generation data =
     (if fetch_generation e \<noteq> generation then (False, e)
      else (True, e\<lparr>q_status := QSuccess, q_data := Some data, q_error := None\<rparr>))"

definition entry_fetch_error :: "'v query_entry \<Rightarrow> u64 \<Rightarrow> str \<Rightarrow> bool \<times> 'v query_entry" where
  "entry_fetch_error e generation error =
     (if fetch_generation e \<noteq> generation then (False, e)
      else (True, e\<lparr>q_status := (if q_data e \<noteq> None then QStale else QError), q_error := Some error\<rparr>))"

definition complete_fetch_success :: "'v resource_client \<Rightarrow> fetch_ticket \<Rightarrow> 'v \<Rightarrow> bool \<times> 'v resource_client" where
  "complete_fetch_success c ticket data =
     (case map_of (queries c) (ft_key ticket) of
        None \<Rightarrow> (False, c)
      | Some e \<Rightarrow> (case entry_fetch_success e (ft_generation ticket) data of (r, e') \<Rightarrow> (r, put_query c (ft_key ticket) e')))"

definition complete_fetch_error :: "'v resource_client \<Rightarrow> fetch_ticket \<Rightarrow> str \<Rightarrow> bool \<times> 'v resource_client" where
  "complete_fetch_error c ticket error =
     (case map_of (queries c) (ft_key ticket) of
        None \<Rightarrow> (False, c)
      | Some e \<Rightarrow> (case entry_fetch_error e (ft_generation ticket) error of (r, e') \<Rightarrow> (r, put_query c (ft_key ticket) e')))"

definition invalidate :: "'v resource_client \<Rightarrow> query_key \<Rightarrow> (resource_error + invalidation_outcome) \<times> 'v resource_client" where
  "invalidate c key =
     (case query_of c key of
        Inl e \<Rightarrow> (Inl e, c)
      | Inr entry \<Rightarrow>
          let requested = (observers entry \<noteq> {}) in
          (Inr \<lparr>refetch_requested = requested\<rparr>, put_query c key (entry\<lparr>q_status := (if requested then QRefetching else QStale)\<rparr>)))"

definition begin_mutation :: "'v resource_client \<Rightarrow> str \<Rightarrow> (resource_error + mutation_ticket) \<times> 'v resource_client" where
  "begin_mutation c i =
     (if trim i = [] then (Inl EmptyMutationId, c)
      else
        let c1 = (case map_of (mutations c) i of
                    Some _ \<Rightarrow> c | None \<Rightarrow> c\<lparr>mutations := bt_insert i mutation_entry_new (mutations c)\<rparr>);
            entry = (case map_of (mutations c) i of Some e \<Rightarrow> e | None \<Rightarrow> mutation_entry_new);
            entry1 = entry\<lparr>m_generation := m_generation entry + 1, m_status := MPending, m_error := None\<rparr> in
        (Inr \<lparr>mt_id = i, mt_generation = m_generation entry1\<rparr>, put_mutation c1 i entry1))"

definition complete_mutation_success :: "'v resource_client \<Rightarrow> mutation_ticket \<Rightarrow> 'v option \<Rightarrow> query_key list \<Rightarrow> bool \<times> 'v resource_client" where
  "complete_mutation_success c ticket data invalidate_keys =
     (case map_of (mutations c) (mt_id ticket) of
        None \<Rightarrow> (False, c)
      | Some entry \<Rightarrow>
          if m_generation entry \<noteq> mt_generation ticket then (False, c)
          else
            let c1 = put_mutation c (mt_id ticket) (entry\<lparr>m_status := MSuccess, m_data := data, m_error := None\<rparr>) in
            (True, fold (\<lambda>key c. snd (invalidate c key)) invalidate_keys c1))"

definition entry_mutation_error :: "'v mutation_entry \<Rightarrow> u64 \<Rightarrow> str \<Rightarrow> bool \<times> 'v mutation_entry" where
  "entry_mutation_error e generation error =
     (if m_generation e \<noteq> generation then (False, e) else (True, e\<lparr>m_status := MError, m_error := Some error\<rparr>))"

definition complete_mutation_error :: "'v resource_client \<Rightarrow> mutation_ticket \<Rightarrow> str \<Rightarrow> bool \<times> 'v resource_client" where
  "complete_mutation_error c ticket error =
     (case map_of (mutations c) (mt_id ticket) of
        None \<Rightarrow> (False, c)
      | Some e \<Rightarrow> (case entry_mutation_error e (mt_generation ticket) error of (r, e') \<Rightarrow> (r, put_mutation c (mt_id ticket) e')))"

section \<open>Snapshots\<close>

record 'v resource_snapshot =
  rs_key :: query_key
  rs_status :: resource_status
  rs_data :: "'v redacted_resource_value option"
  rs_error :: "str option"
  observer_count :: nat
  rs_fetch_attempts :: u32

record 'v mutation_snapshot =
  ms_id :: str
  ms_status :: mutation_status
  ms_data :: "'v redacted_resource_value option"
  ms_error :: "str option"

definition resource_snapshot_of :: "('v \<Rightarrow> 'v json_view) \<Rightarrow> 'v resource_client \<Rightarrow> query_key \<Rightarrow> resource_redaction_policy \<Rightarrow>
    resource_error + 'v resource_snapshot" where
  "resource_snapshot_of view c key redaction =
     (case query_of c key of
        Inl e \<Rightarrow> Inl e
      | Inr e \<Rightarrow> Inr \<lparr>rs_key = key, rs_status = q_status e, rs_data = map_option (resource_apply view redaction) (q_data e),
          rs_error = q_error e, observer_count = card (observers e), rs_fetch_attempts = fetch_attempts e\<rparr>)"

definition mutation_snapshot_of :: "('v \<Rightarrow> 'v json_view) \<Rightarrow> 'v resource_client \<Rightarrow> str \<Rightarrow> resource_redaction_policy \<Rightarrow>
    resource_error + 'v mutation_snapshot" where
  "mutation_snapshot_of view c i redaction =
     (case map_of (mutations c) i of
        None \<Rightarrow> Inl (UnknownMutation i)
      | Some e \<Rightarrow> Inr \<lparr>ms_id = i, ms_status = m_status e, ms_data = map_option (resource_apply view redaction) (m_data e),
          ms_error = m_error e\<rparr>)"

section \<open>Runs of operations\<close>

datatype 'v client_op =
    Ensure query_key
  | Subscribe query_key
  | Unsubscribe observer_handle
  | BeginFetch query_key
  | FetchSuccess fetch_ticket 'v
  | FetchError fetch_ticket str
  | Invalidate query_key
  | BeginMutation str
  | MutationSuccess mutation_ticket "'v option" "query_key list"
  | MutationError mutation_ticket str

fun client_step :: "'v resource_client \<Rightarrow> 'v client_op \<Rightarrow> 'v resource_client" where
  "client_step c (Ensure k) = ensure_query c k"
| "client_step c (Subscribe k) = snd (subscribe c k)"
| "client_step c (Unsubscribe h) = snd (unsubscribe c h)"
| "client_step c (BeginFetch k) = snd (begin_fetch c k)"
| "client_step c (FetchSuccess t d) = snd (complete_fetch_success c t d)"
| "client_step c (FetchError t e) = snd (complete_fetch_error c t e)"
| "client_step c (Invalidate k) = snd (invalidate c k)"
| "client_step c (BeginMutation i) = snd (begin_mutation c i)"
| "client_step c (MutationSuccess t d ks) = snd (complete_mutation_success c t d ks)"
| "client_step c (MutationError t e) = snd (complete_mutation_error c t e)"

definition client_run :: "'v client_op list \<Rightarrow> 'v resource_client \<Rightarrow> 'v resource_client" where
  "client_run ops c = foldl client_step c ops"

end
