(* ===== verification/Resource_Laws.thy ===== *)
theory Resource_Laws
  imports Resource_Client
begin

text \<open>
  The laws of the resource client: what every operation does to the entry of one key, the invariant of the entries along
  runs, and the generation counters that decide which completions are accepted.
\<close>

section \<open>Lookups after an operation\<close>

definition client_ok :: "'v resource_client \<Rightarrow> bool" where
  "client_ok c \<longleftrightarrow> bt_ok (queries c) \<and> bt_ok (mutations c)"

definition invalidated :: "'v query_entry \<Rightarrow> 'v query_entry" where
  "invalidated e = e\<lparr>q_status := (if observers e \<noteq> {} then QRefetching else QStale)\<rparr>"

named_theorems client_lookup \<open>lookups in the maps of a client after an operation\<close>

lemma put_query_lookup [client_lookup]:
  "map_of (queries (put_query c k e)) j = (if j = k \<and> map_of (queries c) k \<noteq> None then Some e else map_of (queries c) j)"
  "mutations (put_query c k e) = mutations c"
  by (auto simp: put_query_def bt_simps)

lemma put_mutation_lookup [client_lookup]:
  "map_of (mutations (put_mutation c i e)) j = (if j = i \<and> map_of (mutations c) i \<noteq> None then Some e else map_of (mutations c) j)"
  "queries (put_mutation c i e) = queries c"
  by (auto simp: put_mutation_def bt_simps)

lemma ensure_lookup [client_lookup]:
  "client_ok c \<Longrightarrow> map_of (queries (ensure_query c k)) j =
     (if j = k \<and> map_of (queries c) k = None then Some query_entry_new else map_of (queries c) j)"
  "mutations (ensure_query c k) = mutations c"
  by (auto simp: ensure_query_def client_ok_def bt_simps split: option.split)

lemma client_ok_put [simp]:
  "client_ok (put_query c k e) \<longleftrightarrow> client_ok c" "client_ok (put_mutation c i m) \<longleftrightarrow> client_ok c"
  by (simp_all add: client_ok_def put_query_def put_mutation_def bt_simps)

lemma client_ok_ensure [simp]: "client_ok c \<Longrightarrow> client_ok (ensure_query c k)"
  by (auto simp: client_ok_def ensure_query_def bt_simps split: option.split)

lemma invalidate_eq:
  "snd (invalidate c k) = (case map_of (queries c) k of None \<Rightarrow> c | Some e \<Rightarrow> put_query c k (invalidated e))"
  by (auto simp: invalidate_def query_of_def invalidated_def Let_def split: option.split)

lemma invalidate_lookup [client_lookup]:
  "map_of (queries (snd (invalidate c k))) j = (if j = k then map_option invalidated (map_of (queries c) k) else map_of (queries c) j)"
  "mutations (snd (invalidate c k)) = mutations c"
  by (auto simp: invalidate_eq client_lookup split: option.split)

lemma client_ok_invalidate [simp]: "client_ok c \<Longrightarrow> client_ok (snd (invalidate c k))"
  by (simp add: invalidate_eq split: option.split)

lemma invalidated_idem: "invalidated (invalidated e) = invalidated e"
  by (simp add: invalidated_def)

lemma invalidate_all_lookup [client_lookup]:
  "map_of (queries (fold (\<lambda>k c. snd (invalidate c k)) ks c)) j =
     (if j \<in> set ks then map_option invalidated (map_of (queries c) j) else map_of (queries c) j)"
  "mutations (fold (\<lambda>k c. snd (invalidate c k)) ks c) = mutations c"
proof (induction ks arbitrary: c)
  case (Cons k ks)
  {
    case 1
    show ?case by (cases "map_of (queries c) j") (auto simp: Cons(1) client_lookup invalidated_idem)
  next
    case 2
    show ?case by (simp add: Cons(2) client_lookup)
  }
qed simp_all

lemma client_ok_invalidate_all [simp]: "client_ok c \<Longrightarrow> client_ok (fold (\<lambda>k c. snd (invalidate c k)) ks c)"
  by (induction ks arbitrary: c) simp_all

section \<open>The effect of an operation on one query\<close>

text \<open>
  Each operation either leaves the entry of a key alone, or creates it, or changes it in one of seven ways.
\<close>

inductive query_effect :: "'v query_entry \<Rightarrow> 'v query_entry \<Rightarrow> bool" where
  q_same: "query_effect e e"
| q_subscribe: "query_effect e (e\<lparr>next_observer_id := i, observers := insert i (observers e)\<rparr>)"
| q_unsubscribe: "query_effect e (e\<lparr>observers := observers e - {i}\<rparr>)"
| q_success: "query_effect e (e\<lparr>q_status := QSuccess, q_data := Some d, q_error := None\<rparr>)"
| q_fail_stale: "q_data e = Some d \<Longrightarrow> query_effect e (e\<lparr>q_status := QStale, q_error := Some x\<rparr>)"
| q_fail: "q_data e = None \<Longrightarrow> query_effect e (e\<lparr>q_status := QError, q_error := Some x\<rparr>)"
| q_invalidate: "query_effect e (invalidated e)"

definition fetched :: "'v query_entry \<Rightarrow> 'v query_entry" where
  "fetched e = e\<lparr>fetch_generation := fetch_generation e + 1, fetch_attempts := fetch_attempts e + 1,
     q_status := (if q_data e \<noteq> None then QRefetching else QLoading), q_error := None\<rparr>"

definition entry_or_new :: "'v resource_client \<Rightarrow> query_key \<Rightarrow> 'v query_entry" where
  "entry_or_new c k = (case map_of (queries c) k of Some e \<Rightarrow> e | None \<Rightarrow> query_entry_new)"

lemma begin_fetch_eq:
  "client_ok c \<Longrightarrow> begin_fetch c k = (Inr \<lparr>ft_key = k, ft_generation = fetch_generation (entry_or_new c k) + 1\<rparr>,
     put_query (ensure_query c k) k (fetched (entry_or_new c k)))"
  by (auto simp: begin_fetch_def query_of_def entry_or_new_def fetched_def Let_def client_lookup split: option.split)

lemma subscribe_eq:
  "client_ok c \<Longrightarrow> subscribe c k =
     (let i = next_observer_id (entry_or_new c k) + 1 in
      (Inr \<lparr>oh_key = k, oh_id = i\<rparr>, put_query (ensure_query c k) k
         ((entry_or_new c k)\<lparr>next_observer_id := i, observers := insert i (observers (entry_or_new c k))\<rparr>)))"
  by (auto simp: subscribe_def query_of_def entry_or_new_def Let_def client_lookup split: option.split)

definition mutation_or_new :: "'v resource_client \<Rightarrow> str \<Rightarrow> 'v mutation_entry" where
  "mutation_or_new c i = (case map_of (mutations c) i of Some e \<Rightarrow> e | None \<Rightarrow> mutation_entry_new)"

definition ensure_mutation :: "'v resource_client \<Rightarrow> str \<Rightarrow> 'v resource_client" where
  "ensure_mutation c i =
     (case map_of (mutations c) i of Some _ \<Rightarrow> c | None \<Rightarrow> c\<lparr>mutations := bt_insert i mutation_entry_new (mutations c)\<rparr>)"

lemma ensure_mutation_lookup [client_lookup]:
  assumes "client_ok c"
  shows "map_of (mutations (ensure_mutation c i)) j = (if j = i \<and> map_of (mutations c) i = None then Some mutation_entry_new else map_of (mutations c) j)"
    and "queries (ensure_mutation c i) = queries c" and "client_ok (ensure_mutation c i)"
  using assms by (auto simp: ensure_mutation_def client_ok_def bt_simps split: option.split)

definition begun :: "'v mutation_entry \<Rightarrow> 'v mutation_entry" where
  "begun e = e\<lparr>m_generation := m_generation e + 1, m_status := MPending, m_error := None\<rparr>"

lemma begin_mutation_eq:
  "client_ok c \<Longrightarrow> trim i \<noteq> [] \<Longrightarrow> begin_mutation c i =
     (Inr \<lparr>mt_id = i, mt_generation = m_generation (mutation_or_new c i) + 1\<rparr>,
      put_mutation (ensure_mutation c i) i (begun (mutation_or_new c i)))"
  by (simp add: begin_mutation_def mutation_or_new_def ensure_mutation_def begun_def Let_def)

lemma client_step_begin:
  "client_ok c \<Longrightarrow> client_step c (BeginMutation i) =
     (if trim i = [] then c else put_mutation (ensure_mutation c i) i (begun (mutation_or_new c i)))"
  by (cases "trim i = []") (simp_all add: begin_mutation_eq, simp add: begin_mutation_def)

lemma begin_mutation_queries: "client_ok c \<Longrightarrow> queries (snd (begin_mutation c i)) = queries c"
  using client_step_begin [of c i] by (simp add: client_lookup)

lemma client_step_query:
  assumes "client_ok c" and "map_of (queries c) k = Some e" and "op \<noteq> BeginFetch k"
  shows "\<exists>e'. map_of (queries (client_step c op)) k = Some e' \<and> query_effect e e'"
proof (cases op)
  case (MutationSuccess t d ks)
  then show ?thesis
    using assms by (auto simp: complete_mutation_success_def Let_def client_lookup intro: query_effect.intros split: option.split)
qed (use assms in \<open>auto simp: client_lookup subscribe_eq begin_fetch_eq entry_or_new_def unsubscribe_def query_of_def
    complete_fetch_success_def complete_fetch_error_def entry_fetch_success_def entry_fetch_error_def begin_mutation_queries
    complete_mutation_error_def Let_def intro: query_effect.intros split: option.split prod.split\<close>)

lemma client_step_fetch:
  assumes "client_ok c" and "map_of (queries c) k = Some e"
  shows "map_of (queries (client_step c (BeginFetch k))) k = Some (fetched e)"
  using assms by (simp add: begin_fetch_eq client_lookup entry_or_new_def)

lemma client_step_new:
  assumes "client_ok c" and "map_of (queries c) k = None" and "map_of (queries (client_step c op)) k = Some e"
  shows "query_effect query_entry_new e \<or> e = fetched query_entry_new"
proof (cases op)
  case (MutationSuccess t d ks)
  then show ?thesis
    using assms by (auto simp: complete_mutation_success_def Let_def client_lookup split: option.splits if_splits)
qed (use assms in \<open>auto simp: client_lookup subscribe_eq begin_fetch_eq entry_or_new_def unsubscribe_def query_of_def
    complete_fetch_success_def complete_fetch_error_def begin_mutation_queries
    complete_mutation_error_def Let_def intro: query_effect.intros split: option.splits prod.splits if_splits\<close>)

lemma client_step_ok: "client_ok c \<Longrightarrow> client_ok (client_step c op)"
proof (cases op)
  case (BeginMutation i)
  assume "client_ok c"
  then show ?thesis using BeginMutation by (simp add: client_step_begin client_lookup del: client_step.simps)
qed (auto simp: subscribe_eq begin_fetch_eq unsubscribe_def query_of_def complete_fetch_success_def complete_fetch_error_def
    complete_mutation_success_def complete_mutation_error_def Let_def split: option.split prod.split)

lemma client_run_simps [simp]:
  "client_run [] c = c" "client_run (op # ops) c = client_run ops (client_step c op)"
  by (simp_all add: client_run_def)

lemma client_run_ok: "client_ok c \<Longrightarrow> client_ok (client_run ops c)"
  by (induction ops arbitrary: c) (simp_all add: client_step_ok)

lemma client_default_ok [simp]: "client_ok client_default"
  by (simp add: client_ok_def client_default_def)

section \<open>The invariant of the entries\<close>

text \<open>What a status says about the data and the error of a query.\<close>

definition query_inv :: "'v query_entry \<Rightarrow> bool" where
  "query_inv e \<longleftrightarrow> finite (observers e) \<and>
     (case q_status e of
        QIdle \<Rightarrow> q_data e = None \<and> q_error e = None
      | QLoading \<Rightarrow> q_data e = None \<and> q_error e = None
      | QSuccess \<Rightarrow> q_data e \<noteq> None \<and> q_error e = None
      | QError \<Rightarrow> q_data e = None \<and> q_error e \<noteq> None
      | _ \<Rightarrow> True)"

definition mutation_inv :: "'v mutation_entry \<Rightarrow> bool" where
  "mutation_inv e \<longleftrightarrow>
     (case m_status e of MIdle \<Rightarrow> False | MPending \<Rightarrow> m_error e = None | MSuccess \<Rightarrow> m_error e = None | MError \<Rightarrow> m_error e \<noteq> None)"

definition client_inv :: "'v resource_client \<Rightarrow> bool" where
  "client_inv c \<longleftrightarrow> client_ok c \<and> (\<forall>k e. map_of (queries c) k = Some e \<longrightarrow> query_inv e) \<and>
     (\<forall>i e. map_of (mutations c) i = Some e \<longrightarrow> mutation_inv e \<and> trim i \<noteq> [])"

lemma query_inv_new: "query_inv query_entry_new"
  by (simp add: query_inv_def query_entry_new_def)

lemma query_inv_effect: "query_effect e e' \<Longrightarrow> query_inv e \<Longrightarrow> query_inv e'"
  by (erule query_effect.cases) (auto simp: query_inv_def invalidated_def split: resource_status.splits)

lemma query_inv_fetched: "query_inv e \<Longrightarrow> query_inv (fetched e)"
  by (simp add: query_inv_def fetched_def)

lemma client_step_mutation:
  assumes "client_ok c" and "map_of (mutations (client_step c op)) i = Some e'"
  shows "map_of (mutations c) i = Some e' \<or> (mutation_inv e' \<and> trim i \<noteq> []) \<or>
    (map_of (mutations c) i \<noteq> None \<and> mutation_inv e')"
proof (cases op)
  case (BeginMutation j)
  then show ?thesis
    using assms by (auto simp: client_step_begin client_lookup mutation_inv_def begun_def simp del: client_step.simps split: if_splits)
qed (use assms in \<open>auto simp: client_lookup subscribe_eq begin_fetch_eq unsubscribe_def query_of_def mutation_inv_def
    complete_fetch_success_def complete_fetch_error_def complete_mutation_success_def entry_mutation_error_def
    complete_mutation_error_def Let_def split: option.splits prod.splits if_splits\<close>)

lemma client_step_inv:
  assumes "client_inv c"
  shows "client_inv (client_step c op)"
proof -
  have ok: "client_ok c" using assms by (simp add: client_inv_def)
  have q: "query_inv e'" if e': "map_of (queries (client_step c op)) k = Some e'" for k e'
  proof (cases "map_of (queries c) k")
    case None
    from client_step_new [OF ok None e'] show ?thesis
      by (auto intro: query_inv_effect query_inv_fetched query_inv_new)
  next
    case (Some e)
    then have e: "query_inv e" using assms by (simp add: client_inv_def)
    show ?thesis
    proof (cases "op = BeginFetch k")
      case True
      then show ?thesis using client_step_fetch [OF ok Some] e' e query_inv_fetched by auto
    next
      case False
      then show ?thesis using client_step_query [OF ok Some False] e' e query_inv_effect by auto
    qed
  qed
  have "mutation_inv e' \<and> trim i \<noteq> []" if "map_of (mutations (client_step c op)) i = Some e'" for i e'
    using client_step_mutation [OF ok that] assms by (auto simp: client_inv_def)
  with q show ?thesis using client_step_ok [OF ok] by (simp add: client_inv_def)
qed

lemma client_run_inv: "client_inv c \<Longrightarrow> client_inv (client_run ops c)"
  by (induction ops arbitrary: c) (simp_all add: client_step_inv)

lemma client_default_inv: "client_inv client_default"
  by (simp add: client_inv_def client_default_def client_ok_def)

section \<open>Generations\<close>

text \<open>How often a run fetches a key, or begins a mutation.\<close>

definition fetches :: "query_key \<Rightarrow> 'v client_op list \<Rightarrow> nat" where
  "fetches k ops = length (filter (\<lambda>op. op = BeginFetch k) ops)"

definition begins :: "str \<Rightarrow> 'v client_op list \<Rightarrow> nat" where
  "begins i ops = length (filter (\<lambda>op. op = BeginMutation i) ops)"

lemma query_effect_generation: "query_effect e e' \<Longrightarrow> fetch_generation e' = fetch_generation e"
  by (erule query_effect.cases) (simp_all add: invalidated_def)

lemma run_generation:
  assumes "client_ok c" and "map_of (queries c) k = Some e"
  shows "\<exists>e'. map_of (queries (client_run ops c)) k = Some e' \<and> fetch_generation e' = fetch_generation e + of_nat (fetches k ops)"
  using assms
proof (induction ops arbitrary: c e)
  case (Cons op ops)
  obtain e1 where e1: "map_of (queries (client_step c op)) k = Some e1"
      "fetch_generation e1 = fetch_generation e + (if op = BeginFetch k then 1 else 0)"
  proof (cases "op = BeginFetch k")
    case True
    then show ?thesis using that client_step_fetch [OF Cons.prems] by (simp add: fetched_def)
  next
    case False
    then show ?thesis using that client_step_query [OF Cons.prems False] query_effect_generation by auto
  qed
  then show ?case
    using Cons.IH [OF client_step_ok [OF Cons.prems(1)] e1(1)] by (auto simp: fetches_def)
qed (simp add: fetches_def)

lemma step_mutation_generation:
  assumes "client_ok c" and "map_of (mutations c) i = Some e" and "trim i \<noteq> []"
  shows "\<exists>e'. map_of (mutations (client_step c op)) i = Some e' \<and>
    m_generation e' = m_generation e + (if op = BeginMutation i then 1 else 0)"
proof (cases op)
  case (BeginMutation j)
  then show ?thesis using assms by (auto simp: client_step_begin client_lookup mutation_or_new_def begun_def simp del: client_step.simps)
qed (use assms in \<open>auto simp: client_lookup subscribe_eq begin_fetch_eq unsubscribe_def query_of_def
    complete_fetch_success_def complete_fetch_error_def complete_mutation_success_def entry_mutation_error_def
    complete_mutation_error_def Let_def split: option.splits prod.splits if_splits\<close>)

lemma run_mutation_generation:
  assumes "client_ok c" and "map_of (mutations c) i = Some e" and "trim i \<noteq> []"
  shows "\<exists>e'. map_of (mutations (client_run ops c)) i = Some e' \<and> m_generation e' = m_generation e + of_nat (begins i ops)"
  using assms(1,2)
proof (induction ops arbitrary: c e)
  case (Cons op ops)
  obtain e1 where e1: "map_of (mutations (client_step c op)) i = Some e1"
      "m_generation e1 = m_generation e + (if op = BeginMutation i then 1 else 0)"
    using step_mutation_generation [OF Cons.prems assms(3)] by blast
  then show ?case
    using Cons.IH [OF client_step_ok [OF Cons.prems(1)] e1(1)] by (auto simp: begins_def)
qed (simp add: begins_def)

lemma word_shift_zero: "(g :: u64) = g + of_nat n \<longleftrightarrow> 2 ^ 64 dvd n"
  by (simp add: word_of_nat_eq_0_iff)

end
