(* ===== verification/Resource_Properties.thy ===== *)
theory Resource_Properties
  imports Resource_Laws
begin

text \<open>The properties of \<open>crates/resource\<close>, with a sample client for the witnesses: one query that is being fetched.\<close>

definition members :: query_key where
  "members = QueryKey [KText (lit ''members'')]"

definition sample_client :: "nat resource_client" where
  "sample_client = snd (begin_fetch client_default members)"

lemma sample_client_ok: "client_ok sample_client" "client_inv sample_client"
proof -
  have run: "sample_client = client_run [BeginFetch members] client_default" by (simp add: sample_client_def)
  show "client_ok sample_client" unfolding run by (rule client_run_ok [OF client_default_ok])
  show "client_inv sample_client" unfolding run by (rule client_run_inv [OF client_default_inv])
qed

lemma sample_fetch: "begin_fetch client_default members = (Inr \<lparr>ft_key = members, ft_generation = 1\<rparr>, sample_client)"
  unfolding sample_client_def by (simp add: begin_fetch_eq entry_or_new_def client_default_def query_entry_new_def client_ok_def)

section \<open>Queries\<close>

text \<open>after any operations on a new client every query entry is consistent with its status (idle and loading have no data
  and no error, success has data and no error, error has an error and no data), and every mutation entry with its own.\<close>

theorem client_entries_consistent:
  assumes "map_of (queries (client_run ops client_default)) k = Some e"
  shows "finite (observers e) \<and> (q_status e \<in> {QIdle, QLoading} \<longrightarrow> q_data e = None \<and> q_error e = None) \<and>
    (q_status e = QSuccess \<longrightarrow> q_data e \<noteq> None \<and> q_error e = None) \<and>
    (q_status e = QError \<longrightarrow> q_data e = None \<and> q_error e \<noteq> None)"
proof -
  have "query_inv e"
    using client_run_inv [OF client_default_inv, of ops] assms by (simp add: client_inv_def)
  then show ?thesis by (auto simp: query_inv_def)
qed

theorem client_entries_consistent_witness:
  "let e = fetched query_entry_new in finite (observers (e :: nat query_entry)) \<and>
     (q_status e \<in> {QIdle, QLoading} \<longrightarrow> q_data e = None \<and> q_error e = None) \<and>
     (q_status e = QSuccess \<longrightarrow> q_data e \<noteq> None \<and> q_error e = None) \<and> (q_status e = QError \<longrightarrow> q_data e = None \<and> q_error e \<noteq> None)"
  unfolding Let_def
proof (rule client_entries_consistent [of "[BeginFetch members]" members])
  show "map_of (queries (client_run [BeginFetch members] client_default)) members = Some (fetched query_entry_new)"
    by (simp add: begin_fetch_eq client_lookup entry_or_new_def) (simp add: client_default_def)
qed

text \<open>C9: a fetch result is accepted exactly when no newer fetch of its key has begun, whatever else ran in between (up to the
  wrap-around of the 64-bit generation): after \<open>n\<close> further \<open>begin_fetch\<close> calls for the key, \<open>complete_fetch_success\<close>
  returns true if and only if \<open>2 ^ 64\<close> divides \<open>n\<close>, and a rejected result changes nothing.\<close>

theorem latest_fetch_wins:
  assumes "client_ok c" and "begin_fetch c k = (Inr t, c1)"
  shows "(fst (complete_fetch_success (client_run ops c1) t data) \<longleftrightarrow> 2 ^ 64 dvd fetches k ops) \<and>
    (\<not> fst (complete_fetch_success (client_run ops c1) t data) \<longrightarrow>
       map_of (queries (snd (complete_fetch_success (client_run ops c1) t data))) = map_of (queries (client_run ops c1)))"
proof -
  let ?e = "fetched (entry_or_new c k)"
  have t: "t = \<lparr>ft_key = k, ft_generation = fetch_generation (entry_or_new c k) + 1\<rparr>"
    and c1: "c1 = put_query (ensure_query c k) k ?e" using assms(2) begin_fetch_eq [OF assms(1), of k] by auto
  have "client_ok c1" "map_of (queries c1) k = Some ?e" using assms(1) c1 by (simp_all add: client_lookup)
  then obtain e' where e': "map_of (queries (client_run ops c1)) k = Some e'"
      "fetch_generation e' = fetch_generation ?e + of_nat (fetches k ops)"
    using run_generation by blast
  have "fetch_generation e' = ft_generation t \<longleftrightarrow> 2 ^ 64 dvd fetches k ops"
    using e'(2) word_shift_zero [of "ft_generation t" "fetches k ops"] unfolding t fetched_def by auto
  then show ?thesis
    using e'(1) t by (auto simp: complete_fetch_success_def entry_fetch_success_def client_lookup)
qed

theorem latest_fetch_wins_witness:
  "let c2 = client_run [BeginFetch members] sample_client; t = \<lparr>ft_key = members, ft_generation = 1\<rparr> in
   (fst (complete_fetch_success c2 t 5) \<longleftrightarrow> 2 ^ 64 dvd fetches members [BeginFetch members :: nat client_op]) \<and>
   (\<not> fst (complete_fetch_success c2 t 5) \<longrightarrow> map_of (queries (snd (complete_fetch_success c2 t 5))) = map_of (queries c2))"
  unfolding Let_def by (rule latest_fetch_wins [OF client_default_ok sample_fetch])

text \<open>Subscribing and unsubscribing pair up: while observer ids have not wrapped, a new handle is fresh, raises the
  observer count of the snapshot by one, can be released exactly once, and releasing it restores the set of observers.\<close>

theorem subscribe_unsubscribe:
  assumes "client_inv c" and "map_of (queries c) k = Some e" and "\<forall>i \<in> observers e. i \<le> next_observer_id e"
    and "next_observer_id e \<noteq> - 1" and "subscribe c k = (Inr h, c1)"
  shows "\<exists>n c2. resource_snapshot_of view c1 k policy = Inr n \<and> observer_count n = Suc (card (observers e)) \<and>
    unsubscribe c1 h = (Inr (), c2) \<and> map_option observers (map_of (queries c2) k) = Some (observers e) \<and>
    unsubscribe c2 h = (Inl UnknownObserver, c2)"
proof -
  let ?i = "next_observer_id e + 1"
  let ?e1 = "e\<lparr>next_observer_id := ?i, observers := insert ?i (observers e)\<rparr>"
  have ok: "client_ok c" and fin: "finite (observers e)" using assms(1,2) by (auto simp: client_inv_def query_inv_def)
  have h: "h = \<lparr>oh_key = k, oh_id = ?i\<rparr>" and c1: "c1 = put_query (ensure_query c k) k ?e1"
    using assms(2,5) subscribe_eq [OF ok, of k] by (simp_all add: entry_or_new_def Let_def)
  have "next_observer_id e < ?i" using assms(4) by (simp add: word_less_nat_alt unat_succ)
  then have fresh: "?i \<notin> observers e" using assms(3) by auto
  have lookup: "map_of (queries c1) k = Some ?e1" using ok assms(2) by (simp add: c1 client_lookup)
  have "unsubscribe c1 h = (Inr (), put_query c1 k (?e1\<lparr>observers := observers e\<rparr>))"
    using lookup fresh by (simp add: unsubscribe_def query_of_def h)
  moreover have "unsubscribe (put_query c1 k (?e1\<lparr>observers := observers e\<rparr>)) h = (Inl UnknownObserver, put_query c1 k (?e1\<lparr>observers := observers e\<rparr>))"
    using lookup fresh by (simp add: unsubscribe_def query_of_def client_lookup h)
  ultimately show ?thesis
    using lookup fresh fin by (simp add: resource_snapshot_of_def query_of_def client_lookup)
qed

theorem subscribe_unsubscribe_witness:
  "let (r, c1) = subscribe sample_client members in
   \<exists>n c2. resource_snapshot_of (\<lambda>_. JNumber) c1 members RedactAllResources = Inr n \<and> observer_count n = Suc (card ({} :: u64 set)) \<and>
     unsubscribe c1 \<lparr>oh_key = members, oh_id = 1\<rparr> = (Inr (), c2) \<and>
     map_option observers (map_of (queries c2) members) = Some {} \<and>
     unsubscribe c2 \<lparr>oh_key = members, oh_id = 1\<rparr> = (Inl UnknownObserver, c2)"
proof -
  let ?e = "fetched query_entry_new :: nat query_entry"
  have e: "map_of (queries sample_client) members = Some ?e"
    by (simp add: sample_client_def begin_fetch_eq client_lookup entry_or_new_def) (simp add: client_default_def)
  have f: "observers ?e = {}" "next_observer_id ?e = 0" by (simp_all add: fetched_def query_entry_new_def)
  have s: "subscribe sample_client members = (Inr \<lparr>oh_key = members, oh_id = 1\<rparr>, snd (subscribe sample_client members))"
    using e f by (simp add: subscribe_eq [OF sample_client_ok(1)] entry_or_new_def Let_def)
  show ?thesis
    using subscribe_unsubscribe [OF sample_client_ok(2) e _ _ s, of "\<lambda>_. JNumber" RedactAllResources]
    by (subst s) (simp add: f)
qed

section \<open>Mutations\<close>

text \<open>C39: a successful mutation is applied only for the latest ticket of its id (up to wrap-around), and then invalidates exactly
  the named queries that exist: each becomes refetching when observed and stale otherwise, with data, error and observers
  kept, and no other query changes.\<close>

theorem mutation_success_invalidates:
  assumes "client_ok c" and "begin_mutation c i = (Inr t, c1)" and "c2 = client_run ops c1"
  shows "(fst (complete_mutation_success c2 t data ks) \<longleftrightarrow> 2 ^ 64 dvd begins i ops) \<and>
    (fst (complete_mutation_success c2 t data ks) \<longrightarrow>
      (\<forall>k. map_of (queries (snd (complete_mutation_success c2 t data ks))) k =
        (if k \<in> set ks then map_option (\<lambda>e. e\<lparr>q_status := (if observers e \<noteq> {} then QRefetching else QStale)\<rparr>) (map_of (queries c2) k)
         else map_of (queries c2) k))) \<and>
    (\<not> fst (complete_mutation_success c2 t data ks) \<longrightarrow> snd (complete_mutation_success c2 t data ks) = c2)"
proof -
  have i: "trim i \<noteq> []" using assms(2) by (auto simp: begin_mutation_def)
  define e where "e = begun (mutation_or_new c i)"
  have c1: "c1 = put_mutation (ensure_mutation c i) i e" "t = \<lparr>mt_id = i, mt_generation = m_generation e\<rparr>"
    using assms(2) begin_mutation_eq [OF assms(1) i] by (simp_all add: e_def begun_def)
  have e: "map_of (mutations c1) i = Some e" "t = \<lparr>mt_id = i, mt_generation = m_generation e\<rparr>" and ok: "client_ok c1"
    using assms(1) c1 by (simp_all add: client_lookup)
  obtain e' where e': "map_of (mutations c2) i = Some e'" "m_generation e' = m_generation e + of_nat (begins i ops)"
    using run_mutation_generation [OF ok e(1) i] assms(3) by blast
  have "m_generation e' = mt_generation t \<longleftrightarrow> 2 ^ 64 dvd begins i ops"
    using e'(2) e(2) word_shift_zero [of "m_generation e" "begins i ops"] by auto
  then show ?thesis
    using e'(1) e(2) by (auto simp: complete_mutation_success_def Let_def client_lookup invalidated_def [abs_def])
qed

theorem mutation_success_invalidates_witness:
  "let t = \<lparr>mt_id = lit ''save'', mt_generation = 1\<rparr>; c2 = client_run [] (snd (begin_mutation sample_client (lit ''save''))) in
   (fst (complete_mutation_success c2 t None [members]) \<longleftrightarrow> 2 ^ 64 dvd begins (lit ''save'') ([] :: nat client_op list)) \<and>
    (fst (complete_mutation_success c2 t None [members]) \<longrightarrow>
      (\<forall>k. map_of (queries (snd (complete_mutation_success c2 t None [members]))) k =
        (if k \<in> set [members] then map_option (\<lambda>e. e\<lparr>q_status := (if observers e \<noteq> {} then QRefetching else QStale)\<rparr>) (map_of (queries c2) k)
         else map_of (queries c2) k))) \<and>
    (\<not> fst (complete_mutation_success c2 t None [members]) \<longrightarrow> snd (complete_mutation_success c2 t None [members]) = c2)"
proof -
  have none: "mutations sample_client = []" by (simp add: sample_client_def begin_fetch_eq client_lookup) (simp add: client_default_def)
  have "trim (lit ''save'') \<noteq> []" by (simp add: trim_eq_Nil lit_def is_whitespace_def of_char_def)
  then have t: "begin_mutation sample_client (lit ''save'') =
      (Inr \<lparr>mt_id = lit ''save'', mt_generation = 1\<rparr>, snd (begin_mutation sample_client (lit ''save'')))"
    by (simp add: begin_mutation_def none mutation_entry_new_def Let_def)
  show ?thesis
    unfolding Let_def by (rule mutation_success_invalidates [OF sample_client_ok(1) t refl])
qed

section \<open>Retry policy and redaction\<close>

text \<open>The retry policy stops after \<open>max_attempts\<close> attempts, its delays never decrease and never exceed
  \<open>Duration::MAX\<close>, and before saturation they grow linearly with the attempts completed.\<close>

theorem retry_delays_bounded:
  "(next_delay p n = None \<longleftrightarrow> max_attempts p \<le> n) \<and>
   (\<forall>d. next_delay p n = Some d \<longrightarrow> d \<le> DURATION_MAX \<and>
      (base_delay p * unat (max n 1) \<le> DURATION_MAX \<longrightarrow> d = base_delay p * unat (max n 1)) \<and>
      (\<forall>m d'. n \<le> m \<longrightarrow> next_delay p m = Some d' \<longrightarrow> d \<le> d'))"
proof -
  have "min (base_delay p * unat (max n 1)) DURATION_MAX \<le> min (base_delay p * unat (max m 1)) DURATION_MAX" if "n \<le> m" for m
  proof -
    have "max n 1 \<le> max m 1" by (rule max.mono [OF that order_refl])
    then have "unat (max n 1) \<le> unat (max m 1)" by (simp add: word_le_nat_alt)
    then show ?thesis by (meson min.mono mult_le_mono2 order_refl)
  qed
  then show ?thesis by (auto simp: next_delay_def should_retry_def duration_saturating_mul_def not_less)
qed

theorem retry_delays_bounded_witness:
  "next_delay \<lparr>max_attempts = 3, base_delay = 100\<rparr> 2 = Some 200"
proof -
  let ?p = "\<lparr>max_attempts = 3, base_delay = 100\<rparr> :: retry_policy"
  have "next_delay ?p 2 \<noteq> None" using retry_delays_bounded [of ?p 2] by simp
  then obtain d where d: "next_delay ?p 2 = Some d" by blast
  moreover have "base_delay ?p * unat (max 2 (1 :: u32)) \<le> DURATION_MAX" by (simp add: DURATION_MAX_def max_def)
  ultimately have "d = base_delay ?p * unat (max 2 (1 :: u32))" using retry_delays_bounded [of ?p 2] by blast
  moreover have "\<not> (2 :: u32) \<le> 1" by (simp add: word_le_nat_alt)
  ultimately show ?thesis using d by (simp add: max_def)
qed

lemma redact_all_apply: "resource_apply view RedactAllResources = (\<lambda>_. RedactedResource)"
  by (simp add: fun_eq_iff)

text \<open>Under \<open>RedactAll\<close> the snapshots of queries, mutations and paginated resources carry no payload: replacing all data of
  the client, with everything else kept, gives the same snapshots.\<close>

theorem redacted_client_hides_data:
  "let c' = c\<lparr>queries := bt_map_values (\<lambda>e. e\<lparr>q_data := map_option new (q_data e)\<rparr>) (queries c),
              mutations := bt_map_values (\<lambda>e. e\<lparr>m_data := map_option new (m_data e)\<rparr>) (mutations c)\<rparr> in
   resource_snapshot_of view c' k RedactAllResources = resource_snapshot_of view c k RedactAllResources \<and>
   mutation_snapshot_of view c' i RedactAllResources = mutation_snapshot_of view c i RedactAllResources \<and>
   paginated_snapshot view RedactAllResources (r\<lparr>pr_pages := map (\<lambda>page. page\<lparr>page_items := map new (page_items page)\<rparr>) (pr_pages r)\<rparr>) =
     paginated_snapshot view RedactAllResources r"
  by (auto simp: resource_snapshot_of_def mutation_snapshot_of_def paginated_snapshot_def query_of_def bt_simps
      option.map_comp comp_def Let_def redact_all_apply split: option.split)

section \<open>Where statuses and documentation part\<close>

text \<open>Invalidating a query that was never fetched reports it as stale, or refetching, although it has no data and no fetch runs.\<close>

lemma invalidate_without_data:
  "let c = snd (invalidate (ensure_query client_default members) members) in
   map_option (\<lambda>e. (q_status e, q_data e, fetch_attempts e)) (map_of (queries c) members) = Some (QStale, None :: nat option, 0)"
  by (simp add: client_lookup invalidated_def query_entry_new_def Let_def) (simp add: client_default_def query_entry_new_def)

text \<open>The attempt counter counts every fetch of the key, not the attempts of the current generation.\<close>

lemma attempts_never_reset:
  "let c = client_run [BeginFetch members, FetchSuccess \<lparr>ft_key = members, ft_generation = 1\<rparr> (5 :: nat), BeginFetch members] client_default in
   map_option (\<lambda>e. (fetch_generation e, fetch_attempts e)) (map_of (queries c) members) = Some (2, 2)"
  by (simp add: Let_def begin_fetch_def complete_fetch_success_def entry_fetch_success_def query_of_def ensure_query_def client_default_def
      query_entry_new_def put_query_def bt_insert_def bt_modify_def members_def)

end
