(* ===== verification/Sequences.thy ===== *)
theory Sequences
  imports Prelude "HOL-Library.Product_Lexorder"
begin

text \<open>
  What the components use of Rust's slices and iterators: the first position of an element, \<open>enumerate\<close>, the stable
  \<open>sort_by\<close> with a comparison closure, and the elements without their later repetitions.
\<close>

section \<open>Position\<close>

text \<open>\<open>iter().position(...)\<close>.\<close>

fun position :: "('a \<Rightarrow> bool) \<Rightarrow> 'a list \<Rightarrow> nat option" where
  "position P [] = None"
| "position P (x # xs) = (if P x then Some 0 else map_option Suc (position P xs))"

lemma position_None: "position P xs = None \<longleftrightarrow> (\<forall>x \<in> set xs. \<not> P x)"
  by (induction xs) auto

lemma position_Some: "position P xs = Some i \<Longrightarrow> i < length xs \<and> P (xs ! i)"
  by (induction xs arbitrary: i) (auto split: if_splits)

lemma position_split: "position P xs = Some i \<Longrightarrow> \<exists>ys x zs. xs = ys @ x # zs \<and> length ys = i \<and> P x \<and> (\<forall>y \<in> set ys. \<not> P y)"
proof (induction xs arbitrary: i)
  case (Cons x xs)
  show ?case
  proof (cases "P x")
    case True
    with Cons.prems show ?thesis by (intro exI [of _ "[]"] exI [of _ x] exI [of _ xs]) simp
  next
    case False
    with Cons.prems obtain j where j: "position P xs = Some j" "i = Suc j" by auto
    from Cons.IH [OF j(1)] obtain ys y zs where "xs = ys @ y # zs" "length ys = j" "P y" "\<forall>z \<in> set ys. \<not> P z" by blast
    with False j(2) show ?thesis by (intro exI [of _ "x # ys"] exI [of _ y] exI [of _ zs]) simp
  qed
qed simp

text \<open>In a list without repetitions an element is found at its index.\<close>

lemma position_nth:
  assumes "distinct xs" and "i < length xs"
  shows "position (\<lambda>y. y = xs ! i) xs = Some i"
proof (cases "position (\<lambda>y. y = xs ! i) xs")
  case None
  with assms(2) show ?thesis by (auto simp: position_None)
next
  case (Some j)
  with position_Some [OF Some] assms show ?thesis by (auto simp: nth_eq_iff_index_eq)
qed

section \<open>Stable sorting\<close>

text \<open>\<open>slice::sort_by\<close> is stable: elements that compare equal keep their order.\<close>

fun insert_by :: "('a \<Rightarrow> 'a \<Rightarrow> ordering) \<Rightarrow> 'a \<Rightarrow> 'a list \<Rightarrow> 'a list" where
  "insert_by cmp x [] = [x]"
| "insert_by cmp x (y # ys) = (if cmp x y = Greater then y # insert_by cmp x ys else x # y # ys)"

definition sort_by :: "('a \<Rightarrow> 'a \<Rightarrow> ordering) \<Rightarrow> 'a list \<Rightarrow> 'a list" where
  "sort_by cmp xs = foldr (insert_by cmp) xs []"

text \<open>\<open>Ordering::then_with\<close>.\<close>

definition then_with :: "ordering \<Rightarrow> ordering \<Rightarrow> ordering" where
  "then_with a b = (if a = Equal then b else a)"

lemma then_with_cmp: "then_with (cmp_of a b) (cmp_of c d) = cmp_of (a, c) (b, d)"
  by (auto simp: then_with_def cmp_of_def)

text \<open>A comparison of keys sorts as the library's stable sort by that key.\<close>

lemma sort_by_key_on:
  assumes cmp: "\<And>x y. x \<in> set xs \<Longrightarrow> y \<in> set xs \<Longrightarrow> cmp x y = cmp_of (f x) (f y)"
  shows "sort_by cmp xs = sort_key f xs"
proof -
  have ins: "insert_by cmp x ys = insort_key f x ys" if "x \<in> set xs" "set ys \<subseteq> set xs" for x ys
    using that(2) by (induction ys) (auto simp: cmp that(1))
  have "foldr (insert_by cmp) ys [] = foldr (insort_key f) ys []" if "set ys \<subseteq> set xs" for ys
    using that
  proof (induction ys)
    case (Cons y ys)
    have "set (foldr (insort_key f) ys []) = set ys" using set_sort [of f ys] by (simp add: sort_key_def)
    with Cons show ?case by (simp add: ins)
  qed simp
  from this [of xs] show ?thesis by (simp add: sort_by_def sort_key_def)
qed

lemma sort_by_key: "(\<And>x y. cmp x y = cmp_of (f x) (f y)) \<Longrightarrow> sort_by cmp xs = sort_key f xs"
  by (rule sort_by_key_on)

text \<open>A decreasing sort is an increasing one by the distance to an upper bound.\<close>

lemma cmp_of_descending:
  fixes a b :: nat
  assumes "a \<le> m" and "b \<le> m"
  shows "cmp_of b a = cmp_of (m - a) (m - b)"
  using assms by (auto simp: cmp_of_def)

text \<open>Breaking ties by the index is what a stable sort does anyway.\<close>

lemma set_enumerate_ge: "e \<in> set (List.enumerate n xs) \<Longrightarrow> n \<le> fst e"
  by (auto simp: in_set_enumerate_eq)

lemma insort_enumerated:
  assumes "\<forall>e \<in> set es. n < fst e"
  shows "map snd (insort_key (\<lambda>(i, x). (f x, i)) (n, x) es) = insort_key f x (map snd es)"
  using assms by (induction es) (auto simp: less_eq_prod_def)

lemma sort_enumerated: "map snd (sort_key (\<lambda>(i, x). (f x, i)) (List.enumerate n xs)) = sort_key f xs"
proof (induction xs arbitrary: n)
  case (Cons x xs)
  have "\<forall>e \<in> set (sort_key (\<lambda>(i, x). (f x, i)) (List.enumerate (Suc n) xs)). n < fst e"
    using set_enumerate_ge [of _ "Suc n" xs] by fastforce
  from insort_enumerated [OF this] Cons.IH [of "Suc n"] show ?case by simp
qed simp

section \<open>First occurrences\<close>

text \<open>The elements of a list in the order of their first occurrence.\<close>

fun firsts :: "'a list \<Rightarrow> 'a list" where
  "firsts [] = []"
| "firsts (x # xs) = x # filter (\<lambda>y. y \<noteq> x) (firsts xs)"

lemma set_firsts [simp]: "set (firsts xs) = set xs"
  by (induction xs) auto

lemma distinct_firsts [simp]: "distinct (firsts xs)"
  by (induction xs) auto

lemma filter_firsts: "filter P (firsts xs) = firsts (filter P xs)"
proof (induction xs)
  case (Cons x xs)
  have "filter P (filter (\<lambda>y. y \<noteq> x) (firsts xs)) = filter (\<lambda>y. y \<noteq> x) (filter P (firsts xs))"
    by (simp add: conj_commute)
  moreover have "filter (\<lambda>y. y \<noteq> x) (filter P (firsts xs)) = filter P (firsts xs)" if "\<not> P x"
    using that by (auto intro: filter_cong)
  ultimately show ?case using Cons.IH by auto
qed simp

lemma firsts_snoc: "firsts (xs @ [x]) = (if x \<in> set xs then firsts xs else firsts xs @ [x])"
  by (induction xs) auto

lemma firsts_distinct: "distinct xs \<Longrightarrow> firsts xs = xs"
  by (induction xs) (auto intro!: filter_True)

end
