(* ===== verification/Vec_Map.thy ===== *)
theory Vec_Map
  imports Map_Contract Sequences
begin

text \<open>
  \<open>VecMap\<close> (\<open>crates/collections/src/vecmap.rs\<close>): a map as two vectors. An entry borrows the map, so it is modelled as
  what it knows of it: the index of an occupied entry, the key of a vacant one; the returned \<open>&mut V\<close> is the index of the
  value it points to.
\<close>

section \<open>Operations\<close>

record ('k, 'v) vec_map =
  vm_keys :: "'k list"
  vm_values :: "'v list"

definition vm_new :: "('k, 'v) vec_map" where
  "vm_new = \<lparr>vm_keys = [], vm_values = []\<rparr>"

text \<open>\<open>Iter\<close> is \<open>zip\<close> of the two slice iterators: the state is the two rests.\<close>

record ('k, 'v) vm_iter =
  rest_keys :: "'k list"
  rest_values :: "'v list"

definition vm_iter_of :: "('k, 'v) vec_map \<Rightarrow> ('k, 'v) vm_iter" where
  "vm_iter_of m = \<lparr>rest_keys = vm_keys m, rest_values = vm_values m\<rparr>"

definition vm_next :: "('k, 'v) vm_iter \<Rightarrow> ('k \<times> 'v) option \<times> ('k, 'v) vm_iter" where
  "vm_next it =
     (case (rest_keys it, rest_values it) of
        (k # ks, v # vs) \<Rightarrow> (Some (k, v), \<lparr>rest_keys = ks, rest_values = vs\<rparr>)
      | _ \<Rightarrow> (None, it))"

datatype 'k vm_entry = Occupied nat | Vacant 'k

text \<open>\<open>&self.keys[index]\<close> and \<open>&mut self.values[index]\<close> panic out of bounds.\<close>

definition vm_entry_of :: "('k, 'v) vec_map \<Rightarrow> 'k \<Rightarrow> 'k vm_entry panics" where
  "vm_entry_of m key =
     (case position (\<lambda>k. k = key) (vm_keys m) of
        Some index \<Rightarrow> if index < length (vm_keys m) \<and> index < length (vm_values m) then Some (Occupied index) else None
      | None \<Rightarrow> Some (Vacant key))"

definition entry_ref :: "('k, 'v) vec_map \<Rightarrow> 'k \<Rightarrow> 'k vm_entry panics" where
  "entry_ref m key =
     (case position (\<lambda>k. k = key) (vm_keys m) of
        Some index \<Rightarrow> if index < length (vm_keys m) \<and> index < length (vm_values m) then Some (Occupied index) else None
      | None \<Rightarrow> Some (Vacant key))"

fun vm_entry_key :: "('k, 'v) vec_map \<Rightarrow> 'k vm_entry \<Rightarrow> 'k" where
  "vm_entry_key m (Occupied i) = vm_keys m ! i"
| "vm_entry_key m (Vacant k) = k"

text \<open>The slot of the value and the map; \<open>unreachable!\<close> is a panic.\<close>

fun or_insert_with_key :: "('k, 'v) vec_map \<Rightarrow> 'k vm_entry \<Rightarrow> ('k \<Rightarrow> 'v) \<Rightarrow> (nat \<times> ('k, 'v) vec_map) panics" where
  "or_insert_with_key m (Occupied i) init = Some (i, m)"
| "or_insert_with_key m (Vacant key) init =
     (let m1 = m\<lparr>vm_values := vm_values m @ [init key]\<rparr>;
          m2 = m1\<lparr>vm_keys := vm_keys m1 @ [key]\<rparr> in
      if vm_values m2 = [] then None else Some (length (vm_values m2) - 1, m2))"

definition or_insert_with :: "('k, 'v) vec_map \<Rightarrow> 'k vm_entry \<Rightarrow> (unit \<Rightarrow> 'v) \<Rightarrow> (nat \<times> ('k, 'v) vec_map) panics" where
  "or_insert_with m e init = or_insert_with_key m e (\<lambda>_. init ())"

definition or_insert :: "('k, 'v) vec_map \<Rightarrow> 'k vm_entry \<Rightarrow> 'v \<Rightarrow> (nat \<times> ('k, 'v) vec_map) panics" where
  "or_insert m e v = or_insert_with_key m e (\<lambda>_. v)"

definition or_insert_default :: "'v \<Rightarrow> ('k, 'v) vec_map \<Rightarrow> 'k vm_entry \<Rightarrow> (nat \<times> ('k, 'v) vec_map) panics" where
  "or_insert_default default_value m e = or_insert_with_key m e (\<lambda>_. default_value)"

text \<open>The same operations of \<open>EntryRef\<close>, which clones its key when it inserts it.\<close>

fun ref_or_insert_with_key :: "('k \<Rightarrow> 'k) \<Rightarrow> ('k, 'v) vec_map \<Rightarrow> 'k vm_entry \<Rightarrow> ('k \<Rightarrow> 'v) \<Rightarrow> (nat \<times> ('k, 'v) vec_map) panics" where
  "ref_or_insert_with_key clone m (Occupied i) init = Some (i, m)"
| "ref_or_insert_with_key clone m (Vacant key) init =
     (let m1 = m\<lparr>vm_values := vm_values m @ [init key]\<rparr>;
          m2 = m1\<lparr>vm_keys := vm_keys m1 @ [clone key]\<rparr> in
      if vm_values m2 = [] then None else Some (length (vm_values m2) - 1, m2))"

definition ref_or_insert_with :: "('k \<Rightarrow> 'k) \<Rightarrow> ('k, 'v) vec_map \<Rightarrow> 'k vm_entry \<Rightarrow> (unit \<Rightarrow> 'v) \<Rightarrow> (nat \<times> ('k, 'v) vec_map) panics" where
  "ref_or_insert_with clone m e init = ref_or_insert_with_key clone m e (\<lambda>_. init ())"

definition ref_or_insert :: "('k \<Rightarrow> 'k) \<Rightarrow> ('k, 'v) vec_map \<Rightarrow> 'k vm_entry \<Rightarrow> 'v \<Rightarrow> (nat \<times> ('k, 'v) vec_map) panics" where
  "ref_or_insert clone m e v = ref_or_insert_with_key clone m e (\<lambda>_. v)"

definition ref_or_insert_default :: "'v \<Rightarrow> ('k \<Rightarrow> 'k) \<Rightarrow> ('k, 'v) vec_map \<Rightarrow> 'k vm_entry \<Rightarrow> (nat \<times> ('k, 'v) vec_map) panics" where
  "ref_or_insert_default default_value clone m e = ref_or_insert_with_key clone m e (\<lambda>_. default_value)"

text \<open>A client's use of the reference: read the slot, or write it.\<close>

definition vm_write :: "('k, 'v) vec_map \<Rightarrow> nat \<Rightarrow> 'v \<Rightarrow> ('k, 'v) vec_map" where
  "vm_write m i v = m\<lparr>vm_values := (vm_values m)[i := v]\<rparr>"

definition vm_get :: "('k, 'v) vec_map \<Rightarrow> 'k \<Rightarrow> 'v option" where
  "vm_get m k = (case vm_entry_of m k of Some (Occupied i) \<Rightarrow> Some (vm_values m ! i) | _ \<Rightarrow> None)"

definition vm_insert :: "('k, 'v) vec_map \<Rightarrow> 'k \<Rightarrow> 'v \<Rightarrow> ('k, 'v) vec_map panics" where
  "vm_insert m k v = do { e \<leftarrow> vm_entry_of m k; (i, m') \<leftarrow> or_insert m e v; Some (vm_write m' i v) }"

section \<open>Laws\<close>

definition vm_inv :: "('k, 'v) vec_map \<Rightarrow> bool" where
  "vm_inv m \<longleftrightarrow> length (vm_keys m) = length (vm_values m) \<and> distinct (vm_keys m)"

definition vm_list :: "('k, 'v) vec_map \<Rightarrow> ('k \<times> 'v) list" where
  "vm_list m = zip (vm_keys m) (vm_values m)"

definition vm_abs :: "('k, 'v) vec_map \<Rightarrow> 'k \<rightharpoonup> 'v" where
  "vm_abs m = map_of (vm_list m)"

lemma vm_lookup: "vm_inv m \<Longrightarrow> i < length (vm_keys m) \<Longrightarrow> vm_abs m (vm_keys m ! i) = Some (vm_values m ! i)"
  unfolding vm_inv_def vm_abs_def vm_list_def by (intro map_of_zip_nth) auto

lemma vm_absent: "vm_inv m \<Longrightarrow> k \<notin> set (vm_keys m) \<Longrightarrow> vm_abs m k = None"
  by (simp add: vm_inv_def vm_abs_def vm_list_def map_of_zip_is_None)

lemma vm_entry_cases:
  assumes "vm_inv m"
  obtains (occupied) i where "vm_entry_of m k = Some (Occupied i)" "i < length (vm_keys m)" "vm_keys m ! i = k" "k \<in> dom (vm_abs m)"
  | (vacant) "vm_entry_of m k = Some (Vacant k)" "k \<notin> set (vm_keys m)" "k \<notin> dom (vm_abs m)"
proof (cases "position (\<lambda>x. x = k) (vm_keys m)")
  case None
  then have "k \<notin> set (vm_keys m)" by (auto simp: position_None)
  then show ?thesis using None vm_absent [OF assms] by (intro vacant) (auto simp: vm_entry_of_def dom_def)
next
  case (Some i)
  then have i: "i < length (vm_keys m)" "vm_keys m ! i = k" using position_Some by fast+
  then show ?thesis
    using Some assms vm_lookup [OF assms i(1)] by (intro occupied [of i]) (auto simp: vm_entry_of_def vm_inv_def)
qed

lemma vm_push:
  assumes "vm_inv m" and "k \<notin> set (vm_keys m)"
  shows "vm_inv \<lparr>vm_keys = vm_keys m @ [k], vm_values = vm_values m @ [v]\<rparr>"
    and "vm_list \<lparr>vm_keys = vm_keys m @ [k], vm_values = vm_values m @ [v]\<rparr> = vm_list m @ [(k, v)]"
    and "vm_abs \<lparr>vm_keys = vm_keys m @ [k], vm_values = vm_values m @ [v]\<rparr> = (vm_abs m)(k \<mapsto> v)"
proof -
  show "vm_inv \<lparr>vm_keys = vm_keys m @ [k], vm_values = vm_values m @ [v]\<rparr>" using assms by (simp add: vm_inv_def)
  show l: "vm_list \<lparr>vm_keys = vm_keys m @ [k], vm_values = vm_values m @ [v]\<rparr> = vm_list m @ [(k, v)]"
    using assms by (simp add: vm_inv_def vm_list_def)
  have "map_of (vm_list m) k = None" using vm_absent [OF assms] by (simp add: vm_abs_def)
  then show "vm_abs \<lparr>vm_keys = vm_keys m @ [k], vm_values = vm_values m @ [v]\<rparr> = (vm_abs m)(k \<mapsto> v)"
    unfolding vm_abs_def l by (auto simp: map_add_def fun_eq_iff split: option.splits)
qed

text \<open>\<open>entry(k).or_insert_with_key(f)\<close>: the slot of \<open>k\<close>, in a map that gained \<open>k\<close> at the end if it was missing.\<close>

lemma or_insert_ok:
  assumes "vm_inv m"
  shows "no_panic (do { e \<leftarrow> vm_entry_of m k; or_insert_with_key m e f }) (\<lambda>(i, m').
    vm_inv m' \<and> i < length (vm_keys m') \<and> vm_keys m' ! i = k \<and>
    vm_list m' = (if k \<in> dom (vm_abs m) then vm_list m else vm_list m @ [(k, f k)]) \<and>
    vm_abs m' = (if k \<in> dom (vm_abs m) then vm_abs m else (vm_abs m)(k \<mapsto> f k)))"
proof (rule vm_entry_cases [OF assms, of k], goal_cases)
  case occupied: (1 i)
  then show ?thesis using assms by simp
next
  case vacant: 2
  let ?m = "\<lparr>vm_keys = vm_keys m @ [k], vm_values = vm_values m @ [f k]\<rparr>"
  have len: "length (vm_values m) = length (vm_keys m)" using assms by (simp add: vm_inv_def)
  have eq: "?m = m\<lparr>vm_values := vm_values m @ [f k], vm_keys := vm_keys m @ [k]\<rparr>" by simp
  then show ?thesis
    using vacant vm_push [OF assms vacant(2), of "f k", unfolded eq] len by simp
qed

lemma vm_write_ok:
  assumes "vm_inv m" and "i < length (vm_keys m)"
  shows "vm_inv (vm_write m i v) \<and> vm_abs (vm_write m i v) = (vm_abs m)(vm_keys m ! i \<mapsto> v)"
proof -
  have i: "i < length (vm_values m)" and d: "distinct (vm_keys m)" using assms by (simp_all add: vm_inv_def)
  have inv: "vm_inv (vm_write m i v)" using assms by (simp add: vm_inv_def vm_write_def)
  moreover have "vm_abs (vm_write m i v) k = ((vm_abs m)(vm_keys m ! i \<mapsto> v)) k" for k
  proof (cases "k \<in> set (vm_keys m)")
    case True
    then obtain j where j: "j < length (vm_keys m)" "k = vm_keys m ! j" by (auto simp: in_set_conv_nth)
    then have "vm_abs (vm_write m i v) k = Some ((vm_values m)[i := v] ! j)"
      using vm_lookup [OF inv, of j] by (simp add: vm_write_def)
    then show ?thesis
      using j i d vm_lookup [OF assms(1) j(1)] assms(2) by (auto simp: nth_list_update nth_eq_iff_index_eq)
  next
    case False
    then have "k \<noteq> vm_keys m ! i" using assms(2) by auto
    moreover have "vm_abs (vm_write m i v) k = None" using False vm_absent [OF inv] by (simp add: vm_write_def)
    ultimately show ?thesis using vm_absent [OF assms(1) False] by simp
  qed
  ultimately show ?thesis by blast
qed

lemma vm_get_ok: "vm_inv m \<Longrightarrow> vm_get m k = vm_abs m k"
  by (rule vm_entry_cases [of m k]) (auto simp: vm_get_def dom_def vm_lookup)

lemma vm_insert_ok: "vm_inv m \<Longrightarrow> no_panic (vm_insert m k v) (\<lambda>m'. vm_inv m' \<and> vm_abs m' = (vm_abs m)(k \<mapsto> v))"
  unfolding vm_insert_def or_insert_def using or_insert_ok [of m k "\<lambda>_. v"] vm_write_ok
  by (fastforce simp: no_panic_def bind_eq_Some_conv split: if_splits)

interpretation vm: growing_map vm_inv vm_abs vm_get vm_insert "\<lambda>_. True"
  by unfold_locales (simp_all add: vm_get_ok vm_insert_ok)

lemma vm_new_inv: "vm_inv vm_new" "vm_abs vm_new = Map.empty"
  by (simp_all add: vm_inv_def vm_new_def vm_abs_def vm_list_def)

lemma vm_next_simps:
  "vm_next \<lparr>rest_keys = k # ks, rest_values = v # vs\<rparr> = (Some (k, v), \<lparr>rest_keys = ks, rest_values = vs\<rparr>)"
  "vm_next \<lparr>rest_keys = [], rest_values = vs\<rparr> = (None, \<lparr>rest_keys = [], rest_values = vs\<rparr>)"
  "vm_next \<lparr>rest_keys = ks, rest_values = []\<rparr> = (None, \<lparr>rest_keys = ks, rest_values = []\<rparr>)"
  by (simp_all add: vm_next_def split: list.split)

lemma vm_iter_drain: "drain (\<lambda>it. Some (vm_next it)) \<lparr>rest_keys = ks, rest_values = vs\<rparr> = Some (zip ks vs)"
proof (induction ks arbitrary: vs)
  case Nil
  then show ?case by (subst drain.simps) (simp add: vm_next_simps)
next
  case (Cons k ks)
  show ?case by (cases vs; subst drain.simps) (simp_all add: vm_next_simps Cons.IH)
qed

lemma entry_ref_eq: "entry_ref m k = vm_entry_of m k"
  by (simp add: entry_ref_def vm_entry_of_def)

lemma ref_or_insert_eq: "(\<And>k. clone k = k) \<Longrightarrow> ref_or_insert_with_key clone m e f = or_insert_with_key m e f"
  by (cases e) simp_all

section \<open>Property\<close>

text \<open>On every map built through the public interface \<open>entry(k).or_insert_with_key(f)\<close> never panics, returns the slot of
  \<open>k\<close>, keeps every existing binding, calls \<open>f\<close> only for a missing key, and adds it at the end, so that iteration yields the
  entries in insertion order.\<close>

theorem vec_map_entry_inserts:
  assumes "vm_inv m"
  shows "no_panic (do { e \<leftarrow> vm_entry_of m k; or_insert_with_key m e f }) (\<lambda>(i, m').
    vm_inv m' \<and> vm_keys m' ! i = k \<and> vm_abs m' = (if k \<in> dom (vm_abs m) then vm_abs m else (vm_abs m)(k \<mapsto> f k)) \<and>
    drain (\<lambda>it. Some (vm_next it)) (vm_iter_of m') = Some (if k \<in> dom (vm_abs m) then vm_list m else vm_list m @ [(k, f k)]))"
  by (rule no_panic_mono [OF or_insert_ok [OF assms]]) (auto simp: vm_iter_of_def vm_iter_drain vm_list_def split: if_splits)

theorem vec_map_entry_inserts_witness:
  "let m = \<lparr>vm_keys = [3, 1], vm_values = [30, 10]\<rparr> :: (nat, nat) vec_map in
   no_panic (do { e \<leftarrow> vm_entry_of m 2; or_insert_with_key m e (\<lambda>k. 10 * k) }) (\<lambda>(i, m').
    vm_inv m' \<and> vm_keys m' ! i = 2 \<and> vm_abs m' = (if 2 \<in> dom (vm_abs m) then vm_abs m else (vm_abs m)(2 \<mapsto> 10 * 2)) \<and>
    drain (\<lambda>it. Some (vm_next it)) (vm_iter_of m') = Some (if 2 \<in> dom (vm_abs m) then vm_list m else vm_list m @ [(2, 10 * 2)]))"
  unfolding Let_def by (rule vec_map_entry_inserts) (simp add: vm_inv_def)

end
