(* ===== verification/Command_Registry.thy ===== *)
theory Command_Registry
  imports Text BTree_Map Sequences
begin

text \<open>
  Command metadata, registries and scopes (\<open>crates/open-gpui-command/src/registry.rs\<close>, \<open>scope.rs\<close>,
  \<open>context.rs\<close>). The newtypes over \<open>String\<close> (source, scope and provider ids) are strings; a \<open>BTreeSet\<close> is a
  set, the \<open>BTreeMap\<close> of scopes the sorted list of its entries. The builders take the value and return it changed.
\<close>

section \<open>Descriptors\<close>

type_synonym source_id = str
type_synonym scope_id = str

record icon_descriptor =
  icon_name :: str
  icon_fallback :: "str option"

definition icon_new :: "str \<Rightarrow> icon_descriptor" where
  "icon_new name = \<lparr>icon_name = name, icon_fallback = None\<rparr>"

definition icon_fallback_label :: "icon_descriptor \<Rightarrow> str \<Rightarrow> icon_descriptor" where
  "icon_fallback_label d fallback = (if fallback \<noteq> [] then d\<lparr>icon_fallback := Some fallback\<rparr> else d)"

definition icon_is_empty :: "icon_descriptor \<Rightarrow> bool" where
  "icon_is_empty d \<longleftrightarrow> icon_name d = []"

record command_descriptor =
  cd_id :: str
  cd_label :: str
  cd_icon :: "icon_descriptor option"
  cd_group :: "str option"
  cd_keywords :: "str list"
  cd_shortcut :: "str option"
  cd_disabled :: bool
  cd_disabled_reason :: "str option"
  cd_tooltip :: "str option"
  cd_accessibility :: "str option"
  cd_when :: "str option"
  cd_menu_path :: "str list"

definition descriptor_new :: "str \<Rightarrow> str \<Rightarrow> command_descriptor" where
  "descriptor_new i label =
     \<lparr>cd_id = i, cd_label = label, cd_icon = None, cd_group = None, cd_keywords = [], cd_shortcut = None,
      cd_disabled = False, cd_disabled_reason = None, cd_tooltip = None, cd_accessibility = None, cd_when = None,
      cd_menu_path = []\<rparr>"

definition with_icon :: "command_descriptor \<Rightarrow> icon_descriptor \<Rightarrow> command_descriptor" where
  "with_icon d icon = (if \<not> icon_is_empty icon then d\<lparr>cd_icon := Some icon\<rparr> else d)"

definition with_group :: "command_descriptor \<Rightarrow> str \<Rightarrow> command_descriptor" where
  "with_group d g = d\<lparr>cd_group := Some g\<rparr>"

definition with_keyword :: "command_descriptor \<Rightarrow> str \<Rightarrow> command_descriptor" where
  "with_keyword d k = d\<lparr>cd_keywords := cd_keywords d @ [k]\<rparr>"

definition with_keywords :: "command_descriptor \<Rightarrow> str list \<Rightarrow> command_descriptor" where
  "with_keywords d ks = d\<lparr>cd_keywords := cd_keywords d @ ks\<rparr>"

definition with_shortcut :: "command_descriptor \<Rightarrow> str \<Rightarrow> command_descriptor" where
  "with_shortcut d s = d\<lparr>cd_shortcut := Some s\<rparr>"

definition with_disabled :: "command_descriptor \<Rightarrow> bool \<Rightarrow> command_descriptor" where
  "with_disabled d b = d\<lparr>cd_disabled := b\<rparr>"

definition with_disabled_reason :: "command_descriptor \<Rightarrow> str \<Rightarrow> command_descriptor" where
  "with_disabled_reason d r = (if r \<noteq> [] then d\<lparr>cd_disabled := True, cd_disabled_reason := Some r\<rparr> else d)"

definition with_tooltip :: "command_descriptor \<Rightarrow> str \<Rightarrow> command_descriptor" where
  "with_tooltip d t = (if t \<noteq> [] then d\<lparr>cd_tooltip := Some t\<rparr> else d)"

definition with_accessibility_description :: "command_descriptor \<Rightarrow> str \<Rightarrow> command_descriptor" where
  "with_accessibility_description d a = (if a \<noteq> [] then d\<lparr>cd_accessibility := Some a\<rparr> else d)"

definition with_when :: "command_descriptor \<Rightarrow> str \<Rightarrow> command_descriptor" where
  "with_when d w = d\<lparr>cd_when := Some w\<rparr>"

definition with_menu_path :: "command_descriptor \<Rightarrow> str list \<Rightarrow> command_descriptor" where
  "with_menu_path d segments = d\<lparr>cd_menu_path := filter (\<lambda>s. s \<noteq> []) segments\<rparr>"

text \<open>\<open>Option::filter\<close>.\<close>

definition opt_filter :: "('a \<Rightarrow> bool) \<Rightarrow> 'a option \<Rightarrow> 'a option" where
  "opt_filter P x = (case x of Some a \<Rightarrow> if P a then Some a else None | None \<Rightarrow> None)"

definition with_projected_disabled :: "command_descriptor \<Rightarrow> str option \<Rightarrow> command_descriptor" where
  "with_projected_disabled d r = d\<lparr>cd_disabled := True, cd_disabled_reason := opt_filter (\<lambda>s. s \<noteq> []) r\<rparr>"

section \<open>Contributions and snapshots\<close>

record command_contribution =
  cc_descriptor :: command_descriptor
  cc_source :: "source_id option"

abbreviation cc_id :: "command_contribution \<Rightarrow> str" where
  "cc_id c \<equiv> cd_id (cc_descriptor c)"

definition contribution_new :: "command_descriptor \<Rightarrow> command_contribution" where
  "contribution_new d = \<lparr>cc_descriptor = d, cc_source = None\<rparr>"

definition contribution_source :: "command_contribution \<Rightarrow> source_id \<Rightarrow> command_contribution" where
  "contribution_source c s = (if s \<noteq> [] then c\<lparr>cc_source := Some s\<rparr> else c)"

definition with_descriptor :: "command_contribution \<Rightarrow> command_descriptor \<Rightarrow> command_contribution" where
  "with_descriptor c d = \<lparr>cc_descriptor = d, cc_source = cc_source c\<rparr>"

record registry_snapshot =
  rs_revision :: str
  rs_contributions :: "command_contribution list"

definition snapshot_new :: "str \<Rightarrow> command_contribution list \<Rightarrow> registry_snapshot" where
  "snapshot_new revision cs = \<lparr>rs_revision = revision, rs_contributions = cs\<rparr>"

definition snapshot_descriptors :: "registry_snapshot \<Rightarrow> command_descriptor list" where
  "snapshot_descriptors s = map cc_descriptor (rs_contributions s)"

definition snapshot_contribution :: "registry_snapshot \<Rightarrow> str \<Rightarrow> command_contribution option" where
  "snapshot_contribution s i = find (\<lambda>c. cc_id c = i) (rs_contributions s)"

definition snapshot_descriptor :: "registry_snapshot \<Rightarrow> str \<Rightarrow> command_descriptor option" where
  "snapshot_descriptor s i = map_option cc_descriptor (snapshot_contribution s i)"

section \<open>The flat registry\<close>

datatype registry_error = DuplicateId str

definition registry_error_display :: "registry_error \<Rightarrow> str" where
  "registry_error_display e = (case e of DuplicateId i \<Rightarrow> lit ''duplicate command id `'' @ i @ lit ''`'')"

record command_registry =
  cr_revision :: str
  cr_contributions :: "command_contribution list"
  cr_ids :: "str set"

definition registry_new :: "str \<Rightarrow> command_registry" where
  "registry_new revision = \<lparr>cr_revision = revision, cr_contributions = [], cr_ids = {}\<rparr>"

definition register_contribution :: "command_registry \<Rightarrow> command_contribution \<Rightarrow> (registry_error + unit) \<times> command_registry" where
  "register_contribution r c =
     (if cc_id c \<in> cr_ids r then (Inl (DuplicateId (cc_id c)), r)
      else (Inr (), r\<lparr>cr_ids := insert (cc_id c) (cr_ids r), cr_contributions := cr_contributions r @ [c]\<rparr>))"

definition register_command :: "command_registry \<Rightarrow> command_descriptor \<Rightarrow> (registry_error + unit) \<times> command_registry" where
  "register_command r d = register_contribution r (contribution_new d)"

text \<open>The loop that claims the ids of new contributions, for both registries.\<close>

fun claim_ids :: "str set \<Rightarrow> command_contribution list \<Rightarrow> registry_error + str set" where
  "claim_ids ids [] = Inr ids"
| "claim_ids ids (c # cs) = (if cc_id c \<in> ids then Inl (DuplicateId (cc_id c)) else claim_ids (insert (cc_id c) ids) cs)"

definition register_all :: "command_registry \<Rightarrow> command_contribution list \<Rightarrow> (registry_error + unit) \<times> command_registry" where
  "register_all r cs =
     (case claim_ids (cr_ids r) cs of
        Inl e \<Rightarrow> (Inl e, r)
      | Inr ids \<Rightarrow> (Inr (), r\<lparr>cr_ids := ids, cr_contributions := cr_contributions r @ cs\<rparr>))"

definition registry_snapshot_of :: "command_registry \<Rightarrow> registry_snapshot" where
  "registry_snapshot_of r = snapshot_new (cr_revision r) (cr_contributions r)"

section \<open>Scopes\<close>

record command_scope =
  sc_contributions :: "command_contribution list"
  sc_ids :: "str set"

definition scope_default :: command_scope where
  "scope_default = \<lparr>sc_contributions = [], sc_ids = {}\<rparr>"

datatype projection_diagnostic_kind = DuplicateCommandId

record projection_diagnostic =
  pd_kind :: projection_diagnostic_kind
  pd_command_id :: str
  pd_scope_id :: scope_id
  pd_replaced_source :: "source_id option"
  pd_active_source :: "source_id option"

definition diagnostic_duplicate :: "str \<Rightarrow> scope_id \<Rightarrow> source_id option \<Rightarrow> source_id option \<Rightarrow> projection_diagnostic" where
  "diagnostic_duplicate i scope replaced active =
     \<lparr>pd_kind = DuplicateCommandId, pd_command_id = i, pd_scope_id = scope, pd_replaced_source = replaced,
      pd_active_source = active\<rparr>"

record scope_projection =
  sp_snapshot :: registry_snapshot
  sp_diagnostics :: "projection_diagnostic list"

record scoped_registry =
  sr_revision :: str
  sr_order :: "scope_id list"
  sr_scopes :: "(scope_id, command_scope) btree_map"

definition scoped_new :: "str \<Rightarrow> scoped_registry" where
  "scoped_new revision = \<lparr>sr_revision = revision, sr_order = [], sr_scopes = []\<rparr>"

text \<open>\<open>contains_key\<close>, \<open>push\<close> and \<open>entry(...).or_default()\<close> at the start of both registrations.\<close>

definition ensure_scope :: "scoped_registry \<Rightarrow> scope_id \<Rightarrow> scoped_registry" where
  "ensure_scope r s =
     (if map_of (sr_scopes r) s = None
      then r\<lparr>sr_order := sr_order r @ [s], sr_scopes := bt_insert s scope_default (sr_scopes r)\<rparr> else r)"

definition scope_or_default :: "scoped_registry \<Rightarrow> scope_id \<Rightarrow> command_scope" where
  "scope_or_default r s = (case map_of (sr_scopes r) s of Some sc \<Rightarrow> sc | None \<Rightarrow> scope_default)"

definition put_scope :: "scoped_registry \<Rightarrow> scope_id \<Rightarrow> command_scope \<Rightarrow> scoped_registry" where
  "put_scope r s sc = r\<lparr>sr_scopes := bt_modify s (\<lambda>_. sc) (sr_scopes r)\<rparr>"

text \<open>A duplicate in a scope that was not there leaves the empty scope registered.\<close>

definition register_in_scope ::
  "scoped_registry \<Rightarrow> scope_id \<Rightarrow> command_contribution \<Rightarrow> (registry_error + unit) \<times> scoped_registry" where
  "register_in_scope r s c =
     (if s = [] then (Inr (), r)
      else let r1 = ensure_scope r s; sc = scope_or_default r1 s in
        if cc_id c \<in> sc_ids sc then (Inl (DuplicateId (cc_id c)), r1)
        else (Inr (), put_scope r1 s
                 (sc\<lparr>sc_ids := insert (cc_id c) (sc_ids sc), sc_contributions := sc_contributions sc @ [c]\<rparr>)))"

definition register_all_in_scope ::
  "scoped_registry \<Rightarrow> scope_id \<Rightarrow> command_contribution list \<Rightarrow> (registry_error + unit) \<times> scoped_registry" where
  "register_all_in_scope r s cs =
     (if s = [] then (Inr (), r)
      else case claim_ids (sc_ids (scope_or_default r s)) cs of
        Inl e \<Rightarrow> (Inl e, r)
      | Inr ids \<Rightarrow>
          (let r1 = ensure_scope r s; sc = scope_or_default r1 s in
           (Inr (), put_scope r1 s (sc\<lparr>sc_ids := ids, sc_contributions := sc_contributions sc @ cs\<rparr>))))"

definition unregister_scope :: "scoped_registry \<Rightarrow> scope_id \<Rightarrow> bool \<times> scoped_registry" where
  "unregister_scope r s =
     (let removed = map_of (sr_scopes r) s \<noteq> None;
          r1 = r\<lparr>sr_scopes := bt_remove s (sr_scopes r)\<rparr> in
      (removed, if removed then r1\<lparr>sr_order := filter (\<lambda>c. c \<noteq> s) (sr_order r)\<rparr> else r1))"

text \<open>The contributions of one scope that \<open>retain\<close> keeps.\<close>

definition scope_without_source :: "source_id \<Rightarrow> command_scope \<Rightarrow> command_scope" where
  "scope_without_source src sc =
     (let kept = filter (\<lambda>c. cc_source c \<noteq> Some src) (sc_contributions sc) in
      sc\<lparr>sc_contributions := kept, sc_ids := set (map cc_id kept)\<rparr>)"

definition unregister_source :: "scoped_registry \<Rightarrow> source_id \<Rightarrow> nat \<times> scoped_registry" where
  "unregister_source r src =
     (sum_list (map (\<lambda>sc. length (filter (\<lambda>c. cc_source c = Some src) (sc_contributions sc))) (bt_values (sr_scopes r))),
      r\<lparr>sr_scopes := bt_map_values (scope_without_source src) (sr_scopes r)\<rparr>)"

text \<open>
  The projection keeps the contributions, the position of each id among them and the diagnostics; indexing with a position
  may panic.
\<close>

type_synonym projecting = "command_contribution list \<times> (str \<rightharpoonup> nat) \<times> projection_diagnostic list"

definition project_contribution :: "scope_id \<Rightarrow> command_contribution \<Rightarrow> projecting \<Rightarrow> projecting panics" where
  "project_contribution scope c st =
     (let (cs, positions, ds) = st in
      case positions (cc_id c) of
        Some p \<Rightarrow>
          if p < length cs
          then Some (cs[p := c], positions, ds @ [diagnostic_duplicate (cc_id c) scope (cc_source (cs ! p)) (cc_source c)])
          else None
      | None \<Rightarrow> Some (cs @ [c], positions(cc_id c \<mapsto> length cs), ds))"

fun project_scope :: "scope_id \<Rightarrow> command_contribution list \<Rightarrow> projecting \<Rightarrow> projecting panics" where
  "project_scope scope [] st = Some st"
| "project_scope scope (c # cs) st = do { st' \<leftarrow> project_contribution scope c st; project_scope scope cs st' }"

fun project_scopes :: "scoped_registry \<Rightarrow> scope_id list \<Rightarrow> projecting \<Rightarrow> projecting panics" where
  "project_scopes r [] st = Some st"
| "project_scopes r (s # ss) st =
     (case map_of (sr_scopes r) s of
        None \<Rightarrow> project_scopes r ss st
      | Some sc \<Rightarrow> do { st' \<leftarrow> project_scope s (sc_contributions sc) st; project_scopes r ss st' })"

definition project_active_scopes :: "scoped_registry \<Rightarrow> scope_id list \<Rightarrow> scope_projection panics" where
  "project_active_scopes r active = do {
     (cs, _, ds) \<leftarrow> project_scopes r active ([], Map.empty, []);
     Some \<lparr>sp_snapshot = snapshot_new (sr_revision r) cs, sp_diagnostics = ds\<rparr>
   }"

definition project_all_scopes :: "scoped_registry \<Rightarrow> scope_projection panics" where
  "project_all_scopes r = project_active_scopes r (sr_order r)"

section \<open>The context stack\<close>

text \<open>\<open>KeyContext\<close> belongs to the keymap of GPUI: a type variable, with its \<open>is_empty\<close> as an argument.\<close>

record 'k context_stack =
  cs_scopes :: "scope_id list"
  cs_key_contexts :: "'k list"

definition context_stack_new :: "'k context_stack" where
  "context_stack_new = \<lparr>cs_scopes = [], cs_key_contexts = []\<rparr>"

definition push_scope :: "scope_id \<Rightarrow> 'k context_stack \<Rightarrow> 'k context_stack" where
  "push_scope s st = (if s = [] then st else st\<lparr>cs_scopes := filter (\<lambda>c. c \<noteq> s) (cs_scopes st) @ [s]\<rparr>)"

definition set_scopes :: "'k context_stack \<Rightarrow> scope_id list \<Rightarrow> 'k context_stack" where
  "set_scopes st ss = fold push_scope ss (st\<lparr>cs_scopes := []\<rparr>)"

definition from_scopes :: "scope_id list \<Rightarrow> 'k context_stack" where
  "from_scopes ss = set_scopes context_stack_new ss"

definition clear_scopes :: "'k context_stack \<Rightarrow> 'k context_stack" where
  "clear_scopes st = st\<lparr>cs_scopes := []\<rparr>"

definition push_key_context :: "('k \<Rightarrow> bool) \<Rightarrow> 'k \<Rightarrow> 'k context_stack \<Rightarrow> 'k context_stack" where
  "push_key_context is_empty k st = (if \<not> is_empty k then st\<lparr>cs_key_contexts := cs_key_contexts st @ [k]\<rparr> else st)"

definition set_key_contexts :: "('k \<Rightarrow> bool) \<Rightarrow> 'k context_stack \<Rightarrow> 'k list \<Rightarrow> 'k context_stack" where
  "set_key_contexts is_empty st ks = fold (push_key_context is_empty) ks (st\<lparr>cs_key_contexts := []\<rparr>)"

definition clear_key_contexts :: "'k context_stack \<Rightarrow> 'k context_stack" where
  "clear_key_contexts st = st\<lparr>cs_key_contexts := []\<rparr>"

definition context_stack_is_empty :: "'k context_stack \<Rightarrow> bool" where
  "context_stack_is_empty st \<longleftrightarrow> cs_scopes st = [] \<and> cs_key_contexts st = []"

end
