(* ===== verification/Command_Registry_Laws.thy ===== *)
theory Command_Registry_Laws
  imports Command_Registry
begin

text \<open>
  The invariant of the scoped registry and what its operations do to one scope; the projection of the active scopes
  against its specification.
\<close>

section \<open>Claiming ids\<close>

lemma claim_ids_Inr:
  "claim_ids ids cs = Inr ids' \<longleftrightarrow> distinct (map cc_id cs) \<and> ids \<inter> set (map cc_id cs) = {} \<and> ids' = ids \<union> set (map cc_id cs)"
  by (induction cs arbitrary: ids) auto

lemma claim_ids_Inl_mem: "claim_ids ids cs = Inl (DuplicateId i) \<Longrightarrow> i \<in> set (map cc_id cs)"
  by (induction cs arbitrary: ids) (auto split: if_splits)

section \<open>The invariant\<close>

definition ids_ok :: "command_contribution list \<Rightarrow> str set \<Rightarrow> bool" where
  "ids_ok cs ids \<longleftrightarrow> distinct (map cc_id cs) \<and> ids = set (map cc_id cs)"

definition registry_ok :: "command_registry \<Rightarrow> bool" where
  "registry_ok r \<longleftrightarrow> ids_ok (cr_contributions r) (cr_ids r)"

definition scope_ok :: "command_scope \<Rightarrow> bool" where
  "scope_ok sc \<longleftrightarrow> ids_ok (sc_contributions sc) (sc_ids sc)"

definition scoped_ok :: "scoped_registry \<Rightarrow> bool" where
  "scoped_ok r \<longleftrightarrow> bt_ok (sr_scopes r) \<and> distinct (sr_order r) \<and> set (sr_order r) = dom (map_of (sr_scopes r)) \<and>
     [] \<notin> set (sr_order r) \<and> (\<forall>s sc. map_of (sr_scopes r) s = Some sc \<longrightarrow> scope_ok sc)"

lemma scope_ok_default [simp]: "scope_ok scope_default"
  by (simp add: scope_ok_def ids_ok_def scope_default_def)

lemma scoped_ok_new: "scoped_ok (scoped_new revision)"
  by (simp add: scoped_ok_def scoped_new_def)

lemma scoped_ok_bt: "scoped_ok r \<Longrightarrow> bt_ok (sr_scopes r)"
  by (simp add: scoped_ok_def)

lemma scope_ok_lookup: "scoped_ok r \<Longrightarrow> scope_ok (scope_or_default r s)"
  by (auto simp: scoped_ok_def scope_or_default_def split: option.split)

lemma ids_ok_append: "ids_ok cs ids \<Longrightarrow> claim_ids ids cs' = Inr ids' \<Longrightarrow> ids_ok (cs @ cs') ids'"
  by (auto simp: ids_ok_def claim_ids_Inr)

lemma ids_ok_snoc: "ids_ok cs ids \<Longrightarrow> cc_id c \<notin> ids \<Longrightarrow> ids_ok (cs @ [c]) (insert (cc_id c) ids)"
  by (auto simp: ids_ok_def)

lemma registry_ok_new: "registry_ok (registry_new revision)"
  by (simp add: registry_ok_def ids_ok_def registry_new_def)

lemma registry_ok_register:
  "registry_ok r \<Longrightarrow> registry_ok (snd (register_contribution r c))"
  "registry_ok r \<Longrightarrow> registry_ok (snd (register_command r d))"
  "registry_ok r \<Longrightarrow> registry_ok (snd (register_all r cs))"
  by (auto simp: registry_ok_def register_command_def register_contribution_def register_all_def
      intro: ids_ok_append ids_ok_snoc split: sum.split)

section \<open>One scope after an operation\<close>

named_theorems scope_lookup \<open>lookups in the scopes of a registry after an operation\<close>

lemma ensure_scope_lookup [scope_lookup]:
  "scoped_ok r \<Longrightarrow> map_of (sr_scopes (ensure_scope r s)) t =
     (if t = s \<and> map_of (sr_scopes r) s = None then Some scope_default else map_of (sr_scopes r) t)"
  by (simp add: ensure_scope_def scoped_ok_def bt_simps)

lemma ensure_scope_default [simp]: "scoped_ok r \<Longrightarrow> scope_or_default (ensure_scope r s) t = scope_or_default r t"
  by (auto simp: scope_or_default_def scope_lookup split: option.split)

lemma put_scope_lookup [scope_lookup]:
  "map_of (sr_scopes (put_scope r s sc)) t =
     (if t = s \<and> map_of (sr_scopes r) s \<noteq> None then Some sc else map_of (sr_scopes r) t)"
  by (auto simp: put_scope_def bt_simps)

lemma scoped_ok_ensure: "scoped_ok r \<Longrightarrow> s \<noteq> [] \<Longrightarrow> scoped_ok (ensure_scope r s)"
  by (auto simp: scoped_ok_def ensure_scope_def bt_simps)

lemma scoped_ok_put: "scoped_ok r \<Longrightarrow> scope_ok sc \<Longrightarrow> scoped_ok (put_scope r s sc)"
  unfolding scoped_ok_def put_scope_lookup by (auto simp: put_scope_def bt_simps split: if_splits)

text \<open>Both registrations end by writing the scope they made sure of.\<close>

lemma written_scope:
  assumes "scoped_ok r"
  shows "scope_or_default (put_scope (ensure_scope r s) s sc) t = (if t = s then sc else scope_or_default r t)"
  using assms by (auto simp: scope_or_default_def scope_lookup split: option.split)

lemma scoped_ok_written: "scoped_ok r \<Longrightarrow> s \<noteq> [] \<Longrightarrow> scope_ok sc \<Longrightarrow> scoped_ok (put_scope (ensure_scope r s) s sc)"
  by (intro scoped_ok_put scoped_ok_ensure)

lemma scoped_ok_register_in_scope:
  assumes "scoped_ok r"
  shows "scoped_ok (snd (register_in_scope r s c))"
proof -
  have "scope_ok (scope_or_default r s)" using assms by (rule scope_ok_lookup)
  then have "cc_id c \<notin> sc_ids (scope_or_default r s) \<Longrightarrow>
      scope_ok ((scope_or_default r s)\<lparr>sc_ids := insert (cc_id c) (sc_ids (scope_or_default r s)),
        sc_contributions := sc_contributions (scope_or_default r s) @ [c]\<rparr>)"
    by (simp add: scope_ok_def ids_ok_snoc)
  with assms show ?thesis
    by (simp add: register_in_scope_def Let_def scoped_ok_written scoped_ok_ensure)
qed

lemma register_all_in_scope_cases [consumes 1, case_names empty_scope duplicate registered]:
  assumes "register_all_in_scope r s cs = (res, r')"
  obtains "s = []" "res = Inr ()" "r' = r"
  | i where "s \<noteq> []" "claim_ids (sc_ids (scope_or_default r s)) cs = Inl (DuplicateId i)" "res = Inl (DuplicateId i)" "r' = r"
  | ids where "s \<noteq> []" "claim_ids (sc_ids (scope_or_default r s)) cs = Inr ids" "res = Inr ()"
      "r' = put_scope (ensure_scope r s) s ((scope_or_default (ensure_scope r s) s)\<lparr>sc_ids := ids,
         sc_contributions := sc_contributions (scope_or_default (ensure_scope r s) s) @ cs\<rparr>)"
proof (cases "s = []")
  case True
  with assms show ?thesis by (intro that(1)) (simp_all add: register_all_in_scope_def)
next
  case False
  show ?thesis
  proof (cases "claim_ids (sc_ids (scope_or_default r s)) cs")
    case (Inl e)
    obtain i where "e = DuplicateId i" by (cases e)
    with Inl False assms show ?thesis by (intro that(2) [of i]) (simp_all add: register_all_in_scope_def)
  next
    case (Inr ids)
    with False assms show ?thesis by (intro that(3) [of ids]) (simp_all add: register_all_in_scope_def Let_def)
  qed
qed

lemma scoped_ok_register_all:
  assumes "scoped_ok r" and "register_all_in_scope r s cs = (res, r')"
  shows "scoped_ok r'"
  using assms(2)
proof (cases rule: register_all_in_scope_cases)
  case (registered ids)
  have "scope_ok ((scope_or_default r s)\<lparr>sc_ids := ids, sc_contributions := sc_contributions (scope_or_default r s) @ cs\<rparr>)"
    using scope_ok_lookup [OF assms(1), of s] registered(2) by (simp add: scope_ok_def ids_ok_append)
  with registered assms(1) show ?thesis by (simp add: scoped_ok_written)
qed (use assms in simp_all)

text \<open>A failed atomic registration changes nothing; a successful one appends to the scope.\<close>

lemma register_all_error: "register_all_in_scope r s cs = (Inl e, r') \<Longrightarrow> r' = r"
  by (erule register_all_in_scope_cases) simp_all

lemma register_all_contributions:
  assumes "scoped_ok r" and "register_all_in_scope r s cs = (Inr (), r')" and "s \<noteq> []"
  shows "sc_contributions (scope_or_default r' t) =
    (if t = s then sc_contributions (scope_or_default r s) @ cs else sc_contributions (scope_or_default r t))"
  using assms(2)
proof (cases rule: register_all_in_scope_cases)
  case (registered ids)
  with assms show ?thesis by (simp add: written_scope)
qed (use assms in simp_all)

lemma register_all_succeeds:
  assumes "scoped_ok r"
  shows "(\<exists>r'. register_all_in_scope r s cs = (Inr (), r')) \<longleftrightarrow>
    s = [] \<or> distinct (map cc_id cs) \<and> set (map cc_id (sc_contributions (scope_or_default r s))) \<inter> set (map cc_id cs) = {}"
proof -
  have ids: "sc_ids (scope_or_default r s) = set (map cc_id (sc_contributions (scope_or_default r s)))"
    using scope_ok_lookup [OF assms, of s] by (simp add: scope_ok_def ids_ok_def)
  show ?thesis
  proof (cases "claim_ids (sc_ids (scope_or_default r s)) cs")
    case (Inl e)
    then have "\<not> (distinct (map cc_id cs) \<and> sc_ids (scope_or_default r s) \<inter> set (map cc_id cs) = {})"
      using claim_ids_Inr [of "sc_ids (scope_or_default r s)" cs "sc_ids (scope_or_default r s) \<union> set (map cc_id cs)"] by auto
    with Inl show ?thesis by (auto simp: register_all_in_scope_def ids)
  next
    case (Inr ids')
    with claim_ids_Inr [of "sc_ids (scope_or_default r s)" cs ids'] show ?thesis
      by (auto simp: register_all_in_scope_def Let_def ids)
  qed
qed

lemma scoped_ok_unregister_scope: "scoped_ok r \<Longrightarrow> scoped_ok (snd (unregister_scope r s))"
  by (auto simp: scoped_ok_def unregister_scope_def Let_def bt_simps split: if_splits)

lemma scope_ok_without_source: "scope_ok sc \<Longrightarrow> scope_ok (scope_without_source src sc)"
  by (simp add: scope_ok_def ids_ok_def scope_without_source_def Let_def distinct_map_filter)

lemma scoped_ok_unregister_source:
  assumes "scoped_ok r"
  shows "scoped_ok (snd (unregister_source r src))"
  using assms unfolding scoped_ok_def unregister_source_def
  by (auto simp: bt_simps dom_def intro!: scope_ok_without_source)

lemma unregister_source_contributions:
  "sc_contributions (scope_or_default (snd (unregister_source r src)) s) =
     filter (\<lambda>c. cc_source c \<noteq> Some src) (sc_contributions (scope_or_default r s))"
  by (auto simp: unregister_source_def scope_or_default_def bt_simps scope_without_source_def scope_default_def Let_def
      split: option.split)

lemma unregister_scope_contributions:
  "sc_contributions (scope_or_default (snd (unregister_scope r s)) t) =
     (if t = s then [] else sc_contributions (scope_or_default r t))"
  by (auto simp: unregister_scope_def scope_or_default_def bt_simps scope_default_def Let_def split: option.split)

section \<open>Runs of the registry\<close>

inductive scoped_step :: "scoped_registry \<Rightarrow> scoped_registry \<Rightarrow> bool" where
  "scoped_step r (snd (register_in_scope r s c))"
| "scoped_step r (snd (register_all_in_scope r s cs))"
| "scoped_step r (snd (unregister_scope r s))"
| "scoped_step r (snd (unregister_source r src))"

lemma scoped_step_ok: "scoped_step r r' \<Longrightarrow> scoped_ok r \<Longrightarrow> scoped_ok r'"
proof (induction rule: scoped_step.induct)
  case (2 r s cs)
  then show ?case by (rule scoped_ok_register_all) (rule prod.collapse [symmetric])
qed (simp_all add: scoped_ok_register_in_scope scoped_ok_unregister_scope scoped_ok_unregister_source)

lemma scoped_steps_ok: "scoped_step\<^sup>*\<^sup>* r r' \<Longrightarrow> scoped_ok r \<Longrightarrow> scoped_ok r'"
  by (induction rule: rtranclp_induct) (auto intro: scoped_step_ok)

section \<open>The projection\<close>

definition active_contributions :: "scoped_registry \<Rightarrow> scope_id list \<Rightarrow> command_contribution list" where
  "active_contributions r ss = concat (map (\<lambda>s. sc_contributions (scope_or_default r s)) ss)"

text \<open>What the projection is meant to be: the ids in the order of their first contribution, each with its last one.\<close>

definition overridden :: "command_contribution list \<Rightarrow> command_contribution list" where
  "overridden cs = map (\<lambda>i. last (filter (\<lambda>c. cc_id c = i) cs)) (firsts (map cc_id cs))"

lemma last_with_id: "i \<in> set (map cc_id cs) \<Longrightarrow> cc_id (last (filter (\<lambda>c. cc_id c = i) cs)) = i"
proof -
  assume "i \<in> set (map cc_id cs)"
  then have "filter (\<lambda>c. cc_id c = i) cs \<noteq> []" by (auto simp: filter_empty_conv)
  then have "last (filter (\<lambda>c. cc_id c = i) cs) \<in> set (filter (\<lambda>c. cc_id c = i) cs)" by (rule last_in_set)
  then show ?thesis by simp
qed

lemma overridden_ids: "map cc_id (overridden cs) = firsts (map cc_id cs)"
  unfolding overridden_def map_map comp_def
  by (rule map_idI) (use last_with_id in \<open>simp del: set_map add: set_map [symmetric]\<close>)

lemma no_id_filter: "i \<notin> cc_id ` set cs \<Longrightarrow> filter (\<lambda>c. cc_id c = i) cs = []"
  by (induction cs) auto

lemma overridden_snoc:
  "overridden (cs @ [c]) =
     (case position (\<lambda>j. j = cc_id c) (firsts (map cc_id cs)) of
        Some p \<Rightarrow> (overridden cs)[p := c] | None \<Rightarrow> overridden cs @ [c])"
proof (cases "position (\<lambda>j. j = cc_id c) (firsts (map cc_id cs))")
  case None
  then have new: "cc_id c \<notin> cc_id ` set cs" by (auto simp: position_None)
  then have "filter (\<lambda>d. cc_id d = cc_id c) cs = []" by (rule no_id_filter)
  with None new show ?thesis by (auto simp: overridden_def firsts_snoc)
next
  case (Some p)
  then have p: "p < length (firsts (map cc_id cs))" "firsts (map cc_id cs) ! p = cc_id c"
    using position_Some [OF Some] by simp_all
  then have old: "cc_id c \<in> set (map cc_id cs)" using nth_mem [OF p(1)] by simp
  have "overridden (cs @ [c]) ! j = (overridden cs)[p := c] ! j" if j: "j < length (firsts (map cc_id cs))" for j
  proof (cases "j = p")
    case True
    with p old show ?thesis by (simp add: overridden_def firsts_snoc)
  next
    case False
    then have "firsts (map cc_id cs) ! j \<noteq> cc_id c"
      using p j nth_eq_iff_index_eq [OF distinct_firsts j p(1)] by simp
    with False j old show ?thesis by (simp add: overridden_def firsts_snoc)
  qed
  moreover have "length (overridden (cs @ [c])) = length (firsts (map cc_id cs))"
    using old by (simp add: overridden_def firsts_snoc)
  moreover have "length ((overridden cs)[p := c]) = length (firsts (map cc_id cs))"
    by (simp add: overridden_def)
  ultimately have "overridden (cs @ [c]) = (overridden cs)[p := c]" by (intro nth_equalityI) simp_all
  with Some show ?thesis by simp
qed

text \<open>The state of the projection after the contributions \<open>cs\<close>.\<close>

definition projected :: "command_contribution list \<Rightarrow> projecting \<Rightarrow> bool" where
  "projected cs st \<longleftrightarrow> (\<exists>ds. st = (overridden cs, \<lambda>i. position (\<lambda>j. j = i) (firsts (map cc_id cs)), ds) \<and>
     (\<forall>i. length (filter (\<lambda>d. pd_command_id d = i) ds) = length (filter (\<lambda>c. cc_id c = i) cs) - 1))"

lemma position_snoc:
  "position P (xs @ [x]) = (case position P xs of Some i \<Rightarrow> Some i | None \<Rightarrow> if P x then Some (length xs) else None)"
  by (induction xs) (auto split: option.split)

lemma project_contribution_step:
  assumes "projected cs st"
  shows "no_panic (project_contribution s c st) (projected (cs @ [c]))"
proof -
  from assms obtain ds where st: "st = (overridden cs, \<lambda>i. position (\<lambda>j. j = i) (firsts (map cc_id cs)), ds)"
    and ds: "\<And>i. length (filter (\<lambda>d. pd_command_id d = i) ds) = length (filter (\<lambda>c. cc_id c = i) cs) - 1"
    by (auto simp: projected_def)
  have len: "length (overridden cs) = length (firsts (map cc_id cs))" by (simp add: overridden_def)
  show ?thesis
  proof (cases "position (\<lambda>j. j = cc_id c) (firsts (map cc_id cs))")
    case None
    then have new: "cc_id c \<notin> cc_id ` set cs" by (auto simp: position_None)
    then have none: "filter (\<lambda>d. cc_id d = cc_id c) cs = []" by (rule no_id_filter)
    have pos: "(\<lambda>i. position (\<lambda>j. j = i) (firsts (map cc_id (cs @ [c])))) =
        (\<lambda>i. position (\<lambda>j. j = i) (firsts (map cc_id cs)))(cc_id c \<mapsto> length (overridden cs))"
      using new None by (auto simp: firsts_snoc position_snoc len split: option.split)
    show ?thesis
      using None ds none pos by (simp add: st project_contribution_def projected_def overridden_snoc)
  next
    case (Some p)
    then have p: "p < length (overridden cs)" using position_Some [OF Some] len by simp
    from Some have old: "cc_id c \<in> set (map cc_id cs)" using position_Some [OF Some] nth_mem by fastforce
    then have "filter (\<lambda>d. cc_id d = cc_id c) cs \<noteq> []" by (auto simp: filter_empty_conv)
    then have "length (filter (\<lambda>d. cc_id d = cc_id c) cs) > 0" by simp
    with Some p old ds show ?thesis
      by (auto simp: st project_contribution_def projected_def overridden_snoc firsts_snoc diagnostic_duplicate_def)
  qed
qed

lemma project_scope_step: "projected cs st \<Longrightarrow> no_panic (project_scope s xs st) (projected (cs @ xs))"
proof (induction xs arbitrary: cs st)
  case (Cons x xs)
  show ?case
    unfolding project_scope.simps
  proof (rule no_panic_bind [OF project_contribution_step [OF Cons.prems]])
    fix st' assume "projected (cs @ [x]) st'"
    from Cons.IH [OF this] show "no_panic (project_scope s xs st') (projected (cs @ x # xs))" by simp
  qed
qed simp

lemma project_scopes_step: "projected cs st \<Longrightarrow> no_panic (project_scopes r ss st) (projected (cs @ active_contributions r ss))"
proof (induction ss arbitrary: cs st)
  case (Cons s ss)
  show ?case
  proof (cases "map_of (sr_scopes r) s")
    case None
    with Cons show ?thesis by (simp add: active_contributions_def scope_or_default_def scope_default_def)
  next
    case (Some sc)
    have "no_panic (do { st' \<leftarrow> project_scope s (sc_contributions sc) st; project_scopes r ss st' })
        (projected ((cs @ sc_contributions sc) @ active_contributions r ss))"
      by (rule no_panic_bind [OF project_scope_step [OF Cons.prems] Cons.IH])
    with Some show ?thesis by (simp add: active_contributions_def scope_or_default_def)
  qed
qed (simp add: active_contributions_def)

text \<open>The projection never panics and is the specified one.\<close>

lemma project_active_scopes_spec:
  "no_panic (project_active_scopes r ss) (\<lambda>p.
     sp_snapshot p = snapshot_new (sr_revision r) (overridden (active_contributions r ss)) \<and>
     (\<forall>i. length (filter (\<lambda>d. pd_command_id d = i) (sp_diagnostics p)) =
        length (filter (\<lambda>c. cc_id c = i) (active_contributions r ss)) - 1))"
proof -
  have "projected [] ([], Map.empty, [])" by (simp add: projected_def overridden_def)
  from project_scopes_step [OF this, of r ss] show ?thesis
    by (auto simp: no_panic_def project_active_scopes_def projected_def)
qed

lemma project_active_scopes_snapshot:
  obtains ds where "project_active_scopes r ss =
    Some \<lparr>sp_snapshot = snapshot_new (sr_revision r) (overridden (active_contributions r ss)), sp_diagnostics = ds\<rparr>"
  using project_active_scopes_spec [of r ss] by (auto simp: no_panic_def) (metis scope_projection.surjective unit.exhaust)

end
