(* ===== verification/Command_Menu.thy ===== *)
theory Command_Menu
  imports Command_Registry_Laws
begin

text \<open>
  Availability of commands (\<open>crates/open-gpui-command/src/availability.rs\<close>) and the menu tree (\<open>menu.rs\<close>), with
  their laws: the commands a menu holds, in order, for each path.
\<close>

section \<open>Availability\<close>

datatype command_availability = Available | Disabled "str option" | Hidden

definition availability_disabled :: "str \<Rightarrow> command_availability" where
  "availability_disabled r = Disabled (if r \<noteq> [] then Some r else None)"

fun availability_reason :: "command_availability \<Rightarrow> str option" where
  "availability_reason (Disabled r) = r"
| "availability_reason _ = None"

type_synonym availability_map = "(str, command_availability) btree_map"

definition availability_set :: "availability_map \<Rightarrow> str \<Rightarrow> command_availability \<Rightarrow> availability_map" where
  "availability_set m i st = (if i \<noteq> [] then bt_insert i st m else m)"

definition availability_available :: "availability_map \<Rightarrow> str \<Rightarrow> availability_map" where
  "availability_available m i = availability_set m i Available"

definition availability_map_disabled :: "availability_map \<Rightarrow> str \<Rightarrow> str \<Rightarrow> availability_map" where
  "availability_map_disabled m i r = availability_set m i (availability_disabled r)"

definition availability_hidden :: "availability_map \<Rightarrow> str \<Rightarrow> availability_map" where
  "availability_hidden m i = availability_set m i Hidden"

text \<open>A resolver is its \<open>availability_for\<close>; the map is the one the crate provides.\<close>

type_synonym availability_resolver = "command_descriptor \<Rightarrow> command_availability"

definition map_availability_for :: "availability_map \<Rightarrow> availability_resolver" where
  "map_availability_for m d = (case map_of m (cd_id d) of Some st \<Rightarrow> st | None \<Rightarrow> Available)"

definition command_effective_availability :: "command_descriptor \<Rightarrow> availability_resolver \<Rightarrow> command_availability" where
  "command_effective_availability d resolver =
     (let st = resolver d in if st = Available \<and> cd_disabled d then Disabled (cd_disabled_reason d) else st)"

definition project_availability :: "availability_resolver \<Rightarrow> command_contribution \<Rightarrow> command_contribution option" where
  "project_availability resolver c =
     (case command_effective_availability (cc_descriptor c) resolver of
        Available \<Rightarrow> Some c
      | Disabled r \<Rightarrow> Some (with_descriptor c (with_projected_disabled (cc_descriptor c) r))
      | Hidden \<Rightarrow> None)"

definition with_availability :: "registry_snapshot \<Rightarrow> availability_resolver \<Rightarrow> registry_snapshot" where
  "with_availability s resolver =
     snapshot_new (rs_revision s) (List.map_filter (project_availability resolver) (rs_contributions s))"

lemma project_availability_id: "project_availability resolver c = Some c' \<Longrightarrow> cc_id c' = cc_id c"
  by (auto simp: project_availability_def with_descriptor_def with_projected_disabled_def split: command_availability.splits)

lemma project_availability_eq:
  "project_availability resolver c =
     (case command_effective_availability (cc_descriptor c) resolver of
        Hidden \<Rightarrow> None
      | Available \<Rightarrow> Some c
      | Disabled r \<Rightarrow> Some (c\<lparr>cc_descriptor := (cc_descriptor c)\<lparr>cd_disabled := True,
          cd_disabled_reason := opt_filter (\<lambda>s. s \<noteq> []) r\<rparr>\<rparr>))"
  by (cases c) (simp add: project_availability_def with_descriptor_def with_projected_disabled_def
      split: command_availability.split)

lemma map_filter_availability_ids:
  "map cc_id (List.map_filter (project_availability resolver) cs) =
     map cc_id (filter (\<lambda>c. command_effective_availability (cc_descriptor c) resolver \<noteq> Hidden) cs)"
  by (induction cs) (auto simp: map_filter_simps project_availability_eq split: command_availability.splits)

section \<open>The menu tree\<close>

record menu_command =
  mc_command_id :: str
  mc_label :: str
  mc_icon :: "icon_descriptor option"
  mc_shortcut :: "str option"
  mc_disabled :: bool
  mc_disabled_reason :: "str option"
  mc_tooltip :: "str option"
  mc_accessibility :: "str option"
  mc_when :: "str option"

definition menu_command_of :: "command_descriptor \<Rightarrow> menu_command" where
  "menu_command_of d =
     \<lparr>mc_command_id = cd_id d, mc_label = cd_label d, mc_icon = cd_icon d, mc_shortcut = cd_shortcut d,
      mc_disabled = cd_disabled d, mc_disabled_reason = cd_disabled_reason d, mc_tooltip = cd_tooltip d,
      mc_accessibility = cd_accessibility d, mc_when = cd_when d\<rparr>"

text \<open>A submenu is its label and its entries.\<close>

datatype menu_entry = MenuCommand menu_command | MenuSubmenu str "menu_entry list"

fun menu_entry_label :: "menu_entry \<Rightarrow> str" where
  "menu_entry_label (MenuCommand c) = mc_label c"
| "menu_entry_label (MenuSubmenu l es) = l"

definition as_command :: "menu_entry \<Rightarrow> menu_command option" where
  "as_command e = (case e of MenuCommand c \<Rightarrow> Some c | MenuSubmenu l es \<Rightarrow> None)"

definition as_submenu :: "menu_entry \<Rightarrow> (str \<times> menu_entry list) option" where
  "as_submenu e = (case e of MenuCommand c \<Rightarrow> None | MenuSubmenu l es \<Rightarrow> Some (l, es))"

record menu_tree =
  mt_revision :: str
  mt_entries :: "menu_entry list"

definition is_submenu_labelled :: "str \<Rightarrow> menu_entry \<Rightarrow> bool" where
  "is_submenu_labelled seg e = (case as_submenu e of Some (l, es) \<Rightarrow> l = seg | None \<Rightarrow> False)"

text \<open>Indexing the entries may panic.\<close>

fun insert_command_entry :: "menu_entry list \<Rightarrow> str list \<Rightarrow> menu_command \<Rightarrow> menu_entry list panics" where
  "insert_command_entry es [] c = Some (es @ [MenuCommand c])"
| "insert_command_entry es (seg # rest) c =
     (let (i, es1) =
        (case position (is_submenu_labelled seg) es of
           Some i \<Rightarrow> (i, es)
         | None \<Rightarrow> (length (es @ [MenuSubmenu seg []]) - 1, es @ [MenuSubmenu seg []])) in
      if i < length es1
      then (case es1 ! i of
              MenuCommand _ \<Rightarrow> Some es1
            | MenuSubmenu l sub \<Rightarrow> do { sub' \<leftarrow> insert_command_entry sub rest c; Some (es1[i := MenuSubmenu l sub']) })
      else None)"

fun insert_descriptors :: "menu_entry list \<Rightarrow> command_descriptor list \<Rightarrow> menu_entry list panics" where
  "insert_descriptors es [] = Some es"
| "insert_descriptors es (d # ds) = do {
     es' \<leftarrow> insert_command_entry es (cd_menu_path d) (menu_command_of d);
     insert_descriptors es' ds
   }"

definition menu_from_snapshot :: "registry_snapshot \<Rightarrow> menu_tree panics" where
  "menu_from_snapshot s = do {
     es \<leftarrow> insert_descriptors [] (snapshot_descriptors s);
     Some \<lparr>mt_revision = rs_revision s, mt_entries = es\<rparr>
   }"

section \<open>What a menu holds\<close>

text \<open>The commands at a path, in menu order: the path is followed through the first submenu of each label.\<close>

definition entry_commands :: "menu_entry list \<Rightarrow> menu_command list" where
  "entry_commands es = List.map_filter as_command es"

definition submenu_entries :: "str \<Rightarrow> menu_entry list \<Rightarrow> menu_entry list" where
  "submenu_entries seg es = concat (map (\<lambda>e. case as_submenu e of Some (l, sub) \<Rightarrow> if l = seg then sub else [] | None \<Rightarrow> []) es)"

fun commands_at :: "menu_entry list \<Rightarrow> str list \<Rightarrow> menu_command list" where
  "commands_at es [] = entry_commands es"
| "commands_at es (seg # rest) = commands_at (submenu_entries seg es) rest"

text \<open>No two submenus beside each other have the same label, and no submenu is empty.\<close>

fun entry_ok :: "menu_entry \<Rightarrow> bool" where
  "entry_ok (MenuCommand c) \<longleftrightarrow> True"
| "entry_ok (MenuSubmenu l es) \<longleftrightarrow>
     es \<noteq> [] \<and> distinct (List.map_filter (\<lambda>e. map_option fst (as_submenu e)) es) \<and> (\<forall>e \<in> set es. entry_ok e)"

definition menu_labels :: "menu_entry list \<Rightarrow> str list" where
  "menu_labels es = List.map_filter (\<lambda>e. map_option fst (as_submenu e)) es"

definition menu_ok :: "menu_entry list \<Rightarrow> bool" where
  "menu_ok es \<longleftrightarrow> distinct (menu_labels es) \<and> (\<forall>e \<in> set es. entry_ok e)"

lemma entry_ok_submenu [simp]: "entry_ok (MenuSubmenu l es) \<longleftrightarrow> es \<noteq> [] \<and> menu_ok es"
  by (simp add: menu_ok_def menu_labels_def)

declare entry_ok.simps(2) [simp del]

lemma map_filter_append [simp]: "List.map_filter f (xs @ ys) = List.map_filter f xs @ List.map_filter f ys"
  by (simp add: List.map_filter_def)

lemma menu_collect [simp]:
  "menu_labels (es @ es') = menu_labels es @ menu_labels es'"
  "menu_labels (MenuCommand c # es) = menu_labels es" "menu_labels (MenuSubmenu l sub # es) = l # menu_labels es"
  "menu_labels [] = []"
  "entry_commands (es @ es') = entry_commands es @ entry_commands es'"
  "entry_commands (MenuCommand c # es) = c # entry_commands es" "entry_commands (MenuSubmenu l sub # es) = entry_commands es"
  "entry_commands [] = []"
  "submenu_entries seg (es @ es') = submenu_entries seg es @ submenu_entries seg es'"
  "submenu_entries seg (MenuCommand c # es) = submenu_entries seg es"
  "submenu_entries seg (MenuSubmenu l sub # es) = (if l = seg then sub else []) @ submenu_entries seg es"
  "submenu_entries seg [] = []"
  by (simp_all add: menu_labels_def entry_commands_def submenu_entries_def map_filter_simps as_submenu_def as_command_def)

lemma submenu_entries_None: "\<forall>e \<in> set es. \<not> is_submenu_labelled seg e \<Longrightarrow> submenu_entries seg es = [] \<and> seg \<notin> set (menu_labels es)"
  by (induction es) (auto simp: is_submenu_labelled_def as_submenu_def submenu_entries_def menu_labels_def map_filter_simps
      split: menu_entry.splits)

lemma is_submenu_labelled_eq: "is_submenu_labelled seg e \<longleftrightarrow> (\<exists>sub. e = MenuSubmenu seg sub)"
  by (cases e) (simp_all add: is_submenu_labelled_def as_submenu_def)

lemma commands_at_Nil [simp]: "commands_at [] p = []"
  by (induction p) simp_all

text \<open>The one submenu of a label, and everything around it.\<close>

lemma insert_split:
  assumes "menu_ok es"
  obtains (present) ys sub zs where "es = ys @ MenuSubmenu seg sub # zs" "submenu_entries seg ys = []" "submenu_entries seg zs = []"
      "insert_command_entry es (seg # rest) c = do { sub' \<leftarrow> insert_command_entry sub rest c; Some (ys @ MenuSubmenu seg sub' # zs) }"
  | (absent) "submenu_entries seg es = []" "seg \<notin> set (menu_labels es)"
      "insert_command_entry es (seg # rest) c = do { sub' \<leftarrow> insert_command_entry [] rest c; Some (es @ [MenuSubmenu seg sub']) }"
proof (cases "position (is_submenu_labelled seg) es")
  case None
  then have "\<forall>e \<in> set es. \<not> is_submenu_labelled seg e" by (simp add: position_None)
  from submenu_entries_None [OF this] have "submenu_entries seg es = []" "seg \<notin> set (menu_labels es)" by simp_all
  then show ?thesis by (rule absent) (simp add: None)
next
  case (Some i)
  from position_split [OF Some] obtain ys e zs where
    es: "es = ys @ e # zs" "length ys = i" "is_submenu_labelled seg e" "\<forall>y \<in> set ys. \<not> is_submenu_labelled seg y" by blast
  from es(3) obtain sub where e: "e = MenuSubmenu seg sub" by (auto simp: is_submenu_labelled_eq)
  have zs: "\<forall>z \<in> set zs. \<not> is_submenu_labelled seg z"
  proof
    fix z assume "z \<in> set zs"
    then obtain us vs where "zs = us @ z # vs" by (auto dest: split_list)
    with assms show "\<not> is_submenu_labelled seg z" by (auto simp: menu_ok_def es(1) e is_submenu_labelled_eq)
  qed
  have "insert_command_entry es (seg # rest) c = do { sub' \<leftarrow> insert_command_entry sub rest c; Some (ys @ MenuSubmenu seg sub' # zs) }"
    by (simp add: Some) (simp add: es(1) es(2) [symmetric] e)
  with es(1) e submenu_entries_None [OF es(4)] submenu_entries_None [OF zs] show ?thesis by (intro present) simp_all
qed

text \<open>An insertion succeeds, keeps the labels distinct, and appends the command at its own path only.\<close>

lemma insert_command_spec:
  "menu_ok es \<Longrightarrow> no_panic (insert_command_entry es p c) (\<lambda>es'. es' \<noteq> [] \<and> menu_ok es' \<and>
     (\<forall>q. commands_at es' q = (if q = p then commands_at es q @ [c] else commands_at es q)))"
proof (induction p arbitrary: es)
  case Nil
  have "commands_at (es @ [MenuCommand c]) q = (if q = [] then commands_at es q @ [c] else commands_at es q)" for q
    by (cases q) simp_all
  with Nil show ?case by (simp add: menu_ok_def)
next
  case (Cons seg rest)
  from Cons.prems show ?case
  proof (cases rule: insert_split [where seg = seg and rest = rest and c = c])
    case (present ys sub zs)
    have sub: "menu_ok sub" using Cons.prems present(1) by (simp add: menu_ok_def)
    show ?thesis
      unfolding present(4)
    proof (rule no_panic_bind [OF Cons.IH [OF sub]])
      fix sub' assume sub': "sub' \<noteq> [] \<and> menu_ok sub' \<and>
        (\<forall>q. commands_at sub' q = (if q = rest then commands_at sub q @ [c] else commands_at sub q))"
      have "commands_at (ys @ MenuSubmenu seg sub' # zs) q =
          (if q = seg # rest then commands_at es q @ [c] else commands_at es q)" for q
        by (cases q) (use sub' present(2,3) in \<open>auto simp: present(1)\<close>)
      moreover have "menu_ok (ys @ MenuSubmenu seg sub' # zs)"
        using Cons.prems sub' by (simp add: menu_ok_def present(1))
      ultimately show "no_panic (Some (ys @ MenuSubmenu seg sub' # zs)) (\<lambda>es'. es' \<noteq> [] \<and> menu_ok es' \<and>
          (\<forall>q. commands_at es' q = (if q = seg # rest then commands_at es q @ [c] else commands_at es q)))" by simp
    qed
  next
    case absent
    have "menu_ok []" by (simp add: menu_ok_def)
    show ?thesis
      unfolding absent(3)
    proof (rule no_panic_bind [OF Cons.IH [OF \<open>menu_ok []\<close>]])
      fix sub' assume sub': "sub' \<noteq> [] \<and> menu_ok sub' \<and>
        (\<forall>q. commands_at sub' q = (if q = rest then commands_at [] q @ [c] else commands_at [] q))"
      have "commands_at (es @ [MenuSubmenu seg sub']) q =
          (if q = seg # rest then commands_at es q @ [c] else commands_at es q)" for q
        by (cases q) (use sub' absent(1) in \<open>auto\<close>)
      moreover have "menu_ok (es @ [MenuSubmenu seg sub'])"
        using Cons.prems sub' absent(2) by (simp add: menu_ok_def)
      ultimately show "no_panic (Some (es @ [MenuSubmenu seg sub'])) (\<lambda>es'. es' \<noteq> [] \<and> menu_ok es' \<and>
          (\<forall>q. commands_at es' q = (if q = seg # rest then commands_at es q @ [c] else commands_at es q)))" by simp
    qed
  qed
qed

lemma insert_descriptors_spec:
  "menu_ok es \<Longrightarrow> no_panic (insert_descriptors es ds) (\<lambda>es'. menu_ok es' \<and>
     (\<forall>q. commands_at es' q = commands_at es q @ map menu_command_of (filter (\<lambda>d. cd_menu_path d = q) ds)))"
proof (induction ds arbitrary: es)
  case (Cons d ds)
  show ?case
    unfolding insert_descriptors.simps
  proof (rule no_panic_bind [OF insert_command_spec [OF Cons.prems]])
    fix es' assume es': "es' \<noteq> [] \<and> menu_ok es' \<and> (\<forall>q. commands_at es' q =
      (if q = cd_menu_path d then commands_at es q @ [menu_command_of d] else commands_at es q))"
    then have "menu_ok es'" by simp
    from Cons.IH [OF this] es'
    show "no_panic (insert_descriptors es' ds) (\<lambda>es'. menu_ok es' \<and>
       (\<forall>q. commands_at es' q = commands_at es q @ map menu_command_of (filter (\<lambda>da. cd_menu_path da = q) (d # ds))))"
      by (auto simp: no_panic_def)
  qed
qed simp

end
