(* ===== verification/Key_Context.thy ===== *)
theory Key_Context
  imports Text
begin

text \<open>
  Key contexts and context predicates (\<open>crates/gpui/src/keymap/context.rs\<close>): data, evaluation, the superset test, the
  two parsers and the printer. \<open>alnum\<close> is \<open>char::is_alphanumeric\<close>, a table of the Unicode standard.
\<close>

section \<open>Contexts\<close>

record context_entry =
  ce_key :: str
  ce_value :: "str option"

type_synonym key_context = "context_entry list"

definition ctx_contains :: "key_context \<Rightarrow> str \<Rightarrow> bool" where
  "ctx_contains c key \<longleftrightarrow> list_ex (\<lambda>e. ce_key e = key) c"

definition ctx_get :: "key_context \<Rightarrow> str \<Rightarrow> str option" where
  "ctx_get c key = (case find (\<lambda>e. ce_key e = key) c of Some e \<Rightarrow> ce_value e | None \<Rightarrow> None)"

definition ctx_add :: "key_context \<Rightarrow> str \<Rightarrow> key_context" where
  "ctx_add c key = (if \<not> ctx_contains c key then c @ [\<lparr>ce_key = key, ce_value = None\<rparr>] else c)"

definition ctx_set :: "key_context \<Rightarrow> str \<Rightarrow> str \<Rightarrow> key_context" where
  "ctx_set c key v = (if \<not> ctx_contains c key then c @ [\<lparr>ce_key = key, ce_value = Some v\<rparr>] else c)"

definition ctx_extend :: "key_context \<Rightarrow> key_context \<Rightarrow> key_context" where
  "ctx_extend c other = fold (\<lambda>e c. if \<not> ctx_contains c (ce_key e) then c @ [e] else c) other c"

definition ctx_primary :: "key_context \<Rightarrow> context_entry option" where
  "ctx_primary c = find (\<lambda>e. ce_value e = None) c"

definition ctx_secondary :: "key_context \<Rightarrow> context_entry list" where
  "ctx_secondary c = filter (\<lambda>e. Some e \<noteq> ctx_primary c) c"

definition skip_whitespace :: "str \<Rightarrow> str" where
  "skip_whitespace s = dropWhile is_whitespace s"

definition is_identifier_char :: "(code_point \<Rightarrow> bool) \<Rightarrow> code_point \<Rightarrow> bool" where
  "is_identifier_char alnum c \<longleftrightarrow> alnum c \<or> c = 95 \<or> c = 45"

definition is_vim_operator_char :: "code_point \<Rightarrow> bool" where
  "is_vim_operator_char c \<longleftrightarrow> c = 62 \<or> c = 60 \<or> c = 126 \<or> c = 34 \<or> c = 63"

text \<open>The recursion of \<open>KeyContext::parse_expr\<close> need not end: then there is no result.\<close>

partial_function (option) ctx_parse_expr :: "(code_point \<Rightarrow> bool) \<Rightarrow> str \<Rightarrow> key_context \<Rightarrow> key_context option" where
  "ctx_parse_expr alnum source context =
     (if source = [] then Some context
      else
        let key = takeWhile (is_identifier_char alnum) source;
            s1 = skip_whitespace (drop (length key) source) in
        if starts_with s1 (lit ''='')
        then let s2 = skip_whitespace (tl s1);
                 v = takeWhile (is_identifier_char alnum) s2;
                 s3 = skip_whitespace (drop (length v) s2) in
               ctx_parse_expr alnum s3 (ctx_set context key v)
        else ctx_parse_expr alnum s1 (ctx_add context key))"

definition ctx_parse :: "(code_point \<Rightarrow> bool) \<Rightarrow> str \<Rightarrow> key_context option" where
  "ctx_parse alnum source = ctx_parse_expr alnum (skip_whitespace source) []"

section \<open>Predicates\<close>

datatype predicate =
    Identifier str | Equals str str | NotEquals str str
  | Descendant predicate predicate | Not predicate | And predicate predicate | Or predicate predicate

text \<open>\<open>eval_inner p contexts all_contexts\<close>, contexts from the root of the element tree down.\<close>

primrec eval_inner :: "predicate \<Rightarrow> key_context list \<Rightarrow> key_context list \<Rightarrow> bool" where
  "eval_inner (Identifier name) cs all_contexts \<longleftrightarrow> cs \<noteq> [] \<and> ctx_contains (last cs) name"
| "eval_inner (Equals l r) cs all_contexts \<longleftrightarrow>
     cs \<noteq> [] \<and> (case ctx_get (last cs) l of Some v \<Rightarrow> v = r | None \<Rightarrow> False)"
| "eval_inner (NotEquals l r) cs all_contexts \<longleftrightarrow>
     cs \<noteq> [] \<and> (case ctx_get (last cs) l of Some v \<Rightarrow> v \<noteq> r | None \<Rightarrow> True)"
| "eval_inner (Not p) cs all_contexts \<longleftrightarrow>
     cs \<noteq> [] \<and> \<not> list_ex (\<lambda>i. eval_inner p (take (Suc i) all_contexts) all_contexts) [0..<length all_contexts]"
| "eval_inner (Descendant parent child) cs all_contexts \<longleftrightarrow>
     cs \<noteq> [] \<and>
     (case find (\<lambda>i. eval_inner parent (take (Suc i) cs) all_contexts) [0..<length cs - 1] of
        Some i \<Rightarrow> eval_inner child (drop (Suc i) cs) (drop (Suc i) cs)
      | None \<Rightarrow> False)"
| "eval_inner (And l r) cs all_contexts \<longleftrightarrow> cs \<noteq> [] \<and> eval_inner l cs all_contexts \<and> eval_inner r cs all_contexts"
| "eval_inner (Or l r) cs all_contexts \<longleftrightarrow> cs \<noteq> [] \<and> (eval_inner l cs all_contexts \<or> eval_inner r cs all_contexts)"

definition eval :: "predicate \<Rightarrow> key_context list \<Rightarrow> bool" where
  "eval p cs = eval_inner p cs cs"

definition depth_of :: "predicate \<Rightarrow> key_context list \<Rightarrow> nat option" where
  "depth_of p cs = find (\<lambda>depth. eval_inner p (take depth cs) cs) (rev [0..<length cs + 1])"

text \<open>\<open>is_superset\<close> descends into \<open>self\<close> where that is a disjunction, and into \<open>other\<close> otherwise.\<close>

fun is_superset :: "predicate \<Rightarrow> predicate \<Rightarrow> bool" where
  "is_superset (Or l r) other \<longleftrightarrow> Or l r = other \<or> is_superset l other \<or> is_superset r other"
| "is_superset p (Descendant q child) \<longleftrightarrow> p = Descendant q child \<or> is_superset p child"
| "is_superset p (And l r) \<longleftrightarrow> p = And l r \<or> is_superset p l \<or> is_superset p r"
| "is_superset p q \<longleftrightarrow> p = q"

section \<open>Parsing\<close>

datatype predicate_error = UnexpectedEnd | ExpectedParen | UnexpectedCharacter code_point | EqOperands | NeqOperands

datatype operator = ChildOp | AndOp | OrOp | EqOp | NeqOp

fun operator_text :: "operator \<Rightarrow> str" where
  "operator_text ChildOp = lit ''>''"
| "operator_text AndOp = lit ''&&''"
| "operator_text OrOp = lit ''||''"
| "operator_text EqOp = lit ''==''"
| "operator_text NeqOp = lit ''!=''"

definition PRECEDENCE_NOT :: nat where
  "PRECEDENCE_NOT = 5"

fun precedence :: "operator \<Rightarrow> nat" where
  "precedence ChildOp = 1"
| "precedence OrOp = 2"
| "precedence AndOp = 3"
| "precedence EqOp = 4"
| "precedence NeqOp = 4"

fun construct :: "operator \<Rightarrow> predicate \<Rightarrow> predicate \<Rightarrow> predicate_error + predicate" where
  "construct ChildOp p q = Inr (Descendant p q)"
| "construct AndOp p q = Inr (And p q)"
| "construct OrOp p q = Inr (Or p q)"
| "construct EqOp p q = (case (p, q) of (Identifier l, Identifier r) \<Rightarrow> Inr (Equals l r) | _ \<Rightarrow> Inl EqOperands)"
| "construct NeqOp p q = (case (p, q) of (Identifier l, Identifier r) \<Rightarrow> Inr (NotEquals l r) | _ \<Rightarrow> Inl NeqOperands)"

text \<open>The inner loop of \<open>parse_expr\<close>: the first operator at the front whose precedence suffices.\<close>

definition operator_at :: "str \<Rightarrow> nat \<Rightarrow> operator option" where
  "operator_at source k =
     find (\<lambda>op. starts_with source (operator_text op) \<and> k \<le> precedence op) [ChildOp, AndOp, OrOp, EqOp, NeqOp]"

lemma operator_at_prefix: "operator_at source k = Some op \<Longrightarrow> starts_with source (operator_text op) \<and> k \<le> precedence op"
  unfolding operator_at_def by (auto simp: find_Some_iff simp del: find.simps)

lemma starts_with_length: "starts_with s p \<Longrightarrow> length p \<le> length s"
  by (induction s p rule: starts_with.induct) auto

lemma operator_text_length [simp]: "0 < length (operator_text op)"
  by (cases op) (simp_all add: lit_def)

lemma skip_whitespace_length: "length (skip_whitespace s) \<le> length s"
  by (simp add: skip_whitespace_def length_dropWhile_le)

lemma after_operator_shorter:
  assumes "operator_at source k = Some op"
  shows "length (skip_whitespace (drop (length (operator_text op)) source)) < length source"
proof -
  have "length (operator_text op) \<le> length source"
    using operator_at_prefix [OF assms] starts_with_length by blast
  then have "length (drop (length (operator_text op)) source) < length source"
    using operator_text_length [of op] by (simp only: length_drop)
  then show ?thesis by (rule le_less_trans [OF skip_whitespace_length])
qed

text \<open>Identifiers end at the first character that is neither an identifier nor an operator character of vim.\<close>

definition identifier_length :: "(code_point \<Rightarrow> bool) \<Rightarrow> str \<Rightarrow> nat" where
  "identifier_length alnum source = length (takeWhile (\<lambda>c. is_identifier_char alnum c \<or> is_vim_operator_char c) source)"

type_synonym parsed = "predicate_error + predicate \<times> str"

function (domintros)
  parse_expr :: "(code_point \<Rightarrow> bool) \<Rightarrow> str \<Rightarrow> nat \<Rightarrow> parsed" and
  parse_loop :: "(code_point \<Rightarrow> bool) \<Rightarrow> predicate \<Rightarrow> str \<Rightarrow> nat \<Rightarrow> parsed" and
  parse_primary :: "(code_point \<Rightarrow> bool) \<Rightarrow> str \<Rightarrow> parsed"
where
  "parse_expr alnum source k =
     (case parse_primary alnum source of Inl e \<Rightarrow> Inl e | Inr (p, rest) \<Rightarrow> parse_loop alnum p rest k)"
| "parse_loop alnum p source k =
     (case operator_at source k of
        None \<Rightarrow> Inr (p, source)
      | Some op \<Rightarrow>
          (case parse_expr alnum (skip_whitespace (drop (length (operator_text op)) source)) (precedence op + 1) of
             Inl e \<Rightarrow> Inl e
           | Inr (right, rest) \<Rightarrow>
               (case construct op p right of Inl e \<Rightarrow> Inl e | Inr p' \<Rightarrow> parse_loop alnum p' rest k)))"
| "parse_primary alnum source =
     (case source of
        [] \<Rightarrow> Inl UnexpectedEnd
      | c # cs \<Rightarrow>
          if c = 40 then
            (case parse_expr alnum (skip_whitespace cs) 0 of
               Inl e \<Rightarrow> Inl e
             | Inr (p, rest) \<Rightarrow> if starts_with rest (lit '')'') then Inr (p, skip_whitespace (tl rest)) else Inl ExpectedParen)
          else if c = 33 then
            (case parse_expr alnum (skip_whitespace cs) PRECEDENCE_NOT of
               Inl e \<Rightarrow> Inl e
             | Inr (p, rest) \<Rightarrow> Inr (Not p, rest))
          else if is_identifier_char alnum c then
            (let len = identifier_length alnum source in Inr (Identifier (take len source), skip_whitespace (drop len source)))
          else if is_vim_operator_char c then Inr (Identifier [c], skip_whitespace cs)
          else Inl (UnexpectedCharacter c))"
  by pat_completeness auto

text \<open>What a parser leaves over is shorter than what it got; this is why the parsers end.\<close>

lemma parse_rest_shorter:
  "parse_expr_parse_loop_parse_primary_dom (Inl (alnum, source, k)) \<Longrightarrow>
     parse_expr alnum source k = Inr (q, rest) \<Longrightarrow> length rest < length source"
  "parse_expr_parse_loop_parse_primary_dom (Inr (Inl (alnum, p, source, k))) \<Longrightarrow>
     parse_loop alnum p source k = Inr (q, rest) \<Longrightarrow> length rest \<le> length source"
  "parse_expr_parse_loop_parse_primary_dom (Inr (Inr (alnum, source))) \<Longrightarrow>
     parse_primary alnum source = Inr (q, rest) \<Longrightarrow> length rest < length source"
proof (induction arbitrary: q rest and q rest and q rest rule: parse_expr_parse_loop_parse_primary.pinduct)
  case (1 alnum source k)
  from 1(1) 1(4) obtain p r where pr: "parse_primary alnum source = Inr (p, r)" "parse_loop alnum p r k = Inr (q, rest)"
    by (auto simp: parse_expr.psimps split: sum.splits)
  from 1(2) [OF pr(1)] 1(3) [OF pr(1) refl pr(2)] show ?case by (rule le_less_trans [rotated])
next
  case (2 alnum p source k)
  show ?case
  proof (cases "operator_at source k")
    case None
    with 2(1,4) show ?thesis by (simp add: parse_loop.psimps)
  next
    case (Some op)
    let ?after = "skip_whitespace (drop (length (operator_text op)) source)"
    from Some 2(1,4) obtain right r p' where
      right: "parse_expr alnum ?after (precedence op + 1) = Inr (right, r)" and
      p': "construct op p right = Inr p'" "parse_loop alnum p' r k = Inr (q, rest)"
      by (auto simp: parse_loop.psimps split: sum.splits)
    have "length r < length ?after" using 2(2) [OF Some right] .
    moreover have "length rest \<le> length r" using 2(3) [OF Some right refl p'] .
    ultimately show ?thesis using after_operator_shorter [OF Some] by simp
  qed
next
  case (3 alnum source)
  show ?case
  proof (cases source)
    case Nil
    with 3(1,4) show ?thesis by (simp add: parse_primary.psimps)
  next
    case (Cons c cs)
    consider "c = 40" | "c = 33" | "c \<noteq> 40" "c \<noteq> 33" by blast
    then show ?thesis
    proof cases
      case 1
      with Cons 3(1,4) obtain p r where
        "parse_expr alnum (skip_whitespace cs) 0 = Inr (p, r)" "rest = skip_whitespace (tl r)"
        by (auto simp: parse_primary.psimps split: sum.splits if_splits)
      with 3(2) [OF Cons 1] skip_whitespace_length [of "tl r"] skip_whitespace_length [of cs] Cons show ?thesis
        by fastforce
    next
      case 2
      with Cons 3(1,4) obtain p where "parse_expr alnum (skip_whitespace cs) PRECEDENCE_NOT = Inr (p, rest)"
        by (auto simp: parse_primary.psimps split: sum.splits if_splits)
      with 3(3) [OF Cons _ 2] 2 skip_whitespace_length [of cs] Cons show ?thesis by fastforce
    next
      case 3
      have "length (skip_whitespace (drop (identifier_length alnum source) source)) < length source"
        if "is_identifier_char alnum c"
      proof -
        have "0 < identifier_length alnum source" using that by (simp add: identifier_length_def Cons)
        then have "length (drop (identifier_length alnum source) source) < length source" using Cons by simp
        then show ?thesis by (rule le_less_trans [OF skip_whitespace_length])
      qed
      with 3 Cons \<open>parse_expr_parse_loop_parse_primary_dom (Inr (Inr (alnum, source)))\<close>
        \<open>parse_primary alnum source = Inr (q, rest)\<close> skip_whitespace_length [of cs]
      show ?thesis by (auto simp: parse_primary.psimps Let_def split: if_splits)
    qed
  qed
qed

text \<open>The measure: the length of the source; for equal lengths the expression comes before its first primary.\<close>

termination parse_expr
proof (relation "measure (\<lambda>x. case x of Inl (_, source, _) \<Rightarrow> 2 * length source + 1
    | Inr (Inl (_, _, source, _)) \<Rightarrow> 2 * length source | Inr (Inr (_, source)) \<Rightarrow> 2 * length source)", goal_cases)
  case (3 alnum source k x a b)
  then show ?case using parse_rest_shorter(3) [of alnum source a b] by fastforce
next
  case (4 alnum p source k op)
  from after_operator_shorter [OF 4] show ?case by simp
next
  case (5 alnum p source k op x right rest p')
  then show ?case
    using after_operator_shorter [OF 5(1)] parse_rest_shorter(1) by fastforce
next
  case (6 alnum source c cs)
  then show ?case using skip_whitespace_length [of cs] by simp
next
  case (7 alnum source c cs)
  then show ?case using skip_whitespace_length [of cs] by simp
qed simp_all

declare parse_expr.simps [simp del] parse_loop.simps [simp del] parse_primary.simps [simp del]

definition predicate_parse :: "(code_point \<Rightarrow> bool) \<Rightarrow> str \<Rightarrow> predicate_error + predicate" where
  "predicate_parse alnum source =
     (case parse_expr alnum (skip_whitespace source) 0 of
        Inl e \<Rightarrow> Inl e
      | Inr (p, rest) \<Rightarrow> (case rest of c # cs \<Rightarrow> Inl (UnexpectedCharacter c) | [] \<Rightarrow> Inr p))"

section \<open>Printing\<close>

definition is_or :: "predicate \<Rightarrow> bool" where
  "is_or p = (case p of Or l r \<Rightarrow> True | _ \<Rightarrow> False)"

definition is_and :: "predicate \<Rightarrow> bool" where
  "is_and p = (case p of And l r \<Rightarrow> True | _ \<Rightarrow> False)"

text \<open>
  \<open>Display\<close>; \<open>display_and\<close> and \<open>display_or\<close> are \<open>fmt_joined_inner\<close> for the two operators: the pieces
  between the separators.
\<close>

fun predicate_display :: "predicate \<Rightarrow> str" and display_and :: "predicate \<Rightarrow> str list" and display_or :: "predicate \<Rightarrow> str list"
where
  "predicate_display (Identifier name) = name"
| "predicate_display (Equals l r) = l @ lit '' == '' @ r"
| "predicate_display (NotEquals l r) = l @ lit '' != '' @ r"
| "predicate_display (Descendant p c) = predicate_display p @ lit '' > '' @ predicate_display c"
| "predicate_display (Not p) =
     (case p of Identifier name \<Rightarrow> lit ''!'' @ name | _ \<Rightarrow> lit ''!('' @ predicate_display p @ lit '')'')"
| "predicate_display (And l r) = join (lit '' && '') (display_and l @ display_and r)"
| "predicate_display (Or l r) = join (lit '' || '') (display_or l @ display_or r)"
| "display_and (And l r) = display_and l @ display_and r"
| "display_and (Or l r) = [lit ''('' @ predicate_display (Or l r) @ lit '')'']"
| "display_and p = [predicate_display p]"
| "display_or (Or l r) = display_or l @ display_or r"
| "display_or (And l r) = [lit ''('' @ predicate_display (And l r) @ lit '')'']"
| "display_or p = [predicate_display p]"

end
