(* ===== verification/Key_Context_Laws.thy ===== *)
theory Key_Context_Laws
  imports Key_Context
begin

text \<open>
  The laws of key contexts and their predicates: which context strings can be parsed at all, when the superset test is
  right, and that a printed predicate parses to itself.
\<close>

section \<open>Parsing contexts\<close>

definition context_char :: "(code_point \<Rightarrow> bool) \<Rightarrow> code_point \<Rightarrow> bool" where
  "context_char alnum c \<longleftrightarrow> is_identifier_char alnum c \<or> is_whitespace c \<or> c = 61"

lemma drop_takeWhile: "drop (length (takeWhile P s)) s = dropWhile P s"
  by (simp add: dropWhile_eq_drop)

lemma set_skip_whitespace: "c \<in> set s \<Longrightarrow> c \<in> set (skip_whitespace s) \<or> is_whitespace c"
  unfolding skip_whitespace_def using set_takeWhileD [of c is_whitespace s] takeWhile_dropWhile_id [of is_whitespace s]
  by (metis UnE set_append)

lemma set_dropWhile_or: "c \<in> set s \<Longrightarrow> c \<in> set (dropWhile P s) \<or> P c"
  using set_takeWhileD [of c P s] takeWhile_dropWhile_id [of P s] by (metis UnE set_append)

lemma ctx_parse_expr_chars:
  assumes "ctx_parse_expr alnum source ctx = Some r"
  shows "\<forall>c \<in> set source. context_char alnum c"
proof (rule ctx_parse_expr.raw_induct [where P = "\<lambda>alnum source ctx r. \<forall>c \<in> set source. context_char alnum c", OF _ assms])
  fix rec alnum source ctx r
  assume IH: "\<And>alnum source ctx r. rec alnum source ctx = Some r \<Longrightarrow> \<forall>c \<in> set source. context_char alnum c"
    and body: "(if source = [] then Some ctx
      else let key = takeWhile (is_identifier_char alnum) source; s1 = skip_whitespace (drop (length key) source) in
        if starts_with s1 (lit ''='')
        then let s2 = skip_whitespace (tl s1); v = takeWhile (is_identifier_char alnum) s2;
                 s3 = skip_whitespace (drop (length v) s2) in rec alnum s3 (ctx_set ctx key v)
        else rec alnum s1 (ctx_add ctx key)) = Some (r :: key_context)"
  let ?s1 = "skip_whitespace (dropWhile (is_identifier_char alnum) source)"
  have outer: "\<forall>c \<in> set source. context_char alnum c" if "\<forall>d \<in> set ?s1. context_char alnum d"
    using that set_dropWhile_or [of _ source "is_identifier_char alnum"] set_skip_whitespace
    by (auto simp: context_char_def)
  show "\<forall>c \<in> set source. context_char alnum c"
  proof (cases "source = []")
    case nonempty: False
    show ?thesis
    proof (cases "starts_with ?s1 (lit ''='')")
      case True
      then obtain cs where s1: "?s1 = 61 # cs" by (cases ?s1) (auto simp: lit_def)
      let ?s2 = "skip_whitespace cs"
      let ?s3 = "skip_whitespace (dropWhile (is_identifier_char alnum) ?s2)"
      have "\<forall>c \<in> set ?s3. context_char alnum c"
        using body nonempty True by (intro IH) (simp add: drop_takeWhile Let_def s1)
      then have "\<forall>c \<in> set ?s2. context_char alnum c"
        using set_dropWhile_or [of _ ?s2 "is_identifier_char alnum"] set_skip_whitespace by (auto simp: context_char_def)
      then have "\<forall>c \<in> set cs. context_char alnum c"
        using set_skip_whitespace [of _ cs] by (auto simp: context_char_def)
      then show ?thesis by (intro outer) (simp add: s1 context_char_def)
    next
      case False
      have "\<forall>c \<in> set ?s1. context_char alnum c"
        using body nonempty False by (intro IH) (simp add: drop_takeWhile Let_def)
      then show ?thesis by (rule outer)
    qed
  qed simp
qed

lemma ctx_parse_expr_returns:
  assumes "\<forall>c \<in> set source. context_char alnum c"
  shows "\<exists>r. ctx_parse_expr alnum source ctx = Some r"
  using assms
proof (induction "length source" arbitrary: source ctx rule: less_induct)
  case less
  show ?case
  proof (cases "source = []")
    case True
    then show ?thesis by (subst ctx_parse_expr.simps) simp
  next
    case False
    let ?s0 = "dropWhile (is_identifier_char alnum) source"
    let ?s1 = "skip_whitespace ?s0"
    have s1: "length ?s1 \<le> length source" "set ?s1 \<subseteq> set source"
      using skip_whitespace_length [of ?s0] length_dropWhile_le [of "is_identifier_char alnum" source]
        set_dropWhileD [of _ is_whitespace ?s0] set_dropWhileD [of _ "is_identifier_char alnum" source]
      by (auto simp: skip_whitespace_def)
    show ?thesis
    proof (cases "starts_with ?s1 (lit ''='')")
      case True
      then obtain cs where cs: "?s1 = 61 # cs" by (cases ?s1) (auto simp: lit_def)
      let ?s3 = "skip_whitespace (dropWhile (is_identifier_char alnum) (skip_whitespace cs))"
      have "length ?s3 \<le> length cs" "set ?s3 \<subseteq> set cs"
        using skip_whitespace_length [of "dropWhile (is_identifier_char alnum) (skip_whitespace cs)"]
          length_dropWhile_le [of "is_identifier_char alnum" "skip_whitespace cs"] skip_whitespace_length [of cs]
        by (auto simp: skip_whitespace_def dest!: set_dropWhileD)
      then have "length ?s3 < length source" "\<forall>c \<in> set ?s3. context_char alnum c"
        using s1 cs less.prems by (auto simp: subset_iff)
      from less.hyps [OF this] False True cs show ?thesis
        by (subst ctx_parse_expr.simps) (simp add: drop_takeWhile Let_def)
    next
      case False': False
      obtain c cs where source: "source = c # cs" using False by (cases source) auto
      have "context_char alnum c" using less.prems source by simp
      then have "length ?s1 < length source"
      proof (cases "is_identifier_char alnum c")
        case True
        then have "length ?s0 \<le> length cs" using source length_dropWhile_le by simp
        with skip_whitespace_length [of ?s0] source show ?thesis by simp
      next
        case no_ident: False
        then have s0: "?s0 = c # cs" using source by simp
        show ?thesis
        proof (cases "is_whitespace c")
          case True
          then have "?s1 = skip_whitespace cs" by (simp add: s0 skip_whitespace_def)
          with skip_whitespace_length [of cs] source show ?thesis by simp
        next
          case False
          then have "?s1 = c # cs" by (simp add: s0 skip_whitespace_def)
          with \<open>context_char alnum c\<close> no_ident False False' show ?thesis by (auto simp: context_char_def lit_def)
        qed
      qed
      then have "\<exists>r. ctx_parse_expr alnum ?s1 (ctx_add ctx (takeWhile (is_identifier_char alnum) source)) = Some r"
        using less.hyps less.prems s1(2) by blast
      with False False' show ?thesis by (subst ctx_parse_expr.simps) (simp add: drop_takeWhile Let_def)
    qed
  qed
qed

lemma skip_whitespace_chars: "(\<forall>c \<in> set (skip_whitespace s). context_char alnum c) \<longleftrightarrow> (\<forall>c \<in> set s. context_char alnum c)"
  using set_skip_whitespace [of _ s] set_dropWhileD [of _ is_whitespace s] by (auto simp: skip_whitespace_def context_char_def)

lemma ctx_parse_ends: "ctx_parse alnum s \<noteq> None \<longleftrightarrow> (\<forall>c \<in> set s. context_char alnum c)"
  unfolding ctx_parse_def using ctx_parse_expr_chars ctx_parse_expr_returns skip_whitespace_chars by blast

section \<open>The superset test\<close>

fun negation_free :: "predicate \<Rightarrow> bool" where
  "negation_free (Not p) \<longleftrightarrow> False"
| "negation_free (Descendant p q) \<longleftrightarrow> negation_free p \<and> negation_free q"
| "negation_free (And p q) \<longleftrightarrow> negation_free p \<and> negation_free q"
| "negation_free (Or p q) \<longleftrightarrow> negation_free p \<and> negation_free q"
| "negation_free _ \<longleftrightarrow> True"

lemma eval_nonempty: "eval_inner p cs a \<Longrightarrow> cs \<noteq> []"
  by (cases p) auto

lemma find_upt_Some: "find P [0..<n] = Some i \<longleftrightarrow> i < n \<and> P i \<and> (\<forall>j<i. \<not> P j)"
  by (auto simp: find_Some_iff)

lemma find_upt_least: "P i \<Longrightarrow> i < n \<Longrightarrow> \<exists>j \<le> i. find P [0..<n] = Some j"
proof -
  assume "P i" "i < n"
  then have "find P [0..<n] \<noteq> None" by (auto simp: find_None_iff)
  then obtain j where j: "find P [0..<n] = Some j" by blast
  with \<open>P i\<close> have "j \<le> i" by (auto simp: find_upt_Some not_less [symmetric])
  with j show ?thesis by blast
qed

text \<open>Without negation, contexts further out do no harm, and the set of all contexts does not matter.\<close>

lemma eval_monotone: "negation_free p \<Longrightarrow> eval_inner p ys a \<Longrightarrow> eval_inner p (xs @ ys) b"
proof (induction p arbitrary: xs ys a b)
  case (Descendant parent child xs ys a b)
  let ?P = "\<lambda>zs a i. eval_inner parent (take (Suc i) zs) a"
  from Descendant.prems(2) obtain i where i: "i < length ys - 1" "?P ys a i" "eval_inner child (drop (Suc i) ys) (drop (Suc i) ys)"
    by (auto simp: find_upt_Some split: option.splits)
  have "eval_inner parent (xs @ take (Suc i) ys) b"
    by (rule Descendant.IH(1) [OF _ i(2)]) (use Descendant.prems in simp)
  then have "?P (xs @ ys) b (length xs + i)" by simp
  moreover have "length xs + i < length (xs @ ys) - 1" using i(1) by simp
  ultimately obtain j where j: "j \<le> length xs + i" "find (?P (xs @ ys) b) [0..<length (xs @ ys) - 1] = Some j"
    using find_upt_least [of "?P (xs @ ys) b"] by blast
  have "length xs + i - j + Suc j = length xs + Suc i" using j(1) by simp
  then have "drop (length xs + i - j) (drop (Suc j) (xs @ ys)) = drop (length xs + Suc i) (xs @ ys)"
    by (simp only: drop_drop)
  also have "\<dots> = drop (Suc i) ys" by simp
  finally have "drop (Suc i) ys = drop (length xs + i - j) (drop (Suc j) (xs @ ys))" by (rule sym)
  then have "drop (Suc j) (xs @ ys) = take (length xs + i - j) (drop (Suc j) (xs @ ys)) @ drop (Suc i) ys"
    by (simp only: append_take_drop_id)
  moreover have "eval_inner child (take (length xs + i - j) (drop (Suc j) (xs @ ys)) @ drop (Suc i) ys) (drop (Suc j) (xs @ ys))"
    by (rule Descendant.IH(2) [OF _ i(3)]) (use Descendant.prems in simp)
  ultimately have "eval_inner child (drop (Suc j) (xs @ ys)) (drop (Suc j) (xs @ ys))" by simp
  with j(2) i(1) show ?case by auto
qed (auto dest: eval_nonempty)

lemma eval_descendant:
  assumes "negation_free p" and child: "\<And>cs a. eval_inner child cs a \<Longrightarrow> eval_inner p cs a"
    and "eval_inner (Descendant q child) cs a"
  shows "eval_inner p cs a"
proof -
  from assms(3) obtain i where "eval_inner child (drop (Suc i) cs) (drop (Suc i) cs)" by (auto split: option.splits)
  from eval_monotone [OF assms(1) child [OF this], of "take (Suc i) cs" a] show ?thesis by simp
qed

lemma is_superset_unfold:
  "(\<forall>l r. p \<noteq> Or l r) \<Longrightarrow> is_superset p q \<longleftrightarrow> p = q \<or>
     (case q of Descendant _ child \<Rightarrow> is_superset p child | And l r \<Rightarrow> is_superset p l \<or> is_superset p r | _ \<Rightarrow> False)"
  by (cases p; cases q) simp_all

lemma superset_sound_single:
  assumes "negation_free p" and "\<forall>l r. p \<noteq> Or l r"
  shows "is_superset p q \<Longrightarrow> eval_inner q cs a \<Longrightarrow> eval_inner p cs a"
proof (induction q arbitrary: cs a)
  case (Descendant q child)
  show ?case
  proof (cases "p = Descendant q child")
    case False
    then have "is_superset p child" using Descendant.prems(1) assms(2) by (simp add: is_superset_unfold)
    with Descendant.IH(2) show ?thesis by (intro eval_descendant [OF assms(1) _ Descendant.prems(2)])
  qed (use Descendant.prems in simp)
qed (use assms(2) in \<open>auto simp: is_superset_unfold\<close>)

lemma superset_sound: "negation_free p \<Longrightarrow> is_superset p q \<Longrightarrow> eval_inner q cs a \<Longrightarrow> eval_inner p cs a"
proof (induction p)
  case (Or l r)
  then show ?case using eval_nonempty [of q cs a] by auto
qed (use superset_sound_single [of _ q cs a] in \<open>simp_all del: eval_inner.simps\<close>)

section \<open>Depth\<close>

lemma depth_of_spec:
  "depth_of p cs = (if \<exists>d \<le> length cs. eval_inner p (take d cs) cs
     then Some (Max {d. d \<le> length cs \<and> eval_inner p (take d cs) cs}) else None)"
proof -
  let ?P = "\<lambda>d. eval_inner p (take d cs) cs"
  have rev_find: "find P (rev [0..<n]) = (if \<exists>d<n. P d then Some (Max {d. d < n \<and> P d}) else None)" for P :: "nat \<Rightarrow> bool" and n
  proof (induction n)
    case (Suc n)
    have split: "{d. d < Suc n \<and> P d} = (if P n then insert n {d. d < n \<and> P d} else {d. d < n \<and> P d})"
      by (auto simp: less_Suc_eq)
    show ?case
    proof (cases "P n")
      case True
      have "Max (insert n {d. d < n \<and> P d}) = n" by (rule Max_eqI) auto
      with True split show ?thesis by auto
    next
      case False
      with Suc split show ?thesis by (auto simp: less_Suc_eq)
    qed
  qed simp
  show ?thesis unfolding depth_of_def rev_find by (simp add: less_Suc_eq_le)
qed

section \<open>Printed predicates parse to themselves\<close>

text \<open>What the program relies on of \<open>char::is_alphanumeric\<close>: its ASCII part, and that no whitespace is alphanumeric.\<close>

definition unicode_alnum :: "(code_point \<Rightarrow> bool) \<Rightarrow> bool" where
  "unicode_alnum alnum \<longleftrightarrow> (\<forall>c < 128. alnum c \<longleftrightarrow> is_ascii_alphanumeric c) \<and> (\<forall>c. is_whitespace c \<longrightarrow> \<not> alnum c)"

fun level :: "predicate \<Rightarrow> nat" where
  "level (Descendant p q) = 1"
| "level (Or p q) = 2"
| "level (And p q) = 3"
| "level (Equals l r) = 4"
| "level (NotEquals l r) = 4"
| "level _ = 5"

definition word_char :: "(code_point \<Rightarrow> bool) \<Rightarrow> code_point \<Rightarrow> bool" where
  "word_char alnum c \<longleftrightarrow> is_identifier_char alnum c \<or> is_vim_operator_char c"

definition identifier_ok :: "(code_point \<Rightarrow> bool) \<Rightarrow> str \<Rightarrow> bool" where
  "identifier_ok alnum n \<longleftrightarrow> (\<exists>c. n = [c] \<and> is_vim_operator_char c) \<or>
     n \<noteq> [] \<and> is_identifier_char alnum (hd n) \<and> (\<forall>c \<in> set n. word_char alnum c)"

text \<open>
  Operators of one kind associate to the left, and no \<open>>\<close> stands below \<open>&&\<close>, \<open>||\<close> or to the right of
  another \<open>>\<close>: there the printer would need parentheses that it does not write.
\<close>

fun printable :: "(code_point \<Rightarrow> bool) \<Rightarrow> predicate \<Rightarrow> bool" where
  "printable alnum (Identifier n) \<longleftrightarrow> identifier_ok alnum n"
| "printable alnum (Equals l r) \<longleftrightarrow> identifier_ok alnum l \<and> identifier_ok alnum r"
| "printable alnum (NotEquals l r) \<longleftrightarrow> identifier_ok alnum l \<and> identifier_ok alnum r"
| "printable alnum (Not p) \<longleftrightarrow> printable alnum p"
| "printable alnum (And l r) \<longleftrightarrow> printable alnum l \<and> printable alnum r \<and> 1 < level l \<and> 1 < level r \<and> level r \<noteq> 3"
| "printable alnum (Or l r) \<longleftrightarrow> printable alnum l \<and> printable alnum r \<and> 1 < level l \<and> 2 < level r"
| "printable alnum (Descendant p c) \<longleftrightarrow> printable alnum p \<and> printable alnum c \<and> 1 < level c"

definition parens :: "str \<Rightarrow> str" where
  "parens s = lit ''('' @ s @ lit '')''"

definition operand :: "(predicate \<Rightarrow> bool) \<Rightarrow> predicate \<Rightarrow> str" where
  "operand needs_parens p = (if needs_parens p then parens (predicate_display p) else predicate_display p)"

lemma join_snoc: "xs \<noteq> [] \<Longrightarrow> join sep (xs @ [y]) = join sep xs @ sep @ y"
  by (induction sep xs rule: join.induct) auto

lemma display_pieces [simp]: "display_and p \<noteq> []" "display_or p \<noteq> []"
  by (induction p) auto

lemma join_display_and: "join (lit '' && '') (display_and p) = operand is_or p"
  by (cases p) (simp_all add: operand_def is_or_def parens_def)

lemma join_display_or: "join (lit '' || '') (display_or p) = operand is_and p"
  by (cases p) (simp_all add: operand_def is_and_def parens_def)

lemma display_And: "level r \<noteq> 3 \<Longrightarrow> predicate_display (And l r) = operand is_or l @ lit '' && '' @ operand is_or r"
proof -
  assume "level r \<noteq> 3"
  then have "display_and r = [operand is_or r]" by (cases r) (simp_all add: operand_def is_or_def parens_def)
  then show ?thesis by (simp add: join_snoc join_display_and)
qed

lemma display_Or: "level r \<noteq> 2 \<Longrightarrow> predicate_display (Or l r) = operand is_and l @ lit '' || '' @ operand is_and r"
proof -
  assume "level r \<noteq> 2"
  then have "display_or r = [operand is_and r]" by (cases r) (simp_all add: operand_def is_and_def parens_def)
  then show ?thesis by (simp add: join_snoc join_display_or)
qed

text \<open>\<open>stops alnum r n\<close>: a word ends before \<open>r\<close>, and no operator above precedence \<open>n\<close> follows.\<close>

definition stops :: "(code_point \<Rightarrow> bool) \<Rightarrow> str \<Rightarrow> nat \<Rightarrow> bool" where
  "stops alnum r n \<longleftrightarrow> (r \<noteq> [] \<longrightarrow> \<not> word_char alnum (hd r)) \<and> (\<forall>k > n. operator_at (skip_whitespace r) k = None)"

lemma stops_mono: "stops alnum r n \<Longrightarrow> n \<le> m \<Longrightarrow> stops alnum r m"
  by (simp add: stops_def)

lemma operator_at_5: "operator_at s 5 = None"
  by (simp add: operator_at_def)

lemma word_char_facts:
  assumes "unicode_alnum alnum"
  shows "word_char alnum c \<Longrightarrow> \<not> is_whitespace c" "\<not> word_char alnum 40" "\<not> word_char alnum 33" "\<not> word_char alnum 41"
    "\<not> word_char alnum 32" "is_vim_operator_char c \<Longrightarrow> \<not> is_identifier_char alnum c"
proof -
  have ascii: "d < 128 \<Longrightarrow> alnum d \<longleftrightarrow> is_ascii_alphanumeric d" for d using assms by (simp add: unicode_alnum_def)
  have marks: "\<not> is_whitespace 62" "\<not> is_whitespace 60" "\<not> is_whitespace 126" "\<not> is_whitespace 34" "\<not> is_whitespace 63"
    "\<not> is_whitespace 95" "\<not> is_whitespace 45"
    by (simp_all add: is_whitespace_def)
  show "\<not> is_whitespace c" if "word_char alnum c"
  proof (cases "alnum c")
    case True
    then show ?thesis using assms by (auto simp: unicode_alnum_def)
  next
    case False
    with that have "c = 95 \<or> c = 45 \<or> c = 62 \<or> c = 60 \<or> c = 126 \<or> c = 34 \<or> c = 63"
      by (simp add: word_char_def is_identifier_char_def is_vim_operator_char_def)
    with marks show ?thesis by (elim disjE) simp_all
  qed
  show "\<not> word_char alnum 40" "\<not> word_char alnum 33" "\<not> word_char alnum 41" "\<not> word_char alnum 32"
    by (simp_all add: word_char_def is_identifier_char_def is_vim_operator_char_def ascii is_ascii_alphanumeric_def)
  have "\<not> is_identifier_char alnum 62" "\<not> is_identifier_char alnum 60" "\<not> is_identifier_char alnum 126"
    "\<not> is_identifier_char alnum 34" "\<not> is_identifier_char alnum 63"
    by (simp_all add: is_identifier_char_def ascii is_ascii_alphanumeric_def)
  then show "\<not> is_identifier_char alnum c" if "is_vim_operator_char c"
    using that unfolding is_vim_operator_char_def by (elim disjE) simp_all
qed

lemma skip_nonspace [simp]: "\<not> is_whitespace c \<Longrightarrow> skip_whitespace (c # s) = c # s"
  by (simp add: skip_whitespace_def)

lemma skip_space [simp]: "skip_whitespace (32 # s) = skip_whitespace s"
  by (simp add: skip_whitespace_def is_whitespace_def)

text \<open>\<open>starts_clean s\<close>: the text does not begin with whitespace.\<close>

definition starts_clean :: "str \<Rightarrow> bool" where
  "starts_clean s \<longleftrightarrow> s \<noteq> [] \<and> \<not> is_whitespace (hd s)"

lemma skip_clean: "starts_clean s \<Longrightarrow> skip_whitespace (s @ r) = s @ r"
  by (cases s) (simp_all add: starts_clean_def)

lemma identifier_clean: "unicode_alnum alnum \<Longrightarrow> identifier_ok alnum n \<Longrightarrow> starts_clean n"
  using word_char_facts(1) [of alnum "hd n"] by (auto simp: identifier_ok_def starts_clean_def word_char_def)

lemma operand_clean: "starts_clean (predicate_display p) \<Longrightarrow> starts_clean (operand needs_parens p)"
  by (simp add: operand_def parens_def starts_clean_def lit_def is_whitespace_def)

lemma display_clean: "unicode_alnum alnum \<Longrightarrow> printable alnum p \<Longrightarrow> starts_clean (predicate_display p)"
proof (induction p)
  case (And l r)
  then have "starts_clean (operand is_or l)" by (simp add: operand_clean)
  with And show ?case by (simp add: display_And starts_clean_def del: predicate_display.simps)
next
  case (Or l r)
  then have "starts_clean (operand is_and l)" by (simp add: operand_clean)
  with Or show ?case by (simp add: display_Or starts_clean_def del: predicate_display.simps)
next
  case (Not p)
  then show ?case by (cases p) (simp_all add: starts_clean_def lit_def is_whitespace_def)
qed (auto dest: identifier_clean simp: starts_clean_def)

text \<open>Single steps of the parsers.\<close>

lemma parse_word:
  assumes "unicode_alnum alnum" and "identifier_ok alnum n" and "r \<noteq> [] \<longrightarrow> \<not> word_char alnum (hd r)"
  shows "parse_expr alnum (n @ r) k = parse_loop alnum (Identifier n) (skip_whitespace r) k"
proof -
  note facts = word_char_facts [OF assms(1)]
  have "parse_primary alnum (n @ r) = Inr (Identifier n, skip_whitespace r)"
    using assms(2) unfolding identifier_ok_def
  proof (elim disjE exE conjE)
    fix c assume "n = [c]" "is_vim_operator_char c"
    with facts(6) [of c] show ?thesis
      by (auto simp: parse_primary.simps is_vim_operator_char_def)
  next
    assume n: "n \<noteq> []" "is_identifier_char alnum (hd n)" "\<forall>c \<in> set n. word_char alnum c"
    then obtain c cs where c: "n = c # cs" by (cases n) auto
    have "takeWhile (word_char alnum) (n @ r) = n"
      using n(3) assms(3) by (cases r) auto
    then have "identifier_length alnum (n @ r) = length n"
      by (simp add: identifier_length_def word_char_def [abs_def])
    moreover have "c \<noteq> 40" "c \<noteq> 33" using n c facts(2,3) by auto
    ultimately show ?thesis using n(2) c by (simp add: parse_primary.simps Let_def)
  qed
  then show ?thesis by (simp add: parse_expr.simps)
qed

lemma operator_at_text: "k \<le> precedence op \<Longrightarrow> operator_at (operator_text op @ s) k = Some op"
  by (cases op) (simp_all add: operator_at_def lit_def)

text \<open>Two operands around an operator.\<close>

lemma parse_binary:
  assumes left: "parse_expr alnum (a @ lit '' '' @ operator_text op @ lit '' '' @ b @ rest) k =
      parse_loop alnum l (operator_text op @ lit '' '' @ b @ rest) k"
    and right: "parse_expr alnum (b @ rest) (precedence op + 1) = parse_loop alnum r (skip_whitespace rest) (precedence op + 1)"
    and "stops alnum rest (precedence op)" and "construct op l r = Inr p" and "starts_clean b" and "k \<le> precedence op"
  shows "parse_expr alnum (a @ lit '' '' @ operator_text op @ lit '' '' @ b @ rest) k = parse_loop alnum p (skip_whitespace rest) k"
proof -
  have "skip_whitespace (drop (length (operator_text op)) (operator_text op @ lit '' '' @ b @ rest)) = b @ rest"
    using skip_clean [OF assms(5)] by (simp add: lit_def)
  moreover have "parse_loop alnum r (skip_whitespace rest) (precedence op + 1) = Inr (r, skip_whitespace rest)"
    using assms(3) by (subst parse_loop.simps) (simp add: stops_def)
  ultimately show ?thesis
    unfolding left by (subst parse_loop.simps) (simp add: operator_at_text assms(4,6) right [simplified])
qed

lemma parse_parens:
  assumes "\<And>s. parse_expr alnum (d @ lit '')'' @ s) 0 = parse_loop alnum p (skip_whitespace (lit '')'' @ s)) 0" and "starts_clean d"
  shows "parse_expr alnum (parens d @ r) k = parse_loop alnum p (skip_whitespace r) k"
proof -
  have stop: "parse_loop alnum p (41 # r) 0 = Inr (p, 41 # r)"
    by (subst parse_loop.simps) (simp add: operator_at_def lit_def)
  have "parse_expr alnum (skip_whitespace (d @ 41 # r)) 0 = Inr (p, 41 # r)"
    using assms(1) [of r] skip_clean [OF assms(2), of "41 # r"] stop by (simp add: lit_def is_whitespace_def)
  then have "parse_primary alnum (parens d @ r) = Inr (p, skip_whitespace r)"
    by (simp add: parse_primary.simps parens_def lit_def)
  then show ?thesis by (simp add: parse_expr.simps)
qed

text \<open>The parser reads a printed predicate and goes on after it.\<close>

definition reads :: "(code_point \<Rightarrow> bool) \<Rightarrow> predicate \<Rightarrow> bool" where
  "reads alnum p \<longleftrightarrow> (\<forall>r k. stops alnum r (level p) \<longrightarrow> k \<le> level p \<longrightarrow>
     parse_expr alnum (predicate_display p @ r) k = parse_loop alnum p (skip_whitespace r) k)"

lemma stops_paren: "unicode_alnum alnum \<Longrightarrow> stops alnum (lit '')'' @ s) n"
  using word_char_facts(4) [of alnum] by (simp add: stops_def lit_def is_whitespace_def operator_at_def)

lemma stops_operator:
  assumes "unicode_alnum alnum"
  shows "stops alnum (lit '' '' @ operator_text op @ s) (precedence op)"
  using word_char_facts(5) [OF assms]
  by (cases op) (auto simp: stops_def lit_def is_whitespace_def operator_at_def)

lemma reads_parens:
  assumes "unicode_alnum alnum" and "printable alnum p" and "reads alnum p"
  shows "parse_expr alnum (parens (predicate_display p) @ r) k = parse_loop alnum p (skip_whitespace r) k"
  using assms stops_paren [OF assms(1)] by (intro parse_parens display_clean) (simp_all add: reads_def)

lemma reads_operand:
  assumes "unicode_alnum alnum" and "printable alnum p" and "reads alnum p"
    and "needs_parens p \<or> n \<le> level p \<and> k \<le> level p" and "stops alnum r n"
  shows "parse_expr alnum (operand needs_parens p @ r) k = parse_loop alnum p (skip_whitespace r) k"
proof (cases "needs_parens p")
  case True
  with reads_parens [OF assms(1-3)] show ?thesis by (simp add: operand_def)
next
  case False
  with assms stops_mono [OF assms(5), of "level p"] show ?thesis by (simp add: operand_def reads_def)
qed

lemma reads_binary:
  assumes "unicode_alnum alnum" and "printable alnum l" "reads alnum l" and "printable alnum r" "reads alnum r"
    and "needs_parens l \<or> precedence op \<le> level l" and "needs_parens r \<or> precedence op < level r"
    and "construct op l r = Inr p" and "level p = precedence op"
    and "predicate_display p = operand needs_parens l @ lit '' '' @ operator_text op @ lit '' '' @ operand needs_parens r"
  shows "reads alnum p"
  unfolding reads_def
proof (intro allI impI)
  fix rest k
  assume rest: "stops alnum rest (level p)" and k: "k \<le> level p"
  have "parse_expr alnum (operand needs_parens l @ lit '' '' @ operator_text op @ lit '' '' @ operand needs_parens r @ rest) k =
      parse_loop alnum p (skip_whitespace rest) k"
  proof (rule parse_binary [OF _ _ _ assms(8)])
    have skip: "skip_whitespace (lit '' '' @ operator_text op @ s) = operator_text op @ s" for s
      by (cases op) (simp_all add: lit_def is_whitespace_def)
    show "parse_expr alnum (operand needs_parens l @ lit '' '' @ operator_text op @ lit '' '' @ operand needs_parens r @ rest) k =
        parse_loop alnum l (operator_text op @ lit '' '' @ operand needs_parens r @ rest) k"
      using reads_operand [OF assms(1-3) _ stops_operator [OF assms(1)], of needs_parens op k] assms(6,9) k skip by auto
    show "parse_expr alnum (operand needs_parens r @ rest) (precedence op + 1) =
        parse_loop alnum r (skip_whitespace rest) (precedence op + 1)"
      using reads_operand [OF assms(1,4,5) _ rest] assms(7,9) by auto
  qed (use assms rest k in \<open>simp_all add: operand_clean display_clean\<close>)
  then show "parse_expr alnum (predicate_display p @ rest) k = parse_loop alnum p (skip_whitespace rest) k"
    by (simp add: assms(10))
qed

lemma reads_printable: "unicode_alnum alnum \<Longrightarrow> printable alnum p \<Longrightarrow> reads alnum p"
proof (induction p)
  case (Identifier n)
  then show ?case by (auto simp: reads_def stops_def intro: parse_word)
next
  case (Equals l r)
  have words: "reads alnum (Identifier l)" "reads alnum (Identifier r)"
    using Equals by (auto simp: reads_def stops_def intro: parse_word)
  show ?case
    by (rule reads_binary [OF Equals.prems(1) _ words(1) _ words(2), where needs_parens = "\<lambda>_. False" and op = EqOp])
       (use Equals.prems in \<open>simp_all add: operand_def lit_def\<close>)
next
  case (NotEquals l r)
  have words: "reads alnum (Identifier l)" "reads alnum (Identifier r)"
    using NotEquals by (auto simp: reads_def stops_def intro: parse_word)
  show ?case
    by (rule reads_binary [OF NotEquals.prems(1) _ words(1) _ words(2), where needs_parens = "\<lambda>_. False" and op = NeqOp])
       (use NotEquals.prems in \<open>simp_all add: operand_def lit_def\<close>)
next
  case (Descendant p c)
  have pc: "printable alnum p" "printable alnum c" "reads alnum p" "reads alnum c" "1 < level c" using Descendant by simp_all
  have "1 \<le> level p" by (cases p) simp_all
  then show ?case
    by - (rule reads_binary [OF Descendant.prems(1), where l = p and r = c and needs_parens = "\<lambda>_. False" and op = ChildOp],
      use pc in \<open>simp_all add: operand_def lit_def\<close>)
next
  case (Not p)
  then have p: "printable alnum p" "reads alnum p" by simp_all
  show ?case
    unfolding reads_def
  proof (intro allI impI)
    fix r k assume r: "stops alnum r (level (Not p))"
    let ?np = "\<lambda>q. \<forall>n. q \<noteq> Identifier n"
    have "predicate_display (Not p) = lit ''!'' @ operand ?np p"
      by (cases p) (simp_all add: operand_def parens_def lit_def)
    moreover have "parse_expr alnum (operand ?np p @ r) 5 = Inr (p, skip_whitespace r)"
    proof -
      have "?np p \<or> 5 \<le> level p \<and> 5 \<le> level p" by (cases p) simp_all
      then have "parse_expr alnum (operand ?np p @ r) 5 = parse_loop alnum p (skip_whitespace r) 5"
        using r by (intro reads_operand [OF Not.prems(1) p, where n = 5]) simp_all
      then show ?thesis by (simp add: parse_loop.simps [of _ p] operator_at_5)
    qed
    moreover have "skip_whitespace (operand ?np p @ r) = operand ?np p @ r"
      using display_clean [OF Not.prems(1) p(1)] by (intro skip_clean operand_clean)
    ultimately have "parse_primary alnum (predicate_display (Not p) @ r) = Inr (Not p, skip_whitespace r)"
      by (simp add: parse_primary.simps lit_def PRECEDENCE_NOT_def del: predicate_display.simps)
    then show "parse_expr alnum (predicate_display (Not p) @ r) k = parse_loop alnum (Not p) (skip_whitespace r) k"
      by (simp add: parse_expr.simps del: predicate_display.simps)
  qed
next
  case (And l r)
  have lr: "printable alnum l" "printable alnum r" "reads alnum l" "reads alnum r" "1 < level l" "1 < level r" "level r \<noteq> 3"
    using And by simp_all
  moreover have "is_or q \<or> 3 \<le> level q" if "1 < level q" for q using that by (cases q) (simp_all add: is_or_def)
  ultimately have "is_or l \<or> 3 \<le> level l" "is_or r \<or> 3 < level r" by (auto simp: le_less)
  then show ?case
    by - (rule reads_binary [OF And.prems(1), where l = l and r = r and needs_parens = is_or and op = AndOp],
      use lr in \<open>simp_all add: display_And lit_def del: predicate_display.simps\<close>)
next
  case (Or l r)
  have lr: "printable alnum l" "printable alnum r" "reads alnum l" "reads alnum r" "1 < level l" "2 < level r"
    using Or by simp_all
  then show ?case
    by - (rule reads_binary [OF Or.prems(1), where l = l and r = r and needs_parens = is_and and op = OrOp],
      use lr in \<open>simp_all add: display_Or lit_def del: predicate_display.simps\<close>)
qed

lemma display_parses:
  assumes "unicode_alnum alnum" and "printable alnum p"
  shows "predicate_parse alnum (predicate_display p) = Inr p"
proof -
  have "stops alnum [] (level p)" by (simp add: stops_def skip_whitespace_def operator_at_def lit_def)
  with reads_printable [OF assms] have "parse_expr alnum (predicate_display p @ []) 0 = parse_loop alnum p (skip_whitespace []) 0"
    unfolding reads_def by blast
  also have "\<dots> = Inr (p, [])" by (simp add: parse_loop.simps skip_whitespace_def operator_at_def lit_def)
  finally show ?thesis
    using skip_clean [OF display_clean [OF assms], of "[]"] by (simp add: predicate_parse_def)
qed

end
