(* ===== verification/Keystroke.thy ===== *)
theory Keystroke
  imports Text
begin

text \<open>
  Keystrokes (\<open>crates/gpui/src/platform/keystroke.rs\<close>): parsing, printing, matching. What the code decides with
  \<open>cfg(target_os)\<close> depends on the argument \<open>os\<close>, macOS or Linux; on Windows a key binding keeps a second pair of
  modifiers and key, which is not modelled.
\<close>

section \<open>Operations\<close>

datatype target_os = MacOS | Linux

record modifiers =
  control :: bool
  alt :: bool
  shift :: bool
  platform :: bool
  func :: bool

record keystroke =
  ks_modifiers :: modifiers
  ks_key :: str
  ks_key_char :: "str option"

datatype keystroke_error = InvalidKeystroke str

text \<open>Off Windows a \<open>KeybindingKeystroke\<close> is its \<open>inner\<close> keystroke.\<close>

type_synonym keybinding_keystroke = keystroke

definition no_modifiers :: modifiers where
  "no_modifiers = \<lparr>control = False, alt = False, shift = False, platform = False, func = False\<rparr>"

definition should_match :: "keystroke \<Rightarrow> keybinding_keystroke \<Rightarrow> bool" where
  "should_match typed target \<longleftrightarrow>
     (case ks_key_char typed of
        Some key_char \<Rightarrow>
          key_char \<noteq> ks_key typed \<and> ks_key target = key_char \<and>
          ks_modifiers target = no_modifiers\<lparr>control := control (ks_modifiers typed), platform := platform (ks_modifiers typed)\<rparr>
      | None \<Rightarrow> False) \<or>
     ks_modifiers target = ks_modifiers typed \<and> ks_key target = ks_key typed"

text \<open>The loop over the components: modifiers, key and typed character so far.\<close>

type_synonym parsing = "modifiers \<times> str option \<times> str option"

fun parse_components :: "target_os \<Rightarrow> str \<Rightarrow> str list \<Rightarrow> parsing \<Rightarrow> keystroke_error + parsing" where
  "parse_components os source [] st = Inr st"
| "parse_components os source (c # cs) (m, key, key_char) =
     (if eq_ignore_ascii_case c (lit ''ctrl'') then parse_components os source cs (m\<lparr>control := True\<rparr>, key, key_char)
      else if eq_ignore_ascii_case c (lit ''alt'') then parse_components os source cs (m\<lparr>alt := True\<rparr>, key, key_char)
      else if eq_ignore_ascii_case c (lit ''shift'') then parse_components os source cs (m\<lparr>shift := True\<rparr>, key, key_char)
      else if eq_ignore_ascii_case c (lit ''fn'') then parse_components os source cs (m\<lparr>func := True\<rparr>, key, key_char)
      else if eq_ignore_ascii_case c (lit ''secondary'')
      then parse_components os source cs (if os = MacOS then m\<lparr>platform := True\<rparr> else m\<lparr>control := True\<rparr>, key, key_char)
      else if eq_ignore_ascii_case c (lit ''cmd'') \<or> eq_ignore_ascii_case c (lit ''super'') \<or> eq_ignore_ascii_case c (lit ''win'')
      then parse_components os source cs (m\<lparr>platform := True\<rparr>, key, key_char)
      else case cs of
        nxt # cs' \<Rightarrow>
          if nxt = [] \<and> source \<noteq> [] \<and> last source = 45 then Inr (m, Some (lit ''-''), key_char)
          else if 1 < length nxt \<and> starts_with nxt (lit ''>'')
          then parse_components os source cs' (m, Some c, Some (tl nxt))
          else Inl (InvalidKeystroke source)
      | [] \<Rightarrow>
          parse_components os source []
            (if length c = 1 \<and> 65 \<le> hd c \<and> hd c \<le> 90 then m\<lparr>shift := True\<rparr> else m, Some (map ascii_lower c), key_char))"

declare parse_components.simps(2) [simp del]

text \<open>A modifier as the key itself; \<open>mem::take\<close> clears it.\<close>

definition modifier_as_key :: "modifiers \<Rightarrow> str option \<times> modifiers" where
  "modifier_as_key m =
     (if shift m then (Some (lit ''shift''), m\<lparr>shift := False\<rparr>)
      else if control m then (Some (lit ''control''), m\<lparr>control := False\<rparr>)
      else if alt m then (Some (lit ''alt''), m\<lparr>alt := False\<rparr>)
      else if platform m then (Some (lit ''platform''), m\<lparr>platform := False\<rparr>)
      else if func m then (Some (lit ''function''), m\<lparr>func := False\<rparr>)
      else (None, m))"

definition keystroke_parse :: "target_os \<Rightarrow> str \<Rightarrow> keystroke_error + keystroke" where
  "keystroke_parse os source =
     (case parse_components os source (split_on 45 source) (no_modifiers, None, None) of
        Inl e \<Rightarrow> Inl e
      | Inr (m, key, key_char) \<Rightarrow>
          (let (key', m') = (case key of Some k \<Rightarrow> (Some k, m) | None \<Rightarrow> modifier_as_key m) in
           case key' of
             None \<Rightarrow> Inl (InvalidKeystroke source)
           | Some k \<Rightarrow> Inr \<lparr>ks_modifiers = m', ks_key = k, ks_key_char = key_char\<rparr>))"

definition unparse :: "target_os \<Rightarrow> modifiers \<Rightarrow> str \<Rightarrow> str" where
  "unparse os m key =
     (if func m then lit ''fn-'' else []) @ (if control m then lit ''ctrl-'' else []) @ (if alt m then lit ''alt-'' else []) @
     (if platform m then (if os = MacOS then lit ''cmd-'' else lit ''super-'') else []) @
     (if shift m then lit ''shift-'' else []) @ key"

definition keystroke_unparse :: "target_os \<Rightarrow> keystroke \<Rightarrow> str" where
  "keystroke_unparse os k = unparse os (ks_modifiers k) (ks_key k)"

text \<open>\<open>Display\<close>. The function modifier is not shown.\<close>

definition display_modifiers :: "target_os \<Rightarrow> modifiers \<Rightarrow> str" where
  "display_modifiers os m =
     (if control m then (if os = MacOS then lit ''^'' else lit ''ctrl-'') else []) @
     (if alt m then (if os = MacOS then [0x2325] else lit ''alt-'') else []) @
     (if platform m then (if os = MacOS then [0x2318] else [0x2756]) else []) @
     (if shift m then (if os = MacOS then [0x21E7] else lit ''shift-'') else [])"

definition mac_key_symbol :: "str \<Rightarrow> code_point option" where
  "mac_key_symbol = map_of
     [(lit ''backspace'', 0x232B), (lit ''up'', 0x2191), (lit ''down'', 0x2193), (lit ''left'', 0x2190), (lit ''right'', 0x2192),
      (lit ''tab'', 0x21E5), (lit ''escape'', 0x238B), (lit ''shift'', 0x21E7), (lit ''control'', 0x2303), (lit ''alt'', 0x2325),
      (lit ''platform'', 0x2318)]"

definition ascii_upper :: "code_point \<Rightarrow> code_point" where
  "ascii_upper c = (if 97 \<le> c \<and> c \<le> 122 then c - 32 else c)"

definition display_key :: "target_os \<Rightarrow> str \<Rightarrow> str" where
  "display_key os key =
     (case (if os = MacOS then mac_key_symbol key else None) of
        Some c \<Rightarrow> [c]
      | None \<Rightarrow> if length key = 1 \<and> hd key < 128 then [ascii_upper (hd key)] else key)"

definition keystroke_display :: "target_os \<Rightarrow> keystroke \<Rightarrow> str" where
  "keystroke_display os k = display_modifiers os (ks_modifiers k) @ display_key os (ks_key k)"

text \<open>\<open>str::split_whitespace\<close>: the pieces between whitespace, without the empty ones.\<close>

fun split_spaces :: "str \<Rightarrow> str list" where
  "split_spaces [] = [[]]"
| "split_spaces (c # cs) =
     (if is_whitespace c then [] # split_spaces cs else (c # hd (split_spaces cs)) # tl (split_spaces cs))"

definition split_whitespace :: "str \<Rightarrow> str list" where
  "split_whitespace s = filter (\<lambda>w. w \<noteq> []) (split_spaces s)"

text \<open>\<open>collect\<close> into a \<open>Result\<close>: the first error, or all values.\<close>

fun collect_results :: "('a \<Rightarrow> 'e + 'b) \<Rightarrow> 'a list \<Rightarrow> 'e + 'b list" where
  "collect_results f [] = Inr []"
| "collect_results f (x # xs) =
     (case f x of Inl e \<Rightarrow> Inl e | Inr y \<Rightarrow> (case collect_results f xs of Inl e \<Rightarrow> Inl e | Inr ys \<Rightarrow> Inr (y # ys)))"

definition parse_key_sequence :: "target_os \<Rightarrow> str \<Rightarrow> keystroke_error + keystroke list" where
  "parse_key_sequence os s = collect_results (keystroke_parse os) (split_whitespace s)"

section \<open>Printing and parsing\<close>

definition modifier_names :: "str set" where
  "modifier_names = {lit ''ctrl'', lit ''alt'', lit ''shift'', lit ''fn'', lit ''secondary'', lit ''cmd'', lit ''super'', lit ''win''}"

text \<open>The keys that the parser produces without a typed character.\<close>

definition plain_key :: "str \<Rightarrow> bool" where
  "plain_key key \<longleftrightarrow> 45 \<notin> set key \<and> map ascii_lower key = key \<and> key \<notin> modifier_names"

definition canonical :: "modifiers \<Rightarrow> str \<Rightarrow> bool" where
  "canonical m key \<longleftrightarrow> key = lit ''-'' \<or> plain_key key \<or> key = lit ''shift'' \<and> \<not> shift m \<or>
     key = lit ''alt'' \<and> \<not> shift m \<and> \<not> control m \<and> \<not> alt m"

lemma eq_ignore_modifier: "map ascii_lower n = n \<Longrightarrow> eq_ignore_ascii_case c n \<longleftrightarrow> map ascii_lower c = n"
  by (simp add: eq_ignore_ascii_case_def)

lemma lower_names [simp]:
  "map ascii_lower (lit ''ctrl'') = lit ''ctrl''" "map ascii_lower (lit ''alt'') = lit ''alt''"
  "map ascii_lower (lit ''shift'') = lit ''shift''" "map ascii_lower (lit ''fn'') = lit ''fn''"
  "map ascii_lower (lit ''secondary'') = lit ''secondary''" "map ascii_lower (lit ''cmd'') = lit ''cmd''"
  "map ascii_lower (lit ''super'') = lit ''super''" "map ascii_lower (lit ''win'') = lit ''win''"
  by (simp_all add: lit_def ascii_lower_def)

lemmas eq_ignore_names = lower_names [THEN eq_ignore_modifier]

lemma lit_inject [simp]: "lit s = lit t \<longleftrightarrow> s = t"
  unfolding lit_def by (rule inj_map_eq_map) (simp add: inj_def)

text \<open>A component that is no modifier takes the last branch.\<close>

lemma parse_key_component:
  assumes "map ascii_lower c \<notin> modifier_names"
  shows "parse_components os source (c # cs) (m, key, kc) =
    (case cs of
       nxt # cs' \<Rightarrow>
         if nxt = [] \<and> source \<noteq> [] \<and> last source = 45 then Inr (m, Some (lit ''-''), kc)
         else if 1 < length nxt \<and> starts_with nxt (lit ''>'') then parse_components os source cs' (m, Some c, Some (tl nxt))
         else Inl (InvalidKeystroke source)
     | [] \<Rightarrow> Inr (if length c = 1 \<and> 65 \<le> hd c \<and> hd c \<le> 90 then m\<lparr>shift := True\<rparr> else m, Some (map ascii_lower c), kc))"
  using assms by (simp add: parse_components.simps(2) modifier_names_def eq_ignore_names split: list.split)

lemma parse_modifier_component:
  assumes "map ascii_lower c \<in> modifier_names"
  shows "\<exists>m'. parse_components os source (c # cs) (m, key, kc) = parse_components os source cs (m', key, kc)"
  using assms unfolding parse_components.simps eq_ignore_names modifier_names_def by (auto split: if_split)

text \<open>Without a typed character at the end, the key is a dash, a plain key, or missing.\<close>

lemma parse_components_key:
  assumes "parse_components os source cs (m, None, None) = Inr (m', key, None)" and "\<forall>c \<in> set cs. 45 \<notin> set c"
  shows "key = None \<or> key = Some (lit ''-'') \<or> (\<exists>k. key = Some k \<and> plain_key k)"
  using assms
proof (induction cs arbitrary: m)
  case (Cons c cs)
  have kept: "parse_components os source ds (m1, k1, Some w) \<noteq> Inr (m2, k2, None)" for ds m1 k1 w m2 k2
  proof (induction os source ds "(m1, k1, Some w)" arbitrary: m1 k1 w rule: parse_components.induct)
    case (2 os source c cs m key key_char)
    then show ?case by (auto simp: parse_components.simps(2) split: list.split)
  qed simp
  show ?case
  proof (cases "map ascii_lower c \<in> modifier_names")
    case True
    from parse_modifier_component [OF this, of os source cs m None None] Cons show ?thesis by auto
  next
    case False
    have dash: "45 \<notin> ascii_lower ` set c" using Cons.prems(2) by (auto simp: ascii_lower_def)
    show ?thesis
    proof (cases cs)
      case Nil
      with Cons.prems(1) False dash show ?thesis by (auto simp: parse_key_component plain_key_def comp_def)
    next
      case (Cons nxt cs')
      with Cons.prems(1) False kept show ?thesis
        by (auto simp: parse_key_component split: if_splits)
    qed
  qed
qed simp

lemma keystroke_parse_canonical:
  assumes "keystroke_parse os s = Inr k" and "ks_key_char k = None"
  shows "canonical (ks_modifiers k) (ks_key k)"
proof -
  obtain m key kc where parsed: "parse_components os s (split_on 45 s) (no_modifiers, None, None) = Inr (m, key, kc)"
    using assms(1) by (auto simp: keystroke_parse_def split: sum.splits)
  have "kc = None" using assms parsed by (auto simp: keystroke_parse_def Let_def split: option.splits prod.splits)
  with parsed have "key = None \<or> key = Some (lit ''-'') \<or> (\<exists>k. key = Some k \<and> plain_key k)"
    using parse_components_key split_on_free by blast
  moreover have plain: "plain_key (lit ''control'')" "plain_key (lit ''platform'')" "plain_key (lit ''function'')"
    by (simp_all add: plain_key_def modifier_names_def) (simp_all add: lit_def ascii_lower_def)
  ultimately show ?thesis
    using assms(1) parsed
    by (cases key) (auto simp: keystroke_parse_def modifier_as_key_def canonical_def Let_def split: if_splits)
qed

text \<open>The printed modifiers are read back, whatever follows.\<close>

definition printed_names :: "target_os \<Rightarrow> modifiers \<Rightarrow> str list" where
  "printed_names os m =
     (if func m then [lit ''fn''] else []) @ (if control m then [lit ''ctrl''] else []) @ (if alt m then [lit ''alt''] else []) @
     (if platform m then [if os = MacOS then lit ''cmd'' else lit ''super''] else []) @ (if shift m then [lit ''shift''] else [])"

lemma parse_printed_names:
  "parse_components os source (printed_names os m @ cs) (no_modifiers, None, None) = parse_components os source cs (m, None, None)"
  by (cases m) (simp add: parse_components.simps(2) printed_names_def eq_ignore_names no_modifiers_def)

lemma unparse_names: "unparse os m key = concat (map (\<lambda>n. n @ [45]) (printed_names os m)) @ key"
  by (simp add: unparse_def printed_names_def lit_def)

lemma split_unparse: "split_on 45 (unparse os m key) = printed_names os m @ split_on 45 key"
proof -
  have "split_on 45 (concat (map (\<lambda>n. n @ [45]) ns) @ key) = ns @ split_on 45 key" if "\<forall>n \<in> set ns. 45 \<notin> set n" for ns
    using that by (induction ns) (simp_all add: split_on_append)
  moreover have "\<forall>n \<in> set (printed_names os m). 45 \<notin> set n" by (auto simp: printed_names_def lit_def)
  ultimately show ?thesis by (simp add: unparse_names)
qed

lemma parse_unparsed: "parse_components os (unparse os m key) (split_on 45 (unparse os m key)) (no_modifiers, None, None) =
    parse_components os (unparse os m key) (split_on 45 key) (m, None, None)"
  by (simp add: split_unparse parse_printed_names)

text \<open>A key that the parser returns is a dash or has none, and its text is read without a typed character.\<close>

lemma parse_components_dash:
  "parse_components os source cs (m, key, kc) = Inr (m', Some k, kc') \<Longrightarrow> \<forall>c \<in> set cs. 45 \<notin> set c \<Longrightarrow>
    (\<And>k. key = Some k \<Longrightarrow> 45 \<notin> set k) \<Longrightarrow> k = lit ''-'' \<or> 45 \<notin> set k"
proof (induction "length cs" arbitrary: cs m key kc rule: less_induct)
  case less
  show ?case
  proof (cases cs)
    case Nil
    then show ?thesis using less.prems by auto
  next
    case (Cons c ds)
    show ?thesis
    proof (cases "map ascii_lower c \<in> modifier_names")
      case True
      then obtain m1 where "parse_components os source (c # ds) (m, key, kc) = parse_components os source ds (m1, key, kc)"
        using parse_modifier_component by blast
      then show ?thesis using less.hyps [of ds m1 key kc] less.prems Cons by simp
    next
      case False
      note run = less.prems(1) [unfolded Cons parse_key_component [OF False]]
      have free: "45 \<notin> set c" using less.prems(2) Cons by simp
      show ?thesis
      proof (cases ds)
        case Nil
        have "45 \<notin> ascii_lower ` set c" using free by (auto simp: ascii_lower_def)
        then show ?thesis using run Nil by auto
      next
        case nxt: (Cons nxt es)
        show ?thesis
        proof (cases "nxt = [] \<and> source \<noteq> [] \<and> last source = 45")
          case True
          then show ?thesis using run nxt by simp
        next
          case False
          then have "parse_components os source es (m, Some c, Some (tl nxt)) = Inr (m', Some k, kc')"
            using run nxt by (simp split: if_splits)
          then show ?thesis using less.hyps [of es m "Some c" "Some (tl nxt)"] less.prems(2) Cons nxt free by simp
        qed
      qed
    qed
  qed
qed

lemma keystroke_parse_dash:
  assumes "keystroke_parse os s = Inr k"
  shows "ks_key k = lit ''-'' \<or> 45 \<notin> set (ks_key k)"
proof -
  obtain m key kc where parsed: "parse_components os s (split_on 45 s) (no_modifiers, None, None) = Inr (m, key, kc)"
    using assms by (auto simp: keystroke_parse_def split: sum.splits)
  show ?thesis
  proof (cases key)
    case None
    then show ?thesis using assms parsed
      by (auto simp: keystroke_parse_def modifier_as_key_def Let_def lit_def split: if_splits)
  next
    case (Some j)
    then have "j = lit ''-'' \<or> 45 \<notin> set j" using parse_components_dash [of os s "split_on 45 s"] parsed split_on_free by blast
    then show ?thesis using Some assms parsed by (auto simp: keystroke_parse_def)
  qed
qed

lemma parse_unparse_char:
  assumes "key = lit ''-'' \<or> 45 \<notin> set key" and "keystroke_parse os (unparse os m key) = Inr k"
  shows "ks_key_char k = None"
proof -
  have "\<exists>m' key'. parse_components os (unparse os m key) (split_on 45 key) (m, None, None) = Inr (m', key', None)"
  proof (cases "key = lit ''-''")
    case True
    have "split_on 45 key = [[], []]" by (simp add: True lit_def)
    moreover have "unparse os m key \<noteq> []" "last (unparse os m key) = 45" by (simp_all add: unparse_names True lit_def)
    moreover have "map ascii_lower [] \<notin> modifier_names" by (simp add: modifier_names_def lit_def)
    ultimately show ?thesis by (simp add: parse_key_component)
  next
    case False
    then have one: "split_on 45 key = [key]" using assms(1) split_on_single by auto
    show ?thesis
    proof (cases "map ascii_lower key \<in> modifier_names")
      case True
      from parse_modifier_component [OF this, of os "unparse os m key" "[]" m None None] show ?thesis by (auto simp: one)
    next
      case False
      then show ?thesis by (simp add: one parse_key_component)
    qed
  qed
  then show ?thesis using assms(2)
    by (auto simp: keystroke_parse_def parse_unparsed Let_def split: option.splits prod.splits)
qed

lemma parse_unparse:
  assumes "canonical m key"
  shows "keystroke_parse os (unparse os m key) = Inr \<lparr>ks_modifiers = m, ks_key = key, ks_key_char = None\<rparr>"
proof -
  from assms consider "key = lit ''-''" | "plain_key key" | "key = lit ''shift''" "\<not> shift m"
    | "key = lit ''alt''" "\<not> shift m" "\<not> control m" "\<not> alt m"
    by (auto simp: canonical_def)
  then show ?thesis
  proof cases
    case 1
    have "split_on 45 key = [[], []]" by (simp add: 1 lit_def)
    moreover have "unparse os m key \<noteq> []" "last (unparse os m key) = 45" by (simp_all add: unparse_names 1 lit_def)
    moreover have "map ascii_lower [] \<notin> modifier_names" by (simp add: modifier_names_def lit_def)
    ultimately show ?thesis by (simp add: keystroke_parse_def parse_unparsed parse_key_component 1)
  next
    case 2
    then have "split_on 45 key = [key]" "map ascii_lower key \<notin> modifier_names" by (simp_all add: plain_key_def split_on_single)
    moreover have "\<not> (length key = 1 \<and> 65 \<le> hd key \<and> hd key \<le> 90)"
      using 2 by (cases key) (auto simp: plain_key_def ascii_lower_def)
    ultimately show ?thesis using 2 by (auto simp: keystroke_parse_def parse_unparsed parse_key_component plain_key_def)
  next
    case 3
    have "split_on 45 key = [lit ''shift'']" by (simp add: 3 split_on_single) (simp add: lit_def split_on_single)
    moreover have "m\<lparr>shift := False\<rparr> = m" using 3 by (cases m) simp
    ultimately show ?thesis
      by (simp add: keystroke_parse_def parse_unparsed parse_components.simps(2) eq_ignore_names modifier_as_key_def) (simp add: 3)
  next
    case 4
    have "split_on 45 key = [lit ''alt'']" by (simp add: 4 split_on_single) (simp add: lit_def split_on_single)
    moreover have "m\<lparr>alt := False\<rparr> = m" using 4 by (cases m) simp
    ultimately show ?thesis
      using 4(2-4) by (simp add: keystroke_parse_def parse_unparsed parse_components.simps(2) eq_ignore_names modifier_as_key_def) (simp add: 4)
  qed
qed

end
