(* ===== verification/Keymap.thy ===== *)
theory Keymap
  imports Key_Context_Laws Keystroke Sequences
begin

text \<open>
  The keymap (\<open>crates/gpui/src/keymap.rs\<close>, \<open>keymap/binding.rs\<close>): bindings in the order they were added, the indices
  kept beside them, and the bindings for an input in a stack of contexts.
\<close>

section \<open>Bindings\<close>

text \<open>
  A \<open>dyn Action\<close> is one of the two markers of the framework or a value of an application's type, which has an id and a
  name. \<open>data_eq\<close> is the application's \<open>PartialEq\<close>.
\<close>

datatype 'd gpui_action = NoAction | Unbind str | AppAction nat str 'd

datatype action_type = NoActionType | UnbindType | AppType nat

fun type_id :: "'d gpui_action \<Rightarrow> action_type" where
  "type_id NoAction = NoActionType"
| "type_id (Unbind n) = UnbindType"
| "type_id (AppAction t n d) = AppType t"

fun action_name :: "'d gpui_action \<Rightarrow> str" where
  "action_name NoAction = lit ''open_gpui::NoAction''"
| "action_name (Unbind n) = lit ''open_gpui::Unbind''"
| "action_name (AppAction t n d) = n"

fun partial_eq :: "('d \<Rightarrow> 'd \<Rightarrow> bool) \<Rightarrow> 'd gpui_action \<Rightarrow> 'd gpui_action \<Rightarrow> bool" where
  "partial_eq data_eq NoAction NoAction \<longleftrightarrow> True"
| "partial_eq data_eq (Unbind n) (Unbind n') \<longleftrightarrow> n = n'"
| "partial_eq data_eq (AppAction t n d) (AppAction t' n' d') \<longleftrightarrow> t = t' \<and> data_eq d d'"
| "partial_eq data_eq a b \<longleftrightarrow> False"

definition is_no_action :: "'d gpui_action \<Rightarrow> bool" where
  "is_no_action a \<longleftrightarrow> type_id a = NoActionType"

definition is_unbind :: "'d gpui_action \<Rightarrow> bool" where
  "is_unbind a \<longleftrightarrow> type_id a = UnbindType"

record 'd key_binding =
  kb_action :: "'d gpui_action"
  kb_keystrokes :: "keybinding_keystroke list"
  kb_predicate :: "predicate option"
  kb_meta :: "u32 option"
  kb_action_input :: "str option"

text \<open>\<open>KeyBinding::load\<close>; \<open>map_key\<close> is the keyboard mapper of the platform.\<close>

definition load_binding ::
  "target_os \<Rightarrow> (keystroke \<Rightarrow> bool \<Rightarrow> keybinding_keystroke) \<Rightarrow> str \<Rightarrow> 'd gpui_action \<Rightarrow> predicate option \<Rightarrow> bool \<Rightarrow> str option \<Rightarrow>
     keystroke_error + 'd key_binding" where
  "load_binding os map_key keystrokes action pred use_key_equivalents action_input =
     (case collect_results
             (\<lambda>source. case keystroke_parse os source of Inl e \<Rightarrow> Inl e | Inr k \<Rightarrow> Inr (map_key k use_key_equivalents))
             (split_whitespace keystrokes) of
        Inl e \<Rightarrow> Inl e
      | Inr ks \<Rightarrow> Inr \<lparr>kb_action = action, kb_keystrokes = ks, kb_predicate = pred, kb_meta = None, kb_action_input = action_input\<rparr>)"

definition match_keystrokes :: "'d key_binding \<Rightarrow> keystroke list \<Rightarrow> bool option" where
  "match_keystrokes b typed =
     (if length (kb_keystrokes b) < length typed then None
      else if list_ex (\<lambda>(target, t). \<not> should_match t target) (zip (kb_keystrokes b) typed) then None
      else Some (length typed < length (kb_keystrokes b)))"

section \<open>The keymap\<close>

record 'd keymap =
  km_bindings :: "'d key_binding list"
  km_by_action :: "action_type \<rightharpoonup> nat list"
  km_disabled :: "nat list"
  km_version :: u64

definition keymap_default :: "'d keymap" where
  "keymap_default = \<lparr>km_bindings = [], km_by_action = Map.empty, km_disabled = [], km_version = 0\<rparr>"

text \<open>One turn of the loop of \<open>add_bindings\<close>.\<close>

definition add_binding :: "'d key_binding \<Rightarrow> 'd keymap \<Rightarrow> 'd keymap" where
  "add_binding b m =
     (let ix = length (km_bindings m);
          m1 = (if is_no_action (kb_action b) \<or> is_unbind (kb_action b)
                then m\<lparr>km_disabled := km_disabled m @ [ix]\<rparr>
                else m\<lparr>km_by_action := (km_by_action m)(type_id (kb_action b) \<mapsto>
                         (case km_by_action m (type_id (kb_action b)) of Some ixs \<Rightarrow> ixs | None \<Rightarrow> []) @ [ix])\<rparr>) in
      m1\<lparr>km_bindings := km_bindings m1 @ [b]\<rparr>)"

definition add_bindings :: "'d key_binding list \<Rightarrow> 'd keymap \<Rightarrow> 'd keymap" where
  "add_bindings bs m = (let m1 = fold add_binding bs m in m1\<lparr>km_version := km_version m1 + 1\<rparr>)"

definition keymap_new :: "'d key_binding list \<Rightarrow> 'd keymap" where
  "keymap_new bs = add_bindings bs keymap_default"

definition keymap_clear :: "'d keymap \<Rightarrow> 'd keymap" where
  "keymap_clear m = m\<lparr>km_bindings := [], km_by_action := Map.empty, km_disabled := [], km_version := km_version m + 1\<rparr>"

definition disabled_binding_matches_context :: "'d key_binding \<Rightarrow> 'd key_binding \<Rightarrow> bool" where
  "disabled_binding_matches_context disabled b \<longleftrightarrow>
     (case (kb_predicate disabled, kb_predicate b) of
        (None, _) \<Rightarrow> True
      | (Some _, None) \<Rightarrow> False
      | (Some p, Some q) \<Rightarrow> is_superset p q)"

definition binding_is_unbound :: "'d key_binding \<Rightarrow> 'd key_binding \<Rightarrow> bool" where
  "binding_is_unbound disabled b \<longleftrightarrow>
     kb_keystrokes disabled = kb_keystrokes b \<and>
     (case kb_action disabled of Unbind n \<Rightarrow> n = action_name (kb_action b) | _ \<Rightarrow> False)"

text \<open>The test of \<open>bindings_for_action\<close> for one later disabling binding.\<close>

definition hides :: "'d key_binding \<Rightarrow> 'd key_binding \<Rightarrow> bool" where
  "hides disabled b \<longleftrightarrow>
     (if kb_keystrokes disabled \<noteq> kb_keystrokes b then False
      else if is_no_action (kb_action disabled) then disabled_binding_matches_context disabled b
      else is_unbind (kb_action disabled) \<and> disabled_binding_matches_context disabled b \<and> binding_is_unbound disabled b)"

text \<open>Indexing out of bounds panics.\<close>

definition binding_at :: "'d keymap \<Rightarrow> nat \<Rightarrow> 'd key_binding panics" where
  "binding_at m ix = (if ix < length (km_bindings m) then Some (km_bindings m ! ix) else None)"

fun hidden_by :: "'d keymap \<Rightarrow> nat \<Rightarrow> 'd key_binding \<Rightarrow> nat list \<Rightarrow> bool panics" where
  "hidden_by m ix b [] = Some False"
| "hidden_by m ix b (d # ds) =
     (if ix < d then do { disabled \<leftarrow> binding_at m d; if hides disabled b then Some True else hidden_by m ix b ds }
      else hidden_by m ix b ds)"

fun live_bindings :: "('d \<Rightarrow> 'd \<Rightarrow> bool) \<Rightarrow> 'd keymap \<Rightarrow> 'd gpui_action \<Rightarrow> nat list \<Rightarrow> 'd key_binding list panics" where
  "live_bindings data_eq m action [] = Some []"
| "live_bindings data_eq m action (ix # ixs) = do {
     b \<leftarrow> binding_at m ix;
     hidden \<leftarrow> (if \<not> partial_eq data_eq (kb_action b) action then Some True else hidden_by m ix b (km_disabled m));
     bs \<leftarrow> live_bindings data_eq m action ixs;
     Some (if hidden then bs else b # bs)
   }"

definition bindings_for_action :: "('d \<Rightarrow> 'd \<Rightarrow> bool) \<Rightarrow> 'd keymap \<Rightarrow> 'd gpui_action \<Rightarrow> 'd key_binding list panics" where
  "bindings_for_action data_eq m action =
     live_bindings data_eq m action (case km_by_action m (type_id action) of Some ixs \<Rightarrow> ixs | None \<Rightarrow> [])"

definition all_bindings_for_input :: "'d keymap \<Rightarrow> keystroke list \<Rightarrow> 'd key_binding list" where
  "all_bindings_for_input m input = filter (\<lambda>b. match_keystrokes b input = Some False) (rev (km_bindings m))"

definition binding_enabled :: "'d key_binding \<Rightarrow> key_context list \<Rightarrow> nat option" where
  "binding_enabled b contexts = (case kb_predicate b of Some p \<Rightarrow> depth_of p contexts | None \<Rightarrow> Some (length contexts))"

type_synonym 'd found = "nat \<times> nat \<times> 'd key_binding"

text \<open>The first loop of \<open>bindings_for_input\<close>, over \<open>bindings().enumerate().rev()\<close>.\<close>

fun collect_matches :: "keystroke list \<Rightarrow> key_context list \<Rightarrow> (nat \<times> 'd key_binding) list \<Rightarrow>
    'd found list \<times> (nat \<times> 'd key_binding) list \<Rightarrow> 'd found list \<times> (nat \<times> 'd key_binding) list" where
  "collect_matches input contexts [] acc = acc"
| "collect_matches input contexts ((ix, b) # rest) (matched, pending) =
     (case binding_enabled b contexts of
        None \<Rightarrow> collect_matches input contexts rest (matched, pending)
      | Some depth \<Rightarrow>
          (case match_keystrokes b input of
             None \<Rightarrow> collect_matches input contexts rest (matched, pending)
           | Some is_pending \<Rightarrow>
               if \<not> is_pending then collect_matches input contexts rest (matched @ [(depth, ix, b)], pending)
               else collect_matches input contexts rest (matched, pending @ [(ix, b)])))"

definition by_precedence :: "'d found \<Rightarrow> 'd found \<Rightarrow> ordering" where
  "by_precedence x y = (case (x, y) of ((da, ia, _), (db, ib, _)) \<Rightarrow> then_with (cmp_of db da) (cmp_of ib ia))"

text \<open>The second loop: the unbind markers seen, the bindings taken, and the index of the first one.\<close>

fun take_matches :: "'d found list \<Rightarrow> 'd key_binding list \<Rightarrow> 'd key_binding list \<Rightarrow> nat option \<Rightarrow> 'd key_binding list \<times> nat option"
where
  "take_matches [] unbound bs first = (bs, first)"
| "take_matches ((_, ix, b) # rest) unbound bs first =
     (if is_no_action (kb_action b)
      then (case kb_meta b of
              Some meta \<Rightarrow> if meta = 0 then (bs, first) else take_matches rest unbound bs first
            | None \<Rightarrow> (bs, first))
      else if is_unbind (kb_action b) then take_matches rest (unbound @ [b]) bs first
      else if list_ex (\<lambda>disabled. binding_is_unbound disabled b) unbound then take_matches rest unbound bs first
      else take_matches rest unbound (bs @ [b]) (case first of Some i \<Rightarrow> Some i | None \<Rightarrow> Some ix))"

text \<open>The third loop, over the pending bindings in the order they were added: the set of their keystrokes.\<close>

fun pending_keys :: "nat option \<Rightarrow> (nat \<times> 'd key_binding) list \<Rightarrow> keybinding_keystroke list set \<Rightarrow> keybinding_keystroke list set"
where
  "pending_keys first [] keys = keys"
| "pending_keys first ((ix, b) # rest) keys =
     (if (case first of Some i \<Rightarrow> ix < i | None \<Rightarrow> False) then pending_keys first rest keys
      else if is_no_action (kb_action b) \<or> is_unbind (kb_action b) then pending_keys first rest (keys - {kb_keystrokes b})
      else pending_keys first rest (insert (kb_keystrokes b) keys))"

definition bindings_for_input :: "'d keymap \<Rightarrow> keystroke list \<Rightarrow> key_context list \<Rightarrow> 'd key_binding list \<times> bool" where
  "bindings_for_input m input contexts =
     (let (matched, pending) = collect_matches input contexts (rev (List.enumerate 0 (km_bindings m))) ([], []);
          (bs, first) = take_matches (sort_by by_precedence matched) [] [] None;
          keys = pending_keys first (rev pending) {} in
      (bs, keys \<noteq> {}))"

definition possible_next_bindings_for_input :: "'d keymap \<Rightarrow> keystroke list \<Rightarrow> key_context list \<Rightarrow> 'd key_binding list" where
  "possible_next_bindings_for_input m input contexts =
     map (\<lambda>(_, _, b). b) (sort_by by_precedence (List.map_filter
       (\<lambda>(ix, b). case binding_enabled b contexts of
          None \<Rightarrow> None
        | Some depth \<Rightarrow>
            (case match_keystrokes b input of
               None \<Rightarrow> None
             | Some is_pending \<Rightarrow>
                 if \<not> is_pending \<or> is_no_action (kb_action b) \<or> is_unbind (kb_action b) then None else Some (depth, ix, b)))
       (rev (List.enumerate 0 (km_bindings m)))))"

end
