(* ===== verification/Keymap_Laws.thy ===== *)
theory Keymap_Laws
  imports Keymap "HOL-Library.Multiset"
begin

text \<open>
  What the keymap promises: its indices stay in step with the bindings, the lookups by action and by input in terms of the
  bindings alone, and how the two lookups agree.
\<close>

section \<open>The indices kept beside the bindings\<close>

definition marker :: "'d key_binding \<Rightarrow> bool" where
  "marker b \<longleftrightarrow> is_no_action (kb_action b) \<or> is_unbind (kb_action b)"

definition indices_where :: "('d key_binding \<Rightarrow> bool) \<Rightarrow> 'd key_binding list \<Rightarrow> nat list" where
  "indices_where P bs = filter (\<lambda>i. P (bs ! i)) [0..<length bs]"

definition keymap_ok :: "'d keymap \<Rightarrow> bool" where
  "keymap_ok m \<longleftrightarrow>
     (\<forall>t. (case km_by_action m t of Some ixs \<Rightarrow> ixs | None \<Rightarrow> []) =
       indices_where (\<lambda>b. \<not> marker b \<and> type_id (kb_action b) = t) (km_bindings m)) \<and>
     km_disabled m = indices_where marker (km_bindings m)"

lemma indices_where_snoc: "indices_where P (bs @ [b]) = indices_where P bs @ (if P b then [length bs] else [])"
  by (auto simp: indices_where_def nth_append intro: filter_cong)

lemma add_binding_ok: "keymap_ok m \<Longrightarrow> keymap_ok (add_binding b m)"
  by (auto simp: keymap_ok_def add_binding_def Let_def indices_where_snoc marker_def)

lemma add_binding_bindings: "km_bindings (add_binding b m) = km_bindings m @ [b]"
  by (simp add: add_binding_def Let_def)

lemma add_bindings_ok:
  assumes "keymap_ok m"
  shows "keymap_ok (add_bindings bs m)"
proof -
  have "keymap_ok (fold add_binding bs m)" using assms by (induction bs arbitrary: m) (auto simp: add_binding_ok)
  then show ?thesis by (simp add: add_bindings_def keymap_ok_def Let_def)
qed

lemma add_bindings_bindings: "km_bindings (add_bindings bs m) = km_bindings m @ bs"
proof -
  have "km_bindings (fold add_binding bs m) = km_bindings m @ bs" by (induction bs arbitrary: m) (auto simp: add_binding_bindings)
  then show ?thesis by (simp add: add_bindings_def Let_def)
qed

lemma keymap_default_ok: "keymap_ok keymap_default"
  by (simp add: keymap_ok_def keymap_default_def indices_where_def)

lemma keymap_clear_ok: "keymap_ok (keymap_clear m)"
  by (simp add: keymap_ok_def keymap_clear_def indices_where_def)

lemma keymap_new_ok: "keymap_ok (keymap_new bs)"
  by (simp add: keymap_new_def add_bindings_ok keymap_default_ok)

lemma keymap_new_bindings: "km_bindings (keymap_new bs) = bs"
  by (simp add: keymap_new_def add_bindings_bindings keymap_default_def)

section \<open>Bindings for an action\<close>

definition displayed :: "('d \<Rightarrow> 'd \<Rightarrow> bool) \<Rightarrow> 'd key_binding list \<Rightarrow> 'd gpui_action \<Rightarrow> nat \<Rightarrow> bool" where
  "displayed data_eq bs action i \<longleftrightarrow> \<not> marker (bs ! i) \<and> partial_eq data_eq (kb_action (bs ! i)) action \<and>
     (\<forall>j. i < j \<and> j < length bs \<longrightarrow> \<not> hides (bs ! j) (bs ! i))"

lemma partial_eq_type: "partial_eq data_eq a b \<Longrightarrow> type_id a = type_id b"
  by (cases "(data_eq, a, b)" rule: partial_eq.cases) auto

lemma hides_marker: "hides d b \<Longrightarrow> marker d"
  by (auto simp: hides_def marker_def split: if_splits)

lemma hidden_by_spec:
  assumes "\<forall>d \<in> set ds. d < length (km_bindings m)"
  shows "hidden_by m ix b ds = Some (\<exists>d \<in> set ds. ix < d \<and> hides (km_bindings m ! d) b)"
  using assms by (induction ds) (auto simp: binding_at_def)

lemma hidden_by_disabled:
  assumes "keymap_ok m"
  shows "hidden_by m ix b (km_disabled m) =
    Some (\<exists>j. ix < j \<and> j < length (km_bindings m) \<and> hides (km_bindings m ! j) b)"
proof -
  have disabled: "set (km_disabled m) = {j. j < length (km_bindings m) \<and> marker (km_bindings m ! j)}"
    using assms by (auto simp: keymap_ok_def indices_where_def)
  then show ?thesis
    by (subst hidden_by_spec) (auto dest: hides_marker)
qed

lemma live_bindings_spec:
  assumes "keymap_ok m" and "\<forall>i \<in> set ixs. i < length (km_bindings m) \<and> \<not> marker (km_bindings m ! i)"
  shows "live_bindings data_eq m action ixs =
    Some (map (\<lambda>i. km_bindings m ! i) (filter (displayed data_eq (km_bindings m) action) ixs))"
  using assms(2)
  by (induction ixs) (auto simp: binding_at_def hidden_by_disabled [OF assms(1)] displayed_def)

lemma bindings_for_action_displayed:
  assumes "keymap_ok m"
  shows "bindings_for_action data_eq m action = Some (map (\<lambda>i. km_bindings m ! i)
    (filter (displayed data_eq (km_bindings m) action) [0..<length (km_bindings m)]))"
proof -
  let ?bs = "km_bindings m"
  let ?P = "\<lambda>b. \<not> marker b \<and> type_id (kb_action b) = type_id action"
  have "(case km_by_action m (type_id action) of Some ixs \<Rightarrow> ixs | None \<Rightarrow> []) = indices_where ?P ?bs"
    using assms by (simp add: keymap_ok_def)
  moreover have "filter (displayed data_eq ?bs action) (indices_where ?P ?bs) = filter (displayed data_eq ?bs action) [0..<length ?bs]"
    by (auto simp: indices_where_def displayed_def dest: partial_eq_type intro!: filter_cong)
  moreover have "\<forall>i \<in> set (indices_where ?P ?bs). i < length ?bs \<and> \<not> marker (?bs ! i)"
    by (auto simp: indices_where_def)
  ultimately show ?thesis by (simp add: bindings_for_action_def live_bindings_spec [OF assms])
qed

section \<open>Bindings for an input\<close>

text \<open>
  The bindings enabled in \<open>contexts\<close> that match the whole input (\<open>pending = False\<close>) or begin with it, and their
  precedence: the depth of the match, then the position in the keymap.
\<close>

definition hit :: "bool \<Rightarrow> 'd key_binding list \<Rightarrow> keystroke list \<Rightarrow> key_context list \<Rightarrow> nat \<Rightarrow> bool" where
  "hit pending bs input contexts i \<longleftrightarrow> i < length bs \<and> binding_enabled (bs ! i) contexts \<noteq> None \<and>
     match_keystrokes (bs ! i) input = Some pending"

definition precedence_of :: "'d key_binding list \<Rightarrow> key_context list \<Rightarrow> nat \<Rightarrow> nat \<times> nat" where
  "precedence_of bs contexts i = (the (binding_enabled (bs ! i) contexts), i)"

text \<open>The highest precedence first.\<close>

definition ranked :: "'d key_binding list \<Rightarrow> key_context list \<Rightarrow> (nat \<Rightarrow> bool) \<Rightarrow> nat list" where
  "ranked bs contexts P = rev (sort_key (precedence_of bs contexts) (filter P [0..<length bs]))"

definition user_no_action :: "'d key_binding \<Rightarrow> bool" where
  "user_no_action b \<longleftrightarrow> is_no_action (kb_action b) \<and> (kb_meta b = None \<or> kb_meta b = Some 0)"

definition masks :: "'d key_binding \<Rightarrow> 'd key_binding \<Rightarrow> bool" where
  "masks d b \<longleftrightarrow> user_no_action d \<or> binding_is_unbound d b"

definition dispatchable :: "'d key_binding list \<Rightarrow> keystroke list \<Rightarrow> key_context list \<Rightarrow> nat \<Rightarrow> bool" where
  "dispatchable bs input contexts i \<longleftrightarrow> hit False bs input contexts i \<and> \<not> marker (bs ! i) \<and>
     (\<forall>j. hit False bs input contexts j \<and> precedence_of bs contexts i < precedence_of bs contexts j \<longrightarrow> \<not> masks (bs ! j) (bs ! i))"

text \<open>More input may complete a binding: none below the first one found, and none disabled by a later marker.\<close>

definition still_pending :: "'d key_binding list \<Rightarrow> keystroke list \<Rightarrow> key_context list \<Rightarrow> nat list \<Rightarrow> nat \<Rightarrow> bool" where
  "still_pending bs input contexts found i \<longleftrightarrow> hit True bs input contexts i \<and> \<not> marker (bs ! i) \<and> (found = [] \<or> hd found \<le> i) \<and>
     (\<forall>j. i < j \<and> hit True bs input contexts j \<and> marker (bs ! j) \<longrightarrow> kb_keystrokes (bs ! j) \<noteq> kb_keystrokes (bs ! i))"

lemma precedence_of_inj: "inj_on (precedence_of bs contexts) A"
  by (auto simp: inj_on_def precedence_of_def)

text \<open>A descending sort by a key without ties.\<close>

lemma mset_insert_by: "mset (insert_by cmp x xs) = add_mset x (mset xs)"
  by (induction xs) auto

lemma mset_sort_by: "mset (sort_by cmp xs) = mset xs"
  unfolding sort_by_def by (induction xs) (auto simp: mset_insert_by)

lemma sort_by_descending:
  fixes f :: "'a \<Rightarrow> 'k::linorder"
  assumes cmp: "\<And>x y. cmp x y = cmp_of (f y) (f x)" and "inj_on f (set xs)"
  shows "sort_by cmp xs = rev (sort_key f xs)"
proof -
  let ?down = "sorted_wrt (\<lambda>x y. f y \<le> f x)"
  have ins: "?down (insert_by cmp x ys)" if "?down ys" for x ys
    using that
  proof (induction ys)
    case (Cons y ys)
    have "set_mset (mset (insert_by cmp x ys)) = insert x (set ys)" by (simp only: mset_insert_by) simp
    then have "set (insert_by cmp x ys) = insert x (set ys)" by simp
    with Cons show ?case by (cases "f x < f y") (auto simp: cmp [of x y] not_less)
  qed simp
  have "?down (sort_by cmp xs)" unfolding sort_by_def by (induction xs) (auto intro: ins)
  then have "sorted (map f (rev (sort_by cmp xs)))"
    by (simp add: sorted_map sorted_wrt_rev)
  then have "sort_key f xs = rev (sort_by cmp xs)"
    using assms(2) mset_sort_by [of cmp xs] by (intro sort_key_inj_key_eq) auto
  then show ?thesis by simp
qed

text \<open>The loops over the matches, with a binding given by its index.\<close>

definition found_at :: "'d key_binding list \<Rightarrow> key_context list \<Rightarrow> nat \<Rightarrow> 'd found" where
  "found_at bs contexts i = (the (binding_enabled (bs ! i) contexts), i, bs ! i)"

lemma collect_matches_spec:
  assumes "\<forall>i \<in> set ixs. i < length bs"
  shows "collect_matches input contexts (map (\<lambda>i. (i, bs ! i)) ixs) (matched, pending) =
    (matched @ map (found_at bs contexts) (filter (hit False bs input contexts) ixs),
     pending @ map (\<lambda>i. (i, bs ! i)) (filter (hit True bs input contexts) ixs))"
  using assms by (induction ixs arbitrary: matched pending) (auto simp: hit_def found_at_def split: option.splits)

lemma enumerate_indices: "List.enumerate 0 bs = map (\<lambda>i. (i, bs ! i)) [0..<length bs]"
  by (rule nth_equalityI) (simp_all add: nth_enumerate_eq)

lemma sort_found:
  assumes "distinct ixs"
  shows "sort_by by_precedence (map (found_at bs contexts) ixs) =
    map (found_at bs contexts) (rev (sort_key (precedence_of bs contexts) ixs))"
proof -
  let ?key = "\<lambda>x :: 'a found. (fst x, fst (snd x))"
  have key: "?key \<circ> found_at bs contexts = precedence_of bs contexts"
    by (simp add: fun_eq_iff found_at_def precedence_of_def)
  have "by_precedence x y = cmp_of (?key y) (?key x)" for x y :: "'a found"
    by (cases x, cases y) (simp add: by_precedence_def then_with_cmp)
  moreover have "inj_on ?key (set (map (found_at bs contexts) ixs))"
    by (auto simp: inj_on_def found_at_def)
  ultimately have "sort_by by_precedence (map (found_at bs contexts) ixs) = rev (sort_key ?key (map (found_at bs contexts) ixs))"
    by (rule sort_by_descending)
  moreover have "sort_key ?key (map (found_at bs contexts) ixs) = map (found_at bs contexts) (sort_key (precedence_of bs contexts) ixs)"
  proof (rule sort_key_inj_key_eq)
    show "inj_on ?key (set (map (found_at bs contexts) ixs))" by (auto simp: inj_on_def found_at_def)
    show "mset (map (found_at bs contexts) ixs) = mset (map (found_at bs contexts) (sort_key (precedence_of bs contexts) ixs))"
      by simp
    show "sorted (map ?key (map (found_at bs contexts) (sort_key (precedence_of bs contexts) ixs)))"
      by (simp only: map_map key) simp
  qed
  ultimately show ?thesis by (simp add: rev_map)
qed

text \<open>What the second loop takes of the matches \<open>A\<close>.\<close>

definition unmasked :: "'d key_binding list \<Rightarrow> key_context list \<Rightarrow> nat set \<Rightarrow> nat \<Rightarrow> bool" where
  "unmasked bs contexts A i \<longleftrightarrow> \<not> marker (bs ! i) \<and>
     (\<forall>j \<in> A. precedence_of bs contexts i < precedence_of bs contexts j \<longrightarrow> \<not> masks (bs ! j) (bs ! i))"

definition first_of :: "nat option \<Rightarrow> nat list \<Rightarrow> nat option" where
  "first_of first is = (case first of Some i \<Rightarrow> Some i | None \<Rightarrow> (case is of [] \<Rightarrow> None | i # _ \<Rightarrow> Some i))"

lemma first_of_simps [simp]: "first_of first [] = first" "first_of (Some i) is = Some i" "first_of None (i # is) = Some i"
  by (simp_all add: first_of_def split: option.split)

lemma take_matches_spec:
  assumes "sorted_wrt (\<lambda>i j. precedence_of bs contexts j < precedence_of bs contexts i) (seen @ ixs)"
    and "\<forall>j \<in> set seen. \<not> user_no_action (bs ! j)"
  shows "take_matches (map (found_at bs contexts) ixs) (map (\<lambda>i. bs ! i) (filter (\<lambda>i. is_unbind (kb_action (bs ! i))) seen)) acc first =
     (acc @ map (\<lambda>i. bs ! i) (filter (unmasked bs contexts (set (seen @ ixs))) ixs),
      first_of first (filter (unmasked bs contexts (set (seen @ ixs))) ixs))"
  using assms
proof (induction ixs arbitrary: seen acc first)
  case (Cons i ixs)
  let ?prec = "precedence_of bs contexts"
  let ?free = "unmasked bs contexts (set (seen @ i # ixs))"
  let ?seen = "map (\<lambda>i. bs ! i) (filter (\<lambda>i. is_unbind (kb_action (bs ! i))) seen)"
  have above: "\<forall>k \<in> set ixs. ?prec k < ?prec i" "\<forall>j \<in> set seen. ?prec i < ?prec j" "\<forall>k \<in> set ixs. \<not> ?prec i < ?prec k"
    and seen: "\<forall>j \<in> set seen. \<not> user_no_action (bs ! j)"
    using Cons.prems by (auto simp: sorted_wrt_append)
  have i: "found_at bs contexts i = (the (binding_enabled (bs ! i) contexts), i, bs ! i)" by (simp add: found_at_def)
  have set_eq: "set ((seen @ [i]) @ ixs) = set (seen @ i # ixs)" by simp
  have IH: "take_matches (map (found_at bs contexts) ixs) (?seen @ (if is_unbind (kb_action (bs ! i)) then [bs ! i] else [])) acc first =
     (acc @ map (\<lambda>i. bs ! i) (filter ?free ixs), first_of first (filter ?free ixs))"
    if "\<not> user_no_action (bs ! i)" for acc first
    using Cons.IH [of "seen @ [i]" acc first, unfolded set_eq] Cons.prems that
    by (cases "is_unbind (kb_action (bs ! i))") simp_all
  consider (stop) "user_no_action (bs ! i)" | (skip) "is_no_action (kb_action (bs ! i))" "\<not> user_no_action (bs ! i)"
    | (unbind) "is_unbind (kb_action (bs ! i))" | (user) "\<not> marker (bs ! i)"
    by (auto simp: marker_def)
  then show ?case
  proof cases
    case stop
    then have "\<not> ?free i" "\<forall>k \<in> set ixs. \<not> ?free k"
      using above by (auto simp: user_no_action_def marker_def masks_def unmasked_def)
    then have "filter ?free (i # ixs) = []" by (simp add: filter_empty_conv)
    with stop show ?thesis
      by (auto simp: i user_no_action_def simp del: filter.simps)
  next
    case skip
    then have "\<not> ?free i" "\<not> is_unbind (kb_action (bs ! i))"
      by (auto simp: unmasked_def marker_def is_no_action_def is_unbind_def)
    with skip IH [of acc first] show ?thesis
      by (auto simp: i user_no_action_def)
  next
    case unbind
    then have "\<not> ?free i" "\<not> user_no_action (bs ! i)" "\<not> is_no_action (kb_action (bs ! i))"
      by (auto simp: unmasked_def marker_def user_no_action_def is_no_action_def is_unbind_def)
    with unbind IH [of acc first] show ?thesis by (simp add: i)
  next
    case user
    then have no: "\<not> user_no_action (bs ! i)" "\<not> is_no_action (kb_action (bs ! i))" "\<not> is_unbind (kb_action (bs ! i))"
      by (auto simp: marker_def user_no_action_def)
    have "masks (bs ! j) (bs ! i) \<longleftrightarrow> is_unbind (kb_action (bs ! j)) \<and> binding_is_unbound (bs ! j) (bs ! i)" if "j \<in> set seen" for j
      using seen that by (auto simp: masks_def binding_is_unbound_def is_unbind_def split: gpui_action.splits)
    then have unbound: "list_ex (\<lambda>d. binding_is_unbound d (bs ! i)) ?seen \<longleftrightarrow> \<not> ?free i"
      using user above by (auto simp: list_ex_iff unmasked_def)
    show ?thesis
    proof (cases "?free i")
      case True
      with unbound no IH [OF no(1), of "acc @ [bs ! i]" "case first of Some k \<Rightarrow> Some k | None \<Rightarrow> Some i"]
      show ?thesis by (cases first) (simp_all add: i)
    next
      case False
      with unbound no IH [OF no(1), of acc first] show ?thesis by (simp add: i)
    qed
  qed
qed simp

text \<open>The third loop.\<close>

definition below :: "nat option \<Rightarrow> nat \<Rightarrow> bool" where
  "below first i \<longleftrightarrow> (case first of Some f \<Rightarrow> i < f | None \<Rightarrow> False)"

lemma pending_keys_spec:
  assumes "sorted_wrt (<) ixs"
  shows "K \<in> pending_keys first (map (\<lambda>i. (i, bs ! i)) ixs) keys \<longleftrightarrow>
    (\<exists>i \<in> set ixs. \<not> below first i \<and> \<not> marker (bs ! i) \<and> kb_keystrokes (bs ! i) = K \<and>
       (\<forall>j \<in> set ixs. i < j \<and> marker (bs ! j) \<longrightarrow> kb_keystrokes (bs ! j) \<noteq> K)) \<or>
    K \<in> keys \<and> (\<forall>j \<in> set ixs. \<not> below first j \<and> marker (bs ! j) \<longrightarrow> kb_keystrokes (bs ! j) \<noteq> K)"
  using assms
proof (induction ixs arbitrary: keys)
  case (Cons i ixs)
  have later: "\<forall>j \<in> set ixs. i < j" "\<not> i < i" "\<forall>j \<in> set ixs. \<not> j < i" and sorted: "sorted_wrt (<) ixs"
    using Cons.prems by auto
  have up: "\<not> below first i \<Longrightarrow> \<forall>j \<in> set ixs. \<not> below first j"
    using later by (auto simp: below_def split: option.splits)
  note IH = Cons.IH [OF sorted]
  consider (below) "below first i" | (mark) "\<not> below first i" "marker (bs ! i)" | (user) "\<not> below first i" "\<not> marker (bs ! i)" by blast
  then show ?case
  proof cases
    case below
    then show ?thesis using IH later by (auto simp: below_def [symmetric])
  next
    case mark
    then show ?thesis using IH later up by (auto simp: below_def [symmetric] marker_def [symmetric])
  next
    case user
    then show ?thesis using IH later up by (auto simp: below_def [symmetric] marker_def [symmetric])
  qed
qed simp

lemma ranked_nonstrict:
  "sorted_wrt (\<lambda>i j. precedence_of bs contexts j < precedence_of bs contexts i) (ranked bs contexts P)"
proof -
  have "sorted (map (precedence_of bs contexts) (sort_key (precedence_of bs contexts) (filter P [0..<length bs])))" by simp
  moreover have "distinct (map (precedence_of bs contexts) (sort_key (precedence_of bs contexts) (filter P [0..<length bs])))"
    by (simp add: distinct_map precedence_of_inj)
  ultimately have "sorted_wrt (<) (map (precedence_of bs contexts) (sort_key (precedence_of bs contexts) (filter P [0..<length bs])))"
    by (simp add: strict_sorted_iff)
  then show ?thesis by (simp add: ranked_def sorted_wrt_rev sorted_wrt_map)
qed

lemma filter_ranked: "filter Q (ranked bs contexts P) = ranked bs contexts (\<lambda>i. P i \<and> Q i)"
  by (simp add: ranked_def rev_filter [symmetric] filter_sort conj_commute)

lemma set_ranked: "set (ranked bs contexts P) = {i. i < length bs \<and> P i}"
  by (auto simp: ranked_def)

theorem bindings_for_input_ranked:
  "bindings_for_input m input contexts =
     (let found = ranked (km_bindings m) contexts (dispatchable (km_bindings m) input contexts) in
      (map (\<lambda>i. km_bindings m ! i) found, \<exists>i. still_pending (km_bindings m) input contexts found i))"
proof -
  let ?bs = "km_bindings m"
  let ?hit = "\<lambda>p. hit p ?bs input contexts"
  let ?n = "length ?bs"
  have collected: "collect_matches input contexts (rev (List.enumerate 0 ?bs)) ([], []) =
     (map (found_at ?bs contexts) (filter (?hit False) (rev [0..<?n])), map (\<lambda>i. (i, ?bs ! i)) (filter (?hit True) (rev [0..<?n])))"
    by (subst enumerate_indices, subst rev_map, subst collect_matches_spec) simp_all
  have sorted: "sort_by by_precedence (map (found_at ?bs contexts) (filter (?hit False) (rev [0..<?n]))) =
      map (found_at ?bs contexts) (ranked ?bs contexts (?hit False))"
  proof -
    have "sort_key (precedence_of ?bs contexts) (filter (?hit False) (rev [0..<?n])) =
        sort_key (precedence_of ?bs contexts) (filter (?hit False) [0..<?n])"
      by (rule sort_key_inj_key_eq) (simp_all add: precedence_of_inj flip: rev_filter)
    then show ?thesis by (simp add: sort_found ranked_def)
  qed
  have taken: "take_matches (map (found_at ?bs contexts) (ranked ?bs contexts (?hit False))) [] [] None =
     (map (\<lambda>i. ?bs ! i) (ranked ?bs contexts (dispatchable ?bs input contexts)),
      first_of None (ranked ?bs contexts (dispatchable ?bs input contexts)))"
  proof -
    have "(\<lambda>i. ?hit False i \<and> unmasked ?bs contexts (set (ranked ?bs contexts (?hit False))) i) = dispatchable ?bs input contexts"
      by (auto simp: fun_eq_iff unmasked_def dispatchable_def set_ranked hit_def)
    then show ?thesis
      using take_matches_spec [of ?bs contexts "[]" "ranked ?bs contexts (?hit False)" "[]" None] ranked_nonstrict [of ?bs contexts "?hit False"]
      by (simp add: filter_ranked)
  qed
  let ?found = "ranked ?bs contexts (dispatchable ?bs input contexts)"
  have below: "below (first_of None ?found) i \<longleftrightarrow> \<not> (?found = [] \<or> hd ?found \<le> i)" for i
    by (cases ?found) (auto simp: below_def)
  have keys: "K \<in> pending_keys (first_of None ?found) (rev (map (\<lambda>i. (i, ?bs ! i)) (filter (?hit True) (rev [0..<?n])))) {} \<longleftrightarrow>
      (\<exists>i. still_pending ?bs input contexts ?found i \<and> kb_keystrokes (?bs ! i) = K)" for K
  proof -
    have ascending: "sorted_wrt (<) (filter (?hit True) [0..<?n])" by (simp add: sorted_wrt_filter)
    have "rev (map (\<lambda>i. (i, ?bs ! i)) (filter (?hit True) (rev [0..<?n]))) = map (\<lambda>i. (i, ?bs ! i)) (filter (?hit True) [0..<?n])"
      by (simp add: rev_map rev_filter)
    then show ?thesis
      by (auto simp: pending_keys_spec [OF ascending] below still_pending_def hit_def)
  qed
  show ?thesis
    unfolding bindings_for_input_def Let_def collected prod.case sorted taken using keys by auto
qed

text \<open>The bindings that may follow are the unfinished matches, ranked alike.\<close>

lemma possible_next_ranked:
  "possible_next_bindings_for_input m input contexts = map (\<lambda>i. km_bindings m ! i)
     (ranked (km_bindings m) contexts (\<lambda>i. hit True (km_bindings m) input contexts i \<and> \<not> marker (km_bindings m ! i)))"
proof -
  let ?bs = "km_bindings m"
  let ?P = "\<lambda>i. hit True ?bs input contexts i \<and> \<not> marker (?bs ! i)"
  let ?f = "\<lambda>(ix, b). case binding_enabled b contexts of
       None \<Rightarrow> None
     | Some depth \<Rightarrow>
         (case match_keystrokes b input of
            None \<Rightarrow> None
          | Some is_pending \<Rightarrow>
              if \<not> is_pending \<or> is_no_action (kb_action b) \<or> is_unbind (kb_action b) then None else Some (depth, ix, b))"
  have "List.map_filter ?f (map (\<lambda>i. (i, ?bs ! i)) ixs) = map (found_at ?bs contexts) (filter ?P ixs)"
    if "\<forall>i \<in> set ixs. i < length ?bs" for ixs
    using that
    by (induction ixs) (auto simp: map_filter_simps hit_def found_at_def marker_def split: option.splits)
  from this [of "rev [0..<length ?bs]"]
  have "List.map_filter ?f (rev (List.enumerate 0 ?bs)) = map (found_at ?bs contexts) (filter ?P (rev [0..<length ?bs]))"
    by (simp add: enumerate_indices rev_map)
  moreover have "sort_key (precedence_of ?bs contexts) (filter ?P (rev [0..<length ?bs])) =
      sort_key (precedence_of ?bs contexts) (filter ?P [0..<length ?bs])"
    by (rule sort_key_inj_key_eq) (simp_all add: precedence_of_inj flip: rev_filter)
  ultimately show ?thesis
    unfolding possible_next_bindings_for_input_def
    by (simp add: sort_found ranked_def comp_def found_at_def)
qed

section \<open>What is dispatched is displayed\<close>

text \<open>A marker that both lookups treat alike: its predicate has no negation, and a \<open>NoAction\<close> is the user's.\<close>

definition plain_marker :: "'d key_binding \<Rightarrow> bool" where
  "plain_marker d \<longleftrightarrow> (is_no_action (kb_action d) \<longrightarrow> user_no_action d) \<and>
     (case kb_predicate d of Some p \<Rightarrow> negation_free p | None \<Rightarrow> True)"

lemma depth_of_eval:
  assumes "depth_of q cs = Some d"
  shows "d \<le> length cs \<and> eval_inner q (take d cs) cs"
proof -
  from assms have d: "d = Max {d. d \<le> length cs \<and> eval_inner q (take d cs) cs}" and "\<exists>d \<le> length cs. eval_inner q (take d cs) cs"
    by (auto simp: depth_of_spec split: if_splits)
  then have "{d. d \<le> length cs \<and> eval_inner q (take d cs) cs} \<noteq> {}" by blast
  from Max_in [OF _ this] show ?thesis unfolding d by simp
qed

lemma depth_of_superset:
  assumes "negation_free p" and "is_superset p q" and "depth_of q cs = Some d"
  shows "\<exists>e \<ge> d. depth_of p cs = Some e"
proof -
  from superset_sound [OF assms(1,2)] depth_of_eval [OF assms(3)] have "d \<le> length cs \<and> eval_inner p (take d cs) cs" by blast
  then show ?thesis by (auto simp: depth_of_spec intro!: Max_ge)
qed

lemma hides_enabled:
  assumes "plain_marker d" and "hides d b" and "binding_enabled b contexts = Some n"
  shows "\<exists>k \<ge> n. binding_enabled d contexts = Some k"
proof -
  have same: "disabled_binding_matches_context d b" using assms(2) by (auto simp: hides_def split: if_splits)
  have short: "n \<le> length contexts"
    using assms(3) depth_of_eval by (auto simp: binding_enabled_def split: option.splits)
  show ?thesis
    using assms same short depth_of_superset
    by (auto simp: binding_enabled_def disabled_binding_matches_context_def plain_marker_def split: option.splits)
qed

lemma hidden_not_dispatchable:
  assumes "i < j" and "j < length bs" and "plain_marker (bs ! j)" and "hides (bs ! j) (bs ! i)"
  shows "\<not> dispatchable bs input contexts i"
proof
  assume i: "dispatchable bs input contexts i"
  then obtain n where n: "binding_enabled (bs ! i) contexts = Some n" "match_keystrokes (bs ! i) input = Some False"
    by (auto simp: dispatchable_def hit_def)
  from hides_enabled [OF assms(3,4) n(1)] obtain k where k: "n \<le> k" "binding_enabled (bs ! j) contexts = Some k" by blast
  have keys: "kb_keystrokes (bs ! j) = kb_keystrokes (bs ! i)" using assms(4) by (auto simp: hides_def split: if_splits)
  have "match_keystrokes (bs ! j) input = match_keystrokes (bs ! i) input" using keys by (simp add: match_keystrokes_def)
  then have "hit False bs input contexts j" using n(2) k(2) assms(2) by (simp add: hit_def)
  moreover have "precedence_of bs contexts i < precedence_of bs contexts j"
    using n(1) k assms(1) by (simp add: precedence_of_def less_prod_def)
  moreover have "masks (bs ! j) (bs ! i)"
    using assms(3,4) by (auto simp: masks_def hides_def plain_marker_def split: if_splits)
  ultimately show False using i by (auto simp: dispatchable_def)
qed

lemma dispatched_is_displayed:
  assumes "keymap_ok m" and "\<And>d. data_eq d d" and "\<forall>d \<in> set (km_bindings m). marker d \<longrightarrow> plain_marker d"
    and "b \<in> set (fst (bindings_for_input m input contexts))"
  shows "no_panic (bindings_for_action data_eq m (kb_action b)) (\<lambda>bs. b \<in> set bs)"
proof -
  let ?bs = "km_bindings m"
  from assms(4) obtain i where i: "i < length ?bs" "dispatchable ?bs input contexts i" "b = ?bs ! i"
    by (auto simp: bindings_for_input_ranked Let_def set_ranked)
  have "\<not> hides (?bs ! j) (?bs ! i)" if "i < j" "j < length ?bs" for j
    using hidden_not_dispatchable [OF that] i(2) assms(3) that(2) hides_marker by (metis nth_mem)
  moreover have "partial_eq data_eq a a" for a by (cases a) (simp_all add: assms(2))
  ultimately have "displayed data_eq ?bs (kb_action b) i" using i by (auto simp: displayed_def dispatchable_def)
  with i show ?thesis by (auto simp: bindings_for_action_displayed [OF assms(1)])
qed

end
