(* ===== verification/Command_Keys.thy ===== *)
theory Command_Keys
  imports Command_Menu Keymap_Laws "HOL-Library.Option_ord"
begin

text \<open>
  GPUI actions and key bindings for commands (\<open>crates/open-gpui-command/src/gpui.rs\<close>, \<open>keybinding.rs\<close>): the
  action map, shortcut projection and diagnostics, dispatch, key-binding sources, their projection with conflicts, patches
  and the resolution of a typed key sequence. Operations that go through \<open>Keymap::bindings_for_action\<close> may panic where it does.
\<close>

text \<open>The platform and the tables of the standard library: \<open>char::is_alphanumeric\<close> and the \<open>Debug\<close> text of a character.\<close>

record key_env =
  env_os :: target_os
  env_alnum :: "code_point \<Rightarrow> bool"
  env_debug_char :: "code_point \<Rightarrow> str"

section \<open>Command actions\<close>

record 'd command_action =
  ca_command_id :: str
  ca_action :: "'d gpui_action"

type_synonym 'd action_map = "'d command_action list"

definition register_action :: "'d action_map \<Rightarrow> str \<Rightarrow> 'd gpui_action \<Rightarrow> 'd action_map" where
  "register_action m i a = m @ [\<lparr>ca_command_id = i, ca_action = a\<rparr>]"

definition action_for_command :: "'d action_map \<Rightarrow> str \<Rightarrow> 'd command_action option" where
  "action_for_command m i = find (\<lambda>c. ca_command_id c = i) (rev m)"

definition command_id_for_action :: "('d \<Rightarrow> 'd \<Rightarrow> bool) \<Rightarrow> 'd action_map \<Rightarrow> 'd gpui_action \<Rightarrow> str option" where
  "command_id_for_action data_eq m a = map_option ca_command_id (find (\<lambda>c. partial_eq data_eq (ca_action c) a) (rev m))"

section \<open>Shortcuts of actions\<close>

definition command_shortcut_label :: "target_os \<Rightarrow> 'd key_binding \<Rightarrow> str" where
  "command_shortcut_label os b = join (lit '' '') (map (keystroke_display os) (kb_keystrokes b))"

definition command_shortcut_label_from_keymap ::
  "target_os \<Rightarrow> ('d \<Rightarrow> 'd \<Rightarrow> bool) \<Rightarrow> 'd keymap \<Rightarrow> 'd gpui_action \<Rightarrow> str option panics" where
  "command_shortcut_label_from_keymap os data_eq km a = do {
     bs \<leftarrow> bindings_for_action data_eq km a;
     Some (if bs = [] then None else Some (command_shortcut_label os (last bs)))
   }"

definition binding_matches_predicate_and_not_shadowed ::
  "('d \<Rightarrow> 'd \<Rightarrow> bool) \<Rightarrow> 'd keymap \<Rightarrow> 'd key_binding \<Rightarrow> key_context list \<Rightarrow> bool" where
  "binding_matches_predicate_and_not_shadowed data_eq km b contexts \<longleftrightarrow>
     (case fst (bindings_for_input km (kb_keystrokes b) contexts) of
        found # _ \<Rightarrow> partial_eq data_eq (kb_action found) (kb_action b)
      | [] \<Rightarrow> False)"

definition highest_precedence_binding_for_action_in_key_contexts ::
  "('d \<Rightarrow> 'd \<Rightarrow> bool) \<Rightarrow> 'd keymap \<Rightarrow> 'd gpui_action \<Rightarrow> key_context list \<Rightarrow> 'd key_binding option panics" where
  "highest_precedence_binding_for_action_in_key_contexts data_eq km a contexts = do {
     bs \<leftarrow> bindings_for_action data_eq km a;
     Some (find (\<lambda>b. binding_matches_predicate_and_not_shadowed data_eq km b contexts) (rev bs))
   }"

definition command_shortcut_label_from_keymap_in_context ::
  "target_os \<Rightarrow> ('d \<Rightarrow> 'd \<Rightarrow> bool) \<Rightarrow> 'd keymap \<Rightarrow> 'd gpui_action \<Rightarrow> key_context list \<Rightarrow> str option panics" where
  "command_shortcut_label_from_keymap_in_context os data_eq km a contexts = do {
     b \<leftarrow> highest_precedence_binding_for_action_in_key_contexts data_eq km a contexts;
     Some (map_option (command_shortcut_label os) b)
   }"

text \<open>The shortcuts of all actions, collected into a map: the last one of a command id stays.\<close>

type_synonym shortcuts = "(str, str) btree_map"

fun collect_shortcuts :: "('d gpui_action \<Rightarrow> str option panics) \<Rightarrow> 'd action_map \<Rightarrow> shortcuts \<Rightarrow> shortcuts panics" where
  "collect_shortcuts label [] m = Some m"
| "collect_shortcuts label (c # cs) m = do {
     l \<leftarrow> label (ca_action c);
     collect_shortcuts label cs (case l of Some s \<Rightarrow> bt_insert (ca_command_id c) s m | None \<Rightarrow> m)
   }"

definition registry_snapshot_with_shortcuts :: "registry_snapshot \<Rightarrow> shortcuts \<Rightarrow> registry_snapshot" where
  "registry_snapshot_with_shortcuts registry shortcuts =
     snapshot_new (rs_revision registry)
       (map (\<lambda>c. with_descriptor c
          (case map_of shortcuts (cc_id c) of Some s \<Rightarrow> with_shortcut (cc_descriptor c) s | None \<Rightarrow> cc_descriptor c))
        (rs_contributions registry))"

definition registry_snapshot_with_keymap_shortcuts ::
  "target_os \<Rightarrow> ('d \<Rightarrow> 'd \<Rightarrow> bool) \<Rightarrow> 'd action_map \<Rightarrow> registry_snapshot \<Rightarrow> 'd keymap \<Rightarrow> registry_snapshot panics" where
  "registry_snapshot_with_keymap_shortcuts os data_eq m registry km = do {
     shortcuts \<leftarrow> collect_shortcuts (command_shortcut_label_from_keymap os data_eq km) m [];
     Some (registry_snapshot_with_shortcuts registry shortcuts)
   }"

definition registry_snapshot_with_keymap_shortcuts_in_context ::
  "target_os \<Rightarrow> ('d \<Rightarrow> 'd \<Rightarrow> bool) \<Rightarrow> 'd action_map \<Rightarrow> registry_snapshot \<Rightarrow> 'd keymap \<Rightarrow> key_context list \<Rightarrow>
     registry_snapshot panics" where
  "registry_snapshot_with_keymap_shortcuts_in_context os data_eq m registry km contexts = do {
     shortcuts \<leftarrow> collect_shortcuts (\<lambda>a. command_shortcut_label_from_keymap_in_context os data_eq km a contexts) m [];
     Some (registry_snapshot_with_shortcuts registry shortcuts)
   }"

text \<open>\<open>highest\<close> is \<open>Window::highest_precedence_binding_for_action\<close> of the window.\<close>

definition window_shortcut_label :: "target_os \<Rightarrow> ('d gpui_action \<Rightarrow> 'd key_binding option) \<Rightarrow> 'd gpui_action \<Rightarrow> str option panics" where
  "window_shortcut_label os highest a = Some (map_option (command_shortcut_label os) (highest a))"

definition registry_snapshot_with_window_shortcuts ::
  "target_os \<Rightarrow> ('d gpui_action \<Rightarrow> 'd key_binding option) \<Rightarrow> 'd action_map \<Rightarrow> registry_snapshot \<Rightarrow> registry_snapshot panics" where
  "registry_snapshot_with_window_shortcuts os highest m registry = do {
     shortcuts \<leftarrow> collect_shortcuts (window_shortcut_label os highest) m [];
     Some (registry_snapshot_with_shortcuts registry shortcuts)
   }"

section \<open>Shortcut diagnostics\<close>

datatype shortcut_diagnostic_kind = MissingAction | OrphanAction | MissingShortcut | DuplicateShortcut

record shortcut_diagnostic =
  sd_kind :: shortcut_diagnostic_kind
  sd_command_ids :: "str list"
  sd_shortcut :: "str option"
  sd_action_name :: "str option"

definition missing_action :: "str \<Rightarrow> shortcut_diagnostic" where
  "missing_action i = \<lparr>sd_kind = MissingAction, sd_command_ids = [i], sd_shortcut = None, sd_action_name = None\<rparr>"

definition orphan_action :: "str \<Rightarrow> str \<Rightarrow> shortcut_diagnostic" where
  "orphan_action i n = \<lparr>sd_kind = OrphanAction, sd_command_ids = [i], sd_shortcut = None, sd_action_name = Some n\<rparr>"

definition missing_shortcut :: "str \<Rightarrow> str \<Rightarrow> shortcut_diagnostic" where
  "missing_shortcut i n = \<lparr>sd_kind = MissingShortcut, sd_command_ids = [i], sd_shortcut = None, sd_action_name = Some n\<rparr>"

definition duplicate_shortcut :: "str \<Rightarrow> str list \<Rightarrow> shortcut_diagnostic" where
  "duplicate_shortcut s ids = \<lparr>sd_kind = DuplicateShortcut, sd_command_ids = ids, sd_shortcut = Some s, sd_action_name = None\<rparr>"

definition diagnostic_command_id :: "shortcut_diagnostic \<Rightarrow> str option" where
  "diagnostic_command_id d = (if length (sd_command_ids d) = 1 then Some (sd_command_ids d ! 0) else None)"

text \<open>\<open>entry(k).or_default().push(v)\<close> on a map of vectors.\<close>

definition bt_push :: "'k::linorder \<Rightarrow> 'v \<Rightarrow> ('k, 'v list) btree_map \<Rightarrow> ('k, 'v list) btree_map" where
  "bt_push k v m = bt_insert k ((case map_of m k of Some vs \<Rightarrow> vs | None \<Rightarrow> []) @ [v]) m"

text \<open>The loop over the descriptors: the diagnostics so far, and the commands of each shortcut.\<close>

fun diagnose_descriptors :: "'d action_map \<Rightarrow> ('d gpui_action \<Rightarrow> str option panics) \<Rightarrow> command_descriptor list \<Rightarrow>
    shortcut_diagnostic list \<times> (str, str list) btree_map \<Rightarrow> (shortcut_diagnostic list \<times> (str, str list) btree_map) panics" where
  "diagnose_descriptors m label [] st = Some st"
| "diagnose_descriptors m label (d # ds) (diagnostics, by_shortcut) =
     (case action_for_command m (cd_id d) of
        None \<Rightarrow> diagnose_descriptors m label ds (diagnostics @ [missing_action (cd_id d)], by_shortcut)
      | Some c \<Rightarrow> do {
          l \<leftarrow> label (ca_action c);
          case l of
            None \<Rightarrow> diagnose_descriptors m label ds
                      (diagnostics @ [missing_shortcut (cd_id d) (action_name (ca_action c))], by_shortcut)
          | Some s \<Rightarrow> diagnose_descriptors m label ds (diagnostics, bt_push s (cd_id d) by_shortcut)
        })"

definition effective_actions :: "'d action_map \<Rightarrow> (str, str) btree_map" where
  "effective_actions m = fold (\<lambda>c. bt_insert (ca_command_id c) (action_name (ca_action c))) m []"

definition shortcut_diagnostics_with ::
  "'d action_map \<Rightarrow> registry_snapshot \<Rightarrow> ('d gpui_action \<Rightarrow> str option panics) \<Rightarrow> shortcut_diagnostic list panics" where
  "shortcut_diagnostics_with m registry label = do {
     (diagnostics, by_shortcut) \<leftarrow> diagnose_descriptors m label (snapshot_descriptors registry) ([], []);
     Some (diagnostics
       @ List.map_filter (\<lambda>(s, ids). if 1 < length ids then Some (duplicate_shortcut s ids) else None) by_shortcut
       @ List.map_filter (\<lambda>(i, n). if i \<in> set (map cd_id (snapshot_descriptors registry)) then None else Some (orphan_action i n))
           (effective_actions m))
   }"

section \<open>Dispatch\<close>

datatype dispatch_outcome = Dispatched | MissingCommand | MissingActionBinding | DisabledOutcome "str option" | HiddenOutcome

text \<open>With the action handed to the application or the window.\<close>

type_synonym 'd dispatch = "dispatch_outcome \<times> 'd gpui_action list"

definition dispatch_command :: "'d action_map \<Rightarrow> str \<Rightarrow> 'd dispatch" where
  "dispatch_command m i =
     (case action_for_command m i of None \<Rightarrow> (MissingActionBinding, []) | Some c \<Rightarrow> (Dispatched, [ca_action c]))"

definition dispatch_available_command :: "'d action_map \<Rightarrow> str \<Rightarrow> registry_snapshot \<Rightarrow> availability_resolver \<Rightarrow> 'd dispatch" where
  "dispatch_available_command m i registry resolver =
     (case snapshot_descriptor registry i of
        None \<Rightarrow> (MissingCommand, [])
      | Some d \<Rightarrow>
          (case command_effective_availability d resolver of
             Available \<Rightarrow> dispatch_command m i
           | Disabled r \<Rightarrow> (DisabledOutcome r, [])
           | Hidden \<Rightarrow> (HiddenOutcome, [])))"

section \<open>Key-binding sources\<close>

record command_key_binding =
  ck_command_id :: str
  ck_keystrokes :: str
  ck_context :: "str option"

record key_binding_entry =
  ke_source :: source_id
  ke_binding :: command_key_binding

type_synonym key_binding_registry = "key_binding_entry list"

definition unregister_key_source :: "key_binding_registry \<Rightarrow> source_id \<Rightarrow> nat \<times> key_binding_registry" where
  "unregister_key_source entries src =
     (let kept = filter (\<lambda>e. ke_source e \<noteq> src) entries in (length entries - length kept, kept))"

text \<open>The handle is the source id.\<close>

definition register_key_source :: "key_binding_registry \<Rightarrow> source_id \<Rightarrow> command_key_binding list \<Rightarrow> source_id \<times> key_binding_registry"
where
  "register_key_source entries src bindings =
     (src, snd (unregister_key_source entries src) @ map (\<lambda>b. \<lparr>ke_source = src, ke_binding = b\<rparr>) bindings)"

record edit_target =
  et_source :: source_id
  et_command_id :: str
  et_keystrokes :: str
  et_context :: "str option"

definition matches_entry :: "edit_target \<Rightarrow> key_binding_entry \<Rightarrow> bool" where
  "matches_entry t e \<longleftrightarrow> ke_source e = et_source t \<and> ck_command_id (ke_binding e) = et_command_id t \<and>
     ck_keystrokes (ke_binding e) = et_keystrokes t \<and> ck_context (ke_binding e) = et_context t"

datatype key_binding_patch =
    AddBinding source_id command_key_binding | ReplaceBinding edit_target command_key_binding | RemoveBinding edit_target

datatype patch_outcome = Added | Replaced | Removed | TargetMissing

definition patch_changed :: "patch_outcome \<Rightarrow> bool" where
  "patch_changed r \<longleftrightarrow> r = Added \<or> r = Replaced \<or> r = Removed"

fun apply_to_entries :: "key_binding_patch \<Rightarrow> key_binding_registry \<Rightarrow> patch_outcome \<times> key_binding_registry" where
  "apply_to_entries (AddBinding src b) entries = (Added, entries @ [\<lparr>ke_source = src, ke_binding = b\<rparr>])"
| "apply_to_entries (ReplaceBinding t b) entries =
     (case position (matches_entry t) entries of
        None \<Rightarrow> (TargetMissing, entries)
      | Some i \<Rightarrow> (Replaced, entries[i := \<lparr>ke_source = et_source t, ke_binding = b\<rparr>]))"
| "apply_to_entries (RemoveBinding t) entries =
     (let kept = filter (\<lambda>e. \<not> matches_entry t e) entries in
      (if length kept = length entries then TargetMissing else Removed, kept))"

end
