(* ===== verification/Command_Bindings.thy ===== *)
theory Command_Bindings
  imports Command_Keys
begin

text \<open>
  The projection of key-binding sources into key bindings and its conflicts, patches, and the resolution of typed keys
  (\<open>crates/open-gpui-command/src/keybinding.rs\<close>).
\<close>

section \<open>Messages\<close>

fun predicate_error_display :: "(code_point \<Rightarrow> str) \<Rightarrow> predicate_error \<Rightarrow> str" where
  "predicate_error_display debug_char UnexpectedEnd = lit ''unexpected end''"
| "predicate_error_display debug_char ExpectedParen = lit ''expected a '' @ [39, 41, 39]"
| "predicate_error_display debug_char (UnexpectedCharacter c) = lit ''unexpected character '' @ [39] @ debug_char c @ [39]"
| "predicate_error_display debug_char EqOperands = lit ''operands of == must be identifiers''"
| "predicate_error_display debug_char NeqOperands = lit ''operands of != must be identifiers''"

fun keystroke_error_display :: "keystroke_error \<Rightarrow> str" where
  "keystroke_error_display (InvalidKeystroke s) =
     lit ''Invalid keystroke '' @ [34] @ s @ [34] @
     lit ''. Expected a sequence of modifiers (`ctrl`, `alt`, `shift`, `fn`, `cmd`, `super`, or `win`) followed by a key, separated by `-`.''"

section \<open>Projection\<close>

datatype binding_diagnostic_kind = NoActionRegistered | InvalidKeystrokes | InvalidContext

record binding_diagnostic =
  bd_kind :: binding_diagnostic_kind
  bd_source :: source_id
  bd_command_id :: str
  bd_keystrokes :: str
  bd_context :: "str option"
  bd_message :: "str option"

definition binding_diagnostic_of :: "key_binding_entry \<Rightarrow> binding_diagnostic_kind \<Rightarrow> str option \<Rightarrow> binding_diagnostic" where
  "binding_diagnostic_of e kind message =
     \<lparr>bd_kind = kind, bd_source = ke_source e, bd_command_id = ck_command_id (ke_binding e),
      bd_keystrokes = ck_keystrokes (ke_binding e), bd_context = ck_context (ke_binding e), bd_message = message\<rparr>"

record 'd projected_binding =
  pb_key_binding :: "'d key_binding"
  pb_source :: source_id
  pb_command_id :: str
  pb_keystrokes :: str
  pb_raw_keystrokes :: str
  pb_context :: "str option"
  pb_raw_context :: "str option"
  pb_index :: nat

record conflict_entry =
  ce_source :: source_id
  ce_command_id :: str

record binding_conflict =
  bc_keystrokes :: str
  bc_context :: "str option"
  bc_entries :: "conflict_entry list"

text \<open>One turn of the loop of \<open>project\<close>: a diagnostic, or the valid binding.\<close>

definition project_entry :: "key_env \<Rightarrow> 'd action_map \<Rightarrow> nat \<Rightarrow> key_binding_entry \<Rightarrow> binding_diagnostic + 'd projected_binding" where
  "project_entry env actions index e =
     (let b = ke_binding e in
      case action_for_command actions (ck_command_id b) of
        None \<Rightarrow> Inl (binding_diagnostic_of e NoActionRegistered None)
      | Some action \<Rightarrow>
          (case (case ck_context b of
                   Some context \<Rightarrow>
                     (case predicate_parse (env_alnum env) context of Inr p \<Rightarrow> Inr (Some p) | Inl err \<Rightarrow> Inl err)
                 | None \<Rightarrow> Inr None) of
             Inl err \<Rightarrow> Inl (binding_diagnostic_of e InvalidContext (Some (predicate_error_display (env_debug_char env) err)))
           | Inr context_predicate \<Rightarrow>
               (case load_binding (env_os env) (\<lambda>k _. k) (ck_keystrokes b) (ca_action action) context_predicate False None of
                  Inl err \<Rightarrow> Inl (binding_diagnostic_of e InvalidKeystrokes (Some (keystroke_error_display err)))
                | Inr key_binding \<Rightarrow>
                    Inr \<lparr>pb_key_binding = key_binding, pb_source = ke_source e, pb_command_id = ck_command_id b,
                         pb_keystrokes = command_shortcut_label (env_os env) key_binding,
                         pb_raw_keystrokes = ck_keystrokes b, pb_context = map_option predicate_display context_predicate,
                         pb_raw_context = ck_context b, pb_index = index\<rparr>)))"

definition has_multiple_command_ids :: "'d projected_binding list \<Rightarrow> bool" where
  "has_multiple_command_ids candidates =
     (case candidates of [] \<Rightarrow> False | first # _ \<Rightarrow> list_ex (\<lambda>c. pb_command_id c \<noteq> pb_command_id first) candidates)"

definition push_conflict_if_needed ::
  "str \<Rightarrow> str option \<Rightarrow> 'd projected_binding list \<Rightarrow> binding_conflict list \<Rightarrow> binding_conflict list" where
  "push_conflict_if_needed keystrokes context candidates conflicts =
     (if \<not> has_multiple_command_ids candidates then conflicts
      else conflicts @ [\<lparr>bc_keystrokes = keystrokes, bc_context = context,
        bc_entries = map (\<lambda>b. \<lparr>ce_source = pb_source b, ce_command_id = pb_command_id b\<rparr>)
          (sort_by (\<lambda>x y. cmp_of (pb_index x) (pb_index y)) candidates)\<rparr>])"

type_synonym 'd context_groups = "(str option, 'd projected_binding list) btree_map"

definition group_binding :: "'d projected_binding \<Rightarrow> (str, 'd context_groups) btree_map \<Rightarrow> (str, 'd context_groups) btree_map" where
  "group_binding b groups =
     bt_insert (pb_keystrokes b)
       (bt_push (pb_context b) b (case map_of groups (pb_keystrokes b) of Some g \<Rightarrow> g | None \<Rightarrow> [])) groups"

definition conflicts_of_contexts :: "str \<Rightarrow> 'd context_groups \<Rightarrow> binding_conflict list \<Rightarrow> binding_conflict list" where
  "conflicts_of_contexts keystrokes groups conflicts =
     (let globals = (case map_of groups None of Some bs \<Rightarrow> bs | None \<Rightarrow> []) in
      fold (\<lambda>(context, bs) conflicts.
              case context of
                None \<Rightarrow> conflicts
              | Some c \<Rightarrow> push_conflict_if_needed keystrokes (Some c) (globals @ bs) conflicts)
        groups (push_conflict_if_needed keystrokes None globals conflicts))"

definition key_binding_conflicts :: "'d projected_binding list \<Rightarrow> binding_conflict list" where
  "key_binding_conflicts valid =
     fold (\<lambda>(keystrokes, groups). conflicts_of_contexts keystrokes groups) (fold group_binding valid []) []"

record projected_entry =
  pe_source :: source_id
  pe_command_id :: str
  pe_keystrokes :: str
  pe_raw_keystrokes :: str
  pe_context :: "str option"
  pe_raw_context :: "str option"

definition projected_entry_of :: "'d projected_binding \<Rightarrow> projected_entry" where
  "projected_entry_of b =
     \<lparr>pe_source = pb_source b, pe_command_id = pb_command_id b, pe_keystrokes = pb_keystrokes b,
      pe_raw_keystrokes = pb_raw_keystrokes b, pe_context = pb_context b, pe_raw_context = pb_raw_context b\<rparr>"

definition target_of_projected_entry :: "projected_entry \<Rightarrow> edit_target" where
  "target_of_projected_entry e =
     \<lparr>et_source = pe_source e, et_command_id = pe_command_id e, et_keystrokes = pe_raw_keystrokes e, et_context = pe_raw_context e\<rparr>"

record 'd binding_projection =
  bp_key_bindings :: "'d key_binding list"
  bp_entries :: "projected_entry list"
  bp_diagnostics :: "binding_diagnostic list"
  bp_conflicts :: "binding_conflict list"

text \<open>The loop of \<open>project\<close>: the bindings and diagnostics so far.\<close>

fun project_entries :: "key_env \<Rightarrow> 'd action_map \<Rightarrow> (nat \<times> key_binding_entry) list \<Rightarrow>
    'd projected_binding list \<times> binding_diagnostic list \<Rightarrow> 'd projected_binding list \<times> binding_diagnostic list" where
  "project_entries env actions [] st = st"
| "project_entries env actions ((index, e) # es) (valid, diagnostics) =
     (case project_entry env actions index e of
        Inl d \<Rightarrow> project_entries env actions es (valid, diagnostics @ [d])
      | Inr b \<Rightarrow> project_entries env actions es (valid @ [b], diagnostics))"

definition project_key_bindings :: "key_env \<Rightarrow> key_binding_registry \<Rightarrow> 'd action_map \<Rightarrow> 'd binding_projection" where
  "project_key_bindings env entries actions =
     (let (valid, diagnostics) = project_entries env actions (List.enumerate 0 entries) ([], []) in
      \<lparr>bp_key_bindings = map pb_key_binding valid, bp_entries = map projected_entry_of valid,
       bp_diagnostics = diagnostics, bp_conflicts = key_binding_conflicts valid\<rparr>)"

definition is_strictly_clean :: "'d binding_projection \<Rightarrow> bool" where
  "is_strictly_clean p \<longleftrightarrow> bp_diagnostics p = [] \<and> bp_conflicts p = []"

text \<open>The report is the projection.\<close>

definition install_into_keymap ::
  "key_env \<Rightarrow> key_binding_registry \<Rightarrow> 'd action_map \<Rightarrow> 'd keymap \<Rightarrow> 'd binding_projection \<times> 'd keymap" where
  "install_into_keymap env entries actions km =
     (let p = project_key_bindings env entries actions in (p, add_bindings (bp_key_bindings p) km))"

record 'd patch_preview =
  pp_patch :: key_binding_patch
  pp_outcome :: patch_outcome
  pp_projection :: "'d binding_projection"

definition preview_patch :: "key_env \<Rightarrow> key_binding_registry \<Rightarrow> 'd action_map \<Rightarrow> key_binding_patch \<Rightarrow> 'd patch_preview" where
  "preview_patch env entries actions patch =
     (let (outcome, candidate) = apply_to_entries patch entries in
      \<lparr>pp_patch = patch, pp_outcome = outcome, pp_projection = project_key_bindings env candidate actions\<rparr>)"

definition preview_strictly_clean :: "'d patch_preview \<Rightarrow> bool" where
  "preview_strictly_clean p \<longleftrightarrow> patch_changed (pp_outcome p) \<and> is_strictly_clean (pp_projection p)"

section \<open>Resolving typed keys\<close>

datatype command_state = Dispatchable | MissingCommandState | DisabledState "str option" | HiddenState

definition command_keymap_command_state :: "str \<Rightarrow> registry_snapshot \<Rightarrow> availability_resolver \<Rightarrow> command_state" where
  "command_keymap_command_state i registry availability =
     (case snapshot_descriptor registry i of
        None \<Rightarrow> MissingCommandState
      | Some d \<Rightarrow>
          (case command_effective_availability d availability of
             Available \<Rightarrow> Dispatchable
           | Disabled r \<Rightarrow> DisabledState r
           | Hidden \<Rightarrow> HiddenState))"

record resolved_command =
  rc_command_id :: str
  rc_shortcut :: str
  rc_state :: command_state

definition resolve_binding ::
  "target_os \<Rightarrow> ('d \<Rightarrow> 'd \<Rightarrow> bool) \<Rightarrow> 'd action_map \<Rightarrow> registry_snapshot \<Rightarrow> availability_resolver \<Rightarrow> 'd key_binding \<Rightarrow>
     resolved_command option" where
  "resolve_binding os data_eq actions registry availability b =
     (case command_id_for_action data_eq actions (kb_action b) of
        None \<Rightarrow> None
      | Some i \<Rightarrow> Some \<lparr>rc_command_id = i, rc_shortcut = command_shortcut_label os b,
                        rc_state = command_keymap_command_state i registry availability\<rparr>)"

text \<open>The closure of \<open>filter_map\<close> keeps the first of each command and shortcut.\<close>

fun keep_unseen :: "(str \<times> str) set \<Rightarrow> resolved_command list \<Rightarrow> resolved_command list" where
  "keep_unseen seen [] = []"
| "keep_unseen seen (c # cs) =
     (if (rc_command_id c, rc_shortcut c) \<in> seen then keep_unseen seen cs
      else c # keep_unseen (insert (rc_command_id c, rc_shortcut c) seen) cs)"

definition command_keymap_pending_commands ::
  "target_os \<Rightarrow> ('d \<Rightarrow> 'd \<Rightarrow> bool) \<Rightarrow> 'd action_map \<Rightarrow> registry_snapshot \<Rightarrow> availability_resolver \<Rightarrow> 'd keymap \<Rightarrow>
     key_context list \<Rightarrow> keystroke list \<Rightarrow> resolved_command list" where
  "command_keymap_pending_commands os data_eq actions registry availability km contexts input =
     keep_unseen {} (List.map_filter (resolve_binding os data_eq actions registry availability)
       (possible_next_bindings_for_input km input contexts))"

record keymap_resolution =
  kr_input :: "str list"
  kr_matched_commands :: "resolved_command list"
  kr_pending :: bool
  kr_pending_commands :: "resolved_command list"

definition resolve_keymap_input ::
  "target_os \<Rightarrow> ('d \<Rightarrow> 'd \<Rightarrow> bool) \<Rightarrow> 'd action_map \<Rightarrow> registry_snapshot \<Rightarrow> availability_resolver \<Rightarrow> 'd keymap \<Rightarrow>
     key_context list \<Rightarrow> keystroke list \<Rightarrow> keymap_resolution" where
  "resolve_keymap_input os data_eq actions registry availability km contexts input =
     (let (bs, pending) = bindings_for_input km input contexts in
      \<lparr>kr_input = map (keystroke_unparse os) input,
       kr_matched_commands = List.map_filter (resolve_binding os data_eq actions registry availability) bs,
       kr_pending = pending,
       kr_pending_commands = command_keymap_pending_commands os data_eq actions registry availability km contexts input\<rparr>)"

definition resolve_keymap_sequence ::
  "target_os \<Rightarrow> ('d \<Rightarrow> 'd \<Rightarrow> bool) \<Rightarrow> 'd action_map \<Rightarrow> str \<Rightarrow> registry_snapshot \<Rightarrow> availability_resolver \<Rightarrow> 'd keymap \<Rightarrow>
     key_context list \<Rightarrow> keystroke_error + keymap_resolution" where
  "resolve_keymap_sequence os data_eq actions s registry availability km contexts =
     (case parse_key_sequence os s of
        Inl e \<Rightarrow> Inl e
      | Inr input \<Rightarrow> Inr (resolve_keymap_input os data_eq actions registry availability km contexts input))"

definition primary_dispatchable_command :: "keymap_resolution \<Rightarrow> resolved_command option" where
  "primary_dispatchable_command r = find (\<lambda>c. rc_state c = Dispatchable) (kr_matched_commands r)"

end
