(* ===== verification/Command_Bindings_Laws.thy ===== *)
theory Command_Bindings_Laws
  imports Command_Bindings
begin

text \<open>
  What the command key bindings promise: sources are replaced as a whole, every entry is projected or diagnosed, the conflicts
  are exactly the key sequences that more than one command claims, and a resolved command tells what its dispatch will do.
\<close>

section \<open>Sources and patches\<close>

definition entries_of :: "source_id \<Rightarrow> key_binding_registry \<Rightarrow> command_key_binding list" where
  "entries_of src entries = map ke_binding (filter (\<lambda>e. ke_source e = src) entries)"

lemma entries_of_register:
  "entries_of s (snd (register_key_source entries src bs)) = (if s = src then bs else entries_of s entries)"
  by (auto simp: entries_of_def register_key_source_def unregister_key_source_def Let_def filter_empty_conv comp_def
      intro!: arg_cong [where f = "map ke_binding"] filter_cong)

lemma unregister_count: "fst (unregister_key_source entries src) = length (entries_of src entries)"
  using sum_length_filter_compl [of "\<lambda>e. ke_source e = src" entries]
  by (simp add: unregister_key_source_def entries_of_def Let_def)

text \<open>Only the source of a patch changes; a missing target changes nothing.\<close>

lemma list_update_filter_same: "i < length xs \<Longrightarrow> \<not> P (xs ! i) \<Longrightarrow> \<not> P y \<Longrightarrow> filter P (xs[i := y]) = filter P xs"
  by (induction xs arbitrary: i) (auto split: nat.splits)

fun patch_source :: "key_binding_patch \<Rightarrow> source_id" where
  "patch_source (AddBinding src b) = src"
| "patch_source (ReplaceBinding t b) = et_source t"
| "patch_source (RemoveBinding t) = et_source t"

lemma patch_other_sources:
  assumes "src \<noteq> patch_source p"
  shows "entries_of src (snd (apply_to_entries p entries)) = entries_of src entries"
proof (cases p)
  case (AddBinding s b)
  with assms show ?thesis by (simp add: entries_of_def)
next
  case (ReplaceBinding t b)
  show ?thesis
  proof (cases "position (matches_entry t) entries")
    case None
    with ReplaceBinding show ?thesis by simp
  next
    case (Some i)
    from position_Some [OF this] have "i < length entries" "ke_source (entries ! i) = et_source t" by (auto simp: matches_entry_def)
    with ReplaceBinding assms Some show ?thesis by (simp add: entries_of_def list_update_filter_same)
  qed
next
  case (RemoveBinding t)
  with assms have "filter (\<lambda>e. ke_source e = src) (filter (\<lambda>e. \<not> matches_entry t e) entries) = filter (\<lambda>e. ke_source e = src) entries"
    by (auto simp: matches_entry_def intro: filter_cong)
  with RemoveBinding show ?thesis by (simp add: entries_of_def Let_def)
qed

lemma patch_missing_unchanged:
  assumes "fst (apply_to_entries p entries) = TargetMissing"
  shows "snd (apply_to_entries p entries) = entries"
proof (cases p)
  case (RemoveBinding t)
  with assms have "length (filter (\<lambda>e. \<not> matches_entry t e) entries) = length entries" by (simp add: Let_def split: if_splits)
  then have "filter (\<lambda>e. \<not> matches_entry t e) entries = entries" by (metis filter_id_conv length_filter_less less_irrefl)
  with RemoveBinding show ?thesis by (simp add: Let_def)
qed (use assms in \<open>auto split: option.splits\<close>)

section \<open>Projection\<close>

lemma project_entries_spec:
  "project_entries env actions es (bs, ds) =
     (bs @ List.map_filter (\<lambda>(i, e). case project_entry env actions i e of Inr b \<Rightarrow> Some b | Inl d \<Rightarrow> None) es,
      ds @ List.map_filter (\<lambda>(i, e). case project_entry env actions i e of Inl d \<Rightarrow> Some d | Inr b \<Rightarrow> None) es)"
  by (induction es arbitrary: bs ds) (auto simp: map_filter_simps split: sum.split)

lemma project_entry_index: "project_entry env actions i e = Inr b \<Longrightarrow> pb_index b = i"
  by (auto simp: project_entry_def Let_def split: option.splits sum.splits)

definition valid_bindings :: "key_env \<Rightarrow> 'd action_map \<Rightarrow> key_binding_registry \<Rightarrow> 'd projected_binding list" where
  "valid_bindings env actions entries =
     List.map_filter (\<lambda>(i, e). case project_entry env actions i e of Inr b \<Rightarrow> Some b | Inl d \<Rightarrow> None) (List.enumerate 0 entries)"

lemma valid_bindings_ascending: "sorted_wrt (<) (map pb_index (valid_bindings env actions entries))"
proof -
  let ?f = "\<lambda>(i, e). case project_entry env actions i e of Inr b \<Rightarrow> Some b | Inl d \<Rightarrow> None"
  have "sorted_wrt (<) (map pb_index (List.map_filter ?f es)) \<and> (\<forall>b \<in> set (List.map_filter ?f es). pb_index b \<in> fst ` set es)"
    if "sorted_wrt (<) (map fst es)" for es
    using that
  proof (induction es)
    case (Cons e es)
    obtain i x where e: "e = (i, x)" by (cases e)
    show ?case
    proof (cases "project_entry env actions i x")
      case (Inl d)
      with Cons e show ?thesis by (auto simp: map_filter_simps)
    next
      case (Inr b)
      with Cons e project_entry_index [OF Inr] show ?thesis by (force simp: map_filter_simps)
    qed
  qed simp
  from this [of "List.enumerate 0 entries"] show ?thesis by (simp add: valid_bindings_def)
qed

lemma project_key_bindings_spec:
  "project_key_bindings env entries actions =
     \<lparr>bp_key_bindings = map pb_key_binding (valid_bindings env actions entries),
      bp_entries = map projected_entry_of (valid_bindings env actions entries),
      bp_diagnostics = List.map_filter (\<lambda>(i, e). case project_entry env actions i e of Inl d \<Rightarrow> Some d | Inr b \<Rightarrow> None)
        (List.enumerate 0 entries),
      bp_conflicts = key_binding_conflicts (valid_bindings env actions entries)\<rparr>"
  by (simp add: project_key_bindings_def project_entries_spec valid_bindings_def)

lemma projection_counts:
  "length (bp_key_bindings (project_key_bindings env entries actions)) +
     length (bp_diagnostics (project_key_bindings env entries actions)) = length entries"
proof -
  have "length (List.map_filter (\<lambda>(i, e). case project_entry env actions i e of Inr b \<Rightarrow> Some b | Inl d \<Rightarrow> None) es) +
      length (List.map_filter (\<lambda>(i, e). case project_entry env actions i e of Inl d \<Rightarrow> Some d | Inr b \<Rightarrow> None) es) = length es" for es
    by (induction es) (auto simp: map_filter_simps split: sum.split)
  from this [of "List.enumerate 0 entries"] show ?thesis by (simp add: project_key_bindings_spec valid_bindings_def)
qed

section \<open>Conflicts\<close>

text \<open>The bindings that compete for a key sequence in a context: those of the context and those of no context.\<close>

definition relevant :: "'d projected_binding list \<Rightarrow> str \<Rightarrow> str option \<Rightarrow> 'd projected_binding list" where
  "relevant bs k c = filter (\<lambda>b. pb_keystrokes b = k \<and> (pb_context b = None \<or> pb_context b = c)) bs"

definition conflict_of :: "'d projected_binding list \<Rightarrow> str \<Rightarrow> str option \<Rightarrow> binding_conflict" where
  "conflict_of bs k c =
     \<lparr>bc_keystrokes = k, bc_context = c, bc_entries = map (\<lambda>b. \<lparr>ce_source = pb_source b, ce_command_id = pb_command_id b\<rparr>) (relevant bs k c)\<rparr>"

definition contested :: "'d projected_binding list \<Rightarrow> str \<Rightarrow> str option \<Rightarrow> bool" where
  "contested bs k c \<longleftrightarrow> (\<exists>b \<in> set (relevant bs k c). \<exists>b' \<in> set (relevant bs k c). pb_command_id b \<noteq> pb_command_id b')"

lemma bt_push_map_of [simp]:
  "bt_ok m \<Longrightarrow> map_of (bt_push k v m) = (map_of m)(k \<mapsto> (case map_of m k of Some vs \<Rightarrow> vs | None \<Rightarrow> []) @ [v])"
  by (simp add: bt_push_def bt_simps)

lemma bt_push_ok [simp]: "bt_ok m \<Longrightarrow> bt_ok (bt_push k v m)"
  by (simp add: bt_push_def bt_simps)

definition in_group :: "'d projected_binding list \<Rightarrow> str \<Rightarrow> str option \<Rightarrow> 'd projected_binding list" where
  "in_group bs k c = filter (\<lambda>b. pb_keystrokes b = k \<and> pb_context b = c) bs"

definition as_group :: "'a list \<Rightarrow> 'a list option" where
  "as_group xs = (if xs = [] then None else Some xs)"

definition grouped :: "'d projected_binding list \<Rightarrow> (str, 'd context_groups) btree_map \<Rightarrow> bool" where
  "grouped bs groups \<longleftrightarrow> bt_ok groups \<and>
     (\<forall>k. (map_of groups k = None \<longleftrightarrow> (\<forall>b \<in> set bs. pb_keystrokes b \<noteq> k)) \<and>
       (\<forall>g. map_of groups k = Some g \<longrightarrow> bt_ok g \<and> (\<forall>c. map_of g c = as_group (in_group bs k c))))"

lemma group_binding_grouped:
  assumes "grouped bs groups"
  shows "grouped (bs @ [b]) (group_binding b groups)"
proof -
  let ?k = "pb_keystrokes b"
  let ?g = "case map_of groups ?k of Some g \<Rightarrow> g | None \<Rightarrow> []"
  have ok: "bt_ok groups" using assms by (simp add: grouped_def)
  have g: "bt_ok ?g" "map_of ?g c = as_group (in_group bs ?k c)" for c
  proof -
    show "bt_ok ?g" using assms by (auto simp: grouped_def split: option.splits)
    show "map_of ?g c = as_group (in_group bs ?k c)"
    proof (cases "map_of groups ?k")
      case None
      with assms have "\<forall>b' \<in> set bs. pb_keystrokes b' \<noteq> ?k" by (simp add: grouped_def)
      then show ?thesis by (auto simp: None as_group_def in_group_def filter_empty_conv)
    qed (use assms in \<open>auto simp: grouped_def\<close>)
  qed
  have new: "map_of (bt_push (pb_context b) b ?g) c = as_group (in_group (bs @ [b]) ?k c)" for c
    using g by (auto simp: as_group_def in_group_def)
  have old: "in_group (bs @ [b]) k c = in_group bs k c" if "k \<noteq> ?k" for k c using that by (simp add: in_group_def)
  have map_of: "map_of (group_binding b groups) = (map_of groups)(?k \<mapsto> bt_push (pb_context b) b ?g)"
    using ok by (simp add: group_binding_def bt_simps)
  show ?thesis
    unfolding grouped_def map_of
    using assms new old g(1) ok by (auto simp: grouped_def group_binding_def bt_simps split: if_splits)
qed

lemma groups_of_bindings: "grouped bs (fold group_binding bs [])"
proof (induction bs rule: rev_induct)
  case Nil
  show ?case by (simp add: grouped_def)
next
  case (snoc b bs)
  then show ?case by (simp add: group_binding_grouped)
qed

lemma has_multiple_iff:
  "has_multiple_command_ids cs \<longleftrightarrow> (\<exists>b \<in> set cs. \<exists>b' \<in> set cs. pb_command_id b \<noteq> pb_command_id b')"
proof (cases cs)
  case (Cons a as)
  then show ?thesis by (auto simp: has_multiple_command_ids_def list_ex_iff) metis+
qed (simp add: has_multiple_command_ids_def)

definition conflict_if_needed :: "str \<Rightarrow> str option \<Rightarrow> 'd projected_binding list \<Rightarrow> binding_conflict list" where
  "conflict_if_needed k c cs = push_conflict_if_needed k c cs []"

lemma push_conflict: "push_conflict_if_needed k c cs acc = acc @ conflict_if_needed k c cs"
  by (simp add: push_conflict_if_needed_def conflict_if_needed_def)

definition globals_of :: "'d context_groups \<Rightarrow> 'd projected_binding list" where
  "globals_of g = (case map_of g None of Some bs \<Rightarrow> bs | None \<Rightarrow> [])"

definition context_conflicts :: "str \<Rightarrow> 'd projected_binding list \<Rightarrow> str option \<times> 'd projected_binding list \<Rightarrow> binding_conflict list" where
  "context_conflicts k globals e = (if fst e = None then [] else conflict_if_needed k (fst e) (globals @ snd e))"

definition group_conflicts :: "str \<times> 'd context_groups \<Rightarrow> binding_conflict list" where
  "group_conflicts e = conflict_if_needed (fst e) None (globals_of (snd e)) @
     concat (map (context_conflicts (fst e) (globals_of (snd e))) (snd e))"

lemma fold_append: "(\<And>x acc. f x acc = acc @ g x) \<Longrightarrow> fold f xs acc = acc @ concat (map g xs)"
  by (induction xs arbitrary: acc) auto

lemma conflicts_of_contexts_eq: "conflicts_of_contexts k g acc = acc @ group_conflicts (k, g)"
proof -
  have "fold (\<lambda>(context, bs) conflicts. case context of None \<Rightarrow> conflicts
      | Some c \<Rightarrow> push_conflict_if_needed k (Some c) (globals_of g @ bs) conflicts) g acc' =
    acc' @ concat (map (context_conflicts k (globals_of g)) g)" for acc'
    by (rule fold_append) (auto simp: context_conflicts_def push_conflict split: option.split)
  then show ?thesis
    by (simp add: conflicts_of_contexts_def group_conflicts_def push_conflict globals_of_def [symmetric] Let_def)
qed

lemma key_binding_conflicts_eq: "key_binding_conflicts bs = concat (map group_conflicts (fold group_binding bs []))"
  unfolding key_binding_conflicts_def by (subst fold_append [where g = group_conflicts]) (auto simp: conflicts_of_contexts_eq)

text \<open>A group's candidates, put into registration order, are the relevant bindings.\<close>

lemma candidates_sorted:
  assumes asc: "sorted_wrt (<) (map pb_index bs)" and "mset cs = mset (relevant bs k c)"
  shows "sort_by (\<lambda>x y. cmp_of (pb_index x) (pb_index y)) cs = relevant bs k c"
proof -
  have inj: "inj_on pb_index (set bs)" using asc by (simp add: strict_sorted_iff distinct_map)
  have sub: "set cs \<subseteq> set bs" using mset_eq_setD [OF assms(2)] by (auto simp: relevant_def)
  have sorted: "sorted (map pb_index (relevant bs k c))"
    using asc unfolding relevant_def by (simp add: sorted_filter strict_sorted_iff)
  have "sort_key pb_index cs = relevant bs k c"
    using assms(2) inj_on_subset [OF inj sub] sorted by (rule sort_key_inj_key_eq)
  then show ?thesis by (simp add: sort_by_key [of _ pb_index])
qed

lemma conflict_if_needed_relevant:
  assumes "sorted_wrt (<) (map pb_index bs)" and cs: "mset cs = mset (relevant bs k c)"
  shows "conflict_if_needed k c cs = (if contested bs k c then [conflict_of bs k c] else [])"
proof -
  have "has_multiple_command_ids cs \<longleftrightarrow> contested bs k c"
    unfolding has_multiple_iff contested_def mset_eq_setD [OF cs] ..
  then show ?thesis
    unfolding conflict_if_needed_def push_conflict_if_needed_def candidates_sorted [OF assms] by (simp add: conflict_of_def)
qed

lemma sorted_options:
  fixes cs :: "'a::linorder option list"
  assumes "sorted_wrt (<) cs"
  shows "cs = (if None \<in> set cs then [None] else []) @ filter (\<lambda>c. c \<noteq> None) cs"
proof (cases cs)
  case (Cons c ds)
  have above: "d \<noteq> None" if "d \<in> set ds" for d using assms Cons that by (cases d) auto
  then have "filter (\<lambda>d. d \<noteq> None) ds = ds" by simp
  with Cons above show ?thesis by auto
qed simp

lemma group_conflicts_relevant:
  assumes asc: "sorted_wrt (<) (map pb_index bs)" and "bt_ok g" and g: "\<And>c. map_of g c = as_group (in_group bs k c)"
  shows "group_conflicts (k, g) = map (conflict_of bs k) (filter (contested bs k) (map fst g))"
proof -
  have globals: "globals_of g = in_group bs k None" by (simp add: globals_of_def g as_group_def)
  have rel: "mset (in_group bs k None @ in_group bs k (Some c)) = mset (relevant bs k (Some c))" for c
    unfolding in_group_def relevant_def by (induction bs) auto
  have rel_None: "mset (in_group bs k None) = mset (relevant bs k None)" unfolding in_group_def relevant_def by simp
  have member: "e \<in> set g \<Longrightarrow> snd e = in_group bs k (fst e)" for e
    using map_of_mem [OF \<open>bt_ok g\<close>, of "fst e" "snd e"] by (auto simp: g as_group_def split: if_splits)
  have contexts: "concat (map (context_conflicts k (in_group bs k None)) h) =
      map (conflict_of bs k) (filter (\<lambda>c. c \<noteq> None \<and> contested bs k c) (map fst h))" if "set h \<subseteq> set g" for h
    using that
  proof (induction h)
    case (Cons e h)
    obtain c cs where e: "e = (c, cs)" by (cases e)
    with Cons.prems member [of e] have "cs = in_group bs k c" by simp
    with Cons e conflict_if_needed_relevant [OF asc rel] show ?case by (cases c) (auto simp: context_conflicts_def)
  qed simp
  have first: "filter (contested bs k) (map fst g) =
      (if contested bs k None then [None] else []) @ filter (\<lambda>c. c \<noteq> None \<and> contested bs k c) (map fst g)"
  proof -
    have "sorted_wrt (<) (map fst g)" using \<open>bt_ok g\<close> by (simp add: bt_ok_def)
    from sorted_options [OF this]
    have "filter (contested bs k) (map fst g) = filter (contested bs k)
        ((if None \<in> set (map fst g) then [None] else []) @ filter (\<lambda>c. c \<noteq> None) (map fst g))" by (rule arg_cong)
    moreover have "None \<in> set (map fst g)" if "contested bs k None"
    proof (rule ccontr)
      assume "None \<notin> set (map fst g)"
      then have "map_of g None = None" by (simp add: map_of_eq_None_iff)
      then have "in_group bs k None = []" by (simp add: g as_group_def split: if_splits)
      then have "relevant bs k None = []" by (simp add: in_group_def relevant_def)
      with that show False by (simp add: contested_def)
    qed
    ultimately show ?thesis by (auto simp: conj_commute)
  qed
  show ?thesis
    by (simp add: group_conflicts_def globals contexts conflict_if_needed_relevant [OF asc rel_None] first)
qed

theorem conflicts_exact:
  assumes asc: "sorted_wrt (<) (map pb_index bs)"
  shows "set (key_binding_conflicts bs) = {conflict_of bs k c | k c. contested bs k c \<and> (\<exists>b \<in> set bs. pb_keystrokes b = k \<and> pb_context b = c)}"
    and "sorted_wrt (<) (map (\<lambda>x. (bc_keystrokes x, bc_context x)) (key_binding_conflicts bs))"
proof -
  let ?groups = "fold group_binding bs []"
  have grouped: "grouped bs ?groups" by (rule groups_of_bindings)
  have group: "group_conflicts e = map (conflict_of bs (fst e)) (filter (contested bs (fst e)) (map fst (snd e)))"
    "sorted_wrt (<) (map fst (snd e))" "fst ` set (snd e) = {c. in_group bs (fst e) c \<noteq> []}"
    if "e \<in> set ?groups" for e
  proof -
    have "map_of ?groups (fst e) = Some (snd e)" using that grouped map_of_mem [of ?groups "fst e" "snd e"] by (simp add: grouped_def)
    with grouped have g: "bt_ok (snd e)" "\<And>c. map_of (snd e) c = as_group (in_group bs (fst e) c)" by (auto simp: grouped_def)
    show "group_conflicts e = map (conflict_of bs (fst e)) (filter (contested bs (fst e)) (map fst (snd e)))"
      using group_conflicts_relevant [OF asc g] by simp
    show "sorted_wrt (<) (map fst (snd e))" using g(1) by (simp add: bt_ok_def)
    have "c \<in> fst ` set (snd e) \<longleftrightarrow> in_group bs (fst e) c \<noteq> []" for c
      using map_of_eq_None_iff [of "snd e" c] by (simp add: g(2) as_group_def split: if_splits)
    then show "fst ` set (snd e) = {c. in_group bs (fst e) c \<noteq> []}" by blast
  qed
  have keys: "fst ` set ?groups = pb_keystrokes ` set bs"
  proof -
    have "map_of ?groups k = None \<longleftrightarrow> (\<forall>b \<in> set bs. pb_keystrokes b \<noteq> k)" for k using grouped by (simp add: grouped_def)
    then have "dom (map_of ?groups) = {k. \<exists>b \<in> set bs. pb_keystrokes b = k}" unfolding dom_def by simp
    also have "\<dots> = pb_keystrokes ` set bs" by blast
    finally show ?thesis by (simp only: dom_map_of_conv_image_fst)
  qed
  have in_group: "in_group bs k c \<noteq> [] \<longleftrightarrow> (\<exists>b \<in> set bs. pb_keystrokes b = k \<and> pb_context b = c)" for k c
    by (auto simp: in_group_def filter_empty_conv)
  have members: "set (group_conflicts e) = conflict_of bs (fst e) ` {c. contested bs (fst e) c \<and> in_group bs (fst e) c \<noteq> []}"
    if "e \<in> set ?groups" for e
    unfolding group(1) [OF that] set_map set_filter using group(3) [OF that] by auto
  have all: "set (key_binding_conflicts bs) = (\<Union>e \<in> set ?groups. set (group_conflicts e))"
    by (simp add: key_binding_conflicts_eq)
  show "set (key_binding_conflicts bs) = {conflict_of bs k c | k c. contested bs k c \<and> (\<exists>b \<in> set bs. pb_keystrokes b = k \<and> pb_context b = c)}"
  proof (rule set_eqI, rule iffI)
    fix x assume "x \<in> set (key_binding_conflicts bs)"
    then obtain e where e: "e \<in> set ?groups" "x \<in> set (group_conflicts e)" unfolding all by blast
    from e(2) [unfolded members [OF e(1)]] show "x \<in> {conflict_of bs k c | k c. contested bs k c \<and> (\<exists>b \<in> set bs. pb_keystrokes b = k \<and> pb_context b = c)}"
      unfolding in_group by blast
  next
    fix x assume "x \<in> {conflict_of bs k c | k c. contested bs k c \<and> (\<exists>b \<in> set bs. pb_keystrokes b = k \<and> pb_context b = c)}"
    then obtain k c b where x: "x = conflict_of bs k c" "contested bs k c" "b \<in> set bs" "pb_keystrokes b = k" "pb_context b = c" by blast
    then have "k \<in> fst ` set ?groups" using keys by blast
    then obtain e where e: "e \<in> set ?groups" "fst e = k" by blast
    have "in_group bs k c \<noteq> []" using x(3-5) unfolding in_group by blast
    then have "x \<in> set (group_conflicts e)" unfolding members [OF e(1)] e(2) x(1) using x(2) by blast
    with e(1) show "x \<in> set (key_binding_conflicts bs)" unfolding all by blast
  qed
  have sorted: "sorted_wrt (<) (map (\<lambda>x. (bc_keystrokes x, bc_context x)) (concat (map group_conflicts es)))"
    if "set es \<subseteq> set ?groups" "sorted_wrt (<) (map fst es)" for es
    using that
  proof (induction es)
    case (Cons e es)
    have e: "e \<in> set ?groups" using Cons.prems by simp
    have keyed: "map (\<lambda>x. (bc_keystrokes x, bc_context x)) (group_conflicts e) =
        map (Pair (fst e)) (filter (contested bs (fst e)) (map fst (snd e)))"
      by (simp add: group(1) [OF e] conflict_of_def comp_def)
    have here: "sorted_wrt (<) (map (Pair (fst e)) (filter (contested bs (fst e)) (map fst (snd e))))"
      using sorted_wrt_filter [OF group(2) [OF e]] by (simp add: sorted_wrt_map less_prod_def)
    have later: "fst e < bc_keystrokes x" if "x \<in> set (concat (map group_conflicts es))" for x
    proof -
      from that obtain e' where e': "e' \<in> set es" "x \<in> set (group_conflicts e')" by auto
      have "e' \<in> set ?groups" using Cons.prems(1) e'(1) by auto
      from e'(2) [unfolded members [OF this]] have "bc_keystrokes x = fst e'" by (auto simp: conflict_of_def)
      with Cons.prems(2) e'(1) show ?thesis by auto
    qed
    show ?case
      unfolding map_append list.map concat.simps keyed sorted_wrt_append
    proof (intro conjI ballI here)
      show "sorted_wrt (<) (map (\<lambda>x. (bc_keystrokes x, bc_context x)) (concat (map group_conflicts es)))"
        using Cons by simp
      show "x < y" if "x \<in> set (map (Pair (fst e)) (filter (contested bs (fst e)) (map fst (snd e))))"
        "y \<in> set (map (\<lambda>x. (bc_keystrokes x, bc_context x)) (concat (map group_conflicts es)))" for x y
      proof -
        from that(2) obtain z where "z \<in> set (concat (map group_conflicts es))" "y = (bc_keystrokes z, bc_context z)" by auto
        with later [of z] that(1) show ?thesis by (auto simp: less_prod_def)
      qed
    qed
  qed simp
  have "sorted_wrt (<) (map fst ?groups)" using grouped by (simp add: grouped_def bt_ok_def)
  from sorted [OF subset_refl this]
  show "sorted_wrt (<) (map (\<lambda>x. (bc_keystrokes x, bc_context x)) (key_binding_conflicts bs))"
    by (simp only: key_binding_conflicts_eq)
qed

section \<open>Resolved commands and their dispatch\<close>

text \<open>A resolved command that is dispatchable is dispatched; any other state is the outcome, without an action.\<close>

fun outcome_of :: "command_state \<Rightarrow> dispatch_outcome" where
  "outcome_of Dispatchable = Dispatched"
| "outcome_of MissingCommandState = MissingCommand"
| "outcome_of (DisabledState r) = DisabledOutcome r"
| "outcome_of HiddenState = HiddenOutcome"

lemma found_member: "find P xs = Some x \<Longrightarrow> x \<in> set xs \<and> P x"
  by (auto simp: find_Some_iff)

lemma command_id_registered:
  assumes "command_id_for_action data_eq m a = Some i"
  shows "\<exists>c. action_for_command m i = Some c"
proof -
  from assms obtain c where c: "find (\<lambda>c. partial_eq data_eq (ca_action c) a) (rev m) = Some c" "ca_command_id c = i"
    by (auto simp: command_id_for_action_def)
  from found_member [OF c(1)] have "c \<in> set m" by simp
  with c(2) have "find (\<lambda>c. ca_command_id c = i) (rev m) \<noteq> None" by (auto simp: find_None_iff)
  then show ?thesis by (simp add: action_for_command_def)
qed

lemma resolved_outcome:
  assumes "resolve_binding os data_eq m registry resolver b = Some c"
  shows "fst (dispatch_available_command m (rc_command_id c) registry resolver) = outcome_of (rc_state c)"
proof -
  from assms obtain i where i: "command_id_for_action data_eq m (kb_action b) = Some i" "rc_command_id c = i"
    "rc_state c = command_keymap_command_state i registry resolver"
    by (auto simp: resolve_binding_def split: option.splits)
  from command_id_registered [OF i(1)] obtain d where "action_for_command m i = Some d" by blast
  then show ?thesis
    by (simp add: i dispatch_available_command_def command_keymap_command_state_def dispatch_command_def
        split: option.split command_availability.split)
qed

section \<open>Shown shortcuts\<close>

text \<open>Where a collected shortcut comes from.\<close>

lemma collect_shortcuts_source:
  assumes "collect_shortcuts label cs m = Some m'" and "bt_ok m"
  shows "bt_ok m' \<and> (\<forall>i s. map_of m' i = Some s \<longrightarrow>
    map_of m i = Some s \<or> (\<exists>c \<in> set cs. ca_command_id c = i \<and> label (ca_action c) = Some (Some s)))"
  using assms
proof (induction cs arbitrary: m)
  case (Cons c cs)
  from Cons.prems(1) obtain l where l: "label (ca_action c) = Some l"
    "collect_shortcuts label cs (case l of Some s \<Rightarrow> bt_insert (ca_command_id c) s m | None \<Rightarrow> m) = Some m'"
    by (auto simp: bind_eq_Some_conv)
  show ?case
  proof (cases l)
    case None
    with l Cons.IH [of m] Cons.prems(2) show ?thesis by auto
  next
    case (Some s)
    with l Cons.IH [of "bt_insert (ca_command_id c) s m"] Cons.prems(2) show ?thesis
      by (auto simp: bt_simps split: if_splits)
  qed
qed auto

lemma collect_shortcuts_none:
  "collect_shortcuts label cs m = Some m' \<Longrightarrow> bt_ok m \<Longrightarrow> map_of m' i = None \<Longrightarrow>
    map_of m i = None \<and> (\<forall>c \<in> set cs. ca_command_id c = i \<longrightarrow> label (ca_action c) = Some None)"
proof (induction cs arbitrary: m)
  case (Cons c cs)
  from Cons.prems(1) obtain l where l: "label (ca_action c) = Some l"
    "collect_shortcuts label cs (case l of Some s \<Rightarrow> bt_insert (ca_command_id c) s m | None \<Rightarrow> m) = Some m'"
    by (auto simp: bind_eq_Some_conv)
  show ?case
  proof (cases l)
    case None
    with l Cons.IH [of m] Cons.prems show ?thesis by auto
  next
    case (Some s)
    with l Cons.IH [of "bt_insert (ca_command_id c) s m"] Cons.prems show ?thesis by (auto simp: bt_simps split: if_splits)
  qed
qed simp

lemma last_in_list: "xs \<noteq> [] \<Longrightarrow> last xs \<in> set xs"
  by simp

lemma bindings_for_action_equal:
  assumes "keymap_ok km" and "bindings_for_action data_eq km a = Some bs" and "b \<in> set bs"
  shows "b \<in> set (km_bindings km) \<and> partial_eq data_eq (kb_action b) a"
  using assms by (auto simp: bindings_for_action_displayed displayed_def)

text \<open>The input of the binding dispatches an action equal to its own before any other.\<close>

definition typed_first :: "('d \<Rightarrow> 'd \<Rightarrow> bool) \<Rightarrow> 'd keymap \<Rightarrow> key_context list \<Rightarrow> 'd key_binding \<Rightarrow> bool" where
  "typed_first data_eq km contexts b \<longleftrightarrow> (\<exists>found rest. fst (bindings_for_input km (kb_keystrokes b) contexts) = found # rest \<and>
     partial_eq data_eq (kb_action found) (kb_action b))"

lemma typed_first_iff: "binding_matches_predicate_and_not_shadowed data_eq km b contexts \<longleftrightarrow> typed_first data_eq km contexts b"
  by (auto simp: binding_matches_predicate_and_not_shadowed_def typed_first_def split: list.split)

lemma shown_shortcut_dispatches:
  assumes "keymap_ok km" and "registry_snapshot_with_keymap_shortcuts_in_context os data_eq m registry km contexts = Some shown"
    and "c \<in> set (rs_contributions shown)" and "cd_shortcut (cc_descriptor c) = Some s"
  shows "c \<in> set (rs_contributions registry) \<and>
      (\<forall>a \<in> set m. ca_command_id a = cc_id c \<longrightarrow>
         (\<exists>bs. bindings_for_action data_eq km (ca_action a) = Some bs \<and> (\<forall>b \<in> set bs. \<not> typed_first data_eq km contexts b))) \<or>
    (\<exists>a \<in> set m. ca_command_id a = cc_id c \<and> (\<exists>b \<in> set (km_bindings km). command_shortcut_label os b = s \<and>
       partial_eq data_eq (kb_action b) (ca_action a) \<and> typed_first data_eq km contexts b))"
proof -
  let ?label = "\<lambda>a. command_shortcut_label_from_keymap_in_context os data_eq km a contexts"
  from assms(2) obtain shortcuts where shortcuts: "collect_shortcuts ?label m [] = Some shortcuts"
    "shown = registry_snapshot_with_shortcuts registry shortcuts"
    by (auto simp: registry_snapshot_with_keymap_shortcuts_in_context_def bind_eq_Some_conv)
  from assms(3) obtain c0 where c0: "c0 \<in> set (rs_contributions registry)"
    "c = with_descriptor c0 (case map_of shortcuts (cc_id c0) of Some s \<Rightarrow> with_shortcut (cc_descriptor c0) s | None \<Rightarrow> cc_descriptor c0)"
    by (auto simp: shortcuts(2) registry_snapshot_with_shortcuts_def snapshot_new_def)
  show ?thesis
  proof (cases "map_of shortcuts (cc_id c0)")
    case None
    with c0(2) have c: "c = c0" by (cases c0) (simp add: with_descriptor_def)
    have "\<exists>bs. bindings_for_action data_eq km (ca_action a) = Some bs \<and> (\<forall>b \<in> set bs. \<not> typed_first data_eq km contexts b)"
      if "a \<in> set m" "ca_command_id a = cc_id c" for a
    proof -
      have "?label (ca_action a) = Some None" using collect_shortcuts_none [OF shortcuts(1), of "cc_id c0"] None that c by (simp add: bt_ok_def)
      then show ?thesis
        by (auto simp: command_shortcut_label_from_keymap_in_context_def highest_precedence_binding_for_action_in_key_contexts_def
            bind_eq_Some_conv find_None_iff typed_first_iff)
    qed
    with c0(1) c show ?thesis by blast
  next
    case (Some t)
    with c0(2) assms(4) have "t = s" "cc_id c = cc_id c0" by (simp_all add: with_descriptor_def with_shortcut_def)
    with Some collect_shortcuts_source [OF shortcuts(1)] obtain a where
      a: "a \<in> set m" "ca_command_id a = cc_id c" "?label (ca_action a) = Some (Some s)" by auto
    from a(3) obtain bs b where bs: "bindings_for_action data_eq km (ca_action a) = Some bs"
      "find (\<lambda>b. binding_matches_predicate_and_not_shadowed data_eq km b contexts) (rev bs) = Some b" "command_shortcut_label os b = s"
      by (auto simp: command_shortcut_label_from_keymap_in_context_def highest_precedence_binding_for_action_in_key_contexts_def
          bind_eq_Some_conv)
    from found_member [OF bs(2)] have b: "b \<in> set bs" "binding_matches_predicate_and_not_shadowed data_eq km b contexts" by simp_all
    from b(2) have "typed_first data_eq km contexts b" by (simp only: typed_first_iff)
    with a bs(3) bindings_for_action_equal [OF assms(1) bs(1) b(1)] show ?thesis by blast
  qed
qed

end
