(* ===== verification/Command_History.thy ===== *)
theory Command_History
  imports Command_Registry
begin

text \<open>
  Usage and query history (\<open>crates/open-gpui-command/src/history.rs\<close>) with its invariant, the walk over matching
  queries and the ranking of a snapshot.
\<close>

section \<open>Operations\<close>

record history_entry =
  he_command_id :: str
  he_query :: str
  he_sequence :: u64

record command_history =
  mh_capacity :: nat
  mh_next_sequence :: u64
  mh_entries :: "history_entry list"
  mh_queries :: "str list"
  mh_cursor :: "nat option"

definition history_new :: "nat \<Rightarrow> command_history" where
  "history_new capacity =
     \<lparr>mh_capacity = max capacity 1, mh_next_sequence = 1, mh_entries = [], mh_queries = [], mh_cursor = None\<rparr>"

definition history_default :: command_history where
  "history_default = history_new 128"

text \<open>The loop of \<open>recent_command_ids\<close> and \<open>recent_queries\<close>: push what has not been seen.\<close>

fun push_unseen :: "str set \<Rightarrow> str list \<Rightarrow> str list" where
  "push_unseen seen [] = []"
| "push_unseen seen (x # xs) = (if x \<in> seen then push_unseen seen xs else x # push_unseen (insert x seen) xs)"

definition recent_command_ids :: "command_history \<Rightarrow> str list" where
  "recent_command_ids h = push_unseen {} (map he_command_id (rev (mh_entries h)))"

definition recent_queries :: "command_history \<Rightarrow> str list" where
  "recent_queries h = push_unseen {} (rev (mh_queries h))"

definition last_query :: "command_history \<Rightarrow> str option" where
  "last_query h =
     (if mh_queries h \<noteq> [] then Some (last (mh_queries h))
      else map_option he_query (find (\<lambda>e. he_query e \<noteq> []) (rev (mh_entries h))))"

text \<open>\<open>VecDeque::remove\<close> at the position of the query, \<open>pop_front\<close> at the capacity.\<close>

definition remove_at :: "nat \<Rightarrow> 'a list \<Rightarrow> 'a list" where
  "remove_at i xs = take i xs @ drop (Suc i) xs"

definition record_query :: "command_history \<Rightarrow> str \<Rightarrow> command_history" where
  "record_query h query =
     (if query = [] then h
      else
        let qs = (case position (\<lambda>q. q = query) (mh_queries h) of
                    Some i \<Rightarrow> remove_at i (mh_queries h) | None \<Rightarrow> mh_queries h);
            qs' = (if length qs = mh_capacity h then tl qs else qs) in
        h\<lparr>mh_queries := qs' @ [query], mh_cursor := None\<rparr>)"

datatype query_navigation = Previous | Next

definition query_matches :: "str \<Rightarrow> str \<Rightarrow> bool" where
  "query_matches pre q \<longleftrightarrow> pre = [] \<or> starts_with q pre"

definition matching_indices :: "command_history \<Rightarrow> str \<Rightarrow> nat list" where
  "matching_indices h pre = filter (\<lambda>i. query_matches pre (mh_queries h ! i)) [0..<length (mh_queries h)]"

text \<open>
  The result of the \<open>match\<close> is a panic (the index of the previous match), or the next match, or \<open>None\<close>, which the
  \<open>?\<close> returns with the cursor unchanged.
\<close>

definition next_match :: "nat list \<Rightarrow> nat option \<Rightarrow> query_navigation \<Rightarrow> nat option panics" where
  "next_match indices cursor direction =
     (case (cursor, direction) of
        (None, Previous) \<Rightarrow> Some (if indices = [] then None else Some (last indices))
      | (None, Next) \<Rightarrow> Some None
      | (Some c, Previous) \<Rightarrow>
          (let p = (case position (\<lambda>i. i = c) indices of Some p \<Rightarrow> p | None \<Rightarrow> length indices) in
           if p - 1 < length indices then Some (Some (indices ! (p - 1))) else None)
      | (Some c, Next) \<Rightarrow>
          (case position (\<lambda>i. i = c) indices of
             None \<Rightarrow> Some None
           | Some p \<Rightarrow> Some (if p + 1 < length indices then Some (indices ! (p + 1)) else None)))"

definition navigate_query :: "command_history \<Rightarrow> str \<Rightarrow> query_navigation \<Rightarrow> (str option \<times> command_history) panics" where
  "navigate_query h pre direction =
     (let indices = matching_indices h pre in
      if indices = [] then Some (None, h\<lparr>mh_cursor := None\<rparr>)
      else do {
        m \<leftarrow> next_match indices (mh_cursor h) direction;
        case m of
          None \<Rightarrow> Some (None, h)
        | Some i \<Rightarrow> Some (if i < length (mh_queries h) then Some (mh_queries h ! i) else None, h\<lparr>mh_cursor := Some i\<rparr>)
      })"

definition previous_query :: "command_history \<Rightarrow> str \<Rightarrow> (str option \<times> command_history) panics" where
  "previous_query h pre = navigate_query h pre Previous"

definition next_query :: "command_history \<Rightarrow> str \<Rightarrow> (str option \<times> command_history) panics" where
  "next_query h pre = navigate_query h pre Next"

definition reset_query_navigation :: "command_history \<Rightarrow> command_history" where
  "reset_query_navigation h = h\<lparr>mh_cursor := None\<rparr>"

definition record_usage :: "command_history \<Rightarrow> str \<Rightarrow> str \<Rightarrow> command_history" where
  "record_usage h i query =
     (if i = [] then h
      else
        let h1 = (if length (mh_entries h) = mh_capacity h then h\<lparr>mh_entries := tl (mh_entries h)\<rparr> else h);
            h2 = record_query h1 query in
        h2\<lparr>mh_entries := mh_entries h2 @ [\<lparr>he_command_id = i, he_query = query, he_sequence = mh_next_sequence h2\<rparr>],
           mh_next_sequence := saturating_succ (mh_next_sequence h2)\<rparr>)"

definition usage_count :: "command_history \<Rightarrow> str \<Rightarrow> nat" where
  "usage_count h i = length (filter (\<lambda>e. he_command_id e = i) (mh_entries h))"

definition last_used_sequence :: "command_history \<Rightarrow> str \<Rightarrow> u64 option" where
  "last_used_sequence h i = map_option he_sequence (find (\<lambda>e. he_command_id e = i) (rev (mh_entries h)))"

definition command_score :: "command_history \<Rightarrow> str \<Rightarrow> u64" where
  "command_score h i =
     (let usage = of_nat (usage_count h i);
          recency = (case last_used_sequence h i of Some n \<Rightarrow> n | None \<Rightarrow> 0) in
      saturating_add (saturating_mul usage 1000000) recency)"

definition rank_cmp :: "command_history \<Rightarrow> nat \<times> command_contribution \<Rightarrow> nat \<times> command_contribution \<Rightarrow> ordering" where
  "rank_cmp h l r =
     (let left_score = command_score h (cc_id (snd l)); right_score = command_score h (cc_id (snd r)) in
      then_with (cmp_of right_score left_score) (cmp_of (fst l) (fst r)))"

definition rank_registry_snapshot :: "command_history \<Rightarrow> registry_snapshot \<Rightarrow> registry_snapshot" where
  "rank_registry_snapshot h s =
     snapshot_new (rs_revision s) (map snd (sort_by (rank_cmp h) (List.enumerate 0 (rs_contributions s))))"

section \<open>The invariant\<close>

definition history_ok :: "command_history \<Rightarrow> bool" where
  "history_ok h \<longleftrightarrow> 0 < mh_capacity h \<and> length (mh_entries h) \<le> mh_capacity h \<and> length (mh_queries h) \<le> mh_capacity h \<and>
     distinct (mh_queries h) \<and> [] \<notin> set (mh_queries h) \<and> (\<forall>e \<in> set (mh_entries h). he_command_id e \<noteq> []) \<and>
     sorted (map (unat \<circ> he_sequence) (mh_entries h)) \<and>
     (\<forall>e \<in> set (mh_entries h). unat (he_sequence e) \<le> unat (mh_next_sequence h)) \<and>
     (\<forall>i. mh_cursor h = Some i \<longrightarrow> i < length (mh_queries h))"

lemma history_ok_new: "history_ok (history_new capacity)"
  by (simp add: history_ok_def history_new_def)

lemma remove_at_filter:
  assumes "position (\<lambda>q. q = x) xs = Some i" and "distinct xs"
  shows "remove_at i xs = filter (\<lambda>q. q \<noteq> x) xs"
proof -
  from position_split [OF assms(1)] obtain ys zs where xs: "xs = ys @ x # zs" "length ys = i" by blast
  have "filter (\<lambda>q. q \<noteq> x) ys = ys" "filter (\<lambda>q. q \<noteq> x) zs = zs"
    using assms(2) by (auto simp: xs(1) intro!: filter_True)
  with xs show ?thesis by (simp add: remove_at_def)
qed

text \<open>The new query goes to the end, its old place and, at the capacity, the oldest query are dropped.\<close>

definition queries_after :: "nat \<Rightarrow> str list \<Rightarrow> str \<Rightarrow> str list" where
  "queries_after capacity qs q =
     (let others = filter (\<lambda>r. r \<noteq> q) qs in (if length others = capacity then tl others else others) @ [q])"

lemma record_query_eq:
  assumes "distinct (mh_queries h)" and "q \<noteq> []"
  shows "record_query h q = h\<lparr>mh_queries := queries_after (mh_capacity h) (mh_queries h) q, mh_cursor := None\<rparr>"
proof (cases "position (\<lambda>r. r = q) (mh_queries h)")
  case None
  then have "filter (\<lambda>r. r \<noteq> q) (mh_queries h) = mh_queries h" by (auto simp: position_None intro!: filter_True)
  with None assms(2) show ?thesis by (simp add: record_query_def queries_after_def Let_def)
next
  case (Some i)
  with assms show ?thesis by (simp add: record_query_def queries_after_def remove_at_filter Let_def)
qed

lemma set_tl_subset: "set (tl xs) \<subseteq> set xs"
  by (cases xs) auto

lemma queries_after_ok:
  assumes "distinct qs" and "[] \<notin> set qs" and "length qs \<le> c" and "0 < c" and "q \<noteq> []"
  shows "distinct (queries_after c qs q)" and "[] \<notin> set (queries_after c qs q)" and "length (queries_after c qs q) \<le> c"
proof -
  let ?o = "filter (\<lambda>r. r \<noteq> q) qs"
  have o: "distinct ?o" "[] \<notin> set ?o" "q \<notin> set ?o" "length ?o \<le> c"
    using assms le_trans [OF length_filter_le] by auto
  have tl: "distinct (tl ?o)" "set (tl ?o) \<subseteq> set ?o" using o(1) by (simp_all only: distinct_tl set_tl_subset)
  show "distinct (queries_after c qs q)" "[] \<notin> set (queries_after c qs q)" "length (queries_after c qs q) \<le> c"
    using o tl assms(4,5) by (auto simp: queries_after_def Let_def)
qed

lemma history_ok_record_query:
  assumes "history_ok h"
  shows "history_ok (record_query h q)"
proof (cases "q = []")
  case False
  have "distinct (mh_queries h)" "[] \<notin> set (mh_queries h)" "length (mh_queries h) \<le> mh_capacity h" "0 < mh_capacity h"
    using assms by (simp_all add: history_ok_def)
  with queries_after_ok [OF this False] assms False show ?thesis
    by (simp add: record_query_eq history_ok_def)
qed (use assms in \<open>simp add: record_query_def\<close>)

text \<open>Recording a usage is recording its query, then appending an entry to the newest entries that fit.\<close>

lemma record_query_entries [simp]:
  "mh_entries (record_query h q) = mh_entries h" "mh_next_sequence (record_query h q) = mh_next_sequence h"
  "mh_capacity (record_query h q) = mh_capacity h"
  by (simp_all add: record_query_def Let_def)

lemma history_ok_record_usage:
  assumes "history_ok h"
  shows "history_ok (record_usage h i q)"
proof (cases "i = []")
  case False
  define es where "es = (if length (mh_entries h) = mh_capacity h then tl (mh_entries h) else mh_entries h)"
  have es: "length es < mh_capacity h" "set es \<subseteq> set (mh_entries h)" "sorted (map (unat \<circ> he_sequence) es)"
    using assms by (auto simp: es_def history_ok_def map_tl sorted_tl dest: list.set_sel(2) [rotated])
  have h1: "history_ok (h\<lparr>mh_entries := es\<rparr>)"
    using assms es by (auto simp: history_ok_def)
  have "(if length (mh_entries h) = mh_capacity h then h\<lparr>mh_entries := tl (mh_entries h)\<rparr> else h) = h\<lparr>mh_entries := es\<rparr>"
    by (simp add: es_def)
  then have eq: "record_usage h i q = (record_query (h\<lparr>mh_entries := es\<rparr>) q)\<lparr>mh_entries := es @
      [\<lparr>he_command_id = i, he_query = q, he_sequence = mh_next_sequence h\<rparr>],
      mh_next_sequence := saturating_succ (mh_next_sequence h)\<rparr>"
    using False by (simp add: record_usage_def Let_def)
  have "unat (he_sequence e) \<le> unat (saturating_succ (mh_next_sequence h))" if "e \<in> set es" for e
    using that assms es(2) saturating_succ_mono [of "mh_next_sequence h"] by (fastforce simp: history_ok_def)
  with history_ok_record_query [OF h1, of q] h1 es(1) False saturating_succ_mono [of "mh_next_sequence h"] show ?thesis
    unfolding eq by (auto simp: history_ok_def sorted_append)
qed (use assms in \<open>simp add: record_usage_def\<close>)

section \<open>Walking over the matching queries\<close>

definition matching_queries :: "command_history \<Rightarrow> str \<Rightarrow> str list" where
  "matching_queries h pre = filter (query_matches pre) (mh_queries h)"

lemma matching_indices_queries:
  "map (\<lambda>i. mh_queries h ! i) (matching_indices h pre) = matching_queries h pre"
proof -
  have "map (\<lambda>i. mh_queries h ! i) (filter (\<lambda>i. query_matches pre (mh_queries h ! i)) [0..<length (mh_queries h)]) =
      filter (query_matches pre) (map (\<lambda>i. mh_queries h ! i) [0..<length (mh_queries h)])"
    by (simp add: filter_map comp_def)
  then show ?thesis by (simp add: matching_indices_def matching_queries_def map_nth)
qed

lemma matching_length: "length (matching_indices h pre) = length (matching_queries h pre)"
  by (simp flip: matching_indices_queries)

lemma matching_indices_Nil [simp]: "matching_indices h pre = [] \<longleftrightarrow> matching_queries h pre = []"
  using matching_length [of h pre] by (metis length_0_conv)

lemma matching_nth: "p < length (matching_indices h pre) \<Longrightarrow>
    mh_queries h ! (matching_indices h pre ! p) = matching_queries h pre ! p \<and> matching_indices h pre ! p < length (mh_queries h)"
proof
  assume p: "p < length (matching_indices h pre)"
  then show "mh_queries h ! (matching_indices h pre ! p) = matching_queries h pre ! p"
    by (simp flip: matching_indices_queries)
  from nth_mem [OF p] show "matching_indices h pre ! p < length (mh_queries h)" by (simp add: matching_indices_def)
qed

text \<open>\<open>at_match h pre p\<close>: the cursor stands on the match number \<open>p\<close>, counted from the oldest.\<close>

definition at_match :: "command_history \<Rightarrow> str \<Rightarrow> nat \<Rightarrow> bool" where
  "at_match h pre p \<longleftrightarrow> p < length (matching_queries h pre) \<and> mh_cursor h = Some (matching_indices h pre ! p)"

definition move_to :: "command_history \<Rightarrow> str \<Rightarrow> nat \<Rightarrow> command_history" where
  "move_to h pre p = h\<lparr>mh_cursor := Some (matching_indices h pre ! p)\<rparr>"

lemma move_to_simps [simp]:
  "matching_queries (move_to h pre p) pre' = matching_queries h pre'" "mh_queries (move_to h pre p) = mh_queries h"
  "matching_indices (move_to h pre p) pre' = matching_indices h pre'"
  "move_to (move_to h pre p) pre q = move_to h pre q"
  "p < length (matching_queries h pre) \<Longrightarrow> at_match (move_to h pre p) pre p"
  by (simp_all add: move_to_def matching_queries_def matching_indices_def at_match_def)

lemma position_match:
  assumes "p < length (matching_indices h pre)"
  shows "position (\<lambda>i. i = matching_indices h pre ! p) (matching_indices h pre) = Some p"
  by (rule position_nth [OF _ assms]) (simp add: matching_indices_def)

lemma navigate_to:
  assumes "p < length (matching_queries h pre)" and "next_match (matching_indices h pre) (mh_cursor h) d = Some (Some (matching_indices h pre ! p))"
  shows "navigate_query h pre d = Some (Some (matching_queries h pre ! p), move_to h pre p)"
proof -
  have p: "p < length (matching_indices h pre)" using assms(1) by (simp add: matching_length)
  then have "matching_queries h pre \<noteq> []" using assms(1) by auto
  with matching_nth [OF p] assms(2) show ?thesis by (simp add: navigate_query_def Let_def move_to_def)
qed

lemma previous_first:
  assumes "matching_queries h pre \<noteq> []" and "mh_cursor h = None"
  shows "previous_query h pre =
    Some (Some (last (matching_queries h pre)), move_to h pre (length (matching_queries h pre) - 1))"
  using navigate_to [of "length (matching_queries h pre) - 1" h pre Previous] assms
  by (simp add: previous_query_def next_match_def last_conv_nth matching_length)

lemma previous_at:
  assumes "at_match h pre p"
  shows "previous_query h pre = Some (Some (matching_queries h pre ! (p - 1)), move_to h pre (p - 1))"
  using navigate_to [of "p - 1" h pre Previous] assms
  by (simp add: previous_query_def next_match_def at_match_def position_match matching_length less_imp_diff_less)

lemma next_at:
  assumes "at_match h pre p"
  shows "next_query h pre =
    (if p + 1 < length (matching_queries h pre) then Some (Some (matching_queries h pre ! (p + 1)), move_to h pre (p + 1))
     else Some (None, h))"
proof (cases "p + 1 < length (matching_queries h pre)")
  case True
  with navigate_to [of "p + 1" h pre Next] assms show ?thesis
    by (simp add: next_query_def next_match_def at_match_def position_match matching_length)
next
  case False
  have "matching_queries h pre \<noteq> []" using assms by (auto simp: at_match_def)
  with False assms show ?thesis
    by (simp add: next_query_def navigate_query_def next_match_def at_match_def position_match matching_length)
qed

text \<open>Any navigation returns, yields a recorded query that matches, and keeps everything but the cursor.\<close>

lemma next_match_in:
  assumes "indices \<noteq> []"
  shows "no_panic (next_match indices cursor d) (\<lambda>m. \<forall>i. m = Some i \<longrightarrow> i \<in> set indices)"
proof (cases cursor)
  case None
  with assms show ?thesis by (cases d) (simp_all add: next_match_def)
next
  case (Some c)
  show ?thesis
  proof (cases "position (\<lambda>i. i = c) indices")
    case None
    with Some assms show ?thesis by (cases d) (simp_all add: next_match_def)
  next
    case pos: (Some p)
    from position_Some [OF pos] have "p < length indices" by simp
    with Some pos assms show ?thesis by (cases d) (simp_all add: next_match_def less_imp_diff_less)
  qed
qed

lemma navigate_sound:
  assumes "history_ok h"
  shows "no_panic (navigate_query h pre d) (\<lambda>(q, h'). history_ok h' \<and> h' = h\<lparr>mh_cursor := mh_cursor h'\<rparr> \<and>
    (\<forall>s. q = Some s \<longrightarrow> s \<in> set (matching_queries h pre)))"
proof (cases "matching_indices h pre = []")
  case True
  with assms show ?thesis by (simp add: navigate_query_def history_ok_def)
next
  case False
  show ?thesis
    using False unfolding navigate_query_def Let_def
  proof (simp only: if_False, elim no_panic_bind [OF next_match_in])
    fix m assume m: "\<forall>i. m = Some i \<longrightarrow> i \<in> set (matching_indices h pre)"
    show "no_panic (case m of None \<Rightarrow> Some (None, h)
        | Some i \<Rightarrow> Some (if i < length (mh_queries h) then Some (mh_queries h ! i) else None, h\<lparr>mh_cursor := Some i\<rparr>))
        (\<lambda>(q, h'). history_ok h' \<and> h' = h\<lparr>mh_cursor := mh_cursor h'\<rparr> \<and> (\<forall>s. q = Some s \<longrightarrow> s \<in> set (matching_queries h pre)))"
      using m assms
      by (cases m) (auto simp: history_ok_def matching_indices_def matching_queries_def)
  qed
qed

section \<open>Runs of a history\<close>

text \<open>Every operation that changes a history; none of them panics in the states it reaches.\<close>

inductive history_step :: "command_history \<Rightarrow> command_history \<Rightarrow> bool" where
  usage: "history_step h (record_usage h i query)"
| query: "history_step h (record_query h query)"
| previous: "previous_query h pre = Some (q, h') \<Longrightarrow> history_step h h'"
| following: "next_query h pre = Some (q, h') \<Longrightarrow> history_step h h'"
| reset: "history_step h (reset_query_navigation h)"

lemma history_ok_navigate: "history_ok h \<Longrightarrow> navigate_query h pre d = Some (q, h') \<Longrightarrow> history_ok h'"
  using navigate_sound [of h pre d] by (auto simp: no_panic_def)

lemma history_ok_reset: "history_ok h \<Longrightarrow> history_ok (reset_query_navigation h)"
  by (simp add: reset_query_navigation_def history_ok_def)

lemma history_step_ok: "history_step h h' \<Longrightarrow> history_ok h \<Longrightarrow> history_ok h'"
  by (induction rule: history_step.induct)
    (auto simp: history_ok_record_usage history_ok_record_query previous_query_def next_query_def history_ok_reset
      dest: history_ok_navigate)

lemma history_steps_ok: "history_step\<^sup>*\<^sup>* h h' \<Longrightarrow> history_ok h \<Longrightarrow> history_ok h'"
  by (induction rule: rtranclp_induct) (auto intro: history_step_ok)

section \<open>Ranking\<close>

definition score_deficit :: "command_history \<Rightarrow> command_contribution \<Rightarrow> nat" where
  "score_deficit h c = 2 ^ 64 - unat (command_score h (cc_id c))"

lemma score_deficit_le: "score_deficit h c \<le> score_deficit h d \<longleftrightarrow> command_score h (cc_id d) \<le> command_score h (cc_id c)"
  using unsigned_less [of "command_score h (cc_id c)", where 'a = nat]
    unsigned_less [of "command_score h (cc_id d)", where 'a = nat]
  by (auto simp: score_deficit_def word_le_nat_alt)

lemma rank_cmp_key:
  "rank_cmp h l r = cmp_of (case l of (i, c) \<Rightarrow> (score_deficit h c, i)) (case r of (i, c) \<Rightarrow> (score_deficit h c, i))"
proof -
  have "cmp_of (command_score h (cc_id (snd r))) (command_score h (cc_id (snd l))) =
      cmp_of (score_deficit h (snd l)) (score_deficit h (snd r))"
    using score_deficit_le [of h "snd l" "snd r"] score_deficit_le [of h "snd r" "snd l"]
    by (auto simp: cmp_of_def not_le [symmetric])
  then show ?thesis
    unfolding rank_cmp_def Let_def by (simp only: then_with_cmp case_prod_unfold)
qed

lemma rank_is_sort: "rank_registry_snapshot h s = snapshot_new (rs_revision s) (sort_key (score_deficit h) (rs_contributions s))"
  using sort_by_key [of "rank_cmp h" "\<lambda>(i, c). (score_deficit h c, i)", OF rank_cmp_key]
  by (simp add: rank_registry_snapshot_def sort_enumerated)

lemma push_unseen_firsts: "push_unseen seen xs = filter (\<lambda>x. x \<notin> seen) (firsts xs)"
proof (induction xs arbitrary: seen)
  case (Cons x xs)
  have "filter (\<lambda>y. y \<notin> insert x seen) (firsts xs) = filter (\<lambda>y. y \<notin> seen) (filter (\<lambda>y. y \<noteq> x) (firsts xs))"
    by (simp add: conj_commute)
  moreover have "filter (\<lambda>y. y \<notin> seen) (filter (\<lambda>y. y \<noteq> x) (firsts xs)) = filter (\<lambda>y. y \<notin> seen) (firsts xs)" if "x \<in> seen"
    using that by (auto intro: filter_cong)
  ultimately show ?case using Cons.IH by auto
qed simp

end
