(* ===== verification/Command_Search.thy ===== *)
theory Command_Search
  imports Command_History Command_Menu "HOL-Library.Sublist"
begin

text \<open>
  The search over a snapshot (\<open>crates/open-gpui-command/src/center.rs\<close>, from \<open>search_rank_snapshot\<close> on). Scores are
  \<open>u16\<close>; \<open>+\<close> on them panics on overflow, as in a build with overflow checks.
\<close>

section \<open>Scores\<close>

definition normalize_command_text :: "str \<Rightarrow> str" where
  "normalize_command_text s = map ascii_lower (trim s)"

fun fuzzy_loop :: "nat \<Rightarrow> str \<Rightarrow> code_point \<Rightarrow> str \<Rightarrow> nat option \<Rightarrow> u16 \<Rightarrow> u16 option" where
  "fuzzy_loop index [] current query previous_match score = None"
| "fuzzy_loop index (ch # chs) current query previous_match score =
     (if ch = current
      then let score' = saturating_add score (if previous_match = Some (index - 1) then 24 else 8) in
        (case query of
           next # query' \<Rightarrow> fuzzy_loop (index + 1) chs next query' (Some index) score'
         | [] \<Rightarrow> Some score')
      else fuzzy_loop (index + 1) chs current query previous_match score)"

definition fuzzy_subsequence_score :: "str \<Rightarrow> str \<Rightarrow> u16 option" where
  "fuzzy_subsequence_score s query = (case query of [] \<Rightarrow> None | c # cs \<Rightarrow> fuzzy_loop 0 s c cs None 0)"

text \<open>\<open>str::split\<close> at the characters that are not ASCII letters or digits; \<open>str::contains\<close>.\<close>

fun split_words :: "str \<Rightarrow> str list" where
  "split_words [] = [[]]"
| "split_words (c # cs) =
     (if is_ascii_alphanumeric c then (c # hd (split_words cs)) # tl (split_words cs) else [] # split_words cs)"

fun contains_str :: "str \<Rightarrow> str \<Rightarrow> bool" where
  "contains_str [] p \<longleftrightarrow> p = []"
| "contains_str (c # cs) p \<longleftrightarrow> starts_with (c # cs) p \<or> contains_str cs p"

definition command_text_score :: "str \<Rightarrow> str \<Rightarrow> u16 option panics" where
  "command_text_score raw query =
     (let s = normalize_command_text raw in
      if s = [] then Some None
      else if s = query then Some (Some 1000)
      else if starts_with s query then Some (Some 850)
      else if list_ex (\<lambda>w. starts_with w query) (split_words s) then Some (Some 760)
      else if contains_str s query then Some (Some 640)
      else case fuzzy_subsequence_score s query of
             None \<Rightarrow> Some None
           | Some score \<Rightarrow> do { n \<leftarrow> add_or_panic 420 score; Some (Some n) })"

fun text_scores :: "(str \<times> u16) list \<Rightarrow> str \<Rightarrow> u16 list panics" where
  "text_scores [] query = Some []"
| "text_scores ((s, base) # texts) query = do {
     r \<leftarrow> command_text_score s query;
     case r of
       None \<Rightarrow> text_scores texts query
     | Some score \<Rightarrow> do { n \<leftarrow> add_or_panic base score; ns \<leftarrow> text_scores texts query; Some (n # ns) }
   }"

definition search_texts :: "command_descriptor \<Rightarrow> (str \<times> u16) list" where
  "search_texts d =
     [(cd_label d, 4000), (cd_id d, 3600), (case cd_shortcut d of Some s \<Rightarrow> s | None \<Rightarrow> [], 2400)] @
     map (\<lambda>k. (k, 1800)) (cd_keywords d)"

definition command_search_score :: "command_descriptor \<Rightarrow> str \<Rightarrow> u16 option panics" where
  "command_search_score d raw =
     (let query = normalize_command_text raw in
      if query = [] then Some (Some 0)
      else do { ns \<leftarrow> text_scores (search_texts d) query; Some (if ns = [] then None else Some (fold max ns 0)) })"

type_synonym scored = "u16 \<times> nat \<times> nat \<times> command_contribution"

fun score_contributions :: "command_history \<Rightarrow> str \<Rightarrow> (nat \<times> command_contribution) list \<Rightarrow> scored list panics" where
  "score_contributions h query [] = Some []"
| "score_contributions h query ((i, c) # cs) = do {
     r \<leftarrow> command_search_score (cc_descriptor c) query;
     rest \<leftarrow> score_contributions h query cs;
     Some (case r of None \<Rightarrow> rest | Some n \<Rightarrow> (n, usage_count h (cc_id c), i, c) # rest)
   }"

definition scored_cmp :: "scored \<Rightarrow> scored \<Rightarrow> ordering" where
  "scored_cmp l r =
     (let (left_search, left_history, left_index, _) = l; (right_search, right_history, right_index, _) = r in
      then_with (then_with (cmp_of right_search left_search) (cmp_of right_history left_history))
        (cmp_of left_index right_index))"

definition search_rank_snapshot :: "command_history \<Rightarrow> registry_snapshot \<Rightarrow> str \<Rightarrow> registry_snapshot panics" where
  "search_rank_snapshot h s query =
     (if query = [] then Some s
      else do {
        scored \<leftarrow> score_contributions h query (List.enumerate 0 (rs_contributions s));
        Some (snapshot_new (rs_revision s) (map (\<lambda>(_, _, _, c). c) (sort_by scored_cmp scored)))
      })"

section \<open>What matches\<close>

lemma starts_with_prefix: "starts_with s p \<longleftrightarrow> prefix p s"
  by (induction s p rule: starts_with.induct) auto

lemma contains_subseq: "contains_str s p \<Longrightarrow> subseq p s"
  by (induction s) (auto simp: starts_with_prefix dest: prefix_imp_subseq)

lemma split_words_subseq: "w \<in> set (split_words s) \<Longrightarrow> subseq w s"
proof (induction s arbitrary: w)
  case (Cons c cs)
  have "split_words cs \<noteq> []" by (cases cs) simp_all
  then have "hd (split_words cs) \<in> set (split_words cs)" "set (tl (split_words cs)) \<subseteq> set (split_words cs)"
    by (auto dest: list.set_sel(2))
  with Cons show ?case by (auto split: if_splits)
qed simp

lemma fuzzy_loop_subseq: "fuzzy_loop i s c q prev n \<noteq> None \<longleftrightarrow> subseq (c # q) s"
proof (induction s arbitrary: i c q prev n)
  case (Cons x s)
  then show ?case by (cases q) (auto simp: Let_def)
qed simp

lemma fuzzy_subseq: "q \<noteq> [] \<Longrightarrow> fuzzy_subsequence_score s q \<noteq> None \<longleftrightarrow> subseq q s"
  unfolding fuzzy_subsequence_score_def by (cases q) (simp_all only: list.case fuzzy_loop_subseq simp_thms list.distinct)

text \<open>The score of a subsequence is at most 24 for each character, and 8 for the first.\<close>

lemma fuzzy_loop_bound: "fuzzy_loop i s c q prev n = Some m \<Longrightarrow> unat m \<le> unat n + 24 + 24 * length q"
proof (induction s arbitrary: i c q prev n)
  case (Cons x s)
  show ?case
  proof (cases "x = c")
    case False
    with Cons show ?thesis by simp
  next
    case True
    let ?n = "saturating_add n (if prev = Some (i - 1) then 24 else 8)"
    have n: "unat ?n \<le> unat n + 24" using unat_saturating_add_le [of n 24] unat_saturating_add_le [of n 8] by auto
    show ?thesis
    proof (cases q)
      case Nil
      with True Cons.prems n show ?thesis by (simp add: Let_def)
    next
      case (Cons y ys)
      with True Cons.prems have "fuzzy_loop (i + 1) s y ys (Some i) ?n = Some m" by (simp add: Let_def)
      from Cons.IH [OF this] n Cons show ?thesis by simp
    qed
  qed
qed simp

lemma fuzzy_first_bound: "fuzzy_loop i s c q None 0 = Some m \<Longrightarrow> unat m \<le> 8 + 24 * length q"
proof (induction s arbitrary: i)
  case (Cons x s)
  have eight: "unat (saturating_add 0 8 :: u16) = 8" by (simp add: unat_saturating_add)
  show ?case
  proof (cases "x = c")
    case True
    with Cons.prems eight fuzzy_loop_bound [of "Suc i" s] show ?thesis
      by (cases q) (fastforce simp: Let_def)+
  qed (use Cons in simp)
qed simp

lemma fuzzy_score_bound: "fuzzy_subsequence_score s q = Some m \<Longrightarrow> unat m + 16 \<le> 24 * length q"
  by (cases q) (auto simp: fuzzy_subsequence_score_def dest: fuzzy_first_bound)

text \<open>A query of at most 2547 characters cannot overflow a score.\<close>

definition text_matches :: "str \<Rightarrow> str \<Rightarrow> bool" where
  "text_matches query raw \<longleftrightarrow> normalize_command_text raw \<noteq> [] \<and> subseq query (normalize_command_text raw)"

lemma command_text_score_spec:
  assumes "q \<noteq> []" and "length q \<le> 2547"
  shows "no_panic (command_text_score s q) (\<lambda>r. (r \<noteq> None \<longleftrightarrow> text_matches q s) \<and> (\<forall>n. r = Some n \<longrightarrow> unat n \<le> 61535))"
proof -
  let ?s = "normalize_command_text s"
  consider "?s = []" | "?s \<noteq> []" "?s = q \<or> starts_with ?s q \<or> list_ex (\<lambda>w. starts_with w q) (split_words ?s) \<or> contains_str ?s q"
    | "?s \<noteq> []" "\<not> (?s = q \<or> starts_with ?s q \<or> list_ex (\<lambda>w. starts_with w q) (split_words ?s) \<or> contains_str ?s q)" by blast
  then show ?thesis
  proof cases
    case 1
    then show ?thesis by (simp add: command_text_score_def text_matches_def)
  next
    case 2
    then have "subseq q ?s"
      using subseq_order.order_trans [OF prefix_imp_subseq split_words_subseq]
      by (auto simp: starts_with_prefix list_ex_iff dest: prefix_imp_subseq contains_subseq)
    with 2 show ?thesis by (auto simp: command_text_score_def text_matches_def Let_def)
  next
    case 3
    have iff: "fuzzy_subsequence_score ?s q \<noteq> None \<longleftrightarrow> text_matches q s"
      using fuzzy_subseq [OF assms(1)] 3 by (simp add: text_matches_def)
    show ?thesis
    proof (cases "fuzzy_subsequence_score ?s q")
      case None
      with 3 iff show ?thesis by (simp add: command_text_score_def Let_def)
    next
      case (Some n)
      have n: "unat n \<le> 61112" using fuzzy_score_bound [OF Some] assms(2) by linarith
      obtain m where m: "add_or_panic 420 n = Some m" "unat m = 420 + unat n"
        using add_or_panic_Some [of "420 :: u16" n] n by auto
      with 3 iff Some n show ?thesis by (simp add: command_text_score_def Let_def)
    qed
  qed
qed

lemma text_scores_spec:
  assumes "q \<noteq> []" and "length q \<le> 2547" and "\<forall>(s, base) \<in> set texts. unat base \<le> 4000"
  shows "no_panic (text_scores texts q) (\<lambda>ns. ns \<noteq> [] \<longleftrightarrow> (\<exists>(s, base) \<in> set texts. text_matches q s))"
  using assms(3)
proof (induction texts)
  case (Cons t texts)
  obtain s base where t: "t = (s, base)" by (cases t)
  have IH: "no_panic (text_scores texts q) (\<lambda>ns. ns \<noteq> [] \<longleftrightarrow> (\<exists>(s, base) \<in> set texts. text_matches q s))"
    using Cons by simp
  show ?case
    unfolding t text_scores.simps
  proof (rule no_panic_bind [OF command_text_score_spec [OF assms(1,2)]])
    fix r :: "u16 option"
    assume r: "(r \<noteq> None \<longleftrightarrow> text_matches q s) \<and> (\<forall>n. r = Some n \<longrightarrow> unat n \<le> 61535)"
    show "no_panic (case r of None \<Rightarrow> text_scores texts q
        | Some score \<Rightarrow> do { n \<leftarrow> add_or_panic base score; ns \<leftarrow> text_scores texts q; Some (n # ns) })
        (\<lambda>ns. ns \<noteq> [] \<longleftrightarrow> (\<exists>(s, base) \<in> set ((s, base) # texts). text_matches q s))"
    proof (cases r)
      case None
      with r IH show ?thesis by simp
    next
      case (Some n)
      have "unat base + unat n < 2 ^ LENGTH(16)" using Some r Cons.prems t by simp
      from add_or_panic_Some [OF this] obtain m where "add_or_panic base n = Some m" by blast
      with Some r IH show ?thesis by (auto simp: no_panic_def)
    qed
  qed
qed simp

text \<open>A command matches through its label, id, shortcut or a keyword; the empty query matches everything.\<close>

definition command_matches :: "str \<Rightarrow> command_descriptor \<Rightarrow> bool" where
  "command_matches raw d \<longleftrightarrow> (let q = normalize_command_text raw in
     q = [] \<or> (\<exists>s \<in> {cd_label d, cd_id d} \<union> set_option (cd_shortcut d) \<union> set (cd_keywords d). text_matches q s))"

lemma text_matches_Nil [simp]: "\<not> text_matches q []"
  by (simp add: text_matches_def normalize_command_text_def trim_def)

lemma search_texts_matches:
  "(\<exists>(s, base) \<in> set (search_texts d). text_matches q s) \<longleftrightarrow>
     (\<exists>s \<in> {cd_label d, cd_id d} \<union> set_option (cd_shortcut d) \<union> set (cd_keywords d). text_matches q s)"
  by (cases "cd_shortcut d") (auto simp: search_texts_def)

lemma normalize_length: "length (normalize_command_text raw) \<le> length raw"
  unfolding normalize_command_text_def trim_def
  by (simp add: le_trans [OF length_dropWhile_le] length_dropWhile_le)

lemma command_search_score_spec:
  assumes "length raw \<le> 2547"
  shows "no_panic (command_search_score d raw) (\<lambda>r. r \<noteq> None \<longleftrightarrow> command_matches raw d)"
proof (cases "normalize_command_text raw = []")
  case False
  have "length (normalize_command_text raw) \<le> 2547" using normalize_length [of raw] assms by simp
  moreover have "\<forall>(s, base) \<in> set (search_texts d). unat base \<le> 4000" by (auto simp: search_texts_def)
  ultimately have "no_panic (text_scores (search_texts d) (normalize_command_text raw)) (\<lambda>ns. ns \<noteq> [] \<longleftrightarrow> command_matches raw d)"
    using False by (intro no_panic_mono [OF text_scores_spec]) (simp_all add: command_matches_def Let_def search_texts_matches)
  with False show ?thesis by (auto simp: command_search_score_def no_panic_def)
qed (simp add: command_search_score_def command_matches_def)

section \<open>The order of the results\<close>

text \<open>The score of a descriptor, for the specification.\<close>

definition search_score_of :: "str \<Rightarrow> command_contribution \<Rightarrow> u16" where
  "search_score_of query c = the (the (command_search_score (cc_descriptor c) query))"

definition result_key :: "command_history \<Rightarrow> str \<Rightarrow> nat \<Rightarrow> command_contribution \<Rightarrow> nat \<times> nat" where
  "result_key h query bound c = (2 ^ 16 - unat (search_score_of query c), bound - usage_count h (cc_id c))"

lemma score_contributions_spec:
  assumes "length query \<le> 2547"
  shows "score_contributions h query cs =
    Some (map (\<lambda>(i, c). (search_score_of query c, usage_count h (cc_id c), i, c))
      (filter (\<lambda>(i, c). command_matches query (cc_descriptor c)) cs))"
proof (induction cs)
  case (Cons e cs)
  obtain i c where e: "e = (i, c)" by (cases e)
  from command_search_score_spec [OF assms, of "cc_descriptor c"] obtain r where
    r: "command_search_score (cc_descriptor c) query = Some r" "r \<noteq> None \<longleftrightarrow> command_matches query (cc_descriptor c)"
    by (auto simp: no_panic_def)
  with Cons e show ?case by (cases r) (auto simp: search_score_of_def)
qed simp

lemma usage_count_le: "usage_count h i \<le> length (mh_entries h)"
  by (simp add: usage_count_def)

lemma insort_key_map: "insort_key f (g x) (map g xs) = map g (insort_key (\<lambda>x. f (g x)) x xs)"
  by (induction xs) simp_all

lemma sort_key_map: "sort_key f (map g xs) = map g (sort_key (\<lambda>x. f (g x)) xs)"
  by (induction xs) (simp_all add: insort_key_map)

lemma filter_enumerate_sort:
  "map snd (sort_key (\<lambda>(i, x). (f x, i)) (filter (\<lambda>(i, x). P x) (List.enumerate n xs))) = sort_key f (filter P xs)"
proof -
  have "(\<lambda>(i :: nat, x). P x) = P \<circ> snd" by auto
  then have "map snd (sort_key (\<lambda>(i, x). (f x, i)) (filter (\<lambda>(i, x). P x) (List.enumerate n xs))) =
      map snd (filter (P \<circ> snd) (sort_key (\<lambda>(i, x). (f x, i)) (List.enumerate n xs)))"
    by (simp only: filter_sort)
  also have "\<dots> = filter P (map snd (sort_key (\<lambda>(i, x). (f x, i)) (List.enumerate n xs)))"
    by (simp only: filter_map)
  finally show ?thesis by (simp only: sort_enumerated filter_sort)
qed

lemma scored_cmp_key:
  assumes "lh \<le> bound" and "rh \<le> bound"
  shows "scored_cmp (ls, lh, li, lc) (rs, rh, ri, rc) =
    cmp_of ((2 ^ 16 - unat ls, bound - lh), li) ((2 ^ 16 - unat rs, bound - rh), ri)"
proof -
  have "cmp_of rs ls = cmp_of (2 ^ 16 - unat ls) (2 ^ 16 - unat rs)"
    using unsigned_less [of ls, where 'a = nat] unsigned_less [of rs, where 'a = nat]
    by (auto simp: cmp_of_def word_less_nat_alt word_unat_eq_iff)
  then have "then_with (then_with (cmp_of rs ls) (cmp_of rh lh)) (cmp_of li ri) =
      cmp_of ((2 ^ 16 - unat ls, bound - lh), li) ((2 ^ 16 - unat rs, bound - rh), ri)"
    by (simp only: cmp_of_descending [OF assms] then_with_cmp)
  then show ?thesis by (simp only: scored_cmp_def Let_def prod.case)
qed

text \<open>The result of a search: the matching contributions, sorted by search score, then by usage, ties in snapshot order.\<close>

lemma search_rank_spec:
  assumes "query \<noteq> []" and "length query \<le> 2547"
  shows "search_rank_snapshot h s query = Some (snapshot_new (rs_revision s)
    (sort_key (result_key h query (length (mh_entries h)))
      (filter (\<lambda>c. command_matches query (cc_descriptor c)) (rs_contributions s))))"
proof -
  let ?g = "\<lambda>(i, c). (search_score_of query c, usage_count h (cc_id c), i, c)"
  let ?k = "\<lambda>(n, u, i, c :: command_contribution). ((2 ^ 16 - unat (n :: u16), length (mh_entries h) - u), i)"
  let ?es = "filter (\<lambda>(i, c). command_matches query (cc_descriptor c)) (List.enumerate 0 (rs_contributions s))"
  have "sort_by scored_cmp (map ?g ?es) = sort_key ?k (map ?g ?es)"
  proof (rule sort_by_key_on)
    fix x y assume "x \<in> set (map ?g ?es)" and "y \<in> set (map ?g ?es)"
    then show "scored_cmp x y = cmp_of (?k x) (?k y)"
      by (auto simp: scored_cmp_key [of _ "length (mh_entries h)"] usage_count_le)
  qed
  then have "map (\<lambda>(_, _, _, c). c) (sort_by scored_cmp (map ?g ?es)) =
      map snd (sort_key (\<lambda>(i, c). (result_key h query (length (mh_entries h)) c, i)) ?es)"
    by (simp add: sort_key_map case_prod_unfold result_key_def)
  also have "\<dots> = sort_key (result_key h query (length (mh_entries h)))
      (filter (\<lambda>c. command_matches query (cc_descriptor c)) (rs_contributions s))"
    by (rule filter_enumerate_sort)
  finally show ?thesis
    using assms(1) by (simp add: search_rank_snapshot_def score_contributions_spec [OF assms(2)])
qed

section \<open>The bound is sharp\<close>

lemma fuzzy_run:
  assumes "unat n + 24 * Suc m < 2 ^ 16"
  shows "\<exists>r. fuzzy_loop (Suc i) (replicate (Suc m) a) a (replicate m a) (Some i) n = Some r \<and> unat r = unat n + 24 * Suc m"
  using assms
proof (induction m arbitrary: n i)
  case 0
  then show ?case by (simp add: unat_saturating_add)
next
  case (Suc m)
  have n: "unat (saturating_add n 24) = unat n + 24" using Suc.prems by (simp add: unat_saturating_add)
  from Suc.IH [of "saturating_add n 24" "Suc i"] Suc.prems n show ?case by (auto simp: Let_def)
qed

text \<open>A \<open>b\<close> and 2547 times \<open>a\<close>, looked up in the same text with a \<open>c\<close> after the \<open>b\<close>.\<close>

definition long_query :: str where
  "long_query = 98 # replicate 2547 97"

definition long_label :: str where
  "long_label = 98 # 99 # replicate 2547 97"

lemma normalize_lower_letters:
  assumes "\<forall>c \<in> set s. 97 \<le> c \<and> c \<le> 122"
  shows "normalize_command_text s = s"
proof -
  have "dropWhile is_whitespace s = s" if "\<forall>c \<in> set s. 97 \<le> c \<and> c \<le> 122" for s
    using that by (cases s) (auto simp: is_whitespace_def)
  from this [OF assms] this [of "rev s"] assms have "trim s = s" by (simp add: trim_def)
  moreover have "map ascii_lower s = s" using assms by (auto simp: ascii_lower_def intro!: map_idI)
  ultimately show ?thesis by (simp add: normalize_command_text_def)
qed

end
