(* ===== verification/Command_Center.thy ===== *)
theory Command_Center
  imports Command_Bindings_Laws Command_Search
begin

text \<open>
  The command center (\<open>crates/open-gpui-command/src/center.rs\<close>, \<open>provider.rs\<close>, \<open>refresh.rs\<close>): static and
  dynamic command sources, provider requests and responses, snapshots, dispatch and the refresh controller of a palette. A
  provider is a function of its request. An operation that projects the scopes may panic where the projection does.
\<close>

section \<open>Provider requests and responses\<close>

type_synonym provider_id = str

record provider_request =
  rq_request_id :: "u64 option"
  rq_query :: str
  rq_active_scopes :: "scope_id list"

definition request_new :: "str \<Rightarrow> provider_request" where
  "request_new query = \<lparr>rq_request_id = None, rq_query = query, rq_active_scopes = []\<rparr>"

datatype provider_state = Ready | Loading | Failed

record provider_source =
  ps_scope :: scope_id
  ps_source :: source_id
  ps_contributions :: "command_contribution list"

record provider_response =
  rp_request_id :: "u64 option"
  rp_state :: provider_state
  rp_message :: "str option"
  rp_sources :: "provider_source list"

definition non_empty_message :: "str \<Rightarrow> str option" where
  "non_empty_message message = (if message \<noteq> [] then Some message else None)"

definition response_ready :: provider_response where
  "response_ready = \<lparr>rp_request_id = None, rp_state = Ready, rp_message = None, rp_sources = []\<rparr>"

definition response_loading :: "str \<Rightarrow> provider_response" where
  "response_loading message = \<lparr>rp_request_id = None, rp_state = Loading, rp_message = non_empty_message message, rp_sources = []\<rparr>"

definition response_failed :: "str \<Rightarrow> provider_response" where
  "response_failed message = \<lparr>rp_request_id = None, rp_state = Failed, rp_message = non_empty_message message, rp_sources = []\<rparr>"

definition for_request :: "provider_response \<Rightarrow> provider_request \<Rightarrow> provider_response" where
  "for_request response request = response\<lparr>rp_request_id := rq_request_id request\<rparr>"

record provider_status =
  st_provider :: provider_id
  st_request_id :: "u64 option"
  st_query :: "str option"
  st_state :: provider_state
  st_message :: "str option"
  st_source_count :: nat
  st_command_count :: nat

record stale_response =
  sl_provider :: provider_id
  sl_response_request_id :: u64
  sl_current_request_id :: "u64 option"

datatype apply_outcome = Applied provider_status | Stale stale_response

type_synonym provider = "provider_request \<Rightarrow> provider_response"

section \<open>The center\<close>

record 'd command_center =
  cn_registry :: scoped_registry
  cn_actions :: "'d action_map"
  cn_key_bindings :: key_binding_registry
  cn_availability :: availability_map
  cn_context :: "key_context context_stack"
  cn_history :: command_history
  cn_providers :: "(provider_id \<times> provider) list"
  cn_provider_sources :: "(provider_id, source_id list) btree_map"
  cn_provider_statuses :: "(provider_id, provider_status) btree_map"
  cn_request_counters :: "(provider_id, u64) btree_map"
  cn_latest_requests :: "(provider_id, provider_request) btree_map"

definition center_new :: "str \<Rightarrow> 'd command_center" where
  "center_new revision =
     \<lparr>cn_registry = scoped_new revision, cn_actions = [], cn_key_bindings = [], cn_availability = [],
      cn_context = context_stack_new, cn_history = history_default, cn_providers = [], cn_provider_sources = [],
      cn_provider_statuses = [], cn_request_counters = [], cn_latest_requests = []\<rparr>"

subsection \<open>Sources, actions, key bindings\<close>

definition sourced_contributions :: "source_id \<Rightarrow> command_contribution list \<Rightarrow> command_contribution list" where
  "sourced_contributions src cs = map (\<lambda>c. contribution_source (contribution_new (cc_descriptor c)) src) cs"

text \<open>The handle is the scope and the source.\<close>

definition center_register_source :: "'d command_center \<Rightarrow> scope_id \<Rightarrow> source_id \<Rightarrow> command_contribution list \<Rightarrow>
    (registry_error + scope_id \<times> source_id) \<times> 'd command_center" where
  "center_register_source cn scope src cs =
     (case register_all_in_scope (cn_registry cn) scope (sourced_contributions src cs) of
        (Inl e, r) \<Rightarrow> (Inl e, cn\<lparr>cn_registry := r\<rparr>)
      | (Inr _, r) \<Rightarrow> (Inr (scope, src), cn\<lparr>cn_registry := r\<rparr>))"

definition center_unregister_source :: "'d command_center \<Rightarrow> source_id \<Rightarrow> nat \<times> 'd command_center" where
  "center_unregister_source cn src = (let (n, r) = unregister_source (cn_registry cn) src in (n, cn\<lparr>cn_registry := r\<rparr>))"

definition center_unregister_scope :: "'d command_center \<Rightarrow> scope_id \<Rightarrow> bool \<times> 'd command_center" where
  "center_unregister_scope cn scope = (let (b, r) = unregister_scope (cn_registry cn) scope in (b, cn\<lparr>cn_registry := r\<rparr>))"

definition center_register_action :: "'d command_center \<Rightarrow> str \<Rightarrow> 'd gpui_action \<Rightarrow> 'd command_center" where
  "center_register_action cn i a = cn\<lparr>cn_actions := register_action (cn_actions cn) i a\<rparr>"

definition center_register_key_bindings :: "'d command_center \<Rightarrow> source_id \<Rightarrow> command_key_binding list \<Rightarrow> source_id \<times> 'd command_center"
where
  "center_register_key_bindings cn src bs =
     (let (h, r) = register_key_source (cn_key_bindings cn) src bs in (h, cn\<lparr>cn_key_bindings := r\<rparr>))"

definition center_unregister_key_bindings :: "'d command_center \<Rightarrow> source_id \<Rightarrow> nat \<times> 'd command_center" where
  "center_unregister_key_bindings cn src =
     (let (n, r) = unregister_key_source (cn_key_bindings cn) src in (n, cn\<lparr>cn_key_bindings := r\<rparr>))"

definition center_install_key_bindings :: "key_env \<Rightarrow> 'd command_center \<Rightarrow> 'd keymap \<Rightarrow> 'd binding_projection \<times> 'd keymap" where
  "center_install_key_bindings env cn km = install_into_keymap env (cn_key_bindings cn) (cn_actions cn) km"

definition center_preview_patch :: "key_env \<Rightarrow> 'd command_center \<Rightarrow> key_binding_patch \<Rightarrow> 'd patch_preview" where
  "center_preview_patch env cn patch = preview_patch env (cn_key_bindings cn) (cn_actions cn) patch"

subsection \<open>History and context\<close>

definition center_record_query :: "'d command_center \<Rightarrow> str \<Rightarrow> 'd command_center" where
  "center_record_query cn query = cn\<lparr>cn_history := record_query (cn_history cn) query\<rparr>"

definition center_previous_query :: "'d command_center \<Rightarrow> str \<Rightarrow> (str option \<times> 'd command_center) panics" where
  "center_previous_query cn pre = do { (q, h) \<leftarrow> previous_query (cn_history cn) pre; Some (q, cn\<lparr>cn_history := h\<rparr>) }"

definition center_next_query :: "'d command_center \<Rightarrow> str \<Rightarrow> (str option \<times> 'd command_center) panics" where
  "center_next_query cn pre = do { (q, h) \<leftarrow> next_query (cn_history cn) pre; Some (q, cn\<lparr>cn_history := h\<rparr>) }"

definition center_reset_query_navigation :: "'d command_center \<Rightarrow> 'd command_center" where
  "center_reset_query_navigation cn = cn\<lparr>cn_history := reset_query_navigation (cn_history cn)\<rparr>"

definition set_active_scopes :: "'d command_center \<Rightarrow> scope_id list \<Rightarrow> 'd command_center" where
  "set_active_scopes cn ss = cn\<lparr>cn_context := set_scopes (cn_context cn) ss\<rparr>"

definition clear_active_scopes :: "'d command_center \<Rightarrow> 'd command_center" where
  "clear_active_scopes cn = cn\<lparr>cn_context := clear_scopes (cn_context cn)\<rparr>"

definition center_set_key_contexts :: "'d command_center \<Rightarrow> key_context list \<Rightarrow> 'd command_center" where
  "center_set_key_contexts cn ks = cn\<lparr>cn_context := set_key_contexts (\<lambda>k. k = []) (cn_context cn) ks\<rparr>"

subsection \<open>Providers\<close>

fun unregister_sources :: "scoped_registry \<Rightarrow> source_id list \<Rightarrow> nat \<times> scoped_registry" where
  "unregister_sources r [] = (0, r)"
| "unregister_sources r (s # ss) =
     (let (n, r1) = unregister_source r s; (m, r2) = unregister_sources r1 ss in (n + m, r2))"

definition sources_of_provider :: "'d command_center \<Rightarrow> provider_id \<Rightarrow> source_id list" where
  "sources_of_provider cn p = (case map_of (cn_provider_sources cn) p of Some ss \<Rightarrow> ss | None \<Rightarrow> [])"

definition unregister_provider_sources :: "'d command_center \<Rightarrow> provider_id \<Rightarrow> nat \<times> 'd command_center" where
  "unregister_provider_sources cn p =
     (let (n, r) = unregister_sources (cn_registry cn) (sources_of_provider cn p) in
      (n, cn\<lparr>cn_provider_sources := bt_remove p (cn_provider_sources cn), cn_registry := r\<rparr>))"

definition unregister_provider_id :: "'d command_center \<Rightarrow> provider_id \<Rightarrow> nat \<times> 'd command_center" where
  "unregister_provider_id cn p =
     unregister_provider_sources
       (cn\<lparr>cn_providers := filter (\<lambda>e. fst e \<noteq> p) (cn_providers cn),
           cn_provider_statuses := bt_remove p (cn_provider_statuses cn),
           cn_latest_requests := bt_remove p (cn_latest_requests cn)\<rparr>) p"

definition register_provider_arc :: "'d command_center \<Rightarrow> provider_id \<Rightarrow> provider \<Rightarrow> provider_id \<times> 'd command_center" where
  "register_provider_arc cn p provider =
     (let (_, cn1) = unregister_provider_id cn p in
      (p, if p \<noteq> [] then cn1\<lparr>cn_providers := cn_providers cn1 @ [(p, provider)]\<rparr> else cn1))"

definition next_provider_request_id :: "'d command_center \<Rightarrow> provider_id \<Rightarrow> u64 \<times> 'd command_center" where
  "next_provider_request_id cn p =
     (let n = saturating_succ (case map_of (cn_request_counters cn) p of Some c \<Rightarrow> c | None \<Rightarrow> 0) in
      (n, cn\<lparr>cn_request_counters := bt_insert p n (cn_request_counters cn)\<rparr>))"

definition provider_request_of :: "'d command_center \<Rightarrow> str \<Rightarrow> provider_request" where
  "provider_request_of cn query = (request_new query)\<lparr>rq_active_scopes := cs_scopes (cn_context cn)\<rparr>"

definition begin_provider_request :: "'d command_center \<Rightarrow> provider_id \<Rightarrow> str \<Rightarrow> provider_request \<times> 'd command_center" where
  "begin_provider_request cn p query =
     (let (n, cn1) = next_provider_request_id cn p;
          request = (provider_request_of cn1 query)\<lparr>rq_request_id := Some n\<rparr> in
      (request, cn1\<lparr>cn_latest_requests := bt_insert p request (cn_latest_requests cn1)\<rparr>))"

definition find_provider :: "'d command_center \<Rightarrow> provider_id \<Rightarrow> provider option" where
  "find_provider cn p = map_option snd (find (\<lambda>e. fst e = p) (cn_providers cn))"

definition provider_response_for_request :: "'d command_center \<Rightarrow> provider_id \<Rightarrow> provider_request \<Rightarrow> provider_response option" where
  "provider_response_for_request cn p request = map_option (\<lambda>f. f request) (find_provider cn p)"

definition current_request_id :: "'d command_center \<Rightarrow> provider_id \<Rightarrow> u64 option" where
  "current_request_id cn p = (case map_of (cn_latest_requests cn) p of Some request \<Rightarrow> rq_request_id request | None \<Rightarrow> None)"

definition stale_provider_response :: "'d command_center \<Rightarrow> provider_id \<Rightarrow> u64 option \<Rightarrow> stale_response option" where
  "stale_provider_response cn p response_request_id =
     (case response_request_id of
        None \<Rightarrow> None
      | Some i \<Rightarrow>
          if current_request_id cn p \<noteq> Some i
          then Some \<lparr>sl_provider = p, sl_response_request_id = i, sl_current_request_id = current_request_id cn p\<rparr>
          else None)"

definition provider_response_query :: "'d command_center \<Rightarrow> provider_id \<Rightarrow> u64 option \<Rightarrow> str option" where
  "provider_response_query cn p response_request_id =
     (case response_request_id of
        None \<Rightarrow> None
      | Some i \<Rightarrow>
          map_option rq_query (opt_filter (\<lambda>request. rq_request_id request = Some i) (map_of (cn_latest_requests cn) p)))"

definition register_provider_source :: "scoped_registry \<Rightarrow> provider_source \<Rightarrow> (registry_error + unit) \<times> scoped_registry" where
  "register_provider_source r s = register_all_in_scope r (ps_scope s) (sourced_contributions (ps_source s) (ps_contributions s))"

fun register_provider_sources :: "scoped_registry \<Rightarrow> provider_source list \<Rightarrow> registry_error + scoped_registry" where
  "register_provider_sources r [] = Inr r"
| "register_provider_sources r (s # ss) =
     (case register_provider_source r s of (Inl e, _) \<Rightarrow> Inl e | (Inr _, r1) \<Rightarrow> register_provider_sources r1 ss)"

definition apply_provider_response_unchecked ::
  "'d command_center \<Rightarrow> provider_id \<Rightarrow> provider_response \<Rightarrow> (registry_error + provider_status) \<times> 'd command_center" where
  "apply_provider_response_unchecked cn p response =
     (let query = provider_response_query cn p (rp_request_id response);
          sources = rp_sources response;
          (_, cleared) = unregister_sources (cn_registry cn) (sources_of_provider cn p) in
      case register_provider_sources cleared sources of
        Inl e \<Rightarrow> (Inl e, cn)
      | Inr next_registry \<Rightarrow>
          (let status = \<lparr>st_provider = p, st_request_id = rp_request_id response, st_query = query, st_state = rp_state response,
                         st_message = rp_message response, st_source_count = length sources,
                         st_command_count = sum_list (map (\<lambda>s. length (ps_contributions s)) sources)\<rparr> in
           (Inr status,
            cn\<lparr>cn_registry := next_registry,
               cn_provider_sources := bt_insert p (map ps_source sources) (cn_provider_sources cn),
               cn_provider_statuses := bt_insert p status (cn_provider_statuses cn)\<rparr>)))"

definition apply_provider_response ::
  "'d command_center \<Rightarrow> provider_id \<Rightarrow> provider_response \<Rightarrow> (registry_error + apply_outcome) \<times> 'd command_center" where
  "apply_provider_response cn p response =
     (case stale_provider_response cn p (rp_request_id response) of
        Some stale \<Rightarrow> (Inr (Stale stale), cn)
      | None \<Rightarrow>
          (case apply_provider_response_unchecked cn p response of
             (Inl e, cn1) \<Rightarrow> (Inl e, cn1)
           | (Inr status, cn1) \<Rightarrow> (Inr (Applied status), cn1)))"

definition apply_provider_response_for_request ::
  "'d command_center \<Rightarrow> provider_id \<Rightarrow> provider_request \<Rightarrow> provider_response \<Rightarrow> (registry_error + apply_outcome) \<times> 'd command_center"
where
  "apply_provider_response_for_request cn p request response = apply_provider_response cn p (for_request response request)"

definition center_refresh_provider ::
  "'d command_center \<Rightarrow> provider_id \<Rightarrow> str \<Rightarrow> (registry_error + provider_status) option \<times> 'd command_center" where
  "center_refresh_provider cn p query =
     (case find_provider cn p of
        None \<Rightarrow> (None, cn)
      | Some provider \<Rightarrow>
          (let (request, cn1) = begin_provider_request cn p query;
               (result, cn2) = apply_provider_response_unchecked cn1 p (for_request (provider request) request) in
           (Some result, cn2)))"

text \<open>The loop of \<open>refresh_providers\<close>: an error ends it, and leaves what was applied before.\<close>

fun refresh_each :: "'d command_center \<Rightarrow> str \<Rightarrow> (provider_id \<times> provider) list \<Rightarrow> (registry_error + provider_status list) \<times> 'd command_center"
where
  "refresh_each cn query [] = (Inr [], cn)"
| "refresh_each cn query ((p, provider) # ps) =
     (let (request, cn1) = begin_provider_request cn p query in
      case apply_provider_response_unchecked cn1 p (for_request (provider request) request) of
        (Inl e, cn2) \<Rightarrow> (Inl e, cn2)
      | (Inr status, cn2) \<Rightarrow>
          (case refresh_each cn2 query ps of
             (Inl e, cn3) \<Rightarrow> (Inl e, cn3)
           | (Inr statuses, cn3) \<Rightarrow> (Inr (status # statuses), cn3)))"

definition center_refresh_providers :: "'d command_center \<Rightarrow> str \<Rightarrow> (registry_error + provider_status list) \<times> 'd command_center" where
  "center_refresh_providers cn query = refresh_each cn query (cn_providers cn)"

subsection \<open>Snapshots\<close>

definition center_scope_projection :: "'d command_center \<Rightarrow> scope_projection panics" where
  "center_scope_projection cn =
     (if cs_scopes (cn_context cn) = [] then project_all_scopes (cn_registry cn)
      else project_active_scopes (cn_registry cn) (cs_scopes (cn_context cn)))"

abbreviation center_resolver :: "'d command_center \<Rightarrow> availability_resolver" where
  "center_resolver cn \<equiv> map_availability_for (cn_availability cn)"

definition center_snapshot :: "'d command_center \<Rightarrow> registry_snapshot panics" where
  "center_snapshot cn = do {
     scoped \<leftarrow> center_scope_projection cn;
     Some (rank_registry_snapshot (cn_history cn) (with_availability (sp_snapshot scoped) (center_resolver cn)))
   }"

definition snapshot_for_keymap ::
  "target_os \<Rightarrow> ('d \<Rightarrow> 'd \<Rightarrow> bool) \<Rightarrow> 'd command_center \<Rightarrow> 'd keymap \<Rightarrow> registry_snapshot panics" where
  "snapshot_for_keymap os data_eq cn km = do {
     scoped \<leftarrow> center_scope_projection cn;
     shown \<leftarrow> registry_snapshot_with_keymap_shortcuts_in_context os data_eq (cn_actions cn)
       (with_availability (sp_snapshot scoped) (center_resolver cn)) km (cs_key_contexts (cn_context cn));
     Some (rank_registry_snapshot (cn_history cn) shown)
   }"

definition snapshot_for_window ::
  "target_os \<Rightarrow> ('d gpui_action \<Rightarrow> 'd key_binding option) \<Rightarrow> 'd command_center \<Rightarrow> registry_snapshot panics" where
  "snapshot_for_window os highest cn = do {
     scoped \<leftarrow> center_scope_projection cn;
     shown \<leftarrow> registry_snapshot_with_window_shortcuts os highest (cn_actions cn)
       (with_availability (sp_snapshot scoped) (center_resolver cn));
     Some (rank_registry_snapshot (cn_history cn) shown)
   }"

definition filter_hidden_orphans :: "'d command_center \<Rightarrow> shortcut_diagnostic list \<Rightarrow> shortcut_diagnostic list panics" where
  "filter_hidden_orphans cn ds = do {
     scoped \<leftarrow> center_scope_projection cn;
     let ids = set (map cd_id (snapshot_descriptors (sp_snapshot scoped)));
     Some (filter (\<lambda>d. sd_kind d \<noteq> OrphanAction \<or>
       \<not> (case diagnostic_command_id d of Some i \<Rightarrow> i \<in> ids | None \<Rightarrow> False)) ds)
   }"

definition center_shortcut_diagnostics :: "('d gpui_action \<Rightarrow> str option panics) \<Rightarrow> 'd command_center \<Rightarrow> shortcut_diagnostic list panics"
where
  "center_shortcut_diagnostics label cn = do {
     scoped \<leftarrow> center_scope_projection cn;
     let visible = rank_registry_snapshot (cn_history cn) (with_availability (sp_snapshot scoped) (center_resolver cn));
     ds \<leftarrow> shortcut_diagnostics_with (cn_actions cn) visible label;
     filter_hidden_orphans cn ds
   }"

definition search_snapshot :: "'d command_center \<Rightarrow> str \<Rightarrow> registry_snapshot panics" where
  "search_snapshot cn query = do { s \<leftarrow> center_snapshot cn; search_rank_snapshot (cn_history cn) s query }"

definition search_snapshot_for_keymap ::
  "target_os \<Rightarrow> ('d \<Rightarrow> 'd \<Rightarrow> bool) \<Rightarrow> 'd command_center \<Rightarrow> str \<Rightarrow> 'd keymap \<Rightarrow> registry_snapshot panics" where
  "search_snapshot_for_keymap os data_eq cn query km = do {
     s \<leftarrow> snapshot_for_keymap os data_eq cn km; search_rank_snapshot (cn_history cn) s query }"

definition center_menu_tree :: "'d command_center \<Rightarrow> menu_tree panics" where
  "center_menu_tree cn = do { s \<leftarrow> center_snapshot cn; menu_from_snapshot s }"

definition center_resolve_key_input ::
  "target_os \<Rightarrow> ('d \<Rightarrow> 'd \<Rightarrow> bool) \<Rightarrow> 'd command_center \<Rightarrow> keystroke list \<Rightarrow> 'd keymap \<Rightarrow> keymap_resolution panics" where
  "center_resolve_key_input os data_eq cn input km = do {
     scoped \<leftarrow> center_scope_projection cn;
     Some (resolve_keymap_input os data_eq (cn_actions cn) (sp_snapshot scoped) (center_resolver cn) km
       (cs_key_contexts (cn_context cn)) input)
   }"

definition center_resolve_key_sequence ::
  "target_os \<Rightarrow> ('d \<Rightarrow> 'd \<Rightarrow> bool) \<Rightarrow> 'd command_center \<Rightarrow> str \<Rightarrow> 'd keymap \<Rightarrow> (keystroke_error + keymap_resolution) panics" where
  "center_resolve_key_sequence os data_eq cn s km =
     (case parse_key_sequence os s of
        Inl e \<Rightarrow> Some (Inl e)
      | Inr input \<Rightarrow> do { r \<leftarrow> center_resolve_key_input os data_eq cn input km; Some (Inr r) })"

subsection \<open>Dispatch\<close>

definition record_successful_dispatch :: "'d command_center \<Rightarrow> dispatch_outcome \<Rightarrow> str \<Rightarrow> str \<Rightarrow> 'd command_center" where
  "record_successful_dispatch cn outcome i query =
     (if outcome = Dispatched then cn\<lparr>cn_history := record_usage (cn_history cn) i query\<rparr> else cn)"

definition center_dispatch :: "'d command_center \<Rightarrow> str \<Rightarrow> str \<Rightarrow> ('d dispatch \<times> 'd command_center) panics" where
  "center_dispatch cn i query = do {
     scoped \<leftarrow> center_scope_projection cn;
     let (outcome, sent) = dispatch_available_command (cn_actions cn) i (sp_snapshot scoped) (center_resolver cn);
     Some ((outcome, sent), record_successful_dispatch cn outcome i query)
   }"

section \<open>The refresh controller\<close>

record refresh_controller =
  rf_provider :: provider_id
  rf_query :: str
  rf_current_request :: "provider_request option"
  rf_loading_message :: "str option"

definition controller_new :: "provider_id \<Rightarrow> refresh_controller" where
  "controller_new p = \<lparr>rf_provider = p, rf_query = [], rf_current_request = None, rf_loading_message = None\<rparr>"

definition with_loading_message :: "refresh_controller \<Rightarrow> str \<Rightarrow> refresh_controller" where
  "with_loading_message c message = c\<lparr>rf_loading_message := non_empty_message message\<rparr>"

record refresh_projection =
  fp_provider :: provider_id
  fp_query :: str
  fp_request :: "provider_request option"
  fp_query_changed :: bool
  fp_outcome :: "apply_outcome option"
  fp_status :: "provider_status option"
  fp_snapshot :: registry_snapshot

definition controller_projection ::
  "refresh_controller \<Rightarrow> 'd command_center \<Rightarrow> bool \<Rightarrow> apply_outcome option \<Rightarrow> refresh_projection panics" where
  "controller_projection c cn query_changed outcome = do {
     s \<leftarrow> search_snapshot cn (rf_query c);
     Some \<lparr>fp_provider = rf_provider c, fp_query = rf_query c, fp_request = rf_current_request c,
           fp_query_changed = query_changed, fp_outcome = outcome,
           fp_status = map_of (cn_provider_statuses cn) (rf_provider c), fp_snapshot = s\<rparr>
   }"

type_synonym 'd refreshed = "(registry_error + refresh_projection) \<times> refresh_controller \<times> 'd command_center"

text \<open>A result with the projection of the state after it.\<close>

definition project_result ::
  "refresh_controller \<Rightarrow> 'd command_center \<Rightarrow> bool \<Rightarrow> apply_outcome option \<Rightarrow> 'd refreshed panics" where
  "project_result c cn query_changed outcome = do {
     p \<leftarrow> controller_projection c cn query_changed outcome; Some (Inr p, c, cn) }"

definition set_query :: "refresh_controller \<Rightarrow> 'd command_center \<Rightarrow> str \<Rightarrow> 'd refreshed panics" where
  "set_query c cn query =
     (if \<not> (rf_current_request c = None \<or> rf_query c \<noteq> query) then project_result c cn False None
      else
        let (request, cn1) = begin_provider_request cn (rf_provider c) query;
            c1 = c\<lparr>rf_query := query, rf_current_request := Some request\<rparr> in
        case rf_loading_message c1 of
          None \<Rightarrow> project_result c1 cn1 True None
        | Some message \<Rightarrow>
            (case apply_provider_response_for_request cn1 (rf_provider c1) request (response_loading message) of
               (Inl e, cn2) \<Rightarrow> Some (Inl e, c1, cn2)
             | (Inr outcome, cn2) \<Rightarrow> project_result c1 cn2 True (Some outcome)))"

definition controller_refresh_provider ::
  "refresh_controller \<Rightarrow> 'd command_center \<Rightarrow> str \<Rightarrow>
     ((registry_error + refresh_projection) option \<times> refresh_controller \<times> 'd command_center) panics" where
  "controller_refresh_provider c cn query = do {
     (result, c1, cn1) \<leftarrow> set_query c cn query;
     case result of
       Inl e \<Rightarrow> Some (Some (Inl e), c1, cn1)
     | Inr p \<Rightarrow>
         if \<not> fp_query_changed p then Some (Some (Inr p), c1, cn1)
         else case rf_current_request c1 of
           None \<Rightarrow> Some (None, c1, cn1)
         | Some request \<Rightarrow>
             (case provider_response_for_request cn1 (rf_provider c1) request of
                None \<Rightarrow> Some (None, c1, cn1)
              | Some response \<Rightarrow>
                  (case apply_provider_response_for_request cn1 (rf_provider c1) request response of
                     (Inl e, cn2) \<Rightarrow> Some (Some (Inl e), c1, cn2)
                   | (Inr outcome, cn2) \<Rightarrow> do {
                       p2 \<leftarrow> controller_projection c1 cn2 True (Some outcome);
                       Some (Some (Inr p2), c1, cn2)
                     }))
   }"

definition controller_apply_response ::
  "refresh_controller \<Rightarrow> 'd command_center \<Rightarrow> provider_request \<Rightarrow> provider_response \<Rightarrow> 'd refreshed panics" where
  "controller_apply_response c cn request response =
     (case apply_provider_response_for_request cn (rf_provider c) request response of
        (Inl e, cn1) \<Rightarrow> Some (Inl e, c, cn1)
      | (Inr outcome, cn1) \<Rightarrow> project_result c cn1 False (Some outcome))"

end
