(* ===== verification/Command_Center_Laws.thy ===== *)
theory Command_Center_Laws
  imports Command_Center
begin

text \<open>
  The invariant of the command center over all its operations, the effect of a provider response on the registered commands,
  the rejection of superseded responses, and the agreement of snapshots with dispatch.
\<close>

section \<open>Sources\<close>

abbreviation in_scope :: "scoped_registry \<Rightarrow> scope_id \<Rightarrow> command_contribution list" where
  "in_scope r s \<equiv> sc_contributions (scope_or_default r s)"

lemma unregister_sources_ok: "scoped_ok r \<Longrightarrow> scoped_ok (snd (unregister_sources r ss))"
proof (induction ss arbitrary: r)
  case (Cons s ss)
  from scoped_ok_unregister_source [OF Cons.prems, of s] Cons.IH show ?case
    by (auto simp: case_prod_unfold Let_def)
qed simp

lemma unregister_sources_contributions:
  "in_scope (snd (unregister_sources r ss)) t = filter (\<lambda>c. cc_source c \<notin> Some ` set ss) (in_scope r t)"
proof (induction ss arbitrary: r)
  case (Cons s ss)
  have "in_scope (snd (unregister_sources r (s # ss))) t =
      filter (\<lambda>c. cc_source c \<notin> Some ` set ss) (filter (\<lambda>c. cc_source c \<noteq> Some s) (in_scope r t))"
    by (simp add: case_prod_unfold Let_def Cons.IH unregister_source_contributions)
  also have "\<dots> = filter (\<lambda>c. cc_source c \<notin> Some ` set (s # ss)) (in_scope r t)"
    by (auto intro: filter_cong)
  finally show ?case .
qed simp

definition sourced :: "provider_source \<Rightarrow> command_contribution list" where
  "sourced s = sourced_contributions (ps_source s) (ps_contributions s)"

definition sourced_in :: "provider_source list \<Rightarrow> scope_id \<Rightarrow> command_contribution list" where
  "sourced_in ss t = concat (map sourced (filter (\<lambda>s. ps_scope s = t \<and> t \<noteq> []) ss))"

lemma register_provider_source_Inr:
  assumes "scoped_ok r" and "register_provider_source r s = (Inr u, r')"
  shows "scoped_ok r' \<and> (\<forall>t. in_scope r' t = in_scope r t @ sourced_in [s] t)"
proof -
  from assms(2) have reg: "register_all_in_scope r (ps_scope s) (sourced s) = (Inr (), r')"
    by (simp add: register_provider_source_def sourced_def)
  show ?thesis
  proof (cases "ps_scope s = []")
    case True
    with reg have "r' = r" by (simp add: register_all_in_scope_def)
    with assms(1) True show ?thesis by (auto simp: sourced_in_def)
  next
    case False
    from register_all_contributions [OF assms(1) reg this] scoped_ok_register_all [OF assms(1) reg] False
    show ?thesis by (auto simp: sourced_in_def)
  qed
qed

lemma register_provider_sources_Inr:
  assumes "scoped_ok r" and "register_provider_sources r ss = Inr r'"
  shows "scoped_ok r' \<and> (\<forall>t. in_scope r' t = in_scope r t @ sourced_in ss t)"
  using assms
proof (induction ss arbitrary: r)
  case Nil
  then show ?case by (simp add: sourced_in_def)
next
  case (Cons s ss)
  then obtain r1 where r1: "register_provider_source r s = (Inr (), r1)" "register_provider_sources r1 ss = Inr r'"
    by (auto split: prod.splits sum.splits)
  from register_provider_source_Inr [OF Cons.prems(1) r1(1)] Cons.IH [OF _ r1(2)]
  show ?case by (auto simp: sourced_in_def)
qed

text \<open>The sources register exactly when no id is claimed twice in a scope.\<close>

definition fresh_ids :: "scoped_registry \<Rightarrow> provider_source list \<Rightarrow> bool" where
  "fresh_ids r ss \<longleftrightarrow> (\<forall>t. distinct (map cc_id (sourced_in ss t)) \<and>
     cc_id ` set (in_scope r t) \<inter> cc_id ` set (sourced_in ss t) = {})"

lemma sourced_in_Cons: "sourced_in (s # ss) t = sourced_in [s] t @ sourced_in ss t"
  by (simp add: sourced_in_def)

lemma register_provider_sources_succeeds:
  assumes "scoped_ok r"
  shows "(\<exists>r'. register_provider_sources r ss = Inr r') \<longleftrightarrow> fresh_ids r ss"
  using assms
proof (induction ss arbitrary: r)
  case Nil
  then show ?case by (simp add: fresh_ids_def sourced_in_def)
next
  case (Cons s ss)
  have one: "(\<exists>r1. register_provider_source r s = (Inr (), r1)) \<longleftrightarrow> fresh_ids r [s]"
    using register_all_succeeds [OF Cons.prems, of "ps_scope s" "sourced s"]
    by (auto simp: register_provider_source_def sourced_def [symmetric] fresh_ids_def sourced_in_def)
  show ?case
  proof (cases "\<exists>r1. register_provider_source r s = (Inr (), r1)")
    case True
    then obtain r1 where r1: "register_provider_source r s = (Inr (), r1)" by blast
    from register_provider_source_Inr [OF Cons.prems r1] have ok: "scoped_ok r1" and
      c1: "\<And>t. in_scope r1 t = in_scope r t @ sourced_in [s] t" by simp_all
    have "fresh_ids r [s] \<and> fresh_ids r1 ss \<longleftrightarrow> fresh_ids r (s # ss)"
      unfolding fresh_ids_def sourced_in_Cons [of s ss] c1 set_append image_Un Int_Un_distrib Int_Un_distrib2 Un_empty
        map_append distinct_append set_map by blast
    with True one Cons.IH [OF ok] r1 show ?thesis by simp
  next
    case False
    then obtain e r1 where e: "register_provider_source r s = (Inl e, r1)"
      by (cases "register_provider_source r s") (metis sum.exhaust old.unit.exhaust)
    have "\<not> fresh_ids r (s # ss)"
    proof
      assume "fresh_ids r (s # ss)"
      then have "fresh_ids r [s]"
        unfolding fresh_ids_def sourced_in_Cons [of s ss] set_append image_Un Int_Un_distrib Un_empty map_append distinct_append
        by blast
      with one False show False by simp
    qed
    with e show ?thesis by simp
  qed
qed

section \<open>The invariant\<close>

definition requests_ok :: "'d command_center \<Rightarrow> bool" where
  "requests_ok cn \<longleftrightarrow> bt_ok (cn_request_counters cn) \<and> bt_ok (cn_latest_requests cn) \<and>
     (\<forall>p request. map_of (cn_latest_requests cn) p = Some request \<longrightarrow>
        (\<exists>n. rq_request_id request = Some n \<and> map_of (cn_request_counters cn) p = Some n))"

definition providers_ok :: "'d command_center \<Rightarrow> bool" where
  "providers_ok cn \<longleftrightarrow> distinct (map fst (cn_providers cn)) \<and> [] \<notin> fst ` set (cn_providers cn) \<and>
     bt_ok (cn_provider_sources cn) \<and> bt_ok (cn_provider_statuses cn) \<and>
     (\<forall>p st. map_of (cn_provider_statuses cn) p = Some st \<longrightarrow> st_provider st = p \<and>
        (\<exists>ss. map_of (cn_provider_sources cn) p = Some ss \<and> length ss = st_source_count st))"

definition center_ok :: "'d command_center \<Rightarrow> bool" where
  "center_ok cn \<longleftrightarrow> scoped_ok (cn_registry cn) \<and> history_ok (cn_history cn) \<and> requests_ok cn \<and> providers_ok cn"

lemmas center_ok_defs = center_ok_def requests_ok_def providers_ok_def

lemma center_ok_new: "center_ok (center_new revision)"
  by (simp add: center_ok_defs center_new_def scoped_ok_new history_default_def history_ok_new)

lemma center_ok_register_source:
  assumes "center_ok cn"
  shows "center_ok (snd (center_register_source cn scope src cs))"
proof -
  let ?r = "register_all_in_scope (cn_registry cn) scope (sourced_contributions src cs)"
  have "scoped_ok (snd ?r)" using assms scoped_ok_register_all [of "cn_registry cn"] by (cases ?r) (auto simp: center_ok_def)
  with assms show ?thesis by (cases ?r) (auto simp: center_register_source_def center_ok_defs split: sum.split)
qed

lemma center_ok_unregister_provider_sources: "center_ok cn \<Longrightarrow> p \<notin> dom (map_of (cn_provider_statuses cn)) \<Longrightarrow>
    center_ok (snd (unregister_provider_sources cn p))"
  using unregister_sources_ok [of "cn_registry cn"]
  by (auto simp: unregister_provider_sources_def center_ok_defs bt_simps case_prod_unfold Let_def dom_def)

lemma center_ok_unregister_provider:
  assumes "center_ok cn"
  shows "center_ok (snd (unregister_provider_id cn p))"
  unfolding unregister_provider_id_def
  by (rule center_ok_unregister_provider_sources)
     (use assms in \<open>auto simp: center_ok_defs bt_simps distinct_map_filter\<close>)

lemma unregister_provider_providers: "cn_providers (snd (unregister_provider_id cn p)) = filter (\<lambda>e. fst e \<noteq> p) (cn_providers cn)"
  by (simp add: unregister_provider_id_def unregister_provider_sources_def case_prod_unfold Let_def)

lemma center_ok_register_provider:
  assumes "center_ok cn"
  shows "center_ok (snd (register_provider_arc cn p f))"
proof -
  have "center_ok (snd (unregister_provider_id cn p))" using assms by (rule center_ok_unregister_provider)
  then show ?thesis
    using unregister_provider_providers [of cn p]
    by (auto simp: register_provider_arc_def center_ok_defs case_prod_unfold Let_def)
qed

lemma begin_request_fields:
  assumes "begin_provider_request cn p query = (request, cn')"
  obtains n where "n = saturating_succ (case map_of (cn_request_counters cn) p of Some c \<Rightarrow> c | None \<Rightarrow> 0)"
    "request = \<lparr>rq_request_id = Some n, rq_query = query, rq_active_scopes = cs_scopes (cn_context cn)\<rparr>"
    "cn' = cn\<lparr>cn_request_counters := bt_insert p n (cn_request_counters cn),
       cn_latest_requests := bt_insert p request (cn_latest_requests cn)\<rparr>"
  using assms
  by (auto simp: begin_provider_request_def next_provider_request_id_def provider_request_of_def request_new_def Let_def)

lemma center_ok_begin:
  assumes "center_ok cn" and "begin_provider_request cn p query = (request, cn')"
  shows "center_ok cn'"
  using assms(2) by (rule begin_request_fields) (use assms(1) in \<open>auto simp: center_ok_defs bt_simps split: if_splits\<close>)

lemma apply_unchecked_cases [consumes 1, case_names failed applied]:
  assumes "apply_provider_response_unchecked cn p response = (res, cn')"
  obtains e where "register_provider_sources (snd (unregister_sources (cn_registry cn) (sources_of_provider cn p))) (rp_sources response) = Inl e"
      "res = Inl e" "cn' = cn"
  | r st where "register_provider_sources (snd (unregister_sources (cn_registry cn) (sources_of_provider cn p))) (rp_sources response) = Inr r"
      "st = \<lparr>st_provider = p, st_request_id = rp_request_id response, st_query = provider_response_query cn p (rp_request_id response),
         st_state = rp_state response, st_message = rp_message response, st_source_count = length (rp_sources response),
         st_command_count = sum_list (map (\<lambda>s. length (ps_contributions s)) (rp_sources response))\<rparr>"
      "res = Inr st"
      "cn' = cn\<lparr>cn_registry := r, cn_provider_sources := bt_insert p (map ps_source (rp_sources response)) (cn_provider_sources cn),
         cn_provider_statuses := bt_insert p st (cn_provider_statuses cn)\<rparr>"
  using assms by (auto simp: apply_provider_response_unchecked_def case_prod_unfold Let_def split: sum.splits)

lemma center_ok_apply_unchecked:
  assumes "center_ok cn" and "apply_provider_response_unchecked cn p response = (res, cn')"
  shows "center_ok cn'"
  using assms(2)
proof (cases rule: apply_unchecked_cases)
  case (applied r st)
  have "scoped_ok r"
    using register_provider_sources_Inr [OF _ applied(1)] unregister_sources_ok assms(1) by (simp add: center_ok_def)
  with assms(1) applied(2,4) show ?thesis by (auto simp: center_ok_defs bt_simps split: if_splits)
qed (use assms in simp)

lemma center_ok_apply:
  assumes "center_ok cn"
  shows "center_ok (snd (apply_provider_response cn p response))"
  using center_ok_apply_unchecked [OF assms, of p response]
  by (auto simp: apply_provider_response_def assms split: option.split prod.split sum.split)

lemma center_ok_refresh_each:
  "center_ok cn \<Longrightarrow> center_ok (snd (refresh_each cn query ps))"
proof (induction ps arbitrary: cn)
  case (Cons e ps)
  obtain p f where e: "e = (p, f)" by (cases e)
  obtain request cn1 where b: "begin_provider_request cn p query = (request, cn1)" by (cases "begin_provider_request cn p query")
  obtain res cn2 where a: "apply_provider_response_unchecked cn1 p (for_request (f request) request) = (res, cn2)"
    by (cases "apply_provider_response_unchecked cn1 p (for_request (f request) request)")
  have "center_ok cn2" using center_ok_apply_unchecked [OF center_ok_begin [OF Cons.prems b] a] .
  moreover obtain res' cn3 where "refresh_each cn2 query ps = (res', cn3)" by force
  ultimately show ?case using Cons.IH [of cn2] by (cases res; cases res') (simp_all add: e b a)
qed simp

lemma center_ok_refresh:
  assumes "center_ok cn"
  shows "center_ok (snd (center_refresh_provider cn p query))"
  using center_ok_refresh_each [OF assms, of query "[(p, the (find_provider cn p))]"] assms
  by (auto simp: center_refresh_provider_def Let_def split: option.split prod.split sum.splits prod.splits)

section \<open>Runs of the center\<close>

text \<open>
  Every operation that changes the center, and the access it gives to its parts: \<open>registry_mut\<close> and \<open>history_mut\<close>
  let the caller run the operations of the part or put another one in its place, and \<open>set_history\<close> puts another one there;
  a part that is put there has been made by its own operations. The other parts may be any value.
\<close>

inductive center_step :: "'d command_center \<Rightarrow> 'd command_center \<Rightarrow> bool" where
  registry: "scoped_step (cn_registry cn) r \<Longrightarrow> center_step cn (cn\<lparr>cn_registry := r\<rparr>)"
| new_registry: "scoped_step\<^sup>*\<^sup>* (scoped_new other) r \<Longrightarrow> center_step cn (cn\<lparr>cn_registry := r\<rparr>)"
| history: "history_step (cn_history cn) h \<Longrightarrow> center_step cn (cn\<lparr>cn_history := h\<rparr>)"
| new_history: "history_step\<^sup>*\<^sup>* (history_new capacity) h \<Longrightarrow> center_step cn (cn\<lparr>cn_history := h\<rparr>)"
| actions: "center_step cn (cn\<lparr>cn_actions := as\<rparr>)"
| key_bindings: "center_step cn (cn\<lparr>cn_key_bindings := ks\<rparr>)"
| availability: "center_step cn (cn\<lparr>cn_availability := av\<rparr>)"
| context_stack: "center_step cn (cn\<lparr>cn_context := cs\<rparr>)"
| register_source: "center_step cn (snd (center_register_source cn scope src contributions))"
| unregister_source: "center_step cn (snd (center_unregister_source cn src))"
| unregister_scope: "center_step cn (snd (center_unregister_scope cn scope))"
| record_query: "center_step cn (center_record_query cn query)"
| previous_query: "center_previous_query cn pre = Some (q, cn') \<Longrightarrow> center_step cn cn'"
| next_query: "center_next_query cn pre = Some (q, cn') \<Longrightarrow> center_step cn cn'"
| reset_navigation: "center_step cn (center_reset_query_navigation cn)"
| register_provider: "center_step cn (snd (register_provider_arc cn p f))"
| unregister_provider: "center_step cn (snd (unregister_provider_id cn p))"
| begin_request: "center_step cn (snd (begin_provider_request cn p query))"
| apply_response: "center_step cn (snd (apply_provider_response cn p response))"
| refresh_provider: "center_step cn (snd (center_refresh_provider cn p query))"
| refresh_providers: "center_step cn (snd (center_refresh_providers cn query))"
| dispatch: "center_dispatch cn i query = Some (sent, cn') \<Longrightarrow> center_step cn cn'"

lemma center_step_ok: "center_step cn cn' \<Longrightarrow> center_ok cn \<Longrightarrow> center_ok cn'"
proof (induction rule: center_step.induct)
  case (registry cn r)
  then show ?case using scoped_step_ok by (auto simp: center_ok_defs)
next
  case (new_registry other r cn)
  then show ?case using scoped_steps_ok [OF _ scoped_ok_new] by (auto simp: center_ok_defs)
next
  case (history cn h)
  then show ?case using history_step_ok by (auto simp: center_ok_defs)
next
  case (new_history capacity h cn)
  then show ?case using history_steps_ok [OF _ history_ok_new] by (auto simp: center_ok_defs)
next
  case (register_source cn scope src contributions)
  then show ?case by (rule center_ok_register_source)
next
  case (unregister_source cn src)
  then show ?case
    using scoped_ok_unregister_source [of "cn_registry cn" src]
    by (auto simp: center_unregister_source_def center_ok_defs case_prod_unfold Let_def)
next
  case (unregister_scope cn scope)
  then show ?case
    using scoped_ok_unregister_scope [of "cn_registry cn" scope]
    by (auto simp: center_unregister_scope_def center_ok_defs case_prod_unfold Let_def)
next
  case (record_query cn query)
  then show ?case by (auto simp: center_record_query_def center_ok_defs history_ok_record_query)
next
  case (previous_query cn pre q cn')
  then show ?case
    using history_ok_navigate by (auto simp: center_previous_query_def previous_query_def center_ok_defs bind_eq_Some_conv)
next
  case (next_query cn pre q cn')
  then show ?case
    using history_ok_navigate by (auto simp: center_next_query_def next_query_def center_ok_defs bind_eq_Some_conv)
next
  case (reset_navigation cn)
  then show ?case by (auto simp: center_reset_query_navigation_def reset_query_navigation_def center_ok_defs history_ok_def)
next
  case (register_provider cn p f)
  then show ?case by (rule center_ok_register_provider)
next
  case (unregister_provider cn p)
  then show ?case by (rule center_ok_unregister_provider)
next
  case (begin_request cn p query)
  then show ?case by (rule center_ok_begin) (rule prod.collapse [symmetric])
next
  case (apply_response cn p response)
  then show ?case by (rule center_ok_apply)
next
  case (refresh_provider cn p query)
  then show ?case by (rule center_ok_refresh)
next
  case (refresh_providers cn query)
  then show ?case unfolding center_refresh_providers_def by (rule center_ok_refresh_each)
next
  case (dispatch cn i query sent cn')
  then show ?case
    using history_ok_record_usage [of "cn_history cn" i query]
    by (auto simp: center_dispatch_def record_successful_dispatch_def center_ok_defs bind_eq_Some_conv case_prod_unfold Let_def
        split: if_splits)
qed (auto simp: center_ok_defs)

lemma center_steps_ok: "center_step\<^sup>*\<^sup>* cn cn' \<Longrightarrow> center_ok cn \<Longrightarrow> center_ok cn'"
  by (induction rule: rtranclp_induct) (auto intro: center_step_ok)

section \<open>Superseded requests\<close>

text \<open>
  Requests of a key are numbered by a counter; the current one carries the counter's value. The numbers stop at \<open>limit\<close>,
  where the counter saturates.
\<close>

locale request_tracking =
  fixes ok :: "'s \<Rightarrow> bool"
    and step :: "'s \<Rightarrow> 's \<Rightarrow> bool"
    and counter :: "'s \<Rightarrow> 'k \<Rightarrow> nat"
    and current :: "'s \<Rightarrow> 'k \<Rightarrow> nat option"
    and start :: "'s \<Rightarrow> 'k \<Rightarrow> 'q \<Rightarrow> 's"
    and limit :: nat
  assumes ok_step: "ok s \<Longrightarrow> step s t \<Longrightarrow> ok t"
    and counter_mono: "ok s \<Longrightarrow> step s t \<Longrightarrow> counter s k \<le> counter t k"
    and current_counter: "ok s \<Longrightarrow> current s k = Some i \<Longrightarrow> i = counter s k"
    and start_step: "step s (start s k q)"
    and start_current: "ok s \<Longrightarrow> current (start s k q) k = Some (counter (start s k q) k)"
    and start_counter: "ok s \<Longrightarrow> counter s k < limit \<Longrightarrow> counter (start s k q) k = Suc (counter s k)"
begin

lemma steps: "step\<^sup>*\<^sup>* s t \<Longrightarrow> ok s \<Longrightarrow> ok t \<and> counter s k \<le> counter t k"
proof (induction rule: rtranclp_induct)
  case (step t u)
  then show ?case using ok_step [of t u] counter_mono [of t u k] by auto
qed simp

text \<open>Once a later request has started, an earlier one is never current again.\<close>

lemma superseded:
  assumes "ok s" and "step\<^sup>*\<^sup>* (start s k q) t" and "counter t k < limit" and "step\<^sup>*\<^sup>* (start t k q') u"
  shows "current u k \<noteq> Some (counter (start s k q) k)"
proof
  assume u: "current u k = Some (counter (start s k q) k)"
  have s: "ok (start s k q)" using ok_step [OF assms(1) start_step] .
  have t: "ok t" "counter (start s k q) k \<le> counter t k" using steps [OF assms(2) s] by simp_all
  have "ok (start t k q')" using ok_step [OF t(1) start_step] .
  from steps [OF assms(4) this, of k] have "ok u" "Suc (counter t k) \<le> counter u k"
    using start_counter [OF t(1) assms(3), of q'] by simp_all
  with current_counter [OF \<open>ok u\<close> u] t(2) show False by simp
qed

end

definition request_counter :: "'d command_center \<Rightarrow> provider_id \<Rightarrow> nat" where
  "request_counter cn p = unat (case map_of (cn_request_counters cn) p of Some c \<Rightarrow> c | None \<Rightarrow> 0)"

definition current_request :: "'d command_center \<Rightarrow> provider_id \<Rightarrow> nat option" where
  "current_request cn p = map_option unat (current_request_id cn p)"

definition begin_request :: "'d command_center \<Rightarrow> provider_id \<Rightarrow> str \<Rightarrow> 'd command_center" where
  "begin_request cn p query = snd (begin_provider_request cn p query)"

lemma request_counter_begin:
  assumes "center_ok cn"
  shows "request_counter (begin_request cn p query) p' =
    (if p' = p then unat (saturating_succ (case map_of (cn_request_counters cn) p of Some c \<Rightarrow> c | None \<Rightarrow> 0)) else request_counter cn p')"
  using assms
  by (auto simp: begin_request_def begin_provider_request_def next_provider_request_id_def request_counter_def Let_def
      center_ok_defs bt_simps)

lemma request_counter_begin_mono: "center_ok cn \<Longrightarrow> request_counter cn p' \<le> request_counter (begin_request cn p query) p'"
  using saturating_succ_mono [of "case map_of (cn_request_counters cn) p of Some c \<Rightarrow> c | None \<Rightarrow> 0"]
  by (simp add: request_counter_begin) (simp add: request_counter_def)

lemma request_counter_apply:
  assumes "apply_provider_response_unchecked cn p response = (res, cn')"
  shows "request_counter cn' q = request_counter cn q"
  using assms by (cases rule: apply_unchecked_cases) (simp_all add: request_counter_def)

lemma request_counter_refresh_each: "center_ok cn \<Longrightarrow> request_counter cn q \<le> request_counter (snd (refresh_each cn query ps)) q"
proof (induction ps arbitrary: cn)
  case (Cons e ps)
  obtain p f where e: "e = (p, f)" by (cases e)
  obtain request cn1 where b: "begin_provider_request cn p query = (request, cn1)" by (cases "begin_provider_request cn p query")
  obtain res cn2 where a: "apply_provider_response_unchecked cn1 p (for_request (f request) request) = (res, cn2)"
    by (cases "apply_provider_response_unchecked cn1 p (for_request (f request) request)")
  have "center_ok cn2" using center_ok_apply_unchecked [OF center_ok_begin [OF Cons.prems b] a] .
  moreover have "request_counter cn q \<le> request_counter cn2 q"
    using request_counter_begin_mono [OF Cons.prems, of q p query] request_counter_apply [OF a] by (simp add: begin_request_def b)
  moreover obtain res' cn3 where "refresh_each cn2 query ps = (res', cn3)" by force
  ultimately show ?case using Cons.IH [of cn2] by (cases res; cases res') (auto simp: e b a intro: le_trans)
qed simp

lemma request_counter_refresh:
  assumes "center_ok cn"
  shows "request_counter cn q \<le> request_counter (snd (center_refresh_provider cn p query)) q"
  using request_counter_refresh_each [OF assms, of q query "[(p, the (find_provider cn p))]"]
  by (auto simp: center_refresh_provider_def Let_def split: option.split prod.split sum.splits prod.splits)

lemma unregister_provider_counters: "cn_request_counters (snd (unregister_provider_id cn p)) = cn_request_counters cn"
  by (simp add: unregister_provider_id_def unregister_provider_sources_def case_prod_unfold Let_def)

lemma center_step_counter:
  assumes "center_step cn cn'" and "center_ok cn"
  shows "request_counter cn q \<le> request_counter cn' q"
  using assms
proof (cases rule: center_step.cases)
  case (register_source scope src contributions)
  then show ?thesis by (auto simp: center_register_source_def request_counter_def split: prod.split sum.split)
next
  case (register_provider p f)
  then show ?thesis
    by (simp add: register_provider_arc_def request_counter_def case_prod_unfold Let_def unregister_provider_counters)
next
  case (unregister_provider p)
  then show ?thesis by (simp add: request_counter_def unregister_provider_counters)
next
  case (begin_request p query)
  then show ?thesis using request_counter_begin_mono [OF assms(2)] by (simp add: begin_request_def)
next
  case (apply_response p response)
  then show ?thesis
    by (auto simp: apply_provider_response_def dest: request_counter_apply [where q = q] split: option.split prod.split sum.split)
next
  case (refresh_provider p query)
  then show ?thesis using request_counter_refresh [OF assms(2)] by simp
next
  case (refresh_providers query)
  then show ?thesis using request_counter_refresh_each [OF assms(2)] by (simp add: center_refresh_providers_def)
qed (auto simp: request_counter_def center_unregister_source_def center_unregister_scope_def center_record_query_def
    center_previous_query_def center_next_query_def center_reset_query_navigation_def center_dispatch_def
    record_successful_dispatch_def bind_eq_Some_conv case_prod_unfold Let_def split: if_splits)

lemma latest_counter: "center_ok cn \<Longrightarrow> map_of (cn_latest_requests cn) p = Some request \<Longrightarrow>
    \<exists>n. rq_request_id request = Some n \<and> map_of (cn_request_counters cn) p = Some n"
  unfolding center_ok_defs by blast

interpretation requests: request_tracking center_ok center_step request_counter current_request begin_request "2 ^ 64 - 1"
proof
  fix cn cn' :: "'a command_center" and p :: provider_id and query :: str and i
  show "center_ok cn \<Longrightarrow> center_step cn cn' \<Longrightarrow> center_ok cn'" by (rule center_step_ok)
  show "center_ok cn \<Longrightarrow> center_step cn cn' \<Longrightarrow> request_counter cn p \<le> request_counter cn' p" by (rule center_step_counter)
  show "center_step cn (begin_request cn p query)" unfolding begin_request_def by (rule center_step.begin_request)
  show "center_ok cn \<Longrightarrow> current_request cn p = Some i \<Longrightarrow> i = request_counter cn p"
    by (auto simp: current_request_def current_request_id_def request_counter_def dest: latest_counter split: option.splits)
  show "center_ok cn \<Longrightarrow> current_request (begin_request cn p query) p = Some (request_counter (begin_request cn p query) p)"
    by (simp add: current_request_def current_request_id_def request_counter_begin)
      (auto simp: begin_request_def begin_provider_request_def next_provider_request_id_def Let_def center_ok_defs bt_simps)
  show "request_counter (begin_request cn p query) p = Suc (request_counter cn p)"
    if "center_ok cn" "request_counter cn p < 2 ^ 64 - 1"
  proof -
    let ?c = "case map_of (cn_request_counters cn) p of Some c \<Rightarrow> c | None \<Rightarrow> 0"
    have "unat (- 1 :: u64) = 2 ^ 64 - 1" by (simp add: unsigned_minus_1_eq_mask mask_eq_exp_minus_1)
    then have "?c \<noteq> - 1" using that(2) by (auto simp: request_counter_def)
    then have "unat (saturating_succ ?c) = Suc (unat ?c)" by (simp add: saturating_succ_def unat_succ)
    with that(1) show ?thesis by (simp add: request_counter_begin) (simp add: request_counter_def)
  qed
qed

text \<open>So the response to a superseded request is reported stale, and changes nothing.\<close>

lemma current_request_word: "current_request cn p \<noteq> Some (unat i) \<longleftrightarrow> current_request_id cn p \<noteq> Some i"
  by (auto simp: current_request_def word_unat_eq_iff)

lemma stale_rejected:
  assumes "current_request_id cn p \<noteq> Some i" and "rq_request_id request = Some i"
  shows "apply_provider_response_for_request cn p request response =
    (Inr (Stale \<lparr>sl_provider = p, sl_response_request_id = i, sl_current_request_id = current_request_id cn p\<rparr>), cn)"
  using assms
  by (simp add: apply_provider_response_for_request_def apply_provider_response_def for_request_def stale_provider_response_def)

lemma superseded_response_rejected:
  assumes "center_ok cn" and "begin_provider_request cn p query = (request, cn1)" and "center_step\<^sup>*\<^sup>* cn1 cn2"
    and "request_counter cn2 p < 2 ^ 64 - 1" and "begin_provider_request cn2 p query' = (request', cn3)" and "center_step\<^sup>*\<^sup>* cn3 cn4"
  shows "\<exists>stale. apply_provider_response_for_request cn4 p request response = (Inr (Stale stale), cn4)"
proof -
  from assms(2) obtain n where n: "n = saturating_succ (case map_of (cn_request_counters cn) p of Some c \<Rightarrow> c | None \<Rightarrow> 0)"
    "rq_request_id request = Some n"
    by (rule begin_request_fields) simp
  have "request_counter (begin_request cn p query) p = unat n" using assms(1) n(1) by (simp add: request_counter_begin)
  moreover have "cn1 = begin_request cn p query" "cn3 = begin_request cn2 p query'" using assms(2,5) by (simp_all add: begin_request_def)
  ultimately have "current_request cn4 p \<noteq> Some (unat n)"
    using requests.superseded [OF assms(1), of p query cn2 query' cn4] assms(3,4,6) by simp
  then have "current_request_id cn4 p \<noteq> Some n" by (rule current_request_word [THEN iffD1])
  from stale_rejected [OF this n(2), of response] show ?thesis by blast
qed

section \<open>The effect of a response\<close>

text \<open>A response replaces what the provider contributed before, or is refused as a whole.\<close>

lemma apply_response_effect:
  assumes "center_ok cn"
  shows "case apply_provider_response_unchecked cn p response of
      (Inl e, cn') \<Rightarrow> cn' = cn
    | (Inr st, cn') \<Rightarrow> (\<forall>t. in_scope (cn_registry cn') t =
          filter (\<lambda>c. cc_source c \<notin> Some ` set (sources_of_provider cn p)) (in_scope (cn_registry cn) t)
            @ sourced_in (rp_sources response) t) \<and>
        sources_of_provider cn' p = map ps_source (rp_sources response) \<and>
        map_of (cn_provider_statuses cn') p = Some st"
proof (cases "apply_provider_response_unchecked cn p response")
  case (Pair res cn')
  then show ?thesis
  proof (cases rule: apply_unchecked_cases)
    case (failed e)
    with Pair show ?thesis by simp
  next
    case (applied r st)
    have ok: "scoped_ok (cn_registry cn)" using assms by (simp add: center_ok_def)
    from register_provider_sources_Inr [OF unregister_sources_ok [OF ok] applied(1)] assms Pair applied show ?thesis
      by (auto simp: unregister_sources_contributions sources_of_provider_def center_ok_defs bt_simps)
  qed
qed

lemma apply_response_succeeds:
  assumes "center_ok cn"
  shows "(\<exists>st. fst (apply_provider_response_unchecked cn p response) = Inr st) \<longleftrightarrow>
    fresh_ids (snd (unregister_sources (cn_registry cn) (sources_of_provider cn p))) (rp_sources response)"
proof -
  have ok: "scoped_ok (snd (unregister_sources (cn_registry cn) (sources_of_provider cn p)))"
    using assms by (simp add: center_ok_def unregister_sources_ok)
  show ?thesis
    by (simp add: register_provider_sources_succeeds [OF ok, symmetric] apply_provider_response_unchecked_def case_prod_unfold Let_def
        split: sum.split)
qed

text \<open>Unregistering a provider takes its commands away again.\<close>

lemma unregister_provider_effect:
  "in_scope (cn_registry (snd (unregister_provider_id cn p))) t =
     filter (\<lambda>c. cc_source c \<notin> Some ` set (sources_of_provider cn p)) (in_scope (cn_registry cn) t)"
  by (simp add: unregister_provider_id_def unregister_provider_sources_def sources_of_provider_def case_prod_unfold Let_def
      unregister_sources_contributions)

lemma sourced_source: "s \<noteq> [] \<Longrightarrow> c \<in> set (sourced_contributions s cs) \<Longrightarrow> cc_source c = Some s"
  by (auto simp: sourced_contributions_def contribution_source_def)

lemma apply_then_unregister:
  assumes "center_ok cn" and "apply_provider_response_unchecked cn p response = (Inr st, cn')"
    and "\<forall>s \<in> set (rp_sources response). ps_source s \<noteq> [] \<and> (\<forall>t. \<forall>c \<in> set (in_scope (cn_registry cn) t). cc_source c \<noteq> Some (ps_source s))"
  shows "in_scope (cn_registry (snd (unregister_provider_id cn' p))) t =
    filter (\<lambda>c. cc_source c \<notin> Some ` set (sources_of_provider cn p)) (in_scope (cn_registry cn) t)"
proof -
  let ?old = "filter (\<lambda>c. cc_source c \<notin> Some ` set (sources_of_provider cn p)) (in_scope (cn_registry cn) t)"
  from apply_response_effect [OF assms(1), of p response] assms(2) have
    after: "in_scope (cn_registry cn') t = ?old @ sourced_in (rp_sources response) t"
      "sources_of_provider cn' p = map ps_source (rp_sources response)" by simp_all
  have "filter (\<lambda>c. cc_source c \<notin> Some ` set (map ps_source (rp_sources response))) ?old = ?old"
    using assms(3) by (intro filter_True) auto
  moreover have "filter (\<lambda>c. cc_source c \<notin> Some ` set (map ps_source (rp_sources response))) (sourced_in (rp_sources response) t) = []"
    using assms(3) sourced_source by (fastforce simp: filter_empty_conv sourced_in_def sourced_def)
  ultimately show ?thesis unfolding unregister_provider_effect after by simp
qed

section \<open>Snapshots and dispatch\<close>

abbreviation active_scopes_of :: "'d command_center \<Rightarrow> scope_id list" where
  "active_scopes_of cn \<equiv> if cs_scopes (cn_context cn) = [] then sr_order (cn_registry cn) else cs_scopes (cn_context cn)"

definition active_commands :: "'d command_center \<Rightarrow> command_contribution list" where
  "active_commands cn = overridden (active_contributions (cn_registry cn) (active_scopes_of cn))"

lemma scope_projection_eq:
  obtains ds where "center_scope_projection cn =
    Some \<lparr>sp_snapshot = snapshot_new (sr_revision (cn_registry cn)) (active_commands cn), sp_diagnostics = ds\<rparr>"
proof -
  obtain ds where "project_active_scopes (cn_registry cn) (active_scopes_of cn) =
      Some \<lparr>sp_snapshot = snapshot_new (sr_revision (cn_registry cn)) (active_commands cn), sp_diagnostics = ds\<rparr>"
    unfolding active_commands_def by (rule project_active_scopes_snapshot)
  then show ?thesis by (intro that) (simp add: center_scope_projection_def project_all_scopes_def split: if_splits)
qed

lemma active_commands_distinct: "distinct (map cc_id (active_commands cn))"
  by (simp add: active_commands_def overridden_ids)

lemma center_snapshot_eq:
  "center_snapshot cn = Some (snapshot_new (sr_revision (cn_registry cn))
     (sort_key (score_deficit (cn_history cn)) (List.map_filter (project_availability (center_resolver cn)) (active_commands cn))))"
proof (rule scope_projection_eq [of cn])
  fix ds
  assume "center_scope_projection cn =
    Some \<lparr>sp_snapshot = snapshot_new (sr_revision (cn_registry cn)) (active_commands cn), sp_diagnostics = ds\<rparr>"
  then show ?thesis by (simp add: center_snapshot_def rank_is_sort with_availability_def snapshot_new_def)
qed

lemma find_distinct_key: "distinct (map cc_id cs) \<Longrightarrow> c \<in> set cs \<Longrightarrow> find (\<lambda>c'. cc_id c' = cc_id c) cs = Some c"
  by (induction cs) auto

text \<open>What the snapshot shows of a command is what its dispatch does.\<close>

lemma dispatch_eq:
  "center_dispatch cn i query =
     (let (outcome, sent) = dispatch_available_command (cn_actions cn) i
        (snapshot_new (sr_revision (cn_registry cn)) (active_commands cn)) (center_resolver cn) in
      Some ((outcome, sent), record_successful_dispatch cn outcome i query))"
proof (rule scope_projection_eq [of cn])
  fix ds
  assume "center_scope_projection cn =
    Some \<lparr>sp_snapshot = snapshot_new (sr_revision (cn_registry cn)) (active_commands cn), sp_diagnostics = ds\<rparr>"
  then show ?thesis by (simp add: center_dispatch_def)
qed

lemma snapshot_members:
  assumes "center_snapshot cn = Some s"
  shows "c \<in> set (rs_contributions s) \<longleftrightarrow> (\<exists>c0 \<in> set (active_commands cn). project_availability (center_resolver cn) c0 = Some c)"
proof -
  have "s = snapshot_new (sr_revision (cn_registry cn))
     (sort_key (score_deficit (cn_history cn)) (List.map_filter (project_availability (center_resolver cn)) (active_commands cn)))"
    using assms by (simp add: center_snapshot_eq)
  moreover have "c \<in> set (List.map_filter f cs) \<longleftrightarrow> (\<exists>c0 \<in> set cs. f c0 = Some c)" for f :: "command_contribution \<Rightarrow> _" and cs
    by (induction cs) (auto simp: map_filter_simps split: option.split)
  ultimately show ?thesis by (simp add: snapshot_new_def)
qed

lemma active_descriptor:
  "c0 \<in> set (active_commands cn) \<Longrightarrow> snapshot_descriptor (snapshot_new v (active_commands cn)) (cc_id c0) = Some (cc_descriptor c0)"
  by (simp add: snapshot_descriptor_def snapshot_contribution_def snapshot_new_def find_distinct_key active_commands_distinct)

lemma shown_is_dispatched:
  assumes "center_snapshot cn = Some s" and "c \<in> set (rs_contributions s)" and "center_dispatch cn (cc_id c) query = Some ((outcome, sent), cn')"
  shows "if cd_disabled (cc_descriptor c)
    then \<exists>r. outcome = DisabledOutcome r \<and> cd_disabled_reason (cc_descriptor c) = opt_filter (\<lambda>s. s \<noteq> []) r \<and> sent = [] \<and> cn' = cn
    else case action_for_command (cn_actions cn) (cc_id c) of
        Some a \<Rightarrow> outcome = Dispatched \<and> sent = [ca_action a] \<and> cn' = cn\<lparr>cn_history := record_usage (cn_history cn) (cc_id c) query\<rparr>
      | None \<Rightarrow> outcome = MissingActionBinding \<and> sent = [] \<and> cn' = cn"
proof -
  from assms(2) obtain c0 where c0: "c0 \<in> set (active_commands cn)" "project_availability (center_resolver cn) c0 = Some c"
    by (auto simp: snapshot_members [OF assms(1)])
  from project_availability_id [OF c0(2)] have i: "cc_id c = cc_id c0" .
  note dispatch = assms(3) [unfolded dispatch_eq dispatch_available_command_def i active_descriptor [OF c0(1)]]
  show ?thesis
  proof (cases "command_effective_availability (cc_descriptor c0) (center_resolver cn)")
    case Available
    with c0(2) have "c = c0" "\<not> cd_disabled (cc_descriptor c0)"
      by (auto simp: project_availability_eq command_effective_availability_def Let_def split: if_splits)
    with dispatch Available show ?thesis
      by (auto simp: dispatch_command_def record_successful_dispatch_def split: option.splits)
  next
    case (Disabled r)
    with c0(2) have "cd_disabled (cc_descriptor c)" "cd_disabled_reason (cc_descriptor c) = opt_filter (\<lambda>s. s \<noteq> []) r"
      by (auto simp: project_availability_eq)
    with dispatch Disabled show ?thesis by (auto simp: record_successful_dispatch_def)
  next
    case Hidden
    with c0(2) show ?thesis by (simp add: project_availability_eq)
  qed
qed

lemma not_shown_not_dispatched:
  assumes "center_snapshot cn = Some s" and "i \<notin> cc_id ` set (rs_contributions s)"
  shows "\<exists>outcome. center_dispatch cn i query = Some ((outcome, []), cn) \<and> (outcome = MissingCommand \<or> outcome = HiddenOutcome)"
proof (cases "\<exists>c0 \<in> set (active_commands cn). cc_id c0 = i")
  case True
  then obtain c0 where c0: "c0 \<in> set (active_commands cn)" "cc_id c0 = i" by blast
  have "command_effective_availability (cc_descriptor c0) (center_resolver cn) = Hidden"
  proof (rule ccontr)
    assume "command_effective_availability (cc_descriptor c0) (center_resolver cn) \<noteq> Hidden"
    then obtain c where c: "project_availability (center_resolver cn) c0 = Some c"
      by (cases "command_effective_availability (cc_descriptor c0) (center_resolver cn)") (simp_all add: project_availability_eq)
    then have "c \<in> set (rs_contributions s)" using c0(1) by (auto simp: snapshot_members [OF assms(1)])
    with assms(2) project_availability_id [OF c] c0(2) show False by auto
  qed
  then show ?thesis
    using active_descriptor [OF c0(1)] c0(2) by (simp add: dispatch_eq dispatch_available_command_def record_successful_dispatch_def)
next
  case False
  then have "find (\<lambda>c. cc_id c = i) (active_commands cn) = None" by (auto simp: find_None_iff)
  then show ?thesis
    by (simp add: dispatch_eq dispatch_available_command_def record_successful_dispatch_def snapshot_descriptor_def
        snapshot_contribution_def snapshot_new_def)
qed

end
