(* ===== verification/Command_Properties.thy ===== *)
theory Command_Properties
  imports Command_Center_Laws
begin

text \<open>The properties of \<open>crates/open-gpui-command\<close>, with a sample center for the witnesses.\<close>

definition sample_center :: "unit command_center" where
  "sample_center = center_register_action
     (snd (center_register_source (center_new (lit ''1'')) (lit ''app'') (lit ''core'')
       [contribution_new (descriptor_new (lit ''file.open'') (lit ''Open''))]))
     (lit ''file.open'') (AppAction 1 (lit ''app::Open'') ())"

section \<open>Scopes and menus\<close>

text \<open>C26: the projection of active scopes never panics; it holds each command id once, in the order of its first contribution,
  with its last one, and reports one diagnostic for every contribution that was replaced.\<close>

theorem projection_overrides:
  "no_panic (project_active_scopes r ss) (\<lambda>p.
     sp_snapshot p = snapshot_new (sr_revision r) (overridden (active_contributions r ss)) \<and>
     (\<forall>i. length (filter (\<lambda>d. pd_command_id d = i) (sp_diagnostics p)) =
        length (filter (\<lambda>c. cc_id c = i) (active_contributions r ss)) - 1))"
  by (rule project_active_scopes_spec)

text \<open>building a menu never panics; no submenu is empty or doubled, and at every path stand exactly the commands with that
  menu path, in snapshot order.\<close>

theorem menu_holds_commands:
  "no_panic (menu_from_snapshot s) (\<lambda>m. mt_revision m = rs_revision s \<and> menu_ok (mt_entries m) \<and>
     (\<forall>q. commands_at (mt_entries m) q = map menu_command_of (filter (\<lambda>d. cd_menu_path d = q) (snapshot_descriptors s))))"
proof -
  have "menu_ok []" by (simp add: menu_ok_def)
  from insert_descriptors_spec [OF this, of "snapshot_descriptors s"] show ?thesis
    by (auto simp: menu_from_snapshot_def no_panic_def)
qed

section \<open>History and search\<close>

text \<open>Pressing "previous" several times.\<close>

fun previous_queries :: "nat \<Rightarrow> command_history \<Rightarrow> str \<Rightarrow> (str option list \<times> command_history) panics" where
  "previous_queries 0 h pre = Some ([], h)"
| "previous_queries (Suc n) h pre = do {
     (qs, h1) \<leftarrow> previous_queries n h pre; (q, h2) \<leftarrow> previous_query h1 pre; Some (qs @ [q], h2) }"

lemma previous_queries_at:
  assumes "mh_cursor h = None" and "n < length (matching_queries h pre)"
  shows "previous_queries (Suc n) h pre =
    Some (map Some (take (Suc n) (rev (matching_queries h pre))), move_to h pre (length (matching_queries h pre) - Suc n))"
  using assms(2)
proof (induction n)
  case 0
  then have "matching_queries h pre \<noteq> []" by auto
  with previous_first [OF this assms(1)] show ?case by (cases "matching_queries h pre" rule: rev_cases) auto
next
  case (Suc n)
  let ?m = "matching_queries h pre"
  have "at_match (move_to h pre (length ?m - Suc n)) pre (length ?m - Suc n)" using Suc.prems by simp
  from previous_at [OF this] have "previous_query (move_to h pre (length ?m - Suc n)) pre =
      Some (Some (rev ?m ! Suc n), move_to h pre (length ?m - Suc (Suc n)))"
    using Suc.prems by (simp add: rev_nth)
  with Suc show ?case by (simp add: take_Suc_conv_app_nth del: previous_queries.simps(2)) (simp add: take_Suc_conv_app_nth)
qed

text \<open>with no navigation under way, \<open>n + 1\<close> steps back visit the \<open>n + 1\<close> newest recorded queries that match the prefix,
  newest first, and one step forward from there returns to the query visited before the last.\<close>

theorem query_navigation_walk:
  assumes "mh_cursor h = None" and "n < length (matching_queries h pre)"
  shows "\<exists>h'. previous_queries (Suc n) h pre = Some (map Some (take (Suc n) (rev (matching_queries h pre))), h') \<and>
    (0 < n \<longrightarrow> (\<exists>h''. next_query h' pre = Some (Some (rev (matching_queries h pre) ! (n - 1)), h'')))"
proof -
  let ?m = "matching_queries h pre"
  let ?h = "move_to h pre (length ?m - Suc n)"
  have "next_query ?h pre = Some (Some (rev ?m ! (n - 1)), move_to h pre (length ?m - n))" if "0 < n"
  proof -
    have "at_match ?h pre (length ?m - Suc n)" using assms(2) by simp
    from next_at [OF this] that assms(2) show ?thesis by (simp add: rev_nth Suc_diff_Suc)
  qed
  with previous_queries_at [OF assms] show ?thesis by blast
qed

definition sample_history :: command_history where
  "sample_history = record_query (record_query (record_query (history_new 8) (lit ''open'')) (lit ''save'')) (lit ''oval'')"

lemma sample_history_eq: "mh_queries sample_history = [lit ''open'', lit ''save'', lit ''oval'']" "mh_cursor sample_history = None"
  by (simp_all add: sample_history_def record_query_def history_new_def lit_def)

theorem query_navigation_walk_witness:
  "\<exists>h'. previous_queries 2 sample_history (lit ''o'') = Some ([Some (lit ''oval''), Some (lit ''open'')], h') \<and>
    (\<exists>h''. next_query h' (lit ''o'') = Some (Some (lit ''oval''), h''))"
  using query_navigation_walk [of sample_history 1 "lit ''o''"]
  by (simp add: sample_history_eq matching_queries_def query_matches_def lit_def numeral_2_eq_2 del: previous_queries.simps)

text \<open>C32: for queries of up to 2547 characters the search of a center never panics: it shows the commands of the snapshot that
  the query is a subsequence of, by label, id, shortcut or keyword, the best score first, then the most used, then in snapshot
  order.\<close>

theorem search_is_ranked_filter:
  assumes "query \<noteq> []" and "length query \<le> 2547"
  shows "\<exists>s. center_snapshot cn = Some s \<and> search_snapshot cn query = Some (snapshot_new (rs_revision s)
    (sort_key (result_key (cn_history cn) query (length (mh_entries (cn_history cn))))
      (filter (\<lambda>c. command_matches query (cc_descriptor c)) (rs_contributions s))))"
  using center_snapshot_eq [of cn] by (auto simp: search_snapshot_def search_rank_spec [OF assms])

theorem search_is_ranked_filter_witness:
  "\<exists>s. center_snapshot sample_center = Some s \<and> search_snapshot sample_center (lit ''open'') = Some (snapshot_new (rs_revision s)
    (sort_key (result_key (cn_history sample_center) (lit ''open'') (length (mh_entries (cn_history sample_center))))
      (filter (\<lambda>c. command_matches (lit ''open'') (cc_descriptor c)) (rs_contributions s))))"
  by (rule search_is_ranked_filter) (simp_all add: lit_def)

lemma split_words_alnum: "\<forall>c \<in> set s. is_ascii_alphanumeric c \<Longrightarrow> split_words s = [s]"
  by (induction s) simp_all

lemma contains_first: "c \<notin> set s \<Longrightarrow> \<not> contains_str s (c # p)"
  by (induction s) auto

lemma gap_score:
  assumes "16 + 24 * Suc m < 2 ^ 16"
  shows "\<exists>r. fuzzy_subsequence_score (98 # 99 # replicate (Suc (Suc m)) 97) (98 # replicate (Suc (Suc m)) 97) = Some r \<and>
    unat r = 16 + 24 * Suc m"
proof -
  have start: "fuzzy_subsequence_score (98 # 99 # 97 # xs) (98 # 97 # 97 # ys) = fuzzy_loop (Suc 2) xs 97 ys (Some 2) 16" for xs ys
    by (simp add: fuzzy_subsequence_score_def saturating_add_def flip: numeral_2_eq_2 numeral_3_eq_3)
  have "replicate (Suc (Suc m)) 97 = (97 :: nat) # replicate (Suc m) 97" "replicate (Suc (Suc m)) 97 = (97 :: nat) # 97 # replicate m 97"
    by simp_all
  with start [of "replicate (Suc m) 97" "replicate m 97"] fuzzy_run [of 16 m 2 97] assms show ?thesis by simp
qed

lemma gap_not_contained:
  "\<not> starts_with (98 # 99 # xs) (98 # replicate (Suc n) 97)"
  "98 \<notin> set xs \<Longrightarrow> \<not> contains_str (98 # 99 # xs) (98 # replicate (Suc n) 97)"
  using contains_first [of 98 xs "replicate (Suc n) 97"] by simp_all

text \<open>one character more and the score does overflow its \<open>u16\<close>: searching for a \<open>b\<close> and 2547 times \<open>a\<close> in the same
  text with a \<open>c\<close> after the \<open>b\<close> panics in a build with overflow checks.\<close>

theorem search_score_overflows: "command_search_score (descriptor_new i long_label) long_query = None"
proof -
  have long: "long_query = 98 # replicate (Suc (Suc 2545)) 97" "long_label = 98 # 99 # replicate (Suc (Suc 2545)) 97"
    by (simp_all add: long_query_def long_label_def)
  have norm: "normalize_command_text long_query = long_query" "normalize_command_text long_label = long_label"
    by (rule normalize_lower_letters, simp add: long_query_def long_label_def)+
  from gap_score [of 2545] obtain r where r: "fuzzy_subsequence_score long_label long_query = Some r" "unat r = 61120"
    by (auto simp: long)
  have "length long_label \<noteq> length long_query" by (simp add: long_label_def long_query_def)
  then have differ: "long_label \<noteq> long_query" by auto
  have other: "\<not> starts_with long_label long_query" "\<not> contains_str long_label long_query"
    unfolding long by (rule gap_not_contained(1), rule gap_not_contained(2)) simp
  have "split_words long_label = [long_label]" by (rule split_words_alnum) (simp add: long_label_def is_ascii_alphanumeric_def)
  with differ other r norm have score: "command_text_score long_label long_query = Some (Some (420 + r))"
    by (simp add: command_text_score_def add_or_panic_def Let_def) (simp add: long)
  have "unat (420 + r) = 61540" using r(2) by (simp add: unat_word_ariths)
  then have "add_or_panic (4000 :: u16) (420 + r) = None" by (simp add: add_or_panic_def)
  then show ?thesis
    using score norm by (simp add: command_search_score_def search_texts_def descriptor_new_def Let_def) (simp add: long)
qed

section \<open>Key bindings\<close>

text \<open>C27: every registered binding is projected or diagnosed; the reported conflicts are exactly the key sequences and contexts
  for which bindings of the context or of no context name different commands, each with all those bindings in registration order,
  and they come ordered by key sequence and context without repetition.\<close>

theorem conflicts_are_contested:
  "let p = project_key_bindings env entries actions; bs = valid_bindings env actions entries in
   length (bp_key_bindings p) + length (bp_diagnostics p) = length entries \<and>
   set (bp_conflicts p) = {conflict_of bs k c | k c. contested bs k c \<and> (\<exists>b \<in> set bs. pb_keystrokes b = k \<and> pb_context b = c)} \<and>
   sorted_wrt (<) (map (\<lambda>x. (bc_keystrokes x, bc_context x)) (bp_conflicts p))"
  using projection_counts [of env entries actions] conflicts_exact [OF valid_bindings_ascending [of env actions entries]]
  unfolding Let_def project_key_bindings_spec by simp

text \<open>a patch changes the bindings of its own source only, and none at all when its target is missing; registering a source
  replaces its bindings and leaves the others.\<close>

theorem patch_changes_one_source:
  "(if src = patch_source p \<and> fst (apply_to_entries p entries) \<noteq> TargetMissing then True
    else entries_of src (snd (apply_to_entries p entries)) = entries_of src entries) \<and>
   entries_of src (snd (register_key_source entries src' bs)) = (if src = src' then bs else entries_of src entries)"
  using patch_other_sources [of src p entries] patch_missing_unchanged [of p entries] by (auto simp: entries_of_register)

text \<open>C21: a command that the center resolves from typed keys is in exactly the state that dispatching it will report: it is
  dispatched if and only if it is shown as dispatchable.\<close>

theorem resolution_predicts_dispatch:
  assumes "center_resolve_key_input os data_eq cn input km = Some r" and "c \<in> set (kr_matched_commands r) \<union> set (kr_pending_commands r)"
  shows "\<exists>sent cn'. center_dispatch cn (rc_command_id c) query = Some ((outcome_of (rc_state c), sent), cn')"
proof (rule scope_projection_eq [of cn])
  fix ds
  let ?registry = "snapshot_new (sr_revision (cn_registry cn)) (active_commands cn)"
  assume "center_scope_projection cn = Some \<lparr>sp_snapshot = ?registry, sp_diagnostics = ds\<rparr>"
  then have r: "r = resolve_keymap_input os data_eq (cn_actions cn) ?registry (center_resolver cn) km (cs_key_contexts (cn_context cn)) input"
    using assms(1) by (simp add: center_resolve_key_input_def)
  have kept: "c \<in> set (keep_unseen seen cs) \<Longrightarrow> c \<in> set cs" for seen cs
    by (induction cs arbitrary: seen) (auto split: if_splits)
  have found: "c \<in> set (List.map_filter f bs) \<Longrightarrow> \<exists>b \<in> set bs. f b = Some c" for f :: "'a key_binding \<Rightarrow> _" and bs
    by (induction bs) (auto simp: map_filter_simps split: option.splits)
  from assms(2) obtain b where "resolve_binding os data_eq (cn_actions cn) ?registry (center_resolver cn) b = Some c"
    by (auto simp: r resolve_keymap_input_def command_keymap_pending_commands_def case_prod_unfold Let_def dest!: found kept)
  from resolved_outcome [OF this] show ?thesis
    by (auto simp: dispatch_eq Let_def split: prod.split)
qed

definition o_key :: keystroke where
  "o_key = \<lparr>ks_modifiers = no_modifiers, ks_key = lit ''o'', ks_key_char = None\<rparr>"

definition sample_keymap :: "unit keymap" where
  "sample_keymap = keymap_new [\<lparr>kb_action = AppAction 1 (lit ''app::Open'') (), kb_keystrokes = [o_key], kb_predicate = None,
     kb_meta = None, kb_action_input = None\<rparr>]"

definition sample_resolution :: keymap_resolution where
  "sample_resolution = \<lparr>kr_input = [lit ''o''],
     kr_matched_commands = [\<lparr>rc_command_id = lit ''file.open'', rc_shortcut = lit ''O'', rc_state = Dispatchable\<rparr>],
     kr_pending = False, kr_pending_commands = []\<rparr>"

lemma sample_resolves: "center_resolve_key_input Linux (=) sample_center [o_key] sample_keymap = Some sample_resolution"
  by code_simp

theorem resolution_predicts_dispatch_witness:
  "\<exists>sent cn'. center_dispatch sample_center (lit ''file.open'') (lit ''op'') = Some ((Dispatched, sent), cn')"
  using resolution_predicts_dispatch [OF sample_resolves, of
      "\<lparr>rc_command_id = lit ''file.open'', rc_shortcut = lit ''O'', rc_state = Dispatchable\<rparr>" "lit ''op''"]
  by (simp add: sample_resolution_def)

text \<open>C31: a shortcut that the keymap snapshot shows for a command is the label of a binding for an action registered for the
  command, and typing that binding's keys dispatches an equal action before any other; the shortcut of the command's own descriptor
  is shown only when no binding listed for an action of the command is typed to its action first.\<close>

theorem shown_shortcut_works:
  assumes "keymap_ok km" and "snapshot_for_keymap os data_eq cn km = Some s" and "c \<in> set (rs_contributions s)"
    and "cd_shortcut (cc_descriptor c) = Some label"
  shows "(\<exists>a \<in> set (cn_actions cn). ca_command_id a = cc_id c \<and> (\<exists>b \<in> set (km_bindings km). command_shortcut_label os b = label \<and>
       partial_eq data_eq (kb_action b) (ca_action a) \<and> typed_first data_eq km (cs_key_contexts (cn_context cn)) b)) \<or>
    (\<exists>c0 \<in> set (active_commands cn). cc_id c0 = cc_id c \<and> cd_shortcut (cc_descriptor c0) = Some label) \<and>
    (\<forall>a \<in> set (cn_actions cn). ca_command_id a = cc_id c \<longrightarrow>
       (\<exists>bs. bindings_for_action data_eq km (ca_action a) = Some bs \<and>
         (\<forall>b \<in> set bs. \<not> typed_first data_eq km (cs_key_contexts (cn_context cn)) b)))"
proof (rule scope_projection_eq [of cn])
  fix ds
  let ?registry = "with_availability (snapshot_new (sr_revision (cn_registry cn)) (active_commands cn)) (center_resolver cn)"
  assume "center_scope_projection cn =
    Some \<lparr>sp_snapshot = snapshot_new (sr_revision (cn_registry cn)) (active_commands cn), sp_diagnostics = ds\<rparr>"
  with assms(2) obtain shown where
    shown: "registry_snapshot_with_keymap_shortcuts_in_context os data_eq (cn_actions cn) ?registry km (cs_key_contexts (cn_context cn)) = Some shown"
    and s: "s = rank_registry_snapshot (cn_history cn) shown"
    by (auto simp: snapshot_for_keymap_def bind_eq_Some_conv)
  have c: "c \<in> set (rs_contributions shown)" using assms(3) by (simp add: s rank_is_sort snapshot_new_def)
  have own: "\<exists>c0 \<in> set (active_commands cn). cc_id c0 = cc_id c \<and> cd_shortcut (cc_descriptor c0) = Some label"
    if "c \<in> set (rs_contributions ?registry)"
  proof -
    have found: "c \<in> set (List.map_filter f cs) \<Longrightarrow> \<exists>c0 \<in> set cs. f c0 = Some c" for f :: "command_contribution \<Rightarrow> _" and cs
      by (induction cs) (auto simp: map_filter_simps split: option.splits)
    from that obtain c0 where "c0 \<in> set (active_commands cn)" "project_availability (center_resolver cn) c0 = Some c"
      by (auto simp: with_availability_def snapshot_new_def dest!: found)
    with assms(4) show ?thesis by (auto simp: project_availability_eq split: command_availability.splits)
  qed
  from shown_shortcut_dispatches [OF assms(1) shown c assms(4)] own show ?thesis by blast
qed

theorem shown_shortcut_works_witness:
  "let c = contribution_source (contribution_new (with_shortcut (descriptor_new (lit ''file.open'') (lit ''Open'')) (lit ''O''))) (lit ''core'') in
   (\<exists>a \<in> set (cn_actions sample_center). ca_command_id a = cc_id c \<and> (\<exists>b \<in> set (km_bindings sample_keymap).
       command_shortcut_label Linux b = lit ''O'' \<and> partial_eq (=) (kb_action b) (ca_action a) \<and>
       typed_first (=) sample_keymap (cs_key_contexts (cn_context sample_center)) b)) \<or>
   (\<exists>c0 \<in> set (active_commands sample_center). cc_id c0 = cc_id c \<and> cd_shortcut (cc_descriptor c0) = Some (lit ''O'')) \<and>
   (\<forall>a \<in> set (cn_actions sample_center). ca_command_id a = cc_id c \<longrightarrow>
       (\<exists>bs. bindings_for_action (=) sample_keymap (ca_action a) = Some bs \<and>
         (\<forall>b \<in> set bs. \<not> typed_first (=) sample_keymap (cs_key_contexts (cn_context sample_center)) b)))"
  unfolding Let_def
proof (rule shown_shortcut_works)
  let ?c = "contribution_source (contribution_new (with_shortcut (descriptor_new (lit ''file.open'') (lit ''Open'')) (lit ''O''))) (lit ''core'')"
  show "keymap_ok sample_keymap" unfolding sample_keymap_def by (rule keymap_new_ok)
  show "snapshot_for_keymap Linux (=) sample_center sample_keymap = Some (snapshot_new (lit ''1'') [?c])" by code_simp
  show "?c \<in> set (rs_contributions (snapshot_new (lit ''1'') [?c]))" by (simp add: snapshot_new_def)
  show "cd_shortcut (cc_descriptor ?c) = Some (lit ''O'')"
    by (simp add: contribution_source_def contribution_new_def with_shortcut_def lit_def)
qed

section \<open>The command center\<close>

lemma sample_center_reachable: "center_step\<^sup>*\<^sup>* (center_new (lit ''1'')) sample_center"
proof -
  let ?new = "center_new (lit ''1'')"
  let ?core = "snd (center_register_source ?new (lit ''app'') (lit ''core'')
    [contribution_new (descriptor_new (lit ''file.open'') (lit ''Open''))])"
  have "center_step ?new ?core" by (rule center_step.register_source)
  moreover have "center_step ?core sample_center"
    unfolding sample_center_def center_register_action_def by (rule center_step.actions)
  ultimately show ?thesis by (meson rtranclp.intros)
qed

text \<open>C10: whatever a center runs, also through the access it gives to its registry and its history, each scope has each command id once and knows exactly those ids, the history keeps within its
  capacity with distinct queries and rising sequence numbers, provider ids are distinct and not empty, every retained status names
  its provider and counts the sources it applied, and the latest request of a provider carries the value of its counter.\<close>

theorem center_invariant:
  assumes "center_step\<^sup>*\<^sup>* (center_new revision) cn"
  shows "scoped_ok (cn_registry cn) \<and> history_ok (cn_history cn) \<and> requests_ok cn \<and> providers_ok cn"
  using center_steps_ok [OF assms center_ok_new] by (simp add: center_ok_def)

theorem center_invariant_witness:
  "scoped_ok (cn_registry sample_center) \<and> history_ok (cn_history sample_center) \<and> requests_ok sample_center \<and> providers_ok sample_center"
  by (rule center_invariant [OF sample_center_reachable])

text \<open>C12: a response to a provider request that a later request of the provider has superseded is reported stale and changes
  nothing, whatever ran in between, unless the 64-bit counter is exhausted.\<close>

theorem superseded_response_stale:
  assumes "center_step\<^sup>*\<^sup>* (center_new revision) cn" and "begin_provider_request cn p query = (request, cn1)"
    and "center_step\<^sup>*\<^sup>* cn1 cn2" and "request_counter cn2 p < 2 ^ 64 - 1"
    and "begin_provider_request cn2 p query' = (request', cn3)" and "center_step\<^sup>*\<^sup>* cn3 cn4"
  shows "\<exists>stale. apply_provider_response_for_request cn4 p request response = (Inr (Stale stale), cn4)"
  by (rule superseded_response_rejected [OF center_steps_ok [OF assms(1) center_ok_new] assms(2-6)])

definition asked :: "unit command_center" where
  "asked = snd (begin_provider_request (center_new []) (lit ''files'') (lit ''a''))"

theorem superseded_response_stale_witness:
  "\<exists>stale. apply_provider_response_for_request (snd (begin_provider_request asked (lit ''files'') (lit ''ab''))) (lit ''files'')
     (fst (begin_provider_request (center_new [] :: unit command_center) (lit ''files'') (lit ''a''))) response_ready =
   (Inr (Stale stale), snd (begin_provider_request asked (lit ''files'') (lit ''ab'')))"
proof (rule superseded_response_stale)
  show "request_counter asked (lit ''files'') < 2 ^ 64 - 1"
    by (simp add: asked_def request_counter_def begin_provider_request_def next_provider_request_id_def center_new_def bt_insert_def
        saturating_succ_def provider_request_of_def request_new_def Let_def)
  show "begin_provider_request (center_new []) (lit ''files'') (lit ''a'') =
      (fst (begin_provider_request (center_new [] :: unit command_center) (lit ''files'') (lit ''a'')), asked)"
    by (simp add: asked_def)
qed (auto simp: prod_eq_iff)

text \<open>C13: a current response succeeds exactly if none of its commands claims an id that its scope has without the provider's
  previous sources; then every scope holds what it held of others followed by the new commands, marked with their source, and an
  error leaves the center as it was.\<close>

theorem response_replaces_sources:
  assumes "center_step\<^sup>*\<^sup>* (center_new revision) cn"
  shows "case apply_provider_response_unchecked cn p response of
      (Inl e, cn') \<Rightarrow> cn' = cn \<and>
        \<not> fresh_ids (snd (unregister_sources (cn_registry cn) (sources_of_provider cn p))) (rp_sources response)
    | (Inr st, cn') \<Rightarrow> fresh_ids (snd (unregister_sources (cn_registry cn) (sources_of_provider cn p))) (rp_sources response) \<and>
        (\<forall>t. in_scope (cn_registry cn') t =
          filter (\<lambda>c. cc_source c \<notin> Some ` set (sources_of_provider cn p)) (in_scope (cn_registry cn) t)
            @ sourced_in (rp_sources response) t) \<and>
        sources_of_provider cn' p = map ps_source (rp_sources response) \<and> map_of (cn_provider_statuses cn') p = Some st"
proof -
  have ok: "center_ok cn" by (rule center_steps_ok [OF assms center_ok_new])
  from apply_response_effect [OF ok, of p response] apply_response_succeeds [OF ok, of p response] show ?thesis
    by (cases "apply_provider_response_unchecked cn p response") (auto split: sum.split)
qed

definition recent_source :: provider_source where
  "recent_source = \<lparr>ps_scope = lit ''app'', ps_source = lit ''recent'',
     ps_contributions = [contribution_new (descriptor_new (lit ''recent.1'') (lit ''Recent''))]\<rparr>"

definition recent_response :: provider_response where
  "recent_response = response_ready\<lparr>rp_sources := [recent_source]\<rparr>"

theorem response_replaces_sources_witness:
  "case apply_provider_response_unchecked sample_center (lit ''files'') recent_response of
      (Inl e, cn') \<Rightarrow> cn' = sample_center \<and>
        \<not> fresh_ids (snd (unregister_sources (cn_registry sample_center) (sources_of_provider sample_center (lit ''files'')))) (rp_sources recent_response)
    | (Inr st, cn') \<Rightarrow>
        fresh_ids (snd (unregister_sources (cn_registry sample_center) (sources_of_provider sample_center (lit ''files'')))) (rp_sources recent_response) \<and>
        (\<forall>t. in_scope (cn_registry cn') t =
          filter (\<lambda>c. cc_source c \<notin> Some ` set (sources_of_provider sample_center (lit ''files''))) (in_scope (cn_registry sample_center) t)
            @ sourced_in (rp_sources recent_response) t) \<and>
        sources_of_provider cn' (lit ''files'') = map ps_source (rp_sources recent_response) \<and>
        map_of (cn_provider_statuses cn') (lit ''files'') = Some st"
  by (rule response_replaces_sources [OF sample_center_reachable])

text \<open>C34: applying a response of a provider without sources, all of whose source ids are non-empty and carried by no command
  before, and then unregistering the provider takes every scope back to what it held.\<close>

theorem provider_roundtrip:
  assumes "center_step\<^sup>*\<^sup>* (center_new revision) cn" and "sources_of_provider cn p = []"
    and "apply_provider_response_unchecked cn p response = (Inr st, cn')"
    and "\<forall>s \<in> set (rp_sources response). ps_source s \<noteq> [] \<and> (\<forall>t. \<forall>c \<in> set (in_scope (cn_registry cn) t). cc_source c \<noteq> Some (ps_source s))"
  shows "in_scope (cn_registry (snd (unregister_provider_id cn' p))) t = in_scope (cn_registry cn) t"
  using apply_then_unregister [OF center_steps_ok [OF assms(1) center_ok_new] assms(3,4), of t] assms(2) by simp

definition recent_applied :: "(registry_error + provider_status) \<times> unit command_center" where
  "recent_applied = apply_provider_response_unchecked (center_new []) (lit ''files'') recent_response"

theorem provider_roundtrip_witness:
  "in_scope (cn_registry (snd (unregister_provider_id (snd recent_applied) (lit ''files'')))) (lit ''app'') =
     in_scope (cn_registry (center_new [] :: unit command_center)) (lit ''app'')"
proof (rule provider_roundtrip)
  show "center_step\<^sup>*\<^sup>* (center_new []) (center_new [] :: unit command_center)" by (rule rtranclp.rtrancl_refl)
  have "\<not> isl (fst recent_applied)" by code_simp
  then show "apply_provider_response_unchecked (center_new []) (lit ''files'') recent_response =
      (Inr (projr (fst recent_applied)), snd recent_applied)"
    by (auto simp: recent_applied_def prod_eq_iff)
qed (simp_all add: sources_of_provider_def center_new_def recent_source_def recent_response_def response_ready_def scope_or_default_def scope_default_def
    scoped_new_def lit_def)

text \<open>C11: dispatching a command does what the snapshot shows of it: a command not shown is missing or hidden and nothing is sent;
  a disabled one reports the reason shown; an enabled one sends the last action registered for it and is recorded in the history.\<close>

theorem snapshot_predicts_dispatch:
  assumes "center_snapshot cn = Some s" and "center_dispatch cn i query = Some ((outcome, sent), cn')"
  shows "case find (\<lambda>c. cc_id c = i) (rs_contributions s) of
      None \<Rightarrow> (outcome = MissingCommand \<or> outcome = HiddenOutcome) \<and> sent = [] \<and> cn' = cn
    | Some c \<Rightarrow>
        if cd_disabled (cc_descriptor c)
        then \<exists>r. outcome = DisabledOutcome r \<and> cd_disabled_reason (cc_descriptor c) = opt_filter (\<lambda>s. s \<noteq> []) r \<and> sent = [] \<and> cn' = cn
        else case action_for_command (cn_actions cn) i of
            Some a \<Rightarrow> outcome = Dispatched \<and> sent = [ca_action a] \<and> cn' = cn\<lparr>cn_history := record_usage (cn_history cn) i query\<rparr>
          | None \<Rightarrow> outcome = MissingActionBinding \<and> sent = [] \<and> cn' = cn"
proof (cases "find (\<lambda>c. cc_id c = i) (rs_contributions s)")
  case None
  then have "i \<notin> cc_id ` set (rs_contributions s)" by (auto simp: find_None_iff)
  from not_shown_not_dispatched [OF assms(1) this, of query] assms(2) None show ?thesis by auto
next
  case (Some c)
  from found_member [OF Some] have c: "c \<in> set (rs_contributions s)" "cc_id c = i" by simp_all
  from shown_is_dispatched [OF assms(1) c(1), of query outcome sent cn'] assms(2) show ?thesis unfolding Some c(2) by simp
qed

theorem snapshot_predicts_dispatch_witness:
  "let c = contribution_source (contribution_new (descriptor_new (lit ''file.open'') (lit ''Open''))) (lit ''core'') in
   case find (\<lambda>c. cc_id c = lit ''file.open'') [c] of
      None \<Rightarrow> (Dispatched = MissingCommand \<or> Dispatched = HiddenOutcome) \<and>
        [AppAction 1 (lit ''app::Open'') ()] = [] \<and>
        record_successful_dispatch sample_center Dispatched (lit ''file.open'') (lit ''op'') = sample_center
    | Some c \<Rightarrow>
        if cd_disabled (cc_descriptor c)
        then \<exists>r. Dispatched = DisabledOutcome r \<and> cd_disabled_reason (cc_descriptor c) = opt_filter (\<lambda>s. s \<noteq> []) r \<and>
          [AppAction 1 (lit ''app::Open'') ()] = [] \<and>
          record_successful_dispatch sample_center Dispatched (lit ''file.open'') (lit ''op'') = sample_center
        else case action_for_command (cn_actions sample_center) (lit ''file.open'') of
            Some a \<Rightarrow> Dispatched = Dispatched \<and> [AppAction 1 (lit ''app::Open'') ()] = [ca_action a] \<and>
              record_successful_dispatch sample_center Dispatched (lit ''file.open'') (lit ''op'') =
                sample_center\<lparr>cn_history := record_usage (cn_history sample_center) (lit ''file.open'') (lit ''op'')\<rparr>
          | None \<Rightarrow> Dispatched = MissingActionBinding \<and> [AppAction 1 (lit ''app::Open'') ()] = [] \<and>
              record_successful_dispatch sample_center Dispatched (lit ''file.open'') (lit ''op'') = sample_center"
  unfolding Let_def
proof -
  let ?c = "contribution_source (contribution_new (descriptor_new (lit ''file.open'') (lit ''Open''))) (lit ''core'')"
  have s: "center_snapshot sample_center = Some (snapshot_new (lit ''1'') [?c])" by code_simp
  have "dispatch_available_command (cn_actions sample_center) (lit ''file.open'')
      (snapshot_new (sr_revision (cn_registry sample_center)) (active_commands sample_center)) (center_resolver sample_center) =
      (Dispatched, [AppAction 1 (lit ''app::Open'') ()])" by code_simp
  then have d: "center_dispatch sample_center (lit ''file.open'') (lit ''op'') = Some ((Dispatched, [AppAction 1 (lit ''app::Open'') ()]),
      record_successful_dispatch sample_center Dispatched (lit ''file.open'') (lit ''op''))" by (simp add: dispatch_eq)
  show "case find (\<lambda>c. cc_id c = lit ''file.open'') [?c] of
      None \<Rightarrow> (Dispatched = MissingCommand \<or> Dispatched = HiddenOutcome) \<and>
        [AppAction 1 (lit ''app::Open'') ()] = [] \<and>
        record_successful_dispatch sample_center Dispatched (lit ''file.open'') (lit ''op'') = sample_center
    | Some c \<Rightarrow>
        if cd_disabled (cc_descriptor c)
        then \<exists>r. Dispatched = DisabledOutcome r \<and> cd_disabled_reason (cc_descriptor c) = opt_filter (\<lambda>s. s \<noteq> []) r \<and>
          [AppAction 1 (lit ''app::Open'') ()] = [] \<and>
          record_successful_dispatch sample_center Dispatched (lit ''file.open'') (lit ''op'') = sample_center
        else case action_for_command (cn_actions sample_center) (lit ''file.open'') of
            Some a \<Rightarrow> Dispatched = Dispatched \<and> [AppAction 1 (lit ''app::Open'') ()] = [ca_action a] \<and>
              record_successful_dispatch sample_center Dispatched (lit ''file.open'') (lit ''op'') =
                sample_center\<lparr>cn_history := record_usage (cn_history sample_center) (lit ''file.open'') (lit ''op'')\<rparr>
          | None \<Rightarrow> Dispatched = MissingActionBinding \<and> [AppAction 1 (lit ''app::Open'') ()] = [] \<and>
              record_successful_dispatch sample_center Dispatched (lit ''file.open'') (lit ''op'') = sample_center"
    using snapshot_predicts_dispatch [OF s d] by (simp add: snapshot_new_def)
qed

end
