(* ===== verification/Key_Properties.thy ===== *)
theory Key_Properties
  imports Keymap_Laws
begin

text \<open>
  The properties of keystrokes, key contexts and the keymap of \<open>crates/gpui\<close>, and the inputs on which the code departs from
  them.
\<close>

section \<open>Keystrokes\<close>

text \<open>C24: a keystroke that was parsed prints to a text that parses to the same keystroke, on either platform, exactly when it has
  no typed character (the text leaves the typed character out).\<close>

theorem keystroke_roundtrip:
  assumes "keystroke_parse os s = Inr k"
  shows "keystroke_parse os' (keystroke_unparse os' k) = Inr k \<longleftrightarrow> ks_key_char k = None"
proof
  assume "keystroke_parse os' (keystroke_unparse os' k) = Inr k"
  then show "ks_key_char k = None"
    unfolding keystroke_unparse_def by (rule parse_unparse_char [OF keystroke_parse_dash [OF assms]])
next
  assume no_char: "ks_key_char k = None"
  show "keystroke_parse os' (keystroke_unparse os' k) = Inr k"
    using parse_unparse [OF keystroke_parse_canonical [OF assms no_char], of os'] no_char
    by (cases k) (simp add: keystroke_unparse_def)
qed

theorem keystroke_roundtrip_witness:
  "keystroke_parse MacOS (keystroke_unparse MacOS
     \<lparr>ks_modifiers = no_modifiers\<lparr>control := True, shift := True\<rparr>, ks_key = lit ''a'', ks_key_char = None\<rparr>) =
   Inr \<lparr>ks_modifiers = no_modifiers\<lparr>control := True, shift := True\<rparr>, ks_key = lit ''a'', ks_key_char = None\<rparr>"
proof -
  have "keystroke_parse Linux (lit ''ctrl-shift-a'') =
      Inr \<lparr>ks_modifiers = no_modifiers\<lparr>control := True, shift := True\<rparr>, ks_key = lit ''a'', ks_key_char = None\<rparr>"
    by code_simp
  from keystroke_roundtrip [OF this, of MacOS] show ?thesis by simp
qed

text \<open>A trailing dash is read as the key \<open>-\<close>, so an unfinished \<open>a-\<close> is accepted and its \<open>a\<close> is lost.\<close>

lemma dash_swallows_key:
  "keystroke_parse Linux (lit ''a-'') = Inr \<lparr>ks_modifiers = no_modifiers, ks_key = lit ''-'', ks_key_char = None\<rparr>"
  by code_simp

text \<open>The function modifier is not displayed.\<close>

lemma function_modifier_invisible: "keystroke_display os (k\<lparr>ks_modifiers := (ks_modifiers k)\<lparr>func := f\<rparr>\<rparr>) = keystroke_display os k"
  by (simp add: keystroke_display_def display_modifiers_def)

section \<open>Contexts and predicates\<close>

text \<open>C33: \<open>KeyContext::parse\<close> returns exactly on sources of identifier characters, whitespace and \<open>=\<close>; on any other
  character its recursion never ends.\<close>

theorem context_parse_returns: "ctx_parse alnum s \<noteq> None \<longleftrightarrow> (\<forall>c \<in> set s. context_char alnum c)"
  by (rule ctx_parse_ends)

theorem context_parse_returns_witness:
  "ctx_parse is_ascii_alphanumeric (lit ''Editor mode=insert'') \<noteq> None \<and> ctx_parse is_ascii_alphanumeric (lit ''Editor!'') = None"
  using context_parse_returns [of is_ascii_alphanumeric "lit ''Editor mode=insert''"]
    context_parse_returns [of is_ascii_alphanumeric "lit ''Editor!''"]
  by (simp add: lit_def context_char_def is_identifier_char_def is_ascii_alphanumeric_def is_whitespace_def)

text \<open>C25: a predicate whose operators associate to the left and that has no \<open>>\<close> below \<open>&&\<close>, \<open>||\<close> or to the right of
  \<open>>\<close> prints to a text that parses to the same predicate.\<close>

theorem predicate_roundtrip:
  assumes "unicode_alnum alnum" and "printable alnum p"
  shows "predicate_parse alnum (predicate_display p) = Inr p"
  using assms by (rule display_parses)

lemma unicode_alnum_ascii: "unicode_alnum is_ascii_alphanumeric"
  by (auto simp: unicode_alnum_def is_ascii_alphanumeric_def is_whitespace_def)

definition sample_predicate :: predicate where
  "sample_predicate = Descendant (Identifier (lit ''Workspace''))
     (And (Or (Identifier (lit ''Editor'')) (Not (Identifier (lit ''Pane'')))) (Equals (lit ''mode'') (lit ''full'')))"

theorem predicate_roundtrip_witness:
  "predicate_parse is_ascii_alphanumeric (predicate_display sample_predicate) = Inr sample_predicate"
proof (rule predicate_roundtrip)
  show "printable is_ascii_alphanumeric sample_predicate"
    by (simp add: sample_predicate_def identifier_ok_def word_char_def is_identifier_char_def is_ascii_alphanumeric_def lit_def)
qed (rule unicode_alnum_ascii)

text \<open>Outside that form the printer loses the parentheses.\<close>

lemma display_ambiguous:
  "predicate_display (And (Descendant (Identifier a) (Identifier b)) (Identifier c)) =
     predicate_display (Descendant (Identifier a) (And (Identifier b) (Identifier c)))"
  by (simp add: join.simps)

text \<open>a negation-free predicate that \<open>is_superset\<close> accepts holds in every stack of contexts where the other one does.\<close>

theorem superset_holds:
  assumes "negation_free p" and "is_superset p q" and "eval q contexts"
  shows "eval p contexts"
  using superset_sound [OF assms(1,2)] assms(3) by (simp add: eval_def)

abbreviation named_context :: "string \<Rightarrow> key_context" where
  "named_context n \<equiv> [\<lparr>ce_key = lit n, ce_value = None\<rparr>]"

theorem superset_holds_witness: "eval (Identifier (lit ''Editor'')) [named_context ''Pane'', named_context ''Editor'']"
proof (rule superset_holds)
  show "is_superset (Identifier (lit ''Editor'')) (Descendant (Identifier (lit ''Pane'')) (Identifier (lit ''Editor'')))" by simp
  show "eval (Descendant (Identifier (lit ''Pane'')) (Identifier (lit ''Editor''))) [named_context ''Pane'', named_context ''Editor'']"
    by (simp add: eval_def ctx_contains_def upt_rec)
qed simp

text \<open>With a negation it need not: the child of \<open>Pane > !Workspace\<close> is evaluated in the contexts below the pane only.\<close>

lemma superset_unsound_with_negation:
  defines "p \<equiv> Not (Identifier (lit ''Workspace''))"
  defines "q \<equiv> Descendant (Identifier (lit ''Pane'')) p"
  defines "contexts \<equiv> [named_context ''Workspace'', named_context ''Pane'', named_context ''Editor'']"
  shows "is_superset p q \<and> eval q contexts \<and> \<not> eval p contexts"
  by (simp add: p_def q_def contexts_def eval_def ctx_contains_def upt_rec)

text \<open>Contexts as the program builds them.\<close>

inductive built_context :: "(code_point \<Rightarrow> bool) \<Rightarrow> key_context \<Rightarrow> bool" for alnum where
  empty: "built_context alnum []"
| parsed: "ctx_parse alnum s = Some c \<Longrightarrow> built_context alnum c"
| added: "built_context alnum c \<Longrightarrow> built_context alnum (ctx_add c k)"
| assigned: "built_context alnum c \<Longrightarrow> built_context alnum (ctx_set c k v)"
| extended: "built_context alnum c \<Longrightarrow> built_context alnum (ctx_extend c d)"

lemma ctx_contains_set: "ctx_contains c k \<longleftrightarrow> k \<in> ce_key ` set c"
  by (auto simp: ctx_contains_def list_ex_iff)

lemma distinct_keys:
  assumes "distinct (map ce_key c)"
  shows "distinct (map ce_key (ctx_add c k))" "distinct (map ce_key (ctx_set c k v))" "distinct (map ce_key (ctx_extend c d))"
proof -
  show "distinct (map ce_key (ctx_add c k))" "distinct (map ce_key (ctx_set c k v))"
    using assms by (simp_all add: ctx_add_def ctx_set_def ctx_contains_set)
  show "distinct (map ce_key (ctx_extend c d))"
    using assms unfolding ctx_extend_def by (induction d arbitrary: c) (simp_all add: ctx_contains_set)
qed

lemma parsed_distinct_keys:
  assumes "ctx_parse_expr alnum source ctx = Some r" and "distinct (map ce_key ctx)"
  shows "distinct (map ce_key r)"
proof -
  have "distinct (map ce_key ctx) \<longrightarrow> distinct (map ce_key r)"
  proof (rule ctx_parse_expr.raw_induct [where P = "\<lambda>alnum source ctx r. distinct (map ce_key ctx) \<longrightarrow> distinct (map ce_key r)", OF _ assms(1)],
      rule impI)
    fix rec alnum source ctx r
    assume IH: "\<And>alnum source ctx r. rec alnum source ctx = Some r \<Longrightarrow> distinct (map ce_key ctx) \<longrightarrow> distinct (map ce_key r)"
      and body: "(if source = [] then Some ctx
        else let key = takeWhile (is_identifier_char alnum) source; s1 = skip_whitespace (drop (length key) source) in
          if starts_with s1 (lit ''='')
          then let s2 = skip_whitespace (tl s1); v = takeWhile (is_identifier_char alnum) s2;
                   s3 = skip_whitespace (drop (length v) s2) in rec alnum s3 (ctx_set ctx key v)
          else rec alnum s1 (ctx_add ctx key)) = Some (r :: key_context)"
      and ctx: "distinct (map ce_key ctx)"
    show "distinct (map ce_key r)"
      using body ctx by (auto simp: Let_def distinct_keys [OF ctx] split: if_splits dest!: IH)
  qed
  with assms(2) show ?thesis by simp
qed

text \<open>a context built by parsing, adding, setting and extending has each key once, so that \<open>get\<close> finds the entry of a key
  wherever it stands.\<close>

theorem built_context_keys:
  assumes "built_context alnum c"
  shows "distinct (map ce_key c) \<and> (\<forall>e \<in> set c. ctx_contains c (ce_key e) \<and> ctx_get c (ce_key e) = ce_value e)"
proof -
  have keys: "distinct (map ce_key c)"
    using assms
  proof induction
    case (parsed s c)
    then show ?case using parsed_distinct_keys [of alnum "skip_whitespace s" "[]" c] by (simp add: ctx_parse_def)
  qed (simp_all add: distinct_keys)
  then have "find (\<lambda>d. ce_key d = ce_key e) c = Some e" if "e \<in> set c" for e
    using that by (induction c) auto
  with keys show ?thesis by (auto simp: ctx_contains_set ctx_get_def)
qed

theorem built_context_keys_witness:
  "let c = ctx_set (ctx_add [] (lit ''Editor'')) (lit ''mode'') (lit ''full'') in
     distinct (map ce_key c) \<and> (\<forall>e \<in> set c. ctx_contains c (ce_key e) \<and> ctx_get c (ce_key e) = ce_value e)"
  unfolding Let_def
  by (rule built_context_keys [of is_ascii_alphanumeric]) (intro built_context.intros)

section \<open>The keymap\<close>

inductive keymap_step :: "'d keymap \<Rightarrow> 'd keymap \<Rightarrow> bool" where
  add: "keymap_step m (add_bindings bs m)"
| clear: "keymap_step m (keymap_clear m)"

lemma reachable_keymap_ok: "keymap_step\<^sup>*\<^sup>* keymap_default m \<Longrightarrow> keymap_ok m"
proof (induction rule: rtranclp_induct)
  case (step m m')
  from step(2,3) show ?case by (cases rule: keymap_step.cases) (simp_all add: add_bindings_ok keymap_clear_ok)
qed (rule keymap_default_ok)

text \<open>C22: the bindings for an input are the enabled, unmasked matches of the whole input, the deepest context first and within
  a depth the latest first; more input may follow exactly if an unfinished match that no later marker disables stands at or after
  the first of them.\<close>

theorem bindings_by_precedence:
  "bindings_for_input m input contexts =
     (let found = ranked (km_bindings m) contexts (dispatchable (km_bindings m) input contexts) in
      (map (\<lambda>i. km_bindings m ! i) found, \<exists>i. still_pending (km_bindings m) input contexts found i))"
  by (rule bindings_for_input_ranked)

text \<open>C23: in a keymap made by adding and clearing all of whose markers are plain (no negation in the predicate, no \<open>NoAction\<close>
  of a base keymap), each binding that an input dispatches is among those the lookup by its action lists; these are the bindings of
  an equal action that no later marker hides, in the order they were added. The comparison of action data is reflexive.\<close>

theorem dispatched_bindings_displayed:
  assumes "keymap_step\<^sup>*\<^sup>* keymap_default m" and "\<forall>d. data_eq d d" and "\<forall>d \<in> set (km_bindings m). marker d \<longrightarrow> plain_marker d"
    and "b \<in> set (fst (bindings_for_input m input contexts))"
  shows "\<exists>bs. bindings_for_action data_eq m (kb_action b) = Some bs \<and> b \<in> set bs \<and>
    bs = map (\<lambda>i. km_bindings m ! i) (filter (displayed data_eq (km_bindings m) (kb_action b)) [0..<length (km_bindings m)])"
  using dispatched_is_displayed [of m data_eq b input contexts] assms(2-4) reachable_keymap_ok [OF assms(1)]
    bindings_for_action_displayed [OF reachable_keymap_ok [OF assms(1)], of data_eq "kb_action b"]
  by (simp add: no_panic_def)

definition plain_binding :: "unit gpui_action \<Rightarrow> u32 option \<Rightarrow> unit key_binding" where
  "plain_binding a meta =
     \<lparr>kb_action = a, kb_keystrokes = [\<lparr>ks_modifiers = no_modifiers, ks_key = lit ''x'', ks_key_char = None\<rparr>],
      kb_predicate = None, kb_meta = meta, kb_action_input = None\<rparr>"

definition x_key :: keystroke where
  "x_key = \<lparr>ks_modifiers = no_modifiers, ks_key = lit ''x'', ks_key_char = None\<rparr>"

lemma x_key_matches [simp]: "match_keystrokes (plain_binding a meta) [x_key] = Some False"
  by (simp add: match_keystrokes_def plain_binding_def x_key_def should_match_def)

lemma plain_binding_simps [simp]:
  "binding_enabled (plain_binding a meta) contexts = Some (length contexts)"
  "kb_action (plain_binding a meta) = a" "kb_meta (plain_binding a meta) = meta"
  "kb_keystrokes (plain_binding a meta) = [x_key]" "kb_predicate (plain_binding a meta) = None"
  by (simp_all add: binding_enabled_def plain_binding_def x_key_def)

abbreviation cut :: "unit gpui_action" where
  "cut \<equiv> AppAction 1 (lit ''editor::Cut'') ()"

theorem dispatched_bindings_displayed_witness:
  "let m = add_bindings [plain_binding NoAction None, plain_binding cut None] keymap_default in
   \<exists>bs. bindings_for_action (=) m (kb_action (plain_binding cut None)) = Some bs \<and> plain_binding cut None \<in> set bs \<and>
    bs = map (\<lambda>i. km_bindings m ! i)
      (filter (displayed (=) (km_bindings m) (kb_action (plain_binding cut None))) [0..<length (km_bindings m)])"
  unfolding Let_def
proof (rule dispatched_bindings_displayed)
  show "keymap_step\<^sup>*\<^sup>* keymap_default (add_bindings [plain_binding NoAction None, plain_binding cut None] keymap_default)"
    by (intro r_into_rtranclp keymap_step.add)
  show "plain_binding cut None \<in>
      set (fst (bindings_for_input (add_bindings [plain_binding NoAction None, plain_binding cut None] keymap_default) [x_key] []))"
    by (simp add: bindings_for_input_def add_bindings_bindings keymap_default_def sort_by_def by_precedence_def then_with_def
        is_no_action_def is_unbind_def)
  show "\<forall>d \<in> set (km_bindings (add_bindings [plain_binding NoAction None, plain_binding cut None] keymap_default)).
      marker d \<longrightarrow> plain_marker d"
    by (simp add: add_bindings_bindings keymap_default_def marker_def plain_marker_def user_no_action_def is_no_action_def is_unbind_def)
qed simp

text \<open>A \<open>NoAction\<close> of a base keymap hides a binding from the lookup by action, yet the binding is dispatched.\<close>

lemma base_marker_divergence:
  defines "m \<equiv> keymap_new [plain_binding cut None, plain_binding NoAction (Some 1)]"
  shows "fst (bindings_for_input m [x_key] []) = [plain_binding cut None] \<and> bindings_for_action (=) m cut = Some []"
proof
  have bs: "km_bindings m = [plain_binding cut None, plain_binding NoAction (Some 1)]" by (simp add: m_def keymap_new_bindings)
  show "fst (bindings_for_input m [x_key] []) = [plain_binding cut None]"
    by (simp add: bindings_for_input_def bs sort_by_def by_precedence_def then_with_def is_no_action_def is_unbind_def)
  let ?bs = "[plain_binding cut None, plain_binding NoAction (Some 1)]"
  have "hides (?bs ! 1) (?bs ! 0)" by (simp add: hides_def is_no_action_def disabled_binding_matches_context_def)
  then have "\<not> displayed (=) ?bs cut 0" unfolding displayed_def by (metis One_nat_def length_Cons less_Suc0 lessI list.size(3))
  moreover have "\<not> displayed (=) ?bs cut 1" by (simp add: displayed_def marker_def is_no_action_def)
  ultimately have "filter (displayed (=) ?bs cut) [0..<length ?bs] = []" by (simp add: upt_rec)
  moreover have "keymap_ok m" by (simp add: m_def keymap_new_ok)
  ultimately show "bindings_for_action (=) m cut = Some []"
    by (simp only: bindings_for_action_displayed bs) simp
qed

end
