(* ===== verification/Float32.thy ===== *)
theory Float32
  imports Complex_Main Prelude
begin

text \<open>
  The type \<open>f32\<close> of Rust: IEEE 754 binary32 with rounding to nearest, ties to even. A finite value is the rational it
  stands for; the two zeros are one value, which no operation modelled here tells apart (a division by zero counts the zero as
  positive). Below it the normalisation of split fractions (\<open>crates/ui_core/src/split.rs\<close>).
\<close>

section \<open>Rounding\<close>

datatype f32 = NaN | PosInf | NegInf | Fin rat

text \<open>The spacing of the values around \<open>a\<close>: \<open>2 ^ (k - 149)\<close> for the least \<open>k\<close> at which 24 bits reach above \<open>a\<close>.\<close>

definition spacing :: "nat \<Rightarrow> rat" where
  "spacing k = 2 ^ k / 2 ^ 149"

definition spacing_index :: "rat \<Rightarrow> nat option" where
  "spacing_index a = find (\<lambda>k. a < 2 ^ 24 * spacing k) [0..<254]"

definition half_even :: "rat \<Rightarrow> int" where
  "half_even q =
     (let n = \<lfloor>q\<rfloor>; r = q - of_int n in
      if r < 1 / 2 then n else if 1 / 2 < r then n + 1 else if even n then n else n + 1)"

definition round_magnitude :: "rat \<Rightarrow> rat option" where
  "round_magnitude a =
     (case spacing_index a of
        None \<Rightarrow> None
      | Some k \<Rightarrow>
          (let v = of_int (half_even (a / spacing k)) * spacing k in if v < 2 ^ 128 then Some v else None))"

definition f32_round :: "rat \<Rightarrow> f32" where
  "f32_round q =
     (if 0 \<le> q then (case round_magnitude q of Some v \<Rightarrow> Fin v | None \<Rightarrow> PosInf)
      else (case round_magnitude (- q) of Some v \<Rightarrow> Fin (- v) | None \<Rightarrow> NegInf))"

section \<open>Operations\<close>

fun f32_add :: "f32 \<Rightarrow> f32 \<Rightarrow> f32" where
  "f32_add (Fin a) (Fin b) = f32_round (a + b)"
| "f32_add NaN y = NaN"
| "f32_add x NaN = NaN"
| "f32_add PosInf NegInf = NaN"
| "f32_add NegInf PosInf = NaN"
| "f32_add PosInf y = PosInf"
| "f32_add NegInf y = NegInf"
| "f32_add x PosInf = PosInf"
| "f32_add x NegInf = NegInf"

fun f32_neg :: "f32 \<Rightarrow> f32" where
  "f32_neg NaN = NaN"
| "f32_neg PosInf = NegInf"
| "f32_neg NegInf = PosInf"
| "f32_neg (Fin a) = Fin (- a)"

definition f32_sub :: "f32 \<Rightarrow> f32 \<Rightarrow> f32" where
  "f32_sub x y = f32_add x (f32_neg y)"

text \<open>The product of an infinity with a finite value by the sign of the latter.\<close>

definition inf_times :: "bool \<Rightarrow> rat \<Rightarrow> f32" where
  "inf_times positive q = (if q = 0 then NaN else if positive = (0 < q) then PosInf else NegInf)"

fun f32_mul :: "f32 \<Rightarrow> f32 \<Rightarrow> f32" where
  "f32_mul (Fin a) (Fin b) = f32_round (a * b)"
| "f32_mul NaN y = NaN"
| "f32_mul x NaN = NaN"
| "f32_mul (Fin a) PosInf = inf_times True a"
| "f32_mul (Fin a) NegInf = inf_times False a"
| "f32_mul PosInf (Fin b) = inf_times True b"
| "f32_mul NegInf (Fin b) = inf_times False b"
| "f32_mul PosInf PosInf = PosInf"
| "f32_mul PosInf NegInf = NegInf"
| "f32_mul NegInf PosInf = NegInf"
| "f32_mul NegInf NegInf = PosInf"

fun f32_div :: "f32 \<Rightarrow> f32 \<Rightarrow> f32" where
  "f32_div (Fin a) (Fin b) = (if b \<noteq> 0 then f32_round (a / b) else inf_times True a)"
| "f32_div NaN y = NaN"
| "f32_div x NaN = NaN"
| "f32_div (Fin a) PosInf = Fin 0"
| "f32_div (Fin a) NegInf = Fin 0"
| "f32_div PosInf (Fin b) = (if 0 \<le> b then PosInf else NegInf)"
| "f32_div NegInf (Fin b) = (if 0 \<le> b then NegInf else PosInf)"
| "f32_div x y = NaN"

fun f32_abs :: "f32 \<Rightarrow> f32" where
  "f32_abs NaN = NaN"
| "f32_abs PosInf = PosInf"
| "f32_abs NegInf = PosInf"
| "f32_abs (Fin a) = Fin \<bar>a\<bar>"

fun f32_lt :: "f32 \<Rightarrow> f32 \<Rightarrow> bool" where
  "f32_lt (Fin a) (Fin b) \<longleftrightarrow> a < b"
| "f32_lt NaN y \<longleftrightarrow> False"
| "f32_lt x NaN \<longleftrightarrow> False"
| "f32_lt NegInf y \<longleftrightarrow> y \<noteq> NegInf"
| "f32_lt x PosInf \<longleftrightarrow> x \<noteq> PosInf"
| "f32_lt x y \<longleftrightarrow> False"

text \<open>\<open>PartialEq\<close>: a NaN is not equal to itself.\<close>

definition f32_eq :: "f32 \<Rightarrow> f32 \<Rightarrow> bool" where
  "f32_eq x y \<longleftrightarrow> x = y \<and> x \<noteq> NaN"

definition f32_le :: "f32 \<Rightarrow> f32 \<Rightarrow> bool" where
  "f32_le x y \<longleftrightarrow> f32_lt x y \<or> f32_eq x y"

definition f32_is_finite :: "f32 \<Rightarrow> bool" where
  "f32_is_finite x \<longleftrightarrow> (case x of Fin _ \<Rightarrow> True | _ \<Rightarrow> False)"

text \<open>\<open>clamp\<close> with bounds that are in order.\<close>

definition f32_clamp :: "f32 \<Rightarrow> f32 \<Rightarrow> f32 \<Rightarrow> f32" where
  "f32_clamp x lo hi = (if f32_lt x lo then lo else if f32_lt hi x then hi else x)"

definition f32_of_nat :: "nat \<Rightarrow> f32" where
  "f32_of_nat n = f32_round (of_nat n)"

definition f32_sum :: "f32 list \<Rightarrow> f32" where
  "f32_sum xs = foldl f32_add (Fin 0) xs"

section \<open>Split fractions\<close>

definition split_epsilon :: f32 where
  "split_epsilon = f32_round (1 / 10000)"

definition repair_fraction :: "f32 \<Rightarrow> f32" where
  "repair_fraction f = (if \<not> f32_is_finite f \<or> f32_lt f (Fin 0) then Fin 0 else f)"

definition normalize_split_fractions :: "f32 list \<Rightarrow> f32 list" where
  "normalize_split_fractions fractions =
     (let repaired = map repair_fraction fractions;
          sum = f32_sum repaired in
      if \<not> f32_is_finite sum \<or> f32_le sum split_epsilon
      then (let len = max (length repaired) 1 in replicate len (f32_div (Fin 1) (f32_of_nat len)))
      else
        (let scaled = map (\<lambda>f. f32_div f sum) repaired in
         if scaled \<noteq> []
         then (let rest = f32_sum (take (length scaled - 1) scaled) in
               scaled[length scaled - 1 := f32_clamp (f32_sub (Fin 1) rest) (Fin 0) (Fin 1)])
         else scaled))"

section \<open>Facts on rounding\<close>

lemma spacing_pos [simp]: "0 < spacing k"
  by (simp add: spacing_def)

lemma spacing_le: "j \<le> k \<Longrightarrow> spacing j \<le> spacing k"
  by (simp add: spacing_def divide_right_mono)

lemma spacing_index_Some:
  assumes "spacing_index a = Some k"
  shows "k < 254 \<and> a < 2 ^ 24 * spacing k \<and> (\<forall>j < k. 2 ^ 24 * spacing j \<le> a)"
  using assms by (auto simp: spacing_index_def find_Some_iff nth_upt)

lemma spacing_index_None: "spacing_index a = None \<longleftrightarrow> (\<forall>k < 254. 2 ^ 24 * spacing k \<le> a)"
  by (auto simp: spacing_index_def find_None_iff)

lemma half_even_bounds: "\<lfloor>q\<rfloor> \<le> half_even q \<and> half_even q \<le> \<lfloor>q\<rfloor> + 1"
  by (simp add: half_even_def Let_def)

lemma half_even_of_int [simp]: "half_even (of_int n) = n"
  by (simp add: half_even_def)

lemma half_even_mono: "p \<le> q \<Longrightarrow> half_even p \<le> half_even q"
proof (cases "\<lfloor>p\<rfloor> = \<lfloor>q\<rfloor>")
  case True
  assume "p \<le> q"
  then show ?thesis by (simp add: half_even_def Let_def True)
next
  case False
  assume "p \<le> q"
  then have "\<lfloor>p\<rfloor> < \<lfloor>q\<rfloor>" using False floor_mono [of p q] by simp
  then show ?thesis using half_even_bounds [of p] half_even_bounds [of q] by linarith
qed

lemma half_even_0 [simp]: "half_even 0 = 0"
  using half_even_of_int [of 0] by simp

lemma half_even_numeral [simp]: "half_even (numeral n) = numeral n"
  using half_even_of_int [of "numeral n"] by simp

lemma half_even_power [simp]: "half_even (2 ^ n) = 2 ^ n"
  using half_even_of_int [of "2 ^ n"] by simp

lemma half_even_error: "q - 1 / 2 \<le> of_int (half_even q)"
proof -
  have "q < of_int \<lfloor>q\<rfloor> + 1" by linarith
  then show ?thesis by (auto simp: half_even_def Let_def)
qed

lemma spacing_Suc: "spacing (Suc k) = 2 * spacing k"
  by (simp add: spacing_def)

lemma spacing_add: "spacing (j + d) = 2 ^ d * spacing j"
  by (simp add: spacing_def power_add)

lemma round_magnitude_Some:
  assumes "round_magnitude a = Some v"
  obtains k where "spacing_index a = Some k" "v = of_int (half_even (a / spacing k)) * spacing k" "v < 2 ^ 128"
  using assms by (auto simp: round_magnitude_def Let_def split: option.splits if_splits)

text \<open>Above the first binade the quotient has 24 bits.\<close>

lemma half_even_quotient:
  assumes "spacing_index a = Some k" and "0 \<le> a"
  shows "0 \<le> half_even (a / spacing k)" and "half_even (a / spacing k) \<le> 2 ^ 24"
    and "0 < k \<Longrightarrow> 2 ^ 23 \<le> half_even (a / spacing k)"
proof -
  note k = spacing_index_Some [OF assms(1)]
  from assms(2) have "0 \<le> a / spacing k" by (simp add: less_imp_le)
  then show "0 \<le> half_even (a / spacing k)" using half_even_mono [of 0 "a / spacing k"] by simp
  have "a / spacing k \<le> 2 ^ 24" using k by (simp add: pos_divide_le_eq)
  then show "half_even (a / spacing k) \<le> 2 ^ 24" using half_even_mono [of "a / spacing k" "2 ^ 24"] by simp
  assume "0 < k"
  then obtain j where j: "k = Suc j" using gr0_implies_Suc by blast
  then have "2 ^ 24 * spacing j \<le> a" using k by simp
  then have "2 ^ 23 \<le> a / spacing k" by (simp add: j spacing_Suc pos_le_divide_eq)
  then show "2 ^ 23 \<le> half_even (a / spacing k)" using half_even_mono [of "2 ^ 23" "a / spacing k"] by simp
qed

lemma half_even_quotient_rat:
  assumes "spacing_index a = Some k" and "0 \<le> a"
  shows "(of_int (half_even (a / spacing k)) :: rat) \<le> 2 ^ 24"
    and "0 < k \<Longrightarrow> (2 ^ 23 :: rat) \<le> of_int (half_even (a / spacing k))"
proof -
  have "(of_int (half_even (a / spacing k)) :: rat) \<le> of_int (2 ^ 24)"
    by (simp only: of_int_le_iff) (rule half_even_quotient(2) [OF assms])
  then show "(of_int (half_even (a / spacing k)) :: rat) \<le> 2 ^ 24" by simp
  assume "0 < k"
  have "(of_int (2 ^ 23) :: rat) \<le> of_int (half_even (a / spacing k))"
    by (simp only: of_int_le_iff) (rule half_even_quotient(3) [OF assms \<open>0 < k\<close>])
  then show "(2 ^ 23 :: rat) \<le> of_int (half_even (a / spacing k))" by simp
qed

lemma round_magnitude_nonneg: "round_magnitude a = Some v \<Longrightarrow> 0 \<le> a \<Longrightarrow> 0 \<le> v"
  by (erule round_magnitude_Some) (simp add: half_even_quotient(1) less_imp_le)

lemma spacing_index_mono:
  assumes "a \<le> b" and "spacing_index b = Some k"
  obtains j where "spacing_index a = Some j" "j \<le> k"
proof -
  note k = spacing_index_Some [OF assms(2)]
  then have "\<not> 2 ^ 24 * spacing k \<le> a" using assms(1) by linarith
  then obtain j where j: "spacing_index a = Some j" using k spacing_index_None [of a] by (cases "spacing_index a") auto
  then have "j \<le> k" using spacing_index_Some [OF j] k assms(1) by (meson linorder_not_le order_trans)
  with j show thesis by (rule that)
qed

lemma round_magnitude_mono:
  assumes "0 \<le> a" and "a \<le> b" and "round_magnitude b = Some w"
  obtains v where "round_magnitude a = Some v" "v \<le> w"
proof -
  from assms(3) obtain k where k: "spacing_index b = Some k" "w = of_int (half_even (b / spacing k)) * spacing k" "w < 2 ^ 128"
    by (rule round_magnitude_Some)
  from spacing_index_mono [OF assms(2) k(1)] obtain j where j: "spacing_index a = Some j" "j \<le> k" .
  define v where "v = of_int (half_even (a / spacing j)) * spacing j"
  have "v \<le> w"
  proof (cases "j = k")
    case True
    have "a / spacing k \<le> b / spacing k" using assms(2) by (simp add: divide_right_mono less_imp_le)
    then show ?thesis using half_even_mono [of "a / spacing k" "b / spacing k"]
      by (simp add: v_def k(2) True mult_right_mono less_imp_le)
  next
    case False
    with j(2) have less: "j < k" by simp
    then obtain d where d: "k = Suc j + d" using less_iff_Suc_add by auto
    have "v \<le> 2 ^ 24 * spacing j"
      unfolding v_def by (rule mult_right_mono [OF half_even_quotient_rat(1) [OF j(1) assms(1)]]) (simp add: less_imp_le)
    also have "\<dots> \<le> 2 ^ 23 * spacing k"
      using spacing_le [of "Suc j" k] less by (simp add: spacing_Suc)
    also have "\<dots> \<le> w"
      unfolding k(2) using half_even_quotient_rat(2) [OF k(1)] assms(1,2) less
      by (intro mult_right_mono) (auto simp: less_imp_le)
    finally show ?thesis .
  qed
  moreover from this k(3) have "round_magnitude a = Some v" by (simp add: round_magnitude_def j(1) Let_def flip: v_def)
  ultimately show thesis using that by blast
qed

lemma spacing_index_least:
  assumes "k < 254" and "a < 2 ^ 24 * spacing k"
  obtains j where "spacing_index a = Some j" "j \<le> k"
proof -
  obtain j where j: "spacing_index a = Some j" using assms spacing_index_None [of a] by (cases "spacing_index a") auto
  then have "j \<le> k" using spacing_index_Some [OF j] assms by (meson linorder_not_le)
  with j show thesis by (rule that)
qed

text \<open>A multiple of a spacing that is large enough is its own rounding.\<close>

lemma round_magnitude_multiple:
  assumes "k < 254" and "of_int h * spacing k < 2 ^ 24 * spacing k" and "of_int h * spacing k < 2 ^ 128"
  shows "round_magnitude (of_int h * spacing k) = Some (of_int h * spacing k)"
proof -
  from spacing_index_least [OF assms(1,2)] obtain j where j: "spacing_index (of_int h * spacing k) = Some j" "j \<le> k" .
  then obtain d where d: "k = j + d" using le_Suc_ex by blast
  have "of_int h * spacing k / spacing j = of_int (h * 2 ^ d)" by (simp add: d spacing_add less_imp_neq [THEN not_sym])
  then have "half_even (of_int h * spacing k / spacing j) = h * 2 ^ d" by (simp only: half_even_of_int)
  then have "of_int (half_even (of_int h * spacing k / spacing j)) * spacing j = (of_int h * spacing k :: rat)"
    by (simp add: d spacing_add)
  then show ?thesis using assms(3) by (simp add: round_magnitude_def j(1) Let_def)
qed

lemma round_magnitude_idem:
  assumes "round_magnitude a = Some v" and "0 \<le> a"
  shows "round_magnitude v = Some v"
proof -
  from assms(1) obtain k where k: "spacing_index a = Some k" "v = of_int (half_even (a / spacing k)) * spacing k" "v < 2 ^ 128"
    by (rule round_magnitude_Some)
  let ?h = "half_even (a / spacing k)"
  have h: "(of_int ?h :: rat) \<le> 2 ^ 24" by (rule half_even_quotient_rat(1) [OF k(1) assms(2)])
  show ?thesis
  proof (cases "?h = 2 ^ 24")
    case False
    then have "(of_int ?h :: rat) < 2 ^ 24" using h half_even_quotient(2) [OF k(1) assms(2)]
      by (metis antisym_conv2 of_int_eq_iff of_int_numeral of_int_power)
    then show ?thesis
      unfolding k(2) using round_magnitude_multiple [of k ?h] k spacing_index_Some [OF k(1)] by simp
  next
    case True
    then have v: "v = of_int (2 ^ 23) * spacing (Suc k)" by (simp add: k(2) spacing_Suc)
    have "Suc k < 254"
    proof (rule ccontr)
      assume "\<not> Suc k < 254"
      then have "k = 253" using spacing_index_Some [OF k(1)] by simp
      with k(3) show False by (simp add: v spacing_def)
    qed
    then show ?thesis unfolding v using round_magnitude_multiple [of "Suc k" "2 ^ 23"] k(3) v by simp
  qed
qed

lemma round_magnitude_0 [simp]: "round_magnitude 0 = Some 0"
  using round_magnitude_multiple [of 0 0] by simp

lemma round_magnitude_1 [simp]: "round_magnitude 1 = Some 1"
proof -
  have "(1 :: rat) = of_int (2 ^ 23) * spacing 126" by (simp add: spacing_def)
  then show ?thesis using round_magnitude_multiple [of 126 "2 ^ 23"] by (simp add: spacing_def)
qed

section \<open>Normalised fractions\<close>

lemma f32_round_nonneg:
  assumes "0 \<le> q"
  obtains "f32_round q = PosInf" "round_magnitude q = None" | v where "f32_round q = Fin v" "round_magnitude q = Some v" "0 \<le> v"
  using assms round_magnitude_nonneg [OF _ assms] by (cases "round_magnitude q") (auto simp: f32_round_def)

text \<open>A sum of finite values that are not negative is infinite or bounds the rounding of each.\<close>

lemma foldl_add_PosInf: "\<forall>x \<in> set xs. \<exists>q. x = Fin q \<Longrightarrow> foldl f32_add PosInf xs = PosInf"
  by (induction xs) auto

lemma foldl_f32_add:
  assumes "0 \<le> a" and "round_magnitude a = Some a" and "\<forall>x \<in> set xs. \<exists>q \<ge> 0. x = Fin q"
  shows "foldl f32_add (Fin a) xs = PosInf \<or>
    (\<exists>s \<ge> a. foldl f32_add (Fin a) xs = Fin s \<and> (\<forall>q. Fin q \<in> set xs \<longrightarrow> (\<exists>v \<le> s. round_magnitude q = Some v)))"
  using assms
proof (induction xs arbitrary: a)
  case (Cons x xs)
  then obtain q where x: "x = Fin q" "0 \<le> q" by auto
  from Cons.prems(1) x(2) have "0 \<le> a + q" by simp
  then show ?case
  proof (cases rule: f32_round_nonneg)
    case 1
    have "foldl f32_add PosInf xs = PosInf" using Cons.prems(3) by (intro foldl_add_PosInf) auto
    with 1 show ?thesis by (simp add: x(1))
  next
    case (2 b)
    obtain a' where "round_magnitude a = Some a'" "a' \<le> b" using round_magnitude_mono [OF Cons.prems(1) _ 2(2)] x(2) by auto
    then have "a \<le> b" using Cons.prems(2) by simp
    obtain w where w: "round_magnitude q = Some w" "w \<le> b" using round_magnitude_mono [OF x(2) _ 2(2)] Cons.prems(1) by auto
    have "round_magnitude b = Some b" by (rule round_magnitude_idem [OF 2(2) \<open>0 \<le> a + q\<close>])
    with Cons.IH [OF 2(3)] Cons.prems(3)
    consider "foldl f32_add (Fin b) xs = PosInf"
      | s where "b \<le> s" "foldl f32_add (Fin b) xs = Fin s" "\<forall>q. Fin q \<in> set xs \<longrightarrow> (\<exists>v \<le> s. round_magnitude q = Some v)"
      by auto
    then show ?thesis
    proof cases
      case 1
      then show ?thesis by (simp add: x(1) 2(1))
    next
      case (2 s)
      then show ?thesis using w \<open>a \<le> b\<close> \<open>f32_round (a + q) = Fin b\<close> by (auto simp: x(1) intro!: exI [of _ s])
    qed
  qed
qed simp

lemma f32_sum_nonneg:
  assumes "\<forall>x \<in> set xs. \<exists>q \<ge> 0. x = Fin q"
  shows "f32_sum xs = PosInf \<or> (\<exists>s \<ge> 0. f32_sum xs = Fin s \<and> (\<forall>q. Fin q \<in> set xs \<longrightarrow> (\<exists>v \<le> s. round_magnitude q = Some v)))"
  unfolding f32_sum_def by (rule foldl_f32_add [OF order_refl round_magnitude_0 assms])

lemma round_above_1: "round_magnitude (1 + 1 / 2 ^ 24) = Some 1"
proof -
  have "1 + 1 / 2 ^ 24 < 2 ^ 24 * spacing 126" by (simp add: spacing_def)
  then obtain j where j: "spacing_index (1 + 1 / 2 ^ 24) = Some j" "j \<le> 126"
    using spacing_index_least [of 126 "1 + 1 / 2 ^ 24"] by auto
  have "j = 126"
  proof (rule ccontr)
    assume "j \<noteq> 126"
    with j(2) have "spacing j \<le> spacing 125" by (intro spacing_le) simp
    also have "spacing 125 = 1 / 2 ^ 24" by (simp add: spacing_def)
    finally show False using spacing_index_Some [OF j(1)] by simp
  qed
  have "\<lfloor>16777217 / 2 :: rat\<rfloor> = 8388608" by (simp add: floor_eq_iff)
  then have "half_even (8388608 + 1 / 2) = 8388608" by (simp add: half_even_def Let_def)
  with j(1) \<open>j = 126\<close> show ?thesis by (simp add: round_magnitude_def spacing_def Let_def)
qed

text \<open>A value divided by a sum that bounds its rounding lies between 0 and 1, unless the sum is tiny.\<close>

lemma unit_quotient:
  assumes "0 \<le> x" and "round_magnitude x = Some v" and "v \<le> s" and "1 / 2 ^ 100 < s"
  obtains q where "f32_div (Fin x) (Fin s) = Fin q" "0 \<le> q" "q \<le> 1"
proof -
  have s: "0 < s" using assms(4) by (rule less_trans [rotated]) simp
  have "x / s \<le> 1 + 1 / 2 ^ 24"
  proof (cases "x \<le> s")
    case True
    then have "x / s \<le> 1" using s by simp
    then show ?thesis by (rule order_trans) simp
  next
    case False
    from assms(2) obtain k where k: "spacing_index x = Some k" "v = of_int (half_even (x / spacing k)) * spacing k"
      by (rule round_magnitude_Some)
    have "k \<noteq> 0"
    proof
      assume "k = 0"
      then have "x < 1 / 2 ^ 125" using spacing_index_Some [OF k(1)] by (simp add: spacing_def)
      then have "x < 1 / 2 ^ 100" by (rule less_trans) simp
      with False assms(4) show False by simp
    qed
    let ?h = "of_int (half_even (x / spacing k)) :: rat"
    have h: "2 ^ 23 \<le> ?h" using half_even_quotient_rat(2) [OF k(1) assms(1)] \<open>k \<noteq> 0\<close> by simp
    have "x / spacing k \<le> ?h + 1 / 2" using half_even_error [of "x / spacing k"] by simp
    also have "\<dots> \<le> ?h * (1 + 1 / 2 ^ 24)" using h by simp
    finally have "x \<le> ?h * (1 + 1 / 2 ^ 24) * spacing k" by (simp add: pos_divide_le_eq)
    then have "x \<le> v * (1 + 1 / 2 ^ 24)" by (simp add: k(2) mult_ac)
    also have "\<dots> \<le> s * (1 + 1 / 2 ^ 24)" using assms(3) by (intro mult_right_mono) simp_all
    finally show ?thesis using s by (simp add: pos_divide_le_eq mult_ac)
  qed
  moreover have "0 \<le> x / s" using assms(1) s by simp
  ultimately obtain q where "round_magnitude (x / s) = Some q" "q \<le> 1"
    using round_magnitude_mono [OF _ _ round_above_1] by blast
  then show thesis using that [of q] \<open>0 \<le> x / s\<close> s round_magnitude_nonneg by (auto simp: f32_round_def)
qed

lemma split_epsilon_Fin: obtains e where "split_epsilon = Fin e" "1 / 2 ^ 100 < e"
proof -
  have tiny: "round_magnitude (1 / 2 ^ 14) = Some (1 / 2 ^ 14)"
    using round_magnitude_multiple [of 112 "2 ^ 23"] by (simp add: spacing_def)
  obtain e where e: "round_magnitude (1 / 10000) = Some e" "e \<le> 1"
    using round_magnitude_mono [of "1 / 10000" 1 1] by auto
  obtain v where "round_magnitude (1 / 2 ^ 14) = Some v" "v \<le> e"
    using round_magnitude_mono [of "1 / 2 ^ 14" "1 / 10000", OF _ _ e(1)] by auto
  then have "1 / 2 ^ 14 \<le> e" using tiny by simp
  then have "1 / 2 ^ 100 < e" by (rule less_le_trans [rotated]) simp
  with e(1) show thesis by (intro that [of e]) (simp_all add: split_epsilon_def f32_round_def)
qed

definition fraction_ok :: "f32 \<Rightarrow> bool" where
  "fraction_ok f \<longleftrightarrow> (\<exists>q. f = Fin q \<and> 0 \<le> q \<and> q \<le> 1)"

lemma f32_round_unit: "0 \<le> q \<Longrightarrow> q \<le> 1 \<Longrightarrow> fraction_ok (f32_round q)"
proof -
  assume q: "0 \<le> q" "q \<le> 1"
  obtain v where "round_magnitude q = Some v" "v \<le> 1" by (rule round_magnitude_mono [OF q round_magnitude_1])
  then show ?thesis using q(1) round_magnitude_nonneg by (auto simp: fraction_ok_def f32_round_def)
qed

lemma div_of_nat_ok: "fraction_ok (f32_div (Fin 1) (f32_of_nat (Suc n)))"
proof -
  have "(0 :: rat) \<le> of_nat (Suc n)" by simp
  then show ?thesis
  proof (cases rule: f32_round_nonneg)
    case 1
    then show ?thesis unfolding f32_of_nat_def by (simp add: fraction_ok_def)
  next
    case (2 v)
    have "round_magnitude 1 = Some 1" "(1 :: rat) \<le> of_nat (Suc n)" by simp_all
    then have "1 \<le> v" using round_magnitude_mono [OF _ _ 2(2), of 1] by auto
    then have "fraction_ok (f32_round (1 / v))" by (intro f32_round_unit) simp_all
    with \<open>1 \<le> v\<close> show ?thesis unfolding f32_of_nat_def 2(1) by simp
  qed
qed

lemma clamp_ok: "x \<noteq> NaN \<Longrightarrow> fraction_ok (f32_clamp x (Fin 0) (Fin 1))"
  by (cases x) (auto simp: f32_clamp_def fraction_ok_def)

lemma fraction_nonneg: "fraction_ok f \<Longrightarrow> \<exists>q \<ge> 0. f = Fin q"
  by (auto simp: fraction_ok_def)

lemma f32_round_not_NaN: "f32_round q \<noteq> NaN"
  by (simp add: f32_round_def split: option.split)

theorem normalize_bounds:
  "length (normalize_split_fractions fs) = max (length fs) 1 \<and> (\<forall>f \<in> set (normalize_split_fractions fs). fraction_ok f)"
proof -
  define repaired where "repaired = map repair_fraction fs"
  have nonneg: "\<forall>x \<in> set repaired. \<exists>q \<ge> 0. x = Fin q"
  proof
    fix x assume "x \<in> set repaired"
    then obtain f where "x = repair_fraction f" by (auto simp: repaired_def)
    then show "\<exists>q \<ge> 0. x = Fin q" by (cases f) (auto simp: repair_fraction_def f32_is_finite_def)
  qed
  have len: "length repaired = length fs" by (simp add: repaired_def)
  show ?thesis
  proof (cases "\<not> f32_is_finite (f32_sum repaired) \<or> f32_le (f32_sum repaired) split_epsilon")
    case True
    then have "normalize_split_fractions fs =
        replicate (max (length fs) 1) (f32_div (Fin 1) (f32_of_nat (max (length fs) 1)))"
      unfolding normalize_split_fractions_def Let_def repaired_def [symmetric] len by simp
    then show ?thesis using div_of_nat_ok [of "max (length fs) 1 - 1"] by simp
  next
    case False
    then obtain s where s: "f32_sum repaired = Fin s" "\<And>q. Fin q \<in> set repaired \<Longrightarrow> \<exists>v \<le> s. round_magnitude q = Some v"
      using f32_sum_nonneg [OF nonneg] by (auto simp: f32_is_finite_def)
    obtain e where e: "split_epsilon = Fin e" "1 / 2 ^ 100 < e" by (rule split_epsilon_Fin)
    have "e < s" using False s(1) by (simp add: e(1) f32_le_def f32_eq_def)
    with e(2) have "1 / 2 ^ 100 < s" by (rule less_trans)
    define scaled where "scaled = map (\<lambda>f. f32_div f (Fin s)) repaired"
    have scaled: "\<forall>f \<in> set scaled. fraction_ok f"
    proof
      fix f assume "f \<in> set scaled"
      then obtain q where q: "Fin q \<in> set repaired" "0 \<le> q" "f = f32_div (Fin q) (Fin s)" using nonneg by (auto simp: scaled_def)
      then show "fraction_ok f"
        using s(2) [OF q(1)] unit_quotient [OF q(2) _ _ \<open>1 / 2 ^ 100 < s\<close>] unfolding fraction_ok_def by metis
    qed
    have "repaired \<noteq> []"
    proof
      assume "repaired = []"
      with s(1) \<open>1 / 2 ^ 100 < s\<close> show False by (simp add: f32_sum_def)
    qed
    let ?rest = "f32_sum (take (length scaled - 1) scaled)"
    have result: "normalize_split_fractions fs =
        scaled[length scaled - 1 := f32_clamp (f32_sub (Fin 1) ?rest) (Fin 0) (Fin 1)]"
      using False \<open>repaired \<noteq> []\<close>
      unfolding normalize_split_fractions_def Let_def repaired_def [symmetric] s(1) scaled_def by simp
    have "?rest = PosInf \<or> (\<exists>r. ?rest = Fin r)"
      using f32_sum_nonneg [of "take (length scaled - 1) scaled"] scaled fraction_nonneg by (meson in_set_takeD)
    then have "f32_sub (Fin 1) ?rest \<noteq> NaN" using f32_round_not_NaN by (auto simp: f32_sub_def)
    then have last: "fraction_ok (f32_clamp (f32_sub (Fin 1) ?rest) (Fin 0) (Fin 1))" by (rule clamp_ok)
    have "\<forall>f \<in> set (normalize_split_fractions fs). fraction_ok f"
      unfolding result using scaled last set_update_subset_insert by fast
    moreover have "length (normalize_split_fractions fs) = max (length fs) 1"
      using \<open>repaired \<noteq> []\<close> unfolding result by (simp add: scaled_def len) (metis One_nat_def Suc_leI len length_greater_0_conv max.absorb1)
    ultimately show ?thesis by simp
  qed
qed

end
