(* ===== verification/Dock_Graph.thy ===== *)
theory Dock_Graph
  imports Float32 Text BTree_Map Sequences
begin

text \<open>
  The docking graph (\<open>crates/gpui_docking/src/graph.rs\<close>, \<open>graph_query.rs\<close>): dock nodes in a slot map, roots and
  floating containers per dock space, and the queries, which recurse along child ids. A query returns \<open>None\<close> when its recursion
  does not end. A \<open>HashMap\<close> that is iterated is a sorted list of entries: of the iteration order only the choice of the error
  reported first depends on it.
\<close>

section \<open>Loops\<close>

text \<open>\<open>find_map\<close>, \<open>any\<close> and \<open>for\<close> over a body that may not return.\<close>

fun find_map_p :: "('a \<Rightarrow> 'b option panics) \<Rightarrow> 'a list \<Rightarrow> 'b option panics" where
  "find_map_p f [] = Some None"
| "find_map_p f (x # xs) = do { r \<leftarrow> f x; case r of Some y \<Rightarrow> Some (Some y) | None \<Rightarrow> find_map_p f xs }"

fun any_p :: "('a \<Rightarrow> bool panics) \<Rightarrow> 'a list \<Rightarrow> bool panics" where
  "any_p f [] = Some False"
| "any_p f (x # xs) = do { b \<leftarrow> f x; if b then Some True else any_p f xs }"

fun for_p :: "('a \<Rightarrow> 's \<Rightarrow> 's panics) \<Rightarrow> 'a list \<Rightarrow> 's \<Rightarrow> 's panics" where
  "for_p f [] s = Some s"
| "for_p f (x # xs) s = do { s' \<leftarrow> f x s; for_p f xs s' }"

lemma find_map_p_mono [partial_function_mono]:
  assumes "\<And>x. mono_option (\<lambda>f. F f x)"
  shows "mono_option (\<lambda>f. find_map_p (F f) xs)"
proof (induction xs)
  case (Cons x xs)
  have "mono_option (\<lambda>f. case r of Some y \<Rightarrow> Some (Some y) | None \<Rightarrow> find_map_p (F f) xs)" for r
    using Cons by (cases r) (simp_all add: option.const_mono)
  with assms show ?case by (simp add: bind_mono)
qed (simp add: option.const_mono)

lemma any_p_mono [partial_function_mono]:
  assumes "\<And>x. mono_option (\<lambda>f. F f x)"
  shows "mono_option (\<lambda>f. any_p (F f) xs)"
proof (induction xs)
  case (Cons x xs)
  have "mono_option (\<lambda>f. if b then Some True else any_p (F f) xs)" for b
    using Cons by (cases b) (simp_all add: option.const_mono)
  with assms show ?case by (simp add: bind_mono)
qed (simp add: option.const_mono)

lemma for_p_mono [partial_function_mono]:
  assumes "\<And>x s. mono_option (\<lambda>f. F f x s)"
  shows "mono_option (\<lambda>f. for_p (F f) xs s)"
  using assms by (induction xs arbitrary: s) (simp_all add: option.const_mono bind_mono)

section \<open>Nodes\<close>

type_synonym node_id = nat
type_synonym space_id = str
type_synonym item_id = str

datatype split_axis = Horizontal | Vertical

datatype drop_zone = ZCenter | ZLeft | ZRight | ZTop | ZBottom

datatype dock_node =
    Split split_axis "node_id list" "f32 list"
  | Tabs "item_id list" "item_id option"
  | Floating node_id

text \<open>
  The slot map that stores the nodes (a third-party package): writing through \<open>get_mut\<close> is \<open>so_set\<close>. Its keys are opaque
  and there is always a new one.
\<close>

record 's slot_ops =
  so_new :: 's
  so_insert :: "'s \<Rightarrow> dock_node \<Rightarrow> node_id \<times> 's"
  so_get :: "'s \<Rightarrow> node_id \<Rightarrow> dock_node option"
  so_set :: "'s \<Rightarrow> node_id \<Rightarrow> dock_node \<Rightarrow> 's"
  so_remove :: "'s \<Rightarrow> node_id \<Rightarrow> 's"
  so_keys :: "'s \<Rightarrow> node_id list"

text \<open>What it documents: a new key is not in use; the operations act on the one key.\<close>

definition slot_laws :: "'s slot_ops \<Rightarrow> bool" where
  "slot_laws so \<longleftrightarrow>
     so_get so (so_new so) = Map.empty \<and>
     (\<forall>s n k s'. so_insert so s n = (k, s') \<longrightarrow> so_get so s k = None \<and> so_get so s' = (so_get so s)(k \<mapsto> n)) \<and>
     (\<forall>s k n. so_get so s k \<noteq> None \<longrightarrow> so_get so (so_set so s k n) = (so_get so s)(k \<mapsto> n)) \<and>
     (\<forall>s k. so_get so (so_remove so s k) = (so_get so s)(k := None)) \<and>
     (\<forall>s. set (so_keys so s) = dom (so_get so s) \<and> distinct (so_keys so s))"

record dock_rect =
  rect_x :: f32
  rect_y :: f32
  rect_width :: f32
  rect_height :: f32

definition rect_eq :: "dock_rect \<Rightarrow> dock_rect \<Rightarrow> bool" where
  "rect_eq a b \<longleftrightarrow> f32_eq (rect_x a) (rect_x b) \<and> f32_eq (rect_y a) (rect_y b) \<and>
     f32_eq (rect_width a) (rect_width b) \<and> f32_eq (rect_height a) (rect_height b)"

record floating_container =
  fc_node :: node_id
  fc_bounds :: dock_rect

record central_region =
  cr_node :: "node_id option"
  cr_keep_alive :: bool
  cr_passthrough :: bool

definition central_default :: central_region where
  "central_default = \<lparr>cr_node = None, cr_keep_alive = True, cr_passthrough = False\<rparr>"

record selection_state =
  ss_next_stamp :: u64
  ss_stamps :: "(item_id, u64) btree_map"

definition selection_default :: selection_state where
  "selection_default = \<lparr>ss_next_stamp = 0, ss_stamps = []\<rparr>"

section \<open>The graph\<close>

record 's dock_graph =
  dg_nodes :: 's
  dg_roots :: "(space_id, node_id) btree_map"
  dg_floatings :: "(space_id, floating_container list) btree_map"
  dg_central :: "(space_id, central_region) btree_map"
  dg_history :: "(node_id, selection_state) btree_map"

definition graph_new :: "'s slot_ops \<Rightarrow> 's dock_graph" where
  "graph_new so = \<lparr>dg_nodes = so_new so, dg_roots = [], dg_floatings = [], dg_central = [], dg_history = []\<rparr>"

abbreviation node :: "'s slot_ops \<Rightarrow> 's dock_graph \<Rightarrow> node_id \<Rightarrow> dock_node option" where
  "node so g \<equiv> so_get so (dg_nodes g)"

definition insert_node :: "'s slot_ops \<Rightarrow> 's dock_graph \<Rightarrow> dock_node \<Rightarrow> node_id \<times> 's dock_graph" where
  "insert_node so g n = (let (k, s) = so_insert so (dg_nodes g) n in (k, g\<lparr>dg_nodes := s\<rparr>))"

definition put_node :: "'s slot_ops \<Rightarrow> 's dock_graph \<Rightarrow> node_id \<Rightarrow> dock_node \<Rightarrow> 's dock_graph" where
  "put_node so g k n = g\<lparr>dg_nodes := so_set so (dg_nodes g) k n\<rparr>"

definition record_tab_selection :: "'s dock_graph \<Rightarrow> node_id \<Rightarrow> item_id \<Rightarrow> 's dock_graph" where
  "record_tab_selection g tabs item =
     (let state = (case map_of (dg_history g) tabs of Some st \<Rightarrow> st | None \<Rightarrow> selection_default);
          stamp = ss_next_stamp state in
      g\<lparr>dg_history := bt_insert tabs
          \<lparr>ss_next_stamp = saturating_succ stamp, ss_stamps = bt_insert item stamp (ss_stamps state)\<rparr> (dg_history g)\<rparr>)"

text \<open>\<open>max_by_key\<close> takes the last of the greatest.\<close>

fun last_max_by :: "('a \<Rightarrow> 'k::linorder) \<Rightarrow> 'a list \<Rightarrow> 'a option" where
  "last_max_by key [] = None"
| "last_max_by key (x # xs) =
     (case last_max_by key xs of None \<Rightarrow> Some x | Some y \<Rightarrow> if key y < key x then Some x else Some y)"

definition preferred_tab_after_close :: "'s dock_graph \<Rightarrow> node_id \<Rightarrow> item_id \<Rightarrow> item_id list \<Rightarrow> item_id option" where
  "preferred_tab_after_close g tabs closing items =
     (case map_of (dg_history g) tabs of
        None \<Rightarrow> None
      | Some state \<Rightarrow>
          map_option fst (last_max_by snd (filter (\<lambda>(c, _). c \<noteq> closing \<and> c \<in> set items) (ss_stamps state))))"

definition take_tab_selection_state :: "'s dock_graph \<Rightarrow> node_id \<Rightarrow> selection_state \<times> 's dock_graph" where
  "take_tab_selection_state g tabs =
     (case map_of (dg_history g) tabs of Some st \<Rightarrow> st | None \<Rightarrow> selection_default,
      g\<lparr>dg_history := bt_remove tabs (dg_history g)\<rparr>)"

definition restore_tab_selection_state :: "'s dock_graph \<Rightarrow> node_id \<Rightarrow> selection_state \<Rightarrow> 's dock_graph" where
  "restore_tab_selection_state g tabs st =
     (if ss_stamps st = [] then g else g\<lparr>dg_history := bt_insert tabs st (dg_history g)\<rparr>)"

definition set_root :: "'s dock_graph \<Rightarrow> space_id \<Rightarrow> node_id \<Rightarrow> 's dock_graph" where
  "set_root g space nid = g\<lparr>dg_roots := bt_insert space nid (dg_roots g)\<rparr>"

definition set_root_for_empty_space :: "'s dock_graph \<Rightarrow> space_id \<Rightarrow> node_id \<Rightarrow> 's dock_graph" where
  "set_root_for_empty_space g space nid =
     (let g1 = set_root g space nid in
      g1\<lparr>dg_central := bt_modify space
           (\<lambda>c. if cr_keep_alive c \<and> cr_node c = None then c\<lparr>cr_node := Some nid\<rparr> else c) (dg_central g1)\<rparr>)"

abbreviation root_of :: "'s dock_graph \<Rightarrow> space_id \<Rightarrow> node_id option" where
  "root_of g space \<equiv> map_of (dg_roots g) space"

definition remove_root :: "'s dock_graph \<Rightarrow> space_id \<Rightarrow> 's dock_graph" where
  "remove_root g space = g\<lparr>dg_roots := bt_remove space (dg_roots g)\<rparr>"

definition spaces :: "'s dock_graph \<Rightarrow> space_id list" where
  "spaces g = remdups_adj (sort (map fst (dg_roots g) @ map fst (dg_floatings g) @ map fst (dg_central g)))"

definition floating_containers :: "'s dock_graph \<Rightarrow> space_id \<Rightarrow> floating_container list" where
  "floating_containers g space = (case map_of (dg_floatings g) space of Some fs \<Rightarrow> fs | None \<Rightarrow> [])"

definition floating_container_of :: "'s dock_graph \<Rightarrow> space_id \<Rightarrow> node_id \<Rightarrow> floating_container option" where
  "floating_container_of g space floating = find (\<lambda>c. fc_node c = floating) (floating_containers g space)"

text \<open>\<open>floating_containers_mut(space).push(container)\<close>.\<close>

definition push_floating :: "'s dock_graph \<Rightarrow> space_id \<Rightarrow> floating_container \<Rightarrow> 's dock_graph" where
  "push_floating g space c = g\<lparr>dg_floatings := bt_insert space (floating_containers g space @ [c]) (dg_floatings g)\<rparr>"

definition set_central_region :: "'s dock_graph \<Rightarrow> space_id \<Rightarrow> central_region \<Rightarrow> 's dock_graph" where
  "set_central_region g space c = g\<lparr>dg_central := bt_insert space c (dg_central g)\<rparr>"

definition remove_central_region :: "'s dock_graph \<Rightarrow> space_id \<Rightarrow> central_region option \<times> 's dock_graph" where
  "remove_central_region g space = (map_of (dg_central g) space, g\<lparr>dg_central := bt_remove space (dg_central g)\<rparr>)"

section \<open>Queries\<close>

partial_function (option) find_item_in_subtree ::
  "'s slot_ops \<Rightarrow> 's dock_graph \<Rightarrow> item_id \<Rightarrow> node_id \<Rightarrow> (node_id \<times> nat) option panics" where
  "find_item_in_subtree so g item nid =
     (case node so g nid of
        None \<Rightarrow> Some None
      | Some (Tabs items selected) \<Rightarrow> Some (map_option (\<lambda>i. (nid, i)) (position (\<lambda>c. c = item) items))
      | Some (Floating child) \<Rightarrow> find_item_in_subtree so g item child
      | Some (Split axis children fractions) \<Rightarrow> find_map_p (find_item_in_subtree so g item) children)"

partial_function (option) collect_items_into ::
  "'s slot_ops \<Rightarrow> 's dock_graph \<Rightarrow> node_id \<Rightarrow> item_id list \<Rightarrow> item_id list panics" where
  "collect_items_into so g nid out =
     (case node so g nid of
        None \<Rightarrow> Some out
      | Some (Tabs items selected) \<Rightarrow> Some (out @ items)
      | Some (Floating child) \<Rightarrow> collect_items_into so g child out
      | Some (Split axis children fractions) \<Rightarrow> for_p (collect_items_into so g) children out)"

partial_function (option) collect_tabs_into ::
  "'s slot_ops \<Rightarrow> 's dock_graph \<Rightarrow> node_id \<Rightarrow> node_id list \<Rightarrow> node_id list panics" where
  "collect_tabs_into so g nid out =
     (case node so g nid of
        None \<Rightarrow> Some out
      | Some (Tabs items selected) \<Rightarrow> Some (out @ [nid])
      | Some (Floating child) \<Rightarrow> collect_tabs_into so g child out
      | Some (Split axis children fractions) \<Rightarrow> for_p (collect_tabs_into so g) children out)"

partial_function (option) collect_nodes_into ::
  "'s slot_ops \<Rightarrow> 's dock_graph \<Rightarrow> node_id \<Rightarrow> node_id list \<Rightarrow> node_id list panics" where
  "collect_nodes_into so g nid out =
     (case node so g nid of
        None \<Rightarrow> Some out
      | Some (Tabs items selected) \<Rightarrow> Some (out @ [nid])
      | Some (Floating child) \<Rightarrow> collect_nodes_into so g child (out @ [nid])
      | Some (Split axis children fractions) \<Rightarrow> for_p (collect_nodes_into so g) children (out @ [nid]))"

partial_function (option) subtree_contains :: "'s slot_ops \<Rightarrow> 's dock_graph \<Rightarrow> node_id \<Rightarrow> node_id \<Rightarrow> bool panics" where
  "subtree_contains so g target nid =
     (if nid = target then Some True
      else case node so g nid of
        None \<Rightarrow> Some False
      | Some (Tabs items selected) \<Rightarrow> Some False
      | Some (Floating child) \<Rightarrow> subtree_contains so g target child
      | Some (Split axis children fractions) \<Rightarrow> any_p (subtree_contains so g target) children)"

partial_function (option) first_tabs_in_subtree :: "'s slot_ops \<Rightarrow> 's dock_graph \<Rightarrow> node_id \<Rightarrow> node_id option panics" where
  "first_tabs_in_subtree so g nid =
     (case node so g nid of
        None \<Rightarrow> Some None
      | Some (Tabs items selected) \<Rightarrow> Some (Some nid)
      | Some (Floating child) \<Rightarrow> first_tabs_in_subtree so g child
      | Some (Split axis children fractions) \<Rightarrow> find_map_p (first_tabs_in_subtree so g) children)"

partial_function (option) is_visible_split_payload :: "'s slot_ops \<Rightarrow> 's dock_graph \<Rightarrow> node_id \<Rightarrow> bool panics" where
  "is_visible_split_payload so g nid =
     (case node so g nid of
        Some (Split axis children fractions) \<Rightarrow> Some True
      | Some (Floating child) \<Rightarrow> is_visible_split_payload so g child
      | _ \<Rightarrow> Some False)"

definition forest_roots :: "'s dock_graph \<Rightarrow> space_id \<Rightarrow> node_id list" where
  "forest_roots g space = (case root_of g space of Some r \<Rightarrow> [r] | None \<Rightarrow> []) @ map fc_node (floating_containers g space)"

definition collect_items_in_space :: "'s slot_ops \<Rightarrow> 's dock_graph \<Rightarrow> space_id \<Rightarrow> item_id list panics" where
  "collect_items_in_space so g space = for_p (collect_items_into so g) (forest_roots g space) []"

definition collect_items_in_subtree :: "'s slot_ops \<Rightarrow> 's dock_graph \<Rightarrow> node_id \<Rightarrow> item_id list panics" where
  "collect_items_in_subtree so g nid = collect_items_into so g nid []"

definition subtree_contains_item :: "'s slot_ops \<Rightarrow> 's dock_graph \<Rightarrow> node_id \<Rightarrow> item_id \<Rightarrow> bool panics" where
  "subtree_contains_item so g nid item = do { r \<leftarrow> find_item_in_subtree so g item nid; Some (r \<noteq> None) }"

definition nodes_in_subtree :: "'s slot_ops \<Rightarrow> 's dock_graph \<Rightarrow> node_id \<Rightarrow> node_id list panics" where
  "nodes_in_subtree so g nid = collect_nodes_into so g nid []"

definition tabs_in_space :: "'s slot_ops \<Rightarrow> 's dock_graph \<Rightarrow> space_id \<Rightarrow> node_id list panics" where
  "tabs_in_space so g space = for_p (collect_tabs_into so g) (forest_roots g space) []"

definition root_tabs_in_space :: "'s slot_ops \<Rightarrow> 's dock_graph \<Rightarrow> space_id \<Rightarrow> node_id list panics" where
  "root_tabs_in_space so g space = (case root_of g space of Some r \<Rightarrow> collect_tabs_into so g r [] | None \<Rightarrow> Some [])"

definition recovery_target_tabs :: "'s slot_ops \<Rightarrow> 's dock_graph \<Rightarrow> space_id \<Rightarrow> node_id option panics" where
  "recovery_target_tabs so g space = do {
     central \<leftarrow> (case Option.bind (map_of (dg_central g) space) cr_node of
                  Some n \<Rightarrow> first_tabs_in_subtree so g n | None \<Rightarrow> Some None);
     case central of
       Some t \<Rightarrow> Some (Some t)
     | None \<Rightarrow> (case root_of g space of Some r \<Rightarrow> first_tabs_in_subtree so g r | None \<Rightarrow> Some None)
   }"

definition find_item_in_space :: "'s slot_ops \<Rightarrow> 's dock_graph \<Rightarrow> space_id \<Rightarrow> item_id \<Rightarrow> (node_id \<times> nat) option panics" where
  "find_item_in_space so g space item = find_map_p (find_item_in_subtree so g item) (forest_roots g space)"

definition contains_item :: "'s slot_ops \<Rightarrow> 's dock_graph \<Rightarrow> item_id \<Rightarrow> bool panics" where
  "contains_item so g item =
     any_p (\<lambda>space. do { r \<leftarrow> find_item_in_space so g space item; Some (r \<noteq> None) }) (spaces g)"

definition root_for_node_in_space :: "'s slot_ops \<Rightarrow> 's dock_graph \<Rightarrow> space_id \<Rightarrow> node_id \<Rightarrow> node_id option panics" where
  "root_for_node_in_space so g space target =
     find_map_p (\<lambda>r. do { b \<leftarrow> subtree_contains so g target r; Some (if b then Some r else None) }) (forest_roots g space)"

definition selected_item :: "item_id list \<Rightarrow> item_id option \<Rightarrow> item_id option" where
  "selected_item items selected = (case selected of Some i \<Rightarrow> if i \<in> set items then Some i else None | None \<Rightarrow> None)"

definition selected_item_in_tabs :: "'s slot_ops \<Rightarrow> 's dock_graph \<Rightarrow> node_id \<Rightarrow> item_id option" where
  "selected_item_in_tabs so g tabs =
     (case node so g tabs of Some (Tabs items selected) \<Rightarrow> selected_item items selected | _ \<Rightarrow> None)"

definition root_subtree_contains :: "'s slot_ops \<Rightarrow> 's dock_graph \<Rightarrow> space_id \<Rightarrow> node_id \<Rightarrow> bool panics" where
  "root_subtree_contains so g space target =
     (case root_of g space of Some r \<Rightarrow> subtree_contains so g target r | None \<Rightarrow> Some False)"

end
