(* ===== verification/Dock_Canonical.thy ===== *)
theory Dock_Canonical
  imports Dock_Graph
begin

text \<open>
  Simplification of a dock space into canonical form and the sweep of detached nodes
  (\<open>crates/gpui_docking/src/graph_canonical.rs\<close>).
\<close>

section \<open>Simplification\<close>

text \<open>One turn of the loop of \<open>flatten_same_axis_splits\<close>: whether something changed, the children and their fractions.\<close>

fun flatten_pass :: "'s slot_ops \<Rightarrow> 's \<Rightarrow> split_axis \<Rightarrow> (node_id \<times> f32) list \<Rightarrow> bool \<times> node_id list \<times> f32 list" where
  "flatten_pass so s axis [] = (False, [], [])"
| "flatten_pass so s axis ((child, share) # rest) =
     (let (changed, children, fractions) = flatten_pass so s axis rest in
      case so_get so s child of
        Some (Split child_axis grand_children grand_fractions) \<Rightarrow>
          if child_axis \<noteq> axis then (changed, child # children, share # fractions)
          else
            (let shares = zip grand_children (normalize_split_fractions grand_fractions) in
             (True, map fst shares @ children, map (\<lambda>(_, f). f32_mul share f) shares @ fractions))
      | _ \<Rightarrow> (changed, child # children, share # fractions))"

partial_function (option) flatten_same_axis_splits ::
  "'s slot_ops \<Rightarrow> 's \<Rightarrow> split_axis \<Rightarrow> node_id list \<Rightarrow> f32 list \<Rightarrow> (node_id list \<times> f32 list) panics" where
  "flatten_same_axis_splits so s axis children fractions =
     (case flatten_pass so s axis (zip children fractions) of (changed, children', fractions') \<Rightarrow>
        if changed then flatten_same_axis_splits so s axis children' fractions' else Some (children', fractions'))"

text \<open>The loop over the children of a split: the children that remain, their fractions, the nodes.\<close>

definition keep_child :: "f32 list \<Rightarrow> (node_id \<Rightarrow> 's \<Rightarrow> (node_id option \<times> 's) panics) \<Rightarrow> nat \<times> node_id \<Rightarrow>
    node_id list \<times> f32 list \<times> 's \<Rightarrow> (node_id list \<times> f32 list \<times> 's) panics" where
  "keep_child fractions simplify = (\<lambda>(i, child) (children, next_fractions, s). do {
     (r, s') \<leftarrow> simplify child s;
     Some (case r of
       None \<Rightarrow> (children, next_fractions, s')
     | Some c \<Rightarrow> (children @ [c], next_fractions @ [if i < length fractions then fractions ! i else Fin 1], s'))
   })"

lemma keep_child_mono [partial_function_mono]:
  assumes "\<And>n s. mono_option (\<lambda>f. F f n s)"
  shows "mono_option (\<lambda>f. keep_child fs (F f) e st)"
  unfolding keep_child_def using assms
  by (cases e; cases st) (auto intro!: bind_mono option.const_mono split: prod.split)

definition write_floating :: "'s slot_ops \<Rightarrow> 's \<Rightarrow> node_id \<Rightarrow> node_id \<Rightarrow> 's" where
  "write_floating so s n child = (case so_get so s n of Some (Floating _) \<Rightarrow> so_set so s n (Floating child) | _ \<Rightarrow> s)"

definition write_split :: "'s slot_ops \<Rightarrow> 's \<Rightarrow> node_id \<Rightarrow> node_id list \<Rightarrow> f32 list \<Rightarrow> 's" where
  "write_split so s n children fractions =
     (case so_get so s n of Some (Split axis _ _) \<Rightarrow> so_set so s n (Split axis children fractions) | _ \<Rightarrow> s)"

text \<open>The end of \<open>simplify_subtree\<close> for a split with the children that remain.\<close>

definition finish_split :: "'s slot_ops \<Rightarrow> node_id \<Rightarrow> split_axis \<Rightarrow> node_id list \<times> f32 list \<times> 's \<Rightarrow> (node_id option \<times> 's) panics" where
  "finish_split so n axis = (\<lambda>(children, fractions, s).
     if children = [] then Some (None, s)
     else if length children = 1 then Some (Some (children ! 0), s)
     else do {
       (children', fractions') \<leftarrow> flatten_same_axis_splits so s axis children fractions;
       Some (if children' = [] then (None, s)
             else if length children' = 1 then (Some (children' ! 0), s)
             else (Some n, write_split so s n children' (normalize_split_fractions fractions')))
     })"

partial_function (option) simplify_subtree :: "'s slot_ops \<Rightarrow> node_id \<Rightarrow> 's \<Rightarrow> (node_id option \<times> 's) panics" where
  "simplify_subtree so n s =
     (case so_get so s n of
        None \<Rightarrow> Some (None, s)
      | Some (Tabs items selected) \<Rightarrow> Some (if items = [] then None else Some n, s)
      | Some (Floating child) \<Rightarrow> do {
          (r, s') \<leftarrow> simplify_subtree so child s;
          Some (case r of None \<Rightarrow> (None, s') | Some c \<Rightarrow> (Some n, write_floating so s' n c))
        }
      | Some (Split axis children fractions) \<Rightarrow> do {
          kept \<leftarrow> for_p (keep_child fractions (simplify_subtree so)) (List.enumerate 0 children) ([], [], s);
          finish_split so n axis kept
        })"

text \<open>\<open>retain_mut\<close> over the floating containers.\<close>

definition keep_floating :: "'s slot_ops \<Rightarrow> floating_container \<Rightarrow> floating_container list \<times> 's \<Rightarrow> (floating_container list \<times> 's) panics"
where
  "keep_floating so c = (\<lambda>(kept, s). do {
     (r, s') \<leftarrow> simplify_subtree so (fc_node c) s;
     Some (case r of None \<Rightarrow> (kept, s') | Some n \<Rightarrow> (kept @ [c\<lparr>fc_node := n\<rparr>], s'))
   })"

text \<open>The node of the central region after its root has changed.\<close>

definition settle_central :: "'s slot_ops \<Rightarrow> 's dock_graph \<Rightarrow> space_id \<Rightarrow> node_id option \<Rightarrow> node_id option \<Rightarrow> 's dock_graph panics"
where
  "settle_central so g space previous_root simplified_root =
     (case map_of (dg_central g) space of
        None \<Rightarrow> Some g
      | Some c \<Rightarrow>
          (let central_node =
             (case (previous_root, simplified_root) of
                (Some p, Some r) \<Rightarrow> if cr_node c = Some p \<and> p \<noteq> r then Some r else cr_node c
              | _ \<Rightarrow> cr_node c) in do {
             lost \<leftarrow> (case central_node of
                        Some n \<Rightarrow> do { b \<leftarrow> root_subtree_contains so g space n; Some (\<not> b) } | None \<Rightarrow> Some False);
             Some (g\<lparr>dg_central := bt_modify space (\<lambda>c. c\<lparr>cr_node := if lost then None else central_node\<rparr>) (dg_central g)\<rparr>)
           }))"

definition simplify_root :: "'s slot_ops \<Rightarrow> 's dock_graph \<Rightarrow> space_id \<Rightarrow> (node_id option \<times> 's dock_graph) panics" where
  "simplify_root so g space = do {
     (simplified, s) \<leftarrow> (case root_of g space of Some r \<Rightarrow> simplify_subtree so r (dg_nodes g) | None \<Rightarrow> Some (None, dg_nodes g));
     let g1 = g\<lparr>dg_nodes := s\<rparr>;
     Some (simplified, case simplified of Some r \<Rightarrow> set_root g1 space r | None \<Rightarrow> remove_root g1 space)
   }"

definition simplify_floatings :: "'s slot_ops \<Rightarrow> 's dock_graph \<Rightarrow> space_id \<Rightarrow> 's dock_graph panics" where
  "simplify_floatings so g space =
     (case map_of (dg_floatings g) space of
        None \<Rightarrow> Some g
      | Some cs \<Rightarrow> do {
          (kept, s) \<leftarrow> for_p (keep_floating so) cs ([], dg_nodes g);
          let rest = bt_remove space (dg_floatings g);
          Some (g\<lparr>dg_nodes := s, dg_floatings := if kept \<noteq> [] then bt_insert space kept rest else rest\<rparr>)
        })"

definition simplify_space :: "'s slot_ops \<Rightarrow> 's dock_graph \<Rightarrow> space_id \<Rightarrow> 's dock_graph panics" where
  "simplify_space so g space = do {
     (simplified, g1) \<leftarrow> simplify_root so g space;
     g2 \<leftarrow> settle_central so g1 space (root_of g space) simplified;
     simplify_floatings so g2 space
   }"

section \<open>Reachable nodes\<close>

partial_function (option) reach_loop :: "(node_id \<Rightarrow> dock_node option) \<Rightarrow> node_id list \<Rightarrow> node_id set \<Rightarrow> node_id set panics" where
  "reach_loop get pending reachable =
     (if pending = [] then Some reachable
      else if last pending \<in> reachable then reach_loop get (butlast pending) reachable
      else
        (case get (last pending) of
           Some (Split axis children fractions) \<Rightarrow> reach_loop get (butlast pending @ children) (insert (last pending) reachable)
         | Some (Floating child) \<Rightarrow> reach_loop get (butlast pending @ [child]) (insert (last pending) reachable)
         | _ \<Rightarrow> reach_loop get (butlast pending) (insert (last pending) reachable)))"

definition reachable_node_ids_from :: "'s slot_ops \<Rightarrow> 's dock_graph \<Rightarrow> node_id list \<Rightarrow> node_id set panics" where
  "reachable_node_ids_from so g pending = reach_loop (node so g) pending {}"

definition live_roots :: "'s dock_graph \<Rightarrow> node_id list" where
  "live_roots g = map snd (dg_roots g) @ map fc_node (concat (map snd (dg_floatings g)))"

definition reachable_node_ids :: "'s slot_ops \<Rightarrow> 's dock_graph \<Rightarrow> node_id set panics" where
  "reachable_node_ids so g = reachable_node_ids_from so g (live_roots g)"

definition prune_nodes_not_in :: "'s slot_ops \<Rightarrow> 's dock_graph \<Rightarrow> node_id set \<Rightarrow> 's dock_graph" where
  "prune_nodes_not_in so g retained =
     (let removed = filter (\<lambda>n. n \<notin> retained) (so_keys so (dg_nodes g));
          g1 = fold (\<lambda>n g. g\<lparr>dg_nodes := so_remove so (dg_nodes g) n, dg_history := bt_remove n (dg_history g)\<rparr>) removed g in
      g1\<lparr>dg_history := filter (\<lambda>(n, _). node so g1 n \<noteq> None) (dg_history g1)\<rparr>)"

definition prune_unreachable_nodes :: "'s slot_ops \<Rightarrow> 's dock_graph \<Rightarrow> 's dock_graph panics" where
  "prune_unreachable_nodes so g = do { live \<leftarrow> reachable_node_ids so g; Some (prune_nodes_not_in so g live) }"

definition dock_canonicalize :: "'s slot_ops \<Rightarrow> 's dock_graph \<Rightarrow> 's dock_graph panics" where
  "dock_canonicalize so g = do {
     g1 \<leftarrow> for_p (\<lambda>space g. simplify_space so g space) (spaces g) g;
     prune_unreachable_nodes so g1
   }"

text \<open>The roots of the nodes that are stored but not live; a node below another such node is not one.\<close>

definition staged_children :: "node_id list \<Rightarrow> dock_node option \<Rightarrow> node_id list" where
  "staged_children staging n =
     (case n of
        Some (Split axis children fractions) \<Rightarrow> filter (\<lambda>c. c \<in> set staging) children
      | Some (Floating child) \<Rightarrow> if child \<in> set staging then [child] else []
      | _ \<Rightarrow> [])"

definition capture_mutation_retention :: "'s slot_ops \<Rightarrow> 's dock_graph \<Rightarrow> node_id list panics" where
  "capture_mutation_retention so g = do {
     live \<leftarrow> reachable_node_ids so g;
     let staging = filter (\<lambda>n. n \<notin> live) (so_keys so (dg_nodes g));
     let referenced = concat (map (\<lambda>n. staged_children staging (node so g n)) staging);
     Some (filter (\<lambda>n. n \<notin> set referenced) staging)
   }"

definition finalize_checked_mutation :: "'s slot_ops \<Rightarrow> 's dock_graph \<Rightarrow> node_id list \<Rightarrow> 's dock_graph panics" where
  "finalize_checked_mutation so g staging_roots = do {
     live \<leftarrow> reachable_node_ids so g;
     staged \<leftarrow> reachable_node_ids_from so g (filter (\<lambda>n. node so g n \<noteq> None) staging_roots);
     Some (prune_nodes_not_in so g (live \<union> staged))
   }"

end
