(* ===== verification/Dock_Edge.thy ===== *)
theory Dock_Edge
  imports Dock_Canonical
begin

text \<open>
  Docking against an edge (\<open>crates/gpui_docking/src/graph_edge_dock.rs\<close>, plans of \<open>graph.rs\<close>): the plan for a
  target and a zone, whether a plan is still current, and its application.
\<close>

section \<open>Plans\<close>

text \<open>The share of the new child.\<close>

type_synonym edge_sizing = f32

definition f32_epsilon :: f32 where
  "f32_epsilon = Fin (1 / 2 ^ 23)"

definition fallback_share :: f32 where
  "fallback_share = Fin (1 / 2)"

definition from_new_child_share :: "f32 \<Rightarrow> edge_sizing" where
  "from_new_child_share share =
     (if f32_is_finite share \<and> f32_lt (Fin 0) share then f32_clamp share f32_epsilon (f32_sub (Fin 1) f32_epsilon) else fallback_share)"

definition sizing_fallback :: edge_sizing where
  "sizing_fallback = from_new_child_share fallback_share"

definition from_extents :: "f32 \<Rightarrow> f32 \<Rightarrow> edge_sizing" where
  "from_extents new_child_extent target =
     (if \<not> f32_is_finite target \<or> f32_le target f32_epsilon then sizing_fallback
      else if \<not> f32_is_finite new_child_extent \<or> f32_le new_child_extent f32_epsilon then sizing_fallback
      else from_new_child_share (f32_clamp (f32_div new_child_extent target) (Fin 0) (Fin 1)))"

definition sizing_is_valid :: "edge_sizing \<Rightarrow> bool" where
  "sizing_is_valid s \<longleftrightarrow> f32_is_finite s \<and> f32_lt (Fin 0) s \<and> f32_lt s (Fin 1)"

datatype sizing_scope = WholeSplit | AnchorChild

datatype edge_plan =
    InsertIntoSplit (plan_split: node_id) (plan_zone: drop_zone) (plan_anchor: node_id) (plan_anchor_index: nat)
      (plan_insert_index: nat) (plan_sizing: edge_sizing) sizing_scope
  | WrapTarget (plan_target: node_id) split_axis (plan_zone: drop_zone) (plan_sizing: edge_sizing)

fun target_node :: "edge_plan \<Rightarrow> node_id" where
  "target_node (InsertIntoSplit split zone anchor_child ai ii sizing scope) = split"
| "target_node (WrapTarget target axis zone sizing) = target"

fun set_sizing :: "edge_sizing \<Rightarrow> edge_plan \<Rightarrow> edge_plan" where
  "set_sizing next_sizing (InsertIntoSplit split zone anchor_child ai ii sizing scope) =
     InsertIntoSplit split zone anchor_child ai ii next_sizing scope"
| "set_sizing next_sizing (WrapTarget target axis zone sizing) = WrapTarget target axis zone next_sizing"

fun zone_axis :: "drop_zone \<Rightarrow> split_axis option" where
  "zone_axis ZLeft = Some Horizontal"
| "zone_axis ZRight = Some Horizontal"
| "zone_axis ZTop = Some Vertical"
| "zone_axis ZBottom = Some Vertical"
| "zone_axis ZCenter = None"

definition zone_leads :: "drop_zone \<Rightarrow> bool" where
  "zone_leads z \<longleftrightarrow> z = ZLeft \<or> z = ZTop"

record parent_index =
  pi_root_for :: "node_id \<rightharpoonup> node_id"
  pi_parent :: "node_id \<rightharpoonup> node_id"
  pi_split_child_index :: "node_id \<rightharpoonup> nat"

partial_function (option) index_subtree ::
  "'s slot_ops \<Rightarrow> 's dock_graph \<Rightarrow> node_id \<Rightarrow> node_id \<Rightarrow> parent_index \<Rightarrow> parent_index panics" where
  "index_subtree so g nid n ix =
     (if pi_root_for ix n \<noteq> None then Some ix
      else
        let ix1 = ix\<lparr>pi_root_for := (pi_root_for ix)(n \<mapsto> nid)\<rparr> in
        case node so g n of
          Some (Floating child) \<Rightarrow> index_subtree so g nid child (ix1\<lparr>pi_parent := (pi_parent ix1)(child \<mapsto> n)\<rparr>)
        | Some (Split axis children fractions) \<Rightarrow>
            for_p (\<lambda>(i, child) ix. index_subtree so g nid child
                (ix\<lparr>pi_parent := (pi_parent ix)(child \<mapsto> n),
                    pi_split_child_index := (pi_split_child_index ix)(child \<mapsto> i)\<rparr>))
              (List.enumerate 0 children) ix1
        | _ \<Rightarrow> Some ix1)"

definition build_parent_index :: "'s slot_ops \<Rightarrow> 's dock_graph \<Rightarrow> space_id \<Rightarrow> parent_index panics" where
  "build_parent_index so g space =
     for_p (\<lambda>r. index_subtree so g r r) (forest_roots g space)
       \<lparr>pi_root_for = Map.empty, pi_parent = Map.empty, pi_split_child_index = Map.empty\<rparr>"

text \<open>The loop over the parents; indexing the children may panic.\<close>

partial_function (option) plan_in_parents ::
  "'s slot_ops \<Rightarrow> 's dock_graph \<Rightarrow> parent_index \<Rightarrow> drop_zone \<Rightarrow> split_axis \<Rightarrow> node_id \<Rightarrow> edge_plan option panics" where
  "plan_in_parents so g ix zone axis cur =
     (case pi_parent ix cur of
        None \<Rightarrow> Some None
      | Some parent \<Rightarrow>
          (case node so g parent of
             Some (Split parent_axis children fractions) \<Rightarrow>
               if parent_axis \<noteq> axis \<or> children = [] \<or> length children \<noteq> length fractions then Some None
               else
                 (case pi_split_child_index ix cur of
                    None \<Rightarrow> Some None
                  | Some i \<Rightarrow>
                      if i < length children
                      then Some (Some (InsertIntoSplit parent zone (children ! i) i (if zone_leads zone then i else i + 1)
                             sizing_fallback AnchorChild))
                      else None)
           | _ \<Rightarrow> plan_in_parents so g ix zone axis parent))"

definition edge_dock_plan :: "'s slot_ops \<Rightarrow> 's dock_graph \<Rightarrow> space_id \<Rightarrow> node_id \<Rightarrow> drop_zone \<Rightarrow> edge_plan option panics" where
  "edge_dock_plan so g space target zone =
     (case zone_axis zone of
        None \<Rightarrow> Some None
      | Some axis \<Rightarrow> do {
          ix \<leftarrow> build_parent_index so g space;
          if pi_root_for ix target = None then Some None
          else
            let otherwise = do {
              p \<leftarrow> plan_in_parents so g ix zone axis target;
              Some (case p of Some plan \<Rightarrow> Some plan | None \<Rightarrow> Some (WrapTarget target axis zone sizing_fallback)) } in
            case node so g target of
              Some (Split target_axis children fractions) \<Rightarrow>
                if target_axis = axis \<and> children \<noteq> [] \<and> length children = length fractions
                then
                  (let anchor_index = (if zone_leads zone then 0 else length children - 1);
                       insert_index = (if zone_leads zone then 0 else length children) in
                   Some (Some (InsertIntoSplit target zone (children ! anchor_index) anchor_index insert_index
                     sizing_fallback WholeSplit)))
                else otherwise
            | _ \<Rightarrow> otherwise
        })"

definition edge_dock_plan_with_sizing ::
  "'s slot_ops \<Rightarrow> 's dock_graph \<Rightarrow> space_id \<Rightarrow> node_id \<Rightarrow> drop_zone \<Rightarrow> edge_sizing \<Rightarrow> edge_plan option panics" where
  "edge_dock_plan_with_sizing so g space target zone sizing = do {
     p \<leftarrow> edge_dock_plan so g space target zone; Some (map_option (set_sizing sizing) p) }"

definition edge_insert_index_matches_zone :: "drop_zone \<Rightarrow> nat \<Rightarrow> nat \<Rightarrow> bool" where
  "edge_insert_index_matches_zone zone anchor_index insert_index \<longleftrightarrow>
     zone \<noteq> ZCenter \<and> insert_index = (if zone_leads zone then anchor_index else anchor_index + 1)"

fun edge_dock_plan_is_current :: "'s slot_ops \<Rightarrow> 's dock_graph \<Rightarrow> space_id \<Rightarrow> edge_plan \<Rightarrow> bool panics" where
  "edge_dock_plan_is_current so g space (InsertIntoSplit split zone anchor_child anchor_index insert_index sizing scope) = do {
     r \<leftarrow> (if zone = ZCenter then Some None else root_for_node_in_space so g space split);
     Some (r \<noteq> None \<and>
       (case node so g split of
          Some (Split axis children fractions) \<Rightarrow>
            zone_axis zone = Some axis \<and> children \<noteq> [] \<and> length children = length fractions \<and>
            anchor_index < length fractions \<and> children ! anchor_index = anchor_child \<and> insert_index \<le> length fractions \<and>
            edge_insert_index_matches_zone zone anchor_index insert_index \<and> sizing_is_valid sizing
        | _ \<Rightarrow> False))
   }"
| "edge_dock_plan_is_current so g space (WrapTarget target axis zone sizing) =
     (if zone_axis zone = Some axis \<and> sizing_is_valid sizing
      then do { r \<leftarrow> root_for_node_in_space so g space target; Some (r \<noteq> None) } else Some False)"

section \<open>Application\<close>

text \<open>\<open>Vec::insert\<close> at an index that is not past the end.\<close>

definition vec_insert :: "nat \<Rightarrow> 'a \<Rightarrow> 'a list \<Rightarrow> 'a list" where
  "vec_insert i x xs = take i xs @ x # drop i xs"

definition split_share_and_insert ::
  "node_id list \<Rightarrow> f32 list \<Rightarrow> nat \<Rightarrow> nat \<Rightarrow> node_id \<Rightarrow> edge_sizing \<Rightarrow> sizing_scope \<Rightarrow> (node_id list \<times> f32 list) option" where
  "split_share_and_insert children fractions anchor_index insert_index new_child sizing scope =
     (if children = [] \<or> length children \<noteq> length fractions \<or> length fractions \<le> anchor_index \<or> length fractions < insert_index
      then None
      else
        (let taken = (case scope of WholeSplit \<Rightarrow> sizing | AnchorChild \<Rightarrow> f32_mul (fractions ! anchor_index) sizing);
             scale = f32_sub (Fin 1) taken;
             scaled = (case scope of
               WholeSplit \<Rightarrow> map (\<lambda>f. f32_mul f scale) fractions
             | AnchorChild \<Rightarrow> fractions[anchor_index := f32_sub (fractions ! anchor_index) taken]) in
         Some (vec_insert insert_index new_child children,
               normalize_split_fractions (vec_insert insert_index taken scaled))))"

partial_function (option) find_parent_in_subtree :: "'s slot_ops \<Rightarrow> 's dock_graph \<Rightarrow> node_id \<Rightarrow> node_id \<Rightarrow> node_id option panics" where
  "find_parent_in_subtree so g target n =
     (case node so g n of
        Some (Floating child) \<Rightarrow> if child = target then Some (Some n) else find_parent_in_subtree so g target child
      | Some (Split axis children fractions) \<Rightarrow>
          if target \<in> set children then Some (Some n) else find_map_p (find_parent_in_subtree so g target) children
      | _ \<Rightarrow> Some None)"

definition replace_child_in_node :: "'s slot_ops \<Rightarrow> 's dock_graph \<Rightarrow> node_id \<Rightarrow> node_id \<Rightarrow> node_id \<Rightarrow> bool \<times> 's dock_graph" where
  "replace_child_in_node so g n old new =
     (case node so g n of
        Some (Split axis children fractions) \<Rightarrow>
          (case position (\<lambda>c. c = old) children of
             None \<Rightarrow> (False, g)
           | Some i \<Rightarrow> (True, put_node so g n (Split axis (children[i := new]) fractions)))
      | Some (Floating child) \<Rightarrow> if child \<noteq> old then (False, g) else (True, put_node so g n (Floating new))
      | _ \<Rightarrow> (False, g))"

definition replace_node_in_space_tree ::
  "'s slot_ops \<Rightarrow> 's dock_graph \<Rightarrow> space_id \<Rightarrow> node_id \<Rightarrow> node_id \<Rightarrow> (bool \<times> 's dock_graph) panics" where
  "replace_node_in_space_tree so g space old new =
     (if root_of g space = Some old then Some (True, set_root g space new)
      else case position (\<lambda>c. fc_node c = old) (floating_containers g space) of
        Some i \<Rightarrow>
          Some (True, g\<lparr>dg_floatings :=
            bt_modify space (\<lambda>cs. cs[i := (cs ! i)\<lparr>fc_node := new\<rparr>]) (dg_floatings g)\<rparr>)
      | None \<Rightarrow> do {
          parent \<leftarrow> find_map_p (find_parent_in_subtree so g old) (forest_roots g space);
          Some (case parent of Some p \<Rightarrow> replace_child_in_node so g p old new | None \<Rightarrow> (False, g))
        })"

text \<open>\<open>ordered_edge_children\<close> and \<open>ordered_edge_fractions\<close>: the center zone is unreachable, a panic.\<close>

definition ordered_edge :: "drop_zone \<Rightarrow> 'a \<Rightarrow> 'a \<Rightarrow> ('a \<times> 'a) panics" where
  "ordered_edge zone new old =
     (if zone = ZCenter then None else if zone_leads zone then Some (new, old) else Some (old, new))"

fun apply_edge_dock_plan ::
  "'s slot_ops \<Rightarrow> 's dock_graph \<Rightarrow> space_id \<Rightarrow> edge_plan \<Rightarrow> node_id \<Rightarrow> (bool \<times> 's dock_graph) panics" where
  "apply_edge_dock_plan so g space (InsertIntoSplit split zone anchor_child anchor_index insert_index sizing scope) new_child =
     Some (case node so g split of
       Some (Split axis children fractions) \<Rightarrow>
         (case split_share_and_insert children fractions anchor_index insert_index new_child sizing scope of
            None \<Rightarrow> (False, g)
          | Some (children', fractions') \<Rightarrow> (True, put_node so g split (Split axis children' fractions')))
     | _ \<Rightarrow> (False, g))"
| "apply_edge_dock_plan so g space (WrapTarget target axis zone sizing) new_child = do {
     (leading, trailing) \<leftarrow> ordered_edge zone new_child target;
     (leading_share, trailing_share) \<leftarrow> ordered_edge zone sizing (f32_sub (Fin 1) sizing);
     let (split, g1) = insert_node so g (Split axis [leading, trailing] [leading_share, trailing_share]);
     replace_node_in_space_tree so g1 space target split
   }"

end
