(* ===== verification/Dock_Mutation.thy ===== *)
theory Dock_Mutation
  imports Dock_Edge
begin

text \<open>
  The unchecked mutations of the docking graph (\<open>crates/gpui_docking/src/graph_tab_stack.rs\<close>,
  \<open>graph_mutation.rs\<close>, \<open>graph_floating_mutation.rs\<close>): each says whether it changed the graph, with the graph after it;
  a refusal may come after a part of the work.
\<close>

type_synonym 's mutation = "(bool \<times> 's dock_graph) panics"

datatype drop_target = Center node_id | TabBar node_id nat | Edge edge_plan | EmptySpace

fun existing_node :: "drop_target \<Rightarrow> node_id option" where
  "existing_node (Center tabs) = Some tabs"
| "existing_node (TabBar tabs i) = Some tabs"
| "existing_node (Edge plan) = Some (target_node plan)"
| "existing_node EmptySpace = None"

definition is_tabs :: "dock_node option \<Rightarrow> bool" where
  "is_tabs n \<longleftrightarrow> (case n of Some (Tabs _ _) \<Rightarrow> True | _ \<Rightarrow> False)"

text \<open>The simplification of both spaces at the end of a move.\<close>

definition simplify_both :: "'s slot_ops \<Rightarrow> 's dock_graph \<Rightarrow> space_id \<Rightarrow> space_id \<Rightarrow> 's dock_graph panics" where
  "simplify_both so g source target = do {
     g1 \<leftarrow> simplify_space so g source;
     if source \<noteq> target then simplify_space so g1 target else Some g1
   }"

section \<open>Tab stacks\<close>

record detached_tabs =
  dt_items :: "item_id list"
  dt_selected :: "item_id option"
  dt_history :: selection_state

definition take_tabs_from_space_with_simplify ::
  "'s slot_ops \<Rightarrow> 's dock_graph \<Rightarrow> space_id \<Rightarrow> node_id \<Rightarrow> bool \<Rightarrow> (detached_tabs option \<times> 's dock_graph) panics" where
  "take_tabs_from_space_with_simplify so g space tabs simplify = do {
     r \<leftarrow> root_for_node_in_space so g space tabs;
     case (r, node so g tabs) of
       (Some _, Some (Tabs items selected)) \<Rightarrow>
         if items = [] then Some (None, g)
         else do {
           let (history, g1) = take_tab_selection_state g tabs;
           let g2 = put_node so g1 tabs (Tabs [] None);
           let g3 = (if root_of g2 space = Some tabs then remove_root g2 space else g2);
           g4 \<leftarrow> (if simplify then simplify_space so g3 space else Some g3);
           Some (Some \<lparr>dt_items = items, dt_selected = selected, dt_history = history\<rparr>, g4)
         }
     | _ \<Rightarrow> Some (None, g)
   }"

definition insert_detached_tabs :: "'s slot_ops \<Rightarrow> 's dock_graph \<Rightarrow> detached_tabs \<Rightarrow> node_id \<times> 's dock_graph" where
  "insert_detached_tabs so g d =
     (let (tabs, g1) = insert_node so g (Tabs (dt_items d) (dt_selected d)) in
      (tabs, restore_tab_selection_state g1 tabs (dt_history d)))"

definition insert_item_into_tabs_at ::
  "'s slot_ops \<Rightarrow> 's dock_graph \<Rightarrow> node_id \<Rightarrow> item_id \<Rightarrow> nat option \<Rightarrow> item_id option \<Rightarrow> bool \<times> 's dock_graph" where
  "insert_item_into_tabs_at so g tabs item index selected_in_group =
     (case node so g tabs of
        Some (Tabs items selected) \<Rightarrow>
          (let items' =
             (if item \<in> set items then items
              else case index of Some i \<Rightarrow> vec_insert (min i (length items)) item items | None \<Rightarrow> items @ [item]);
               next_selected = (case selected_in_group of Some s \<Rightarrow> s | None \<Rightarrow> item) in
           (True, record_tab_selection (put_node so g tabs (Tabs items' (Some item))) tabs next_selected))
      | _ \<Rightarrow> (False, g))"

text \<open>The loop of \<open>insert_items_into_tabs_at\<close>; \<open>saturating_add\<close> on the index of a vector does not saturate.\<close>

fun insert_missing :: "item_id list \<Rightarrow> nat \<Rightarrow> item_id list \<Rightarrow> item_id list" where
  "insert_missing [] i items = items"
| "insert_missing (x # xs) i items =
     (if x \<in> set items then insert_missing xs i items else insert_missing xs (i + 1) (vec_insert i x items))"

definition insert_items_into_tabs_at ::
  "'s slot_ops \<Rightarrow> 's dock_graph \<Rightarrow> node_id \<Rightarrow> item_id list \<Rightarrow> nat option \<Rightarrow> item_id option \<Rightarrow> bool \<times> 's dock_graph" where
  "insert_items_into_tabs_at so g tabs next_items index selected_in_group =
     (if next_items = [] then (True, g)
      else case node so g tabs of
        Some (Tabs items selected) \<Rightarrow>
          (let start = min (case index of Some i \<Rightarrow> i | None \<Rightarrow> length items) (length items);
               items' = insert_missing next_items start items in
           (True, case selected_in_group of
              Some s \<Rightarrow> record_tab_selection (put_node so g tabs (Tabs items' (Some s))) tabs s
            | None \<Rightarrow> put_node so g tabs (Tabs items' selected)))
      | _ \<Rightarrow> (False, g))"

definition remove_item_from_tabs :: "'s slot_ops \<Rightarrow> 's dock_graph \<Rightarrow> node_id \<Rightarrow> nat \<Rightarrow> bool \<times> 's dock_graph" where
  "remove_item_from_tabs so g tabs index =
     (case node so g tabs of
        Some (Tabs items selected) \<Rightarrow>
          if length items \<le> index then (False, g)
          else
            (let removed = items ! index;
                 items' = take index items @ drop (index + 1) items;
                 selected' = (if items' = [] then None else if selected = Some removed then Some (hd items') else selected);
                 g1 = put_node so g tabs (Tabs items' selected') in
             (True,
              case map_of (dg_history g1) tabs of
                None \<Rightarrow> g1
              | Some state \<Rightarrow>
                  (let stamps = bt_remove removed (ss_stamps state) in
                   g1\<lparr>dg_history :=
                     if stamps = [] then bt_remove tabs (dg_history g1)
                     else bt_modify tabs (\<lambda>st. st\<lparr>ss_stamps := stamps\<rparr>) (dg_history g1)\<rparr>)))
      | _ \<Rightarrow> (False, g))"

section \<open>Tabs and splits\<close>

definition select_tab :: "'s slot_ops \<Rightarrow> 's dock_graph \<Rightarrow> node_id \<Rightarrow> item_id \<Rightarrow> bool \<times> 's dock_graph" where
  "select_tab so g tabs item =
     (case node so g tabs of
        Some (Tabs items selected) \<Rightarrow>
          if item \<notin> set items then (False, g)
          else (selected \<noteq> Some item, put_node so (record_tab_selection g tabs item) tabs (Tabs items (Some item)))
      | _ \<Rightarrow> (False, g))"

definition close_fractions :: "f32 list \<Rightarrow> f32 list \<Rightarrow> bool" where
  "close_fractions xs ys \<longleftrightarrow> list_all (\<lambda>(x, y). f32_le (f32_abs (f32_sub x y)) split_epsilon) (zip xs ys)"

definition update_split_fractions :: "'s slot_ops \<Rightarrow> 's dock_graph \<Rightarrow> node_id \<Rightarrow> f32 list \<Rightarrow> bool \<times> 's dock_graph" where
  "update_split_fractions so g split fs =
     (case node so g split of
        Some (Split axis children fractions) \<Rightarrow>
          if length children < 2 \<or> length fs \<noteq> length children then (False, g)
          else
            (let next_fractions = normalize_split_fractions fs in
             if length fractions = length next_fractions \<and> close_fractions fractions next_fractions then (False, g)
             else (True, put_node so g split (Split axis children next_fractions)))
      | _ \<Rightarrow> (False, g))"

definition update_split_two :: "'s slot_ops \<Rightarrow> 's dock_graph \<Rightarrow> node_id \<Rightarrow> f32 \<Rightarrow> bool \<times> 's dock_graph" where
  "update_split_two so g split first_fraction =
     (case node so g split of
        Some (Split axis children fractions) \<Rightarrow>
          if length children \<noteq> 2 \<or> length fractions \<noteq> 2 then (False, g)
          else
            (let first = f32_clamp first_fraction (Fin 0) (Fin 1); next_fractions = [first, f32_sub (Fin 1) first] in
             if close_fractions fractions next_fractions then (False, g)
             else (True, put_node so g split (Split axis children next_fractions)))
      | _ \<Rightarrow> (False, g))"

fun update_many :: "'s slot_ops \<Rightarrow> 's dock_graph \<Rightarrow> (node_id \<times> f32 list) list \<Rightarrow> bool \<times> 's dock_graph" where
  "update_many so g [] = (False, g)"
| "update_many so g ((split, fs) # us) =
     (let (c1, g1) = update_split_fractions so g split fs; (c2, g2) = update_many so g1 us in (c1 \<or> c2, g2))"

section \<open>Closing and opening\<close>

definition reselect :: "'s slot_ops \<Rightarrow> 's dock_graph \<Rightarrow> node_id \<Rightarrow> item_id option \<Rightarrow> 's dock_graph" where
  "reselect so g tabs preferred =
     (case (preferred, node so g tabs) of
        (Some p, Some (Tabs items selected)) \<Rightarrow> if p \<in> set items then put_node so g tabs (Tabs items (Some p)) else g
      | _ \<Rightarrow> g)"

definition close_item :: "'s slot_ops \<Rightarrow> 's dock_graph \<Rightarrow> space_id \<Rightarrow> item_id \<Rightarrow> 's mutation" where
  "close_item so g space item = do {
     found \<leftarrow> find_item_in_space so g space item;
     case found of
       None \<Rightarrow> Some (False, g)
     | Some (tabs, index) \<Rightarrow>
         (let preferred =
            (case node so g tabs of
               Some (Tabs items selected) \<Rightarrow> if selected = Some item then preferred_tab_after_close g tabs item items else None
             | _ \<Rightarrow> None) in
          case remove_item_from_tabs so g tabs index of
            (False, g1) \<Rightarrow> Some (False, g1)
          | (True, g1) \<Rightarrow> do { g2 \<leftarrow> simplify_space so (reselect so g1 tabs preferred) space; Some (True, g2) })
   }"

definition open_item :: "'s slot_ops \<Rightarrow> 's dock_graph \<Rightarrow> space_id \<Rightarrow> node_id option \<Rightarrow> item_id \<Rightarrow> nat option \<Rightarrow> 's mutation" where
  "open_item so g space target_tabs item insert_index = do {
     present \<leftarrow> contains_item so g item;
     if present then Some (False, g)
     else case target_tabs of
       Some tabs \<Rightarrow> do {
         r \<leftarrow> root_for_node_in_space so g space tabs;
         Some (if r = None then (False, g) else insert_item_into_tabs_at so g tabs item insert_index None)
       }
     | None \<Rightarrow>
         Some (if root_of g space \<noteq> None \<or> floating_containers g space \<noteq> [] then (False, g)
           else
             (let (tabs, g1) = insert_node so g (Tabs [item] (Some item)) in (True, set_root_for_empty_space g1 space tabs)))
   }"

section \<open>When a space counts as empty\<close>

definition target_space_is_empty_for_open :: "'s dock_graph \<Rightarrow> space_id \<Rightarrow> bool" where
  "target_space_is_empty_for_open g space \<longleftrightarrow> root_of g space = None \<and> floating_containers g space = []"

definition target_space_is_empty_for_item_move ::
  "'s slot_ops \<Rightarrow> 's dock_graph \<Rightarrow> space_id \<Rightarrow> item_id \<Rightarrow> space_id \<Rightarrow> bool panics" where
  "target_space_is_empty_for_item_move so g source item target =
     (if root_of g target \<noteq> None then Some False
      else if source \<noteq> target then Some (floating_containers g target = [])
      else do { items \<leftarrow> collect_items_in_space so g target; Some (items = [] \<or> items = [item]) })"

definition target_space_is_empty_for_tabs_move ::
  "'s slot_ops \<Rightarrow> 's dock_graph \<Rightarrow> space_id \<Rightarrow> node_id \<Rightarrow> space_id \<Rightarrow> bool panics" where
  "target_space_is_empty_for_tabs_move so g source tabs target =
     (if root_of g target \<noteq> None then Some False
      else if source \<noteq> target then Some (floating_containers g target = [])
      else do {
        items \<leftarrow> collect_items_in_space so g target;
        if items = [] then Some True
        else do { moved \<leftarrow> collect_items_in_subtree so g tabs; Some (moved \<noteq> [] \<and> items = moved) }
      })"

definition target_space_is_empty_for_floating_move :: "'s dock_graph \<Rightarrow> space_id \<Rightarrow> node_id \<Rightarrow> space_id \<Rightarrow> bool" where
  "target_space_is_empty_for_floating_move g source floating target \<longleftrightarrow>
     root_of g target = None \<and>
     (if source \<noteq> target then floating_containers g target = []
      else floating_containers g target \<noteq> [] \<and> list_all (\<lambda>c. fc_node c = floating) (floating_containers g target))"

end
