(* ===== verification/Dock_Moves.thy ===== *)
theory Dock_Moves
  imports Dock_Mutation
begin

text \<open>
  Moves of items, tab stacks and floating containers between dock spaces (\<open>crates/gpui_docking/src/graph_mutation.rs\<close>,
  \<open>graph_floating_mutation.rs\<close>).
\<close>

section \<open>Moving an item\<close>

text \<open>The end of a move: simplify, and report the result of the insertion.\<close>

definition settle :: "'s slot_ops \<Rightarrow> space_id \<Rightarrow> space_id \<Rightarrow> bool \<times> 's dock_graph \<Rightarrow> 's mutation" where
  "settle so source target = (\<lambda>(ok, g). do { g1 \<leftarrow> simplify_both so g source target; Some (ok, g1) })"

definition settle_if :: "'s slot_ops \<Rightarrow> space_id \<Rightarrow> space_id \<Rightarrow> bool \<times> 's dock_graph \<Rightarrow> 's mutation" where
  "settle_if so source target = (\<lambda>(ok, g). if ok then settle so source target (True, g) else Some (False, g))"

definition move_item_to_empty_space :: "'s slot_ops \<Rightarrow> 's dock_graph \<Rightarrow> space_id \<Rightarrow> item_id \<Rightarrow> space_id \<Rightarrow> 's mutation" where
  "move_item_to_empty_space so g source item target = do {
     found \<leftarrow> find_item_in_space so g source item;
     case found of
       None \<Rightarrow> Some (False, g)
     | Some (tabs, index) \<Rightarrow>
         (case remove_item_from_tabs so g tabs index of
            (False, g1) \<Rightarrow> Some (False, g1)
          | (True, g1) \<Rightarrow> do {
              let (n, g2) = insert_node so g1 (Tabs [item] (Some item));
              g3 \<leftarrow> simplify_space so (set_root_for_empty_space g2 target n) source;
              g4 \<leftarrow> simplify_space so g3 target;
              Some (True, g4)
            })
   }"

definition move_item_between_spaces ::
  "'s slot_ops \<Rightarrow> 's dock_graph \<Rightarrow> space_id \<Rightarrow> item_id \<Rightarrow> space_id \<Rightarrow> drop_target \<Rightarrow> 's mutation" where
  "move_item_between_spaces so g source item target_space target = do {
     found \<leftarrow> find_item_in_space so g source item;
     case found of
       None \<Rightarrow> Some (False, g)
     | Some (source_tabs, source_index) \<Rightarrow>
         (case target of
            Center tabs \<Rightarrow>
              if source = target_space \<and> source_tabs = tabs then Some (False, g)
              else do {
                r \<leftarrow> root_for_node_in_space so g target_space tabs;
                if r = None \<or> \<not> is_tabs (node so g tabs) then Some (False, g)
                else case remove_item_from_tabs so g source_tabs source_index of
                  (False, g1) \<Rightarrow> Some (False, g1)
                | (True, g1) \<Rightarrow> settle so source target_space (insert_item_into_tabs_at so g1 tabs item None None)
              }
          | TabBar tabs insert_index \<Rightarrow> do {
              r \<leftarrow> root_for_node_in_space so g target_space tabs;
              if r = None \<or> \<not> is_tabs (node so g tabs) then Some (False, g)
              else if source = target_space \<and> source_tabs = tabs \<and> (insert_index = source_index \<or> insert_index = source_index + 1)
              then Some (False, g)
              else case remove_item_from_tabs so g source_tabs source_index of
                (False, g1) \<Rightarrow> Some (False, g1)
              | (True, g1) \<Rightarrow>
                  settle so source target_space
                    (insert_item_into_tabs_at so g1 tabs item
                      (Some (if source = target_space \<and> source_tabs = tabs \<and> source_index < insert_index
                             then insert_index - 1 else insert_index)) None)
            }
          | Edge plan \<Rightarrow>
              (case remove_item_from_tabs so g source_tabs source_index of
                 (False, g1) \<Rightarrow> Some (False, g1)
               | (True, g1) \<Rightarrow> do {
                   let (n, g2) = insert_node so g1 (Tabs [item] (Some item));
                   docked \<leftarrow> apply_edge_dock_plan so g2 target_space plan n;
                   settle_if so source target_space docked
                 })
          | EmptySpace \<Rightarrow> do {
              empty \<leftarrow> target_space_is_empty_for_item_move so g source item target_space;
              if \<not> empty then Some (False, g) else move_item_to_empty_space so g source item target_space
            })
   }"

section \<open>Moving a tab stack\<close>

definition move_tabs_to_empty_space :: "'s slot_ops \<Rightarrow> 's dock_graph \<Rightarrow> space_id \<Rightarrow> node_id \<Rightarrow> space_id \<Rightarrow> 's mutation" where
  "move_tabs_to_empty_space so g source source_tabs target = do {
     (detached, g1) \<leftarrow> take_tabs_from_space_with_simplify so g source source_tabs True;
     case detached of
       None \<Rightarrow> Some (False, g1)
     | Some d \<Rightarrow> do {
         let (tabs, g2) = insert_detached_tabs so g1 d;
         g3 \<leftarrow> simplify_space so (set_root_for_empty_space g2 target tabs) target;
         Some (True, g3)
       }
   }"

text \<open>The merge of a tab stack into another, at its end or at an index.\<close>

definition merge_tabs ::
  "'s slot_ops \<Rightarrow> 's dock_graph \<Rightarrow> space_id \<Rightarrow> node_id \<Rightarrow> space_id \<Rightarrow> node_id \<Rightarrow> nat option \<Rightarrow> 's mutation" where
  "merge_tabs so g source source_tabs target_space tabs index =
     (if source = target_space \<and> source_tabs = tabs then Some (False, g)
      else do {
        r \<leftarrow> root_for_node_in_space so g target_space tabs;
        if r = None \<or> \<not> is_tabs (node so g tabs) then Some (False, g)
        else do {
          (detached, g1) \<leftarrow> take_tabs_from_space_with_simplify so g source source_tabs False;
          case detached of
            None \<Rightarrow> Some (False, g1)
          | Some d \<Rightarrow> settle so source target_space (insert_items_into_tabs_at so g1 tabs (dt_items d) index (dt_selected d))
        }
      })"

definition move_tabs_between_spaces ::
  "'s slot_ops \<Rightarrow> 's dock_graph \<Rightarrow> space_id \<Rightarrow> node_id \<Rightarrow> space_id \<Rightarrow> drop_target \<Rightarrow> 's mutation" where
  "move_tabs_between_spaces so g source source_tabs target_space target =
     (case target of
        Center tabs \<Rightarrow> merge_tabs so g source source_tabs target_space tabs None
      | TabBar tabs insert_index \<Rightarrow> merge_tabs so g source source_tabs target_space tabs (Some insert_index)
      | Edge plan \<Rightarrow> do {
          (detached, g1) \<leftarrow> take_tabs_from_space_with_simplify so g source source_tabs False;
          case detached of
            None \<Rightarrow> Some (False, g1)
          | Some d \<Rightarrow> do {
              let (tabs, g2) = insert_detached_tabs so g1 d;
              docked \<leftarrow> apply_edge_dock_plan so g2 target_space plan tabs;
              settle_if so source target_space docked
            }
        }
      | EmptySpace \<Rightarrow> do {
          empty \<leftarrow> target_space_is_empty_for_tabs_move so g source source_tabs target_space;
          if \<not> empty then Some (False, g) else move_tabs_to_empty_space so g source source_tabs target_space
        })"

section \<open>Floating containers\<close>

definition float_item_in_window ::
  "'s slot_ops \<Rightarrow> 's dock_graph \<Rightarrow> space_id \<Rightarrow> item_id \<Rightarrow> space_id \<Rightarrow> dock_rect \<Rightarrow> 's mutation" where
  "float_item_in_window so g source item target bounds = do {
     found \<leftarrow> find_item_in_space so g source item;
     case found of
       None \<Rightarrow> Some (False, g)
     | Some (source_tabs, source_index) \<Rightarrow>
         (case remove_item_from_tabs so g source_tabs source_index of
            (False, g1) \<Rightarrow> Some (False, g1)
          | (True, g1) \<Rightarrow> do {
              let (tabs, g2) = insert_node so g1 (Tabs [item] (Some item));
              let (floating, g3) = insert_node so g2 (Floating tabs);
              g4 \<leftarrow> simplify_space so (push_floating g3 target \<lparr>fc_node = floating, fc_bounds = bounds\<rparr>) source;
              g5 \<leftarrow> simplify_space so g4 target;
              Some (True, g5)
            })
   }"

definition float_tabs_in_window ::
  "'s slot_ops \<Rightarrow> 's dock_graph \<Rightarrow> space_id \<Rightarrow> node_id \<Rightarrow> space_id \<Rightarrow> dock_rect \<Rightarrow> 's mutation" where
  "float_tabs_in_window so g source source_tabs target bounds = do {
     (detached, g1) \<leftarrow> take_tabs_from_space_with_simplify so g source source_tabs True;
     case detached of
       None \<Rightarrow> Some (False, g1)
     | Some d \<Rightarrow> do {
         let (tabs, g2) = insert_detached_tabs so g1 d;
         let (floating, g3) = insert_node so g2 (Floating tabs);
         g4 \<leftarrow> simplify_space so (push_floating g3 target \<lparr>fc_node = floating, fc_bounds = bounds\<rparr>) target;
         Some (True, g4)
       }
   }"

definition set_floating_bounds :: "'s dock_graph \<Rightarrow> space_id \<Rightarrow> node_id \<Rightarrow> dock_rect \<Rightarrow> bool \<times> 's dock_graph" where
  "set_floating_bounds g space floating bounds =
     (case position (\<lambda>c. fc_node c = floating) (floating_containers g space) of
        None \<Rightarrow> (False, g)
      | Some i \<Rightarrow>
          if rect_eq (fc_bounds (floating_containers g space ! i)) bounds then (False, g)
          else (True, g\<lparr>dg_floatings :=
            bt_modify space (\<lambda>cs. cs[i := (cs ! i)\<lparr>fc_bounds := bounds\<rparr>]) (dg_floatings g)\<rparr>))"

definition raise_floating :: "'s dock_graph \<Rightarrow> space_id \<Rightarrow> node_id \<Rightarrow> bool \<times> 's dock_graph" where
  "raise_floating g space floating =
     (case position (\<lambda>c. fc_node c = floating) (floating_containers g space) of
        None \<Rightarrow> (False, g)
      | Some i \<Rightarrow>
          if i + 1 = length (floating_containers g space) then (False, g)
          else (True, g\<lparr>dg_floatings :=
            bt_modify space (\<lambda>cs. take i cs @ drop (i + 1) cs @ [cs ! i]) (dg_floatings g)\<rparr>))"

definition take_floating_child_from_space ::
  "'s slot_ops \<Rightarrow> 's dock_graph \<Rightarrow> space_id \<Rightarrow> node_id \<Rightarrow> node_id option \<times> 's dock_graph" where
  "take_floating_child_from_space so g space floating =
     (case node so g floating of
        Some (Floating child) \<Rightarrow>
          (case position (\<lambda>c. fc_node c = floating) (floating_containers g space) of
             None \<Rightarrow> (None, g)
           | Some i \<Rightarrow>
               (Some child, g\<lparr>dg_floatings := bt_modify space (\<lambda>cs. take i cs @ drop (i + 1) cs) (dg_floatings g)\<rparr>))
      | _ \<Rightarrow> (None, g))"

definition merge_floating_tabs_into_tabs ::
  "'s slot_ops \<Rightarrow> 's dock_graph \<Rightarrow> space_id \<Rightarrow> node_id \<Rightarrow> node_id \<Rightarrow> space_id \<Rightarrow> node_id \<Rightarrow> nat option \<Rightarrow> 's mutation" where
  "merge_floating_tabs_into_tabs so g source floating floating_tabs target_space target_tabs insert_index =
     (case (is_tabs (node so g target_tabs), node so g floating_tabs) of
        (True, Some (Tabs items selected)) \<Rightarrow>
          if items = [] then Some (False, g)
          else
            (case take_floating_child_from_space so g source floating of
               (None, g1) \<Rightarrow> Some (False, g1)
             | (Some _, g1) \<Rightarrow>
                 settle_if so source target_space
                   (insert_items_into_tabs_at so g1 target_tabs items insert_index (selected_item items selected)))
      | _ \<Rightarrow> Some (False, g))"

definition move_floating_to_empty_space :: "'s slot_ops \<Rightarrow> 's dock_graph \<Rightarrow> space_id \<Rightarrow> node_id \<Rightarrow> space_id \<Rightarrow> 's mutation" where
  "move_floating_to_empty_space so g source floating target =
     (if \<not> target_space_is_empty_for_floating_move g source floating target then Some (False, g)
      else case take_floating_child_from_space so g source floating of
        (None, g1) \<Rightarrow> Some (False, g1)
      | (Some child, g1) \<Rightarrow> settle so source target (True, set_root_for_empty_space g1 target child))"

definition move_floating_between_spaces ::
  "'s slot_ops \<Rightarrow> 's dock_graph \<Rightarrow> space_id \<Rightarrow> node_id \<Rightarrow> space_id \<Rightarrow> drop_target \<Rightarrow> 's mutation" where
  "move_floating_between_spaces so g source floating target_space target =
     (if floating_container_of g source floating = None then Some (False, g)
      else do {
        lost \<leftarrow> (case existing_node target of
                   Some n \<Rightarrow> do { r \<leftarrow> root_for_node_in_space so g target_space n; Some (r = None) }
                 | None \<Rightarrow> Some False);
        own \<leftarrow> (case existing_node target of
                  Some n \<Rightarrow> if \<not> lost \<and> source = target_space then subtree_contains so g n floating else Some False
                | None \<Rightarrow> Some False);
        if lost \<or> own then Some (False, g)
        else case target of
          Center tabs \<Rightarrow>
            (case node so g floating of
               Some (Floating child) \<Rightarrow> do {
                 visible \<leftarrow> is_visible_split_payload so g child;
                 if visible \<or> \<not> is_tabs (node so g child) then Some (False, g)
                 else merge_floating_tabs_into_tabs so g source floating child target_space tabs None
               }
             | _ \<Rightarrow> Some (False, g))
        | TabBar tabs insert_index \<Rightarrow>
            (case node so g floating of
               Some (Floating child) \<Rightarrow>
                 if \<not> is_tabs (node so g child) then Some (False, g)
                 else merge_floating_tabs_into_tabs so g source floating child target_space tabs (Some insert_index)
             | _ \<Rightarrow> Some (False, g))
        | Edge plan \<Rightarrow>
            (case take_floating_child_from_space so g source floating of
               (None, g1) \<Rightarrow> Some (False, g1)
             | (Some child, g1) \<Rightarrow> do {
                 docked \<leftarrow> apply_edge_dock_plan so g1 target_space plan child;
                 settle_if so source target_space docked
               })
        | EmptySpace \<Rightarrow> move_floating_to_empty_space so g source floating target_space
      })"

section \<open>Whole spaces\<close>

definition move_root_to_empty_space :: "'s slot_ops \<Rightarrow> 's dock_graph \<Rightarrow> space_id \<Rightarrow> space_id \<Rightarrow> 's mutation" where
  "move_root_to_empty_space so g source target =
     (if source = target \<or> root_of g target \<noteq> None \<or> floating_containers g target \<noteq> [] then Some (False, g)
      else case root_of g source of
        None \<Rightarrow> Some (False, g)
      | Some r \<Rightarrow> do {
          g1 \<leftarrow> simplify_space so (set_root_for_empty_space (remove_root g source) target r) source;
          g2 \<leftarrow> simplify_space so g1 target;
          Some (True, g2)
        })"

definition move_root_tabs_to_non_empty_space ::
  "'s slot_ops \<Rightarrow> 's dock_graph \<Rightarrow> space_id \<Rightarrow> node_id \<Rightarrow> space_id \<Rightarrow> node_id \<Rightarrow> 's mutation" where
  "move_root_tabs_to_non_empty_space so g source source_root target target_tabs =
     (if \<not> is_tabs (node so g target_tabs) then Some (False, g)
      else do {
        r \<leftarrow> root_for_node_in_space so g target target_tabs;
        if r = None then Some (False, g)
        else do {
          (detached, g1) \<leftarrow> take_tabs_from_space_with_simplify so g source source_root False;
          case detached of
            None \<Rightarrow> Some (False, g1)
          | Some d \<Rightarrow>
              (case insert_items_into_tabs_at so g1 target_tabs (dt_items d) None (dt_selected d) of
                 (False, g2) \<Rightarrow> Some (False, g2)
               | (True, g2) \<Rightarrow> do { g3 \<leftarrow> simplify_space so g2 source; g4 \<leftarrow> simplify_space so g3 target; Some (True, g4) })
        }
      })"

definition move_root_to_non_empty_space :: "'s slot_ops \<Rightarrow> 's dock_graph \<Rightarrow> space_id \<Rightarrow> space_id \<Rightarrow> node_id \<Rightarrow> 's mutation" where
  "move_root_to_non_empty_space so g source target target_tabs =
     (if source = target then Some (False, g)
      else case root_of g source of
        None \<Rightarrow> Some (False, g)
      | Some r \<Rightarrow>
          if root_of g target = None \<or> \<not> is_tabs (node so g r) then Some (False, g)
          else move_root_tabs_to_non_empty_space so g source r target target_tabs)"

definition merge_space_floating_forest_into :: "'s slot_ops \<Rightarrow> 's dock_graph \<Rightarrow> space_id \<Rightarrow> space_id \<Rightarrow> 's mutation" where
  "merge_space_floating_forest_into so g source target =
     (if source = target then Some (False, g)
      else case map_of (dg_floatings g) source of
        None \<Rightarrow> Some (False, g)
      | Some cs \<Rightarrow>
          (let g1 = g\<lparr>dg_floatings := bt_remove source (dg_floatings g)\<rparr> in
           if cs = [] then Some (False, g1)
           else do {
             let g2 = g1\<lparr>dg_floatings := bt_insert target (floating_containers g1 target @ cs) (dg_floatings g1)\<rparr>;
             g3 \<leftarrow> simplify_space so g2 source;
             g4 \<leftarrow> simplify_space so g3 target;
             Some (True, g4)
           }))"

end
