(* ===== verification/Dock_Validation.thy ===== *)
theory Dock_Validation
  imports Dock_Moves
begin

text \<open>
  Validation of the docking graph (\<open>crates/gpui_docking/src/graph_validation.rs\<close>) and the exported layout
  (\<open>layout.rs\<close>).
\<close>

section \<open>Loops with \<open>?\<close>\<close>

fun try_for_p :: "('a \<Rightarrow> 's \<Rightarrow> ('e + 's) panics) \<Rightarrow> 'a list \<Rightarrow> 's \<Rightarrow> ('e + 's) panics" where
  "try_for_p f [] s = Some (Inr s)"
| "try_for_p f (x # xs) s = do { r \<leftarrow> f x s; case r of Inl e \<Rightarrow> Some (Inl e) | Inr s' \<Rightarrow> try_for_p f xs s' }"

lemma try_for_p_mono [partial_function_mono]:
  assumes "\<And>x s. mono_option (\<lambda>f. F f x s)"
  shows "mono_option (\<lambda>f. try_for_p (F f) xs s)"
proof (induction xs arbitrary: s)
  case (Cons x xs)
  have "mono_option (\<lambda>f. case r of Inl e \<Rightarrow> Some (Inl e) | Inr s' \<Rightarrow> try_for_p (F f) xs s')" for r
    using Cons by (cases r) (simp_all add: option.const_mono)
  with assms show ?case by (simp add: bind_mono)
qed (simp add: option.const_mono)

section \<open>Validation\<close>

datatype graph_error =
    SpaceRootMissing space_id node_id
  | FloatingNodeMissing space_id node_id
  | FloatingContainerNodeNotFloating space_id node_id
  | InvalidFloatingBounds space_id node_id
  | MissingNode node_id
  | DuplicateNodeReference node_id
  | CycleDetected node_id
  | EmptyTabs node_id
  | TabsSelectedMissing node_id
  | TabsSelectedItemMissing node_id item_id
  | DuplicateItemId item_id node_id node_id
  | SplitTooFewChildren node_id nat
  | SplitFractionsLenMismatch node_id nat nat
  | SplitFractionInvalid node_id nat
  | CentralNodeNotInRoot space_id node_id
  | UnreachableNode node_id

datatype validation_mark = Visiting | Done

type_synonym validator = "(node_id \<rightharpoonup> validation_mark) \<times> (item_id \<rightharpoonup> node_id)"

fun insert_items :: "node_id \<Rightarrow> item_id list \<Rightarrow> (item_id \<rightharpoonup> node_id) \<Rightarrow> graph_error + (item_id \<rightharpoonup> node_id)" where
  "insert_items tabs [] seen = Inr seen"
| "insert_items tabs (item # items) seen =
     (case seen item of
        Some first_tabs \<Rightarrow> Inl (DuplicateItemId item first_tabs tabs)
      | None \<Rightarrow> insert_items tabs items (seen(item \<mapsto> tabs)))"

definition validate_tabs ::
  "node_id \<Rightarrow> item_id list \<Rightarrow> item_id option \<Rightarrow> (item_id \<rightharpoonup> node_id) \<Rightarrow> graph_error + (item_id \<rightharpoonup> node_id)" where
  "validate_tabs tabs items selected seen =
     (if items = [] then Inl (EmptyTabs tabs)
      else case selected of
        None \<Rightarrow> Inl (TabsSelectedMissing tabs)
      | Some s \<Rightarrow> if s \<notin> set items then Inl (TabsSelectedItemMissing tabs s) else insert_items tabs items seen)"

definition invalid_fraction :: "f32 \<Rightarrow> bool" where
  "invalid_fraction f \<longleftrightarrow> \<not> f32_is_finite f \<or> f32_lt f (Fin 0)"

definition validate_split :: "node_id \<Rightarrow> node_id list \<Rightarrow> f32 list \<Rightarrow> graph_error + unit" where
  "validate_split split children fractions =
     (if length children < 2 then Inl (SplitTooFewChildren split (length children))
      else if length children \<noteq> length fractions
      then Inl (SplitFractionsLenMismatch split (length children) (length fractions))
      else case position invalid_fraction fractions of
        Some i \<Rightarrow> Inl (SplitFractionInvalid split i)
      | None \<Rightarrow> Inr ())"

definition mark_done :: "node_id \<Rightarrow> graph_error + validator \<Rightarrow> graph_error + validator" where
  "mark_done n r = (case r of Inl e \<Rightarrow> Inl e | Inr (marks, items) \<Rightarrow> Inr (marks(n \<mapsto> Done), items))"

partial_function (option) validate_subtree ::
  "'s slot_ops \<Rightarrow> 's dock_graph \<Rightarrow> node_id \<Rightarrow> validator \<Rightarrow> (graph_error + validator) panics" where
  "validate_subtree so g n v =
     (case fst v n of
        Some Visiting \<Rightarrow> Some (Inl (CycleDetected n))
      | Some Done \<Rightarrow> Some (Inl (DuplicateNodeReference n))
      | None \<Rightarrow>
          (let v1 = ((fst v)(n \<mapsto> Visiting), snd v) in
           case node so g n of
             None \<Rightarrow> Some (Inl (MissingNode n))
           | Some (Tabs items selected) \<Rightarrow>
               Some (case validate_tabs n items selected (snd v1) of
                 Inl e \<Rightarrow> Inl e | Inr seen \<Rightarrow> mark_done n (Inr (fst v1, seen)))
           | Some (Floating child) \<Rightarrow> do { r \<leftarrow> validate_subtree so g child v1; Some (mark_done n r) }
           | Some (Split axis children fractions) \<Rightarrow>
               (case validate_split n children fractions of
                  Inl e \<Rightarrow> Some (Inl e)
                | Inr _ \<Rightarrow> do { r \<leftarrow> try_for_p (validate_subtree so g) children v1; Some (mark_done n r) })))"

definition bounds_ok :: "dock_rect \<Rightarrow> bool" where
  "bounds_ok r \<longleftrightarrow> f32_is_finite (rect_x r) \<and> f32_is_finite (rect_y r) \<and> f32_is_finite (rect_width r) \<and>
     f32_is_finite (rect_height r) \<and> f32_le (Fin 0) (rect_width r) \<and> f32_le (Fin 0) (rect_height r)"

definition validate_root :: "'s slot_ops \<Rightarrow> 's dock_graph \<Rightarrow> space_id \<times> node_id \<Rightarrow> validator \<Rightarrow> (graph_error + validator) panics" where
  "validate_root so g = (\<lambda>(space, r) v.
     if node so g r = None then Some (Inl (SpaceRootMissing space r)) else validate_subtree so g r v)"

definition validate_floating ::
  "'s slot_ops \<Rightarrow> 's dock_graph \<Rightarrow> space_id \<times> floating_container \<Rightarrow> validator \<Rightarrow> (graph_error + validator) panics" where
  "validate_floating so g = (\<lambda>(space, c) v.
     if \<not> bounds_ok (fc_bounds c) then Some (Inl (InvalidFloatingBounds space (fc_node c)))
     else case node so g (fc_node c) of
       Some (Floating _) \<Rightarrow> validate_subtree so g (fc_node c) v
     | Some _ \<Rightarrow> Some (Inl (FloatingContainerNodeNotFloating space (fc_node c)))
     | None \<Rightarrow> Some (Inl (FloatingNodeMissing space (fc_node c))))"

definition validate_central ::
  "'s slot_ops \<Rightarrow> 's dock_graph \<Rightarrow> space_id \<times> central_region \<Rightarrow> validator \<Rightarrow> (graph_error + validator) panics" where
  "validate_central so g = (\<lambda>(space, c) v.
     case cr_node c of
       None \<Rightarrow> Some (Inr v)
     | Some n \<Rightarrow> do {
         b \<leftarrow> root_subtree_contains so g space n;
         Some (if b then Inr v else Inl (CentralNodeNotInRoot space n))
       })"

definition floating_entries :: "'s dock_graph \<Rightarrow> (space_id \<times> floating_container) list" where
  "floating_entries g = concat (map (\<lambda>(space, cs). map (\<lambda>c. (space, c)) cs) (dg_floatings g))"

definition validate_with_unreachable_nodes :: "'s slot_ops \<Rightarrow> 's dock_graph \<Rightarrow> bool \<Rightarrow> (graph_error + unit) panics" where
  "validate_with_unreachable_nodes so g allow_unreachable = do {
     r1 \<leftarrow> try_for_p (validate_root so g) (dg_roots g) (Map.empty, Map.empty);
     case r1 of
       Inl e \<Rightarrow> Some (Inl e)
     | Inr v1 \<Rightarrow> do {
         r2 \<leftarrow> try_for_p (validate_floating so g) (floating_entries g) v1;
         case r2 of
           Inl e \<Rightarrow> Some (Inl e)
         | Inr v2 \<Rightarrow> do {
             r3 \<leftarrow> try_for_p (validate_central so g) (dg_central g) v2;
             Some (case r3 of
               Inl e \<Rightarrow> Inl e
             | Inr v3 \<Rightarrow>
                 if allow_unreachable then Inr ()
                 else (case find (\<lambda>n. fst v3 n = None) (so_keys so (dg_nodes g)) of
                         Some n \<Rightarrow> Inl (UnreachableNode n) | None \<Rightarrow> Inr ()))
           }
       }
   }"

definition graph_validate :: "'s slot_ops \<Rightarrow> 's dock_graph \<Rightarrow> (graph_error + unit) panics" where
  "graph_validate so g = validate_with_unreachable_nodes so g True"

definition validate_canonical :: "'s slot_ops \<Rightarrow> 's dock_graph \<Rightarrow> (graph_error + unit) panics" where
  "validate_canonical so g = validate_with_unreachable_nodes so g False"

section \<open>The exported layout\<close>

datatype layout_node = LSplit u32 split_axis "u32 list" "f32 list" | LTabs u32 "item_id list" "item_id option"

record layout_floating =
  lf_root :: u32
  lf_bounds :: dock_rect

record layout_central =
  lc_node :: "u32 option"
  lc_keep_alive :: bool
  lc_passthrough :: bool

record layout_space =
  ls_id :: space_id
  ls_root :: "u32 option"
  ls_floatings :: "layout_floating list"
  ls_central :: "layout_central option"

record dock_layout =
  dl_version :: u32
  dl_spaces :: "layout_space list"
  dl_nodes :: "layout_node list"

record layout_exporter =
  le_next_id :: u32
  le_ids :: "node_id \<rightharpoonup> u32"
  le_nodes :: "layout_node list"

definition export_child :: "(node_id \<Rightarrow> layout_exporter \<Rightarrow> (u32 \<times> layout_exporter) panics) \<Rightarrow> node_id \<Rightarrow>
    u32 list \<times> layout_exporter \<Rightarrow> (u32 list \<times> layout_exporter) panics" where
  "export_child export child = (\<lambda>(ids, x). do { (i, x') \<leftarrow> export child x; Some (ids @ [i], x') })"

lemma export_child_mono [partial_function_mono]:
  assumes "\<And>n s. mono_option (\<lambda>f. F f n s)"
  shows "mono_option (\<lambda>f. export_child (F f) c st)"
  unfolding export_child_def using assms
  by (cases st) (auto intro!: bind_mono option.const_mono split: prod.split)

partial_function (option) export_subtree ::
  "'s slot_ops \<Rightarrow> 's dock_graph \<Rightarrow> node_id \<Rightarrow> layout_exporter \<Rightarrow> (u32 \<times> layout_exporter) panics" where
  "export_subtree so g n x =
     (case le_ids x n of
        Some i \<Rightarrow> Some (i, x)
      | None \<Rightarrow>
          (let i = saturating_succ (le_next_id x);
               x1 = x\<lparr>le_next_id := i, le_ids := (le_ids x)(n \<mapsto> i)\<rparr> in
           case node so g n of
             None \<Rightarrow> Some (i, x1)
           | Some (Tabs items selected) \<Rightarrow> Some (i, x1\<lparr>le_nodes := le_nodes x1 @ [LTabs i items selected]\<rparr>)
           | Some (Floating child) \<Rightarrow> export_subtree so g child x1
           | Some (Split axis children fractions) \<Rightarrow> do {
               (ids, x2) \<leftarrow> for_p (export_child (export_subtree so g)) children ([], x1);
               Some (i, x2\<lparr>le_nodes := le_nodes x2 @ [LSplit i axis ids fractions]\<rparr>)
             }))"

definition floating_child :: "'s slot_ops \<Rightarrow> 's dock_graph \<Rightarrow> node_id \<Rightarrow> node_id option" where
  "floating_child so g n = (case node so g n of None \<Rightarrow> None | Some (Floating child) \<Rightarrow> Some child | Some _ \<Rightarrow> Some n)"

definition export_floating :: "'s slot_ops \<Rightarrow> 's dock_graph \<Rightarrow> floating_container \<Rightarrow> layout_floating list \<times> layout_exporter \<Rightarrow>
    (layout_floating list \<times> layout_exporter) panics" where
  "export_floating so g c = (\<lambda>(fs, x).
     case floating_child so g (fc_node c) of
       None \<Rightarrow> Some (fs, x)
     | Some child \<Rightarrow> do { (i, x') \<leftarrow> export_subtree so g child x; Some (fs @ [\<lparr>lf_root = i, lf_bounds = fc_bounds c\<rparr>], x') })"

definition export_option :: "'s slot_ops \<Rightarrow> 's dock_graph \<Rightarrow> node_id option \<Rightarrow> layout_exporter \<Rightarrow> (u32 option \<times> layout_exporter) panics"
where
  "export_option so g n x =
     (case n of None \<Rightarrow> Some (None, x) | Some n \<Rightarrow> do { (i, x') \<leftarrow> export_subtree so g n x; Some (Some i, x') })"

definition export_space :: "'s slot_ops \<Rightarrow> 's dock_graph \<Rightarrow> space_id \<Rightarrow> layout_space list \<times> layout_exporter \<Rightarrow>
    (layout_space list \<times> layout_exporter) panics" where
  "export_space so g space = (\<lambda>(ss, x). do {
     (r, x1) \<leftarrow> export_option so g (root_of g space) x;
     (fs, x2) \<leftarrow> for_p (export_floating so g) (floating_containers g space) ([], x1);
     (c, x3) \<leftarrow> (case map_of (dg_central g) space of
        None \<Rightarrow> Some (None, x2)
      | Some c \<Rightarrow> do {
          (n, x') \<leftarrow> export_option so g (cr_node c) x2;
          Some (Some \<lparr>lc_node = n, lc_keep_alive = cr_keep_alive c, lc_passthrough = cr_passthrough c\<rparr>, x')
        });
     Some (ss @ [\<lparr>ls_id = space, ls_root = r, ls_floatings = fs, ls_central = c\<rparr>], x3)
   })"

definition export_layout :: "'s slot_ops \<Rightarrow> 's dock_graph \<Rightarrow> dock_layout panics" where
  "export_layout so g = do {
     (ss, x) \<leftarrow> for_p (export_space so g) (spaces g) ([], \<lparr>le_next_id = 0, le_ids = Map.empty, le_nodes = []\<rparr>);
     Some \<lparr>dl_version = 2, dl_spaces = ss, dl_nodes = le_nodes x\<rparr>
   }"

text \<open>\<open>PartialEq\<close> of layouts.\<close>

fun layout_node_eq :: "layout_node \<Rightarrow> layout_node \<Rightarrow> bool" where
  "layout_node_eq (LSplit i ax cs fs) (LSplit j bx ds gs) \<longleftrightarrow> i = j \<and> ax = bx \<and> cs = ds \<and> list_all2 f32_eq fs gs"
| "layout_node_eq (LTabs i items s) (LTabs j items' s') \<longleftrightarrow> i = j \<and> items = items' \<and> s = s'"
| "layout_node_eq _ _ \<longleftrightarrow> False"

definition layout_floating_eq :: "layout_floating \<Rightarrow> layout_floating \<Rightarrow> bool" where
  "layout_floating_eq a b \<longleftrightarrow> lf_root a = lf_root b \<and> rect_eq (lf_bounds a) (lf_bounds b)"

definition layout_space_eq :: "layout_space \<Rightarrow> layout_space \<Rightarrow> bool" where
  "layout_space_eq a b \<longleftrightarrow> ls_id a = ls_id b \<and> ls_root a = ls_root b \<and>
     list_all2 layout_floating_eq (ls_floatings a) (ls_floatings b) \<and> ls_central a = ls_central b"

definition layout_eq :: "dock_layout \<Rightarrow> dock_layout \<Rightarrow> bool" where
  "layout_eq a b \<longleftrightarrow> dl_version a = dl_version b \<and> list_all2 layout_space_eq (dl_spaces a) (dl_spaces b) \<and>
     list_all2 layout_node_eq (dl_nodes a) (dl_nodes b)"

end
