(* ===== verification/Dock_Ops.thy ===== *)
theory Dock_Ops
  imports Dock_Validation
begin

text \<open>
  Operations on the docking graph and their checked, transactional application (\<open>crates/gpui_docking/src/op.rs\<close>,
  \<open>graph_ops.rs\<close>, \<open>graph_op_validation.rs\<close>).
\<close>

section \<open>Operations and errors\<close>

datatype dock_op =
    SelectTab node_id item_id
  | CloseItem space_id item_id
  | OpenItem space_id "node_id option" item_id "nat option"
  | MoveItem space_id item_id space_id drop_target
  | MoveTabs space_id node_id space_id drop_target
  | MoveFloating space_id node_id space_id drop_target
  | FloatItemInWindow space_id item_id space_id dock_rect
  | FloatTabsInWindow space_id node_id space_id dock_rect
  | SetFloatingBounds space_id node_id dock_rect
  | RaiseFloating space_id node_id
  | SetSplitFractions node_id "f32 list"
  | SetSplitFractionsMany "(node_id \<times> f32 list) list"

text \<open>The reasons of a \<open>MutationInvariantViolation\<close>, which the code writes out as a text.\<close>

datatype violation =
    NoChangeButModified
  | NotAttached
  | ChangeWithoutEffect
  | InvalidGraph graph_error
  | ItemNotReachable item_id space_id
  | ItemRemained item_id space_id
  | PlanNotCurrent
  | EdgeAtCenter

datatype mutation_error =
    TabsNodeNotFound node_id
  | NodeIsNotTabs node_id
  | SplitNodeNotFound node_id
  | NodeIsNotSplit node_id
  | ItemNotInTabs node_id item_id
  | ItemNotFound space_id item_id
  | ItemAlreadyOpen item_id
  | TargetNodeNotInSpace space_id node_id
  | SourceNodeNotInSpace space_id node_id
  | TabsNodeEmpty node_id
  | TargetSpaceNotEmpty space_id
  | FloatingContainerNotFound space_id node_id
  | CannotMergeFloatingIntoOwnSubtree node_id node_id
  | VisibleSplitPayload node_id node_id
  | FractionsLenMismatch node_id nat nat
  | TooFewChildren node_id nat
  | FractionInvalid node_id nat
  | DuplicateSplitFractionUpdate node_id
  | MutationInvariantViolation string violation

fun apply_op_unchecked :: "'s slot_ops \<Rightarrow> 's dock_graph \<Rightarrow> dock_op \<Rightarrow> 's mutation" where
  "apply_op_unchecked so g (SelectTab tabs item) = Some (select_tab so g tabs item)"
| "apply_op_unchecked so g (CloseItem space item) = close_item so g space item"
| "apply_op_unchecked so g (OpenItem space target_tabs item index) = open_item so g space target_tabs item index"
| "apply_op_unchecked so g (MoveItem source item target_space target) = move_item_between_spaces so g source item target_space target"
| "apply_op_unchecked so g (MoveTabs source tabs target_space target) = move_tabs_between_spaces so g source tabs target_space target"
| "apply_op_unchecked so g (MoveFloating source floating target_space target) =
     move_floating_between_spaces so g source floating target_space target"
| "apply_op_unchecked so g (FloatItemInWindow source item target_space bounds) =
     float_item_in_window so g source item target_space bounds"
| "apply_op_unchecked so g (FloatTabsInWindow source tabs target_space bounds) =
     float_tabs_in_window so g source tabs target_space bounds"
| "apply_op_unchecked so g (SetFloatingBounds space floating bounds) = Some (set_floating_bounds g space floating bounds)"
| "apply_op_unchecked so g (RaiseFloating space floating) = Some (raise_floating g space floating)"
| "apply_op_unchecked so g (SetSplitFractions split fractions) = Some (update_split_fractions so g split fractions)"
| "apply_op_unchecked so g (SetSplitFractionsMany updates) = Some (update_many so g updates)"

fun op_name :: "dock_op \<Rightarrow> string" where
  "op_name (SelectTab _ _) = ''SelectTab''"
| "op_name (CloseItem _ _) = ''CloseItem''"
| "op_name (OpenItem _ _ _ _) = ''OpenItem''"
| "op_name (MoveItem _ _ _ _) = ''MoveItem''"
| "op_name (MoveTabs _ _ _ _) = ''MoveTabs''"
| "op_name (MoveFloating _ _ _ _) = ''MoveFloating''"
| "op_name (FloatItemInWindow _ _ _ _) = ''FloatItemInWindow''"
| "op_name (FloatTabsInWindow _ _ _ _) = ''FloatTabsInWindow''"
| "op_name (SetFloatingBounds _ _ _) = ''SetFloatingBounds''"
| "op_name (RaiseFloating _ _) = ''RaiseFloating''"
| "op_name (SetSplitFractions _ _) = ''SetSplitFractions''"
| "op_name (SetSplitFractionsMany _) = ''SetSplitFractionsMany''"

section \<open>Preconditions\<close>

type_synonym 'a checked = "(mutation_error + 'a) panics"

text \<open>Sequencing with \<open>?\<close>.\<close>

definition and_then :: "'a checked \<Rightarrow> ('a \<Rightarrow> 'b checked) \<Rightarrow> 'b checked" where
  "and_then m f = do { r \<leftarrow> m; case r of Inl e \<Rightarrow> Some (Inl e) | Inr x \<Rightarrow> f x }"

definition require_tabs_node :: "'s slot_ops \<Rightarrow> 's dock_graph \<Rightarrow> node_id \<Rightarrow> mutation_error + item_id list" where
  "require_tabs_node so g tabs =
     (case node so g tabs of
        Some (Tabs items selected) \<Rightarrow> Inr items
      | Some _ \<Rightarrow> Inl (NodeIsNotTabs tabs)
      | None \<Rightarrow> Inl (TabsNodeNotFound tabs))"

definition require_non_empty_tabs_node :: "'s slot_ops \<Rightarrow> 's dock_graph \<Rightarrow> node_id \<Rightarrow> mutation_error + unit" where
  "require_non_empty_tabs_node so g tabs =
     (case require_tabs_node so g tabs of
        Inl e \<Rightarrow> Inl e
      | Inr items \<Rightarrow> if items = [] then Inl (TabsNodeEmpty tabs) else Inr ())"

definition require_source_node_in_space :: "'s slot_ops \<Rightarrow> 's dock_graph \<Rightarrow> space_id \<Rightarrow> node_id \<Rightarrow> node_id checked" where
  "require_source_node_in_space so g space n = do {
     r \<leftarrow> root_for_node_in_space so g space n;
     Some (case r of Some r \<Rightarrow> Inr r | None \<Rightarrow> Inl (SourceNodeNotInSpace space n))
   }"

definition require_target_node_in_space :: "'s slot_ops \<Rightarrow> 's dock_graph \<Rightarrow> space_id \<Rightarrow> node_id \<Rightarrow> node_id checked" where
  "require_target_node_in_space so g space n = do {
     r \<leftarrow> root_for_node_in_space so g space n;
     Some (case r of Some r \<Rightarrow> Inr r | None \<Rightarrow> Inl (TargetNodeNotInSpace space n))
   }"

definition validate_split_fractions :: "'s slot_ops \<Rightarrow> 's dock_graph \<Rightarrow> node_id \<Rightarrow> f32 list \<Rightarrow> mutation_error + unit" where
  "validate_split_fractions so g split fractions =
     (case node so g split of
        None \<Rightarrow> Inl (SplitNodeNotFound split)
      | Some (Split axis children _) \<Rightarrow>
          if length children < 2 then Inl (TooFewChildren split (length children))
          else if length fractions \<noteq> length children
          then Inl (FractionsLenMismatch split (length children) (length fractions))
          else (case position invalid_fraction fractions of Some i \<Rightarrow> Inl (FractionInvalid split i) | None \<Rightarrow> Inr ())
      | Some _ \<Rightarrow> Inl (NodeIsNotSplit split))"

fun validate_split_fraction_updates ::
  "'s slot_ops \<Rightarrow> 's dock_graph \<Rightarrow> node_id set \<Rightarrow> (node_id \<times> f32 list) list \<Rightarrow> mutation_error + unit" where
  "validate_split_fraction_updates so g seen [] = Inr ()"
| "validate_split_fraction_updates so g seen ((split, fractions) # us) =
     (if split \<in> seen then Inl (DuplicateSplitFractionUpdate split)
      else case validate_split_fractions so g split fractions of
        Inl e \<Rightarrow> Inl e
      | Inr _ \<Rightarrow> validate_split_fraction_updates so g (insert split seen) us)"

definition validate_graph_drop_target :: "'s slot_ops \<Rightarrow> 's dock_graph \<Rightarrow> space_id \<Rightarrow> drop_target \<Rightarrow> unit checked" where
  "validate_graph_drop_target so g space target =
     (case target of
        Center tabs \<Rightarrow>
          and_then (require_target_node_in_space so g space tabs) (\<lambda>_.
            Some (case require_tabs_node so g tabs of Inl e \<Rightarrow> Inl e | Inr _ \<Rightarrow> Inr ()))
      | TabBar tabs _ \<Rightarrow>
          and_then (require_target_node_in_space so g space tabs) (\<lambda>_.
            Some (case require_tabs_node so g tabs of Inl e \<Rightarrow> Inl e | Inr _ \<Rightarrow> Inr ()))
      | Edge plan \<Rightarrow> do {
          current \<leftarrow> edge_dock_plan_is_current so g space plan;
          Some (if \<not> current then Inl (MutationInvariantViolation ''DockGraphDropTarget'' PlanNotCurrent)
                else if plan_zone plan = ZCenter then Inl (MutationInvariantViolation ''DockGraphDropTarget'' EdgeAtCenter)
                else Inr ())
        }
      | EmptySpace \<Rightarrow> Some (Inr ()))"

definition validate_move_item ::
  "'s slot_ops \<Rightarrow> 's dock_graph \<Rightarrow> space_id \<Rightarrow> item_id \<Rightarrow> space_id \<Rightarrow> drop_target \<Rightarrow> unit checked" where
  "validate_move_item so g source item target_space target = do {
     empty \<leftarrow> (if target = EmptySpace then target_space_is_empty_for_item_move so g source item target_space else Some True);
     if \<not> empty then Some (Inl (TargetSpaceNotEmpty target_space))
     else do {
       found \<leftarrow> find_item_in_space so g source item;
       if found = None then Some (Inl (ItemNotFound source item))
       else validate_graph_drop_target so g target_space target
     }
   }"

definition validate_open_item_target :: "'s slot_ops \<Rightarrow> 's dock_graph \<Rightarrow> space_id \<Rightarrow> node_id \<Rightarrow> unit checked" where
  "validate_open_item_target so g space tabs =
     and_then (require_target_node_in_space so g space tabs) (\<lambda>_.
       Some (case require_tabs_node so g tabs of Inl e \<Rightarrow> Inl e | Inr _ \<Rightarrow> Inr ()))"

definition validate_move_tabs ::
  "'s slot_ops \<Rightarrow> 's dock_graph \<Rightarrow> space_id \<Rightarrow> node_id \<Rightarrow> space_id \<Rightarrow> drop_target \<Rightarrow> unit checked" where
  "validate_move_tabs so g source tabs target_space target = do {
     empty \<leftarrow> (if target = EmptySpace then target_space_is_empty_for_tabs_move so g source tabs target_space else Some True);
     if \<not> empty then Some (Inl (TargetSpaceNotEmpty target_space))
     else
       and_then (Some (require_non_empty_tabs_node so g tabs)) (\<lambda>_.
         and_then (require_source_node_in_space so g source tabs) (\<lambda>_.
           validate_graph_drop_target so g target_space target))
   }"

definition merges_visible_split :: "'s slot_ops \<Rightarrow> 's dock_graph \<Rightarrow> node_id \<Rightarrow> drop_target \<Rightarrow> (node_id \<times> node_id) option panics" where
  "merges_visible_split so g floating target =
     (case (target, node so g floating) of
        (Center tabs, Some (Floating child)) \<Rightarrow> do {
          b \<leftarrow> is_visible_split_payload so g child; Some (if b then Some (child, tabs) else None) }
      | (TabBar tabs _, Some (Floating child)) \<Rightarrow> do {
          b \<leftarrow> is_visible_split_payload so g child; Some (if b then Some (child, tabs) else None) }
      | _ \<Rightarrow> Some None)"

definition validate_move_floating ::
  "'s slot_ops \<Rightarrow> 's dock_graph \<Rightarrow> space_id \<Rightarrow> node_id \<Rightarrow> space_id \<Rightarrow> drop_target \<Rightarrow> unit checked" where
  "validate_move_floating so g source floating target_space target =
     (if floating_container_of g source floating = None then Some (Inl (FloatingContainerNotFound source floating))
      else do {
        payload \<leftarrow> merges_visible_split so g floating target;
        case payload of
          Some (child, tabs) \<Rightarrow> Some (Inl (VisibleSplitPayload child tabs))
        | None \<Rightarrow>
            if target = EmptySpace \<and> \<not> target_space_is_empty_for_floating_move g source floating target_space
            then Some (Inl (TargetSpaceNotEmpty target_space))
            else and_then (validate_graph_drop_target so g target_space target) (\<lambda>_.
              case existing_node target of
                Some n \<Rightarrow> do {
                  own \<leftarrow> (if source = target_space then subtree_contains so g n floating else Some False);
                  Some (if own then Inl (CannotMergeFloatingIntoOwnSubtree floating n) else Inr ())
                }
              | None \<Rightarrow> Some (Inr ()))
      })"

section \<open>The transaction\<close>

datatype expectation = ValidateOnly | ItemsReachable space_id "item_id list" | ItemAbsent space_id item_id

fun verify :: "'s slot_ops \<Rightarrow> 's dock_graph \<Rightarrow> string \<Rightarrow> expectation \<Rightarrow> unit checked" where
  "verify so g name ValidateOnly = Some (Inr ())"
| "verify so g name (ItemsReachable space items) = do {
     reachable \<leftarrow> collect_items_in_space so g space;
     Some (case find (\<lambda>i. i \<notin> set reachable) items of
       Some i \<Rightarrow> Inl (MutationInvariantViolation name (ItemNotReachable i space)) | None \<Rightarrow> Inr ())
   }"
| "verify so g name (ItemAbsent space item) = do {
     found \<leftarrow> find_item_in_space so g space item;
     Some (if found \<noteq> None then Inl (MutationInvariantViolation name (ItemRemained item space)) else Inr ())
   }"

text \<open>The result, and the graph: \<open>self\<close> is replaced at the very end.\<close>

definition apply_tree_mutation_plan ::
  "'s slot_ops \<Rightarrow> 's dock_graph \<Rightarrow> dock_op \<Rightarrow> expectation \<Rightarrow> bool \<Rightarrow> ((mutation_error + bool) \<times> 's dock_graph) panics" where
  "apply_tree_mutation_plan so g op expected allow_noop = do {
     before_layout \<leftarrow> export_layout so g;
     retention \<leftarrow> capture_mutation_retention so g;
     (changed, g1) \<leftarrow> apply_op_unchecked so g op;
     g2 \<leftarrow> (if changed then finalize_checked_mutation so g1 retention else Some g1);
     next_layout \<leftarrow> export_layout so g2;
     if \<not> changed then
       Some (if \<not> layout_eq next_layout before_layout then Inl (MutationInvariantViolation (op_name op) NoChangeButModified)
             else if allow_noop then Inr False
             else Inl (MutationInvariantViolation (op_name op) NotAttached), g)
     else if layout_eq next_layout before_layout then Some (Inl (MutationInvariantViolation (op_name op) ChangeWithoutEffect), g)
     else do {
       valid \<leftarrow> graph_validate so g2;
       case valid of
         Inl e \<Rightarrow> Some (Inl (MutationInvariantViolation (op_name op) (InvalidGraph e)), g)
       | Inr _ \<Rightarrow> do {
           met \<leftarrow> verify so g2 (op_name op) expected;
           Some (case met of Inl e \<Rightarrow> (Inl e, g) | Inr _ \<Rightarrow> (Inr True, g2))
         }
     }
   }"

definition guarded :: "'s dock_graph \<Rightarrow> 'a checked \<Rightarrow> ('a \<Rightarrow> ((mutation_error + bool) \<times> 's dock_graph) panics) \<Rightarrow>
    ((mutation_error + bool) \<times> 's dock_graph) panics" where
  "guarded g m f = do { r \<leftarrow> m; case r of Inl e \<Rightarrow> Some (Inl e, g) | Inr x \<Rightarrow> f x }"

text \<open>A drop of an item where it is.\<close>

definition dropped_in_place :: "drop_target \<Rightarrow> (node_id \<times> nat) option \<Rightarrow> bool" where
  "dropped_in_place target found =
     (case (target, found) of
        (Center tabs, Some (t, i)) \<Rightarrow> tabs = t
      | (TabBar tabs insert_index, Some (t, i)) \<Rightarrow> tabs = t \<and> (insert_index = i \<or> insert_index = i + 1)
      | _ \<Rightarrow> False)"

definition merged_into_itself :: "drop_target \<Rightarrow> node_id \<Rightarrow> bool" where
  "merged_into_itself target source_tabs =
     (case target of Center tabs \<Rightarrow> tabs = source_tabs | TabBar tabs _ \<Rightarrow> tabs = source_tabs | _ \<Rightarrow> False)"

fun apply_op_checked :: "'s slot_ops \<Rightarrow> 's dock_graph \<Rightarrow> dock_op \<Rightarrow> ((mutation_error + bool) \<times> 's dock_graph) panics" where
  "apply_op_checked so g (SelectTab tabs item) =
     guarded g (Some (require_tabs_node so g tabs)) (\<lambda>items.
       if item \<notin> set items then Some (Inl (ItemNotInTabs tabs item), g)
       else (case select_tab so g tabs item of (changed, g1) \<Rightarrow> Some (Inr changed, g1)))"
| "apply_op_checked so g (CloseItem space item) = do {
     found \<leftarrow> find_item_in_space so g space item;
     if found = None then Some (Inl (ItemNotFound space item), g)
     else apply_tree_mutation_plan so g (CloseItem space item) (ItemAbsent space item) False
   }"
| "apply_op_checked so g (OpenItem space target_tabs item index) = do {
     present \<leftarrow> contains_item so g item;
     if present then Some (Inl (ItemAlreadyOpen item), g)
     else
       guarded g
         (case target_tabs of
            Some tabs \<Rightarrow> validate_open_item_target so g space tabs
          | None \<Rightarrow> Some (if \<not> target_space_is_empty_for_open g space then Inl (TargetSpaceNotEmpty space) else Inr ()))
         (\<lambda>_. apply_tree_mutation_plan so g (OpenItem space target_tabs item index) (ItemsReachable space [item]) False)
   }"
| "apply_op_checked so g (MoveItem source item target_space target) =
     guarded g (validate_move_item so g source item target_space target) (\<lambda>_. do {
       found \<leftarrow> (if source = target_space then find_item_in_space so g source item else Some None);
       if dropped_in_place target found then Some (Inr False, g)
       else apply_tree_mutation_plan so g (MoveItem source item target_space target) (ItemsReachable target_space [item]) False
     })"
| "apply_op_checked so g (MoveTabs source tabs target_space target) =
     guarded g (validate_move_tabs so g source tabs target_space target) (\<lambda>_.
       if source = target_space \<and> merged_into_itself target tabs then Some (Inr False, g)
       else do {
         items \<leftarrow> collect_items_in_subtree so g tabs;
         apply_tree_mutation_plan so g (MoveTabs source tabs target_space target) (ItemsReachable target_space items) False
       })"
| "apply_op_checked so g (MoveFloating source floating target_space target) =
     guarded g (validate_move_floating so g source floating target_space target) (\<lambda>_. do {
       items \<leftarrow> collect_items_in_subtree so g floating;
       apply_tree_mutation_plan so g (MoveFloating source floating target_space target) (ItemsReachable target_space items) False
     })"
| "apply_op_checked so g (FloatItemInWindow source item target_space bounds) = do {
     found \<leftarrow> find_item_in_space so g source item;
     if found = None then Some (Inl (ItemNotFound source item), g)
     else apply_tree_mutation_plan so g (FloatItemInWindow source item target_space bounds) (ItemsReachable target_space [item]) False
   }"
| "apply_op_checked so g (FloatTabsInWindow source tabs target_space bounds) =
     guarded g
       (and_then (Some (require_non_empty_tabs_node so g tabs)) (\<lambda>_. require_source_node_in_space so g source tabs))
       (\<lambda>_. do {
         items \<leftarrow> collect_items_in_subtree so g tabs;
         apply_tree_mutation_plan so g (FloatTabsInWindow source tabs target_space bounds) (ItemsReachable target_space items) False
       })"
| "apply_op_checked so g (SetFloatingBounds space floating bounds) =
     (if floating_container_of g space floating = None then Some (Inl (FloatingContainerNotFound space floating), g)
      else apply_tree_mutation_plan so g (SetFloatingBounds space floating bounds) ValidateOnly True)"
| "apply_op_checked so g (RaiseFloating space floating) =
     (if floating_container_of g space floating = None then Some (Inl (FloatingContainerNotFound space floating), g)
      else apply_tree_mutation_plan so g (RaiseFloating space floating) ValidateOnly True)"
| "apply_op_checked so g (SetSplitFractions split fractions) =
     guarded g (Some (validate_split_fractions so g split fractions)) (\<lambda>_.
       apply_tree_mutation_plan so g (SetSplitFractions split fractions) ValidateOnly True)"
| "apply_op_checked so g (SetSplitFractionsMany updates) =
     guarded g (Some (validate_split_fraction_updates so g {} updates)) (\<lambda>_.
       apply_tree_mutation_plan so g (SetSplitFractionsMany updates) ValidateOnly True)"

end
