(* ===== verification/Dock_Trees.thy ===== *)
theory Dock_Trees
  imports Dock_Ops "HOL-Library.Sublist"
begin

text \<open>
  The abstract view of a docking graph: the trees that its node ids stand for, and what the queries return on them.
\<close>

section \<open>Trees\<close>

datatype dock_tree =
    TTabs node_id "item_id list" "item_id option"
  | TFloating node_id dock_tree
  | TSplit node_id split_axis "dock_tree list" "f32 list"

fun tid :: "dock_tree \<Rightarrow> node_id" where
  "tid (TTabs n items selected) = n"
| "tid (TFloating n t) = n"
| "tid (TSplit n axis ts fs) = n"

fun ids :: "dock_tree \<Rightarrow> node_id list" where
  "ids (TTabs n items selected) = [n]"
| "ids (TFloating n t) = n # ids t"
| "ids (TSplit n axis ts fs) = n # concat (map ids ts)"

fun tree_items :: "dock_tree \<Rightarrow> item_id list" where
  "tree_items (TTabs n items selected) = items"
| "tree_items (TFloating n t) = tree_items t"
| "tree_items (TSplit n axis ts fs) = concat (map tree_items ts)"

fun tree_node :: "dock_tree \<Rightarrow> dock_node" where
  "tree_node (TTabs n items selected) = Tabs items selected"
| "tree_node (TFloating n t) = Floating (tid t)"
| "tree_node (TSplit n axis ts fs) = Split axis (map tid ts) fs"

fun subtrees :: "dock_tree \<Rightarrow> dock_tree list" where
  "subtrees (TTabs n items selected) = []"
| "subtrees (TFloating n t) = [t]"
| "subtrees (TSplit n axis ts fs) = ts"

text \<open>The store holds the tree: every node of it is there with the ids of its children.\<close>

fun rep :: "(node_id \<rightharpoonup> dock_node) \<Rightarrow> dock_tree \<Rightarrow> bool" where
  "rep get (TTabs n items selected) \<longleftrightarrow> get n = Some (Tabs items selected)"
| "rep get (TFloating n t) \<longleftrightarrow> get n = Some (Floating (tid t)) \<and> rep get t"
| "rep get (TSplit n axis ts fs) \<longleftrightarrow> get n = Some (Split axis (map tid ts) fs) \<and> (\<forall>t \<in> set ts. rep get t)"

lemma tid_in_ids [simp]: "tid t \<in> set (ids t)"
  by (cases t) simp_all

lemma ids_not_Nil [simp]: "ids t \<noteq> []"
  by (cases t) simp_all

lemma rep_get: "rep get t \<Longrightarrow> get (tid t) = Some (tree_node t)"
  by (cases t) simp_all

lemma rep_subtrees: "rep get t \<Longrightarrow> t' \<in> set (subtrees t) \<Longrightarrow> rep get t'"
  by (cases t) auto

lemma ids_tree: "ids t = tid t # concat (map ids (subtrees t))"
  by (cases t) simp_all

lemma rep_stored: "rep get t \<Longrightarrow> n \<in> set (ids t) \<Longrightarrow> get n \<noteq> None"
  by (induction t) auto

lemma rep_cong: "(\<And>n. n \<in> set (ids t) \<Longrightarrow> get n = get' n) \<Longrightarrow> rep get t \<longleftrightarrow> rep get' t"
  by (induction t) auto

lemma rep_upd: "n \<notin> set (ids t) \<Longrightarrow> rep (get(n \<mapsto> x)) t \<longleftrightarrow> rep get t"
  by (rule rep_cong) auto

text \<open>A node id stands for at most one tree.\<close>

lemma rep_unique: "rep get t \<Longrightarrow> rep get t' \<Longrightarrow> tid t = tid t' \<Longrightarrow> t = t'"
proof (induction t arbitrary: t')
  case (TTabs n items selected)
  then show ?case by (cases t') auto
next
  case (TFloating n t)
  then show ?case by (cases t') auto
next
  case (TSplit n axis ts fs)
  then obtain ts' where t': "t' = TSplit n axis ts' fs" "map tid ts = map tid ts'" by (cases t') auto
  have "ts = ts'"
  proof (rule nth_equalityI)
    show len: "length ts = length ts'" using t'(2) map_eq_imp_length_eq by blast
    fix i assume i: "i < length ts"
    then have "tid (ts ! i) = tid (ts' ! i)" using t'(2) len by (metis nth_map)
    then show "ts ! i = ts' ! i" using TSplit.IH [of "ts ! i"] TSplit.prems(1,2) i len by (simp add: t'(1))
  qed
  with t' show ?case by simp
qed

definition has_tree :: "(node_id \<rightharpoonup> dock_node) \<Rightarrow> node_id \<Rightarrow> bool" where
  "has_tree get n \<longleftrightarrow> (\<exists>t. rep get t \<and> tid t = n)"

definition tree_of :: "(node_id \<rightharpoonup> dock_node) \<Rightarrow> node_id \<Rightarrow> dock_tree" where
  "tree_of get n = (THE t. rep get t \<and> tid t = n)"

lemma tree_of_rep: "rep get t \<Longrightarrow> tree_of get (tid t) = t"
  unfolding tree_of_def using rep_unique by blast

lemma has_tree_rep: "has_tree get n \<Longrightarrow> rep get (tree_of get n)"
  by (auto simp: has_tree_def tree_of_rep)

lemma has_tree_tid: "has_tree get n \<Longrightarrow> tid (tree_of get n) = n"
  by (auto simp: has_tree_def tree_of_rep)

lemma has_treeI: "rep get t \<Longrightarrow> has_tree get (tid t)"
  by (auto simp: has_tree_def)

section \<open>Loops that return\<close>

fun find_map :: "('a \<Rightarrow> 'b option) \<Rightarrow> 'a list \<Rightarrow> 'b option" where
  "find_map f [] = None"
| "find_map f (x # xs) = (case f x of Some y \<Rightarrow> Some y | None \<Rightarrow> find_map f xs)"

lemma find_map_cong [fundef_cong]: "xs = ys \<Longrightarrow> (\<And>x. x \<in> set ys \<Longrightarrow> f x = g x) \<Longrightarrow> find_map f xs = find_map g ys"
  by (induction ys arbitrary: xs) (auto split: option.split)

lemma find_map_None: "find_map f xs = None \<longleftrightarrow> (\<forall>x \<in> set xs. f x = None)"
  by (induction xs) (auto split: option.split)

lemma find_map_Some: "find_map f xs = Some y \<Longrightarrow> \<exists>x \<in> set xs. f x = Some y"
  by (induction xs) (auto split: option.splits)

lemma find_map_map: "find_map f (map g xs) = find_map (\<lambda>x. f (g x)) xs"
  by (induction xs) (auto split: option.split)

lemma find_map_p_map: "(\<And>x. x \<in> set xs \<Longrightarrow> f (g x) = Some (h x)) \<Longrightarrow> find_map_p f (map g xs) = Some (find_map h xs)"
  by (induction xs) (auto split: option.split)

lemma any_p_map: "(\<And>x. x \<in> set xs \<Longrightarrow> f (g x) = Some (h x)) \<Longrightarrow> any_p f (map g xs) = Some (list_ex h xs)"
  by (induction xs) auto

lemma for_p_map: "(\<And>x s. x \<in> set xs \<Longrightarrow> f (g x) s = Some (s @ h x)) \<Longrightarrow> for_p f (map g xs) s = Some (s @ concat (map h xs))"
  by (induction xs arbitrary: s) simp_all

section \<open>Queries on trees\<close>

fun tree_find :: "item_id \<Rightarrow> dock_tree \<Rightarrow> (node_id \<times> nat) option" where
  "tree_find item (TTabs n items selected) = map_option (\<lambda>i. (n, i)) (position (\<lambda>c. c = item) items)"
| "tree_find item (TFloating n t) = tree_find item t"
| "tree_find item (TSplit n axis ts fs) = find_map (tree_find item) ts"

lemma find_item_tree: "rep (node so g) t \<Longrightarrow> find_item_in_subtree so g item (tid t) = Some (tree_find item t)"
proof (induction t)
  case (TSplit n axis ts fs)
  then have "find_map_p (find_item_in_subtree so g item) (map tid ts) = Some (find_map (tree_find item) ts)"
    by (intro find_map_p_map) auto
  with TSplit.prems show ?case by (subst find_item_in_subtree.simps) simp
qed (subst find_item_in_subtree.simps, simp)+

lemma collect_items_tree: "rep (node so g) t \<Longrightarrow> collect_items_into so g (tid t) out = Some (out @ tree_items t)"
proof (induction t arbitrary: out)
  case (TSplit n axis ts fs)
  then have "for_p (collect_items_into so g) (map tid ts) out = Some (out @ concat (map tree_items ts))"
    by (intro for_p_map) auto
  with TSplit.prems show ?case by (subst collect_items_into.simps) simp
qed (subst collect_items_into.simps, simp)+

lemma subtree_contains_tree: "rep (node so g) t \<Longrightarrow> subtree_contains so g target (tid t) = Some (target \<in> set (ids t))"
proof (induction t)
  case (TSplit n axis ts fs)
  then have "any_p (subtree_contains so g target) (map tid ts) = Some (list_ex (\<lambda>t. target \<in> set (ids t)) ts)"
    by (intro any_p_map) auto
  with TSplit.prems show ?case by (subst subtree_contains.simps) (auto simp: list_ex_iff)
qed (subst subtree_contains.simps, auto)+

fun tree_visible :: "dock_tree \<Rightarrow> bool" where
  "tree_visible (TTabs n items selected) \<longleftrightarrow> False"
| "tree_visible (TFloating n t) \<longleftrightarrow> tree_visible t"
| "tree_visible (TSplit n axis ts fs) \<longleftrightarrow> True"

lemma is_visible_tree: "rep (node so g) t \<Longrightarrow> is_visible_split_payload so g (tid t) = Some (tree_visible t)"
  by (induction t) (subst is_visible_split_payload.simps, simp)+

fun tree_parent :: "node_id \<Rightarrow> dock_tree \<Rightarrow> node_id option" where
  "tree_parent target (TTabs n items selected) = None"
| "tree_parent target (TFloating n t) = (if tid t = target then Some n else tree_parent target t)"
| "tree_parent target (TSplit n axis ts fs) =
     (if target \<in> set (map tid ts) then Some n else find_map (tree_parent target) ts)"

lemma find_parent_tree: "rep (node so g) t \<Longrightarrow> find_parent_in_subtree so g target (tid t) = Some (tree_parent target t)"
proof (induction t)
  case (TSplit n axis ts fs)
  then have "find_map_p (find_parent_in_subtree so g target) (map tid ts) = Some (find_map (tree_parent target) ts)"
    by (intro find_map_p_map) auto
  with TSplit.prems show ?case by (subst find_parent_in_subtree.simps) simp
qed (subst find_parent_in_subtree.simps, simp)+

text \<open>The tab stacks of a tree.\<close>

fun tabs_of :: "dock_tree \<Rightarrow> (node_id \<times> item_id list \<times> item_id option) list" where
  "tabs_of (TTabs n items selected) = [(n, items, selected)]"
| "tabs_of (TFloating n t) = tabs_of t"
| "tabs_of (TSplit n axis ts fs) = concat (map tabs_of ts)"

lemma tree_items_tabs: "tree_items t = concat (map (\<lambda>(n, items, selected). items) (tabs_of t))"
proof (induction t)
  case (TSplit n axis ts fs)
  then show ?case by (induction ts) simp_all
qed simp_all

lemma tabs_in_ids: "(n, items, selected) \<in> set (tabs_of t) \<Longrightarrow> n \<in> set (ids t)"
  by (induction t) auto

lemma rep_tabs: "rep get t \<Longrightarrow> (n, items, selected) \<in> set (tabs_of t) \<Longrightarrow> get n = Some (Tabs items selected)"
  by (induction t) auto

lemma rep_tabs_node: "rep get t \<Longrightarrow> n \<in> set (ids t) \<Longrightarrow> get n = Some (Tabs items selected) \<Longrightarrow> (n, items, selected) \<in> set (tabs_of t)"
  by (induction t) auto

lemma tree_find_None: "tree_find item t = None \<longleftrightarrow> item \<notin> set (tree_items t)"
  by (induction t) (auto simp: position_None find_map_None)

lemma tree_find_Some:
  "tree_find item t = Some (n, i) \<Longrightarrow> \<exists>items selected. (n, items, selected) \<in> set (tabs_of t) \<and> position (\<lambda>c. c = item) items = Some i"
  by (induction t) (auto dest!: find_map_Some, blast)

end
