(* ===== verification/Dock_Simplify.thy ===== *)
theory Dock_Simplify
  imports Dock_Trees
begin

text \<open>
  Simplification on trees, and that \<open>simplify_subtree\<close> performs it on the store.
\<close>

section \<open>Simplification of a tree\<close>

fun grand_children :: "split_axis \<Rightarrow> dock_tree \<times> f32 \<Rightarrow> (dock_tree \<times> f32) list" where
  "grand_children axis (TSplit n child_axis ts fs, share) =
     (if child_axis = axis then map (\<lambda>(t, f). (t, f32_mul share f)) (zip ts (normalize_split_fractions fs))
      else [(TSplit n child_axis ts fs, share)])"
| "grand_children axis (t, share) = [(t, share)]"

definition flatten_trees :: "split_axis \<Rightarrow> (dock_tree \<times> f32) list \<Rightarrow> (dock_tree \<times> f32) list" where
  "flatten_trees axis cs = concat (map (grand_children axis) cs)"

definition join_split :: "node_id \<Rightarrow> split_axis \<Rightarrow> (dock_tree \<times> f32) list \<Rightarrow> dock_tree option" where
  "join_split n axis cs =
     (case cs of
        [] \<Rightarrow> None
      | [(t, f)] \<Rightarrow> Some t
      | _ \<Rightarrow> Some (TSplit n axis (map fst (flatten_trees axis cs))
               (normalize_split_fractions (map snd (flatten_trees axis cs)))))"

definition share_at :: "f32 list \<Rightarrow> nat \<Rightarrow> f32" where
  "share_at fs i = (if i < length fs then fs ! i else Fin 1)"

text \<open>The children that remain, each with the fraction at its place.\<close>

fun kept_from :: "f32 list \<Rightarrow> nat \<Rightarrow> dock_tree option list \<Rightarrow> (dock_tree \<times> f32) list" where
  "kept_from fs i [] = []"
| "kept_from fs i (None # ts) = kept_from fs (i + 1) ts"
| "kept_from fs i (Some t # ts) = (t, share_at fs i) # kept_from fs (i + 1) ts"

fun simp_tree :: "dock_tree \<Rightarrow> dock_tree option" where
  "simp_tree (TTabs n items selected) = (if items = [] then None else Some (TTabs n items selected))"
| "simp_tree (TFloating n t) = map_option (TFloating n) (simp_tree t)"
| "simp_tree (TSplit n axis ts fs) = join_split n axis (kept_from fs 0 (map simp_tree ts))"

section \<open>Canonical trees\<close>

fun splits_on :: "split_axis \<Rightarrow> dock_tree \<Rightarrow> bool" where
  "splits_on axis (TSplit n a ts fs) \<longleftrightarrow> a = axis"
| "splits_on axis t \<longleftrightarrow> False"

fun canonical :: "dock_tree \<Rightarrow> bool" where
  "canonical (TTabs n items selected) \<longleftrightarrow> items \<noteq> []"
| "canonical (TFloating n t) \<longleftrightarrow> canonical t"
| "canonical (TSplit n axis ts fs) \<longleftrightarrow>
     2 \<le> length ts \<and> length fs = length ts \<and> (\<forall>f \<in> set fs. fraction_ok f) \<and>
     (\<forall>t \<in> set ts. canonical t \<and> \<not> splits_on axis t)"

lemma kept_from_options: "map fst (kept_from fs i os) = List.map_filter (\<lambda>x. x) os"
  by (induction fs i os rule: kept_from.induct) (simp_all add: map_filter_simps)

lemma kept_from_member: "(t, f) \<in> set (kept_from fs i os) \<Longrightarrow> Some t \<in> set os"
  by (induction fs i os rule: kept_from.induct) auto

lemma splits_on_cases: "splits_on axis t \<Longrightarrow> (\<And>n ts fs. t = TSplit n axis ts fs \<Longrightarrow> thesis) \<Longrightarrow> thesis"
  by (cases t) auto

lemma grand_children_other: "\<not> splits_on axis t \<Longrightarrow> grand_children axis (t, share) = [(t, share)]"
  by (cases t) auto

lemma grand_children_canonical:
  assumes "canonical t" and "(t', f) \<in> set (grand_children axis (t, share))"
  shows "canonical t' \<and> \<not> splits_on axis t'"
  using assms by (cases t) (auto split: if_splits dest: set_zip_leftD)

lemma grand_children_length: "canonical t \<Longrightarrow> 1 \<le> length (grand_children axis (t, share))"
  using normalize_bounds by (cases t) auto

lemma flatten_length: "(\<And>t f. (t, f) \<in> set cs \<Longrightarrow> canonical t) \<Longrightarrow> length cs \<le> length (flatten_trees axis cs)"
proof (induction cs)
  case (Cons c cs)
  have "canonical (fst c)" using Cons.prems [of "fst c" "snd c"] by simp
  then have "1 \<le> length (grand_children axis c)" using grand_children_length [of "fst c" axis "snd c"] by simp
  moreover have "length cs \<le> length (flatten_trees axis cs)" using Cons.prems by (intro Cons.IH) auto
  ultimately show ?case by (simp add: flatten_trees_def)
qed (simp add: flatten_trees_def)

lemma flatten_canonical:
  assumes "\<And>t f. (t, f) \<in> set cs \<Longrightarrow> canonical t" and "t \<in> set (map fst (flatten_trees axis cs))"
  shows "canonical t \<and> \<not> splits_on axis t"
  using assms grand_children_canonical by (fastforce simp: flatten_trees_def)

lemma join_split_canonical:
  assumes "\<And>t f. (t, f) \<in> set cs \<Longrightarrow> canonical t" and "join_split n axis cs = Some t"
  shows "canonical t"
proof -
  consider t' f where "cs = [(t', f)]" "t = t'" | "2 \<le> length cs"
    "t = TSplit n axis (map fst (flatten_trees axis cs)) (normalize_split_fractions (map snd (flatten_trees axis cs)))"
    using assms(2) by (auto simp: join_split_def split: list.splits)
  then show ?thesis
  proof cases
    case 1
    then show ?thesis using assms(1) by simp
  next
    case 2
    then have "2 \<le> length (flatten_trees axis cs)" using flatten_length [of cs axis] assms(1) by simp
    then show ?thesis
      using 2(2) flatten_canonical [of cs _ axis] assms(1) normalize_bounds [of "map snd (flatten_trees axis cs)"] by auto
  qed
qed

lemma simp_tree_canonical: "simp_tree t = Some t' \<Longrightarrow> canonical t'"
proof (induction t arbitrary: t')
  case (TSplit n axis ts fs)
  have "canonical t" if "(t, f) \<in> set (kept_from fs 0 (map simp_tree ts))" for t f
    using kept_from_member [OF that] TSplit.IH by auto
  then show ?case by (rule join_split_canonical) (use TSplit.prems in auto)
qed (auto split: if_splits)

section \<open>What simplification keeps\<close>

lemma grand_children_trees:
  assumes "canonical t"
  shows "map fst (grand_children axis (t, share)) = (if splits_on axis t then subtrees t else [t])"
proof (cases t)
  case (TSplit n a ts fs)
  with assms have "length (normalize_split_fractions fs) = length ts" using normalize_bounds [of fs] by auto
  then have "map fst (zip ts (normalize_split_fractions fs)) = ts" by simp
  moreover have "map fst (map (\<lambda>(t, f). (t, f32_mul share f)) zs) = map fst zs" for zs :: "(dock_tree \<times> f32) list"
    by (induction zs) auto
  ultimately show ?thesis using TSplit by (simp del: map_map)
qed simp_all

text \<open>A measure of a tree that is the concatenation over its subtrees is kept by flattening.\<close>

lemma concat_grand_children:
  assumes "canonical t" and "\<And>n a ts fs. m (TSplit n a ts fs) = concat (map m ts)"
  shows "concat (map m (map fst (grand_children axis (t, share)))) = m t"
  unfolding grand_children_trees [OF assms(1)] using assms(2) by (cases t) auto

lemma concat_flatten:
  assumes "\<And>t f. (t, f) \<in> set cs \<Longrightarrow> canonical t" and "\<And>n a ts fs. m (TSplit n a ts fs) = concat (map m ts)"
  shows "concat (map m (map fst (flatten_trees axis cs))) = concat (map m (map fst cs))"
  using assms(1)
proof (induction cs)
  case (Cons c cs)
  have "canonical (fst c)" using Cons.prems [of "fst c" "snd c"] by simp
  then have "concat (map m (map fst (grand_children axis c))) = m (fst c)"
    using concat_grand_children [OF _ assms(2), of "fst c" axis "snd c"] by simp
  moreover have "concat (map m (map fst (flatten_trees axis cs))) = concat (map m (map fst cs))"
    using Cons.prems by (intro Cons.IH) auto
  ultimately show ?case by (simp add: flatten_trees_def)
qed (simp add: flatten_trees_def)

lemma concat_kept:
  assumes "\<And>t. t \<in> set ts \<Longrightarrow> (case simp_tree t of None \<Rightarrow> [] | Some t' \<Rightarrow> m t') = m t"
  shows "concat (map m (map fst (kept_from fs i (map simp_tree ts)))) = concat (map m ts)"
  using assms
proof (induction ts arbitrary: i)
  case (Cons t ts)
  have "concat (map m (map fst (kept_from fs (i + 1) (map simp_tree ts)))) = concat (map m ts)"
    using Cons.prems by (intro Cons.IH) simp
  then show ?case using Cons.prems [of t] by (cases "simp_tree t") simp_all
qed simp

lemma concat_join_split:
  assumes "\<And>t f. (t, f) \<in> set cs \<Longrightarrow> canonical t" and "\<And>n a ts fs. m (TSplit n a ts fs) = concat (map m ts)"
  shows "(case join_split n axis cs of None \<Rightarrow> [] | Some t \<Rightarrow> m t) = concat (map m (map fst cs))"
proof -
  have flat: "concat (map m (map fst (flatten_trees axis cs))) = concat (map m (map fst cs))"
    using assms by (rule concat_flatten)
  consider "cs = []" | t f where "cs = [(t, f)]" | c1 c2 rest where "cs = c1 # c2 # rest" by (metis list.exhaust prod.exhaust)
  then show ?thesis
  proof cases
    case (3 c1 c2 rest)
    then show ?thesis using flat assms(2) by (simp add: join_split_def)
  qed (simp_all add: join_split_def)
qed

text \<open>The items and the tab stacks that hold items stay, in their order.\<close>

lemma simp_tree_measure:
  assumes "\<And>n a ts fs. m (TSplit n a ts fs) = concat (map m ts)" and "\<And>n t. m (TFloating n t) = m t"
    and "\<And>n selected. m (TTabs n [] selected) = []"
  shows "(case simp_tree t of None \<Rightarrow> [] | Some t' \<Rightarrow> m t') = m t"
proof (induction t)
  case (TFloating n t)
  then show ?case using assms(2) by (cases "simp_tree t") simp_all
next
  case (TSplit n axis ts fs)
  have "canonical t" if "(t, f) \<in> set (kept_from fs 0 (map simp_tree ts))" for t f
    using kept_from_member [OF that] simp_tree_canonical by auto
  from concat_join_split [OF this assms(1)] concat_kept [where m = m and ts = ts and fs = fs and i = 0] TSplit.IH
  show ?case by (simp add: assms(1))
qed (auto simp: assms(3))

lemma simp_tree_items: "tree_items t = (case simp_tree t of None \<Rightarrow> [] | Some t' \<Rightarrow> tree_items t')"
  using simp_tree_measure [of tree_items t] by simp

definition held_tabs :: "dock_tree \<Rightarrow> (node_id \<times> item_id list \<times> item_id option) list" where
  "held_tabs t = filter (\<lambda>(n, items, selected). items \<noteq> []) (tabs_of t)"

lemma filter_concat_map: "filter P (concat (map f xs)) = concat (map (\<lambda>x. filter P (f x)) xs)"
  by (induction xs) simp_all

lemma simp_tree_tabs: "held_tabs t = (case simp_tree t of None \<Rightarrow> [] | Some t' \<Rightarrow> held_tabs t')"
  by (rule sym, rule simp_tree_measure) (simp_all add: held_tabs_def [abs_def] filter_concat_map)

lemma canonical_tabs: "canonical t \<Longrightarrow> held_tabs t = tabs_of t"
proof (induction t)
  case (TSplit n axis ts fs)
  then show ?case by (auto simp: held_tabs_def filter_concat_map intro!: arg_cong [where f = concat])
qed (simp_all add: held_tabs_def)

lemma flatten_ids:
  assumes "\<And>t f. (t, f) \<in> set cs \<Longrightarrow> canonical t"
  shows "subseq (concat (map ids (map fst (flatten_trees axis cs)))) (concat (map ids (map fst cs)))"
  using assms
proof (induction cs)
  case (Cons c cs)
  obtain t share where c: "c = (t, share)" by (cases c)
  then have "canonical t" using Cons.prems [of t share] by simp
  then have "map fst (grand_children axis c) = (if splits_on axis t then subtrees t else [t])"
    using grand_children_trees c by simp
  then have "subseq (concat (map ids (map fst (grand_children axis c)))) (ids (fst c))"
    using c ids_tree [of t] by (simp del: map_map add: list_emb_Cons)
  moreover have "subseq (concat (map ids (map fst (flatten_trees axis cs)))) (concat (map ids (map fst cs)))"
    using Cons.prems by (intro Cons.IH) auto
  ultimately show ?case by (simp add: flatten_trees_def list_emb_append_mono)
qed (simp add: flatten_trees_def)

lemma kept_ids:
  assumes "\<And>t t'. t \<in> set ts \<Longrightarrow> simp_tree t = Some t' \<Longrightarrow> subseq (ids t') (ids t)"
  shows "subseq (concat (map ids (map fst (kept_from fs i (map simp_tree ts))))) (concat (map ids ts))"
  using assms
proof (induction ts arbitrary: i)
  case (Cons t ts)
  have *: "subseq (concat (map ids (map fst (kept_from fs (i + 1) (map simp_tree ts))))) (concat (map ids ts))"
    using Cons.prems by (intro Cons.IH) simp
  then show ?case using Cons.prems [of t]
    by (cases "simp_tree t") (auto intro: list_emb_append_mono list_emb_append2)
qed simp

lemma simp_tree_ids: "simp_tree t = Some t' \<Longrightarrow> subseq (ids t') (ids t)"
proof (induction t arbitrary: t')
  case (TSplit n axis ts fs)
  let ?cs = "kept_from fs 0 (map simp_tree ts)"
  have canon: "canonical t" if "(t, f) \<in> set ?cs" for t f
    using kept_from_member [OF that] simp_tree_canonical by auto
  have kept: "subseq (concat (map ids (map fst ?cs))) (concat (map ids ts))"
    using TSplit.IH by (intro kept_ids) auto
  consider f where "?cs = [(t', f)]" | "t' = TSplit n axis (map fst (flatten_trees axis ?cs)) (normalize_split_fractions (map snd (flatten_trees axis ?cs)))"
    using TSplit.prems by (auto simp: join_split_def split: list.splits)
  then show ?case
  proof cases
    case 1
    then show ?thesis using kept by (simp add: list_emb_Cons)
  next
    case 2
    then show ?thesis using subseq_order.trans [OF flatten_ids [OF canon] kept] by simp
  qed
qed (auto split: if_splits)

lemma subseqs_set: "subseq xs ys \<Longrightarrow> set xs \<subseteq> set ys"
  using list_emb_set [of "(=)" xs ys] by auto

lemma subseqs_distinct: "subseq xs ys \<Longrightarrow> distinct ys \<Longrightarrow> distinct xs"
  by (auto simp: subseq_conv_nths)

lemma simp_tree_ids_set: "simp_tree t = Some t' \<Longrightarrow> set (ids t') \<subseteq> set (ids t)"
  by (rule subseqs_set, rule simp_tree_ids)

lemma simp_tree_distinct: "simp_tree t = Some t' \<Longrightarrow> distinct (ids t) \<Longrightarrow> distinct (ids t')"
  by (rule subseqs_distinct, rule simp_tree_ids)

section \<open>Simplification of the store\<close>

abbreviation stored :: "'s slot_ops \<Rightarrow> 's \<Rightarrow> node_id set" where
  "stored so s \<equiv> dom (so_get so s)"

text \<open>The store \<open>s'\<close> differs from \<open>s\<close> only at nodes of \<open>ns\<close>, and stores the same nodes.\<close>

definition touches :: "'s slot_ops \<Rightarrow> node_id set \<Rightarrow> 's \<Rightarrow> 's \<Rightarrow> bool" where
  "touches so ns s s' \<longleftrightarrow> (\<forall>n. n \<notin> ns \<longrightarrow> so_get so s' n = so_get so s n) \<and> stored so s' = stored so s"

lemma touches_refl [simp]: "touches so ns s s"
  by (simp add: touches_def)

lemma touches_trans: "touches so ns s s1 \<Longrightarrow> touches so ms s1 s2 \<Longrightarrow> touches so (ns \<union> ms) s s2"
  by (simp add: touches_def)

lemma touches_mono: "touches so ns s s' \<Longrightarrow> ns \<subseteq> ms \<Longrightarrow> touches so ms s s'"
  by (auto simp: touches_def)

lemma touches_rep: "touches so ns s s' \<Longrightarrow> set (ids t) \<inter> ns = {} \<Longrightarrow> rep (so_get so s) t \<Longrightarrow> rep (so_get so s') t"
  by (subst rep_cong [of t _ "so_get so s"]) (auto simp: touches_def)

lemma set_touches:
  assumes "slot_laws so" and "so_get so s n \<noteq> None"
  shows "touches so {n} s (so_set so s n x)" and "so_get so (so_set so s n x) = (so_get so s)(n \<mapsto> x)"
  using assms by (auto simp: touches_def slot_laws_def)

definition simplified :: "'s slot_ops \<Rightarrow> 's \<Rightarrow> dock_tree \<Rightarrow> 's \<Rightarrow> bool" where
  "simplified so s t s' \<longleftrightarrow> simplify_subtree so (tid t) s = Some (map_option tid (simp_tree t), s') \<and>
     touches so (set (ids t)) s s' \<and> (\<forall>t'. simp_tree t = Some t' \<longrightarrow> rep (so_get so s') t')"

text \<open>The loop over the children.\<close>

lemma keep_loop:
  assumes "\<And>t s. t \<in> set ts \<Longrightarrow> rep (so_get so s) t \<Longrightarrow> distinct (ids t) \<Longrightarrow> \<exists>s'. simplified so s t s'"
    and "\<And>t. t \<in> set ts \<Longrightarrow> rep (so_get so s) t" and "distinct (concat (map ids ts))"
  shows "\<exists>s'. for_p (keep_child fs (simplify_subtree so)) (List.enumerate i (map tid ts)) (cs, gs, s) =
      Some (cs @ map (\<lambda>(t, f). tid t) (kept_from fs i (map simp_tree ts)),
            gs @ map snd (kept_from fs i (map simp_tree ts)), s') \<and>
    touches so (set (concat (map ids ts))) s s' \<and>
    (\<forall>t \<in> set (map fst (kept_from fs i (map simp_tree ts))). rep (so_get so s') t)"
  using assms
proof (induction ts arbitrary: i cs gs s)
  case (Cons t ts)
  obtain s1 where s1: "simplified so s t s1" using Cons.prems by (metis list.set_intros(1) distinct_append concat.simps(2) list.simps(9))
  then have touched: "touches so (set (ids t)) s s1" by (simp add: simplified_def)
  have apart: "set (ids t) \<inter> set (concat (map ids ts)) = {}" using Cons.prems(3) by auto
  have reps: "rep (so_get so s1) t'" if "t' \<in> set ts" for t'
    by (rule touches_rep [OF touched]) (use that apart Cons.prems(2) in auto)
  let ?i = "Suc i"
  define cs1 where "cs1 = (case simp_tree t of None \<Rightarrow> cs | Some t' \<Rightarrow> cs @ [tid t'])"
  define gs1 where "gs1 = (case simp_tree t of None \<Rightarrow> gs | Some t' \<Rightarrow> gs @ [share_at fs i])"
  have step: "keep_child fs (simplify_subtree so) (i, tid t) (cs, gs, s) = Some (cs1, gs1, s1)"
    using s1 by (auto simp: keep_child_def simplified_def cs1_def gs1_def share_at_def split: option.split)
  obtain s' where s': "for_p (keep_child fs (simplify_subtree so)) (List.enumerate ?i (map tid ts)) (cs1, gs1, s1) =
      Some (cs1 @ map (\<lambda>(t, f). tid t) (kept_from fs ?i (map simp_tree ts)),
            gs1 @ map snd (kept_from fs ?i (map simp_tree ts)), s')"
    "touches so (set (concat (map ids ts))) s1 s'"
    "\<forall>t \<in> set (map fst (kept_from fs ?i (map simp_tree ts))). rep (so_get so s') t"
    using Cons.IH [of s1 ?i cs1 gs1] Cons.prems reps by auto
  have kept: "rep (so_get so s') t'" if "simp_tree t = Some t'" for t'
  proof (rule touches_rep [OF s'(2)])
    show "set (ids t') \<inter> set (concat (map ids ts)) = {}" using simp_tree_ids_set [OF that] apart by auto
    show "rep (so_get so s1) t'" using s1 that by (simp add: simplified_def)
  qed
  have "touches so (set (concat (map ids (t # ts)))) s s'"
    using touches_trans [OF touched s'(2)] by simp
  then show ?case using step s' kept
    by (cases "simp_tree t") (auto simp: cs1_def gs1_def)
qed simp

text \<open>Flattening: one pass does it, the next one finds nothing.\<close>

lemma flatten_pass_trees:
  assumes "\<And>t f. (t, f) \<in> set cs \<Longrightarrow> rep (so_get so s) t"
  shows "flatten_pass so s axis (map (\<lambda>(t, f). (tid t, f)) cs) =
    (\<exists>t \<in> set (map fst cs). splits_on axis t,
     map (\<lambda>(t, f). tid t) (flatten_trees axis cs), map snd (flatten_trees axis cs))"
  using assms
proof (induction cs)
  case (Cons c cs)
  obtain t share where c: "c = (t, share)" by (cases c)
  have r: "rep (so_get so s) t" using Cons.prems [of t share] c by simp
  have IH: "flatten_pass so s axis (map (\<lambda>(t, f). (tid t, f)) cs) =
    (\<exists>t \<in> set (map fst cs). splits_on axis t,
     map (\<lambda>(t, f). tid t) (flatten_trees axis cs), map snd (flatten_trees axis cs))"
    using Cons.prems by (intro Cons.IH) auto
  show ?case
  proof (cases t)
    case (TSplit n a ts fs)
    have "map (\<lambda>(t, f). tid t) (map (\<lambda>(t, f). (t, f32_mul share f)) zs) = map fst (map (\<lambda>(t, f). (tid t, f)) zs) \<and>
        map snd (map (\<lambda>(t, f). (t, f32_mul share f)) zs) = map (\<lambda>(_, f). f32_mul share f) (map (\<lambda>(t, f). (tid t, f)) zs)" for zs
      by (induction zs) auto
    moreover have "map (\<lambda>(t, f). (tid t, f)) (zip ts (normalize_split_fractions fs)) = zip (map tid ts) (normalize_split_fractions fs)"
      by (simp add: zip_map1)
    ultimately show ?thesis using IH r c TSplit
      by (auto simp: flatten_trees_def Let_def simp del: map_map)
  qed (use IH r c in \<open>auto simp: flatten_trees_def\<close>)
qed (simp add: flatten_trees_def)


lemma flatten_again:
  assumes "\<And>t. t \<in> set (map fst cs) \<Longrightarrow> \<not> splits_on axis t"
  shows "flatten_trees axis cs = cs"
  using assms grand_children_other by (induction cs) (fastforce simp: flatten_trees_def)+

lemma zip_tids: "zip (map (\<lambda>(t, f). tid t) cs) (map snd cs) = map (\<lambda>(t, f). (tid t, f)) cs"
  by (induction cs) auto

lemma flatten_stored:
  assumes "\<And>t f. (t, f) \<in> set cs \<Longrightarrow> rep (so_get so s) t \<and> canonical t"
  shows "flatten_same_axis_splits so s axis (map (\<lambda>(t, f). tid t) cs) (map snd cs) =
    Some (map (\<lambda>(t, f). tid t) (flatten_trees axis cs), map snd (flatten_trees axis cs))"
proof -
  let ?flat = "flatten_trees axis cs"
  have flat: "rep (so_get so s) t \<and> \<not> splits_on axis t" if t: "(t, f) \<in> set ?flat" for t f
  proof -
    obtain t1 f1 where t1: "(t1, f1) \<in> set cs" "(t, f) \<in> set (grand_children axis (t1, f1))"
      using t by (auto simp: flatten_trees_def)
    then have "t \<in> set (map fst (grand_children axis (t1, f1)))" by force
    then have "t \<in> set (if splits_on axis t1 then subtrees t1 else [t1])"
      using grand_children_trees [of t1 axis f1] assms [OF t1(1)] by simp
    then have "rep (so_get so s) t" using assms [OF t1(1)] rep_subtrees by (auto split: if_splits)
    then show ?thesis using grand_children_canonical [OF _ t1(2)] assms [OF t1(1)] by simp
  qed
  have pass: "flatten_pass so s axis (map (\<lambda>(t, f). (tid t, f)) cs) =
      (\<exists>t \<in> set (map fst cs). splits_on axis t, map (\<lambda>(t, f). tid t) ?flat, map snd ?flat)"
    using assms by (intro flatten_pass_trees) auto
  have again: "flatten_trees axis ?flat = ?flat" using flat by (intro flatten_again) auto
  have "flatten_pass so s axis (map (\<lambda>(t, f). (tid t, f)) ?flat) =
      (\<exists>t \<in> set (map fst ?flat). splits_on axis t, map (\<lambda>(t, f). tid t) ?flat, map snd ?flat)"
    using flatten_pass_trees [of ?flat so s axis] flat again by auto
  moreover have "\<not> (\<exists>t \<in> set (map fst ?flat). splits_on axis t)" using flat by auto
  ultimately have stop: "flatten_same_axis_splits so s axis (map (\<lambda>(t, f). tid t) ?flat) (map snd ?flat) =
      Some (map (\<lambda>(t, f). tid t) ?flat, map snd ?flat)"
    by (subst flatten_same_axis_splits.simps) (simp add: zip_tids)
  show ?thesis
  proof (cases "\<exists>t \<in> set (map fst cs). splits_on axis t")
    case True
    then show ?thesis using pass stop by (subst flatten_same_axis_splits.simps) (simp add: zip_tids)
  next
    case False
    then have "?flat = cs" by (intro flatten_again) auto
    then show ?thesis using stop by simp
  qed
qed

lemma finish_split_stored:
  assumes "slot_laws so" and "so_get so s n = Some (Split axis children0 fractions0)"
    and "\<And>t f. (t, f) \<in> set cs \<Longrightarrow> rep (so_get so s) t \<and> canonical t"
    and "n \<notin> set (concat (map ids (map fst cs)))"
  shows "\<exists>s'. finish_split so n axis (map (\<lambda>(t, f). tid t) cs, map snd cs, s) = Some (map_option tid (join_split n axis cs), s') \<and>
    touches so {n} s s' \<and> (\<forall>t'. join_split n axis cs = Some t' \<longrightarrow> rep (so_get so s') t')"
proof -
  let ?flat = "flatten_trees axis cs"
  have canon: "canonical t" if "(t, f) \<in> set cs" for t f using assms(3) [OF that] by simp
  consider "cs = []" | t f where "cs = [(t, f)]" | "2 \<le> length cs"
    by (metis One_nat_def Suc_1 Suc_leI length_Suc_conv length_greater_0_conv less_one nat_neq_iff not_less old.prod.exhaust length_0_conv)
  then show ?thesis
  proof cases
    case 3
    then have long: "2 \<le> length ?flat" using flatten_length [where cs = cs and axis = axis] canon by simp
    let ?s' = "write_split so s n (map (\<lambda>(t, f). tid t) ?flat) (normalize_split_fractions (map snd ?flat))"
    have "?flat \<noteq> []" "length ?flat \<noteq> 1" "cs \<noteq> []" "length cs \<noteq> Suc 0" using 3 long by auto
    then have eq: "finish_split so n axis (map (\<lambda>(t, f). tid t) cs, map snd cs, s) = Some (Some n, ?s')"
      by (simp add: finish_split_def flatten_stored [where cs = cs, OF assms(3)])
    have join: "join_split n axis cs = Some (TSplit n axis (map fst ?flat) (normalize_split_fractions (map snd ?flat)))"
      using 3 by (auto simp: join_split_def split: list.splits)
    have get: "so_get so ?s' = (so_get so s)(n \<mapsto> Split axis (map (\<lambda>(t, f). tid t) ?flat) (normalize_split_fractions (map snd ?flat)))"
      and "touches so {n} s ?s'"
      using set_touches [OF assms(1), of s n] assms(2) by (simp_all add: write_split_def)
    moreover have "rep (so_get so ?s') t" if t: "(t, f) \<in> set ?flat" for t f
    proof -
      obtain t1 f1 where t1: "(t1, f1) \<in> set cs" "(t, f) \<in> set (grand_children axis (t1, f1))"
        using t by (auto simp: flatten_trees_def)
      then have "t \<in> set (map fst (grand_children axis (t1, f1)))" by force
      then have sub: "t \<in> set (if splits_on axis t1 then subtrees t1 else [t1])"
        using grand_children_trees [of t1 axis f1] assms(3) [OF t1(1)] by simp
      then have "rep (so_get so s) t" using assms(3) [OF t1(1)] rep_subtrees by (auto split: if_splits)
      moreover have "set (ids t) \<subseteq> set (ids t1)" using sub ids_tree [of t1] by (auto split: if_splits)
      then have "n \<notin> set (ids t)" using assms(4) t1(1) by force
      ultimately show ?thesis using get by (simp add: rep_upd)
    qed
    ultimately show ?thesis using eq join by (auto simp: case_prod_beta)
  qed (use assms(3) in \<open>auto simp: finish_split_def join_split_def\<close>)
qed

theorem simplify_subtree_simplifies:
  assumes "slot_laws so"
  shows "rep (so_get so s) t \<Longrightarrow> distinct (ids t) \<Longrightarrow> \<exists>s'. simplified so s t s'"
proof (induction t arbitrary: s)
  case (TTabs n items selected)
  then show ?case by (auto simp: simplified_def simplify_subtree.simps)
next
  case (TFloating n t)
  then obtain s1 where s1: "simplified so s t s1" by auto
  have fresh: "n \<notin> set (ids t)" and here: "so_get so s n = Some (Floating (tid t))" using TFloating.prems by auto
  then have get: "so_get so s1 n = Some (Floating (tid t))" using s1 by (auto simp: simplified_def touches_def)
  have run: "simplify_subtree so n s =
      Some (case simp_tree t of None \<Rightarrow> (None, s1) | Some t' \<Rightarrow> (Some n, write_floating so s1 n (tid t')))"
    using s1 here by (subst simplify_subtree.simps) (simp add: simplified_def split: option.split)
  show ?case
  proof (cases "simp_tree t")
    case None
    with run s1 show ?thesis by (auto simp: simplified_def intro: touches_mono)
  next
    case (Some t')
    have written: "touches so {n} s1 (write_floating so s1 n (tid t'))"
      "so_get so (write_floating so s1 n (tid t')) = (so_get so s1)(n \<mapsto> Floating (tid t'))"
      using set_touches [OF assms, of s1 n] get by (simp_all add: write_floating_def)
    have "n \<notin> set (ids t')" using simp_tree_ids_set [OF Some] fresh by auto
    then have "rep ((so_get so s1)(n \<mapsto> Floating (tid t'))) t'" using s1 Some by (simp add: simplified_def rep_upd)
    moreover have "touches so (set (ids (TFloating n t))) s (write_floating so s1 n (tid t'))"
      using touches_trans [OF _ written(1), of "set (ids t)" s] s1 by (simp add: simplified_def insert_commute)
    ultimately show ?thesis using run Some written(2) by (auto simp: simplified_def)
  qed
next
  case (TSplit n axis ts fs)
  let ?cs = "kept_from fs 0 (map simp_tree ts)"
  obtain s1 where s1: "for_p (keep_child fs (simplify_subtree so)) (List.enumerate 0 (map tid ts)) ([], [], s) =
      Some (map (\<lambda>(t, f). tid t) ?cs, map snd ?cs, s1)"
    "touches so (set (concat (map ids ts))) s s1" "\<forall>t \<in> set (map fst ?cs). rep (so_get so s1) t"
    using keep_loop [of ts so s fs 0 "[]" "[]"] TSplit by auto
  have fresh: "n \<notin> set (concat (map ids ts))" using TSplit.prems by simp
  have get: "so_get so s n = Some (Split axis (map tid ts) fs)" using TSplit.prems by simp
  then have get1: "so_get so s1 n = Some (Split axis (map tid ts) fs)" using s1(2) fresh by (simp add: touches_def)
  have good: "rep (so_get so s1) t \<and> canonical t" if "(t, f) \<in> set ?cs" for t f
    using s1(3) kept_from_member [OF that] simp_tree_canonical that by force
  have apart: "n \<notin> set (concat (map ids (map fst ?cs)))"
  proof
    assume "n \<in> set (concat (map ids (map fst ?cs)))"
    then obtain t f where t: "(t, f) \<in> set ?cs" "n \<in> set (ids t)" by auto
    then obtain t0 where "t0 \<in> set ts" "simp_tree t0 = Some t" using kept_from_member [OF t(1)] by auto
    then show False using simp_tree_ids_set t(2) fresh by fastforce
  qed
  have "\<exists>s'. finish_split so n axis (map (\<lambda>(t, f). tid t) ?cs, map snd ?cs, s1) = Some (map_option tid (join_split n axis ?cs), s') \<and>
    touches so {n} s1 s' \<and> (\<forall>t'. join_split n axis ?cs = Some t' \<longrightarrow> rep (so_get so s') t')"
    by (rule finish_split_stored [OF assms get1 _ apart]) (rule good)
  then obtain s' where s': "finish_split so n axis (map (\<lambda>(t, f). tid t) ?cs, map snd ?cs, s1) = Some (map_option tid (join_split n axis ?cs), s')"
    "touches so {n} s1 s'" "\<forall>t'. join_split n axis ?cs = Some t' \<longrightarrow> rep (so_get so s') t'" by blast
  have "simplify_subtree so n s = Some (map_option tid (join_split n axis ?cs), s')"
    using get s1(1) s'(1) by (subst simplify_subtree.simps) simp
  moreover have "touches so (set (ids (TSplit n axis ts fs))) s s'" using touches_trans [OF s1(2) s'(2)] by simp
  ultimately show ?case using s'(3) by (auto simp: simplified_def)
qed

end
