(* ===== verification/Dock_Forest.thy ===== *)
theory Dock_Forest
  imports Dock_Simplify "HOL-Library.Multiset"
begin

text \<open>
  The forests of a docking graph: per dock space the tree of the root and the trees of the floating containers, all of them on
  different nodes; and what each building block of the mutations does to them.
\<close>

section \<open>Replacing a subtree\<close>

fun replace_at :: "node_id \<Rightarrow> dock_tree \<Rightarrow> dock_tree \<Rightarrow> dock_tree" where
  "replace_at n new (TTabs m items selected) = (if m = n then new else TTabs m items selected)"
| "replace_at n new (TFloating m t) = (if m = n then new else TFloating m (replace_at n new t))"
| "replace_at n new (TSplit m axis ts fs) = (if m = n then new else TSplit m axis (map (replace_at n new) ts) fs)"

lemma replace_absent [simp]: "n \<notin> set (ids t) \<Longrightarrow> replace_at n new t = t"
  by (induction t) (auto intro!: map_idI)

lemma replace_here: "tid t = n \<Longrightarrow> replace_at n new t = new"
  by (cases t) auto

lemma replace_tid [simp]: "tid new = n \<Longrightarrow> tid (replace_at n new t) = tid t"
  by (cases t) auto

lemma replace_rep:
  assumes "rep get t" and "tid new = n" and "rep get' new" and "\<And>k. k \<in> set (ids t) \<Longrightarrow> k \<noteq> n \<Longrightarrow> get' k = get k"
  shows "rep get' (replace_at n new t)"
  using assms(1,4)
proof (induction t)
  case (TSplit m axis ts fs)
  show ?case
  proof (cases "m = n")
    case False
    have "rep get' (replace_at n new t)" if "t \<in> set ts" for t
      using TSplit.prems that by (intro TSplit.IH) auto
    then show ?thesis using False TSplit.prems assms(2) by (auto simp: comp_def)
  qed (use assms in simp)
qed (use assms in auto)

lemma concat_replace:
  assumes "t \<in> set ts" and "n \<in> set (ids t)" and "distinct (concat (map ids ts))"
    and "mset (m (replace_at n new t)) + mset (m old) = mset (m t) + mset (m new)"
  shows "mset (concat (map m (map (replace_at n new) ts))) + mset (m old) = mset (concat (map m ts)) + mset (m new)"
proof -
  obtain xs ys where ts: "ts = xs @ t # ys" using assms(1) by (metis split_list)
  have "n \<notin> set (ids t')" if "t' \<in> set xs \<union> set ys" for t'
    using assms(2,3) that unfolding ts by auto
  then have "map (replace_at n new) xs = xs" "map (replace_at n new) ys = ys" by (auto intro!: map_idI)
  then show ?thesis using assms(4) by (simp add: ts algebra_simps)
qed

text \<open>A measure that a node adds to and that collects its subtrees changes by the subtree.\<close>

lemma replace_measure:
  assumes "\<And>k axis ts fs. m (TSplit k axis ts fs) = p k @ concat (map m ts)" and "\<And>k t. m (TFloating k t) = p k @ m t"
    and "rep get t" and "n \<in> set (ids t)" and "distinct (ids t)" and "rep get old" and "tid old = n"
  shows "mset (m (replace_at n new t)) + mset (m old) = mset (m t) + mset (m new)"
  using assms(3-5)
proof (induction t)
  case (TTabs k items selected)
  then have "old = TTabs k items selected" using assms(6,7) by (intro rep_unique [of get]) auto
  then show ?case using TTabs by simp
next
  case (TFloating k t)
  show ?case
  proof (cases "k = n")
    case True
    then have "old = TFloating k t" using TFloating.prems assms(6,7) by (intro rep_unique [of get]) auto
    then show ?thesis using True by simp
  next
    case False
    then show ?thesis using TFloating by (auto simp: assms(2) union_assoc)
  qed
next
  case (TSplit k axis ts fs)
  show ?case
  proof (cases "k = n")
    case True
    then have "old = TSplit k axis ts fs" using TSplit.prems assms(6,7) by (intro rep_unique [of get]) auto
    then show ?thesis using True by simp
  next
    case False
    then obtain t where t: "t \<in> set ts" "n \<in> set (ids t)" using TSplit.prems by auto
    then have "distinct (ids t)" using TSplit.prems(3) by (auto simp: distinct_concat_iff)
    then have "mset (m (replace_at n new t)) + mset (m old) = mset (m t) + mset (m new)"
      using TSplit.prems t by (intro TSplit.IH) auto
    then have "mset (concat (map m (map (replace_at n new) ts))) + mset (m old) = mset (concat (map m ts)) + mset (m new)"
      using TSplit.prems t by (intro concat_replace) auto
    then show ?thesis using False by (simp add: assms(1) algebra_simps)
  qed
qed

lemma replace_ids:
  "rep get t \<Longrightarrow> n \<in> set (ids t) \<Longrightarrow> distinct (ids t) \<Longrightarrow> rep get old \<Longrightarrow> tid old = n \<Longrightarrow>
     mset (ids (replace_at n new t)) + mset (ids old) = mset (ids t) + mset (ids new)"
  by (rule replace_measure [where p = "\<lambda>k. [k]"]) simp_all

lemma replace_items:
  "rep get t \<Longrightarrow> n \<in> set (ids t) \<Longrightarrow> distinct (ids t) \<Longrightarrow> rep get old \<Longrightarrow> tid old = n \<Longrightarrow>
     mset (tree_items (replace_at n new t)) + mset (tree_items old) = mset (tree_items t) + mset (tree_items new)"
  by (rule replace_measure [where p = "\<lambda>k. []"]) simp_all

section \<open>Forests\<close>

type_synonym grove = "dock_tree option \<times> dock_tree list"

fun trees :: "grove \<Rightarrow> dock_tree list" where
  "trees (r, ws) = (case r of None \<Rightarrow> [] | Some t \<Rightarrow> [t]) @ ws"

definition grove_ids :: "grove \<Rightarrow> node_id list" where
  "grove_ids p = concat (map ids (trees p))"

definition grove_items :: "grove \<Rightarrow> item_id multiset" where
  "grove_items p = mset (concat (map tree_items (trees p)))"

definition map_grove :: "(dock_tree \<Rightarrow> dock_tree) \<Rightarrow> grove \<Rightarrow> grove" where
  "map_grove f = (\<lambda>(r, ws). (map_option f r, map f ws))"

lemma trees_map_grove [simp]: "trees (map_grove f p) = map f (trees p)"
  by (cases p) (simp add: map_grove_def split: option.split)

definition maps_ok :: "'s dock_graph \<Rightarrow> bool" where
  "maps_ok g \<longleftrightarrow> bt_ok (dg_roots g) \<and> bt_ok (dg_floatings g) \<and> bt_ok (dg_central g)"

text \<open>The links from the spaces to the trees, and that the trees are stored on nodes of their own.\<close>

definition linked :: "'s dock_graph \<Rightarrow> space_id \<Rightarrow> grove \<Rightarrow> bool" where
  "linked g sp p \<longleftrightarrow> root_of g sp = map_option tid (fst p) \<and> map fc_node (floating_containers g sp) = map tid (snd p)"

definition apart :: "(space_id \<Rightarrow> grove) \<Rightarrow> bool" where
  "apart F \<longleftrightarrow> (\<forall>sp. distinct (grove_ids (F sp))) \<and>
     (\<forall>sp sp'. sp \<noteq> sp' \<longrightarrow> set (grove_ids (F sp)) \<inter> set (grove_ids (F sp')) = {})"

definition forest :: "'s slot_ops \<Rightarrow> 's dock_graph \<Rightarrow> (space_id \<Rightarrow> grove) \<Rightarrow> bool" where
  "forest so g F \<longleftrightarrow> maps_ok g \<and> (\<forall>sp. linked g sp (F sp)) \<and> (\<forall>sp. \<forall>t \<in> set (trees (F sp)). rep (node so g) t) \<and> apart F"

lemma forest_rep: "forest so g F \<Longrightarrow> t \<in> set (trees (F sp)) \<Longrightarrow> rep (node so g) t"
  by (auto simp: forest_def)

lemma forest_distinct: "forest so g F \<Longrightarrow> distinct (grove_ids (F sp))"
  by (auto simp: forest_def apart_def)

lemma forest_apart: "forest so g F \<Longrightarrow> sp \<noteq> sp' \<Longrightarrow> n \<in> set (grove_ids (F sp)) \<Longrightarrow> n \<notin> set (grove_ids (F sp'))"
  unfolding forest_def apart_def by blast

lemma forest_roots_trees: "forest so g F \<Longrightarrow> forest_roots g sp = map tid (trees (F sp))"
  by (cases "F sp") (auto simp: forest_def linked_def forest_roots_def split: option.split)

lemma grove_ids_tree: "n \<in> set (grove_ids p) \<longleftrightarrow> (\<exists>t \<in> set (trees p). n \<in> set (ids t))"
  by (auto simp: grove_ids_def)

lemma forest_stored: "forest so g F \<Longrightarrow> n \<in> set (grove_ids (F sp)) \<Longrightarrow> node so g n \<noteq> None"
  using rep_stored forest_rep by (fastforce simp: grove_ids_tree)

lemma distinct_tree: "distinct (concat (map ids ts)) \<Longrightarrow> t \<in> set ts \<Longrightarrow> distinct (ids t)"
  by (induction ts) auto

lemma forest_tree_distinct: "forest so g F \<Longrightarrow> t \<in> set (trees (F sp)) \<Longrightarrow> distinct (ids t)"
  using distinct_tree forest_distinct unfolding grove_ids_def by blast

text \<open>The subtree at a node.\<close>

lemma rep_subtree_at: "rep get t \<Longrightarrow> n \<in> set (ids t) \<Longrightarrow> \<exists>t0. rep get t0 \<and> tid t0 = n \<and> set (ids t0) \<subseteq> set (ids t)"
proof (induction t)
  case (TFloating k t)
  then show ?case by (cases "n = k") (force intro: exI [of _ "TFloating k t"])+
next
  case (TSplit k axis ts fs)
  show ?case
  proof (cases "n = k")
    case True
    then show ?thesis using TSplit.prems by (intro exI [of _ "TSplit k axis ts fs"]) simp
  next
    case False
    then obtain t where "t \<in> set ts" "n \<in> set (ids t)" using TSplit.prems by auto
    then show ?thesis using TSplit.IH [of t] TSplit.prems by fastforce
  qed
qed (force intro: exI [of _ "TTabs n items selected" for n items selected])

lemma rep_distinct_sub:
  "rep get t \<Longrightarrow> distinct (ids t) \<Longrightarrow> rep get t0 \<Longrightarrow> tid t0 \<in> set (ids t) \<Longrightarrow> distinct (ids t0) \<and> set (ids t0) \<subseteq> set (ids t)"
proof (induction t)
  case (TTabs k items selected)
  then have "t0 = TTabs k items selected" by (intro rep_unique [of get]) auto
  then show ?case by simp
next
  case (TFloating k t)
  show ?case
  proof (cases "tid t0 = k")
    case True
    then have "t0 = TFloating k t" using TFloating.prems by (intro rep_unique [of get]) auto
    then show ?thesis using TFloating.prems by simp
  next
    case False
    then show ?thesis using TFloating by auto
  qed
next
  case (TSplit k axis ts fs)
  show ?case
  proof (cases "tid t0 = k")
    case True
    then have "t0 = TSplit k axis ts fs" using TSplit.prems by (intro rep_unique [of get]) auto
    then show ?thesis using TSplit.prems by simp
  next
    case False
    then obtain t where "t \<in> set ts" "tid t0 \<in> set (ids t)" using TSplit.prems by auto
    moreover from this have "distinct (ids t)" using TSplit.prems(2) distinct_tree by auto
    ultimately show ?thesis using TSplit.IH [of t] TSplit.prems by auto
  qed
qed

text \<open>Graphs that differ in parts that the forest does not see.\<close>

lemma forest_cong:
  assumes "forest so g F" and "dg_roots g' = dg_roots g" and "dg_floatings g' = dg_floatings g" and "bt_ok (dg_central g')"
    and "\<And>n sp. n \<in> set (grove_ids (F sp)) \<Longrightarrow> node so g' n = node so g n"
  shows "forest so g' F"
proof -
  have "rep (node so g') t" if t: "t \<in> set (trees (F sp))" for t sp
    by (subst rep_cong [of t _ "node so g"]) (use assms(1,5) t in \<open>auto simp: grove_ids_tree intro: forest_rep\<close>)
  then show ?thesis using assms(1-4) by (simp add: forest_def maps_ok_def linked_def floating_containers_def)
qed

text \<open>One space gets other trees.\<close>

lemma forest_update:
  assumes "forest so g F" and "maps_ok g'" and "\<And>sp'. sp' \<noteq> sp \<Longrightarrow> root_of g' sp' = root_of g sp'"
    and "\<And>sp'. sp' \<noteq> sp \<Longrightarrow> floating_containers g' sp' = floating_containers g sp'" and "linked g' sp p"
    and "\<And>t. t \<in> set (trees p) \<Longrightarrow> rep (node so g') t"
    and "\<And>n sp'. sp' \<noteq> sp \<Longrightarrow> n \<in> set (grove_ids (F sp')) \<Longrightarrow> node so g' n = node so g n"
    and "distinct (grove_ids p)" and "\<And>n sp'. sp' \<noteq> sp \<Longrightarrow> n \<in> set (grove_ids p) \<Longrightarrow> n \<notin> set (grove_ids (F sp'))"
  shows "forest so g' (F(sp := p))"
proof -
  have "rep (node so g') t" if t: "t \<in> set (trees ((F(sp := p)) sp'))" for t sp'
  proof (cases "sp' = sp")
    case False
    then have "rep (node so g) t" using t assms(1) forest_rep by simp
    then show ?thesis
      by (subst rep_cong [of t _ "node so g"]) (use assms(7) False t in \<open>auto simp: grove_ids_tree\<close>)
  qed (use t assms(6) in simp)
  moreover have "apart (F(sp := p))" using assms(1,8,9) by (auto simp: forest_def apart_def)
  moreover have "linked g' sp' ((F(sp := p)) sp')" for sp'
    using assms(1,3-5) by (auto simp: forest_def linked_def)
  ultimately show ?thesis using assms(2) by (simp add: forest_def)
qed


text \<open>A subtree gets other contents, and nodes \<open>fresh\<close> that no tree has.\<close>

lemma forest_replace:
  assumes F: "forest so g F" and n: "n \<in> set (grove_ids (F sp))" and old: "rep (node so g) old" "tid old = n"
    and new: "rep (node so g') new" "tid new = n" "mset (ids new) = mset (ids old) + mset fresh"
    and fresh: "distinct fresh" "\<And>k sp. k \<in> set fresh \<Longrightarrow> k \<notin> set (grove_ids (F sp))"
    and same: "dg_roots g' = dg_roots g" "dg_floatings g' = dg_floatings g" "bt_ok (dg_central g')"
      "\<And>k sp. k \<in> set (grove_ids (F sp)) \<Longrightarrow> k \<noteq> n \<Longrightarrow> node so g' k = node so g k"
  shows "forest so g' (F(sp := map_grove (replace_at n new) (F sp)))"
    and "grove_items (map_grove (replace_at n new) (F sp)) + mset (tree_items old) = grove_items (F sp) + mset (tree_items new)"
    and "set (grove_ids (map_grove (replace_at n new) (F sp))) = set (grove_ids (F sp)) \<union> set fresh"
proof -
  obtain t where t: "t \<in> set (trees (F sp))" "n \<in> set (ids t)" using n by (auto simp: grove_ids_tree)
  have dist: "distinct (concat (map ids (trees (F sp))))" using forest_distinct [OF F] by (simp add: grove_ids_def)
  have t_ok: "rep (node so g) t" "distinct (ids t)" 
    using forest_rep [OF F t(1)] forest_tree_distinct [OF F t(1)] by simp_all
  have "mset (grove_ids (map_grove (replace_at n new) (F sp))) + mset (ids old) = mset (grove_ids (F sp)) + mset (ids new)"
    unfolding grove_ids_def trees_map_grove
    by (rule concat_replace [OF t dist]) (rule replace_ids [OF t_ok(1) t(2) t_ok(2) old])
  then have ids: "mset (grove_ids (map_grove (replace_at n new) (F sp))) = mset (grove_ids (F sp) @ fresh)"
    using new(3) by (simp add: algebra_simps)
  from mset_eq_setD [OF this]
  show "set (grove_ids (map_grove (replace_at n new) (F sp))) = set (grove_ids (F sp)) \<union> set fresh" by simp
  show "forest so g' (F(sp := map_grove (replace_at n new) (F sp)))"
  proof (rule forest_update [OF F])
    show "maps_ok g'" using F same(1-3) by (simp add: forest_def maps_ok_def)
    show "linked g' sp (map_grove (replace_at n new) (F sp))"
      using F same(1,2) new(2) unfolding forest_def linked_def map_grove_def floating_containers_def
      by (cases "F sp"; cases "fst (F sp)") (auto simp: comp_def dest!: spec [of _ sp])
    show "rep (node so g') t'" if "t' \<in> set (trees (map_grove (replace_at n new) (F sp)))" for t'
    proof -
      obtain t1 where t1: "t1 \<in> set (trees (F sp))" "t' = replace_at n new t1" using \<open>t' \<in> _\<close> by auto
      show ?thesis unfolding t1(2)
        by (rule replace_rep [OF forest_rep [OF F t1(1)] new(2,1)]) (use same(4) t1(1) grove_ids_tree in blast)
    qed
    show "node so g' k = node so g k" if "sp' \<noteq> sp" "k \<in> set (grove_ids (F sp'))" for k sp'
      using same(4) [OF that(2)] forest_apart [OF F that] n by blast
    show "distinct (grove_ids (map_grove (replace_at n new) (F sp)))"
      using mset_eq_imp_distinct_iff [OF ids] forest_distinct [OF F] fresh by auto
    show "k \<notin> set (grove_ids (F sp'))" if "sp' \<noteq> sp" "k \<in> set (grove_ids (map_grove (replace_at n new) (F sp)))" for k sp'
      using that mset_eq_setD [OF ids] fresh(2) forest_apart [OF F, of sp sp' k] by auto
  qed (use same in \<open>simp_all add: floating_containers_def\<close>)
  show "grove_items (map_grove (replace_at n new) (F sp)) + mset (tree_items old) = grove_items (F sp) + mset (tree_items new)"
    unfolding grove_items_def trees_map_grove
    by (rule concat_replace [OF t dist]) (rule replace_items [OF t_ok(1) t(2) t_ok(2) old])
qed

text \<open>A space gets another tree.\<close>

definition add_floating :: "dock_tree \<Rightarrow> grove \<Rightarrow> grove" where
  "add_floating t p = (fst p, snd p @ [t])"

lemma grove_add: "grove_ids (add_floating t p) = grove_ids p @ ids t"
    "grove_items (add_floating t p) = grove_items p + mset (tree_items t)"
    "trees (add_floating t p) = trees p @ [t]"
  by (cases p; simp add: add_floating_def grove_ids_def grove_items_def)+

lemma grove_root: "grove_ids (Some t, ws) = ids t @ grove_ids (None, ws)"
    "grove_items (Some t, ws) = mset (tree_items t) + grove_items (None, ws)"
  by (simp_all add: grove_ids_def grove_items_def)

section \<open>The queries\<close>

lemma find_item_forest:
  assumes "forest so g F"
  shows "find_item_in_space so g sp item = Some (find_map (tree_find item) (trees (F sp)))"
  unfolding find_item_in_space_def forest_roots_trees [OF assms]
  by (rule find_map_p_map) (rule find_item_tree, rule forest_rep [OF assms])

lemma collect_items_forest:
  assumes "forest so g F"
  shows "collect_items_in_space so g sp = Some (concat (map tree_items (trees (F sp))))"
proof -
  have "for_p (collect_items_into so g) (map tid (trees (F sp))) [] = Some ([] @ concat (map tree_items (trees (F sp))))"
    by (rule for_p_map) (rule collect_items_tree, rule forest_rep [OF assms])
  then show ?thesis by (simp add: collect_items_in_space_def forest_roots_trees [OF assms])
qed

lemma root_for_node_forest:
  assumes "forest so g F"
  shows "root_for_node_in_space so g sp n =
    Some (find_map (\<lambda>t. if n \<in> set (ids t) then Some (tid t) else None) (trees (F sp)))"
  unfolding root_for_node_in_space_def forest_roots_trees [OF assms]
  by (rule find_map_p_map) (simp add: subtree_contains_tree forest_rep [OF assms])

lemma root_for_node_iff:
  assumes "forest so g F"
  shows "\<exists>r. root_for_node_in_space so g sp n = Some r \<and> (r \<noteq> None \<longleftrightarrow> n \<in> set (grove_ids (F sp)))"
proof -
  have "find_map (\<lambda>t. if n \<in> set (ids t) then Some (tid t) else None) ts \<noteq> None \<longleftrightarrow> (\<exists>t \<in> set ts. n \<in> set (ids t))" for ts
    by (simp add: find_map_None)
  then show ?thesis by (simp add: root_for_node_forest [OF assms] grove_ids_tree)
qed

text \<open>An item that is found stands at its place in a tab stack of the space.\<close>

lemma find_item_found:
  assumes F: "forest so g F" and "find_item_in_space so g sp item = Some (Some (tabs, i))"
  shows "\<exists>items selected. node so g tabs = Some (Tabs items selected) \<and> i < length items \<and> items ! i = item \<and>
    tabs \<in> set (grove_ids (F sp))"
proof -
  have "find_map (tree_find item) (trees (F sp)) = Some (tabs, i)" using assms find_item_forest by fastforce
  then obtain t where t: "t \<in> set (trees (F sp))" "tree_find item t = Some (tabs, i)" by (blast dest: find_map_Some)
  then obtain items selected where tabs: "(tabs, items, selected) \<in> set (tabs_of t)" "position (\<lambda>c. c = item) items = Some i"
    by (blast dest: tree_find_Some)
  then show ?thesis
    using position_Some rep_tabs [OF forest_rep [OF F t(1)] tabs(1)] tabs_in_ids [OF tabs(1)] t(1) by (auto simp: grove_ids_tree)
qed

lemma find_item_absent:
  assumes F: "forest so g F" and "find_item_in_space so g sp item = Some None"
  shows "item \<notin># grove_items (F sp)"
  using assms by (auto simp: find_item_forest [OF F] find_map_None tree_find_None grove_items_def)

end
