(* ===== verification/Dock_Steps.thy ===== *)
theory Dock_Steps
  imports Dock_Forest
begin

text \<open>
  What the building blocks of the mutations do to the forest of the graph: writes to a node, new nodes, roots and floating
  containers, simplification, docking at an edge.
\<close>

section \<open>Nodes\<close>

lemma put_node_simps [simp]:
  "dg_roots (put_node so g n x) = dg_roots g" "dg_floatings (put_node so g n x) = dg_floatings g"
  "dg_central (put_node so g n x) = dg_central g" "dg_history (put_node so g n x) = dg_history g"
  by (simp_all add: put_node_def)

lemma put_node_get: "slot_laws so \<Longrightarrow> node so g n \<noteq> None \<Longrightarrow> node so (put_node so g n x) = (node so g)(n \<mapsto> x)"
  by (simp add: put_node_def slot_laws_def)

lemma forest_history [simp]: "forest so (g\<lparr>dg_history := h\<rparr>) F \<longleftrightarrow> forest so g F"
  by (simp add: forest_def maps_ok_def linked_def floating_containers_def)

lemma maps_ok_forest: "forest so g F \<Longrightarrow> maps_ok g"
  by (simp add: forest_def)

text \<open>A node of the forest gets new contents: the same subtrees, and nodes \<open>fresh\<close> that no tree has.\<close>

lemma put_node_forest:
  assumes so: "slot_laws so" and F: "forest so g F" and n: "n \<in> set (grove_ids (F sp))"
    and old: "rep (node so g) old" "tid old = n"
    and new: "tid new = n" "mset (ids new) = mset (ids old) + mset fresh" "rep ((node so g)(n \<mapsto> x)) new"
    and fresh: "distinct fresh" "\<And>k sp. k \<in> set fresh \<Longrightarrow> k \<notin> set (grove_ids (F sp))"
  shows "\<exists>F'. forest so (put_node so g n x) F' \<and> (\<forall>sp'. sp' \<noteq> sp \<longrightarrow> F' sp' = F sp') \<and>
    set (grove_ids (F' sp)) = set (grove_ids (F sp)) \<union> set fresh \<and>
    map_option tid (fst (F' sp)) = map_option tid (fst (F sp)) \<and>
    grove_items (F' sp) + mset (tree_items old) = grove_items (F sp) + mset (tree_items new)"
proof -
  let ?p = "map_grove (replace_at n new) (F sp)"
  have get: "node so (put_node so g n x) = (node so g)(n \<mapsto> x)"
    using put_node_get [OF so] forest_stored [OF F n] by simp
  have "bt_ok (dg_central g)" using F by (simp add: forest_def maps_ok_def)
  note step = forest_replace [OF F n old _ new(1,2) fresh, of "put_node so g n x"]
  have "forest so (put_node so g n x) (F(sp := ?p))"
    by (rule step(1)) (use new(3) get \<open>bt_ok (dg_central g)\<close> in simp_all)
  moreover have "grove_items ?p + mset (tree_items old) = grove_items (F sp) + mset (tree_items new)"
    by (rule step(2)) (use new(3) get \<open>bt_ok (dg_central g)\<close> in simp_all)
  moreover have "set (grove_ids ?p) = set (grove_ids (F sp)) \<union> set fresh"
    by (rule step(3)) (use new(3) get \<open>bt_ok (dg_central g)\<close> in simp_all)
  moreover have "map_option tid (fst ?p) = map_option tid (fst (F sp))"
    using new(1) by (cases "F sp"; cases "fst (F sp)") (simp_all add: map_grove_def)
  ultimately show ?thesis by (intro exI [of _ "F(sp := ?p)"]) simp
qed

lemma put_tabs_forest:
  assumes so: "slot_laws so" and F: "forest so g F" and n: "n \<in> set (grove_ids (F sp))"
    and tabs: "node so g n = Some (Tabs items selected)"
  shows "\<exists>F'. forest so (put_node so g n (Tabs items' selected')) F' \<and> (\<forall>sp'. sp' \<noteq> sp \<longrightarrow> F' sp' = F sp') \<and>
    set (grove_ids (F' sp)) = set (grove_ids (F sp)) \<and>
    map_option tid (fst (F' sp)) = map_option tid (fst (F sp)) \<and>
    grove_items (F' sp) + mset items = grove_items (F sp) + mset items'"
  using put_node_forest [OF so F n, of "TTabs n items selected" "TTabs n items' selected'" "[]" "Tabs items' selected'"] tabs by simp

lemma put_fractions_forest:
  assumes so: "slot_laws so" and F: "forest so g F" and n: "n \<in> set (grove_ids (F sp))"
    and split: "node so g n = Some (Split axis children fs)"
  shows "\<exists>F'. forest so (put_node so g n (Split axis children fs')) F' \<and> (\<forall>sp'. sp' \<noteq> sp \<longrightarrow> F' sp' = F sp') \<and>
    set (grove_ids (F' sp)) = set (grove_ids (F sp)) \<and>
    map_option tid (fst (F' sp)) = map_option tid (fst (F sp)) \<and> grove_items (F' sp) = grove_items (F sp)"
proof -
  obtain t where t: "t \<in> set (trees (F sp))" "n \<in> set (ids t)" using n by (auto simp: grove_ids_tree)
  then obtain old where old: "rep (node so g) old" "tid old = n" "set (ids old) \<subseteq> set (ids t)"
    using rep_subtree_at [OF forest_rep [OF F t(1)]] by blast
  then obtain ts where ts: "old = TSplit n axis ts fs" "children = map tid ts"
    using split rep_get [OF old(1)] by (cases old) auto
  have "n \<notin> set (concat (map ids ts))"
  proof -
    have "distinct (ids old)" using rep_distinct_sub [OF forest_rep [OF F t(1)] forest_tree_distinct [OF F t(1)] old(1)] t(2) old(2) by simp
    then show ?thesis using ts(1) by simp
  qed
  then have "rep ((node so g)(n \<mapsto> Split axis children fs')) (TSplit n axis ts fs')"
    using old(1) ts by (auto simp: rep_upd)
  from put_node_forest [OF so F n old(1,2) _ _ this, of "[]"] ts(1) show ?thesis by simp
qed


text \<open>A new node.\<close>

lemma insert_node_forest:
  assumes so: "slot_laws so" and F: "forest so g F" and k: "insert_node so g x = (k, g')"
  shows "forest so g' F" and "node so g k = None" and "node so g' = (node so g)(k \<mapsto> x)"
    and "\<And>sp. k \<notin> set (grove_ids (F sp))" and "dg_roots g' = dg_roots g"
    and "dg_floatings g' = dg_floatings g" and "dg_central g' = dg_central g"
proof -
  obtain s where s: "so_insert so (dg_nodes g) x = (k, s)" "g' = g\<lparr>dg_nodes := s\<rparr>"
    using k by (auto simp: insert_node_def split: prod.splits)
  then show free: "node so g k = None" and get: "node so g' = (node so g)(k \<mapsto> x)"
    using so by (simp_all add: slot_laws_def)
  show "dg_roots g' = dg_roots g" "dg_floatings g' = dg_floatings g" "dg_central g' = dg_central g" using s(2) by simp_all
  show "k \<notin> set (grove_ids (F sp))" for sp using forest_stored [OF F] free by blast
  then show "forest so g' F"
    using F get by (intro forest_cong [OF F]) (auto simp: s(2) forest_def maps_ok_def)
qed

lemma rep_extend: "rep get t \<Longrightarrow> get k = None \<Longrightarrow> rep (get(k \<mapsto> x)) t"
  by (subst rep_upd) (metis rep_stored)+

section \<open>Roots and floating containers\<close>

lemma linked_simps:
  "linked g sp (r, ws) \<longleftrightarrow> root_of g sp = map_option tid r \<and> map fc_node (floating_containers g sp) = map tid ws"
  by (simp add: linked_def)

lemma forest_linked: "forest so g F \<Longrightarrow> linked g sp (F sp)"
  by (simp add: forest_def)

lemma grove_ids_parts: "set (grove_ids (r, ws)) = (case r of None \<Rightarrow> {} | Some t \<Rightarrow> set (ids t)) \<union> set (concat (map ids ws))"
  by (cases r) (simp_all add: grove_ids_def)

lemma set_root_forest:
  assumes F: "forest so g F" and empty: "fst (F sp) = None" and t: "rep (node so g) t" "distinct (ids t)"
    and free: "\<And>k sp. k \<in> set (ids t) \<Longrightarrow> k \<notin> set (grove_ids (F sp))"
  shows "forest so (set_root_for_empty_space g sp (tid t)) (F(sp := (Some t, snd (F sp))))"
    and "set (grove_ids (Some t, snd (F sp))) = set (ids t) \<union> set (grove_ids (F sp))"
    and "grove_items (Some t, snd (F sp)) = mset (tree_items t) + grove_items (F sp)"
proof -
  have p: "F sp = (None, snd (F sp))" using empty by (cases "F sp") simp
  have ids: "grove_ids (Some t, snd (F sp)) = ids t @ grove_ids (F sp)" by (subst (2) p) (rule grove_root(1))
  then show "set (grove_ids (Some t, snd (F sp))) = set (ids t) \<union> set (grove_ids (F sp))" by simp
  show "grove_items (Some t, snd (F sp)) = mset (tree_items t) + grove_items (F sp)" by (subst (2) p) (rule grove_root(2))
  have maps: "maps_ok g" using F by (simp add: forest_def)
  show "forest so (set_root_for_empty_space g sp (tid t)) (F(sp := (Some t, snd (F sp))))"
  proof (rule forest_update [OF F])
    show "rep (node so (set_root_for_empty_space g sp (tid t))) t'" if "t' \<in> set (trees (Some t, snd (F sp)))" for t'
      using that t(1) forest_rep [OF F, of t' sp] p
      by (cases "F sp") (auto simp: set_root_for_empty_space_def set_root_def Let_def)
    show "distinct (grove_ids (Some t, snd (F sp)))"
      using ids t(2) free forest_distinct [OF F] by auto
    show "k \<notin> set (grove_ids (F sp'))" if "sp' \<noteq> sp" "k \<in> set (grove_ids (Some t, snd (F sp)))" for k sp'
      using that ids free forest_apart [OF F, of sp sp' k] by auto
  qed (use maps forest_linked [OF F, of sp] in
    \<open>auto simp: set_root_for_empty_space_def set_root_def Let_def maps_ok_def bt_simps linked_def floating_containers_def\<close>)
qed

lemma push_floating_forest:
  assumes F: "forest so g F" and t: "rep (node so g) t" "distinct (ids t)"
    and free: "\<And>k sp. k \<in> set (ids t) \<Longrightarrow> k \<notin> set (grove_ids (F sp))"
  shows "forest so (push_floating g sp \<lparr>fc_node = tid t, fc_bounds = b\<rparr>) (F(sp := add_floating t (F sp)))"
proof (rule forest_update [OF F])
  show "rep (node so (push_floating g sp \<lparr>fc_node = tid t, fc_bounds = b\<rparr>)) t'" if "t' \<in> set (trees (add_floating t (F sp)))" for t'
    using that t(1) forest_rep [OF F, of t' sp] by (auto simp: grove_add push_floating_def)
  show "distinct (grove_ids (add_floating t (F sp)))" using t(2) free forest_distinct [OF F] by (auto simp: grove_add)
  show "k \<notin> set (grove_ids (F sp'))" if "sp' \<noteq> sp" "k \<in> set (grove_ids (add_floating t (F sp)))" for k sp'
    using that free forest_apart [OF F, of sp sp' k] by (auto simp: grove_add)
qed (use forest_linked [OF F, of sp] maps_ok_forest [OF F] in
    \<open>auto simp: push_floating_def maps_ok_def bt_simps linked_def add_floating_def floating_containers_def\<close>)

lemma remove_root_forest:
  assumes F: "forest so g F" and r: "fst (F sp) = Some t"
  shows "forest so (remove_root g sp) (F(sp := (None, snd (F sp))))"
    and "set (grove_ids (F sp)) = set (ids t) \<union> set (grove_ids (None, snd (F sp)))"
    and "grove_items (F sp) = mset (tree_items t) + grove_items (None, snd (F sp))"
proof -
  have p: "F sp = (Some t, snd (F sp))" using r by (cases "F sp") simp
  have ids: "grove_ids (F sp) = ids t @ grove_ids (None, snd (F sp))" by (subst p) (rule grove_root(1))
  then show "set (grove_ids (F sp)) = set (ids t) \<union> set (grove_ids (None, snd (F sp)))" by simp
  show "grove_items (F sp) = mset (tree_items t) + grove_items (None, snd (F sp))" by (subst p) (rule grove_root(2))
  show "forest so (remove_root g sp) (F(sp := (None, snd (F sp))))"
  proof (rule forest_update [OF F])
    show "rep (node so (remove_root g sp)) t'" if "t' \<in> set (trees (None, snd (F sp)))" for t'
      using that forest_rep [OF F, of t' sp] by (cases "F sp") (auto simp: remove_root_def)
    show "distinct (grove_ids (None, snd (F sp)))" using ids forest_distinct [OF F, of sp] by simp
    show "k \<notin> set (grove_ids (F sp'))" if "sp' \<noteq> sp" "k \<in> set (grove_ids (None, snd (F sp)))" for k sp'
      using that ids forest_apart [OF F, of sp sp' k] by auto
  qed (use forest_linked [OF F, of sp] maps_ok_forest [OF F] in
    \<open>auto simp: remove_root_def maps_ok_def bt_simps linked_def floating_containers_def\<close>)
qed


text \<open>A floating container is taken out, and its contents are free.\<close>

lemma position_map: "position P (map f xs) = position (\<lambda>x. P (f x)) xs"
  by (induction xs) simp_all

lemma take_floating_forest:
  assumes F: "forest so g F" and taken: "take_floating_child_from_space so g sp floating = (Some child, g')"
  shows "\<exists>t ws. forest so g' (F(sp := (fst (F sp), ws))) \<and> rep (node so g) t \<and> tid t = child \<and> distinct (ids t) \<and>
    node so g' = node so g \<and> node so g floating = Some (Floating child) \<and> floating \<notin> set (ids t) \<and>
    grove_items (F sp) = mset (tree_items t) + grove_items (fst (F sp), ws) \<and>
    set (grove_ids (F sp)) = insert floating (set (ids t)) \<union> set (grove_ids (fst (F sp), ws)) \<and>
    set (ids t) \<inter> set (grove_ids (fst (F sp), ws)) = {} \<and> floating \<notin> set (grove_ids (fst (F sp), ws))"
proof -
  let ?cs = "floating_containers g sp"
  obtain i where i: "node so g floating = Some (Floating child)" "position (\<lambda>c. fc_node c = floating) ?cs = Some i"
    and g': "g' = g\<lparr>dg_floatings := bt_modify sp (\<lambda>cs. take i cs @ drop (i + 1) cs) (dg_floatings g)\<rparr>"
    using taken by (auto simp: take_floating_child_from_space_def split: option.splits dock_node.splits)
  obtain r ws where p: "F sp = (r, ws)" by (cases "F sp")
  have link: "map fc_node ?cs = map tid ws" "root_of g sp = map_option tid r"
    using forest_linked [OF F, of sp] p by (simp_all add: linked_simps)
  have len: "i < length ?cs" "fc_node (?cs ! i) = floating" using position_Some [OF i(2)] by auto
  have "length ?cs = length ws" using arg_cong [OF link(1), of length] by simp
  then have i_ws: "i < length ws" using len(1) by simp
  have "map fc_node ?cs ! i = map tid ws ! i" using link(1) by simp
  then have w: "ws = take i ws @ (ws ! i) # drop (i + 1) ws" "tid (ws ! i) = floating"
    using len i_ws by (simp_all add: id_take_nth_drop [symmetric])
  have w_in: "ws ! i \<in> set (trees (F sp))" using p i_ws by simp
  then have rep_w: "rep (node so g) (ws ! i)" using forest_rep [OF F] by blast
  then obtain t where t: "ws ! i = TFloating floating t" "tid t = child" "rep (node so g) t"
    using i(1) w(2) by (cases "ws ! i") auto
  have dist: "distinct (ids (ws ! i))" using forest_tree_distinct [OF F w_in] .
  let ?ws = "take i ws @ drop (i + 1) ws"
  have all: "mset (grove_ids (F sp)) = mset (grove_ids (r, ?ws)) + mset (ids (ws ! i))"
    "grove_items (F sp) = mset (tree_items t) + grove_items (r, ?ws)"
    unfolding p by (subst (1) w(1), cases r; simp add: grove_ids_def grove_items_def t(1))+
  then have meq: "mset (grove_ids (F sp)) = mset (grove_ids (r, ?ws) @ ids (ws ! i))" by simp
  then have dist': "distinct (grove_ids (r, ?ws) @ ids (ws ! i))"
    using mset_eq_imp_distinct_iff forest_distinct [OF F, of sp] by blast
  have set_ids: "set (grove_ids (F sp)) = set (grove_ids (r, ?ws)) \<union> insert floating (set (ids t))"
    using mset_eq_setD [OF meq] t(1) by simp
  have "forest so g' (F(sp := (r, ?ws)))"
  proof (rule forest_update [OF F])
    show "rep (node so g') t'" if "t' \<in> set (trees (r, ?ws))" for t'
    proof -
      have "t' \<in> set (trees (F sp))" using that p by (auto dest: in_set_takeD in_set_dropD)
      then show ?thesis using forest_rep [OF F] g' by simp
    qed
    have "map fc_node (take i ?cs @ drop (i + 1) ?cs) = map tid ?ws" using link(1) by (simp add: take_map [symmetric] drop_map [symmetric])
    moreover have "floating_containers g' sp = take i ?cs @ drop (i + 1) ?cs"
      using len(1) by (auto simp: g' floating_containers_def bt_simps split: option.split)
    ultimately show "linked g' sp (r, ?ws)" using link(2) g' by (simp add: linked_simps)
    show "distinct (grove_ids (r, ?ws))" using dist' by simp
    show "k \<notin> set (grove_ids (F sp'))" if "sp' \<noteq> sp" "k \<in> set (grove_ids (r, ?ws))" for k sp'
      using that set_ids forest_apart [OF F, of sp sp' k] by auto
  qed (use g' maps_ok_forest [OF F] in \<open>auto simp: maps_ok_def bt_simps floating_containers_def\<close>)
  then show ?thesis
    using t all(2) set_ids dist dist' i(1) g' p by (intro exI [of _ t] exI [of _ ?ws]) auto
qed

section \<open>Simplification\<close>

definition simp_grove :: "grove \<Rightarrow> grove" where
  "simp_grove p = (Option.bind (fst p) simp_tree, List.map_filter simp_tree (snd p))"

lemma simp_grove_trees: "trees (simp_grove p) = List.map_filter simp_tree (trees p)"
  by (cases p; cases "fst p") (auto simp: simp_grove_def map_filter_simps split: option.split)

lemma simp_trees_items: "concat (map tree_items (List.map_filter simp_tree ts)) = concat (map tree_items ts)"
proof (induction ts)
  case (Cons t ts)
  then show ?case using simp_tree_items [of t] by (cases "simp_tree t") (simp_all add: map_filter_simps)
qed (simp add: map_filter_simps)

lemma simp_trees_ids: "subseq (concat (map ids (List.map_filter simp_tree ts))) (concat (map ids ts))"
proof (induction ts)
  case (Cons t ts)
  then show ?case using simp_tree_ids [of t]
    by (cases "simp_tree t") (auto simp: map_filter_simps intro: list_emb_append_mono list_emb_append2)
qed (simp add: map_filter_simps)

lemma simp_grove_items: "grove_items (simp_grove p) = grove_items p"
  by (simp add: grove_items_def simp_grove_trees simp_trees_items)

lemma simp_grove_ids: "subseq (grove_ids (simp_grove p)) (grove_ids p)"
  by (simp add: grove_ids_def simp_grove_trees simp_trees_ids)

lemma keep_floating_loop:
  assumes "slot_laws so" and "map fc_node cs = map tid ws" and "\<And>w. w \<in> set ws \<Longrightarrow> rep (so_get so s) w"
    and "distinct (concat (map ids ws))"
  shows "\<exists>kept s'. for_p (keep_floating so) cs (acc, s) = Some (acc @ kept, s') \<and>
    map fc_node kept = map tid (List.map_filter simp_tree ws) \<and> touches so (set (concat (map ids ws))) s s' \<and>
    (\<forall>w \<in> set (List.map_filter simp_tree ws). rep (so_get so s') w) \<and> fc_bounds ` set kept \<subseteq> fc_bounds ` set cs"
  using assms(2-4)
proof (induction ws arbitrary: cs acc s)
  case (Cons w ws)
  then obtain c cs' where cs: "cs = c # cs'" "fc_node c = tid w" "map fc_node cs' = map tid ws" by (cases cs) auto
  obtain s1 where s1: "simplified so s w s1"
    using simplify_subtree_simplifies [OF assms(1)] Cons.prems by fastforce
  then have touched: "touches so (set (ids w)) s s1" by (simp add: simplified_def)
  have sep: "set (ids w) \<inter> set (concat (map ids ws)) = {}" using Cons.prems(3) by auto
  have reps: "rep (so_get so s1) w'" if "w' \<in> set ws" for w'
    by (rule touches_rep [OF touched]) (use that sep Cons.prems(2) in auto)
  define acc1 where "acc1 = (case simp_tree w of None \<Rightarrow> acc | Some w' \<Rightarrow> acc @ [c\<lparr>fc_node := tid w'\<rparr>])"
  have step: "keep_floating so c (acc, s) = Some (acc1, s1)"
    using s1 cs(2) by (auto simp: keep_floating_def simplified_def acc1_def split: option.split)
  obtain kept s' where rest: "for_p (keep_floating so) cs' (acc1, s1) = Some (acc1 @ kept, s')"
    "map fc_node kept = map tid (List.map_filter simp_tree ws)" "touches so (set (concat (map ids ws))) s1 s'"
    "\<forall>w \<in> set (List.map_filter simp_tree ws). rep (so_get so s') w" "fc_bounds ` set kept \<subseteq> fc_bounds ` set cs'"
    using Cons.IH [OF cs(3) reps, of acc1] Cons.prems(3) by auto
  have kept_w: "rep (so_get so s') w'" if "simp_tree w = Some w'" for w'
  proof (rule touches_rep [OF rest(3)])
    show "set (ids w') \<inter> set (concat (map ids ws)) = {}" using simp_tree_ids_set [OF that] sep by auto
    show "rep (so_get so s1) w'" using s1 that by (simp add: simplified_def)
  qed
  have all: "touches so (set (concat (map ids (w # ws)))) s s'" using touches_trans [OF touched rest(3)] by simp
  show ?case
  proof (cases "simp_tree w")
    case None
    then show ?thesis using step rest all cs(1)
      by (intro exI [of _ kept] exI [of _ s']) (auto simp: acc1_def map_filter_simps)
  next
    case (Some w')
    then show ?thesis using step rest all cs(1) kept_w
      by (intro exI [of _ "c\<lparr>fc_node := tid w'\<rparr> # kept"] exI [of _ s']) (auto simp: acc1_def map_filter_simps)
  qed
qed (simp add: map_filter_simps)


lemma settle_central_returns:
  assumes "case root_of g sp of None \<Rightarrow> True | Some n \<Rightarrow> \<exists>t. rep (node so g) t \<and> tid t = n"
  shows "\<exists>g'. settle_central so g sp previous simplified_root = Some g' \<and> dg_nodes g' = dg_nodes g \<and> dg_roots g' = dg_roots g \<and>
    dg_floatings g' = dg_floatings g \<and> dg_history g' = dg_history g \<and> (bt_ok (dg_central g') \<longleftrightarrow> bt_ok (dg_central g)) \<and>
    (\<forall>sp'. sp' \<noteq> sp \<longrightarrow> map_of (dg_central g') sp' = map_of (dg_central g) sp') \<and>
    (\<forall>c n. map_of (dg_central g') sp = Some c \<longrightarrow> cr_node c = Some n \<longrightarrow> root_subtree_contains so g sp n = Some True)"
proof -
  have returns: "\<exists>b. root_subtree_contains so g sp n = Some b" for n
  proof (cases "root_of g sp")
    case (Some k)
    then obtain t where "rep (node so g) t" "tid t = k" using assms by auto
    then show ?thesis using Some subtree_contains_tree [of so g t n] by (auto simp: root_subtree_contains_def)
  qed (auto simp: root_subtree_contains_def)
  have lost: "\<exists>b. (case c of Some n \<Rightarrow> do { b \<leftarrow> root_subtree_contains so g sp n; Some (\<not> b) } | None \<Rightarrow> Some False) = Some b" for c
  proof (cases c)
    case (Some n)
    obtain b where "root_subtree_contains so g sp n = Some b" using returns by blast
    then show ?thesis using Some by simp
  qed auto
  show ?thesis
  proof (cases "map_of (dg_central g) sp")
    case (Some c)
    let ?c = "case (previous, simplified_root) of
      (Some p, Some r) \<Rightarrow> if cr_node c = Some p \<and> p \<noteq> r then Some r else cr_node c | _ \<Rightarrow> cr_node c"
    obtain b where b: "(case ?c of Some n \<Rightarrow> do { b \<leftarrow> root_subtree_contains so g sp n; Some (\<not> b) } | None \<Rightarrow> Some False) = Some b"
      using lost by blast
    let ?new = "if b then None else ?c"
    have run: "settle_central so g sp previous simplified_root =
        Some (g\<lparr>dg_central := bt_modify sp (\<lambda>c. c\<lparr>cr_node := ?new\<rparr>) (dg_central g)\<rparr>)"
      using Some b by (simp add: settle_central_def Let_def)
    have held: "root_subtree_contains so g sp n = Some True" if "?new = Some n" for n
      using that b by (auto split: if_splits Option.bind_splits)
    show ?thesis using run held Some by (simp add: bt_simps)
  qed (simp add: settle_central_def)
qed

text \<open>
  What a step at the space \<open>sp\<close> with the grove \<open>p\<close> after it leaves of the central regions and the bounds of the floating
  containers.
\<close>

definition keeps_regions :: "'s dock_graph \<Rightarrow> 's dock_graph \<Rightarrow> space_id \<Rightarrow> grove \<Rightarrow> bool" where
  "keeps_regions g g' sp p \<longleftrightarrow> (\<forall>sp'. sp' \<noteq> sp \<longrightarrow> map_of (dg_central g') sp' = map_of (dg_central g) sp') \<and>
     (\<forall>c n. map_of (dg_central g') sp = Some c \<longrightarrow> cr_node c = Some n \<longrightarrow> (\<exists>t. fst p = Some t \<and> n \<in> set (ids t))) \<and>
     (\<forall>sp'. fc_bounds ` set (floating_containers g' sp') \<subseteq> fc_bounds ` set (floating_containers g sp'))"

theorem simplify_space_forest:
  assumes so: "slot_laws so" and F: "forest so g F"
  shows "\<exists>g'. simplify_space so g sp = Some g' \<and> forest so g' (F(sp := simp_grove (F sp))) \<and>
    touches so (set (grove_ids (F sp))) (dg_nodes g) (dg_nodes g') \<and> dg_history g' = dg_history g \<and>
    keeps_regions g g' sp (simp_grove (F sp))"
proof -
  obtain r ws where p: "F sp = (r, ws)" by (cases "F sp")
  let ?r = "Option.bind r simp_tree"
  have dist: "distinct (grove_ids (r, ws))" using forest_distinct [OF F, of sp] p by simp
  have reps: "rep (node so g) t" if "t \<in> set (trees (r, ws))" for t using forest_rep [OF F, of t sp] that p by simp
  have link: "root_of g sp = map_option tid r" "map fc_node (floating_containers g sp) = map tid ws"
    using forest_linked [OF F, of sp] p by (simp_all add: linked_simps)
  have maps: "maps_ok g" using F by (rule maps_ok_forest)
  let ?ids = "case r of None \<Rightarrow> {} | Some t \<Rightarrow> set (ids t)"
  have "\<exists>s1. (case r of Some t \<Rightarrow> simplify_subtree so (tid t) (dg_nodes g) | None \<Rightarrow> Some (None, dg_nodes g)) = Some (map_option tid ?r, s1) \<and>
      touches so ?ids (dg_nodes g) s1 \<and> (\<forall>t'. ?r = Some t' \<longrightarrow> rep (so_get so s1) t')"
  proof (cases r)
    case (Some t)
    then show ?thesis using simplify_subtree_simplifies [OF so reps, of t] dist by (auto simp: simplified_def grove_root(1))
  qed simp
  then obtain s1 where s1: "(case r of Some t \<Rightarrow> simplify_subtree so (tid t) (dg_nodes g) | None \<Rightarrow> Some (None, dg_nodes g)) = Some (map_option tid ?r, s1)"
    "touches so ?ids (dg_nodes g) s1" "\<And>t'. ?r = Some t' \<Longrightarrow> rep (so_get so s1) t'" by blast
  define g1 where "g1 = (case map_option tid ?r of Some n \<Rightarrow> set_root (g\<lparr>dg_nodes := s1\<rparr>) sp n | None \<Rightarrow> remove_root (g\<lparr>dg_nodes := s1\<rparr>) sp)"
  have run1: "simplify_root so g sp = Some (map_option tid ?r, g1)"
    using s1(1) link(1) by (cases r) (simp_all add: simplify_root_def g1_def Let_def)
  have g1: "dg_nodes g1 = s1" "dg_floatings g1 = dg_floatings g" "dg_central g1 = dg_central g" "dg_history g1 = dg_history g"
    "root_of g1 = (root_of g)(sp := map_option tid ?r)" "bt_ok (dg_roots g1)"
    using maps by (auto simp: g1_def set_root_def remove_root_def maps_ok_def bt_simps split: option.split)
  have stands: "case root_of g1 sp of None \<Rightarrow> True | Some n \<Rightarrow> \<exists>t. rep (node so g1) t \<and> tid t = n"
    using g1(1,5) s1(3) by (cases ?r) auto
  obtain g2 where g2: "settle_central so g1 sp (root_of g sp) (map_option tid ?r) = Some g2" "dg_nodes g2 = s1"
    "dg_roots g2 = dg_roots g1" "dg_floatings g2 = dg_floatings g" "dg_history g2 = dg_history g" "bt_ok (dg_central g2)"
    "\<And>sp'. sp' \<noteq> sp \<Longrightarrow> map_of (dg_central g2) sp' = map_of (dg_central g) sp'"
    "\<And>c n. map_of (dg_central g2) sp = Some c \<Longrightarrow> cr_node c = Some n \<Longrightarrow> root_subtree_contains so g1 sp n = Some True"
    using settle_central_returns [OF stands, of "root_of g sp" "map_option tid ?r"] g1 maps by (auto simp: maps_ok_def)
  have sep: "?ids \<inter> set (concat (map ids ws)) = {}" using dist by (cases r) (auto simp: grove_ids_def)
  have reps1: "rep (so_get so s1) w" if "w \<in> set ws" for w
    by (rule touches_rep [OF s1(2)]) (use that sep reps in auto)
  have dist_ws: "distinct (concat (map ids ws))" using dist by (cases r) (auto simp: grove_ids_def)
  let ?ws = "List.map_filter simp_tree ws"
  have "\<exists>g3. simplify_floatings so g2 sp = Some g3 \<and> dg_roots g3 = dg_roots g2 \<and> dg_central g3 = dg_central g2 \<and>
      dg_history g3 = dg_history g2 \<and> bt_ok (dg_floatings g3) \<and>
      (\<forall>sp'. sp' \<noteq> sp \<longrightarrow> floating_containers g3 sp' = floating_containers g2 sp') \<and>
      map fc_node (floating_containers g3 sp) = map tid ?ws \<and>
      touches so (set (concat (map ids ws))) s1 (dg_nodes g3) \<and> (\<forall>w \<in> set ?ws. rep (node so g3) w) \<and>
      fc_bounds ` set (floating_containers g3 sp) \<subseteq> fc_bounds ` set (floating_containers g2 sp)"
  proof (cases "map_of (dg_floatings g) sp")
    case None
    then have "ws = []" using link(2) by (simp add: floating_containers_def)
    then show ?thesis using None g2 maps
      by (simp add: simplify_floatings_def floating_containers_def map_filter_simps maps_ok_def)
  next
    case (Some cs)
    then have "map fc_node cs = map tid ws" using link(2) by (simp add: floating_containers_def)
    from keep_floating_loop [OF so this reps1 dist_ws, of "[]"] obtain kept s2 where s2:
      "for_p (keep_floating so) cs ([], s1) = Some (kept, s2)" "map fc_node kept = map tid ?ws"
      "touches so (set (concat (map ids ws))) s1 s2" "\<forall>w \<in> set ?ws. rep (so_get so s2) w"
      "fc_bounds ` set kept \<subseteq> fc_bounds ` set cs" by auto
    then show ?thesis using Some g2 maps
      by (auto simp: simplify_floatings_def floating_containers_def maps_ok_def bt_simps Let_def)
  qed
  then obtain g3 where g3: "simplify_floatings so g2 sp = Some g3" "dg_roots g3 = dg_roots g2" "dg_central g3 = dg_central g2"
    "dg_history g3 = dg_history g2" "bt_ok (dg_floatings g3)"
    "\<And>sp'. sp' \<noteq> sp \<Longrightarrow> floating_containers g3 sp' = floating_containers g2 sp'"
    "map fc_node (floating_containers g3 sp) = map tid ?ws"
    "touches so (set (concat (map ids ws))) s1 (dg_nodes g3)" "\<forall>w \<in> set ?ws. rep (node so g3) w"
    "fc_bounds ` set (floating_containers g3 sp) \<subseteq> fc_bounds ` set (floating_containers g2 sp)" by blast
  have touched: "touches so (set (grove_ids (F sp))) (dg_nodes g) (dg_nodes g3)"
    using touches_trans [OF s1(2) g3(8)] p by (cases r) (simp_all add: grove_ids_def)
  have simp_ids: "subseq (grove_ids (simp_grove (F sp))) (grove_ids (F sp))" by (rule simp_grove_ids)
  have "forest so g3 (F(sp := simp_grove (F sp)))"
  proof (rule forest_update [OF F])
    show "maps_ok g3" using g1(6) g2(3,6) g3(2,3,5) by (simp add: maps_ok_def)
    show "root_of g3 sp' = root_of g sp'" if "sp' \<noteq> sp" for sp' using that g1(5) g2(3) g3(2) by simp
    show "floating_containers g3 sp' = floating_containers g sp'" if "sp' \<noteq> sp" for sp'
      using g3(6) [OF that] g2(4) by (simp add: floating_containers_def)
    show "linked g3 sp (simp_grove (F sp))" using g1(5) g2(3) g3(2,7) p by (simp add: linked_def simp_grove_def)
    show "rep (node so g3) t" if t: "t \<in> set (trees (simp_grove (F sp)))" for t
    proof (cases "t \<in> set ?ws")
      case False
      then have root_t: "?r = Some t" using t p by (auto simp: simp_grove_def split: option.splits)
      then obtain t0 where t0: "r = Some t0" "simp_tree t0 = Some t" by (cases r) auto
      show ?thesis
        by (rule touches_rep [OF g3(8)]) (use t0 simp_tree_ids_set [OF t0(2)] sep s1(3) [OF root_t] in auto)
    qed (use g3(9) in simp)
    show "node so g3 k = node so g k" if "sp' \<noteq> sp" "k \<in> set (grove_ids (F sp'))" for k sp'
      using touched forest_apart [OF F, of sp' sp k] that by (auto simp: touches_def)
    show "distinct (grove_ids (simp_grove (F sp)))" using subseqs_distinct [OF simp_ids] forest_distinct [OF F] by simp
    show "k \<notin> set (grove_ids (F sp'))" if "sp' \<noteq> sp" "k \<in> set (grove_ids (simp_grove (F sp)))" for k sp'
      using that subseqs_set [OF simp_ids] forest_apart [OF F, of sp sp' k] by auto
  qed
  moreover have "simplify_space so g sp = Some g3" using run1 g2(1) g3(1) by (simp add: simplify_space_def)
  moreover have "keeps_regions g g3 sp (simp_grove (F sp))"
    unfolding keeps_regions_def
  proof (intro conjI allI impI)
    show "map_of (dg_central g3) sp' = map_of (dg_central g) sp'" if "sp' \<noteq> sp" for sp' using that g2(7) g3(3) by simp
    show "fc_bounds ` set (floating_containers g3 sp') \<subseteq> fc_bounds ` set (floating_containers g sp')" for sp'
    proof -
      have same: "floating_containers g2 sp' = floating_containers g sp'" using g2(4) by (simp add: floating_containers_def)
      show ?thesis using g3(6) [of sp'] g3(10) same by (cases "sp' = sp") auto
    qed
    fix c n assume c: "map_of (dg_central g3) sp = Some c" "cr_node c = Some n"
    then have held: "root_subtree_contains so g1 sp n = Some True" using g2(8) g3(3) by simp
    show "\<exists>t. fst (simp_grove (F sp)) = Some t \<and> n \<in> set (ids t)"
    proof (cases ?r)
      case None
      then show ?thesis using held g1(5) by (simp add: root_subtree_contains_def)
    next
      case (Some t)
      then have "rep (node so g1) t" using s1(3) g1(1) by simp
      then have "n \<in> set (ids t)" using held g1(5) Some subtree_contains_tree [of so g1 t n] by (simp add: root_subtree_contains_def)
      then show ?thesis using Some p by (simp add: simp_grove_def)
    qed
  qed
  ultimately show ?thesis using touched g2(5) g3(4) by simp
qed

end
