(* ===== verification/Dock_Edges.thy ===== *)
theory Dock_Edges
  imports Dock_Steps
begin

text \<open>
  Docking at an edge on the forest: an insertion into a split, or a new split around the target at whichever place the target
  stands (a root, a floating container, below another node).
\<close>

section \<open>Children of a node\<close>

lemma map_vec_insert: "map f (vec_insert i x xs) = vec_insert i (f x) (map f xs)"
  by (simp add: vec_insert_def take_map drop_map)

lemma mset_vec_insert: "mset (concat (vec_insert i x xs)) = mset x + mset (concat xs)"
proof -
  have "mset (concat xs) = mset (concat (take i xs)) + mset (concat (drop i xs))"
    by (metis append_take_drop_id concat_append mset_append)
  then show ?thesis by (simp add: vec_insert_def)
qed

lemma set_vec_insert: "set (vec_insert i x xs) = insert x (set xs)"
  unfolding vec_insert_def by (metis append_take_drop_id set_append list.simps(15) Un_insert_right)

lemma mset_concat_update:
  assumes "i < length ts"
  shows "mset (concat (map m (ts[i := w]))) + mset (m (ts ! i)) = mset (concat (map m ts)) + mset (m w)"
proof -
  have "mset (concat (map m ts)) = mset (concat (map m (take i ts @ ts ! i # drop (Suc i) ts)))"
    using assms by (simp only: id_take_nth_drop [symmetric])
  then show ?thesis using assms by (simp add: upd_conv_take_nth_drop)
qed

lemma tree_parent_at:
  "rep get t \<Longrightarrow> tree_parent target t = Some p \<Longrightarrow>
     p \<in> set (ids t) \<and> (\<exists>tp. rep get tp \<and> tid tp = p \<and> target \<in> set (map tid (subtrees tp)))"
proof (induction t)
  case (TFloating n t)
  show ?case
  proof (cases "tid t = target")
    case True
    then show ?thesis using TFloating.prems by (auto intro!: exI [of _ "TFloating n t"])
  qed (use TFloating in auto)
next
  case (TSplit n axis ts fs)
  show ?case
  proof (cases "target \<in> set (map tid ts)")
    case True
    then show ?thesis using TSplit.prems by (auto intro!: exI [of _ "TSplit n axis ts fs"])
  next
    case False
    then obtain t where "t \<in> set ts" "tree_parent target t = Some p" using TSplit.prems(2) by (auto dest: find_map_Some)
    then show ?thesis using TSplit.IH [of t] TSplit.prems(1) by auto
  qed
qed simp

section \<open>Insertion into a split\<close>

lemma insert_into_split_forest:
  assumes so: "slot_laws so" and F: "forest so g F" and n: "n \<in> set (grove_ids (F sp))"
    and split: "node so g n = Some (Split axis children fs)"
    and c: "rep (node so g) c" "distinct (ids c)" "\<And>k sp. k \<in> set (ids c) \<Longrightarrow> k \<notin> set (grove_ids (F sp))"
  shows "\<exists>F'. forest so (put_node so g n (Split axis (vec_insert i (tid c) children) fs')) F' \<and>
    (\<forall>sp'. sp' \<noteq> sp \<longrightarrow> F' sp' = F sp') \<and> grove_items (F' sp) = grove_items (F sp) + mset (tree_items c)"
proof -
  obtain t where t: "t \<in> set (trees (F sp))" "n \<in> set (ids t)" using n by (auto simp: grove_ids_tree)
  then obtain old where old: "rep (node so g) old" "tid old = n"
    using rep_subtree_at [OF forest_rep [OF F t(1)]] by blast
  then obtain ts where ts: "old = TSplit n axis ts fs" "children = map tid ts"
    using split rep_get [OF old(1)] by (cases old) auto
  have "distinct (ids old)"
    using rep_distinct_sub [OF forest_rep [OF F t(1)] forest_tree_distinct [OF F t(1)] old(1)] t(2) old(2) by simp
  then have free: "n \<notin> set (concat (map ids ts))" "n \<notin> set (ids c)" using ts(1) c(3) n by auto
  let ?x = "Split axis (vec_insert i (tid c) children) fs'"
  let ?new = "TSplit n axis (vec_insert i c ts) fs'"
  have new: "rep ((node so g)(n \<mapsto> ?x)) ?new"
    using old(1) ts free c(1) by (auto simp: map_vec_insert set_vec_insert rep_upd)
  have count: "mset (concat (map m (vec_insert i c ts))) = mset (m c) + mset (concat (map m ts))" for m :: "dock_tree \<Rightarrow> 'x list"
    by (simp add: map_vec_insert mset_vec_insert)
  have "mset (ids ?new) = mset (ids old) + mset (ids c)" by (simp add: ts(1) count)
  from put_node_forest [OF so F n old _ this new c(2,3)] count [of tree_items]
  show ?thesis by (auto simp: ts(1))
qed

section \<open>A new split in the place of the target\<close>

text \<open>The tree \<open>w\<close> holds the subtree \<open>t0\<close> of the forest and nodes \<open>fresh\<close> that no tree has.\<close>

definition wraps :: "'s slot_ops \<Rightarrow> 's dock_graph \<Rightarrow> (space_id \<Rightarrow> grove) \<Rightarrow> dock_tree \<Rightarrow> dock_tree \<Rightarrow> node_id list \<Rightarrow> bool" where
  "wraps so g F w t0 fresh \<longleftrightarrow> rep (node so g) w \<and> rep (node so g) t0 \<and> mset (ids w) = mset (ids t0) + mset fresh \<and>
     distinct fresh \<and> (\<forall>k \<in> set fresh. \<forall>sp. k \<notin> set (grove_ids (F sp)))"

lemma wrap_grove:
  assumes F: "forest so g F" and w: "wraps so g F w t0 fresh" and maps: "maps_ok g'"
    and others: "\<And>sp'. sp' \<noteq> sp \<Longrightarrow> root_of g' sp' = root_of g sp' \<and> floating_containers g' sp' = floating_containers g sp'"
    and nodes: "dg_nodes g' = dg_nodes g" and link: "linked g' sp p"
    and p: "\<And>t. t \<in> set (trees p) \<Longrightarrow> t = w \<or> t \<in> set (trees (F sp))"
      "mset (grove_ids p) + mset (ids t0) = mset (grove_ids (F sp)) + mset (ids w)"
  shows "forest so g' (F(sp := p))"
proof (rule forest_update [OF F maps])
  have ids: "mset (grove_ids p) = mset (grove_ids (F sp) @ fresh)"
    using p(2) w by (simp add: wraps_def)
  show "rep (node so g') t" if "t \<in> set (trees p)" for t
    using p(1) [OF that] forest_rep [OF F] w nodes by (auto simp: wraps_def)
  show "distinct (grove_ids p)"
    using mset_eq_imp_distinct_iff [OF ids] forest_distinct [OF F, of sp] w by (auto simp: wraps_def)
  show "k \<notin> set (grove_ids (F sp'))" if "sp' \<noteq> sp" "k \<in> set (grove_ids p)" for k sp'
    using that mset_eq_setD [OF ids] w forest_apart [OF F, of sp sp' k] by (auto simp: wraps_def)
qed (use others link nodes in auto)

lemma replace_root_forest:
  assumes F: "forest so g F" and w: "wraps so g F w t0 fresh" and r: "root_of g sp = Some (tid t0)"
  shows "\<exists>F'. forest so (set_root g sp (tid w)) F' \<and> (\<forall>sp'. sp' \<noteq> sp \<longrightarrow> F' sp' = F sp') \<and>
    grove_items (F' sp) + mset (tree_items t0) = grove_items (F sp) + mset (tree_items w)"
proof -
  obtain t ws where p: "F sp = (Some t, ws)" "tid t = tid t0"
    using forest_linked [OF F, of sp] r by (cases "F sp"; cases "fst (F sp)") (auto simp: linked_simps)
  then have "t = t0" using forest_rep [OF F, of t sp] w by (intro rep_unique [of "node so g"]) (auto simp: wraps_def)
  with p have p: "F sp = (Some t0, ws)" by simp
  have maps: "maps_ok g" using F by (rule maps_ok_forest)
  have "forest so (set_root g sp (tid w)) (F(sp := (Some w, ws)))"
    by (rule wrap_grove [OF F w])
       (use maps forest_linked [OF F, of sp] p in
         \<open>auto simp: set_root_def maps_ok_def bt_simps linked_simps floating_containers_def grove_ids_def\<close>)
  then show ?thesis by (rule exI [of _ "F(sp := (Some w, ws))", OF conjI]) (simp add: p grove_root)
qed

lemma replace_floating_forest:
  assumes F: "forest so g F" and w: "wraps so g F w t0 fresh"
    and i: "position (\<lambda>c. fc_node c = tid t0) (floating_containers g sp) = Some i"
  shows "\<exists>F'. forest so (g\<lparr>dg_floatings := bt_modify sp (\<lambda>cs. cs[i := (cs ! i)\<lparr>fc_node := tid w\<rparr>]) (dg_floatings g)\<rparr>) F' \<and>
    (\<forall>sp'. sp' \<noteq> sp \<longrightarrow> F' sp' = F sp') \<and>
    grove_items (F' sp) + mset (tree_items t0) = grove_items (F sp) + mset (tree_items w)"
proof -
  let ?cs = "floating_containers g sp"
  obtain r ws where p: "F sp = (r, ws)" by (cases "F sp")
  have link: "map fc_node ?cs = map tid ws" "root_of g sp = map_option tid r"
    using forest_linked [OF F, of sp] p by (simp_all add: linked_simps)
  have len: "i < length ?cs" "fc_node (?cs ! i) = tid t0" using position_Some [OF i] by auto
  have i_ws: "i < length ws" using len(1) arg_cong [OF link(1), of length] by simp
  have "map fc_node ?cs ! i = map tid ws ! i" using link(1) by simp
  then have "tid (ws ! i) = tid t0" using len i_ws by simp
  moreover have "rep (node so g) (ws ! i)" using forest_rep [OF F, of "ws ! i" sp] p i_ws by simp
  ultimately have at_i: "ws ! i = t0" using w by (intro rep_unique [of "node so g"]) (auto simp: wraps_def)
  let ?ws = "ws[i := w]"
  let ?g = "g\<lparr>dg_floatings := bt_modify sp (\<lambda>cs. cs[i := (cs ! i)\<lparr>fc_node := tid w\<rparr>]) (dg_floatings g)\<rparr>"
  have cs: "floating_containers ?g sp = ?cs[i := (?cs ! i)\<lparr>fc_node := tid w\<rparr>]"
    using len(1) by (auto simp: floating_containers_def bt_simps split: option.split)
  have "forest so ?g (F(sp := (r, ?ws)))"
  proof (rule wrap_grove [OF F w])
    show "maps_ok ?g" using maps_ok_forest [OF F] by (simp add: maps_ok_def bt_simps)
    show "linked ?g sp (r, ?ws)" using link cs by (simp add: linked_simps map_update)
    show "t = w \<or> t \<in> set (trees (F sp))" if "t \<in> set (trees (r, ?ws))" for t
      using that p set_update_subset_insert [of ws i w] by auto
    show "mset (grove_ids (r, ?ws)) + mset (ids t0) = mset (grove_ids (F sp)) + mset (ids w)"
      using mset_concat_update [OF i_ws, of ids w] at_i p by (simp add: grove_ids_def)
  qed (auto simp: floating_containers_def bt_simps)
  moreover have "grove_items (r, ?ws) + mset (tree_items t0) = grove_items (F sp) + mset (tree_items w)"
    using mset_concat_update [OF i_ws, of tree_items w] at_i p by (simp add: grove_items_def)
  ultimately show ?thesis by (intro exI [of _ "F(sp := (r, ?ws))"]) simp
qed


lemma replace_child_forest:
  assumes so: "slot_laws so" and F: "forest so g F" and w: "wraps so g F w t0 fresh"
    and p: "p \<in> set (grove_ids (F sp))" "rep (node so g) tp" "tid tp = p" "tid t0 \<in> set (map tid (subtrees tp))"
  shows "\<exists>g' F'. replace_child_in_node so g p (tid t0) (tid w) = (True, g') \<and> forest so g' F' \<and>
    (\<forall>sp'. sp' \<noteq> sp \<longrightarrow> F' sp' = F sp') \<and>
    grove_items (F' sp) + mset (tree_items t0) = grove_items (F sp) + mset (tree_items w)"
proof -
  obtain t where t: "t \<in> set (trees (F sp))" "p \<in> set (ids t)" using p(1) by (auto simp: grove_ids_tree)
  have dist: "distinct (ids tp)"
    using rep_distinct_sub [OF forest_rep [OF F t(1)] forest_tree_distinct [OF F t(1)] p(2)] t(2) p(3) by simp
  have wp: "rep (node so g) w" "rep (node so g) t0" "mset (ids w) = mset (ids t0) + mset fresh" "distinct fresh"
    "\<And>k sp. k \<in> set fresh \<Longrightarrow> k \<notin> set (grove_ids (F sp))" using w by (auto simp: wraps_def)
  have same_tree: "t1 = t0" if "t1 \<in> set (subtrees tp)" "tid t1 = tid t0" for t1
    using rep_subtrees [OF p(2) that(1)] wp(2) that(2) by (intro rep_unique [of "node so g"]) auto
  have no_p: "p \<notin> set (ids t0)" "p \<notin> set (ids w)"
  proof -
    obtain t1 where "t1 \<in> set (subtrees tp)" "tid t1 = tid t0" using p(4) by auto
    then have "t0 \<in> set (subtrees tp)" using same_tree by metis
    then show "p \<notin> set (ids t0)" using dist ids_tree [of tp] p(3) by auto
    then show "p \<notin> set (ids w)" using mset_eq_setD [of "ids w" "ids t0 @ fresh"] wp(3,5) p(1) by auto
  qed
  have replaced: "\<exists>F'. forest so (put_node so g p x) F' \<and> (\<forall>sp'. sp' \<noteq> sp \<longrightarrow> F' sp' = F sp') \<and>
      grove_items (F' sp) + mset (tree_items t0) = grove_items (F sp) + mset (tree_items w)"
    if new: "tid new = p" "rep ((node so g)(p \<mapsto> x)) new" "mset (ids new) = mset (ids tp) + mset fresh"
      and items: "mset (tree_items new) + mset (tree_items t0) = mset (tree_items tp) + mset (tree_items w)" for x new
  proof -
    from put_node_forest [OF so F p(1-3) new(1,3,2) wp(4,5)]
    obtain F' where F': "forest so (put_node so g p x) F'" "\<forall>sp'. sp' \<noteq> sp \<longrightarrow> F' sp' = F sp'"
      "grove_items (F' sp) + mset (tree_items tp) = grove_items (F sp) + mset (tree_items new)" by blast
    have "grove_items (F' sp) + mset (tree_items t0) + mset (tree_items tp) = grove_items (F sp) + mset (tree_items w) + mset (tree_items tp)"
      using F'(3) items by (metis add.assoc add.commute)
    then show ?thesis using F'(1,2) by (intro exI [of _ F']) simp
  qed
  show ?thesis
  proof (cases tp)
    case (TTabs n items selected)
    then show ?thesis using p(4) by simp
  next
    case (TFloating n t1)
    then have "t1 = t0" using same_tree p(4) by auto
    then show ?thesis
      using replaced [of "TFloating p w" "Floating (tid w)"] wp no_p TFloating p(2,3)
      by (simp add: replace_child_in_node_def rep_upd)
  next
    case (TSplit n axis ts fs)
    have n: "n = p" and get: "node so g p = Some (Split axis (map tid ts) fs)" using TSplit p(2,3) by auto
    obtain i where i: "position (\<lambda>c. c = tid t0) (map tid ts) = Some i"
      using p(4) TSplit position_None [of "\<lambda>c. c = tid t0" "map tid ts"] by (cases "position (\<lambda>c. c = tid t0) (map tid ts)") auto
    then have len: "i < length ts" "tid (ts ! i) = tid t0" using position_Some [OF i] by auto
    then have at_i: "ts ! i = t0" using same_tree TSplit by simp
    let ?new = "TSplit p axis (ts[i := w]) fs"
    have free: "p \<notin> set (ids t')" if "t' \<in> set (ts[i := w])" for t'
      using that set_update_subset_insert [of ts i w] no_p dist TSplit n by auto
    have "rep (node so g) t'" if "t' \<in> set (ts[i := w])" for t'
      using that set_update_subset_insert [of ts i w] wp(1) rep_subtrees [OF p(2)] TSplit by auto
    then have "rep ((node so g)(p \<mapsto> Split axis (map tid (ts[i := w])) fs)) ?new"
      using free by (simp add: rep_upd)
    moreover have "mset (ids ?new) = mset (ids tp) + mset fresh"
      using mset_concat_update [OF len(1), of ids w] at_i wp(3) TSplit n by simp
    moreover have "mset (tree_items ?new) + mset (tree_items t0) = mset (tree_items tp) + mset (tree_items w)"
      using mset_concat_update [OF len(1), of tree_items w] at_i TSplit by simp
    ultimately show ?thesis
      using replaced [of ?new "Split axis (map tid (ts[i := w])) fs"] get i by (simp add: replace_child_in_node_def map_update)
  qed
qed

lemma replace_in_space_forest:
  assumes so: "slot_laws so" and F: "forest so g F" and w: "wraps so g F w t0 fresh"
  shows "\<exists>ok g' F'. replace_node_in_space_tree so g sp (tid t0) (tid w) = Some (ok, g') \<and> forest so g' F' \<and>
    (ok \<longrightarrow> (\<forall>sp'. sp' \<noteq> sp \<longrightarrow> F' sp' = F sp') \<and>
      grove_items (F' sp) + mset (tree_items t0) = grove_items (F sp) + mset (tree_items w))"
proof (cases "root_of g sp = Some (tid t0)")
  case True
  then show ?thesis using replace_root_forest [OF F w True] by (auto simp: replace_node_in_space_tree_def)
next
  case not_root: False
  show ?thesis
  proof (cases "position (\<lambda>c. fc_node c = tid t0) (floating_containers g sp)")
    case (Some i)
    let ?g = "g\<lparr>dg_floatings := bt_modify sp (\<lambda>cs. cs[i := (cs ! i)\<lparr>fc_node := tid w\<rparr>]) (dg_floatings g)\<rparr>"
    have "replace_node_in_space_tree so g sp (tid t0) (tid w) = Some (True, ?g)"
      using Some not_root by (simp add: replace_node_in_space_tree_def)
    then show ?thesis using replace_floating_forest [OF F w Some] by (intro exI [of _ True] exI [of _ ?g]) simp
  next
    case None
    have "find_map_p (find_parent_in_subtree so g (tid t0)) (map tid (trees (F sp))) = Some (find_map (tree_parent (tid t0)) (trees (F sp)))"
      by (rule find_map_p_map) (rule find_parent_tree, rule forest_rep [OF F])
    then have run: "replace_node_in_space_tree so g sp (tid t0) (tid w) =
        Some (case find_map (tree_parent (tid t0)) (trees (F sp)) of
          Some p \<Rightarrow> replace_child_in_node so g p (tid t0) (tid w) | None \<Rightarrow> (False, g))"
      using not_root None by (simp add: replace_node_in_space_tree_def forest_roots_trees [OF F])
    show ?thesis
    proof (cases "find_map (tree_parent (tid t0)) (trees (F sp))")
      case None
      then show ?thesis using run F by auto
    next
      case (Some p)
      then obtain t where t: "t \<in> set (trees (F sp))" "tree_parent (tid t0) t = Some p" by (blast dest: find_map_Some)
      from tree_parent_at [OF forest_rep [OF F t(1)] t(2)] obtain tp where
        tp: "p \<in> set (ids t)" "rep (node so g) tp" "tid tp = p" "tid t0 \<in> set (map tid (subtrees tp))" by blast
      have "p \<in> set (grove_ids (F sp))" using tp(1) t(1) by (auto simp: grove_ids_tree)
      from replace_child_forest [OF so F w this tp(2-4)] show ?thesis using run Some by auto
    qed
  qed
qed

lemma tree_parent_ids: "tree_parent target t = Some p \<Longrightarrow> target \<in> set (ids t)"
proof (induction t)
  case (TFloating n t)
  then show ?case by (cases "tid t = target") auto
next
  case (TSplit n axis ts fs)
  show ?case
  proof (cases "target \<in> set (map tid ts)")
    case False
    then obtain t where "t \<in> set ts" "tree_parent target t = Some p" using TSplit.prems by (auto dest: find_map_Some)
    then show ?thesis using TSplit.IH by auto
  qed force
qed simp

lemma replace_absent_forest:
  assumes F: "forest so g F" and absent: "target \<notin> set (grove_ids (F sp))"
  shows "replace_node_in_space_tree so g sp target k = Some (False, g)"
proof -
  have roots: "target \<notin> set (forest_roots g sp)" using absent by (auto simp: forest_roots_trees [OF F] grove_ids_tree)
  then have "root_of g sp \<noteq> Some target" "position (\<lambda>c. fc_node c = target) (floating_containers g sp) = None"
    by (auto simp: forest_roots_def position_None)
  moreover have "find_map_p (find_parent_in_subtree so g target) (map tid (trees (F sp))) = Some (find_map (tree_parent target) (trees (F sp)))"
    by (rule find_map_p_map) (rule find_parent_tree, rule forest_rep [OF F])
  moreover have "find_map (tree_parent target) (trees (F sp)) = None"
    unfolding find_map_None
  proof
    show "tree_parent target t = None" if "t \<in> set (trees (F sp))" for t
      using that absent tree_parent_ids [of target t] by (cases "tree_parent target t") (auto simp: grove_ids_tree)
  qed
  ultimately show ?thesis by (simp add: replace_node_in_space_tree_def forest_roots_trees [OF F])
qed

section \<open>The plan\<close>

definition plan_fits :: "(space_id \<Rightarrow> grove) \<Rightarrow> space_id \<Rightarrow> edge_plan \<Rightarrow> bool" where
  "plan_fits F sp plan \<longleftrightarrow> (case plan of
     InsertIntoSplit split zone anchor ai ii sizing scope \<Rightarrow> split \<in> set (grove_ids (F sp))
   | WrapTarget target axis zone sizing \<Rightarrow> zone \<noteq> ZCenter)"

theorem apply_plan_forest:
  assumes so: "slot_laws so" and F: "forest so g F" and plan: "plan_fits F sp plan"
    and c: "rep (node so g) c" "distinct (ids c)" "\<And>k sp. k \<in> set (ids c) \<Longrightarrow> k \<notin> set (grove_ids (F sp))"
  shows "\<exists>ok g' F'. apply_edge_dock_plan so g sp plan (tid c) = Some (ok, g') \<and> forest so g' F' \<and>
    (ok \<longrightarrow> (\<forall>sp'. sp' \<noteq> sp \<longrightarrow> F' sp' = F sp') \<and> grove_items (F' sp) = grove_items (F sp) + mset (tree_items c))"
proof (cases plan)
  case (InsertIntoSplit n zone anchor ai ii sizing scope)
  then have n: "n \<in> set (grove_ids (F sp))" using plan by (simp add: plan_fits_def)
  show ?thesis
  proof (cases "\<exists>axis children fs children' fs'. node so g n = Some (Split axis children fs) \<and>
      split_share_and_insert children fs ai ii (tid c) sizing scope = Some (children', fs')")
    case True
    then obtain axis children fs children' fs' where get: "node so g n = Some (Split axis children fs)"
      and ins: "split_share_and_insert children fs ai ii (tid c) sizing scope = Some (children', fs')" by blast
    then have "children' = vec_insert ii (tid c) children"
      by (auto simp: split_share_and_insert_def Let_def split: if_splits)
    then show ?thesis
      using insert_into_split_forest [OF so F n get c, of ii fs'] get ins InsertIntoSplit by auto
  next
    case False
    then have "apply_edge_dock_plan so g sp plan (tid c) = Some (False, g)"
      using InsertIntoSplit by (auto split: option.split dock_node.split)
    then show ?thesis using F by auto
  qed
next
  case (WrapTarget target axis zone sizing)
  then have zone: "zone \<noteq> ZCenter" using plan by (simp add: plan_fits_def)
  obtain k g1 where k: "insert_node so g (Split axis (if zone_leads zone then [tid c, target] else [target, tid c])
      (if zone_leads zone then [sizing, f32_sub (Fin 1) sizing] else [f32_sub (Fin 1) sizing, sizing])) = (k, g1)"
    by (metis surj_pair)
  note new = insert_node_forest [OF so F k]
  have run: "apply_edge_dock_plan so g sp plan (tid c) = replace_node_in_space_tree so g1 sp target k"
    using WrapTarget zone k by (auto simp: ordered_edge_def split: if_splits)
  show ?thesis
  proof (cases "target \<in> set (grove_ids (F sp))")
    case True
    then obtain t where t: "t \<in> set (trees (F sp))" "target \<in> set (ids t)" by (auto simp: grove_ids_tree)
    then obtain t0 where t0: "rep (node so g) t0" "tid t0 = target" using rep_subtree_at [OF forest_rep [OF F t(1)]] by blast
    have sub: "distinct (ids t0)" "set (ids t0) \<subseteq> set (ids t)"
      using rep_distinct_sub [OF forest_rep [OF F t(1)] forest_tree_distinct [OF F t(1)] t0(1)] t(2) t0(2) by simp_all
    then have "k \<notin> set (ids t0)" using new(4) [of sp] t(1) by (auto simp: grove_ids_tree)
    moreover have "k \<notin> set (ids c)" using rep_stored [OF c(1)] new(2) by blast
    ultimately have reps: "rep (node so g1) t0" "rep (node so g1) c" using t0(1) c(1) new(3) by (simp_all add: rep_upd)
    let ?w = "TSplit k axis (if zone_leads zone then [c, t0] else [t0, c])
      (if zone_leads zone then [sizing, f32_sub (Fin 1) sizing] else [f32_sub (Fin 1) sizing, sizing])"
    have "wraps so g1 F ?w t0 (k # ids c)"
      using reps new(3,4) c(2,3) t0(2) \<open>k \<notin> set (ids c)\<close> by (auto simp: wraps_def)
    from replace_in_space_forest [OF so new(1) this, of sp] obtain ok g' F' where
      result: "replace_node_in_space_tree so g1 sp target k = Some (ok, g')" "forest so g' F'"
      "ok \<longrightarrow> (\<forall>sp'. sp' \<noteq> sp \<longrightarrow> F' sp' = F sp') \<and>
        grove_items (F' sp) + mset (tree_items t0) = grove_items (F sp) + mset (tree_items ?w)" using t0(2) by auto
    then show ?thesis using run by (auto simp: algebra_simps split: if_splits)
  next
    case False
    then show ?thesis using run replace_absent_forest [OF new(1) False] new(1) by auto
  qed
qed

end
