(* ===== verification/Dock_Effects.thy ===== *)
theory Dock_Effects
  imports Dock_Edges
begin

text \<open>
  The effect of each unchecked mutation on the forest: it returns, the graph after it has a forest, and when it reports a change
  the items of the spaces are those the operation promises.
\<close>

section \<open>Items of the forest\<close>

text \<open>No item stands at two places.\<close>

definition items_apart :: "(space_id \<Rightarrow> item_id multiset) \<Rightarrow> bool" where
  "items_apart M \<longleftrightarrow> (\<forall>sp x. count (M sp) x \<le> 1) \<and> (\<forall>sp sp' x. sp \<noteq> sp' \<longrightarrow> x \<in># M sp \<longrightarrow> x \<notin># M sp')"

abbreviation items_of :: "(space_id \<Rightarrow> grove) \<Rightarrow> space_id \<Rightarrow> item_id multiset" where
  "items_of F \<equiv> \<lambda>sp. grove_items (F sp)"

definition take_items :: "space_id \<Rightarrow> item_id multiset \<Rightarrow> (space_id \<Rightarrow> item_id multiset) \<Rightarrow> space_id \<Rightarrow> item_id multiset" where
  "take_items sp X M = M(sp := M sp - X)"

definition put_items :: "space_id \<Rightarrow> item_id multiset \<Rightarrow> (space_id \<Rightarrow> item_id multiset) \<Rightarrow> space_id \<Rightarrow> item_id multiset" where
  "put_items sp X M = M(sp := M sp + X)"

text \<open>A step at the space \<open>s\<close>: items \<open>X\<close> go and \<open>Y\<close> come, of the nodes at most \<open>ns\<close> go, no root comes.\<close>

definition changes :: "(space_id \<Rightarrow> grove) \<Rightarrow> space_id \<Rightarrow> item_id multiset \<Rightarrow> item_id multiset \<Rightarrow> node_id set \<Rightarrow>
    (space_id \<Rightarrow> grove) \<Rightarrow> bool" where
  "changes F s X Y ns F' \<longleftrightarrow> (\<forall>sp. sp \<noteq> s \<longrightarrow> F' sp = F sp) \<and> grove_items (F' s) + X = grove_items (F s) + Y \<and>
     set (grove_ids (F s)) - ns \<subseteq> set (grove_ids (F' s)) \<and> (fst (F s) = None \<longrightarrow> fst (F' s) = None)"

lemma changes_take: "changes F s X {#} ns F' \<Longrightarrow> items_of F' = take_items s X (items_of F)"
  by (auto simp: changes_def take_items_def fun_eq_iff intro: add_implies_diff)

lemma changes_put: "changes F s {#} Y ns F' \<Longrightarrow> items_of F' = put_items s Y (items_of F)"
  by (auto simp: changes_def put_items_def fun_eq_iff)

lemma changes_ids: "changes F s X Y ns F' \<Longrightarrow> k \<in> set (grove_ids (F sp)) \<Longrightarrow> k \<notin> ns \<Longrightarrow> k \<in> set (grove_ids (F' sp))"
  by (cases "sp = s") (auto simp: changes_def)

lemma changes_root: "changes F s X Y ns F' \<Longrightarrow> fst (F sp) = None \<Longrightarrow> fst (F' sp) = None"
  by (cases "sp = s") (auto simp: changes_def)

lemma tabs_items_tree: "(n, items, selected) \<in> set (tabs_of t) \<Longrightarrow> mset items \<subseteq># mset (tree_items t)"
proof (induction t)
  case (TSplit k axis ts fs)
  then obtain t where t: "t \<in> set ts" "(n, items, selected) \<in> set (tabs_of t)" by auto
  then obtain xs ys where "ts = xs @ t # ys" by (metis split_list)
  then have "mset (tree_items t) \<subseteq># mset (tree_items (TSplit k axis ts fs))" by simp
  then show ?case using TSplit.IH [OF t] by (rule subset_mset.order_trans [rotated])
qed auto

lemma tabs_items:
  assumes F: "forest so g F" and n: "n \<in> set (grove_ids (F sp))" and tabs: "node so g n = Some (Tabs items selected)"
  shows "mset items \<subseteq># grove_items (F sp)"
proof -
  obtain t where t: "t \<in> set (trees (F sp))" "n \<in> set (ids t)" using n by (auto simp: grove_ids_tree)
  then obtain xs ys where "trees (F sp) = xs @ t # ys" by (metis split_list)
  then have "mset (tree_items t) \<subseteq># grove_items (F sp)" by (simp add: grove_items_def)
  moreover have "mset items \<subseteq># mset (tree_items t)"
    by (rule tabs_items_tree [OF rep_tabs_node [OF forest_rep [OF F t(1)] t(2) tabs]])
  ultimately show ?thesis by (rule subset_mset.order_trans [rotated])
qed

section \<open>Tab stacks\<close>

lemma record_tab_selection_forest [simp]: "forest so (record_tab_selection g tabs x) F \<longleftrightarrow> forest so g F"
    "dg_nodes (record_tab_selection g tabs x) = dg_nodes g" "dg_roots (record_tab_selection g tabs x) = dg_roots g"
    "dg_floatings (record_tab_selection g tabs x) = dg_floatings g" "dg_central (record_tab_selection g tabs x) = dg_central g"
  by (simp_all add: record_tab_selection_def Let_def)

text \<open>A write to a tab stack.\<close>

lemma write_tabs:
  assumes so: "slot_laws so" and F: "forest so g F" and n: "n \<in> set (grove_ids (F sp))"
    and tabs: "node so g n = Some (Tabs items selected)" and eq: "mset items' + X = mset items + Y"
  shows "\<exists>F'. forest so (put_node so g n (Tabs items' selected')) F' \<and> changes F sp X Y {} F' \<and>
    node so (put_node so g n (Tabs items' selected')) = (node so g)(n \<mapsto> Tabs items' selected') \<and>
    map_option tid (fst (F' sp)) = map_option tid (fst (F sp))"
proof -
  obtain F' where F': "forest so (put_node so g n (Tabs items' selected')) F'" "\<forall>sp'. sp' \<noteq> sp \<longrightarrow> F' sp' = F sp'"
    "set (grove_ids (F' sp)) = set (grove_ids (F sp))" "map_option tid (fst (F' sp)) = map_option tid (fst (F sp))"
    "grove_items (F' sp) + mset items = grove_items (F sp) + mset items'"
    using put_tabs_forest [OF so F n tabs] by blast
  have "grove_items (F' sp) + X + mset items = grove_items (F sp) + Y + mset items"
    using F'(5) eq by (metis (no_types, opaque_lifting) add.assoc add.commute)
  then have "changes F sp X Y {} F'" using F'(2-4) by (auto simp: changes_def)
  then show ?thesis using F'(1,4) put_node_get [OF so, of g n] tabs by auto
qed

lemma remove_item_forest:
  assumes so: "slot_laws so" and F: "forest so g F" and n: "tabs \<in> set (grove_ids (F sp))"
    and get: "node so g tabs = Some (Tabs items selected)" and i: "i < length items"
  shows "\<exists>g' F' items' selected'. remove_item_from_tabs so g tabs i = (True, g') \<and> forest so g' F' \<and>
    changes F sp {#items ! i#} {#} {} F' \<and> node so g' = (node so g)(tabs \<mapsto> Tabs items' selected')"
proof -
  let ?items' = "take i items @ drop (i + 1) items"
  define selected' where "selected' = (if ?items' = [] then None else if selected = Some (items ! i) then Some (hd ?items') else selected)"
  have "mset items = mset (take i items @ items ! i # drop (Suc i) items)" using i by (simp only: id_take_nth_drop [symmetric])
  then have "mset ?items' + {#items ! i#} = mset items + {#}" by simp
  from write_tabs [OF so F n get this] obtain F' where F': "forest so (put_node so g tabs (Tabs ?items' selected')) F'"
    "changes F sp {#items ! i#} {#} {} F'"
    "node so (put_node so g tabs (Tabs ?items' selected')) = (node so g)(tabs \<mapsto> Tabs ?items' selected')" by blast
  let ?g = "put_node so g tabs (Tabs ?items' selected')"
  have "remove_item_from_tabs so g tabs i = (True, case map_of (dg_history ?g) tabs of
      None \<Rightarrow> ?g
    | Some state \<Rightarrow> ?g\<lparr>dg_history :=
        if bt_remove (items ! i) (ss_stamps state) = [] then bt_remove tabs (dg_history ?g)
        else bt_modify tabs (\<lambda>st. st\<lparr>ss_stamps := bt_remove (items ! i) (ss_stamps state)\<rparr>) (dg_history ?g)\<rparr>)"
    using get i unfolding remove_item_from_tabs_def selected'_def Let_def by simp
  then have "\<exists>h. remove_item_from_tabs so g tabs i = (True, ?g\<lparr>dg_history := h\<rparr>)"
    by (cases "map_of (dg_history ?g) tabs") (auto intro: exI [of _ "dg_history ?g"] simp del: put_node_simps)
  then obtain h where "remove_item_from_tabs so g tabs i = (True, ?g\<lparr>dg_history := h\<rparr>)" by blast
  then show ?thesis using F'
    by (intro exI [of _ "?g\<lparr>dg_history := h\<rparr>"] exI [of _ F'] exI [of _ ?items'] exI [of _ selected']) simp
qed

lemma insert_item_forest:
  assumes so: "slot_laws so" and F: "forest so g F" and n: "tabs \<in> set (grove_ids (F sp))"
    and get: "node so g tabs = Some (Tabs items selected)" and new: "item \<notin> set items"
  shows "\<exists>g' F'. insert_item_into_tabs_at so g tabs item index s = (True, g') \<and> forest so g' F' \<and> changes F sp {#} {#item#} {} F'"
proof -
  let ?items' = "case index of Some i \<Rightarrow> vec_insert (min i (length items)) item items | None \<Rightarrow> items @ [item]"
  have vec: "mset (vec_insert i item items) = mset items + {#item#}" for i
    unfolding vec_insert_def by (metis (no_types, lifting) append_take_drop_id mset.simps(2) mset_append union_mset_add_mset_right add.right_neutral)
  have "mset ?items' + {#} = mset items + {#item#}" by (simp add: vec split: option.split)
  from write_tabs [OF so F n get this, of "Some item"] obtain F' where
    "forest so (put_node so g tabs (Tabs ?items' (Some item))) F'" "changes F sp {#} {#item#} {} F'" by blast
  moreover have "insert_item_into_tabs_at so g tabs item index s = (True, record_tab_selection
      (put_node so g tabs (Tabs ?items' (Some item))) tabs (case s of Some s \<Rightarrow> s | None \<Rightarrow> item))"
    using get new unfolding insert_item_into_tabs_at_def Let_def by simp
  ultimately show ?thesis by auto
qed

lemma insert_missing_mset:
  "distinct xs \<Longrightarrow> set xs \<inter> set items = {} \<Longrightarrow> mset (insert_missing xs i items) = mset items + mset xs"
proof (induction xs i items rule: insert_missing.induct)
  case (2 x xs i items)
  have vec: "mset (vec_insert i x items) = mset items + {#x#}"
    unfolding vec_insert_def by (metis (no_types, lifting) append_take_drop_id mset.simps(2) mset_append union_mset_add_mset_right add.right_neutral)
  then have "set (vec_insert i x items) = insert x (set items)" using mset_eq_setD [of "vec_insert i x items" "items @ [x]"] by auto
  then have "mset (insert_missing xs (i + 1) (vec_insert i x items)) = mset (vec_insert i x items) + mset xs"
    using 2 by (intro 2(2)) auto
  then show ?case using 2(4) vec by simp
qed simp

lemma insert_items_forest:
  assumes so: "slot_laws so" and F: "forest so g F" and n: "tabs \<in> set (grove_ids (F sp))"
    and get: "node so g tabs = Some (Tabs items selected)" and new: "distinct xs" "set xs \<inter> set items = {}"
  shows "\<exists>g' F'. insert_items_into_tabs_at so g tabs xs index s = (True, g') \<and> forest so g' F' \<and> changes F sp {#} (mset xs) {} F'"
proof (cases "xs = []")
  case True
  then show ?thesis using F by (auto simp: insert_items_into_tabs_at_def changes_def)
next
  case False
  let ?items' = "insert_missing xs (min (case index of Some i \<Rightarrow> i | None \<Rightarrow> length items) (length items)) items"
  have "mset ?items' + {#} = mset items + mset xs" using insert_missing_mset [OF new] by simp
  from write_tabs [OF so F n get this] show ?thesis
    using get False unfolding insert_items_into_tabs_at_def Let_def by (cases s) auto
qed

section \<open>Simplification and whole tab stacks\<close>

lemma simplify_space_changes:
  assumes so: "slot_laws so" and F: "forest so g F"
  shows "\<exists>g' F'. simplify_space so g sp = Some g' \<and> forest so g' F' \<and> items_of F' = items_of F \<and>
    (\<forall>sp'. fst (F sp') = None \<longrightarrow> fst (F' sp') = None)"
proof -
  obtain g' where "simplify_space so g sp = Some g'" "forest so g' (F(sp := simp_grove (F sp)))"
    using simplify_space_forest [OF so F] by blast
  then show ?thesis
    by (intro exI [of _ g'] exI [of _ "F(sp := simp_grove (F sp))"])
       (simp add: simp_grove_items fun_eq_iff, simp add: simp_grove_def)
qed

lemma simplify_both_changes:
  assumes so: "slot_laws so" and F: "forest so g F"
  shows "\<exists>g' F'. simplify_both so g source target = Some g' \<and> forest so g' F' \<and> items_of F' = items_of F"
proof -
  obtain g1 F1 where 1: "simplify_space so g source = Some g1" "forest so g1 F1" "items_of F1 = items_of F"
    using simplify_space_changes [OF so F] by blast
  obtain g2 F2 where "simplify_space so g1 target = Some g2" "forest so g2 F2" "items_of F2 = items_of F1"
    using simplify_space_changes [OF so 1(2)] by blast
  then show ?thesis using 1 by (auto simp: simplify_both_def)
qed

text \<open>The result of a mutation: it returns, with a forest, and with the items \<open>M\<close> when it reports a change.\<close>

definition effect :: "'s slot_ops \<Rightarrow> (space_id \<Rightarrow> item_id multiset) \<Rightarrow> 's mutation \<Rightarrow> bool" where
  "effect so M r \<longleftrightarrow> (\<exists>ok g F. r = Some (ok, g) \<and> forest so g F \<and> (ok \<longrightarrow> items_of F = M))"

lemma effect_refused [intro]: "forest so g F \<Longrightarrow> effect so M (Some (False, g))"
  by (auto simp: effect_def)

lemma effect_done: "forest so g F \<Longrightarrow> items_of F = M \<Longrightarrow> effect so M (Some (ok, g))"
  by (auto simp: effect_def)

lemma settle_effect:
  assumes "slot_laws so" and "forest so g F" and "ok \<Longrightarrow> items_of F = M"
  shows "effect so M (settle so source target (ok, g))"
proof -
  obtain g' F' where "simplify_both so g source target = Some g'" "forest so g' F'" "items_of F' = items_of F"
    using simplify_both_changes [OF assms(1,2)] by blast
  then show ?thesis using assms(3) by (auto simp: settle_def effect_def intro: exI [of _ F'])
qed

lemma settle_if_effect:
  assumes "slot_laws so" and "forest so g F" and "ok \<Longrightarrow> items_of F = M"
  shows "effect so M (settle_if so source target (ok, g))"
  using settle_effect [OF assms(1,2), of True M source target] assms(2,3) by (auto simp: settle_if_def)

lemma take_tabs_forest:
  assumes so: "slot_laws so" and F: "forest so g F"
  shows "\<exists>d g'. take_tabs_from_space_with_simplify so g sp tabs simplify = Some (d, g') \<and>
    (case d of
       None \<Rightarrow> g' = g
     | Some d \<Rightarrow> \<exists>F' selected. node so g tabs = Some (Tabs (dt_items d) selected) \<and> tabs \<in> set (grove_ids (F sp)) \<and>
         dt_items d \<noteq> [] \<and> forest so g' F' \<and>
         items_of F' = take_items sp (mset (dt_items d)) (items_of F) \<and> (\<forall>sp'. fst (F sp') = None \<longrightarrow> fst (F' sp') = None) \<and>
         (\<not> simplify \<longrightarrow> (\<forall>k sp'. k \<in> set (grove_ids (F sp')) \<longrightarrow> k \<noteq> tabs \<longrightarrow> k \<in> set (grove_ids (F' sp'))) \<and>
           node so g' = (node so g)(tabs \<mapsto> Tabs [] None)))"
proof -
  obtain r where r: "root_for_node_in_space so g sp tabs = Some r" "r \<noteq> None \<longleftrightarrow> tabs \<in> set (grove_ids (F sp))"
    using root_for_node_iff [OF F] by blast
  show ?thesis
  proof (cases "\<exists>items selected. r \<noteq> None \<and> node so g tabs = Some (Tabs items selected) \<and> items \<noteq> []")
    case False
    then have "take_tabs_from_space_with_simplify so g sp tabs simplify = Some (None, g)"
      using r(1) unfolding take_tabs_from_space_with_simplify_def by (auto split: option.split dock_node.split)
    then show ?thesis by simp
  next
    case True
    then obtain items selected where get: "node so g tabs = Some (Tabs items selected)" "items \<noteq> []" and n: "tabs \<in> set (grove_ids (F sp))"
      using r(2) by blast
    define g1 where "g1 = g\<lparr>dg_history := bt_remove tabs (dg_history g)\<rparr>"
    have F1: "forest so g1 F" and get1: "node so g1 tabs = Some (Tabs items selected)" using F get by (simp_all add: g1_def)
    have "mset [] + mset items = mset items + {#}" by simp
    from write_tabs [OF so F1 n get1 this] obtain F2 where F2: "forest so (put_node so g1 tabs (Tabs [] None)) F2"
      "changes F sp (mset items) {#} {} F2" "node so (put_node so g1 tabs (Tabs [] None)) = (node so g)(tabs \<mapsto> Tabs [] None)"
      "map_option tid (fst (F2 sp)) = map_option tid (fst (F sp))" by (auto simp: g1_def)
    define g3 where "g3 = (if root_of g sp = Some tabs then remove_root (put_node so g1 tabs (Tabs [] None)) sp
      else put_node so g1 tabs (Tabs [] None))"
    have nodes3: "node so g3 = (node so g)(tabs \<mapsto> Tabs [] None)" using F2(3) by (simp add: g3_def remove_root_def)
    have "\<exists>F3. forest so g3 F3 \<and> changes F sp (mset items) {#} {tabs} F3"
    proof (cases "root_of g sp = Some tabs")
      case True
      then obtain t where t: "fst (F2 sp) = Some t" "tid t = tabs"
        using forest_linked [OF F2(1), of sp] by (cases "fst (F2 sp)") (auto simp: linked_def g1_def)
      then have "t \<in> set (trees (F2 sp))" by (cases "F2 sp") auto
      from forest_rep [OF F2(1) this] have "t = TTabs tabs [] None" using F2(3) t(2) rep_get by (cases t) fastforce+
      with remove_root_forest [OF F2(1) t(1)] F2(2) True show ?thesis
        by (intro exI [of _ "F2(sp := (None, snd (F2 sp)))"]) (auto simp: g3_def changes_def)
    next
      case False
      then show ?thesis using F2 by (intro exI [of _ F2]) (auto simp: g3_def changes_def)
    qed
    then obtain F3 where F3: "forest so g3 F3" "changes F sp (mset items) {#} {tabs} F3" by blast
    obtain g4 F4 where g4: "simplify_space so g3 sp = Some g4" "forest so g4 F4" "items_of F4 = items_of F3"
      "\<forall>sp'. fst (F3 sp') = None \<longrightarrow> fst (F4 sp') = None" using simplify_space_changes [OF so F3(1)] by blast
    let ?d = "\<lparr>dt_items = items, dt_selected = selected,
      dt_history = (case map_of (dg_history g) tabs of Some st \<Rightarrow> st | None \<Rightarrow> selection_default)\<rparr>"
    have run: "take_tabs_from_space_with_simplify so g sp tabs simplify = Some (Some ?d, if simplify then g4 else g3)"
      using r get n g4(1)
      by (auto simp: take_tabs_from_space_with_simplify_def take_tab_selection_state_def g1_def g3_def Let_def)
    show ?thesis
    proof (cases simplify)
      case True
      then show ?thesis
        unfolding run using get n g4 changes_take [OF F3(2)] changes_root [OF F3(2)] by auto
    next
      case False
      then show ?thesis
        unfolding run using get n F3(1) changes_take [OF F3(2)] changes_root [OF F3(2)] changes_ids [OF F3(2)] nodes3
        by auto
    qed
  qed
qed

end
