(* ===== verification/Dock_Item_Moves.thy ===== *)
theory Dock_Item_Moves
  imports Dock_Effects
begin

text \<open>
  The effect of the unchecked mutations that close, open, move or float one item or one tab stack.
\<close>

definition move_items :: "space_id \<Rightarrow> space_id \<Rightarrow> item_id multiset \<Rightarrow> (space_id \<Rightarrow> item_id multiset) \<Rightarrow> space_id \<Rightarrow> item_id multiset" where
  "move_items source target X M = put_items target X (take_items source X M)"

section \<open>One item\<close>

lemma items_apart_gone:
  assumes "items_apart M" and "x \<in># M s"
  shows "x \<notin># take_items s {#x#} M sp"
proof (cases "sp = s")
  case True
  have "count (M s) x \<le> 1" using assms(1) by (simp add: items_apart_def)
  then show ?thesis using True by (simp add: take_items_def not_in_iff)
next
  case False
  then show ?thesis using assms by (auto simp: take_items_def items_apart_def)
qed

lemma is_tabs_iff: "is_tabs n \<longleftrightarrow> (\<exists>items selected. n = Some (Tabs items selected))"
  by (auto simp: is_tabs_def split: option.split dock_node.split)

text \<open>An item that was found is taken out.\<close>

lemma take_found:
  assumes so: "slot_laws so" and F: "forest so g F" and M: "items_apart (items_of F)"
    and found: "find_item_in_space so g s item = Some (Some (tabs, i))"
  shows "\<exists>g' F'. remove_item_from_tabs so g tabs i = (True, g') \<and> forest so g' F' \<and>
    items_of F' = take_items s {#item#} (items_of F) \<and> (\<forall>sp. item \<notin># items_of F' sp) \<and>
    (\<forall>sp k. k \<in> set (grove_ids (F sp)) \<longrightarrow> k \<in> set (grove_ids (F' sp))) \<and>
    (\<forall>sp. fst (F sp) = None \<longrightarrow> fst (F' sp) = None) \<and> (\<forall>k. is_tabs (node so g k) \<longrightarrow> is_tabs (node so g' k)) \<and>
    (\<exists>items selected. node so g' tabs = Some (Tabs items selected)) \<and> tabs \<in> set (grove_ids (F s)) \<and> item \<in># items_of F s"
proof -
  obtain items selected where at_tabs: "node so g tabs = Some (Tabs items selected)" "i < length items" "items ! i = item"
    "tabs \<in> set (grove_ids (F s))" using find_item_found [OF F found] by blast
  obtain g' F' items' selected' where removed: "remove_item_from_tabs so g tabs i = (True, g')" "forest so g' F'"
    "changes F s {#item#} {#} {} F'" "node so g' = (node so g)(tabs \<mapsto> Tabs items' selected')"
    using remove_item_forest [OF so F at_tabs(4,1,2)] at_tabs(3) by blast
  have "item \<in># mset items" using at_tabs(2,3) by (metis nth_mem set_mset_mset)
  then have there: "item \<in># items_of F s" using tabs_items [OF F at_tabs(4,1)] by (rule mset_subset_eqD [rotated])
  have items: "items_of F' = take_items s {#item#} (items_of F)" by (rule changes_take [OF removed(3)])
  then have "item \<notin># items_of F' sp" for sp using items_apart_gone [OF M there, of sp] by (simp add: fun_eq_iff)
  then show ?thesis
    using removed items there at_tabs(4) changes_ids [OF removed(3)] changes_root [OF removed(3)]
    by (intro exI [of _ g'] exI [of _ F']) (auto simp: is_tabs_iff)
qed

lemma insert_absent:
  assumes so: "slot_laws so" and F: "forest so g F" and tabs: "tabs \<in> set (grove_ids (F sp))" "is_tabs (node so g tabs)"
    and absent: "item \<notin># items_of F sp"
  shows "\<exists>g' F'. insert_item_into_tabs_at so g tabs item index s = (True, g') \<and> forest so g' F' \<and>
    items_of F' = put_items sp {#item#} (items_of F)"
proof -
  obtain items selected where get: "node so g tabs = Some (Tabs items selected)" using tabs(2) by (auto simp: is_tabs_iff)
  have "item \<notin> set items" using tabs_items [OF F tabs(1) get] absent by (metis mset_subset_eqD set_mset_mset)
  from insert_item_forest [OF so F tabs(1) get this] show ?thesis using changes_put by blast
qed

text \<open>A new tab stack, at an edge, as the root of an empty space or in a floating container.\<close>

lemma new_tabs_free:
  assumes "slot_laws so" and "forest so g F" and "insert_node so g (Tabs items selected) = (n, g')"
  shows "forest so g' F" and "rep (node so g') (TTabs n items selected)" and "\<And>k sp. k \<in> set (ids (TTabs n items selected)) \<Longrightarrow> k \<notin> set (grove_ids (F sp))"
  using insert_node_forest [OF assms] by auto

lemma dock_free_effect:
  assumes so: "slot_laws so" and F: "forest so g F" and plan: "plan_fits F target plan"
    and c: "rep (node so g) c" "distinct (ids c)" "\<And>k sp. k \<in> set (ids c) \<Longrightarrow> k \<notin> set (grove_ids (F sp))"
  shows "effect so (put_items target (mset (tree_items c)) (items_of F))
    (do { docked \<leftarrow> apply_edge_dock_plan so g target plan (tid c); settle_if so source target docked })"
proof -
  obtain ok g' F' where docked: "apply_edge_dock_plan so g target plan (tid c) = Some (ok, g')" "forest so g' F'"
    "ok \<longrightarrow> (\<forall>sp'. sp' \<noteq> target \<longrightarrow> F' sp' = F sp') \<and> grove_items (F' target) = grove_items (F target) + mset (tree_items c)"
    using apply_plan_forest [OF so F plan c] by blast
  then have "items_of F' = put_items target (mset (tree_items c)) (items_of F)" if ok
    using that by (auto simp: put_items_def fun_eq_iff)
  from settle_if_effect [OF so docked(2) this] docked(1) show ?thesis by simp
qed

lemma set_root_free:
  assumes F: "forest so g F" and empty: "fst (F sp) = None" and c: "rep (node so g) c" "distinct (ids c)"
    "\<And>k sp. k \<in> set (ids c) \<Longrightarrow> k \<notin> set (grove_ids (F sp))"
  shows "\<exists>F'. forest so (set_root_for_empty_space g sp (tid c)) F' \<and> items_of F' = put_items sp (mset (tree_items c)) (items_of F)"
  using set_root_forest [OF F empty c]
  by (intro exI [of _ "F(sp := (Some c, snd (F sp)))"]) (auto simp: put_items_def fun_eq_iff)

lemma push_floating_free:
  assumes so: "slot_laws so" and F: "forest so g F" and k: "insert_node so g (Tabs items selected) = (n, g1)"
    and k': "insert_node so g1 (Floating n) = (fl, g2)"
  shows "\<exists>F'. forest so (push_floating g2 sp \<lparr>fc_node = fl, fc_bounds = b\<rparr>) F' \<and> items_of F' = put_items sp (mset items) (items_of F)"
proof -
  note 1 = insert_node_forest [OF so F k]
  note 2 = insert_node_forest [OF so 1(1) k']
  have neq: "n \<noteq> fl" using 1(3) 2(2) by auto
  let ?t = "TFloating fl (TTabs n items selected)"
  have "rep (node so g2) ?t" "distinct (ids ?t)" "\<And>k sp. k \<in> set (ids ?t) \<Longrightarrow> k \<notin> set (grove_ids (F sp))"
    using 1 2 neq by auto
  from push_floating_forest [OF 2(1) this, of sp b]
  show ?thesis by (intro exI [of _ "F(sp := add_floating ?t (F sp))"]) (auto simp: grove_add put_items_def fun_eq_iff)
qed

section \<open>Closing and opening\<close>

lemma reselect_forest:
  assumes so: "slot_laws so" and F: "forest so g F" and n: "tabs \<in> set (grove_ids (F sp))"
  shows "\<exists>F'. forest so (reselect so g tabs p) F' \<and> items_of F' = items_of F"
proof (cases "\<exists>items selected x. p = Some x \<and> node so g tabs = Some (Tabs items selected) \<and> x \<in> set items")
  case True
  then obtain items selected x where x: "p = Some x" "node so g tabs = Some (Tabs items selected)" "x \<in> set items" by blast
  have "mset items + {#} = mset items + {#}" by simp
  from write_tabs [OF so F n x(2) this, of "Some x"] obtain F' where
    "forest so (put_node so g tabs (Tabs items (Some x))) F'" "changes F sp {#} {#} {} F'" by blast
  then show ?thesis using x by (intro exI [of _ F']) (auto simp: reselect_def changes_def fun_eq_iff)
next
  case False
  then have "reselect so g tabs p = g" by (auto simp: reselect_def split: option.split dock_node.split)
  then show ?thesis using F by auto
qed

theorem close_item_effect:
  assumes so: "slot_laws so" and F: "forest so g F" and M: "items_apart (items_of F)"
  shows "effect so (take_items sp {#item#} (items_of F)) (close_item so g sp item)"
proof -
  obtain r where r: "find_item_in_space so g sp item = Some r" using find_item_forest [OF F] by blast
  show ?thesis
  proof (cases r)
    case None
    then show ?thesis using r F by (auto simp: close_item_def)
  next
    case (Some p)
    obtain tabs i where p: "p = (tabs, i)" by (cases p)
    obtain g1 F1 where removed: "remove_item_from_tabs so g tabs i = (True, g1)" "forest so g1 F1"
      "items_of F1 = take_items sp {#item#} (items_of F)" "tabs \<in> set (grove_ids (F1 sp))"
      using take_found [OF so F M] r Some p by blast
    let ?preferred = "case node so g tabs of
        Some (Tabs items selected) \<Rightarrow> if selected = Some item then preferred_tab_after_close g tabs item items else None
      | _ \<Rightarrow> None"
    obtain F2 where F2: "forest so (reselect so g1 tabs ?preferred) F2" "items_of F2 = items_of F1"
      using reselect_forest [OF so removed(2,4)] by blast
    obtain g3 F3 where "simplify_space so (reselect so g1 tabs ?preferred) sp = Some g3" "forest so g3 F3" "items_of F3 = items_of F2"
      using simplify_space_changes [OF so F2(1)] by blast
    then show ?thesis using r Some p removed F2 by (auto simp: close_item_def Let_def intro: effect_done)
  qed
qed


lemma spaces_cover: "forest so g F \<Longrightarrow> sp \<notin> set (spaces g) \<Longrightarrow> F sp = (None, [])"
proof -
  assume F: "forest so g F" and "sp \<notin> set (spaces g)"
  then have "map_of (dg_roots g) sp = None" "map_of (dg_floatings g) sp = None"
    by (auto simp: spaces_def map_of_eq_None_iff)
  then show ?thesis using forest_linked [OF F, of sp] by (cases "F sp") (simp add: linked_simps floating_containers_def)
qed

lemma contains_item_forest:
  assumes F: "forest so g F"
  shows "contains_item so g item = Some (\<exists>sp. item \<in># items_of F sp)"
proof -
  let ?in = "\<lambda>sp. find_map (tree_find item) (trees (F sp)) \<noteq> None"
  have there: "?in sp \<longleftrightarrow> item \<in># items_of F sp" for sp
    using find_map_None [of "tree_find item" "trees (F sp)"] by (auto simp: tree_find_None grove_items_def)
  have "any_p (\<lambda>space. do { r \<leftarrow> find_item_in_space so g space item; Some (r \<noteq> None) }) (map (\<lambda>x. x) (spaces g)) = Some (list_ex ?in (spaces g))"
    by (rule any_p_map) (simp add: find_item_forest [OF F])
  moreover have "list_ex ?in (spaces g) \<longleftrightarrow> (\<exists>sp. item \<in># items_of F sp)"
    unfolding list_ex_iff there using spaces_cover [OF F] by (force simp: grove_items_def)
  ultimately show ?thesis by (simp add: contains_item_def)
qed

theorem open_item_effect:
  assumes so: "slot_laws so" and F: "forest so g F" and target: "\<And>tabs. target_tabs = Some tabs \<Longrightarrow> is_tabs (node so g tabs)"
  shows "effect so (put_items sp {#item#} (items_of F)) (open_item so g sp target_tabs item index)"
proof (cases "\<exists>sp. item \<in># items_of F sp")
  case True
  then show ?thesis using F by (auto simp: open_item_def contains_item_forest [OF F])
next
  case absent: False
  then have run: "open_item so g sp target_tabs item index = (case target_tabs of
       Some tabs \<Rightarrow> do {
         r \<leftarrow> root_for_node_in_space so g sp tabs;
         Some (if r = None then (False, g) else insert_item_into_tabs_at so g tabs item index None)
       }
     | None \<Rightarrow>
         Some (if root_of g sp \<noteq> None \<or> floating_containers g sp \<noteq> [] then (False, g)
           else
             (let (tabs, g1) = insert_node so g (Tabs [item] (Some item)) in (True, set_root_for_empty_space g1 sp tabs))))"
    by (simp add: open_item_def contains_item_forest [OF F])
  show ?thesis
  proof (cases target_tabs)
    case tabs: (Some tabs)
    obtain r where r: "root_for_node_in_space so g sp tabs = Some r" "r \<noteq> None \<longleftrightarrow> tabs \<in> set (grove_ids (F sp))"
      using root_for_node_iff [OF F] by blast
    show ?thesis
    proof (cases r)
      case None
      then show ?thesis using run tabs r F by auto
    next
      case (Some r')
      then have there: "tabs \<in> set (grove_ids (F sp))" using r(2) by simp
      obtain g1 F1 where "insert_item_into_tabs_at so g tabs item index None = (True, g1)" "forest so g1 F1"
        "items_of F1 = put_items sp {#item#} (items_of F)"
        using insert_absent [OF so F there target, where item = item] tabs absent by blast
      then show ?thesis using run r Some tabs by (auto intro: effect_done)
    qed
  next
    case None
    show ?thesis
    proof (cases "root_of g sp \<noteq> None \<or> floating_containers g sp \<noteq> []")
      case True
      then show ?thesis using run None F by auto
    next
      case False
      obtain n g1 where n: "insert_node so g (Tabs [item] (Some item)) = (n, g1)" by fastforce
      have "fst (F sp) = None" using forest_linked [OF F, of sp] False by (simp add: linked_def)
      from set_root_free [OF new_tabs_free(1) [OF so F n] this new_tabs_free(2) [OF so F n] _ new_tabs_free(3) [OF so F n]]
      show ?thesis using run None False n by (auto intro: effect_done)
    qed
  qed
qed

section \<open>Moving an item\<close>

definition plan_ok :: "(space_id \<Rightarrow> grove) \<Rightarrow> space_id \<Rightarrow> drop_target \<Rightarrow> bool" where
  "plan_ok F sp target \<longleftrightarrow> (\<forall>plan. target = Edge plan \<longrightarrow> plan_fits F sp plan)"

lemma move_item_onto:
  assumes so: "slot_laws so" and F: "forest so g F" and M: "items_apart (items_of F)"
    and found: "find_item_in_space so g source item = Some (Some (tabs, i))"
    and target: "t \<in> set (grove_ids (F target))" "is_tabs (node so g t)"
  shows "effect so (move_items source target {#item#} (items_of F))
    (case remove_item_from_tabs so g tabs i of
       (False, g1) \<Rightarrow> Some (False, g1)
     | (True, g1) \<Rightarrow> settle so source target (insert_item_into_tabs_at so g1 t item index s))"
proof -
  obtain g1 F1 where removed: "remove_item_from_tabs so g tabs i = (True, g1)" "forest so g1 F1"
    "items_of F1 = take_items source {#item#} (items_of F)" "\<forall>sp. item \<notin># items_of F1 sp"
    "t \<in> set (grove_ids (F1 target))" "is_tabs (node so g1 t)"
    using take_found [OF so F M found] target by blast
  obtain g2 F2 where inserted: "insert_item_into_tabs_at so g1 t item index s = (True, g2)" "forest so g2 F2"
    "items_of F2 = put_items target {#item#} (items_of F1)" using insert_absent [OF so removed(2,5,6)] removed(4) by blast
  then have "items_of F2 = move_items source target {#item#} (items_of F)" using removed(3) by (simp add: move_items_def)
  from settle_effect [OF so inserted(2), of True, OF this] show ?thesis using removed(1) inserted(1) by simp
qed

lemma simplify_twice_effect:
  assumes so: "slot_laws so" and F: "forest so g F" and M: "items_of F = M"
  shows "effect so M (do { g1 \<leftarrow> simplify_space so g s; g2 \<leftarrow> simplify_space so g1 t; Some (True, g2) })"
proof -
  obtain g1 F1 where 1: "simplify_space so g s = Some g1" "forest so g1 F1" "items_of F1 = items_of F"
    using simplify_space_changes [OF so F] by blast
  obtain g2 F2 where "simplify_space so g1 t = Some g2" "forest so g2 F2" "items_of F2 = items_of F1"
    using simplify_space_changes [OF so 1(2)] by blast
  then show ?thesis using 1 M by (auto intro: effect_done)
qed

lemma move_item_empty_effect:
  assumes so: "slot_laws so" and F: "forest so g F" and M: "items_apart (items_of F)" and empty: "fst (F target) = None"
  shows "effect so (move_items source target {#item#} (items_of F)) (move_item_to_empty_space so g source item target)"
proof -
  obtain r where r: "find_item_in_space so g source item = Some r" using find_item_forest [OF F] by blast
  show ?thesis
  proof (cases r)
    case None
    then show ?thesis using r F by (auto simp: move_item_to_empty_space_def)
  next
    case (Some p)
    obtain tabs i where p: "p = (tabs, i)" by (cases p)
    obtain g1 F1 where removed: "remove_item_from_tabs so g tabs i = (True, g1)" "forest so g1 F1"
      "items_of F1 = take_items source {#item#} (items_of F)" "fst (F1 target) = None"
      using take_found [OF so F M] r Some p empty by blast
    obtain n g2 where n: "insert_node so g1 (Tabs [item] (Some item)) = (n, g2)" by fastforce
    note free = new_tabs_free [OF so removed(2) n]
    obtain F3 where F3: "forest so (set_root_for_empty_space g2 target n) F3" "items_of F3 = put_items target {#item#} (items_of F1)"
      using set_root_free [OF free(1) removed(4) free(2) _ free(3)] by auto
    have "items_of F3 = move_items source target {#item#} (items_of F)" using F3(2) removed(3) by (simp add: move_items_def)
    from simplify_twice_effect [OF so F3(1) this, of source target]
    show ?thesis using r Some p removed(1) n by (simp add: move_item_to_empty_space_def)
  qed
qed

lemma empty_for_item_move:
  assumes F: "forest so g F"
  shows "\<exists>b. target_space_is_empty_for_item_move so g source item target = Some b \<and> (b \<longrightarrow> fst (F target) = None)"
  using forest_linked [OF F, of target] collect_items_forest [OF F, of target]
  by (auto simp: target_space_is_empty_for_item_move_def linked_def)

theorem move_item_effect:
  assumes so: "slot_laws so" and F: "forest so g F" and M: "items_apart (items_of F)" and plan: "plan_ok F target_space target"
  shows "effect so (move_items source target_space {#item#} (items_of F)) (move_item_between_spaces so g source item target_space target)"
proof -
  obtain r where r: "find_item_in_space so g source item = Some r" using find_item_forest [OF F] by blast
  show ?thesis
  proof (cases r)
    case None
    then show ?thesis using r F by (auto simp: move_item_between_spaces_def)
  next
    case (Some p)
    obtain tabs i where p: "p = (tabs, i)" by (cases p)
    have found: "find_item_in_space so g source item = Some (Some (tabs, i))" using r Some p by simp
    have place: "\<exists>r. root_for_node_in_space so g target_space t = Some r \<and>
        (r \<noteq> None \<and> is_tabs (node so g t) \<longrightarrow> t \<in> set (grove_ids (F target_space)) \<and> is_tabs (node so g t))" for t
      using root_for_node_iff [OF F] by blast
    show ?thesis
    proof (cases target)
      case (Center t)
      obtain r' where "root_for_node_in_space so g target_space t = Some r'"
        "r' \<noteq> None \<and> is_tabs (node so g t) \<longrightarrow> t \<in> set (grove_ids (F target_space)) \<and> is_tabs (node so g t)" using place by blast
      then show ?thesis
        using move_item_onto [OF so F M found, of t target_space None None] F found Center
        by (cases "r' = None \<or> \<not> is_tabs (node so g t)") (auto simp: move_item_between_spaces_def)
    next
      case (TabBar t j)
      obtain r' where "root_for_node_in_space so g target_space t = Some r'"
        "r' \<noteq> None \<and> is_tabs (node so g t) \<longrightarrow> t \<in> set (grove_ids (F target_space)) \<and> is_tabs (node so g t)" using place by blast
      then show ?thesis
        using move_item_onto [OF so F M found, of t target_space _ None] F found TabBar
        by (cases "r' = None \<or> \<not> is_tabs (node so g t)") (auto simp: move_item_between_spaces_def)
    next
      case (Edge plan)
      obtain g1 F1 where removed: "remove_item_from_tabs so g tabs i = (True, g1)" "forest so g1 F1"
        "items_of F1 = take_items source {#item#} (items_of F)"
        "\<forall>sp k. k \<in> set (grove_ids (F sp)) \<longrightarrow> k \<in> set (grove_ids (F1 sp))"
        using take_found [OF so F M found] by blast
      have fits: "plan_fits F1 target_space plan"
        using assms(4) Edge removed(4) by (cases plan) (auto simp: plan_ok_def plan_fits_def)
      obtain n g2 where n: "insert_node so g1 (Tabs [item] (Some item)) = (n, g2)" by fastforce
      note free = new_tabs_free [OF so removed(2) n]
      from dock_free_effect [OF so free(1) fits free(2) _ free(3)]
      show ?thesis using found removed(1,3) n Edge by (simp add: move_item_between_spaces_def move_items_def)
    next
      case EmptySpace
      obtain b where b: "target_space_is_empty_for_item_move so g source item target_space = Some b" "b \<longrightarrow> fst (F target_space) = None"
        using empty_for_item_move [OF F] by blast
      then show ?thesis
        using found EmptySpace F move_item_empty_effect [OF so F M, of target_space] by (cases b) (auto simp: move_item_between_spaces_def)
    qed
  qed
qed

theorem float_item_effect:
  assumes so: "slot_laws so" and F: "forest so g F" and M: "items_apart (items_of F)"
  shows "effect so (move_items source target {#item#} (items_of F)) (float_item_in_window so g source item target b)"
proof -
  obtain r where r: "find_item_in_space so g source item = Some r" using find_item_forest [OF F] by blast
  show ?thesis
  proof (cases r)
    case None
    then show ?thesis using r F by (auto simp: float_item_in_window_def)
  next
    case (Some p)
    obtain tabs i where p: "p = (tabs, i)" by (cases p)
    obtain g1 F1 where removed: "remove_item_from_tabs so g tabs i = (True, g1)" "forest so g1 F1"
      "items_of F1 = take_items source {#item#} (items_of F)"
      using take_found [OF so F M] r Some p by blast
    obtain n g2 where n: "insert_node so g1 (Tabs [item] (Some item)) = (n, g2)" by fastforce
    obtain fl g3 where fl: "insert_node so g2 (Floating n) = (fl, g3)" by fastforce
    obtain F3 where F3: "forest so (push_floating g3 target \<lparr>fc_node = fl, fc_bounds = b\<rparr>) F3"
      "items_of F3 = put_items target {#item#} (items_of F1)"
      using push_floating_free [OF so removed(2) n fl] by auto
    have "items_of F3 = move_items source target {#item#} (items_of F)" using F3(2) removed(3) by (simp add: move_items_def)
    from simplify_twice_effect [OF so F3(1) this, of source target]
    show ?thesis using r Some p removed(1) n fl by (simp add: float_item_in_window_def)
  qed
qed

end
