(* ===== verification/Dock_Group_Moves.thy ===== *)
theory Dock_Group_Moves
  imports Dock_Item_Moves
begin

text \<open>
  The effect of the unchecked mutations on whole tab stacks and floating containers, and of all operations.
\<close>

section \<open>Moving a tab stack\<close>

text \<open>The items below a node.\<close>

definition carried :: "'s slot_ops \<Rightarrow> 's dock_graph \<Rightarrow> node_id \<Rightarrow> item_id multiset" where
  "carried so g n = (case collect_items_in_subtree so g n of Some items \<Rightarrow> mset items | None \<Rightarrow> {#})"

lemma carried_tabs: "node so g n = Some (Tabs items selected) \<Longrightarrow> carried so g n = mset items"
  by (simp add: carried_def collect_items_in_subtree_def collect_items_into.simps)

lemma carried_tree: "rep (node so g) t \<Longrightarrow> carried so g (tid t) = mset (tree_items t)"
  by (simp add: carried_def collect_items_in_subtree_def collect_items_tree)

lemma items_apart_gone_all:
  assumes "items_apart M" and "X \<subseteq># M s" and "x \<in># X"
  shows "x \<notin># take_items s X M sp"
proof (cases "sp = s")
  case True
  have "count (M s) x \<le> 1" using assms(1) by (simp add: items_apart_def)
  moreover have "1 \<le> count X x" using assms(3) by (simp add: Suc_le_eq)
  ultimately have "count (M s) x \<le> count X x" by linarith
  then show ?thesis using True by (simp add: take_items_def not_in_iff)
next
  case False
  have "x \<in># M s" using assms(2,3) by (rule mset_subset_eqD)
  then show ?thesis using False assms(1) by (auto simp: take_items_def items_apart_def)
qed

lemma items_apart_distinct:
  assumes "items_apart M" and "mset xs \<subseteq># M s"
  shows "distinct xs"
proof -
  have "count (mset xs) x = (if x \<in> set xs then 1 else 0)" for x
  proof (cases "x \<in> set xs")
    case True
    have "count (mset xs) x \<le> 1"
      using assms(1) mset_subset_eq_count [OF assms(2), of x] by (meson items_apart_def order_trans)
    moreover have "0 < count (mset xs) x" using True by simp
    ultimately have "count (mset xs) x = 1" by linarith
    then show ?thesis using True by simp
  qed simp
  then show ?thesis by (simp add: distinct_count_atmost_1)
qed

lemma detached_free:
  assumes so: "slot_laws so" and F: "forest so g F" and d: "insert_detached_tabs so g d = (n, g')"
  shows "forest so g' F" and "rep (node so g') (TTabs n (dt_items d) (dt_selected d))"
    and "\<And>k sp. k \<in> set (ids (TTabs n (dt_items d) (dt_selected d))) \<Longrightarrow> k \<notin> set (grove_ids (F sp))"
    and "node so g n = None" and "\<And>k. k \<noteq> n \<Longrightarrow> node so g' k = node so g k"
proof -
  obtain g1 where 1: "insert_node so g (Tabs (dt_items d) (dt_selected d)) = (n, g1)" and g': "g' = restore_tab_selection_state g1 n (dt_history d)"
    using d by (auto simp: insert_detached_tabs_def split: prod.splits)
  note new = insert_node_forest [OF so F 1]
  have same: "dg_nodes g' = dg_nodes g1" "forest so g' F \<longleftrightarrow> forest so g1 F"
    by (simp_all add: g' restore_tab_selection_state_def)
  show "forest so g' F" using same new(1) by simp
  show "rep (node so g') (TTabs n (dt_items d) (dt_selected d))" using same new(3) by simp
  show "k \<notin> set (grove_ids (F sp))" if "k \<in> set (ids (TTabs n (dt_items d) (dt_selected d)))" for k sp using that new(4) by simp
  show "node so g n = None" using new(2) .
  show "node so g' k = node so g k" if "k \<noteq> n" for k using that same new(3) by simp
qed

lemma insert_items_absent:
  assumes so: "slot_laws so" and F: "forest so g F" and tabs: "tabs \<in> set (grove_ids (F sp))" "is_tabs (node so g tabs)"
    and new: "distinct xs" "\<And>x. x \<in> set xs \<Longrightarrow> x \<notin># items_of F sp"
  shows "\<exists>g' F'. insert_items_into_tabs_at so g tabs xs index s = (True, g') \<and> forest so g' F' \<and>
    items_of F' = put_items sp (mset xs) (items_of F)"
proof -
  obtain items selected where get: "node so g tabs = Some (Tabs items selected)" using tabs(2) by (auto simp: is_tabs_iff)
  have "set items \<subseteq> set_mset (items_of F sp)" using set_mset_mono [OF tabs_items [OF F tabs(1) get]] by simp
  then have "set xs \<inter> set items = {}" using new(2) by auto
  from insert_items_forest [OF so F tabs(1) get new(1) this] show ?thesis using changes_put by blast
qed

lemma merge_tabs_effect:
  assumes so: "slot_laws so" and F: "forest so g F" and M: "items_apart (items_of F)"
  shows "effect so (move_items source target (carried so g source_tabs) (items_of F))
    (merge_tabs so g source source_tabs target tabs index)"
proof -
  obtain r where r: "root_for_node_in_space so g target tabs = Some r" "r \<noteq> None \<longleftrightarrow> tabs \<in> set (grove_ids (F target))"
    using root_for_node_iff [OF F] by blast
  show ?thesis
  proof (cases "(source = target \<and> source_tabs = tabs) \<or> r = None \<or> \<not> is_tabs (node so g tabs)")
    case True
    then show ?thesis using r F by (auto simp: merge_tabs_def)
  next
    case False
    obtain d g1 where d: "take_tabs_from_space_with_simplify so g source source_tabs False = Some (d, g1)"
      and taken: "case d of
         None \<Rightarrow> g1 = g
       | Some d \<Rightarrow> \<exists>F' selected. node so g source_tabs = Some (Tabs (dt_items d) selected) \<and> source_tabs \<in> set (grove_ids (F source)) \<and>
         dt_items d \<noteq> [] \<and> forest so g1 F' \<and> items_of F' = take_items source (mset (dt_items d)) (items_of F) \<and>
         (\<forall>k sp'. k \<in> set (grove_ids (F sp')) \<longrightarrow> k \<noteq> source_tabs \<longrightarrow> k \<in> set (grove_ids (F' sp'))) \<and>
           node so g1 = (node so g)(source_tabs \<mapsto> Tabs [] None)"
      using take_tabs_forest [OF so F, of source source_tabs False] by (fastforce split: option.splits)
    show ?thesis
    proof (cases d)
      case None
      then show ?thesis using False r d taken F by (auto simp: merge_tabs_def)
    next
      case (Some e)
      then obtain F1 selected where 1: "node so g source_tabs = Some (Tabs (dt_items e) selected)" "source_tabs \<in> set (grove_ids (F source))"
        "forest so g1 F1" "items_of F1 = take_items source (mset (dt_items e)) (items_of F)"
        "\<And>k sp'. k \<in> set (grove_ids (F sp')) \<Longrightarrow> k \<noteq> source_tabs \<Longrightarrow> k \<in> set (grove_ids (F1 sp'))"
        "node so g1 = (node so g)(source_tabs \<mapsto> Tabs [] None)" using taken by auto
      have tabs: "tabs \<in> set (grove_ids (F target))" using False r(2) by blast
      have "tabs \<noteq> source_tabs" using False forest_apart [OF F _ 1(2)] tabs by blast
      then have tabs1: "tabs \<in> set (grove_ids (F1 target))" "is_tabs (node so g1 tabs)" using tabs 1(5,6) False by auto
      have sub: "mset (dt_items e) \<subseteq># items_of F source" by (rule tabs_items [OF F 1(2,1)])
      have gone: "x \<notin># items_of F1 target" if "x \<in> set (dt_items e)" for x
        using items_apart_gone_all [OF M sub, of x target] that 1(4) by (simp add: fun_eq_iff)
      obtain g2 F2 where 2: "insert_items_into_tabs_at so g1 tabs (dt_items e) index (dt_selected e) = (True, g2)" "forest so g2 F2"
        "items_of F2 = put_items target (mset (dt_items e)) (items_of F1)"
        using insert_items_absent [OF so 1(3) tabs1 items_apart_distinct [OF M sub] gone] by blast
      then have "items_of F2 = move_items source target (carried so g source_tabs) (items_of F)"
        using 1(1,4) by (simp add: move_items_def carried_tabs)
      from settle_effect [OF so 2(2), of True, OF this] show ?thesis
        using False r(1) d Some 2(1) by (auto simp: merge_tabs_def)
    qed
  qed
qed

lemma move_tabs_empty_effect:
  assumes so: "slot_laws so" and F: "forest so g F" and empty: "fst (F target) = None"
  shows "effect so (move_items source target (carried so g tabs) (items_of F)) (move_tabs_to_empty_space so g source tabs target)"
proof -
  obtain d g1 where d: "take_tabs_from_space_with_simplify so g source tabs True = Some (d, g1)"
    and taken: "case d of
       None \<Rightarrow> g1 = g
     | Some d \<Rightarrow> \<exists>F' selected. node so g tabs = Some (Tabs (dt_items d) selected) \<and> forest so g1 F' \<and>
       items_of F' = take_items source (mset (dt_items d)) (items_of F) \<and> (\<forall>sp'. fst (F sp') = None \<longrightarrow> fst (F' sp') = None)"
    using take_tabs_forest [OF so F, of source tabs True] by (fastforce split: option.splits)
  show ?thesis
  proof (cases d)
    case None
    then show ?thesis using d taken F by (auto simp: move_tabs_to_empty_space_def)
  next
    case (Some e)
    then obtain F1 selected where 1: "node so g tabs = Some (Tabs (dt_items e) selected)" "forest so g1 F1"
      "items_of F1 = take_items source (mset (dt_items e)) (items_of F)" "fst (F1 target) = None" using taken empty by auto
    obtain n g2 where n: "insert_detached_tabs so g1 e = (n, g2)" by fastforce
    note free = detached_free [OF so 1(2) n]
    obtain F2 where F2: "forest so (set_root_for_empty_space g2 target n) F2"
      "items_of F2 = put_items target (mset (dt_items e)) (items_of F1)"
      using set_root_free [OF free(1) 1(4) free(2) _ free(3)] by auto
    obtain g3 F3 where "simplify_space so (set_root_for_empty_space g2 target n) target = Some g3" "forest so g3 F3" "items_of F3 = items_of F2"
      using simplify_space_changes [OF so F2(1)] by blast
    then show ?thesis
      using d Some n 1(1,3) F2(2) by (auto simp: move_tabs_to_empty_space_def move_items_def carried_tabs intro: effect_done)
  qed
qed

theorem float_tabs_effect:
  assumes so: "slot_laws so" and F: "forest so g F"
  shows "effect so (move_items source target (carried so g tabs) (items_of F)) (float_tabs_in_window so g source tabs target b)"
proof -
  obtain d g1 where d: "take_tabs_from_space_with_simplify so g source tabs True = Some (d, g1)"
    and taken: "case d of
       None \<Rightarrow> g1 = g
     | Some d \<Rightarrow> \<exists>F' selected. node so g tabs = Some (Tabs (dt_items d) selected) \<and> forest so g1 F' \<and>
       items_of F' = take_items source (mset (dt_items d)) (items_of F)"
    using take_tabs_forest [OF so F, of source tabs True] by (fastforce split: option.splits)
  show ?thesis
  proof (cases d)
    case None
    then show ?thesis using d taken F by (auto simp: float_tabs_in_window_def)
  next
    case (Some e)
    then obtain F1 selected where 1: "node so g tabs = Some (Tabs (dt_items e) selected)" "forest so g1 F1"
      "items_of F1 = take_items source (mset (dt_items e)) (items_of F)" using taken by auto
    obtain n g2 where n: "insert_detached_tabs so g1 e = (n, g2)" by fastforce
    note free = detached_free [OF so 1(2) n]
    obtain fl g3 where fl: "insert_node so g2 (Floating n) = (fl, g3)" by fastforce
    note new = insert_node_forest [OF so free(1) fl]
    let ?t = "TFloating fl (TTabs n (dt_items e) (dt_selected e))"
    have "n \<noteq> fl" using free(2) new(2) by auto
    then have t: "rep (node so g3) ?t" "distinct (ids ?t)" "\<And>k sp. k \<in> set (ids ?t) \<Longrightarrow> k \<notin> set (grove_ids (F1 sp))"
      using free(2,3) new(3,4) by auto
    let ?g = "push_floating g3 target \<lparr>fc_node = fl, fc_bounds = b\<rparr>"
    have F3: "forest so ?g (F1(target := add_floating ?t (F1 target)))"
      using push_floating_forest [OF new(1) t, of target b] by simp
    have items: "items_of (F1(target := add_floating ?t (F1 target))) = put_items target (mset (dt_items e)) (items_of F1)"
      by (auto simp: grove_add put_items_def fun_eq_iff)
    obtain g4 F4 where "simplify_space so ?g target = Some g4" "forest so g4 F4"
      "items_of F4 = put_items target (mset (dt_items e)) (items_of F1)"
      using simplify_space_changes [OF so F3] items by metis
    then show ?thesis
      using d Some n fl 1(1,3) by (auto simp: float_tabs_in_window_def move_items_def carried_tabs intro: effect_done)
  qed
qed


text \<open>A plan that fits the forest, whose split is one.\<close>

definition plan_ready :: "'s slot_ops \<Rightarrow> 's dock_graph \<Rightarrow> (space_id \<Rightarrow> grove) \<Rightarrow> space_id \<Rightarrow> drop_target \<Rightarrow> bool" where
  "plan_ready so g F sp target \<longleftrightarrow> (\<forall>plan. target = Edge plan \<longrightarrow> plan_fits F sp plan \<and>
     (\<forall>split zone anchor ai ii sizing scope.
        plan = InsertIntoSplit split zone anchor ai ii sizing scope \<longrightarrow> \<not> is_tabs (node so g split)))"

lemma plan_ready_ok: "plan_ready so g F sp target \<Longrightarrow> plan_ok F sp target"
  by (simp add: plan_ready_def plan_ok_def)

lemma move_tabs_edge_effect:
  assumes so: "slot_laws so" and F: "forest so g F" and plan: "plan_ready so g F target (Edge plan)"
  shows "effect so (move_items source target (carried so g tabs) (items_of F))
    (move_tabs_between_spaces so g source tabs target (Edge plan))"
proof -
  obtain d g1 where d: "take_tabs_from_space_with_simplify so g source tabs False = Some (d, g1)"
    and taken: "case d of
       None \<Rightarrow> g1 = g
     | Some d \<Rightarrow> \<exists>F' selected. node so g tabs = Some (Tabs (dt_items d) selected) \<and> forest so g1 F' \<and>
       items_of F' = take_items source (mset (dt_items d)) (items_of F) \<and>
       (\<forall>k sp'. k \<in> set (grove_ids (F sp')) \<longrightarrow> k \<noteq> tabs \<longrightarrow> k \<in> set (grove_ids (F' sp')))"
    using take_tabs_forest [OF so F, of source tabs False] by (fastforce split: option.splits)
  show ?thesis
  proof (cases d)
    case None
    then show ?thesis using d taken F by (auto simp: move_tabs_between_spaces_def)
  next
    case (Some e)
    then obtain F1 selected where 1: "node so g tabs = Some (Tabs (dt_items e) selected)" "forest so g1 F1"
      "items_of F1 = take_items source (mset (dt_items e)) (items_of F)"
      "\<And>k sp'. k \<in> set (grove_ids (F sp')) \<Longrightarrow> k \<noteq> tabs \<Longrightarrow> k \<in> set (grove_ids (F1 sp'))" using taken by auto
    have fits: "plan_fits F1 target plan"
    proof (cases plan)
      case (InsertIntoSplit split zone anchor ai ii sizing scope)
      then have "split \<in> set (grove_ids (F target))" "\<not> is_tabs (node so g split)" using plan by (auto simp: plan_ready_def plan_fits_def)
      then have "split \<in> set (grove_ids (F1 target))" using 1(1) by (intro 1(4)) (auto simp: is_tabs_iff)
      then show ?thesis using InsertIntoSplit by (simp add: plan_fits_def)
    qed (use plan in \<open>auto simp: plan_ready_def plan_fits_def\<close>)
    obtain n g2 where n: "insert_detached_tabs so g1 e = (n, g2)" by fastforce
    note free = detached_free [OF so 1(2) n]
    from dock_free_effect [OF so free(1) fits free(2) _ free(3), of source]
    show ?thesis using d Some n 1(1,3) by (simp add: move_tabs_between_spaces_def move_items_def carried_tabs)
  qed
qed

lemma empty_for_tabs_move:
  assumes F: "forest so g F" and tabs: "is_tabs (node so g tabs)"
  shows "\<exists>b. target_space_is_empty_for_tabs_move so g source tabs target = Some b \<and> (b \<longrightarrow> fst (F target) = None)"
proof -
  obtain items selected where "node so g tabs = Some (Tabs items selected)" using tabs by (auto simp: is_tabs_iff)
  then have "collect_items_in_subtree so g tabs = Some items" by (simp add: collect_items_in_subtree_def collect_items_into.simps)
  then show ?thesis
    using forest_linked [OF F, of target] collect_items_forest [OF F, of target]
    by (auto simp: target_space_is_empty_for_tabs_move_def linked_def)
qed

theorem move_tabs_effect:
  assumes so: "slot_laws so" and F: "forest so g F" and M: "items_apart (items_of F)"
    and tabs: "is_tabs (node so g tabs)" and plan: "plan_ready so g F target_space target"
  shows "effect so (move_items source target_space (carried so g tabs) (items_of F))
    (move_tabs_between_spaces so g source tabs target_space target)"
proof (cases target)
  case (Center t)
  then show ?thesis using merge_tabs_effect [OF so F M] by (simp add: move_tabs_between_spaces_def)
next
  case (TabBar t i)
  then show ?thesis using merge_tabs_effect [OF so F M] by (simp add: move_tabs_between_spaces_def)
next
  case (Edge p)
  then show ?thesis using move_tabs_edge_effect [OF so F] plan by simp
next
  case EmptySpace
  obtain b where b: "target_space_is_empty_for_tabs_move so g source tabs target_space = Some b" "b \<longrightarrow> fst (F target_space) = None"
    using empty_for_tabs_move [OF F tabs] by blast
  then show ?thesis
    using EmptySpace F move_tabs_empty_effect [OF so F, of target_space] by (cases b) (auto simp: move_tabs_between_spaces_def)
qed

section \<open>Floating containers\<close>

lemma set_floating_bounds_forest:
  assumes F: "forest so g F"
  shows "\<exists>ok g' F'. set_floating_bounds g sp floating b = (ok, g') \<and> forest so g' F' \<and> items_of F' = items_of F"
proof (cases "snd (set_floating_bounds g sp floating b) = g")
  case True
  then show ?thesis using F by (metis prod.collapse)
next
  case False
  then obtain i where i: "position (\<lambda>c. fc_node c = floating) (floating_containers g sp) = Some i"
    and run: "set_floating_bounds g sp floating b =
      (True, g\<lparr>dg_floatings := bt_modify sp (\<lambda>cs. cs[i := (cs ! i)\<lparr>fc_bounds := b\<rparr>]) (dg_floatings g)\<rparr>)"
    by (auto simp: set_floating_bounds_def split: option.splits if_splits)
  let ?g = "g\<lparr>dg_floatings := bt_modify sp (\<lambda>cs. cs[i := (cs ! i)\<lparr>fc_bounds := b\<rparr>]) (dg_floatings g)\<rparr>"
  have same: "map fc_node (cs[i := (cs ! i)\<lparr>fc_bounds := b\<rparr>]) = map fc_node cs" for cs :: "floating_container list"
    by (cases "i < length cs") (auto simp: map_update list_update_same_conv list_update_beyond)
  have "map fc_node (floating_containers ?g sp') = map fc_node (floating_containers g sp')" for sp'
    by (auto simp: floating_containers_def bt_simps same split: option.split)
  then have "forest so ?g F" using F by (auto simp: forest_def linked_def maps_ok_def bt_simps)
  then show ?thesis using run by blast
qed

lemma raise_floating_forest:
  assumes F: "forest so g F"
  shows "\<exists>ok g' F'. raise_floating g sp floating = (ok, g') \<and> forest so g' F' \<and> items_of F' = items_of F"
proof (cases "snd (raise_floating g sp floating) = g")
  case True
  then show ?thesis using F by (metis prod.collapse)
next
  case False
  let ?cs = "floating_containers g sp"
  from False obtain i where i: "position (\<lambda>c. fc_node c = floating) ?cs = Some i"
    and run: "raise_floating g sp floating =
      (True, g\<lparr>dg_floatings := bt_modify sp (\<lambda>cs. take i cs @ drop (i + 1) cs @ [cs ! i]) (dg_floatings g)\<rparr>)"
    by (auto simp: raise_floating_def split: option.splits if_splits)
  obtain r ws where p: "F sp = (r, ws)" by (cases "F sp")
  have link: "map fc_node ?cs = map tid ws" "root_of g sp = map_option tid r"
    using forest_linked [OF F, of sp] p by (simp_all add: linked_simps)
  have len: "i < length ?cs" using position_Some [OF i] by simp
  have len_ws: "i < length ws" using len arg_cong [OF link(1), of length] by simp
  let ?ws = "take i ws @ drop (i + 1) ws @ [ws ! i]"
  let ?g = "g\<lparr>dg_floatings := bt_modify sp (\<lambda>cs. take i cs @ drop (i + 1) cs @ [cs ! i]) (dg_floatings g)\<rparr>"
  have count: "mset (concat (map m ?ws)) = mset (concat (map m ws))" for m :: "dock_tree \<Rightarrow> 'x list"
  proof -
    have "mset (concat (map m ws)) = mset (concat (map m (take i ws @ ws ! i # drop (Suc i) ws)))"
      using len_ws by (simp only: id_take_nth_drop [symmetric])
    then show ?thesis by simp
  qed
  then have ids: "mset (grove_ids (r, ?ws)) = mset (grove_ids (F sp))" and items: "grove_items (r, ?ws) = grove_items (F sp)"
    using p count [of ids] count [of tree_items] by (simp_all add: grove_ids_def grove_items_def)
  have "forest so ?g (F(sp := (r, ?ws)))"
  proof (rule forest_update [OF F])
    have "fc_node (?cs ! i) = tid (ws ! i)" using len len_ws link(1) by (metis nth_map)
    then have "map fc_node (take i ?cs @ drop (i + 1) ?cs @ [?cs ! i]) = map tid ?ws"
      using link(1) by (simp add: take_map [symmetric] drop_map [symmetric])
    moreover have "floating_containers ?g sp = take i ?cs @ drop (i + 1) ?cs @ [?cs ! i]"
      using len by (cases "map_of (dg_floatings g) sp") (simp_all add: floating_containers_def bt_simps)
    ultimately show "linked ?g sp (r, ?ws)" using link(2) by (simp add: linked_simps)
    show "rep (node so ?g) t" if "t \<in> set (trees (r, ?ws))" for t
    proof -
      have "t \<in> set (trees (F sp))" using that p len_ws by (auto dest: in_set_takeD in_set_dropD)
      then show ?thesis using forest_rep [OF F] by simp
    qed
    show "distinct (grove_ids (r, ?ws))" using mset_eq_imp_distinct_iff [OF ids] forest_distinct [OF F] by simp
    show "k \<notin> set (grove_ids (F sp'))" if "sp' \<noteq> sp" "k \<in> set (grove_ids (r, ?ws))" for k sp'
      using that mset_eq_setD [OF ids] forest_apart [OF F, of sp sp' k] by simp
  qed (use maps_ok_forest [OF F] in \<open>auto simp: maps_ok_def bt_simps floating_containers_def\<close>)
  then show ?thesis using run items by (intro exI [of _ True] exI [of _ ?g] exI [of _ "F(sp := (r, ?ws))"]) (auto simp: fun_eq_iff)
qed


lemma floating_tree:
  assumes F: "forest so g F" and "floating_container_of g sp floating \<noteq> None"
  shows "\<exists>t \<in> set (trees (F sp)). tid t = floating"
proof -
  have "floating \<in> fc_node ` set (floating_containers g sp)" using assms(2) by (force simp: floating_container_of_def find_Some_iff)
  then have "floating \<in> set (map tid (snd (F sp)))"
    using forest_linked [OF F, of sp] by (metis linked_def list.set_map)
  then show ?thesis by (cases "F sp") auto
qed

text \<open>A floating container is taken out: its contents are free, the other nodes and items stay.\<close>

lemma take_floating_free:
  assumes F: "forest so g F" and taken: "take_floating_child_from_space so g sp floating = (Some child, g')"
  shows "\<exists>t F'. forest so g' F' \<and> rep (node so g') t \<and> tid t = child \<and> distinct (ids t) \<and> node so g' = node so g \<and>
    node so g floating = Some (Floating child) \<and>
    (\<forall>k \<in> set (ids t). \<forall>sp. k \<notin> set (grove_ids (F' sp))) \<and> items_of F' = take_items sp (mset (tree_items t)) (items_of F) \<and>
    mset (tree_items t) \<subseteq># items_of F sp \<and> carried so g floating = mset (tree_items t) \<and>
    (\<forall>sp. fst (F sp) = None \<longrightarrow> fst (F' sp) = None) \<and>
    (\<forall>k sp'. k \<in> set (grove_ids (F sp')) \<longrightarrow> k \<noteq> floating \<longrightarrow> k \<notin> set (ids t) \<longrightarrow> k \<in> set (grove_ids (F' sp'))) \<and>
    set (ids t) \<subseteq> set (grove_ids (F sp))"
proof -
  obtain t ws where t: "forest so g' (F(sp := (fst (F sp), ws)))" "rep (node so g) t" "tid t = child" "distinct (ids t)"
    "node so g' = node so g" "node so g floating = Some (Floating child)" "floating \<notin> set (ids t)"
    "grove_items (F sp) = mset (tree_items t) + grove_items (fst (F sp), ws)"
    "set (grove_ids (F sp)) = insert floating (set (ids t)) \<union> set (grove_ids (fst (F sp), ws))"
    "set (ids t) \<inter> set (grove_ids (fst (F sp), ws)) = {}"
    using take_floating_forest [OF F taken] by blast
  let ?F' = "F(sp := (fst (F sp), ws))"
  have "k \<notin> set (grove_ids (?F' sp'))" if "k \<in> set (ids t)" for k sp'
    using that t(9,10) forest_apart [OF F, of sp sp' k] by auto
  moreover have "items_of ?F' = take_items sp (mset (tree_items t)) (items_of F)"
    using t(8) by (auto simp: take_items_def fun_eq_iff)
  moreover have "carried so g floating = mset (tree_items t)"
    using carried_tree [of so g "TFloating floating t"] t(2,3,6) by simp
  ultimately show ?thesis using t by (intro exI [of _ t] exI [of _ ?F']) auto
qed

lemma merge_floating_effect:
  assumes so: "slot_laws so" and F: "forest so g F" and M: "items_apart (items_of F)"
    and floating: "node so g floating = Some (Floating child)"
    and tabs: "tabs \<in> set (grove_ids (F target))" and other: "\<And>t. rep (node so g) t \<Longrightarrow> tid t = floating \<Longrightarrow> tabs \<notin> set (ids t)"
  shows "effect so (move_items source target (carried so g floating) (items_of F))
    (merge_floating_tabs_into_tabs so g source floating child target tabs index)"
proof (cases "\<exists>items selected. is_tabs (node so g tabs) \<and> node so g child = Some (Tabs items selected) \<and> items \<noteq> []")
  case False
  then show ?thesis using F by (auto simp: merge_floating_tabs_into_tabs_def split: option.split dock_node.split bool.split)
next
  case True
  then obtain items selected where child: "is_tabs (node so g tabs)" "node so g child = Some (Tabs items selected)" "items \<noteq> []" by blast
  obtain c g1 where taken: "take_floating_child_from_space so g source floating = (c, g1)" by fastforce
  show ?thesis
  proof (cases c)
    case None
    then have "g1 = g" using taken by (auto simp: take_floating_child_from_space_def split: option.splits dock_node.splits)
    then show ?thesis using taken None child F by (auto simp: merge_floating_tabs_into_tabs_def is_tabs_def split: option.splits dock_node.splits)
  next
    case (Some c')
    from take_floating_free [OF F taken [unfolded Some]] obtain t F1 where t: "forest so g1 F1" "rep (node so g1) t" "tid t = c'"
      "node so g1 = node so g" "node so g floating = Some (Floating c')" "items_of F1 = take_items source (mset (tree_items t)) (items_of F)"
      "mset (tree_items t) \<subseteq># items_of F source" "carried so g floating = mset (tree_items t)"
      "\<And>k sp'. k \<in> set (grove_ids (F sp')) \<Longrightarrow> k \<noteq> floating \<Longrightarrow> k \<notin> set (ids t) \<Longrightarrow> k \<in> set (grove_ids (F1 sp'))" by blast
    have c': "c' = child" using t(5) floating by simp
    then have tree: "t = TTabs child items selected" using t(2-4) child(2) rep_get [of "node so g" t] by (cases t) auto
    have "tabs \<notin> set (ids (TFloating floating t))" using other [of "TFloating floating t"] t(2-5) by simp
    then have tabs1: "tabs \<in> set (grove_ids (F1 target))" using t(9) [OF tabs] by simp
    have sub: "mset items \<subseteq># items_of F source" using t(7) tree by simp
    have gone: "x \<notin># items_of F1 target" if "x \<in> set items" for x
      using items_apart_gone_all [OF M sub, of x target] that t(6) tree by (simp add: fun_eq_iff)
    obtain g2 F2 where 2: "insert_items_into_tabs_at so g1 tabs items index (selected_item items selected) = (True, g2)" "forest so g2 F2"
      "items_of F2 = put_items target (mset items) (items_of F1)"
      using insert_items_absent [OF so t(1) tabs1 _ items_apart_distinct [OF M sub] gone] child(1) t(4) by metis
    then have "items_of F2 = move_items source target (carried so g floating) (items_of F)"
      using t(6,8) tree by (simp add: move_items_def)
    from settle_if_effect [OF so 2(2), of True, OF this] show ?thesis
      using taken Some child 2(1) by (simp add: merge_floating_tabs_into_tabs_def)
  qed
qed

theorem move_floating_effect:
  assumes so: "slot_laws so" and F: "forest so g F" and M: "items_apart (items_of F)" and plan: "plan_ready so g F target_space target"
  shows "effect so (move_items source target_space (carried so g floating) (items_of F))
    (move_floating_between_spaces so g source floating target_space target)"
proof (cases "floating_container_of g source floating = None")
  case True
  then show ?thesis using F by (auto simp: move_floating_between_spaces_def)
next
  case False
  obtain tf where tf: "tf \<in> set (trees (F source))" "tid tf = floating" using floating_tree [OF F False] by blast
  have rep_tf: "rep (node so g) tf" using forest_rep [OF F tf(1)] .
  have tf_ids: "set (ids tf) \<subseteq> set (grove_ids (F source))" using tf(1) by (auto simp: grove_ids_tree)
  let ?lost = "case existing_node target of Some n \<Rightarrow> n \<notin> set (grove_ids (F target_space)) | None \<Rightarrow> False"
  let ?own = "case existing_node target of Some n \<Rightarrow> n \<in> set (grove_ids (F target_space)) \<and> source = target_space \<and> n \<in> set (ids tf) | None \<Rightarrow> False"
  have lost: "(case existing_node target of
      Some n \<Rightarrow> do { r \<leftarrow> root_for_node_in_space so g target_space n; Some (r = None) } | None \<Rightarrow> Some False) = Some ?lost"
  proof (cases "existing_node target")
    case (Some n)
    then show ?thesis using root_for_node_iff [OF F, of target_space n] by auto
  qed simp
  have own: "(case existing_node target of
      Some n \<Rightarrow> if \<not> ?lost \<and> source = target_space then subtree_contains so g n floating else Some False
    | None \<Rightarrow> Some False) = Some ?own"
    using subtree_contains_tree [OF rep_tf] tf(2) by (cases "existing_node target") auto
  show ?thesis
  proof (cases "?lost \<or> ?own")
    case True
    then show ?thesis using False lost own F by (auto simp: move_floating_between_spaces_def)
  next
    case free: False
    have there: "n \<in> set (grove_ids (F target_space)) \<and> n \<notin> set (ids tf)" if "existing_node target = Some n" for n
      using free that tf_ids forest_apart [OF F, of target_space source n] by auto
    have other: "n \<notin> set (ids t)" if "existing_node target = Some n" "rep (node so g) t" "tid t = floating" for n t
      using there [OF that(1)] rep_unique [OF that(2) rep_tf] that(3) tf(2) by simp
    show ?thesis
    proof (cases target)
      case (Center t)
      show ?thesis
      proof (cases "\<exists>child. node so g floating = Some (Floating child)")
        case True
        then obtain child where child: "node so g floating = Some (Floating child)" by blast
        then obtain tc where "rep (node so g) tc" "tid tc = child" using rep_tf tf(2) by (cases tf) auto
        then have "\<exists>b. is_visible_split_payload so g child = Some b" using is_visible_tree by blast
        then show ?thesis
          using False lost own free Center child F merge_floating_effect [OF so F M child, of t target_space source None] there other
          by (auto simp: move_floating_between_spaces_def)
      next
        case no: False
        then show ?thesis using False lost own free Center F
          by (auto simp: move_floating_between_spaces_def split: option.split dock_node.split)
      qed
    next
      case (TabBar t i)
      show ?thesis
      proof (cases "\<exists>child. node so g floating = Some (Floating child)")
        case True
        then obtain child where child: "node so g floating = Some (Floating child)" by blast
        then show ?thesis
          using False lost own free TabBar F merge_floating_effect [OF so F M child, of t target_space source "Some i"] there other
          by (auto simp: move_floating_between_spaces_def)
      next
        case no: False
        then show ?thesis using False lost own free TabBar F
          by (auto simp: move_floating_between_spaces_def split: option.split dock_node.split)
      qed
    next
      case (Edge p)
      obtain c g1 where taken: "take_floating_child_from_space so g source floating = (c, g1)" by fastforce
      show ?thesis
      proof (cases c)
        case None
        then have "g1 = g" using taken by (auto simp: take_floating_child_from_space_def split: option.splits dock_node.splits)
        then show ?thesis using False lost own free Edge taken None F by (auto simp: move_floating_between_spaces_def)
      next
        case (Some child)
        from take_floating_free [OF F taken [unfolded Some]] obtain t F1 where t: "forest so g1 F1" "rep (node so g1) t" "tid t = child"
          "distinct (ids t)" "node so g1 = node so g" "node so g floating = Some (Floating child)"
          "\<And>k sp. k \<in> set (ids t) \<Longrightarrow> k \<notin> set (grove_ids (F1 sp))"
          "items_of F1 = take_items source (mset (tree_items t)) (items_of F)" "carried so g floating = mset (tree_items t)"
          "\<And>k sp'. k \<in> set (grove_ids (F sp')) \<Longrightarrow> k \<noteq> floating \<Longrightarrow> k \<notin> set (ids t) \<Longrightarrow> k \<in> set (grove_ids (F1 sp'))" by blast
        have "tf = TFloating floating t"
          using rep_unique [of "node so g" tf "TFloating floating t"] rep_tf tf(2) t(2,3,5,6) by simp
        then have "k \<in> set (grove_ids (F1 target_space))" if "target_node p = k" for k
          using there [of k] t(10) [of k target_space] that Edge by auto
        then have "plan_fits F1 target_space p" using plan Edge by (cases p) (auto simp: plan_ready_def plan_fits_def)
        from dock_free_effect [OF so t(1) this t(2,4,7), of source]
        show ?thesis using False lost own free Edge taken Some t(3,8,9)
          by (auto simp: move_floating_between_spaces_def move_items_def)
      qed
    next
      case EmptySpace
      show ?thesis
      proof (cases "target_space_is_empty_for_floating_move g source floating target_space")
        case no: False
        then show ?thesis using False lost own free EmptySpace F
          by (auto simp: move_floating_between_spaces_def move_floating_to_empty_space_def)
      next
        case True
        then have empty: "fst (F target_space) = None" using forest_linked [OF F, of target_space]
          by (simp add: target_space_is_empty_for_floating_move_def linked_def)
        obtain c g1 where taken: "take_floating_child_from_space so g source floating = (c, g1)" by fastforce
        show ?thesis
        proof (cases c)
          case None
          then have "g1 = g" using taken by (auto simp: take_floating_child_from_space_def split: option.splits dock_node.splits)
          then show ?thesis using False lost own free EmptySpace True taken None F
            by (auto simp: move_floating_between_spaces_def move_floating_to_empty_space_def)
        next
          case (Some child)
          from take_floating_free [OF F taken [unfolded Some]] obtain t F1 where t: "forest so g1 F1" "rep (node so g1) t" "tid t = child"
            "distinct (ids t)" "\<And>k sp. k \<in> set (ids t) \<Longrightarrow> k \<notin> set (grove_ids (F1 sp))"
            "items_of F1 = take_items source (mset (tree_items t)) (items_of F)" "carried so g floating = mset (tree_items t)"
            "\<forall>sp. fst (F sp) = None \<longrightarrow> fst (F1 sp) = None" by blast
          obtain F2 where F2: "forest so (set_root_for_empty_space g1 target_space child) F2"
            "items_of F2 = put_items target_space (mset (tree_items t)) (items_of F1)"
            using set_root_free [OF t(1) _ t(2,4,5), of target_space] t(3,8) empty by auto
          have "items_of F2 = move_items source target_space (carried so g floating) (items_of F)"
            using F2(2) t(6,7) by (simp add: move_items_def)
          from settle_effect [OF so F2(1), of True, OF this] show ?thesis
            using False lost own free EmptySpace True taken Some
            by (auto simp: move_floating_between_spaces_def move_floating_to_empty_space_def)
        qed
      qed
    qed
  qed
qed

end
