(* ===== verification/Dock_Valid.thy ===== *)
theory Dock_Valid
  imports Dock_Group_Moves
begin

text \<open>
  Validation: it ends on every graph, and accepts exactly the graphs whose spaces hold well-formed trees on nodes of their own, no
  item twice, floating containers with proper bounds and central regions inside their root.
\<close>

section \<open>Valid trees\<close>

fun valid_tree :: "dock_tree \<Rightarrow> bool" where
  "valid_tree (TTabs n items selected) \<longleftrightarrow> items \<noteq> [] \<and> (\<exists>s. selected = Some s \<and> s \<in> set items)"
| "valid_tree (TFloating n t) \<longleftrightarrow> valid_tree t"
| "valid_tree (TSplit n axis ts fs) \<longleftrightarrow> 2 \<le> length ts \<and> length ts = length fs \<and> (\<forall>f \<in> set fs. \<not> invalid_fraction f) \<and>
     (\<forall>t \<in> set ts. valid_tree t)"

text \<open>The trees pass in the state \<open>v\<close> of the validator, and lead to the state \<open>v'\<close>.\<close>

definition pass :: "(node_id \<rightharpoonup> dock_node) \<Rightarrow> validator \<Rightarrow> dock_tree list \<Rightarrow> bool" where
  "pass get v ts \<longleftrightarrow> (\<forall>t \<in> set ts. rep get t \<and> valid_tree t) \<and>
     distinct (concat (map ids ts)) \<and> set (concat (map ids ts)) \<inter> dom (fst v) = {} \<and>
     distinct (concat (map tree_items ts)) \<and> set (concat (map tree_items ts)) \<inter> dom (snd v) = {}"

definition adds :: "validator \<Rightarrow> dock_tree list \<Rightarrow> validator \<Rightarrow> bool" where
  "adds v ts v' \<longleftrightarrow> dom (fst v') = dom (fst v) \<union> set (concat (map ids ts)) \<and>
     dom (snd v') = dom (snd v) \<union> set (concat (map tree_items ts))"

lemma pass_Cons: "adds v [t] v' \<Longrightarrow> pass get v (t # ts) \<longleftrightarrow> pass get v [t] \<and> pass get v' ts"
  unfolding pass_def adds_def by auto

lemma adds_Cons: "adds v [t] v1 \<Longrightarrow> adds v1 ts v' \<Longrightarrow> adds v (t # ts) v'"
  unfolding adds_def by auto

lemma pass_Nil [simp]: "pass get v []" and adds_Nil: "adds v [] v' \<longleftrightarrow> dom (fst v') = dom (fst v) \<and> dom (snd v') = dom (snd v)"
  by (auto simp: pass_def adds_def)

lemma insert_items_returns:
  "case insert_items n items seen of
     Inr seen' \<Rightarrow> distinct items \<and> set items \<inter> dom seen = {} \<and> dom seen' = dom seen \<union> set items
   | Inl e \<Rightarrow> \<not> (distinct items \<and> set items \<inter> dom seen = {})"
proof (induction items arbitrary: seen)
  case (Cons item items)
  show ?case
  proof (cases "seen item")
    case None
    show ?thesis
    proof (cases "insert_items n items (seen(item \<mapsto> n))")
      case (Inl e)
      then have "\<not> (distinct items \<and> set items \<inter> dom (seen(item \<mapsto> n)) = {})" using Inl Cons.IH [of "seen(item \<mapsto> n)"] by (simp only: sum.case simp_thms)
      then show ?thesis using None Inl by auto
    next
      case (Inr seen')
      then have "distinct items \<and> set items \<inter> dom (seen(item \<mapsto> n)) = {} \<and> dom seen' = dom (seen(item \<mapsto> n)) \<union> set items"
        using Inr Cons.IH [of "seen(item \<mapsto> n)"] by (simp only: sum.case simp_thms)
      then show ?thesis using None Inr by (auto simp: domIff)
    qed
  qed auto
qed simp

lemma validate_tabs_returns:
  "case validate_tabs n items selected seen of
     Inr seen' \<Rightarrow> valid_tree (TTabs n items selected) \<and> distinct items \<and> set items \<inter> dom seen = {} \<and> dom seen' = dom seen \<union> set items
   | Inl e \<Rightarrow> \<not> (valid_tree (TTabs n items selected) \<and> distinct items \<and> set items \<inter> dom seen = {})"
  using insert_items_returns [where n = n and items = items and seen = seen]
  by (cases selected) (auto simp: validate_tabs_def split: sum.splits)

lemma validate_split_returns:
  "validate_split n children fs = Inr u \<longleftrightarrow>
     2 \<le> length children \<and> length children = length fs \<and> (\<forall>f \<in> set fs. \<not> invalid_fraction f)"
  using position_None [of invalid_fraction fs] by (auto simp: validate_split_def split: option.split)

section \<open>The walk\<close>

lemma validate_complete:
  "pass (node so g) v [t] \<Longrightarrow> \<exists>v'. validate_subtree so g (tid t) v = Some (Inr v') \<and> adds v [t] v'"
proof (induction t arbitrary: v)
  case (TTabs n items selected)
  then show ?case
    using validate_tabs_returns [where n = n and items = items and selected = selected and seen = "snd v"]
    by (subst validate_subtree.simps) (auto simp: pass_def adds_def mark_done_def domIff split: sum.splits option.split)
next
  case (TFloating n t)
  let ?v1 = "((fst v)(n \<mapsto> Visiting), snd v)"
  have "pass (node so g) ?v1 [t]" using TFloating.prems by (auto simp: pass_def)
  from TFloating.IH [OF this] obtain v' where "validate_subtree so g (tid t) ?v1 = Some (Inr v')" "adds ?v1 [t] v'" by blast
  then show ?case using TFloating.prems
    by (subst validate_subtree.simps) (cases v', auto simp: pass_def adds_def mark_done_def domIff split: option.split)
next
  case (TSplit n axis ts fs)
  let ?v1 = "((fst v)(n \<mapsto> Visiting), snd v)"
  have loop: "\<exists>v'. try_for_p (validate_subtree so g) (map tid us) w = Some (Inr v') \<and> adds w us v'"
    if "set us \<subseteq> set ts" "pass (node so g) w us" for us w
    using that
  proof (induction us arbitrary: w)
    case (Cons t us)
    have "pass (node so g) w [t]" using Cons.prems(2) by (auto simp: pass_def)
    then obtain w' where w': "validate_subtree so g (tid t) w = Some (Inr w')" "adds w [t] w'" using TSplit.IH [of t w] Cons.prems(1) by auto
    then have "pass (node so g) w' us" using Cons.prems(2) pass_Cons by blast
    moreover have "set us \<subseteq> set ts" using Cons.prems(1) by simp
    ultimately obtain v' where "try_for_p (validate_subtree so g) (map tid us) w' = Some (Inr v')" "adds w' us v'"
      using Cons.IH by blast
    then show ?case using w' adds_Cons [OF w'(2)] by simp
  qed (simp add: adds_Nil)
  have "pass (node so g) ?v1 ts" using TSplit.prems by (auto simp: pass_def)
  from loop [OF subset_refl this] obtain v' where v': "try_for_p (validate_subtree so g) (map tid ts) ?v1 = Some (Inr v')" "adds ?v1 ts v'" by blast
  have "fst v n = None" "node so g n = Some (Split axis (map tid ts) fs)" "\<exists>u. validate_split n (map tid ts) fs = Inr u"
    using TSplit.prems by (auto simp: pass_def domIff validate_split_returns)
  then show ?case using v'
    by (subst validate_subtree.simps) (cases v', auto simp: adds_def mark_done_def)
qed

abbreviation unseen :: "'s slot_ops \<Rightarrow> 's dock_graph \<Rightarrow> validator \<Rightarrow> nat" where
  "unseen so g v \<equiv> card (stored so (dg_nodes g) - dom (fst v))"

definition sound_at :: "'s slot_ops \<Rightarrow> 's dock_graph \<Rightarrow> node_id list \<Rightarrow> validator \<Rightarrow> (graph_error + validator) panics \<Rightarrow> bool" where
  "sound_at so g ns v r \<longleftrightarrow> (\<exists>x. r = Some x \<and>
     (\<forall>v'. x = Inr v' \<longrightarrow> (\<exists>ts. map tid ts = ns \<and> pass (node so g) v ts \<and> adds v ts v')))"

lemma sound_loop:
  assumes "\<And>n w. dom (fst v) \<subseteq> dom (fst w) \<Longrightarrow> sound_at so g [n] w (validate_subtree so g n w)"
  shows "dom (fst v) \<subseteq> dom (fst w) \<Longrightarrow> sound_at so g ns w (try_for_p (validate_subtree so g) ns w)"
proof (induction ns arbitrary: w)
  case Nil
  then show ?case by (simp add: sound_at_def adds_Nil)
next
  case (Cons n ns)
  obtain x where x: "validate_subtree so g n w = Some x"
    "\<And>v'. x = Inr v' \<Longrightarrow> \<exists>ts. map tid ts = [n] \<and> pass (node so g) w ts \<and> adds w ts v'"
    using assms [OF Cons.prems, of n] unfolding sound_at_def by blast
  show ?case
  proof (cases x)
    case (Inl e)
    then show ?thesis using x(1) by (simp add: sound_at_def)
  next
    case (Inr w')
    then obtain t where t: "tid t = n" "pass (node so g) w [t]" "adds w [t] w'" using x(2) by fastforce
    then have "dom (fst v) \<subseteq> dom (fst w')" using Cons.prems by (auto simp: adds_def)
    from Cons.IH [OF this] obtain y where y: "try_for_p (validate_subtree so g) ns w' = Some y"
      "\<And>v'. y = Inr v' \<Longrightarrow> \<exists>ts. map tid ts = ns \<and> pass (node so g) w' ts \<and> adds w' ts v'"
    unfolding sound_at_def by blast
    have "\<exists>us. map tid us = n # ns \<and> pass (node so g) w us \<and> adds w us v'" if out: "y = Inr v'" for v'
    proof -
      obtain ts where ts: "map tid ts = ns" "pass (node so g) w' ts" "adds w' ts v'" using y(2) [OF out] by blast
      have "pass (node so g) w (t # ts)" using pass_Cons [OF t(3)] t(2) ts(2) by blast
      then show ?thesis using t(1) ts(1) adds_Cons [OF t(3) ts(3)] by (intro exI [of _ "t # ts"] conjI) simp_all
    qed
    then show ?thesis using x(1) Inr y(1) by (simp add: sound_at_def)
  qed
qed

theorem validate_sound:
  assumes so: "slot_laws so"
  shows "sound_at so g [n] v (validate_subtree so g n v)"
proof (induction "unseen so g v" arbitrary: n v rule: less_induct)
  case less
  have fin: "finite (stored so (dg_nodes g))" using so by (metis List.finite_set slot_laws_def)
  let ?v1 = "((fst v)(n \<mapsto> Visiting), snd v)"
  have sub: "sound_at so g [k] w (validate_subtree so g k w)"
    if "node so g n \<noteq> None" "fst v n = None" "dom (fst ?v1) \<subseteq> dom (fst w)" for k w
  proof (rule less)
    have "stored so (dg_nodes g) - dom (fst w) \<subset> stored so (dg_nodes g) - dom (fst v)" using that by (auto simp: domIff)
    then show "unseen so g w < unseen so g v" using fin by (simp add: psubset_card_mono)
  qed
  show ?case
  proof (cases "fst v n")
    case (Some m)
    then show ?thesis by (cases m) (simp_all add: validate_subtree.simps sound_at_def)
  next
    case fresh: None
    show ?thesis
    proof (cases "node so g n")
      case None
      then show ?thesis using fresh by (simp add: validate_subtree.simps sound_at_def)
    next
      case (Some x)
      show ?thesis
      proof (cases x)
        case (Tabs items selected)
        have "\<exists>ts. map tid ts = [n] \<and> pass (node so g) v ts \<and> adds v ts v'"
          if "mark_done n (Inr (fst ?v1, seen)) = Inr v'" "validate_tabs n items selected (snd v) = Inr seen" for seen v'
        proof -
          have tree: "valid_tree (TTabs n items selected)" "distinct items" "set items \<inter> dom (snd v) = {}" "dom seen = dom (snd v) \<union> set items"
            using validate_tabs_returns [where n = n and items = items and selected = selected and seen = "snd v"] that(2) by simp_all
          have "pass (node so g) v [TTabs n items selected]" using tree(1-3) fresh Some Tabs by (simp add: pass_def domIff)
          moreover have "v' = ((fst v)(n \<mapsto> Done), seen)" using that(1) by (simp add: mark_done_def)
          then have "adds v [TTabs n items selected] v'" by (simp add: adds_def tree(4))
          ultimately show ?thesis by (intro exI [of _ "[TTabs n items selected]"]) simp
        qed
        then show ?thesis using fresh Some Tabs by (subst validate_subtree.simps) (auto simp: sound_at_def split: sum.split)
      next
        case (Floating child)
        obtain y where y: "validate_subtree so g child ?v1 = Some y"
          "\<And>v'. y = Inr v' \<Longrightarrow> \<exists>ts. map tid ts = [child] \<and> pass (node so g) ?v1 ts \<and> adds ?v1 ts v'"
          using sub [of ?v1 child] Some fresh unfolding sound_at_def by blast
        have "\<exists>ts. map tid ts = [n] \<and> pass (node so g) v ts \<and> adds v ts v'" if marked: "mark_done n y = Inr v'" for v'
        proof -
          obtain w where w: "y = Inr w" "v' = ((fst w)(n \<mapsto> Done), snd w)" using marked by (cases y) (auto simp: mark_done_def)
          then obtain t where "tid t = child" "pass (node so g) ?v1 [t]" "adds ?v1 [t] w" using y(2) by fastforce
          then show ?thesis using Some Floating fresh w(2)
            by (intro exI [of _ "[TFloating n t]"]) (auto simp: pass_def adds_def domIff)
        qed
        then show ?thesis using fresh Some Floating y(1) by (subst validate_subtree.simps) (simp add: sound_at_def)
      next
        case (Split axis children fs)
        obtain y where y: "try_for_p (validate_subtree so g) children ?v1 = Some y"
          "\<And>v'. y = Inr v' \<Longrightarrow> \<exists>ts. map tid ts = children \<and> pass (node so g) ?v1 ts \<and> adds ?v1 ts v'"
          using sound_loop [OF sub, of ?v1 ?v1 children] Some fresh unfolding sound_at_def by blast
        have "\<exists>us. map tid us = [n] \<and> pass (node so g) v us \<and> adds v us v'"
          if marked: "mark_done n y = Inr v'" and split: "validate_split n children fs = Inr u" for v' u
        proof -
          obtain w where w: "y = Inr w" "v' = ((fst w)(n \<mapsto> Done), snd w)" using marked by (cases y) (auto simp: mark_done_def)
          then obtain ts where ts: "map tid ts = children" "pass (node so g) ?v1 ts" "adds ?v1 ts w" using y(2) by fastforce
          then have "length ts = length children" by auto
          then show ?thesis using Some Split fresh w(2) ts split
            by (intro exI [of _ "[TSplit n axis ts fs]"]) (auto simp: pass_def adds_def domIff validate_split_returns)
        qed
        then show ?thesis using fresh Some Split y(1)
          by (subst validate_subtree.simps) (auto simp: sound_at_def split: sum.split)
      qed
    qed
  qed
qed


section \<open>Sums over the spaces\<close>

lemma distinct_count: "distinct xs \<longleftrightarrow> (\<forall>x. count (mset xs) x \<le> 1)"
proof
  assume small: "\<forall>x. count (mset xs) x \<le> 1"
  have "count (mset xs) x = (if x \<in> set xs then 1 else 0)" for x
  proof (cases "x \<in> set xs")
    case True
    then have "0 < count (mset xs) x" by simp
    with small have "count (mset xs) x = 1" by (metis One_nat_def Suc_leI le_antisym)
    with True show ?thesis by simp
  qed simp
  then show "distinct xs" by (simp add: distinct_count_atmost_1)
qed (auto simp: distinct_count_atmost_1)

lemma disjoint_insert_family:
  assumes "k \<notin> A"
  shows "(\<forall>j\<in>insert k A. \<forall>j'\<in>insert k A. j \<noteq> j' \<longrightarrow> S j \<inter> S j' = {}) \<longleftrightarrow>
    (\<forall>j\<in>A. \<forall>j'\<in>A. j \<noteq> j' \<longrightarrow> S j \<inter> S j' = {}) \<and> (\<forall>x. \<not> (x \<in> S k \<and> (\<exists>j\<in>A. x \<in> S j)))"
proof (intro iffI conjI)
  assume all: "\<forall>j\<in>insert k A. \<forall>j'\<in>insert k A. j \<noteq> j' \<longrightarrow> S j \<inter> S j' = {}"
  then show "\<forall>j\<in>A. \<forall>j'\<in>A. j \<noteq> j' \<longrightarrow> S j \<inter> S j' = {}" by simp
  have "S k \<inter> S j = {}" if "j \<in> A" for j using all assms that by (metis insert_iff)
  then show "\<forall>x. \<not> (x \<in> S k \<and> (\<exists>j\<in>A. x \<in> S j))" by blast
next
  assume parts: "(\<forall>j\<in>A. \<forall>j'\<in>A. j \<noteq> j' \<longrightarrow> S j \<inter> S j' = {}) \<and> (\<forall>x. \<not> (x \<in> S k \<and> (\<exists>j\<in>A. x \<in> S j)))"
  show "\<forall>j\<in>insert k A. \<forall>j'\<in>insert k A. j \<noteq> j' \<longrightarrow> S j \<inter> S j' = {}"
  proof (intro ballI impI)
    fix j j' assume "j \<in> insert k A" "j' \<in> insert k A" "j \<noteq> j'"
    then consider "j = k" "j' \<in> A" | "j' = k" "j \<in> A" | "j \<in> A" "j' \<in> A" by blast
    then show "S j \<inter> S j' = {}" using parts \<open>j \<noteq> j'\<close> by cases blast+
  qed
qed

lemma count_sum_apart:
  fixes M :: "'k \<Rightarrow> 'a multiset"
  assumes "finite A"
  shows "(\<forall>x. count (\<Sum>k\<in>A. M k) x \<le> 1) \<longleftrightarrow> (\<forall>k\<in>A. \<forall>x. count (M k) x \<le> 1) \<and>
    (\<forall>k\<in>A. \<forall>k'\<in>A. k \<noteq> k' \<longrightarrow> set_mset (M k) \<inter> set_mset (M k') = {})"
  using assms
proof (induction A rule: finite_induct)
  case (insert k A)
  have both: "count (X + Y) x \<le> 1 \<longleftrightarrow> count X x \<le> 1 \<and> count Y x \<le> 1 \<and> \<not> (x \<in># X \<and> x \<in># Y)" for X Y :: "'a multiset" and x
    unfolding count_union count_greater_zero_iff [symmetric] by arith
  have member: "x \<in># (\<Sum>k\<in>A. M k) \<longleftrightarrow> (\<exists>k\<in>A. x \<in># M k)" for x using insert.hyps(1) by (simp add: set_mset_sum)
  have "(\<forall>x. count (\<Sum>k\<in>insert k A. M k) x \<le> 1) \<longleftrightarrow> (\<forall>x. count (M k) x \<le> 1) \<and> (\<forall>x. count (\<Sum>k\<in>A. M k) x \<le> 1) \<and>
      (\<forall>x. \<not> (x \<in># M k \<and> x \<in># (\<Sum>k\<in>A. M k)))"
    unfolding sum.insert [OF insert.hyps] both by blast
  also have "\<dots> \<longleftrightarrow> (\<forall>j\<in>insert k A. \<forall>x. count (M j) x \<le> 1) \<and>
      (\<forall>j\<in>insert k A. \<forall>k'\<in>insert k A. j \<noteq> k' \<longrightarrow> set_mset (M j) \<inter> set_mset (M k') = {})"
    unfolding insert.IH member disjoint_insert_family [OF insert.hyps(2)] by auto
  finally show ?case .
qed simp

lemma bt_sum:
  fixes f :: "'v \<Rightarrow> 'a multiset"
  assumes "bt_ok m" and "finite A" and "fst ` set m \<subseteq> A"
  shows "(\<Sum>e\<leftarrow>m. f (snd e)) = (\<Sum>k\<in>A. case map_of m k of Some v \<Rightarrow> f v | None \<Rightarrow> {#})"
  using assms
proof (induction m)
  case (Cons e m)
  have e: "fst e \<in> A" "map_of m (fst e) = None" using Cons.prems by (auto simp: bt_ok_Cons map_of_eq_None_iff)
  have IH: "(\<Sum>e\<leftarrow>m. f (snd e)) = (\<Sum>k\<in>A. case map_of m k of Some v \<Rightarrow> f v | None \<Rightarrow> {#})"
    using Cons.prems by (intro Cons.IH) (auto simp: bt_ok_Cons)
  have "(\<Sum>k\<in>A. case map_of (e # m) k of Some v \<Rightarrow> f v | None \<Rightarrow> {#}) =
      f (snd e) + (\<Sum>k\<in>A - {fst e}. case map_of (e # m) k of Some v \<Rightarrow> f v | None \<Rightarrow> {#})"
    using Cons.prems(2) e(1) by (cases e) (simp add: sum.remove [of A "fst e"])
  also have "(\<Sum>k\<in>A - {fst e}. case map_of (e # m) k of Some v \<Rightarrow> f v | None \<Rightarrow> {#}) =
      (\<Sum>k\<in>A - {fst e}. case map_of m k of Some v \<Rightarrow> f v | None \<Rightarrow> {#})"
    by (cases e) (auto intro: sum.cong)
  also have "\<dots> = (\<Sum>k\<in>A. case map_of m k of Some v \<Rightarrow> f v | None \<Rightarrow> {#})"
    using Cons.prems(2) e by (simp add: sum.remove [of A "fst e"])
  finally show ?case using IH by simp
qed simp

text \<open>The trees of all spaces, in the order of the maps.\<close>

definition tree_at :: "'s slot_ops \<Rightarrow> 's dock_graph \<Rightarrow> node_id \<Rightarrow> dock_tree" where
  "tree_at so g n = tree_of (node so g) n"

definition grove_at :: "'s slot_ops \<Rightarrow> 's dock_graph \<Rightarrow> space_id \<Rightarrow> grove" where
  "grove_at so g sp = (map_option (tree_at so g) (root_of g sp), map (tree_at so g) (map fc_node (floating_containers g sp)))"

definition live_trees :: "'s slot_ops \<Rightarrow> 's dock_graph \<Rightarrow> dock_tree list" where
  "live_trees so g = map (tree_at so g) (map snd (dg_roots g)) @ map (tree_at so g) (map (\<lambda>e. fc_node (snd e)) (floating_entries g))"

lemma mset_concat_sum: "mset (concat (map m xs)) = (\<Sum>x\<leftarrow>xs. mset (m x))"
  by (induction xs) simp_all

lemma entries_measure:
  "mset (concat (map (\<lambda>e. f (snd e)) (concat (map (\<lambda>(space, cs). map (Pair space) cs) fs)))) = (\<Sum>e\<leftarrow>fs. mset (concat (map f (snd e))))"
  by (induction fs) (auto simp: comp_def)

lemma set_spaces: "set (spaces g) = fst ` set (dg_roots g) \<union> fst ` set (dg_floatings g) \<union> fst ` set (dg_central g)"
  by (auto simp: spaces_def)

lemma live_trees_measure:
  assumes "maps_ok g"
  shows "mset (concat (map m (live_trees so g))) = (\<Sum>sp\<in>set (spaces g). mset (concat (map m (trees (grove_at so g sp)))))"
proof -
  let ?A = "set (spaces g)" and ?T = "tree_at so g"
  have "mset (concat (map m (map ?T (map snd (dg_roots g))))) = (\<Sum>e\<leftarrow>dg_roots g. mset (m (?T (snd e))))"
    by (simp add: mset_concat_sum comp_def)
  also have "\<dots> = (\<Sum>sp\<in>?A. case root_of g sp of Some n \<Rightarrow> mset (m (?T n)) | None \<Rightarrow> {#})"
    using assms by (intro bt_sum) (auto simp: maps_ok_def set_spaces)
  finally have roots: "mset (concat (map m (map ?T (map snd (dg_roots g))))) =
      (\<Sum>sp\<in>?A. case root_of g sp of Some n \<Rightarrow> mset (m (?T n)) | None \<Rightarrow> {#})" .
  have "mset (concat (map m (map ?T (map (\<lambda>e. fc_node (snd e)) (floating_entries g))))) =
      (\<Sum>e\<leftarrow>dg_floatings g. mset (concat (map m (map ?T (map fc_node (snd e))))))"
    unfolding floating_entries_def using entries_measure [where f = "\<lambda>c. m (?T (fc_node c))"] by (simp add: comp_def)
  also have "\<dots> = (\<Sum>sp\<in>?A. case map_of (dg_floatings g) sp of Some cs \<Rightarrow> mset (concat (map m (map ?T (map fc_node cs)))) | None \<Rightarrow> {#})"
    using assms by (intro bt_sum) (auto simp: maps_ok_def set_spaces)
  also have "\<dots> = (\<Sum>sp\<in>?A. mset (concat (map m (map ?T (map fc_node (floating_containers g sp))))))"
    by (intro sum.cong) (auto simp: floating_containers_def split: option.split)
  finally have "mset (concat (map m (live_trees so g))) =
      (\<Sum>sp\<in>?A. case root_of g sp of Some n \<Rightarrow> mset (m (?T n)) | None \<Rightarrow> {#}) +
      (\<Sum>sp\<in>?A. mset (concat (map m (map ?T (map fc_node (floating_containers g sp))))))"
    using roots by (simp add: live_trees_def)
  also have "\<dots> = (\<Sum>sp\<in>?A. mset (concat (map m (trees (grove_at so g sp)))))"
    unfolding sum.distrib [symmetric] by (intro sum.cong) (auto simp: grove_at_def split: option.split)
  finally show ?thesis .
qed

end
