(* ===== verification/Dock_Valid_Graph.thy ===== *)
theory Dock_Valid_Graph
  imports Dock_Valid
begin

text \<open>
  The valid graphs, and that \<open>graph_validate\<close> decides them.
\<close>

section \<open>Valid graphs\<close>

definition is_floating :: "dock_node option \<Rightarrow> bool" where
  "is_floating n \<longleftrightarrow> (case n of Some (Floating _) \<Rightarrow> True | _ \<Rightarrow> False)"

definition floats_ok :: "'s slot_ops \<Rightarrow> 's dock_graph \<Rightarrow> bool" where
  "floats_ok so g \<longleftrightarrow> (\<forall>(sp, c) \<in> set (floating_entries g). bounds_ok (fc_bounds c) \<and> is_floating (node so g (fc_node c)))"

definition central_ok :: "'s dock_graph \<Rightarrow> (space_id \<Rightarrow> grove) \<Rightarrow> bool" where
  "central_ok g F \<longleftrightarrow> (\<forall>(sp, c) \<in> set (dg_central g). \<forall>n. cr_node c = Some n \<longrightarrow> (\<exists>t. fst (F sp) = Some t \<and> n \<in> set (ids t)))"

text \<open>
  A graph is valid when its spaces hold valid trees on nodes of their own, no item stands at two places, the floating containers
  are floating nodes with proper bounds, and a central region lies inside the root of its space.
\<close>

definition valid_forest :: "'s slot_ops \<Rightarrow> 's dock_graph \<Rightarrow> (space_id \<Rightarrow> grove) \<Rightarrow> bool" where
  "valid_forest so g F \<longleftrightarrow> forest so g F \<and> (\<forall>sp. \<forall>t \<in> set (trees (F sp)). valid_tree t) \<and> items_apart (items_of F) \<and>
     floats_ok so g \<and> central_ok g F"

definition dock_valid :: "'s slot_ops \<Rightarrow> 's dock_graph \<Rightarrow> bool" where
  "dock_valid so g \<longleftrightarrow> (\<exists>F. valid_forest so g F)"

lemma grove_at_forest:
  assumes "forest so g F"
  shows "grove_at so g sp = F sp"
proof -
  have "tree_at so g (tid t) = t" if "t \<in> set (trees (F sp))" for t
    using tree_of_rep [OF forest_rep [OF assms that]] by (simp add: tree_at_def)
  moreover obtain r ws where p: "F sp = (r, ws)" by (cases "F sp")
  moreover have "root_of g sp = map_option tid r" "map fc_node (floating_containers g sp) = map tid ws"
    using forest_linked [OF assms, of sp] p by (simp_all add: linked_simps)
  ultimately show ?thesis unfolding grove_at_def
    by (cases r) (auto simp: map_idI comp_def intro!: map_idI)
qed

lemma grove_at_elsewhere: "sp \<notin> set (spaces g) \<Longrightarrow> grove_at so g sp = (None, [])"
  by (auto simp: set_spaces grove_at_def floating_containers_def map_of_eq_None_iff split: option.split)
     (metis fst_conv image_eqI map_of_SomeD)+

lemma apart_everywhere:
  fixes M :: "'k \<Rightarrow> 'a multiset"
  assumes "\<And>k. k \<notin> A \<Longrightarrow> M k = {#}"
  shows "(\<forall>k\<in>A. \<forall>x. count (M k) x \<le> 1) \<and> (\<forall>k\<in>A. \<forall>k'\<in>A. k \<noteq> k' \<longrightarrow> set_mset (M k) \<inter> set_mset (M k') = {}) \<longleftrightarrow>
    (\<forall>k x. count (M k) x \<le> 1) \<and> (\<forall>k k'. k \<noteq> k' \<longrightarrow> set_mset (M k) \<inter> set_mset (M k') = {})"
proof (intro iffI conjI allI impI)
  fix k x assume "(\<forall>k\<in>A. \<forall>x. count (M k) x \<le> 1) \<and> (\<forall>k\<in>A. \<forall>k'\<in>A. k \<noteq> k' \<longrightarrow> set_mset (M k) \<inter> set_mset (M k') = {})"
  then show "count (M k) x \<le> 1" using assms by (cases "k \<in> A") auto
next
  fix k k' :: 'k
  assume "(\<forall>k\<in>A. \<forall>x. count (M k) x \<le> 1) \<and> (\<forall>k\<in>A. \<forall>k'\<in>A. k \<noteq> k' \<longrightarrow> set_mset (M k) \<inter> set_mset (M k') = {})" "k \<noteq> k'"
  then show "set_mset (M k) \<inter> set_mset (M k') = {}" using assms by (cases "k \<in> A"; cases "k' \<in> A") auto
qed auto

lemma distinct_live:
  assumes maps: "maps_ok g"
  shows "distinct (concat (map m (live_trees so g))) \<longleftrightarrow>
    (\<forall>sp x. count (mset (concat (map m (trees (grove_at so g sp))))) x \<le> 1) \<and>
    (\<forall>sp sp'. sp \<noteq> sp' \<longrightarrow>
      set_mset (mset (concat (map m (trees (grove_at so g sp))))) \<inter> set_mset (mset (concat (map m (trees (grove_at so g sp'))))) = {})"
  unfolding distinct_count live_trees_measure [OF maps] count_sum_apart [OF finite_set]
  by (rule apart_everywhere) (simp add: grove_at_elsewhere)

lemma UN_everywhere: "(\<And>k. k \<notin> A \<Longrightarrow> S k = {}) \<Longrightarrow> (\<Union>k\<in>A. S k) = (\<Union>k. S k)"
  by blast

lemma set_live_trees:
  assumes "maps_ok g"
  shows "set (live_trees so g) = (\<Union>sp. set (trees (grove_at so g sp)))"
proof -
  have one: "mset (concat (map (\<lambda>t. [t]) ts)) = mset ts" for ts :: "dock_tree list" by simp
  have "mset (live_trees so g) = (\<Sum>sp\<in>set (spaces g). mset (trees (grove_at so g sp)))"
    using live_trees_measure [OF assms, of "\<lambda>t. [t]" so] unfolding one .
  then have "set_mset (mset (live_trees so g)) = (\<Union>sp\<in>set (spaces g). set (trees (grove_at so g sp)))"
    by (simp add: set_mset_sum)
  moreover have "set (trees (grove_at so g sp)) = {}" if "sp \<notin> set (spaces g)" for sp
    using grove_at_elsewhere [OF that, of so] by simp
  then have "(\<Union>sp\<in>set (spaces g). set (trees (grove_at so g sp))) = (\<Union>sp. set (trees (grove_at so g sp)))"
    by (rule UN_everywhere)
  ultimately show ?thesis by simp
qed

text \<open>The trees of all spaces pass the validator exactly when they form a forest of valid trees with the items apart.\<close>

lemma pass_live_trees:
  assumes maps: "maps_ok g" and linked: "\<And>sp. linked g sp (grove_at so g sp)"
  shows "pass (node so g) (Map.empty, Map.empty) (live_trees so g) \<longleftrightarrow>
    forest so g (grove_at so g) \<and> (\<forall>sp. \<forall>t \<in> set (trees (grove_at so g sp)). valid_tree t) \<and> items_apart (items_of (grove_at so g))"
proof -
  let ?F = "grove_at so g"
  have "apart ?F \<longleftrightarrow> distinct (concat (map ids (live_trees so g)))"
    unfolding distinct_live [OF maps] apart_def grove_ids_def by (simp add: distinct_count)
  moreover have "items_apart (items_of ?F) \<longleftrightarrow> distinct (concat (map tree_items (live_trees so g)))"
    unfolding distinct_live [OF maps] items_apart_def grove_items_def by (auto simp: disjoint_iff)
  ultimately show ?thesis
    unfolding pass_def forest_def using maps linked set_live_trees [OF maps, of so] by auto
qed


section \<open>The loops over roots and floating containers\<close>

lemma try_loop_sound:
  assumes "\<And>x w. x \<in> set xs \<Longrightarrow> \<exists>y. f x w = Some y \<and> (\<forall>w'. y = Inr w' \<longrightarrow> Q x \<and> (\<exists>t. tid t = k x \<and> pass get w [t] \<and> adds w [t] w'))"
  shows "\<exists>y. try_for_p f xs w = Some y \<and> (\<forall>w'. y = Inr w' \<longrightarrow> (\<forall>x \<in> set xs. Q x) \<and>
    (\<exists>ts. map tid ts = map k xs \<and> pass get w ts \<and> adds w ts w'))"
  using assms
proof (induction xs arbitrary: w)
  case Nil
  then show ?case by (simp add: adds_Nil)
next
  case (Cons x xs)
  obtain y where y: "f x w = Some y" "\<And>w'. y = Inr w' \<Longrightarrow> Q x \<and> (\<exists>t. tid t = k x \<and> pass get w [t] \<and> adds w [t] w')"
    using Cons.prems [of x w] by auto
  show ?case
  proof (cases y)
    case (Inl e)
    then show ?thesis using y(1) by simp
  next
    case (Inr w')
    then obtain t where t: "Q x" "tid t = k x" "pass get w [t]" "adds w [t] w'" using y(2) by blast
    obtain z where z: "try_for_p f xs w' = Some z"
      "\<And>w''. z = Inr w'' \<Longrightarrow> (\<forall>x \<in> set xs. Q x) \<and> (\<exists>ts. map tid ts = map k xs \<and> pass get w' ts \<and> adds w' ts w'')"
      using Cons.IH [of w'] Cons.prems by auto
    have "(\<forall>x' \<in> set (x # xs). Q x') \<and> (\<exists>us. map tid us = map k (x # xs) \<and> pass get w us \<and> adds w us w'')"
      if out: "z = Inr w''" for w''
    proof -
      obtain ts where ts: "map tid ts = map k xs" "pass get w' ts" "adds w' ts w''" using z(2) [OF out] by blast
      have "pass get w (t # ts)" using pass_Cons [OF t(4)] t(3) ts(2) by blast
      moreover have "adds w (t # ts) w''" by (rule adds_Cons [OF t(4) ts(3)])
      ultimately show ?thesis using t(1,2) ts(1) z(2) [OF out] by (intro conjI exI [of _ "t # ts"]) simp_all
    qed
    then show ?thesis using y(1) Inr z(1) by simp
  qed
qed

lemma try_loop_complete:
  assumes "\<And>x t w. (x, t) \<in> set (zip xs ts) \<Longrightarrow> pass get w [t] \<Longrightarrow> \<exists>w'. f x w = Some (Inr w') \<and> adds w [t] w'"
    and "length xs = length ts" and "pass get w ts"
  shows "\<exists>w'. try_for_p f xs w = Some (Inr w') \<and> adds w ts w'"
  using assms(2,1,3)
proof (induction xs ts arbitrary: w rule: list_induct2)
  case Nil
  then show ?case by (simp add: adds_Nil)
next
  case (Cons x xs t ts)
  have "pass get w [t]" using Cons.prems(2) by (auto simp: pass_def)
  then obtain w' where w': "f x w = Some (Inr w')" "adds w [t] w'" using Cons.prems(1) [of x t w] by auto
  then have "pass get w' ts" using Cons.prems(2) pass_Cons by blast
  then obtain w'' where "try_for_p f xs w' = Some (Inr w'')" "adds w' ts w''" using Cons.IH [of w'] Cons.prems(1) by auto
  then show ?case using w'(1) adds_Cons [OF w'(2)] by simp
qed

lemma validate_root_sound:
  assumes "slot_laws so"
  shows "\<exists>y. validate_root so g e w = Some y \<and> (\<forall>w'. y = Inr w' \<longrightarrow> True \<and> (\<exists>t. tid t = snd e \<and> pass (node so g) w [t] \<and> adds w [t] w'))"
proof (cases "node so g (snd e) = None")
  case False
  obtain y where "validate_subtree so g (snd e) w = Some y"
    "\<And>w'. y = Inr w' \<Longrightarrow> \<exists>ts. map tid ts = [snd e] \<and> pass (node so g) w ts \<and> adds w ts w'"
    using validate_sound [OF assms, of g "snd e" w] unfolding sound_at_def by blast
  then show ?thesis using False by (cases e) (fastforce simp: validate_root_def)
qed (cases e, simp add: validate_root_def)

lemma validate_floating_sound:
  assumes "slot_laws so"
  shows "\<exists>y. validate_floating so g e w = Some y \<and> (\<forall>w'. y = Inr w' \<longrightarrow>
    (bounds_ok (fc_bounds (snd e)) \<and> is_floating (node so g (fc_node (snd e)))) \<and>
    (\<exists>t. tid t = fc_node (snd e) \<and> pass (node so g) w [t] \<and> adds w [t] w'))"
proof (cases "bounds_ok (fc_bounds (snd e)) \<and> is_floating (node so g (fc_node (snd e)))")
  case True
  obtain y where "validate_subtree so g (fc_node (snd e)) w = Some y"
    "\<And>w'. y = Inr w' \<Longrightarrow> \<exists>ts. map tid ts = [fc_node (snd e)] \<and> pass (node so g) w ts \<and> adds w ts w'"
    using validate_sound [OF assms, of g "fc_node (snd e)" w] unfolding sound_at_def by blast
  then show ?thesis using True
    by (cases e) (fastforce simp: validate_floating_def is_floating_def split: option.splits dock_node.splits)
next
  case False
  then show ?thesis
    by (cases e) (auto simp: validate_floating_def is_floating_def split: option.splits dock_node.splits)
qed

lemma validate_central_loop:
  assumes "\<And>sp n. \<exists>b. root_subtree_contains so g sp n = Some b"
  shows "\<exists>y. try_for_p (validate_central so g) cs w = Some y \<and>
    ((\<exists>w'. y = Inr w') \<longleftrightarrow> (\<forall>(sp, c) \<in> set cs. \<forall>n. cr_node c = Some n \<longrightarrow> root_subtree_contains so g sp n = Some True))"
proof (induction cs)
  case (Cons e cs)
  obtain sp c where e: "e = (sp, c)" by (cases e)
  show ?case
  proof (cases "cr_node c")
    case None
    then show ?thesis using Cons e by (auto simp: validate_central_def)
  next
    case (Some n)
    obtain b where "root_subtree_contains so g sp n = Some b" using assms by blast
    then show ?thesis using Cons e Some by (cases b) (auto simp: validate_central_def)
  qed
qed simp


section \<open>The decision\<close>

lemma pass_append: "pass get v (xs @ ys) \<longleftrightarrow> pass get v xs \<and> (\<forall>v'. adds v xs v' \<longrightarrow> pass get v' ys)"
proof
  assume all: "pass get v (xs @ ys)"
  then have "pass get v' ys" if "adds v xs v'" for v' using that unfolding pass_def adds_def by auto
  then show "pass get v xs \<and> (\<forall>v'. adds v xs v' \<longrightarrow> pass get v' ys)" using all by (auto simp: pass_def)
next
  assume parts: "pass get v xs \<and> (\<forall>v'. adds v xs v' \<longrightarrow> pass get v' ys)"
  let ?v' = "((\<lambda>n. if n \<in> set (concat (map ids xs)) then Some Done else fst v n),
    (\<lambda>i. if i \<in> set (concat (map tree_items xs)) then Some 0 else snd v i))"
  have "adds v xs ?v'" unfolding adds_def by (auto simp: domIff split: if_splits)
  then have "pass get ?v' ys" using parts by blast
  moreover have "dom (fst ?v') = dom (fst v) \<union> set (concat (map ids xs))"
    "dom (snd ?v') = dom (snd v) \<union> set (concat (map tree_items xs))"
    using \<open>adds v xs ?v'\<close> unfolding adds_def by blast+
  ultimately show "pass get v (xs @ ys)" using parts unfolding pass_def by auto
qed

lemma floating_entries_iff:
  assumes "maps_ok g"
  shows "(sp, c) \<in> set (floating_entries g) \<longleftrightarrow> c \<in> set (floating_containers g sp)"
proof -
  have entry: "(sp, cs) \<in> set (dg_floatings g) \<longleftrightarrow> map_of (dg_floatings g) sp = Some cs" for cs
    using assms map_of_mem [of "dg_floatings g" sp cs] by (simp add: maps_ok_def)
  have "c \<in> set (floating_containers g sp) \<longleftrightarrow> (\<exists>cs. (sp, cs) \<in> set (dg_floatings g) \<and> c \<in> set cs)"
    unfolding entry by (cases "map_of (dg_floatings g) sp") (simp_all add: floating_containers_def)
  moreover have "(sp, c) \<in> set (floating_entries g) \<longleftrightarrow> (\<exists>cs. (sp, cs) \<in> set (dg_floatings g) \<and> c \<in> set cs)"
    unfolding floating_entries_def by auto
  ultimately show ?thesis by simp
qed

lemma root_entry: "maps_ok g \<Longrightarrow> (sp, r) \<in> set (dg_roots g) \<longleftrightarrow> root_of g sp = Some r"
  using map_of_mem [of "dg_roots g" sp r] by (simp add: maps_ok_def)

lemma linked_live:
  assumes maps: "maps_ok g"
  shows "(\<forall>sp. linked g sp (grove_at so g sp)) \<longleftrightarrow>
    (\<forall>e \<in> set (dg_roots g). tid (tree_at so g (snd e)) = snd e) \<and>
    (\<forall>e \<in> set (floating_entries g). tid (tree_at so g (fc_node (snd e))) = fc_node (snd e))"
proof -
  have link: "linked g sp (grove_at so g sp) \<longleftrightarrow>
      (\<forall>r. root_of g sp = Some r \<longrightarrow> tid (tree_at so g r) = r) \<and>
      (\<forall>c \<in> set (floating_containers g sp). tid (tree_at so g (fc_node c)) = fc_node c)" for sp
    by (cases "root_of g sp") (auto simp: linked_def grove_at_def list_eq_iff_nth_eq set_conv_nth)
  have pairs: "(\<forall>e \<in> S. P (snd e)) \<longleftrightarrow> (\<forall>sp x. (sp, x) \<in> S \<longrightarrow> P x)" for S :: "(space_id \<times> 'x) set" and P by force
  show ?thesis
    unfolding link pairs [of "set (dg_roots g)" "\<lambda>r. tid (tree_at so g r) = r"]
      pairs [of "set (floating_entries g)" "\<lambda>c. tid (tree_at so g (fc_node c)) = fc_node c"]
      floating_entries_iff [OF maps] root_entry [OF maps] by blast
qed

lemma root_subtree_forest:
  assumes F: "forest so g F"
  shows "root_subtree_contains so g sp n = Some (\<exists>t. fst (F sp) = Some t \<and> n \<in> set (ids t))"
proof (cases "fst (F sp)")
  case None
  then show ?thesis using forest_linked [OF F, of sp] by (simp add: root_subtree_contains_def linked_def)
next
  case (Some t)
  then have "rep (node so g) t" using forest_rep [OF F, of t sp] by (cases "F sp") simp
  then show ?thesis using Some forest_linked [OF F, of sp] by (simp add: root_subtree_contains_def linked_def subtree_contains_tree)
qed

lemma validate_valid:
  assumes so: "slot_laws so" and V: "valid_forest so g F"
  shows "graph_validate so g = Some (Inr ())"
proof -
  have F: "forest so g F" and "floats_ok so g" and central: "central_ok g F" using V by (simp_all add: valid_forest_def)
  have maps: "maps_ok g" using F by (rule maps_ok_forest)
  have at_F: "grove_at so g = F" using grove_at_forest [OF F] by blast
  have "linked g sp (grove_at so g sp)" for sp using forest_linked [OF F] at_F by simp
  then have ids: "\<And>e. e \<in> set (dg_roots g) \<Longrightarrow> tid (tree_at so g (snd e)) = snd e"
    "\<And>e. e \<in> set (floating_entries g) \<Longrightarrow> tid (tree_at so g (fc_node (snd e))) = fc_node (snd e)"
    using linked_live [OF maps, of so] by blast+
  let ?e = "(Map.empty, Map.empty) :: validator"
  let ?rs = "map (tree_at so g) (map snd (dg_roots g))" and ?ws = "map (tree_at so g) (map (\<lambda>e. fc_node (snd e)) (floating_entries g))"
  have "pass (node so g) ?e (live_trees so g)"
    using pass_live_trees [OF maps, of so] V at_F forest_linked [OF F] by (simp add: valid_forest_def)
  then have pass: "pass (node so g) ?e ?rs" "\<And>v'. adds ?e ?rs v' \<Longrightarrow> pass (node so g) v' ?ws"
    unfolding live_trees_def pass_append by blast+
  have "\<exists>v1. try_for_p (validate_root so g) (dg_roots g) ?e = Some (Inr v1) \<and> adds ?e ?rs v1"
  proof (rule try_loop_complete [OF _ _ pass(1)])
    fix x t w
    assume xt: "(x, t) \<in> set (zip (dg_roots g) ?rs)" and w: "pass (node so g) w [t]"
    then have x: "x \<in> set (dg_roots g)" "t = tree_at so g (snd x)" by (auto simp: zip_map2 zip_same_conv_map)
    then have "tid t = snd x" using ids(1) by simp
    moreover have "node so g (tid t) \<noteq> None" using w rep_get by (fastforce simp: pass_def)
    ultimately show "\<exists>w'. validate_root so g x w = Some (Inr w') \<and> adds w [t] w'"
      using validate_complete [OF w] by (cases x) (simp add: validate_root_def)
  qed simp
  then obtain v1 where v1: "try_for_p (validate_root so g) (dg_roots g) ?e = Some (Inr v1)" "adds ?e ?rs v1" by blast
  have "\<exists>v2. try_for_p (validate_floating so g) (floating_entries g) v1 = Some (Inr v2) \<and> adds v1 ?ws v2"
  proof (rule try_loop_complete [OF _ _ pass(2) [OF v1(2)]])
    fix x t w
    assume xt: "(x, t) \<in> set (zip (floating_entries g) ?ws)" and w: "pass (node so g) w [t]"
    then have x: "x \<in> set (floating_entries g)" "t = tree_at so g (fc_node (snd x))" by (auto simp: zip_map2 zip_same_conv_map)
    then have "tid t = fc_node (snd x)" using ids(2) by simp
    moreover have "bounds_ok (fc_bounds (snd x))" "is_floating (node so g (fc_node (snd x)))"
      using \<open>floats_ok so g\<close> x(1) by (auto simp: floats_ok_def)
    ultimately show "\<exists>w'. validate_floating so g x w = Some (Inr w') \<and> adds w [t] w'"
      using validate_complete [OF w] by (cases x) (auto simp: validate_floating_def is_floating_def split: option.splits dock_node.splits)
  qed simp
  then obtain v2 where v2: "try_for_p (validate_floating so g) (floating_entries g) v1 = Some (Inr v2)" by blast
  have "\<exists>y. try_for_p (validate_central so g) (dg_central g) v2 = Some y \<and>
    ((\<exists>w'. y = Inr w') \<longleftrightarrow> (\<forall>(sp, c) \<in> set (dg_central g). \<forall>n. cr_node c = Some n \<longrightarrow> root_subtree_contains so g sp n = Some True))"
    by (rule validate_central_loop) (use root_subtree_forest [OF F] in blast)
  then obtain v3 where v3: "try_for_p (validate_central so g) (dg_central g) v2 = Some (Inr v3)"
    using central unfolding central_ok_def root_subtree_forest [OF F] by auto
  show ?thesis using v1(1) v2 v3 by (simp add: graph_validate_def validate_with_unreachable_nodes_def)
qed

theorem graph_validate_decides:
  assumes so: "slot_laws so" and maps: "maps_ok g"
  shows "\<exists>r. graph_validate so g = Some r \<and> (r = Inr () \<longleftrightarrow> dock_valid so g)"
proof -
  let ?e = "(Map.empty, Map.empty) :: validator"
  have "\<exists>y. try_for_p (validate_root so g) (dg_roots g) ?e = Some y \<and> (\<forall>w'. y = Inr w' \<longrightarrow> (\<forall>x \<in> set (dg_roots g). True) \<and>
    (\<exists>ts. map tid ts = map snd (dg_roots g) \<and> pass (node so g) ?e ts \<and> adds ?e ts w'))"
    by (rule try_loop_sound) (rule validate_root_sound [OF so])
  then obtain y1 where y1: "try_for_p (validate_root so g) (dg_roots g) ?e = Some y1"
    "\<And>w'. y1 = Inr w' \<Longrightarrow> \<exists>ts. map tid ts = map snd (dg_roots g) \<and> pass (node so g) ?e ts \<and> adds ?e ts w'" by blast
  have valid: "r = Inr ()" if "dock_valid so g" "graph_validate so g = Some r" for r
    using validate_valid [OF so] that by (auto simp: dock_valid_def)
  show ?thesis
  proof (cases y1)
    case (Inl e)
    then have "graph_validate so g = Some (Inl e)" using y1(1) by (simp add: graph_validate_def validate_with_unreachable_nodes_def)
    then show ?thesis using valid by fastforce
  next
    case (Inr v1)
    then obtain rs where rs: "map tid rs = map snd (dg_roots g)" "pass (node so g) ?e rs" "adds ?e rs v1" using y1(2) by blast
    have "\<exists>y. try_for_p (validate_floating so g) (floating_entries g) v1 = Some y \<and> (\<forall>w'. y = Inr w' \<longrightarrow>
      (\<forall>x \<in> set (floating_entries g). bounds_ok (fc_bounds (snd x)) \<and> is_floating (node so g (fc_node (snd x)))) \<and>
      (\<exists>ts. map tid ts = map (\<lambda>e. fc_node (snd e)) (floating_entries g) \<and> pass (node so g) v1 ts \<and> adds v1 ts w'))"
      by (rule try_loop_sound) (rule validate_floating_sound [OF so])
    then obtain y2 where y2: "try_for_p (validate_floating so g) (floating_entries g) v1 = Some y2"
      "\<And>w'. y2 = Inr w' \<Longrightarrow>
      (\<forall>x \<in> set (floating_entries g). bounds_ok (fc_bounds (snd x)) \<and> is_floating (node so g (fc_node (snd x)))) \<and>
      (\<exists>ts. map tid ts = map (\<lambda>e. fc_node (snd e)) (floating_entries g) \<and> pass (node so g) v1 ts \<and> adds v1 ts w')" by blast
    show ?thesis
    proof (cases y2)
      case (Inl e)
      then have "graph_validate so g = Some (Inl e)"
        using y1(1) y2(1) Inr by (simp add: graph_validate_def validate_with_unreachable_nodes_def)
      then show ?thesis using valid by fastforce
    next
      case (Inr v2)
      obtain ws where ws: "map tid ws = map (\<lambda>e. fc_node (snd e)) (floating_entries g)" "pass (node so g) v1 ws"
        and floats: "floats_ok so g" using y2(2) [OF Inr] by (auto simp: floats_ok_def case_prod_beta)
      have at_tree: "tree_at so g (tid t) = t" if "t \<in> set rs \<union> set ws" for t
        using that rs(2) ws(2) by (auto simp: pass_def tree_at_def tree_of_rep)
      have lists: "map (tree_at so g) (map snd (dg_roots g)) = rs"
        "map (tree_at so g) (map (\<lambda>e. fc_node (snd e)) (floating_entries g)) = ws"
        unfolding rs(1) [symmetric] ws(1) [symmetric] using at_tree by (auto intro!: map_idI)
      have "map tid (map (tree_at so g) (map snd (dg_roots g))) = map snd (dg_roots g)"
        "map tid (map (tree_at so g) (map (\<lambda>e. fc_node (snd e)) (floating_entries g))) = map (\<lambda>e. fc_node (snd e)) (floating_entries g)"
        unfolding lists using rs(1) ws(1) by simp_all
      then have link: "linked g sp (grove_at so g sp)" for sp
        using linked_live [OF maps, of so] by (simp add: map_eq_conv comp_def)
      have "pass (node so g) ?e (live_trees so g)"
        unfolding live_trees_def lists pass_append using rs(2,3) ws(2) by (auto simp: pass_def adds_def)
      then have F: "forest so g (grove_at so g)" "\<forall>sp. \<forall>t \<in> set (trees (grove_at so g sp)). valid_tree t"
        "items_apart (items_of (grove_at so g))" using pass_live_trees [OF maps link] by simp_all
      obtain y3 where loop: "try_for_p (validate_central so g) (dg_central g) v2 = Some y3"
        "(\<exists>w'. y3 = Inr w') \<longleftrightarrow> (\<forall>(sp, c) \<in> set (dg_central g). \<forall>n. cr_node c = Some n \<longrightarrow> root_subtree_contains so g sp n = Some True)"
        using validate_central_loop [of so g "dg_central g" v2] root_subtree_forest [OF F(1)] by blast
      have "(\<forall>(sp, c) \<in> set (dg_central g). \<forall>n. cr_node c = Some n \<longrightarrow> root_subtree_contains so g sp n = Some True) \<longleftrightarrow>
          central_ok g (grove_at so g)" unfolding root_subtree_forest [OF F(1)] central_ok_def by simp
      note y3 = loop(1) loop(2) [unfolded this]
      have run: "graph_validate so g = Some (case y3 of Inl e \<Rightarrow> Inl e | Inr v3 \<Rightarrow> Inr ())"
        using y1(1) y2(1) y3(1) \<open>y1 = Inr v1\<close> Inr
        by (cases y3) (simp_all add: graph_validate_def validate_with_unreachable_nodes_def)
      show ?thesis
      proof (cases y3)
        case (Inl e)
        then show ?thesis using run valid [of "Inl e"] by auto
      next
        case (Inr v3)
        then have "dock_valid so g" using F floats y3(2) unfolding dock_valid_def valid_forest_def by blast
        then show ?thesis using run Inr by simp
      qed
    qed
  qed
qed

end
