(* ===== verification/Dock_Reach.thy ===== *)
theory Dock_Reach
  imports Dock_Valid_Graph
begin

text \<open>
  The walks over the store that end on every graph (reachable nodes, the exported layout), and that the sweep of unreachable
  nodes keeps the forest.
\<close>

section \<open>Reachable nodes\<close>

definition kids :: "(node_id \<rightharpoonup> dock_node) \<Rightarrow> node_id \<Rightarrow> node_id set" where
  "kids get n = (case get n of Some (Split axis children fractions) \<Rightarrow> set children | Some (Floating child) \<Rightarrow> {child} | _ \<Rightarrow> {})"

lemma reach_loop_returns:
  assumes fin: "finite (dom get)"
  shows "\<forall>n \<in> reachable. kids get n \<subseteq> reachable \<union> set pending \<Longrightarrow>
    \<exists>R. reach_loop get pending reachable = Some R \<and> reachable \<union> set pending \<subseteq> R \<and> (\<forall>n \<in> R. kids get n \<subseteq> R) \<and>
      (\<forall>S. reachable \<union> set pending \<subseteq> S \<longrightarrow> (\<forall>n \<in> S. kids get n \<subseteq> S) \<longrightarrow> R \<subseteq> S)"
proof (induction "(pending, reachable)" arbitrary: pending reachable
    rule: wf_induct_rule [OF wf_measures [of "[\<lambda>(p, r). card (dom get - r), \<lambda>(p, r). length p]"]])
  case (1 pending reachable)
  note less_hyps = "1.hyps" and less_prems = "1.prems"
  show ?case
  proof (cases "pending = []")
    case True
    then show ?thesis using less_prems by (subst reach_loop.simps) simp
  next
    case False
    then obtain front n where p: "pending = front @ [n]" by (metis append_butlast_last_id)
    show ?thesis
    proof (cases "n \<in> reachable")
      case True
      have "\<exists>R. reach_loop get front reachable = Some R \<and> reachable \<union> set front \<subseteq> R \<and> (\<forall>n \<in> R. kids get n \<subseteq> R) \<and>
          (\<forall>S. reachable \<union> set front \<subseteq> S \<longrightarrow> (\<forall>n \<in> S. kids get n \<subseteq> S) \<longrightarrow> R \<subseteq> S)"
        by (rule less_hyps) (use less_prems p True in auto)
      then show ?thesis using p True by (subst reach_loop.simps) auto
    next
      case new: False
      have rest: "\<exists>R. reach_loop get next_pending (insert n reachable) = Some R \<and> reachable \<union> set pending \<subseteq> R \<and>
          (\<forall>n \<in> R. kids get n \<subseteq> R) \<and> (\<forall>S. reachable \<union> set pending \<subseteq> S \<longrightarrow> (\<forall>n \<in> S. kids get n \<subseteq> S) \<longrightarrow> R \<subseteq> S)"
        if next_p: "set next_pending = set front \<union> kids get n" "get n = None \<Longrightarrow> next_pending = front" for next_pending
      proof -
        have smaller: "((next_pending, insert n reachable), pending, reachable)
            \<in> measures [\<lambda>(p, r). card (dom get - r), \<lambda>(p, r). length p]"
        proof (cases "get n = None")
          case True
          then have "dom get - insert n reachable = dom get - reachable" by auto
          then show ?thesis using next_p(2) [OF True] p by simp
        next
          case False
          then have "dom get - insert n reachable \<subset> dom get - reachable" using new by auto
          then show ?thesis using fin by (simp add: psubset_card_mono)
        qed
        have "\<forall>m \<in> insert n reachable. kids get m \<subseteq> insert n reachable \<union> set next_pending"
          using less_prems p next_p(1) by auto
        then obtain R where R: "reach_loop get next_pending (insert n reachable) = Some R"
          "insert n reachable \<union> set next_pending \<subseteq> R" "\<forall>n \<in> R. kids get n \<subseteq> R"
          "\<And>S. insert n reachable \<union> set next_pending \<subseteq> S \<Longrightarrow> \<forall>n \<in> S. kids get n \<subseteq> S \<Longrightarrow> R \<subseteq> S"
          using less_hyps [OF smaller] by blast
        have "R \<subseteq> S" if S: "reachable \<union> set pending \<subseteq> S" "\<forall>n \<in> S. kids get n \<subseteq> S" for S
          by (rule R(4) [OF _ S(2)]) (use S p next_p(1) in auto)
        then show ?thesis using R(1-3) p next_p(1) by (intro exI [of _ R]) auto
      qed
      have step: "reach_loop get pending reachable =
        (case get n of
           Some (Split axis children fractions) \<Rightarrow> reach_loop get (front @ children) (insert n reachable)
         | Some (Floating child) \<Rightarrow> reach_loop get (front @ [child]) (insert n reachable)
         | _ \<Rightarrow> reach_loop get front (insert n reachable))"
        using p new by (subst reach_loop.simps) (simp split: option.split dock_node.split)
      show ?thesis
      proof (cases "get n")
        case None
        then show ?thesis using rest [of front] step p by (auto simp: kids_def)
      next
        case (Some x)
        show ?thesis
        proof (cases x)
          case (Split axis children fractions)
          then show ?thesis using Some rest [of "front @ children"] step p by (auto simp: kids_def)
        next
          case (Tabs items selected)
          then show ?thesis using Some rest [of front] step p by (auto simp: kids_def)
        next
          case (Floating child)
          then show ?thesis using Some rest [of "front @ [child]"] step p by (auto simp: kids_def)
        qed
      qed
    qed
  qed
qed

lemma store_finite: "slot_laws so \<Longrightarrow> finite (stored so s)"
  by (metis List.finite_set slot_laws_def)

lemma reachable_returns:
  assumes "slot_laws so"
  shows "\<exists>R. reachable_node_ids_from so g ns = Some R \<and> set ns \<subseteq> R \<and> (\<forall>n \<in> R. kids (node so g) n \<subseteq> R) \<and>
    (\<forall>S. set ns \<subseteq> S \<longrightarrow> (\<forall>n \<in> S. kids (node so g) n \<subseteq> S) \<longrightarrow> R \<subseteq> S)"
  using reach_loop_returns [OF store_finite [OF assms], of "{}" "dg_nodes g" ns] by (simp add: reachable_node_ids_from_def)

lemma closed_tree: "rep get t \<Longrightarrow> \<forall>n \<in> R. kids get n \<subseteq> R \<Longrightarrow> tid t \<in> R \<Longrightarrow> set (ids t) \<subseteq> R"
proof (induction t)
  case (TFloating n t)
  then have "kids get n \<subseteq> R" by simp
  moreover have "kids get n = {tid t}" using TFloating.prems(1) by (simp add: kids_def)
  ultimately show ?case using TFloating by simp
next
  case (TSplit n axis ts fs)
  then have "kids get n \<subseteq> R" by simp
  moreover have "kids get n = tid ` set ts" using TSplit.prems(1) by (simp add: kids_def)
  ultimately have "set (ids t) \<subseteq> R" if "t \<in> set ts" for t using TSplit.prems that by (intro TSplit.IH) auto
  then show ?case using TSplit.prems by auto
qed simp

lemma tree_closed: "rep get t \<Longrightarrow> n \<in> set (ids t) \<Longrightarrow> kids get n \<subseteq> set (ids t)"
proof (induction t)
  case (TFloating k t)
  then show ?case by (cases "n = k") (auto simp: kids_def)
next
  case (TSplit k axis ts fs)
  show ?case
  proof (cases "n = k")
    case True
    then have "kids get n = tid ` set ts" using TSplit.prems(1) by (simp add: kids_def)
    then show ?thesis by auto
  next
    case False
    then obtain t where "t \<in> set ts" "n \<in> set (ids t)" using TSplit.prems(2) by auto
    then have "kids get n \<subseteq> set (ids t)" using TSplit.prems(1) by (intro TSplit.IH) auto
    then show ?thesis using \<open>t \<in> set ts\<close> by auto
  qed
qed (simp add: kids_def)

lemma live_roots_trees:
  assumes F: "forest so g F" and t: "t \<in> set (trees (F sp))"
  shows "tid t \<in> set (live_roots g)"
proof -
  have maps: "maps_ok g" using F by (rule maps_ok_forest)
  have "tid t \<in> set (forest_roots g sp)" using t forest_roots_trees [OF F] by simp
  then consider "root_of g sp = Some (tid t)" | c where "c \<in> set (floating_containers g sp)" "tid t = fc_node c"
    by (auto simp: forest_roots_def split: option.splits)
  then show ?thesis
  proof cases
    case 1
    then have "(sp, tid t) \<in> set (dg_roots g)" using root_entry [OF maps] by simp
    then show ?thesis by (force simp: live_roots_def)
  next
    case 2
    then obtain cs where "map_of (dg_floatings g) sp = Some cs" "c \<in> set cs"
      by (cases "map_of (dg_floatings g) sp") (auto simp: floating_containers_def)
    then show ?thesis using 2(2) map_of_SomeD [of "dg_floatings g" sp cs] by (force simp: live_roots_def)
  qed
qed

lemma live_roots_in:
  assumes F: "forest so g F" and n: "n \<in> set (live_roots g)"
  shows "\<exists>sp. n \<in> set (grove_ids (F sp))"
proof -
  have maps: "maps_ok g" using F by (rule maps_ok_forest)
  consider sp where "(sp, n) \<in> set (dg_roots g)" | sp cs c where "(sp, cs) \<in> set (dg_floatings g)" "c \<in> set cs" "n = fc_node c"
    using n by (auto simp: live_roots_def)
  then have "\<exists>sp. n \<in> set (forest_roots g sp)"
  proof cases
    case (1 sp)
    then have "root_of g sp = Some n" using root_entry [OF maps] by simp
    then show ?thesis by (intro exI [of _ sp]) (simp add: forest_roots_def)
  next
    case (2 sp cs c)
    then have "map_of (dg_floatings g) sp = Some cs" using maps map_of_mem [of "dg_floatings g" sp cs] by (simp add: maps_ok_def)
    then show ?thesis using 2(2,3) by (intro exI [of _ sp]) (simp add: forest_roots_def floating_containers_def)
  qed
  then obtain sp t where t: "t \<in> set (trees (F sp))" "n = tid t" using forest_roots_trees [OF F] by auto
  then have "n \<in> set (ids t)" by (cases t) simp_all
  then show ?thesis using t(1) by (intro exI [of _ sp]) (auto simp: grove_ids_tree)
qed

section \<open>The sweep\<close>

lemma prune_fields:
  assumes "slot_laws so"
  shows "dg_roots (prune_nodes_not_in so g R) = dg_roots g" "dg_floatings (prune_nodes_not_in so g R) = dg_floatings g"
    "dg_central (prune_nodes_not_in so g R) = dg_central g"
    "node so (prune_nodes_not_in so g R) n = (if n \<in> R then node so g n else None)"
proof -
  let ?step = "\<lambda>n g. g\<lparr>dg_nodes := so_remove so (dg_nodes g) n, dg_history := bt_remove n (dg_history g)\<rparr>"
  have loop: "dg_roots (fold ?step ns g) = dg_roots g \<and> dg_floatings (fold ?step ns g) = dg_floatings g \<and>
      dg_central (fold ?step ns g) = dg_central g \<and> (\<forall>k. node so (fold ?step ns g) k = (if k \<in> set ns then None else node so g k))" for ns g
  proof (induction ns arbitrary: g)
    case (Cons n ns)
    have "so_get so (so_remove so s n) = (so_get so s)(n := None)" for s using assms by (simp add: slot_laws_def)
    then show ?case using Cons.IH [of "?step n g"] by auto
  qed simp
  let ?removed = "filter (\<lambda>n. n \<notin> R) (so_keys so (dg_nodes g))"
  have "set (so_keys so (dg_nodes g)) = stored so (dg_nodes g)" using assms by (simp add: slot_laws_def)
  then show "node so (prune_nodes_not_in so g R) n = (if n \<in> R then node so g n else None)"
    using loop [of ?removed g] by (auto simp: prune_nodes_not_in_def Let_def domIff)
  show "dg_roots (prune_nodes_not_in so g R) = dg_roots g" "dg_floatings (prune_nodes_not_in so g R) = dg_floatings g"
    "dg_central (prune_nodes_not_in so g R) = dg_central g"
    using loop [of ?removed g] by (simp_all add: prune_nodes_not_in_def Let_def)
qed

lemma prune_forest:
  assumes so: "slot_laws so" and F: "forest so g F" and live: "\<And>sp. set (grove_ids (F sp)) \<subseteq> R"
  shows "forest so (prune_nodes_not_in so g R) F"
  using maps_ok_forest [OF F] live
  by (intro forest_cong [OF F]) (auto simp: prune_fields [OF so] maps_ok_def)

lemma reachable_covers:
  assumes so: "slot_laws so" and F: "forest so g F"
  shows "reachable_node_ids so g = Some (\<Union>sp. set (grove_ids (F sp)))"
proof -
  let ?S = "\<Union>sp. set (grove_ids (F sp))"
  obtain R where raw: "reachable_node_ids_from so g (live_roots g) = Some R \<and> set (live_roots g) \<subseteq> R \<and>
      (\<forall>n \<in> R. kids (node so g) n \<subseteq> R) \<and>
      (\<forall>S. set (live_roots g) \<subseteq> S \<longrightarrow> (\<forall>n \<in> S. kids (node so g) n \<subseteq> S) \<longrightarrow> R \<subseteq> S)"
    using reachable_returns [OF so, of g "live_roots g"] by (elim exE)
  have R: "reachable_node_ids so g = Some R" "set (live_roots g) \<subseteq> R" "\<forall>n \<in> R. kids (node so g) n \<subseteq> R"
    using raw by (simp_all add: reachable_node_ids_def)
  have least: "\<forall>S. set (live_roots g) \<subseteq> S \<longrightarrow> (\<forall>n \<in> S. kids (node so g) n \<subseteq> S) \<longrightarrow> R \<subseteq> S"
    by (rule raw [THEN conjunct2, THEN conjunct2, THEN conjunct2])
  have roots: "set (live_roots g) \<subseteq> ?S" using live_roots_in [OF F] by blast
  have closed: "kids (node so g) n \<subseteq> ?S" if n: "n \<in> ?S" for n
  proof -
    obtain sp t where t: "t \<in> set (trees (F sp))" "n \<in> set (ids t)" using n by (auto simp: grove_ids_tree)
    then have "kids (node so g) n \<subseteq> set (ids t)" by (intro tree_closed forest_rep [OF F])
    then show ?thesis using t(1) by (force simp: grove_ids_tree)
  qed
  have "R \<subseteq> ?S" by (rule least [rule_format, OF roots closed])
  have "set (ids t) \<subseteq> R" if t: "t \<in> set (trees (F sp))" for t sp
    by (rule closed_tree [OF forest_rep [OF F t] R(3)]) (use live_roots_trees [OF F t] R(2) in blast)
  then have "set (grove_ids (F sp)) \<subseteq> R" for sp by (meson grove_ids_tree subsetD subsetI)
  then have "?S \<subseteq> R" by (rule UN_least)
  then have "R = ?S" using \<open>R \<subseteq> ?S\<close> by (rule subset_antisym [rotated])
  then show ?thesis using R(1) by simp
qed

text \<open>A graph that stores nothing beside its forest.\<close>

definition tidy :: "'s slot_ops \<Rightarrow> 's dock_graph \<Rightarrow> (space_id \<Rightarrow> grove) \<Rightarrow> bool" where
  "tidy so g F \<longleftrightarrow> (\<forall>n. node so g n \<noteq> None \<longrightarrow> (\<exists>sp. n \<in> set (grove_ids (F sp))))"

theorem finalize_forest:
  assumes so: "slot_laws so" and F: "forest so g F"
  shows "\<exists>g'. finalize_checked_mutation so g staging = Some g' \<and> forest so g' F \<and>
    (staging = [] \<longrightarrow> tidy so g' F)"
proof -
  let ?R = "\<Union>sp. set (grove_ids (F sp))"
  obtain S where S: "reachable_node_ids_from so g (filter (\<lambda>n. node so g n \<noteq> None) staging) = Some S" "staging = [] \<Longrightarrow> S \<subseteq> {}"
    using reachable_returns [OF so, of g "filter (\<lambda>n. node so g n \<noteq> None) staging"] by fastforce
  have "forest so (prune_nodes_not_in so g (?R \<union> S)) F" by (rule prune_forest [OF so F]) blast
  then show ?thesis using reachable_covers [OF so F] S prune_fields(4) [OF so]
    by (auto simp: finalize_checked_mutation_def tidy_def split: if_splits)
qed

lemma capture_returns:
  assumes "slot_laws so"
  shows "\<exists>ns. capture_mutation_retention so g = Some ns"
  using reachable_returns [OF assms, of g "live_roots g"] by (auto simp: capture_mutation_retention_def reachable_node_ids_def Let_def)

lemma capture_tidy:
  assumes so: "slot_laws so" and F: "forest so g F" and tidy: "tidy so g F"
  shows "capture_mutation_retention so g = Some []"
proof -
  have "set (so_keys so (dg_nodes g)) = stored so (dg_nodes g)" using so by (simp add: slot_laws_def)
  then have "\<forall>n \<in> set (so_keys so (dg_nodes g)). n \<in> (\<Union>sp. set (grove_ids (F sp)))"
    using tidy by (auto simp: tidy_def domIff)
  then have "filter (\<lambda>n. n \<notin> (\<Union>sp. set (grove_ids (F sp))) \<and> P n) (so_keys so (dg_nodes g)) = []" for P
    by (simp only: filter_empty_conv) blast
  then show ?thesis using reachable_covers [OF so F] by (simp only: capture_mutation_retention_def Let_def Option.bind.bind_lunit filter_filter)
qed

section \<open>The exported layout\<close>

abbreviation unexported :: "'s slot_ops \<Rightarrow> 's dock_graph \<Rightarrow> layout_exporter \<Rightarrow> nat" where
  "unexported so g x \<equiv> card (stored so (dg_nodes g) - dom (le_ids x))"

definition exports :: "layout_exporter \<Rightarrow> ('a \<times> layout_exporter) panics \<Rightarrow> bool" where
  "exports x r \<longleftrightarrow> (\<exists>i x'. r = Some (i, x') \<and> dom (le_ids x) \<subseteq> dom (le_ids x'))"

lemma export_loop:
  assumes "\<And>n x'. dom (le_ids x) \<subseteq> dom (le_ids x') \<Longrightarrow> exports x' (export n x')"
  shows "dom (le_ids x) \<subseteq> dom (le_ids x') \<Longrightarrow> exports x' (for_p (export_child export) ns (is, x'))"
proof (induction ns arbitrary: "is" x')
  case (Cons n ns)
  obtain i x'' where n: "export n x' = Some (i, x'')" "dom (le_ids x') \<subseteq> dom (le_ids x'')"
    using assms [OF Cons.prems, of n] by (auto simp: exports_def)
  then have "exports x'' (for_p (export_child export) ns (is @ [i], x''))" using Cons.prems by (intro Cons.IH) blast
  moreover have "export_child export n (is, x') = Some (is @ [i], x'')" using n(1) by (simp add: export_child_def)
  ultimately show ?case using n(2) by (auto simp: exports_def)
qed (simp add: exports_def)

lemma export_subtree_returns:
  assumes so: "slot_laws so"
  shows "exports x (export_subtree so g n x)"
proof (induction "unexported so g x" arbitrary: n x rule: less_induct)
  case less
  show ?case
  proof (cases "le_ids x n = None \<and> node so g n \<noteq> None")
    case False
    then show ?thesis by (subst export_subtree.simps) (auto simp: exports_def Let_def split: option.split)
  next
    case True
    let ?i = "saturating_succ (le_next_id x)"
    let ?x1 = "x\<lparr>le_next_id := ?i, le_ids := (le_ids x)(n \<mapsto> ?i)\<rparr>"
    have sub: "exports x' (export_subtree so g k x')" if "dom (le_ids ?x1) \<subseteq> dom (le_ids x')" for k x'
    proof (rule less)
      have "stored so (dg_nodes g) - dom (le_ids x') \<subset> stored so (dg_nodes g) - dom (le_ids x)" using that True by auto
      then show "unexported so g x' < unexported so g x" using store_finite [OF so] by (simp add: psubset_card_mono)
    qed
    obtain y where y: "node so g n = Some y" using True by auto
    show ?thesis
    proof (cases y)
      case (Split axis children fractions)
      have "exports ?x1 (for_p (export_child (export_subtree so g)) children ([], ?x1))" by (rule export_loop [where x = ?x1, OF sub]) simp_all
      then show ?thesis using True y Split by (subst export_subtree.simps) (auto simp: exports_def Let_def)
    next
      case (Tabs items selected)
      then show ?thesis using True y by (subst export_subtree.simps) (auto simp: exports_def Let_def)
    next
      case (Floating child)
      then show ?thesis using True y sub [of ?x1 child] by (subst export_subtree.simps) (auto simp: exports_def Let_def)
    qed
  qed
qed

lemma for_p_returns:
  assumes "\<And>x s. \<exists>s'. f x s = Some s'"
  shows "\<exists>s'. for_p f xs s = Some s'"
proof (induction xs arbitrary: s)
  case (Cons x xs)
  obtain s1 where "f x s = Some s1" using assms by blast
  then show ?case using Cons.IH [of s1] by simp
qed simp

theorem export_layout_returns:
  assumes so: "slot_laws so"
  shows "\<exists>l. export_layout so g = Some l"
proof -
  have sub: "\<exists>i x'. export_subtree so g n x = Some (i, x')" for n x
    using export_subtree_returns [OF so, of x g n] by (auto simp: exports_def)
  have opt: "\<exists>i x'. export_option so g n x = Some (i, x')" for n x
  proof (cases n)
    case (Some k)
    obtain i x' where "export_subtree so g k x = Some (i, x')" using sub by blast
    then show ?thesis using Some by (simp add: export_option_def)
  qed (simp add: export_option_def)
  have "\<exists>s. export_floating so g c fx = Some s" for c fx
  proof (cases "floating_child so g (fc_node c)")
    case (Some k)
    obtain i x' where "export_subtree so g k (snd fx) = Some (i, x')" using sub by blast
    then show ?thesis using Some by (cases fx) (simp add: export_floating_def)
  qed (cases fx, simp add: export_floating_def)
  then have floats: "\<exists>fs x'. for_p (export_floating so g) cs fx = Some (fs, x')" for cs fx
    using for_p_returns [of "export_floating so g" cs fx] by auto
  have "\<exists>s. export_space so g sp sx = Some s" for sp sx
  proof -
    obtain ss x where sx: "sx = (ss, x)" by (cases sx)
    obtain r x1 where 1: "export_option so g (root_of g sp) x = Some (r, x1)" using opt by blast
    obtain fs x2 where 2: "for_p (export_floating so g) (floating_containers g sp) ([], x1) = Some (fs, x2)" using floats by blast
    show ?thesis
    proof (cases "map_of (dg_central g) sp")
      case None
      then show ?thesis using sx 1 2 by (simp add: export_space_def)
    next
      case (Some c)
      obtain n x3 where "export_option so g (cr_node c) x2 = Some (n, x3)" using opt by blast
      then show ?thesis using sx 1 2 Some by (simp add: export_space_def)
    qed
  qed
  then obtain ss x where "for_p (export_space so g) (spaces g) ([], \<lparr>le_next_id = 0, le_ids = Map.empty, le_nodes = []\<rparr>) = Some (ss, x)"
    using for_p_returns [of "export_space so g"] by (metis surj_pair)
  then show ?thesis by (simp add: export_layout_def)
qed

end
