(* ===== verification/Dock_Transact.thy ===== *)
theory Dock_Transact
  imports Dock_Reach
begin

text \<open>
  Checked operations: on a valid graph they return, the graph after them is valid, an error leaves the graph as it was, and the
  items of the spaces change as the operation says.
\<close>

section \<open>Selections and fractions\<close>

lemma put_node_elsewhere:
  assumes so: "slot_laws so" and F: "forest so g F" and n: "node so g n \<noteq> None" "\<And>sp. n \<notin> set (grove_ids (F sp))"
  shows "forest so (put_node so g n x) F"
  using n maps_ok_forest [OF F] by (intro forest_cong [OF F]) (auto simp: put_node_get [OF so] maps_ok_def)

lemma update_fractions_forest:
  assumes so: "slot_laws so" and F: "forest so g F"
  shows "\<exists>ok g' F'. update_split_fractions so g split fs = (ok, g') \<and> forest so g' F' \<and> items_of F' = items_of F"
proof (cases "snd (update_split_fractions so g split fs) = g")
  case True
  then show ?thesis using F by (metis prod.collapse)
next
  case False
  then obtain axis children fractions where get: "node so g split = Some (Split axis children fractions)"
    and run: "update_split_fractions so g split fs = (True, put_node so g split (Split axis children (normalize_split_fractions fs)))"
    by (auto simp: update_split_fractions_def Let_def split: option.splits dock_node.splits if_splits)
  show ?thesis
  proof (cases "\<exists>sp. split \<in> set (grove_ids (F sp))")
    case True
    then obtain sp where "split \<in> set (grove_ids (F sp))" by blast
    from put_fractions_forest [OF so F this get] obtain F' where
      "forest so (put_node so g split (Split axis children (normalize_split_fractions fs))) F'"
      "\<forall>sp'. sp' \<noteq> sp \<longrightarrow> F' sp' = F sp'" "grove_items (F' sp) = grove_items (F sp)" by blast
    moreover from this have "items_of F' = items_of F" by (intro ext) (metis (no_types))
    ultimately show ?thesis using run by blast
  next
    case no: False
    then have "forest so (put_node so g split (Split axis children (normalize_split_fractions fs))) F"
      using get by (intro put_node_elsewhere [OF so F]) auto
    then show ?thesis using run by blast
  qed
qed

text \<open>A number sets proper fractions. A NaN passes through \<open>clamp\<close> and is stored.\<close>

lemma split_two_fractions:
  assumes so: "slot_laws so" and number: "first \<noteq> NaN" and run: "update_split_two so g split first = (True, g')"
  shows "\<exists>axis children fs. node so g' split = Some (Split axis children fs) \<and> length fs = length children \<and> list_all fraction_ok fs"
proof -
  let ?first = "f32_clamp first (Fin 0) (Fin 1)"
  obtain axis children fractions where get: "node so g split = Some (Split axis children fractions)" "length children = 2"
    and g': "g' = put_node so g split (Split axis children [?first, f32_sub (Fin 1) ?first])"
    using run by (auto simp: update_split_two_def Let_def split: option.splits dock_node.splits if_splits)
  obtain a where a: "?first = Fin a" "0 \<le> a" "a \<le> 1" using clamp_ok [OF number] by (auto simp: fraction_ok_def split: f32.splits)
  have "fraction_ok (f32_round (1 - a))" using a by (intro f32_round_unit) simp_all
  then have "list_all fraction_ok [?first, f32_sub (Fin 1) ?first]" using a clamp_ok [OF number] by (simp add: f32_sub_def)
  then show ?thesis using get g' by (auto simp: put_node_get [OF so])
qed

lemma split_two_nan:
  assumes "slot_laws so" and "node so g split = Some (Split axis [a, b] [x, y])"
  shows "\<exists>g'. update_split_two so g split NaN = (True, g') \<and> node so g' split = Some (Split axis [a, b] [NaN, NaN])"
  using assms by (cases x; cases y) (simp_all add: update_split_two_def f32_clamp_def f32_sub_def close_fractions_def f32_le_def f32_eq_def put_node_get)

lemma update_many_forest:
  assumes so: "slot_laws so"
  shows "forest so g F \<Longrightarrow> \<exists>ok g' F'. update_many so g us = (ok, g') \<and> forest so g' F' \<and> items_of F' = items_of F"
proof (induction us arbitrary: g F)
  case (Cons u us)
  obtain split fs where u: "u = (split, fs)" by (cases u)
  obtain c1 g1 F1 where 1: "update_split_fractions so g split fs = (c1, g1)" "forest so g1 F1" "items_of F1 = items_of F"
    using update_fractions_forest [OF so Cons.prems] by blast
  obtain c2 g2 F2 where 2: "update_many so g1 us = (c2, g2)" "forest so g2 F2" "items_of F2 = items_of F1" using Cons.IH [OF 1(2)] by blast
  then show ?case using 1 u by (intro exI [of _ "c1 \<or> c2"] exI [of _ g2] exI [of _ F2]) simp
qed auto

lemma valid_replace: "valid_tree new \<Longrightarrow> valid_tree t \<Longrightarrow> valid_tree (replace_at n new t)"
  by (induction t) auto

text \<open>A selection in a valid graph.\<close>

lemma select_tab_valid:
  assumes so: "slot_laws so" and V: "valid_forest so g F"
  shows "\<exists>ok g' F'. select_tab so g tabs item = (ok, g') \<and> valid_forest so g' F' \<and> items_of F' = items_of F \<and> (tidy so g F \<longrightarrow> tidy so g' F')"
proof (cases "\<exists>items selected. node so g tabs = Some (Tabs items selected) \<and> item \<in> set items")
  case False
  then have "select_tab so g tabs item = (False, g)" by (auto simp: select_tab_def split: option.split dock_node.split)
  then show ?thesis using V by auto
next
  case True
  then obtain items selected where get: "node so g tabs = Some (Tabs items selected)" and item: "item \<in> set items" by blast
  let ?g = "put_node so (record_tab_selection g tabs item) tabs (Tabs items (Some item))"
  have run: "select_tab so g tabs item = (selected \<noteq> Some item, ?g)" using get item by (simp add: select_tab_def)
  have F: "forest so g F" using V by (simp add: valid_forest_def)
  then have F1: "forest so (record_tab_selection g tabs item) F" by simp
  have nodes: "node so ?g = (node so g)(tabs \<mapsto> Tabs items (Some item))"
    using put_node_get [OF so, of "record_tab_selection g tabs item" tabs] get by simp
  have floats: "floats_ok so ?g"
    using V get unfolding valid_forest_def floats_ok_def nodes
    by (fastforce simp: is_floating_def floating_entries_def split: if_splits)
  show ?thesis
  proof (cases "\<exists>sp. tabs \<in> set (grove_ids (F sp))")
    case True
    then obtain sp where sp: "tabs \<in> set (grove_ids (F sp))" by blast
    let ?new = "TTabs tabs items (Some item)" and ?old = "TTabs tabs items selected"
    let ?p = "map_grove (replace_at tabs ?new) (F sp)"
    have "bt_ok (dg_central g)" using maps_ok_forest [OF F] by (simp add: maps_ok_def)
    note step = forest_replace [OF F sp, of ?old ?g ?new "[]"]
    have F': "forest so ?g (F(sp := ?p))" by (rule step(1)) (use get nodes \<open>bt_ok (dg_central g)\<close> in auto)
    have items: "grove_items ?p + mset (tree_items ?old) = grove_items (F sp) + mset (tree_items ?new)"
      by (rule step(2)) (use get nodes \<open>bt_ok (dg_central g)\<close> in auto)
    then have same: "items_of (F(sp := ?p)) = items_of F" by (auto simp: fun_eq_iff)
    have valid_new: "valid_tree ?new" using item by auto
    have trees: "\<forall>sp'. \<forall>t \<in> set (trees ((F(sp := ?p)) sp')). valid_tree t"
      using V valid_replace [OF valid_new] by (auto simp: valid_forest_def)
    have ids: "set (ids (replace_at tabs ?new t)) = set (ids t)" if t: "t \<in> set (trees (F sp))" for t
    proof (cases "tabs \<in> set (ids t)")
      case True
      have "mset (ids (replace_at tabs ?new t)) + mset (ids ?old) = mset (ids t) + mset (ids ?new)"
        by (rule replace_ids [OF forest_rep [OF F t] True forest_tree_distinct [OF F t]]) (use get in simp_all)
      then have "mset (ids (replace_at tabs ?new t)) = mset (ids t)" by simp
      then show ?thesis by (rule mset_eq_setD)
    qed simp
    have "central_ok ?g (F(sp := ?p))"
      unfolding central_ok_def
    proof (clarsimp, intro conjI impI)
      fix sp' c n
      assume c: "(sp', c) \<in> set (dg_central g)" "cr_node c = Some n"
      then obtain t where t: "fst (F sp') = Some t" "n \<in> set (ids t)" using V by (force simp: valid_forest_def central_ok_def)
      show "\<exists>t. fst (F sp') = Some t \<and> n \<in> set (ids t)" using t by blast
      show "\<exists>t. fst ?p = Some t \<and> n \<in> set (ids t)" if "sp' = sp"
        using t that ids by (cases "F sp") (auto simp: map_grove_def)
    qed
    then have valid: "valid_forest so ?g (F(sp := ?p))"
      using F' trees same V floats by (simp add: valid_forest_def)
    have "set (grove_ids ((F(sp := ?p)) sp')) = set (grove_ids (F sp'))" for sp'
      using ids by (cases "sp' = sp") (auto simp: grove_ids_tree)
    then have "tidy so g F \<longrightarrow> tidy so ?g (F(sp := ?p))"
      using get by (auto simp: tidy_def nodes)
    then show ?thesis using run same valid by blast
  next
    case False
    then have "forest so ?g F" using get by (intro put_node_elsewhere [OF so F1]) auto
    moreover have "central_ok ?g F" using V by (simp add: valid_forest_def central_ok_def)
    ultimately have valid: "valid_forest so ?g F" using V floats by (simp add: valid_forest_def)
    have "tidy so g F \<longrightarrow> tidy so ?g F" using get by (auto simp: tidy_def nodes)
    then show ?thesis using run valid by blast
  qed
qed

section \<open>The operations on the items of the spaces\<close>

fun op_items :: "'s slot_ops \<Rightarrow> 's dock_graph \<Rightarrow> dock_op \<Rightarrow> (space_id \<Rightarrow> item_id multiset) \<Rightarrow> space_id \<Rightarrow> item_id multiset" where
  "op_items so g (CloseItem sp item) M = take_items sp {#item#} M"
| "op_items so g (OpenItem sp tabs item index) M = put_items sp {#item#} M"
| "op_items so g (MoveItem source item target_space target) M = move_items source target_space {#item#} M"
| "op_items so g (FloatItemInWindow source item target_space b) M = move_items source target_space {#item#} M"
| "op_items so g (MoveTabs source tabs target_space target) M = move_items source target_space (carried so g tabs) M"
| "op_items so g (FloatTabsInWindow source tabs target_space b) M = move_items source target_space (carried so g tabs) M"
| "op_items so g (MoveFloating source floating target_space target) M = move_items source target_space (carried so g floating) M"
| "op_items so g op M = M"

text \<open>What the preconditions of the checked operation give.\<close>

fun op_ready :: "'s slot_ops \<Rightarrow> 's dock_graph \<Rightarrow> (space_id \<Rightarrow> grove) \<Rightarrow> dock_op \<Rightarrow> bool" where
  "op_ready so g F (OpenItem sp target_tabs item index) \<longleftrightarrow> (\<forall>tabs. target_tabs = Some tabs \<longrightarrow> is_tabs (node so g tabs))"
| "op_ready so g F (MoveItem source item target_space target) \<longleftrightarrow> plan_ready so g F target_space target"
| "op_ready so g F (MoveTabs source tabs target_space target) \<longleftrightarrow> is_tabs (node so g tabs) \<and> plan_ready so g F target_space target"
| "op_ready so g F (MoveFloating source floating target_space target) \<longleftrightarrow> plan_ready so g F target_space target"
| "op_ready so g F op \<longleftrightarrow> True"

lemma pair_effect: "\<exists>ok g' F'. r = (ok, g') \<and> forest so g' F' \<and> items_of F' = M \<Longrightarrow> effect so M (Some r)"
  by (auto intro: effect_done)

theorem unchecked_effect:
  assumes so: "slot_laws so" and V: "valid_forest so g F" and ready: "op_ready so g F op"
  shows "effect so (op_items so g op (items_of F)) (apply_op_unchecked so g op)"
proof -
  have F: "forest so g F" and M: "items_apart (items_of F)" using V by (simp_all add: valid_forest_def)
  show ?thesis
  proof (cases op)
    case (SelectTab tabs item)
    then show ?thesis using select_tab_valid [OF so V, of tabs item] by (auto simp: valid_forest_def intro!: pair_effect)
  next
    case (CloseItem sp item)
    then show ?thesis using close_item_effect [OF so F M] by simp
  next
    case (OpenItem sp tabs item index)
    then show ?thesis using open_item_effect [OF so F, of tabs sp item index] ready by auto
  next
    case (MoveItem source item target_space target)
    then show ?thesis using move_item_effect [OF so F M plan_ready_ok] ready by simp
  next
    case (MoveTabs source tabs target_space target)
    then show ?thesis using move_tabs_effect [OF so F M] ready by simp
  next
    case (MoveFloating source floating target_space target)
    then show ?thesis using move_floating_effect [OF so F M] ready by simp
  next
    case (FloatItemInWindow source item target_space b)
    then show ?thesis using float_item_effect [OF so F M] by simp
  next
    case (FloatTabsInWindow source tabs target_space b)
    then show ?thesis using float_tabs_effect [OF so F] by simp
  next
    case (SetFloatingBounds sp floating b)
    then show ?thesis using pair_effect [OF set_floating_bounds_forest [OF F]] by simp
  next
    case (RaiseFloating sp floating)
    then show ?thesis using pair_effect [OF raise_floating_forest [OF F]] by simp
  next
    case (SetSplitFractions split fs)
    then show ?thesis using pair_effect [OF update_fractions_forest [OF so F]] by simp
  next
    case (SetSplitFractionsMany us)
    then show ?thesis using pair_effect [OF update_many_forest [OF so F]] by simp
  qed
qed


section \<open>The preconditions\<close>

text \<open>A check returns, and when it succeeds \<open>P\<close> holds.\<close>

definition checks :: "'a checked \<Rightarrow> bool \<Rightarrow> bool" where
  "checks m P \<longleftrightarrow> (\<exists>r. m = Some r \<and> (\<forall>x. r = Inr x \<longrightarrow> P))"

lemma checks_then:
  assumes "checks m P" and "\<And>x. P \<Longrightarrow> checks (f x) Q"
  shows "checks (and_then m f) (P \<and> Q)"
proof -
  obtain r where r: "m = Some r" "\<And>x. r = Inr x \<Longrightarrow> P" using assms(1) by (auto simp: checks_def)
  show ?thesis
  proof (cases r)
    case (Inl e)
    then show ?thesis using r by (simp add: checks_def and_then_def)
  next
    case (Inr x)
    then have P using r(2) by blast
    then show ?thesis using assms(2) [of x] r(1) Inr by (auto simp: checks_def and_then_def)
  qed
qed

lemma target_node_checks:
  assumes F: "forest so g F"
  shows "checks (require_target_node_in_space so g sp n) (n \<in> set (grove_ids (F sp)))"
    and "checks (require_source_node_in_space so g sp n) (n \<in> set (grove_ids (F sp)))"
  using root_for_node_iff [OF F, of sp n]
  by (auto simp: checks_def require_target_node_in_space_def require_source_node_in_space_def split: option.split)

lemma tabs_checks: "checks (Some (case require_tabs_node so g tabs of Inl e \<Rightarrow> Inl e | Inr items \<Rightarrow> Inr (f items))) (is_tabs (node so g tabs))"
  by (auto simp: checks_def require_tabs_node_def is_tabs_def split: option.split dock_node.split)

lemma non_empty_checks: "checks (Some (require_non_empty_tabs_node so g tabs)) (is_tabs (node so g tabs))"
  by (auto simp: checks_def require_non_empty_tabs_node_def require_tabs_node_def is_tabs_def split: option.split dock_node.split)

lemma current_plan:
  assumes F: "forest so g F"
  shows "\<exists>b. edge_dock_plan_is_current so g sp plan = Some b \<and> (b \<longrightarrow> plan_ready so g F sp (Edge plan))"
proof (cases plan)
  case (InsertIntoSplit split zone anchor ai ii sizing scope)
  obtain r where r: "root_for_node_in_space so g sp split = Some r" "r \<noteq> None \<longleftrightarrow> split \<in> set (grove_ids (F sp))"
    using root_for_node_iff [OF F] by blast
  then show ?thesis using InsertIntoSplit
    by (auto simp: plan_ready_def plan_fits_def is_tabs_def split: option.splits dock_node.splits)
next
  case (WrapTarget target axis zone sizing)
  obtain r where "root_for_node_in_space so g sp target = Some r" using root_for_node_iff [OF F] by blast
  then show ?thesis using WrapTarget by (auto simp: plan_ready_def plan_fits_def)
qed

lemma drop_target_checks:
  assumes F: "forest so g F"
  shows "checks (validate_graph_drop_target so g sp target) (plan_ready so g F sp target)"
proof (cases target)
  case (Center tabs)
  have "checks (validate_graph_drop_target so g sp target) (tabs \<in> set (grove_ids (F sp)) \<and> is_tabs (node so g tabs))"
    using checks_then [OF target_node_checks(1) [OF F] tabs_checks] Center by (simp add: validate_graph_drop_target_def)
  then show ?thesis using Center by (auto simp: checks_def plan_ready_def)
next
  case (TabBar tabs i)
  have "checks (validate_graph_drop_target so g sp target) (tabs \<in> set (grove_ids (F sp)) \<and> is_tabs (node so g tabs))"
    using checks_then [OF target_node_checks(1) [OF F] tabs_checks] TabBar by (simp add: validate_graph_drop_target_def)
  then show ?thesis using TabBar by (auto simp: checks_def plan_ready_def)
next
  case (Edge plan)
  obtain b where "edge_dock_plan_is_current so g sp plan = Some b" "b \<longrightarrow> plan_ready so g F sp (Edge plan)" using current_plan [OF F] by blast
  then show ?thesis using Edge by (auto simp: validate_graph_drop_target_def checks_def)
next
  case EmptySpace
  then show ?thesis by (simp add: validate_graph_drop_target_def checks_def plan_ready_def)
qed

lemma open_target_checks:
  assumes "forest so g F"
  shows "checks (validate_open_item_target so g sp tabs) (is_tabs (node so g tabs))"
proof -
  have "checks (validate_open_item_target so g sp tabs) (tabs \<in> set (grove_ids (F sp)) \<and> is_tabs (node so g tabs))"
    unfolding validate_open_item_target_def by (rule checks_then [OF target_node_checks(1) [OF assms] tabs_checks])
  then show ?thesis by (auto simp: checks_def)
qed

lemma move_item_checks:
  assumes F: "forest so g F"
  shows "checks (validate_move_item so g source item target_space target) (plan_ready so g F target_space target)"
proof -
  obtain b where b: "(if target = EmptySpace then target_space_is_empty_for_item_move so g source item target_space else Some True) = Some b"
    using empty_for_item_move [OF F, of source item target_space] by (cases "target = EmptySpace") auto
  obtain r where "find_item_in_space so g source item = Some r" using find_item_forest [OF F] by blast
  then show ?thesis using b drop_target_checks [OF F, of target_space target] by (auto simp: validate_move_item_def checks_def)
qed

lemma collect_subtree_returns:
  assumes F: "forest so g F" and n: "n \<in> set (grove_ids (F sp)) \<or> is_tabs (node so g n)"
  shows "\<exists>xs. collect_items_in_subtree so g n = Some xs"
proof (cases "is_tabs (node so g n)")
  case True
  then show ?thesis by (auto simp: is_tabs_iff collect_items_in_subtree_def collect_items_into.simps)
next
  case False
  then obtain t where t: "t \<in> set (trees (F sp))" "n \<in> set (ids t)" using n by (auto simp: grove_ids_tree)
  obtain t0 where "rep (node so g) t0" "tid t0 = n" using rep_subtree_at [OF forest_rep [OF F t(1)] t(2)] by blast
  then show ?thesis using collect_items_tree [of so g t0] by (auto simp: collect_items_in_subtree_def)
qed

lemma empty_for_tabs_returns:
  assumes F: "forest so g F" and tabs: "has_tree (node so g) tabs \<or> node so g tabs = None"
  shows "\<exists>b. target_space_is_empty_for_tabs_move so g source tabs target = Some b"
proof -
  obtain xs where "collect_items_in_space so g target = Some xs" using collect_items_forest [OF F] by blast
  moreover obtain ys where "collect_items_in_subtree so g tabs = Some ys"
  proof (cases "node so g tabs")
    case None
    then show ?thesis using that by (simp add: collect_items_in_subtree_def collect_items_into.simps)
  next
    case (Some x)
    then obtain t0 where "rep (node so g) t0" "tid t0 = tabs" using tabs by (auto simp: has_tree_def)
    then show ?thesis using that collect_items_tree [of so g t0] by (auto simp: collect_items_in_subtree_def)
  qed
  ultimately show ?thesis by (auto simp: target_space_is_empty_for_tabs_move_def)
qed


lemma move_tabs_checks:
  assumes F: "forest so g F" and tabs: "has_tree (node so g) tabs \<or> node so g tabs = None"
  shows "checks (validate_move_tabs so g source tabs target_space target) (is_tabs (node so g tabs) \<and> plan_ready so g F target_space target)"
proof -
  obtain b where b: "(if target = EmptySpace then target_space_is_empty_for_tabs_move so g source tabs target_space else Some True) = Some b"
    using empty_for_tabs_returns [OF F tabs, of source target_space] by (cases "target = EmptySpace") auto
  have "checks (and_then (Some (require_non_empty_tabs_node so g tabs)) (\<lambda>_.
         and_then (require_source_node_in_space so g source tabs) (\<lambda>_. validate_graph_drop_target so g target_space target)))
      (is_tabs (node so g tabs) \<and> tabs \<in> set (grove_ids (F source)) \<and> plan_ready so g F target_space target)"
    by (rule checks_then [OF non_empty_checks]) (rule checks_then [OF target_node_checks(2) [OF F]], rule drop_target_checks [OF F])
  then show ?thesis using b by (cases b) (auto simp: validate_move_tabs_def checks_def)
qed

lemma merges_visible_returns:
  assumes F: "forest so g F" and c: "floating_container_of g source floating \<noteq> None"
  shows "\<exists>r. merges_visible_split so g floating target = Some r"
proof -
  obtain t where t: "t \<in> set (trees (F source))" "tid t = floating" using floating_tree [OF F c] by blast
  have "\<exists>b. is_visible_split_payload so g child = Some b" if fl: "node so g floating = Some (Floating child)" for child
  proof -
    obtain tc where "rep (node so g) tc" "tid tc = child"
      using forest_rep [OF F t(1)] t(2) fl by (cases t) auto
    then show ?thesis using is_visible_tree by blast
  qed
  then show ?thesis unfolding merges_visible_split_def
    by (cases target; cases "node so g floating") (fastforce split: dock_node.split)+
qed

lemma move_floating_checks:
  assumes F: "forest so g F"
  shows "checks (validate_move_floating so g source floating target_space target)
    (plan_ready so g F target_space target \<and> floating_container_of g source floating \<noteq> None)"
proof (cases "floating_container_of g source floating = None")
  case True
  then show ?thesis by (simp add: validate_move_floating_def checks_def)
next
  case False
  obtain r where r: "merges_visible_split so g floating target = Some r" using merges_visible_returns [OF F False] by blast
  obtain t where t: "t \<in> set (trees (F source))" "tid t = floating" using floating_tree [OF F False] by blast
  have own: "checks (case existing_node target of
        Some n \<Rightarrow> do {
          own \<leftarrow> (if source = target_space then subtree_contains so g n floating else Some False);
          Some (if own then Inl (CannotMergeFloatingIntoOwnSubtree floating n) else Inr ())
        }
      | None \<Rightarrow> Some (Inr ())) True"
    using subtree_contains_tree [OF forest_rep [OF F t(1)]] t(2) by (cases "existing_node target") (auto simp: checks_def)
  show ?thesis
    using checks_then [OF drop_target_checks [OF F, of target_space target] own] False r
    by (cases r) (auto simp: validate_move_floating_def checks_def)
qed

section \<open>The transaction\<close>

lemma verify_returns:
  assumes F: "forest so g F"
  shows "\<exists>r. verify so g name expected = Some r"
  by (cases expected) (auto simp: find_item_forest [OF F] collect_items_forest [OF F])

text \<open>
  The outcome of an operation on a valid graph: an error leaves the graph; no change keeps the items (the selection may be
  recorded once more); a change gives them as \<open>M\<close>. Nothing is stored beside the forest where nothing was.
\<close>

definition outcome :: "'s slot_ops \<Rightarrow> 's dock_graph \<Rightarrow> (space_id \<Rightarrow> grove) \<Rightarrow> (space_id \<Rightarrow> item_id multiset) \<Rightarrow>
    ((mutation_error + bool) \<times> 's dock_graph) panics \<Rightarrow> bool" where
  "outcome so g F M r \<longleftrightarrow> (\<exists>res g'. r = Some (res, g') \<and>
     (case res of
        Inl e \<Rightarrow> g' = g
      | Inr changed \<Rightarrow> \<exists>F'. valid_forest so g' F' \<and> items_of F' = (if changed then M else items_of F) \<and> (tidy so g F \<longrightarrow> tidy so g' F')))"

lemma outcome_error: "outcome so g F M (Some (Inl e, g))"
  by (simp add: outcome_def)

lemma outcome_same: "valid_forest so g F \<Longrightarrow> outcome so g F M (Some (Inr False, g))"
  by (auto simp: outcome_def)

lemma outcome_guarded:
  assumes "checks m P" and "\<And>x. P \<Longrightarrow> outcome so g F M (f x)"
  shows "outcome so g F M (guarded g m f)"
proof -
  obtain r where r: "m = Some r" "\<And>x. r = Inr x \<Longrightarrow> P" using assms(1) by (auto simp: checks_def)
  then show ?thesis using assms(2) by (cases r) (auto simp: guarded_def outcome_error)
qed

theorem mutation_plan_outcome:
  assumes so: "slot_laws so" and V: "valid_forest so g F" and ready: "op_ready so g F op"
  shows "outcome so g F (op_items so g op (items_of F)) (apply_tree_mutation_plan so g op expected allow_noop)"
proof -
  obtain before where before: "export_layout so g = Some before" using export_layout_returns [OF so] by blast
  obtain retention where retention: "capture_mutation_retention so g = Some retention" using capture_returns [OF so] by blast
  obtain ok g1 F1 where 1: "apply_op_unchecked so g op = Some (ok, g1)" "forest so g1 F1" "ok \<Longrightarrow> items_of F1 = op_items so g op (items_of F)"
    using unchecked_effect [OF so V ready] by (auto simp: effect_def)
  obtain g2 where g2: "(if ok then finalize_checked_mutation so g1 retention else Some g1) = Some g2" "forest so g2 F1"
    "ok \<Longrightarrow> retention = [] \<Longrightarrow> tidy so g2 F1"
    using finalize_forest [OF so 1(2), of retention] 1(2) by (cases ok) auto
  have F: "forest so g F" using V by (simp add: valid_forest_def)
  then have none_kept: "tidy so g F \<Longrightarrow> retention = []" using capture_tidy [OF so F] retention by simp
  obtain after where after: "export_layout so g2 = Some after" using export_layout_returns [OF so] by blast
  show ?thesis
  proof (cases "ok \<and> \<not> layout_eq after before")
    case False
    then show ?thesis using before retention 1(1) g2(1) after
      by (auto simp: apply_tree_mutation_plan_def outcome_error outcome_same [OF V])
  next
    case True
    obtain r where r: "graph_validate so g2 = Some r" "r = Inr () \<longleftrightarrow> dock_valid so g2"
      using graph_validate_decides [OF so maps_ok_forest [OF g2(2)]] by blast
    obtain met where met: "verify so g2 (op_name op) expected = Some met" using verify_returns [OF g2(2)] by blast
    have run: "apply_tree_mutation_plan so g op expected allow_noop = Some (case r of
         Inl e \<Rightarrow> (Inl (MutationInvariantViolation (op_name op) (InvalidGraph e)), g)
       | Inr _ \<Rightarrow> (case met of Inl e \<Rightarrow> (Inl e, g) | Inr _ \<Rightarrow> (Inr True, g2)))"
      using True before retention 1(1) g2(1) after r(1) met
      by (auto simp: apply_tree_mutation_plan_def split: sum.split)
    show ?thesis
    proof (cases r)
      case (Inl e)
      then show ?thesis using run by (simp add: outcome_def)
    next
      case (Inr u)
      then obtain F2 where F2: "valid_forest so g2 F2" using r(2) by (auto simp: dock_valid_def)
      then have "F2 = F1" using grove_at_forest [OF g2(2)] grove_at_forest [of so g2 F2] by (auto simp: valid_forest_def)
      then have result: "valid_forest so g2 F1" "items_of F1 = op_items so g op (items_of F)"
        "tidy so g F \<longrightarrow> tidy so g2 F1"
        using F2 1(3) True g2(3) none_kept by auto
      show ?thesis
      proof (cases met)
        case (Inl e)
        then show ?thesis using run \<open>r = Inr u\<close> by (simp add: outcome_def)
      next
        case ok: (Inr v)
        then have "apply_tree_mutation_plan so g op expected allow_noop = Some (Inr True, g2)" using run \<open>r = Inr u\<close> by simp
        then show ?thesis unfolding outcome_def using result by (intro exI [of _ "Inr True"] exI [of _ g2]) auto
      qed
    qed
  qed
qed

end
