(* ===== verification/Dock_Checked.thy ===== *)
theory Dock_Checked
  imports Dock_Transact
begin

text \<open>The outcome of every checked operation on a valid graph.\<close>

text \<open>
  The items of the tabs to move are collected before any check of where they are, so they have to be the root of a finite
  subtree, or missing: the recursion on a stored cycle has no end.
\<close>

definition move_sound :: "'s slot_ops \<Rightarrow> 's dock_graph \<Rightarrow> dock_op \<Rightarrow> bool" where
  "move_sound so g op \<longleftrightarrow> (case op of MoveTabs source tabs target_space target \<Rightarrow> has_tree (node so g) tabs \<or> node so g tabs = None | _ \<Rightarrow> True)"

lemma move_sound_tidy:
  assumes F: "forest so g F" and tidy: "tidy so g F"
  shows "move_sound so g op"
proof -
  have "has_tree (node so g) n" if stored: "node so g n \<noteq> None" for n
  proof -
    obtain sp t where t: "t \<in> set (trees (F sp))" "n \<in> set (ids t)" using tidy stored by (auto simp: tidy_def grove_ids_tree)
    then show ?thesis using rep_subtree_at [OF forest_rep [OF F t(1)] t(2)] by (auto simp: has_tree_def)
  qed
  then show ?thesis by (auto simp: move_sound_def split: dock_op.split)
qed

lemma found_outcome:
  assumes F: "forest so g F" and ok: "outcome so g F M r"
  shows "outcome so g F M (do { found \<leftarrow> find_item_in_space so g sp item; if found = None then Some (Inl e, g) else r })"
proof -
  obtain f where "find_item_in_space so g sp item = Some f" using find_item_forest [OF F] by blast
  then show ?thesis using assms(2) by (simp add: outcome_error)
qed

theorem checked_outcome:
  assumes so: "slot_laws so" and V: "valid_forest so g F" and sound: "move_sound so g op"
  shows "outcome so g F (op_items so g op (items_of F)) (apply_op_checked so g op)"
proof -
  have F: "forest so g F" using V by (simp add: valid_forest_def)
  note plan = mutation_plan_outcome [OF so V]
  show ?thesis
  proof (cases op)
    case (SelectTab tabs item)
    obtain ok g' F' where "select_tab so g tabs item = (ok, g')" "valid_forest so g' F'" "items_of F' = items_of F"
      "tidy so g F \<longrightarrow> tidy so g' F'"
      using select_tab_valid [OF so V] by blast
    then show ?thesis using SelectTab
      by (cases "require_tabs_node so g tabs") (auto simp: guarded_def outcome_def)
  next
    case (CloseItem sp item)
    then show ?thesis
      using found_outcome [OF F plan [of "CloseItem sp item"], where sp = sp and item = item and e = "ItemNotFound sp item"] by simp
  next
    case (OpenItem sp target_tabs item index)
    obtain present where present: "contains_item so g item = Some present" using contains_item_forest [OF F] by blast
    have "checks (case target_tabs of Some tabs \<Rightarrow> validate_open_item_target so g sp tabs
          | None \<Rightarrow> Some (if \<not> target_space_is_empty_for_open g sp then Inl (TargetSpaceNotEmpty sp) else Inr ()))
        (op_ready so g F op)"
      using open_target_checks [OF F] OpenItem by (cases target_tabs) (auto simp: checks_def)
    note guard = outcome_guarded [OF this]
    show ?thesis
    proof (cases present)
      case True
      then show ?thesis using OpenItem present by (simp add: outcome_error)
    next
      case False
      have "apply_op_checked so g op = guarded g (case target_tabs of Some tabs \<Rightarrow> validate_open_item_target so g sp tabs
          | None \<Rightarrow> Some (if \<not> target_space_is_empty_for_open g sp then Inl (TargetSpaceNotEmpty sp) else Inr ()))
         (\<lambda>_. apply_tree_mutation_plan so g op (ItemsReachable sp [item]) False)"
        unfolding OpenItem apply_op_checked.simps using present False by (simp only: Option.bind.bind_lunit if_False)
      then show ?thesis by (simp only:) (rule guard, rule plan)
    qed
  next
    case (MoveItem source item target_space target)
    have "op_ready so g F op" if "plan_ready so g F target_space target" using that MoveItem by simp
    note rest = plan [OF this]
    obtain f where f: "(if source = target_space then find_item_in_space so g source item else Some None) = Some f"
      using find_item_forest [OF F] by (metis (full_types))
    show ?thesis unfolding MoveItem apply_op_checked.simps
      by (rule outcome_guarded [OF move_item_checks [OF F]]) (use f rest MoveItem in \<open>simp add: outcome_error outcome_same [OF V]\<close>)
  next
    case (MoveTabs source tabs target_space target)
    have ready: "op_ready so g F op" if "is_tabs (node so g tabs) \<and> plan_ready so g F target_space target" using that MoveTabs by simp
    have has: "has_tree (node so g) tabs \<or> node so g tabs = None" using sound MoveTabs by (simp add: move_sound_def)
    show ?thesis unfolding MoveTabs apply_op_checked.simps
    proof (rule outcome_guarded [OF move_tabs_checks [OF F has]])
      fix u assume fit: "is_tabs (node so g tabs) \<and> plan_ready so g F target_space target"
      then obtain xs where "collect_items_in_subtree so g tabs = Some xs" using collect_subtree_returns [OF F] by blast
      then show "outcome so g F (op_items so g (MoveTabs source tabs target_space target) (items_of F))
          (if source = target_space \<and> merged_into_itself target tabs then Some (Inr False, g)
           else do {
             items \<leftarrow> collect_items_in_subtree so g tabs;
             apply_tree_mutation_plan so g (MoveTabs source tabs target_space target) (ItemsReachable target_space items) False
           })"
        using plan [OF ready [OF fit]] MoveTabs by (simp add: outcome_error outcome_same [OF V])
    qed
  next
    case (MoveFloating source floating target_space target)
    have ready: "op_ready so g F op" if "plan_ready so g F target_space target" using that MoveFloating by simp
    show ?thesis unfolding MoveFloating apply_op_checked.simps
    proof (rule outcome_guarded [OF move_floating_checks [OF F]])
      fix u assume fit: "plan_ready so g F target_space target \<and> floating_container_of g source floating \<noteq> None"
      then obtain t where "t \<in> set (trees (F source))" "tid t = floating" using floating_tree [OF F] by blast
      then have "floating \<in> set (grove_ids (F source))" using tid_in_ids [of t] by (auto simp: grove_ids_tree simp del: tid_in_ids)
      then obtain xs where "collect_items_in_subtree so g floating = Some xs" using collect_subtree_returns [OF F] by blast
      then show "outcome so g F (op_items so g (MoveFloating source floating target_space target) (items_of F))
          (do {
             items \<leftarrow> collect_items_in_subtree so g floating;
             apply_tree_mutation_plan so g (MoveFloating source floating target_space target) (ItemsReachable target_space items) False
           })"
        using plan [OF ready] fit MoveFloating by simp
    qed
  next
    case (FloatItemInWindow source item target_space b)
    then show ?thesis
      using found_outcome [OF F plan [of "FloatItemInWindow source item target_space b"], where sp = source and item = item and
        e = "ItemNotFound source item"] by simp
  next
    case (FloatTabsInWindow source tabs target_space b)
    have check: "checks (and_then (Some (require_non_empty_tabs_node so g tabs)) (\<lambda>_. require_source_node_in_space so g source tabs))
        (is_tabs (node so g tabs) \<and> tabs \<in> set (grove_ids (F source)))"
      by (rule checks_then [OF non_empty_checks target_node_checks(2) [OF F]])
    show ?thesis unfolding FloatTabsInWindow apply_op_checked.simps
    proof (rule outcome_guarded [OF check])
      fix u assume "is_tabs (node so g tabs) \<and> tabs \<in> set (grove_ids (F source))"
      then obtain xs where "collect_items_in_subtree so g tabs = Some xs" using collect_subtree_returns [OF F] by blast
      then show "outcome so g F (op_items so g (FloatTabsInWindow source tabs target_space b) (items_of F))
          (do {
             items \<leftarrow> collect_items_in_subtree so g tabs;
             apply_tree_mutation_plan so g (FloatTabsInWindow source tabs target_space b) (ItemsReachable target_space items) False
           })"
        using plan [of "FloatTabsInWindow source tabs target_space b"] by simp
    qed
  next
    case (SetFloatingBounds sp floating b)
    then show ?thesis using plan [of "SetFloatingBounds sp floating b"] by (simp add: outcome_error outcome_same [OF V])
  next
    case (RaiseFloating sp floating)
    then show ?thesis using plan [of "RaiseFloating sp floating"] by (simp add: outcome_error outcome_same [OF V])
  next
    case (SetSplitFractions split fs)
    show ?thesis unfolding SetSplitFractions apply_op_checked.simps
      by (rule outcome_guarded [where P = True]) (use plan [of "SetSplitFractions split fs"] in \<open>simp_all add: checks_def\<close>)
  next
    case (SetSplitFractionsMany us)
    show ?thesis unfolding SetSplitFractionsMany apply_op_checked.simps
      by (rule outcome_guarded [where P = True]) (use plan [of "SetSplitFractionsMany us"] in \<open>simp_all add: checks_def\<close>)
  qed
qed

end
