(* ===== verification/Dock_Sample.thy ===== *)
theory Dock_Sample
  imports Dock_Checked
begin

text \<open>A slot map as an association list, and graphs stored in it, on which the theorems about the docking graph are applied.\<close>

text \<open>The recursions of the store, by their equations.\<close>

declare
  collect_items_into.simps [code] collect_nodes_into.simps [code] collect_tabs_into.simps [code]
  export_subtree.simps [code] find_item_in_subtree.simps [code] find_parent_in_subtree.simps [code]
  first_tabs_in_subtree.simps [code] flatten_same_axis_splits.simps [code] index_subtree.simps [code]
  is_visible_split_payload.simps [code] plan_in_parents.simps [code] reach_loop.simps [code]
  simplify_subtree.simps [code] subtree_contains.simps [code] validate_subtree.simps [code]

definition list_slots :: "(node_id \<times> dock_node) list slot_ops" where
  "list_slots = \<lparr>so_new = [],
     so_insert = (\<lambda>s n. (Suc (Max (set (0 # map fst s))), (Suc (Max (set (0 # map fst s))), n) # s)),
     so_get = map_of,
     so_set = (\<lambda>s k n. (k, n) # s),
     so_remove = (\<lambda>s k. filter (\<lambda>e. fst e \<noteq> k) s),
     so_keys = (\<lambda>s. remdups (map fst s))\<rparr>"

lemma list_slots_laws: "slot_laws list_slots"
proof -
  have fresh: "map_of s (Suc (Max (set (0 # map fst s)))) = None" for s :: "(node_id \<times> dock_node) list"
  proof -
    have "k \<le> Max (set (0 # map fst s))" if "k \<in> set (map fst s)" for k using that by (intro Max_ge) simp_all
    then have "Suc (Max (set (0 # map fst s))) \<notin> fst ` set s" by fastforce
    then show ?thesis by (simp only: map_of_eq_None_iff not_False_eq_True)
  qed
  have remove: "map_of (filter (\<lambda>e. fst e \<noteq> k) s) = (map_of s)(k := None)" for s :: "(node_id \<times> dock_node) list" and k
    by (induction s) (auto simp: fun_eq_iff)
  show ?thesis using fresh remove by (auto simp: slot_laws_def list_slots_def dom_map_of_conv_image_fst)
qed

text \<open>One stack in the only space; the names are texts of at most one code point.\<close>

definition one_stack :: "(node_id \<times> dock_node) list dock_graph" where
  "one_stack = \<lparr>dg_nodes = [(1, Tabs [[1], [2]] (Some [1]))], dg_roots = [([], 1)], dg_floatings = [], dg_central = [], dg_history = []\<rparr>"

definition one_stack_forest :: "space_id \<Rightarrow> grove" where
  "one_stack_forest sp = (if sp = [] then (Some (TTabs 1 [[1], [2]] (Some [1])), []) else (None, []))"

lemma one_stack_is_valid: "valid_forest list_slots one_stack one_stack_forest"
  by (auto simp: valid_forest_def forest_def maps_ok_def linked_def apart_def items_apart_def floats_ok_def central_ok_def
      one_stack_def one_stack_forest_def list_slots_def floating_containers_def floating_entries_def
      grove_ids_def grove_items_def bt_ok_def)

lemma empty_graph_valid: "slot_laws so \<Longrightarrow> valid_forest so (graph_new so) (\<lambda>sp. (None, []))"
  by (auto simp: valid_forest_def forest_def maps_ok_def linked_def apart_def items_apart_def floats_ok_def central_ok_def
      graph_new_def floating_containers_def floating_entries_def grove_ids_def grove_items_def bt_ok_def)

lemma empty_graph_tidy: "slot_laws so \<Longrightarrow> tidy so (graph_new so) F"
  by (simp add: tidy_def graph_new_def slot_laws_def)

end
