(* ===== verification/Dock_Properties.thy ===== *)
theory Dock_Properties
  imports Dock_Sample
begin

text \<open>The properties of the docking graph: validation, the checked operations, simplification and split fractions.\<close>

section \<open>Reading the graph\<close>

text \<open>The items of the spaces, as the queries of the graph return them.\<close>

definition space_items :: "'s slot_ops \<Rightarrow> 's dock_graph \<Rightarrow> space_id \<Rightarrow> item_id multiset" where
  "space_items so g sp = (case collect_items_in_space so g sp of Some xs \<Rightarrow> mset xs | None \<Rightarrow> {#})"

lemma space_items_forest: "forest so g F \<Longrightarrow> space_items so g = items_of F"
  using collect_items_forest by (fastforce simp: space_items_def grove_items_def)

lemma space_items_valid: "valid_forest so g F \<Longrightarrow> space_items so g = items_of F"
  by (simp add: valid_forest_def space_items_forest)

text \<open>A sequence of operations, each applied to the graph the one before it left, whatever its result.\<close>

fun dock_run :: "'s slot_ops \<Rightarrow> dock_op list \<Rightarrow> 's dock_graph \<Rightarrow> 's dock_graph panics" where
  "dock_run so [] g = Some g"
| "dock_run so (op # ops) g = do { (res, g') \<leftarrow> apply_op_checked so g op; dock_run so ops g' }"

lemma step_valid:
  assumes so: "slot_laws so" and V: "valid_forest so g F" and sound: "move_sound so g op"
  shows "\<exists>res g' F'. apply_op_checked so g op = Some (res, g') \<and> valid_forest so g' F' \<and>
    items_of F' = (if res = Inr True then op_items so g op (items_of F) else items_of F) \<and> (tidy so g F \<longrightarrow> tidy so g' F')"
proof -
  obtain res g' where run: "apply_op_checked so g op = Some (res, g')" and
    out: "case res of Inl e \<Rightarrow> g' = g | Inr changed \<Rightarrow> \<exists>F'. valid_forest so g' F' \<and>
      items_of F' = (if changed then op_items so g op (items_of F) else items_of F) \<and> (tidy so g F \<longrightarrow> tidy so g' F')"
    using checked_outcome [OF so V sound] by (auto simp: outcome_def)
  show ?thesis
  proof (cases res)
    case (Inl e)
    then show ?thesis using run out V by auto
  next
    case (Inr changed)
    then show ?thesis using run out by auto
  qed
qed

lemma run_valid:
  assumes so: "slot_laws so"
  shows "valid_forest so g F \<Longrightarrow> tidy so g F \<Longrightarrow> \<exists>g' F'. dock_run so ops g = Some g' \<and> valid_forest so g' F' \<and> tidy so g' F'"
proof (induction ops arbitrary: g F)
  case (Cons op ops)
  have "move_sound so g op" using Cons.prems by (intro move_sound_tidy) (auto simp: valid_forest_def)
  then obtain res g1 F1 where "apply_op_checked so g op = Some (res, g1)" "valid_forest so g1 F1" "tidy so g1 F1"
    using step_valid [OF so Cons.prems(1)] Cons.prems(2) by metis
  then show ?case using Cons.IH [of g1 F1] by simp
qed auto

lemma error_keeps:
  assumes "apply_op_checked so g op = Some (Inl e, g')"
  shows "g' = g"
proof -
  have plan: "apply_tree_mutation_plan so g op expected allow_noop = Some (Inl e, g') \<Longrightarrow> g' = g" for op expected allow_noop
    by (auto simp: apply_tree_mutation_plan_def split: if_splits sum.splits prod.splits Option.bind_splits)
  have guard: "guarded g m f = Some (Inl e, g') \<Longrightarrow> (\<And>x. f x = Some (Inl e, g') \<Longrightarrow> g' = g) \<Longrightarrow> g' = g" for m :: "'b checked" and f
    by (auto simp: guarded_def split: sum.splits Option.bind_splits)
  show ?thesis using assms
    by (cases op) (auto dest!: plan guard split: if_splits Option.bind_splits prod.splits)
qed

section \<open>Validation\<close>

text \<open>C16: \<open>validate\<close> returns on every graph, also on one whose nodes form a cycle or point nowhere, and accepts it exactly when
  it is valid: the spaces hold finite trees on nodes of their own, the stacks have items and a selection among them, the splits
  two or more children with a proper fraction each, no item occurs twice in the graph, floating containers are floating nodes with
  proper bounds, and central regions lie inside the root of their space.
\<close>

theorem dock_validate_exact:
  assumes "slot_laws so" and "maps_ok g"
  shows "\<exists>r. graph_validate so g = Some r \<and> (r = Inr () \<longleftrightarrow> dock_valid so g)"
  by (rule graph_validate_decides [OF assms])

definition cyclic :: "(node_id \<times> dock_node) list dock_graph" where
  "cyclic = one_stack\<lparr>dg_nodes := [(1, Split Horizontal [1, 1] [Fin (1 / 2), Fin (1 / 2)])]\<rparr>"

lemma dock_validate_exact_witness: "\<not> dock_valid list_slots cyclic"
proof -
  have "maps_ok cyclic" by (simp add: maps_ok_def cyclic_def one_stack_def bt_ok_def)
  moreover have "graph_validate list_slots cyclic \<noteq> Some (Inr ())" by code_simp
  ultimately show ?thesis using dock_validate_exact [OF list_slots_laws, of cyclic] by auto
qed

section \<open>Checked operations\<close>



text \<open>C14: An operation changes the items of the spaces as it says and no further: closing takes the item out, opening puts it in, a
  move takes the item (or the items below the stack or the floating container) out of the source and into the target space, and
  selecting, resizing, raising and changing split fractions leave them; where it reports no change or an error nothing moves. So
  no item is lost or doubled, however the tree is rearranged and simplified.\<close>

theorem checked_op_items:
  assumes "slot_laws so" and "dock_valid so g" and "move_sound so g op" and "apply_op_checked so g op = Some (res, g')"
  shows "space_items so g' = (if res = Inr True then op_items so g op (space_items so g) else space_items so g)"
proof -
  obtain F where V: "valid_forest so g F" using assms(2) by (auto simp: dock_valid_def)
  obtain F' where V': "valid_forest so g' F'" "items_of F' = (if res = Inr True then op_items so g op (items_of F) else items_of F)"
    using step_valid [OF assms(1) V assms(3)] assms(4) by auto
  show ?thesis unfolding space_items_valid [OF V] space_items_valid [OF V'(1)] by (rule V'(2))
qed

abbreviation to_new_space :: dock_op where
  "to_new_space \<equiv> MoveItem [] [2] [7] EmptySpace"

lemma checked_op_items_witness:
  "\<exists>g'. apply_op_checked list_slots one_stack to_new_space = Some (Inr True, g') \<and>
    space_items list_slots g' [] = {#[1]#} \<and> space_items list_slots g' [7] = {#[2]#}"
proof -
  have run: "map_option fst (apply_op_checked list_slots one_stack to_new_space) = Some (Inr True)" by code_simp
  then obtain g' where g': "apply_op_checked list_slots one_stack to_new_space = Some (Inr True, g')" by force
  have valid: "dock_valid list_slots one_stack" using one_stack_is_valid by (auto simp: dock_valid_def)
  have items: "space_items list_slots one_stack = items_of one_stack_forest" by (rule space_items_valid [OF one_stack_is_valid])
  have "space_items list_slots g' = move_items [] [7] {#[2]#} (items_of one_stack_forest)"
    using checked_op_items [OF list_slots_laws valid _ g'] items by (simp add: move_sound_def)
  then show ?thesis using g'
    by (auto simp: move_items_def take_items_def put_items_def one_stack_forest_def grove_items_def)
qed

text \<open>C29: A failed operation leaves the graph as it was, in every case, also on a graph that is not valid.\<close>

theorem failed_op_keeps_graph:
  assumes "apply_op_checked so g op = Some (Inl e, g')"
  shows "g' = g"
  by (rule error_keeps [OF assms])

lemma failed_op_keeps_graph_witness:
  "\<exists>g'. apply_op_checked list_slots one_stack (MoveItem [] [2] [] EmptySpace) = Some (Inl (TargetSpaceNotEmpty []), g') \<and> g' = one_stack"
proof -
  have run: "map_option fst (apply_op_checked list_slots one_stack (MoveItem [] [2] [] EmptySpace)) = Some (Inl (TargetSpaceNotEmpty []))"
    by code_simp
  then obtain g' where "apply_op_checked list_slots one_stack (MoveItem [] [2] [] EmptySpace) = Some (Inl (TargetSpaceNotEmpty []), g')"
    by force
  then show ?thesis using failed_op_keeps_graph by blast
qed

text \<open>C17: From the new graph every sequence of operations runs to its end, whatever their targets, and leaves a valid graph.\<close>

theorem dock_runs_valid:
  assumes "slot_laws so"
  shows "\<exists>g. dock_run so ops (graph_new so) = Some g \<and> dock_valid so g"
proof -
  obtain g F where "dock_run so ops (graph_new so) = Some g" "valid_forest so g F"
    using run_valid [OF assms empty_graph_valid [OF assms] empty_graph_tidy [OF assms], of ops] by blast
  then show ?thesis by (auto simp: dock_valid_def)
qed

lemma dock_runs_valid_witness:
  "\<exists>g. dock_run list_slots [OpenItem [] None [1] None, OpenItem [] (Some 1) [2] None, to_new_space, CloseItem [] [1]] (graph_new list_slots)
     = Some g \<and> dock_valid list_slots g"
  by (rule dock_runs_valid [OF list_slots_laws])

section \<open>Simplification\<close>

text \<open>C28: Simplification of a space returns, and computes on its trees the reference function \<open>simp_tree\<close>: every tree it leaves is
  canonical (no empty stack, no split with one child or with a child that splits on the same axis, as many fractions as
  children), the items stay in their order, and the other spaces are untouched.
\<close>

theorem simplify_space_canonical:
  assumes "slot_laws so" and "forest so g F"
  shows "\<exists>g'. simplify_space so g sp = Some g' \<and> forest so g' (F(sp := simp_grove (F sp))) \<and>
    (\<forall>t \<in> set (trees (simp_grove (F sp))). canonical t) \<and>
    collect_items_in_space so g' sp = collect_items_in_space so g sp"
proof -
  obtain g' where g': "simplify_space so g sp = Some g'" "forest so g' (F(sp := simp_grove (F sp)))"
    using simplify_space_forest [OF assms] by blast
  have "canonical t" if "t \<in> set (trees (simp_grove (F sp)))" for t
    using that simp_tree_canonical by (auto simp: simp_grove_trees map_filter_def)
  moreover have "collect_items_in_space so g' sp = collect_items_in_space so g sp"
    using collect_items_forest [OF assms(2), of sp] collect_items_forest [OF g'(2), of sp] by (simp add: simp_grove_trees simp_trees_items)
  ultimately show ?thesis using g' by blast
qed

lemma simplify_space_canonical_witness:
  "\<exists>g'. simplify_space list_slots one_stack [] = Some g' \<and> collect_items_in_space list_slots g' [] = Some [[1], [2]]"
proof -
  have F: "forest list_slots one_stack one_stack_forest" using one_stack_is_valid by (simp add: valid_forest_def)
  have "collect_items_in_space list_slots one_stack [] = Some [[1], [2]]"
    using collect_items_forest [OF F] by (simp add: one_stack_forest_def)
  then show ?thesis using simplify_space_canonical [OF list_slots_laws F, of "[]"] by auto
qed

section \<open>Split fractions\<close>

text \<open>C30: Normalised fractions are as many as were given (one for none) and each is a finite number between 0 and 1, whatever the
  input holds: negative, infinite or NaN shares, sums that overflow, rounding.\<close>

theorem fractions_between_0_and_1:
  "length (normalize_split_fractions fs) = max (length fs) 1 \<and> list_all fraction_ok (normalize_split_fractions fs)"
  using normalize_bounds [of fs] by (simp add: list_all_iff)

end
