(* ===== verification/Dock_Layout.thy ===== *)
theory Dock_Layout
  imports Dock_Checked
begin

text \<open>
  Validation and import of a serialised layout (\<open>crates/gpui_docking/src/layout_validation.rs\<close>, \<open>layout.rs\<close>).

  The nodes of a layout are indexed by a \<open>HashMap\<close>; the order in which it is iterated is the argument \<open>order\<close>, of
  which only is known that it lists the same nodes.
\<close>

section \<open>Nodes by id\<close>

fun layout_id :: "layout_node \<Rightarrow> u32" where
  "layout_id (LSplit i axis children fractions) = i"
| "layout_id (LTabs i items selected) = i"

fun layout_children :: "layout_node \<Rightarrow> u32 list" where
  "layout_children (LSplit i axis children fractions) = children"
| "layout_children (LTabs i items selected) = []"

type_synonym layout_index = "u32 \<rightharpoonup> layout_node"

definition children_in :: "layout_index \<Rightarrow> u32 \<Rightarrow> u32 list" where
  "children_in by_id i = (case by_id i of Some n \<Rightarrow> layout_children n | None \<Rightarrow> [])"

text \<open>Insertion in the order of the nodes: the last one wins.\<close>

definition index_nodes :: "layout_node list \<Rightarrow> layout_index" where
  "index_nodes ns = map_of (rev (map (\<lambda>n. (layout_id n, n)) ns))"

definition iterates :: "(layout_node list \<Rightarrow> layout_node list) \<Rightarrow> bool" where
  "iterates order \<longleftrightarrow> (\<forall>ns. set (order ns) = set ns)"

section \<open>Validation\<close>

datatype layout_error =
    LUnsupportedVersion u32 u32
  | LDuplicateSpaceId space_id
  | LDuplicateNodeId u32
  | LDuplicateItemId item_id u32 u32
  | LMissingNodeId u32
  | LCycleDetected u32
  | LEmptyTabs u32
  | LTabsSelectionMissing u32
  | LTabsSelectedItemMissing u32 item_id
  | LEmptySplitChildren u32
  | LSplitFractionsLenMismatch u32 nat nat
  | LSplitNonFiniteFraction u32 nat f32
  | LSplitNegativeFraction u32 nat f32
  | LSpaceRootMissing space_id u32
  | LFloatingRootMissing space_id u32
  | LInvalidFloatingBounds space_id u32
  | LDuplicateNodeReference u32
  | LUnreachableNodeId u32
  | LCentralNodeMissing space_id u32
  | LCentralNodeNotInRoot space_id u32

text \<open>The first value that came before.\<close>

fun repeated :: "'a list \<Rightarrow> 'a set \<Rightarrow> 'a option" where
  "repeated [] seen = None"
| "repeated (x # xs) seen = (if x \<in> seen then Some x else repeated xs (insert x seen))"

fun claim_items :: "u32 \<Rightarrow> item_id list \<Rightarrow> (item_id \<rightharpoonup> u32) \<Rightarrow> layout_error + (item_id \<rightharpoonup> u32)" where
  "claim_items i [] owners = Inr owners"
| "claim_items i (item # items) owners =
     (case owners item of
        Some first_node \<Rightarrow> Inl (LDuplicateItemId item first_node i)
      | None \<Rightarrow> claim_items i items (owners(item \<mapsto> i)))"

fun claim_nodes :: "layout_node list \<Rightarrow> (item_id \<rightharpoonup> u32) \<Rightarrow> layout_error + (item_id \<rightharpoonup> u32)" where
  "claim_nodes [] owners = Inr owners"
| "claim_nodes (LTabs i items selected # ns) owners =
     (case claim_items i items owners of Inl e \<Rightarrow> Inl e | Inr owners' \<Rightarrow> claim_nodes ns owners')"
| "claim_nodes (LSplit i axis children fractions # ns) owners = claim_nodes ns owners"

fun check_node :: "layout_node \<Rightarrow> layout_error option" where
  "check_node (LTabs i items selected) =
     (if items = [] then Some (LEmptyTabs i)
      else case selected of
        None \<Rightarrow> Some (LTabsSelectionMissing i)
      | Some s \<Rightarrow> if s \<notin> set items then Some (LTabsSelectedItemMissing i s) else None)"
| "check_node (LSplit i axis children fractions) =
     (if children = [] then Some (LEmptySplitChildren i)
      else if length children \<noteq> length fractions
      then Some (LSplitFractionsLenMismatch i (length children) (length fractions))
      else case position invalid_fraction fractions of
        None \<Rightarrow> None
      | Some k \<Rightarrow>
          (let value = fractions ! k in
           Some (if \<not> f32_is_finite value then LSplitNonFiniteFraction i k value else LSplitNegativeFraction i k value)))"

definition check_children :: "layout_index \<Rightarrow> layout_node \<Rightarrow> layout_error option" where
  "check_children by_id n = map_option LMissingNodeId (find (\<lambda>c. by_id c = None) (layout_children n))"

text \<open>The depth-first search, with the top of its stack in front.\<close>

datatype search_step = Enter u32 | Exit u32

function cycle_loop :: "layout_index \<Rightarrow> search_step list \<Rightarrow> (u32 \<rightharpoonup> validation_mark) \<Rightarrow> layout_error + (u32 \<rightharpoonup> validation_mark)" where
  "cycle_loop by_id [] marks = Inr marks"
| "cycle_loop by_id (Enter i # stack) marks =
     (case marks i of
        Some Done \<Rightarrow> cycle_loop by_id stack marks
      | Some Visiting \<Rightarrow> Inl (LCycleDetected i)
      | None \<Rightarrow> cycle_loop by_id (map Enter (children_in by_id i) @ Exit i # stack) (marks(i \<mapsto> Visiting)))"
| "cycle_loop by_id (Exit i # stack) marks = cycle_loop by_id stack (marks(i \<mapsto> Done))"
  by pat_completeness auto
termination
proof (relation "measures [\<lambda>(by_id, stack, marks). card (UNIV - dom marks), \<lambda>(by_id, stack, marks). length stack]", goal_cases)
  case (2 by_id i stack marks)
  then have "UNIV - dom (marks(i \<mapsto> Visiting)) \<subset> UNIV - dom marks" by auto
  then show ?case by (simp add: psubset_card_mono)
next
  case (4 by_id i stack marks)
  have "card (UNIV - dom (marks(i \<mapsto> Done))) \<le> card (UNIV - dom marks)" by (intro card_mono) auto
  then show ?case by (auto simp: le_less)
qed simp_all

fun detect_cycles :: "layout_index \<Rightarrow> u32 list \<Rightarrow> (u32 \<rightharpoonup> validation_mark) \<Rightarrow> layout_error + unit" where
  "detect_cycles by_id [] marks = Inr ()"
| "detect_cycles by_id (start # starts) marks =
     (if marks start \<noteq> None then detect_cycles by_id starts marks
      else case cycle_loop by_id [Enter start] marks of
        Inl e \<Rightarrow> Inl e
      | Inr marks' \<Rightarrow> detect_cycles by_id starts marks')"

partial_function (option) layout_contains :: "layout_index \<Rightarrow> u32 \<Rightarrow> u32 \<Rightarrow> bool panics" where
  "layout_contains by_id target i =
     (if i = target then Some True else any_p (layout_contains by_id target) (children_in by_id i))"

definition check_floating :: "layout_index \<Rightarrow> space_id \<Rightarrow> layout_floating \<Rightarrow> layout_error option" where
  "check_floating by_id sp f =
     (if by_id (lf_root f) = None then Some (LFloatingRootMissing sp (lf_root f))
      else if \<not> bounds_ok (lf_bounds f) then Some (LInvalidFloatingBounds sp (lf_root f))
      else None)"

definition check_central :: "layout_index \<Rightarrow> layout_space \<Rightarrow> layout_error option panics" where
  "check_central by_id s =
     (case Option.bind (ls_central s) lc_node of
        None \<Rightarrow> Some None
      | Some n \<Rightarrow>
          if by_id n = None then Some (Some (LCentralNodeMissing (ls_id s) n))
          else do {
            inside \<leftarrow> (case ls_root s of None \<Rightarrow> Some False | Some r \<Rightarrow> layout_contains by_id n r);
            Some (if inside then None else Some (LCentralNodeNotInRoot (ls_id s) n))
          })"

definition check_parts :: "layout_index \<Rightarrow> layout_space \<Rightarrow> layout_error option panics" where
  "check_parts by_id s =
     (case find_map (check_floating by_id (ls_id s)) (ls_floatings s) of
        Some e \<Rightarrow> Some (Some e)
      | None \<Rightarrow> check_central by_id s)"

definition check_space :: "layout_index \<Rightarrow> layout_space \<Rightarrow> layout_error option panics" where
  "check_space by_id s =
     (case ls_root s of
        Some r \<Rightarrow> if by_id r = None then Some (Some (LSpaceRootMissing (ls_id s) r)) else check_parts by_id s
      | None \<Rightarrow> check_parts by_id s)"

text \<open>Again with the top of the stack in front.\<close>

function mark_reachable_once :: "layout_index \<Rightarrow> u32 list \<Rightarrow> u32 set \<Rightarrow> layout_error + u32 set" where
  "mark_reachable_once by_id [] seen = Inr seen"
| "mark_reachable_once by_id (i # stack) seen =
     (if i \<in> seen then Inl (LDuplicateNodeReference i)
      else mark_reachable_once by_id (children_in by_id i @ stack) (insert i seen))"
  by pat_completeness auto
termination
proof (relation "measure (\<lambda>(by_id, stack, seen). card (UNIV - seen))", goal_cases)
  case (2 by_id i stack seen)
  then have "UNIV - insert i seen \<subset> UNIV - seen" by auto
  then show ?case by (simp add: psubset_card_mono)
qed simp

fun mark_roots :: "layout_index \<Rightarrow> u32 list \<Rightarrow> u32 set \<Rightarrow> layout_error + u32 set" where
  "mark_roots by_id [] seen = Inr seen"
| "mark_roots by_id (r # rs) seen =
     (case mark_reachable_once by_id [r] seen of Inl e \<Rightarrow> Inl e | Inr seen' \<Rightarrow> mark_roots by_id rs seen')"

definition layout_roots :: "layout_space list \<Rightarrow> u32 list" where
  "layout_roots ss = List.map_filter ls_root ss @ concat (map (\<lambda>s. map lf_root (ls_floatings s)) ss)"

definition validate_forest_ownership :: "layout_index \<Rightarrow> u32 list \<Rightarrow> layout_space list \<Rightarrow> layout_error option" where
  "validate_forest_ownership by_id keys ss =
     (case mark_roots by_id (layout_roots ss) {} of
        Inl e \<Rightarrow> Some e
      | Inr seen \<Rightarrow> map_option LUnreachableNodeId (find (\<lambda>i. i \<notin> seen) keys))"

definition check_forest :: "layout_index \<Rightarrow> u32 list \<Rightarrow> layout_space list \<Rightarrow> layout_error option panics" where
  "check_forest by_id keys ss =
     (case detect_cycles by_id keys Map.empty of
        Inl e \<Rightarrow> Some (Some e)
      | Inr _ \<Rightarrow> do {
          spaces_error \<leftarrow> find_map_p (check_space by_id) ss;
          Some (case spaces_error of
            Some e \<Rightarrow> Some e
          | None \<Rightarrow> validate_forest_ownership by_id keys ss)
        })"

definition layout_version :: u32 where
  "layout_version = 2"

text \<open>The checks in their order; the first error is the result.\<close>

definition layout_validate :: "(layout_node list \<Rightarrow> layout_node list) \<Rightarrow> dock_layout \<Rightarrow> layout_error option panics" where
  "layout_validate order l =
     (let by_id = index_nodes (dl_nodes l); entries = order (dl_nodes l); keys = map layout_id entries in
      if dl_version l \<noteq> layout_version then Some (Some (LUnsupportedVersion layout_version (dl_version l)))
      else case repeated (map ls_id (dl_spaces l)) {} of
        Some sp \<Rightarrow> Some (Some (LDuplicateSpaceId sp))
      | None \<Rightarrow>
     (case repeated (map layout_id (dl_nodes l)) {} of
        Some i \<Rightarrow> Some (Some (LDuplicateNodeId i))
      | None \<Rightarrow>
     (case claim_nodes (dl_nodes l) Map.empty of
        Inl e \<Rightarrow> Some (Some e)
      | Inr _ \<Rightarrow>
     (case find_map check_node entries of
        Some e \<Rightarrow> Some (Some e)
      | None \<Rightarrow>
     (case find_map (check_children by_id) entries of
        Some e \<Rightarrow> Some (Some e)
      | None \<Rightarrow>
     check_forest by_id keys (dl_spaces l))))))"

section \<open>Import\<close>

record 's layout_importer =
  li_graph :: "'s dock_graph"
  li_built :: "u32 \<rightharpoonup> node_id"

definition build_child :: "(u32 \<Rightarrow> 's layout_importer \<Rightarrow> (node_id \<times> 's layout_importer) panics) \<Rightarrow> u32 \<Rightarrow>
    node_id list \<times> 's layout_importer \<Rightarrow> (node_id list \<times> 's layout_importer) panics" where
  "build_child build child = (\<lambda>(ns, m). do { (n, m') \<leftarrow> build child m; Some (ns @ [n], m') })"

lemma build_child_mono [partial_function_mono]:
  assumes "\<And>n s. mono_option (\<lambda>f. F f n s)"
  shows "mono_option (\<lambda>f. build_child (F f) c st)"
  unfolding build_child_def using assms
  by (cases st) (auto intro!: bind_mono option.const_mono split: prod.split)

definition add_built :: "'s slot_ops \<Rightarrow> u32 \<Rightarrow> dock_node \<Rightarrow> 's layout_importer \<Rightarrow> node_id \<times> 's layout_importer" where
  "add_built so i x m =
     (let (n, g) = insert_node so (li_graph m) x in (n, m\<lparr>li_graph := g, li_built := (li_built m)(i \<mapsto> n)\<rparr>))"

partial_function (option) build_node ::
  "'s slot_ops \<Rightarrow> layout_index \<Rightarrow> u32 \<Rightarrow> 's layout_importer \<Rightarrow> (node_id \<times> 's layout_importer) panics" where
  "build_node so by_id i m =
     (case li_built m i of
        Some n \<Rightarrow> Some (n, m)
      | None \<Rightarrow>
          (case by_id i of
             None \<Rightarrow> None
           | Some (LTabs _ items selected) \<Rightarrow> Some (add_built so i (Tabs items selected) m)
           | Some (LSplit _ axis children fractions) \<Rightarrow> do {
               (ns, m') \<leftarrow> for_p (build_child (build_node so by_id)) children ([], m);
               Some (add_built so i (Split axis ns fractions) m')
             }))"

definition import_floating :: "'s slot_ops \<Rightarrow> layout_index \<Rightarrow> space_id \<Rightarrow> layout_floating \<Rightarrow> 's layout_importer \<Rightarrow> 's layout_importer panics" where
  "import_floating so by_id sp f m = do {
     (child, m1) \<leftarrow> build_node so by_id (lf_root f) m;
     let (n, g) = insert_node so (li_graph m1) (Floating child);
     Some (m1\<lparr>li_graph := push_floating g sp \<lparr>fc_node = n, fc_bounds = lf_bounds f\<rparr>\<rparr>)
   }"

definition import_root :: "'s slot_ops \<Rightarrow> layout_index \<Rightarrow> layout_space \<Rightarrow> 's layout_importer \<Rightarrow> 's layout_importer panics" where
  "import_root so by_id s m =
     (case ls_root s of
        None \<Rightarrow> Some m
      | Some r \<Rightarrow> do { (n, m1) \<leftarrow> build_node so by_id r m; Some (m1\<lparr>li_graph := set_root (li_graph m1) (ls_id s) n\<rparr>) })"

definition import_central :: "'s slot_ops \<Rightarrow> layout_index \<Rightarrow> layout_space \<Rightarrow> 's layout_importer \<Rightarrow> 's layout_importer panics" where
  "import_central so by_id s m =
     (case ls_central s of
        None \<Rightarrow> Some m
      | Some c \<Rightarrow> do {
          (n, m1) \<leftarrow> (case lc_node c of None \<Rightarrow> Some (None, m) | Some i \<Rightarrow> do { (n, m1) \<leftarrow> build_node so by_id i m; Some (Some n, m1) });
          Some (m1\<lparr>li_graph := set_central_region (li_graph m1) (ls_id s)
            \<lparr>cr_node = n, cr_keep_alive = lc_keep_alive c, cr_passthrough = lc_passthrough c\<rparr>\<rparr>)
        })"

definition import_space :: "'s slot_ops \<Rightarrow> layout_index \<Rightarrow> layout_space \<Rightarrow> 's layout_importer \<Rightarrow> 's layout_importer panics" where
  "import_space so by_id s m = do {
     m1 \<leftarrow> import_root so by_id s m;
     m2 \<leftarrow> for_p (import_floating so by_id (ls_id s)) (ls_floatings s) m1;
     import_central so by_id s m2
   }"

definition import_layout ::
  "'s slot_ops \<Rightarrow> (layout_node list \<Rightarrow> layout_node list) \<Rightarrow> dock_layout \<Rightarrow> (layout_error + 's dock_graph) panics" where
  "import_layout so order l = do {
     error \<leftarrow> layout_validate order l;
     case error of
       Some e \<Rightarrow> Some (Inl e)
     | None \<Rightarrow> do {
         m \<leftarrow> for_p (import_space so (index_nodes (dl_nodes l))) (dl_spaces l) \<lparr>li_graph = graph_new so, li_built = Map.empty\<rparr>;
         g \<leftarrow> dock_canonicalize so (li_graph m);
         Some (Inr g)
       }
   }"

end
