(* ===== verification/Dock_Layout_Trees.thy ===== *)
theory Dock_Layout_Trees
  imports Dock_Layout
begin

text \<open>The trees that a layout stands for, and what the searches of its validation find out about them.\<close>

section \<open>A layout as a store\<close>

fun dock_of :: "layout_node \<Rightarrow> dock_node" where
  "dock_of (LSplit i axis children fractions) = Split axis (map unat children) fractions"
| "dock_of (LTabs i items selected) = Tabs items selected"

definition lay :: "layout_index \<Rightarrow> node_id \<rightharpoonup> dock_node" where
  "lay by_id n = (if n < 2 ^ 32 then map_option dock_of (by_id (word_of_nat n)) else None)"

lemma unat_u32 [simp]: "unat (i :: u32) < 4294967296"
proof -
  have "(unsigned i :: nat) < 2 ^ LENGTH(32)" by (rule unsigned_less)
  then show ?thesis by simp
qed

lemma lay_unat [simp]: "lay by_id (unat i) = map_option dock_of (by_id i)"
  by (simp add: lay_def)

lemma lay_cases: "lay by_id n = Some x \<Longrightarrow> (\<And>i l. n = unat i \<Longrightarrow> by_id i = Some l \<Longrightarrow> x = dock_of l \<Longrightarrow> thesis) \<Longrightarrow> thesis"
proof -
  assume n: "lay by_id n = Some x" and use_it: "\<And>i l. n = unat i \<Longrightarrow> by_id i = Some l \<Longrightarrow> x = dock_of l \<Longrightarrow> thesis"
  then have "n < 2 ^ 32" by (auto simp: lay_def split: if_splits)
  then have "unat (word_of_nat n :: u32) = n" by (simp add: unsigned_of_nat take_bit_nat_eq_self)
  then show thesis using n use_it [of "word_of_nat n"] by (auto simp: lay_def split: if_splits)
qed

lemma lay_no_floating [simp]: "lay by_id n \<noteq> Some (Floating child)"
proof
  assume "lay by_id n = Some (Floating child)"
  then show False by (rule lay_cases) (metis dock_of.elims dock_node.distinct(3,5))
qed

abbreviation tree_in :: "layout_index \<Rightarrow> u32 \<Rightarrow> dock_tree" where
  "tree_in by_id i \<equiv> tree_of (lay by_id) (unat i)"

abbreviation stands :: "layout_index \<Rightarrow> u32 \<Rightarrow> bool" where
  "stands by_id i \<equiv> has_tree (lay by_id) (unat i)"

lemma stands_rep: "stands by_id i \<Longrightarrow> rep (lay by_id) (tree_in by_id i)" "stands by_id i \<Longrightarrow> tid (tree_in by_id i) = unat i"
  by (rule has_tree_rep, assumption) (rule has_tree_tid)

lemma rep_word: "rep (lay by_id) t \<Longrightarrow> unat (word_of_nat (tid t) :: u32) = tid t"
  using rep_get [of "lay by_id" t] by (auto elim: lay_cases)

lemma rep_known: "rep (lay by_id) t \<Longrightarrow> \<exists>l. by_id (word_of_nat (tid t)) = Some l \<and> dock_of l = tree_node t"
  using rep_get [of "lay by_id" t] by (auto elim!: lay_cases)

lemma children_subtrees: "rep (lay by_id) t \<Longrightarrow> children_in by_id (word_of_nat (tid t)) = map (\<lambda>t. word_of_nat (tid t)) (subtrees t)"
proof -
  assume t: "rep (lay by_id) t"
  then obtain l where l: "by_id (word_of_nat (tid t)) = Some l" "dock_of l = tree_node t" using rep_known by blast
  show ?thesis
  proof (cases t)
    case (TTabs n items selected)
    then show ?thesis using l by (cases l) (auto simp: children_in_def)
  next
    case (TFloating n t')
    then show ?thesis using t by simp
  next
    case (TSplit n axis ts fs)
    then obtain i cs where split: "l = LSplit i axis cs fs" "map unat cs = map tid ts" using l(2) by (cases l) auto
    have "cs = map word_of_nat (map unat cs)" by (simp add: comp_def)
    then show ?thesis using split l(1) TSplit by (simp add: children_in_def comp_def)
  qed
qed

lemma stands_children:
  assumes "stands by_id i" and "c \<in> set (children_in by_id i)"
  shows "stands by_id c" and "size (tree_in by_id c) < size (tree_in by_id i)" and "set (ids (tree_in by_id c)) \<subseteq> set (ids (tree_in by_id i))"
proof -
  let ?t = "tree_in by_id i"
  have t: "rep (lay by_id) ?t" "tid ?t = unat i" using stands_rep [OF assms(1)] by blast+
  have "word_of_nat (tid ?t) = i" using t(2) by simp
  then have "c \<in> set (map (\<lambda>t. word_of_nat (tid t)) (subtrees ?t))" using children_subtrees [OF t(1)] assms(2) by simp
  then obtain s where s: "s \<in> set (subtrees ?t)" "c = word_of_nat (tid s)" by auto
  have rs: "rep (lay by_id) s" by (rule rep_subtrees [OF t(1) s(1)])
  then have id: "unat c = tid s" using rep_word s(2) by simp
  then show "stands by_id c" using rs has_treeI by metis
  have "tree_in by_id c = s" unfolding id by (rule tree_of_rep [OF rs])
  then show "size (tree_in by_id c) < size ?t" "set (ids (tree_in by_id c)) \<subseteq> set (ids ?t)"
    using s(1) by (cases ?t; auto simp: size_list_estimation' less_Suc_eq_le)+
qed

lemma stands_known: "stands by_id i \<Longrightarrow> by_id i \<noteq> None"
  using stands_rep [of by_id i] rep_known [of by_id "tree_in by_id i"] by force

lemma standsI:
  assumes known: "by_id i = Some l" and children: "\<And>c. c \<in> set (children_in by_id i) \<Longrightarrow> stands by_id c"
  shows "stands by_id i"
proof (cases l)
  case (LTabs j items selected)
  then have "rep (lay by_id) (TTabs (unat i) items selected)" using known by simp
  then show ?thesis using has_treeI by fastforce
next
  case (LSplit j axis cs fs)
  let ?ts = "map (tree_in by_id) cs"
  have cs: "stands by_id c" if "c \<in> set cs" for c using children that known LSplit by (simp add: children_in_def)
  then have "map tid ?ts = map unat cs" using stands_rep(2) by simp
  then have "rep (lay by_id) (TSplit (unat i) axis ?ts fs)" using known LSplit cs stands_rep(1) by auto
  then show ?thesis using has_treeI by fastforce
qed

section \<open>Cycles\<close>

definition done_in :: "(u32 \<rightharpoonup> validation_mark) \<Rightarrow> u32 set" where
  "done_in marks = {i. marks i = Some Done}"

text \<open>The children of a node to leave are done or come before it, on top of the ids \<open>D\<close>.\<close>

fun leaves_children :: "layout_index \<Rightarrow> u32 set \<Rightarrow> search_step list \<Rightarrow> bool" where
  "leaves_children by_id D [] \<longleftrightarrow> True"
| "leaves_children by_id D (Enter i # stack) \<longleftrightarrow> leaves_children by_id (insert i D) stack"
| "leaves_children by_id D (Exit i # stack) \<longleftrightarrow> set (children_in by_id i) \<subseteq> D \<and> leaves_children by_id (insert i D) stack"

lemma leaves_mono: "leaves_children by_id D stack \<Longrightarrow> D \<subseteq> D' \<Longrightarrow> leaves_children by_id D' stack"
proof (induction by_id D stack arbitrary: D' rule: leaves_children.induct)
  case (2 by_id D i stack)
  then show ?case using "2.IH" [of "insert i D'"] by auto
next
  case (3 by_id D i stack)
  then show ?case using "3.IH" [of "insert i D'"] by auto
qed simp

lemma leaves_enter: "leaves_children by_id D (map Enter cs @ stack) \<longleftrightarrow> leaves_children by_id (set cs \<union> D) stack"
  by (induction cs arbitrary: D) auto

definition search_ok :: "layout_index \<Rightarrow> search_step list \<Rightarrow> (u32 \<rightharpoonup> validation_mark) \<Rightarrow> bool" where
  "search_ok by_id stack marks \<longleftrightarrow> (\<forall>i \<in> done_in marks. by_id i \<noteq> None \<longrightarrow> stands by_id i) \<and>
     leaves_children by_id (done_in marks) stack \<and> (\<forall>i. marks i = Some Visiting \<longrightarrow> Exit i \<in> set stack)"

fun step_id :: "search_step \<Rightarrow> u32" where
  "step_id (Enter i) = i"
| "step_id (Exit i) = i"

lemma done_in_simps: "done_in (marks(i \<mapsto> Done)) = insert i (done_in marks)" "marks i \<noteq> Some Done \<Longrightarrow> done_in (marks(i \<mapsto> Visiting)) = done_in marks"
  by (auto simp: done_in_def)

lemma cycle_loop_sound:
  assumes "search_ok by_id stack marks" and "cycle_loop by_id stack marks = Inr marks'"
    and "\<And>i c. by_id i \<noteq> None \<Longrightarrow> c \<in> set (children_in by_id i) \<Longrightarrow> by_id c \<noteq> None"
  shows "search_ok by_id [] marks' \<and> done_in marks \<union> step_id ` set stack \<subseteq> done_in marks'"
  using assms
proof (induction by_id stack marks rule: cycle_loop.induct)
  case (2 by_id i stack marks)
  let ?stack = "map Enter (children_in by_id i) @ Exit i # stack"
  show ?case
  proof (cases "marks i")
    case None
    have same: "done_in (marks(i \<mapsto> Visiting)) = done_in marks" using None by (simp add: done_in_simps)
    have "leaves_children by_id (insert i (set (children_in by_id i) \<union> done_in marks)) stack"
      by (rule leaves_mono [of by_id "insert i (done_in marks)"]) (use 2 in \<open>auto simp: search_ok_def\<close>)
    then have ok: "search_ok by_id ?stack (marks(i \<mapsto> Visiting))"
      using "2.prems"(1) None unfolding search_ok_def same by (auto simp: leaves_enter)
    have run: "cycle_loop by_id ?stack (marks(i \<mapsto> Visiting)) = Inr marks'" using "2.prems"(2) None by simp
    have "search_ok by_id [] marks' \<and> done_in (marks(i \<mapsto> Visiting)) \<union> step_id ` set ?stack \<subseteq> done_in marks'"
      by (rule "2.IH"(1) [OF None ok run "2.prems"(3)])
    then show ?thesis using same by auto
  next
    case (Some m)
    show ?thesis
    proof (cases m)
      case Visiting
      then show ?thesis using "2.prems"(2) Some by simp
    next
      case Done
      then have i: "i \<in> done_in marks" using Some by (simp add: done_in_def)
      have ok: "search_ok by_id stack marks" using "2.prems"(1) i by (auto simp: search_ok_def insert_absorb)
      have run: "cycle_loop by_id stack marks = Inr marks'" using "2.prems"(2) Some Done by simp
      have "search_ok by_id [] marks' \<and> done_in marks \<union> step_id ` set stack \<subseteq> done_in marks'"
        by (rule "2.IH"(2) [OF Some Done ok run "2.prems"(3)])
      then show ?thesis using i by auto
    qed
  qed
next
  case (3 by_id i stack marks)
  have children: "set (children_in by_id i) \<subseteq> done_in marks" and rest: "leaves_children by_id (insert i (done_in marks)) stack"
    using "3.prems"(1) by (auto simp: search_ok_def)
  have "stands by_id i" if known: "by_id i = Some l" for l
  proof (rule standsI [where by_id = by_id and l = l, OF known])
    fix c assume c: "c \<in> set (children_in by_id i)"
    have "by_id c \<noteq> None" by (rule "3.prems"(3) [OF _ c]) (simp add: known)
    moreover have "c \<in> done_in marks" using c children by blast
    ultimately show "stands by_id c" using "3.prems"(1) unfolding search_ok_def by blast
  qed
  then have ok: "search_ok by_id stack (marks(i \<mapsto> Done))"
    using "3.prems"(1) rest unfolding search_ok_def done_in_simps by auto
  have run: "cycle_loop by_id stack (marks(i \<mapsto> Done)) = Inr marks'" using "3.prems"(2) by simp
  have "search_ok by_id [] marks' \<and> done_in (marks(i \<mapsto> Done)) \<union> step_id ` set stack \<subseteq> done_in marks'"
    by (rule "3.IH" [OF ok run "3.prems"(3)])
  then show ?case by (auto simp: done_in_simps)
qed simp

text \<open>A search among trees finds no cycle: the steps below a node are those of larger trees.\<close>

fun grows :: "layout_index \<Rightarrow> search_step list \<Rightarrow> bool" where
  "grows by_id [] \<longleftrightarrow> True"
| "grows by_id (x # stack) \<longleftrightarrow>
     (\<forall>i. Exit i \<in> set stack \<longrightarrow> size (tree_in by_id (step_id x)) < size (tree_in by_id i)) \<and> grows by_id stack"

lemma grows_children:
  assumes "grows by_id (Enter i # stack)" and "stands by_id i" and "set cs \<subseteq> set (children_in by_id i)"
  shows "grows by_id (map Enter cs @ Exit i # stack)"
  using assms(3)
proof (induction cs)
  case (Cons c cs)
  have "size (tree_in by_id c) < size (tree_in by_id i)" using stands_children(2) [OF assms(2)] Cons.prems by auto
  then show ?case using Cons assms(1) by (auto intro: less_trans)
qed (use assms(1) in auto)

lemma cycle_loop_complete:
  assumes "\<And>x. x \<in> set stack \<Longrightarrow> stands by_id (step_id x)" and "grows by_id stack"
    and "\<And>i. marks i = Some Visiting \<Longrightarrow> Exit i \<in> set stack"
  shows "\<exists>marks'. cycle_loop by_id stack marks = Inr marks' \<and> (\<forall>i. marks' i \<noteq> Some Visiting)"
  using assms
proof (induction by_id stack marks rule: cycle_loop.induct)
  case (2 by_id i stack marks)
  let ?stack = "map Enter (children_in by_id i) @ Exit i # stack"
  have i: "stands by_id i" using "2.prems"(1) [of "Enter i"] by simp
  show ?case
  proof (cases "marks i")
    case None
    have steps: "stands by_id (step_id x)" if "x \<in> set ?stack" for x using that "2.prems"(1) i stands_children(1) [OF i] by auto
    have grow: "grows by_id ?stack" by (rule grows_children [OF "2.prems"(2) i order_refl])
    have visit: "Exit j \<in> set ?stack" if "(marks(i \<mapsto> Visiting)) j = Some Visiting" for j
      using that "2.prems"(3) [of j] by (auto split: if_splits)
    from "2.IH"(1) [OF None steps grow visit] show ?thesis using None by (simp add: fun_upd_def)
  next
    case (Some m)
    show ?thesis
    proof (cases m)
      case Visiting
      then have "Exit i \<in> set stack" using "2.prems"(3) [of i] Some by simp
      then show ?thesis using "2.prems"(2) by auto
    next
      case Done
      have visit: "Exit j \<in> set stack" if "marks j = Some Visiting" for j using that "2.prems"(3) [of j] by simp
      have steps: "stands by_id (step_id x)" if "x \<in> set stack" for x using that "2.prems"(1) by simp
      have grow: "grows by_id stack" using "2.prems"(2) by simp
      from "2.IH"(2) [OF Some Done steps grow visit] show ?thesis using Some Done by simp
    qed
  qed
next
  case (3 by_id i stack marks)
  have visit: "Exit j \<in> set stack" if "(marks(i \<mapsto> Done)) j = Some Visiting" for j
    using that "3.prems"(3) [of j] by (auto split: if_splits)
  have steps: "stands by_id (step_id x)" if "x \<in> set stack" for x using that "3.prems"(1) by simp
  have grow: "grows by_id stack" using "3.prems"(2) by simp
  from "3.IH" [OF steps grow visit] show ?case by (simp add: fun_upd_def)
qed auto

theorem detect_cycles_decides:
  assumes closed: "\<And>i c. by_id i \<noteq> None \<Longrightarrow> c \<in> set (children_in by_id i) \<Longrightarrow> by_id c \<noteq> None"
    and known: "\<And>i. i \<in> set starts \<Longrightarrow> by_id i \<noteq> None" and marks: "search_ok by_id [] marks"
  shows "detect_cycles by_id starts marks = Inr () \<longleftrightarrow> (\<forall>i \<in> set starts. stands by_id i)"
  using known marks
proof (induction starts arbitrary: marks)
  case (Cons start starts)
  show ?case
  proof (cases "marks start")
    case None
    then have ok: "search_ok by_id [Enter start] marks" using Cons.prems(2) by (simp add: search_ok_def)
    show ?thesis
    proof (cases "cycle_loop by_id [Enter start] marks")
      case (Inl e)
      have "\<not> stands by_id start"
        using cycle_loop_complete [of "[Enter start]" by_id marks] Inl Cons.prems(2) by (auto simp: search_ok_def)
      then show ?thesis using None Inl by simp
    next
      case (Inr marks')
      then have "search_ok by_id [] marks'" "start \<in> done_in marks'" using cycle_loop_sound [OF ok Inr closed] by auto
      moreover from this have "stands by_id start" using Cons.prems(1) [of start] by (auto simp: search_ok_def)
      ultimately show ?thesis using None Inr Cons.IH [of marks'] Cons.prems(1) by simp
    qed
  next
    case (Some m)
    then have "start \<in> done_in marks" using Cons.prems(2) by (cases m) (auto simp: search_ok_def done_in_def)
    then have "stands by_id start" using Cons.prems by (auto simp: search_ok_def)
    then show ?thesis using Some Cons.IH [of marks] Cons.prems by simp
  qed
qed simp

section \<open>Subtrees and ownership\<close>

lemma layout_contains_tree:
  "rep (lay by_id) t \<Longrightarrow> layout_contains by_id target (word_of_nat (tid t)) = Some (unat target \<in> set (ids t))"
proof (induction t)
  case (TTabs n items selected)
  then have "children_in by_id (word_of_nat n) = []" using children_subtrees [OF TTabs.prems] by simp
  moreover have "(word_of_nat n = target) = (unat target = n)" using rep_word [OF TTabs.prems] by auto
  ultimately show ?case by (subst layout_contains.simps) auto
next
  case (TFloating n t)
  then show ?case by simp
next
  case (TSplit n axis ts fs)
  have children: "children_in by_id (word_of_nat n) = map (\<lambda>t. word_of_nat (tid t)) ts"
    using children_subtrees [OF TSplit.prems] by simp
  have same: "(word_of_nat n = target) = (unat target = n)" using rep_word [OF TSplit.prems] by auto
  have "any_p (layout_contains by_id target) (map (\<lambda>t. word_of_nat (tid t)) ts) = Some (list_ex (\<lambda>t. unat target \<in> set (ids t)) ts)"
    by (rule any_p_map) (use TSplit in auto)
  then show ?case using children same by (subst layout_contains.simps) (auto simp: list_ex_iff)
qed

definition own :: "dock_tree list \<Rightarrow> u32 set \<Rightarrow> bool" where
  "own ts seen \<longleftrightarrow> distinct (concat (map ids ts)) \<and> set (concat (map ids ts)) \<inter> unat ` seen = {}"

text \<open>A search that marks the trees \<open>ts\<close> fails exactly when a node comes a second time.\<close>

definition marks_trees :: "dock_tree list \<Rightarrow> u32 set \<Rightarrow> layout_error + u32 set \<Rightarrow> bool" where
  "marks_trees ts seen r \<longleftrightarrow> (case r of
     Inl e \<Rightarrow> \<not> own ts seen
   | Inr seen' \<Rightarrow> own ts seen \<and> unat ` seen' = unat ` seen \<union> set (concat (map ids ts)))"

lemma mark_trees:
  assumes "\<And>t. t \<in> set ts \<Longrightarrow> rep (lay by_id) t" and "stack = map (\<lambda>t. word_of_nat (tid t)) ts"
  shows "marks_trees ts seen (mark_reachable_once by_id stack seen)"
  using assms
proof (induction by_id stack seen arbitrary: ts rule: mark_reachable_once.induct)
  case (2 by_id i stack seen)
  then obtain t rest where ts: "ts = t # rest" "i = word_of_nat (tid t)" "stack = map (\<lambda>t. word_of_nat (tid t)) rest" by auto
  have t: "rep (lay by_id) t" using "2.prems"(1) ts(1) by simp
  then have id: "unat i = tid t" using rep_word ts(2) by simp
  have seen: "tid t \<in> unat ` seen \<longleftrightarrow> i \<in> seen" unfolding id [symmetric] by (rule inj_image_mem_iff) (simp add: inj_def word_unat_eq_iff)
  show ?case
  proof (cases "i \<in> seen")
    case True
    then have "\<not> own ts seen" using seen ts(1) tid_in_ids [of t] by (auto simp: own_def simp del: tid_in_ids)
    then show ?thesis using True by (simp add: marks_trees_def)
  next
    case False
    let ?ts = "subtrees t @ rest"
    have ids: "concat (map ids ts) = tid t # concat (map ids ?ts)" using ts(1) by (simp add: ids_tree [of t])
    have own: "own ts seen \<longleftrightarrow> own ?ts (insert i seen)"
      using seen False id unfolding own_def ids by auto
    have "marks_trees ?ts (insert i seen) (mark_reachable_once by_id (children_in by_id i @ stack) (insert i seen))"
    proof (rule "2.IH" [OF False])
      show "rep (lay by_id) s" if "s \<in> set ?ts" for s using that "2.prems"(1) rep_subtrees [OF t] ts(1) by auto
      show "children_in by_id i @ stack = map (\<lambda>t. word_of_nat (tid t)) ?ts" using children_subtrees [OF t] ts(2,3) by simp
    qed
    then show ?thesis using False own id unfolding marks_trees_def ids by (auto split: sum.splits)
  qed
qed (simp add: marks_trees_def own_def)

lemma mark_roots_trees:
  "(\<And>r. r \<in> set rs \<Longrightarrow> stands by_id r) \<Longrightarrow> marks_trees (map (tree_in by_id) rs) seen (mark_roots by_id rs seen)"
proof (induction by_id rs seen rule: mark_roots.induct)
  case (2 by_id r rs seen)
  have r: "rep (lay by_id) (tree_in by_id r)" "tid (tree_in by_id r) = unat r" using stands_rep "2.prems" by auto
  have first: "marks_trees [tree_in by_id r] seen (mark_reachable_once by_id [r] seen)"
    by (rule mark_trees) (use r in auto)
  show ?case
  proof (cases "mark_reachable_once by_id [r] seen")
    case (Inl e)
    then show ?thesis using first by (auto simp: marks_trees_def own_def)
  next
    case (Inr seen')
    then have "marks_trees (map (tree_in by_id) rs) seen' (mark_roots by_id rs seen')" using "2.IH" "2.prems" by simp
    then show ?thesis using first Inr by (auto simp: marks_trees_def own_def split: sum.splits)
  qed
qed (simp add: marks_trees_def own_def)

end
