(* ===== verification/Dock_Layout_Valid.thy ===== *)
theory Dock_Layout_Valid
  imports Dock_Layout_Trees
begin

text \<open>Validation of a layout returns, and accepts exactly the sound layouts, in whatever order the nodes are visited.\<close>

section \<open>Sound layouts\<close>

fun node_items :: "layout_node \<Rightarrow> item_id list" where
  "node_items (LTabs i items selected) = items"
| "node_items (LSplit i axis children fractions) = []"

fun node_ok :: "layout_node \<Rightarrow> bool" where
  "node_ok (LTabs i items selected) \<longleftrightarrow> items \<noteq> [] \<and> (\<exists>s. selected = Some s \<and> s \<in> set items)"
| "node_ok (LSplit i axis children fractions) \<longleftrightarrow> children \<noteq> [] \<and> length children = length fractions \<and>
     (\<forall>f \<in> set fractions. \<not> invalid_fraction f)"

definition space_ok :: "layout_index \<Rightarrow> layout_space \<Rightarrow> bool" where
  "space_ok by_id s \<longleftrightarrow> (\<forall>f \<in> set (ls_floatings s). bounds_ok (lf_bounds f)) \<and>
     (\<forall>c i. ls_central s = Some c \<longrightarrow> lc_node c = Some i \<longrightarrow> (\<exists>r. ls_root s = Some r \<and> unat i \<in> set (ids (tree_in by_id r))))"

text \<open>
  The ids of spaces and nodes and the items are distinct, every node has what it needs, the roots stand for finite trees that
  share no node and together have all of them, the bounds are proper and a central node lies below the root of its space.
\<close>

definition layout_sound :: "dock_layout \<Rightarrow> bool" where
  "layout_sound l \<longleftrightarrow>
     (let by_id = index_nodes (dl_nodes l); roots = layout_roots (dl_spaces l); owned = concat (map (ids \<circ> tree_in by_id) roots) in
      dl_version l = layout_version \<and> distinct (map ls_id (dl_spaces l)) \<and> distinct (map layout_id (dl_nodes l)) \<and>
      distinct (concat (map node_items (dl_nodes l))) \<and> (\<forall>n \<in> set (dl_nodes l). node_ok n) \<and>
      (\<forall>r \<in> set roots. stands by_id r) \<and> distinct owned \<and> (\<forall>n \<in> set (dl_nodes l). unat (layout_id n) \<in> set owned) \<and>
      (\<forall>s \<in> set (dl_spaces l). space_ok by_id s))"

section \<open>The checks\<close>

lemma repeated_None: "repeated xs seen = None \<longleftrightarrow> distinct xs \<and> set xs \<inter> seen = {}"
  by (induction xs arbitrary: seen) auto

lemma claim_items_returns:
  "case claim_items i items owners of
     Inr owners' \<Rightarrow> distinct items \<and> set items \<inter> dom owners = {} \<and> dom owners' = dom owners \<union> set items
   | Inl e \<Rightarrow> \<not> (distinct items \<and> set items \<inter> dom owners = {})"
proof (induction items arbitrary: owners)
  case (Cons item items)
  show ?case
  proof (cases "owners item")
    case None
    show ?thesis
    proof (cases "claim_items i items (owners(item \<mapsto> i))")
      case (Inl e)
      then have "\<not> (distinct items \<and> set items \<inter> dom (owners(item \<mapsto> i)) = {})"
        using Inl Cons.IH [of "owners(item \<mapsto> i)"] by (simp only: sum.case simp_thms)
      then show ?thesis using None Inl by auto
    next
      case (Inr owners')
      then have "distinct items \<and> set items \<inter> dom (owners(item \<mapsto> i)) = {} \<and> dom owners' = dom (owners(item \<mapsto> i)) \<union> set items"
        using Inr Cons.IH [of "owners(item \<mapsto> i)"] by (simp only: sum.case simp_thms)
      then show ?thesis using None Inr by (auto simp: domIff)
    qed
  qed auto
qed simp

lemma claim_nodes_returns:
  "(\<exists>owners'. claim_nodes ns owners = Inr owners') \<longleftrightarrow>
     distinct (concat (map node_items ns)) \<and> set (concat (map node_items ns)) \<inter> dom owners = {}"
proof (induction ns owners rule: claim_nodes.induct)
  case (2 i items selected ns owners)
  show ?case
  proof (cases "claim_items i items owners")
    case (Inl e)
    then show ?thesis using claim_items_returns [where i = i and items = items and owners = owners] by auto
  next
    case (Inr owners')
    then show ?thesis using claim_items_returns [where i = i and items = items and owners = owners] "2.IH" [OF Inr] by auto
  qed
qed simp_all

lemma check_node_None: "check_node n = None \<longleftrightarrow> node_ok n"
proof (cases n)
  case (LSplit i axis children fractions)
  show ?thesis
  proof (cases "position invalid_fraction fractions")
    case None
    then show ?thesis using LSplit position_None [of invalid_fraction fractions] by simp
  next
    case (Some k)
    then have "\<not> (\<forall>f \<in> set fractions. \<not> invalid_fraction f)" using position_None [of invalid_fraction fractions] by simp
    then show ?thesis using LSplit Some by (simp add: Let_def)
  qed
qed (auto split: option.splits)

lemma index_nodes_iff:
  assumes "distinct (map layout_id ns)"
  shows "index_nodes ns i = Some n \<longleftrightarrow> n \<in> set ns \<and> layout_id n = i"
proof -
  have "distinct (map fst (rev (map (\<lambda>n. (layout_id n, n)) ns)))" using assms by (simp add: rev_map [symmetric] comp_def)
  then show ?thesis by (auto simp: index_nodes_def)
qed

lemma check_children_None: "check_children by_id n = None \<longleftrightarrow> (\<forall>c \<in> set (layout_children n). by_id c \<noteq> None)"
  by (auto simp: check_children_def find_None_iff)

lemma check_floating_None: "check_floating by_id sp f = None \<longleftrightarrow> by_id (lf_root f) \<noteq> None \<and> bounds_ok (lf_bounds f)"
  by (auto simp: check_floating_def)

definition space_roots :: "layout_space \<Rightarrow> u32 list" where
  "space_roots s = (case ls_root s of None \<Rightarrow> [] | Some r \<Rightarrow> [r]) @ map lf_root (ls_floatings s)"

lemma layout_roots_set: "set (layout_roots ss) = (\<Union>s \<in> set ss. set (space_roots s))"
proof (induction ss)
  case (Cons s ss)
  have "set (layout_roots (s # ss)) = set (space_roots s) \<union> set (layout_roots ss)"
    by (auto simp: layout_roots_def space_roots_def map_filter_simps split: option.split)
  then show ?case using Cons by simp
qed (simp add: layout_roots_def map_filter_simps)

lemma check_central_returns:
  assumes "\<And>i. by_id i \<noteq> None \<Longrightarrow> stands by_id i" and "\<And>r. ls_root s = Some r \<Longrightarrow> by_id r \<noteq> None"
  shows "\<exists>e. check_central by_id s = Some e \<and> (e = None \<longleftrightarrow>
    (\<forall>c i. ls_central s = Some c \<longrightarrow> lc_node c = Some i \<longrightarrow> (\<exists>r. ls_root s = Some r \<and> unat i \<in> set (ids (tree_in by_id r)))))"
proof (cases "Option.bind (ls_central s) lc_node")
  case None
  then show ?thesis by (cases "ls_central s") (auto simp: check_central_def)
next
  case (Some i)
  then obtain c where c: "ls_central s = Some c" "lc_node c = Some i" by (cases "ls_central s") auto
  show ?thesis
  proof (cases "ls_root s")
    case None
    then show ?thesis using c by (auto simp: check_central_def)
  next
    case root: (Some r)
    have r: "stands by_id r" using assms root by blast
    have "layout_contains by_id i (word_of_nat (tid (tree_in by_id r))) = Some (unat i \<in> set (ids (tree_in by_id r)))"
      by (rule layout_contains_tree [OF stands_rep(1) [OF r]])
    then have inside: "layout_contains by_id i r = Some (unat i \<in> set (ids (tree_in by_id r)))" using stands_rep(2) [OF r] by simp
    have "by_id i \<noteq> None" if "unat i \<in> set (ids (tree_in by_id r))"
      using rep_stored [OF stands_rep(1) [OF r] that] by auto
    then show ?thesis using c root inside by (auto simp: check_central_def)
  qed
qed

lemma check_space_returns:
  assumes "\<And>i. by_id i \<noteq> None \<Longrightarrow> stands by_id i"
  shows "\<exists>e. check_space by_id s = Some e \<and> (e = None \<longleftrightarrow> (\<forall>r \<in> set (space_roots s). by_id r \<noteq> None) \<and> space_ok by_id s)"
proof (cases "\<exists>r. ls_root s = Some r \<and> by_id r = None")
  case True
  then show ?thesis by (auto simp: check_space_def space_roots_def)
next
  case False
  then have parts: "check_space by_id s = check_parts by_id s" by (auto simp: check_space_def split: option.split)
  have roots: "by_id r \<noteq> None" if "ls_root s = Some r" for r using False that by auto
  have "\<exists>e. check_central by_id s = Some e \<and> (e = None \<longleftrightarrow>
    (\<forall>c i. ls_central s = Some c \<longrightarrow> lc_node c = Some i \<longrightarrow> (\<exists>r. ls_root s = Some r \<and> unat i \<in> set (ids (tree_in by_id r)))))"
    by (rule check_central_returns) (use assms roots in auto)
  then obtain e where e: "check_central by_id s = Some e" "e = None \<longleftrightarrow>
    (\<forall>c i. ls_central s = Some c \<longrightarrow> lc_node c = Some i \<longrightarrow> (\<exists>r. ls_root s = Some r \<and> unat i \<in> set (ids (tree_in by_id r))))"
    by (elim exE conjE)
  show ?thesis
  proof (cases "find_map (check_floating by_id (ls_id s)) (ls_floatings s)")
    case None
    then have "\<forall>f \<in> set (ls_floatings s). by_id (lf_root f) \<noteq> None \<and> bounds_ok (lf_bounds f)"
      by (simp add: find_map_None check_floating_None)
    then show ?thesis using None parts e False by (auto simp: check_parts_def space_roots_def space_ok_def split: option.splits)
  next
    case (Some e')
    then have "\<exists>f \<in> set (ls_floatings s). \<not> (by_id (lf_root f) \<noteq> None \<and> bounds_ok (lf_bounds f))"
      using find_map_Some [OF Some] by (metis check_floating_None option.distinct(1))
    then show ?thesis using Some parts by (auto simp: check_parts_def space_roots_def space_ok_def)
  qed
qed

lemma find_map_p_None:
  "(\<And>x. x \<in> set xs \<Longrightarrow> \<exists>e. f x = Some e \<and> (e = None \<longleftrightarrow> P x)) \<Longrightarrow> \<exists>e. find_map_p f xs = Some e \<and> (e = None \<longleftrightarrow> (\<forall>x \<in> set xs. P x))"
proof (induction xs)
  case (Cons x xs)
  obtain e where "f x = Some e" "e = None \<longleftrightarrow> P x" using Cons.prems by auto
  moreover obtain e' where "find_map_p f xs = Some e'" "e' = None \<longleftrightarrow> (\<forall>x \<in> set xs. P x)" using Cons by auto
  ultimately show ?case by (cases e) auto
qed simp

section \<open>Validation decides\<close>

lemma owned_node_stands:
  assumes roots: "\<And>r. r \<in> set rs \<Longrightarrow> stands by_id r" and i: "unat i \<in> set (concat (map (ids \<circ> tree_in by_id) rs))"
  shows "stands by_id i"
proof -
  obtain r where r: "r \<in> set rs" "unat i \<in> set (ids (tree_in by_id r))" using i by auto
  obtain t where "rep (lay by_id) t" "tid t = unat i" using rep_subtree_at [OF stands_rep(1) [OF roots [OF r(1)]] r(2)] by blast
  then show ?thesis using has_treeI by metis
qed

lemma ownership_decides:
  assumes roots: "\<And>r. r \<in> set (layout_roots ss) \<Longrightarrow> stands by_id r"
  shows "validate_forest_ownership by_id keys ss = None \<longleftrightarrow>
    distinct (concat (map (ids \<circ> tree_in by_id) (layout_roots ss))) \<and>
    (\<forall>i \<in> set keys. unat i \<in> set (concat (map (ids \<circ> tree_in by_id) (layout_roots ss))))"
proof -
  have marked: "marks_trees (map (tree_in by_id) (layout_roots ss)) {} (mark_roots by_id (layout_roots ss) {})"
    by (rule mark_roots_trees [OF roots])
  show ?thesis
  proof (cases "mark_roots by_id (layout_roots ss) {}")
    case (Inl e)
    then show ?thesis using marked by (auto simp: validate_forest_ownership_def marks_trees_def own_def comp_def)
  next
    case (Inr seen)
    then have seen: "distinct (concat (map (ids \<circ> tree_in by_id) (layout_roots ss)))"
      "unat ` seen = set (concat (map (ids \<circ> tree_in by_id) (layout_roots ss)))"
      using marked by (simp_all add: marks_trees_def own_def comp_def)
    have mem: "unat i \<in> unat ` seen \<longleftrightarrow> i \<in> seen" for i
      by (rule inj_image_mem_iff) (simp add: inj_def word_unat_eq_iff)
    have "validate_forest_ownership by_id keys ss = None \<longleftrightarrow> (\<forall>i \<in> set keys. i \<in> seen)"
      using Inr by (auto simp: validate_forest_ownership_def find_None_iff)
    then show ?thesis using seen(1) unfolding seen(2) [symmetric] mem by simp
  qed
qed

text \<open>The checks of the forest, when every child of a node is known.\<close>

lemma check_forest_decides:
  assumes closed: "\<And>i c. by_id i \<noteq> None \<Longrightarrow> c \<in> set (children_in by_id i) \<Longrightarrow> by_id c \<noteq> None"
    and keys: "set keys = dom by_id"
  shows "\<exists>e. check_forest by_id keys ss = Some e \<and> (e = None \<longleftrightarrow>
    (\<forall>r \<in> set (layout_roots ss). stands by_id r) \<and> distinct (concat (map (ids \<circ> tree_in by_id) (layout_roots ss))) \<and>
    (\<forall>i \<in> dom by_id. unat i \<in> set (concat (map (ids \<circ> tree_in by_id) (layout_roots ss)))) \<and> (\<forall>s \<in> set ss. space_ok by_id s))"
    (is "\<exists>e. _ \<and> (e = None \<longleftrightarrow> ?sound)")
proof -
  have "detect_cycles by_id keys Map.empty = Inr () \<longleftrightarrow> (\<forall>i \<in> set keys. stands by_id i)"
    by (rule detect_cycles_decides [OF closed]) (use keys in \<open>auto simp: search_ok_def done_in_def\<close>)
  then have search: "detect_cycles by_id keys Map.empty = Inr () \<longleftrightarrow> (\<forall>i \<in> dom by_id. stands by_id i)" using keys by simp
  show ?thesis
  proof (cases "detect_cycles by_id keys Map.empty")
    case (Inl e)
    then obtain i where i: "i \<in> dom by_id" "\<not> stands by_id i" using search by auto
    then have "\<not> ?sound" using owned_node_stands [of "layout_roots ss" by_id i] by blast
    then show ?thesis using Inl by (auto simp: check_forest_def)
  next
    case (Inr u)
    then have trees: "stands by_id i" if "by_id i \<noteq> None" for i using that search by (auto simp: domIff)
    have "\<exists>e. find_map_p (check_space by_id) ss = Some e \<and>
        (e = None \<longleftrightarrow> (\<forall>s \<in> set ss. (\<forall>r \<in> set (space_roots s). by_id r \<noteq> None) \<and> space_ok by_id s))"
      by (rule find_map_p_None, rule check_space_returns, rule trees)
    then obtain e where e: "find_map_p (check_space by_id) ss = Some e"
      "e = None \<longleftrightarrow> (\<forall>r \<in> set (layout_roots ss). by_id r \<noteq> None) \<and> (\<forall>s \<in> set ss. space_ok by_id s)"
      by (auto simp: layout_roots_set)
    have run: "check_forest by_id keys ss = Some (case e of Some e \<Rightarrow> Some e | None \<Rightarrow> validate_forest_ownership by_id keys ss)"
      using Inr e(1) by (simp add: check_forest_def)
    show ?thesis
    proof (cases e)
      case None
      then have roots: "stands by_id r" if "r \<in> set (layout_roots ss)" for r using that e(2) trees by blast
      show ?thesis using run None e(2) ownership_decides [OF roots, where keys = keys] roots keys by simp
    next
      case (Some e')
      then consider r where "r \<in> set (layout_roots ss)" "by_id r = None" | s where "s \<in> set ss" "\<not> space_ok by_id s"
        using e(2) by auto
      then have "\<not> ?sound" using stands_known by cases blast+
      then show ?thesis using run Some by auto
    qed
  qed
qed

theorem layout_validate_decides:
  assumes order: "iterates order"
  shows "\<exists>e. layout_validate order l = Some e \<and> (e = None \<longleftrightarrow> layout_sound l)"
proof -
  let ?ns = "dl_nodes l" and ?ss = "dl_spaces l"
  let ?by = "index_nodes ?ns" and ?entries = "order ?ns"
  have entries: "set ?entries = set ?ns" using order by (simp add: iterates_def)
  note validate = layout_validate_def Let_def
  note sound = layout_sound_def Let_def
  show ?thesis
  proof (cases "dl_version l = layout_version \<and> distinct (map ls_id ?ss) \<and> distinct (map layout_id ?ns) \<and>
      distinct (concat (map node_items ?ns)) \<and> (\<forall>n \<in> set ?ns. node_ok n)")
    case False
    then have "\<not> layout_sound l" by (auto simp: sound)
    moreover have "\<exists>e. layout_validate order l = Some (Some e)"
    proof (cases "claim_nodes ?ns Map.empty")
      case (Inl e)
      then show ?thesis by (auto simp: validate split: option.splits)
    next
      case (Inr owners)
      then have "distinct (concat (map node_items ?ns))" using claim_nodes_returns [of ?ns Map.empty] by auto
      then have "dl_version l \<noteq> layout_version \<or> repeated (map ls_id ?ss) {} \<noteq> None \<or> repeated (map layout_id ?ns) {} \<noteq> None \<or>
          find_map check_node ?entries \<noteq> None"
        using False entries by (auto simp: repeated_None find_map_None check_node_None simp del: not_None_eq)
      then show ?thesis using Inr by (auto simp: validate split: option.splits)
    qed
    ultimately show ?thesis by auto
  next
    case True
    then have firsts: "repeated (map ls_id ?ss) {} = None" "repeated (map layout_id ?ns) {} = None"
      "find_map check_node ?entries = None"
      using entries by (simp_all add: repeated_None find_map_None check_node_None)
    obtain owners where owners: "claim_nodes ?ns Map.empty = Inr owners" using True claim_nodes_returns [of ?ns Map.empty] by auto
    have known: "?by i = Some n \<longleftrightarrow> n \<in> set ?ns \<and> layout_id n = i" for i n using True by (intro index_nodes_iff) simp
    then have dom: "dom ?by = layout_id ` set ?ns" by auto
    have run: "layout_validate order l = (case find_map (check_children ?by) ?entries of
        Some e \<Rightarrow> Some (Some e) | None \<Rightarrow> check_forest ?by (map layout_id ?entries) ?ss)"
      using True firsts owners by (simp add: validate)
    show ?thesis
    proof (cases "find_map (check_children ?by) ?entries")
      case (Some e)
      then obtain n c where n: "n \<in> set ?ns" "c \<in> set (layout_children n)" "?by c = None"
        using find_map_Some [OF Some] entries by (metis check_children_None option.distinct(1))
      have "\<not> layout_sound l"
      proof
        assume "layout_sound l"
        then have "stands ?by (layout_id n)" using owned_node_stands [of "layout_roots ?ss" ?by "layout_id n"] n(1) by (auto simp: sound comp_def)
        moreover have "c \<in> set (children_in ?by (layout_id n))" using known [of "layout_id n" n] n(1,2) by (simp add: children_in_def)
        ultimately show False using stands_children(1) stands_known n(3) by blast
      qed
      then show ?thesis using run Some by simp
    next
      case None
      then have all: "\<forall>n \<in> set ?ns. \<forall>c \<in> set (layout_children n). ?by c \<noteq> None"
        using entries by (simp add: find_map_None check_children_None del: not_None_eq)
      have closed: "?by c \<noteq> None" if i: "?by i \<noteq> None" "c \<in> set (children_in ?by i)" for i c
      proof -
        obtain n where n: "?by i = Some n" "n \<in> set ?ns" using i(1) known by blast
        then have "c \<in> set (layout_children n)" using i(2) by (simp add: children_in_def)
        then show ?thesis using all n(2) by blast
      qed
      have "set (map layout_id ?entries) = dom ?by" using entries dom by simp
      from check_forest_decides [OF closed this, where ss = ?ss] show ?thesis
        using run None True dom by (simp add: sound)
    qed
  qed
qed

end
