(* ===== verification/Dock_Import.thy ===== *)
theory Dock_Import
  imports Dock_Layout_Valid
begin

text \<open>Import: a sound layout becomes a valid graph with the items of the layout in their order.\<close>

section \<open>Canonical graphs are valid\<close>

definition tabs_ok :: "dock_tree \<Rightarrow> bool" where
  "tabs_ok t \<longleftrightarrow> (\<forall>(n, items, selected) \<in> set (tabs_of t). items \<noteq> [] \<longrightarrow> (\<exists>s. selected = Some s \<and> s \<in> set items))"

lemma tabs_ok_simps [simp]:
  "tabs_ok (TTabs n items selected) \<longleftrightarrow> (items \<noteq> [] \<longrightarrow> (\<exists>s. selected = Some s \<and> s \<in> set items))"
  "tabs_ok (TFloating n t) \<longleftrightarrow> tabs_ok t" "tabs_ok (TSplit n axis ts fs) \<longleftrightarrow> (\<forall>t \<in> set ts. tabs_ok t)"
  by (auto simp: tabs_ok_def)

lemma canonical_valid: "canonical t \<Longrightarrow> tabs_ok t \<Longrightarrow> valid_tree t"
  by (induction t) (auto simp: invalid_fraction_def fraction_ok_def f32_is_finite_def)

lemma simp_tabs_ok:
  assumes "simp_tree t = Some t'" and "tabs_ok t"
  shows "tabs_ok t'"
proof -
  have "tabs_of t' = held_tabs t" using simp_tree_tabs [of t] canonical_tabs [OF simp_tree_canonical [OF assms(1)]] assms(1) by simp
  then show ?thesis using assms(2) by (auto simp: tabs_ok_def held_tabs_def)
qed

lemma simp_grove_valid:
  assumes "\<forall>t \<in> set (trees p). tabs_ok t"
  shows "\<forall>t \<in> set (trees (simp_grove p)). valid_tree t"
  using assms canonical_valid simp_tabs_ok simp_tree_canonical
  by (auto simp: simp_grove_trees map_filter_def)

lemma spaces_distinct: "distinct (spaces g)"
proof -
  have "sorted xs \<Longrightarrow> distinct (remdups_adj xs)" for xs :: "space_id list"
  proof (induction xs rule: remdups_adj.induct)
    case (3 x y xs)
    then show ?case by (cases "x = y") (auto dest: order_antisym)
  qed simp_all
  then show ?thesis by (simp add: spaces_def)
qed

text \<open>The loop of \<open>canonicalize\<close> over the spaces.\<close>

lemma simplify_all:
  assumes so: "slot_laws so"
  shows "forest so g F \<Longrightarrow> distinct sps \<Longrightarrow>
    \<exists>g'. for_p (\<lambda>sp g. simplify_space so g sp) sps g = Some g' \<and> forest so g' (\<lambda>sp. if sp \<in> set sps then simp_grove (F sp) else F sp) \<and>
      (\<forall>sp \<in> set sps. \<forall>c n. map_of (dg_central g') sp = Some c \<longrightarrow> cr_node c = Some n \<longrightarrow>
         (\<exists>t. fst (simp_grove (F sp)) = Some t \<and> n \<in> set (ids t))) \<and>
      (\<forall>sp. sp \<notin> set sps \<longrightarrow> map_of (dg_central g') sp = map_of (dg_central g) sp) \<and>
      (\<forall>sp. fc_bounds ` set (floating_containers g' sp) \<subseteq> fc_bounds ` set (floating_containers g sp))"
proof (induction sps arbitrary: g F)
  case (Cons sp sps)
  obtain g1 where 1: "simplify_space so g sp = Some g1" "forest so g1 (F(sp := simp_grove (F sp)))"
    "keeps_regions g g1 sp (simp_grove (F sp))"
    using simplify_space_forest [OF so Cons.prems(1)] by blast
  let ?F = "F(sp := simp_grove (F sp))"
  obtain g' where 2: "for_p (\<lambda>sp g. simplify_space so g sp) sps g1 = Some g'"
    "forest so g' (\<lambda>sp. if sp \<in> set sps then simp_grove (?F sp) else ?F sp)"
    "\<forall>sp \<in> set sps. \<forall>c n. map_of (dg_central g') sp = Some c \<longrightarrow> cr_node c = Some n \<longrightarrow>
       (\<exists>t. fst (simp_grove (?F sp)) = Some t \<and> n \<in> set (ids t))"
    "\<forall>sp. sp \<notin> set sps \<longrightarrow> map_of (dg_central g') sp = map_of (dg_central g1) sp"
    "\<forall>sp. fc_bounds ` set (floating_containers g' sp) \<subseteq> fc_bounds ` set (floating_containers g1 sp)"
    using Cons.IH [OF 1(2)] Cons.prems(2) by auto
  have "(\<lambda>sp'. if sp' \<in> set sps then simp_grove (?F sp') else ?F sp') = (\<lambda>sp'. if sp' \<in> set (sp # sps) then simp_grove (F sp') else F sp')"
    using Cons.prems(2) by auto
  with 2(2) have forest: "forest so g' (\<lambda>sp'. if sp' \<in> set (sp # sps) then simp_grove (F sp') else F sp')" by simp
  have central: "\<exists>t. fst (simp_grove (F sp')) = Some t \<and> n \<in> set (ids t)"
    if "sp' \<in> set (sp # sps)" "map_of (dg_central g') sp' = Some c" "cr_node c = Some n" for sp' c n
  proof (cases "sp' = sp")
    case True
    then have "map_of (dg_central g1) sp = Some c" using that(2) 2(4) Cons.prems(2) by simp
    then show ?thesis using 1(3) that(3) True by (simp add: keeps_regions_def)
  next
    case False
    then show ?thesis using 2(3) that by auto
  qed
  have rest: "map_of (dg_central g') sp' = map_of (dg_central g) sp'" if "sp' \<notin> set (sp # sps)" for sp'
    using that 2(4) 1(3) by (simp add: keeps_regions_def)
  have bounds: "fc_bounds ` set (floating_containers g' sp') \<subseteq> fc_bounds ` set (floating_containers g sp')" for sp'
  proof (rule subset_trans)
    show "fc_bounds ` set (floating_containers g' sp') \<subseteq> fc_bounds ` set (floating_containers g1 sp')" using 2(5) by (rule spec)
    show "fc_bounds ` set (floating_containers g1 sp') \<subseteq> fc_bounds ` set (floating_containers g sp')"
      using 1(3) by (simp only: keeps_regions_def)
  qed
  have "for_p (\<lambda>sp g. simplify_space so g sp) (sp # sps) g = Some g'" using 1(1) 2(1) by simp
  then show ?case
    by (intro exI [of _ g'] conjI allI ballI impI) (rule forest bounds | erule (2) central | erule rest | assumption)+
qed auto

lemma central_space: "(sp, c) \<in> set (dg_central g) \<Longrightarrow> sp \<in> set (spaces g)"
  by (force simp: spaces_def)

lemma floats_ok_forest:
  assumes F: "forest so g F" and floating: "\<And>sp w. w \<in> set (snd (F sp)) \<Longrightarrow> \<exists>n t. w = TFloating n t"
    and bounds: "\<And>sp c. c \<in> set (floating_containers g sp) \<Longrightarrow> bounds_ok (fc_bounds c)"
  shows "floats_ok so g"
  unfolding floats_ok_def
proof clarsimp
  fix sp c assume "(sp, c) \<in> set (floating_entries g)"
  then obtain cs where "(sp, cs) \<in> set (dg_floatings g)" "c \<in> set cs" by (auto simp: floating_entries_def)
  then have c: "c \<in> set (floating_containers g sp)"
    using maps_ok_forest [OF F] map_of_mem [of "dg_floatings g" sp cs] by (simp add: maps_ok_def floating_containers_def)
  then have "fc_node c \<in> set (map fc_node (floating_containers g sp))" by simp
  also have "map fc_node (floating_containers g sp) = map tid (snd (F sp))" using forest_linked [OF F, of sp] by (simp add: linked_def)
  finally have "fc_node c \<in> set (map tid (snd (F sp)))" .
  then obtain w where w: "w \<in> set (snd (F sp))" "fc_node c = tid w" by auto
  obtain n t where "w = TFloating n t" using floating [OF w(1)] by blast
  moreover have "w \<in> set (trees (F sp))" using w(1) by (cases "F sp") simp
  then have "rep (node so g) w" by (rule forest_rep [OF F])
  ultimately show "bounds_ok (fc_bounds c) \<and> is_floating (node so g (fc_node c))" using bounds [OF c] w(2) by (simp add: is_floating_def)
qed

theorem canonicalize_valid:
  assumes so: "slot_laws so" and F: "forest so g F" and tabs: "\<And>sp t. t \<in> set (trees (F sp)) \<Longrightarrow> tabs_ok t"
    and floating: "\<And>sp w. w \<in> set (snd (F sp)) \<Longrightarrow> \<exists>n t. w = TFloating n t"
    and bounds: "\<And>sp c. c \<in> set (floating_containers g sp) \<Longrightarrow> bounds_ok (fc_bounds c)"
    and apart: "items_apart (items_of F)"
  shows "\<exists>g'. dock_canonicalize so g = Some g' \<and> valid_forest so g' (\<lambda>sp. simp_grove (F sp)) \<and> tidy so g' (\<lambda>sp. simp_grove (F sp))"
proof -
  let ?F = "\<lambda>sp. simp_grove (F sp)"
  obtain g1 where g1: "for_p (\<lambda>sp g. simplify_space so g sp) (spaces g) g = Some g1"
    "forest so g1 (\<lambda>sp. if sp \<in> set (spaces g) then simp_grove (F sp) else F sp)"
    "\<forall>sp \<in> set (spaces g). \<forall>c n. map_of (dg_central g1) sp = Some c \<longrightarrow> cr_node c = Some n \<longrightarrow>
       (\<exists>t. fst (simp_grove (F sp)) = Some t \<and> n \<in> set (ids t))"
    "\<forall>sp. sp \<notin> set (spaces g) \<longrightarrow> map_of (dg_central g1) sp = map_of (dg_central g) sp"
    "\<forall>sp. fc_bounds ` set (floating_containers g1 sp) \<subseteq> fc_bounds ` set (floating_containers g sp)"
    using simplify_all [OF so F spaces_distinct] by blast
  have "F sp = (None, [])" if "sp \<notin> set (spaces g)" for sp using spaces_cover [OF F that] .
  then have "(\<lambda>sp. if sp \<in> set (spaces g) then simp_grove (F sp) else F sp) = ?F"
    by (auto simp: simp_grove_def map_filter_simps fun_eq_iff)
  with g1(2) have F1: "forest so g1 ?F" by simp
  let ?R = "\<Union>sp. set (grove_ids (?F sp))"
  let ?g = "prune_nodes_not_in so g1 ?R"
  have run: "dock_canonicalize so g = Some ?g"
    using g1(1) reachable_covers [OF so F1] by (simp add: dock_canonicalize_def prune_unreachable_nodes_def)
  have forest: "forest so ?g ?F" by (rule prune_forest [OF so F1]) blast
  have tidy: "tidy so ?g ?F" using prune_fields(4) [OF so] by (auto simp: tidy_def split: if_splits)
  have same: "floating_containers ?g sp = floating_containers g1 sp" for sp by (simp add: floating_containers_def prune_fields [OF so])
  have "floats_ok so ?g"
  proof (rule floats_ok_forest [OF forest])
    show "\<exists>n t. w = TFloating n t" if "w \<in> set (snd (?F sp))" for sp w
      using that floating [of _ sp] by (fastforce simp: simp_grove_def map_filter_def)
    show "bounds_ok (fc_bounds c)" if "c \<in> set (floating_containers ?g sp)" for sp c
      using that same g1(5) bounds by fastforce
  qed
  moreover have "central_ok ?g ?F"
    unfolding central_ok_def
  proof clarsimp
    fix sp c n assume c: "(sp, c) \<in> set (dg_central ?g)" "cr_node c = Some n"
    then have at_sp: "map_of (dg_central g1) sp = Some c"
      using maps_ok_forest [OF F1] map_of_mem [of "dg_central g1" sp c] by (simp add: maps_ok_def prune_fields [OF so])
    then have "sp \<in> set (spaces g)" using g1(4) central_space [of sp c g] by (metis map_of_SomeD)
    then show "\<exists>t. fst (?F sp) = Some t \<and> n \<in> set (ids t)" using g1(3) at_sp c(2) by blast
  qed
  moreover have "valid_tree t" if "t \<in> set (trees (?F sp))" for sp t using simp_grove_valid [of "F sp"] tabs that by blast
  moreover have "items_apart (items_of ?F)" using apart by (simp add: simp_grove_items)
  ultimately have "valid_forest so ?g ?F" using forest by (simp add: valid_forest_def)
  then show ?thesis using run tidy by blast
qed

end
