(* ===== verification/Dock_Build.thy ===== *)
theory Dock_Build
  imports Dock_Import
begin

text \<open>Building the nodes of a layout in a graph: a tree of the layout becomes the same tree on new nodes.\<close>

section \<open>Renaming\<close>

fun rename :: "(node_id \<Rightarrow> node_id) \<Rightarrow> dock_tree \<Rightarrow> dock_tree" where
  "rename r (TTabs n items selected) = TTabs (r n) items selected"
| "rename r (TFloating n t) = TFloating (r n) (rename r t)"
| "rename r (TSplit n axis ts fs) = TSplit (r n) axis (map (rename r) ts) fs"

lemma rename_simps [simp]: "tid (rename r t) = r (tid t)" "ids (rename r t) = map r (ids t)" "tree_items (rename r t) = tree_items t"
  "tabs_ok (rename r t) \<longleftrightarrow> tabs_ok t"
proof -
  show "tid (rename r t) = r (tid t)" by (cases t) simp_all
  show "ids (rename r t) = map r (ids t)" by (induction t) (auto simp: map_concat comp_def cong: map_cong)
  show "tree_items (rename r t) = tree_items t" by (induction t) (auto simp: comp_def cong: map_cong)
  show "tabs_ok (rename r t) \<longleftrightarrow> tabs_ok t" by (induction t) auto
qed

lemma rename_cong: "(\<And>n. n \<in> set (ids t) \<Longrightarrow> r n = r' n) \<Longrightarrow> rename r t = rename r' t"
  by (induction t) auto

section \<open>Building\<close>

abbreviation new_id :: "'s layout_importer \<Rightarrow> node_id \<Rightarrow> node_id" where
  "new_id m n \<equiv> the (li_built m (word_of_nat n))"

abbreviation held :: "'s slot_ops \<Rightarrow> 's layout_importer \<Rightarrow> node_id \<rightharpoonup> dock_node" where
  "held so m \<equiv> node so (li_graph m)"

text \<open>From \<open>m\<close> to \<open>m'\<close> the layout nodes \<open>ns\<close> are built, on new nodes, and nothing else happens.\<close>

definition builds :: "'s slot_ops \<Rightarrow> 's layout_importer \<Rightarrow> 's layout_importer \<Rightarrow> node_id set \<Rightarrow> bool" where
  "builds so m m' ns \<longleftrightarrow> (\<forall>n. held so m n \<noteq> None \<longrightarrow> held so m' n = held so m n) \<and>
     (\<forall>n \<in> ns. \<exists>k. li_built m' (word_of_nat n) = Some k \<and> held so m k = None \<and> held so m' k \<noteq> None) \<and>
     (\<forall>i. unat i \<notin> ns \<longrightarrow> li_built m' i = li_built m i) \<and>
     dg_roots (li_graph m') = dg_roots (li_graph m) \<and> dg_floatings (li_graph m') = dg_floatings (li_graph m) \<and>
     dg_central (li_graph m') = dg_central (li_graph m)"

lemma builds_refl: "builds so m m {}"
  by (simp add: builds_def)

lemma builds_stored: "builds so m m' ns \<Longrightarrow> held so m n \<noteq> None \<Longrightarrow> held so m' n = held so m n"
  by (simp add: builds_def)

lemma builds_id: "builds so m m' ns \<Longrightarrow> unat i \<notin> ns \<Longrightarrow> li_built m' i = li_built m i"
  by (simp add: builds_def)

lemma builds_new:
  "builds so m m' ns \<Longrightarrow> n \<in> ns \<Longrightarrow> li_built m' (word_of_nat n) = Some (new_id m' n) \<and> held so m (new_id m' n) = None \<and> held so m' (new_id m' n) \<noteq> None"
  by (auto simp: builds_def)

definition small :: "node_id set \<Rightarrow> bool" where
  "small ns \<longleftrightarrow> (\<forall>n \<in> ns. n < 2 ^ 32)"

lemma small_word: "small ns \<Longrightarrow> n \<in> ns \<Longrightarrow> unat (word_of_nat n :: u32) = n"
  by (simp add: small_def unsigned_of_nat take_bit_nat_eq_self)

lemma builds_trans:
  assumes 1: "builds so m m1 ns" and 2: "builds so m1 m2 ks" and sep: "ns \<inter> ks = {}" and small: "small ns" "small ks"
  shows "builds so m m2 (ns \<union> ks)"
  unfolding builds_def
proof (intro conjI allI ballI impI)
  show same: "held so m2 n = held so m n" if "held so m n \<noteq> None" for n
    using that builds_stored [OF 1, of n] builds_stored [OF 2, of n] by simp
  fix n assume n: "n \<in> ns \<union> ks"
  show "\<exists>k. li_built m2 (word_of_nat n) = Some k \<and> held so m k = None \<and> held so m2 k \<noteq> None"
  proof (cases "n \<in> ks")
    case True
    then show ?thesis using builds_new [OF 2 True] builds_stored [OF 1, of "new_id m2 n"] by (metis not_None_eq)
  next
    case False
    then have "n \<in> ns" using n by simp
    moreover have "li_built m2 (word_of_nat n) = li_built m1 (word_of_nat n)"
      by (rule builds_id [OF 2]) (use False small_word [OF small(1) \<open>n \<in> ns\<close>] in simp)
    ultimately show ?thesis using builds_new [OF 1, of n] builds_stored [OF 2, of "new_id m1 n"] by auto
  qed
next
  show "li_built m2 i = li_built m i" if "unat i \<notin> ns \<union> ks" for i using that builds_id [OF 1, of i] builds_id [OF 2, of i] by simp
qed (use 1 2 in \<open>simp_all add: builds_def\<close>)

text \<open>The trees \<open>ts\<close> have been built.\<close>

definition built :: "'s slot_ops \<Rightarrow> 's layout_importer \<Rightarrow> 's layout_importer \<Rightarrow> dock_tree list \<Rightarrow> bool" where
  "built so m m' ts \<longleftrightarrow> builds so m m' (set (concat (map ids ts))) \<and> (\<forall>t \<in> set ts. rep (held so m') (rename (new_id m') t)) \<and>
     distinct (map (new_id m') (concat (map ids ts)))"

lemma built_keeps:
  assumes 1: "built so m m1 ts" and 2: "builds so m1 m2 ks" and sep: "set (concat (map ids ts)) \<inter> ks = {}"
    and small: "small (set (concat (map ids ts)))"
  shows "\<And>n. n \<in> set (concat (map ids ts)) \<Longrightarrow> new_id m2 n = new_id m1 n" and "\<And>t. t \<in> set ts \<Longrightarrow> rep (held so m2) (rename (new_id m2) t)"
proof -
  show ids: "new_id m2 n = new_id m1 n" if n: "n \<in> set (concat (map ids ts))" for n
  proof -
    have "unat (word_of_nat n :: u32) \<notin> ks" unfolding small_word [OF small n] using n sep by blast
    then show ?thesis using builds_id [OF 2] by simp
  qed
  show "rep (held so m2) (rename (new_id m2) t)" if t: "t \<in> set ts" for t
  proof -
    have same: "rename (new_id m2) t = rename (new_id m1) t" by (rule rename_cong, rule ids) (use t in auto)
    have rep1: "rep (held so m1) (rename (new_id m1) t)" using 1 t by (simp add: built_def)
    have "rep (held so m2) (rename (new_id m1) t)"
      by (subst rep_cong [of _ _ "held so m1"]) (use rep1 rep_stored [OF rep1] builds_stored [OF 2] in auto)
    then show ?thesis using same by simp
  qed
qed

lemma image_apart: "(\<And>x y. x \<in> A \<Longrightarrow> y \<in> B \<Longrightarrow> f x \<noteq> f y) \<Longrightarrow> f ` A \<inter> f ` B = {}"
  by blast

lemma built_append:
  assumes 1: "built so m m1 ts" and 2: "built so m1 m2 us"
    and sep: "set (concat (map ids ts)) \<inter> set (concat (map ids us)) = {}"
    and small: "small (set (concat (map ids ts)))" "small (set (concat (map ids us)))"
  shows "built so m m2 (ts @ us)"
proof -
  have b1: "builds so m m1 (set (concat (map ids ts)))" and b2: "builds so m1 m2 (set (concat (map ids us)))"
    using 1 2 by (simp_all add: built_def)
  note keeps = built_keeps [OF 1 b2 sep small(1)]
  have "map (new_id m2) (concat (map ids ts)) = map (new_id m1) (concat (map ids ts))" using keeps(1) by simp
  then have first: "distinct (map (new_id m2) (concat (map ids ts)))" using 1 by (simp only: built_def)
  have second: "distinct (map (new_id m2) (concat (map ids us)))" using 2 by (simp only: built_def)
  have apart: "new_id m2 n \<noteq> new_id m2 k" if "n \<in> set (concat (map ids ts))" "k \<in> set (concat (map ids us))" for n k
    using builds_new [OF b1 that(1)] builds_new [OF b2 that(2)] keeps(1) [OF that(1)] by auto
  have "set (map (new_id m2) (concat (map ids ts))) \<inter> set (map (new_id m2) (concat (map ids us))) = {}"
    unfolding set_map [of "new_id m2"] by (rule image_apart, rule apart)
  then have "distinct (map (new_id m2) (concat (map ids ts)) @ map (new_id m2) (concat (map ids us)))"
    using first second by (simp only: distinct_append)
  then have "distinct (map (new_id m2) (concat (map ids (ts @ us))))" by simp
  moreover have "builds so m m2 (set (concat (map ids (ts @ us))))" using builds_trans [OF b1 b2 sep small] by simp
  moreover have "rep (held so m2) (rename (new_id m2) t)" if "t \<in> set (ts @ us)" for t
    using that keeps(2) 2 by (auto simp: built_def)
  ultimately show ?thesis unfolding built_def by blast
qed

lemma built_Nil: "built so m m []"
  by (simp add: built_def builds_refl)

section \<open>One tree\<close>

lemma add_built_node:
  assumes so: "slot_laws so" and add: "add_built so i x m = (k, m')"
  shows "builds so m m' {unat i}" and "li_built m' i = Some k" and "held so m' = (held so m)(k \<mapsto> x)" and "held so m k = None"
proof -
  obtain g where g: "insert_node so (li_graph m) x = (k, g)" "m' = m\<lparr>li_graph := g, li_built := (li_built m)(i \<mapsto> k)\<rparr>"
    using add by (auto simp: add_built_def split: prod.splits)
  obtain s where s: "so_insert so (dg_nodes (li_graph m)) x = (k, s)" "g = (li_graph m)\<lparr>dg_nodes := s\<rparr>"
    using g(1) by (auto simp: insert_node_def split: prod.splits)
  show "held so m k = None" "held so m' = (held so m)(k \<mapsto> x)" using so s g(2) by (simp_all add: slot_laws_def)
  then show "builds so m m' {unat i}" using g(2) s(2) by (auto simp: builds_def)
  show "li_built m' i = Some k" using g(2) by simp
qed

lemma rep_small: "rep (lay by_id) t \<Longrightarrow> small (set (ids t))"
  unfolding small_def
proof
  fix n assume "rep (lay by_id) t" "n \<in> set (ids t)"
  then have "lay by_id n \<noteq> None" by (rule rep_stored)
  then show "n < 2 ^ 32" by (auto simp: lay_def split: if_splits)
qed

definition unbuilt :: "'s layout_importer \<Rightarrow> node_id set \<Rightarrow> bool" where
  "unbuilt m ns \<longleftrightarrow> (\<forall>n \<in> ns. li_built m (word_of_nat n) = None)"

lemma unbuilt_keeps: "unbuilt m ns \<Longrightarrow> builds so m m' ks \<Longrightarrow> ns \<inter> ks = {} \<Longrightarrow> small ns \<Longrightarrow> unbuilt m' ns"
  unfolding unbuilt_def using builds_id small_word by (metis disjoint_iff)

lemma build_children:
  assumes "\<And>t m. t \<in> set ts \<Longrightarrow> rep (lay by_id) t \<Longrightarrow> distinct (ids t) \<Longrightarrow> unbuilt m (set (ids t)) \<Longrightarrow>
      \<exists>m'. build_node so by_id (word_of_nat (tid t)) m = Some (new_id m' (tid t), m') \<and> built so m m' [t]"
    and "\<And>t. t \<in> set ts \<Longrightarrow> rep (lay by_id) t" and "distinct (concat (map ids ts))" and "unbuilt m (set (concat (map ids ts)))"
  shows "\<exists>m'. for_p (build_child (build_node so by_id)) (map (\<lambda>t. word_of_nat (tid t)) ts) (ns, m)
    = Some (ns @ map (new_id m' \<circ> tid) ts, m') \<and> built so m m' ts"
  using assms
proof (induction ts arbitrary: ns m)
  case Nil
  then show ?case by (simp add: built_Nil)
next
  case (Cons t ts)
  have t: "rep (lay by_id) t" "distinct (ids t)" "unbuilt m (set (ids t))" using Cons.prems(2-4) by (auto simp: unbuilt_def)
  obtain m1 where 1: "build_node so by_id (word_of_nat (tid t)) m = Some (new_id m1 (tid t), m1)" "built so m m1 [t]"
    using Cons.prems(1) [of t m] t by auto
  have sep: "set (concat (map ids [t])) \<inter> set (concat (map ids ts)) = {}" using Cons.prems(3) by auto
  have small: "small (set (concat (map ids [t])))" "small (set (concat (map ids ts)))"
    using rep_small Cons.prems(2) by (fastforce simp: small_def)+
  have b1: "builds so m m1 (set (concat (map ids [t])))" using 1(2) by (simp add: built_def)
  have "unbuilt m1 (set (concat (map ids ts)))"
    by (rule unbuilt_keeps [OF _ b1 _ small(2)]) (use Cons.prems(4) sep in \<open>auto simp: unbuilt_def\<close>)
  then obtain m2 where 2: "for_p (build_child (build_node so by_id)) (map (\<lambda>t. word_of_nat (tid t)) ts) (ns @ [new_id m1 (tid t)], m1)
      = Some ((ns @ [new_id m1 (tid t)]) @ map (new_id m2 \<circ> tid) ts, m2)" "built so m1 m2 ts"
    using Cons.IH [of m1 "ns @ [new_id m1 (tid t)]"] Cons.prems(1-3) by auto
  have b2: "builds so m1 m2 (set (concat (map ids ts)))" using 2(2) by (simp add: built_def)
  have "new_id m2 (tid t) = new_id m1 (tid t)" by (rule built_keeps(1) [OF 1(2) b2 sep small(1)]) simp
  moreover have "build_child (build_node so by_id) (word_of_nat (tid t)) (ns, m) = Some (ns @ [new_id m1 (tid t)], m1)"
    using 1(1) by (simp add: build_child_def)
  ultimately show ?case using 2(1) built_append [OF 1(2) 2(2) sep small] by auto
qed

theorem build_tree:
  assumes so: "slot_laws so"
  shows "rep (lay by_id) t \<Longrightarrow> distinct (ids t) \<Longrightarrow> unbuilt m (set (ids t)) \<Longrightarrow>
    \<exists>m'. build_node so by_id (word_of_nat (tid t)) m = Some (new_id m' (tid t), m') \<and> built so m m' [t]"
proof (induction t arbitrary: m)
  case (TTabs n items selected)
  obtain l where l: "by_id (word_of_nat n) = Some l" "dock_of l = Tabs items selected" using rep_known [OF TTabs.prems(1)] by auto
  obtain k m' where add: "add_built so (word_of_nat n) (Tabs items selected) m = (k, m')" by (cases "add_built so (word_of_nat n) (Tabs items selected) m")
  note new = add_built_node [OF so add]
  have "unat (word_of_nat n :: u32) = n" using rep_word [OF TTabs.prems(1)] by simp
  then have "built so m m' [TTabs n items selected]" using new by (simp add: built_def)
  moreover have "build_node so by_id (word_of_nat n) m = Some (k, m')"
    using l add TTabs.prems(3) by (subst build_node.simps) (cases l; simp add: unbuilt_def)
  ultimately show ?case using new(2) by simp
next
  case (TFloating n t)
  then show ?case by simp
next
  case (TSplit n axis ts fs)
  let ?i = "word_of_nat n :: u32" and ?t = "TSplit n axis ts fs"
  obtain l where l: "by_id ?i = Some l" "dock_of l = Split axis (map tid ts) fs" using rep_known [OF TSplit.prems(1)] by auto
  then obtain j cs where split: "l = LSplit j axis cs fs" by (cases l) auto
  have cs: "cs = map (\<lambda>t. word_of_nat (tid t)) ts"
    using children_subtrees [OF TSplit.prems(1)] l(1) split by (simp add: children_in_def)
  have free: "unbuilt m (set (concat (map ids ts)))" using TSplit.prems(3) by (simp add: unbuilt_def)
  have "\<exists>m'. for_p (build_child (build_node so by_id)) (map (\<lambda>t. word_of_nat (tid t)) ts) ([], m)
      = Some ([] @ map (new_id m' \<circ> tid) ts, m') \<and> built so m m' ts"
    by (rule build_children) (use TSplit free in auto)
  then obtain m1 where 1: "for_p (build_child (build_node so by_id)) cs ([], m) = Some (map (new_id m1 \<circ> tid) ts, m1)" "built so m m1 ts"
    using cs by auto
  let ?x = "Split axis (map (new_id m1 \<circ> tid) ts) fs"
  obtain k m' where add: "add_built so ?i ?x m1 = (k, m')" by (cases "add_built so ?i ?x m1")
  note new = add_built_node [OF so add]
  have id: "unat ?i = n" using rep_word [OF TSplit.prems(1)] by simp
  have b1: "builds so m m1 (set (concat (map ids ts)))" using 1(2) by (simp add: built_def)
  have b2: "builds so m1 m' {n}" using new(1) id by simp
  have sep: "set (concat (map ids ts)) \<inter> {n} = {}" using TSplit.prems(2) by auto
  have small: "small (set (concat (map ids ts)))" "small {n}" using rep_small [OF TSplit.prems(1)] by (simp_all add: small_def)
  note keeps = built_keeps [OF 1(2) b2 sep small(1)]
  have kids: "new_id m' (tid t) = new_id m1 (tid t)" if "t \<in> set ts" for t by (rule keeps(1)) (use that in \<open>auto intro!: bexI [of _ t]\<close>)
  have "held so m' k = Some (Split axis (map tid (map (rename (new_id m')) ts)) fs)" using new(3) kids by simp
  then have "rep (held so m') (rename (new_id m') ?t)" using new(2) keeps(2) by simp
  moreover have "distinct (map (new_id m') (ids ?t))"
  proof -
    have "map (new_id m') (concat (map ids ts)) = map (new_id m1) (concat (map ids ts))" using keeps(1) by simp
    then have "distinct (map (new_id m') (concat (map ids ts)))" using 1(2) by (simp only: built_def)
    moreover have "k \<noteq> new_id m' j" if "j \<in> set (concat (map ids ts))" for j
      using builds_new [OF b1 that] keeps(1) [OF that] new(4) by auto
    ultimately show ?thesis using new(2) by auto
  qed
  moreover have "builds so m m' (set (ids ?t))" using builds_trans [OF b1 b2 sep small] by simp
  ultimately have "built so m m' [?t]" by (simp add: built_def)
  moreover have "build_node so by_id ?i m = Some (k, m')"
    using l(1) split 1(1) add TSplit.prems(3) by (subst build_node.simps) (simp add: unbuilt_def)
  ultimately show ?case using new(2) by simp
qed

end
