(* ===== verification/Dock_Imported.thy ===== *)
theory Dock_Imported
  imports Dock_Build
begin

text \<open>The import of the spaces of a sound layout, and the graph it ends with.\<close>

section \<open>The importer\<close>

definition importing :: "'s slot_ops \<Rightarrow> node_id set \<Rightarrow> 's layout_importer \<Rightarrow> (space_id \<Rightarrow> grove) \<Rightarrow> bool" where
  "importing so A m F \<longleftrightarrow> forest so (li_graph m) F \<and> (\<forall>sp. \<forall>t \<in> set (trees (F sp)). tabs_ok t) \<and>
     (\<forall>sp. \<forall>w \<in> set (snd (F sp)). \<exists>n t. w = TFloating n t) \<and>
     (\<forall>sp. \<forall>c \<in> set (floating_containers (li_graph m) sp). bounds_ok (fc_bounds c)) \<and>
     (\<forall>i. li_built m i \<noteq> None \<longleftrightarrow> unat i \<in> A)"

text \<open>A tree of the layout that has been built, and is not yet in a space.\<close>

definition fresh_tree :: "'s slot_ops \<Rightarrow> 's layout_importer \<Rightarrow> (space_id \<Rightarrow> grove) \<Rightarrow> dock_tree \<Rightarrow> bool" where
  "fresh_tree so m F t \<longleftrightarrow> rep (held so m) t \<and> distinct (ids t) \<and> (\<forall>n sp. n \<in> set (ids t) \<longrightarrow> n \<notin> set (grove_ids (F sp))) \<and> tabs_ok t"

text \<open>The trees of a layout that can be built: finite, no node twice, none built before, selections among the items.\<close>

definition buildable :: "layout_index \<Rightarrow> node_id set \<Rightarrow> u32 list \<Rightarrow> bool" where
  "buildable by_id A rs \<longleftrightarrow> (\<forall>r \<in> set rs. stands by_id r \<and> tabs_ok (tree_in by_id r)) \<and>
     distinct (concat (map (ids \<circ> tree_in by_id) rs)) \<and> set (concat (map (ids \<circ> tree_in by_id) rs)) \<inter> A = {}"

abbreviation root_ids :: "layout_index \<Rightarrow> u32 list \<Rightarrow> node_id set" where
  "root_ids by_id rs \<equiv> set (concat (map (ids \<circ> tree_in by_id) rs))"

lemma buildable_append:
  "buildable by_id A (rs @ rs') \<longleftrightarrow> buildable by_id A rs \<and> buildable by_id (A \<union> root_ids by_id rs) rs'"
  unfolding buildable_def by (auto simp: Int_Un_distrib)

lemma build_importing:
  assumes so: "slot_laws so" and inv: "importing so A m F" and r: "buildable by_id A [r]"
  shows "\<exists>m' t'. build_node so by_id r m = Some (tid t', m') \<and> importing so (A \<union> root_ids by_id [r]) m' F \<and> fresh_tree so m' F t' \<and>
    tree_items t' = tree_items (tree_in by_id r) \<and> dg_central (li_graph m') = dg_central (li_graph m)"
proof -
  let ?t = "tree_in by_id r"
  have t: "rep (lay by_id) ?t" "tid ?t = unat r" "distinct (ids ?t)" "set (ids ?t) \<inter> A = {}" "tabs_ok ?t"
    using r stands_rep by (auto simp: buildable_def)
  have free: "unbuilt m (set (ids ?t))"
    unfolding unbuilt_def
  proof
    fix n assume n: "n \<in> set (ids ?t)"
    then have "unat (word_of_nat n :: u32) \<notin> A" using small_word [OF rep_small [OF t(1)] n] t(4) by auto
    then show "li_built m (word_of_nat n) = None" using inv unfolding importing_def by blast
  qed
  obtain m' where m': "build_node so by_id r m = Some (new_id m' (tid ?t), m')" "built so m m' [?t]"
    using build_tree [OF so t(1,3) free] t(2) by auto
  have b: "builds so m m' (set (ids ?t))" and rep: "rep (held so m') (rename (new_id m') ?t)" and dist: "distinct (map (new_id m') (ids ?t))"
    using m'(2) by (simp_all add: built_def)
  have F: "forest so (li_graph m) F" using inv by (simp add: importing_def)
  have new: "new_id m' n \<notin> set (grove_ids (F sp))" if "n \<in> set (ids ?t)" for n sp
    using builds_new [OF b that] forest_stored [OF F] by blast
  have maps: "dg_roots (li_graph m') = dg_roots (li_graph m)" "dg_floatings (li_graph m') = dg_floatings (li_graph m)"
    "dg_central (li_graph m') = dg_central (li_graph m)" using b by (simp_all add: builds_def)
  have "forest so (li_graph m') F"
    by (rule forest_cong [OF F]) (use maps maps_ok_forest [OF F] builds_stored [OF b] forest_stored [OF F] in \<open>auto simp: maps_ok_def\<close>)
  moreover have "li_built m' i \<noteq> None \<longleftrightarrow> unat i \<in> A \<union> set (ids ?t)" for i
  proof (cases "unat i \<in> set (ids ?t)")
    case True
    then show ?thesis using builds_new [OF b True] by auto
  next
    case False
    then show ?thesis using builds_id [OF b False] inv by (simp add: importing_def)
  qed
  ultimately have "importing so (A \<union> root_ids by_id [r]) m' F"
    using inv maps unfolding importing_def by (simp add: floating_containers_def)
  moreover have "fresh_tree so m' F (rename (new_id m') ?t)" using rep dist new t(5) by (auto simp: fresh_tree_def)
  ultimately show ?thesis using m'(1) maps(3) by (intro exI [of _ m'] exI [of _ "rename (new_id m') ?t"]) simp
qed

text \<open>The space \<open>sp\<close> gets the items \<open>xs\<close>, after those it has.\<close>

definition gets :: "(space_id \<Rightarrow> grove) \<Rightarrow> space_id \<Rightarrow> item_id list \<Rightarrow> (space_id \<Rightarrow> grove) \<Rightarrow> bool" where
  "gets F sp xs F' \<longleftrightarrow> (\<forall>sp'. sp' \<noteq> sp \<longrightarrow> F' sp' = F sp') \<and>
     concat (map tree_items (trees (F' sp))) = concat (map tree_items (trees (F sp))) @ xs"

lemma gets_trans: "gets F sp xs F1 \<Longrightarrow> gets F1 sp ys F2 \<Longrightarrow> gets F sp (xs @ ys) F2"
  by (simp add: gets_def)

lemma gets_refl: "gets F sp [] F"
  by (simp add: gets_def)

section \<open>The parts of a space\<close>

definition root_list :: "layout_space \<Rightarrow> u32 list" where
  "root_list s = (case ls_root s of None \<Rightarrow> [] | Some r \<Rightarrow> [r])"

definition items_below :: "layout_index \<Rightarrow> u32 list \<Rightarrow> item_id list" where
  "items_below by_id rs = concat (map (\<lambda>r. tree_items (tree_in by_id r)) rs)"

lemma items_below_simps [simp]:
  "items_below by_id [] = []" "items_below by_id (r # rs) = tree_items (tree_in by_id r) @ items_below by_id rs"
  "items_below by_id (rs @ rs') = items_below by_id rs @ items_below by_id rs'"
  by (simp_all add: items_below_def)

lemma import_root_importing:
  assumes so: "slot_laws so" and inv: "importing so A m F" and build: "buildable by_id A (root_list s)"
    and empty: "F (ls_id s) = (None, [])" "map_of (dg_central (li_graph m)) (ls_id s) = None"
  shows "\<exists>m' F'. import_root so by_id s m = Some m' \<and> importing so (A \<union> root_ids by_id (root_list s)) m' F' \<and>
    gets F (ls_id s) (items_below by_id (root_list s)) F' \<and> dg_central (li_graph m') = dg_central (li_graph m)"
proof (cases "ls_root s")
  case None
  then show ?thesis using inv by (auto simp: import_root_def root_list_def intro: gets_refl)
next
  case (Some r)
  then have "buildable by_id A [r]" using build by (simp add: root_list_def)
  then obtain m1 t where 1: "build_node so by_id r m = Some (tid t, m1)" "importing so (A \<union> root_ids by_id [r]) m1 F" "fresh_tree so m1 F t"
    "tree_items t = tree_items (tree_in by_id r)" "dg_central (li_graph m1) = dg_central (li_graph m)"
    using build_importing [OF so inv] by blast
  let ?sp = "ls_id s"
  let ?F = "F(?sp := (Some t, snd (F ?sp)))" and ?g = "set_root (li_graph m1) ?sp (tid t)"
  have F: "forest so (li_graph m1) F" using 1(2) by (simp add: importing_def)
  have "map_of (dg_central (li_graph m1)) ?sp = None" using empty(2) 1(5) by simp
  then have "bt_modify ?sp f (dg_central (li_graph m1)) = dg_central (li_graph m1)" for f
    by (auto simp: bt_modify_def map_of_eq_None_iff intro!: map_idI) force
  then have same: "set_root_for_empty_space (li_graph m1) ?sp (tid t) = ?g" by (simp add: set_root_for_empty_space_def set_root_def)
  have "forest so (set_root_for_empty_space (li_graph m1) ?sp (tid t)) ?F"
    by (rule set_root_forest(1) [OF F]) (use empty 1(3) in \<open>auto simp: fresh_tree_def\<close>)
  then have forest: "forest so ?g ?F" by (simp only: same)
  let ?m = "m1\<lparr>li_graph := ?g\<rparr>"
  have "importing so (A \<union> root_ids by_id [r]) ?m ?F"
    using 1(2,3) forest empty(1) unfolding importing_def fresh_tree_def by (auto simp: set_root_def floating_containers_def)
  moreover have "gets F ?sp (items_below by_id [r]) ?F" using empty(1) 1(4) by (simp add: gets_def)
  moreover have "import_root so by_id s m = Some ?m" using Some 1(1) by (simp add: import_root_def)
  moreover have "dg_central (li_graph ?m) = dg_central (li_graph m)" using 1(5) by (simp add: set_root_def)
  ultimately show ?thesis using Some by (simp add: root_list_def) blast
qed

lemma add_floating_parts: "trees (add_floating w p) = trees p @ [w]" "snd (add_floating w p) = snd p @ [w]"
  by (cases p; simp add: add_floating_def)+

lemma import_floating_importing:
  assumes so: "slot_laws so" and inv: "importing so A m F" and build: "buildable by_id A [lf_root f]" and bounds: "bounds_ok (lf_bounds f)"
  shows "\<exists>m' F'. import_floating so by_id sp f m = Some m' \<and> importing so (A \<union> root_ids by_id [lf_root f]) m' F' \<and>
    gets F sp (items_below by_id [lf_root f]) F' \<and> dg_central (li_graph m') = dg_central (li_graph m)"
proof -
  obtain m1 t where 1: "build_node so by_id (lf_root f) m = Some (tid t, m1)" "importing so (A \<union> root_ids by_id [lf_root f]) m1 F"
    "fresh_tree so m1 F t" "tree_items t = tree_items (tree_in by_id (lf_root f))" "dg_central (li_graph m1) = dg_central (li_graph m)"
    using build_importing [OF so inv build] by blast
  obtain k g where k: "insert_node so (li_graph m1) (Floating (tid t)) = (k, g)" by (cases "insert_node so (li_graph m1) (Floating (tid t))")
  have F: "forest so (li_graph m1) F" using 1(2) by (simp add: importing_def)
  note new = insert_node_forest [OF so F k]
  let ?w = "TFloating k t" and ?F = "F(sp := add_floating (TFloating k t) (F sp))"
  let ?g = "push_floating g sp \<lparr>fc_node = k, fc_bounds = lf_bounds f\<rparr>"
  have t: "rep (held so m1) t" "distinct (ids t)" "\<And>n sp. n \<in> set (ids t) \<Longrightarrow> n \<notin> set (grove_ids (F sp))" "tabs_ok t"
    using 1(3) by (auto simp: fresh_tree_def)
  have "k \<notin> set (ids t)" using rep_stored [OF t(1)] new(2) by blast
  then have w: "rep (node so g) ?w" "distinct (ids ?w)" "\<And>n sp. n \<in> set (ids ?w) \<Longrightarrow> n \<notin> set (grove_ids (F sp))"
    using t new(3,4) rep_extend [OF t(1) new(2)] by auto
  have "forest so (push_floating g sp \<lparr>fc_node = tid ?w, fc_bounds = lf_bounds f\<rparr>) ?F" by (rule push_floating_forest [OF new(1) w])
  then have forest: "forest so ?g ?F" by simp
  have "importing so (A \<union> root_ids by_id [lf_root f]) (m1\<lparr>li_graph := ?g\<rparr>) ?F"
    using 1(2) forest t(4) bounds new(6) maps_ok_forest [OF new(1)] unfolding importing_def
    by (auto simp: push_floating_def floating_containers_def maps_ok_def bt_simps add_floating_parts split: if_splits)
  moreover have "gets F sp (items_below by_id [lf_root f]) ?F"
    using 1(4) by (simp add: gets_def add_floating_parts)
  moreover have "import_floating so by_id sp f m = Some (m1\<lparr>li_graph := ?g\<rparr>)" using 1(1) k by (simp add: import_floating_def)
  moreover have "dg_central (li_graph (m1\<lparr>li_graph := ?g\<rparr>)) = dg_central (li_graph m)" using 1(5) new(7) by (simp add: push_floating_def)
  ultimately show ?thesis by blast
qed

lemma import_floatings_importing:
  assumes so: "slot_laws so"
  shows "importing so A m F \<Longrightarrow> buildable by_id A (map lf_root fs) \<Longrightarrow> \<forall>f \<in> set fs. bounds_ok (lf_bounds f) \<Longrightarrow>
    \<exists>m' F'. for_p (import_floating so by_id sp) fs m = Some m' \<and> importing so (A \<union> root_ids by_id (map lf_root fs)) m' F' \<and>
      gets F sp (items_below by_id (map lf_root fs)) F' \<and> dg_central (li_graph m') = dg_central (li_graph m)"
proof (induction fs arbitrary: A m F)
  case Nil
  then show ?case using gets_refl by auto
next
  case (Cons f fs)
  have "buildable by_id A ([lf_root f] @ map lf_root fs)" using Cons.prems(2) by simp
  then have parts: "buildable by_id A [lf_root f]" "buildable by_id (A \<union> root_ids by_id [lf_root f]) (map lf_root fs)"
    unfolding buildable_append by blast+
  have rest: "\<forall>f \<in> set fs. bounds_ok (lf_bounds f)" using Cons.prems(3) by simp
  obtain m1 F1 where 1: "import_floating so by_id sp f m = Some m1" "importing so (A \<union> root_ids by_id [lf_root f]) m1 F1"
    "gets F sp (items_below by_id [lf_root f]) F1" "dg_central (li_graph m1) = dg_central (li_graph m)"
    using import_floating_importing [OF so Cons.prems(1) parts(1), of sp] Cons.prems(3) by auto
  obtain m2 F2 where 2: "for_p (import_floating so by_id sp) fs m1 = Some m2"
    "importing so (A \<union> root_ids by_id [lf_root f] \<union> root_ids by_id (map lf_root fs)) m2 F2"
    "gets F1 sp (items_below by_id (map lf_root fs)) F2" "dg_central (li_graph m2) = dg_central (li_graph m1)"
    using Cons.IH [OF 1(2) parts(2) rest] by blast
  have "A \<union> root_ids by_id (map lf_root (f # fs)) = A \<union> root_ids by_id [lf_root f] \<union> root_ids by_id (map lf_root fs)" by auto
  then have "importing so (A \<union> root_ids by_id (map lf_root (f # fs))) m2 F2" using 2(2) by (simp only:)
  moreover have "gets F sp (items_below by_id (map lf_root (f # fs))) F2" using gets_trans [OF 1(3) 2(3)] by simp
  ultimately show ?case using 1(1,4) 2(1,4) by auto
qed

lemma import_central_importing:
  assumes inv: "importing so A m F" and node: "\<And>c i. ls_central s = Some c \<Longrightarrow> lc_node c = Some i \<Longrightarrow> unat i \<in> A"
  shows "\<exists>m'. import_central so by_id s m = Some m' \<and> importing so A m' F \<and>
    (\<forall>sp. sp \<noteq> ls_id s \<longrightarrow> map_of (dg_central (li_graph m')) sp = map_of (dg_central (li_graph m)) sp)"
proof (cases "ls_central s")
  case None
  then show ?thesis using inv by (simp add: import_central_def)
next
  case (Some c)
  obtain n where n: "(case lc_node c of None \<Rightarrow> Some (None, m) | Some i \<Rightarrow> do { (n, m1) \<leftarrow> build_node so by_id i m; Some (Some n, m1) }) = Some (n, m)"
  proof (cases "lc_node c")
    case no_node: None
    then show ?thesis using that by simp
  next
    case node_id: (Some i)
    have "li_built m i \<noteq> None" using inv node [OF Some node_id] by (simp add: importing_def)
    then obtain k where "li_built m i = Some k" by blast
    then have "build_node so by_id i m = Some (k, m)" by (subst build_node.simps) simp
    then show ?thesis using that node_id by simp
  qed
  let ?g = "set_central_region (li_graph m) (ls_id s) \<lparr>cr_node = n, cr_keep_alive = lc_keep_alive c, cr_passthrough = lc_passthrough c\<rparr>"
  have F: "forest so (li_graph m) F" using inv by (simp add: importing_def)
  have central: "bt_ok (dg_central (li_graph m))" using maps_ok_forest [OF F] by (simp add: maps_ok_def)
  have "forest so ?g F" by (rule forest_cong [OF F]) (use central in \<open>simp_all add: set_central_region_def bt_simps\<close>)
  then have "importing so A (m\<lparr>li_graph := ?g\<rparr>) F" using inv by (simp add: importing_def set_central_region_def floating_containers_def)
  then show ?thesis using Some n central by (auto simp: import_central_def set_central_region_def bt_simps)
qed

section \<open>Spaces\<close>

lemma space_roots_parts: "space_roots s = root_list s @ map lf_root (ls_floatings s)"
  by (simp add: space_roots_def root_list_def)

lemma import_space_importing:
  assumes so: "slot_laws so" and inv: "importing so A m F" and build: "buildable by_id A (space_roots s)" and ok: "space_ok by_id s"
    and empty: "F (ls_id s) = (None, [])" "map_of (dg_central (li_graph m)) (ls_id s) = None"
  shows "\<exists>m' F'. import_space so by_id s m = Some m' \<and> importing so (A \<union> root_ids by_id (space_roots s)) m' F' \<and>
    gets F (ls_id s) (items_below by_id (space_roots s)) F' \<and>
    (\<forall>sp. sp \<noteq> ls_id s \<longrightarrow> map_of (dg_central (li_graph m')) sp = map_of (dg_central (li_graph m)) sp)"
proof -
  have parts: "buildable by_id A (root_list s)" "buildable by_id (A \<union> root_ids by_id (root_list s)) (map lf_root (ls_floatings s))"
    using build unfolding space_roots_parts buildable_append by blast+
  obtain m1 F1 where 1: "import_root so by_id s m = Some m1" "importing so (A \<union> root_ids by_id (root_list s)) m1 F1"
    "gets F (ls_id s) (items_below by_id (root_list s)) F1" "dg_central (li_graph m1) = dg_central (li_graph m)"
    using import_root_importing [OF so inv parts(1) empty] by blast
  have bounds: "\<forall>f \<in> set (ls_floatings s). bounds_ok (lf_bounds f)" using ok by (simp add: space_ok_def)
  let ?A = "A \<union> root_ids by_id (root_list s) \<union> root_ids by_id (map lf_root (ls_floatings s))"
  obtain m2 F2 where 2: "for_p (import_floating so by_id (ls_id s)) (ls_floatings s) m1 = Some m2" "importing so ?A m2 F2"
    "gets F1 (ls_id s) (items_below by_id (map lf_root (ls_floatings s))) F2" "dg_central (li_graph m2) = dg_central (li_graph m1)"
    using import_floatings_importing [OF so 1(2) parts(2) bounds] by blast
  have A: "A \<union> root_ids by_id (space_roots s) = ?A" by (auto simp: space_roots_parts)
  have "unat i \<in> ?A" if c: "ls_central s = Some c" "lc_node c = Some i" for c i
  proof -
    obtain r where "ls_root s = Some r" "unat i \<in> set (ids (tree_in by_id r))" using ok c by (auto simp: space_ok_def)
    then show ?thesis by (simp add: root_list_def)
  qed
  then obtain m3 where 3: "import_central so by_id s m2 = Some m3" "importing so ?A m3 F2"
    "\<forall>sp. sp \<noteq> ls_id s \<longrightarrow> map_of (dg_central (li_graph m3)) sp = map_of (dg_central (li_graph m2)) sp"
    using import_central_importing [OF 2(2), of s] by blast
  have "gets F (ls_id s) (items_below by_id (space_roots s)) F2" using gets_trans [OF 1(3) 2(3)] by (simp add: space_roots_parts)
  then show ?thesis using 1(1,4) 2(1,4) 3 A by (intro exI [of _ m3] exI [of _ F2]) (simp add: import_space_def)
qed

lemma import_spaces_importing:
  assumes so: "slot_laws so"
  shows "importing so A m F \<Longrightarrow> buildable by_id A (concat (map space_roots ss)) \<Longrightarrow> \<forall>s \<in> set ss. space_ok by_id s \<Longrightarrow>
    distinct (map ls_id ss) \<Longrightarrow> \<forall>s \<in> set ss. F (ls_id s) = (None, []) \<and> map_of (dg_central (li_graph m)) (ls_id s) = None \<Longrightarrow>
    \<exists>m' A' F'. for_p (import_space so by_id) ss m = Some m' \<and> importing so A' m' F' \<and>
      (\<forall>sp. sp \<notin> ls_id ` set ss \<longrightarrow> F' sp = F sp) \<and>
      (\<forall>s \<in> set ss. concat (map tree_items (trees (F' (ls_id s)))) = items_below by_id (space_roots s))"
proof (induction ss arbitrary: A m F)
  case Nil
  then show ?case by auto
next
  case (Cons s ss)
  have parts: "buildable by_id A (space_roots s)" "buildable by_id (A \<union> root_ids by_id (space_roots s)) (concat (map space_roots ss))"
    using Cons.prems(2) by (simp_all add: buildable_append)
  have "space_ok by_id s" using Cons.prems(3) by simp
  then obtain m1 F1 where 1: "import_space so by_id s m = Some m1" "importing so (A \<union> root_ids by_id (space_roots s)) m1 F1"
    "gets F (ls_id s) (items_below by_id (space_roots s)) F1"
    "\<forall>sp. sp \<noteq> ls_id s \<longrightarrow> map_of (dg_central (li_graph m1)) sp = map_of (dg_central (li_graph m)) sp"
    using import_space_importing [OF so Cons.prems(1) parts(1)] Cons.prems(5) by (metis list.set_intros(1))
  have empty: "\<forall>s' \<in> set ss. F1 (ls_id s') = (None, []) \<and> map_of (dg_central (li_graph m1)) (ls_id s') = None"
  proof
    fix s' assume s': "s' \<in> set ss"
    then have "ls_id s' \<noteq> ls_id s" using Cons.prems(4) by (metis distinct.simps(2) image_eqI list.simps(9) set_map)
    then show "F1 (ls_id s') = (None, []) \<and> map_of (dg_central (li_graph m1)) (ls_id s') = None"
      using 1(3,4) Cons.prems(5) s' by (simp add: gets_def)
  qed
  have rest: "\<forall>s \<in> set ss. space_ok by_id s" "distinct (map ls_id ss)" using Cons.prems(3,4) by simp_all
  obtain m2 A2 F2 where 2: "for_p (import_space so by_id) ss m1 = Some m2" "importing so A2 m2 F2"
    "\<forall>sp. sp \<notin> ls_id ` set ss \<longrightarrow> F2 sp = F1 sp"
    "\<forall>s \<in> set ss. concat (map tree_items (trees (F2 (ls_id s)))) = items_below by_id (space_roots s)"
    using Cons.IH [OF 1(2) parts(2) rest empty] by blast
  have "F2 (ls_id s) = F1 (ls_id s)" using 2(3) Cons.prems(4) by auto
  then have "concat (map tree_items (trees (F2 (ls_id s)))) = items_below by_id (space_roots s)"
    using 1(3) Cons.prems(5) by (simp add: gets_def)
  with 2(4) have all: "\<forall>s \<in> set (s # ss). concat (map tree_items (trees (F2 (ls_id s)))) = items_below by_id (space_roots s)" by simp
  have others: "\<forall>sp. sp \<notin> ls_id ` set (s # ss) \<longrightarrow> F2 sp = F sp" using 2(3) 1(3) by (simp add: gets_def)
  have "for_p (import_space so by_id) (s # ss) m = Some m2" using 1(1) 2(1) by simp
  then show ?case using 2(2) all others by blast
qed

end
