(* ===== verification/Dock_Layout_Result.thy ===== *)
theory Dock_Layout_Result
  imports Dock_Imported Dock_Sample
begin

text \<open>What the import of a sound layout makes: a valid graph, with the items of the layout in their order.\<close>

section \<open>The items of a layout\<close>

lemma lay_items:
  "rep (lay by_id) t \<Longrightarrow> tree_items t = concat (map (\<lambda>i. node_items (the (by_id (word_of_nat i)))) (ids t))"
proof (induction t)
  case (TTabs n items selected)
  then obtain l where "by_id (word_of_nat n) = Some l" "dock_of l = Tabs items selected" using rep_known [of by_id "TTabs n items selected"] by auto
  then show ?case by (cases l) auto
next
  case (TFloating n t)
  then show ?case using rep_known [of by_id "TFloating n t"] by (metis dock_of.elims dock_node.distinct(3,5) tree_node.simps(2))
next
  case (TSplit n axis ts fs)
  then obtain l where l: "by_id (word_of_nat n) = Some l" "dock_of l = tree_node (TSplit n axis ts fs)" using rep_known [of by_id "TSplit n axis ts fs"] by auto
  have "tree_items t = concat (map (\<lambda>i. node_items (the (by_id (word_of_nat i)))) (ids t))" if "t \<in> set ts" for t
    using TSplit.IH [OF that] TSplit.prems that by simp
  then have "concat (map tree_items ts) = concat (map (\<lambda>i. node_items (the (by_id (word_of_nat i)))) (concat (map ids ts)))"
    by (induction ts) simp_all
  moreover have "node_items l = []" using l(2) by (cases l) auto
  ultimately show ?case using l(1) by simp
qed

lemma items_below_nodes:
  assumes "\<forall>r \<in> set rs. stands by_id r"
  shows "items_below by_id rs = concat (map (\<lambda>i. node_items (the (by_id (word_of_nat i)))) (concat (map (ids \<circ> tree_in by_id) rs)))"
  using assms by (induction rs) (simp_all add: lay_items [OF stands_rep(1)])

lemma distinct_concat_map:
  "distinct ms \<Longrightarrow> set ms \<subseteq> set ns \<Longrightarrow> distinct (concat (map f ns)) \<Longrightarrow> distinct (concat (map f ms))"
proof (induction ms)
  case (Cons m ms)
  have apart: "distinct (concat (map f xs)) \<Longrightarrow> a \<in> set xs \<Longrightarrow> b \<in> set xs \<Longrightarrow> a \<noteq> b \<Longrightarrow> set (f a) \<inter> set (f b) = {}" for a b xs
    by (induction xs) auto
  have one: "distinct (concat (map f xs)) \<Longrightarrow> a \<in> set xs \<Longrightarrow> distinct (f a)" for a xs by (induction xs) auto
  have "set (f m) \<inter> set (f b) = {}" if "b \<in> set ms" for b using apart [OF Cons.prems(3), of m b] Cons.prems(1,2) that by auto
  then show ?case using Cons one [OF Cons.prems(3), of m] by auto
qed simp

lemma mset_concat_map: "mset xs = mset ys \<Longrightarrow> mset (concat (map f xs)) = mset (concat (map f ys))"
proof -
  assume "mset xs = mset ys"
  moreover have "mset (concat (map f zs)) = sum_mset (image_mset (\<lambda>z. mset (f z)) (mset zs))" for zs by (induction zs) simp_all
  ultimately show ?thesis by simp
qed

lemma layout_roots_spaces: "mset (layout_roots ss) = mset (concat (map space_roots ss))"
proof (induction ss)
  case (Cons s ss)
  then show ?case by (cases "ls_root s") (auto simp: layout_roots_def space_roots_def map_filter_simps ac_simps)
qed (simp add: layout_roots_def map_filter_simps)

section \<open>Sound layouts can be built\<close>

abbreviation all_roots :: "dock_layout \<Rightarrow> u32 list" where
  "all_roots l \<equiv> concat (map space_roots (dl_spaces l))"

lemma sound_parts:
  assumes "layout_sound l"
  shows "buildable (index_nodes (dl_nodes l)) {} (all_roots l)" "distinct (items_below (index_nodes (dl_nodes l)) (all_roots l))"
    "\<forall>s \<in> set (dl_spaces l). space_ok (index_nodes (dl_nodes l)) s" "distinct (map ls_id (dl_spaces l))"
proof -
  let ?by = "index_nodes (dl_nodes l)" and ?rs = "all_roots l"
  note sound = assms [unfolded layout_sound_def Let_def]
  have ids_distinct: "distinct (map layout_id (dl_nodes l))" using sound by blast
  have same: "mset (layout_roots (dl_spaces l)) = mset ?rs" by (rule layout_roots_spaces)
  then have "set (layout_roots (dl_spaces l)) = set ?rs" by (rule mset_eq_setD)
  then have stand: "\<forall>r \<in> set ?rs. stands ?by r" using sound by blast
  have "distinct (concat (map (ids \<circ> tree_in ?by) (layout_roots (dl_spaces l))))" using sound by blast
  then have owned: "distinct (concat (map (ids \<circ> tree_in ?by) ?rs))"
    using mset_eq_imp_distinct_iff [OF mset_concat_map [OF same]] by blast
  have node: "?by i = Some n \<longleftrightarrow> n \<in> set (dl_nodes l) \<and> layout_id n = i" for i n by (rule index_nodes_iff [OF ids_distinct])
  have rep: "rep (lay ?by) (tree_in ?by r)" if "r \<in> set ?rs" for r using stands_rep(1) stand that by blast
  have "tabs_ok (tree_in ?by r)" if r: "r \<in> set ?rs" for r
    unfolding tabs_ok_def
  proof safe
    fix k items selected assume tabs: "(k, items, selected) \<in> set (tabs_of (tree_in ?by r))" and some: "items \<noteq> []"
    from rep_tabs [OF rep [OF r] tabs] obtain i n where n: "?by i = Some n" "dock_of n = Tabs items selected" by (metis lay_cases)
    then have "node_ok n" using sound node by blast
    then show "\<exists>s. selected = Some s \<and> s \<in> set items" using n(2) by (cases n) auto
  qed
  then show "buildable ?by {} ?rs" using stand owned by (simp add: buildable_def)
  let ?ids = "concat (map (ids \<circ> tree_in ?by) ?rs)"
  let ?node = "\<lambda>i. the (?by (word_of_nat i))"
  have known: "\<exists>n. ?by (word_of_nat i) = Some n \<and> unat (word_of_nat i :: u32) = i" if i: "i \<in> set ?ids" for i
  proof -
    have "\<exists>r \<in> set ?rs. i \<in> set (ids (tree_in ?by r))" using i by auto
    then obtain r where r: "r \<in> set ?rs" "i \<in> set (ids (tree_in ?by r))" by blast
    have "unat (word_of_nat i :: u32) = i" by (rule small_word [OF rep_small [OF rep [OF r(1)]] r(2)])
    moreover have "lay ?by i \<noteq> None" by (rule rep_stored [OF rep [OF r(1)] r(2)])
    ultimately show ?thesis by (auto simp: lay_def split: if_splits)
  qed
  have inj: "inj_on ?node (set ?ids)"
  proof (rule inj_onI)
    fix i j assume ij: "i \<in> set ?ids" "j \<in> set ?ids" "?node i = ?node j"
    obtain n where n: "?by (word_of_nat i) = Some n" "unat (word_of_nat i :: u32) = i" using known ij(1) by blast
    obtain n' where n': "?by (word_of_nat j) = Some n'" "unat (word_of_nat j :: u32) = j" using known ij(2) by blast
    have "n = n'" using n(1) n'(1) ij(3) by simp
    then have "(word_of_nat i :: u32) = word_of_nat j" using n(1) n'(1) node by metis
    then show "i = j" using n(2) n'(2) by metis
  qed
  have "?node i \<in> set (dl_nodes l)" if i: "i \<in> set ?ids" for i
  proof -
    obtain n where "?by (word_of_nat i) = Some n" using known [OF i] by blast
    then show ?thesis using node by (metis option.sel)
  qed
  then have "set (map ?node ?ids) \<subseteq> set (dl_nodes l)" by (simp only: set_map image_subset_iff) blast
  then have "distinct (concat (map node_items (map ?node ?ids)))"
    by (rule distinct_concat_map [rotated]) (use owned inj sound in \<open>simp_all add: distinct_map\<close>)
  then show "distinct (items_below ?by ?rs)" unfolding items_below_nodes [OF stand] by (simp add: comp_def)
  show "\<forall>s \<in> set (dl_spaces l). space_ok ?by s" "distinct (map ls_id (dl_spaces l))" using sound by blast+
qed

section \<open>The import\<close>

lemma below_spaces: "items_below by_id (concat (map space_roots ss)) = concat (map (\<lambda>s. items_below by_id (space_roots s)) ss)"
  by (induction ss) simp_all

lemma spaces_apart:
  assumes "distinct (concat (map f ss))" and "s \<in> set ss"
  shows "distinct (f s)" "s' \<in> set ss \<Longrightarrow> s' \<noteq> s \<Longrightarrow> set (f s) \<inter> set (f s') = {}"
  using assms by (induction ss) auto

lemma grove_items_simp: "concat (map tree_items (trees (simp_grove p))) = concat (map tree_items (trees p))"
  by (simp add: simp_grove_trees simp_trees_items)

text \<open>A space of the layout has its items; the others have none.\<close>

definition layout_items :: "dock_layout \<Rightarrow> space_id \<Rightarrow> item_id list" where
  "layout_items l sp =
     (case find (\<lambda>s. ls_id s = sp) (dl_spaces l) of
        None \<Rightarrow> []
      | Some s \<Rightarrow> items_below (index_nodes (dl_nodes l)) (space_roots s))"

lemma find_by_key:
  "distinct (map f xs) \<Longrightarrow> find (\<lambda>x. f x = k) xs = Some x \<longleftrightarrow> x \<in> set xs \<and> f x = k"
  by (induction xs) (auto simp: image_iff)

theorem import_sound:
  assumes so: "slot_laws so" and order: "iterates order" and sound: "layout_sound l"
  shows "\<exists>g F. import_layout so order l = Some (Inr g) \<and> valid_forest so g F \<and> tidy so g F \<and>
    (\<forall>sp. collect_items_in_space so g sp = Some (layout_items l sp))"
proof -
  let ?by = "index_nodes (dl_nodes l)" and ?ss = "dl_spaces l" and ?m = "\<lparr>li_graph = graph_new so, li_built = Map.empty\<rparr>"
  note parts = sound_parts [OF sound]
  have start: "importing so {} ?m (\<lambda>sp. (None, []))"
    using empty_graph_valid [OF so] by (simp add: importing_def valid_forest_def graph_new_def floating_containers_def)
  have empty: "\<forall>s \<in> set ?ss. (\<lambda>sp :: space_id. (None, [])) (ls_id s) = (None, [] :: dock_tree list) \<and> map_of (dg_central (li_graph ?m)) (ls_id s) = None"
    by (simp add: graph_new_def)
  obtain m A F where m: "for_p (import_space so ?by) ?ss ?m = Some m" "importing so A m F"
    "\<forall>sp. sp \<notin> ls_id ` set ?ss \<longrightarrow> F sp = (None, [])"
    "\<forall>s \<in> set ?ss. concat (map tree_items (trees (F (ls_id s)))) = items_below ?by (space_roots s)"
    using import_spaces_importing [OF so start parts(1,3,4) empty] by blast
  have find: "find (\<lambda>s. ls_id s = sp) ?ss = Some s \<longleftrightarrow> s \<in> set ?ss \<and> ls_id s = sp" for sp s by (rule find_by_key [OF parts(4)])
  have items: "concat (map tree_items (trees (F sp))) = layout_items l sp" for sp
  proof (cases "find (\<lambda>s. ls_id s = sp) ?ss")
    case None
    then have "sp \<notin> ls_id ` set ?ss" by (auto simp: find_None_iff)
    then show ?thesis using m(3) None by (simp add: layout_items_def)
  next
    case (Some s)
    then have "s \<in> set ?ss" "ls_id s = sp" using find by blast+
    then have "concat (map tree_items (trees (F sp))) = items_below ?by (space_roots s)" using m(4) by blast
    then show ?thesis by (simp only: layout_items_def Some option.case)
  qed
  have held: "layout_items l sp = [] \<or> (\<exists>s \<in> set ?ss. ls_id s = sp \<and> layout_items l sp = items_below ?by (space_roots s))" for sp
  proof (cases "find (\<lambda>s. ls_id s = sp) ?ss")
    case (Some s)
    then have "s \<in> set ?ss \<and> ls_id s = sp" using find by blast
    moreover have "layout_items l sp = items_below ?by (space_roots s)" by (simp only: layout_items_def Some option.case)
    ultimately show ?thesis by blast
  qed (simp add: layout_items_def)
  have below: "distinct (concat (map (\<lambda>s. items_below ?by (space_roots s)) ?ss))" using parts(2) by (simp only: below_spaces)
  have "items_apart (items_of F)"
    unfolding items_apart_def grove_items_def items
  proof (intro conjI allI impI)
    fix sp x
    have "distinct (layout_items l sp)" using held [of sp] spaces_apart(1) [OF below] by force
    then show "count (mset (layout_items l sp)) x \<le> 1" by (simp add: distinct_count_atmost_1)
    fix sp' assume other: "sp \<noteq> sp'" and x: "x \<in># mset (layout_items l sp)"
    show "x \<notin># mset (layout_items l sp')"
    proof
      assume x': "x \<in># mset (layout_items l sp')"
      obtain s where s: "s \<in> set ?ss" "ls_id s = sp" "layout_items l sp = items_below ?by (space_roots s)" using held [of sp] x by auto
      obtain s' where s': "s' \<in> set ?ss" "ls_id s' = sp'" "layout_items l sp' = items_below ?by (space_roots s')" using held [of sp'] x' by auto
      have "s' \<noteq> s" using s(2) s'(2) other by blast
      from spaces_apart(2) [OF below s(1) s'(1) this] show False using x x' s(3) s'(3) by auto
    qed
  qed
  note apart = this
  have F: "forest so (li_graph m) F" and tabs: "\<And>sp t. t \<in> set (trees (F sp)) \<Longrightarrow> tabs_ok t"
    and floating: "\<And>sp w. w \<in> set (snd (F sp)) \<Longrightarrow> \<exists>n t. w = TFloating n t"
    and bounds: "\<And>sp c. c \<in> set (floating_containers (li_graph m) sp) \<Longrightarrow> bounds_ok (fc_bounds c)"
    using m(2) by (simp_all add: importing_def)
  have "\<exists>g. dock_canonicalize so (li_graph m) = Some g \<and> valid_forest so g (\<lambda>sp. simp_grove (F sp)) \<and> tidy so g (\<lambda>sp. simp_grove (F sp))"
    by (rule canonicalize_valid [OF so F _ _ _ apart]) (fact tabs floating bounds)+
  then obtain g where g: "dock_canonicalize so (li_graph m) = Some g" "valid_forest so g (\<lambda>sp. simp_grove (F sp))"
    "tidy so g (\<lambda>sp. simp_grove (F sp))" by blast
  have "layout_validate order l = Some None" using layout_validate_decides [OF order] sound by metis
  then have "import_layout so order l = Some (Inr g)" using m(1) g(1) by (simp add: import_layout_def)
  moreover have "collect_items_in_space so g sp = Some (layout_items l sp)" for sp
    using collect_items_forest [of so g "\<lambda>sp. simp_grove (F sp)" sp] g(2) by (simp add: valid_forest_def grove_items_simp items)
  ultimately show ?thesis using g(2,3) by (intro exI [of _ g] exI [of _ "\<lambda>sp. simp_grove (F sp)"]) simp
qed

lemma import_unsound:
  assumes "iterates order" and "\<not> layout_sound l"
  shows "\<exists>e. import_layout so order l = Some (Inl e)"
proof -
  obtain e where "layout_validate order l = Some (Some e)" using layout_validate_decides [OF assms(1), of l] assms(2) by (metis option.exhaust)
  then show ?thesis by (simp add: import_layout_def)
qed

end
