(* ===== verification/Dock_Export.thy ===== *)
theory Dock_Export
  imports Dock_Layout_Result
begin

text \<open>The layout that is exported from a forest: every tree under new numbers, without its floating nodes.\<close>

section \<open>The nodes of a tree\<close>

text \<open>The first node of a tree that is not floating, and all of them.\<close>

fun head :: "dock_tree \<Rightarrow> node_id" where
  "head (TTabs n items selected) = n"
| "head (TFloating n t) = head t"
| "head (TSplit n axis ts fs) = n"

fun plain :: "dock_tree \<Rightarrow> node_id list" where
  "plain (TTabs n items selected) = [n]"
| "plain (TFloating n t) = plain t"
| "plain (TSplit n axis ts fs) = n # concat (map plain ts)"

fun nodes_of :: "(node_id \<Rightarrow> u32) \<Rightarrow> dock_tree \<Rightarrow> layout_node list" where
  "nodes_of r (TTabs n items selected) = [LTabs (r n) items selected]"
| "nodes_of r (TFloating n t) = nodes_of r t"
| "nodes_of r (TSplit n axis ts fs) = concat (map (nodes_of r) ts) @ [LSplit (r n) axis (map (r \<circ> head) ts) fs]"

fun shown :: "(node_id \<Rightarrow> u32) \<Rightarrow> dock_tree \<Rightarrow> dock_tree" where
  "shown r (TTabs n items selected) = TTabs (unat (r n)) items selected"
| "shown r (TFloating n t) = shown r t"
| "shown r (TSplit n axis ts fs) = TSplit (unat (r n)) axis (map (shown r) ts) fs"

lemma head_in_ids: "head t \<in> set (ids t)"
  by (induction t) auto

lemma plain_subset: "mset (plain t) \<subseteq># mset (ids t)"
proof (induction t)
  case (TFloating n t)
  have "mset (ids t) \<subseteq># mset (ids (TFloating n t))" by simp
  then show ?case using TFloating subset_mset.order_trans by fastforce
next
  case (TSplit n axis ts fs)
  then have "mset (concat (map plain ts)) \<subseteq># mset (concat (map ids ts))"
    by (induction ts) (auto intro: subset_mset.add_mono)
  then show ?case by simp
qed simp

lemma shown_simps [simp]: "tid (shown r t) = unat (r (head t))" "ids (shown r t) = map (unat \<circ> r) (plain t)" "tree_items (shown r t) = tree_items t"
proof -
  show "tid (shown r t) = unat (r (head t))" by (induction t) simp_all
  show "ids (shown r t) = map (unat \<circ> r) (plain t)" by (induction t) (auto simp: map_concat comp_def cong: map_cong)
  show "tree_items (shown r t) = tree_items t" by (induction t) (auto simp: comp_def cong: map_cong)
qed

lemma nodes_of_cong: "(\<And>n. n \<in> set (ids t) \<Longrightarrow> r n = r' n) \<Longrightarrow> nodes_of r t = nodes_of r' t"
proof (induction t)
  case (TSplit n axis ts fs)
  have "nodes_of r t = nodes_of r' t" if "t \<in> set ts" for t using TSplit.IH [OF that] TSplit.prems that by auto
  moreover have "r (head t) = r' (head t)" if "t \<in> set ts" for t using TSplit.prems [of "head t"] head_in_ids that by auto
  ultimately show ?case using TSplit.prems [of n] by (simp cong: map_cong)
qed simp_all

lemma nodes_of_ids: "mset (map layout_id (nodes_of r t)) = mset (map r (plain t))"
proof (induction t)
  case (TSplit n axis ts fs)
  then have "mset (map layout_id (concat (map (nodes_of r) ts))) = mset (map r (concat (map plain ts)))" by (induction ts) auto
  then show ?case by simp
qed simp_all

lemma nodes_of_items: "concat (map node_items (nodes_of r t)) = tree_items t"
proof (induction t)
  case (TSplit n axis ts fs)
  then have "concat (map node_items (concat (map (nodes_of r) ts))) = concat (map tree_items ts)" by (induction ts) auto
  then show ?case by simp
qed simp_all

lemma nodes_of_ok: "valid_tree t \<Longrightarrow> x \<in> set (nodes_of r t) \<Longrightarrow> node_ok x"
  by (induction t) auto

lemma nodes_of_rep:
  "(\<And>x. x \<in> set (nodes_of r t) \<Longrightarrow> by_id (layout_id x) = Some x) \<Longrightarrow> rep (lay by_id) (shown r t)"
proof (induction t)
  case (TSplit n axis ts fs)
  have "rep (lay by_id) (shown r t)" if "t \<in> set ts" for t using TSplit.IH [OF that] TSplit.prems that by auto
  moreover have "by_id (r n) = Some (LSplit (r n) axis (map (r \<circ> head) ts) fs)"
    using TSplit.prems [of "LSplit (r n) axis (map (r \<circ> head) ts) fs"] by simp
  ultimately show ?case by (simp add: comp_def)
qed auto

section \<open>Numbers\<close>

abbreviation number :: "layout_exporter \<Rightarrow> node_id \<Rightarrow> u32" where
  "number x n \<equiv> the (le_ids x n)"

abbreviation counted :: "layout_exporter \<Rightarrow> nat" where
  "counted x \<equiv> unat (le_next_id x)"

text \<open>From \<open>x\<close> to \<open>x'\<close> the nodes \<open>ns\<close> get the next numbers.\<close>

definition numbers :: "layout_exporter \<Rightarrow> layout_exporter \<Rightarrow> node_id list \<Rightarrow> bool" where
  "numbers x x' ns \<longleftrightarrow> (\<forall>n. n \<notin> set ns \<longrightarrow> le_ids x' n = le_ids x n) \<and>
     (\<forall>n \<in> set ns. \<exists>i. le_ids x' n = Some i \<and> counted x < unat i \<and> unat i \<le> counted x') \<and>
     inj_on (number x') (set ns) \<and> counted x' = counted x + length ns"

lemma numbers_nodes [simp]: "numbers x (x'\<lparr>le_nodes := ls\<rparr>) ns \<longleftrightarrow> numbers x x' ns"
  by (simp add: numbers_def)

lemma numbers_refl: "numbers x x []"
  by (simp add: numbers_def)

lemma numbers_old: "numbers x x' ns \<Longrightarrow> n \<notin> set ns \<Longrightarrow> le_ids x' n = le_ids x n"
  by (simp add: numbers_def)

lemma numbers_new: "numbers x x' ns \<Longrightarrow> n \<in> set ns \<Longrightarrow> le_ids x' n = Some (number x' n) \<and> counted x < unat (number x' n) \<and> unat (number x' n) \<le> counted x'"
  by (auto simp: numbers_def)

lemma numbers_trans:
  assumes 1: "numbers x x1 ns" and 2: "numbers x1 x2 ks" and sep: "set ns \<inter> set ks = {}"
  shows "numbers x x2 (ns @ ks)"
  unfolding numbers_def
proof (intro conjI allI impI ballI)
  show "le_ids x2 n = le_ids x n" if "n \<notin> set (ns @ ks)" for n using that numbers_old [OF 1] numbers_old [OF 2] by simp
  show total: "counted x2 = counted x + length (ns @ ks)" using 1 2 by (simp add: numbers_def)
  have keep: "le_ids x2 n = le_ids x1 n" if "n \<in> set ns" for n using numbers_old [OF 2] that sep by blast
  have grow: "counted x \<le> counted x1" "counted x1 \<le> counted x2" using 1 2 by (simp_all add: numbers_def)
  show "\<exists>i. le_ids x2 n = Some i \<and> counted x < unat i \<and> unat i \<le> counted x2" if "n \<in> set (ns @ ks)" for n
  proof (cases "n \<in> set ks")
    case True
    then show ?thesis using numbers_new [OF 2 True] grow by auto
  next
    case False
    then have "n \<in> set ns" using that by simp
    then show ?thesis using numbers_new [OF 1] keep grow by fastforce
  qed
  have "number x2 n \<noteq> number x2 k" if "n \<in> set ns" "k \<in> set ks" for n k
    using numbers_new [OF 1 that(1)] numbers_new [OF 2 that(2)] keep [OF that(1)] by auto
  moreover have "inj_on (number x2) (set ns)" using 1 keep by (simp add: numbers_def inj_on_def)
  moreover have "inj_on (number x2) (set ks)" using 2 by (simp add: numbers_def)
  ultimately show "inj_on (number x2) (set (ns @ ks))" by (auto simp: inj_on_def) metis+
qed

definition unnumbered :: "layout_exporter \<Rightarrow> node_id list \<Rightarrow> bool" where
  "unnumbered x ns \<longleftrightarrow> (\<forall>n \<in> set ns. le_ids x n = None) \<and> distinct ns \<and> counted x + length ns < 2 ^ 32"

lemma unnumbered_append:
  "numbers x x1 ns \<Longrightarrow> unnumbered x (ns @ ks) \<Longrightarrow> unnumbered x1 ks" "unnumbered x (ns @ ks) \<Longrightarrow> unnumbered x ns"
  by (auto simp: unnumbered_def numbers_def)

section \<open>One tree\<close>

lemma saturating_succ_unat: "unat i + 1 < 2 ^ 32 \<Longrightarrow> unat (saturating_succ (i :: u32)) = unat i + 1"
proof -
  assume small: "unat i + 1 < 2 ^ 32"
  have "unat (- 1 :: u32) = 2 ^ 32 - 1" by (simp add: unsigned_minus_1_eq_mask mask_eq_exp_minus_1)
  then have "i \<noteq> - 1" using small by auto
  then show ?thesis using small by (simp add: saturating_succ_def unat_succ)
qed

definition exported :: "layout_exporter \<Rightarrow> layout_exporter \<Rightarrow> dock_tree list \<Rightarrow> bool" where
  "exported x x' ts \<longleftrightarrow> numbers x x' (concat (map ids ts)) \<and> le_nodes x' = le_nodes x @ concat (map (nodes_of (number x')) ts)"

lemma exported_Nil: "exported x x []"
  by (simp add: exported_def numbers_refl)

lemma nodes_kept:
  assumes "numbers x1 x2 ks" and "set (concat (map ids ts)) \<inter> set ks = {}"
  shows "concat (map (nodes_of (number x2)) ts) = concat (map (nodes_of (number x1)) ts)"
proof -
  have "nodes_of (number x2) t = nodes_of (number x1) t" if "t \<in> set ts" for t
  proof (rule nodes_of_cong)
    fix n assume "n \<in> set (ids t)"
    then have "n \<notin> set ks" using assms(2) that by auto
    then show "number x2 n = number x1 n" using numbers_old [OF assms(1)] by simp
  qed
  then show ?thesis by (simp cong: map_cong)
qed

lemma exported_append:
  assumes 1: "exported x x1 ts" and 2: "exported x1 x2 us" and sep: "set (concat (map ids ts)) \<inter> set (concat (map ids us)) = {}"
  shows "exported x x2 (ts @ us)"
proof -
  have n: "numbers x x1 (concat (map ids ts))" "numbers x1 x2 (concat (map ids us))" using 1 2 by (simp_all add: exported_def)
  show ?thesis using numbers_trans [OF n sep] nodes_kept [OF n(2) sep] 1 2 by (simp add: exported_def)
qed

lemma number_one:
  assumes "unnumbered x [n]" and "x1 = x\<lparr>le_next_id := saturating_succ (le_next_id x), le_ids := (le_ids x)(n \<mapsto> saturating_succ (le_next_id x))\<rparr>"
  shows "numbers x x1 [n]" "number x1 n = saturating_succ (le_next_id x)" "le_nodes x1 = le_nodes x"
  using assms by (simp_all add: numbers_def unnumbered_def saturating_succ_unat)

lemma export_children:
  assumes "\<And>t x. t \<in> set ts \<Longrightarrow> rep (node so g) t \<Longrightarrow> unnumbered x (ids t) \<Longrightarrow>
      \<exists>x'. export_subtree so g (tid t) x = Some (number x' (head t), x') \<and> exported x x' [t]"
    and "\<And>t. t \<in> set ts \<Longrightarrow> rep (node so g) t" and "unnumbered x (concat (map ids ts))"
  shows "\<exists>x'. for_p (export_child (export_subtree so g)) (map tid ts) (is, x) = Some (is @ map (number x' \<circ> head) ts, x') \<and> exported x x' ts"
  using assms
proof (induction ts arbitrary: \<open>is\<close> x)
  case Nil
  then show ?case by (simp add: exported_Nil)
next
  case (Cons t ts)
  have new: "unnumbered x (ids t @ concat (map ids ts))" using Cons.prems(3) by simp
  obtain x1 where 1: "export_subtree so g (tid t) x = Some (number x1 (head t), x1)" "exported x x1 [t]"
    using Cons.prems(1,2) [of t] unnumbered_append(2) [OF new] by auto
  have n1: "numbers x x1 (ids t)" using 1(2) by (simp add: exported_def)
  have "unnumbered x1 (concat (map ids ts))" by (rule unnumbered_append(1) [OF n1 new])
  then obtain x2 where 2: "for_p (export_child (export_subtree so g)) (map tid ts) (is @ [number x1 (head t)], x1)
      = Some ((is @ [number x1 (head t)]) @ map (number x2 \<circ> head) ts, x2)" "exported x1 x2 ts"
    using Cons.IH [of x1 "is @ [number x1 (head t)]"] Cons.prems(1,2) by auto
  have sep: "set (concat (map ids [t])) \<inter> set (concat (map ids ts)) = {}" using new by (simp add: unnumbered_def)
  have "head t \<notin> set (concat (map ids ts))" using sep head_in_ids [of t] by auto
  moreover have "numbers x1 x2 (concat (map ids ts))" using 2(2) by (simp add: exported_def)
  ultimately have "number x2 (head t) = number x1 (head t)" using numbers_old by metis
  moreover have "export_child (export_subtree so g) (tid t) (is, x) = Some (is @ [number x1 (head t)], x1)"
    using 1(1) by (simp add: export_child_def)
  ultimately show ?case using 2(1) exported_append [OF 1(2) 2(2) sep] by auto
qed

theorem export_tree:
  "rep (node so g) t \<Longrightarrow> unnumbered x (ids t) \<Longrightarrow>
    \<exists>x'. export_subtree so g (tid t) x = Some (number x' (head t), x') \<and> exported x x' [t]"
proof (induction t arbitrary: x)
  case (TTabs n items selected)
  let ?x = "x\<lparr>le_next_id := saturating_succ (le_next_id x), le_ids := (le_ids x)(n \<mapsto> saturating_succ (le_next_id x))\<rparr>"
  have "unnumbered x [n]" using TTabs.prems(2) by simp
  note one = number_one [OF this refl]
  let ?x' = "?x\<lparr>le_nodes := le_nodes ?x @ [LTabs (number ?x n) items selected]\<rparr>"
  have "export_subtree so g n x = Some (number ?x' n, ?x')"
    using TTabs.prems by (subst export_subtree.simps) (simp add: unnumbered_def Let_def)
  moreover have "exported x ?x' [TTabs n items selected]" using one(1) by (simp only: exported_def numbers_nodes) simp
  ultimately show ?case by (intro exI [of _ ?x']) simp
next
  case (TFloating n t)
  let ?x = "x\<lparr>le_next_id := saturating_succ (le_next_id x), le_ids := (le_ids x)(n \<mapsto> saturating_succ (le_next_id x))\<rparr>"
  have new: "unnumbered x ([n] @ ids t)" using TFloating.prems(2) by simp
  note one = number_one [OF unnumbered_append(2) [OF new] refl]
  obtain x' where x': "export_subtree so g (tid t) ?x = Some (number x' (head t), x')" "exported ?x x' [t]"
    using TFloating.IH [OF _ unnumbered_append(1) [OF one(1) new]] TFloating.prems(1) by auto
  have "numbers ?x x' (ids t)" using x'(2) by (simp add: exported_def)
  from numbers_trans [OF one(1) this] have "numbers x x' (n # ids t)" using new by (simp add: unnumbered_def)
  then have "exported x x' [TFloating n t]" using x'(2) by (simp add: exported_def)
  moreover have "export_subtree so g n x = Some (number x' (head t), x')"
    using TFloating.prems x'(1) by (subst export_subtree.simps) (simp add: unnumbered_def Let_def)
  ultimately show ?case by (intro exI [of _ x']) simp
next
  case (TSplit n axis ts fs)
  let ?x = "x\<lparr>le_next_id := saturating_succ (le_next_id x), le_ids := (le_ids x)(n \<mapsto> saturating_succ (le_next_id x))\<rparr>"
  have new: "unnumbered x ([n] @ concat (map ids ts))" using TSplit.prems(2) by simp
  note one = number_one [OF unnumbered_append(2) [OF new] refl]
  have "\<exists>x'. for_p (export_child (export_subtree so g)) (map tid ts) ([], ?x) = Some ([] @ map (number x' \<circ> head) ts, x') \<and> exported ?x x' ts"
    by (rule export_children) (use TSplit.IH TSplit.prems(1) unnumbered_append(1) [OF one(1) new] in auto)
  then obtain x1 where x1: "for_p (export_child (export_subtree so g)) (map tid ts) ([], ?x) = Some (map (number x1 \<circ> head) ts, x1)" "exported ?x x1 ts"
    by auto
  have n1: "numbers ?x x1 (concat (map ids ts))" using x1(2) by (simp add: exported_def)
  have n: "number x1 n = number ?x n" using numbers_old [OF n1, of n] new by (simp add: unnumbered_def)
  let ?x' = "x1\<lparr>le_nodes := le_nodes x1 @ [LSplit (number x1 n) axis (map (number x1 \<circ> head) ts) fs]\<rparr>"
  from numbers_trans [OF one(1) n1] have "numbers x x1 (n # concat (map ids ts))" using new by (simp add: unnumbered_def)
  then have "exported x ?x' [TSplit n axis ts fs]" using x1(2) by (simp add: exported_def)
  moreover have "export_subtree so g n x = Some (number ?x' n, ?x')"
    using TSplit.prems x1(1) n by (subst export_subtree.simps) (simp add: unnumbered_def Let_def)
  ultimately show ?case by (intro exI [of _ ?x']) simp
qed

end
