(* ===== verification/Dock_Exported.thy ===== *)
theory Dock_Exported
  imports Dock_Export
begin

text \<open>The export of a valid graph is a sound layout of its trees.\<close>

section \<open>Spaces\<close>

fun below :: "dock_tree \<Rightarrow> dock_tree" where
  "below (TFloating n t) = t"
| "below t = t"

definition root_trees :: "grove \<Rightarrow> dock_tree list" where
  "root_trees p = (case fst p of None \<Rightarrow> [] | Some t \<Rightarrow> [t])"

definition units :: "grove \<Rightarrow> dock_tree list" where
  "units p = root_trees p @ map below (snd p)"

abbreviation unit_ids :: "grove \<Rightarrow> node_id list" where
  "unit_ids p \<equiv> concat (map ids (units p))"

definition laid_floating :: "(node_id \<Rightarrow> u32) \<Rightarrow> floating_container \<times> dock_tree \<Rightarrow> layout_floating" where
  "laid_floating r = (\<lambda>(c, w). \<lparr>lf_root = r (head w), lf_bounds = fc_bounds c\<rparr>)"

definition laid_central :: "(node_id \<Rightarrow> u32) \<Rightarrow> central_region \<Rightarrow> layout_central" where
  "laid_central r c = \<lparr>lc_node = map_option r (cr_node c), lc_keep_alive = cr_keep_alive c, lc_passthrough = cr_passthrough c\<rparr>"

definition laid :: "'s dock_graph \<Rightarrow> (space_id \<Rightarrow> grove) \<Rightarrow> (node_id \<Rightarrow> u32) \<Rightarrow> space_id \<Rightarrow> layout_space" where
  "laid g F r sp = \<lparr>ls_id = sp, ls_root = map_option (r \<circ> head) (fst (F sp)),
     ls_floatings = map (laid_floating r) (zip (floating_containers g sp) (snd (F sp))),
     ls_central = map_option (laid_central r) (map_of (dg_central g) sp)\<rparr>"

lemma head_below [simp]: "head (below t) = head t"
  by (cases t) simp_all

lemma units_items: "concat (map tree_items (units p)) = concat (map tree_items (trees p))"
proof -
  have "tree_items (below t) = tree_items t" for t by (cases t) simp_all
  then show ?thesis by (cases p) (simp add: units_def root_trees_def comp_def)
qed

lemma unit_ids_subset: "mset (unit_ids p) \<subseteq># mset (grove_ids p)"
proof -
  have "mset (ids (below t)) \<subseteq># mset (ids t)" for t by (cases t) simp_all
  then have "mset (concat (map ids (map below ws))) \<subseteq># mset (concat (map ids ws))" for ws
    by (induction ws) (auto intro: subset_mset.add_mono)
  then show ?thesis by (cases p) (auto simp: units_def root_trees_def grove_ids_def split: option.split)
qed

lemma export_option_tree:
  assumes "\<And>t. r = Some t \<Longrightarrow> rep (node so g) t" and "unnumbered x (concat (map ids (root_trees (r, ws))))"
  shows "\<exists>x'. export_option so g (map_option tid r) x = Some (map_option (number x' \<circ> head) r, x') \<and> exported x x' (root_trees (r, ws))"
proof (cases r)
  case None
  then show ?thesis by (simp add: export_option_def root_trees_def exported_Nil)
next
  case (Some t)
  then obtain x' where "export_subtree so g (tid t) x = Some (number x' (head t), x')" "exported x x' [t]"
    using export_tree [of so g t x] assms by (auto simp: root_trees_def)
  then show ?thesis using Some by (auto simp: export_option_def root_trees_def)
qed

lemma export_floatings:
  assumes "map fc_node cs = map tid ws" and "\<And>w. w \<in> set ws \<Longrightarrow> rep (node so g) w \<and> is_floating (node so g (tid w))"
    and "unnumbered x (concat (map ids (map below ws)))"
  shows "\<exists>x'. for_p (export_floating so g) cs (fs, x) = Some (fs @ map (laid_floating (number x')) (zip cs ws), x') \<and>
    exported x x' (map below ws)"
  using assms
proof (induction ws arbitrary: cs fs x)
  case Nil
  then show ?case by (simp add: exported_Nil)
next
  case (Cons w ws)
  then obtain c cs' where cs: "cs = c # cs'" "fc_node c = tid w" "map fc_node cs' = map tid ws" by (cases cs) auto
  have rep: "rep (node so g) w" and float: "is_floating (node so g (tid w))" using Cons.prems(2) by simp_all
  have "node so g (tid w) = Some (tree_node w)" by (rule rep_get [OF rep])
  then obtain n t where w: "w = TFloating n t" using float by (cases w) (simp_all add: is_floating_def)
  have new: "unnumbered x (ids t @ concat (map ids (map below ws)))" using Cons.prems(3) w by simp
  obtain x1 where 1: "export_subtree so g (tid t) x = Some (number x1 (head t), x1)" "exported x x1 [t]"
    using export_tree [of so g t x] rep w unnumbered_append(2) [OF new] by auto
  have n1: "numbers x x1 (ids t)" using 1(2) by (simp add: exported_def)
  let ?f = "\<lparr>lf_root = number x1 (head t), lf_bounds = fc_bounds c\<rparr>"
  obtain x2 where 2: "for_p (export_floating so g) cs' (fs @ [?f], x1) = Some ((fs @ [?f]) @ map (laid_floating (number x2)) (zip cs' ws), x2)"
    "exported x1 x2 (map below ws)"
    using Cons.IH [OF cs(3) _ unnumbered_append(1) [OF n1 new], of "fs @ [?f]"] Cons.prems(2) by auto
  have sep: "set (concat (map ids [t])) \<inter> set (concat (map ids (map below ws))) = {}" using new by (simp add: unnumbered_def)
  have "head t \<notin> set (concat (map ids (map below ws)))" using sep head_in_ids [of t] by auto
  moreover have "numbers x1 x2 (concat (map ids (map below ws)))" using 2(2) by (simp add: exported_def)
  ultimately have "number x2 (head t) = number x1 (head t)" using numbers_old by metis
  then have "laid_floating (number x2) (c, w) = ?f" by (simp add: laid_floating_def w)
  moreover have "export_floating so g c (fs, x) = Some (fs @ [?f], x1)"
    using 1(1) rep w cs(2) by (simp add: export_floating_def floating_child_def)
  ultimately show ?case using 2(1) exported_append [OF 1(2) 2(2) sep] cs(1) w by auto
qed

lemma laid_cong:
  assumes "\<And>n. n \<in> set (unit_ids (F sp)) \<Longrightarrow> r n = r' n" and "central_ok g F"
  shows "laid g F r sp = laid g F r' sp"
proof -
  have "r (head t) = r' (head t)" if "t \<in> set (units (F sp))" for t using assms(1) [of "head t"] that head_in_ids by auto
  then have heads: "r (head t) = r' (head t)" if "fst (F sp) = Some t \<or> t \<in> set (snd (F sp))" for t
    using that head_below [of t] unfolding units_def root_trees_def by (metis Un_iff image_eqI list.set_intros(1) list.set_map option.simps(5) set_append)
  have "laid_central r c = laid_central r' c" if c: "map_of (dg_central g) sp = Some c" for c
  proof (cases "cr_node c")
    case (Some n)
    then obtain t where "fst (F sp) = Some t" "n \<in> set (ids t)" using assms(2) map_of_SomeD [OF c] by (fastforce simp: central_ok_def)
    then have "r n = r' n" by (intro assms(1)) (simp add: units_def root_trees_def)
    then show ?thesis using Some by (simp add: laid_central_def)
  qed (simp add: laid_central_def)
  moreover have "laid_floating r cw = laid_floating r' cw" if "cw \<in> set (zip (floating_containers g sp) (snd (F sp)))" for cw
  proof -
    obtain c w where cw: "cw = (c, w)" by (cases cw)
    then have "w \<in> set (snd (F sp))" using that set_zip_rightD by metis
    then show ?thesis using heads cw by (simp add: laid_floating_def)
  qed
  ultimately show ?thesis using heads by (auto simp: laid_def intro!: option.map_cong)
qed

lemma floats_at:
  assumes V: "valid_forest so g F" and c: "c \<in> set (floating_containers g sp)"
  shows "bounds_ok (fc_bounds c) \<and> is_floating (node so g (fc_node c))"
proof -
  have "(sp, c) \<in> set (floating_entries g)"
    using V c floating_entries_iff [of g] by (auto simp: valid_forest_def forest_def)
  then show ?thesis using V by (auto simp: valid_forest_def floats_ok_def)
qed

lemma export_space_trees:
  assumes V: "valid_forest so g F" and new: "unnumbered x (unit_ids (F sp))"
  shows "\<exists>x'. export_space so g sp (ss, x) = Some (ss @ [laid g F (number x') sp], x') \<and> exported x x' (units (F sp))"
proof -
  have F: "forest so g F" and central: "central_ok g F" using V by (simp_all add: valid_forest_def)
  obtain r ws where p: "F sp = (r, ws)" by (cases "F sp")
  have link: "root_of g sp = map_option tid r" "map fc_node (floating_containers g sp) = map tid ws"
    using F p by (auto simp: forest_def linked_def dest!: spec [of _ sp])
  have new': "unnumbered x (concat (map ids (root_trees (r, ws))) @ concat (map ids (map below ws)))"
    using new p by (simp add: units_def)
  obtain x1 where 1: "export_option so g (map_option tid r) x = Some (map_option (number x1 \<circ> head) r, x1)" "exported x x1 (root_trees (r, ws))"
    using export_option_tree [of r so g x ws] unnumbered_append(2) [OF new'] forest_rep [OF F, of _ sp] p by auto
  have n1: "numbers x x1 (concat (map ids (root_trees (r, ws))))" using 1(2) by (simp add: exported_def)
  have floats: "rep (node so g) w \<and> is_floating (node so g (tid w))" if w: "w \<in> set ws" for w
  proof -
    have "tid w \<in> fc_node ` set (floating_containers g sp)" using w link(2) by (metis image_eqI list.set_map)
    then obtain c where "c \<in> set (floating_containers g sp)" "fc_node c = tid w" by auto
    moreover have "rep (node so g) w" by (rule forest_rep [OF F, of w sp]) (use p w in simp)
    ultimately show ?thesis using floats_at [OF V] by metis
  qed
  obtain x2 where 2: "for_p (export_floating so g) (floating_containers g sp) ([], x1)
      = Some (map (laid_floating (number x2)) (zip (floating_containers g sp) ws), x2)" "exported x1 x2 (map below ws)"
    using export_floatings [OF link(2) floats unnumbered_append(1) [OF n1 new'], of "[]"] by auto
  have n2: "numbers x1 x2 (concat (map ids (map below ws)))" using 2(2) by (simp add: exported_def)
  have sep: "set (concat (map ids (root_trees (r, ws)))) \<inter> set (concat (map ids (map below ws))) = {}" using new' by (simp add: unnumbered_def)
  have root: "map_option (number x1 \<circ> head) r = map_option (number x2 \<circ> head) r"
  proof (cases r)
    case (Some t)
    then have "head t \<notin> set (concat (map ids (map below ws)))" using sep head_in_ids [of t] by (auto simp: root_trees_def)
    then have "number x2 (head t) = number x1 (head t)" using numbers_old [OF n2] by metis
    then show ?thesis using Some by simp
  qed simp
  have node: "export_option so g (cr_node c) x2 = Some (map_option (number x2) (cr_node c), x2)" if c: "map_of (dg_central g) sp = Some c" for c
  proof (cases "cr_node c")
    case (Some n)
    then obtain t where "fst (F sp) = Some t" "n \<in> set (ids t)" using central map_of_SomeD [OF c] by (fastforce simp: central_ok_def)
    then have n: "n \<in> set (concat (map ids (root_trees (r, ws))))" using p by (simp add: root_trees_def)
    then have "n \<notin> set (concat (map ids (map below ws)))" using sep by blast
    then obtain i where "le_ids x2 n = Some i" using numbers_old [OF n2] numbers_new [OF n1 n] by metis
    then show ?thesis using Some by (simp add: export_option_def export_subtree.simps)
  qed (simp add: export_option_def)
  have "export_space so g sp (ss, x) = Some (ss @ [laid g F (number x2) sp], x2)"
    using 1(1) 2(1) link(1) p root node
    by (cases "map_of (dg_central g) sp") (simp_all add: export_space_def laid_def laid_central_def)
  moreover have "exported x x2 (units (F sp))" using exported_append [OF 1(2) 2(2) sep] p by (simp add: units_def)
  ultimately show ?thesis by blast
qed

lemma export_spaces_trees:
  assumes V: "valid_forest so g F"
  shows "unnumbered x (concat (map (\<lambda>sp. unit_ids (F sp)) sps)) \<Longrightarrow>
    \<exists>x'. for_p (export_space so g) sps (ss, x) = Some (ss @ map (laid g F (number x')) sps, x') \<and>
      exported x x' (concat (map (\<lambda>sp. units (F sp)) sps))"
proof (induction sps arbitrary: ss x)
  case Nil
  then show ?case by (simp add: exported_Nil)
next
  case (Cons sp sps)
  have new: "unnumbered x (unit_ids (F sp) @ concat (map (\<lambda>sp. unit_ids (F sp)) sps))" using Cons.prems by simp
  obtain x1 where 1: "export_space so g sp (ss, x) = Some (ss @ [laid g F (number x1) sp], x1)" "exported x x1 (units (F sp))"
    using export_space_trees [OF V unnumbered_append(2) [OF new]] by blast
  have n1: "numbers x x1 (unit_ids (F sp))" using 1(2) by (simp add: exported_def)
  obtain x2 where 2: "for_p (export_space so g) sps (ss @ [laid g F (number x1) sp], x1)
      = Some ((ss @ [laid g F (number x1) sp]) @ map (laid g F (number x2)) sps, x2)"
    "exported x1 x2 (concat (map (\<lambda>sp. units (F sp)) sps))"
    using Cons.IH [OF unnumbered_append(1) [OF n1 new]] by blast
  have same: "concat (map ids (concat (map (\<lambda>sp. units (F sp)) sps))) = concat (map (\<lambda>sp. unit_ids (F sp)) sps)" by (induction sps) simp_all
  have n2: "numbers x1 x2 (concat (map (\<lambda>sp. unit_ids (F sp)) sps))" using 2(2) same by (simp add: exported_def)
  have sep: "set (unit_ids (F sp)) \<inter> set (concat (map (\<lambda>sp. unit_ids (F sp)) sps)) = {}" using new by (simp add: unnumbered_def)
  have "laid g F (number x1) sp = laid g F (number x2) sp"
  proof (rule laid_cong)
    fix n assume "n \<in> set (unit_ids (F sp))"
    then have "n \<notin> set (concat (map (\<lambda>sp. unit_ids (F sp)) sps))" using sep by blast
    then show "number x1 n = number x2 n" using numbers_old [OF n2] by metis
  next
    show "central_ok g F" using V by (simp add: valid_forest_def)
  qed
  moreover have "exported x x2 (units (F sp) @ concat (map (\<lambda>sp. units (F sp)) sps))"
    by (rule exported_append [OF 1(2) 2(2)]) (use sep same in simp)
  ultimately show ?case using 1(1) 2(1) by auto
qed

end
