(* ===== verification/Dock_Roundtrip.thy ===== *)
theory Dock_Roundtrip
  imports Dock_Exported
begin

text \<open>The exported layout of a valid graph is sound unless a central region is a floating node; then its import succeeds and has the items of the graph.\<close>

section \<open>The trees of a valid graph\<close>

abbreviation unit_trees :: "'s dock_graph \<Rightarrow> (space_id \<Rightarrow> grove) \<Rightarrow> dock_tree list" where
  "unit_trees g F \<equiv> concat (map (\<lambda>sp. units (F sp)) (spaces g))"

lemma distinct_concat_spaces:
  "distinct xs \<Longrightarrow> (\<And>x. x \<in> set xs \<Longrightarrow> distinct (f x)) \<Longrightarrow> (\<And>x y. x \<noteq> y \<Longrightarrow> set (f x) \<inter> set (f y) = {}) \<Longrightarrow> distinct (concat (map f xs))"
proof (induction xs)
  case (Cons x xs)
  have "set (f x) \<inter> set (f y) = {}" if "y \<in> set xs" for y using Cons.prems(1,3) that by (metis distinct.simps(2))
  then have "set (f x) \<inter> set (concat (map f xs)) = {}" by (simp add: disjoint_iff)
  moreover have "distinct (concat (map f xs))" using Cons by simp
  moreover have "distinct (f x)" using Cons.prems(2) by simp
  ultimately show ?case by simp
qed simp

lemma distinct_submset: "mset xs \<subseteq># mset ys \<Longrightarrow> distinct ys \<Longrightarrow> distinct xs"
  unfolding distinct_count_atmost_1
proof
  fix x assume sub: "mset xs \<subseteq># mset ys" and one: "\<forall>a. count (mset ys) a = (if a \<in> set ys then 1 else 0)"
  have "count (mset xs) x \<le> count (mset ys) x" by (rule mset_subset_eq_count [OF sub])
  also have "\<dots> \<le> 1" by (rule ord_eq_le_trans [OF one [THEN spec]]) simp
  finally have "count (mset xs) x \<le> 1" .
  note le = this
  show "count (mset xs) x = (if x \<in> set xs then 1 else 0)"
  proof (cases "x \<in> set xs")
    case True
    then have "1 \<le> count (mset xs) x" by (simp add: Suc_le_eq)
    with le have "count (mset xs) x = 1" by (rule le_antisym)
    then show ?thesis using True by (simp only: if_True)
  qed (simp add: count_mset_0_iff)
qed

lemma units_distinct:
  assumes F: "forest so g F"
  shows "distinct (concat (map ids (unit_trees g F)))"
proof -
  have "mset (concat (map (\<lambda>sp. unit_ids (F sp)) sps)) \<subseteq># mset (concat (map (\<lambda>sp. grove_ids (F sp)) sps))" for sps
  proof (induction sps)
    case (Cons sp sps)
    then show ?case using subset_mset.add_mono [OF unit_ids_subset] by simp
  qed simp
  moreover have "distinct (concat (map (\<lambda>sp. grove_ids (F sp)) (spaces g)))"
    by (rule distinct_concat_spaces [OF spaces_distinct]) (use F in \<open>auto simp: forest_def apart_def\<close>)
  ultimately have "distinct (concat (map (\<lambda>sp. unit_ids (F sp)) (spaces g)))" by (rule distinct_submset)
  moreover have "concat (map ids (concat (map (\<lambda>sp. units (F sp)) sps))) = concat (map (\<lambda>sp. unit_ids (F sp)) sps)" for sps
    by (induction sps) simp_all
  ultimately show ?thesis by simp
qed

lemma units_valid:
  assumes V: "valid_forest so g F" and t: "t \<in> set (units (F sp))"
  shows "rep (node so g) t" "valid_tree t"
proof -
  have F: "forest so g F" and all: "\<forall>t \<in> set (trees (F sp)). valid_tree t" using V by (simp_all add: valid_forest_def)
  consider "t \<in> set (trees (F sp))" | w where "w \<in> set (trees (F sp))" "t = below w"
    using t by (cases "F sp") (auto simp: units_def root_trees_def split: option.splits)
  then have "rep (node so g) t \<and> valid_tree t"
  proof cases
    case 1
    then show ?thesis using forest_rep [OF F] all by blast
  next
    case (2 w)
    then have "rep (node so g) w" "valid_tree w" using forest_rep [OF F] all by blast+
    then show ?thesis using 2(2) by (cases w) simp_all
  qed
  then show "rep (node so g) t" "valid_tree t" by blast+
qed

section \<open>The layout of a valid graph\<close>

definition layout_with :: "'s dock_graph \<Rightarrow> (space_id \<Rightarrow> grove) \<Rightarrow> (node_id \<Rightarrow> u32) \<Rightarrow> dock_layout" where
  "layout_with g F r = \<lparr>dl_version = 2, dl_spaces = map (laid g F r) (spaces g), dl_nodes = concat (map (nodes_of r) (unit_trees g F))\<rparr>"

lemma laid_roots:
  assumes F: "forest so g F"
  shows "space_roots (laid g F r sp) = map (r \<circ> head) (units (F sp))"
proof -
  have "length (floating_containers g sp) = length (snd (F sp))"
    using F by (metis forest_def linked_def length_map)
  then have "map lf_root (map (laid_floating r) (zip (floating_containers g sp) (snd (F sp)))) = map (r \<circ> head) (map below (snd (F sp)))"
    by (intro nth_equalityI) (simp_all add: laid_floating_def)
  then show ?thesis by (simp add: space_roots_def laid_def units_def root_trees_def split: option.split)
qed

lemma layout_with_index:
  assumes F: "forest so g F" and inj: "inj_on r (set (concat (map ids (unit_trees g F))))"
  shows "distinct (map r (concat (map plain (unit_trees g F))))" and "distinct (map layout_id (dl_nodes (layout_with g F r)))"
    and "x \<in> set (dl_nodes (layout_with g F r)) \<Longrightarrow> index_nodes (dl_nodes (layout_with g F r)) (layout_id x) = Some x"
proof -
  let ?ts = "unit_trees g F"
  have sub: "mset (concat (map plain ts)) \<subseteq># mset (concat (map ids ts))" for ts
    using plain_subset by (induction ts) (auto intro: subset_mset.add_mono)
  have "distinct (concat (map plain ?ts))" by (rule distinct_submset [OF sub units_distinct [OF F]])
  moreover have "set (concat (map plain ?ts)) \<subseteq> set (concat (map ids ?ts))" using set_mset_mono [OF sub [of ?ts]] by (simp only: set_mset_mset)
  ultimately show plain: "distinct (map r (concat (map plain ?ts)))" using inj by (simp only: distinct_map inj_on_subset)
  have "mset (map layout_id (concat (map (nodes_of r) ts))) = mset (map r (concat (map plain ts)))" for ts
    using nodes_of_ids by (induction ts) (simp_all add: map_concat)
  then show ids: "distinct (map layout_id (dl_nodes (layout_with g F r)))"
    using plain mset_eq_imp_distinct_iff by (simp only: layout_with_def dock_layout.simps) blast
  show "index_nodes (dl_nodes (layout_with g F r)) (layout_id x) = Some x" if "x \<in> set (dl_nodes (layout_with g F r))"
    using that index_nodes_iff [OF ids] by blast
qed

lemma layout_with_tree:
  assumes F: "forest so g F" and inj: "inj_on r (set (concat (map ids (unit_trees g F))))" and t: "t \<in> set (unit_trees g F)"
  shows "stands (index_nodes (dl_nodes (layout_with g F r))) (r (head t))"
    and "tree_in (index_nodes (dl_nodes (layout_with g F r))) (r (head t)) = shown r t"
proof -
  let ?by = "index_nodes (dl_nodes (layout_with g F r))"
  have "rep (lay ?by) (shown r t)"
  proof (rule nodes_of_rep)
    fix x assume "x \<in> set (nodes_of r t)"
    then have "x \<in> set (dl_nodes (layout_with g F r))" using t by (auto simp: layout_with_def)
    then show "?by (layout_id x) = Some x" by (rule layout_with_index(3) [OF F inj])
  qed
  then show "stands ?by (r (head t))" "tree_in ?by (r (head t)) = shown r t"
    using has_treeI [of "lay ?by" "shown r t"] tree_of_rep [of "lay ?by" "shown r t"] by simp_all
qed

lemma layout_with_items:
  assumes V: "valid_forest so g F"
  shows "distinct (concat (map node_items (dl_nodes (layout_with g F r))))"
proof -
  have node: "concat (map node_items (concat (map (nodes_of r) ts))) = concat (map tree_items ts)" for ts
    using nodes_of_items by (induction ts) auto
  have space: "concat (map tree_items (concat (map (\<lambda>sp. units (F sp)) sps))) = concat (map (\<lambda>sp. concat (map tree_items (trees (F sp)))) sps)" for sps
    using units_items by (induction sps) auto
  have apart: "items_apart (items_of F)" using V by (simp add: valid_forest_def)
  have "distinct (concat (map (\<lambda>sp. concat (map tree_items (trees (F sp)))) (spaces g)))"
  proof (rule distinct_concat_spaces [OF spaces_distinct])
    show "distinct (concat (map tree_items (trees (F sp))))" for sp
      by (rule items_apart_distinct [OF apart, where s = sp]) (simp add: grove_items_def)
    show "set (concat (map tree_items (trees (F sp)))) \<inter> set (concat (map tree_items (trees (F sp')))) = {}" if "sp \<noteq> sp'" for sp sp'
      using apart that unfolding items_apart_def grove_items_def set_mset_mset by blast
  qed
  then show ?thesis by (simp only: layout_with_def dock_layout.simps node space)
qed

definition central_plain :: "'s slot_ops \<Rightarrow> 's dock_graph \<Rightarrow> bool" where
  "central_plain so g \<longleftrightarrow> (\<forall>(sp, c) \<in> set (dg_central g). \<forall>n. cr_node c = Some n \<longrightarrow> \<not> is_floating (node so g n))"

lemma plain_node: "rep get t \<Longrightarrow> n \<in> set (ids t) \<Longrightarrow> \<not> is_floating (get n) \<Longrightarrow> n \<in> set (plain t)"
  by (induction t) (auto simp: is_floating_def)

lemma layout_with_space:
  assumes V: "valid_forest so g F" and inj: "inj_on r (set (concat (map ids (unit_trees g F))))" and central: "central_plain so g"
    and sp: "sp \<in> set (spaces g)"
  shows "space_ok (index_nodes (dl_nodes (layout_with g F r))) (laid g F r sp)"
  unfolding space_ok_def
proof (intro conjI ballI allI impI)
  have F: "forest so g F" using V by (simp add: valid_forest_def)
  fix f assume "f \<in> set (ls_floatings (laid g F r sp))"
  then obtain c w where "(c, w) \<in> set (zip (floating_containers g sp) (snd (F sp)))" "f = laid_floating r (c, w)" by (auto simp: laid_def)
  then have "c \<in> set (floating_containers g sp)" "lf_bounds f = fc_bounds c" by (auto simp: laid_floating_def dest: set_zip_leftD)
  then show "bounds_ok (lf_bounds f)" using floats_at [OF V] by simp
next
  have F: "forest so g F" and ok: "central_ok g F" using V by (simp_all add: valid_forest_def)
  fix lc i assume lc: "ls_central (laid g F r sp) = Some lc" "lc_node lc = Some i"
  then obtain c n where c: "map_of (dg_central g) sp = Some c" "cr_node c = Some n" "i = r n" by (auto simp: laid_def laid_central_def)
  then obtain t where t: "fst (F sp) = Some t" "n \<in> set (ids t)" using ok map_of_SomeD [OF c(1)] by (fastforce simp: central_ok_def)
  have u: "t \<in> set (units (F sp))" using t(1) by (simp add: units_def root_trees_def)
  have "\<not> is_floating (node so g n)" using central map_of_SomeD [OF c(1)] c(2) by (auto simp: central_plain_def)
  then have "n \<in> set (plain t)" by (rule plain_node [OF units_valid(1) [OF V u] t(2)])
  moreover have "tree_in (index_nodes (dl_nodes (layout_with g F r))) (r (head t)) = shown r t"
    by (rule layout_with_tree(2) [OF F inj]) (use u sp in auto)
  ultimately show "\<exists>k. ls_root (laid g F r sp) = Some k \<and> unat i \<in> set (ids (tree_in (index_nodes (dl_nodes (layout_with g F r))) k))"
    using t(1) c(3) by (simp add: laid_def)
qed

lemma unat_inj: "inj (unat :: u32 \<Rightarrow> nat)"
  by (rule injI) (simp only: word_unat_eq_iff)

theorem layout_with_sound:
  assumes V: "valid_forest so g F" and inj: "inj_on r (set (concat (map ids (unit_trees g F))))" and central: "central_plain so g"
  shows "layout_sound (layout_with g F r)"
proof -
  let ?l = "layout_with g F r"
  let ?by = "index_nodes (dl_nodes ?l)" and ?ts = "unit_trees g F" and ?rs = "layout_roots (dl_spaces ?l)"
  have F: "forest so g F" using V by (simp add: valid_forest_def)
  have "concat (map space_roots (map (laid g F r) sps)) = map (r \<circ> head) (concat (map (\<lambda>sp. units (F sp)) sps))" for sps
    using laid_roots [OF F] by (induction sps) simp_all
  then have roots: "mset ?rs = mset (map (r \<circ> head) ?ts)" using layout_roots_spaces [of "dl_spaces ?l"] by (simp add: layout_with_def)
  have set_roots: "set ?rs = (r \<circ> head) ` set ?ts" using mset_eq_setD [OF roots] by simp
  have tree: "stands ?by (r (head t))" "tree_in ?by (r (head t)) = shown r t" if "t \<in> set ?ts" for t
    using layout_with_tree [OF F inj that] by blast+
  have "map (ids \<circ> tree_in ?by) (map (r \<circ> head) ts) = map (\<lambda>t. map (unat \<circ> r) (plain t)) ts" if "set ts \<subseteq> set ?ts" for ts
    using that tree(2) by (induction ts) simp_all
  moreover have "concat (map (\<lambda>t. map (unat \<circ> r) (plain t)) ts) = map unat (map r (concat (map plain ts)))" for ts
    by (induction ts) simp_all
  ultimately have owned: "concat (map (ids \<circ> tree_in ?by) (map (r \<circ> head) ?ts)) = map unat (map r (concat (map plain ?ts)))" by (metis order_refl)
  have same: "mset (concat (map (ids \<circ> tree_in ?by) ?rs)) = mset (map unat (map r (concat (map plain ?ts))))"
    using mset_concat_map [OF roots] owned by metis
  have "distinct (map unat (map r (concat (map plain ?ts))))"
    using layout_with_index(1) [OF F inj] inj_on_subset [OF unat_inj subset_UNIV] by (simp only: distinct_map [of unat])
  then have distinct: "distinct (concat (map (ids \<circ> tree_in ?by) ?rs))" using mset_eq_imp_distinct_iff [OF same] by blast
  have "unat (layout_id x) \<in> set (concat (map (ids \<circ> tree_in ?by) ?rs))" if x: "x \<in> set (dl_nodes ?l)" for x
  proof -
    obtain t where t: "t \<in> set ?ts" "x \<in> set (nodes_of r t)" using x by (auto simp: layout_with_def)
    have "layout_id x \<in> set (map layout_id (nodes_of r t))" using t(2) by simp
    then have "layout_id x \<in> set (map r (plain t))" using mset_eq_setD [OF nodes_of_ids] by blast
    moreover have "set (map r (plain t)) \<subseteq> set (map r (concat (map plain ?ts)))" using t(1) by (intro subsetI) force
    ultimately have "unat (layout_id x) \<in> unat ` set (map r (concat (map plain ?ts)))" by blast
    then have "unat (layout_id x) \<in> set (map unat (map r (concat (map plain ?ts))))" by (simp only: set_map [of unat])
    then show ?thesis using mset_eq_setD [OF same] by blast
  qed
  moreover have "node_ok x" if x: "x \<in> set (dl_nodes ?l)" for x
  proof -
    obtain sp t where "t \<in> set (units (F sp))" "x \<in> set (nodes_of r t)" using x by (auto simp: layout_with_def)
    then show ?thesis using nodes_of_ok units_valid(2) [OF V] by blast
  qed
  moreover have "stands ?by k" if "k \<in> set ?rs" for k using that set_roots tree(1) by auto
  moreover have "space_ok ?by s" if "s \<in> set (dl_spaces ?l)" for s
    using that layout_with_space [OF V inj central] by (auto simp: layout_with_def)
  moreover have "distinct (map ls_id (dl_spaces ?l))" using spaces_distinct by (simp add: layout_with_def laid_def comp_def)
  moreover have "dl_version ?l = layout_version" by (simp add: layout_with_def layout_version_def)
  ultimately show ?thesis
    using distinct layout_with_index(2) [OF F inj] layout_with_items [OF V] unfolding layout_sound_def Let_def by blast
qed

lemma layout_with_space_items:
  assumes V: "valid_forest so g F" and inj: "inj_on r (set (concat (map ids (unit_trees g F))))"
  shows "layout_items (layout_with g F r) sp = concat (map tree_items (trees (F sp)))"
proof (cases "sp \<in> set (spaces g)")
  case True
  have F: "forest so g F" using V by (simp add: valid_forest_def)
  have "distinct (map ls_id (map (laid g F r) (spaces g)))" using spaces_distinct by (simp add: laid_def comp_def)
  then have "find (\<lambda>s. ls_id s = sp) (map (laid g F r) (spaces g)) = Some (laid g F r sp)"
    using True by (subst find_by_key) (auto simp: laid_def)
  then have "layout_items (layout_with g F r) sp = items_below (index_nodes (dl_nodes (layout_with g F r))) (map (r \<circ> head) (units (F sp)))"
    using laid_roots [OF F] by (simp add: layout_items_def layout_with_def)
  also have "\<dots> = concat (map (\<lambda>t. tree_items (tree_in (index_nodes (dl_nodes (layout_with g F r))) (r (head t)))) (units (F sp)))"
    by (simp add: items_below_def comp_def)
  also have "\<dots> = concat (map tree_items (units (F sp)))"
    by (rule arg_cong [where f = concat], rule map_cong [OF refl], subst layout_with_tree(2) [OF F inj]) (use True in auto)
  finally show ?thesis using units_items by simp
next
  case False
  have "find (\<lambda>s. ls_id s = sp) (map (laid g F r) (spaces g)) = None" using False by (auto simp: find_None_iff laid_def)
  then have "layout_items (layout_with g F r) sp = []" by (simp add: layout_items_def layout_with_def)
  moreover have "F sp = (None, [])" using spaces_cover False V by (auto simp: valid_forest_def)
  ultimately show ?thesis by simp
qed

text \<open>A floating node has no layout node, so a central region on one is not sound.\<close>

lemma plain_not_floating: "rep get t \<Longrightarrow> n \<in> set (plain t) \<Longrightarrow> \<not> is_floating (get n)"
  by (induction t) (auto simp: is_floating_def)

lemma layout_with_unsound:
  assumes V: "valid_forest so g F" and inj: "inj_on r (set (concat (map ids (unit_trees g F))))" and central: "\<not> central_plain so g"
  shows "\<not> layout_sound (layout_with g F r)"
proof
  let ?by = "index_nodes (dl_nodes (layout_with g F r))"
  assume "layout_sound (layout_with g F r)"
  then have ok: "\<forall>s \<in> set (dl_spaces (layout_with g F r)). space_ok ?by s" unfolding layout_sound_def Let_def by blast
  have F: "forest so g F" and cok: "central_ok g F" using V by (simp_all add: valid_forest_def)
  obtain sp c n where c: "(sp, c) \<in> set (dg_central g)" "cr_node c = Some n" "is_floating (node so g n)"
    using central by (auto simp: central_plain_def)
  have sp: "sp \<in> set (spaces g)" by (rule central_space [OF c(1)])
  have entry: "map_of (dg_central g) sp = Some c"
    using maps_ok_forest [OF F] map_of_mem [of "dg_central g" sp c] c(1) by (simp add: maps_ok_def)
  obtain t where t: "fst (F sp) = Some t" "n \<in> set (ids t)" using cok c(1,2) by (fastforce simp: central_ok_def)
  have u: "t \<in> set (units (F sp))" using t(1) by (simp add: units_def root_trees_def)
  then have all: "t \<in> set (unit_trees g F)" using sp by auto
  have "space_ok ?by (laid g F r sp)" using ok sp by (simp add: layout_with_def)
  then have "unat (r n) \<in> set (ids (tree_in ?by (r (head t))))"
    using c(2) t(1) entry by (auto simp: space_ok_def laid_def laid_central_def)
  then have "unat (r n) \<in> (unat \<circ> r) ` set (plain t)" unfolding layout_with_tree(2) [OF F inj all] by simp
  then obtain k where k: "k \<in> set (plain t)" "r n = r k" by (auto simp flip: word_unat_eq_iff)
  have "set (plain t) \<subseteq> set (ids t)" using set_mset_mono [OF plain_subset] by (simp only: set_mset_mset)
  then have "n \<in> set (concat (map ids (unit_trees g F)))" "k \<in> set (concat (map ids (unit_trees g F)))" using t(2) k(1) all by auto
  then have "n = k" using inj_onD [OF inj k(2)] by blast
  then show False using plain_not_floating [OF units_valid(1) [OF V u] k(1)] c(3) by simp
qed

section \<open>The export\<close>

theorem export_sound:
  assumes so: "slot_laws so" and V: "valid_forest so g F" and small: "card (stored so (dg_nodes g)) < 2 ^ 32"
  shows "\<exists>l. export_layout so g = Some l \<and> (layout_sound l \<longleftrightarrow> central_plain so g) \<and> (\<forall>sp. collect_items_in_space so g sp = Some (layout_items l sp))"
proof -
  let ?ts = "unit_trees g F" and ?x = "\<lparr>le_next_id = 0, le_ids = Map.empty, le_nodes = []\<rparr>"
  have F: "forest so g F" using V by (simp add: valid_forest_def)
  have same: "concat (map (\<lambda>sp. unit_ids (F sp)) sps) = concat (map ids (concat (map (\<lambda>sp. units (F sp)) sps)))" for sps
    by (induction sps) simp_all
  have "set (concat (map ids ?ts)) \<subseteq> stored so (dg_nodes g)"
  proof
    fix n assume "n \<in> set (concat (map ids ?ts))"
    then obtain sp t where "t \<in> set (units (F sp))" "n \<in> set (ids t)" by auto
    then show "n \<in> stored so (dg_nodes g)" using rep_stored [OF units_valid(1) [OF V]] by (auto simp: domIff)
  qed
  then have "card (set (concat (map ids ?ts))) \<le> card (stored so (dg_nodes g))" by (rule card_mono [OF store_finite [OF so]])
  then have "length (concat (map ids ?ts)) < 2 ^ 32" using small distinct_card [OF units_distinct [OF F]] by linarith
  then have "unnumbered ?x (concat (map (\<lambda>sp. unit_ids (F sp)) (spaces g)))"
    unfolding same unnumbered_def using units_distinct [OF F] by simp
  from export_spaces_trees [OF V this, of "[]"] obtain x' where
    x': "for_p (export_space so g) (spaces g) ([], ?x) = Some (map (laid g F (number x')) (spaces g), x')" "exported ?x x' ?ts"
    by auto
  have inj: "inj_on (number x') (set (concat (map ids ?ts)))" using x'(2) by (simp add: exported_def numbers_def)
  have "export_layout so g = Some (layout_with g F (number x'))"
    using x' by (simp add: export_layout_def layout_with_def exported_def)
  moreover have "collect_items_in_space so g sp = Some (layout_items (layout_with g F (number x')) sp)" for sp
    using collect_items_forest [OF F] layout_with_space_items [OF V inj] by simp
  moreover have "layout_sound (layout_with g F (number x')) \<longleftrightarrow> central_plain so g"
    using layout_with_sound [OF V inj] layout_with_unsound [OF V inj] by blast
  ultimately show ?thesis by blast
qed

end
