(* ===== verification/Dock_Layout_Properties.thy ===== *)
theory Dock_Layout_Properties
  imports Dock_Roundtrip Dock_Properties
begin

text \<open>The properties of serialised layouts: what validation accepts, what the import makes, and that it undoes the export.\<close>

section \<open>Layouts\<close>

declare layout_contains.simps [code] build_node.simps [code]

text \<open>One stack, central in the space with the empty name, and one that floats above it.\<close>

definition two_stacks :: dock_layout where
  "two_stacks = \<lparr>dl_version = 2,
     dl_spaces = [\<lparr>ls_id = [], ls_root = Some 7,
       ls_floatings = [\<lparr>lf_root = 5, lf_bounds = \<lparr>rect_x = Fin 0, rect_y = Fin 0, rect_width = Fin 4, rect_height = Fin 3\<rparr>\<rparr>],
       ls_central = Some \<lparr>lc_node = Some 7, lc_keep_alive = True, lc_passthrough = False\<rparr>\<rparr>],
     dl_nodes = [LTabs 5 [[1]] (Some [1]), LTabs 7 [[2], [3]] (Some [3])]\<rparr>"

text \<open>A split that is its own child.\<close>

definition own_child :: dock_layout where
  "own_child = \<lparr>dl_version = 2,
     dl_spaces = [\<lparr>ls_id = [], ls_root = Some 7, ls_floatings = [], ls_central = None\<rparr>],
     dl_nodes = [LSplit 7 Horizontal [7] [Fin 1]]\<rparr>"

lemma iterates_self: "iterates (\<lambda>ns. ns)"
  by (simp add: iterates_def)

lemma two_stacks_sound: "layout_sound two_stacks"
proof -
  have "layout_validate (\<lambda>ns. ns) two_stacks = Some None" by code_simp
  then show ?thesis using layout_validate_decides [OF iterates_self, of two_stacks] by auto
qed

section \<open>Validation\<close>

text \<open>C18: Validation of a serialised layout returns, whatever its nodes refer to, and in whatever order the map of the nodes is
iterated it accepts exactly the layouts whose space ids, node ids and items are distinct, whose nodes are well formed, whose
roots stand for finite trees that share no node and together own every node, whose bounds are finite and not negative and whose
central nodes lie below the root of their space.\<close>

theorem layout_validate_exact:
  assumes "iterates order"
  shows "\<exists>e. layout_validate order l = Some e \<and> (e = None \<longleftrightarrow> layout_sound l)"
  by (rule layout_validate_decides [OF assms])

lemma layout_validate_exact_witness:
  "layout_validate (\<lambda>ns. ns) own_child = Some (Some (LCycleDetected 7)) \<and> \<not> layout_sound own_child"
proof -
  have "layout_validate (\<lambda>ns. ns) own_child = Some (Some (LCycleDetected 7))" by code_simp
  then show ?thesis using layout_validate_exact [OF iterates_self, of own_child] by auto
qed

section \<open>Import\<close>

text \<open>C19: The import of a serialised layout returns. A layout that is not sound is refused with an error. A sound one becomes a
valid graph in which every space has the items of its part of the layout, in their order, and from which every sequence of
checked operations ends in a valid graph again.\<close>

theorem import_makes_valid:
  assumes "slot_laws so" and "iterates order"
  shows "if layout_sound l
    then \<exists>g. import_layout so order l = Some (Inr g) \<and> dock_valid so g \<and>
      (\<forall>sp. collect_items_in_space so g sp = Some (layout_items l sp)) \<and>
      (\<forall>ops. \<exists>g'. dock_run so ops g = Some g' \<and> dock_valid so g')
    else \<exists>e. import_layout so order l = Some (Inl e)"
proof (cases "layout_sound l")
  case True
  obtain g F where g: "import_layout so order l = Some (Inr g)" "valid_forest so g F" "tidy so g F"
    "\<forall>sp. collect_items_in_space so g sp = Some (layout_items l sp)"
    using import_sound [OF assms True] by blast
  have "\<exists>g'. dock_run so ops g = Some g' \<and> dock_valid so g'" for ops
    using run_valid [OF assms(1) g(2,3), of ops] by (auto simp: dock_valid_def)
  then show ?thesis using True g by (auto simp: dock_valid_def)
next
  case False
  then show ?thesis using import_unsound [OF assms(2)] by simp
qed

lemma import_makes_valid_witness:
  "\<exists>g. import_layout list_slots (\<lambda>ns. ns) two_stacks = Some (Inr g) \<and> dock_valid list_slots g \<and>
     collect_items_in_space list_slots g [] = Some [[2], [3], [1]]"
proof -
  obtain g where g: "import_layout list_slots (\<lambda>ns. ns) two_stacks = Some (Inr g)" "dock_valid list_slots g"
    using import_makes_valid [OF list_slots_laws iterates_self, of two_stacks] two_stacks_sound by auto
  have "(case import_layout list_slots (\<lambda>ns. ns) two_stacks of
      Some (Inr g) \<Rightarrow> collect_items_in_space list_slots g [] | _ \<Rightarrow> None) = Some [[2], [3], [1]]" by code_simp
  then show ?thesis using g by auto
qed

section \<open>Round trip\<close>

text \<open>C20: A valid graph of fewer than 2^32 nodes is exported to a layout, and importing that layout, under every iteration order,
gives a valid graph in which every space has the same items in the same order, unless a central region of the graph is a floating
node: then the import refuses the layout.\<close>

theorem export_import_roundtrip:
  assumes "slot_laws so" and "iterates order" and "dock_valid so g" and "card (stored so (dg_nodes g)) < 2 ^ 32"
  shows "\<exists>l. export_layout so g = Some l \<and>
    (if central_plain so g
     then \<exists>g'. import_layout so order l = Some (Inr g') \<and> dock_valid so g' \<and>
       (\<forall>sp. collect_items_in_space so g' sp = collect_items_in_space so g sp)
     else \<exists>e. import_layout so order l = Some (Inl e))"
proof -
  obtain F where "valid_forest so g F" using assms(3) by (auto simp: dock_valid_def)
  from export_sound [OF assms(1) this assms(4)] obtain l where l: "export_layout so g = Some l"
    "layout_sound l \<longleftrightarrow> central_plain so g" "\<forall>sp. collect_items_in_space so g sp = Some (layout_items l sp)" by blast
  show ?thesis
  proof (cases "central_plain so g")
    case True
    then obtain g' F' where "import_layout so order l = Some (Inr g')" "valid_forest so g' F'"
      "\<forall>sp. collect_items_in_space so g' sp = Some (layout_items l sp)"
      using import_sound [OF assms(1,2)] l(2) by blast
    then show ?thesis using True l(1,3) by (auto simp: dock_valid_def)
  next
    case False
    then show ?thesis using import_unsound [OF assms(2)] l(1,2) by auto
  qed
qed

lemma export_import_roundtrip_witness:
  "\<exists>l g'. export_layout list_slots one_stack = Some l \<and> import_layout list_slots (\<lambda>ns. ns) l = Some (Inr g') \<and>
     collect_items_in_space list_slots g' [] = Some [[1], [2]]"
proof -
  have "dom (map_of (dg_nodes one_stack)) = {1}" by (auto simp: one_stack_def)
  then have "card (stored list_slots (dg_nodes one_stack)) < 2 ^ 32" by (simp add: list_slots_def)
  moreover have "dock_valid list_slots one_stack" using one_stack_is_valid by (auto simp: dock_valid_def)
  moreover have "central_plain list_slots one_stack" by (simp add: central_plain_def one_stack_def)
  ultimately obtain l g' where "export_layout list_slots one_stack = Some l" "import_layout list_slots (\<lambda>ns. ns) l = Some (Inr g')"
    "\<forall>sp. collect_items_in_space list_slots g' sp = collect_items_in_space list_slots one_stack sp"
    using export_import_roundtrip [OF list_slots_laws iterates_self, of one_stack] by (simp only: if_True) blast
  moreover have "collect_items_in_space list_slots one_stack [] = Some [[1], [2]]" by code_simp
  ultimately show ?thesis by auto
qed

text \<open>A valid graph with a central region on a floating node: the floating node has a number but no node in the layout.\<close>

definition floating_central :: "(node_id \<times> dock_node) list dock_graph" where
  "floating_central = \<lparr>dg_nodes = [(1, Tabs [[1]] (Some [1])), (2, Floating 1)], dg_roots = [([], 2)], dg_floatings = [],
     dg_central = [([], \<lparr>cr_node = Some 2, cr_keep_alive = True, cr_passthrough = False\<rparr>)], dg_history = []\<rparr>"

lemma floating_central_refused:
  "graph_validate list_slots floating_central = Some (Inr ())"
  "Option.bind (export_layout list_slots floating_central) (import_layout list_slots (\<lambda>ns. ns)) = Some (Inl (LCentralNodeMissing [] 1))"
  by code_simp+

end
