(* ===== verification/Spec2Isabelle.thy ===== *)
theory Spec2Isabelle
  imports ST_Properties ST_Map_Properties Form_Properties Resource_Properties Vec_Map
    Command_Properties Key_Properties Dock_Properties Dock_Layout_Properties
begin

text \<open>
  Verification library of Open GPUI (\<open>src/crates\<close>).

  \<^bold>\<open>Program.\<close> Open GPUI is a user-interface framework in Rust. Its windows, elements and platform backends are
  side effects on the operating system and the GPU; below them lies pure logic that other crates build on. This library models that
  logic: the B+ tree \<open>sum_tree\<close> with its cursors and maps, the state owners \<open>form\<close> and \<open>resource\<close>, the
  collection \<open>VecMap\<close>, the keystrokes, key contexts and keymap of \<open>gpui\<close>, the command center of
  \<open>open-gpui-command\<close>, which registers commands, binds keys to them through that keymap and searches them, and the docking
  graph of \<open>gpui_docking\<close>, the tree of splits and tab stacks behind every docked window.

  \<^bold>\<open>Conventions.\<close> A Rust function that may panic returns an \<open>option\<close>, \<open>None\<close> being the panic
  (\<open>Prelude\<close>); \<open>no_panic m P\<close> says that \<open>m\<close> returns and its result satisfies \<open>P\<close>. A method
  on \<open>&mut self\<close> returns the new state, after its result. \<open>Result\<close> is a sum with the error on the left. Machine
  counters are words: \<open>checked_add\<close> and \<open>saturating_add\<close> as in the source, a plain \<open>+= 1\<close> wraps, as it does
  in a release build; heights, which are \<open>u8\<close>, are numbers modulo 256. Strings are lists of code points (\<open>Text\<close>).
  An \<open>Arc\<close> that is used for its identity is a number. Iterators are represented by what draining their \<open>next\<close> yields
  (\<open>drain\<close>). Closures passed by the application, among them the providers of search results, are pure functions. What the
  command crate asks of the window (which actions are available, the bindings of its keymap) is an argument, and what it does to the
  application is a list of dispatched actions beside the result. Third-party code is a parameter: the capacity of
  \<open>heapless::Vec\<close> (\<open>vec_fits\<close>, with the law that up to the capacity elements fit), rayon's chunked map,
  \<open>serde_json::Value\<close> (a type variable with \<open>json_view\<close>).

  \<^bold>\<open>The tree (\<open>crates/sum_tree\<close>).\<close>
  \<^item> \<open>ST_Node\<close>: summaries, dimensions, bias, nodes and accessors (\<open>sum_tree.rs\<close>); the invariant \<open>wf_tree ops b\<close>
    (heights, fill factors, cached summaries; all nodes above height \<open>b\<close> are dense, since \<open>from_iter\<close> may leave an
    underfull right spine of height below \<open>b\<close>); the laws \<open>summary_laws\<close> and \<open>dimension_laws\<close>.
  \<^item> \<open>ST_Append\<close>: \<open>append\<close>, \<open>append_large\<close>, \<open>push_tree_recursive\<close>, \<open>merge_into_right\<close>,
    \<open>update_first\<close>, \<open>update_last\<close>; \<open>ST_Build\<close>: \<open>from_iter\<close>, \<open>from_par_iter\<close>, \<open>extend\<close>.
    Appending needs fewer than \<open>max_items 256 b\<close> items, so that the height stays a \<open>u8\<close>.
  \<^item> \<open>ST_Find\<close>: \<open>find\<close>, \<open>find_exact\<close>, \<open>find_with_prev\<close>, against a linear scan.
  \<^item> \<open>ST_Cursor\<close>: \<open>cursor.rs\<close> up to the iterators, with termination measures for its loops; \<open>ST_Navigate\<close>:
    where they lead, in terms of the index of an item (\<open>cursor_at\<close>). The cursor stack is a vector of capacity 16, so trees
    below height 16 are required.
  \<^item> \<open>ST_Seek\<close>: \<open>seek\<close>, \<open>slice\<close>, \<open>suffix\<close>, \<open>summary\<close>; the three \<open>SeekAggregate\<close>
    implementations interpret one locale, in which the loop is verified once.
  \<^item> \<open>ST_Keyed\<close>: \<open>insert_or_replace\<close>, \<open>remove\<close>, \<open>edit\<close>, \<open>get\<close>; \<open>ST_Tree_Map\<close>:
    \<open>TreeMap\<close> and \<open>TreeSet\<close> (\<open>tree_map.rs\<close>), which interpret \<open>map_contract\<close> (\<open>Map_Contract\<close>).
  \<^item> \<open>ST_Properties\<close>, \<open>ST_Map_Properties\<close>: the properties, with sample trees.

  \<^bold>\<open>Forms (\<open>crates/form\<close>).\<close> \<open>Form_Field\<close> models paths, redaction, tickets and one field; \<open>Form_Store\<close> the
  store, its snapshots and the debounced queue, and the step relation \<open>form_step\<close> of the public operations with arbitrary
  arguments; \<open>Form_Laws\<close> the invariant \<open>form_inv\<close> of the reachable stores and how fields and submissions evolve;
  \<open>Form_Properties\<close> the properties.

  \<^bold>\<open>Resources (\<open>crates/resource\<close>).\<close> \<open>Resource_Client\<close> models keys, redaction, the retry policy, pagination and
  the client; \<open>Resource_Laws\<close> the effect of an operation on one entry and the generations along runs;
  \<open>Resource_Properties\<close> the properties.

  \<^bold>\<open>Collections.\<close> \<open>Vec_Map\<close> models \<open>vecmap.rs\<close>; \<open>BTree_Map\<close> is the model of
  \<open>std::collections::BTreeMap\<close>, a sorted list of entries, used by forms and resources. Both interpret the map contract.

  \<^bold>\<open>Keys (\<open>crates/gpui/src\<close>).\<close> \<open>Keystroke\<close>: parsing, printing and matching of keystrokes
  (\<open>platform/keystroke.rs\<close>); \<open>Key_Context\<close>: context entries and the predicate language
  (\<open>keymap/context.rs\<close>) with its parser, whose recursion runs on fuel that the length of the source bounds, and
  \<open>Key_Context_Laws\<close>, which prove that bound and that a printed predicate parses back; \<open>Keymap\<close>: bindings and the
  keymap with its versions and its resolution of input (\<open>keymap.rs\<close>, \<open>keymap/binding.rs\<close>), where the marker actions
  \<open>NoAction\<close> and \<open>Unbind\<close> hide earlier bindings; \<open>Keymap_Laws\<close>: the order of the results and what hides what;
  \<open>Key_Properties\<close>: the properties. \<open>Sequences\<close> models the slice and iterator functions these theories share.

  \<^bold>\<open>Commands (\<open>crates/open-gpui-command/src\<close>).\<close>
  \<^item> \<open>Command_Registry\<close>: descriptors, scopes, the registry and its availability rules, with the invariant of its
    reachable states in \<open>Command_Registry_Laws\<close>; \<open>Command_Menu\<close>: menus; \<open>Command_History\<close>: the
    history of usages and queries with its limits, and the step relation \<open>history_step\<close> of its operations.
  \<^item> \<open>Command_Search\<close>: scoring, ranking and highlighting of search results.
  \<^item> \<open>Command_Keys\<close> and \<open>Command_Bindings\<close>: the sources of key bindings, their patches, conflicts and the
    projection to the keymap; \<open>Command_Bindings_Laws\<close> what a patch changes.
  \<^item> \<open>Command_Center\<close>: the center, which owns the registry, the requests for asynchronous results and their generations;
    \<open>Command_Center_Laws\<close>: the step relation, which also lets a caller change or replace the registry and the history
    (\<open>registry_mut\<close>, \<open>history_mut\<close>, \<open>set_history\<close>), the invariant of reachable centers, and the locale
    \<open>request_tracking\<close> (a stale response is never applied), interpreted on the center as \<open>requests\<close>.
  \<^item> \<open>Command_Properties\<close>: the properties.

  \<^bold>\<open>Docking (\<open>crates/gpui_docking/src\<close>).\<close> A graph stores splits, tab stacks and floating nodes in a slot map, a
  parameter with the laws \<open>slot_laws\<close>, with maps from the spaces to their root, floating containers and central region.
  A recursion over the store has no end on a cycle; it is a partial function, and \<open>None\<close> is also that. Hash maps are maps or
  sets where their order is not seen. Numbers of type \<open>f32\<close> are rationals rounded to binary32 (\<open>Float32\<close>, with the
  normalisation of fractions of \<open>crates/ui_core/src/split.rs\<close>).
  \<^item> \<open>Dock_Graph\<close>: the graph and its queries (\<open>graph.rs\<close>, \<open>graph_query.rs\<close>); \<open>Dock_Canonical\<close>:
    simplification and the sweep (\<open>graph_canonical.rs\<close>); \<open>Dock_Edge\<close>: docking on an edge
    (\<open>graph_edge_dock.rs\<close>); \<open>Dock_Mutation\<close>, \<open>Dock_Moves\<close>: the mutations (\<open>graph_tab_stack.rs\<close>,
    \<open>graph_mutation.rs\<close>, \<open>graph_floating_mutation.rs\<close>); \<open>Dock_Validation\<close>: validation and the exported
    layout (\<open>graph_validation.rs\<close>, \<open>layout.rs\<close>); \<open>Dock_Ops\<close>: the operations, their preconditions and
    the transaction (\<open>op.rs\<close>, \<open>graph_ops.rs\<close>, \<open>graph_op_validation.rs\<close>).
  \<^item> The specification: \<open>Dock_Trees\<close> reads a store as trees (\<open>rep\<close>), \<open>Dock_Forest\<close> a graph as a grove of
    disjoint trees per space (\<open>forest\<close>). \<open>Dock_Simplify\<close> and \<open>Dock_Steps\<close> show that simplification
    computes \<open>simp_tree\<close> on them, \<open>Dock_Edges\<close> what an edge plan does, \<open>Dock_Effects\<close>,
    \<open>Dock_Item_Moves\<close> and \<open>Dock_Group_Moves\<close> the effect of every mutation on the items of the spaces.
  \<^item> \<open>Dock_Valid\<close>, \<open>Dock_Valid_Graph\<close>: what validation decides; \<open>Dock_Reach\<close>: reachability, the sweep and
    the export end on every store; \<open>Dock_Transact\<close>, \<open>Dock_Checked\<close>: the outcome of every checked operation;
    \<open>Dock_Sample\<close>: a slot map as an association list and sample graphs; \<open>Dock_Properties\<close>: the properties.
  \<^item> Serialised layouts: \<open>Dock_Layout\<close> models their validation (\<open>layout_validation.rs\<close>) and import
    (\<open>layout.rs\<close>); the order in which a \<open>HashMap\<close> is iterated is the argument \<open>order\<close>, of which only
    is known that it lists the same nodes (\<open>iterates\<close>). \<open>Dock_Layout_Trees\<close> reads a layout as trees,
    \<open>Dock_Layout_Valid\<close> shows what validation decides (\<open>layout_sound\<close>), \<open>Dock_Import\<close> what
    simplification makes of a whole graph, \<open>Dock_Build\<close> and \<open>Dock_Imported\<close> what the importer builds,
    \<open>Dock_Layout_Result\<close> the graph it returns. \<open>Dock_Export\<close> and \<open>Dock_Exported\<close> show what the export
    makes of the trees of a graph, \<open>Dock_Roundtrip\<close> that the result is sound; \<open>Dock_Layout_Properties\<close>: the
    properties. The export numbers the nodes with a saturating \<open>u32\<close>; the round trip is for graphs of fewer than
    \<open>2 ^ 32\<close> nodes. A floating node has a number but no node in the layout, so a graph with a central region on one
    (\<open>central_plain\<close> fails) is exported to a layout that the import refuses.

  \<^bold>\<open>Not modelled.\<close> Formatting (\<open>Debug\<close>, \<open>Display\<close>), serialisation, windows, elements, platform backends,
  macros, examples and tools; of docking, pixel geometry and the surfaces that drive the graph.
\<close>

end
